(* ===== verification/Prelude.thy ===== *)
theory Prelude
  imports Main "HOL-Library.Word" "HOL-Library.Monad_Syntax"
begin

unbundle bit_operations_syntax

text \<open>
  Shared vocabulary of the development: the collections of simplification facts, the machine
  types of the C sources (\<open>rt_uint8_t\<close>, \<open>rt_uint16_t\<close>, \<open>rt_uint32_t\<close> as words, error codes as
  integers), the assertion of the kernel as a partial step, and the generic facts on lists
  and words that the component theories use.
\<close>

named_theorems stat_simps \<open>bit manipulation of the status byte of a thread\<close>
named_theorems queue_simps \<open>contents of the queues after a list operation\<close>

type_synonym u8 = "8 word"
type_synonym u16 = "16 word"
type_synonym u32 = "32 word"
type_synonym rt_err_t = int
type_synonym rt_tick_t = "32 word"

text \<open>
  Error codes (\<open>include/rtdef.h\<close>); a failing function returns the negated code.
\<close>

abbreviation (input) RT_EOK :: rt_err_t where "RT_EOK \<equiv> 0"
abbreviation (input) RT_ERROR :: rt_err_t where "RT_ERROR \<equiv> 1"
abbreviation (input) RT_ETIMEOUT :: rt_err_t where "RT_ETIMEOUT \<equiv> 2"
abbreviation (input) RT_EFULL :: rt_err_t where "RT_EFULL \<equiv> 3"
abbreviation (input) RT_EEMPTY :: rt_err_t where "RT_EEMPTY \<equiv> 4"
abbreviation (input) RT_ENOMEM :: rt_err_t where "RT_ENOMEM \<equiv> 5"
abbreviation (input) RT_ENOSYS :: rt_err_t where "RT_ENOSYS \<equiv> 6"
abbreviation (input) RT_EBUSY :: rt_err_t where "RT_EBUSY \<equiv> 7"
abbreviation (input) RT_EINTR :: rt_err_t where "RT_EINTR \<equiv> 9"
abbreviation (input) RT_EINVAL :: rt_err_t where "RT_EINVAL \<equiv> 10"

text \<open>
  A computation that may not return normally has an \<open>option\<close> result. \<open>None\<close> stands for a
  failed \<open>RT_ASSERT\<close> (its handler spins for ever, \<open>rt_assert_handler\<close> in \<open>src/kservice.c\<close>), a
  NULL pointer dereference or an array access out of range.
\<close>

definition rt_assert :: "bool \<Rightarrow> unit option" where
  "rt_assert b = (if b then Some () else None)"

lemma rt_assert_simps [simp]:
  "rt_assert True = Some ()" "rt_assert False = None"
  by (simp_all add: rt_assert_def)

lemma rt_assert_eq_Some [simp]: "rt_assert b = Some u \<longleftrightarrow> b"
  by (cases b) (simp_all add: rt_assert_def)

lemma rt_assert_bind_Some [simp]: "rt_assert b \<bind> f = Some r \<longleftrightarrow> b \<and> f () = Some r"
  by (cases b) (simp_all add: rt_assert_def)

lemma bind_eq_SomeE:
  assumes "m \<bind> f = Some r"
  obtains x where "m = Some x" "f x = Some r"
  using assms by (cases m) auto

subsection \<open>Lists\<close>

lemma removeAll_absent [simp]: "x \<notin> set xs \<Longrightarrow> removeAll x xs = xs"
  by (induction xs) auto

lemma removeAll_snoc_same: "removeAll x (xs @ [x]) = removeAll x xs"
  by (induction xs) auto

text \<open>Insertion before the first element that satisfies \<open>P\<close>, at the end when none does.\<close>

fun insert_before_first :: "('a \<Rightarrow> bool) \<Rightarrow> 'a \<Rightarrow> 'a list \<Rightarrow> 'a list" where
  "insert_before_first P x [] = [x]"
| "insert_before_first P x (y # ys) =
     (if P y then x # y # ys else y # insert_before_first P x ys)"

lemma set_insert_before_first [simp, queue_simps]:
  "set (insert_before_first P x ys) = insert x (set ys)"
  by (induction ys) auto

lemma distinct_insert_before_first [simp, queue_simps]:
  "distinct (insert_before_first P x ys) \<longleftrightarrow> x \<notin> set ys \<and> distinct ys"
  by (induction ys) auto

lemma insert_before_first_nonempty [simp]: "insert_before_first P x ys \<noteq> []"
  by (cases ys) auto

lemma length_insert_before_first [simp]:
  "length (insert_before_first P x ys) = Suc (length ys)"
  by (induction ys) auto

lemma sorted_insert_before_first:
  fixes key :: "'a \<Rightarrow> 'b::linorder"
  assumes "sorted (map key ys)" and "\<And>y. y \<in> set ys \<Longrightarrow> P y \<longleftrightarrow> key x < key y"
  shows "sorted (map key (insert_before_first P x ys))"
  using assms
proof (induction ys)
  case Nil
  then show ?case by simp
next
  case (Cons y ys)
  then show ?case by (cases "P y") force+
qed

text \<open>
  The elements equal to the new one stay in front of it: insertion is first-in first-out
  among equals.
\<close>

lemma insert_before_first_split:
  "\<exists>as bs. ys = as @ bs \<and> insert_before_first P x ys = as @ x # bs
     \<and> (\<forall>a \<in> set as. \<not> P a) \<and> (bs \<noteq> [] \<longrightarrow> P (hd bs))"
proof (induction ys)
  case Nil
  then show ?case by simp
next
  case (Cons y ys)
  show ?case
  proof (cases "P y")
    case True
    then show ?thesis by (intro exI [of _ "[]"] exI [of _ "y # ys"]) simp
  next
    case False
    from Cons.IH obtain as bs where *: "ys = as @ bs"
      "insert_before_first P x ys = as @ x # bs" "\<forall>a \<in> set as. \<not> P a"
      "bs \<noteq> [] \<longrightarrow> P (hd bs)" by blast
    with False show ?thesis by (intro exI [of _ "y # as"] exI [of _ bs]) auto
  qed
qed

text \<open>
  The contract of a queue that is kept in the order of a key, first-in first-out among equal
  keys: its insertion puts the new element before the first one with a greater key. \<open>ok\<close>
  restricts the elements for which the code's comparison agrees with the key.
\<close>

locale ordered_queue =
  fixes key :: "'a \<Rightarrow> 'b::linorder" and ok :: "'a \<Rightarrow> bool" and ins :: "'a \<Rightarrow> 'a list \<Rightarrow> 'a list"
  assumes ins_eq: "ok x \<Longrightarrow> \<forall>y \<in> set ys. ok y \<Longrightarrow>
    ins x ys = insert_before_first (\<lambda>y. key x < key y) x ys"
begin

lemma ins_set: "ok x \<Longrightarrow> \<forall>y \<in> set ys. ok y \<Longrightarrow> set (ins x ys) = insert x (set ys)"
  by (simp add: ins_eq)

lemma ins_sorted:
  assumes "ok x" "\<forall>y \<in> set ys. ok y" "sorted (map key ys)"
  shows "sorted (map key (ins x ys))"
  unfolding ins_eq [OF assms(1,2)] using assms(3) by (rule sorted_insert_before_first) simp

lemma ins_stable:
  assumes "ok x" "\<forall>y \<in> set ys. ok y" "sorted (map key ys)"
  shows "\<exists>as bs. ys = as @ bs \<and> ins x ys = as @ x # bs
    \<and> (\<forall>a \<in> set as. key a \<le> key x) \<and> (\<forall>b \<in> set bs. key x < key b)"
proof -
  obtain as bs where s: "ys = as @ bs" "insert_before_first (\<lambda>y. key x < key y) x ys = as @ x # bs"
    "\<forall>a \<in> set as. \<not> key x < key a" "bs \<noteq> [] \<longrightarrow> key x < key (hd bs)"
    using insert_before_first_split by metis
  have "key x < key b" if b: "b \<in> set bs" for b
  proof -
    obtain c cs where bs: "bs = c # cs" using b by (cases bs) auto
    have "sorted (map key bs)" using assms(3) s(1) by (simp add: sorted_append)
    then have "key c \<le> key b" using b bs by auto
    then show ?thesis using s(4) bs by simp
  qed
  then show ?thesis using s ins_eq [OF assms(1,2)] by (auto simp: not_less)
qed

end

subsection \<open>Words\<close>

lemma bit_push_one_32: "bit (push_bit n (1 :: 32 word)) m \<longleftrightarrow> m = n \<and> m < 32"
  by (auto simp: bit_push_bit_iff bit_1_iff possible_bit_def simp del: push_bit_of_1)

lemma word32_eq_0_iff_bits: "(w :: 32 word) = 0 \<longleftrightarrow> (\<forall>i < 32. \<not> bit w i)"
  by (auto intro!: bit_word_eqI)

text \<open>Flags in a byte: testing, setting and clearing a mask.\<close>

definition has_flag :: "'a::len word \<Rightarrow> 'a word \<Rightarrow> bool" where
  "has_flag m f \<longleftrightarrow> f AND m \<noteq> 0"

definition set_flag :: "'a::len word \<Rightarrow> 'a word \<Rightarrow> 'a word" where
  "set_flag m f = f OR m"

definition clear_flag :: "'a::len word \<Rightarrow> 'a word \<Rightarrow> 'a word" where
  "clear_flag m f = f AND NOT m"

lemma has_flag_clear_same [simp, stat_simps]: "\<not> has_flag m (clear_flag m f)"
  by (simp add: has_flag_def clear_flag_def and.assoc)

lemma has_flag_set_same [simp, stat_simps]: "m \<noteq> 0 \<Longrightarrow> has_flag m (set_flag m f)"
  by (simp add: has_flag_def set_flag_def bit.conj_disj_distrib2)

lemma has_flag_clear_other [simp, stat_simps]:
  assumes "m AND c = 0"
  shows "has_flag m (clear_flag c f) = has_flag m f"
proof -
  have "(f AND NOT c) AND m = f AND m"
  proof (rule bit_word_eqI)
    fix n assume "n < LENGTH('a)"
    have "\<not> bit (m AND c) n" using assms by simp
    then show "bit ((f AND NOT c) AND m) n = bit (f AND m) n"
      using \<open>n < LENGTH('a)\<close> by (auto simp: bit_simps)
  qed
  then show ?thesis by (simp add: has_flag_def clear_flag_def)
qed

lemma has_flag_set_other [simp, stat_simps]:
  "m AND c = 0 \<Longrightarrow> has_flag m (set_flag c f) = has_flag m f"
  by (simp add: has_flag_def set_flag_def bit.conj_disj_distrib2 and.commute [of c m])

lemma clear_flag_absent:
  fixes m f :: "'a::len word"
  shows "\<not> has_flag m f \<Longrightarrow> clear_flag m f = f"
proof -
  assume "\<not> has_flag m f"
  then have 0: "f AND m = 0" by (simp add: has_flag_def)
  have "bit (f AND NOT m) n = bit f n" if "n < LENGTH('a)" for n
  proof -
    have "\<not> bit (f AND m) n" using 0 by simp
    then show ?thesis using that by (auto simp: bit_simps)
  qed
  then show ?thesis by (auto simp: clear_flag_def intro: bit_word_eqI)
qed

lemma unat_inc:
  fixes v :: "'a::len word"
  assumes "v < w"
  shows "unat (v + 1) = unat v + 1"
proof -
  have "unat v < unat w" using assms by (simp add: word_less_nat_alt)
  then have "Suc (unat v) < 2 ^ LENGTH('a)" using unsigned_less [of w, where ?'a = nat] by linarith
  then show ?thesis by (simp add: unat_word_ariths take_bit_nat_eq_self unsigned_1 flip: take_bit_eq_mod)
qed

lemma unat_dec:
  fixes v :: "'a::len word"
  assumes "v \<noteq> 0"
  shows "unat (v - 1) + 1 = unat v"
  using unat_minus_one [OF assms] unat_gt_0 [of v] assms by linarith

text \<open>Rounding up to a multiple of a power of two (\<open>include/rtdef.h\<close>); it wraps around near the top.\<close>

definition RT_ALIGN :: "u32 \<Rightarrow> u32 \<Rightarrow> u32" where
  "RT_ALIGN sz align = (sz + align - 1) AND NOT (align - 1)"

text \<open>Alignment to the eight bytes of \<open>RT_ALIGN_SIZE\<close>.\<close>

lemma and_not_7: "x AND NOT 7 = (push_bit 3 (drop_bit 3 x) :: u32)"
proof -
  have e: "(7::u32) = mask 3" by (simp add: mask_eq_exp_minus_1)
  show ?thesis unfolding e by (rule bit_word_eqI) (auto simp: bit_simps)
qed

lemma unat_RT_ALIGN_8: "unat (RT_ALIGN n 8) = (unat n + 7) mod 2 ^ 32 div 8 * 8"
proof -
  have "unat (push_bit 3 (drop_bit 3 x) :: u32) = unat x div 8 * 8" for x :: u32
  proof -
    have "unat x div 8 * 8 < 2 ^ 32" using unsigned_less [of x, where ?'a = nat] by simp
    then show ?thesis
      by (simp add: push_bit_eq_mult drop_bit_eq_div unat_word_ariths unat_div_distrib)
  qed
  moreover have "RT_ALIGN n 8 = (n + 7) AND NOT 7" by (simp add: RT_ALIGN_def add.commute)
  moreover have "unat (n + 7) = (unat n + 7) mod 2 ^ 32" by (simp add: unat_word_ariths)
  ultimately show ?thesis unfolding and_not_7 by metis
qed
end
