(* ===== verification/Kernel_State.thy ===== *)
theory Kernel_State
  imports Prelude
begin

text \<open>
  The data of the RT-Thread kernel as \<open>include/rtdef.h\<close> declares it, for the configuration of
  the board (\<open>mcu/ra6m3-hmi/rtconfig.h\<close>: one core, 32 priorities, RT_DEBUG, no signals, no
  SMART). Objects are named by numbers instead of pointers, one name space per class. The
  intrusive \<open>tlist\<close> node links a thread into at most one list at a time; a list is named by a
  \<open>queue\<close> and its contents are the thread numbers from the node after the head to the last.
\<close>

type_synonym tid = nat
type_synonym oid = nat

datatype obj_class =
    Class_Null | Class_Thread | Class_Semaphore | Class_Mutex | Class_Event
  | Class_MailBox | Class_MessageQueue | Class_MemHeap | Class_MemPool | Class_Device
  | Class_Timer | Class_Module | Class_Memory | Class_Channel | Class_Custom
  | Class_Unknown

datatype timer_id = ThreadTimer tid | ObjTimer oid

text \<open>
  The timeout function of a timer: \<open>_thread_timeout\<close> of \<open>thread.c\<close> or a function of the
  application, by number.
\<close>

datatype timeout_fn = ThreadTimeout | UserTimeout nat

datatype queue =
    QReady nat
  | QSem oid
  | QMutex oid
  | QEvent oid
  | QMb oid | QMbSender oid
  | QMq oid | QMqSender oid
  | QMp oid
  | QCompletion oid
  | QPush oid | QPop oid
  | QDefunct

record rt_thread =
  th_type :: obj_class
  th_static :: bool
  th_error :: rt_err_t
  th_stat :: u8
  th_current_priority :: u8
  th_init_priority :: u8
  th_number_mask :: u32
  th_pending_object :: "oid option"
  th_event_set :: u32
  th_event_info :: u8
  th_init_tick :: u32
  th_remaining_tick :: u32

record rt_timer =
  tm_type :: obj_class
  tm_static :: bool
  tm_flag :: u8
  tm_timeout_func :: timeout_fn
  tm_parameter :: nat
  tm_init_tick :: rt_tick_t
  tm_timeout_tick :: rt_tick_t

record rt_semaphore =
  sem_type :: obj_class
  sem_static :: bool
  sem_flag :: u8
  sem_value :: u16

record rt_mutex =
  mx_type :: obj_class
  mx_static :: bool
  mx_flag :: u8
  mx_ceiling_priority :: u8
  mx_priority :: u8
  mx_hold :: u8
  mx_owner :: "tid option"

record rt_event =
  ev_type :: obj_class
  ev_static :: bool
  ev_flag :: u8
  ev_set :: u32

record rt_mailbox =
  mb_type :: obj_class
  mb_static :: bool
  mb_flag :: u8
  mb_msg_pool :: "u32 list"
  mb_size :: u16
  mb_entry :: u16
  mb_in_offset :: u16
  mb_out_offset :: u16

record rt_messagequeue =
  mq_type :: obj_class
  mq_static :: bool
  mq_flag :: u8
  mq_msg_size :: u16
  mq_max_msgs :: u16
  mq_entry :: u16
  mq_msg_queue_head :: "nat option"
  mq_msg_queue_tail :: "nat option"
  mq_msg_queue_free :: "nat option"
  mq_msg_next :: "nat \<Rightarrow> nat option"
  mq_msg_data :: "nat \<Rightarrow> u8 list"

record kernel =
  threads :: "tid \<Rightarrow> rt_thread"
  tq :: "queue \<Rightarrow> tid list"
  taken_objects :: "tid \<Rightarrow> oid list"
  rt_thread_ready_priority_group :: u32
  rt_current_thread :: "tid option"
  rt_current_priority :: u8
  rt_scheduler_lock_nest :: u16
  rt_interrupt_nest :: u8
  rt_tick :: rt_tick_t
  timers :: "timer_id \<Rightarrow> rt_timer"
  timer_list :: "timer_id list"
  timer_expired :: "timer_id list"
  soft_timer_list :: "timer_id list"
  soft_timer_expired :: "timer_id list"
  soft_timer_idle :: bool
  timer_thread :: tid
  sems :: "oid \<Rightarrow> rt_semaphore"
  mutexes :: "oid \<Rightarrow> rt_mutex"
  events :: "oid \<Rightarrow> rt_event"
  mailboxes :: "oid \<Rightarrow> rt_mailbox"
  msgqueues :: "oid \<Rightarrow> rt_messagequeue"

text \<open>
  The state before start-up: the kernel's variables are in zeroed static storage, and no
  object of any class is initialised. The argument is the number of the timer thread, whose
  control block is a static variable of its own.
\<close>

definition thread_bss :: rt_thread where
  "thread_bss = \<lparr>th_type = Class_Null, th_static = False, th_error = 0, th_stat = 0,
     th_current_priority = 0, th_init_priority = 0, th_number_mask = 0,
     th_pending_object = None, th_event_set = 0, th_event_info = 0,
     th_init_tick = 0, th_remaining_tick = 0\<rparr>"

definition kernel_bss :: "tid \<Rightarrow> kernel" where
  "kernel_bss tmr = \<lparr>threads = (\<lambda>_. thread_bss), tq = (\<lambda>_. []), taken_objects = (\<lambda>_. []),
     rt_thread_ready_priority_group = 0, rt_current_thread = None, rt_current_priority = 0,
     rt_scheduler_lock_nest = 0, rt_interrupt_nest = 0, rt_tick = 0,
     timers = (\<lambda>_. \<lparr>tm_type = Class_Null, tm_static = False, tm_flag = 0,
                    tm_timeout_func = UserTimeout 0, tm_parameter = 0, tm_init_tick = 0, tm_timeout_tick = 0\<rparr>),
     timer_list = [], timer_expired = [], soft_timer_list = [], soft_timer_expired = [],
     soft_timer_idle = True, timer_thread = tmr,
     sems = (\<lambda>_. \<lparr>sem_type = Class_Null, sem_static = False, sem_flag = 0, sem_value = 0\<rparr>),
     mutexes = (\<lambda>_. \<lparr>mx_type = Class_Null, mx_static = False, mx_flag = 0,
                     mx_ceiling_priority = 0, mx_priority = 0, mx_hold = 0, mx_owner = None\<rparr>),
     events = (\<lambda>_. \<lparr>ev_type = Class_Null, ev_static = False, ev_flag = 0, ev_set = 0\<rparr>),
     mailboxes = (\<lambda>_. \<lparr>mb_type = Class_Null, mb_static = False, mb_flag = 0, mb_msg_pool = [],
                       mb_size = 0, mb_entry = 0, mb_in_offset = 0, mb_out_offset = 0\<rparr>),
     msgqueues = (\<lambda>_. \<lparr>mq_type = Class_Null, mq_static = False, mq_flag = 0, mq_msg_size = 0,
                       mq_max_msgs = 0, mq_entry = 0, mq_msg_queue_head = None,
                       mq_msg_queue_tail = None, mq_msg_queue_free = None,
                       mq_msg_next = (\<lambda>_. None), mq_msg_data = (\<lambda>_. [])\<rparr>)\<rparr>"

end
