(* ===== verification/Kernel_Sched.thy ===== *)
theory Kernel_Sched
  imports Kernel_State
begin

text \<open>
  The scheduler (\<open>src/scheduler.c\<close>, one-core variants): the ready queues, one per priority,
  the bit group of the non-empty ones, the choice of the next thread and the scheduler lock.
  \<open>sched_ok\<close> is the well-formedness of the thread states and queues; every operation here
  preserves it, and \<open>rt_schedule\<close> leaves a thread of the highest ready priority running.
\<close>

subsection \<open>The status byte\<close>

abbreviation (input) RT_THREAD_INIT :: u8 where "RT_THREAD_INIT \<equiv> 0"
abbreviation (input) RT_THREAD_CLOSE :: u8 where "RT_THREAD_CLOSE \<equiv> 1"
abbreviation (input) RT_THREAD_READY :: u8 where "RT_THREAD_READY \<equiv> 2"
abbreviation (input) RT_THREAD_RUNNING :: u8 where "RT_THREAD_RUNNING \<equiv> 3"
abbreviation (input) RT_THREAD_SUSPEND_MASK :: u8 where "RT_THREAD_SUSPEND_MASK \<equiv> 4"
abbreviation (input) RT_THREAD_SUSPEND_INTERRUPTIBLE :: u8 where "RT_THREAD_SUSPEND_INTERRUPTIBLE \<equiv> 4"
abbreviation (input) RT_THREAD_SUSPEND_KILLABLE :: u8 where "RT_THREAD_SUSPEND_KILLABLE \<equiv> 6"
abbreviation (input) RT_THREAD_SUSPEND_UNINTERRUPTIBLE :: u8 where
  "RT_THREAD_SUSPEND_UNINTERRUPTIBLE \<equiv> 7"
abbreviation (input) RT_THREAD_STAT_MASK :: u8 where "RT_THREAD_STAT_MASK \<equiv> 7"
abbreviation (input) RT_THREAD_STAT_YIELD_MASK :: u8 where "RT_THREAD_STAT_YIELD_MASK \<equiv> 8"
abbreviation (input) RT_THREAD_PRIORITY_MAX :: nat where "RT_THREAD_PRIORITY_MAX \<equiv> 32"

definition stat_base :: "u8 \<Rightarrow> u8" where
  "stat_base s = s AND RT_THREAD_STAT_MASK"

definition set_stat :: "u8 \<Rightarrow> u8 \<Rightarrow> u8" where
  "set_stat v s = v OR (s AND NOT RT_THREAD_STAT_MASK)"

definition stat_yield :: "u8 \<Rightarrow> bool" where
  "stat_yield s \<longleftrightarrow> s AND RT_THREAD_STAT_YIELD_MASK \<noteq> 0"

definition stat_suspended :: "u8 \<Rightarrow> bool" where
  "stat_suspended s \<longleftrightarrow> s AND RT_THREAD_SUSPEND_MASK = RT_THREAD_SUSPEND_MASK"

definition clear_yield :: "u8 \<Rightarrow> u8" where
  "clear_yield s = s AND NOT RT_THREAD_STAT_YIELD_MASK"

lemma stat_base_set_stat [simp, stat_simps]:
  "stat_base (set_stat v s) = v AND RT_THREAD_STAT_MASK"
  unfolding stat_base_def set_stat_def by (rule bit_word_eqI) (auto simp: bit_simps)

lemma stat_yield_set_stat [simp, stat_simps]:
  "v AND RT_THREAD_STAT_YIELD_MASK = 0 \<Longrightarrow> stat_yield (set_stat v s) = stat_yield s"
proof -
  assume v: "v AND RT_THREAD_STAT_YIELD_MASK = 0"
  have "set_stat v s AND 8 = (v AND 8) OR (s AND (NOT 7 AND 8))"
    unfolding set_stat_def by (simp only: bit.conj_disj_distrib2 and.assoc)
  also have "\<dots> = s AND 8" using v by simp
  finally show ?thesis by (simp add: stat_yield_def)
qed

lemma stat_suspended_set_stat [simp, stat_simps]:
  "stat_suspended (set_stat v s) \<longleftrightarrow> v AND RT_THREAD_SUSPEND_MASK = RT_THREAD_SUSPEND_MASK"
proof -
  have "set_stat v s AND 4 = (v AND 4) OR (s AND (NOT 7 AND 4))"
    unfolding set_stat_def by (simp only: bit.conj_disj_distrib2 and.assoc)
  also have "\<dots> = v AND 4" by simp
  finally show ?thesis by (simp add: stat_suspended_def)
qed

lemma stat_base_and_not_yield [simp, stat_simps]:
  "stat_base (clear_yield s) = stat_base s"
  by (simp add: stat_base_def clear_yield_def and.assoc)

lemma stat_yield_and_not_yield [simp, stat_simps]:
  "\<not> stat_yield (clear_yield s)"
  by (simp add: stat_yield_def clear_yield_def and.assoc)

lemma stat_suspended_iff_base: "stat_suspended s \<longleftrightarrow> stat_base s AND 4 = 4"
  by (simp add: stat_suspended_def stat_base_def and.assoc)

lemma stat_base_values [stat_simps]:
  "stat_base 0 = 0" "stat_base 1 = 1" "stat_base 2 = 2" "stat_base 3 = 3"
  "stat_base 4 = 4" "stat_base 6 = 6" "stat_base 7 = 7"
  by (simp_all add: stat_base_def)


subsection \<open>Threads and queues of the kernel state\<close>

abbreviation upd_thread :: "tid \<Rightarrow> (rt_thread \<Rightarrow> rt_thread) \<Rightarrow> kernel \<Rightarrow> kernel" where
  "upd_thread t f k \<equiv> k\<lparr>threads := (threads k)(t := f (threads k t))\<rparr>"

abbreviation thread_prio :: "kernel \<Rightarrow> tid \<Rightarrow> nat" where
  "thread_prio k t \<equiv> unat (th_current_priority (threads k t))"

abbreviation thread_state :: "kernel \<Rightarrow> tid \<Rightarrow> u8" where
  "thread_state k t \<equiv> stat_base (th_stat (threads k t))"

definition put_stat :: "tid \<Rightarrow> u8 \<Rightarrow> kernel \<Rightarrow> kernel" where
  "put_stat t v k = upd_thread t (th_stat_update (set_stat v)) k"

text \<open>
  The intrusive list operations on the node \<open>tlist\<close> of a thread. Removing a node unlinks it
  from whatever list it is in; on a node that is in none it does nothing.
\<close>

definition rt_list_remove :: "tid \<Rightarrow> kernel \<Rightarrow> kernel" where
  "rt_list_remove t k = k\<lparr>tq := \<lambda>q. removeAll t (tq k q)\<rparr>"

definition rt_list_insert_after :: "queue \<Rightarrow> tid \<Rightarrow> kernel \<Rightarrow> kernel" where
  "rt_list_insert_after q t k = k\<lparr>tq := (tq k)(q := t # tq k q)\<rparr>"

definition rt_list_insert_before :: "queue \<Rightarrow> tid \<Rightarrow> kernel \<Rightarrow> kernel" where
  "rt_list_insert_before q t k = k\<lparr>tq := (tq k)(q := tq k q @ [t])\<rparr>"

definition rt_list_isempty :: "queue \<Rightarrow> kernel \<Rightarrow> bool" where
  "rt_list_isempty q k \<longleftrightarrow> tq k q = []"

subsection \<open>Operations\<close>

text \<open>
  \<open>__rt_ffs\<close> is the compiler's \<open>__builtin_ffs\<close> on this board (\<open>RT_USING_CPU_FFS\<close>): one plus the
  number of the lowest set bit, 0 when there is none.
\<close>

definition rt_ffs :: "u32 \<Rightarrow> nat" where
  "rt_ffs w = (case filter (bit w) [0..<32] of [] \<Rightarrow> 0 | i # _ \<Rightarrow> Suc i)"

definition scheduler_get_highest_priority_thread :: "kernel \<Rightarrow> (tid \<times> nat) option" where
  "scheduler_get_highest_priority_thread k = (
     case rt_ffs (rt_thread_ready_priority_group k) of
       0 \<Rightarrow> None
     | Suc highest_ready_priority \<Rightarrow>
         (case tq k (QReady highest_ready_priority) of
            [] \<Rightarrow> None
          | t # _ \<Rightarrow> Some (t, highest_ready_priority)))"

definition rt_system_scheduler_init :: "kernel \<Rightarrow> kernel" where
  "rt_system_scheduler_init k = k\<lparr>
     rt_scheduler_lock_nest := 0,
     tq := (\<lambda>q. case q of QReady p \<Rightarrow> if p < RT_THREAD_PRIORITY_MAX then [] else tq k q
                        | _ \<Rightarrow> tq k q),
     rt_thread_ready_priority_group := 0\<rparr>"

definition rt_schedule_insert_thread :: "tid \<Rightarrow> kernel \<Rightarrow> kernel option" where
  "rt_schedule_insert_thread t k =
     (if rt_current_thread k = Some t then Some (put_stat t RT_THREAD_RUNNING k)
      else do {
        let k1 = put_stat t RT_THREAD_READY k;
        let p = thread_prio k1 t;
        rt_assert (p < RT_THREAD_PRIORITY_MAX);
        let k2 = (if stat_yield (th_stat (threads k1 t))
                  then rt_list_insert_before (QReady p) t k1
                  else rt_list_insert_after (QReady p) t k1);
        Some (k2\<lparr>rt_thread_ready_priority_group :=
                 rt_thread_ready_priority_group k2 OR th_number_mask (threads k2 t)\<rparr>)
      })"

definition rt_schedule_remove_thread :: "tid \<Rightarrow> kernel \<Rightarrow> kernel option" where
  "rt_schedule_remove_thread t k = do {
     let k1 = rt_list_remove t k;
     let p = thread_prio k1 t;
     rt_assert (p < RT_THREAD_PRIORITY_MAX);
     Some (if rt_list_isempty (QReady p) k1
           then k1\<lparr>rt_thread_ready_priority_group :=
                  rt_thread_ready_priority_group k1 AND NOT (th_number_mask (threads k1 t))\<rparr>
           else k1)
   }"

definition rt_system_scheduler_start :: "kernel \<Rightarrow> kernel option" where
  "rt_system_scheduler_start k = do {
     (to_thread, _) \<leftarrow> scheduler_get_highest_priority_thread k;
     k1 \<leftarrow> rt_schedule_remove_thread to_thread (k\<lparr>rt_current_thread := Some to_thread\<rparr>);
     Some (upd_thread to_thread (th_stat_update (\<lambda>_. RT_THREAD_RUNNING)) k1)
   }"

definition schedule_choose ::
  "tid \<Rightarrow> tid \<Rightarrow> nat \<Rightarrow> kernel \<Rightarrow> tid \<times> bool \<times> kernel" where
  "schedule_choose cur to highest k =
     (if thread_state k cur = RT_THREAD_RUNNING then
        (let (to', need_insert) =
               (if thread_prio k cur < highest then (cur, False)
                else if thread_prio k cur = highest
                  \<and> \<not> stat_yield (th_stat (threads k cur)) then (cur, False)
                else (to, True))
         in (to', need_insert,
             upd_thread cur (th_stat_update clear_yield) k))
      else (to, False, k))"

definition rt_schedule :: "kernel \<Rightarrow> kernel option" where
  "rt_schedule k =
     (if rt_scheduler_lock_nest k = 0 \<and> rt_thread_ready_priority_group k \<noteq> 0 then do {
        (to_thread, highest) \<leftarrow> scheduler_get_highest_priority_thread k;
        cur \<leftarrow> rt_current_thread k;
        let (to_thread, need_insert, k1) = schedule_choose cur to_thread highest k;
        if to_thread \<noteq> cur then do {
          let k2 = k1\<lparr>rt_current_priority := word_of_nat highest,
                      rt_current_thread := Some to_thread\<rparr>;
          k3 \<leftarrow> (if need_insert then rt_schedule_insert_thread cur k2 else Some k2);
          k4 \<leftarrow> rt_schedule_remove_thread to_thread k3;
          Some (put_stat to_thread RT_THREAD_RUNNING k4)
        } else do {
          k2 \<leftarrow> rt_schedule_remove_thread cur k1;
          Some (put_stat cur RT_THREAD_RUNNING k2)
        }
      } else Some k)"

definition rt_enter_critical :: "kernel \<Rightarrow> kernel" where
  "rt_enter_critical k = k\<lparr>rt_scheduler_lock_nest := rt_scheduler_lock_nest k + 1\<rparr>"

text \<open>The nesting counter is a signed 16-bit integer: \<open>rt_int16_t rt_scheduler_lock_nest\<close>.\<close>

definition rt_exit_critical :: "kernel \<Rightarrow> kernel option" where
  "rt_exit_critical k = (
     let k1 = k\<lparr>rt_scheduler_lock_nest := rt_scheduler_lock_nest k - 1\<rparr> in
     if rt_scheduler_lock_nest k1 \<le>s 0 then
       (let k2 = k1\<lparr>rt_scheduler_lock_nest := 0\<rparr> in
        if rt_current_thread k2 \<noteq> None then rt_schedule k2 else Some k2)
     else Some k1)"

definition rt_critical_level :: "kernel \<Rightarrow> u16" where
  "rt_critical_level k = rt_scheduler_lock_nest k"

subsection \<open>Well-formed thread states and queues\<close>

text \<open>
  \<open>queue_stat\<close> is the state the threads of a queue have: ready threads in the queue of their
  own priority, suspended threads in the queues of IPC objects, closed threads in the defunct
  list. \<open>thread_ok\<close> is the converse for one thread, \<open>prio_ok\<close> the consistency of its priority
  with its bit in the group. In \<open>sched_okx X\<close> the threads of \<open>X\<close> are in no queue and free of
  these constraints (an operation is changing them); \<open>sched_ok\<close> has none.
\<close>

definition queue_stat :: "queue \<Rightarrow> rt_thread \<Rightarrow> bool" where
  "queue_stat q th = (case q of
       QReady p \<Rightarrow> stat_base (th_stat th) = RT_THREAD_READY \<and> unat (th_current_priority th) = p
     | QDefunct \<Rightarrow> stat_base (th_stat th) = RT_THREAD_CLOSE
     | _ \<Rightarrow> stat_suspended (th_stat th))"

definition prio_ok :: "rt_thread \<Rightarrow> bool" where
  "prio_ok th \<longleftrightarrow> unat (th_current_priority th) < RT_THREAD_PRIORITY_MAX
     \<and> th_number_mask th = push_bit (unat (th_current_priority th)) 1"

definition thread_ok :: "kernel \<Rightarrow> tid \<Rightarrow> bool" where
  "thread_ok k t \<longleftrightarrow>
     (thread_state k t = RT_THREAD_READY \<longrightarrow> t \<in> set (tq k (QReady (thread_prio k t))))
   \<and> (thread_state k t = RT_THREAD_RUNNING \<longrightarrow> rt_current_thread k = Some t)
   \<and> (thread_state k t \<noteq> RT_THREAD_INIT \<longrightarrow> prio_ok (threads k t))"

definition group_ok :: "kernel \<Rightarrow> bool" where
  "group_ok k \<longleftrightarrow>
     (\<forall>p < RT_THREAD_PRIORITY_MAX. bit (rt_thread_ready_priority_group k) p \<longleftrightarrow> tq k (QReady p) \<noteq> [])
   \<and> (\<forall>p \<ge> RT_THREAD_PRIORITY_MAX. tq k (QReady p) = [])"

definition queues_ok :: "(queue \<Rightarrow> tid list) \<Rightarrow> bool" where
  "queues_ok tqs \<longleftrightarrow> (\<forall>q. distinct (tqs q))
     \<and> (\<forall>q r t. t \<in> set (tqs q) \<longrightarrow> t \<in> set (tqs r) \<longrightarrow> q = r)"

definition sched_okx :: "tid set \<Rightarrow> kernel \<Rightarrow> bool" where
  "sched_okx X k \<longleftrightarrow> group_ok k \<and> queues_ok (tq k)
     \<and> (\<forall>q. \<forall>t \<in> set (tq k q). t \<notin> X \<and> queue_stat q (threads k t))
     \<and> (\<forall>t. t \<notin> X \<longrightarrow> thread_ok k t)"

abbreviation sched_ok :: "kernel \<Rightarrow> bool" where
  "sched_ok \<equiv> sched_okx {}"

subsubsection \<open>Lemmas on the lists\<close>

lemma put_stat_sel [simp]:
  "tq (put_stat t v k) = tq k"
  "rt_thread_ready_priority_group (put_stat t v k) = rt_thread_ready_priority_group k"
  "rt_current_thread (put_stat t v k) = rt_current_thread k"
  "rt_current_priority (put_stat t v k) = rt_current_priority k"
  "rt_scheduler_lock_nest (put_stat t v k) = rt_scheduler_lock_nest k"
  "threads (put_stat t v k) u =
     (if u = t then th_stat_update (set_stat v) (threads k t) else threads k u)"
  by (simp_all add: put_stat_def)

lemma list_op_sel [simp]:
  "threads (rt_list_remove t k) = threads k"
  "rt_thread_ready_priority_group (rt_list_remove t k) = rt_thread_ready_priority_group k"
  "rt_current_thread (rt_list_remove t k) = rt_current_thread k"
  "threads (rt_list_insert_after q t k) = threads k"
  "rt_thread_ready_priority_group (rt_list_insert_after q t k) = rt_thread_ready_priority_group k"
  "rt_current_thread (rt_list_insert_after q t k) = rt_current_thread k"
  "threads (rt_list_insert_before q t k) = threads k"
  "rt_thread_ready_priority_group (rt_list_insert_before q t k) = rt_thread_ready_priority_group k"
  "rt_current_thread (rt_list_insert_before q t k) = rt_current_thread k"
  "tq (rt_list_remove t k) q = removeAll t (tq k q)"
  "tq (rt_list_insert_after q t k) r = (if r = q then t # tq k q else tq k r)"
  "tq (rt_list_insert_before q t k) r = (if r = q then tq k q @ [t] else tq k r)"
  by (simp_all add: rt_list_remove_def rt_list_insert_after_def rt_list_insert_before_def)

lemma sched_okx_upd_thread [simp]:
  assumes "t \<in> X"
  shows "sched_okx X (upd_thread t f k) = sched_okx X k"
proof -
  have "(\<forall>q. \<forall>u \<in> set (tq k q). u \<notin> X \<and> queue_stat q (((threads k)(t := f (threads k t))) u))
    \<longleftrightarrow> (\<forall>q. \<forall>u \<in> set (tq k q). u \<notin> X \<and> queue_stat q (threads k u))"
    using assms by (metis fun_upd_other)
  moreover have "(\<forall>u. u \<notin> X \<longrightarrow> thread_ok (upd_thread t f k) u)
    \<longleftrightarrow> (\<forall>u. u \<notin> X \<longrightarrow> thread_ok k u)"
    using assms by (auto simp: thread_ok_def)
  ultimately show ?thesis by (simp add: sched_okx_def group_ok_def)
qed

lemma sched_okx_put_stat [simp]: "t \<in> X \<Longrightarrow> sched_okx X (put_stat t v k) = sched_okx X k"
  by (simp add: put_stat_def)

text \<open>The invariant only reads four fields of the state.\<close>

lemma sched_okx_cong:
  assumes "threads k' = threads k" "tq k' = tq k"
    "rt_thread_ready_priority_group k' = rt_thread_ready_priority_group k"
    "rt_current_thread k' = rt_current_thread k"
  shows "sched_okx X k' = sched_okx X k"
  using assms by (simp add: sched_okx_def group_ok_def thread_ok_def)

lemma sched_okx_irrelevant [simp]:
  "sched_okx X (k\<lparr>taken_objects := v0\<rparr>) = sched_okx X k"
  "sched_okx X (k\<lparr>rt_current_priority := v1\<rparr>) = sched_okx X k"
  "sched_okx X (k\<lparr>rt_scheduler_lock_nest := v2\<rparr>) = sched_okx X k"
  "sched_okx X (k\<lparr>rt_interrupt_nest := v3\<rparr>) = sched_okx X k"
  "sched_okx X (k\<lparr>rt_tick := v4\<rparr>) = sched_okx X k"
  "sched_okx X (k\<lparr>timers := v5\<rparr>) = sched_okx X k"
  "sched_okx X (k\<lparr>timer_list := v6\<rparr>) = sched_okx X k"
  "sched_okx X (k\<lparr>timer_expired := v7\<rparr>) = sched_okx X k"
  "sched_okx X (k\<lparr>soft_timer_list := v8\<rparr>) = sched_okx X k"
  "sched_okx X (k\<lparr>soft_timer_expired := v9\<rparr>) = sched_okx X k"
  "sched_okx X (k\<lparr>soft_timer_idle := v10\<rparr>) = sched_okx X k"
  "sched_okx X (k\<lparr>timer_thread := v11\<rparr>) = sched_okx X k"
  "sched_okx X (k\<lparr>sems := v12\<rparr>) = sched_okx X k"
  "sched_okx X (k\<lparr>mutexes := v13\<rparr>) = sched_okx X k"
  "sched_okx X (k\<lparr>events := v14\<rparr>) = sched_okx X k"
  "sched_okx X (k\<lparr>mailboxes := v15\<rparr>) = sched_okx X k"
  "sched_okx X (k\<lparr>msgqueues := v16\<rparr>) = sched_okx X k"
  by (simp_all add: sched_okx_def group_ok_def thread_ok_def)

text \<open>
  Other fields of a thread than its state and priority may change freely, and so may the yield
  flag.
\<close>

lemma sched_okx_upd_other_field:
  assumes "stat_base (th_stat (f (threads k t))) = stat_base (th_stat (threads k t))"
    "th_current_priority (f (threads k t)) = th_current_priority (threads k t)"
    "th_number_mask (f (threads k t)) = th_number_mask (threads k t)"
  shows "sched_okx X (upd_thread t f k) = sched_okx X k"
proof -
  have th: "queue_stat q (f (threads k t)) = queue_stat q (threads k t)" for q
    using assms by (cases q) (simp_all add: queue_stat_def stat_suspended_iff_base)
  have 1: "queue_stat q (((threads k)(t := f (threads k t))) u) = queue_stat q (threads k u)" for q u
    using th by (cases "u = t") simp_all
  have 2: "thread_ok (upd_thread t f k) u = thread_ok k u" for u
    using assms by (cases "u = t") (simp_all add: thread_ok_def prio_ok_def)
  show ?thesis unfolding sched_okx_def 2 by (simp add: 1 group_ok_def del: fun_upd_apply)
qed

subsubsection \<open>The primitives keep the invariant\<close>

lemma not_in_X_queue: "sched_okx X k \<Longrightarrow> t \<in> X \<Longrightarrow> t \<notin> set (tq k q)"
  by (auto simp: sched_okx_def)

lemma ready_queueD:
  assumes "sched_okx X k" "t \<in> set (tq k (QReady p))"
  shows "thread_prio k t = p" "thread_state k t = RT_THREAD_READY"
proof -
  have "queue_stat (QReady p) (threads k t)" using assms by (simp add: sched_okx_def)
  then show "thread_prio k t = p" "thread_state k t = RT_THREAD_READY"
    by (simp_all add: queue_stat_def)
qed

lemma queues_ok_remove: "queues_ok tqs \<Longrightarrow> queues_ok (\<lambda>q. removeAll t (tqs q))"
  unfolding queues_ok_def by (auto simp: distinct_removeAll)

lemma queues_ok_insert:
  assumes "queues_ok tqs" "\<And>q. t \<notin> set (tqs q)" "distinct xs" "set xs = insert t (set (tqs q))"
  shows "queues_ok (tqs(q := xs))"
  using assms unfolding queues_ok_def by (auto split: if_splits)

text \<open>Leaving the ready queue clears the bit of the priority when the queue becomes empty.\<close>

lemma removed_queue_nonempty:
  assumes "sched_okx X k" "t \<notin> X" "thread_state k t \<noteq> RT_THREAD_INIT" "p \<noteq> thread_prio k t"
  shows "removeAll t (tq k (QReady p)) = tq k (QReady p)"
proof -
  have "t \<notin> set (tq k (QReady p))"
    using assms by (fastforce simp: sched_okx_def queue_stat_def)
  then show ?thesis by simp
qed

lemma rt_schedule_remove_thread_okx:
  assumes k: "sched_okx X k" and t: "t \<notin> X" "thread_state k t \<noteq> RT_THREAD_INIT"
  obtains k' where "rt_schedule_remove_thread t k = Some k'" "sched_okx (insert t X) k'"
    "threads k' = threads k" "tq k' = (\<lambda>q. removeAll t (tq k q))"
    "rt_current_thread k' = rt_current_thread k"
proof -
  let ?p = "thread_prio k t"
  have tok: "thread_ok k t" using k t by (auto simp: sched_okx_def)
  then have p: "?p < 32" "th_number_mask (threads k t) = push_bit ?p 1"
    using t by (auto simp: thread_ok_def prio_ok_def)
  define g where "g = (if removeAll t (tq k (QReady ?p)) = []
    then rt_thread_ready_priority_group k AND NOT (th_number_mask (threads k t))
    else rt_thread_ready_priority_group k)"
  define k' where "k' = k\<lparr>tq := \<lambda>q. removeAll t (tq k q), rt_thread_ready_priority_group := g\<rparr>"
  have ex: "rt_schedule_remove_thread t k = Some k'"
    using p by (simp add: rt_schedule_remove_thread_def rt_list_isempty_def k'_def g_def
        rt_list_remove_def)
  have keep: "removeAll t (tq k (QReady p)) = tq k (QReady p)" if "p \<noteq> ?p" for p
    using removed_queue_nonempty [OF k t that] .
  have gok: "group_ok k" using k by (simp add: sched_okx_def)
  have "bit g p \<longleftrightarrow> removeAll t (tq k (QReady p)) \<noteq> []" if "p < 32" for p
  proof (cases "p = ?p")
    case True
    have "tq k (QReady ?p) \<noteq> []" if "removeAll t (tq k (QReady ?p)) \<noteq> []" using that by auto
    then show ?thesis using True gok p that
      by (auto simp: g_def group_ok_def bit_simps bit_push_one_32 simp del: push_bit_of_1)
  next
    case False
    then show ?thesis using gok p that keep [OF False]
      by (auto simp: g_def group_ok_def bit_simps bit_push_one_32 simp del: push_bit_of_1)
  qed
  then have "group_ok k'" using gok by (auto simp: group_ok_def k'_def)
  moreover have "queues_ok (tq k')" using k by (simp add: k'_def sched_okx_def queues_ok_remove)
  moreover have "thread_ok k' u" if "u \<noteq> t" "u \<notin> X" for u
    using k that by (auto simp: sched_okx_def thread_ok_def k'_def)
  ultimately have "sched_okx (insert t X) k'"
    using k by (auto simp: sched_okx_def k'_def)
  then show ?thesis by (rule that [OF ex]) (simp_all add: k'_def)
qed

lemma sched_okx_leave:
  assumes k: "sched_okx (insert t X) k" and "prio_ok (threads k t)"
    and "thread_state k t \<noteq> RT_THREAD_READY"
    and "thread_state k t = RT_THREAD_RUNNING \<Longrightarrow> rt_current_thread k = Some t"
  shows "sched_okx (X - {t}) k"
proof -
  have "thread_ok k u" if "u \<notin> X - {t}" for u
    using assms that by (cases "u = t") (auto simp: sched_okx_def thread_ok_def)
  then show ?thesis using k by (auto simp: sched_okx_def)
qed

lemma sched_okx_enqueue:
  assumes k: "sched_okx (insert t X) k" and "prio_ok (threads k t)"
    and "queue_stat q (threads k t)" and q: "\<And>p. q \<noteq> QReady p"
    and xs: "distinct xs" "set xs = insert t (set (tq k q))"
  shows "sched_okx (X - {t}) (k\<lparr>tq := (tq k)(q := xs)\<rparr>)"
proof -
  have "queues_ok ((tq k)(q := xs))"
    using k xs not_in_X_queue [OF k] by (intro queues_ok_insert) (auto simp: sched_okx_def)
  moreover have "group_ok (k\<lparr>tq := (tq k)(q := xs)\<rparr>)"
    using k q by (auto simp: sched_okx_def group_ok_def)
  moreover have "thread_ok (k\<lparr>tq := (tq k)(q := xs)\<rparr>) u" if "u \<notin> X - {t}" for u
  proof (cases "u = t")
    case True
    then show ?thesis using assms(2,3) q
      by (auto simp: thread_ok_def queue_stat_def stat_suspended_iff_base split: queue.splits)
  next
    case False
    then show ?thesis using k that q by (auto simp: sched_okx_def thread_ok_def)
  qed
  ultimately show ?thesis
    using k xs assms(3) by (auto simp: sched_okx_def)
qed

lemma rt_schedule_insert_thread_okx:
  assumes k: "sched_okx (insert t X) k" and pr: "prio_ok (threads k t)"
  obtains k' where "rt_schedule_insert_thread t k = Some k'" "sched_okx (X - {t}) k'"
    "rt_current_thread k' = rt_current_thread k"
    "threads k' = (threads k)(t := th_stat_update (set_stat (if rt_current_thread k = Some t
        then RT_THREAD_RUNNING else RT_THREAD_READY)) (threads k t))"
    "\<And>q. set (tq k' q) = (if rt_current_thread k \<noteq> Some t \<and> q = QReady (thread_prio k t)
        then insert t (set (tq k q)) else set (tq k q))"
proof (cases "rt_current_thread k = Some t")
  case True
  have "sched_okx (insert t X) (put_stat t RT_THREAD_RUNNING k)" using k by simp
  then have "sched_okx (X - {t}) (put_stat t RT_THREAD_RUNNING k)"
    using pr True by (elim sched_okx_leave) (auto simp: prio_ok_def)
  moreover have "threads (put_stat t RT_THREAD_RUNNING k)
      = (threads k)(t := th_stat_update (set_stat RT_THREAD_RUNNING) (threads k t))"
    by (simp add: put_stat_def)
  ultimately show ?thesis using True
    by (intro that [of "put_stat t RT_THREAD_RUNNING k"])
      (simp_all add: rt_schedule_insert_thread_def)
next
  case False
  let ?p = "thread_prio k t"
  define xs where "xs = (if stat_yield (th_stat (threads k t)) then tq k (QReady ?p) @ [t]
    else t # tq k (QReady ?p))"
  define ths where
    "ths = (threads k)(t := th_stat_update (set_stat RT_THREAD_READY) (threads k t))"
  define g where
    "g = rt_thread_ready_priority_group k OR th_number_mask (threads k t)"
  define k' where
    "k' = k\<lparr>threads := ths, tq := (tq k)(QReady ?p := xs), rt_thread_ready_priority_group := g\<rparr>"
  have p: "?p < 32" "th_number_mask (threads k t) = push_bit ?p 1"
    using pr by (auto simp: prio_ok_def)
  have ex: "rt_schedule_insert_thread t k = Some k'"
    using False p by (simp add: rt_schedule_insert_thread_def k'_def xs_def ths_def g_def Let_def
        rt_list_insert_after_def rt_list_insert_before_def put_stat_def)
  have nt: "t \<notin> set (tq k q)" for q using not_in_X_queue [OF k] by simp
  have xs: "distinct xs" "set xs = insert t (set (tq k (QReady ?p)))" "xs \<noteq> []"
    using k nt by (auto simp: xs_def sched_okx_def queues_ok_def)
  have "queues_ok (tq k')"
    using k xs nt by (auto simp: k'_def sched_okx_def intro!: queues_ok_insert)
  moreover have "group_ok k'"
    using k p xs by (auto simp: k'_def sched_okx_def group_ok_def g_def bit_simps bit_push_one_32
        simp del: push_bit_of_1)
  moreover have "thread_ok k' u" if "u \<notin> X - {t}" for u
  proof (cases "u = t")
    case True
    then show ?thesis using xs pr
      by (simp add: thread_ok_def k'_def ths_def prio_ok_def)
  next
    case False
    then have "thread_ok k u" using k that by (auto simp: sched_okx_def)
    moreover have "set (tq k q) \<subseteq> set (tq k' q)" for q by (auto simp: k'_def xs(2))
    moreover have "threads k' u = threads k u" "rt_current_thread k' = rt_current_thread k"
      using False by (simp_all add: k'_def ths_def)
    ultimately show ?thesis by (auto simp: thread_ok_def)
  qed
  moreover have "u \<notin> X - {t} \<and> queue_stat q (threads k' u)" if "u \<in> set (tq k' q)" for u q
  proof (cases "u = t")
    case True
    then show ?thesis using that nt by (auto simp: k'_def ths_def queue_stat_def split: if_splits)
  next
    case False
    then have "u \<in> set (tq k q)" using that xs by (auto simp: k'_def split: if_splits)
    then show ?thesis using k False by (auto simp: sched_okx_def k'_def ths_def)
  qed
  ultimately have ok: "sched_okx (X - {t}) k'" by (auto simp: sched_okx_def)
  show ?thesis
  proof (rule that [OF ex ok])
    show "rt_current_thread k' = rt_current_thread k" by (simp add: k'_def)
    show "threads k' = (threads k)(t := th_stat_update (set_stat (if rt_current_thread k = Some t
        then RT_THREAD_RUNNING else RT_THREAD_READY)) (threads k t))"
      using False by (simp add: k'_def ths_def)
    show "set (tq k' q) = (if rt_current_thread k \<noteq> Some t \<and> q = QReady ?p
        then insert t (set (tq k q)) else set (tq k q))" for q
      using False by (simp add: k'_def xs)
  qed
qed

subsubsection \<open>The highest priority\<close>

lemma rt_ffs_0 [simp]: "rt_ffs 0 = 0"
  by (simp add: rt_ffs_def)

lemma filter_upt_first:
  assumes "filter P [0..<n] = i # js"
  shows "P i" "i < n" "\<And>j. j < i \<Longrightarrow> \<not> P j"
proof -
  from assms have "i \<in> set (filter P [0..<n])" by simp
  then show "P i" "i < n" by auto
  fix j assume "j < i"
  show "\<not> P j"
  proof
    assume "P j"
    with \<open>j < i\<close> \<open>i < n\<close> have "j \<in> set (filter P [0..<n])" by auto
    with assms have "j \<in> set js" using \<open>j < i\<close> by auto
    moreover have "sorted (filter P [0..<n])" by (rule sorted_wrt_filter) simp
    ultimately show False using assms \<open>j < i\<close> by auto
  qed
qed

lemma rt_ffs_Suc:
  assumes "rt_ffs w = Suc i"
  shows "bit w i" "i < 32" "\<And>j. j < i \<Longrightarrow> \<not> bit w j"
proof -
  from assms obtain js where "filter (bit w) [0..<32] = i # js"
    unfolding rt_ffs_def by (cases "filter (bit w) [0..<32]") (simp_all del: upt_rec_numeral)
  from filter_upt_first [OF this]
  show "bit w i" "i < 32" "\<And>j. j < i \<Longrightarrow> \<not> bit w j" by blast+
qed

lemma rt_ffs_eq_0 [simp]: "rt_ffs w = 0 \<longleftrightarrow> w = 0"
proof
  assume "rt_ffs w = 0"
  then have "filter (bit w) [0..<32] = []"
    unfolding rt_ffs_def by (cases "filter (bit w) [0..<32]") (simp_all del: upt_rec_numeral)
  then have "\<forall>i < 32. \<not> bit w i" unfolding filter_empty_conv by simp
  then show "w = 0" by (simp add: word32_eq_0_iff_bits)
qed simp

lemma highest_priority_thread:
  assumes k: "sched_okx X k" and "rt_thread_ready_priority_group k \<noteq> 0"
  obtains t p where "scheduler_get_highest_priority_thread k = Some (t, p)"
    "t \<in> set (tq k (QReady p))" "tq k (QReady p) \<noteq> []" "hd (tq k (QReady p)) = t" "p < 32"
    "thread_prio k t = p" "thread_state k t = RT_THREAD_READY"
    "\<And>r. r < p \<Longrightarrow> tq k (QReady r) = []"
proof -
  from assms(2) obtain p where p: "rt_ffs (rt_thread_ready_priority_group k) = Suc p"
    by (cases "rt_ffs (rt_thread_ready_priority_group k)") auto
  note b = rt_ffs_Suc [OF p]
  have gok: "group_ok k" using k by (simp add: sched_okx_def)
  with b have "tq k (QReady p) \<noteq> []" by (auto simp: group_ok_def)
  then obtain t ts where t: "tq k (QReady p) = t # ts" by (cases "tq k (QReady p)") auto
  then have "queue_stat (QReady p) (threads k t)" using k by (auto simp: sched_okx_def)
  moreover have "tq k (QReady r) = []" if "r < p" for r
    using gok b that by (auto simp: group_ok_def)
  ultimately show ?thesis using t b p
    by (intro that [of t p]) (auto simp: scheduler_get_highest_priority_thread_def queue_stat_def)
qed

subsubsection \<open>Scheduling\<close>

lemma sched_okx_hold_running:
  assumes "sched_ok k" "thread_state k c = RT_THREAD_RUNNING"
  shows "sched_okx {c} k"
proof -
  have "c \<notin> set (tq k q)" for q
  proof
    assume "c \<in> set (tq k q)"
    then have "queue_stat q (threads k c)" using assms by (simp add: sched_okx_def)
    then show False using assms(2)
      by (auto simp: queue_stat_def stat_suspended_iff_base split: queue.splits)
  qed
  then show ?thesis using assms(1) by (auto simp: sched_okx_def)
qed

lemma sched_okx_set_current:
  assumes "sched_okx X k" "\<And>u. u \<notin> X \<Longrightarrow> thread_state k u \<noteq> RT_THREAD_RUNNING"
  shows "sched_okx X (k\<lparr>rt_current_thread := c\<rparr>)"
  using assms by (auto simp: sched_okx_def group_ok_def thread_ok_def)

text \<open>Making the chosen thread the running one.\<close>

lemma run_thread_ok:
  assumes k: "sched_ok k" and cur: "rt_current_thread k = Some t"
    and st: "thread_state k t \<noteq> RT_THREAD_INIT"
  obtains k' where "rt_schedule_remove_thread t k = Some k'"
    "sched_ok (put_stat t RT_THREAD_RUNNING k')"
    "rt_current_thread k' = Some t" "threads k' = threads k"
    "\<And>q. set (tq k' q) = set (tq k q) - {t}"
proof -
  obtain k' where k': "rt_schedule_remove_thread t k = Some k'" "sched_okx {t} k'"
    "threads k' = threads k" "tq k' = (\<lambda>q. removeAll t (tq k q))"
    "rt_current_thread k' = rt_current_thread k"
    using rt_schedule_remove_thread_okx [OF k _ st] by auto
  have "prio_ok (threads k t)" using k st by (auto simp: sched_okx_def thread_ok_def)
  then have "sched_okx ({} - {t}) (put_stat t RT_THREAD_RUNNING k')"
    using k' cur by (intro sched_okx_leave) (auto simp: prio_ok_def)
  then show ?thesis using k' cur by (intro that [of k']) auto
qed

definition runs_highest :: "kernel \<Rightarrow> bool" where
  "runs_highest k \<longleftrightarrow> (\<exists>c. rt_current_thread k = Some c \<and> thread_state k c = RT_THREAD_RUNNING
     \<and> (\<forall>u. thread_state k u = RT_THREAD_READY \<longrightarrow> thread_prio k c \<le> thread_prio k u))"

lemma ready_prio_ge:
  assumes "sched_ok k" "thread_state k u = RT_THREAD_READY"
    "\<And>r. r < p \<Longrightarrow> tq k (QReady r) = []"
  shows "p \<le> thread_prio k u"
proof (rule ccontr)
  assume "\<not> p \<le> thread_prio k u"
  with assms(3) have "tq k (QReady (thread_prio k u)) = []" by simp
  moreover have "u \<in> set (tq k (QReady (thread_prio k u)))"
    using assms(1,2) by (auto simp: sched_okx_def thread_ok_def)
  ultimately show False by simp
qed

lemma run_thread_highest:
  assumes k: "sched_ok k" and cur: "rt_current_thread k = Some t"
    and st: "thread_state k t \<noteq> RT_THREAD_INIT"
    and hi: "\<And>u. u \<noteq> t \<Longrightarrow> thread_state k u = RT_THREAD_READY
      \<Longrightarrow> thread_prio k t \<le> thread_prio k u"
  obtains k' where "rt_schedule_remove_thread t k = Some k'"
    "sched_ok (put_stat t RT_THREAD_RUNNING k')" "runs_highest (put_stat t RT_THREAD_RUNNING k')"
proof -
  obtain k' where k': "rt_schedule_remove_thread t k = Some k'"
    "sched_ok (put_stat t RT_THREAD_RUNNING k')" "rt_current_thread k' = Some t"
    "threads k' = threads k" "\<And>q. set (tq k' q) = set (tq k q) - {t}"
    by (rule run_thread_ok [OF k cur st]) auto
  have "runs_highest (put_stat t RT_THREAD_RUNNING k')"
    unfolding runs_highest_def using k' hi
    by (intro exI [of _ t]) auto
  with k' show ?thesis using that by blast
qed

lemma sched_ok_clear_yield:
  "sched_okx X (upd_thread c (th_stat_update clear_yield) k)
    = sched_okx X k"
  by (rule sched_okx_upd_other_field) simp_all

lemma highest_upd_thread [simp]:
  "scheduler_get_highest_priority_thread (k\<lparr>threads := ths\<rparr>)
    = scheduler_get_highest_priority_thread k"
  by (simp add: scheduler_get_highest_priority_thread_def split: nat.split)

lemma rt_schedule_switch_ok:
  assumes k: "sched_ok k" and c: "rt_current_thread k = Some c" 
    and hp: "scheduler_get_highest_priority_thread k = Some (t, p)"
    "thread_prio k t = p" "thread_state k t = RT_THREAD_READY" "t \<noteq> c"
    "\<And>r. r < p \<Longrightarrow> tq k (QReady r) = []"
    and run: "thread_state k c = RT_THREAD_RUNNING \<Longrightarrow> p \<le> thread_prio k c"
  obtains k2 k3 where
    "(if thread_state k c = RT_THREAD_RUNNING
      then rt_schedule_insert_thread c (k\<lparr>rt_current_priority := word_of_nat p, rt_current_thread := Some t\<rparr>)
      else Some (k\<lparr>rt_current_priority := word_of_nat p, rt_current_thread := Some t\<rparr>)) = Some k2"
    "rt_schedule_remove_thread t k2 = Some k3"
    "sched_ok (put_stat t RT_THREAD_RUNNING k3)" "runs_highest (put_stat t RT_THREAD_RUNNING k3)"
proof (cases "thread_state k c = RT_THREAD_RUNNING")
  case True
  let ?k1 = "k\<lparr>rt_current_priority := word_of_nat p, rt_current_thread := Some t\<rparr>"
  have only: "thread_state k u \<noteq> RT_THREAD_RUNNING" if "u \<noteq> c" for u
    using k c that by (auto simp: sched_okx_def thread_ok_def)
  have "sched_okx {c} (k\<lparr>rt_current_thread := Some t\<rparr>)"
    using sched_okx_hold_running [OF k True] only by (intro sched_okx_set_current) auto
  then have k1: "sched_okx {c} ?k1"
    by (rule sched_okx_cong [THEN iffD1, rotated -1]) simp_all
  have prc: "prio_ok (threads ?k1 c)" using k True by (auto simp: sched_okx_def thread_ok_def)
  obtain k2 where "rt_schedule_insert_thread c ?k1 = Some k2" "sched_okx ({} - {c}) k2"
    "rt_current_thread k2 = rt_current_thread ?k1"
    "threads k2 = (threads ?k1)(c := th_stat_update (set_stat (if rt_current_thread ?k1 = Some c
        then RT_THREAD_RUNNING else RT_THREAD_READY)) (threads ?k1 c))"
    by (rule rt_schedule_insert_thread_okx [OF k1 prc])
  then have k2: "rt_schedule_insert_thread c ?k1 = Some k2" "sched_ok k2"
    "rt_current_thread k2 = Some t"
    "threads k2 = (threads k)(c := th_stat_update (set_stat RT_THREAD_READY) (threads k c))"
    using hp(4) by simp_all
  have "thread_prio k2 t \<le> thread_prio k2 u" if "u \<noteq> t" "thread_state k2 u = RT_THREAD_READY" for u
    using that k2(4) run True hp ready_prio_ge [OF k, of u] by (cases "u = c") auto
  moreover have "thread_state k2 t \<noteq> RT_THREAD_INIT" using k2(4) hp by simp
  ultimately obtain k3 where "rt_schedule_remove_thread t k2 = Some k3"
    "sched_ok (put_stat t RT_THREAD_RUNNING k3)" "runs_highest (put_stat t RT_THREAD_RUNNING k3)"
    using run_thread_highest [OF k2(2,3)] by metis
  then show ?thesis using that k2 True by simp
next
  case False
  let ?k1 = "k\<lparr>rt_current_priority := word_of_nat p, rt_current_thread := Some t\<rparr>"
  have only: "thread_state k u \<noteq> RT_THREAD_RUNNING" for u
    using k c False by (auto simp: sched_okx_def thread_ok_def)
  have "sched_ok (k\<lparr>rt_current_thread := Some t\<rparr>)"
    using k only by (intro sched_okx_set_current) auto
  then have k1: "sched_ok ?k1"
    by (rule sched_okx_cong [THEN iffD1, rotated -1]) simp_all
  have "thread_prio ?k1 t \<le> thread_prio ?k1 u" if "thread_state ?k1 u = RT_THREAD_READY" for u
    using that hp ready_prio_ge [OF k, of u] by simp
  moreover have "rt_current_thread ?k1 = Some t" "thread_state ?k1 t \<noteq> RT_THREAD_INIT"
    using hp by simp_all
  ultimately obtain k3 where "rt_schedule_remove_thread t ?k1 = Some k3"
    "sched_ok (put_stat t RT_THREAD_RUNNING k3)" "runs_highest (put_stat t RT_THREAD_RUNNING k3)"
    using run_thread_highest [OF k1, of t] by metis
  then show ?thesis using that False by simp
qed

lemma rt_schedule_stay_ok:
  assumes k: "sched_ok k" and c: "rt_current_thread k = Some c"
    and st: "thread_state k c = RT_THREAD_RUNNING \<or> thread_state k c = RT_THREAD_READY"
    and le: "thread_prio k c \<le> p" and hp: "\<And>r. r < p \<Longrightarrow> tq k (QReady r) = []"
  obtains k3 where "rt_schedule_remove_thread c k = Some k3"
    "sched_ok (put_stat c RT_THREAD_RUNNING k3)" "runs_highest (put_stat c RT_THREAD_RUNNING k3)"
proof -
  have "thread_state k c \<noteq> RT_THREAD_INIT" using st by auto
  moreover have "thread_prio k c \<le> thread_prio k u" if "thread_state k u = RT_THREAD_READY" for u
    using ready_prio_ge [OF k that hp] le by simp
  ultimately show ?thesis using run_thread_highest [OF k c] that by metis
qed

lemma rt_schedule_total:
  assumes k: "sched_ok k" and c: "rt_current_thread k = Some c"
    and lock: "rt_scheduler_lock_nest k = 0"
  shows "\<exists>k'. rt_schedule k = Some k' \<and> sched_ok k' \<and>
    (thread_state k c = RT_THREAD_RUNNING \<or> rt_thread_ready_priority_group k \<noteq> 0 \<longrightarrow> runs_highest k')"
proof (cases "rt_thread_ready_priority_group k = 0")
  case True
  have "\<not> thread_state k u = RT_THREAD_READY" for u
  proof
    assume u: "thread_state k u = RT_THREAD_READY"
    then have "u \<in> set (tq k (QReady (thread_prio k u)))" "thread_prio k u < 32"
      using k by (auto simp: sched_okx_def thread_ok_def prio_ok_def)
    moreover have "tq k (QReady p) = []" if "p < 32" for p
      using k True that by (auto simp: sched_okx_def group_ok_def)
    ultimately show False by simp
  qed
  with True k c show ?thesis by (auto simp: rt_schedule_def runs_highest_def)
next
  case False
  obtain t p where tp: "scheduler_get_highest_priority_thread k = Some (t, p)"
    "t \<in> set (tq k (QReady p))" "tq k (QReady p) \<noteq> []" "hd (tq k (QReady p)) = t" "p < 32"
    "thread_prio k t = p" "thread_state k t = RT_THREAD_READY"
    "\<And>r. r < p \<Longrightarrow> tq k (QReady r) = []"
    by (rule highest_priority_thread [OF k False]) blast
  let ?run = "thread_state k c = RT_THREAD_RUNNING"
  define kc where "kc = (if ?run then upd_thread c (th_stat_update clear_yield) k else k)"
  have kc: "sched_ok kc" "rt_current_thread kc = Some c" "tq kc = tq k"
    "scheduler_get_highest_priority_thread kc = Some (t, p)"
    "thread_state kc u = thread_state k u" "thread_prio kc u = thread_prio k u" for u
    using k c tp(1)
    by (auto simp: kc_def sched_ok_clear_yield)
  define stay where "stay \<longleftrightarrow> ?run \<and> (thread_prio k c < p \<or>
    thread_prio k c = p \<and> \<not> stat_yield (th_stat (threads k c)))"
  have choose: "schedule_choose c t p k = (if stay then (c, False, kc) else (t, ?run, kc))"
    by (auto simp: schedule_choose_def stay_def kc_def)
  show ?thesis
  proof (cases "stay \<or> t = c")
    case True
    have "?run \<or> thread_state k c = RT_THREAD_READY" "thread_prio k c \<le> p"
      using True tp by (auto simp: stay_def)
    then obtain k3 where "rt_schedule_remove_thread c kc = Some k3"
      "sched_ok (put_stat c RT_THREAD_RUNNING k3)" "runs_highest (put_stat c RT_THREAD_RUNNING k3)"
      using rt_schedule_stay_ok [OF kc(1,2)] kc tp(8) by metis
    moreover have "rt_schedule k = Some (put_stat c RT_THREAD_RUNNING k3)"
      using True False lock tp(1) c choose calculation by (auto simp: rt_schedule_def Let_def)
    ultimately show ?thesis by simp
  next
    case switch: False
    have "?run \<Longrightarrow> p \<le> thread_prio k c" using switch by (auto simp: stay_def)
    then obtain k2 k3 where
      "(if thread_state kc c = RT_THREAD_RUNNING
        then rt_schedule_insert_thread c
          (kc\<lparr>rt_current_priority := word_of_nat p, rt_current_thread := Some t\<rparr>)
        else Some (kc\<lparr>rt_current_priority := word_of_nat p, rt_current_thread := Some t\<rparr>)) = Some k2"
      "rt_schedule_remove_thread t k2 = Some k3"
      "sched_ok (put_stat t RT_THREAD_RUNNING k3)" "runs_highest (put_stat t RT_THREAD_RUNNING k3)"
      using rt_schedule_switch_ok [OF kc(1,2,4)] kc tp(6-8) switch by metis
    moreover have "rt_schedule k = Some (put_stat t RT_THREAD_RUNNING k3)"
      using switch False lock tp(1) c choose calculation kc
      by (simp add: rt_schedule_def Let_def split: if_splits)
    ultimately show ?thesis by simp
  qed
qed

lemma rt_schedule_sched_ok:
  assumes "sched_ok k" "rt_schedule k = Some k'"
  shows "sched_ok k'"
proof (cases "rt_current_thread k")
  case None
  with assms have "k' = k"
    by (auto simp: rt_schedule_def split: if_splits elim!: bind_eq_SomeE)
  with assms show ?thesis by simp
next
  case (Some c)
  then show ?thesis
    using assms rt_schedule_total [OF assms(1) Some]
    by (cases "rt_scheduler_lock_nest k = 0") (auto simp: rt_schedule_def)
qed

text \<open>
  What scheduling leaves alone: everything but the states of the threads, the ready queues and
  the current thread; in particular the queues of the IPC objects and all suspended threads.
\<close>

definition sched_frame :: "kernel \<Rightarrow> kernel \<Rightarrow> bool" where
  "sched_frame k k' \<longleftrightarrow>
     (\<exists>ths tqs g c cp. k' = k\<lparr>threads := ths, tq := tqs, rt_thread_ready_priority_group := g,
        rt_current_thread := c, rt_current_priority := cp\<rparr>)
   \<and> (\<forall>t. \<exists>s. threads k' t = th_stat_update (\<lambda>_. s) (threads k t))
   \<and> (\<forall>t. thread_state k t \<noteq> RT_THREAD_READY \<longrightarrow> thread_state k t \<noteq> RT_THREAD_RUNNING
        \<longrightarrow> threads k' t = threads k t)
   \<and> (\<forall>t. thread_state k t = RT_THREAD_READY \<or> thread_state k t = RT_THREAD_RUNNING
        \<longrightarrow> thread_state k' t = RT_THREAD_READY \<or> thread_state k' t = RT_THREAD_RUNNING)
   \<and> (\<forall>q. (\<forall>p. q \<noteq> QReady p) \<longrightarrow> tq k' q = tq k q)"

lemma sched_frameI:
  assumes "k' = k\<lparr>threads := threads k', tq := tq k',
      rt_thread_ready_priority_group := rt_thread_ready_priority_group k',
      rt_current_thread := rt_current_thread k', rt_current_priority := rt_current_priority k'\<rparr>"
    and "\<And>t. \<exists>s. threads k' t = th_stat_update (\<lambda>_. s) (threads k t)"
    and "\<And>t. thread_state k t \<noteq> RT_THREAD_READY \<Longrightarrow> thread_state k t \<noteq> RT_THREAD_RUNNING
        \<Longrightarrow> threads k' t = threads k t"
    and "\<And>t. thread_state k t = RT_THREAD_READY \<or> thread_state k t = RT_THREAD_RUNNING
        \<Longrightarrow> thread_state k' t = RT_THREAD_READY \<or> thread_state k' t = RT_THREAD_RUNNING"
    and "\<And>q. (\<And>p. q \<noteq> QReady p) \<Longrightarrow> tq k' q = tq k q"
  shows "sched_frame k k'"
  using assms unfolding sched_frame_def by blast

lemma sched_frame_refl [simp]: "sched_frame k k"
proof (rule sched_frameI)
  show "\<exists>s. threads k t = th_stat_update (\<lambda>_. s) (threads k t)" for t
    by (intro exI [of _ "th_stat (threads k t)"]) simp
qed simp_all

lemma sched_frame_trans:
  assumes "sched_frame k k1" "sched_frame k1 k2"
  shows "sched_frame k k2"
proof (rule sched_frameI)
  show "k2 = k\<lparr>threads := threads k2, tq := tq k2,
      rt_thread_ready_priority_group := rt_thread_ready_priority_group k2,
      rt_current_thread := rt_current_thread k2, rt_current_priority := rt_current_priority k2\<rparr>"
    using assms unfolding sched_frame_def by fastforce
  show "\<exists>s. threads k2 t = th_stat_update (\<lambda>_. s) (threads k t)" for t
  proof -
    obtain s s' where "threads k1 t = th_stat_update (\<lambda>_. s) (threads k t)"
      "threads k2 t = th_stat_update (\<lambda>_. s') (threads k1 t)"
      using assms unfolding sched_frame_def by metis
    then show ?thesis by (intro exI [of _ s']) simp
  qed
  show "threads k2 t = threads k t" if "thread_state k t \<noteq> RT_THREAD_READY"
    "thread_state k t \<noteq> RT_THREAD_RUNNING" for t
    using assms that unfolding sched_frame_def by metis
  show "thread_state k2 t = RT_THREAD_READY \<or> thread_state k2 t = RT_THREAD_RUNNING"
    if "thread_state k t = RT_THREAD_READY \<or> thread_state k t = RT_THREAD_RUNNING" for t
    using assms that unfolding sched_frame_def by blast
  show "tq k2 q = tq k q" if "\<And>p. q \<noteq> QReady p" for q
    using assms that unfolding sched_frame_def by metis
qed

lemma sched_frame_sel:
  assumes "sched_frame k k'"
  shows "taken_objects k' = taken_objects k" "rt_scheduler_lock_nest k' = rt_scheduler_lock_nest k"
    "rt_interrupt_nest k' = rt_interrupt_nest k" "rt_tick k' = rt_tick k" "timers k' = timers k"
    "timer_list k' = timer_list k" "timer_expired k' = timer_expired k"
    "soft_timer_list k' = soft_timer_list k" "soft_timer_expired k' = soft_timer_expired k"
    "soft_timer_idle k' = soft_timer_idle k" "timer_thread k' = timer_thread k"
    "sems k' = sems k" "mutexes k' = mutexes k" "events k' = events k"
    "mailboxes k' = mailboxes k" "msgqueues k' = msgqueues k"
  using assms unfolding sched_frame_def by auto

lemma sched_frame_thread:
  assumes "sched_frame k k'"
  shows "th_current_priority (threads k' t) = th_current_priority (threads k t)"
    "th_type (threads k' t) = th_type (threads k t)"
    "th_error (threads k' t) = th_error (threads k t)"
    "th_static (threads k' t) = th_static (threads k t)"
    "th_init_priority (threads k' t) = th_init_priority (threads k t)"
    "th_number_mask (threads k' t) = th_number_mask (threads k t)"
    "th_pending_object (threads k' t) = th_pending_object (threads k t)"
    "th_event_set (threads k' t) = th_event_set (threads k t)"
    "th_event_info (threads k' t) = th_event_info (threads k t)"
    "th_init_tick (threads k' t) = th_init_tick (threads k t)"
    "th_remaining_tick (threads k' t) = th_remaining_tick (threads k t)"
proof -
  obtain s where "threads k' t = th_stat_update (\<lambda>_. s) (threads k t)"
    using assms unfolding sched_frame_def by blast
  then show "th_current_priority (threads k' t) = th_current_priority (threads k t)"
    "th_type (threads k' t) = th_type (threads k t)"
    "th_error (threads k' t) = th_error (threads k t)"
    "th_static (threads k' t) = th_static (threads k t)"
    "th_init_priority (threads k' t) = th_init_priority (threads k t)"
    "th_number_mask (threads k' t) = th_number_mask (threads k t)"
    "th_pending_object (threads k' t) = th_pending_object (threads k t)"
    "th_event_set (threads k' t) = th_event_set (threads k t)"
    "th_event_info (threads k' t) = th_event_info (threads k t)"
    "th_init_tick (threads k' t) = th_init_tick (threads k t)"
    "th_remaining_tick (threads k' t) = th_remaining_tick (threads k t)"
    by simp_all
qed

lemma sched_frame_queue: "sched_frame k k' \<Longrightarrow> (\<And>p. q \<noteq> QReady p) \<Longrightarrow> tq k' q = tq k q"
  unfolding sched_frame_def by blast

lemma sched_frame_suspended:
  assumes "sched_frame k k'" "stat_suspended (th_stat (threads k t))"
  shows "threads k' t = threads k t"
proof -
  have "thread_state k t \<noteq> RT_THREAD_READY" "thread_state k t \<noteq> RT_THREAD_RUNNING"
    using assms(2) by (auto simp: stat_suspended_iff_base)
  then show ?thesis using assms(1) unfolding sched_frame_def by blast
qed

text \<open>A thread that is ready or running is in no queue but a ready queue.\<close>

definition only_ready_queued :: "kernel \<Rightarrow> tid \<Rightarrow> bool" where
  "only_ready_queued k t \<longleftrightarrow> (\<forall>q. (\<forall>p. q \<noteq> QReady p) \<longrightarrow> t \<notin> set (tq k q))
     \<and> (thread_state k t = RT_THREAD_READY \<or> thread_state k t = RT_THREAD_RUNNING)"

lemma only_ready_queuedI:
  assumes "sched_ok k" "thread_state k t = RT_THREAD_READY \<or> thread_state k t = RT_THREAD_RUNNING"
  shows "only_ready_queued k t"
proof -
  have "t \<notin> set (tq k q)" if q: "\<And>p. q \<noteq> QReady p" for q
  proof
    assume "t \<in> set (tq k q)"
    then have "queue_stat q (threads k t)" using assms(1) by (simp add: sched_okx_def)
    then show False using assms(2) q
      by (auto simp: queue_stat_def stat_suspended_iff_base split: queue.splits)
  qed
  with assms(2) show ?thesis unfolding only_ready_queued_def by blast
qed

lemma put_stat_frame:
  assumes "only_ready_queued k t" "v = RT_THREAD_READY \<or> v = RT_THREAD_RUNNING"
  shows "sched_frame k (put_stat t v k)"
proof (rule sched_frameI)
  show "\<exists>s. threads (put_stat t v k) u = th_stat_update (\<lambda>_. s) (threads k u)" for u
    by (intro exI [of _ "th_stat (threads (put_stat t v k) u)"]) simp
qed (use assms in \<open>auto simp: put_stat_def only_ready_queued_def\<close>)

lemma remove_frame:
  assumes "only_ready_queued k t" "rt_schedule_remove_thread t k = Some k'"
  shows "sched_frame k k'" "threads k' = threads k"
    "rt_current_thread k' = rt_current_thread k"
proof -
  have "k' = k\<lparr>tq := \<lambda>q. removeAll t (tq k q),
      rt_thread_ready_priority_group := rt_thread_ready_priority_group k'\<rparr>"
    using assms(2) by (auto simp: rt_schedule_remove_thread_def rt_list_remove_def Let_def
        split: if_splits)
  then obtain g where k':
    "k' = k\<lparr>tq := \<lambda>q. removeAll t (tq k q), rt_thread_ready_priority_group := g\<rparr>" by blast
  show "threads k' = threads k" "rt_current_thread k' = rt_current_thread k" by (simp_all add: k')
  show "sched_frame k k'"
  proof (rule sched_frameI)
    show "\<exists>s. threads k' u = th_stat_update (\<lambda>_. s) (threads k u)" for u
      by (intro exI [of _ "th_stat (threads k u)"]) (simp add: k')
  qed (use assms(1) in \<open>auto simp: k' only_ready_queued_def\<close>)
qed

lemma insert_frame:
  assumes "only_ready_queued k t" "rt_schedule_insert_thread t k = Some k'"
  shows "sched_frame k k'"
proof (cases "rt_current_thread k = Some t")
  case True
  with assms put_stat_frame [OF assms(1), of RT_THREAD_RUNNING] show ?thesis
    by (auto simp: rt_schedule_insert_thread_def)
next
  case False
  with assms(2) obtain xs g where k': "k' = (put_stat t RT_THREAD_READY k)
      \<lparr>tq := (tq k)(QReady (thread_prio k t) := xs), rt_thread_ready_priority_group := g\<rparr>"
    by (auto simp: rt_schedule_insert_thread_def Let_def rt_list_insert_after_def
        rt_list_insert_before_def split: if_splits)
  show ?thesis
  proof (rule sched_frameI)
    show "k' = k\<lparr>threads := threads k', tq := tq k',
        rt_thread_ready_priority_group := rt_thread_ready_priority_group k',
        rt_current_thread := rt_current_thread k', rt_current_priority := rt_current_priority k'\<rparr>"
      by (simp add: k' put_stat_def)
    show "\<exists>s. threads k' u = th_stat_update (\<lambda>_. s) (threads k u)" for u
      by (intro exI [of _ "th_stat (threads k' u)"]) (simp add: k')
  qed (use assms(1) in \<open>auto simp: k' only_ready_queued_def\<close>)
qed

lemma set_current_frame: "sched_frame k (k\<lparr>rt_current_priority := p, rt_current_thread := c\<rparr>)"
proof (rule sched_frameI)
  show "\<exists>s. threads (k\<lparr>rt_current_priority := p, rt_current_thread := c\<rparr>) u
      = th_stat_update (\<lambda>_. s) (threads k u)" for u
    by (intro exI [of _ "th_stat (threads k u)"]) simp
qed simp_all

lemma clear_yield_frame:
  assumes "only_ready_queued k c"
  shows "sched_frame k (upd_thread c (th_stat_update clear_yield) k)"
proof (rule sched_frameI)
  show "\<exists>s. threads (upd_thread c (th_stat_update clear_yield) k) u
      = th_stat_update (\<lambda>_. s) (threads k u)" for u
    by (intro exI [of _ "th_stat (threads (upd_thread c (th_stat_update clear_yield) k) u)"]) simp
qed (use assms in \<open>auto simp: only_ready_queued_def\<close>)

lemma only_ready_queued_cong:
  assumes "only_ready_queued k t" "sched_frame k k'" "thread_state k' t = thread_state k t"
  shows "only_ready_queued k' t"
  using assms sched_frame_queue [OF assms(2)] by (auto simp: only_ready_queued_def)

lemma schedule_choose_frame:
  assumes k: "sched_ok k" and "schedule_choose c t p k = (to, need, k1)"
  shows "sched_frame k k1" "\<And>u. thread_state k1 u = thread_state k u"
    "to = c \<or> to = t" "need \<Longrightarrow> thread_state k c = RT_THREAD_RUNNING"
    "to = c \<Longrightarrow> thread_state k c = RT_THREAD_RUNNING \<or> c = t" "sched_ok k1"
  using assms clear_yield_frame [OF only_ready_queuedI [OF k], of c]
  by (auto simp: schedule_choose_def Let_def sched_ok_clear_yield split: if_splits)

lemma rt_schedule_frame:
  assumes k: "sched_ok k" and ex: "rt_schedule k = Some k'"
  shows "sched_frame k k'"
proof (cases "rt_scheduler_lock_nest k = 0 \<and> rt_thread_ready_priority_group k \<noteq> 0")
  case False
  with ex have "k' = k" unfolding rt_schedule_def by auto
  then show ?thesis by simp
next
  case True
  obtain t p where tp: "scheduler_get_highest_priority_thread k = Some (t, p)"
    "t \<in> set (tq k (QReady p))" "tq k (QReady p) \<noteq> []" "hd (tq k (QReady p)) = t" "p < 32"
    "thread_prio k t = p" "thread_state k t = RT_THREAD_READY"
    "\<And>r. r < p \<Longrightarrow> tq k (QReady r) = []"
    using highest_priority_thread [OF k] True by metis
  obtain c where c: "rt_current_thread k = Some c"
    using ex True tp(1) by (cases "rt_current_thread k") (auto simp: rt_schedule_def)
  obtain to need k1 where ch: "schedule_choose c t p k = (to, need, k1)"
    by (cases "schedule_choose c t p k") auto
  note chf = schedule_choose_frame [OF k ch]
  have rdy: "only_ready_queued k1 t" using tp chf(2,6) by (intro only_ready_queuedI) simp_all
  show ?thesis
  proof (cases "to = c")
    case same: True
    obtain k2 where k2: "rt_schedule_remove_thread c k1 = Some k2"
      "k' = put_stat c RT_THREAD_RUNNING k2"
      using ex True tp(1) c ch same by (auto simp: rt_schedule_def elim: bind_eq_SomeE)
    have "only_ready_queued k1 c" using chf(2,5,6) same tp(7) by (intro only_ready_queuedI) auto
    then have f2: "sched_frame k1 k2" "only_ready_queued k2 c"
      using remove_frame [OF _ k2(1)] only_ready_queued_cong by auto
    then show ?thesis using chf(1) put_stat_frame [OF f2(2), of RT_THREAD_RUNNING] k2(2) sched_frame_trans by metis
  next
    case False
    let ?k1 = "k1\<lparr>rt_current_priority := word_of_nat p, rt_current_thread := Some to\<rparr>"
    obtain k2 k3 where k2: "(if need then rt_schedule_insert_thread c ?k1 else Some ?k1) = Some k2"
      and k3: "rt_schedule_remove_thread to k2 = Some k3" "k' = put_stat to RT_THREAD_RUNNING k3"
      using ex True tp(1) c ch False by (auto simp: rt_schedule_def Let_def elim!: bind_eq_SomeE)
    have to: "to = t" using chf(3) False by simp
    have f1: "sched_frame k1 ?k1" by (rule set_current_frame)
    have "only_ready_queued ?k1 c" if need
      using only_ready_queued_cong [OF only_ready_queuedI f1] chf(2,4,6) that by simp
    then have f2: "sched_frame ?k1 k2" using k2 by (auto split: if_splits intro: insert_frame)
    have st: "thread_state k2 t = thread_state k1 t"
      using k2 False to by (auto simp: rt_schedule_insert_thread_def Let_def
          rt_list_insert_after_def rt_list_insert_before_def split: if_splits)
    have "only_ready_queued k2 t"
      by (rule only_ready_queued_cong [OF rdy sched_frame_trans [OF f1 f2] st])
    then have "sched_frame k2 k3" "only_ready_queued k3 t"
      using remove_frame [of k2 t k3] k3(1) to only_ready_queued_cong by auto
    then have "sched_frame k2 k'"
      using put_stat_frame [of k3 t RT_THREAD_RUNNING] k3(2) to sched_frame_trans by blast
    then show ?thesis using chf(1) f1 f2 sched_frame_trans by blast
  qed
qed
lemma rt_schedule_current:
  assumes "rt_schedule k = Some k'" "rt_current_thread k \<noteq> None"
  shows "rt_current_thread k' \<noteq> None"
proof -
  have rem: "rt_current_thread b = rt_current_thread a" if "rt_schedule_remove_thread t a = Some b" for t a b
    using that by (auto simp: rt_schedule_remove_thread_def Let_def split: if_splits)
  have ins: "rt_current_thread b = rt_current_thread a" if "rt_schedule_insert_thread t a = Some b" for t a b
    using that by (auto simp: rt_schedule_insert_thread_def Let_def split: if_splits)
  have ch: "rt_current_thread b = rt_current_thread a"
    if "schedule_choose c t p a = (to, n, b)" for c t p a to n b
    using that by (auto simp: schedule_choose_def Let_def split: if_splits)
  show ?thesis using assms
    by (auto simp: rt_schedule_def Let_def split: if_splits prod.splits
        elim!: bind_eq_SomeE dest!: rem ins ch)
qed

lemma rt_schedule_returns:
  assumes k: "sched_ok k" and c: "rt_current_thread k \<noteq> None"
  obtains k' where "rt_schedule k = Some k'" "sched_ok k'" "sched_frame k k'"
    "rt_current_thread k' \<noteq> None"
proof -
  obtain c where "rt_current_thread k = Some c" using c by blast
  then have "\<exists>k'. rt_schedule k = Some k'"
    using rt_schedule_total [OF k, of c] by (cases "rt_scheduler_lock_nest k = 0")
      (auto simp: rt_schedule_def)
  then show ?thesis
    using that rt_schedule_sched_ok [OF k] rt_schedule_frame [OF k] rt_schedule_current [OF _ c]
    by blast
qed

text \<open>
  C1 (scheduling). From a well-formed state, with a current thread and the scheduler unlocked,
  \<open>rt_schedule\<close> returns, the state after it is well-formed, and when the current thread was
  running or some thread was ready, the thread left running has the highest priority: no ready
  thread has a smaller priority number.
\<close>

theorem rt_schedule_correct:
  assumes k: "sched_ok k" and c: "rt_current_thread k = Some c"
    and lock: "rt_scheduler_lock_nest k = 0"
  shows "\<exists>k'. rt_schedule k = Some k' \<and> sched_ok k' \<and>
    (thread_state k c = RT_THREAD_RUNNING \<or> rt_thread_ready_priority_group k \<noteq> 0 \<longrightarrow> runs_highest k')"
  using assms by (rule rt_schedule_total)

lemma rt_exit_critical_total:
  assumes "sched_ok k"
  obtains k' where "rt_exit_critical k = Some k'"
proof -
  let ?k = "k\<lparr>rt_scheduler_lock_nest := 0\<rparr>"
  have "\<exists>k'. rt_schedule ?k = Some k'" if "rt_current_thread k \<noteq> None"
    using rt_schedule_total [of ?k] assms that by auto
  then have "\<exists>k'. rt_exit_critical k = Some k'"
    by (cases "rt_current_thread k") (auto simp: rt_exit_critical_def Let_def)
  then show ?thesis using that by blast
qed

lemma rt_exit_critical_sched_ok:
  "sched_ok k \<Longrightarrow> rt_exit_critical k = Some k' \<Longrightarrow> sched_ok k'"
  by (auto simp: rt_exit_critical_def Let_def split: if_splits
      dest!: rt_schedule_sched_ok [rotated])

text \<open>
  Between \<open>rt_enter_critical\<close> and the matching \<open>rt_exit_critical\<close> no
  call of the scheduler switches threads, whatever threads become ready; the outermost
  \<open>rt_exit_critical\<close> returns, with the scheduler unlocked and a thread of the highest priority
  running.
\<close>

theorem critical_section:
  assumes k: "sched_ok k" and c: "rt_current_thread k = Some c"
    and nest: "rt_scheduler_lock_nest k = 1"
  shows "rt_schedule k = Some k
    \<and> (\<exists>k'. rt_exit_critical k = Some k' \<and> sched_ok k' \<and> rt_scheduler_lock_nest k' = 0
        \<and> (thread_state k c = RT_THREAD_RUNNING \<longrightarrow> runs_highest k'))"
proof
  show "rt_schedule k = Some k" using nest by (simp add: rt_schedule_def)
  let ?k = "k\<lparr>rt_scheduler_lock_nest := 0\<rparr>"
  obtain k' where k': "rt_schedule ?k = Some k'" "sched_ok k'"
    "thread_state k c = RT_THREAD_RUNNING \<longrightarrow> runs_highest k'"
    using rt_schedule_total [of ?k c] k c by auto
  moreover have "rt_scheduler_lock_nest k' = 0"
    using sched_frame_sel(2) [OF rt_schedule_frame [OF _ k'(1)]] k by simp
  moreover have "rt_exit_critical k = rt_schedule ?k"
    using nest c by (simp add: rt_exit_critical_def)
  ultimately show "\<exists>k'. rt_exit_critical k = Some k' \<and> sched_ok k' \<and> rt_scheduler_lock_nest k' = 0
        \<and> (thread_state k c = RT_THREAD_RUNNING \<longrightarrow> runs_highest k')" by auto
qed

text \<open>
  A concrete state: thread 1 of priority 10 is running, threads 2 and 3 of priorities 5 and 10
  are ready.
\<close>

definition demo_thread :: "u8 \<Rightarrow> u8 \<Rightarrow> rt_thread" where
  "demo_thread p s = thread_bss\<lparr>th_type := Class_Thread, th_static := True, th_stat := s,
     th_current_priority := p, th_init_priority := p, th_number_mask := push_bit (unat p) 1,
     th_init_tick := 20, th_remaining_tick := 20\<rparr>"

definition demo_kernel :: kernel where
  "demo_kernel = (kernel_bss 0)\<lparr>
     threads := (\<lambda>t. if t = 1 then demo_thread 10 3 else if t = 2 then demo_thread 5 2
                    else if t = 3 then demo_thread 10 2 else thread_bss),
     tq := (\<lambda>q. if q = QReady 5 then [2] else if q = QReady 10 then [3] else []),
     rt_thread_ready_priority_group := 1056, rt_current_thread := Some 1,
     timers := (\<lambda>x. \<lparr>tm_type = Class_Timer, tm_static = True, tm_flag = 0,
       tm_timeout_func = ThreadTimeout, tm_parameter = (case x of ThreadTimer t \<Rightarrow> t | _ \<Rightarrow> 0),
       tm_init_tick = 0, tm_timeout_tick = 0\<rparr>)\<rparr>"

lemma demo_kernel_sel [simp]:
  "timers demo_kernel = (\<lambda>x. \<lparr>tm_type = Class_Timer, tm_static = True, tm_flag = 0,
       tm_timeout_func = ThreadTimeout, tm_parameter = (case x of ThreadTimer t \<Rightarrow> t | _ \<Rightarrow> 0),
       tm_init_tick = 0, tm_timeout_tick = 0\<rparr>)"
  "timer_list demo_kernel = []" "timer_expired demo_kernel = []" "rt_tick demo_kernel = 0"
  "soft_timer_list demo_kernel = []" "soft_timer_expired demo_kernel = []"
  "rt_interrupt_nest demo_kernel = 0" "taken_objects demo_kernel = (\<lambda>_. [])"
  "threads demo_kernel = (\<lambda>t. if t = 1 then demo_thread 10 3 else if t = 2 then demo_thread 5 2
     else if t = 3 then demo_thread 10 2 else thread_bss)"
  "tq demo_kernel = (\<lambda>q. if q = QReady 5 then [2] else if q = QReady 10 then [3] else [])"
  "rt_thread_ready_priority_group demo_kernel = 1056" "rt_current_thread demo_kernel = Some 1"
  "rt_scheduler_lock_nest demo_kernel = 0"
  by (simp_all add: demo_kernel_def kernel_bss_def)

lemma bit_1056: "bit (1056 :: u32) p \<longleftrightarrow> p = 5 \<or> p = 10"
proof -
  have eq: "(1056 :: u32) = push_bit 5 1 OR push_bit 10 1" by simp
  show ?thesis unfolding eq bit_or_iff bit_push_one_32 by auto
qed

lemma demo_kernel_ok: "sched_ok demo_kernel"
proof -
  have "group_ok demo_kernel"
    unfolding group_ok_def demo_kernel_sel bit_1056 by simp
  then show ?thesis
    unfolding sched_okx_def queues_ok_def thread_ok_def
    by (simp add: queue_stat_def demo_thread_def thread_bss_def prio_ok_def stat_base_def)
qed

theorem rt_schedule_correct_witness:
  "\<exists>k'. rt_schedule demo_kernel = Some k' \<and> sched_ok k' \<and> runs_highest k'"
  using rt_schedule_correct [OF demo_kernel_ok, of 1] by simp

theorem critical_section_witness:
  "\<exists>k'. rt_exit_critical (rt_enter_critical demo_kernel) = Some k' \<and> sched_ok k'
     \<and> rt_scheduler_lock_nest k' = 0"
  using critical_section [of "rt_enter_critical demo_kernel" 1] demo_kernel_ok
  by (auto simp: rt_enter_critical_def)

end
