(* ===== verification/Kernel_Object.thy ===== *)
theory Kernel_Object
  imports Kernel_Sched
begin

text \<open>
  The context checks of \<open>include/rtdebug.h\<close>, the interrupt nesting of \<open>src/irq.c\<close> and the part
  of \<open>src/object.c\<close> that every object initialisation runs: with RT_DEBUG, \<open>rt_object_init\<close>
  walks the objects of the class inside a critical section and asserts that the new one is not
  among them. An object is in the list of its class exactly while its type field names the
  class.
\<close>

definition rt_debug_not_in_interrupt :: "kernel \<Rightarrow> unit option" where
  "rt_debug_not_in_interrupt k = rt_assert (rt_interrupt_nest k = 0)"

definition rt_debug_in_thread_context :: "kernel \<Rightarrow> unit option" where
  "rt_debug_in_thread_context k = do {
     rt_assert (rt_current_thread k \<noteq> None);
     rt_debug_not_in_interrupt k
   }"

definition rt_debug_scheduler_available :: "bool \<Rightarrow> kernel \<Rightarrow> unit option" where
  "rt_debug_scheduler_available need_check k =
     (if need_check then do {
        rt_assert (rt_critical_level k = 0);
        rt_debug_in_thread_context k
      } else Some ())"

lemma rt_debug_scheduler_available_eq:
  "rt_debug_scheduler_available need_check k = rt_assert (need_check \<longrightarrow>
     rt_scheduler_lock_nest k = 0 \<and> rt_current_thread k \<noteq> None \<and> rt_interrupt_nest k = 0)"
  by (auto simp: rt_debug_scheduler_available_def rt_debug_in_thread_context_def
      rt_debug_not_in_interrupt_def rt_critical_level_def rt_assert_def)

definition rt_object_init_check :: "bool \<Rightarrow> kernel \<Rightarrow> kernel option" where
  "rt_object_init_check registered k = do {
     let k1 = rt_enter_critical k;
     rt_assert (\<not> registered);
     rt_exit_critical k1
   }"

definition rt_interrupt_enter :: "kernel \<Rightarrow> kernel" where
  "rt_interrupt_enter k = k\<lparr>rt_interrupt_nest := rt_interrupt_nest k + 1\<rparr>"

definition rt_interrupt_leave :: "kernel \<Rightarrow> kernel" where
  "rt_interrupt_leave k = k\<lparr>rt_interrupt_nest := rt_interrupt_nest k - 1\<rparr>"

definition rt_interrupt_get_nest :: "kernel \<Rightarrow> u8" where
  "rt_interrupt_get_nest k = rt_interrupt_nest k"

lemma rt_interrupt_leave_enter: "rt_interrupt_leave (rt_interrupt_enter k) = k"
  by (simp add: rt_interrupt_leave_def rt_interrupt_enter_def)

lemma rt_object_init_check_sched_ok:
  "sched_ok k \<Longrightarrow> rt_object_init_check registered k = Some k' \<Longrightarrow> sched_ok k'"
  by (auto simp: rt_object_init_check_def rt_enter_critical_def
      dest!: rt_exit_critical_sched_ok [rotated])

lemma rt_object_init_check_total:
  assumes "sched_ok k" "\<not> registered"
  obtains k' where "rt_object_init_check registered k = Some k'"
  using rt_exit_critical_total [of "rt_enter_critical k"] assms
  by (auto simp: rt_object_init_check_def rt_enter_critical_def)

end
