(* ===== verification/Kernel_Timer.thy ===== *)
theory Kernel_Timer
  imports Kernel_Object
begin

text \<open>
  Timers (\<open>src/timer.c\<close>): the control blocks, the two sorted lists (hard timers, checked in the
  tick interrupt, and soft timers, checked by the timer thread), stopping and control. Starting
  a timer and checking the lists need the thread operations and are in \<open>Kernel_Clock\<close>. The skip
  list has one level on this board (\<open>RT_TIMER_SKIP_LIST_LEVEL\<close>).
\<close>

abbreviation (input) RT_TIMER_FLAG_ACTIVATED :: u8 where "RT_TIMER_FLAG_ACTIVATED \<equiv> 1"
abbreviation (input) RT_TIMER_FLAG_PERIODIC :: u8 where "RT_TIMER_FLAG_PERIODIC \<equiv> 2"
abbreviation (input) RT_TIMER_FLAG_SOFT_TIMER :: u8 where "RT_TIMER_FLAG_SOFT_TIMER \<equiv> 4"
abbreviation (input) RT_TICK_MAX :: rt_tick_t where "RT_TICK_MAX \<equiv> 0xffffffff"
abbreviation (input) TICK_HALF :: rt_tick_t where "TICK_HALF \<equiv> 0x7fffffff"

abbreviation upd_timer :: "timer_id \<Rightarrow> (rt_timer \<Rightarrow> rt_timer) \<Rightarrow> kernel \<Rightarrow> kernel" where
  "upd_timer t f k \<equiv> k\<lparr>timers := (timers k)(t := f (timers k t))\<rparr>"

lemma tick_half: "RT_TICK_MAX div 2 = TICK_HALF"
  by simp

subsection \<open>Operations\<close>

text \<open>\<open>rt_list_init\<close> on the node and \<open>_timer_remove\<close>: the timer is in no list afterwards.\<close>

definition timer_remove :: "timer_id \<Rightarrow> kernel \<Rightarrow> kernel" where
  "timer_remove t k = k\<lparr>
     timer_list := removeAll t (timer_list k),
     timer_expired := removeAll t (timer_expired k),
     soft_timer_list := removeAll t (soft_timer_list k),
     soft_timer_expired := removeAll t (soft_timer_expired k)\<rparr>"

definition timer_init ::
  "timer_id \<Rightarrow> timeout_fn \<Rightarrow> nat \<Rightarrow> rt_tick_t \<Rightarrow> u8 \<Rightarrow> kernel \<Rightarrow> kernel" where
  "timer_init t timeout parameter time flag k =
     upd_timer t (\<lambda>tm. tm\<lparr>tm_flag := clear_flag RT_TIMER_FLAG_ACTIVATED flag,
       tm_timeout_func := timeout, tm_parameter := parameter,
       tm_timeout_tick := 0, tm_init_tick := time\<rparr>) k"

definition timer_list_next_timeout ::
  "timer_id list \<Rightarrow> kernel \<Rightarrow> rt_err_t \<times> rt_tick_t option" where
  "timer_list_next_timeout ts k = (case ts of
       [] \<Rightarrow> (- RT_ERROR, None)
     | t # _ \<Rightarrow> (RT_EOK, Some (tm_timeout_tick (timers k t))))"

definition rt_timer_next_timeout_tick :: "kernel \<Rightarrow> rt_tick_t" where
  "rt_timer_next_timeout_tick k =
     (case snd (timer_list_next_timeout (timer_list k) k) of None \<Rightarrow> RT_TICK_MAX | Some n \<Rightarrow> n)"

definition rt_timer_init ::
  "timer_id \<Rightarrow> timeout_fn \<Rightarrow> nat \<Rightarrow> rt_tick_t \<Rightarrow> u8 \<Rightarrow> kernel \<Rightarrow> kernel option" where
  "rt_timer_init t timeout parameter time flag k = do {
     rt_assert (time < RT_TICK_MAX div 2);
     k0 \<leftarrow> rt_object_init_check (tm_type (timers k t) = Class_Timer) k;
     let k1 = upd_timer t (\<lambda>tm. tm\<lparr>tm_type := Class_Timer, tm_static := True\<rparr>) k0;
     Some (timer_init t timeout parameter time flag k1)
   }"

definition rt_timer_detach :: "timer_id \<Rightarrow> kernel \<Rightarrow> (rt_err_t \<times> kernel) option" where
  "rt_timer_detach t k = do {
     rt_assert (tm_type (timers k t) = Class_Timer);
     rt_assert (tm_static (timers k t));
     let k1 = timer_remove t k;
     let k2 = upd_timer t (tm_flag_update (clear_flag RT_TIMER_FLAG_ACTIVATED)) k1;
     Some (RT_EOK, upd_timer t (\<lambda>tm. tm\<lparr>tm_type := Class_Null, tm_static := False\<rparr>) k2)
   }"

text \<open>
  \<open>rt_timer_create\<close>: the allocator's answer (\<open>Some t\<close> for a fresh control block, \<open>None\<close> when
  there is no memory) is an argument, for \<open>rt_object_allocate\<close> of the heap.
\<close>

definition rt_timer_create ::
  "timer_id option \<Rightarrow> timeout_fn \<Rightarrow> nat \<Rightarrow> rt_tick_t \<Rightarrow> u8 \<Rightarrow> kernel
   \<Rightarrow> (timer_id option \<times> kernel) option" where
  "rt_timer_create alloc timeout parameter time flag k = do {
     rt_assert (time < RT_TICK_MAX div 2);
     rt_debug_not_in_interrupt k;
     (case alloc of
        None \<Rightarrow> Some (None, k)
      | Some t \<Rightarrow>
         (let k1 = upd_timer t (\<lambda>tm. tm\<lparr>tm_type := Class_Timer, tm_static := False\<rparr>) k
          in Some (Some t, timer_init t timeout parameter time flag k1)))
   }"

definition rt_timer_delete :: "timer_id \<Rightarrow> kernel \<Rightarrow> (rt_err_t \<times> kernel) option" where
  "rt_timer_delete t k = do {
     rt_assert (tm_type (timers k t) = Class_Timer);
     rt_assert (\<not> tm_static (timers k t));
     let k1 = timer_remove t k;
     let k2 = upd_timer t (tm_flag_update (clear_flag RT_TIMER_FLAG_ACTIVATED)) k1;
     Some (RT_EOK, upd_timer t (\<lambda>tm. tm\<lparr>tm_type := Class_Null\<rparr>) k2)
   }"

definition rt_timer_stop :: "timer_id \<Rightarrow> kernel \<Rightarrow> (rt_err_t \<times> kernel) option" where
  "rt_timer_stop t k = do {
     rt_assert (tm_type (timers k t) = Class_Timer);
     (if \<not> has_flag RT_TIMER_FLAG_ACTIVATED (tm_flag (timers k t)) then Some (- RT_ERROR, k)
      else Some (RT_EOK,
        upd_timer t (tm_flag_update (clear_flag RT_TIMER_FLAG_ACTIVATED)) (timer_remove t k)))
   }"

datatype timer_cmd =
    TC_set_time rt_tick_t | TC_get_time | TC_set_oneshot | TC_set_periodic | TC_get_state
  | TC_get_remain_time | TC_get_func | TC_set_func timeout_fn | TC_get_parm | TC_set_parm nat
  | TC_other

text \<open>
  The commands and their argument. What a command stores through \<open>arg\<close> is the second result;
  \<open>GET_FUNC\<close> assigns the local \<open>arg\<close> itself, so the caller gets nothing.
\<close>

datatype timer_out = TO_none | TO_tick rt_tick_t | TO_state bool | TO_parm nat

definition rt_timer_control ::
  "timer_id \<Rightarrow> timer_cmd \<Rightarrow> kernel \<Rightarrow> (rt_err_t \<times> timer_out \<times> kernel) option" where
  "rt_timer_control t cmd k = do {
     rt_assert (tm_type (timers k t) = Class_Timer);
     (case cmd of
        TC_get_time \<Rightarrow> Some (RT_EOK, TO_tick (tm_init_tick (timers k t)), k)
      | TC_set_time v \<Rightarrow> do {
          rt_assert (v < RT_TICK_MAX div 2);
          Some (RT_EOK, TO_none, upd_timer t (tm_init_tick_update (\<lambda>_. v)) k)
        }
      | TC_set_oneshot \<Rightarrow>
          Some (RT_EOK, TO_none, upd_timer t (tm_flag_update (clear_flag RT_TIMER_FLAG_PERIODIC)) k)
      | TC_set_periodic \<Rightarrow>
          Some (RT_EOK, TO_none, upd_timer t (tm_flag_update (set_flag RT_TIMER_FLAG_PERIODIC)) k)
      | TC_get_state \<Rightarrow>
          Some (RT_EOK, TO_state (has_flag RT_TIMER_FLAG_ACTIVATED (tm_flag (timers k t))), k)
      | TC_get_remain_time \<Rightarrow> Some (RT_EOK, TO_tick (tm_timeout_tick (timers k t)), k)
      | TC_get_func \<Rightarrow> Some (RT_EOK, TO_none, k)
      | TC_set_func f \<Rightarrow> Some (RT_EOK, TO_none, upd_timer t (tm_timeout_func_update (\<lambda>_. f)) k)
      | TC_get_parm \<Rightarrow> Some (RT_EOK, TO_parm (tm_parameter (timers k t)), k)
      | TC_set_parm p \<Rightarrow> Some (RT_EOK, TO_none, upd_timer t (tm_parameter_update (\<lambda>_. p)) k)
      | TC_other \<Rightarrow> Some (RT_EOK, TO_none, k))
   }"

text \<open>
  The search loop of \<open>rt_timer_start\<close>: the new timer goes before the first one that expires
  strictly later, where later is decided on the difference of the ticks modulo \<open>2^32\<close>.
\<close>

definition timer_later :: "(timer_id \<Rightarrow> rt_timer) \<Rightarrow> rt_tick_t \<Rightarrow> timer_id \<Rightarrow> bool" where
  "timer_later tms timeout_tick t \<longleftrightarrow>
     tm_timeout_tick (tms t) - timeout_tick \<noteq> 0
     \<and> tm_timeout_tick (tms t) - timeout_tick < RT_TICK_MAX div 2"

fun timer_list_insert ::
  "(timer_id \<Rightarrow> rt_timer) \<Rightarrow> rt_tick_t \<Rightarrow> timer_id \<Rightarrow> timer_id list \<Rightarrow> timer_id list" where
  "timer_list_insert tms timeout_tick new [] = [new]"
| "timer_list_insert tms timeout_tick new (t # ts) =
     (if timer_later tms timeout_tick t then new # t # ts
      else t # timer_list_insert tms timeout_tick new ts)"

lemma timer_list_insert_eq:
  "timer_list_insert tms x new ts = insert_before_first (timer_later tms x) new ts"
  by (induction ts) auto

subsection \<open>The list is sorted by expiry\<close>

text \<open>
  \<open>timer_key b\<close> is how long after the tick \<open>b\<close> a timer expires. While every key is below half
  the range of the tick counter, the comparison of differences in the search loop is the
  comparison of the keys, also across the wrap-around of the counter.
\<close>

definition timer_key :: "(timer_id \<Rightarrow> rt_timer) \<Rightarrow> rt_tick_t \<Rightarrow> timer_id \<Rightarrow> nat" where
  "timer_key tms b t = unat (tm_timeout_tick (tms t) - b)"

definition timers_sorted :: "(timer_id \<Rightarrow> rt_timer) \<Rightarrow> rt_tick_t \<Rightarrow> timer_id list \<Rightarrow> bool" where
  "timers_sorted tms b ts \<longleftrightarrow>
     sorted (map (timer_key tms b) ts) \<and> (\<forall>t \<in> set ts. timer_key tms b t < unat TICK_HALF)"

lemma diff_less_half_iff:
  fixes x y b :: rt_tick_t
  assumes "unat (x - b) < unat TICK_HALF" "unat (y - b) < unat TICK_HALF"
  shows "x - y \<noteq> 0 \<and> x - y < 0x7fffffff \<longleftrightarrow> unat (y - b) < unat (x - b)"
proof -
  define u v where "u = x - b" and "v = y - b"
  have xy: "x - y = u - v" by (simp add: u_def v_def)
  have uv: "u < 0x7fffffff" "v < 0x7fffffff"
    using assms unfolding u_def v_def word_less_nat_alt by blast+
  have "u - v \<noteq> 0 \<and> u - v < 0x7fffffff \<longleftrightarrow> v < u"
  proof (cases "v \<le> u")
    case True
    then have "unat (u - v) = unat u - unat v" by (rule unat_sub)
    moreover have "unat u < 0x7fffffff" using uv by (simp add: word_less_nat_alt)
    ultimately show ?thesis using True
      by (auto simp: word_less_nat_alt word_le_nat_alt unat_eq_0 [symmetric])
  next
    case False
    then have "unat u < unat v" "unat v < 0x7fffffff" using uv by (simp_all add: word_less_nat_alt word_le_nat_alt)
    moreover have "unat (u - v) = unat u + 2 ^ 32 - unat v"
      using unat_sub_if' [of u v] calculation by simp
    ultimately show ?thesis using False by (auto simp: word_less_nat_alt)
  qed
  then show ?thesis unfolding xy u_def [symmetric] v_def [symmetric] word_less_nat_alt [of v u] .
qed

lemma timer_later_iff:
  assumes "timer_key tms b t < unat TICK_HALF" "unat (x - b) < unat TICK_HALF"
  shows "timer_later tms x t \<longleftrightarrow> unat (x - b) < timer_key tms b t"
  using diff_less_half_iff [of "tm_timeout_tick (tms t)" b x] assms
  unfolding timer_later_def timer_key_def tick_half by blast

interpretation timer_queue: ordered_queue "timer_key tms b" "\<lambda>t. timer_key tms b t < unat TICK_HALF"
  "\<lambda>t. timer_list_insert tms (tm_timeout_tick (tms t)) t" for tms b
proof
  fix x ys
  assume x: "timer_key tms b x < unat TICK_HALF" and ys: "\<forall>y \<in> set ys. timer_key tms b y < unat TICK_HALF"
  have "timer_later tms (tm_timeout_tick (tms x)) y \<longleftrightarrow> timer_key tms b x < timer_key tms b y"
    if "y \<in> set ys" for y
    using timer_later_iff [of tms b y] x ys that by (simp add: timer_key_def)
  then show "timer_list_insert tms (tm_timeout_tick (tms x)) x ys
      = insert_before_first (\<lambda>y. timer_key tms b x < timer_key tms b y) x ys"
    unfolding timer_list_insert_eq by (induction ys) simp_all
qed

lemma timer_list_insert_sorted_aux:
  assumes "timers_sorted tms b ts" "timer_key tms b new < unat TICK_HALF"
  shows "timers_sorted tms b (timer_list_insert tms (tm_timeout_tick (tms new)) new ts)
    \<and> (\<exists>as bs. ts = as @ bs
        \<and> timer_list_insert tms (tm_timeout_tick (tms new)) new ts = as @ new # bs
        \<and> (\<forall>t \<in> set as. timer_key tms b t \<le> timer_key tms b new)
        \<and> (\<forall>t \<in> set bs. timer_key tms b new < timer_key tms b t))"
proof -
  have ok: "\<forall>t \<in> set ts. timer_key tms b t < unat TICK_HALF" "sorted (map (timer_key tms b) ts)"
    using assms(1) by (simp_all add: timers_sorted_def)
  note q = timer_queue.ins_sorted [OF assms(2) ok] timer_queue.ins_set [OF assms(2) ok(1)]
  have "timers_sorted tms b (timer_list_insert tms (tm_timeout_tick (tms new)) new ts)"
    using q ok(1) assms(2) unfolding timers_sorted_def by auto
  then show ?thesis using timer_queue.ins_stable [OF assms(2) ok] by blast
qed

text \<open>
  Inserting a timer into a sorted list gives a sorted list with the same
  other timers, also across the wrap-around of the tick counter, provided every expiry is less
  than half the counter's range after some base tick; a timer with the same expiry as others
  goes behind them.
\<close>

theorem timer_list_insert_sorted:
  assumes "timers_sorted tms b ts" "timer_key tms b new < unat TICK_HALF"
  shows "timers_sorted tms b (timer_list_insert tms (tm_timeout_tick (tms new)) new ts)
    \<and> (\<exists>as bs. ts = as @ bs
        \<and> timer_list_insert tms (tm_timeout_tick (tms new)) new ts = as @ new # bs
        \<and> (\<forall>t \<in> set as. timer_key tms b t \<le> timer_key tms b new)
        \<and> (\<forall>t \<in> set bs. timer_key tms b new < timer_key tms b t))"
  using assms by (rule timer_list_insert_sorted_aux)

definition demo_timers :: "timer_id \<Rightarrow> rt_timer" where
  "demo_timers t = \<lparr>tm_type = Class_Timer, tm_static = True, tm_flag = 0,
     tm_timeout_func = UserTimeout 0, tm_parameter = 0, tm_init_tick = 0,
     tm_timeout_tick = (case t of ObjTimer n \<Rightarrow> word_of_nat n | ThreadTimer n \<Rightarrow> 0)\<rparr>"

theorem timer_list_insert_sorted_witness:
  "timers_sorted demo_timers 4294967290
     (timer_list_insert demo_timers 5 (ObjTimer 5) [ObjTimer 4294967290, ObjTimer 7])"
proof -
  have k: "timer_key demo_timers 4294967290 (ObjTimer 5) = 11"
    "map (timer_key demo_timers 4294967290) [ObjTimer 4294967290, ObjTimer 7] = [0, 13]"
    "tm_timeout_tick (demo_timers (ObjTimer 5)) = 5"
    by (simp_all add: timer_key_def demo_timers_def)
  have "timers_sorted demo_timers 4294967290 [ObjTimer 4294967290, ObjTimer 7]"
    using k(2) unfolding timers_sorted_def by simp
  from timer_list_insert_sorted [OF this, of "ObjTimer 5"] show ?thesis unfolding k by simp
qed

end
