(* ===== verification/Kernel_Thread.thy ===== *)
theory Kernel_Thread
  imports Kernel_Timer
begin

text \<open>
  Thread management (\<open>src/thread.c\<close>) as far as it does not involve mutexes: initialisation,
  start-up, suspending and resuming, yielding, the exit and timeout functions and the change of
  a priority; and the defunct list of \<open>src/idle.c\<close>.
\<close>

subsection \<open>Operations\<close>

definition rt_thread_self :: "kernel \<Rightarrow> tid option" where
  "rt_thread_self k = rt_current_thread k"

text \<open>
  \<open>_thread_init\<close>; the stack, the entry point and the name do not influence the scheduler and
  are left out.
\<close>

definition thread_init :: "tid \<Rightarrow> u8 \<Rightarrow> u32 \<Rightarrow> kernel \<Rightarrow> kernel option" where
  "thread_init t priority tick k = do {
     rt_assert (unat priority < RT_THREAD_PRIORITY_MAX);
     let k1 = upd_thread t (\<lambda>th. th\<lparr>th_init_priority := priority, th_current_priority := priority,
       th_number_mask := 0, th_pending_object := None, th_event_set := 0, th_event_info := 0,
       th_init_tick := tick, th_remaining_tick := tick, th_error := RT_EOK,
       th_stat := RT_THREAD_INIT\<rparr>) k;
     let k2 = k1\<lparr>taken_objects := (taken_objects k1)(t := [])\<rparr>;
     rt_timer_init (ThreadTimer t) ThreadTimeout t 0 0 k2
   }"

definition rt_thread_init :: "tid \<Rightarrow> u8 \<Rightarrow> u32 \<Rightarrow> kernel \<Rightarrow> (rt_err_t \<times> kernel) option" where
  "rt_thread_init t priority tick k = do {
     k1 \<leftarrow> rt_object_init_check (th_type (threads k t) = Class_Thread) k;
     let k2 = upd_thread t (\<lambda>th. th\<lparr>th_type := Class_Thread, th_static := True\<rparr>) k1;
     k3 \<leftarrow> thread_init t priority tick k2;
     Some (RT_EOK, k3)
   }"

text \<open>
  \<open>rt_thread_create\<close>: the answers of the two allocations, the control block and whether there is
  memory for the stack, are arguments. \<open>rt_object_allocate\<close> zeroes the control block.
\<close>

definition rt_thread_create ::
  "tid option \<Rightarrow> bool \<Rightarrow> u8 \<Rightarrow> u32 \<Rightarrow> kernel \<Rightarrow> (tid option \<times> kernel) option" where
  "rt_thread_create alloc stack_alloc priority tick k = do {
     rt_debug_not_in_interrupt k;
     (case alloc of
        None \<Rightarrow> Some (None, k)
      | Some t \<Rightarrow>
          (let k1 = upd_thread t (\<lambda>_. thread_bss\<lparr>th_type := Class_Thread\<rparr>)
                 (k\<lparr>timers := (timers k)(ThreadTimer t :=
                     (timers k (ThreadTimer t))\<lparr>tm_type := Class_Null\<rparr>)\<rparr>) in
           if \<not> stack_alloc then Some (None, upd_thread t (th_type_update (\<lambda>_. Class_Null)) k1)
           else do { k2 \<leftarrow> thread_init t priority tick k1; Some (Some t, k2) }))
   }"

definition rt_thread_set_suspend_state :: "tid \<Rightarrow> int \<Rightarrow> kernel \<Rightarrow> kernel option" where
  "rt_thread_set_suspend_state t suspend_flag k = do {
     stat \<leftarrow> (if suspend_flag = 0 then Some RT_THREAD_SUSPEND_INTERRUPTIBLE
             else if suspend_flag = 1 then Some RT_THREAD_SUSPEND_KILLABLE
             else if suspend_flag = 2 then Some RT_THREAD_SUSPEND_UNINTERRUPTIBLE
             else None);
     Some (put_stat t stat k)
   }"

definition rt_thread_suspend_with_flag ::
  "tid \<Rightarrow> int \<Rightarrow> kernel \<Rightarrow> (rt_err_t \<times> kernel) option" where
  "rt_thread_suspend_with_flag t suspend_flag k = do {
     rt_assert (th_type (threads k t) = Class_Thread);
     rt_assert (rt_thread_self k = Some t);
     let stat = thread_state k t;
     (if stat \<noteq> RT_THREAD_READY \<and> stat \<noteq> RT_THREAD_RUNNING then Some (- RT_ERROR, k)
      else do {
        k1 \<leftarrow> rt_schedule_remove_thread t k;
        k2 \<leftarrow> rt_thread_set_suspend_state t suspend_flag k1;
        (_, k3) \<leftarrow> rt_timer_stop (ThreadTimer t) k2;
        Some (RT_EOK, k3)
      })
   }"

abbreviation (input) RT_INTERRUPTIBLE :: int where "RT_INTERRUPTIBLE \<equiv> 0"
abbreviation (input) RT_KILLABLE :: int where "RT_KILLABLE \<equiv> 1"
abbreviation (input) RT_UNINTERRUPTIBLE :: int where "RT_UNINTERRUPTIBLE \<equiv> 2"

definition rt_thread_suspend :: "tid \<Rightarrow> kernel \<Rightarrow> (rt_err_t \<times> kernel) option" where
  "rt_thread_suspend t k = rt_thread_suspend_with_flag t RT_UNINTERRUPTIBLE k"

definition rt_thread_resume :: "tid \<Rightarrow> kernel \<Rightarrow> (rt_err_t \<times> kernel) option" where
  "rt_thread_resume t k = do {
     rt_assert (th_type (threads k t) = Class_Thread);
     (if \<not> stat_suspended (th_stat (threads k t)) then Some (- RT_ERROR, k)
      else do {
        let k1 = rt_list_remove t k;
        (_, k2) \<leftarrow> rt_timer_stop (ThreadTimer t) k1;
        k3 \<leftarrow> rt_schedule_insert_thread t k2;
        Some (RT_EOK, k3)
      })
   }"

definition rt_thread_startup :: "tid \<Rightarrow> kernel \<Rightarrow> (rt_err_t \<times> kernel) option" where
  "rt_thread_startup t k = do {
     rt_assert (thread_state k t = RT_THREAD_INIT);
     rt_assert (th_type (threads k t) = Class_Thread);
     let k1 = upd_thread t (\<lambda>th. th\<lparr>th_number_mask := push_bit (unat (th_current_priority th)) 1,
       th_stat := RT_THREAD_SUSPEND_INTERRUPTIBLE\<rparr>) k;
     (_, k2) \<leftarrow> rt_thread_resume t k1;
     k3 \<leftarrow> (if rt_thread_self k2 \<noteq> None then rt_schedule k2 else Some k2);
     Some (RT_EOK, k3)
   }"

definition rt_thread_yield :: "kernel \<Rightarrow> (rt_err_t \<times> kernel) option" where
  "rt_thread_yield k = do {
     t \<leftarrow> rt_thread_self k;
     let k1 = upd_thread t (\<lambda>th. th\<lparr>th_remaining_tick := th_init_tick th,
       th_stat := th_stat th OR RT_THREAD_STAT_YIELD_MASK\<rparr>) k;
     k2 \<leftarrow> rt_schedule k1;
     Some (RT_EOK, k2)
   }"

definition rt_thread_defunct_enqueue :: "tid \<Rightarrow> kernel \<Rightarrow> kernel" where
  "rt_thread_defunct_enqueue t k = rt_list_insert_after QDefunct t k"

definition rt_thread_defunct_dequeue :: "kernel \<Rightarrow> tid option \<times> kernel" where
  "rt_thread_defunct_dequeue k = (case tq k QDefunct of
       [] \<Rightarrow> (None, k)
     | t # _ \<Rightarrow> (Some t, rt_list_remove t k))"

definition thread_exit :: "kernel \<Rightarrow> kernel option" where
  "thread_exit k = do {
     t \<leftarrow> rt_thread_self k;
     k1 \<leftarrow> rt_schedule_remove_thread t k;
     (_, k2) \<leftarrow> rt_timer_detach (ThreadTimer t) k1;
     let k3 = upd_thread t (th_stat_update (\<lambda>_. RT_THREAD_CLOSE)) k2;
     rt_schedule (rt_thread_defunct_enqueue t k3)
   }"

definition thread_timeout :: "tid \<Rightarrow> kernel \<Rightarrow> kernel option" where
  "thread_timeout t k = do {
     rt_assert (stat_suspended (th_stat (threads k t)));
     rt_assert (th_type (threads k t) = Class_Thread);
     let k1 = upd_thread t (th_error_update (\<lambda>_. - RT_ETIMEOUT)) k;
     k2 \<leftarrow> rt_schedule_insert_thread t (rt_list_remove t k1);
     rt_schedule k2
   }"

text \<open>The command \<open>RT_THREAD_CTRL_CHANGE_PRIORITY\<close> of \<open>rt_thread_control\<close>.\<close>

definition thread_set_priority :: "tid \<Rightarrow> u8 \<Rightarrow> kernel \<Rightarrow> kernel" where
  "thread_set_priority t prio k = upd_thread t (\<lambda>th. th\<lparr>th_current_priority := prio,
     th_number_mask := push_bit (unat prio) 1\<rparr>) k"

definition rt_thread_change_priority :: "tid \<Rightarrow> u8 \<Rightarrow> kernel \<Rightarrow> (rt_err_t \<times> kernel) option" where
  "rt_thread_change_priority t prio k = do {
     rt_assert (th_type (threads k t) = Class_Thread);
     k' \<leftarrow> (if thread_state k t = RT_THREAD_READY then do {
             k1 \<leftarrow> rt_schedule_remove_thread t k;
             rt_schedule_insert_thread t (thread_set_priority t prio k1)
           } else Some (thread_set_priority t prio k));
     Some (RT_EOK, k')
   }"

text \<open>
  \<open>rt_defunct_execute\<close> of the idle thread frees the closed threads one after the other, from
  the front of the list; no cleanup function is set in this repository's threads.
\<close>

definition defunct_reap :: "tid \<Rightarrow> kernel \<Rightarrow> kernel" where
  "defunct_reap t k = upd_thread t (\<lambda>th. th\<lparr>th_type := Class_Null, th_static := False\<rparr>) k"

fun defunct_execute_n :: "nat \<Rightarrow> kernel \<Rightarrow> kernel" where
  "defunct_execute_n 0 k = k"
| "defunct_execute_n (Suc n) k = (case rt_thread_defunct_dequeue k of
       (None, k1) \<Rightarrow> k1
     | (Some t, k1) \<Rightarrow> defunct_execute_n n (defunct_reap t k1))"

definition rt_defunct_execute :: "kernel \<Rightarrow> kernel" where
  "rt_defunct_execute k = defunct_execute_n (Suc (length (tq k QDefunct))) k"

subsection \<open>The timers of the threads\<close>

text \<open>
  A thread that has been initialised and not closed has a registered one-shot hard timer for
  \<open>_thread_timeout\<close>. A thread timer in the list of the hard timers is active and belongs to a
  suspended thread, so that \<open>_thread_timeout\<close> finds the state it asserts.
\<close>

definition live_state :: "u8 \<Rightarrow> bool" where
  "live_state s \<longleftrightarrow> stat_base s \<noteq> RT_THREAD_INIT \<and> stat_base s \<noteq> RT_THREAD_CLOSE"

definition thread_timer_ok :: "tid \<Rightarrow> rt_timer \<Rightarrow> bool" where
  "thread_timer_ok t tm \<longleftrightarrow> tm_type tm = Class_Timer \<and> tm_static tm
     \<and> tm_timeout_func tm = ThreadTimeout \<and> tm_parameter tm = t
     \<and> \<not> has_flag RT_TIMER_FLAG_PERIODIC (tm_flag tm)
     \<and> \<not> has_flag RT_TIMER_FLAG_SOFT_TIMER (tm_flag tm)"

definition live_ok :: "kernel \<Rightarrow> tid \<Rightarrow> bool" where
  "live_ok k t \<longleftrightarrow> (live_state (th_stat (threads k t)) \<longrightarrow>
     th_type (threads k t) = Class_Thread \<and> thread_timer_ok t (timers k (ThreadTimer t)))"

definition timers_ok :: "kernel \<Rightarrow> bool" where
  "timers_ok k \<longleftrightarrow> (\<forall>t. live_ok k t)
     \<and> distinct (timer_list k)
     \<and> (\<forall>x \<in> set (timer_list k). tm_type (timers k x) = Class_Timer
          \<and> has_flag RT_TIMER_FLAG_ACTIVATED (tm_flag (timers k x)))
     \<and> (\<forall>t. ThreadTimer t \<in> set (timer_list k) \<longrightarrow> stat_suspended (th_stat (threads k t)))"

abbreviation kernel_ok :: "kernel \<Rightarrow> bool" where
  "kernel_ok k \<equiv> sched_ok k \<and> timers_ok k"

lemma suspended_live: "stat_suspended s \<Longrightarrow> live_state s"
  by (auto simp: stat_suspended_iff_base live_state_def)

lemma live_state_cong: "stat_base s = stat_base s' \<Longrightarrow> live_state s = live_state s'"
  by (simp add: live_state_def)

lemma stat_suspended_cong: "stat_base s = stat_base s' \<Longrightarrow> stat_suspended s = stat_suspended s'"
  by (simp add: stat_suspended_iff_base)

text \<open>
  The invariant only reads the timers, the list of the hard timers, and of each thread its type
  and state.
\<close>

lemma timers_ok_cong:
  assumes "timers k' = timers k" "timer_list k' = timer_list k"
    "\<And>t. th_type (threads k' t) = th_type (threads k t)"
    "\<And>t. live_state (th_stat (threads k' t)) \<Longrightarrow> live_state (th_stat (threads k t))"
    "\<And>t. stat_suspended (th_stat (threads k t)) \<Longrightarrow> stat_suspended (th_stat (threads k' t))"
    "timers_ok k"
  shows "timers_ok k'"
  using assms unfolding timers_ok_def live_ok_def by auto

lemma timers_ok_frame:
  assumes "sched_frame k k'" "timers_ok k"
  shows "timers_ok k'"
proof (rule timers_ok_cong [OF _ _ _ _ _ assms(2)])
  show "timers k' = timers k" "timer_list k' = timer_list k"
    using sched_frame_sel [OF assms(1)] by auto
  show "th_type (threads k' t) = th_type (threads k t)" for t
    using sched_frame_thread [OF assms(1)] by simp
  show "live_state (th_stat (threads k t))" if "live_state (th_stat (threads k' t))" for t
  proof (cases "thread_state k t = RT_THREAD_READY \<or> thread_state k t = RT_THREAD_RUNNING")
    case True
    then show ?thesis by (auto simp: live_state_def)
  next
    case False
    then have "threads k' t = threads k t" using assms(1) unfolding sched_frame_def by blast
    with that show ?thesis by simp
  qed
  show "stat_suspended (th_stat (threads k' t))" if "stat_suspended (th_stat (threads k t))" for t
    using sched_frame_suspended [OF assms(1) that] that by simp
qed

lemma rt_schedule_kernel_ok:
  "kernel_ok k \<Longrightarrow> rt_schedule k = Some k' \<Longrightarrow> kernel_ok k'"
  using rt_schedule_sched_ok timers_ok_frame [OF rt_schedule_frame] by blast

subsection \<open>Stopping a timer\<close>

lemma timer_remove_sel [simp]:
  "timers (timer_remove t k) = timers k" "threads (timer_remove t k) = threads k"
  "timer_list (timer_remove t k) = removeAll t (timer_list k)"
  "timer_expired (timer_remove t k) = removeAll t (timer_expired k)"
  "tq (timer_remove t k) = tq k" "rt_current_thread (timer_remove t k) = rt_current_thread k"
  "sched_okx X (timer_remove t k) = sched_okx X k"
  by (simp_all add: timer_remove_def)

definition timer_frame :: "kernel \<Rightarrow> kernel \<Rightarrow> bool" where
  "timer_frame k k' \<longleftrightarrow> k' = k\<lparr>timers := timers k', timer_list := timer_list k',
     timer_expired := timer_expired k', soft_timer_list := soft_timer_list k',
     soft_timer_expired := soft_timer_expired k'\<rparr>"

lemma timer_frame_sel:
  assumes "timer_frame k k'"
  shows "threads k' = threads k" "tq k' = tq k" "taken_objects k' = taken_objects k"
    "rt_thread_ready_priority_group k' = rt_thread_ready_priority_group k"
    "rt_current_thread k' = rt_current_thread k" "rt_current_priority k' = rt_current_priority k"
    "rt_scheduler_lock_nest k' = rt_scheduler_lock_nest k"
    "rt_interrupt_nest k' = rt_interrupt_nest k" "rt_tick k' = rt_tick k"
    "soft_timer_idle k' = soft_timer_idle k" "timer_thread k' = timer_thread k"
    "sems k' = sems k" "mutexes k' = mutexes k" "events k' = events k"
    "mailboxes k' = mailboxes k" "msgqueues k' = msgqueues k"
    "sched_okx X k' = sched_okx X k"
proof -
  obtain a b c d e where k': "k' = k\<lparr>timers := a, timer_list := b, timer_expired := c,
      soft_timer_list := d, soft_timer_expired := e\<rparr>"
    using assms unfolding timer_frame_def by blast
  show "threads k' = threads k" "tq k' = tq k" "taken_objects k' = taken_objects k"
    "rt_thread_ready_priority_group k' = rt_thread_ready_priority_group k"
    "rt_current_thread k' = rt_current_thread k" "rt_current_priority k' = rt_current_priority k"
    "rt_scheduler_lock_nest k' = rt_scheduler_lock_nest k"
    "rt_interrupt_nest k' = rt_interrupt_nest k" "rt_tick k' = rt_tick k"
    "soft_timer_idle k' = soft_timer_idle k" "timer_thread k' = timer_thread k"
    "sems k' = sems k" "mutexes k' = mutexes k" "events k' = events k"
    "mailboxes k' = mailboxes k" "msgqueues k' = msgqueues k"
    "sched_okx X k' = sched_okx X k"
    by (simp_all add: k')
qed

lemma rt_timer_stop_total:
  assumes "tm_type (timers k x) = Class_Timer"
  obtains e k' where "rt_timer_stop x k = Some (e, k')" "timer_frame k k'"
    "timer_list k' = (if has_flag RT_TIMER_FLAG_ACTIVATED (tm_flag (timers k x))
       then removeAll x (timer_list k) else timer_list k)"
    "timers k' = (timers k)(x := tm_flag_update (clear_flag RT_TIMER_FLAG_ACTIVATED) (timers k x))"
    "set (timer_expired k') \<subseteq> set (timer_expired k)"
proof (cases "has_flag RT_TIMER_FLAG_ACTIVATED (tm_flag (timers k x))")
  case True
  let ?k = "upd_timer x (tm_flag_update (clear_flag RT_TIMER_FLAG_ACTIVATED)) (timer_remove x k)"
  show ?thesis
    by (rule that [of RT_EOK ?k])
      (use assms True in \<open>auto simp: rt_timer_stop_def timer_frame_def timer_remove_def\<close>)
next
  case False
  then have "tm_flag_update (clear_flag RT_TIMER_FLAG_ACTIVATED) (timers k x) = timers k x"
    by (simp add: clear_flag_absent)
  then show ?thesis
    by (intro that [of "- RT_ERROR" k])
      (use assms False in \<open>simp_all add: rt_timer_stop_def timer_frame_def\<close>)
qed

lemma thread_timer_ok_clear_active [simp]:
  "thread_timer_ok t (tm_flag_update (clear_flag RT_TIMER_FLAG_ACTIVATED) tm) = thread_timer_ok t tm"
  by (simp add: thread_timer_ok_def)

text \<open>After stopping its timer a thread may leave the suspended state.\<close>

lemma rt_timer_stop_timers_ok:
  assumes "timers_ok k" "rt_timer_stop x k = Some (e, k')" 
  shows "timers_ok k'" "x \<notin> set (timer_list k')" "timer_frame k k'"
    "timer_list k' = removeAll x (timer_list k)"
    "timers k' = (timers k)(x := tm_flag_update (clear_flag RT_TIMER_FLAG_ACTIVATED) (timers k x))"
    "set (timer_expired k') \<subseteq> set (timer_expired k)"
proof -
  have ty: "tm_type (timers k x) = Class_Timer" using assms(2) by (simp add: rt_timer_stop_def)
  obtain e' k'' where s: "rt_timer_stop x k = Some (e', k'')" "timer_frame k k''"
    "timer_list k'' = (if has_flag RT_TIMER_FLAG_ACTIVATED (tm_flag (timers k x))
       then removeAll x (timer_list k) else timer_list k)"
    "timers k'' = (timers k)(x := tm_flag_update (clear_flag RT_TIMER_FLAG_ACTIVATED) (timers k x))"
    "set (timer_expired k'') \<subseteq> set (timer_expired k)"
    by (rule rt_timer_stop_total [OF ty])
  with assms(2) have k'': "k'' = k'" by simp
  have tl: "timer_list k' = removeAll x (timer_list k)"
    using s(3) assms(1) by (auto simp: k'' timers_ok_def split: if_splits)
  have live: "live_ok k' t = live_ok k t" for t
    using s(4) timer_frame_sel(1) [OF s(2)]
    by (cases "x = ThreadTimer t") (auto simp: live_ok_def k'')
  show "timer_frame k k'" using s(2) k'' by simp
  show "x \<notin> set (timer_list k')" by (simp add: tl)
  show "timer_list k' = removeAll x (timer_list k)" by (rule tl)
  show "timers k' = (timers k)(x := tm_flag_update (clear_flag RT_TIMER_FLAG_ACTIVATED) (timers k x))"
    "set (timer_expired k') \<subseteq> set (timer_expired k)" using s(4,5) k'' by simp_all
  show "timers_ok k'"
    using assms(1) s(4) timer_frame_sel(1) [OF s(2)]
    unfolding timers_ok_def live tl by (auto simp: k'' distinct_removeAll)
qed

subsection \<open>What the thread operations leave alone\<close>

definition ipc_frame :: "kernel \<Rightarrow> kernel \<Rightarrow> bool" where
  "ipc_frame k k' \<longleftrightarrow>
     (\<exists>ths tqs g c cp tms tl te sl se. k' = k\<lparr>threads := ths, tq := tqs,
        rt_thread_ready_priority_group := g, rt_current_thread := c, rt_current_priority := cp,
        timers := tms, timer_list := tl, timer_expired := te, soft_timer_list := sl,
        soft_timer_expired := se\<rparr>)
   \<and> (\<forall>t. \<exists>s e. threads k' t = th_error_update (\<lambda>_. e) (th_stat_update (\<lambda>_. s) (threads k t)))"

lemma ipc_frameI:
  assumes "k' = k\<lparr>threads := threads k', tq := tq k',
        rt_thread_ready_priority_group := rt_thread_ready_priority_group k',
        rt_current_thread := rt_current_thread k', rt_current_priority := rt_current_priority k',
        timers := timers k', timer_list := timer_list k', timer_expired := timer_expired k',
        soft_timer_list := soft_timer_list k', soft_timer_expired := soft_timer_expired k'\<rparr>"
    "\<And>t. threads k' t = th_error_update (\<lambda>_. th_error (threads k' t))
        (th_stat_update (\<lambda>_. th_stat (threads k' t)) (threads k t))"
  shows "ipc_frame k k'"
  using assms unfolding ipc_frame_def by metis

lemma ipc_frame_sel:
  assumes "ipc_frame k k'"
  shows "taken_objects k' = taken_objects k" "rt_scheduler_lock_nest k' = rt_scheduler_lock_nest k"
    "rt_interrupt_nest k' = rt_interrupt_nest k" "rt_tick k' = rt_tick k"
    "soft_timer_idle k' = soft_timer_idle k" "timer_thread k' = timer_thread k"
    "sems k' = sems k" "mutexes k' = mutexes k" "events k' = events k"
    "mailboxes k' = mailboxes k" "msgqueues k' = msgqueues k"
proof -
  obtain ths tqs g c cp tms tl te sl se where k': "k' = k\<lparr>threads := ths, tq := tqs,
      rt_thread_ready_priority_group := g, rt_current_thread := c, rt_current_priority := cp,
      timers := tms, timer_list := tl, timer_expired := te, soft_timer_list := sl,
      soft_timer_expired := se\<rparr>"
    using assms unfolding ipc_frame_def by blast
  show "taken_objects k' = taken_objects k" "rt_scheduler_lock_nest k' = rt_scheduler_lock_nest k"
    "rt_interrupt_nest k' = rt_interrupt_nest k" "rt_tick k' = rt_tick k"
    "soft_timer_idle k' = soft_timer_idle k" "timer_thread k' = timer_thread k"
    "sems k' = sems k" "mutexes k' = mutexes k" "events k' = events k"
    "mailboxes k' = mailboxes k" "msgqueues k' = msgqueues k"
    by (simp_all add: k')
qed

lemma ipc_frame_thread:
  assumes "ipc_frame k k'"
  shows "th_current_priority (threads k' t) = th_current_priority (threads k t)"
    "th_type (threads k' t) = th_type (threads k t)"
    "th_init_priority (threads k' t) = th_init_priority (threads k t)"
    "th_number_mask (threads k' t) = th_number_mask (threads k t)"
    "th_pending_object (threads k' t) = th_pending_object (threads k t)"
    "th_event_set (threads k' t) = th_event_set (threads k t)"
    "th_event_info (threads k' t) = th_event_info (threads k t)"
    "th_init_tick (threads k' t) = th_init_tick (threads k t)"
proof -
  obtain s e where "threads k' t = th_error_update (\<lambda>_. e) (th_stat_update (\<lambda>_. s) (threads k t))"
    using assms unfolding ipc_frame_def by blast
  then show "th_current_priority (threads k' t) = th_current_priority (threads k t)"
    "th_type (threads k' t) = th_type (threads k t)"
    "th_init_priority (threads k' t) = th_init_priority (threads k t)"
    "th_number_mask (threads k' t) = th_number_mask (threads k t)"
    "th_pending_object (threads k' t) = th_pending_object (threads k t)"
    "th_event_set (threads k' t) = th_event_set (threads k t)"
    "th_event_info (threads k' t) = th_event_info (threads k t)"
    "th_init_tick (threads k' t) = th_init_tick (threads k t)"
    by simp_all
qed

lemma ipc_frame_refl [simp]: "ipc_frame k k"
  by (rule ipc_frameI) simp_all

lemma ipc_frame_trans:
  assumes "ipc_frame k k1" "ipc_frame k1 k2"
  shows "ipc_frame k k2"
proof (rule ipc_frameI)
  show "k2 = k\<lparr>threads := threads k2, tq := tq k2,
        rt_thread_ready_priority_group := rt_thread_ready_priority_group k2,
        rt_current_thread := rt_current_thread k2, rt_current_priority := rt_current_priority k2,
        timers := timers k2, timer_list := timer_list k2, timer_expired := timer_expired k2,
        soft_timer_list := soft_timer_list k2, soft_timer_expired := soft_timer_expired k2\<rparr>"
    using assms unfolding ipc_frame_def by fastforce
  fix t
  obtain s e s' e' where
    "threads k1 t = th_error_update (\<lambda>_. e) (th_stat_update (\<lambda>_. s) (threads k t))"
    "threads k2 t = th_error_update (\<lambda>_. e') (th_stat_update (\<lambda>_. s') (threads k1 t))"
    using assms unfolding ipc_frame_def by metis
  then show "threads k2 t = th_error_update (\<lambda>_. th_error (threads k2 t))
        (th_stat_update (\<lambda>_. th_stat (threads k2 t)) (threads k t))" by simp
qed

lemma sched_frame_ipc: "sched_frame k k' \<Longrightarrow> ipc_frame k k'"
proof (rule ipc_frameI)
  assume f: "sched_frame k k'"
  then obtain ths tqs g c cp where k': "k' = k\<lparr>threads := ths, tq := tqs,
      rt_thread_ready_priority_group := g, rt_current_thread := c, rt_current_priority := cp\<rparr>"
    unfolding sched_frame_def by blast
  show "k' = k\<lparr>threads := threads k', tq := tq k',
        rt_thread_ready_priority_group := rt_thread_ready_priority_group k',
        rt_current_thread := rt_current_thread k', rt_current_priority := rt_current_priority k',
        timers := timers k', timer_list := timer_list k', timer_expired := timer_expired k',
        soft_timer_list := soft_timer_list k', soft_timer_expired := soft_timer_expired k'\<rparr>"
    by (simp add: k')
  fix t
  obtain s where "threads k' t = th_stat_update (\<lambda>_. s) (threads k t)"
    using f unfolding sched_frame_def by blast
  then show "threads k' t = th_error_update (\<lambda>_. th_error (threads k' t))
        (th_stat_update (\<lambda>_. th_stat (threads k' t)) (threads k t))" by simp
qed

lemma timer_frame_ipc: "timer_frame k k' \<Longrightarrow> ipc_frame k k'"
proof (rule ipc_frameI)
  assume "timer_frame k k'"
  then obtain a b c d e where k': "k' = k\<lparr>timers := a, timer_list := b, timer_expired := c,
      soft_timer_list := d, soft_timer_expired := e\<rparr>"
    unfolding timer_frame_def by blast
  show "k' = k\<lparr>threads := threads k', tq := tq k',
        rt_thread_ready_priority_group := rt_thread_ready_priority_group k',
        rt_current_thread := rt_current_thread k', rt_current_priority := rt_current_priority k',
        timers := timers k', timer_list := timer_list k', timer_expired := timer_expired k',
        soft_timer_list := soft_timer_list k', soft_timer_expired := soft_timer_expired k'\<rparr>"
    by (simp add: k')
  show "threads k' t = th_error_update (\<lambda>_. th_error (threads k' t))
        (th_stat_update (\<lambda>_. th_stat (threads k' t)) (threads k t))" for t
    by (simp add: k')
qed

subsection \<open>Suspending and resuming\<close>

lemma live_okD:
  assumes "timers_ok k" "live_state (th_stat (threads k t))"
  shows "th_type (threads k t) = Class_Thread" "thread_timer_ok t (timers k (ThreadTimer t))"
    "tm_type (timers k (ThreadTimer t)) = Class_Timer"
  using assms by (auto simp: timers_ok_def live_ok_def thread_timer_ok_def)

lemma suspend_spec:
  assumes k: "kernel_ok k" and cur: "rt_current_thread k = Some t"
    and st: "thread_state k t = RT_THREAD_READY \<or> thread_state k t = RT_THREAD_RUNNING"
    and fl: "f = RT_INTERRUPTIBLE \<or> f = RT_KILLABLE \<or> f = RT_UNINTERRUPTIBLE"
  obtains k' s where "rt_thread_suspend_with_flag t f k = Some (RT_EOK, k')"
    "sched_okx {t} k'" "prio_ok (threads k' t)" "timers_ok k'"
    "stat_suspended (set_stat s (th_stat (threads k t)))"
    "threads k' = (threads k)(t := th_stat_update (set_stat s) (threads k t))"
    "tq k' = (\<lambda>q. removeAll t (tq k q))" "rt_current_thread k' = Some t" "ipc_frame k k'"
    "ThreadTimer t \<notin> set (timer_list k')"
    "timer_list k' = removeAll (ThreadTimer t) (timer_list k)"
    "timers k' = (timers k)(ThreadTimer t :=
       tm_flag_update (clear_flag RT_TIMER_FLAG_ACTIVATED) (timers k (ThreadTimer t)))"
    "set (timer_expired k') \<subseteq> set (timer_expired k)"
proof -
  have live: "live_state (th_stat (threads k t))" and ni: "thread_state k t \<noteq> RT_THREAD_INIT"
    using st by (auto simp: live_state_def)
  note ty = live_okD [OF _ live]
  obtain k1 where k1: "rt_schedule_remove_thread t k = Some k1" "sched_okx (insert t {}) k1"
    "threads k1 = threads k" "tq k1 = (\<lambda>q. removeAll t (tq k q))"
    "rt_current_thread k1 = rt_current_thread k"
    using k ni by (blast intro: rt_schedule_remove_thread_okx [of "{}" k t])
  have f1: "sched_frame k k1"
    using remove_frame(1) [OF only_ready_queuedI [OF _ st] k1(1)] k by blast
  obtain s where s: "rt_thread_set_suspend_state t f k1 = Some (put_stat t s k1)"
    "s AND RT_THREAD_SUSPEND_MASK = RT_THREAD_SUSPEND_MASK"
    using fl by (auto simp: rt_thread_set_suspend_state_def)
  let ?k2 = "put_stat t s k1"
  have tm2: "timers_ok ?k2"
  proof (rule timers_ok_cong [of ?k2 k])
    show "timers ?k2 = timers k" "timer_list ?k2 = timer_list k"
      using sched_frame_sel [OF f1] by (simp_all add: put_stat_def)
  qed (use k live k1(3) s in \<open>auto split: if_splits\<close>)
  then have "tm_type (timers ?k2 (ThreadTimer t)) = Class_Timer"
    by (rule live_okD) (use s in \<open>auto intro: suspended_live\<close>)
  then obtain e k3 where k3: "rt_timer_stop (ThreadTimer t) ?k2 = Some (e, k3)"
    using rt_timer_stop_total by blast
  note st3 = rt_timer_stop_timers_ok [OF tm2 k3]
  note f3 = timer_frame_sel [OF st3(3)]
  have ipc2: "ipc_frame k1 ?k2"
    by (rule ipc_frameI) (simp_all add: put_stat_def)
  show ?thesis
  proof (rule that [of k3 s])
    show "rt_thread_suspend_with_flag t f k = Some (RT_EOK, k3)"
      using k ty st cur k1(1) s(1) k3
      by (auto simp: rt_thread_suspend_with_flag_def rt_thread_self_def)
    show "sched_okx {t} k3" using k1(2) f3 by simp
    show "prio_ok (threads k3 t)"
      using k ni f3 k1(3) by (auto simp: prio_ok_def sched_okx_def thread_ok_def)
    show "timers_ok k3" "ThreadTimer t \<notin> set (timer_list k3)" using st3 by auto
    show "stat_suspended (set_stat s (th_stat (threads k t)))" using s(2) by simp
    show "threads k3 = (threads k)(t := th_stat_update (set_stat s) (threads k t))"
      using f3(1) k1(3) by (auto simp: put_stat_def)
    show "tq k3 = (\<lambda>q. removeAll t (tq k q))" using f3(2) k1(4) by simp
    show "rt_current_thread k3 = Some t" using f3(5) k1(5) cur by simp
    show "ipc_frame k k3"
      using sched_frame_ipc [OF f1] ipc2 timer_frame_ipc [OF st3(3)] ipc_frame_trans by blast
    show "timer_list k3 = removeAll (ThreadTimer t) (timer_list k)"
      "timers k3 = (timers k)(ThreadTimer t :=
         tm_flag_update (clear_flag RT_TIMER_FLAG_ACTIVATED) (timers k (ThreadTimer t)))"
      "set (timer_expired k3) \<subseteq> set (timer_expired k)"
      using st3(4-6) sched_frame_sel [OF f1] by (simp_all add: put_stat_def)
  qed
qed

lemma insert_effect:
  assumes "rt_schedule_insert_thread t k = Some k'"
  shows "ipc_frame k k'" "\<And>q. (\<And>p. q \<noteq> QReady p) \<Longrightarrow> tq k' q = tq k q"
    "timers k' = timers k" "timer_list k' = timer_list k" "timer_expired k' = timer_expired k"
    "rt_current_thread k' = rt_current_thread k"
    "\<exists>s. (s = RT_THREAD_READY \<or> s = RT_THREAD_RUNNING) \<and>
       threads k' = (threads k)(t := th_stat_update (set_stat s) (threads k t))"
proof -
  obtain s tqs g where k': "k' = (put_stat t s k)\<lparr>tq := tqs, rt_thread_ready_priority_group := g\<rparr>"
    "s = RT_THREAD_READY \<or> s = RT_THREAD_RUNNING" "\<And>q. (\<And>p. q \<noteq> QReady p) \<Longrightarrow> tqs q = tq k q"
  proof (cases "rt_current_thread k = Some t")
    case True
    with assms have "k' = put_stat t RT_THREAD_RUNNING k"
      by (simp add: rt_schedule_insert_thread_def)
    then show ?thesis
      by (intro that [where s = RT_THREAD_RUNNING and tqs = "tq k"
            and g = "rt_thread_ready_priority_group k"])
        (simp_all add: put_stat_def)
  next
    case False
    let ?p = "thread_prio k t"
    show ?thesis
      by (rule that [where s = RT_THREAD_READY and tqs = "(tq k)(QReady ?p := tq k' (QReady ?p))"
            and g = "rt_thread_ready_priority_group k'"])
        (use False assms in \<open>auto simp: rt_schedule_insert_thread_def Let_def
          rt_list_insert_after_def rt_list_insert_before_def put_stat_def split: if_splits\<close>)
  qed
  show "ipc_frame k k'" by (rule ipc_frameI) (simp_all add: k'(1) put_stat_def)
  show "\<And>q. (\<And>p. q \<noteq> QReady p) \<Longrightarrow> tq k' q = tq k q" using k' by simp
  show "timers k' = timers k" "timer_list k' = timer_list k" "timer_expired k' = timer_expired k"
    "rt_current_thread k' = rt_current_thread k" by (simp_all add: k'(1) put_stat_def)
  show "\<exists>s. (s = RT_THREAD_READY \<or> s = RT_THREAD_RUNNING) \<and>
       threads k' = (threads k)(t := th_stat_update (set_stat s) (threads k t))"
    using k'(2) by (intro exI [of _ s]) (auto simp: k'(1) put_stat_def)
qed

text \<open>Unlinking a suspended thread: it is in no ready queue, so the group stays right.\<close>

lemma sched_okx_unlink_suspended:
  assumes k: "sched_ok k" and st: "stat_suspended (th_stat (threads k t))"
  shows "sched_okx {t} (rt_list_remove t k)" "prio_ok (threads k t)"
proof -
  have nr: "thread_state k t \<noteq> RT_THREAD_READY" "thread_state k t \<noteq> RT_THREAD_INIT"
    using st by (auto simp: stat_suspended_iff_base)
  then have "t \<notin> set (tq k (QReady p))" for p
    using k by (fastforce simp: sched_okx_def queue_stat_def)
  then have rq: "removeAll t (tq k (QReady p)) = tq k (QReady p)" for p by simp
  have "thread_ok (rt_list_remove t k) u" if "u \<noteq> t" for u
    using k that by (auto simp: sched_okx_def thread_ok_def)
  moreover have "group_ok (rt_list_remove t k)"
    using k rq by (simp add: sched_okx_def group_ok_def)
  moreover have "queues_ok (tq (rt_list_remove t k))"
    using k queues_ok_remove [of "tq k" t] by (simp add: sched_okx_def rt_list_remove_def)
  ultimately show "sched_okx {t} (rt_list_remove t k)"
    using k by (auto simp: sched_okx_def)
  show "prio_ok (threads k t)" using k nr by (auto simp: sched_okx_def thread_ok_def)
qed

lemma timers_ok_set_stat:
  assumes "timers_ok k" "timers k' = timers k" "timer_list k' = timer_list k"
    "threads k' = (threads k)(t := th_stat_update (set_stat s) (threads k t))"
    "ThreadTimer t \<notin> set (timer_list k)" "live_state (th_stat (threads k t))"
  shows "timers_ok k'"
  using assms unfolding timers_ok_def live_ok_def by auto

lemma resume_spec:
  assumes k: "kernel_ok k" and st: "stat_suspended (th_stat (threads k t))"
  obtains k' s where "rt_thread_resume t k = Some (RT_EOK, k')" "kernel_ok k'"
    "s = RT_THREAD_READY \<or> s = RT_THREAD_RUNNING"
    "threads k' = (threads k)(t := th_stat_update (set_stat s) (threads k t))"
    "\<forall>q. (\<forall>p. q \<noteq> QReady p) \<longrightarrow> tq k' q = removeAll t (tq k q)"
    "rt_current_thread k' = rt_current_thread k" "ipc_frame k k'"
    "timer_list k' = removeAll (ThreadTimer t) (timer_list k)"
    "timers k' = (timers k)(ThreadTimer t :=
       tm_flag_update (clear_flag RT_TIMER_FLAG_ACTIVATED) (timers k (ThreadTimer t)))"
    "set (timer_expired k') \<subseteq> set (timer_expired k)"
proof -
  have live: "live_state (th_stat (threads k t))" using st by (rule suspended_live)
  note ty = live_okD [OF _ live]
  let ?k1 = "rt_list_remove t k"
  have tm1: "timers_ok ?k1"
    using k by (intro timers_ok_cong [of ?k1 k]) (simp_all add: rt_list_remove_def)
  have "tm_type (timers ?k1 (ThreadTimer t)) = Class_Timer"
    using ty k by (simp add: rt_list_remove_def)
  then obtain e k2 where k2: "rt_timer_stop (ThreadTimer t) ?k1 = Some (e, k2)"
    using rt_timer_stop_total by blast
  note st2 = rt_timer_stop_timers_ok [OF tm1 k2]
  note f2 = timer_frame_sel [OF st2(3)]
  note un = sched_okx_unlink_suspended [OF conjunct1 [OF k] st]
  have ok2: "sched_okx (insert t {}) k2" "prio_ok (threads k2 t)" using un f2 by simp_all
  obtain k3 where k3: "rt_schedule_insert_thread t k2 = Some k3" "sched_ok k3"
    by (rule rt_schedule_insert_thread_okx [OF ok2]) simp
  note e3 = insert_effect [OF k3(1)]
  obtain s where s: "s = RT_THREAD_READY \<or> s = RT_THREAD_RUNNING"
    "threads k3 = (threads k2)(t := th_stat_update (set_stat s) (threads k2 t))"
    using e3(7) by blast
  have t3: "timers_ok k3"
    by (rule timers_ok_set_stat [OF st2(1) e3(3,4) s(2) st2(2)]) (use live f2 in simp)
  have "ipc_frame k ?k1" by (rule ipc_frameI) (simp_all add: rt_list_remove_def)
  then have ipc: "ipc_frame k k3"
    using ipc_frame_trans timer_frame_ipc [OF st2(3)] e3(1) by blast
  show ?thesis
  proof (rule that [of k3 s])
    show "rt_thread_resume t k = Some (RT_EOK, k3)"
      using ty k st k2 k3(1) by (simp add: rt_thread_resume_def)
    show "kernel_ok k3" using k3(2) t3 by simp
    show "threads k3 = (threads k)(t := th_stat_update (set_stat s) (threads k t))"
      using s(2) f2(1) by simp
    have "tq k3 q = removeAll t (tq k q)" if "\<And>p. q \<noteq> QReady p" for q
      using e3(2) [OF that] f2(2) by simp
    then show "\<forall>q. (\<forall>p. q \<noteq> QReady p) \<longrightarrow> tq k3 q = removeAll t (tq k q)" by blast
    show "rt_current_thread k3 = rt_current_thread k" using e3(6) f2(5) by simp
    show "timer_list k3 = removeAll (ThreadTimer t) (timer_list k)"
      "timers k3 = (timers k)(ThreadTimer t :=
         tm_flag_update (clear_flag RT_TIMER_FLAG_ACTIVATED) (timers k (ThreadTimer t)))"
      "set (timer_expired k3) \<subseteq> set (timer_expired k)"
      using st2(4-6) e3(3-5) by (simp_all add: rt_list_remove_def)
  qed (use s ipc in auto)
qed

lemma thread_timeout_spec:
  assumes k: "kernel_ok k" and st: "stat_suspended (th_stat (threads k t))"
    and ntl: "ThreadTimer t \<notin> set (timer_list k)" and cur: "rt_current_thread k \<noteq> None"
  obtains k' where "thread_timeout t k = Some k'" "kernel_ok k'" "ipc_frame k k'"
    "thread_state k' t = RT_THREAD_READY \<or> thread_state k' t = RT_THREAD_RUNNING"
    "th_error (threads k' t) = - RT_ETIMEOUT"
    "\<And>u. u \<noteq> t \<Longrightarrow> stat_suspended (th_stat (threads k u)) \<Longrightarrow> threads k' u = threads k u"
    "\<And>q. (\<And>p. q \<noteq> QReady p) \<Longrightarrow> tq k' q = removeAll t (tq k q)"
    "timers k' = timers k" "timer_list k' = timer_list k" "timer_expired k' = timer_expired k"
    "rt_current_thread k' \<noteq> None"
    "\<forall>u. u \<noteq> t \<longrightarrow> th_error (threads k' u) = th_error (threads k u)
       \<and> (thread_state k u = RT_THREAD_READY \<or> thread_state k u = RT_THREAD_RUNNING \<longrightarrow>
          thread_state k' u = RT_THREAD_READY \<or> thread_state k' u = RT_THREAD_RUNNING)"
proof -
  have live: "live_state (th_stat (threads k t))" using st by (rule suspended_live)
  have ty: "th_type (threads k t) = Class_Thread" using live_okD [OF _ live] k by blast
  let ?k1 = "upd_thread t (th_error_update (\<lambda>_. - RT_ETIMEOUT)) k"
  let ?k2 = "rt_list_remove t ?k1"
  have s1: "sched_ok ?k1" using k by (simp add: sched_okx_upd_other_field)
  have st1: "stat_suspended (th_stat (threads ?k1 t))" using st by simp
  note un = sched_okx_unlink_suspended [OF s1 st1]
  have ok2: "sched_okx (insert t {}) ?k2" "prio_ok (threads ?k2 t)" using un by simp_all
  obtain k3 where k3: "rt_schedule_insert_thread t ?k2 = Some k3" "sched_ok k3"
    by (rule rt_schedule_insert_thread_okx [OF ok2]) simp
  note e3 = insert_effect [OF k3(1)]
  obtain s where s: "s = RT_THREAD_READY \<or> s = RT_THREAD_RUNNING"
    "threads k3 = (threads ?k2)(t := th_stat_update (set_stat s) (threads ?k2 t))"
    using e3(7) by blast
  have tm2: "timers_ok ?k2"
    using k by (intro timers_ok_cong [of ?k2 k]) (auto simp: rt_list_remove_def split: if_splits)
  have t3: "timers_ok k3"
    by (rule timers_ok_set_stat [OF tm2 e3(3,4) s(2)])
      (use live ntl in \<open>simp_all add: rt_list_remove_def\<close>)
  have cur3: "rt_current_thread k3 \<noteq> None" using e3(6) cur by simp
  obtain k4 where k4: "rt_schedule k3 = Some k4" "sched_ok k4" "sched_frame k3 k4"
    "rt_current_thread k4 \<noteq> None"
    by (rule rt_schedule_returns [OF k3(2) cur3])
  note f4 = sched_frame_sel [OF k4(3)]
  have "ipc_frame k ?k2" by (rule ipc_frameI) (simp_all add: rt_list_remove_def)
  then have ipc: "ipc_frame k k4" using e3(1) sched_frame_ipc [OF k4(3)] ipc_frame_trans by blast
  have st3: "thread_state k3 t = RT_THREAD_READY \<or> thread_state k3 t = RT_THREAD_RUNNING"
    using s by auto
  show ?thesis
  proof (rule that [of k4])
    show "thread_timeout t k = Some k4"
      using st ty k3(1) k4(1) by (simp add: thread_timeout_def)
    show "kernel_ok k4" using k4(2) timers_ok_frame [OF k4(3) t3] by blast
    show "thread_state k4 t = RT_THREAD_READY \<or> thread_state k4 t = RT_THREAD_RUNNING"
      using k4(3) st3 unfolding sched_frame_def by blast
    show "th_error (threads k4 t) = - RT_ETIMEOUT"
      using sched_frame_thread(3) [OF k4(3)] s(2) by simp
    show "threads k4 u = threads k u"
      if "u \<noteq> t" "stat_suspended (th_stat (threads k u))" for u
      using sched_frame_suspended [OF k4(3), of u] s(2) that by simp
    show "tq k4 q = removeAll t (tq k q)" if "\<And>p. q \<noteq> QReady p" for q
      using sched_frame_queue [OF k4(3) that] e3(2) [OF that] by simp
    show "timers k4 = timers k" "timer_list k4 = timer_list k" "timer_expired k4 = timer_expired k"
      using f4 e3(3-5) by (simp_all add: rt_list_remove_def)
    have "threads k3 u = threads k u" if "u \<noteq> t" for u using s(2) that by simp
    then show "\<forall>u. u \<noteq> t \<longrightarrow> th_error (threads k4 u) = th_error (threads k u)
       \<and> (thread_state k u = RT_THREAD_READY \<or> thread_state k u = RT_THREAD_RUNNING \<longrightarrow>
          thread_state k4 u = RT_THREAD_READY \<or> thread_state k4 u = RT_THREAD_RUNNING)"
      using k4(3) sched_frame_thread(3) [OF k4(3)] unfolding sched_frame_def by metis
  qed (use ipc k4 in auto)
qed

subsection \<open>Yielding\<close>

lemma has_yield [simp]: "stat_yield (s OR RT_THREAD_STAT_YIELD_MASK)"
  by (simp add: stat_yield_def bit.conj_disj_distrib2)

lemma stat_base_or_yield [simp]: "stat_base (s OR RT_THREAD_STAT_YIELD_MASK) = stat_base s"
  by (simp add: stat_base_def bit.conj_disj_distrib2)

lemma yield_spec:
  assumes k: "sched_ok k" and c: "rt_current_thread k = Some c"
    and run: "thread_state k c = RT_THREAD_RUNNING" and lock: "rt_scheduler_lock_nest k = 0"
    and q: "tq k (QReady (thread_prio k c)) = a # bs"
    and hi: "\<And>r. r < thread_prio k c \<Longrightarrow> tq k (QReady r) = []"
  obtains k' where "rt_thread_yield k = Some (RT_EOK, k')" "sched_ok k'"
    "rt_current_thread k' = Some a" "thread_state k' a = RT_THREAD_RUNNING"
    "tq k' (QReady (thread_prio k c)) = c # bs"
    "\<forall>t. thread_prio k' t = thread_prio k t" "rt_scheduler_lock_nest k' = 0"
    "\<forall>r. r \<noteq> thread_prio k c \<longrightarrow> tq k' (QReady r) = tq k (QReady r)"
proof -
  let ?p = "thread_prio k c"
  let ?k1 = "upd_thread c (\<lambda>th. th\<lparr>th_remaining_tick := th_init_tick th,
       th_stat := th_stat th OR RT_THREAD_STAT_YIELD_MASK\<rparr>) k"
  have k1: "sched_ok ?k1"
    using k sched_okx_upd_other_field [of "\<lambda>th. th\<lparr>th_remaining_tick := th_init_tick th,
       th_stat := th_stat th OR RT_THREAD_STAT_YIELD_MASK\<rparr>" k c] by simp
  have ac: "a \<noteq> c" "a \<notin> set bs" "c \<notin> set bs" "thread_prio k a = ?p"
  proof -
    have "a \<in> set (tq k (QReady ?p))" using q by simp
    then show "a \<noteq> c" "thread_prio k a = ?p" using ready_queueD [OF k] run by auto
    have "distinct (tq k (QReady ?p))" using k by (simp add: sched_okx_def queues_ok_def)
    then show "a \<notin> set bs" using q by simp
    show "c \<notin> set bs"
      using not_in_X_queue [OF sched_okx_hold_running [OF k run], of c "QReady ?p"] q by simp
  qed
  have p32: "?p < 32" using k run by (auto simp: sched_okx_def thread_ok_def prio_ok_def)
  have bit: "bit (rt_thread_ready_priority_group k) ?p"
    using k q p32 by (auto simp: sched_okx_def group_ok_def)
  then have g0: "rt_thread_ready_priority_group k \<noteq> 0" by auto
  obtain t p where tp: "scheduler_get_highest_priority_thread k = Some (t, p)"
    "tq k (QReady p) \<noteq> []" "hd (tq k (QReady p)) = t"
    "\<And>r. r < p \<Longrightarrow> tq k (QReady r) = []"
    by (rule highest_priority_thread [OF k g0]) blast
  have "p = ?p" using tp(2,4) hi q by (metis linorder_neqE_nat list.distinct(1))
  then have hp: "scheduler_get_highest_priority_thread ?k1 = Some (a, ?p)"
    using tp q by simp
  obtain k' where k': "rt_schedule ?k1 = Some k'" "sched_ok k'" "sched_frame ?k1 k'"
    using rt_schedule_returns [OF k1] c by auto
  have out: "rt_current_thread k' = Some a \<and> thread_state k' a = RT_THREAD_RUNNING
    \<and> tq k' (QReady ?p) = c # bs \<and> (\<forall>r. r \<noteq> ?p \<longrightarrow> tq k' (QReady r) = removeAll a (tq k (QReady r)))"
    using k'(1) lock g0 hp c run ac p32 q
    by (auto simp: rt_schedule_def schedule_choose_def rt_schedule_insert_thread_def
        rt_schedule_remove_thread_def Let_def rt_list_isempty_def split: if_splits)
  have "a \<notin> set (tq k (QReady r))" if "r \<noteq> ?p" for r
    using k that ac(4) by (fastforce simp: sched_okx_def queue_stat_def)
  then show ?thesis
    using that [of k'] k' out c sched_frame_sel(2) [OF k'(3)] sched_frame_thread(1) [OF k'(3)] lock
    by (auto simp: rt_thread_yield_def rt_thread_self_def)
qed

fun yield_n :: "nat \<Rightarrow> kernel \<Rightarrow> kernel option" where
  "yield_n 0 k = Some k"
| "yield_n (Suc n) k = do { (_, k1) \<leftarrow> rt_thread_yield k; yield_n n k1 }"

text \<open>
  \<open>rt_schedule\<close> clears the yield flag of the current thread before
  \<open>rt_schedule_insert_thread\<close> tests it, so a yielding thread goes to the front of its ready
  queue instead of its end. When the current thread \<open>c\<close> and the ready threads \<open>a\<close> and those of
  \<open>bs\<close> share the highest priority and everyone who runs only yields, then after any number of
  yields the threads running are \<open>c\<close> and \<open>a\<close> in turn, and those of \<open>bs\<close> are still waiting in
  the same order: they never run.
\<close>

theorem yield_starves:
  assumes k: "sched_ok k" and c: "rt_current_thread k = Some c"
    and run: "thread_state k c = RT_THREAD_RUNNING" and lock: "rt_scheduler_lock_nest k = 0"
    and q: "tq k (QReady (thread_prio k c)) = a # bs"
    and hi: "\<And>r. r < thread_prio k c \<Longrightarrow> tq k (QReady r) = []"
  shows "\<exists>k'. yield_n n k = Some k'
    \<and> rt_current_thread k' = Some (if even n then c else a)
    \<and> tq k' (QReady (thread_prio k c)) = (if even n then a else c) # bs"
  using assms
proof (induction n arbitrary: k c a)
  case 0
  then show ?case by simp
next
  case (Suc n)
  obtain k' where k': "rt_thread_yield k = Some (RT_EOK, k')" "sched_ok k'"
    "rt_current_thread k' = Some a" "thread_state k' a = RT_THREAD_RUNNING"
    "tq k' (QReady (thread_prio k c)) = c # bs"
    "\<forall>t. thread_prio k' t = thread_prio k t" "rt_scheduler_lock_nest k' = 0"
    "\<forall>r. r \<noteq> thread_prio k c \<longrightarrow> tq k' (QReady r) = tq k (QReady r)"
    by (rule yield_spec [OF Suc.prems])
  have "a \<in> set (tq k (QReady (thread_prio k c)))" using Suc.prems by simp
  then have pa: "thread_prio k a = thread_prio k c"
    using ready_queueD [OF Suc.prems(1)] by blast
  have "\<exists>k''. yield_n n k' = Some k''
    \<and> rt_current_thread k'' = Some (if even n then a else c)
    \<and> tq k'' (QReady (thread_prio k' a)) = (if even n then c else a) # bs"
    using k' Suc.prems(6) pa by (intro Suc.IH) auto
  with k' pa show ?case by auto
qed

theorem yield_starves_witness:
  "\<exists>k'. yield_n 7 (demo_kernel\<lparr>rt_thread_ready_priority_group := 1024,
       threads := (threads demo_kernel)(2 := demo_thread 10 2),
       tq := (tq demo_kernel)(QReady 5 := [], QReady 10 := [2, 3])\<rparr>) = Some k'
     \<and> rt_current_thread k' = Some 2 \<and> tq k' (QReady 10) = [1, 3]"
proof -
  define g :: u32 where "g = 1024"
  let ?k = "demo_kernel\<lparr>rt_thread_ready_priority_group := g,
       threads := (threads demo_kernel)(2 := demo_thread 10 2),
       tq := (tq demo_kernel)(QReady 5 := [], QReady 10 := [2, 3])\<rparr>"
  have eq: "g = push_bit 10 1" by (simp add: g_def)
  have b: "bit g p \<longleftrightarrow> p = 10" for p
    unfolding eq bit_push_one_32 by auto
  have "sched_ok ?k"
    unfolding sched_okx_def queues_ok_def thread_ok_def group_ok_def
    by (simp add: b queue_stat_def demo_thread_def thread_bss_def prio_ok_def stat_base_def)
  then show ?thesis
    using yield_starves [of ?k 1 2 "[3]" 7]
    by (simp add: demo_thread_def thread_bss_def stat_base_def g_def)
qed

end
