(* ===== verification/Kernel_Clock.thy ===== *)
theory Kernel_Clock
  imports Kernel_Thread
begin

text \<open>
  Time: starting a timer and checking the timer lists (\<open>src/timer.c\<close>), the tick interrupt
  (\<open>src/clock.c\<close>), sleeping and delaying (\<open>src/thread.c\<close>). The loops of the two checks run
  until the first timer of the list has not expired; they are partial functions, \<open>None\<close> also
  standing for a loop that does not end. A call that blocks is split where the caller gives up
  the processor: the first part ends with \<open>Blocked\<close>, a second definition is what the thread does
  when it runs again.
\<close>

subsection \<open>Starting a timer\<close>

definition timer_enqueue :: "timer_id \<Rightarrow> kernel \<Rightarrow> kernel" where
  "timer_enqueue t k =
     (if has_flag RT_TIMER_FLAG_SOFT_TIMER (tm_flag (timers k t))
      then k\<lparr>soft_timer_list :=
             timer_list_insert (timers k) (tm_timeout_tick (timers k t)) t (soft_timer_list k)\<rparr>
      else k\<lparr>timer_list :=
             timer_list_insert (timers k) (tm_timeout_tick (timers k t)) t (timer_list k)\<rparr>)"

definition rt_timer_start :: "timer_id \<Rightarrow> kernel \<Rightarrow> (rt_err_t \<times> kernel) option" where
  "rt_timer_start t k = do {
     rt_assert (tm_type (timers k t) = Class_Timer);
     let k1 = upd_timer t (tm_flag_update (clear_flag RT_TIMER_FLAG_ACTIVATED)) (timer_remove t k);
     let k2 = upd_timer t (\<lambda>tm. tm\<lparr>tm_timeout_tick := rt_tick k1 + tm_init_tick tm\<rparr>) k1;
     let k3 = upd_timer t (tm_flag_update (set_flag RT_TIMER_FLAG_ACTIVATED)) (timer_enqueue t k2);
     (if has_flag RT_TIMER_FLAG_SOFT_TIMER (tm_flag (timers k3 t))
        \<and> soft_timer_idle k3
        \<and> stat_suspended (th_stat (threads k3 (timer_thread k3)))
      then do {
        (_, k4) \<leftarrow> rt_thread_resume (timer_thread k3) k3;
        k5 \<leftarrow> rt_schedule k4;
        Some (RT_EOK, k5)
      } else Some (RT_EOK, k3))
   }"

subsection \<open>Checking the lists\<close>

type_synonym callbacks = "nat \<Rightarrow> nat \<Rightarrow> kernel \<Rightarrow> kernel option"

definition call_timeout :: "callbacks \<Rightarrow> timer_id \<Rightarrow> kernel \<Rightarrow> kernel option" where
  "call_timeout cb t k = (case tm_timeout_func (timers k t) of
       ThreadTimeout \<Rightarrow> thread_timeout (tm_parameter (timers k t)) k
     | UserTimeout f \<Rightarrow> cb f (tm_parameter (timers k t)) k)"

definition timer_expired_at :: "rt_tick_t \<Rightarrow> timer_id \<Rightarrow> kernel \<Rightarrow> bool" where
  "timer_expired_at current_tick t k \<longleftrightarrow>
     current_tick - tm_timeout_tick (timers k t) < RT_TICK_MAX div 2"

text \<open>The body of the loop for an expired timer, up to its end or \<open>continue\<close>.\<close>

definition timer_restart :: "timer_id \<Rightarrow> kernel \<Rightarrow> kernel option" where
  "timer_restart t k =
     (if has_flag RT_TIMER_FLAG_PERIODIC (tm_flag (timers k t))
        \<and> has_flag RT_TIMER_FLAG_ACTIVATED (tm_flag (timers k t))
      then do {
        (_, k1) \<leftarrow> rt_timer_start t
          (upd_timer t (tm_flag_update (clear_flag RT_TIMER_FLAG_ACTIVATED)) k);
        Some k1
      } else Some k)"

definition timer_deactivate_oneshot :: "timer_id \<Rightarrow> kernel \<Rightarrow> kernel" where
  "timer_deactivate_oneshot t k =
     (if \<not> has_flag RT_TIMER_FLAG_PERIODIC (tm_flag (timers k t))
      then upd_timer t (tm_flag_update (clear_flag RT_TIMER_FLAG_ACTIVATED)) k else k)"

definition timer_fire :: "callbacks \<Rightarrow> timer_id \<Rightarrow> kernel \<Rightarrow> kernel option" where
  "timer_fire cb t k = do {
     let k1 = timer_deactivate_oneshot t (timer_remove t k);
     let k2 = k1\<lparr>timer_expired := t # timer_expired k1\<rparr>;
     k3 \<leftarrow> call_timeout cb t k2;
     (if timer_expired k3 = [] then Some k3 else timer_restart t (timer_remove t k3))
   }"

partial_function (option) timer_check_loop ::
  "callbacks \<Rightarrow> rt_tick_t \<Rightarrow> kernel \<Rightarrow> kernel option" where
  "timer_check_loop cb current_tick k = (case timer_list k of
       [] \<Rightarrow> Some k
     | t # _ \<Rightarrow> (if timer_expired_at current_tick t k
         then do { k1 \<leftarrow> timer_fire cb t k; timer_check_loop cb (rt_tick k1) k1 }
         else Some k))"

definition rt_timer_check :: "callbacks \<Rightarrow> kernel \<Rightarrow> kernel option" where
  "rt_timer_check cb k = timer_check_loop cb (rt_tick k) k"

definition soft_timer_fire :: "callbacks \<Rightarrow> timer_id \<Rightarrow> kernel \<Rightarrow> kernel option" where
  "soft_timer_fire cb t k = do {
     let k1 = timer_deactivate_oneshot t (timer_remove t k);
     let k2 = k1\<lparr>soft_timer_expired := t # soft_timer_expired k1, soft_timer_idle := False\<rparr>;
     k3 \<leftarrow> call_timeout cb t k2;
     let k4 = k3\<lparr>soft_timer_idle := True\<rparr>;
     (if soft_timer_expired k4 = [] then Some k4 else timer_restart t (timer_remove t k4))
   }"

partial_function (option) rt_soft_timer_check :: "callbacks \<Rightarrow> kernel \<Rightarrow> kernel option" where
  "rt_soft_timer_check cb k = (case soft_timer_list k of
       [] \<Rightarrow> Some k
     | t # _ \<Rightarrow> (if timer_expired_at (rt_tick k) t k
         then do { k1 \<leftarrow> soft_timer_fire cb t k; rt_soft_timer_check cb k1 }
         else Some k))"

subsection \<open>The tick\<close>

definition rt_tick_get :: "kernel \<Rightarrow> rt_tick_t" where
  "rt_tick_get k = rt_tick k"

definition rt_tick_set :: "rt_tick_t \<Rightarrow> kernel \<Rightarrow> kernel" where
  "rt_tick_set tick k = k\<lparr>rt_tick := tick\<rparr>"

definition tick_account :: "kernel \<Rightarrow> kernel option" where
  "tick_account k = do {
     let k1 = k\<lparr>rt_tick := rt_tick k + 1\<rparr>;
     t \<leftarrow> rt_thread_self k1;
     let k2 = upd_thread t (th_remaining_tick_update (\<lambda>r. r - 1)) k1;
     (if th_remaining_tick (threads k2 t) = 0
      then rt_schedule (upd_thread t (\<lambda>th. th\<lparr>th_remaining_tick := th_init_tick th,
             th_stat := th_stat th OR RT_THREAD_STAT_YIELD_MASK\<rparr>) k2)
      else Some k2)
   }"

definition rt_tick_increase :: "callbacks \<Rightarrow> kernel \<Rightarrow> kernel option" where
  "rt_tick_increase cb k = do { k1 \<leftarrow> tick_account k; rt_timer_check cb k1 }"

text \<open>
  \<open>rt_tick_from_millisecond\<close>; \<open>ms\<close> is a signed 32-bit integer. With
  \<open>RT_TICK_PER_SECOND = 1000\<close> the products stay in range.
\<close>

definition rt_tick_from_millisecond :: "int \<Rightarrow> rt_tick_t" where
  "rt_tick_from_millisecond ms =
     (if ms < 0 then RT_TICK_MAX
      else word_of_int (1000 * (ms div 1000)) + word_of_int ((1000 * (ms mod 1000) + 999) div 1000))"

definition rt_tick_get_millisecond :: "kernel \<Rightarrow> rt_tick_t" where
  "rt_tick_get_millisecond k = rt_tick k * (1000 div 1000)"

subsection \<open>Sleeping\<close>

datatype outcome = Done rt_err_t | Blocked

definition start_thread_timer :: "tid \<Rightarrow> rt_tick_t \<Rightarrow> kernel \<Rightarrow> kernel option" where
  "start_thread_timer t tick k = do {
     (_, _, k1) \<leftarrow> rt_timer_control (ThreadTimer t) (TC_set_time tick) k;
     (_, k2) \<leftarrow> rt_timer_start (ThreadTimer t) k1;
     Some k2
   }"

definition rt_thread_sleep :: "rt_tick_t \<Rightarrow> kernel \<Rightarrow> (outcome \<times> kernel) option" where
  "rt_thread_sleep tick k =
     (if tick = 0 then Some (Done (- RT_EINVAL), k)
      else do {
        t \<leftarrow> rt_thread_self k;
        rt_assert (th_type (threads k t) = Class_Thread);
        rt_debug_scheduler_available True k;
        let k1 = upd_thread t (th_error_update (\<lambda>_. RT_EOK)) k;
        (err, k2) \<leftarrow> rt_thread_suspend_with_flag t RT_INTERRUPTIBLE k1;
        (if err = RT_EOK then do {
           k3 \<leftarrow> start_thread_timer t tick k2;
           k4 \<leftarrow> rt_schedule (upd_thread t (th_error_update (\<lambda>_. - RT_EINTR)) k3);
           Some (Blocked, k4)
         } else Some (Done err, k2))
      })"

definition rt_thread_sleep_resume :: "tid \<Rightarrow> kernel \<Rightarrow> rt_err_t \<times> kernel" where
  "rt_thread_sleep_resume t k =
     (RT_EOK, if th_error (threads k t) = - RT_ETIMEOUT
              then upd_thread t (th_error_update (\<lambda>_. RT_EOK)) k else k)"

definition rt_thread_delay :: "rt_tick_t \<Rightarrow> kernel \<Rightarrow> (outcome \<times> kernel) option" where
  "rt_thread_delay tick k = rt_thread_sleep tick k"

definition rt_thread_mdelay :: "int \<Rightarrow> kernel \<Rightarrow> (outcome \<times> kernel) option" where
  "rt_thread_mdelay ms k = rt_thread_sleep (rt_tick_from_millisecond ms) k"

text \<open>
  \<open>rt_thread_delay_until\<close>: the value behind the pointer \<open>tick\<close> is an argument and a result.
\<close>

definition rt_thread_delay_until ::
  "rt_tick_t \<Rightarrow> rt_tick_t \<Rightarrow> kernel \<Rightarrow> (outcome \<times> rt_tick_t \<times> kernel) option" where
  "rt_thread_delay_until tick inc_tick k = do {
     t \<leftarrow> rt_thread_self k;
     rt_assert (th_type (threads k t) = Class_Thread);
     let k1 = upd_thread t (th_error_update (\<lambda>_. RT_EOK)) k;
     let cur_tick = rt_tick k1;
     (if cur_tick - tick < inc_tick then do {
        let tick' = tick + inc_tick;
        let left_tick = tick' - cur_tick;
        (_, k2) \<leftarrow> rt_thread_suspend_with_flag t RT_UNINTERRUPTIBLE k1;
        k3 \<leftarrow> start_thread_timer t left_tick k2;
        k4 \<leftarrow> rt_schedule k3;
        Some (Blocked, tick', k4)
      } else Some (Done (th_error (threads k1 t)), cur_tick, k1))
   }"

definition rt_thread_delay_until_resume :: "tid \<Rightarrow> kernel \<Rightarrow> rt_err_t \<times> kernel" where
  "rt_thread_delay_until_resume t k =
     (let k1 = (if th_error (threads k t) = - RT_ETIMEOUT
                then upd_thread t (th_error_update (\<lambda>_. RT_EOK)) k else k)
      in (th_error (threads k1 t), k1))"

text \<open>
  One round of \<open>_timer_thread_entry\<close> up to the place where the timer thread gives up the
  processor; \<open>Done\<close> when it goes on at once to \<open>rt_soft_timer_check\<close>.
\<close>

definition timer_thread_wait :: "kernel \<Rightarrow> (outcome \<times> kernel) option" where
  "timer_thread_wait k = (case timer_list_next_timeout (soft_timer_list k) k of
       (_, None) \<Rightarrow> do {
         t \<leftarrow> rt_thread_self k;
         (_, k1) \<leftarrow> rt_thread_suspend_with_flag t RT_UNINTERRUPTIBLE k;
         k2 \<leftarrow> rt_schedule k1;
         Some (Blocked, k2)
       }
     | (_, Some next_timeout) \<Rightarrow>
         (if next_timeout - rt_tick k < RT_TICK_MAX div 2
          then rt_thread_delay (next_timeout - rt_tick k) k
          else Some (Done RT_EOK, k)))"

definition rt_system_timer_init :: "kernel \<Rightarrow> kernel" where
  "rt_system_timer_init k = k\<lparr>timer_list := []\<rparr>"

definition rt_system_timer_thread_init :: "kernel \<Rightarrow> kernel option" where
  "rt_system_timer_thread_init k = do {
     let k1 = k\<lparr>soft_timer_list := []\<rparr>;
     (_, k2) \<leftarrow> rt_thread_init (timer_thread k1) 4 10 k1;
     (_, k3) \<leftarrow> rt_thread_startup (timer_thread k2) k2;
     Some k3
   }"

subsection \<open>The clock invariant\<close>

text \<open>
  Between ticks the hard timers are sorted by the time left, and every one of them has at least
  one tick and less than half the counter's range left.
\<close>

definition clock_ok :: "kernel \<Rightarrow> bool" where
  "clock_ok k \<longleftrightarrow> kernel_ok k \<and> rt_current_thread k \<noteq> None \<and> timer_expired k = []
     \<and> timers_sorted (timers k) (rt_tick k) (timer_list k)
     \<and> (\<forall>x \<in> set (timer_list k). 0 < timer_key (timers k) (rt_tick k) x \<and> (\<exists>t. x = ThreadTimer t))"

lemma timers_sorted_cong:
  assumes "\<And>x. x \<in> set ts \<Longrightarrow> tm_timeout_tick (tms' x) = tm_timeout_tick (tms x)"
  shows "timers_sorted tms' b ts = timers_sorted tms b ts"
proof -
  have "timer_key tms' b x = timer_key tms b x" if "x \<in> set ts" for x
    using assms that by (simp add: timer_key_def)
  then show ?thesis by (simp add: timers_sorted_def cong: map_cong)
qed

text \<open>Starting the timer of a suspended thread.\<close>

lemma start_thread_timer_spec:
  assumes k: "kernel_ok k" and st: "stat_suspended (th_stat (threads k t))"
    and tick: "tick < TICK_HALF"
    and srt: "timers_sorted (timers k) (rt_tick k) (timer_list k)"
    and ntl: "ThreadTimer t \<notin> set (timer_list k)"
  obtains k' where "start_thread_timer t tick k = Some k'" "kernel_ok k'" "timer_frame k k'"
    "timers_sorted (timers k') (rt_tick k') (timer_list k')"
    "set (timer_list k') = insert (ThreadTimer t) (set (timer_list k))"
    "timer_key (timers k') (rt_tick k') (ThreadTimer t) = unat tick"
    "\<forall>x. x \<noteq> ThreadTimer t \<longrightarrow> timers k' x = timers k x"
    "timer_expired k' = removeAll (ThreadTimer t) (timer_expired k)"
proof -
  let ?x = "ThreadTimer t"
  have live: "live_state (th_stat (threads k t))" using st by (rule suspended_live)
  have tm: "tm_type (timers k ?x) = Class_Timer" "thread_timer_ok t (timers k ?x)"
    using live_okD [OF _ live] k by blast+
  have nosoft: "\<not> has_flag RT_TIMER_FLAG_SOFT_TIMER (tm_flag (timers k ?x))"
    using tm(2) by (simp add: thread_timer_ok_def)
  define tms where "tms = (timers k)(?x := (tm_flag_update (clear_flag RT_TIMER_FLAG_ACTIVATED)
      ((timers k ?x)\<lparr>tm_init_tick := tick\<rparr>))\<lparr>tm_timeout_tick := rt_tick k + tick\<rparr>)"
  define k' where "k' = (timer_remove ?x k)\<lparr>
      timer_list := timer_list_insert tms (tm_timeout_tick (tms ?x)) ?x (timer_list k),
      timers := tms(?x := tm_flag_update (set_flag RT_TIMER_FLAG_ACTIVATED) (tms ?x))\<rparr>"
  have ex: "start_thread_timer t tick k = Some k'"
    using tm(1) tick nosoft ntl
    by (simp add: start_thread_timer_def rt_timer_control_def rt_timer_start_def timer_enqueue_def
        k'_def tms_def timer_remove_def Let_def)
  have key: "timer_key tms (rt_tick k) ?x = unat tick"
    by (simp add: timer_key_def tms_def)
  have "timers_sorted tms (rt_tick k) (timer_list k)"
  proof (subst timers_sorted_cong [of _ tms "timers k"])
    show "tm_timeout_tick (tms y) = tm_timeout_tick (timers k y)" if "y \<in> set (timer_list k)" for y
      using that ntl by (auto simp: tms_def)
  qed (rule srt)
  then have srt': "timers_sorted tms (rt_tick k)
      (timer_list_insert tms (tm_timeout_tick (tms ?x)) ?x (timer_list k))"
    using timer_list_insert_sorted_aux [of tms "rt_tick k" "timer_list k" ?x] key tick
    by (simp add: word_less_nat_alt)
  have fr: "timer_frame k k'" by (simp add: timer_frame_def k'_def timer_remove_def)
  note f = timer_frame_sel [OF fr]
  have set': "set (timer_list k') = insert ?x (set (timer_list k))"
    by (simp add: k'_def timer_list_insert_eq)
  have live': "live_ok k' u" for u
    using k f(1) by (cases "u = t") (auto simp: timers_ok_def live_ok_def k'_def tms_def
        thread_timer_ok_def)
  have act: "tm_type (timers k' y) = Class_Timer
      \<and> has_flag RT_TIMER_FLAG_ACTIVATED (tm_flag (timers k' y))" if "y \<in> set (timer_list k')" for y
    using that k tm(1) unfolding set' by (auto simp: timers_ok_def k'_def tms_def)
  have dist: "distinct (timer_list k')"
    using k ntl by (simp add: k'_def timer_list_insert_eq timers_ok_def)
  have sus: "stat_suspended (th_stat (threads k' u))" if "ThreadTimer u \<in> set (timer_list k')" for u
    using that k st f(1) unfolding set' by (auto simp: timers_ok_def)
  have "timers_ok k'"
    unfolding timers_ok_def using live' act dist sus by blast
  moreover have "timers_sorted (timers k') (rt_tick k') (timer_list k')"
  proof (subst timers_sorted_cong [of _ "timers k'" tms])
    show "tm_timeout_tick (timers k' y) = tm_timeout_tick (tms y)" for y by (simp add: k'_def)
  qed (use srt' f(9) in \<open>simp add: k'_def\<close>)
  moreover have "timer_key (timers k') (rt_tick k') ?x = unat tick"
    using key f(9) by (simp add: k'_def timer_key_def)
  ultimately show ?thesis
    using that [of k'] ex fr set' k f(17) by (auto simp: k'_def tms_def)
qed

subsection \<open>Checking the timers\<close>

lemma timer_expired_at_iff:
  assumes "timer_key (timers k) (rt_tick k) x < unat TICK_HALF"
  shows "timer_expired_at (rt_tick k) x k \<longleftrightarrow> timer_key (timers k) (rt_tick k) x = 0"
proof -
  define d where "d = tm_timeout_tick (timers k x) - rt_tick k"
  have neg: "rt_tick k - tm_timeout_tick (timers k x) = - d" by (simp add: d_def)
  have key: "timer_key (timers k) (rt_tick k) x = unat d" by (simp add: timer_key_def d_def)
  have d: "unat d < 0x7fffffff" using assms key by simp
  show ?thesis
  proof (cases "d = 0")
    case True
    then show ?thesis unfolding timer_expired_at_def neg key by simp
  next
    case False
    then have "0 < unat d" by (simp add: unat_gt_0)
    then have "unat (- d) = 2 ^ 32 - unat d" using unat_sub_if' [of 0 d] by simp
    then have "\<not> - d < 0x7fffffff" using d by (simp add: word_less_nat_alt)
    then show ?thesis using False unfolding timer_expired_at_def neg key
      by (simp add: unat_eq_0)
  qed
qed

text \<open>An expired thread timer wakes its thread with a timeout error.\<close>

lemma timer_fire_thread:
  assumes k: "kernel_ok k" "rt_current_thread k \<noteq> None" "timer_expired k = []"
    and l: "timer_list k = ThreadTimer t # ts"
  obtains k' where "timer_fire cb (ThreadTimer t) k = Some k'" "kernel_ok k'"
    "rt_current_thread k' \<noteq> None" "timer_expired k' = []" "timer_list k' = ts" "ipc_frame k k'"
    "thread_state k' t = RT_THREAD_READY \<or> thread_state k' t = RT_THREAD_RUNNING"
    "th_error (threads k' t) = - RT_ETIMEOUT"
    "\<forall>u. u \<noteq> t \<longrightarrow> stat_suspended (th_stat (threads k u)) \<longrightarrow> threads k' u = threads k u"
    "\<forall>x. tm_timeout_tick (timers k' x) = tm_timeout_tick (timers k x)"
    "\<forall>u. u \<noteq> t \<longrightarrow> th_error (threads k' u) = th_error (threads k u)
       \<and> (thread_state k u = RT_THREAD_READY \<or> thread_state k u = RT_THREAD_RUNNING \<longrightarrow>
          thread_state k' u = RT_THREAD_READY \<or> thread_state k' u = RT_THREAD_RUNNING)"
proof -
  let ?x = "ThreadTimer t"
  have st: "stat_suspended (th_stat (threads k t))" using k l by (simp add: timers_ok_def)
  have live: "live_state (th_stat (threads k t))" using st by (rule suspended_live)
  have tm: "thread_timer_ok t (timers k ?x)" using live_okD [OF _ live] k by blast
  have ts: "?x \<notin> set ts" "distinct ts" using k l by (auto simp: timers_ok_def)
  let ?tms = "(timers k)(?x := tm_flag_update (clear_flag RT_TIMER_FLAG_ACTIVATED) (timers k ?x))"
  define k1 where "k1 = (timer_remove ?x k)\<lparr>timers := ?tms, timer_expired := [?x]\<rparr>"
  have fr: "timer_frame k k1" by (simp add: timer_frame_def k1_def timer_remove_def)
  note f = timer_frame_sel [OF fr]
  have l1: "timer_list k1 = ts" using ts l by (simp add: k1_def)
  have live1: "live_ok k1 u" for u
    using k f(1) by (cases "u = t") (auto simp: timers_ok_def live_ok_def k1_def)
  have "timers_ok k1"
    using k live1 ts l f(1) unfolding timers_ok_def l1 by (auto simp: k1_def)
  then have ok1: "kernel_ok k1" using k f(17) by simp
  obtain k2 where k2: "thread_timeout t k1 = Some k2" "kernel_ok k2" "ipc_frame k1 k2"
    "thread_state k2 t = RT_THREAD_READY \<or> thread_state k2 t = RT_THREAD_RUNNING"
    "th_error (threads k2 t) = - RT_ETIMEOUT"
    "\<And>u. u \<noteq> t \<Longrightarrow> stat_suspended (th_stat (threads k1 u)) \<Longrightarrow> threads k2 u = threads k1 u"
    "timers k2 = timers k1" "timer_list k2 = timer_list k1" "timer_expired k2 = timer_expired k1"
    "rt_current_thread k2 \<noteq> None"
    "\<forall>u. u \<noteq> t \<longrightarrow> th_error (threads k2 u) = th_error (threads k1 u)
       \<and> (thread_state k1 u = RT_THREAD_READY \<or> thread_state k1 u = RT_THREAD_RUNNING \<longrightarrow>
          thread_state k2 u = RT_THREAD_READY \<or> thread_state k2 u = RT_THREAD_RUNNING)"
    by (rule thread_timeout_spec [OF ok1, of t]) (use st f l1 ts k in simp_all)
  define k3 where "k3 = timer_remove ?x k2"
  have l3: "timer_list k3 = ts" using k2(8) l1 ts by (simp add: k3_def)
  have t3: "timers_ok k3"
    by (rule timers_ok_cong [of k3 k2]) (use k2 l1 ts in \<open>simp_all add: k3_def\<close>)
  have np: "\<not> has_flag RT_TIMER_FLAG_PERIODIC (tm_flag (timers k ?x))"
    using tm by (simp add: thread_timer_ok_def)
  have dea: "(timer_deactivate_oneshot ?x (timer_remove ?x k))\<lparr>timer_expired := ?x #
      timer_expired (timer_deactivate_oneshot ?x (timer_remove ?x k))\<rparr> = k1"
    using np k(3) by (simp add: timer_deactivate_oneshot_def k1_def timer_remove_def)
  have "timer_fire cb ?x k = Some k3"
    unfolding timer_fire_def Let_def dea
    using k2(1,7,9) tm np
    by (simp add: call_timeout_def k1_def timer_restart_def k3_def thread_timer_ok_def)
  moreover have "ipc_frame k2 k3"
    by (rule timer_frame_ipc) (simp add: timer_frame_def k3_def timer_remove_def)
  then have "ipc_frame k k3" using timer_frame_ipc [OF fr] k2(3) ipc_frame_trans by blast
  moreover have "timer_expired k3 = []" using k2(9) by (simp add: k3_def k1_def)
  ultimately show ?thesis
    using that [of k3] k2 t3 l3 f(1) by (auto simp: k3_def k1_def)
qed

definition timer_due :: "kernel \<Rightarrow> tid \<Rightarrow> bool" where
  "timer_due k t \<longleftrightarrow> ThreadTimer t \<in> set (timer_list k)
     \<and> timer_key (timers k) (rt_tick k) (ThreadTimer t) = 0"

definition woken :: "kernel \<Rightarrow> tid \<Rightarrow> bool" where
  "woken k t \<longleftrightarrow> (thread_state k t = RT_THREAD_READY \<or> thread_state k t = RT_THREAD_RUNNING)
     \<and> th_error (threads k t) = - RT_ETIMEOUT"

lemma timer_check_loop_spec:
  assumes "kernel_ok k" "rt_current_thread k \<noteq> None" "timer_expired k = []"
    "timers_sorted (timers k) (rt_tick k) (timer_list k)"
    "\<forall>x \<in> set (timer_list k). \<exists>t. x = ThreadTimer t"
  shows "\<exists>k'. timer_check_loop cb (rt_tick k) k = Some k' \<and> kernel_ok k'
    \<and> rt_current_thread k' \<noteq> None \<and> timer_expired k' = [] \<and> ipc_frame k k'
    \<and> timer_list k' = filter (\<lambda>x. timer_key (timers k) (rt_tick k) x \<noteq> 0) (timer_list k)
    \<and> (\<forall>x. tm_timeout_tick (timers k' x) = tm_timeout_tick (timers k x))
    \<and> (\<forall>u. timer_due k u \<or> woken k u \<longrightarrow> woken k' u)
    \<and> (\<forall>u. stat_suspended (th_stat (threads k u)) \<longrightarrow> \<not> timer_due k u \<longrightarrow> threads k' u = threads k u)"
  using assms
proof (induction "timer_list k" arbitrary: k)
  case Nil
  then have "timer_check_loop cb (rt_tick k) k = Some k"
    by (subst timer_check_loop.simps) simp
  with Nil show ?case by (auto simp: timer_due_def)
next
  case (Cons x ts)
  note l = Cons.hyps(2) [symmetric]
  obtain t where x: "x = ThreadTimer t" using Cons.prems(5) l by auto
  have srt: "timers_sorted (timers k) (rt_tick k) (x # ts)" using Cons.prems(4) l by simp
  have half: "timer_key (timers k) (rt_tick k) x < unat TICK_HALF"
    using srt by (simp add: timers_sorted_def)
  note exp = timer_expired_at_iff [OF half]
  show ?case
  proof (cases "timer_key (timers k) (rt_tick k) x = 0")
    case False
    then have "timer_check_loop cb (rt_tick k) k = Some k"
      using exp l by (subst timer_check_loop.simps) simp
    moreover have nz: "timer_key (timers k) (rt_tick k) y \<noteq> 0" if "y \<in> set (timer_list k)" for y
      using srt False that l by (auto simp: timers_sorted_def)
    moreover have "filter (\<lambda>x. timer_key (timers k) (rt_tick k) x \<noteq> 0) (timer_list k) = timer_list k"
      using nz by (intro filter_True) blast
    moreover have "\<not> timer_due k u" for u using nz by (auto simp: timer_due_def)
    ultimately show ?thesis using Cons.prems by auto
  next
    case True
    obtain k1 where k1: "timer_fire cb (ThreadTimer t) k = Some k1" "kernel_ok k1"
      "rt_current_thread k1 \<noteq> None" "timer_expired k1 = []" "timer_list k1 = ts" "ipc_frame k k1"
      "thread_state k1 t = RT_THREAD_READY \<or> thread_state k1 t = RT_THREAD_RUNNING"
      "th_error (threads k1 t) = - RT_ETIMEOUT"
      "\<forall>u. u \<noteq> t \<longrightarrow> stat_suspended (th_stat (threads k u)) \<longrightarrow> threads k1 u = threads k u"
      "\<forall>x. tm_timeout_tick (timers k1 x) = tm_timeout_tick (timers k x)"
      "\<forall>u. u \<noteq> t \<longrightarrow> th_error (threads k1 u) = th_error (threads k u)
       \<and> (thread_state k u = RT_THREAD_READY \<or> thread_state k u = RT_THREAD_RUNNING \<longrightarrow>
          thread_state k1 u = RT_THREAD_READY \<or> thread_state k1 u = RT_THREAD_RUNNING)"
      by (rule timer_fire_thread [OF Cons.prems(1-3), of t ts cb]) (use l x in auto)
    have tick: "rt_tick k1 = rt_tick k" using ipc_frame_sel(4) [OF k1(6)] .
    have key: "timer_key (timers k1) (rt_tick k1) y = timer_key (timers k) (rt_tick k) y" for y
      using k1(10) tick by (simp add: timer_key_def)
    have "timers_sorted (timers k) (rt_tick k) ts"
      using srt by (simp add: timers_sorted_def)
    then have srt1: "timers_sorted (timers k1) (rt_tick k1) (timer_list k1)"
      using k1(5) timers_sorted_cong [of ts "timers k1" "timers k"] k1(10) tick by simp
    have tt: "\<forall>x \<in> set (timer_list k1). \<exists>t. x = ThreadTimer t" using Cons.prems(5) l k1(5) by auto
    obtain k2 where k2: "timer_check_loop cb (rt_tick k1) k1 = Some k2" "kernel_ok k2"
      "rt_current_thread k2 \<noteq> None" "timer_expired k2 = []" "ipc_frame k1 k2"
      "timer_list k2 = filter (\<lambda>x. timer_key (timers k1) (rt_tick k1) x \<noteq> 0) (timer_list k1)"
      "\<forall>x. tm_timeout_tick (timers k2 x) = tm_timeout_tick (timers k1 x)"
      "\<forall>u. timer_due k1 u \<or> woken k1 u \<longrightarrow> woken k2 u"
      "\<forall>u. stat_suspended (th_stat (threads k1 u)) \<longrightarrow> \<not> timer_due k1 u \<longrightarrow> threads k2 u = threads k1 u"
      using Cons.hyps(1) [OF k1(5) [symmetric] k1(2-4) srt1 tt] by blast
    have run: "timer_check_loop cb (rt_tick k) k = Some k2"
      using exp True l x k1(1) k2(1) by (subst timer_check_loop.simps) simp
    have due: "timer_due k u \<longleftrightarrow> u = t \<or> timer_due k1 u" for u
      using True x l k1(5) key by (auto simp: timer_due_def)
    have wk: "woken k1 t" using k1(7,8) by (simp add: woken_def)
    have "timer_due k u \<or> woken k u \<longrightarrow> woken k2 u" for u
      using due k2(8) wk k1(11) by (cases "u = t") (auto simp: woken_def)
    moreover have "threads k2 u = threads k u"
      if "stat_suspended (th_stat (threads k u))" "\<not> timer_due k u" for u
      using that due k1(9) k2(9) by metis
    moreover have "timer_list k2 = filter (\<lambda>x. timer_key (timers k) (rt_tick k) x \<noteq> 0) (timer_list k)"
      using k2(6) k1(5) l True key by simp
    ultimately show ?thesis
      using run k2(2-4,7) k1(10) ipc_frame_trans [OF k1(6) k2(5)] by auto
  qed
qed

subsection \<open>Ticks\<close>

lemma kernel_ok_upd_thread:
  assumes "kernel_ok k" "stat_base (th_stat (f (threads k t))) = stat_base (th_stat (threads k t))"
    "th_current_priority (f (threads k t)) = th_current_priority (threads k t)"
    "th_number_mask (f (threads k t)) = th_number_mask (threads k t)"
    "th_type (f (threads k t)) = th_type (threads k t)"
  shows "kernel_ok (upd_thread t f k)"
proof
  show "sched_ok (upd_thread t f k)"
    using assms sched_okx_upd_other_field [of f k t] by simp
  have base: "stat_base (th_stat (threads (upd_thread t f k) u)) = stat_base (th_stat (threads k u))"
    for u using assms(2) by (cases "u = t") auto
  have "live_state (th_stat (threads (upd_thread t f k) u)) = live_state (th_stat (threads k u))" for u
    by (rule live_state_cong [OF base])
  moreover have "stat_suspended (th_stat (threads (upd_thread t f k) u))
      = stat_suspended (th_stat (threads k u))" for u
    by (rule stat_suspended_cong [OF base])
  ultimately show "timers_ok (upd_thread t f k)"
    by (intro timers_ok_cong [OF _ _ _ _ _ conjunct2 [OF assms(1)]]) (use assms(5) in auto)
qed

lemma tick_account_spec:
  assumes k: "kernel_ok k" and c: "rt_current_thread k \<noteq> None"
  obtains k' where "tick_account k = Some k'" "kernel_ok k'" "rt_current_thread k' \<noteq> None"
    "rt_tick k' = rt_tick k + 1" "timers k' = timers k" "timer_list k' = timer_list k"
    "timer_expired k' = timer_expired k"
    "\<forall>u. stat_suspended (th_stat (threads k u)) \<longrightarrow> stat_suspended (th_stat (threads k' u))"
    "\<forall>u. th_error (threads k' u) = th_error (threads k u)
       \<and> (thread_state k u = RT_THREAD_READY \<or> thread_state k u = RT_THREAD_RUNNING \<longrightarrow>
          thread_state k' u = RT_THREAD_READY \<or> thread_state k' u = RT_THREAD_RUNNING)"
proof -
  obtain t where t: "rt_current_thread k = Some t" using c by blast
  let ?k1 = "k\<lparr>rt_tick := rt_tick k + 1\<rparr>"
  let ?k2 = "upd_thread t (th_remaining_tick_update (\<lambda>r. r - 1)) ?k1"
  have k1: "kernel_ok ?k1"
    using k by (simp add: timers_ok_def live_ok_def)
  have k2: "kernel_ok ?k2" by (rule kernel_ok_upd_thread [OF k1]) simp_all
  show ?thesis
  proof (cases "th_remaining_tick (threads ?k2 t) = 0")
    case False
    show ?thesis
      by (rule that [of ?k2])
        (use False t k2 in \<open>auto simp: tick_account_def rt_thread_self_def\<close>)
  next
    case True
    let ?f = "\<lambda>th. th\<lparr>th_remaining_tick := th_init_tick th,
       th_stat := th_stat th OR RT_THREAD_STAT_YIELD_MASK\<rparr>"
    let ?k3 = "upd_thread t ?f ?k2"
    have k3: "kernel_ok ?k3" by (rule kernel_ok_upd_thread [OF k2]) simp_all
    have c3: "rt_current_thread ?k3 \<noteq> None" using c by simp
    obtain k4 where k4: "rt_schedule ?k3 = Some k4" "sched_ok k4" "sched_frame ?k3 k4"
      "rt_current_thread k4 \<noteq> None"
      by (rule rt_schedule_returns [OF conjunct1 [OF k3] c3])
    have base: "stat_base (th_stat (threads ?k3 u)) = stat_base (th_stat (threads k u))" for u
      by (cases "u = t") simp_all
    have err: "th_error (threads ?k3 u) = th_error (threads k u)" for u
      by (cases "u = t") simp_all
    note f4 = sched_frame_sel [OF k4(3)]
    have sus: "stat_suspended (th_stat (threads k4 u))"
      if "stat_suspended (th_stat (threads k u))" for u
    proof -
      have "stat_suspended (th_stat (threads ?k3 u))" using that base stat_suspended_cong by metis
      then show ?thesis using sched_frame_suspended [OF k4(3)] by metis
    qed
    show ?thesis
    proof (rule that [of k4])
      show "tick_account k = Some k4"
        using True t k4(1) by (simp add: tick_account_def rt_thread_self_def)
      show "kernel_ok k4" using rt_schedule_kernel_ok [OF k3 k4(1)] .
      show "\<forall>u. th_error (threads k4 u) = th_error (threads k u)
       \<and> (thread_state k u = RT_THREAD_READY \<or> thread_state k u = RT_THREAD_RUNNING \<longrightarrow>
          thread_state k4 u = RT_THREAD_READY \<or> thread_state k4 u = RT_THREAD_RUNNING)"
        using k4(3) base err sched_frame_thread(3) [OF k4(3)] unfolding sched_frame_def by metis
    qed (use k4 f4 sus in auto)
  qed
qed

fun ticks :: "callbacks \<Rightarrow> nat \<Rightarrow> kernel \<Rightarrow> kernel option" where
  "ticks cb 0 k = Some k"
| "ticks cb (Suc n) k = do { k1 \<leftarrow> rt_tick_increase cb k; ticks cb n k1 }"

lemma timer_key_tick:
  assumes "0 < timer_key tms b x"
  shows "timer_key tms (b + 1) x = timer_key tms b x - 1"
proof -
  define d where "d = tm_timeout_tick (tms x) - b"
  have "d \<noteq> 0" using assms by (auto simp: timer_key_def d_def)
  then have "unat (d - 1) = unat d - 1" by (rule unat_minus_one)
  moreover have "tm_timeout_tick (tms x) - (b + 1) = d - 1" by (simp add: d_def)
  ultimately show ?thesis by (simp only: timer_key_def d_def [symmetric])
qed

lemma timers_sorted_tick:
  assumes "timers_sorted tms b ts" "\<forall>x \<in> set ts. 0 < timer_key tms b x"
  shows "timers_sorted tms (b + 1) ts"
proof -
  have key: "timer_key tms (b + 1) x = timer_key tms b x - 1" if "x \<in> set ts" for x
    using timer_key_tick assms(2) that by blast
  have "map (timer_key tms (b + 1)) ts = map (\<lambda>n. n - 1) (map (timer_key tms b) ts)"
    using key by simp
  moreover have "sorted (map (\<lambda>n. n - 1) ns)" if "sorted ns" for ns :: "nat list"
    using that by (induction ns) (auto intro: diff_le_mono)
  ultimately have "sorted (map (timer_key tms (b + 1)) ts)"
    using assms(1) unfolding timers_sorted_def by metis
  then show ?thesis
    using assms(1) key by (auto simp: timers_sorted_def less_imp_diff_less)
qed

lemma rt_tick_increase_spec:
  assumes k: "clock_ok k"
  obtains k' where "rt_tick_increase cb k = Some k'" "clock_ok k'" "rt_tick k' = rt_tick k + 1"
    "\<forall>x. tm_timeout_tick (timers k' x) = tm_timeout_tick (timers k x)"
    "\<forall>x \<in> set (timer_list k). timer_key (timers k) (rt_tick k) x \<noteq> 1 \<longrightarrow> x \<in> set (timer_list k')"
    "\<forall>t. woken k t \<or> (ThreadTimer t \<in> set (timer_list k)
        \<and> timer_key (timers k) (rt_tick k) (ThreadTimer t) = 1) \<longrightarrow> woken k' t"
proof -
  have ok: "kernel_ok k" "rt_current_thread k \<noteq> None" "timer_expired k = []"
    "timers_sorted (timers k) (rt_tick k) (timer_list k)"
    "\<forall>x \<in> set (timer_list k). 0 < timer_key (timers k) (rt_tick k) x"
    "\<forall>x \<in> set (timer_list k). \<exists>t. x = ThreadTimer t"
    using k by (auto simp: clock_ok_def)
  obtain k1 where k1: "tick_account k = Some k1" "kernel_ok k1" "rt_current_thread k1 \<noteq> None"
    "rt_tick k1 = rt_tick k + 1" "timers k1 = timers k" "timer_list k1 = timer_list k"
    "timer_expired k1 = timer_expired k"
    "\<forall>u. stat_suspended (th_stat (threads k u)) \<longrightarrow> stat_suspended (th_stat (threads k1 u))"
    "\<forall>u. th_error (threads k1 u) = th_error (threads k u)
       \<and> (thread_state k u = RT_THREAD_READY \<or> thread_state k u = RT_THREAD_RUNNING \<longrightarrow>
          thread_state k1 u = RT_THREAD_READY \<or> thread_state k1 u = RT_THREAD_RUNNING)"
    by (rule tick_account_spec [OF ok(1,2)])
  have key: "timer_key (timers k1) (rt_tick k1) x = timer_key (timers k) (rt_tick k) x - 1"
    if "x \<in> set (timer_list k)" for x
    using timer_key_tick ok(5) that k1(4,5) by simp
  have srt: "timers_sorted (timers k1) (rt_tick k1) (timer_list k1)"
    using timers_sorted_tick [OF ok(4,5)] k1(4-6) by simp
  have e1: "timer_expired k1 = []" using ok(3) k1(7) by simp
  have t1: "\<forall>x \<in> set (timer_list k1). \<exists>t. x = ThreadTimer t" using ok(6) k1(6) by simp
  obtain k2 where k2: "timer_check_loop cb (rt_tick k1) k1 = Some k2" "kernel_ok k2"
      "rt_current_thread k2 \<noteq> None" "timer_expired k2 = []" "ipc_frame k1 k2"
      "timer_list k2 = filter (\<lambda>x. timer_key (timers k1) (rt_tick k1) x \<noteq> 0) (timer_list k1)"
      "\<forall>x. tm_timeout_tick (timers k2 x) = tm_timeout_tick (timers k1 x)"
      "\<forall>u. timer_due k1 u \<or> woken k1 u \<longrightarrow> woken k2 u"
      "\<forall>u. stat_suspended (th_stat (threads k1 u)) \<longrightarrow> \<not> timer_due k1 u \<longrightarrow> threads k2 u = threads k1 u"
    using timer_check_loop_spec [OF k1(2,3) e1 srt t1] by blast
  have tick2: "rt_tick k2 = rt_tick k1" using ipc_frame_sel(4) [OF k2(5)] .
  have key2: "timer_key (timers k2) (rt_tick k2) x = timer_key (timers k1) (rt_tick k1) x" for x
    using k2(7) tick2 by (simp add: timer_key_def)
  have srt2: "timers_sorted (timers k2) (rt_tick k2) (timer_list k2)"
    using srt key2 unfolding timers_sorted_def k2(6)
    by (simp add: key2 sorted_wrt_filter sorted_map)
  show ?thesis
  proof (rule that [of k2])
    show "rt_tick_increase cb k = Some k2"
      using k1(1) k2(1) by (simp add: rt_tick_increase_def rt_timer_check_def)
    show "clock_ok k2"
      unfolding clock_ok_def using k2(2-4) srt2 key2 ok(6) k1(6) by (auto simp: k2(6))
    show "rt_tick k2 = rt_tick k + 1" using tick2 k1(4) by simp
    show "\<forall>x. tm_timeout_tick (timers k2 x) = tm_timeout_tick (timers k x)" using k2(7) k1(5) by simp
    show "\<forall>x \<in> set (timer_list k). timer_key (timers k) (rt_tick k) x \<noteq> 1 \<longrightarrow> x \<in> set (timer_list k2)"
    proof (intro ballI impI)
      fix x assume "x \<in> set (timer_list k)" "timer_key (timers k) (rt_tick k) x \<noteq> 1"
      then have "timer_key (timers k1) (rt_tick k1) x \<noteq> 0" using key ok(5) by fastforce
      then show "x \<in> set (timer_list k2)" using \<open>x \<in> set (timer_list k)\<close> k1(6) by (simp add: k2(6))
    qed
    show "\<forall>t. woken k t \<or> (ThreadTimer t \<in> set (timer_list k)
        \<and> timer_key (timers k) (rt_tick k) (ThreadTimer t) = 1) \<longrightarrow> woken k2 t"
      using k2(8) key k1(6,9) by (auto simp: woken_def timer_due_def)
  qed
qed

lemma clock_suspended:
  "clock_ok k \<Longrightarrow> ThreadTimer t \<in> set (timer_list k) \<Longrightarrow> stat_suspended (th_stat (threads k t))"
  by (simp add: clock_ok_def timers_ok_def)

lemma ticks_woken:
  "clock_ok k \<Longrightarrow> woken k t \<Longrightarrow> \<exists>k'. ticks cb m k = Some k' \<and> clock_ok k'
     \<and> rt_tick k' = rt_tick k + word_of_nat m \<and> woken k' t"
proof (induction m arbitrary: k)
  case 0
  then show ?case by simp
next
  case (Suc m)
  obtain k' where k': "rt_tick_increase cb k = Some k'" "clock_ok k'" "rt_tick k' = rt_tick k + 1"
    "woken k' t"
    by (rule rt_tick_increase_spec [OF Suc.prems(1), of cb]) (use Suc.prems(2) in blast)
  from Suc.IH [OF this(2,4)] this show ?case by (auto simp: algebra_simps)
qed

lemma ticks_spec:
  assumes "clock_ok k" "ThreadTimer t \<in> set (timer_list k)"
    "timer_key (timers k) (rt_tick k) (ThreadTimer t) = n"
  shows "\<exists>k'. ticks cb m k = Some k' \<and> clock_ok k' \<and> rt_tick k' = rt_tick k + word_of_nat m
    \<and> (m < n \<longrightarrow> stat_suspended (th_stat (threads k' t)) \<and> ThreadTimer t \<in> set (timer_list k')
         \<and> timer_key (timers k') (rt_tick k') (ThreadTimer t) = n - m)
    \<and> (n \<le> m \<longrightarrow> woken k' t)"
  using assms
proof (induction m arbitrary: k n)
  case 0
  then have "0 < n" by (auto simp: clock_ok_def)
  with 0 clock_suspended [OF 0(1,2)] show ?case by simp
next
  case (Suc m)
  have n: "0 < n" using Suc.prems by (auto simp: clock_ok_def)
  obtain k' where k': "rt_tick_increase cb k = Some k'" "clock_ok k'" "rt_tick k' = rt_tick k + 1"
    "\<forall>x. tm_timeout_tick (timers k' x) = tm_timeout_tick (timers k x)"
    "\<forall>x \<in> set (timer_list k). timer_key (timers k) (rt_tick k) x \<noteq> 1 \<longrightarrow> x \<in> set (timer_list k')"
    "\<forall>t. woken k t \<or> (ThreadTimer t \<in> set (timer_list k)
        \<and> timer_key (timers k) (rt_tick k) (ThreadTimer t) = 1) \<longrightarrow> woken k' t"
    by (rule rt_tick_increase_spec [OF Suc.prems(1), of cb])
  show ?case
  proof (cases "n = 1")
    case True
    then have "woken k' t" using k'(6) Suc.prems(2,3) by blast
    from ticks_woken [OF k'(2) this, of cb m] k'(1,3) True show ?thesis
      by (auto simp: algebra_simps)
  next
    case False
    then have "ThreadTimer t \<in> set (timer_list k')" using k'(5) Suc.prems(2,3) by blast
    moreover have "timer_key (timers k') (rt_tick k') (ThreadTimer t) = n - 1"
      using timer_key_tick [of "timers k" "rt_tick k" "ThreadTimer t"] n Suc.prems(3) k'(3,4)
      by (simp add: timer_key_def)
    ultimately obtain k2 where k2: "ticks cb m k' = Some k2" "clock_ok k2"
      "rt_tick k2 = rt_tick k' + word_of_nat m"
      "m < n - 1 \<longrightarrow> stat_suspended (th_stat (threads k2 t)) \<and> ThreadTimer t \<in> set (timer_list k2)
         \<and> timer_key (timers k2) (rt_tick k2) (ThreadTimer t) = n - 1 - m"
      "n - 1 \<le> m \<longrightarrow> woken k2 t"
      using Suc.IH [OF k'(2)] by blast
    have "ticks cb (Suc m) k = Some k2" using k'(1) k2(1) by simp
    moreover have "rt_tick k2 = rt_tick k + word_of_nat (Suc m)"
      using k2(3) k'(3) by (simp add: algebra_simps)
    moreover have "Suc m < n \<longleftrightarrow> m < n - 1" "n \<le> Suc m \<longleftrightarrow> n - 1 \<le> m" "n - Suc m = n - 1 - m"
      using n by auto
    ultimately show ?thesis using k2 by metis
  qed
qed

subsection \<open>Sleeping\<close>

text \<open>
  What \<open>rt_thread_sleep\<close> does for a running thread in thread context: the thread is suspended
  with its timer set to the given number of ticks.
\<close>

text \<open>Stopping a timer and removing it from the list keeps the rest of the list sorted.\<close>

lemma timers_sorted_remove:
  assumes "timers_sorted tms b ts"
    "\<And>y. y \<noteq> x \<Longrightarrow> tm_timeout_tick (tms' y) = tm_timeout_tick (tms y)"
  shows "timers_sorted tms' b (removeAll x ts)"
proof -
  have "timers_sorted tms b (removeAll x ts)"
    using assms(1) unfolding timers_sorted_def removeAll_filter_not_eq
    by (simp add: sorted_wrt_filter sorted_map)
  then show ?thesis using assms(2) by (subst timers_sorted_cong) auto
qed

lemma rt_thread_sleep_spec:
  assumes k: "clock_ok k" and c: "rt_current_thread k = Some c"
    and run: "thread_state k c = RT_THREAD_RUNNING" and n: "tick \<noteq> 0" "tick < TICK_HALF"
    and ctx: "rt_scheduler_lock_nest k = 0" "rt_interrupt_nest k = 0"
  obtains k' where "rt_thread_sleep tick k = Some (Blocked, k')" "clock_ok k'"
    "ThreadTimer c \<in> set (timer_list k')" "rt_tick k' = rt_tick k"
    "timer_key (timers k') (rt_tick k') (ThreadTimer c) = unat tick"
    "th_error (threads k' c) = - RT_EINTR"
proof -
  let ?x = "ThreadTimer c"
  have ok: "kernel_ok k" "timer_expired k = []"
    "timers_sorted (timers k) (rt_tick k) (timer_list k)"
    "\<forall>x \<in> set (timer_list k). 0 < timer_key (timers k) (rt_tick k) x"
    "\<forall>x \<in> set (timer_list k). \<exists>t. x = ThreadTimer t"
    using k by (auto simp: clock_ok_def)
  have live: "live_state (th_stat (threads k c))" using run by (simp add: live_state_def)
  note ty = live_okD [OF _ live]
  let ?k1 = "upd_thread c (th_error_update (\<lambda>_. RT_EOK)) k"
  have k1: "kernel_ok ?k1" by (rule kernel_ok_upd_thread [OF ok(1)]) simp_all
  obtain k2 s where k2: "rt_thread_suspend_with_flag c RT_INTERRUPTIBLE ?k1 = Some (RT_EOK, k2)"
    "sched_okx {c} k2" "prio_ok (threads k2 c)" "timers_ok k2"
    "stat_suspended (set_stat s (th_stat (threads ?k1 c)))"
    "threads k2 = (threads ?k1)(c := th_stat_update (set_stat s) (threads ?k1 c))"
    "tq k2 = (\<lambda>q. removeAll c (tq ?k1 q))" "rt_current_thread k2 = Some c" "ipc_frame ?k1 k2"
    "?x \<notin> set (timer_list k2)" "timer_list k2 = removeAll ?x (timer_list ?k1)"
    "timers k2 = (timers ?k1)(?x := tm_flag_update (clear_flag RT_TIMER_FLAG_ACTIVATED)
       (timers ?k1 ?x))"
    "set (timer_expired k2) \<subseteq> set (timer_expired ?k1)"
    by (rule suspend_spec [OF k1, of c RT_INTERRUPTIBLE]) (use c run in simp_all)
  have sus2: "stat_suspended (th_stat (threads k2 c))" using k2(5,6) by simp
  then have "thread_state k2 c \<noteq> RT_THREAD_READY" "thread_state k2 c \<noteq> RT_THREAD_RUNNING"
    by (auto simp: stat_suspended_iff_base)
  then have ok2: "kernel_ok k2" using sched_okx_leave [of c "{}" k2] k2(2-4) by simp
  have tick2: "rt_tick k2 = rt_tick k" using ipc_frame_sel(4) [OF k2(9)] by simp
  have srt2: "timers_sorted (timers k2) (rt_tick k2) (timer_list k2)"
    unfolding tick2 k2(11) using ok(3) k2(12) by (intro timers_sorted_remove) auto
  obtain k3 where k3: "start_thread_timer c tick k2 = Some k3" "kernel_ok k3" "timer_frame k2 k3"
    "timers_sorted (timers k3) (rt_tick k3) (timer_list k3)"
    "set (timer_list k3) = insert ?x (set (timer_list k2))"
    "timer_key (timers k3) (rt_tick k3) ?x = unat tick"
    "\<forall>x. x \<noteq> ?x \<longrightarrow> timers k3 x = timers k2 x"
    "timer_expired k3 = removeAll ?x (timer_expired k2)"
    by (rule start_thread_timer_spec [OF ok2 sus2 n(2) srt2 k2(10)])
  note f3 = timer_frame_sel [OF k3(3)]
  let ?k4 = "upd_thread c (th_error_update (\<lambda>_. - RT_EINTR)) k3"
  have k4: "kernel_ok ?k4" by (rule kernel_ok_upd_thread [OF k3(2)]) simp_all
  have c4: "rt_current_thread ?k4 \<noteq> None" using f3(5) k2(8) by simp
  obtain k5 where k5: "rt_schedule ?k4 = Some k5" "sched_ok k5" "sched_frame ?k4 k5"
    "rt_current_thread k5 \<noteq> None"
    by (rule rt_schedule_returns [OF conjunct1 [OF k4] c4])
  note f5 = sched_frame_sel [OF k5(3)]
  have tick3: "rt_tick k3 = rt_tick k" using f3(9) tick2 by simp
  have key: "timer_key (timers k3) (rt_tick k3) x = timer_key (timers k) (rt_tick k) x"
    if "x \<noteq> ?x" for x
    using that k3(7) k2(12) tick3 by (simp add: timer_key_def)
  have pos: "0 < timer_key (timers k3) (rt_tick k3) x" if "x \<in> set (timer_list k3)" for x
  proof (cases "x = ?x")
    case True
    then show ?thesis using k3(6) n(1) by (simp add: unat_gt_0)
  next
    case False
    then show ?thesis using key [OF False] that k3(5) k2(11) ok(4) by simp
  qed
  have "\<exists>t. x = ThreadTimer t" if "x \<in> set (timer_list k3)" for x
    using that k3(5) k2(11) ok(5) by auto
  moreover have "timer_expired k3 = []" using k3(8) k2(13) ok(2) by simp
  ultimately have clk: "clock_ok k5"
    using f5 k5(2,4) timers_ok_frame [OF k5(3)] k4 k3(4) pos by (simp add: clock_ok_def)
  show ?thesis
  proof (rule that [of k5])
    show "rt_thread_sleep tick k = Some (Blocked, k5)"
      using c n(1) ty ok(1) ctx k2(1) k3(1) k5(1)
      by (simp add: rt_thread_sleep_def rt_thread_self_def rt_debug_scheduler_available_eq)
    show "th_error (threads k5 c) = - RT_EINTR" using sched_frame_thread(3) [OF k5(3)] by simp
  qed (use clk f5 tick3 k3(5,6) in auto)
qed

text \<open>
  C6 (sleep). A running thread that calls \<open>rt_thread_sleep\<close> in thread context with
  \<open>0 < tick < RT_TICK_MAX / 2\<close> ticks gives up the processor; during the next \<open>tick - 1\<close> tick
  interrupts it stays suspended; after \<open>tick\<close> or more interrupts (and nothing else) it is ready
  or running, and when it runs again the call returns \<open>RT_EOK\<close> with the thread's error code
  reset. The tick counter may wrap around meanwhile.
\<close>

theorem rt_thread_sleep_wakes:
  assumes "clock_ok k" and "rt_current_thread k = Some c"
    and "thread_state k c = RT_THREAD_RUNNING" and "tick \<noteq> 0" "tick < TICK_HALF"
    and "rt_scheduler_lock_nest k = 0" "rt_interrupt_nest k = 0"
  shows "\<exists>k1 k2. rt_thread_sleep tick k = Some (Blocked, k1) \<and> ticks cb m k1 = Some k2
    \<and> (m < unat tick \<longrightarrow> stat_suspended (th_stat (threads k2 c)))
    \<and> (unat tick \<le> m \<longrightarrow>
         (thread_state k2 c = RT_THREAD_READY \<or> thread_state k2 c = RT_THREAD_RUNNING)
         \<and> fst (rt_thread_sleep_resume c k2) = RT_EOK
         \<and> th_error (threads (snd (rt_thread_sleep_resume c k2)) c) = RT_EOK)"
proof -
  obtain k1 where k1: "rt_thread_sleep tick k = Some (Blocked, k1)" "clock_ok k1"
    "ThreadTimer c \<in> set (timer_list k1)" "rt_tick k1 = rt_tick k"
    "timer_key (timers k1) (rt_tick k1) (ThreadTimer c) = unat tick"
    by (rule rt_thread_sleep_spec [OF assms])
  from ticks_spec [OF k1(2,3,5), of cb m] k1(1) show ?thesis
    by (auto simp: woken_def rt_thread_sleep_resume_def)
qed

lemma demo_clock_ok: "clock_ok demo_kernel"
proof -
  have "timers_ok demo_kernel"
    by (simp add: timers_ok_def live_ok_def thread_timer_ok_def live_state_def demo_thread_def
        thread_bss_def stat_base_def has_flag_def)
  then show ?thesis using demo_kernel_ok by (simp add: clock_ok_def timers_sorted_def)
qed

theorem rt_thread_sleep_wakes_witness:
  "\<exists>k1 k2. rt_thread_sleep 5 demo_kernel = Some (Blocked, k1)
     \<and> ticks (\<lambda>_ _. Some) 5 k1 = Some k2
     \<and> (thread_state k2 1 = RT_THREAD_READY \<or> thread_state k2 1 = RT_THREAD_RUNNING)"
  using rt_thread_sleep_wakes [OF demo_clock_ok, of 1 5 "\<lambda>_ _. Some" 5]
  by (auto simp: demo_thread_def thread_bss_def stat_base_def)

subsection \<open>Two limits\<close>

lemma sleep_too_long:
  assumes k: "clock_ok k" and c: "rt_current_thread k = Some c"
    and run: "thread_state k c = RT_THREAD_RUNNING" and n: "TICK_HALF \<le> tick"
    and ctx: "rt_scheduler_lock_nest k = 0" "rt_interrupt_nest k = 0"
  shows "rt_thread_sleep tick k = None"
proof -
  have live: "live_state (th_stat (threads k c))" using run by (simp add: live_state_def)
  have ok: "kernel_ok k" using k by (simp add: clock_ok_def)
  note ty = live_okD [OF conjunct2 [OF ok] live]
  let ?k1 = "upd_thread c (th_error_update (\<lambda>_. RT_EOK)) k"
  have k1: "kernel_ok ?k1" by (rule kernel_ok_upd_thread [OF ok]) simp_all
  have sus: "\<exists>k2. rt_thread_suspend_with_flag c RT_INTERRUPTIBLE ?k1 = Some (RT_EOK, k2)"
    by (rule suspend_spec [OF k1, of c RT_INTERRUPTIBLE]) (use c run in auto)
  then obtain k2 where k2: "rt_thread_suspend_with_flag c RT_INTERRUPTIBLE ?k1 = Some (RT_EOK, k2)"
    by blast
  have "start_thread_timer c tick k2 = None"
    using n by (simp add: start_thread_timer_def rt_timer_control_def rt_assert_def
        linorder_not_less [symmetric])
  moreover have "tick \<noteq> 0" using n by auto
  ultimately show ?thesis
    using c ty ctx k2
    by (simp add: rt_thread_sleep_def rt_thread_self_def rt_debug_scheduler_available_eq)
qed

text \<open>
  \<open>rt_tick_from_millisecond\<close> maps a negative number of milliseconds to
  the tick value of waiting for ever, but \<open>rt_thread_mdelay\<close> passes it on to the thread timer,
  whose range check rejects it: for a running thread in thread context a negative delay does
  not wait for ever, it fails an assertion. So does a sleep of half the counter's range or more.
\<close>

theorem mdelay_negative_asserts:
  assumes "clock_ok k" and "rt_current_thread k = Some c"
    and "thread_state k c = RT_THREAD_RUNNING" and "ms < 0"
    and "rt_scheduler_lock_nest k = 0" "rt_interrupt_nest k = 0"
  shows "rt_thread_mdelay ms k = None"
  unfolding rt_thread_mdelay_def using assms
  by (intro sleep_too_long [of k c]) (simp_all add: rt_tick_from_millisecond_def)

theorem mdelay_negative_asserts_witness: "rt_thread_mdelay (- 1) demo_kernel = None"
  using mdelay_negative_asserts [OF demo_clock_ok, of 1 "- 1"]
  by (simp add: demo_thread_def thread_bss_def stat_base_def)

definition zero_periodic :: "kernel \<Rightarrow> timer_id \<Rightarrow> bool" where
  "zero_periodic k x \<longleftrightarrow> timer_list k = [x] \<and> timer_expired k = []
     \<and> tm_type (timers k x) = Class_Timer \<and> (\<exists>f. tm_timeout_func (timers k x) = UserTimeout f)
     \<and> has_flag RT_TIMER_FLAG_PERIODIC (tm_flag (timers k x))
     \<and> has_flag RT_TIMER_FLAG_ACTIVATED (tm_flag (timers k x))
     \<and> \<not> has_flag RT_TIMER_FLAG_SOFT_TIMER (tm_flag (timers k x))
     \<and> tm_init_tick (timers k x) = 0 \<and> rt_tick k - tm_timeout_tick (timers k x) < TICK_HALF"

lemma zero_periodic_fire:
  assumes "zero_periodic k x"
  obtains k1 where "timer_fire (\<lambda>_ _. Some) x k = Some k1" "zero_periodic k1 x"
proof -
  obtain f where f: "tm_timeout_func (timers k x) = UserTimeout f"
    using assms by (auto simp: zero_periodic_def)
  define k1 where "k1 = (timer_remove x k)\<lparr>timer_list := [x], timer_expired := [],
    timers := (timers k)(x := tm_flag_update (set_flag 1 \<circ> (clear_flag 1 \<circ> clear_flag 1))
       ((timers k x)\<lparr>tm_timeout_tick := rt_tick k\<rparr>))\<rparr>"
  have "\<exists>k1. timer_fire (\<lambda>_ _. Some) x k = Some k1 \<and> zero_periodic k1 x"
    using assms f
    by (auto simp: zero_periodic_def timer_fire_def timer_deactivate_oneshot_def call_timeout_def
        timer_remove_def timer_restart_def rt_timer_start_def timer_enqueue_def Let_def)
  then show ?thesis using that by blast
qed

lemma zero_periodic_loops:
  assumes "timer_check_loop cb t k = Some r"
  shows "\<not> (cb = (\<lambda>_ _. Some) \<and> t = rt_tick k \<and> zero_periodic k x)"
proof (rule timer_check_loop.raw_induct [OF _ assms,
      where P = "\<lambda>cb t k r. \<not> (cb = (\<lambda>_ _. Some) \<and> t = rt_tick k \<and> zero_periodic k x)"])
  fix loop :: "callbacks \<Rightarrow> rt_tick_t \<Rightarrow> kernel \<Rightarrow> kernel option" and cb t k r
  assume IH: "\<And>cb t k r. loop cb t k = Some r \<Longrightarrow>
      \<not> (cb = (\<lambda>_ _. Some) \<and> t = rt_tick k \<and> zero_periodic k x)"
    and body: "(case timer_list k of [] \<Rightarrow> Some k | y # _ \<Rightarrow>
        (if timer_expired_at t y k
         then do { k1 \<leftarrow> timer_fire cb y k; loop cb (rt_tick k1) k1 } else Some k)) = Some r"
  show "\<not> (cb = (\<lambda>_ _. Some) \<and> t = rt_tick k \<and> zero_periodic k x)"
  proof
    assume z: "cb = (\<lambda>_ _. Some) \<and> t = rt_tick k \<and> zero_periodic k x"
    then obtain k1 where k1: "timer_fire cb x k = Some k1" "zero_periodic k1 x"
      using zero_periodic_fire by metis
    have "timer_list k = [x]" "timer_expired_at t x k"
      using z by (simp_all add: zero_periodic_def timer_expired_at_def)
    then have "loop cb (rt_tick k1) k1 = Some r" using body k1(1) by simp
    then show False using IH z k1(2) by blast
  qed
qed

text \<open>
  \<open>rt_timer_init\<close> accepts a periodic timer with the period 0. If such a hard
  timer is the one that expires and its function does nothing, \<open>rt_timer_check\<close> restarts it as
  already expired and never leaves its loop (in the tick interrupt, with interrupts off).
\<close>

theorem zero_period_timer_hangs:
  assumes "zero_periodic k x"
  shows "rt_timer_check (\<lambda>_ _. Some) k = None"
  using zero_periodic_loops [of "\<lambda>_ _. Some" "rt_tick k" k _ x] assms unfolding rt_timer_check_def
  by (cases "timer_check_loop (\<lambda>_ _. Some) (rt_tick k) k") auto

theorem zero_period_timer_hangs_witness:
  "rt_timer_check (\<lambda>_ _. Some) (demo_kernel\<lparr>timer_list := [ObjTimer 0],
     timers := (timers demo_kernel)(ObjTimer 0 := \<lparr>tm_type = Class_Timer, tm_static = True,
       tm_flag = 3, tm_timeout_func = UserTimeout 0, tm_parameter = 0, tm_init_tick = 0,
       tm_timeout_tick = 0\<rparr>)\<rparr>) = None"
  by (rule zero_period_timer_hangs [of _ "ObjTimer 0"])
    (simp add: zero_periodic_def has_flag_def)

end
