(* ===== verification/Ipc_Base.thy ===== *)
theory Ipc_Base
  imports Kernel_Clock
begin

text \<open>
  What the IPC objects share (\<open>src/ipc.c\<close>, first part): suspending the current thread on the
  list of an object, in the order of the flag the object was created with, and resuming the
  first thread or all threads of the list.
\<close>

abbreviation (input) RT_IPC_FLAG_FIFO :: u8 where "RT_IPC_FLAG_FIFO \<equiv> 0"
abbreviation (input) RT_IPC_FLAG_PRIO :: u8 where "RT_IPC_FLAG_PRIO \<equiv> 1"

subsection \<open>Operations\<close>

text \<open>The loop of \<open>_ipc_list_suspend\<close> for \<open>RT_IPC_FLAG_PRIO\<close>.\<close>

fun ipc_prio_insert :: "(tid \<Rightarrow> rt_thread) \<Rightarrow> tid \<Rightarrow> tid list \<Rightarrow> tid list" where
  "ipc_prio_insert ths t [] = [t]"
| "ipc_prio_insert ths t (s # ss) =
     (if th_current_priority (ths t) < th_current_priority (ths s) then t # s # ss
      else s # ipc_prio_insert ths t ss)"

definition ipc_object_init :: "queue \<Rightarrow> kernel \<Rightarrow> kernel" where
  "ipc_object_init q k = k\<lparr>tq := (tq k)(q := [])\<rparr>"

definition ipc_enqueue :: "queue \<Rightarrow> tid \<Rightarrow> u8 \<Rightarrow> kernel \<Rightarrow> kernel option" where
  "ipc_enqueue q t flag k =
     (if flag = RT_IPC_FLAG_FIFO then Some (rt_list_insert_before q t k)
      else if flag = RT_IPC_FLAG_PRIO
      then Some (k\<lparr>tq := (tq k)(q := ipc_prio_insert (threads k) t (tq k q))\<rparr>)
      else None)"

definition ipc_list_suspend ::
  "queue \<Rightarrow> tid \<Rightarrow> u8 \<Rightarrow> int \<Rightarrow> kernel \<Rightarrow> (rt_err_t \<times> kernel) option" where
  "ipc_list_suspend q t flag suspend_flag k = do {
     (ret, k1) \<leftarrow> rt_thread_suspend_with_flag t suspend_flag k;
     (if ret \<noteq> RT_EOK then Some (ret, k1)
      else do {
        k2 \<leftarrow> ipc_enqueue q t flag k1;
        Some (RT_EOK, k2)
      })
   }"

definition ipc_list_resume :: "queue \<Rightarrow> kernel \<Rightarrow> kernel option" where
  "ipc_list_resume q k = (case tq k q of
       [] \<Rightarrow> None
     | t # _ \<Rightarrow> do {
         (_, k1) \<leftarrow> rt_thread_resume t (upd_thread t (th_error_update (\<lambda>_. RT_EOK)) k);
         Some k1
       })"

partial_function (option) ipc_list_resume_all :: "queue \<Rightarrow> kernel \<Rightarrow> kernel option" where
  "ipc_list_resume_all q k = (case tq k q of
       [] \<Rightarrow> Some k
     | t # _ \<Rightarrow> do {
         (_, k1) \<leftarrow> rt_thread_resume t (upd_thread t (th_error_update (\<lambda>_. - RT_ERROR)) k);
         ipc_list_resume_all q k1
       })"

subsection \<open>The order of the waiting threads\<close>

lemma ipc_prio_insert_eq:
  "ipc_prio_insert ths t ss = insert_before_first
     (\<lambda>s. th_current_priority (ths t) < th_current_priority (ths s)) t ss"
  by (induction ss) auto

lemma ipc_prio_insert_cong:
  assumes "\<And>u. th_current_priority (ths' u) = th_current_priority (ths u)"
  shows "ipc_prio_insert ths' t ss = ipc_prio_insert ths t ss"
  by (simp add: ipc_prio_insert_eq assms)

lemma set_ipc_prio_insert [simp, queue_simps]:
  "set (ipc_prio_insert ths t ss) = insert t (set ss)"
  by (simp add: ipc_prio_insert_eq)

lemma distinct_ipc_prio_insert [simp, queue_simps]:
  "distinct (ipc_prio_insert ths t ss) \<longleftrightarrow> t \<notin> set ss \<and> distinct ss"
  by (simp add: ipc_prio_insert_eq)

interpretation waiting_queue: ordered_queue "\<lambda>s. th_current_priority (ths s)" "\<lambda>_. True"
  "ipc_prio_insert ths" for ths
  by unfold_locales (simp add: ipc_prio_insert_eq)

lemma ipc_prio_insert_sorted:
  assumes "sorted (map (\<lambda>s. th_current_priority (ths s)) ss)"
  shows "sorted (map (\<lambda>s. th_current_priority (ths s)) (ipc_prio_insert ths t ss))"
  by (rule waiting_queue.ins_sorted) (use assms in simp_all)

definition ipc_queue :: "queue \<Rightarrow> bool" where
  "ipc_queue q \<longleftrightarrow> (case q of QReady _ \<Rightarrow> False | QDefunct \<Rightarrow> False | _ \<Rightarrow> True)"

lemma ipc_queue_simps [simp]:
  "ipc_queue (QSem s)" "ipc_queue (QMutex m)" "ipc_queue (QEvent e)" "ipc_queue (QMb b)"
  "ipc_queue (QMbSender b)" "ipc_queue (QMq b)" "ipc_queue (QMqSender b)" "ipc_queue (QMp b)"
  "ipc_queue (QCompletion c)" "ipc_queue (QPush d)" "ipc_queue (QPop d)"
  "\<not> ipc_queue (QReady p)" "\<not> ipc_queue QDefunct"
  by (simp_all add: ipc_queue_def)

lemma ipc_queue_not_ready: "ipc_queue q \<Longrightarrow> q \<noteq> QReady p"
  by auto

lemma ipc_queue_stat: "ipc_queue q \<Longrightarrow> queue_stat q th = stat_suspended (th_stat th)"
  by (cases q) (auto simp: queue_stat_def)

lemma waiting_suspended:
  assumes "sched_ok k" "ipc_queue q" "t \<in> set (tq k q)"
  shows "stat_suspended (th_stat (threads k t))"
proof -
  have "queue_stat q (threads k t)" using assms by (simp add: sched_okx_def)
  then show ?thesis using ipc_queue_stat [OF assms(2)] by simp
qed

lemma queue_exclusive:
  "sched_ok k \<Longrightarrow> t \<in> set (tq k q) \<Longrightarrow> r \<noteq> q \<Longrightarrow> t \<notin> set (tq k r)"
  unfolding sched_okx_def queues_ok_def by blast

subsection \<open>Suspending on a list\<close>

lemma ipc_list_suspend_spec:
  assumes k: "kernel_ok k" and cur: "rt_current_thread k = Some t"
    and st: "thread_state k t = RT_THREAD_READY \<or> thread_state k t = RT_THREAD_RUNNING"
    and f: "f = RT_INTERRUPTIBLE \<or> f = RT_KILLABLE \<or> f = RT_UNINTERRUPTIBLE"
    and flag: "flag = RT_IPC_FLAG_FIFO \<or> flag = RT_IPC_FLAG_PRIO" and q: "ipc_queue q"
  obtains k' s where "ipc_list_suspend q t flag f k = Some (RT_EOK, k')" "kernel_ok k'"
    "stat_suspended (th_stat (threads k' t))"
    "threads k' = (threads k)(t := th_stat_update (set_stat s) (threads k t))"
    "tq k' q = (if flag = RT_IPC_FLAG_FIFO then tq k q @ [t]
       else ipc_prio_insert (threads k) t (tq k q))"
    "\<forall>r. r \<noteq> q \<longrightarrow> tq k' r = removeAll t (tq k r)"
    "rt_current_thread k' = Some t" "ipc_frame k k'"
    "timer_list k' = removeAll (ThreadTimer t) (timer_list k)"
    "timers k' = (timers k)(ThreadTimer t :=
       tm_flag_update (clear_flag RT_TIMER_FLAG_ACTIVATED) (timers k (ThreadTimer t)))"
    "set (timer_expired k') \<subseteq> set (timer_expired k)"
proof -
  obtain k1 s where k1: "rt_thread_suspend_with_flag t f k = Some (RT_EOK, k1)"
    "sched_okx {t} k1" "prio_ok (threads k1 t)" "timers_ok k1"
    "stat_suspended (set_stat s (th_stat (threads k t)))"
    "threads k1 = (threads k)(t := th_stat_update (set_stat s) (threads k t))"
    "tq k1 = (\<lambda>q. removeAll t (tq k q))" "rt_current_thread k1 = Some t" "ipc_frame k k1"
    "ThreadTimer t \<notin> set (timer_list k1)" "timer_list k1 = removeAll (ThreadTimer t) (timer_list k)"
    "timers k1 = (timers k)(ThreadTimer t :=
       tm_flag_update (clear_flag RT_TIMER_FLAG_ACTIVATED) (timers k (ThreadTimer t)))"
    "set (timer_expired k1) \<subseteq> set (timer_expired k)"
    by (rule suspend_spec [OF k cur st f])
  have sus: "stat_suspended (th_stat (threads k1 t))" using k1(5,6) by simp
  have out: "t \<notin> set (tq k q)"
  proof
    assume "t \<in> set (tq k q)"
    then have "stat_suspended (th_stat (threads k t))" using waiting_suspended k q by blast
    then show False using st by (auto simp: stat_suspended_iff_base)
  qed
  define xs where "xs = (if flag = RT_IPC_FLAG_FIFO then tq k q @ [t]
       else ipc_prio_insert (threads k) t (tq k q))"
  have pr: "th_current_priority (threads k1 u) = th_current_priority (threads k u)" for u
    using ipc_frame_thread(1) [OF k1(9)] .
  have same: "ipc_prio_insert (threads k1) t ss = ipc_prio_insert (threads k) t ss" for ss
    by (rule ipc_prio_insert_cong) (rule pr)
  define k2 where "k2 = k1\<lparr>tq := (tq k1)(q := xs)\<rparr>"
  have tq1: "tq k1 q = tq k q" using k1(7) out by simp
  have en: "ipc_enqueue q t flag k1 = Some k2"
    using flag by (auto simp: ipc_enqueue_def k2_def xs_def rt_list_insert_before_def tq1 same)
  have xs: "distinct xs" "set xs = insert t (set (tq k1 q))"
    using k out by (auto simp: xs_def tq1 sched_okx_def queues_ok_def)
  have "sched_okx ({} - {t}) k2"
    unfolding k2_def
    by (rule sched_okx_enqueue) (use k1(2,3) sus q xs ipc_queue_stat in auto)
  moreover have "timers_ok k2"
    by (rule timers_ok_cong [OF _ _ _ _ _ k1(4)]) (simp_all add: k2_def)
  ultimately have ok2: "kernel_ok k2" by simp
  have "ipc_frame k1 k2" by (rule ipc_frameI) (simp_all add: k2_def)
  then have ipc: "ipc_frame k k2" using ipc_frame_trans [OF k1(9)] by blast
  show ?thesis
  proof (rule that [of k2 s])
    show "ipc_list_suspend q t flag f k = Some (RT_EOK, k2)"
      using k1(1) en by (simp add: ipc_list_suspend_def)
    show "tq k2 q = (if flag = RT_IPC_FLAG_FIFO then tq k q @ [t]
       else ipc_prio_insert (threads k) t (tq k q))" by (simp add: k2_def xs_def)
  qed (use ok2 ipc k1 sus in \<open>simp_all add: k2_def\<close>)
qed

subsection \<open>Resuming the first thread\<close>

lemma ipc_list_resume_spec:
  assumes k: "kernel_ok k" and q: "ipc_queue q" and l: "tq k q = t # ts"
  obtains k' s where "ipc_list_resume q k = Some k'" "kernel_ok k'"
    "s = RT_THREAD_READY \<or> s = RT_THREAD_RUNNING"
    "threads k' = (threads k)(t := (th_stat_update (set_stat s)
       (th_error_update (\<lambda>_. RT_EOK) (threads k t))))"
    "tq k' q = ts" "\<forall>r. ipc_queue r \<longrightarrow> r \<noteq> q \<longrightarrow> tq k' r = tq k r"
    "rt_current_thread k' = rt_current_thread k" "ipc_frame k k'"
    "timer_list k' = removeAll (ThreadTimer t) (timer_list k)"
    "timers k' = (timers k)(ThreadTimer t :=
       tm_flag_update (clear_flag RT_TIMER_FLAG_ACTIVATED) (timers k (ThreadTimer t)))"
    "set (timer_expired k') \<subseteq> set (timer_expired k)"
proof -
  let ?k1 = "upd_thread t (th_error_update (\<lambda>_. RT_EOK)) k"
  have k1: "kernel_ok ?k1" by (rule kernel_ok_upd_thread [OF k]) simp_all
  have tin: "t \<in> set (tq k q)" using l by simp
  have sus: "stat_suspended (th_stat (threads ?k1 t))"
    using waiting_suspended [OF conjunct1 [OF k] q tin] by simp
  obtain k2 s where k2: "rt_thread_resume t ?k1 = Some (RT_EOK, k2)" "kernel_ok k2"
    "s = RT_THREAD_READY \<or> s = RT_THREAD_RUNNING"
    "threads k2 = (threads ?k1)(t := th_stat_update (set_stat s) (threads ?k1 t))"
    "\<forall>q. (\<forall>p. q \<noteq> QReady p) \<longrightarrow> tq k2 q = removeAll t (tq ?k1 q)"
    "rt_current_thread k2 = rt_current_thread ?k1" "ipc_frame ?k1 k2"
    "timer_list k2 = removeAll (ThreadTimer t) (timer_list ?k1)"
    "timers k2 = (timers ?k1)(ThreadTimer t :=
       tm_flag_update (clear_flag RT_TIMER_FLAG_ACTIVATED) (timers ?k1 (ThreadTimer t)))"
    "set (timer_expired k2) \<subseteq> set (timer_expired ?k1)"
    by (rule resume_spec [OF k1 sus])
  have "distinct (t # ts)" using k l unfolding sched_okx_def queues_ok_def by metis
  then have tqq: "tq k2 q = ts" using k2(5) ipc_queue_not_ready [OF q] l by auto
  have tqr: "tq k2 r = tq k r" if "ipc_queue r" "r \<noteq> q" for r
    using k2(5) that ipc_queue_not_ready [OF that(1)] queue_exclusive [OF conjunct1 [OF k] tin] by auto
  have "ipc_frame k ?k1" by (rule ipc_frameI) simp_all
  then have ipc: "ipc_frame k k2" using ipc_frame_trans k2(7) by blast
  show ?thesis
  proof (rule that [of k2 s])
    show "ipc_list_resume q k = Some k2"
      using k2(1) l by (simp add: ipc_list_resume_def)
  qed (use k2 tqq tqr ipc in auto)
qed

subsection \<open>Resuming all threads\<close>

text \<open>The loop ends, and every thread that waited leaves the list with the error code.\<close>

lemma ipc_list_resume_all_spec:
  assumes "kernel_ok k" "ipc_queue q"
  shows "\<exists>k'. ipc_list_resume_all q k = Some k' \<and> kernel_ok k' \<and> tq k' q = []
    \<and> (\<forall>r. ipc_queue r \<longrightarrow> r \<noteq> q \<longrightarrow> tq k' r = tq k r)
    \<and> (\<forall>t \<in> set (tq k q). th_error (threads k' t) = - RT_ERROR
        \<and> (thread_state k' t = RT_THREAD_READY \<or> thread_state k' t = RT_THREAD_RUNNING))
    \<and> (\<forall>t. t \<notin> set (tq k q) \<longrightarrow> threads k' t = threads k t)
    \<and> rt_current_thread k' = rt_current_thread k \<and> ipc_frame k k'"
  using assms
proof (induction "tq k q" arbitrary: k)
  case Nil
  then have "ipc_list_resume_all q k = Some k" by (subst ipc_list_resume_all.simps) simp
  with Nil show ?case by auto
next
  case (Cons t ts)
  note l = Cons.hyps(2) [symmetric]
  let ?k1 = "upd_thread t (th_error_update (\<lambda>_. - RT_ERROR)) k"
  have k1: "kernel_ok ?k1" by (rule kernel_ok_upd_thread [OF Cons.prems(1)]) simp_all
  have tin: "t \<in> set (tq k q)" using l by simp
  have sus: "stat_suspended (th_stat (threads ?k1 t))"
    using waiting_suspended [OF conjunct1 [OF Cons.prems(1)] Cons.prems(2) tin] by simp
  obtain k2 s where k2: "rt_thread_resume t ?k1 = Some (RT_EOK, k2)" "kernel_ok k2"
    "s = RT_THREAD_READY \<or> s = RT_THREAD_RUNNING"
    "threads k2 = (threads ?k1)(t := th_stat_update (set_stat s) (threads ?k1 t))"
    "\<forall>q. (\<forall>p. q \<noteq> QReady p) \<longrightarrow> tq k2 q = removeAll t (tq ?k1 q)"
    "rt_current_thread k2 = rt_current_thread ?k1" "ipc_frame ?k1 k2"
    "timer_list k2 = removeAll (ThreadTimer t) (timer_list ?k1)"
    "timers k2 = (timers ?k1)(ThreadTimer t :=
       tm_flag_update (clear_flag RT_TIMER_FLAG_ACTIVATED) (timers ?k1 (ThreadTimer t)))"
    "set (timer_expired k2) \<subseteq> set (timer_expired ?k1)"
    by (rule resume_spec [OF k1 sus])
  have dist: "distinct (t # ts)"
    using Cons.prems(1) l unfolding sched_okx_def queues_ok_def by metis
  then have tqq: "tq k2 q = ts" using k2(5) ipc_queue_not_ready [OF Cons.prems(2)] l by auto
  have tqr: "tq k2 r = tq k r" if "ipc_queue r" "r \<noteq> q" for r
    using k2(5) that ipc_queue_not_ready [OF that(1)] queue_exclusive [OF conjunct1 [OF Cons.prems(1)] tin] by auto
  obtain k' where k': "ipc_list_resume_all q k2 = Some k'" "kernel_ok k'" "tq k' q = []"
    "\<forall>r. ipc_queue r \<longrightarrow> r \<noteq> q \<longrightarrow> tq k' r = tq k2 r"
    "\<forall>t \<in> set (tq k2 q). th_error (threads k' t) = - RT_ERROR
        \<and> (thread_state k' t = RT_THREAD_READY \<or> thread_state k' t = RT_THREAD_RUNNING)"
    "\<forall>t. t \<notin> set (tq k2 q) \<longrightarrow> threads k' t = threads k2 t"
    "rt_current_thread k' = rt_current_thread k2" "ipc_frame k2 k'"
    using Cons.hyps(1) [OF tqq [symmetric] k2(2) Cons.prems(2)] by blast
  have run: "ipc_list_resume_all q k = Some k'"
    using l k2(1) k'(1) by (subst ipc_list_resume_all.simps) simp
  have t': "threads k' t = threads k2 t" using k'(6) tqq dist by simp
  then have tt: "th_error (threads k' t) = - RT_ERROR"
    "thread_state k' t = RT_THREAD_READY \<or> thread_state k' t = RT_THREAD_RUNNING"
    using k2(3,4) by auto
  have "ipc_frame k ?k1" by (rule ipc_frameI) simp_all
  then have ipc: "ipc_frame k k'" using ipc_frame_trans k2(7) k'(8) by blast
  have 1: "\<forall>u \<in> set (tq k q). th_error (threads k' u) = - RT_ERROR
        \<and> (thread_state k' u = RT_THREAD_READY \<or> thread_state k' u = RT_THREAD_RUNNING)"
    using k'(5) tqq tt l by simp
  have 2: "\<forall>u. u \<notin> set (tq k q) \<longrightarrow> threads k' u = threads k u"
    using k'(6) tqq l k2(4) by simp
  have 3: "\<forall>r. ipc_queue r \<longrightarrow> r \<noteq> q \<longrightarrow> tq k' r = tq k r" using k'(4) tqr by simp
  show ?case using run k'(2,3) 1 2 3 ipc k'(7) k2(6) by simp
qed

subsection \<open>The clock invariant\<close>

lemma clock_ok_kernel: "clock_ok k \<Longrightarrow> kernel_ok k"
  by (simp add: clock_ok_def)

lemma clock_ok_irrelevant [simp]:
  "clock_ok (k\<lparr>sems := x0\<rparr>) = clock_ok k"
  "clock_ok (k\<lparr>mutexes := x1\<rparr>) = clock_ok k"
  "clock_ok (k\<lparr>events := x2\<rparr>) = clock_ok k"
  "clock_ok (k\<lparr>mailboxes := x3\<rparr>) = clock_ok k"
  "clock_ok (k\<lparr>msgqueues := x4\<rparr>) = clock_ok k"
  "clock_ok (k\<lparr>taken_objects := x5\<rparr>) = clock_ok k"
  by (simp_all add: clock_ok_def timers_ok_def live_ok_def)

lemma clock_ok_frame_stop:
  assumes k: "clock_ok k" and "kernel_ok k'" "rt_current_thread k' = rt_current_thread k"
    "rt_tick k' = rt_tick k" "timer_list k' = removeAll x (timer_list k)"
    "timers k' = (timers k)(x := tm_flag_update f (timers k x))"
    "set (timer_expired k') \<subseteq> set (timer_expired k)"
  shows "clock_ok k'"
proof -
  have key: "timer_key (timers k') (rt_tick k') y = timer_key (timers k) (rt_tick k) y" for y
    using assms(4,6) by (simp add: timer_key_def)
  have "timers_sorted (timers k') (rt_tick k') (timer_list k')"
    unfolding assms(4,5) using k assms(6)
    by (intro timers_sorted_remove [of "timers k"]) (auto simp: clock_ok_def)
  then show ?thesis using assms key by (auto simp: clock_ok_def)
qed

lemma clock_ok_schedule:
  assumes "clock_ok k" "rt_schedule k = Some k'"
  shows "clock_ok k'"
proof -
  have ok: "kernel_ok k" "rt_current_thread k \<noteq> None" using assms(1) by (auto simp: clock_ok_def)
  have f: "sched_frame k k'" using rt_schedule_frame [OF _ assms(2)] ok by blast
  have "kernel_ok k'" by (rule rt_schedule_kernel_ok [OF ok(1) assms(2)])
  moreover have "rt_current_thread k' \<noteq> None" by (rule rt_schedule_current [OF assms(2) ok(2)])
  ultimately show ?thesis
    using assms(1) unfolding clock_ok_def sched_frame_sel(4-7) [OF f] by blast
qed

lemma clock_ok_upd_thread:
  assumes "clock_ok k" "stat_base (th_stat (f (threads k t))) = stat_base (th_stat (threads k t))"
    "th_current_priority (f (threads k t)) = th_current_priority (threads k t)"
    "th_number_mask (f (threads k t)) = th_number_mask (threads k t)"
    "th_type (f (threads k t)) = th_type (threads k t)"
  shows "clock_ok (upd_thread t f k)"
  using kernel_ok_upd_thread [of k f t] assms by (simp add: clock_ok_def)

lemma ipc_list_resume_clock:
  assumes k: "clock_ok k" and q: "ipc_queue q" and l: "tq k q = t # ts"
  obtains k' s where "ipc_list_resume q k = Some k'" "clock_ok k'"
    "s = RT_THREAD_READY \<or> s = RT_THREAD_RUNNING"
    "threads k' = (threads k)(t := (th_stat_update (set_stat s)
       (th_error_update (\<lambda>_. RT_EOK) (threads k t))))"
    "tq k' q = ts" "\<forall>r. ipc_queue r \<longrightarrow> r \<noteq> q \<longrightarrow> tq k' r = tq k r"
    "rt_current_thread k' = rt_current_thread k" "ipc_frame k k'"
proof -
  obtain k' s where k': "ipc_list_resume q k = Some k'" "kernel_ok k'"
    "s = RT_THREAD_READY \<or> s = RT_THREAD_RUNNING"
    "threads k' = (threads k)(t := (th_stat_update (set_stat s)
       (th_error_update (\<lambda>_. RT_EOK) (threads k t))))"
    "tq k' q = ts" "\<forall>r. ipc_queue r \<longrightarrow> r \<noteq> q \<longrightarrow> tq k' r = tq k r"
    "rt_current_thread k' = rt_current_thread k" "ipc_frame k k'"
    "timer_list k' = removeAll (ThreadTimer t) (timer_list k)"
    "timers k' = (timers k)(ThreadTimer t :=
       tm_flag_update (clear_flag RT_TIMER_FLAG_ACTIVATED) (timers k (ThreadTimer t)))"
    "set (timer_expired k') \<subseteq> set (timer_expired k)"
    by (rule ipc_list_resume_spec [OF clock_ok_kernel [OF k] q l])
  have "clock_ok k'"
    by (rule clock_ok_frame_stop [OF k k'(2,7) ipc_frame_sel(4) [OF k'(8)] k'(9-11)])
  then show ?thesis using that k' by blast
qed

subsection \<open>Blocking the current thread\<close>

text \<open>
  The common course of a call that waits: the thread is put on the list, its timer is started
  when the timeout is positive (a negative one waits for ever), and the scheduler runs.
\<close>

definition wait_timer :: "tid \<Rightarrow> int \<Rightarrow> kernel \<Rightarrow> kernel option" where
  "wait_timer t timeout k =
     (if 0 < timeout then start_thread_timer t (word_of_int timeout) k else Some k)"

definition ipc_block ::
  "queue \<Rightarrow> tid \<Rightarrow> u8 \<Rightarrow> int \<Rightarrow> int \<Rightarrow> kernel \<Rightarrow> (rt_err_t \<times> kernel) option" where
  "ipc_block q t flag suspend_flag timeout k = do {
     (ret, k1) \<leftarrow> ipc_list_suspend q t flag suspend_flag k;
     (if ret \<noteq> RT_EOK then Some (ret, k1)
      else do {
        k2 \<leftarrow> wait_timer t timeout k1;
        k3 \<leftarrow> rt_schedule k2;
        Some (RT_EOK, k3)
      })
   }"

definition time_ok :: "int \<Rightarrow> bool" where
  "time_ok timeout \<longleftrightarrow> - 0x80000000 \<le> timeout \<and> timeout < 0x7fffffff"

lemma wait_timer_spec:
  assumes k: "clock_ok k" and st: "stat_suspended (th_stat (threads k t))"
    and tm: "time_ok timeout" and ntl: "ThreadTimer t \<notin> set (timer_list k)"
  obtains k' where "wait_timer t timeout k = Some k'" "clock_ok k'" "timer_frame k k'"
    "0 < timeout \<longrightarrow> ThreadTimer t \<in> set (timer_list k')
       \<and> int (timer_key (timers k') (rt_tick k') (ThreadTimer t)) = timeout"
    "timeout \<le> 0 \<longrightarrow> k' = k"
proof (cases "0 < timeout")
  case False
  then show ?thesis
    by (intro that [of k]) (use k in \<open>auto simp: wait_timer_def timer_frame_def\<close>)
next
  case True
  let ?w = "word_of_int timeout :: rt_tick_t"
  have u: "int (unat ?w) = timeout"
    using True tm by (simp add: time_ok_def unsigned_of_int take_bit_int_eq_self)
  have "int (unat ?w) < 0x7fffffff" using tm unfolding u time_ok_def by simp
  then have "unat ?w < 0x7fffffff" by linarith
  then have lt: "?w < TICK_HALF" by (simp add: word_less_nat_alt)
  have ok: "timers_sorted (timers k) (rt_tick k) (timer_list k)" using k by (simp add: clock_ok_def)
  obtain k' where k': "start_thread_timer t ?w k = Some k'" "kernel_ok k'" "timer_frame k k'"
    "timers_sorted (timers k') (rt_tick k') (timer_list k')"
    "set (timer_list k') = insert (ThreadTimer t) (set (timer_list k))"
    "timer_key (timers k') (rt_tick k') (ThreadTimer t) = unat ?w"
    "\<forall>x. x \<noteq> ThreadTimer t \<longrightarrow> timers k' x = timers k x"
    "timer_expired k' = removeAll (ThreadTimer t) (timer_expired k)"
    by (rule start_thread_timer_spec [OF clock_ok_kernel [OF k] st lt ok ntl])
  note f = timer_frame_sel [OF k'(3)]
  have pos: "0 < timer_key (timers k') (rt_tick k') x" if "x \<in> set (timer_list k')" for x
  proof (cases "x = ThreadTimer t")
    case True
    have "0 < int (unat ?w)" using u \<open>0 < timeout\<close> by (simp only:)
    then show ?thesis unfolding True k'(6) by linarith
  next
    case False
    then have "timer_key (timers k') (rt_tick k') x = timer_key (timers k) (rt_tick k) x"
      using k'(7) f(9) by (simp add: timer_key_def)
    then show ?thesis using k'(5) False that k by (auto simp: clock_ok_def)
  qed
  have "clock_ok k'"
    using k k'(2,4,5,8) f(5) pos by (auto simp: clock_ok_def)
  then show ?thesis
    using that [of k'] k' True u by (simp add: wait_timer_def)
qed

text \<open>Blocking and scheduling change nothing of a thread but its state.\<close>

definition stat_frame :: "kernel \<Rightarrow> kernel \<Rightarrow> bool" where
  "stat_frame k k' \<longleftrightarrow> (\<forall>u. \<exists>s. threads k' u = th_stat_update (\<lambda>_. s) (threads k u))"

lemma stat_frame_trans:
  assumes "stat_frame k k1" "stat_frame k1 k2"
  shows "stat_frame k k2"
  unfolding stat_frame_def
proof
  fix u
  obtain s s' where "threads k1 u = th_stat_update (\<lambda>_. s) (threads k u)"
    "threads k2 u = th_stat_update (\<lambda>_. s') (threads k1 u)"
    using assms unfolding stat_frame_def by metis
  then show "\<exists>s. threads k2 u = th_stat_update (\<lambda>_. s) (threads k u)"
    by (intro exI [of _ s']) simp
qed

lemma stat_frame_upd:
  assumes "threads k' = (threads k)(t := th_stat_update f (threads k t))"
  shows "stat_frame k k'"
  unfolding stat_frame_def
proof
  fix u
  show "\<exists>s. threads k' u = th_stat_update (\<lambda>_. s) (threads k u)"
  proof (cases "u = t")
    case True
    then show ?thesis using assms by (intro exI [of _ "f (th_stat (threads k t))"]) simp
  next
    case False
    then show ?thesis using assms by (intro exI [of _ "th_stat (threads k u)"]) simp
  qed
qed

lemma stat_frame_sel:
  assumes "stat_frame k k'"
  shows "th_error (threads k' u) = th_error (threads k u)"
    "th_current_priority (threads k' u) = th_current_priority (threads k u)"
    "th_event_set (threads k' u) = th_event_set (threads k u)"
    "th_event_info (threads k' u) = th_event_info (threads k u)"
proof -
  obtain s where "threads k' u = th_stat_update (\<lambda>_. s) (threads k u)"
    using assms unfolding stat_frame_def by blast
  then show "th_error (threads k' u) = th_error (threads k u)"
    "th_current_priority (threads k' u) = th_current_priority (threads k u)"
    "th_event_set (threads k' u) = th_event_set (threads k u)"
    "th_event_info (threads k' u) = th_event_info (threads k u)" by simp_all
qed

lemma ipc_block_spec:
  assumes k: "clock_ok k" and cur: "rt_current_thread k = Some t"
    and st: "thread_state k t = RT_THREAD_RUNNING" and tm: "time_ok timeout"
    and f: "f = RT_INTERRUPTIBLE \<or> f = RT_KILLABLE \<or> f = RT_UNINTERRUPTIBLE"
    and flag: "flag = RT_IPC_FLAG_FIFO \<or> flag = RT_IPC_FLAG_PRIO" and q: "ipc_queue q"
  obtains k' where "ipc_block q t flag f timeout k = Some (RT_EOK, k')" "clock_ok k'"
    "stat_suspended (th_stat (threads k' t))"
    "tq k' q = (if flag = RT_IPC_FLAG_FIFO then tq k q @ [t]
       else ipc_prio_insert (threads k) t (tq k q))"
    "\<forall>r. ipc_queue r \<longrightarrow> r \<noteq> q \<longrightarrow> tq k' r = tq k r"
    "ipc_frame k k'"
    "0 < timeout \<longrightarrow> ThreadTimer t \<in> set (timer_list k')
       \<and> int (timer_key (timers k') (rt_tick k') (ThreadTimer t)) = timeout"
    "stat_frame k k'"
    "\<forall>u. u \<noteq> t \<longrightarrow> stat_suspended (th_stat (threads k u)) \<longrightarrow> threads k' u = threads k u"
proof -
  have rr: "thread_state k t = RT_THREAD_READY \<or> thread_state k t = RT_THREAD_RUNNING"
    using st by simp
  obtain k1 s where k1: "ipc_list_suspend q t flag f k = Some (RT_EOK, k1)" "kernel_ok k1"
    "stat_suspended (th_stat (threads k1 t))"
    "threads k1 = (threads k)(t := th_stat_update (set_stat s) (threads k t))"
    "tq k1 q = (if flag = RT_IPC_FLAG_FIFO then tq k q @ [t]
       else ipc_prio_insert (threads k) t (tq k q))"
    "\<forall>r. r \<noteq> q \<longrightarrow> tq k1 r = removeAll t (tq k r)"
    "rt_current_thread k1 = Some t" "ipc_frame k k1"
    "timer_list k1 = removeAll (ThreadTimer t) (timer_list k)"
    "timers k1 = (timers k)(ThreadTimer t :=
       tm_flag_update (clear_flag RT_TIMER_FLAG_ACTIVATED) (timers k (ThreadTimer t)))"
    "set (timer_expired k1) \<subseteq> set (timer_expired k)"
    by (rule ipc_list_suspend_spec [OF clock_ok_kernel [OF k] cur rr f flag q])
  have c1: "clock_ok k1"
    by (rule clock_ok_frame_stop [OF k k1(2) _ ipc_frame_sel(4) [OF k1(8)] k1(9-11)])
      (use k1(7) cur in simp)
  have ntl: "ThreadTimer t \<notin> set (timer_list k1)" by (simp add: k1(9))
  obtain k2 where k2: "wait_timer t timeout k1 = Some k2" "clock_ok k2" "timer_frame k1 k2"
    "0 < timeout \<longrightarrow> ThreadTimer t \<in> set (timer_list k2)
       \<and> int (timer_key (timers k2) (rt_tick k2) (ThreadTimer t)) = timeout"
    "timeout \<le> 0 \<longrightarrow> k2 = k1"
    by (rule wait_timer_spec [OF c1 k1(3) tm ntl])
  note f2 = timer_frame_sel [OF k2(3)]
  have ok2: "sched_ok k2" "rt_current_thread k2 \<noteq> None"
    using k2(2) by (simp_all add: clock_ok_def)
  obtain k3 where k3: "rt_schedule k2 = Some k3" "sched_ok k3" "sched_frame k2 k3"
    "rt_current_thread k3 \<noteq> None"
    by (rule rt_schedule_returns [OF ok2])
  note f3 = sched_frame_sel [OF k3(3)]
  have nt: "t \<notin> set (tq k r)" if "ipc_queue r" for r
    using waiting_suspended [of k r t] clock_ok_kernel [OF k] that st
    by (auto simp: stat_suspended_iff_base)
  have sus3: "threads k3 u = threads k2 u" if "stat_suspended (th_stat (threads k2 u))" for u
    by (rule sched_frame_suspended [OF k3(3) that])
  have qs: "tq k3 r = tq k1 r" if "ipc_queue r" for r
    using sched_frame_queue [OF k3(3), of r] ipc_queue_not_ready [OF that] f2(2) by auto
  show ?thesis
  proof (rule that [of k3])
    show "ipc_block q t flag f timeout k = Some (RT_EOK, k3)"
      using k1(1) k2(1) k3(1) by (simp add: ipc_block_def)
    show "clock_ok k3" by (rule clock_ok_schedule [OF k2(2) k3(1)])
    show "stat_suspended (th_stat (threads k3 t))" using sus3 k1(3) f2(1) by simp
    show "tq k3 q = (if flag = RT_IPC_FLAG_FIFO then tq k q @ [t]
       else ipc_prio_insert (threads k) t (tq k q))" using qs [OF q] k1(5) by simp
    show "\<forall>r. ipc_queue r \<longrightarrow> r \<noteq> q \<longrightarrow> tq k3 r = tq k r" using qs k1(6) nt by simp
    show "ipc_frame k k3"
      using ipc_frame_trans k1(8) timer_frame_ipc [OF k2(3)] sched_frame_ipc [OF k3(3)] by blast
    show "0 < timeout \<longrightarrow> ThreadTimer t \<in> set (timer_list k3)
       \<and> int (timer_key (timers k3) (rt_tick k3) (ThreadTimer t)) = timeout"
      using k2(4) f3 by simp
    show "stat_frame k k3"
    proof (rule stat_frame_trans)
      show "stat_frame k k2" by (rule stat_frame_upd) (simp add: f2(1) k1(4))
      show "stat_frame k2 k3" using k3(3) unfolding stat_frame_def sched_frame_def by blast
    qed
    show "\<forall>u. u \<noteq> t \<longrightarrow> stat_suspended (th_stat (threads k u)) \<longrightarrow> threads k3 u = threads k u"
      using sus3 f2(1) k1(4) by simp
  qed
qed

end
