(* ===== verification/Ipc_Sem.thy ===== *)
theory Ipc_Sem
  imports Ipc_Base
begin

text \<open>
  Semaphores (\<open>src/ipc.c\<close>): a counter and the list of the threads that wait for it to become
  positive. The lemmas give the effect of taking and releasing on every branch; the step
  relation at the end composes them with everything else that may happen to the waiting
  threads and shows that tokens are neither lost nor duplicated.
\<close>

subsection \<open>Operations\<close>

abbreviation upd_sem :: "oid \<Rightarrow> (rt_semaphore \<Rightarrow> rt_semaphore) \<Rightarrow> kernel \<Rightarrow> kernel" where
  "upd_sem s f k \<equiv> k\<lparr>sems := (sems k)(s := f (sems k s))\<rparr>"

definition rt_sem_init :: "oid \<Rightarrow> u32 \<Rightarrow> u8 \<Rightarrow> kernel \<Rightarrow> (rt_err_t \<times> kernel) option" where
  "rt_sem_init s value flag k = do {
     rt_assert (value < 0x10000);
     rt_assert (flag = RT_IPC_FLAG_FIFO \<or> flag = RT_IPC_FLAG_PRIO);
     k1 \<leftarrow> rt_object_init_check (sem_type (sems k s) = Class_Semaphore) k;
     let k2 = upd_sem s (\<lambda>sm. sm\<lparr>sem_type := Class_Semaphore, sem_static := True\<rparr>) k1;
     let k3 = ipc_object_init (QSem s) k2;
     Some (RT_EOK, upd_sem s (\<lambda>sm. sm\<lparr>sem_value := ucast value, sem_flag := flag\<rparr>) k3)
   }"

definition rt_sem_detach :: "oid \<Rightarrow> kernel \<Rightarrow> (rt_err_t \<times> kernel) option" where
  "rt_sem_detach s k = do {
     rt_assert (sem_type (sems k s) = Class_Semaphore);
     rt_assert (sem_static (sems k s));
     k1 \<leftarrow> ipc_list_resume_all (QSem s) k;
     Some (RT_EOK, upd_sem s (\<lambda>sm. sm\<lparr>sem_type := Class_Null, sem_static := False\<rparr>) k1)
   }"

definition rt_sem_create ::
  "oid option \<Rightarrow> u32 \<Rightarrow> u8 \<Rightarrow> kernel \<Rightarrow> (oid option \<times> kernel) option" where
  "rt_sem_create alloc value flag k = do {
     rt_assert (value < 0x10000);
     rt_assert (flag = RT_IPC_FLAG_FIFO \<or> flag = RT_IPC_FLAG_PRIO);
     rt_debug_not_in_interrupt k;
     (case alloc of
        None \<Rightarrow> Some (None, k)
      | Some s \<Rightarrow>
          (let k1 = upd_sem s (\<lambda>sm. sm\<lparr>sem_type := Class_Semaphore, sem_static := False\<rparr>) k;
               k2 = ipc_object_init (QSem s) k1
           in Some (Some s, upd_sem s (\<lambda>sm. sm\<lparr>sem_value := ucast value, sem_flag := flag\<rparr>) k2)))
   }"

definition rt_sem_delete :: "oid \<Rightarrow> kernel \<Rightarrow> (rt_err_t \<times> kernel) option" where
  "rt_sem_delete s k = do {
     rt_assert (sem_type (sems k s) = Class_Semaphore);
     rt_assert (\<not> sem_static (sems k s));
     rt_debug_not_in_interrupt k;
     k1 \<leftarrow> ipc_list_resume_all (QSem s) k;
     Some (RT_EOK, upd_sem s (sem_type_update (\<lambda>_. Class_Null)) k1)
   }"

definition rt_sem_take_flag :: "oid \<Rightarrow> int \<Rightarrow> int \<Rightarrow> kernel \<Rightarrow> (outcome \<times> kernel) option" where
  "rt_sem_take_flag s timeout suspend_flag k = do {
     rt_assert (sem_type (sems k s) = Class_Semaphore);
     (if 0 < sem_value (sems k s)
      then Some (Done RT_EOK, upd_sem s (sem_value_update (\<lambda>v. v - 1)) k)
      else if timeout = 0 then Some (Done (- RT_ETIMEOUT), k)
      else do {
        rt_debug_scheduler_available True k;
        t \<leftarrow> rt_thread_self k;
        let k1 = upd_thread t (th_error_update (\<lambda>_. - RT_EINTR)) k;
        (ret, k2) \<leftarrow> ipc_block (QSem s) t (sem_flag (sems k1 s)) suspend_flag timeout k1;
        Some (if ret \<noteq> RT_EOK then (Done ret, k2) else (Blocked, k2))
      })
   }"

text \<open>The end of \<open>_rt_sem_take\<close>, when the thread that waited runs again.\<close>

definition rt_sem_take_resume :: "tid \<Rightarrow> kernel \<Rightarrow> rt_err_t" where
  "rt_sem_take_resume t k =
     (if th_error (threads k t) \<noteq> RT_EOK then th_error (threads k t) else RT_EOK)"

definition rt_sem_take :: "oid \<Rightarrow> int \<Rightarrow> kernel \<Rightarrow> (outcome \<times> kernel) option" where
  "rt_sem_take s time k = rt_sem_take_flag s time RT_UNINTERRUPTIBLE k"

definition rt_sem_take_interruptible :: "oid \<Rightarrow> int \<Rightarrow> kernel \<Rightarrow> (outcome \<times> kernel) option" where
  "rt_sem_take_interruptible s time k = rt_sem_take_flag s time RT_INTERRUPTIBLE k"

definition rt_sem_take_killable :: "oid \<Rightarrow> int \<Rightarrow> kernel \<Rightarrow> (outcome \<times> kernel) option" where
  "rt_sem_take_killable s time k = rt_sem_take_flag s time RT_KILLABLE k"

definition rt_sem_trytake :: "oid \<Rightarrow> kernel \<Rightarrow> (outcome \<times> kernel) option" where
  "rt_sem_trytake s k = rt_sem_take s 0 k"

abbreviation (input) RT_SEM_VALUE_MAX :: u16 where "RT_SEM_VALUE_MAX \<equiv> 0xffff"

definition rt_sem_release :: "oid \<Rightarrow> kernel \<Rightarrow> (rt_err_t \<times> kernel) option" where
  "rt_sem_release s k = do {
     rt_assert (sem_type (sems k s) = Class_Semaphore);
     (if \<not> rt_list_isempty (QSem s) k then do {
        k1 \<leftarrow> ipc_list_resume (QSem s) k;
        k2 \<leftarrow> rt_schedule k1;
        Some (RT_EOK, k2)
      }
      else if sem_value (sems k s) < RT_SEM_VALUE_MAX
      then Some (RT_EOK, upd_sem s (sem_value_update (\<lambda>v. v + 1)) k)
      else Some (- RT_EFULL, k))
   }"

text \<open>\<open>rt_sem_control\<close>: \<open>Some v\<close> is \<open>RT_IPC_CMD_RESET\<close> with the argument \<open>v\<close>.\<close>

definition rt_sem_control :: "oid \<Rightarrow> u32 option \<Rightarrow> kernel \<Rightarrow> (rt_err_t \<times> kernel) option" where
  "rt_sem_control s cmd k = do {
     rt_assert (sem_type (sems k s) = Class_Semaphore);
     (case cmd of
        Some value \<Rightarrow> do {
          k1 \<leftarrow> ipc_list_resume_all (QSem s) k;
          k2 \<leftarrow> rt_schedule (upd_sem s (sem_value_update (\<lambda>_. ucast value)) k1);
          Some (RT_EOK, k2)
        }
      | None \<Rightarrow> Some (- RT_ERROR, k))
   }"

subsection \<open>Taking\<close>

definition in_thread_context :: "kernel \<Rightarrow> tid \<Rightarrow> bool" where
  "in_thread_context k t \<longleftrightarrow> clock_ok k \<and> rt_current_thread k = Some t
     \<and> thread_state k t = RT_THREAD_RUNNING
     \<and> rt_scheduler_lock_nest k = 0 \<and> rt_interrupt_nest k = 0"

definition sem_ok :: "kernel \<Rightarrow> oid \<Rightarrow> bool" where
  "sem_ok k s \<longleftrightarrow> sem_type (sems k s) = Class_Semaphore
     \<and> (sem_flag (sems k s) = RT_IPC_FLAG_FIFO \<or> sem_flag (sems k s) = RT_IPC_FLAG_PRIO)
     \<and> (tq k (QSem s) \<noteq> [] \<longrightarrow> sem_value (sems k s) = 0)"

lemma in_thread_context_avail:
  "in_thread_context k t \<Longrightarrow> rt_debug_scheduler_available b k = Some ()"
  by (simp add: in_thread_context_def rt_debug_scheduler_available_eq)

lemma sem_take_block_spec:
  assumes k: "in_thread_context k t" and s: "sem_ok k s" and v: "sem_value (sems k s) = 0"
    and tm: "time_ok timeout" "timeout \<noteq> 0"
    and f: "f = RT_INTERRUPTIBLE \<or> f = RT_KILLABLE \<or> f = RT_UNINTERRUPTIBLE"
  obtains k' where "rt_sem_take_flag s timeout f k = Some (Blocked, k')" "clock_ok k'"
    "stat_suspended (th_stat (threads k' t))" "sem_ok k' s" "sems k' = sems k"
    "tq k' (QSem s) = (if sem_flag (sems k s) = RT_IPC_FLAG_FIFO then tq k (QSem s) @ [t]
       else ipc_prio_insert (threads k) t (tq k (QSem s)))"
    "\<forall>r. ipc_queue r \<longrightarrow> r \<noteq> QSem s \<longrightarrow> tq k' r = tq k r"
    "0 < timeout \<longrightarrow> ThreadTimer t \<in> set (timer_list k')
       \<and> int (timer_key (timers k') (rt_tick k') (ThreadTimer t)) = timeout"
    "th_error (threads k' t) = - RT_EINTR"
    "\<forall>u. u \<noteq> t \<longrightarrow> th_error (threads k' u) = th_error (threads k u)"
proof -
  let ?k1 = "upd_thread t (th_error_update (\<lambda>_. - RT_EINTR)) k"
  have cur: "rt_current_thread ?k1 = Some t" "thread_state ?k1 t = RT_THREAD_RUNNING"
    using k by (simp_all add: in_thread_context_def)
  have k1: "clock_ok ?k1"
    by (rule clock_ok_upd_thread) (use k in \<open>simp_all add: in_thread_context_def\<close>)
  have flag: "sem_flag (sems ?k1 s) = RT_IPC_FLAG_FIFO \<or> sem_flag (sems ?k1 s) = RT_IPC_FLAG_PRIO"
    using s by (simp add: sem_ok_def)
  obtain k' where k': "ipc_block (QSem s) t (sem_flag (sems ?k1 s)) f timeout ?k1 = Some (RT_EOK, k')"
    "clock_ok k'" "stat_suspended (th_stat (threads k' t))"
    "tq k' (QSem s) = (if sem_flag (sems ?k1 s) = RT_IPC_FLAG_FIFO then tq ?k1 (QSem s) @ [t]
       else ipc_prio_insert (threads ?k1) t (tq ?k1 (QSem s)))"
    "\<forall>r. ipc_queue r \<longrightarrow> r \<noteq> QSem s \<longrightarrow> tq k' r = tq ?k1 r"
    "ipc_frame ?k1 k'"
    "0 < timeout \<longrightarrow> ThreadTimer t \<in> set (timer_list k')
       \<and> int (timer_key (timers k') (rt_tick k') (ThreadTimer t)) = timeout"
    "stat_frame ?k1 k'"
    "\<forall>u. u \<noteq> t \<longrightarrow> stat_suspended (th_stat (threads ?k1 u)) \<longrightarrow> threads k' u = threads ?k1 u"
    by (rule ipc_block_spec [OF k1 cur tm(1) f flag ipc_queue_simps(1)])
  have same: "ipc_prio_insert (threads ?k1) t ss = ipc_prio_insert (threads k) t ss" for ss
    by (rule ipc_prio_insert_cong) simp
  have sm: "sems k' = sems k" using ipc_frame_sel [OF k'(6)] by simp
  show ?thesis
  proof (rule that [of k'])
    show "rt_sem_take_flag s timeout f k = Some (Blocked, k')"
      using s v tm(2) k'(1) in_thread_context_avail [OF k] k
      by (simp add: rt_sem_take_flag_def sem_ok_def rt_thread_self_def in_thread_context_def)
    show "sem_ok k' s" using s v sm by (simp add: sem_ok_def)
  qed (use k' sm same stat_frame_sel(1) [OF k'(8)] in auto)
qed

subsection \<open>Releasing\<close>

lemma sem_release_handover:
  assumes k: "clock_ok k" and s: "sem_ok k s" and l: "tq k (QSem s) = t # ts"
  obtains k' where "rt_sem_release s k = Some (RT_EOK, k')" "clock_ok k'" "sem_ok k' s"
    "sems k' = sems k" "tq k' (QSem s) = ts"
    "\<forall>r. ipc_queue r \<longrightarrow> r \<noteq> QSem s \<longrightarrow> tq k' r = tq k r"
    "thread_state k' t = RT_THREAD_READY \<or> thread_state k' t = RT_THREAD_RUNNING"
    "rt_sem_take_resume t k' = RT_EOK"
    "\<forall>u. u \<noteq> t \<longrightarrow> th_error (threads k' u) = th_error (threads k u)"
proof -
  obtain k1 st where k1: "ipc_list_resume (QSem s) k = Some k1" "clock_ok k1"
    "st = RT_THREAD_READY \<or> st = RT_THREAD_RUNNING"
    "threads k1 = (threads k)(t := (th_stat_update (set_stat st)
       (th_error_update (\<lambda>_. RT_EOK) (threads k t))))"
    "tq k1 (QSem s) = ts" "\<forall>r. ipc_queue r \<longrightarrow> r \<noteq> QSem s \<longrightarrow> tq k1 r = tq k r"
    "rt_current_thread k1 = rt_current_thread k" "ipc_frame k k1"
    by (rule ipc_list_resume_clock [OF k ipc_queue_simps(1) l])
  have ok1: "sched_ok k1" "rt_current_thread k1 \<noteq> None" using k1(2) by (simp_all add: clock_ok_def)
  obtain k2 where k2: "rt_schedule k1 = Some k2" "sched_ok k2" "sched_frame k1 k2"
    "rt_current_thread k2 \<noteq> None"
    by (rule rt_schedule_returns [OF ok1])
  have qs: "tq k2 r = tq k1 r" if "ipc_queue r" for r
    using sched_frame_queue [OF k2(3), of r] ipc_queue_not_ready [OF that] by auto
  have sm: "sems k2 = sems k"
    using sched_frame_sel [OF k2(3)] ipc_frame_sel [OF k1(8)] by simp
  have z: "sem_value (sems k s) = 0" using s l by (simp add: sem_ok_def)
  have st1: "thread_state k1 t = RT_THREAD_READY \<or> thread_state k1 t = RT_THREAD_RUNNING"
    using k1(3,4) by auto
  show ?thesis
  proof (rule that [of k2])
    show "rt_sem_release s k = Some (RT_EOK, k2)"
      using s l k1(1) k2(1) by (simp add: rt_sem_release_def sem_ok_def rt_list_isempty_def)
    show "clock_ok k2" by (rule clock_ok_schedule [OF k1(2) k2(1)])
    show "sem_ok k2 s" using s z sm by (simp add: sem_ok_def)
    show "thread_state k2 t = RT_THREAD_READY \<or> thread_state k2 t = RT_THREAD_RUNNING"
      using k2(3) st1 unfolding sched_frame_def by blast
    show "rt_sem_take_resume t k2 = RT_EOK"
      using sched_frame_thread(3) [OF k2(3)] k1(4) by (simp add: rt_sem_take_resume_def)
    show "\<forall>u. u \<noteq> t \<longrightarrow> th_error (threads k2 u) = th_error (threads k u)"
      using sched_frame_thread(3) [OF k2(3)] k1(4) by simp
  qed (use sm qs k1(5,6) in auto)
qed

lemma sem_release_spec:
  assumes "clock_ok k" "sem_ok k s"
  shows "\<exists>e k'. rt_sem_release s k = Some (e, k') \<and> clock_ok k' \<and> sem_ok k' s
    \<and> (case tq k (QSem s) of
         t # ts \<Rightarrow> e = RT_EOK \<and> tq k' (QSem s) = ts \<and> sem_value (sems k' s) = 0
           \<and> (thread_state k' t = RT_THREAD_READY \<or> thread_state k' t = RT_THREAD_RUNNING)
           \<and> rt_sem_take_resume t k' = RT_EOK
       | [] \<Rightarrow> (if sem_value (sems k s) = RT_SEM_VALUE_MAX then e = - RT_EFULL \<and> k' = k
               else e = RT_EOK \<and> unat (sem_value (sems k' s)) = unat (sem_value (sems k s)) + 1
                 \<and> tq k' = tq k \<and> threads k' = threads k))"
proof (cases "tq k (QSem s)")
  case (Cons t ts)
  obtain k' where "rt_sem_release s k = Some (RT_EOK, k')" "clock_ok k'" "sem_ok k' s"
    "sems k' = sems k" "tq k' (QSem s) = ts"
    "\<forall>r. ipc_queue r \<longrightarrow> r \<noteq> QSem s \<longrightarrow> tq k' r = tq k r"
    "thread_state k' t = RT_THREAD_READY \<or> thread_state k' t = RT_THREAD_RUNNING"
    "rt_sem_take_resume t k' = RT_EOK"
    "\<forall>u. u \<noteq> t \<longrightarrow> th_error (threads k' u) = th_error (threads k u)"
    by (rule sem_release_handover [OF assms Cons])
  moreover have "sem_value (sems k s) = 0" using assms(2) Cons by (simp add: sem_ok_def)
  ultimately show ?thesis using Cons by simp
next
  case Nil
  let ?v = "sem_value (sems k s)"
  have lt: "?v < RT_SEM_VALUE_MAX \<longleftrightarrow> ?v \<noteq> RT_SEM_VALUE_MAX"
    using unsigned_less [of ?v, where ?'a = nat] by (auto simp: word_less_nat_alt word_unat_eq_iff)
  have up: "unat (?v + 1) = unat ?v + 1" if "?v \<noteq> RT_SEM_VALUE_MAX"
    using that lt unat_inc [of ?v RT_SEM_VALUE_MAX] by simp
  show ?thesis
    using Nil assms lt up
    by (auto simp: rt_sem_release_def sem_ok_def rt_list_isempty_def)
qed

text \<open>
  Releasing a semaphore that threads wait for wakes exactly the first
  of the list, whose \<open>rt_sem_take\<close> returns \<open>RT_EOK\<close>, and leaves the value at 0; with no
  waiting thread the value grows by one, or \<open>-RT_EFULL\<close> is returned at the maximum.
\<close>

theorem sem_release_correct:
  assumes "clock_ok k" "sem_ok k s"
  shows "\<exists>e k'. rt_sem_release s k = Some (e, k') \<and> clock_ok k' \<and> sem_ok k' s
    \<and> (case tq k (QSem s) of
         t # ts \<Rightarrow> e = RT_EOK \<and> tq k' (QSem s) = ts \<and> sem_value (sems k' s) = 0
           \<and> (thread_state k' t = RT_THREAD_READY \<or> thread_state k' t = RT_THREAD_RUNNING)
           \<and> rt_sem_take_resume t k' = RT_EOK
       | [] \<Rightarrow> (if sem_value (sems k s) = RT_SEM_VALUE_MAX then e = - RT_EFULL \<and> k' = k
               else e = RT_EOK \<and> unat (sem_value (sems k' s)) = unat (sem_value (sems k s)) + 1
                 \<and> tq k' = tq k \<and> threads k' = threads k))"
  using assms by (rule sem_release_spec)

subsection \<open>Token conservation\<close>

text \<open>
  The life of one semaphore as a step relation on the kernel and the list \<open>pend\<close> of the threads
  inside \<open>rt_sem_take\<close>. \<open>Take\<close> is the call by the running thread, up to its return or to the
  switch away from a thread that waits; \<open>Return\<close> is the end of the call, when a thread that waited
  runs again. \<open>Env\<close> is anything else that the system does: the clock, the scheduler, other
  objects. It leaves the semaphore alone, may take threads out of the waiting list (a timeout,
  \<open>rt_thread_resume\<close> from outside), which leaves them an error, and does not touch the error of
  the other threads inside the call; \<open>timeout_is_env\<close> and \<open>schedule_is_env\<close> show that for the
  clock and the scheduler.
\<close>

datatype sem_label = Take outcome | Return rt_err_t | Release rt_err_t | Env

definition sem_env :: "oid \<Rightarrow> tid list \<Rightarrow> kernel \<Rightarrow> kernel \<Rightarrow> bool" where
  "sem_env s pend k k' \<longleftrightarrow> clock_ok k' \<and> sems k' s = sems k s
     \<and> set (tq k' (QSem s)) \<subseteq> set (tq k (QSem s))
     \<and> (\<forall>t \<in> set pend. th_error (threads k' t) = th_error (threads k t)
          \<or> t \<in> set (tq k (QSem s)) \<and> t \<notin> set (tq k' (QSem s)) \<and> th_error (threads k' t) \<noteq> RT_EOK)"

inductive sem_step ::
  "oid \<Rightarrow> kernel \<times> tid list \<Rightarrow> sem_label \<Rightarrow> kernel \<times> tid list \<Rightarrow> bool" for s where
  take: "in_thread_context k t \<Longrightarrow> t \<notin> set pend \<Longrightarrow> time_ok timeout
    \<Longrightarrow> f = RT_INTERRUPTIBLE \<or> f = RT_KILLABLE \<or> f = RT_UNINTERRUPTIBLE
    \<Longrightarrow> rt_sem_take_flag s timeout f k = Some (r, k')
    \<Longrightarrow> sem_step s (k, pend) (Take r) (k', if r = Blocked then t # pend else pend)"
| finish: "in_thread_context k t \<Longrightarrow> t \<in> set pend \<Longrightarrow> rt_sem_take_resume t k = e
    \<Longrightarrow> sem_step s (k, pend) (Return e) (k, remove1 t pend)"
| release: "rt_sem_release s k = Some (e, k') \<Longrightarrow> sem_step s (k, pend) (Release e) (k', pend)"
| env: "sem_env s pend k k' \<Longrightarrow> sem_step s (k, pend) Env (k', pend)"

inductive sem_run ::
  "oid \<Rightarrow> kernel \<times> tid list \<Rightarrow> sem_label list \<Rightarrow> kernel \<times> tid list \<Rightarrow> bool" for s where
  none: "sem_run s c [] c"
| more: "sem_run s c ls c1 \<Longrightarrow> sem_step s c1 l c2 \<Longrightarrow> sem_run s c (ls @ [l]) c2"

text \<open>
  The takes that have returned with a token, the tokens on their way to threads that were woken
  and have not run yet, and the releases that were accepted.
\<close>

fun sem_taken :: "sem_label \<Rightarrow> nat" where
  "sem_taken (Take (Done e)) = (if e = RT_EOK then 1 else 0)"
| "sem_taken (Return e) = (if e = RT_EOK then 1 else 0)"
| "sem_taken _ = 0"

definition sem_in_hand :: "kernel \<Rightarrow> tid list \<Rightarrow> nat" where
  "sem_in_hand k pend = length (filter (\<lambda>t. th_error (threads k t) = RT_EOK) pend)"

fun sem_releases :: "sem_label \<Rightarrow> nat" where
  "sem_releases (Release e) = (if e = RT_EOK then 1 else 0)"
| "sem_releases _ = 0"

definition sem_pend_ok :: "oid \<Rightarrow> kernel \<Rightarrow> tid list \<Rightarrow> bool" where
  "sem_pend_ok s k pend \<longleftrightarrow> clock_ok k \<and> sem_ok k s \<and> distinct pend
     \<and> set (tq k (QSem s)) \<subseteq> set pend \<and> distinct (tq k (QSem s))
     \<and> (\<forall>t \<in> set (tq k (QSem s)). th_error (threads k t) \<noteq> RT_EOK)"

lemma tq_distinct: "clock_ok k \<Longrightarrow> distinct (tq k q)"
  unfolding clock_ok_def sched_okx_def queues_ok_def by metis

lemma sem_in_hand_cong:
  "(\<And>t. t \<in> set pend \<Longrightarrow>
      th_error (threads k' t) = RT_EOK \<longleftrightarrow> th_error (threads k t) = RT_EOK)
    \<Longrightarrow> sem_in_hand k' pend = sem_in_hand k pend"
  by (induction pend) (auto simp: sem_in_hand_def)

lemma sem_in_hand_grant:
  assumes "distinct pend" "t \<in> set pend" "th_error (threads k t) \<noteq> RT_EOK"
    "th_error (threads k' t) = RT_EOK"
    "\<And>u. u \<noteq> t \<Longrightarrow> th_error (threads k' u) = th_error (threads k u)"
  shows "sem_in_hand k' pend = Suc (sem_in_hand k pend)"
  using assms(1,2)
proof (induction pend)
  case (Cons u pend)
  show ?case
  proof (cases "u = t")
    case True
    have "th_error (threads k' v) = th_error (threads k v)" if "v \<in> set pend" for v
      using that Cons.prems(1) True assms(5) [of v] by auto
    then have "sem_in_hand k' pend = sem_in_hand k pend" by (intro sem_in_hand_cong) simp
    then show ?thesis using True assms(3,4) by (simp add: sem_in_hand_def)
  next
    case False
    then show ?thesis using Cons assms(5) by (simp add: sem_in_hand_def)
  qed
qed simp

lemma sem_in_hand_return:
  "t \<in> set pend \<Longrightarrow> sem_in_hand k pend
    = sem_in_hand k (remove1 t pend) + (if th_error (threads k t) = RT_EOK then 1 else 0)"
  by (induction pend) (auto simp: sem_in_hand_def)

text \<open>The conservation in one step, and that the invariant of the waiting threads is kept.\<close>

definition sem_balanced ::
  "oid \<Rightarrow> kernel \<times> tid list \<Rightarrow> nat \<Rightarrow> nat \<Rightarrow> kernel \<times> tid list \<Rightarrow> bool" where
  "sem_balanced s c taken released c' \<longleftrightarrow>
     unat (sem_value (sems (fst c') s)) + sem_in_hand (fst c') (snd c') + taken
       = unat (sem_value (sems (fst c) s)) + sem_in_hand (fst c) (snd c) + released"

lemma sem_take_inv:
  assumes ok: "sem_pend_ok s k pend" and k: "in_thread_context k t" and t: "t \<notin> set pend"
    and tm: "time_ok timeout" and f: "f = RT_INTERRUPTIBLE \<or> f = RT_KILLABLE \<or> f = RT_UNINTERRUPTIBLE"
    and run: "rt_sem_take_flag s timeout f k = Some (r, k')"
  shows "sem_pend_ok s k' (if r = Blocked then t # pend else pend)
    \<and> sem_balanced s (k, pend) (sem_taken (Take r)) 0 (k', if r = Blocked then t # pend else pend)"
proof -
  have s: "sem_ok k s" and ck: "clock_ok k" using ok by (simp_all add: sem_pend_ok_def)
  consider (some) "sem_value (sems k s) \<noteq> 0" | (poll) "sem_value (sems k s) = 0" "timeout = 0"
    | (wait) "sem_value (sems k s) = 0" "timeout \<noteq> 0" by blast
  then show ?thesis
  proof cases
    case some
    then have pos: "0 < sem_value (sems k s)" by (simp add: word_gt_0)
    have "unat (sem_value (sems k s) - 1) + 1 = unat (sem_value (sems k s))"
      using unat_dec some by blast
    then show ?thesis using run pos ok
      by (auto simp: rt_sem_take_flag_def sem_ok_def sem_pend_ok_def sem_balanced_def sem_in_hand_def)
  next
    case poll
    then show ?thesis using run ok
      by (auto simp: rt_sem_take_flag_def sem_ok_def sem_pend_ok_def sem_balanced_def)
  next
    case wait
    obtain k2 where k2: "rt_sem_take_flag s timeout f k = Some (Blocked, k2)" "clock_ok k2"
      "stat_suspended (th_stat (threads k2 t))" "sem_ok k2 s" "sems k2 = sems k"
      "tq k2 (QSem s) = (if sem_flag (sems k s) = RT_IPC_FLAG_FIFO then tq k (QSem s) @ [t]
         else ipc_prio_insert (threads k) t (tq k (QSem s)))"
      "\<forall>r. ipc_queue r \<longrightarrow> r \<noteq> QSem s \<longrightarrow> tq k2 r = tq k r"
      "0 < timeout \<longrightarrow> ThreadTimer t \<in> set (timer_list k2)
         \<and> int (timer_key (timers k2) (rt_tick k2) (ThreadTimer t)) = timeout"
      "th_error (threads k2 t) = - RT_EINTR"
      "\<forall>u. u \<noteq> t \<longrightarrow> th_error (threads k2 u) = th_error (threads k u)"
      by (rule sem_take_block_spec [OF k s wait(1) tm wait(2) f])
    have r: "r = Blocked" "k' = k2" using run k2(1) by simp_all
    have q: "set (tq k2 (QSem s)) = insert t (set (tq k (QSem s)))" using k2(6) by auto
    have tn: "t \<notin> set (tq k (QSem s))" using ok t by (auto simp: sem_pend_ok_def)
    have "th_error (threads k2 u) \<noteq> RT_EOK" if "u \<in> set (tq k2 (QSem s))" for u
      using that ok q tn k2(9,10) by (cases "u = t") (auto simp: sem_pend_ok_def)
    then have "sem_pend_ok s k2 (t # pend)"
      using ok k2(2,4) q t tq_distinct [OF k2(2)] by (auto simp: sem_pend_ok_def)
    moreover have "sem_in_hand k2 (t # pend) = sem_in_hand k pend"
    proof -
      have "sem_in_hand k2 pend = sem_in_hand k pend"
        using k2(10) t by (intro sem_in_hand_cong) auto
      then show ?thesis using k2(9) by (simp add: sem_in_hand_def)
    qed
    ultimately show ?thesis using r k2(5) by (simp add: sem_balanced_def)
  qed
qed

lemma sem_release_inv:
  assumes ok: "sem_pend_ok s k pend" and run: "rt_sem_release s k = Some (e, k')"
  shows "sem_pend_ok s k' pend
    \<and> sem_balanced s (k, pend) 0 (sem_releases (Release e)) (k', pend)"
proof (cases "tq k (QSem s)")
  case Nil
  have s: "sem_ok k s" "clock_ok k" using ok by (simp_all add: sem_pend_ok_def)
  have same: "tq k' = tq k \<and> threads k' = threads k" "clock_ok k'" "sem_ok k' s"
    "unat (sem_value (sems k' s)) = unat (sem_value (sems k s)) + sem_releases (Release e)"
    using sem_release_spec [OF s(2,1)] run Nil by (auto split: if_splits)
  then show ?thesis using ok Nil by (simp add: sem_pend_ok_def sem_balanced_def sem_in_hand_def)
next
  case (Cons t ts)
  have s: "sem_ok k s" "clock_ok k" using ok by (simp_all add: sem_pend_ok_def)
  obtain k2 where k2: "rt_sem_release s k = Some (RT_EOK, k2)" "clock_ok k2" "sem_ok k2 s"
    "sems k2 = sems k" "tq k2 (QSem s) = ts"
    "\<forall>r. ipc_queue r \<longrightarrow> r \<noteq> QSem s \<longrightarrow> tq k2 r = tq k r"
    "thread_state k2 t = RT_THREAD_READY \<or> thread_state k2 t = RT_THREAD_RUNNING"
    "rt_sem_take_resume t k2 = RT_EOK"
    "\<forall>u. u \<noteq> t \<longrightarrow> th_error (threads k2 u) = th_error (threads k u)"
    by (rule sem_release_handover [OF s(2,1) Cons])
  have r: "e = RT_EOK" "k' = k2" using run k2(1) by simp_all
  have t: "t \<in> set pend" "th_error (threads k t) \<noteq> RT_EOK" "t \<notin> set ts" "distinct ts"
    using ok Cons by (auto simp: sem_pend_ok_def)
  have e2: "th_error (threads k2 t) = RT_EOK"
    using k2(8) by (simp add: rt_sem_take_resume_def split: if_splits)
  have "th_error (threads k2 u) \<noteq> RT_EOK" if "u \<in> set ts" for u
    using that ok Cons t(3) k2(9) by (metis list.set_intros(2) sem_pend_ok_def)
  then have "sem_pend_ok s k2 pend"
    using ok k2(2,3,5) t(4) Cons by (auto simp: sem_pend_ok_def)
  moreover have "sem_in_hand k2 pend = Suc (sem_in_hand k pend)"
    using ok t e2 k2(9) by (intro sem_in_hand_grant [of pend t]) (auto simp: sem_pend_ok_def)
  ultimately show ?thesis using r k2(4) by (simp add: sem_balanced_def)
qed

lemma sem_env_inv:
  assumes ok: "sem_pend_ok s k pend" and env: "sem_env s pend k k'"
  shows "sem_pend_ok s k' pend \<and> sem_balanced s (k, pend) 0 0 (k', pend)"
proof -
  have e: "clock_ok k'" "sems k' s = sems k s" "set (tq k' (QSem s)) \<subseteq> set (tq k (QSem s))"
    using env by (simp_all add: sem_env_def)
  have err: "th_error (threads k' t) = th_error (threads k t)
      \<or> t \<in> set (tq k (QSem s)) \<and> t \<notin> set (tq k' (QSem s)) \<and> th_error (threads k' t) \<noteq> RT_EOK"
    if "t \<in> set pend" for t
    using env that by (simp add: sem_env_def)
  have bad: "th_error (threads k t) \<noteq> RT_EOK" "t \<in> set pend" if "t \<in> set (tq k (QSem s))" for t
    using ok that by (auto simp: sem_pend_ok_def)
  have so: "sem_ok k' s" using ok e(2,3) by (auto simp: sem_pend_ok_def sem_ok_def)
  have "th_error (threads k' t) \<noteq> RT_EOK" if "t \<in> set (tq k' (QSem s))" for t
    using that e(3) bad [of t] err [of t] by auto
  then have "sem_pend_ok s k' pend"
    using ok e so tq_distinct [OF e(1)] by (auto simp: sem_pend_ok_def)
  moreover have "sem_in_hand k' pend = sem_in_hand k pend"
    using err bad(1) by (intro sem_in_hand_cong) metis
  ultimately show ?thesis using e(2) by (simp add: sem_balanced_def)
qed

lemma sem_step_inv:
  assumes "sem_step s c l c'" "sem_pend_ok s (fst c) (snd c)"
  shows "sem_pend_ok s (fst c') (snd c') \<and> sem_balanced s c (sem_taken l) (sem_releases l) c'"
  using assms
proof (cases rule: sem_step.cases)
  case (take k t pend timeout f r k')
  then show ?thesis
    using sem_take_inv [OF _ take(4-8)] assms(2) by (cases r) auto
next
  case (finish k t pend e)
  have "t \<notin> set (tq k (QSem s))"
    using finish(4) waiting_suspended [of k "QSem s" t]
    by (auto simp: in_thread_context_def clock_ok_def stat_suspended_iff_base)
  then have "sem_pend_ok s k (remove1 t pend)"
    using assms(2) finish(1) by (auto simp: sem_pend_ok_def)
  then show ?thesis
    using finish sem_in_hand_return [OF finish(5), of k]
    by (auto simp: sem_balanced_def rt_sem_take_resume_def split: if_splits)
next
  case (release k e k' pend)
  then show ?thesis using sem_release_inv [OF _ release(4)] assms(2) by simp
next
  case (env pend k k')
  then show ?thesis using sem_env_inv [OF _ env(4)] assms(2) by simp
qed

text \<open>The clock and the scheduler are such an environment.\<close>

lemma timeout_is_env:
  assumes k: "clock_ok k" and t: "stat_suspended (th_stat (threads k t))"
    "ThreadTimer t \<notin> set (timer_list k)" "t \<in> set pend \<Longrightarrow> t \<in> set (tq k (QSem s))"
  shows "\<exists>k'. thread_timeout t k = Some k' \<and> sem_env s pend k k'"
proof -
  have cur: "rt_current_thread k \<noteq> None" using k by (simp add: clock_ok_def)
  obtain k' where k': "thread_timeout t k = Some k'" "kernel_ok k'" "ipc_frame k k'"
    "th_error (threads k' t) = - RT_ETIMEOUT"
    "\<And>q. (\<And>p. q \<noteq> QReady p) \<Longrightarrow> tq k' q = removeAll t (tq k q)"
    "timers k' = timers k" "timer_list k' = timer_list k" "timer_expired k' = timer_expired k"
    "rt_current_thread k' \<noteq> None"
    "\<forall>u. u \<noteq> t \<longrightarrow> th_error (threads k' u) = th_error (threads k u)"
    by (rule thread_timeout_spec [OF clock_ok_kernel [OF k] t(1,2) cur]) blast
  note f = ipc_frame_sel [OF k'(3)]
  have "clock_ok k'" using k k'(2,6-9) f(4) by (simp add: clock_ok_def)
  moreover have "tq k' (QSem s) = removeAll t (tq k (QSem s))" using k'(5) by simp
  moreover have "sems k' = sems k" using f by simp
  moreover have "th_error (threads k' u) = th_error (threads k u)
      \<or> u \<in> set (tq k (QSem s)) \<and> u \<notin> set (tq k' (QSem s)) \<and> th_error (threads k' u) \<noteq> RT_EOK"
    if "u \<in> set pend" for u
    using that k'(4,10) calculation(2) t(3) by (cases "u = t") auto
  ultimately show ?thesis using k'(1) by (auto simp: sem_env_def)
qed

lemma schedule_is_env:
  assumes k: "clock_ok k"
  shows "\<exists>k'. rt_schedule k = Some k' \<and> sem_env s pend k k'"
proof -
  have ok: "sched_ok k" "rt_current_thread k \<noteq> None" using k by (simp_all add: clock_ok_def)
  obtain k' where k': "rt_schedule k = Some k'" "sched_ok k'" "sched_frame k k'"
    "rt_current_thread k' \<noteq> None"
    by (rule rt_schedule_returns [OF ok])
  show ?thesis
    using k'(1) clock_ok_schedule [OF k k'(1)] sched_frame_thread(3) [OF k'(3)]
      sched_frame_sel [OF k'(3)] sched_frame_queue [OF k'(3), of "QSem s"]
    by (auto simp: sem_env_def)
qed

text \<open>
  C4 (token conservation). In every run of a semaphore the tokens are conserved: its value, the
  tokens handed to threads that a release has woken and that have not run yet (their error is
  \<open>RT_EOK\<close>), and the takes that have returned \<open>RT_EOK\<close>, at once or after waiting, add up to the
  initial tokens and the accepted releases. No thread ever waits while the value is positive, and
  every thread that waits will, as long as nothing wakes it, return an error. Timeouts and threads
  resumed from outside neither lose nor create tokens.
\<close>

theorem sem_conservation:
  assumes "sem_run s c ls c'" "sem_pend_ok s (fst c) (snd c)"
  shows "unat (sem_value (sems (fst c') s)) + sem_in_hand (fst c') (snd c')
        + sum_list (map sem_taken ls)
      = unat (sem_value (sems (fst c) s)) + sem_in_hand (fst c) (snd c)
        + sum_list (map sem_releases ls)
    \<and> (tq (fst c') (QSem s) \<noteq> [] \<longrightarrow> sem_value (sems (fst c') s) = 0)
    \<and> (\<forall>t \<in> set (tq (fst c') (QSem s)). t \<in> set (snd c') \<and> rt_sem_take_resume t (fst c') \<noteq> RT_EOK)"
proof -
  have "sem_pend_ok s (fst c') (snd c')
    \<and> sem_balanced s c (sum_list (map sem_taken ls)) (sum_list (map sem_releases ls)) c'"
    using assms
  proof (induction rule: sem_run.induct)
    case (none c)
    then show ?case by (simp add: sem_balanced_def)
  next
    case (more c ls c1 l c2)
    then have IH: "sem_pend_ok s (fst c1) (snd c1)"
      "sem_balanced s c (sum_list (map sem_taken ls)) (sum_list (map sem_releases ls)) c1"
      by blast+
    from sem_step_inv [OF more.hyps(2) IH(1)] IH(2) show ?case by (simp add: sem_balanced_def)
  qed
  then show ?thesis
    by (auto simp: sem_balanced_def sem_pend_ok_def sem_ok_def rt_sem_take_resume_def)
qed

text \<open>
  C5 (semaphore timeout). A thread that takes an empty semaphore with a timeout of \<open>n\<close> ticks
  stays suspended for the next \<open>n - 1\<close> ticks; after \<open>n\<close> ticks without a release it is ready or
  running, and its \<open>rt_sem_take\<close> returns \<open>-RT_ETIMEOUT\<close>.
\<close>

theorem sem_take_times_out:
  assumes "in_thread_context k t" "sem_ok k s" "sem_value (sems k s) = 0"
    and "0 < timeout" "timeout < 0x7fffffff"
  shows "\<exists>k1 k2. rt_sem_take s timeout k = Some (Blocked, k1) \<and> ticks cb m k1 = Some k2
    \<and> (int m < timeout \<longrightarrow> stat_suspended (th_stat (threads k2 t)))
    \<and> (timeout \<le> int m \<longrightarrow> rt_sem_take_resume t k2 = - RT_ETIMEOUT
        \<and> (thread_state k2 t = RT_THREAD_READY \<or> thread_state k2 t = RT_THREAD_RUNNING))"
proof -
  have tm: "time_ok timeout" "timeout \<noteq> 0" using assms(4,5) by (auto simp: time_ok_def)
  obtain k1 where k1: "rt_sem_take_flag s timeout RT_UNINTERRUPTIBLE k = Some (Blocked, k1)"
    "clock_ok k1"
    "stat_suspended (th_stat (threads k1 t))" "sem_ok k1 s" "sems k1 = sems k"
    "tq k1 (QSem s) = (if sem_flag (sems k s) = RT_IPC_FLAG_FIFO then tq k (QSem s) @ [t]
       else ipc_prio_insert (threads k) t (tq k (QSem s)))"
    "\<forall>r. ipc_queue r \<longrightarrow> r \<noteq> QSem s \<longrightarrow> tq k1 r = tq k r"
    "0 < timeout \<longrightarrow> ThreadTimer t \<in> set (timer_list k1)
       \<and> int (timer_key (timers k1) (rt_tick k1) (ThreadTimer t)) = timeout"
    "th_error (threads k1 t) = - RT_EINTR"
    "\<forall>u. u \<noteq> t \<longrightarrow> th_error (threads k1 u) = th_error (threads k u)"
    by (rule sem_take_block_spec [OF assms(1-3) tm, of RT_UNINTERRUPTIBLE]) simp
  let ?n = "timer_key (timers k1) (rt_tick k1) (ThreadTimer t)"
  have n: "ThreadTimer t \<in> set (timer_list k1)" "int ?n = timeout" using k1(8) assms(4) by auto
  obtain k2 where "ticks cb m k1 = Some k2" "m < ?n \<longrightarrow> stat_suspended (th_stat (threads k2 t))"
    "?n \<le> m \<longrightarrow> woken k2 t"
    using ticks_spec [OF k1(2) n(1) refl, of cb m] by blast
  moreover have "int m < timeout \<longleftrightarrow> m < ?n" "timeout \<le> int m \<longleftrightarrow> ?n \<le> m"
    using n(2) by linarith+
  ultimately show ?thesis
    using k1(1) by (auto simp: rt_sem_take_def woken_def rt_sem_take_resume_def)
qed

text \<open>The concrete state with a semaphore, number 0, of the flag \<open>RT_IPC_FLAG_PRIO\<close>.\<close>

definition demo_sem :: "u16 \<Rightarrow> kernel" where
  "demo_sem v = demo_kernel\<lparr>sems := (sems demo_kernel)(0 := \<lparr>sem_type = Class_Semaphore,
     sem_static = True, sem_flag = 1, sem_value = v\<rparr>)\<rparr>"

lemma demo_thread_context: "in_thread_context demo_kernel 1"
  using demo_clock_ok
  by (simp add: in_thread_context_def demo_thread_def thread_bss_def stat_base_def)

text \<open>
  The same kernel with a thread 2 of a lower priority that waits in the list \<open>q\<close>; \<open>f\<close> sets the
  other fields of its control block.
\<close>

definition demo_blocked :: "queue \<Rightarrow> u32 \<Rightarrow> (rt_thread \<Rightarrow> rt_thread) \<Rightarrow> kernel" where
  "demo_blocked q g f = demo_kernel\<lparr>threads := (threads demo_kernel)(2 := f (demo_thread 20 7)),
     tq := (tq demo_kernel)(QReady 5 := [], q := [2]), rt_thread_ready_priority_group := g\<rparr>"

definition keeps_sched :: "(rt_thread \<Rightarrow> rt_thread) \<Rightarrow> bool" where
  "keeps_sched f \<longleftrightarrow> (\<forall>th. th_stat (f th) = th_stat th \<and> th_type (f th) = th_type th
     \<and> th_current_priority (f th) = th_current_priority th
     \<and> th_number_mask (f th) = th_number_mask th)"

lemma demo_blocked_context:
  assumes f: "keeps_sched f" and q: "ipc_queue q" and g: "g = 1024"
  shows "in_thread_context (demo_blocked q g f) 1"
proof -
  have eq: "g = push_bit 10 1" using g by simp
  have b: "bit g p \<longleftrightarrow> p = 10" for p unfolding eq bit_push_one_32 by auto
  have nq: "QReady p \<noteq> q" for p using q by auto
  have qs: "queue_stat q (f (demo_thread 20 7))"
    using f by (simp add: ipc_queue_stat [OF q] keeps_sched_def demo_thread_def stat_suspended_def)
  have "sched_ok (demo_blocked q g f)"
    using f qs nq nq [symmetric]
    unfolding sched_okx_def queues_ok_def thread_ok_def group_ok_def demo_blocked_def keeps_sched_def
    by (auto simp: b queue_stat_def demo_thread_def thread_bss_def prio_ok_def stat_base_def)
  moreover have "timers_ok (demo_blocked q g f)"
    using f by (simp add: demo_blocked_def timers_ok_def live_ok_def thread_timer_ok_def
        live_state_def demo_thread_def thread_bss_def stat_base_def has_flag_def keeps_sched_def)
  ultimately show ?thesis
    by (simp add: in_thread_context_def clock_ok_def timers_sorted_def)
      (simp add: demo_blocked_def timers_sorted_def demo_thread_def thread_bss_def stat_base_def)
qed

lemma demo_sem_ok: "sem_ok (demo_sem v) 0" "in_thread_context (demo_sem v) 1"
  using demo_thread_context by (simp_all add: sem_ok_def demo_sem_def in_thread_context_def)

theorem sem_take_times_out_witness:
  "\<exists>k1 k2. rt_sem_take 0 3 (demo_sem 0) = Some (Blocked, k1) \<and> ticks (\<lambda>_ _. Some) 3 k1 = Some k2
     \<and> rt_sem_take_resume 1 k2 = - RT_ETIMEOUT"
  using sem_take_times_out [OF demo_sem_ok(2,1), of 0 3 "\<lambda>_ _. Some" 3]
  by (auto simp: demo_sem_def)

theorem sem_release_correct_witness:
  "\<exists>k e k'. rt_sem_take 0 (- 1) (demo_sem 0) = Some (Blocked, k) \<and> tq k (QSem 0) = [1]
     \<and> rt_sem_release 0 k = Some (e, k') \<and> e = RT_EOK \<and> tq k' (QSem 0) = []
     \<and> rt_sem_take_resume 1 k' = RT_EOK"
proof -
  have tm: "time_ok (- 1)" "(- 1 :: int) \<noteq> 0" by (simp_all add: time_ok_def)
  have z: "sem_value (sems (demo_sem 0) 0) = 0" by (simp add: demo_sem_def)
  obtain k1 where k1: "rt_sem_take_flag 0 (- 1) RT_UNINTERRUPTIBLE (demo_sem 0) = Some (Blocked, k1)"
    "clock_ok k1" "stat_suspended (th_stat (threads k1 1))" "sem_ok k1 0"
    "sems k1 = sems (demo_sem 0)"
    "tq k1 (QSem 0) = (if sem_flag (sems (demo_sem 0) 0) = RT_IPC_FLAG_FIFO
       then tq (demo_sem 0) (QSem 0) @ [1]
       else ipc_prio_insert (threads (demo_sem 0)) 1 (tq (demo_sem 0) (QSem 0)))"
    "\<forall>r. ipc_queue r \<longrightarrow> r \<noteq> QSem 0 \<longrightarrow> tq k1 r = tq (demo_sem 0) r"
    "0 < (- 1 :: int) \<longrightarrow> ThreadTimer 1 \<in> set (timer_list k1)
       \<and> int (timer_key (timers k1) (rt_tick k1) (ThreadTimer 1)) = - 1"
    "th_error (threads k1 1) = - RT_EINTR"
    "\<forall>u. u \<noteq> 1 \<longrightarrow> th_error (threads k1 u) = th_error (threads (demo_sem 0) u)"
    by (rule sem_take_block_spec [OF demo_sem_ok(2,1) z tm, of RT_UNINTERRUPTIBLE]) simp
  have q: "tq k1 (QSem 0) = [1]" using k1(6) by (simp add: demo_sem_def)
  show ?thesis using sem_release_correct [OF k1(2,4)] k1(1) q by (auto simp: rt_sem_take_def)
qed

theorem sem_conservation_witness:
  "\<exists>k. sem_run 0 (demo_sem 0, []) [Take Blocked, Release RT_EOK] (k, [1])
     \<and> sem_value (sems k 0) = 0 \<and> sem_in_hand k [1] = 1"
proof -
  have tm: "time_ok (- 1)" "(- 1 :: int) \<noteq> 0" by (simp_all add: time_ok_def)
  have z: "sem_value (sems (demo_sem 0) 0) = 0" by (simp add: demo_sem_def)
  obtain k1 where k1: "rt_sem_take_flag 0 (- 1) RT_UNINTERRUPTIBLE (demo_sem 0) = Some (Blocked, k1)"
    "clock_ok k1" "sem_ok k1 0" "sems k1 = sems (demo_sem 0)" "tq k1 (QSem 0) \<noteq> []"
  proof (rule sem_take_block_spec [OF demo_sem_ok(2,1) z tm, of RT_UNINTERRUPTIBLE])
  qed (auto simp: demo_sem_def)
  obtain t ts where q: "tq k1 (QSem 0) = t # ts" using k1(5) by (cases "tq k1 (QSem 0)") auto
  obtain k2 where k2: "rt_sem_release 0 k1 = Some (RT_EOK, k2)" "sems k2 = sems k1"
    by (rule sem_release_handover [OF k1(2,3) q])
  have r1: "sem_step 0 (demo_sem 0, []) (Take Blocked) (k1, [1])"
    using sem_step.take [OF demo_sem_ok(2) _ tm(1) _ k1(1), of "[]"] by simp
  have run: "sem_run 0 (demo_sem 0, []) ([] @ [Take Blocked] @ [Release RT_EOK]) (k2, [1])"
    using sem_run.more [OF sem_run.more [OF sem_run.none r1] sem_step.release [OF k2(1)]] by simp
  have "sem_pend_ok 0 (demo_sem 0) []"
    using demo_sem_ok by (simp add: sem_pend_ok_def in_thread_context_def) (simp add: demo_sem_def)
  then have "unat (sem_value (sems k2 0)) + sem_in_hand k2 [1] = 1"
    using sem_conservation [OF run] by (simp add: z sem_in_hand_def)
  moreover have "sem_value (sems k2 0) = 0" using k1(4) k2(2) z by simp
  ultimately show ?thesis using run by (intro exI [of _ k2]) simp
qed

end
