(* ===== verification/Ipc_Mutex.thy ===== *)
theory Ipc_Mutex
  imports Ipc_Sem
begin

text \<open>
  Mutexes (\<open>src/ipc.c\<close>): ownership with a nesting count, priority inheritance through the list
  of the mutexes a thread has taken, and the priority ceiling. The lemmas cover ownership on
  every branch of take and release, inheritance and its end; three theorems at the end show
  where the code goes wrong: nested inheritance, a timeout that races with a release, and a
  waiting thread that is resumed from outside.
\<close>

subsection \<open>Operations\<close>

abbreviation upd_mutex :: "oid \<Rightarrow> (rt_mutex \<Rightarrow> rt_mutex) \<Rightarrow> kernel \<Rightarrow> kernel" where
  "upd_mutex m f k \<equiv> k\<lparr>mutexes := (mutexes k)(m := f (mutexes k m))\<rparr>"

abbreviation (input) RT_MUTEX_HOLD_MAX :: u8 where "RT_MUTEX_HOLD_MAX \<equiv> 0xff"

text \<open>The priority of the first waiting thread, \<open>0xff\<close> when there is none.\<close>

definition mutex_update_priority :: "oid \<Rightarrow> kernel \<Rightarrow> u8 \<times> kernel" where
  "mutex_update_priority m k = (
     let p = (case tq k (QMutex m) of [] \<Rightarrow> 0xff | t # _ \<Rightarrow> th_current_priority (threads k t))
     in (p, upd_mutex m (mx_priority_update (\<lambda>_. p)) k))"

fun min_priority :: "(oid \<Rightarrow> rt_mutex) \<Rightarrow> u8 \<Rightarrow> oid list \<Rightarrow> u8" where
  "min_priority ms p [] = p"
| "min_priority ms p (m # rest) =
     min_priority ms (if mx_priority (ms m) < p then mx_priority (ms m) else p) rest"

definition thread_get_mutex_priority :: "tid \<Rightarrow> kernel \<Rightarrow> u8" where
  "thread_get_mutex_priority t k =
     min_priority (mutexes k) (th_init_priority (threads k t)) (taken_objects k t)"

text \<open>
  \<open>_thread_update_priority\<close> follows the chain of owners; \<open>pending_object\<close> only ever holds
  mutexes.
\<close>

partial_function (option) thread_update_priority ::
  "tid \<Rightarrow> u8 \<Rightarrow> int \<Rightarrow> kernel \<Rightarrow> kernel option" where
  "thread_update_priority t priority suspend_flag k = do {
     (_, k1) \<leftarrow> rt_thread_change_priority t priority k;
     (if stat_suspended (th_stat (threads k1 t)) then
        (case th_pending_object (threads k1 t) of
           None \<Rightarrow> Some k1
         | Some m \<Rightarrow>
            if mx_type (mutexes k1 m) = Class_Mutex then do {
              (ret, k2) \<leftarrow> ipc_list_suspend (QMutex m) t (mx_flag (mutexes k1 m)) suspend_flag
                (rt_list_remove t k1);
              (if ret \<noteq> RT_EOK then Some k2
               else do {
                 let k3 = snd (mutex_update_priority m k2);
                 owner \<leftarrow> mx_owner (mutexes k3 m);
                 let mutex_priority = thread_get_mutex_priority owner k3;
                 (if mutex_priority \<noteq> th_current_priority (threads k3 owner)
                  then thread_update_priority owner mutex_priority suspend_flag k3
                  else Some k3)
               })
            } else Some k1)
      else Some k1)
   }"

definition mutex_fresh :: "bool \<Rightarrow> rt_mutex \<Rightarrow> rt_mutex" where
  "mutex_fresh static mx = mx\<lparr>mx_type := Class_Mutex, mx_static := static, mx_owner := None,
     mx_priority := 0xff, mx_hold := 0, mx_ceiling_priority := 0xff,
     mx_flag := RT_IPC_FLAG_PRIO\<rparr>"

definition taken_remove :: "oid \<Rightarrow> kernel \<Rightarrow> kernel" where
  "taken_remove m k = k\<lparr>taken_objects := \<lambda>t. removeAll m (taken_objects k t)\<rparr>"

definition taken_insert :: "tid \<Rightarrow> oid \<Rightarrow> kernel \<Rightarrow> kernel" where
  "taken_insert t m k = k\<lparr>taken_objects := (taken_objects k)(t := m # taken_objects k t)\<rparr>"

definition rt_mutex_init :: "oid \<Rightarrow> kernel \<Rightarrow> (rt_err_t \<times> kernel) option" where
  "rt_mutex_init m k = do {
     k1 \<leftarrow> rt_object_init_check (mx_type (mutexes k m) = Class_Mutex) k;
     Some (RT_EOK, upd_mutex m (mutex_fresh True) (ipc_object_init (QMutex m) k1))
   }"

definition rt_mutex_create :: "oid option \<Rightarrow> kernel \<Rightarrow> (oid option \<times> kernel) option" where
  "rt_mutex_create alloc k = do {
     rt_debug_not_in_interrupt k;
     (case alloc of
        None \<Rightarrow> Some (None, k)
      | Some m \<Rightarrow> Some (Some m, upd_mutex m (mutex_fresh False) (ipc_object_init (QMutex m) k)))
   }"

definition rt_mutex_detach :: "oid \<Rightarrow> kernel \<Rightarrow> (rt_err_t \<times> kernel) option" where
  "rt_mutex_detach m k = do {
     rt_assert (mx_type (mutexes k m) = Class_Mutex);
     rt_assert (mx_static (mutexes k m));
     k1 \<leftarrow> ipc_list_resume_all (QMutex m) k;
     Some (RT_EOK, upd_mutex m (\<lambda>mx. mx\<lparr>mx_type := Class_Null, mx_static := False\<rparr>)
       (taken_remove m k1))
   }"

definition rt_mutex_delete :: "oid \<Rightarrow> kernel \<Rightarrow> (rt_err_t \<times> kernel) option" where
  "rt_mutex_delete m k = do {
     rt_assert (mx_type (mutexes k m) = Class_Mutex);
     rt_assert (\<not> mx_static (mutexes k m));
     rt_debug_not_in_interrupt k;
     k1 \<leftarrow> ipc_list_resume_all (QMutex m) k;
     Some (RT_EOK, upd_mutex m (mx_type_update (\<lambda>_. Class_Null)) (taken_remove m k1))
   }"

text \<open>The update of the owner's priority when a thread stops waiting.\<close>

definition mutex_owner_update :: "oid \<Rightarrow> bool \<Rightarrow> kernel \<Rightarrow> kernel option" where
  "mutex_owner_update m need_update k =
     (if need_update then do {
        owner \<leftarrow> mx_owner (mutexes k m);
        let priority = thread_get_mutex_priority owner k;
        (if priority \<noteq> th_current_priority (threads k owner)
         then thread_update_priority owner priority RT_UNINTERRUPTIBLE k else Some k)
      } else Some k)"

definition rt_mutex_drop_thread :: "oid \<Rightarrow> tid \<Rightarrow> kernel \<Rightarrow> kernel option" where
  "rt_mutex_drop_thread m t k = do {
     let k1 = rt_list_remove t k;
     owner \<leftarrow> mx_owner (mutexes k1 m);
     let need_update = (th_current_priority (threads k1 owner) = th_current_priority (threads k1 t));
     mutex_owner_update m need_update (snd (mutex_update_priority m k1))
   }"

definition rt_mutex_setprioceiling :: "oid option \<Rightarrow> u8 \<Rightarrow> kernel \<Rightarrow> u8 \<times> kernel" where
  "rt_mutex_setprioceiling mutex priority k = (case mutex of
       Some m \<Rightarrow>
         if unat priority < RT_THREAD_PRIORITY_MAX
         then (mx_ceiling_priority (mutexes k m),
               upd_mutex m (mx_ceiling_priority_update (\<lambda>_. priority)) k)
         else (0xff, k)
     | None \<Rightarrow> (0xff, k))"

definition rt_mutex_getprioceiling :: "oid option \<Rightarrow> kernel \<Rightarrow> u8" where
  "rt_mutex_getprioceiling mutex k = (case mutex of
       Some m \<Rightarrow> mx_ceiling_priority (mutexes k m) | None \<Rightarrow> 0xff)"

text \<open>
  \<open>_rt_mutex_take\<close>: the branch of the thread that owns the mutex, of a free mutex and of a
  mutex owned by another thread.
\<close>

definition mutex_take_again :: "oid \<Rightarrow> kernel \<Rightarrow> outcome \<times> kernel" where
  "mutex_take_again m k =
     (if mx_hold (mutexes k m) < RT_MUTEX_HOLD_MAX
      then (Done RT_EOK, upd_mutex m (mx_hold_update (\<lambda>h. h + 1)) k)
      else (Done (- RT_EFULL), k))"

definition mutex_take_free :: "oid \<Rightarrow> tid \<Rightarrow> int \<Rightarrow> kernel \<Rightarrow> (outcome \<times> kernel) option" where
  "mutex_take_free m t suspend_flag k = do {
     let k1 = upd_mutex m (\<lambda>mx. mx\<lparr>mx_owner := Some t, mx_priority := 0xff, mx_hold := 1\<rparr>) k;
     let ceiling = mx_ceiling_priority (mutexes k1 m);
     k2 \<leftarrow> (if ceiling \<noteq> 0xff then
             (if ceiling < th_current_priority (threads k1 t)
              then thread_update_priority t ceiling suspend_flag k1 else Some k1)
           else Some (taken_insert t m k1));
     Some (Done RT_EOK, k2)
   }"

definition mutex_inherit :: "oid \<Rightarrow> tid \<Rightarrow> u8 \<Rightarrow> kernel \<Rightarrow> kernel option" where
  "mutex_inherit m owner priority k =
     (if priority < mx_priority (mutexes k m) then
        (let k1 = upd_mutex m (mx_priority_update (\<lambda>_. priority)) k in
         if priority < th_current_priority (threads k1 owner)
         then thread_update_priority owner priority RT_UNINTERRUPTIBLE k1 else Some k1)
      else Some k)"

definition mutex_take_wait ::
  "oid \<Rightarrow> tid \<Rightarrow> tid \<Rightarrow> int \<Rightarrow> int \<Rightarrow> kernel \<Rightarrow> (outcome \<times> kernel) option" where
  "mutex_take_wait m t owner timeout suspend_flag k =
     (if timeout = 0
      then Some (Done (- RT_ETIMEOUT), upd_thread t (th_error_update (\<lambda>_. - RT_ETIMEOUT)) k)
      else do {
        let priority = th_current_priority (threads k t);
        (ret, k1) \<leftarrow> ipc_list_suspend (QMutex m) t (mx_flag (mutexes k m)) suspend_flag k;
        (if ret \<noteq> RT_EOK then Some (Done ret, k1)
         else do {
           let k2 = upd_thread t (th_pending_object_update (\<lambda>_. Some m)) k1;
           k3 \<leftarrow> mutex_inherit m owner priority k2;
           k4 \<leftarrow> wait_timer t timeout k3;
           k5 \<leftarrow> rt_schedule k4;
           Some (Blocked, k5)
         })
      })"

definition rt_mutex_take_flag :: "oid \<Rightarrow> int \<Rightarrow> int \<Rightarrow> kernel \<Rightarrow> (outcome \<times> kernel) option" where
  "rt_mutex_take_flag m timeout suspend_flag k = do {
     rt_debug_scheduler_available True k;
     rt_assert (mx_type (mutexes k m) = Class_Mutex);
     t \<leftarrow> rt_thread_self k;
     let k1 = upd_thread t (th_error_update (\<lambda>_. RT_EOK)) k;
     (case mx_owner (mutexes k1 m) of
        None \<Rightarrow> mutex_take_free m t suspend_flag k1
      | Some owner \<Rightarrow>
          if owner = t then Some (mutex_take_again m k1)
          else mutex_take_wait m t owner timeout suspend_flag k1)
   }"

text \<open>The rest of \<open>_rt_mutex_take\<close>, when the thread that waited runs again.\<close>

definition rt_mutex_take_resume :: "oid \<Rightarrow> tid \<Rightarrow> kernel \<Rightarrow> (rt_err_t \<times> kernel) option" where
  "rt_mutex_take_resume m t k =
     (if th_error (threads k t) = RT_EOK then Some (RT_EOK, k)
      else do {
        owner \<leftarrow> mx_owner (mutexes k m);
        let need_update = (th_current_priority (threads k owner) = th_current_priority (threads k t));
        k1 \<leftarrow> mutex_owner_update m need_update (snd (mutex_update_priority m k));
        Some (th_error (threads k1 t), k1)
      })"

definition rt_mutex_take :: "oid \<Rightarrow> int \<Rightarrow> kernel \<Rightarrow> (outcome \<times> kernel) option" where
  "rt_mutex_take m time k = rt_mutex_take_flag m time RT_UNINTERRUPTIBLE k"

definition rt_mutex_take_interruptible :: "oid \<Rightarrow> int \<Rightarrow> kernel \<Rightarrow> (outcome \<times> kernel) option" where
  "rt_mutex_take_interruptible m time k = rt_mutex_take_flag m time RT_INTERRUPTIBLE k"

definition rt_mutex_take_killable :: "oid \<Rightarrow> int \<Rightarrow> kernel \<Rightarrow> (outcome \<times> kernel) option" where
  "rt_mutex_take_killable m time k = rt_mutex_take_flag m time RT_KILLABLE k"

definition rt_mutex_trytake :: "oid \<Rightarrow> kernel \<Rightarrow> (outcome \<times> kernel) option" where
  "rt_mutex_trytake m k = rt_mutex_take m 0 k"

definition mutex_handover :: "oid \<Rightarrow> tid \<Rightarrow> kernel \<Rightarrow> kernel option" where
  "mutex_handover m next_thread k = do {
     let k1 = rt_list_remove next_thread k;
     let k2 = upd_mutex m (\<lambda>mx. mx\<lparr>mx_owner := Some next_thread, mx_hold := 1\<rparr>) k1;
     let k3 = upd_thread next_thread (th_pending_object_update (\<lambda>_. None))
       (taken_insert next_thread m k2);
     (_, k4) \<leftarrow> rt_thread_resume next_thread k3;
     Some (snd (mutex_update_priority m k4))
   }"

text \<open>
  The end of the outermost \<open>rt_mutex_release\<close>: the priority of the owner is restored, the mutex
  goes to the first waiting thread or becomes free.
\<close>

definition mutex_release_outermost :: "oid \<Rightarrow> tid \<Rightarrow> kernel \<Rightarrow> (rt_err_t \<times> kernel) option" where
  "mutex_release_outermost m t k = do {
     let restore = (mx_ceiling_priority (mutexes k m) \<noteq> 0xff
       \<or> th_current_priority (threads k t) = mx_priority (mutexes k m));
     (_, k1) \<leftarrow> (if restore
       then rt_thread_change_priority t (thread_get_mutex_priority t k) k
       else Some (RT_EOK, k));
     (need_schedule, k2) \<leftarrow> (case tq k1 (QMutex m) of
         next_thread # _ \<Rightarrow> do { k' \<leftarrow> mutex_handover m next_thread k1; Some (True, k') }
       | [] \<Rightarrow> Some (restore,
           upd_mutex m (\<lambda>mx. mx\<lparr>mx_owner := None, mx_priority := 0xff\<rparr>) k1));
     k3 \<leftarrow> (if need_schedule then rt_schedule k2 else Some k2);
     Some (RT_EOK, k3)
   }"

definition rt_mutex_release :: "oid \<Rightarrow> kernel \<Rightarrow> (rt_err_t \<times> kernel) option" where
  "rt_mutex_release m k = do {
     rt_assert (mx_type (mutexes k m) = Class_Mutex);
     rt_debug_in_thread_context k;
     t \<leftarrow> rt_thread_self k;
     (if mx_owner (mutexes k m) \<noteq> Some t
      then Some (- RT_ERROR, upd_thread t (th_error_update (\<lambda>_. - RT_ERROR)) k)
      else do {
        let k1 = upd_mutex m (mx_hold_update (\<lambda>h. h - 1)) k;
        (if mx_hold (mutexes k1 m) = 0 then mutex_release_outermost m t (taken_remove m k1)
         else Some (RT_EOK, k1))
      })
   }"

definition rt_mutex_control :: "oid \<Rightarrow> kernel \<Rightarrow> rt_err_t option" where
  "rt_mutex_control m k = do {
     rt_assert (mx_type (mutexes k m) = Class_Mutex);
     Some (- RT_ERROR)
   }"

subsection \<open>Changing a priority\<close>

lemma set_priority_sel [simp]:
  "tq (thread_set_priority t p k) = tq k"
  "rt_current_thread (thread_set_priority t p k) = rt_current_thread k"
  "threads (thread_set_priority t p k) = (threads k)(t := (threads k t)
     \<lparr>th_current_priority := p, th_number_mask := push_bit (unat p) 1\<rparr>)"
  by (simp_all add: thread_set_priority_def)

text \<open>The state after a change of priority, as far as the IPC objects see it.\<close>

definition prio_frame :: "tid \<Rightarrow> u8 \<Rightarrow> kernel \<Rightarrow> kernel \<Rightarrow> bool" where
  "prio_frame t p k k' \<longleftrightarrow>
     (\<exists>ths tqs g. k' = k\<lparr>threads := ths, tq := tqs, rt_thread_ready_priority_group := g\<rparr>)
   \<and> (\<forall>u. u \<noteq> t \<longrightarrow> threads k' u = threads k u)
   \<and> (\<exists>s. threads k' t = (threads k t)\<lparr>th_stat := s, th_current_priority := p,
         th_number_mask := push_bit (unat p) 1\<rparr>)
   \<and> (\<forall>q. (\<forall>r. q \<noteq> QReady r) \<longrightarrow> tq k' q = tq k q)"

lemma prio_frame_sel:
  assumes "prio_frame t p k k'"
  shows "taken_objects k' = taken_objects k" "rt_scheduler_lock_nest k' = rt_scheduler_lock_nest k"
    "rt_interrupt_nest k' = rt_interrupt_nest k" "rt_tick k' = rt_tick k"
    "rt_current_thread k' = rt_current_thread k" "timers k' = timers k"
    "timer_list k' = timer_list k" "timer_expired k' = timer_expired k"
    "sems k' = sems k" "mutexes k' = mutexes k" "events k' = events k"
    "mailboxes k' = mailboxes k" "msgqueues k' = msgqueues k"
    "th_current_priority (threads k' t) = p" "th_error (threads k' u) = th_error (threads k u)"
    "th_init_priority (threads k' u) = th_init_priority (threads k u)"
    "th_type (threads k' u) = th_type (threads k u)"
    "th_pending_object (threads k' u) = th_pending_object (threads k u)"
    "u \<noteq> t \<Longrightarrow> threads k' u = threads k u"
    "ipc_queue q \<Longrightarrow> tq k' q = tq k q"
proof -
  obtain ths tqs g where k': "k' = k\<lparr>threads := ths, tq := tqs, rt_thread_ready_priority_group := g\<rparr>"
    using assms unfolding prio_frame_def by blast
  obtain s where s: "threads k' t = (threads k t)\<lparr>th_stat := s, th_current_priority := p,
         th_number_mask := push_bit (unat p) 1\<rparr>"
    using assms unfolding prio_frame_def by blast
  have u: "threads k' u = threads k u" if "u \<noteq> t" for u
    using assms that unfolding prio_frame_def by blast
  show "taken_objects k' = taken_objects k" "rt_scheduler_lock_nest k' = rt_scheduler_lock_nest k"
    "rt_interrupt_nest k' = rt_interrupt_nest k" "rt_tick k' = rt_tick k"
    "rt_current_thread k' = rt_current_thread k" "timers k' = timers k"
    "timer_list k' = timer_list k" "timer_expired k' = timer_expired k"
    "sems k' = sems k" "mutexes k' = mutexes k" "events k' = events k"
    "mailboxes k' = mailboxes k" "msgqueues k' = msgqueues k"
    by (simp_all add: k')
  show "th_current_priority (threads k' t) = p" using s by simp
  show "th_error (threads k' u) = th_error (threads k u)"
    "th_init_priority (threads k' u) = th_init_priority (threads k u)"
    "th_type (threads k' u) = th_type (threads k u)"
    "th_pending_object (threads k' u) = th_pending_object (threads k u)"
    using s u by (cases "u = t"; simp)+
  show "u \<noteq> t \<Longrightarrow> threads k' u = threads k u" by (rule u)
  show "ipc_queue q \<Longrightarrow> tq k' q = tq k q"
    using assms ipc_queue_not_ready unfolding prio_frame_def by blast
qed

lemma clock_ok_cong:
  assumes "clock_ok k" "kernel_ok k'" "rt_current_thread k' = rt_current_thread k"
    "rt_tick k' = rt_tick k" "timers k' = timers k" "timer_list k' = timer_list k"
    "timer_expired k' = timer_expired k"
  shows "clock_ok k'"
  using assms by (simp add: clock_ok_def)

lemma change_priority_ready:
  assumes k: "kernel_ok k" and st: "thread_state k t = RT_THREAD_READY"
    and cur: "rt_current_thread k \<noteq> Some t" and p: "unat p < RT_THREAD_PRIORITY_MAX"
  obtains k' where "rt_thread_change_priority t p k = Some (RT_EOK, k')" "kernel_ok k'"
    "prio_frame t p k k'" "thread_state k' t = RT_THREAD_READY"
proof -
  have live: "live_state (th_stat (threads k t))" using st by (simp add: live_state_def)
  have ty: "th_type (threads k t) = Class_Thread" using live_okD [OF _ live] k by blast
  have "t \<notin> {}" "thread_state k t \<noteq> RT_THREAD_INIT" using st by auto
  then obtain k1 where k1: "rt_schedule_remove_thread t k = Some k1" "sched_okx (insert t {}) k1"
    "threads k1 = threads k" "tq k1 = (\<lambda>q. removeAll t (tq k q))"
    "rt_current_thread k1 = rt_current_thread k"
    using rt_schedule_remove_thread_okx [OF conjunct1 [OF k]] by blast
  have f1: "sched_frame k k1"
    using remove_frame(1) [OF only_ready_queuedI [OF conjunct1 [OF k]] k1(1)] st by blast
  let ?k2 = "thread_set_priority t p k1"
  have "sched_okx (insert t {}) ?k2"
    unfolding thread_set_priority_def by (subst sched_okx_upd_thread) (use k1(2) in simp_all)
  moreover have "prio_ok (threads ?k2 t)" using p by (simp add: prio_ok_def)
  ultimately obtain k3 where k3: "rt_schedule_insert_thread t ?k2 = Some k3" "sched_ok k3"
    by (rule rt_schedule_insert_thread_okx) simp
  have c3: "rt_current_thread ?k2 \<noteq> Some t" using cur k1(5) by simp
  have out: "threads k3 = (threads ?k2)(t := th_stat_update (set_stat RT_THREAD_READY) (threads ?k2 t))"
    "\<And>q. (\<And>r. q \<noteq> QReady r) \<Longrightarrow> tq k3 q = tq k1 q"
    "\<exists>ths tqs g. k3 = k1\<lparr>threads := ths, tq := tqs, rt_thread_ready_priority_group := g\<rparr>"
  proof -
    let ?r = "QReady (unat p)"
    let ?xs = "if stat_yield (th_stat (threads k t)) then tq k1 ?r @ [t] else t # tq k1 ?r"
    have k3': "k3 = k1\<lparr>threads := (threads ?k2)(t := th_stat_update (set_stat RT_THREAD_READY)
        (threads ?k2 t)), tq := (tq k1)(?r := ?xs),
        rt_thread_ready_priority_group := rt_thread_ready_priority_group k1 OR push_bit (unat p) 1\<rparr>"
      using k3(1) c3 k1(3) p
      by (auto simp: rt_schedule_insert_thread_def Let_def rt_list_insert_after_def
          rt_list_insert_before_def put_stat_def thread_set_priority_def split: if_splits)
    show "threads k3 = (threads ?k2)(t := th_stat_update (set_stat RT_THREAD_READY) (threads ?k2 t))"
      by (simp add: k3')
    show "\<And>q. (\<And>r. q \<noteq> QReady r) \<Longrightarrow> tq k3 q = tq k1 q" by (simp add: k3')
    show "\<exists>ths tqs g. k3 = k1\<lparr>threads := ths, tq := tqs, rt_thread_ready_priority_group := g\<rparr>"
      by (subst k3') blast
  qed
  have "k1 = k\<lparr>tq := tq k1, rt_thread_ready_priority_group := rt_thread_ready_priority_group k1\<rparr>"
    using k1(1) by (auto simp: rt_schedule_remove_thread_def rt_list_remove_def Let_def
        split: if_splits)
  then have k1': "\<exists>tqs g. k1 = k\<lparr>tq := tqs, rt_thread_ready_priority_group := g\<rparr>" by blast
  have fr: "prio_frame t p k k3"
    unfolding prio_frame_def
  proof (intro conjI)
    show "\<exists>ths tqs g. k3 = k\<lparr>threads := ths, tq := tqs, rt_thread_ready_priority_group := g\<rparr>"
    proof -
      obtain tqs g where e1: "k1 = k\<lparr>tq := tqs, rt_thread_ready_priority_group := g\<rparr>"
        using k1' by blast
      obtain ths tqs' g' where "k3 = k1\<lparr>threads := ths, tq := tqs', rt_thread_ready_priority_group := g'\<rparr>"
        using out(3) by blast
      then have "k3 = k\<lparr>threads := ths, tq := tqs', rt_thread_ready_priority_group := g'\<rparr>"
        by (simp add: e1)
      then show ?thesis by blast
    qed
    show "\<forall>u. u \<noteq> t \<longrightarrow> threads k3 u = threads k u" using out(1) k1(3) by simp
    show "\<exists>s. threads k3 t = (threads k t)\<lparr>th_stat := s, th_current_priority := p,
         th_number_mask := push_bit (unat p) 1\<rparr>"
      using out(1) k1(3) by (intro exI [of _ "set_stat RT_THREAD_READY (th_stat (threads k t))"]) simp
    show "\<forall>q. (\<forall>r. q \<noteq> QReady r) \<longrightarrow> tq k3 q = tq k q"
      using out(2) sched_frame_queue [OF f1] by simp
  qed
  note ps = prio_frame_sel [OF fr]
  have "timers_ok k3"
  proof (rule timers_ok_cong [OF _ _ _ _ _ conjunct2 [OF k]])
    show "timers k3 = timers k" "timer_list k3 = timer_list k" by (rule ps)+
    show "th_type (threads k3 u) = th_type (threads k u)" for u by (rule ps)
    show "live_state (th_stat (threads k u))" if "live_state (th_stat (threads k3 u))" for u
      using that live ps(19) by (cases "u = t") simp_all
    show "stat_suspended (th_stat (threads k3 u))" if "stat_suspended (th_stat (threads k u))" for u
      using that st ps(19) by (cases "u = t") (auto simp: stat_suspended_iff_base)
  qed
  with k3(2) have ok: "kernel_ok k3" by simp
  have "rt_thread_change_priority t p k = Some (RT_EOK, k3)"
    using ty st k1(1) k3(1) by (simp add: rt_thread_change_priority_def)
  moreover have "thread_state k3 t = RT_THREAD_READY" using out(1) by simp
  ultimately show ?thesis using that ok fr by blast
qed

lemma change_priority_other:
  assumes k: "kernel_ok k" and st: "thread_state k t \<noteq> RT_THREAD_READY"
    and live: "live_state (th_stat (threads k t))" and p: "unat p < RT_THREAD_PRIORITY_MAX"
  obtains k' where "rt_thread_change_priority t p k = Some (RT_EOK, k')" "kernel_ok k'"
    "prio_frame t p k k'" "th_stat (threads k' t) = th_stat (threads k t)"
proof -
  have ty: "th_type (threads k t) = Class_Thread" using live_okD [OF _ live] k by blast
  let ?k' = "thread_set_priority t p k"
  have nq: "t \<notin> set (tq k (QReady r))" for r
    using ready_queueD(2) [of "{}" k t r] k st by auto
  have qs: "queue_stat q (threads ?k' u) = queue_stat q (threads k u)" if "u \<in> set (tq k q)" for q u
    using that nq by (cases "u = t"; cases q) (auto simp: queue_stat_def)
  have tok: "thread_ok ?k' u" for u
  proof (cases "u = t")
    case True
    have "thread_ok k t" using k by (simp add: sched_okx_def)
    then show ?thesis using True st p by (simp add: thread_ok_def prio_ok_def)
  next
    case False
    then show ?thesis using k by (simp add: sched_okx_def thread_ok_def)
  qed
  have "group_ok ?k'" using k by (simp add: sched_okx_def group_ok_def thread_set_priority_def)
  then have "sched_ok ?k'"
    using k qs tok by (simp add: sched_okx_def del: set_priority_sel(3))
  moreover have "timers_ok ?k'"
    by (rule timers_ok_cong [OF _ _ _ _ _ conjunct2 [OF k]])
      (auto simp: thread_set_priority_def split: if_splits)
  moreover have "prio_frame t p k ?k'"
    unfolding prio_frame_def thread_set_priority_def
    by (intro conjI exI [of _ "th_stat (threads k t)"] exI [of _ "tq k"]
        exI [of _ "rt_thread_ready_priority_group k"]
        exI [of _ "(threads k)(t := (threads k t)\<lparr>th_current_priority := p,
          th_number_mask := push_bit (unat p) 1\<rparr>)"]) simp_all
  moreover have "rt_thread_change_priority t p k = Some (RT_EOK, ?k')"
    using ty st by (simp add: rt_thread_change_priority_def)
  moreover have "th_stat (threads ?k' t) = th_stat (threads k t)" by simp
  ultimately show ?thesis using that by blast
qed

text \<open>
  The change never fails for a live thread and a priority in range, and only its priority and
  its place in the ready queues change.
\<close>

lemma change_priority_spec:
  assumes k: "clock_ok k" and live: "live_state (th_stat (threads k t))"
    and p: "unat p < RT_THREAD_PRIORITY_MAX"
    and cur: "rt_current_thread k = Some t \<Longrightarrow> thread_state k t \<noteq> RT_THREAD_READY"
  obtains k' where "rt_thread_change_priority t p k = Some (RT_EOK, k')" "clock_ok k'"
    "prio_frame t p k k'" "thread_state k' t = thread_state k t"
proof (cases "thread_state k t = RT_THREAD_READY")
  case True
  then have "rt_current_thread k \<noteq> Some t" using cur by blast
  from change_priority_ready [OF clock_ok_kernel [OF k] True this p]
  obtain k' where k': "rt_thread_change_priority t p k = Some (RT_EOK, k')" "kernel_ok k'"
    "prio_frame t p k k'" "thread_state k' t = RT_THREAD_READY" by blast
  have "clock_ok k'"
    by (rule clock_ok_cong [OF k k'(2) prio_frame_sel(5,4,6,7,8) [OF k'(3)]])
  then show ?thesis using that k' True by simp
next
  case False
  from change_priority_other [OF clock_ok_kernel [OF k] this live p]
  obtain k' where k': "rt_thread_change_priority t p k = Some (RT_EOK, k')" "kernel_ok k'"
    "prio_frame t p k k'" "th_stat (threads k' t) = th_stat (threads k t)" by blast
  have "clock_ok k'"
    by (rule clock_ok_cong [OF k k'(2) prio_frame_sel(5,4,6,7,8) [OF k'(3)]])
  then show ?thesis using that k' by simp
qed

subsection \<open>Invariants of a mutex\<close>

text \<open>
  \<open>mutex_ok\<close> is the consistency of owner, nesting count, waiting list and the lists of taken
  mutexes, for a mutex without a ceiling. \<open>pi_ok\<close> is priority inheritance: the waiting threads
  are in the order of their priorities, the mutex has the priority of the first, and the owner
  runs at least at that priority.
\<close>

definition waiter_priority :: "kernel \<Rightarrow> oid \<Rightarrow> u8" where
  "waiter_priority k m =
     (case tq k (QMutex m) of [] \<Rightarrow> 0xff | t # _ \<Rightarrow> th_current_priority (threads k t))"

definition mutex_ok :: "kernel \<Rightarrow> oid \<Rightarrow> bool" where
  "mutex_ok k m \<longleftrightarrow> mx_type (mutexes k m) = Class_Mutex \<and> mx_flag (mutexes k m) = RT_IPC_FLAG_PRIO
     \<and> mx_ceiling_priority (mutexes k m) = 0xff
     \<and> (mx_owner (mutexes k m) = None \<longleftrightarrow> mx_hold (mutexes k m) = 0)
     \<and> (tq k (QMutex m) \<noteq> [] \<longrightarrow> mx_owner (mutexes k m) \<noteq> None)
     \<and> (\<forall>t. m \<in> set (taken_objects k t) \<longleftrightarrow> mx_owner (mutexes k m) = Some t)
     \<and> (\<forall>t. mx_owner (mutexes k m) = Some t \<longrightarrow> t \<notin> set (tq k (QMutex m))
          \<and> live_state (th_stat (threads k t)))
     \<and> (\<forall>t \<in> set (tq k (QMutex m)). th_error (threads k t) = RT_EOK)"

text \<open>
  The same for a mutex with or without a ceiling: one that was taken under a ceiling is in no list
  of taken mutexes until it is handed over.
\<close>

definition mutex_base_ok :: "kernel \<Rightarrow> oid \<Rightarrow> bool" where
  "mutex_base_ok k m \<longleftrightarrow> mx_type (mutexes k m) = Class_Mutex
     \<and> mx_flag (mutexes k m) = RT_IPC_FLAG_PRIO
     \<and> (mx_owner (mutexes k m) = None \<longleftrightarrow> mx_hold (mutexes k m) = 0)
     \<and> (tq k (QMutex m) \<noteq> [] \<longrightarrow> mx_owner (mutexes k m) \<noteq> None)
     \<and> (\<forall>t. m \<in> set (taken_objects k t) \<longrightarrow> mx_owner (mutexes k m) = Some t)
     \<and> (mx_ceiling_priority (mutexes k m) = 0xff
          \<longrightarrow> (\<forall>t. mx_owner (mutexes k m) = Some t \<longrightarrow> m \<in> set (taken_objects k t)))
     \<and> (\<forall>t. mx_owner (mutexes k m) = Some t \<longrightarrow> t \<notin> set (tq k (QMutex m))
          \<and> live_state (th_stat (threads k t)))
     \<and> (\<forall>t \<in> set (tq k (QMutex m)). th_error (threads k t) = RT_EOK)"

lemma mutex_ok_iff: "mutex_ok k m \<longleftrightarrow> mutex_base_ok k m \<and> mx_ceiling_priority (mutexes k m) = 0xff"
  unfolding mutex_ok_def mutex_base_ok_def by blast

lemma mutex_base_ok_cong:
  assumes "mutex_base_ok k m" "mutexes k' m = mutexes k m" "tq k' (QMutex m) = tq k (QMutex m)"
    "taken_objects k' = taken_objects k" "\<And>u. th_stat (threads k' u) = th_stat (threads k u)"
    "\<And>u. u \<in> set (tq k (QMutex m)) \<Longrightarrow> th_error (threads k' u) = th_error (threads k u)"
  shows "mutex_base_ok k' m"
proof -
  have "\<forall>t \<in> set (tq k (QMutex m)). th_error (threads k' t) = RT_EOK"
    using assms(1,6) unfolding mutex_base_ok_def by simp
  with assms(1) show ?thesis unfolding mutex_base_ok_def assms(2-5) by blast
qed

definition pi_ok :: "kernel \<Rightarrow> oid \<Rightarrow> bool" where
  "pi_ok k m \<longleftrightarrow>
     sorted (map (\<lambda>s. th_current_priority (threads k s)) (tq k (QMutex m)))
   \<and> mx_priority (mutexes k m) = waiter_priority k m
   \<and> (\<forall>t. mx_owner (mutexes k m) = Some t \<longrightarrow>
        th_current_priority (threads k t) \<le> mx_priority (mutexes k m))"

lemma min_priority_le: "min_priority ms p l \<le> p"
proof (induction l arbitrary: p)
  case Nil
  then show ?case by simp
next
  case (Cons m l)
  show ?case
  proof (cases "mx_priority (ms m) < p")
    case True
    with Cons [of "mx_priority (ms m)"] show ?thesis by simp
  next
    case False
    with Cons [of p] show ?thesis by simp
  qed
qed

lemma thread_get_mutex_priority_range:
  "unat (th_init_priority (threads k t)) < n \<Longrightarrow> unat (thread_get_mutex_priority t k) < n"
  using min_priority_le [of "mutexes k" "th_init_priority (threads k t)" "taken_objects k t"]
  by (simp add: thread_get_mutex_priority_def word_le_nat_alt)

subsection \<open>Taking a mutex\<close>

lemma mutex_take_spec:
  assumes k: "in_thread_context k t" and m: "mutex_ok k m"
    and now: "mx_owner (mutexes k m) = None \<or> mx_owner (mutexes k m) = Some t \<or> timeout = 0"
  shows "\<exists>e k'. rt_mutex_take m timeout k = Some (Done e, k') \<and> clock_ok k' \<and> mutex_ok k' m
    \<and> tq k' = tq k \<and> (\<forall>u. u \<noteq> t \<longrightarrow> threads k' u = threads k u)
    \<and> (case mx_owner (mutexes k m) of
         None \<Rightarrow> e = RT_EOK \<and> mx_owner (mutexes k' m) = Some t \<and> mx_hold (mutexes k' m) = 1
       | Some ow \<Rightarrow>
           if ow \<noteq> t then e = - RT_ETIMEOUT \<and> mutexes k' = mutexes k
           else if mx_hold (mutexes k m) = RT_MUTEX_HOLD_MAX
           then e = - RT_EFULL \<and> mutexes k' = mutexes k
           else e = RT_EOK \<and> mx_owner (mutexes k' m) = Some t
             \<and> unat (mx_hold (mutexes k' m)) = unat (mx_hold (mutexes k m)) + 1)"
proof -
  let ?k1 = "upd_thread t (th_error_update (\<lambda>_. RT_EOK)) k"
  have cur: "rt_current_thread k = Some t" "thread_state k t = RT_THREAD_RUNNING"
    using k by (simp_all add: in_thread_context_def)
  have c1: "clock_ok ?k1"
    by (rule clock_ok_upd_thread) (use k in \<open>simp_all add: in_thread_context_def\<close>)
  have live: "live_state (th_stat (threads k t))" using cur by (simp add: live_state_def)
  have tnq: "t \<notin> set (tq k (QMutex m))"
    using waiting_suspended [of k "QMutex m" t] cur k
    by (auto simp: in_thread_context_def clock_ok_def stat_suspended_iff_base)
  have take: "rt_mutex_take m timeout k = (case mx_owner (mutexes k m) of
      None \<Rightarrow> mutex_take_free m t RT_UNINTERRUPTIBLE ?k1
    | Some owner \<Rightarrow> if owner = t then Some (mutex_take_again m ?k1)
        else mutex_take_wait m t owner timeout RT_UNINTERRUPTIBLE ?k1)"
    using m cur in_thread_context_avail [OF k]
    by (simp add: rt_mutex_take_def rt_mutex_take_flag_def mutex_ok_def rt_thread_self_def
        Let_def)
  show ?thesis
  proof (cases "mx_owner (mutexes k m)")
    case None
    let ?k2 = "taken_insert t m (upd_mutex m
        (\<lambda>mx. mx\<lparr>mx_owner := Some t, mx_priority := 0xff, mx_hold := 1\<rparr>) ?k1)"
    have ql: "tq k (QMutex m) = []" using m None by (auto simp: mutex_ok_def)
    have "rt_mutex_take m timeout k = Some (Done RT_EOK, ?k2)"
      using take None m by (simp add: mutex_take_free_def mutex_ok_def)
    moreover have "clock_ok ?k2" using c1 by (simp add: taken_insert_def)
    moreover have "mutex_ok ?k2 m"
      using m None ql live by (auto simp: mutex_ok_def taken_insert_def)
    ultimately show ?thesis using None by (simp add: taken_insert_def)
  next
    case (Some ow)
    show ?thesis
    proof (cases "ow = t")
      case True
      let ?h = "mx_hold (mutexes k m)"
      have h: "?h < RT_MUTEX_HOLD_MAX \<longleftrightarrow> ?h \<noteq> RT_MUTEX_HOLD_MAX"
        using unsigned_less [of ?h, where ?'a = nat]
        by (auto simp: word_less_nat_alt word_unat_eq_iff)
      have up: "unat (?h + 1) = unat ?h + 1" "?h + 1 \<noteq> 0" if "?h \<noteq> RT_MUTEX_HOLD_MAX"
      proof -
        show u: "unat (?h + 1) = unat ?h + 1" using that h unat_inc [of ?h RT_MUTEX_HOLD_MAX] by simp
        show "?h + 1 \<noteq> 0" using u by auto
      qed
      show ?thesis
        using take Some True m c1 up h live
        by (cases "?h = RT_MUTEX_HOLD_MAX") (auto simp: mutex_take_again_def mutex_ok_def)
    next
      case False
      then have "timeout = 0" using now Some by simp
      have "clock_ok (upd_thread t (th_error_update (\<lambda>_. - RT_ETIMEOUT)) ?k1)"
        by (rule clock_ok_upd_thread [OF c1]) simp_all
      then show ?thesis
        using take Some False \<open>timeout = 0\<close> m tnq
        by (auto simp: mutex_take_wait_def mutex_ok_def)
    qed
  qed
qed

text \<open>
  What a running thread gets from \<open>rt_mutex_take\<close> without waiting: a free mutex
  becomes its own with nesting count 1; its own mutex is counted up, to \<open>RT_MUTEX_HOLD_MAX\<close> and
  then refused with \<open>-RT_EFULL\<close>; another thread's mutex is refused with \<open>-RT_ETIMEOUT\<close> when the
  timeout is 0. No other field of the mutex and no other thread changes.
\<close>

theorem mutex_take_correct:
  assumes k: "in_thread_context k t" and m: "mutex_ok k m"
    and now: "mx_owner (mutexes k m) = None \<or> mx_owner (mutexes k m) = Some t \<or> timeout = 0"
  shows "\<exists>e k'. rt_mutex_take m timeout k = Some (Done e, k') \<and> clock_ok k' \<and> mutex_ok k' m
    \<and> tq k' = tq k \<and> (\<forall>u. u \<noteq> t \<longrightarrow> threads k' u = threads k u)
    \<and> (case mx_owner (mutexes k m) of
         None \<Rightarrow> e = RT_EOK \<and> mx_owner (mutexes k' m) = Some t \<and> mx_hold (mutexes k' m) = 1
       | Some ow \<Rightarrow>
           if ow \<noteq> t then e = - RT_ETIMEOUT \<and> mutexes k' = mutexes k
           else if mx_hold (mutexes k m) = RT_MUTEX_HOLD_MAX
           then e = - RT_EFULL \<and> mutexes k' = mutexes k
           else e = RT_EOK \<and> mx_owner (mutexes k' m) = Some t
             \<and> unat (mx_hold (mutexes k' m)) = unat (mx_hold (mutexes k m)) + 1)"
  using assms by (rule mutex_take_spec)

lemma thread_update_priority_awake:
  assumes k: "clock_ok k" and st: "thread_state k ow = RT_THREAD_READY"
    and cur: "rt_current_thread k \<noteq> Some ow" and p: "unat p < RT_THREAD_PRIORITY_MAX"
  obtains k' where "thread_update_priority ow p f k = Some k'" "clock_ok k'"
    "prio_frame ow p k k'" "thread_state k' ow = RT_THREAD_READY"
proof -
  have live: "live_state (th_stat (threads k ow))" using st by (simp add: live_state_def)
  obtain k' where k': "rt_thread_change_priority ow p k = Some (RT_EOK, k')" "clock_ok k'"
    "prio_frame ow p k k'" "thread_state k' ow = thread_state k ow"
    by (rule change_priority_spec [OF k live p]) (use cur in auto)
  have "\<not> stat_suspended (th_stat (threads k' ow))"
    using k'(4) st by (simp add: stat_suspended_iff_base)
  then have "thread_update_priority ow p f k = Some k'"
    using k'(1) by (subst thread_update_priority.simps) simp
  then show ?thesis using that k' st by simp
qed

lemma mutex_inherit_spec:
  assumes k: "clock_ok k" and st: "thread_state k ow = RT_THREAD_READY"
    and cur: "rt_current_thread k \<noteq> Some ow" and p: "unat p < RT_THREAD_PRIORITY_MAX"
  obtains k' where "mutex_inherit m ow p k = Some k'" "clock_ok k'"
    "\<forall>u. u \<noteq> ow \<longrightarrow> threads k' u = threads k u" "thread_state k' ow = RT_THREAD_READY"
    "th_current_priority (threads k' ow) =
       (if p < mx_priority (mutexes k m) \<and> p < th_current_priority (threads k ow)
        then p else th_current_priority (threads k ow))"
    "mutexes k' = (mutexes k)(m := mx_priority_update (\<lambda>x. if p < x then p else x) (mutexes k m))"
    "taken_objects k' = taken_objects k" "\<forall>q. ipc_queue q \<longrightarrow> tq k' q = tq k q"
    "rt_current_thread k' = rt_current_thread k" "timer_list k' = timer_list k"
proof -
  let ?k1 = "upd_mutex m (mx_priority_update (\<lambda>_. p)) k"
  have c1: "clock_ok ?k1" using k by simp
  show ?thesis
  proof (cases "p < mx_priority (mutexes k m)")
    case False
    then have "mx_priority_update (\<lambda>x. if p < x then p else x) (mutexes k m) = mutexes k m"
      by (cases "mutexes k m") simp
    then have same: "mutexes k = (mutexes k)(m := mx_priority_update (\<lambda>x. if p < x then p else x)
        (mutexes k m))" by (simp only: fun_upd_triv)
    show ?thesis
      by (rule that [OF _ k _ st _ same]) (use False in \<open>simp_all add: mutex_inherit_def\<close>)
  next
    case lt: True
    have e: "mx_priority_update (\<lambda>x. if p < x then p else x) (mutexes k m)
        = (mutexes k m)\<lparr>mx_priority := p\<rparr>"
      using lt by (cases "mutexes k m") simp
    show ?thesis
    proof (cases "p < th_current_priority (threads k ow)")
      case False
      then show ?thesis using that [of ?k1] c1 st lt e by (simp add: mutex_inherit_def)
    next
      case True
      obtain k' where k': "thread_update_priority ow p RT_UNINTERRUPTIBLE ?k1 = Some k'"
        "clock_ok k'" "prio_frame ow p ?k1 k'" "thread_state k' ow = RT_THREAD_READY"
        by (rule thread_update_priority_awake [OF c1 _ _ p, of ow RT_UNINTERRUPTIBLE])
          (use st cur in simp_all)
      note f = prio_frame_sel [OF k'(3)]
      have "mutex_inherit m ow p k = Some k'"
        using lt True k'(1) by (simp add: mutex_inherit_def)
      then show ?thesis
        using that [of k'] k'(2,4) f lt True e by simp
    qed
  qed
qed

lemma mutex_block_spec:
  assumes k: "in_thread_context k t" and m: "mutex_ok k m" and pi: "pi_ok k m"
    and ow: "mx_owner (mutexes k m) = Some ow" "thread_state k ow = RT_THREAD_READY"
    and tm: "time_ok timeout" "timeout \<noteq> 0"
  shows "\<exists>k'. rt_mutex_take m timeout k = Some (Blocked, k') \<and> clock_ok k'
    \<and> mutex_ok k' m \<and> pi_ok k' m \<and> mx_owner (mutexes k' m) = Some ow
    \<and> mx_hold (mutexes k' m) = mx_hold (mutexes k m)
    \<and> stat_suspended (th_stat (threads k' t))
    \<and> set (tq k' (QMutex m)) = insert t (set (tq k (QMutex m)))
    \<and> (\<forall>w \<in> set (tq k' (QMutex m)).
         th_current_priority (threads k' ow) \<le> th_current_priority (threads k' w))"
proof -
  let ?k1 = "upd_thread t (th_error_update (\<lambda>_. RT_EOK)) k"
  let ?p = "th_current_priority (threads k t)"
  have cur: "rt_current_thread k = Some t" "thread_state k t = RT_THREAD_RUNNING"
    using k by (simp_all add: in_thread_context_def)
  have c1: "clock_ok ?k1"
    by (rule clock_ok_upd_thread) (use k in \<open>simp_all add: in_thread_context_def\<close>)
  have cur1: "rt_current_thread ?k1 = Some t" "thread_state ?k1 t = RT_THREAD_READY
      \<or> thread_state ?k1 t = RT_THREAD_RUNNING" using cur by simp_all
  have owt: "ow \<noteq> t" using ow cur by auto
  have p32: "unat ?p < 32"
  proof -
    have "thread_ok k t" using k by (simp add: in_thread_context_def clock_ok_def sched_okx_def)
    then show ?thesis using cur by (simp add: thread_ok_def prio_ok_def)
  qed
  obtain k2 s where k2: "ipc_list_suspend (QMutex m) t RT_IPC_FLAG_PRIO RT_UNINTERRUPTIBLE ?k1
      = Some (RT_EOK, k2)" "kernel_ok k2" "stat_suspended (th_stat (threads k2 t))"
    "threads k2 = (threads ?k1)(t := th_stat_update (set_stat s) (threads ?k1 t))"
    "tq k2 (QMutex m) = (if RT_IPC_FLAG_PRIO = RT_IPC_FLAG_FIFO then tq ?k1 (QMutex m) @ [t]
       else ipc_prio_insert (threads ?k1) t (tq ?k1 (QMutex m)))"
    "\<forall>r. r \<noteq> QMutex m \<longrightarrow> tq k2 r = removeAll t (tq ?k1 r)"
    "rt_current_thread k2 = Some t" "ipc_frame ?k1 k2"
    "timer_list k2 = removeAll (ThreadTimer t) (timer_list ?k1)"
    "timers k2 = (timers ?k1)(ThreadTimer t :=
       tm_flag_update (clear_flag RT_TIMER_FLAG_ACTIVATED) (timers ?k1 (ThreadTimer t)))"
    "set (timer_expired k2) \<subseteq> set (timer_expired ?k1)"
    by (rule ipc_list_suspend_spec [OF clock_ok_kernel [OF c1] cur1, of RT_UNINTERRUPTIBLE
          RT_IPC_FLAG_PRIO "QMutex m"]) simp_all
  note f2 = ipc_frame_sel [OF k2(8)]
  have c2: "clock_ok k2"
    by (rule clock_ok_frame_stop [OF c1 k2(2) _ _ k2(9-11)]) (use k2(7) cur f2 in simp_all)
  let ?k3 = "upd_thread t (th_pending_object_update (\<lambda>_. Some m)) k2"
  have c3: "clock_ok ?k3" by (rule clock_ok_upd_thread [OF c2]) simp_all
  have ow3: "thread_state ?k3 ow = RT_THREAD_READY" "rt_current_thread ?k3 \<noteq> Some ow"
    using ow owt k2(4,7) by simp_all
  obtain k4 where k4: "mutex_inherit m ow ?p ?k3 = Some k4" "clock_ok k4"
    "\<forall>u. u \<noteq> ow \<longrightarrow> threads k4 u = threads ?k3 u" "thread_state k4 ow = RT_THREAD_READY"
    "th_current_priority (threads k4 ow) =
       (if ?p < mx_priority (mutexes ?k3 m) \<and> ?p < th_current_priority (threads ?k3 ow)
        then ?p else th_current_priority (threads ?k3 ow))"
    "mutexes k4 = (mutexes ?k3)(m := mx_priority_update (\<lambda>x. if ?p < x then ?p else x) (mutexes ?k3 m))"
    "taken_objects k4 = taken_objects ?k3" "\<forall>q. ipc_queue q \<longrightarrow> tq k4 q = tq ?k3 q"
    "rt_current_thread k4 = rt_current_thread ?k3" "timer_list k4 = timer_list ?k3"
    by (rule mutex_inherit_spec [OF c3 ow3 p32])
  have sus4: "stat_suspended (th_stat (threads k4 t))" using k4(3) owt k2(3) by simp
  have ntl: "ThreadTimer t \<notin> set (timer_list k4)" using k4(10) k2(9) by simp
  obtain k5 where k5: "wait_timer t timeout k4 = Some k5" "clock_ok k5" "timer_frame k4 k5"
    "0 < timeout \<longrightarrow> ThreadTimer t \<in> set (timer_list k5)
       \<and> int (timer_key (timers k5) (rt_tick k5) (ThreadTimer t)) = timeout"
    "timeout \<le> 0 \<longrightarrow> k5 = k4"
    by (rule wait_timer_spec [OF k4(2) sus4 tm(1) ntl])
  note f5 = timer_frame_sel [OF k5(3)]
  have ok5: "sched_ok k5" "rt_current_thread k5 \<noteq> None"
    using k5(2) by (simp_all add: clock_ok_def)
  obtain k6 where k6: "rt_schedule k5 = Some k6" "sched_ok k6" "sched_frame k5 k6"
    "rt_current_thread k6 \<noteq> None"
    by (rule rt_schedule_returns [OF ok5])
  note f6 = sched_frame_sel [OF k6(3)] and t6 = sched_frame_thread [OF k6(3)]
  have run: "rt_mutex_take m timeout k = Some (Blocked, k6)"
    using m cur in_thread_context_avail [OF k] ow owt tm(2) k2(1) k4(1) k5(1) k6(1)
    by (simp add: rt_mutex_take_def rt_mutex_take_flag_def mutex_ok_def rt_thread_self_def
        mutex_take_wait_def)
  have q6: "tq k6 (QMutex m) = ipc_prio_insert (threads k) t (tq k (QMutex m))"
  proof -
    have "tq k6 (QMutex m) = ipc_prio_insert (threads ?k1) t (tq k (QMutex m))"
      using sched_frame_queue [OF k6(3), of "QMutex m"] f5(2) k4(8) k2(5) by simp
    then show ?thesis using ipc_prio_insert_cong [of "threads ?k1" "threads k"] by simp
  qed
  have own: "ow \<notin> set (tq k6 (QMutex m))" using m ow owt q6 by (simp add: mutex_ok_def)
  have mx6: "mutexes k6 m = mx_priority_update (\<lambda>x. if ?p < x then ?p else x) (mutexes k m)"
    using f6 f5 k4(6) f2 by simp
  have tk6: "taken_objects k6 = taken_objects k" using f6 f5 k4(7) f2 by simp
  have pr6: "th_current_priority (threads k6 u) = th_current_priority (threads k u)" if "u \<noteq> ow" for u
    using t6(1) f5(1) k4(3) k2(4) that by simp
  have prow: "th_current_priority (threads k6 ow) =
       (if ?p < mx_priority (mutexes k m) \<and> ?p < th_current_priority (threads k ow)
        then ?p else th_current_priority (threads k ow))"
    using t6(1) f5(1) k4(5) f2 k2(4) owt by simp
  have liveow: "live_state (th_stat (threads k6 ow))"
  proof -
    have "thread_state k5 ow = RT_THREAD_READY" using k4(4) f5(1) by simp
    then have "thread_state k6 ow = RT_THREAD_READY \<or> thread_state k6 ow = RT_THREAD_RUNNING"
      using k6(3) unfolding sched_frame_def by blast
    then show ?thesis by (auto simp: live_state_def)
  qed
  have err6: "th_error (threads k6 w) = RT_EOK" if "w \<in> set (tq k6 (QMutex m))" for w
  proof -
    have "w \<noteq> ow" using that own by metis
    then have "th_error (threads k6 w) = th_error (threads ?k1 w)"
      using t6(3) f5(1) k4(3) k2(4) by (cases "w = t") simp_all
    then show ?thesis using that q6 m by (cases "w = t") (auto simp: mutex_ok_def)
  qed
  have mok: "mutex_ok k6 m" using m ow mx6 tk6 own liveow err6 by (auto simp: mutex_ok_def)
  have wp: "waiter_priority k6 m = (if ?p < mx_priority (mutexes k m) then ?p
      else mx_priority (mutexes k m))"
  proof (cases "tq k (QMutex m)")
    case Nil
    have "?p < 0xff" using p32 by (simp add: word_less_nat_alt)
    then show ?thesis using Nil pi q6 pr6 owt by (simp add: waiter_priority_def pi_ok_def)
  next
    case (Cons w ws)
    then have "w \<noteq> ow" using m ow by (auto simp: mutex_ok_def)
    then show ?thesis using Cons pi q6 pr6 owt by (simp add: waiter_priority_def pi_ok_def)
  qed
  have srt: "sorted (map (\<lambda>s. th_current_priority (threads k6 s)) (tq k6 (QMutex m)))"
  proof -
    have "sorted (map (\<lambda>s. th_current_priority (threads k s)) (tq k6 (QMutex m)))"
      using pi unfolding q6 pi_ok_def by (intro ipc_prio_insert_sorted) blast
    moreover have "map (\<lambda>s. th_current_priority (threads k6 s)) (tq k6 (QMutex m))
        = map (\<lambda>s. th_current_priority (threads k s)) (tq k6 (QMutex m))"
      using pr6 own by (intro map_cong refl) metis
    ultimately show ?thesis by (simp only:)
  qed
  have low: "th_current_priority (threads k6 ow) \<le> mx_priority (mutexes k6 m)"
    using prow mx6 pi ow by (auto simp: pi_ok_def)
  have pok: "pi_ok k6 m"
    using srt low wp mx6 ow by (auto simp: pi_ok_def)
  have "th_current_priority (threads k6 ow) \<le> th_current_priority (threads k6 w)"
    if "w \<in> set (tq k6 (QMutex m))" for w
  proof -
    have "waiter_priority k6 m \<le> th_current_priority (threads k6 w)"
      using srt that by (cases "tq k6 (QMutex m)") (auto simp: waiter_priority_def)
    then show ?thesis using low pok by (simp add: pi_ok_def)
  qed
  moreover have "stat_suspended (th_stat (threads k6 t))"
    using sched_frame_suspended [OF k6(3), of t] sus4 f5(1) by simp
  ultimately show ?thesis
    using run clock_ok_schedule [OF k5(2) k6(1)] mok pok mx6 ow q6 by simp
qed

text \<open>
  C2 (priority inheritance). When a running thread waits for a mutex whose owner is ready, the
  call gives up the processor with the thread suspended in the list of the mutex, the owner and
  its count unchanged; afterwards the waiting threads are still in the order of their
  priorities, the mutex has the priority of the first of them, and the owner runs at least at
  the priority of every waiting thread.
\<close>

theorem mutex_priority_inheritance:
  assumes k: "in_thread_context k t" and m: "mutex_ok k m" and pi: "pi_ok k m"
    and ow: "mx_owner (mutexes k m) = Some ow" "thread_state k ow = RT_THREAD_READY"
    and tm: "time_ok timeout" "timeout \<noteq> 0"
  shows "\<exists>k'. rt_mutex_take m timeout k = Some (Blocked, k') \<and> clock_ok k'
    \<and> mutex_ok k' m \<and> pi_ok k' m \<and> mx_owner (mutexes k' m) = Some ow
    \<and> mx_hold (mutexes k' m) = mx_hold (mutexes k m)
    \<and> stat_suspended (th_stat (threads k' t))
    \<and> set (tq k' (QMutex m)) = insert t (set (tq k (QMutex m)))
    \<and> (\<forall>w \<in> set (tq k' (QMutex m)).
         th_current_priority (threads k' ow) \<le> th_current_priority (threads k' w))"
  using assms by (rule mutex_block_spec)

subsection \<open>Releasing a mutex\<close>

lemma min_priority_cong:
  "(\<And>x. x \<in> set l \<Longrightarrow> mx_priority (ms' x) = mx_priority (ms x))
    \<Longrightarrow> min_priority ms' p l = min_priority ms p l"
  by (induction l arbitrary: p) auto

lemma mutex_update_priority_snd [simp]:
  "snd (mutex_update_priority m k) = upd_mutex m (mx_priority_update (\<lambda>_. waiter_priority k m)) k"
  by (simp add: mutex_update_priority_def waiter_priority_def Let_def)

lemma waiter_priority_mutexes [simp]:
  "waiter_priority (k\<lparr>mutexes := ms\<rparr>) m = waiter_priority k m"
  by (simp add: waiter_priority_def split: list.split)

lemma pi_ok_cong:
  assumes "pi_ok k m" "\<And>u. th_current_priority (threads k' u) = th_current_priority (threads k u)"
    "tq k' (QMutex m) = tq k (QMutex m)" "mutexes k' m = mutexes k m"
  shows "pi_ok k' m"
proof -
  have "waiter_priority k' m = waiter_priority k m"
    by (simp add: waiter_priority_def assms(2,3) split: list.split)
  then show ?thesis using assms(1) unfolding pi_ok_def assms(2-4) by metis
qed

text \<open>Handing the mutex to the first waiting thread.\<close>

lemma mutex_handover_spec:
  assumes k: "clock_ok k" and q: "tq k (QMutex m) = n # ns"
  obtains k' s where "mutex_handover m n k = Some k'" "clock_ok k'"
    "s = RT_THREAD_READY \<or> s = RT_THREAD_RUNNING"
    "threads k' = (threads k)(n := th_stat_update (set_stat s)
       (th_pending_object_update (\<lambda>_. None) (threads k n)))"
    "tq k' (QMutex m) = ns"
    "mutexes k' = (mutexes k)(m := (mutexes k m)\<lparr>mx_owner := Some n, mx_hold := 1,
       mx_priority := waiter_priority k' m\<rparr>)"
    "taken_objects k' = (taken_objects k)(n := m # taken_objects k n)"
    "rt_current_thread k' = rt_current_thread k"
    "rt_scheduler_lock_nest k' = rt_scheduler_lock_nest k"
proof -
  let ?k1 = "rt_list_remove n k"
  have nin: "n \<in> set (tq k (QMutex m))" using q by simp
  have sus: "stat_suspended (th_stat (threads k n))"
    using waiting_suspended [of k "QMutex m" n] k nin by (simp add: clock_ok_def)
  note un = sched_okx_unlink_suspended [OF conjunct1 [OF clock_ok_kernel [OF k]] sus]
  have "thread_state k n \<noteq> RT_THREAD_READY" "thread_state k n \<noteq> RT_THREAD_RUNNING"
    using sus by (auto simp: stat_suspended_iff_base)
  then have "sched_ok ?k1" using sched_okx_leave [of n "{}" ?k1] un by simp
  moreover have "timers_ok ?k1"
    by (rule timers_ok_cong [OF _ _ _ _ _ conjunct2 [OF clock_ok_kernel [OF k]]])
      (simp_all add: rt_list_remove_def)
  ultimately have c1: "clock_ok ?k1"
    by (intro clock_ok_cong [OF k]) (simp_all add: rt_list_remove_def)
  let ?k2 = "upd_mutex m (\<lambda>mx. mx\<lparr>mx_owner := Some n, mx_hold := 1\<rparr>) ?k1"
  let ?k3 = "upd_thread n (th_pending_object_update (\<lambda>_. None)) (taken_insert n m ?k2)"
  have c2: "clock_ok (taken_insert n m ?k2)" using c1 by (simp add: taken_insert_def)
  have c3: "clock_ok ?k3" by (rule clock_ok_upd_thread [OF c2]) simp_all
  have sus3: "stat_suspended (th_stat (threads ?k3 n))" using sus by (simp add: taken_insert_def)
  obtain k4 s where k4: "rt_thread_resume n ?k3 = Some (RT_EOK, k4)" "kernel_ok k4"
    "s = RT_THREAD_READY \<or> s = RT_THREAD_RUNNING"
    "threads k4 = (threads ?k3)(n := th_stat_update (set_stat s) (threads ?k3 n))"
    "\<forall>q. (\<forall>p. q \<noteq> QReady p) \<longrightarrow> tq k4 q = removeAll n (tq ?k3 q)"
    "rt_current_thread k4 = rt_current_thread ?k3" "ipc_frame ?k3 k4"
    "timer_list k4 = removeAll (ThreadTimer n) (timer_list ?k3)"
    "timers k4 = (timers ?k3)(ThreadTimer n :=
       tm_flag_update (clear_flag RT_TIMER_FLAG_ACTIVATED) (timers ?k3 (ThreadTimer n)))"
    "set (timer_expired k4) \<subseteq> set (timer_expired ?k3)"
    by (rule resume_spec [OF clock_ok_kernel [OF c3] sus3])
  note f4 = ipc_frame_sel [OF k4(7)]
  have c4: "clock_ok k4"
    by (rule clock_ok_frame_stop [OF c3 k4(2,6) f4(4) k4(8-10)])
  have dist: "distinct (n # ns)"
    using k q unfolding clock_ok_def sched_okx_def queues_ok_def by metis
  have q4: "tq k4 (QMutex m) = ns"
    using k4(5) q dist by (simp add: taken_insert_def)
  let ?k5 = "upd_mutex m (mx_priority_update (\<lambda>_. waiter_priority k4 m)) k4"
  show ?thesis
  proof (rule that [of ?k5 s])
    show "mutex_handover m n k = Some ?k5"
      using k4(1) by (simp add: mutex_handover_def)
    show "clock_ok ?k5" using c4 by simp
    show "threads ?k5 = (threads k)(n := th_stat_update (set_stat s)
       (th_pending_object_update (\<lambda>_. None) (threads k n)))"
      using k4(4) by (simp add: taken_insert_def)
    show "tq ?k5 (QMutex m) = ns" using q4 by simp
    show "mutexes ?k5 = (mutexes k)(m := (mutexes k m)\<lparr>mx_owner := Some n, mx_hold := 1,
       mx_priority := waiter_priority ?k5 m\<rparr>)"
      using f4(8) by (simp add: taken_insert_def rt_list_remove_def)
    show "taken_objects ?k5 = (taken_objects k)(n := m # taken_objects k n)"
      using f4(1) by (simp add: taken_insert_def rt_list_remove_def)
    show "rt_current_thread ?k5 = rt_current_thread k"
      using k4(6) by (simp add: taken_insert_def)
    show "rt_scheduler_lock_nest ?k5 = rt_scheduler_lock_nest k"
      using f4(2) by (simp add: taken_insert_def rt_list_remove_def)
  qed (use k4(3) in auto)
qed

text \<open>The end of the outermost release, by the thread that owns the mutex.\<close>

text \<open>Whether the outermost release sets the priority of the owner anew.\<close>

definition gives_back :: "kernel \<Rightarrow> oid \<Rightarrow> tid \<Rightarrow> bool" where
  "gives_back k m t \<longleftrightarrow> mx_ceiling_priority (mutexes k m) \<noteq> 0xff
     \<or> th_current_priority (threads k t) = mx_priority (mutexes k m)"

lemma mutex_release_last:
  assumes k: "in_thread_context k t" and m: "mutex_base_ok k m"
    and pi: "tq k (QMutex m) \<noteq> [] \<Longrightarrow> pi_ok k m"
    and ip: "unat (th_init_priority (threads k t)) < RT_THREAD_PRIORITY_MAX"
    and ow: "mx_owner (mutexes k m) = Some t" and h: "mx_hold (mutexes k m) = 1"
  shows "\<exists>k'. rt_mutex_release m k = Some (RT_EOK, k') \<and> clock_ok k' \<and> mutex_base_ok k' m \<and> pi_ok k' m
    \<and> tq k' (QMutex m) = tl (tq k (QMutex m))
    \<and> mx_ceiling_priority (mutexes k' m) = mx_ceiling_priority (mutexes k m)
    \<and> th_current_priority (threads k' t) = (if gives_back k m t
         then thread_get_mutex_priority t k' else th_current_priority (threads k t))
    \<and> (gives_back k m t \<or> tq k (QMutex m) \<noteq> [] \<longrightarrow> runs_highest k')
    \<and> (case tq k (QMutex m) of
         [] \<Rightarrow> mx_owner (mutexes k' m) = None
           \<and> (\<forall>u. u \<noteq> t \<longrightarrow> th_error (threads k' u) = th_error (threads k u))
       | n # ns \<Rightarrow> mx_owner (mutexes k' m) = Some n \<and> mx_hold (mutexes k' m) = 1
           \<and> rt_mutex_take_resume m n k' = Some (RT_EOK, k')
           \<and> (thread_state k' n = RT_THREAD_READY \<or> thread_state k' n = RT_THREAD_RUNNING))"
proof -
  have cur: "rt_current_thread k = Some t" "thread_state k t = RT_THREAD_RUNNING" and ck: "clock_ok k"
    and lk: "rt_scheduler_lock_nest k = 0" and ctx: "rt_debug_in_thread_context k = Some ()"
    using k by (simp_all add: in_thread_context_def rt_debug_in_thread_context_def
        rt_debug_not_in_interrupt_def)
  have live: "live_state (th_stat (threads k t))" using cur by (simp add: live_state_def)
  let ?k2 = "taken_remove m (upd_mutex m (mx_hold_update (\<lambda>h. h - 1)) k)"
  have c2: "clock_ok ?k2" using ck by (simp add: taken_remove_def)
  let ?restore = "gives_back k m t"
  let ?gp = "thread_get_mutex_priority t ?k2"
  have gp: "unat ?gp < 32"
    using ip by (intro thread_get_mutex_priority_range) (simp add: taken_remove_def)
  have live2: "live_state (th_stat (threads ?k2 t))" using live by (simp add: taken_remove_def)
  have cur2: "thread_state ?k2 t \<noteq> RT_THREAD_READY" using cur by (simp add: taken_remove_def)
  have "\<exists>k3. (if ?restore then rt_thread_change_priority t ?gp ?k2 else Some (RT_EOK, ?k2))
        = Some (RT_EOK, k3) \<and> clock_ok k3 \<and> (\<forall>u. u \<noteq> t \<longrightarrow> threads k3 u = threads k u)
      \<and> thread_state k3 t = RT_THREAD_RUNNING \<and> mutexes k3 = mutexes ?k2
      \<and> taken_objects k3 = taken_objects ?k2 \<and> tq k3 (QMutex m) = tq k (QMutex m)
      \<and> rt_current_thread k3 = Some t \<and> th_current_priority (threads k3 t)
          = (if ?restore then ?gp else th_current_priority (threads k t))
      \<and> rt_scheduler_lock_nest k3 = 0
      \<and> th_init_priority (threads k3 t) = th_init_priority (threads k t)"
  proof (cases ?restore)
    case False
    then show ?thesis using c2 cur lk by (simp add: taken_remove_def)
  next
    case True
    obtain k3 where k3: "rt_thread_change_priority t ?gp ?k2 = Some (RT_EOK, k3)" "clock_ok k3"
      "prio_frame t ?gp ?k2 k3" "thread_state k3 t = thread_state ?k2 t"
      by (rule change_priority_spec [OF c2 live2 gp cur2])
    note f = prio_frame_sel [OF k3(3)]
    show ?thesis using True k3 f cur lk by (simp add: taken_remove_def)
  qed
  then obtain k3 where k3: "(if ?restore then rt_thread_change_priority t ?gp ?k2
        else Some (RT_EOK, ?k2)) = Some (RT_EOK, k3)" "clock_ok k3"
      "\<forall>u. u \<noteq> t \<longrightarrow> threads k3 u = threads k u"
      "thread_state k3 t = RT_THREAD_RUNNING" "mutexes k3 = mutexes ?k2"
      "taken_objects k3 = taken_objects ?k2" "tq k3 (QMutex m) = tq k (QMutex m)"
      "rt_current_thread k3 = Some t" "th_current_priority (threads k3 t)
        = (if ?restore then ?gp else th_current_priority (threads k t))"
      "rt_scheduler_lock_nest k3 = 0"
      "th_init_priority (threads k3 t) = th_init_priority (threads k t)" by blast
  have mnot: "m \<notin> set (taken_objects k3 u)" for u using k3(6) by (simp add: taken_remove_def)
  have tnq: "t \<notin> set (tq k (QMutex m))" using m ow by (simp add: mutex_base_ok_def)
  have gpk: "thread_get_mutex_priority t k' = ?gp"
    if "taken_objects k' t = taken_objects k3 t" "th_init_priority (threads k' t) = th_init_priority (threads k t)"
      "\<And>x. x \<noteq> m \<Longrightarrow> mutexes k' x = mutexes k3 x" for k'
  proof -
    have "min_priority (mutexes k') (th_init_priority (threads k t)) (taken_objects k3 t)
        = min_priority (mutexes k3) (th_init_priority (threads k t)) (taken_objects k3 t)"
      using that(3) mnot [of t] by (intro min_priority_cong) metis
    then show ?thesis using that k3(5,6)
      by (simp add: thread_get_mutex_priority_def taken_remove_def)
  qed
  have mtf: "mx_type (mutexes k m) = Class_Mutex" "mx_flag (mutexes k m) = RT_IPC_FLAG_PRIO"
    using m by (simp_all add: mutex_base_ok_def)
  have rel: "rt_mutex_release m k = mutex_release_outermost m t ?k2"
    using m ow h cur ctx by (simp add: rt_mutex_release_def mutex_base_ok_def rt_thread_self_def)
  have restore: "(mx_ceiling_priority (mutexes ?k2 m) \<noteq> 0xff
      \<or> th_current_priority (threads ?k2 t) = mx_priority (mutexes ?k2 m)) = ?restore"
    by (simp add: taken_remove_def gives_back_def)
  show ?thesis
  proof (cases "tq k (QMutex m)")
    case Nil
    let ?k4 = "upd_mutex m (\<lambda>mx. mx\<lparr>mx_owner := None, mx_priority := 0xff\<rparr>) k3"
    have c4: "clock_ok ?k4" using k3(2) by simp
    have "\<exists>k5. (if ?restore then rt_schedule ?k4 else Some ?k4) = Some k5 \<and> clock_ok k5
        \<and> sched_frame ?k4 k5 \<and> (?restore \<longrightarrow> runs_highest k5)"
    proof (cases ?restore)
      case True
      have ok4: "sched_ok ?k4" "rt_current_thread ?k4 \<noteq> None" using c4 by (simp_all add: clock_ok_def)
      obtain k5 where "rt_schedule ?k4 = Some k5" "sched_ok k5" "sched_frame ?k4 k5"
        "rt_current_thread k5 \<noteq> None"
        by (rule rt_schedule_returns [OF ok4])
      moreover have "runs_highest k5"
        using rt_schedule_total [of ?k4 t] ok4(1) k3(4,8,10) calculation(1) by simp
      ultimately show ?thesis using True clock_ok_schedule [OF c4] by auto
    next
      case False
      then show ?thesis using c4 by simp
    qed
    then obtain k5 where k5: "(if ?restore then rt_schedule ?k4 else Some ?k4) = Some k5"
      "clock_ok k5" "sched_frame ?k4 k5" "?restore \<longrightarrow> runs_highest k5" by blast
    note f5 = sched_frame_sel [OF k5(3)] and t5 = sched_frame_thread [OF k5(3)]
    have q5: "tq k5 (QMutex m) = []" using sched_frame_queue [OF k5(3)] k3(7) Nil by simp
    have "rt_mutex_release m k = Some (RT_EOK, k5)"
      unfolding rel mutex_release_outermost_def Let_def restore k3(1) using k3(7) k5(1) Nil by simp
    moreover have "mutex_base_ok k5 m"
      using m ow h q5 f5(13) f5(1) k3(5) mnot by (auto simp: mutex_base_ok_def taken_remove_def)
    moreover have "pi_ok k5 m" using q5 f5(13) by (simp add: pi_ok_def waiter_priority_def)
    moreover have "th_current_priority (threads k5 t) = (if ?restore
        then thread_get_mutex_priority t k5 else th_current_priority (threads k t))"
    proof -
      have "thread_get_mutex_priority t k5 = ?gp"
        using f5(1,13) t5 k3(11) by (intro gpk) simp_all
      then show "th_current_priority (threads k5 t) = (if ?restore
        then thread_get_mutex_priority t k5 else th_current_priority (threads k t))"
        using k3(9) t5(1) by simp
    qed
    ultimately show ?thesis using Nil q5 f5(13) k5(2,4) k3(3,5) t5(3) by (simp add: taken_remove_def)
  next
    case (Cons n ns)
    have q3: "tq k3 (QMutex m) = n # ns" using k3(7) Cons by simp
    have nt: "n \<noteq> t" using tnq Cons by auto
    obtain k4 s where k4: "mutex_handover m n k3 = Some k4" "clock_ok k4"
      "s = RT_THREAD_READY \<or> s = RT_THREAD_RUNNING"
      "threads k4 = (threads k3)(n := th_stat_update (set_stat s)
         (th_pending_object_update (\<lambda>_. None) (threads k3 n)))"
      "tq k4 (QMutex m) = ns"
      "mutexes k4 = (mutexes k3)(m := (mutexes k3 m)\<lparr>mx_owner := Some n, mx_hold := 1,
         mx_priority := waiter_priority k4 m\<rparr>)"
      "taken_objects k4 = (taken_objects k3)(n := m # taken_objects k3 n)"
      "rt_current_thread k4 = rt_current_thread k3"
      "rt_scheduler_lock_nest k4 = rt_scheduler_lock_nest k3"
      by (rule mutex_handover_spec [OF k3(2) q3])
    have ok4: "sched_ok k4" "rt_current_thread k4 \<noteq> None" using k4(2) by (simp_all add: clock_ok_def)
    obtain k5 where k5: "rt_schedule k4 = Some k5" "sched_ok k5" "sched_frame k4 k5"
      "rt_current_thread k5 \<noteq> None"
      by (rule rt_schedule_returns [OF ok4])
    note f5 = sched_frame_sel [OF k5(3)] and t5 = sched_frame_thread [OF k5(3)]
    have q5: "tq k5 (QMutex m) = ns" using sched_frame_queue [OF k5(3)] k4(5) by simp
    have st5: "thread_state k5 n = RT_THREAD_READY \<or> thread_state k5 n = RT_THREAD_RUNNING"
    proof -
      have "thread_state k4 n = RT_THREAD_READY \<or> thread_state k4 n = RT_THREAD_RUNNING"
        using k4(3,4) by auto
      then show ?thesis using k5(3) unfolding sched_frame_def by blast
    qed
    have mx5: "mx_owner (mutexes k5 m) = Some n" "mx_hold (mutexes k5 m) = 1"
      "mx_priority (mutexes k5 m) = waiter_priority k4 m"
      "mx_type (mutexes k5 m) = mx_type (mutexes k m)" "mx_flag (mutexes k5 m) = mx_flag (mutexes k m)"
      "mx_ceiling_priority (mutexes k5 m) = mx_ceiling_priority (mutexes k m)"
      using f5(13) k4(6) k3(5) by (simp_all add: taken_remove_def)
    have tk5: "taken_objects k5 = (taken_objects k3)(n := m # taken_objects k3 n)"
      using f5(1) k4(7) by simp
    have dist: "distinct (n # ns)"
      using ck Cons unfolding clock_ok_def sched_okx_def queues_ok_def by metis
    have pr5: "th_current_priority (threads k5 u) = th_current_priority (threads k u)"
      "th_error (threads k5 u) = th_error (threads k u)" if "u \<in> set (n # ns)" for u
    proof -
      have "u \<noteq> t" using that tnq Cons by auto
      then have "threads k3 u = threads k u" using k3(3) by simp
      then show "th_current_priority (threads k5 u) = th_current_priority (threads k u)"
        "th_error (threads k5 u) = th_error (threads k u)"
        using t5(1,3) k4(4) by (cases "u = n"; simp)+
    qed
    have err: "th_error (threads k u) = RT_EOK" if "u \<in> set (n # ns)" for u
      using m that unfolding mutex_base_ok_def Cons by blast
    have wp5: "waiter_priority k5 m = waiter_priority k4 m"
      using q5 k4(5) t5(1) by (simp add: waiter_priority_def split: list.split)
    have srt: "sorted (map (\<lambda>s. th_current_priority (threads k s)) (n # ns))"
      using pi Cons by (simp add: pi_ok_def)
    have srt5: "sorted (map (\<lambda>s. th_current_priority (threads k5 s)) ns)"
    proof -
      have "map (\<lambda>s. th_current_priority (threads k5 s)) ns
          = map (\<lambda>s. th_current_priority (threads k s)) ns"
        using pr5(1) by (intro map_cong refl) simp
      moreover have "sorted (map (\<lambda>s. th_current_priority (threads k s)) ns)" using srt by simp
      ultimately show ?thesis by (simp only:)
    qed
    have le5: "th_current_priority (threads k5 n) \<le> waiter_priority k5 m"
    proof (cases ns)
      case Nil
      have "th_current_priority (threads k5 n) \<le> 255"
        using unsigned_less [of "th_current_priority (threads k5 n)" , where 'a = nat]
        by (simp add: word_le_nat_alt)
      then show ?thesis using q5 Nil by (simp add: waiter_priority_def)
    next
      case (Cons a as)
      then show ?thesis using srt q5 pr5(1) by (simp add: waiter_priority_def)
    qed
    have "rt_mutex_release m k = Some (RT_EOK, k5)"
      unfolding rel mutex_release_outermost_def Let_def restore k3(1) using q3 k4(1) k5(1) by simp
    moreover have "mutex_base_ok k5 m"
      unfolding mutex_base_ok_def
      using mx5 tk5 q5 mnot dist st5 pr5(2) err mtf
      by (auto simp: live_state_def)
    moreover have "pi_ok k5 m" using srt5 q5 mx5 wp5 le5 by (auto simp: pi_ok_def)
    moreover have "rt_mutex_take_resume m n k5 = Some (RT_EOK, k5)"
      using pr5(2) err by (simp add: rt_mutex_take_resume_def)
    moreover have "th_current_priority (threads k5 t) = (if ?restore
        then thread_get_mutex_priority t k5 else th_current_priority (threads k t))"
    proof -
      have "thread_get_mutex_priority t k5 = ?gp"
        using tk5 nt f5(13) k4(4,6) t5 k3(11) by (intro gpk) simp_all
      then show "th_current_priority (threads k5 t) = (if ?restore
        then thread_get_mutex_priority t k5 else th_current_priority (threads k t))"
        using k3(9) t5(1) k4(4) nt by simp
    qed
    moreover have "runs_highest k5"
    proof -
      have "thread_state k4 t = RT_THREAD_RUNNING" using k3(4) k4(4) nt by simp
      moreover have "rt_current_thread k4 = Some t" using k4(8) k3(8) by simp
      moreover have "rt_scheduler_lock_nest k4 = 0" using k4(9) k3(10) by simp
      ultimately show ?thesis using rt_schedule_total [OF ok4(1)] k5(1) by auto
    qed
    ultimately show ?thesis using Cons q5 mx5 st5 clock_ok_schedule [OF k4(2) k5(1)] by simp
  qed
qed

text \<open>
  C3 (mutex release). \<open>rt_mutex_release\<close>, of a mutex with or without a priority ceiling, by a
  thread that does not own it returns \<open>-RT_ERROR\<close> and changes no mutex. By the owner it returns
  \<open>RT_EOK\<close>: an inner release counts down; the outermost one makes the mutex free, or gives it
  with count 1 to the first waiting thread, whose \<open>rt_mutex_take\<close> then returns \<open>RT_EOK\<close>. When
  the mutex has a ceiling, or the thread runs at the priority that it inherited through the mutex,
  its priority becomes the highest of its own and those of the mutexes that it still holds in its
  list, and is not touched otherwise; in both these cases, and when the mutex is handed over, a
  thread of the highest ready priority runs afterwards. The invariants of ownership and of
  inheritance are kept.
\<close>

theorem mutex_release_correct:
  assumes k: "in_thread_context k t" and m: "mutex_base_ok k m"
    and pi: "pi_ok k m"
    and ip: "unat (th_init_priority (threads k t)) < RT_THREAD_PRIORITY_MAX"
  shows "\<exists>e k'. rt_mutex_release m k = Some (e, k') \<and> clock_ok k' \<and> mutex_base_ok k' m \<and> pi_ok k' m
    \<and> mx_ceiling_priority (mutexes k' m) = mx_ceiling_priority (mutexes k m)
    \<and> (if mx_owner (mutexes k m) \<noteq> Some t then e = - RT_ERROR \<and> mutexes k' = mutexes k
       else if mx_hold (mutexes k m) \<noteq> 1
       then e = RT_EOK \<and> mx_owner (mutexes k' m) = Some t
         \<and> unat (mx_hold (mutexes k' m)) + 1 = unat (mx_hold (mutexes k m))
       else e = RT_EOK \<and> tq k' (QMutex m) = tl (tq k (QMutex m))
         \<and> th_current_priority (threads k' t) =
              (if mx_ceiling_priority (mutexes k m) \<noteq> 0xff
                 \<or> th_current_priority (threads k t) = mx_priority (mutexes k m)
               then thread_get_mutex_priority t k' else th_current_priority (threads k t))
         \<and> (mx_ceiling_priority (mutexes k m) \<noteq> 0xff \<or> tq k (QMutex m) \<noteq> []
              \<or> th_current_priority (threads k t) = mx_priority (mutexes k m)
              \<longrightarrow> runs_highest k')
         \<and> (case tq k (QMutex m) of [] \<Rightarrow> mx_owner (mutexes k' m) = None
            | n # ns \<Rightarrow> mx_owner (mutexes k' m) = Some n \<and> mx_hold (mutexes k' m) = 1
                \<and> rt_mutex_take_resume m n k' = Some (RT_EOK, k')))"
proof -
  have cur: "rt_current_thread k = Some t" "thread_state k t = RT_THREAD_RUNNING"
    and ck: "clock_ok k" and ctx: "rt_debug_in_thread_context k = Some ()"
    using k by (simp_all add: in_thread_context_def rt_debug_in_thread_context_def
        rt_debug_not_in_interrupt_def)
  have tnq: "t \<notin> set (tq k (QMutex m))"
    using waiting_suspended [of k "QMutex m" t] cur ck
    by (auto simp: clock_ok_def stat_suspended_iff_base)
  consider (other) "mx_owner (mutexes k m) \<noteq> Some t"
    | (inner) "mx_owner (mutexes k m) = Some t" "mx_hold (mutexes k m) \<noteq> 1"
    | (last) "mx_owner (mutexes k m) = Some t" "mx_hold (mutexes k m) = 1" by blast
  then show ?thesis
  proof cases
    case other
    let ?k' = "upd_thread t (th_error_update (\<lambda>_. - RT_ERROR)) k"
    have c': "clock_ok ?k'" by (rule clock_ok_upd_thread [OF ck]) simp_all
    have run: "rt_mutex_release m k = Some (- RT_ERROR, ?k')"
      using m other cur ctx by (simp add: rt_mutex_release_def mutex_base_ok_def rt_thread_self_def)
    have "mutex_base_ok ?k' m"
      by (rule mutex_base_ok_cong [OF m]) (use tnq in auto)
    moreover have same: "th_current_priority (threads ?k' u) = th_current_priority (threads k u)" for u
      by (cases "u = t") simp_all
    have "pi_ok ?k' m" by (rule pi_ok_cong [OF pi]) (use same in simp_all)
    ultimately show ?thesis using other run c' by simp
  next
    case inner
    let ?h = "mx_hold (mutexes k m)"
    let ?k' = "upd_mutex m (mx_hold_update (\<lambda>h. h - 1)) k"
    have h0: "?h \<noteq> 0" using m inner by (auto simp: mutex_base_ok_def)
    have h: "?h - 1 \<noteq> 0" using inner(2) by simp
    have run: "rt_mutex_release m k = Some (RT_EOK, ?k')"
      using m inner cur ctx h by (simp add: rt_mutex_release_def mutex_base_ok_def rt_thread_self_def)
    have "mutex_base_ok ?k' m" using m inner h by (auto simp: mutex_base_ok_def)
    moreover have "pi_ok ?k' m"
    proof -
      have "waiter_priority ?k' m = waiter_priority k m" by (rule waiter_priority_mutexes)
      then show ?thesis using pi by (auto simp: pi_ok_def)
    qed
    ultimately show ?thesis using inner run ck unat_dec [OF h0] by simp
  next
    case last
    then show ?thesis
      using mutex_release_last [OF k m pi ip last] unfolding gives_back_def
      by (auto split: list.splits)
  qed
qed

subsection \<open>Where the code goes wrong\<close>

text \<open>
  \<open>_thread_update_priority\<close> moves a thread that itself waits for a
  mutex by suspending it again, but \<open>rt_thread_suspend_with_flag\<close> asserts that it is called for
  the current thread. When a running thread has to wait for a mutex whose owner is blocked on
  another mutex with a lower priority than the caller's, the inheritance fails this assertion
  and the system halts.
\<close>

theorem nested_inheritance_asserts:
  assumes k: "in_thread_context k t" and m: "mutex_ok k m"
    and ow: "mx_owner (mutexes k m) = Some ow" "stat_suspended (th_stat (threads k ow))"
    and pend: "th_pending_object (threads k ow) = Some m2" "mx_type (mutexes k m2) = Class_Mutex"
    and low: "th_current_priority (threads k t) < mx_priority (mutexes k m)"
      "th_current_priority (threads k t) < th_current_priority (threads k ow)"
    and tm: "timeout \<noteq> 0"
  shows "rt_mutex_take m timeout k = None"
proof -
  let ?k1 = "upd_thread t (th_error_update (\<lambda>_. RT_EOK)) k"
  let ?p = "th_current_priority (threads k t)"
  have cur: "rt_current_thread k = Some t" "thread_state k t = RT_THREAD_RUNNING"
    using k by (simp_all add: in_thread_context_def)
  have c1: "clock_ok ?k1"
    by (rule clock_ok_upd_thread) (use k in \<open>simp_all add: in_thread_context_def\<close>)
  have cur1: "rt_current_thread ?k1 = Some t" "thread_state ?k1 t = RT_THREAD_READY
      \<or> thread_state ?k1 t = RT_THREAD_RUNNING" using cur by simp_all
  have owt: "ow \<noteq> t" using ow cur by (auto simp: stat_suspended_iff_base)
  have p32: "unat ?p < 32"
  proof -
    have "thread_ok k t" using k by (simp add: in_thread_context_def clock_ok_def sched_okx_def)
    then show ?thesis using cur by (simp add: thread_ok_def prio_ok_def)
  qed
  obtain k2 s where k2: "ipc_list_suspend (QMutex m) t RT_IPC_FLAG_PRIO RT_UNINTERRUPTIBLE ?k1
      = Some (RT_EOK, k2)" "kernel_ok k2" "stat_suspended (th_stat (threads k2 t))"
    "threads k2 = (threads ?k1)(t := th_stat_update (set_stat s) (threads ?k1 t))"
    "tq k2 (QMutex m) = (if RT_IPC_FLAG_PRIO = RT_IPC_FLAG_FIFO then tq ?k1 (QMutex m) @ [t]
       else ipc_prio_insert (threads ?k1) t (tq ?k1 (QMutex m)))"
    "\<forall>r. r \<noteq> QMutex m \<longrightarrow> tq k2 r = removeAll t (tq ?k1 r)"
    "rt_current_thread k2 = Some t" "ipc_frame ?k1 k2"
    "timer_list k2 = removeAll (ThreadTimer t) (timer_list ?k1)"
    "timers k2 = (timers ?k1)(ThreadTimer t :=
       tm_flag_update (clear_flag RT_TIMER_FLAG_ACTIVATED) (timers ?k1 (ThreadTimer t)))"
    "set (timer_expired k2) \<subseteq> set (timer_expired ?k1)"
    by (rule ipc_list_suspend_spec [OF clock_ok_kernel [OF c1] cur1, of RT_UNINTERRUPTIBLE
          RT_IPC_FLAG_PRIO "QMutex m"]) simp_all
  note f2 = ipc_frame_sel [OF k2(8)]
  have c2: "clock_ok k2"
    by (rule clock_ok_frame_stop [OF c1 k2(2) _ _ k2(9-11)]) (use k2(7) cur f2 in simp_all)
  let ?k3 = "upd_mutex m (mx_priority_update (\<lambda>_. ?p))
    (upd_thread t (th_pending_object_update (\<lambda>_. Some m)) k2)"
  have "clock_ok (upd_thread t (th_pending_object_update (\<lambda>_. Some m)) k2)"
    by (rule clock_ok_upd_thread [OF c2]) simp_all
  then have c3: "clock_ok ?k3" by simp
  have ow3: "threads ?k3 ow = threads k ow" using owt k2(4) by simp
  have live3: "live_state (th_stat (threads ?k3 ow))" using ow(2) ow3 suspended_live by simp
  have nr3: "thread_state ?k3 ow \<noteq> RT_THREAD_READY"
    using ow(2) ow3 by (auto simp: stat_suspended_iff_base)
  obtain k4 where k4: "rt_thread_change_priority ow ?p ?k3 = Some (RT_EOK, k4)" "clock_ok k4"
    "prio_frame ow ?p ?k3 k4" "thread_state k4 ow = thread_state ?k3 ow"
    by (rule change_priority_spec [OF c3 live3 p32]) (use nr3 in auto)
  note f4 = prio_frame_sel [OF k4(3)]
  have "stat_suspended (th_stat (threads k4 ow))"
    using k4(4) ow(2) ow3 by (simp add: stat_suspended_iff_base)
  moreover have "th_pending_object (threads k4 ow) = Some m2" using f4(18) pend(1) ow3 by simp
  moreover have "mx_type (mutexes k4 m2) = Class_Mutex" using f4(10) f2(8) pend(2) by auto
  moreover have "ipc_list_suspend (QMutex m2) ow fl RT_UNINTERRUPTIBLE (rt_list_remove ow k4) = None"
    for fl
  proof -
    have "rt_current_thread k4 = Some t" using f4(5) k2(7) by simp
    then show ?thesis using owt
      by (simp add: ipc_list_suspend_def rt_thread_suspend_with_flag_def rt_thread_self_def
          rt_assert_def)
  qed
  ultimately have "thread_update_priority ow ?p RT_UNINTERRUPTIBLE ?k3 = None"
    using k4(1) by (subst thread_update_priority.simps) simp
  then have "mutex_inherit m ow ?p (upd_thread t (th_pending_object_update (\<lambda>_. Some m)) k2) = None"
    using low owt k2(4) f2(8) by (simp add: mutex_inherit_def)
  then show ?thesis
    using m cur in_thread_context_avail [OF k] ow owt tm k2(1)
    by (simp add: rt_mutex_take_def rt_mutex_take_flag_def mutex_ok_def rt_thread_self_def
        mutex_take_wait_def)
qed


text \<open>
  A thread that waits for a mutex alone can have its timeout expire
  and become ready while the owner keeps running. When the owner then releases the mutex, nobody
  is in its list and the owner field becomes NULL; the rest of \<open>rt_mutex_take\<close> in the waiting
  thread sees its timeout error and reads the priority of \<open>mutex->owner\<close>, a NULL pointer.
\<close>

theorem mutex_timeout_race:
  assumes k: "clock_ok k" and m: "mutex_ok k m" and w: "tq k (QMutex m) = [t]"
    and ow: "mx_owner (mutexes k m) = Some ow" "mx_hold (mutexes k m) = 1"
    and ntl: "ThreadTimer t \<notin> set (timer_list k)"
    and run: "thread_timeout t k = Some k1" "in_thread_context k1 ow"
    and live: "live_state (th_stat (threads k1 ow))"
    and ip: "unat (th_init_priority (threads k1 ow)) < RT_THREAD_PRIORITY_MAX"
  shows "\<exists>k2. rt_mutex_release m k1 = Some (RT_EOK, k2) \<and> mx_owner (mutexes k2 m) = None
     \<and> th_error (threads k1 t) = - RT_ETIMEOUT
     \<and> rt_mutex_take_resume m t k2 = None"
proof -
  have sus: "stat_suspended (th_stat (threads k t))"
    using waiting_suspended [of k "QMutex m" t] k w by (simp add: clock_ok_def)
  have cur: "rt_current_thread k \<noteq> None" using k by (simp add: clock_ok_def)
  obtain k' where k': "thread_timeout t k = Some k'" "ipc_frame k k'"
    "th_error (threads k' t) = - RT_ETIMEOUT"
    "\<And>q. (\<And>p. q \<noteq> QReady p) \<Longrightarrow> tq k' q = removeAll t (tq k q)"
    by (rule thread_timeout_spec [OF clock_ok_kernel [OF k] sus ntl cur]) blast
  note f = ipc_frame_sel [OF k'(2)]
  have eq: "k' = k1" using k'(1) run(1) by simp
  have q1: "tq k1 (QMutex m) = []" using k'(4) [of "QMutex m"] w eq by simp
  have m1: "mutex_ok k1 m"
    using m ow q1 f(1,8) live eq by (auto simp: mutex_ok_def)
  have "mx_owner (mutexes k1 m) = Some ow" "mx_hold (mutexes k1 m) = 1" using ow f(8) eq by simp_all
  from mutex_release_last [OF run(2) conjunct1 [OF m1 [unfolded mutex_ok_iff]] _ ip this] q1
  obtain k2 where k2: "rt_mutex_release m k1 = Some (RT_EOK, k2)" "mx_owner (mutexes k2 m) = None"
    "\<forall>u. u \<noteq> ow \<longrightarrow> th_error (threads k2 u) = th_error (threads k1 u)"
    by auto
  moreover have "t \<noteq> ow" using m ow w by (auto simp: mutex_ok_def)
  ultimately show ?thesis using k'(3) eq by (auto simp: rt_mutex_take_resume_def)
qed

text \<open>
  The error of a thread that waits for a mutex is \<open>RT_EOK\<close>, where the
  other objects use \<open>-RT_EINTR\<close>. A waiting thread that another one resumes with
  \<open>rt_thread_resume\<close> therefore returns \<open>RT_EOK\<close> from \<open>rt_mutex_take\<close>, as if it had the mutex,
  while the mutex still belongs to its owner.
\<close>

theorem mutex_spurious_success:
  assumes k: "in_thread_context k t" and m: "mutex_ok k m" and pi: "pi_ok k m"
    and ow: "mx_owner (mutexes k m) = Some ow" "thread_state k ow = RT_THREAD_READY"
    and tm: "time_ok timeout" "timeout \<noteq> 0"
  shows "\<exists>k1 k2. rt_mutex_take m timeout k = Some (Blocked, k1)
     \<and> rt_thread_resume t k1 = Some (RT_EOK, k2) \<and> rt_mutex_take_resume m t k2 = Some (RT_EOK, k2)
     \<and> mx_owner (mutexes k2 m) = Some ow \<and> ow \<noteq> t"
proof -
  obtain k1 where k1: "rt_mutex_take m timeout k = Some (Blocked, k1)" "clock_ok k1" "mutex_ok k1 m"
    "mx_owner (mutexes k1 m) = Some ow" "stat_suspended (th_stat (threads k1 t))"
    "set (tq k1 (QMutex m)) = insert t (set (tq k (QMutex m)))"
    using mutex_block_spec [OF assms] by blast
  have err: "th_error (threads k1 t) = RT_EOK" "ow \<noteq> t"
    using k1(3,4,6) by (auto simp: mutex_ok_def)
  obtain k2 s where k2: "rt_thread_resume t k1 = Some (RT_EOK, k2)"
    "threads k2 = (threads k1)(t := th_stat_update (set_stat s) (threads k1 t))" "ipc_frame k1 k2"
    by (rule resume_spec [OF clock_ok_kernel [OF k1(2)] k1(5)])
  then show ?thesis
    using k1(1,4) err ipc_frame_sel(8) [OF k2(3)] by (simp add: rt_mutex_take_resume_def)
qed


subsection \<open>A concrete kernel with mutexes\<close>

definition demo_mx :: "tid option \<Rightarrow> rt_mutex" where
  "demo_mx own = \<lparr>mx_type = Class_Mutex, mx_static = True, mx_flag = 1,
     mx_ceiling_priority = 0xff, mx_priority = 0xff, mx_hold = (if own = None then 0 else 1),
     mx_owner = own\<rparr>"

definition demo_mutex :: "tid option \<Rightarrow> kernel" where
  "demo_mutex own = demo_kernel\<lparr>taken_objects := (\<lambda>t. if own = Some t then [0] else []),
     mutexes := (mutexes demo_kernel)(0 := demo_mx own)\<rparr>"

lemma demo_mutex_ok:
  "in_thread_context (demo_mutex own) 1"
  "own \<in> {None, Some 1, Some 3} \<Longrightarrow> mutex_ok (demo_mutex own) 0"
  "own \<in> {None, Some 1, Some 3} \<Longrightarrow> pi_ok (demo_mutex own) 0"
proof -
  show "in_thread_context (demo_mutex own) 1"
    using demo_thread_context by (simp add: demo_mutex_def in_thread_context_def)
  show "own \<in> {None, Some 1, Some 3} \<Longrightarrow> mutex_ok (demo_mutex own) 0"
    by (auto simp: demo_mutex_def demo_mx_def mutex_ok_def live_state_def demo_thread_def
        thread_bss_def stat_base_def)
  show "own \<in> {None, Some 1, Some 3} \<Longrightarrow> pi_ok (demo_mutex own) 0"
    by (auto simp: demo_mutex_def demo_mx_def pi_ok_def waiter_priority_def demo_thread_def
        thread_bss_def)
qed

theorem mutex_take_correct_witness:
  "\<exists>k'. rt_mutex_take 0 0 (demo_mutex None) = Some (Done RT_EOK, k')
     \<and> mx_owner (mutexes k' 0) = Some 1 \<and> mx_hold (mutexes k' 0) = 1"
  using mutex_take_correct [OF demo_mutex_ok(1,2), of None 0]
  by (auto simp: demo_mutex_def demo_mx_def)

theorem mutex_priority_inheritance_witness:
  "\<exists>k'. rt_mutex_take 0 5 (demo_mutex (Some 3)) = Some (Blocked, k') \<and> pi_ok k' 0
     \<and> set (tq k' (QMutex 0)) = {1}"
  using mutex_priority_inheritance [OF demo_mutex_ok(1-3), of "Some 3" 3 5]
  by (auto simp: demo_mutex_def demo_mx_def time_ok_def demo_thread_def thread_bss_def stat_base_def)

text \<open>The mutex 0 with the ceiling 5, set after the running thread had taken the mutex.\<close>

definition demo_ceiling :: "kernel" where
  "demo_ceiling = demo_kernel\<lparr>mutexes := (mutexes demo_kernel)
     (0 := (demo_mx (Some 1))\<lparr>mx_ceiling_priority := 5\<rparr>)\<rparr>"

theorem mutex_release_correct_witness:
  "\<exists>k'. rt_mutex_release 0 demo_ceiling = Some (RT_EOK, k')
     \<and> mx_owner (mutexes k' 0) = None \<and> runs_highest k'
     \<and> th_current_priority (threads k' 1) = thread_get_mutex_priority 1 k'"
proof -
  have "in_thread_context demo_ceiling 1"
    using demo_thread_context by (simp add: demo_ceiling_def in_thread_context_def)
  moreover have "mutex_base_ok demo_ceiling 0"
    by (auto simp: demo_ceiling_def demo_mx_def mutex_base_ok_def live_state_def demo_thread_def
        thread_bss_def stat_base_def)
  moreover have "pi_ok demo_ceiling 0"
    by (auto simp: demo_ceiling_def demo_mx_def pi_ok_def waiter_priority_def demo_thread_def
        thread_bss_def)
  moreover have "unat (th_init_priority (threads demo_ceiling 1)) < RT_THREAD_PRIORITY_MAX"
    by (simp add: demo_ceiling_def demo_thread_def thread_bss_def)
  ultimately show ?thesis
    using mutex_release_correct [of demo_ceiling 1 0] by (auto simp: demo_ceiling_def demo_mx_def)
qed

theorem mutex_spurious_success_witness:
  "\<exists>k1 k2. rt_mutex_take 0 5 (demo_mutex (Some 3)) = Some (Blocked, k1)
     \<and> rt_thread_resume 1 k1 = Some (RT_EOK, k2) \<and> rt_mutex_take_resume 0 1 k2 = Some (RT_EOK, k2)
     \<and> mx_owner (mutexes k2 0) = Some 3"
  using mutex_spurious_success [OF demo_mutex_ok(1-3), of "Some 3" 3 5]
  by (auto simp: demo_mutex_def demo_mx_def time_ok_def demo_thread_def thread_bss_def stat_base_def)

text \<open>Thread 2, of a low priority, waits for the mutex \<open>w\<close>; \<open>own\<close> has the mutex 0.\<close>

definition demo_wait :: "tid \<Rightarrow> oid \<Rightarrow> u32 \<Rightarrow> kernel" where
  "demo_wait own w g = demo_kernel\<lparr>threads := (threads demo_kernel)(2 :=
       th_pending_object_update (\<lambda>_. Some w) (demo_thread 20 7)),
     tq := (tq demo_kernel)(QReady 5 := [], QMutex w := [2]),
     taken_objects := (\<lambda>t. if own = t then [0] else []),
     rt_thread_ready_priority_group := g,
     mutexes := (mutexes demo_kernel)(1 := demo_mx (Some 3), 0 := demo_mx (Some own))\<rparr>"

lemma demo_wait_clock:
  assumes "g = 1024"
  shows "clock_ok (demo_wait own w g)"
proof -
  have eq: "g = push_bit 10 1" using assms by simp
  have b: "bit g p \<longleftrightarrow> p = 10" for p unfolding eq bit_push_one_32 by auto
  have "sched_ok (demo_wait own w g)"
    unfolding sched_okx_def queues_ok_def thread_ok_def group_ok_def demo_wait_def
    by (simp add: b queue_stat_def demo_thread_def thread_bss_def prio_ok_def stat_base_def
        stat_suspended_def)
  moreover have "timers_ok (demo_wait own w g)"
    by (simp add: demo_wait_def timers_ok_def live_ok_def thread_timer_ok_def live_state_def
        demo_thread_def thread_bss_def stat_base_def has_flag_def)
  ultimately show ?thesis by (simp add: clock_ok_def timers_sorted_def demo_wait_def)
qed

lemma demo_wait_context:
  "in_thread_context (demo_wait own w 1024) 1"
  using demo_wait_clock [of 1024 own w]
  by (simp add: in_thread_context_def) (simp add: demo_wait_def demo_thread_def thread_bss_def stat_base_def)

theorem nested_inheritance_asserts_witness:
  "rt_mutex_take 0 5 (demo_wait 2 1 1024) = None"
proof -
  have "mutex_ok (demo_wait 2 1 1024) 0"
    by (auto simp: demo_wait_def demo_mx_def mutex_ok_def live_state_def demo_thread_def
        thread_bss_def stat_base_def)
  from nested_inheritance_asserts [OF demo_wait_context this, of 2 1 5] show ?thesis
    by (simp add: demo_wait_def demo_mx_def demo_thread_def thread_bss_def stat_suspended_def)
qed

lemma rt_ffs_witness: "i < 32 \<Longrightarrow> bit w i \<Longrightarrow> \<forall>j<i. \<not> bit w j \<Longrightarrow> rt_ffs w = Suc i"
proof -
  assume a: "i < 32" "bit w i" "\<forall>j<i. \<not> bit w j"
  have "[0..<32] = [0..<i] @ i # [Suc i..<32]"
    using a(1) by (metis less_imp_le_nat upt_add_eq_append upt_conv_Cons zero_le le_Suc_ex)
  moreover have "filter (bit w) [0..<i] = []" using a(3) by (auto simp: filter_empty_conv)
  ultimately show ?thesis using a(2) by (simp add: rt_ffs_def del: upt_rec_numeral)
qed

theorem mutex_timeout_race_witness:
  "\<exists>k1 k2. thread_timeout 2 (demo_wait 1 0 1024) = Some k1
     \<and> rt_mutex_release 0 k1 = Some (RT_EOK, k2) \<and> mx_owner (mutexes k2 0) = None
     \<and> rt_mutex_take_resume 0 2 k2 = None"
proof -
  define g :: u32 where "g = 1024"
  let ?k = "demo_wait 1 0 g"
  have ck: "clock_ok ?k" by (rule demo_wait_clock) (simp add: g_def)
  have m: "mutex_ok ?k 0"
    by (auto simp: demo_wait_def demo_mx_def mutex_ok_def live_state_def demo_thread_def
        thread_bss_def stat_base_def)
  have sus: "stat_suspended (th_stat (threads ?k 2))"
    by (simp add: demo_wait_def demo_thread_def stat_suspended_def)
  have ntl: "ThreadTimer 2 \<notin> set (timer_list ?k)" by (simp add: demo_wait_def)
  have cur: "rt_current_thread ?k \<noteq> None" by (simp add: demo_wait_def)
  obtain k1 where k1: "thread_timeout 2 ?k = Some k1" "kernel_ok k1" "ipc_frame ?k k1"
    "timers k1 = timers ?k" "timer_list k1 = timer_list ?k" "timer_expired k1 = timer_expired ?k"
    by (rule thread_timeout_spec [OF clock_ok_kernel [OF ck] sus ntl cur]) blast
  have eq: "g = push_bit 10 1" by (simp add: g_def)
  have ffs: "rt_ffs (g OR push_bit 20 1) = Suc 10"
    by (rule rt_ffs_witness) (simp_all add: eq bit_or_iff bit_push_one_32 del: push_bit_of_1)
  have ne: "g OR push_bit 20 1 \<noteq> 0" using ffs rt_ffs_eq_0 [of "g OR push_bit 20 1"] by linarith
  have run: "rt_current_thread k1 = Some 1 \<and> thread_state k1 1 = RT_THREAD_RUNNING
     \<and> th_init_priority (threads k1 1) = 10 \<and> rt_scheduler_lock_nest k1 = 0 \<and> rt_interrupt_nest k1 = 0"
    using k1(1) ffs ne
    by (auto simp: thread_timeout_def rt_schedule_insert_thread_def rt_schedule_def demo_wait_def
        scheduler_get_highest_priority_thread_def schedule_choose_def rt_schedule_remove_thread_def
        rt_list_remove_def rt_list_insert_after_def rt_list_isempty_def put_stat_def set_stat_def
        demo_thread_def thread_bss_def stat_base_def stat_suspended_def Let_def stat_yield_def
        clear_yield_def)
  have "clock_ok k1"
    using clock_ok_cong [OF ck k1(2) _ _ k1(4-6)] run ipc_frame_sel(4) [OF k1(3)]
    by (simp add: demo_wait_def)
  then have ctx: "in_thread_context k1 1" using run by (simp add: in_thread_context_def)
  have "live_state (th_stat (threads k1 1))" using run by (simp add: live_state_def)
  from mutex_timeout_race [OF ck m _ _ _ ntl k1(1) ctx this] run
  show ?thesis using k1(1) by (auto simp: demo_wait_def demo_mx_def g_def)
qed

end
