(* ===== verification/Ipc_Event.thy ===== *)
theory Ipc_Event
  imports Ipc_Mutex
begin

text \<open>
  Event sets (\<open>src/ipc.c\<close>): 32 flags and the list of the threads that wait for all (AND) or some
  (OR) of a set of them, with or without clearing what they receive. The lemmas refine the loop
  of \<open>rt_event_send\<close> to a scan over the waiting threads and show that no thread is left waiting
  for events that have happened.
\<close>

subsection \<open>Operations\<close>

abbreviation (input) RT_EVENT_FLAG_AND :: u8 where "RT_EVENT_FLAG_AND \<equiv> 1"
abbreviation (input) RT_EVENT_FLAG_OR :: u8 where "RT_EVENT_FLAG_OR \<equiv> 2"
abbreviation (input) RT_EVENT_FLAG_CLEAR :: u8 where "RT_EVENT_FLAG_CLEAR \<equiv> 4"

abbreviation upd_event :: "oid \<Rightarrow> (rt_event \<Rightarrow> rt_event) \<Rightarrow> kernel \<Rightarrow> kernel" where
  "upd_event e f k \<equiv> k\<lparr>events := (events k)(e := f (events k e))\<rparr>"

definition rt_event_init :: "oid \<Rightarrow> u8 \<Rightarrow> kernel \<Rightarrow> (rt_err_t \<times> kernel) option" where
  "rt_event_init e flag k = do {
     rt_assert (flag = RT_IPC_FLAG_FIFO \<or> flag = RT_IPC_FLAG_PRIO);
     k1 \<leftarrow> rt_object_init_check (ev_type (events k e) = Class_Event) k;
     let k2 = upd_event e (\<lambda>ev. ev\<lparr>ev_type := Class_Event, ev_static := True, ev_flag := flag\<rparr>) k1;
     Some (RT_EOK, upd_event e (ev_set_update (\<lambda>_. 0)) (ipc_object_init (QEvent e) k2))
   }"

definition rt_event_detach :: "oid \<Rightarrow> kernel \<Rightarrow> (rt_err_t \<times> kernel) option" where
  "rt_event_detach e k = do {
     rt_assert (ev_type (events k e) = Class_Event);
     rt_assert (ev_static (events k e));
     k1 \<leftarrow> ipc_list_resume_all (QEvent e) k;
     Some (RT_EOK, upd_event e (\<lambda>ev. ev\<lparr>ev_type := Class_Null, ev_static := False\<rparr>) k1)
   }"

definition rt_event_create :: "oid option \<Rightarrow> u8 \<Rightarrow> kernel \<Rightarrow> (oid option \<times> kernel) option" where
  "rt_event_create alloc flag k = do {
     rt_assert (flag = RT_IPC_FLAG_FIFO \<or> flag = RT_IPC_FLAG_PRIO);
     rt_debug_not_in_interrupt k;
     (case alloc of
        None \<Rightarrow> Some (None, k)
      | Some e \<Rightarrow>
          (let k1 = upd_event e (\<lambda>ev. ev\<lparr>ev_type := Class_Event, ev_static := False,
                 ev_flag := flag\<rparr>) k
           in Some (Some e, upd_event e (ev_set_update (\<lambda>_. 0)) (ipc_object_init (QEvent e) k1))))
   }"

definition rt_event_delete :: "oid \<Rightarrow> kernel \<Rightarrow> (rt_err_t \<times> kernel) option" where
  "rt_event_delete e k = do {
     rt_assert (ev_type (events k e) = Class_Event);
     rt_assert (\<not> ev_static (events k e));
     rt_debug_not_in_interrupt k;
     k1 \<leftarrow> ipc_list_resume_all (QEvent e) k;
     Some (RT_EOK, upd_event e (ev_type_update (\<lambda>_. Class_Null)) k1)
   }"

text \<open>
  One turn of the loop of \<open>rt_event_send\<close>: \<open>None\<close> when the thread's option has neither flag,
  \<open>Some None\<close> when the thread keeps waiting, else the new value of its \<open>event_set\<close>.
\<close>

definition event_status :: "rt_thread \<Rightarrow> u32 \<Rightarrow> u32 option option" where
  "event_status th es =
     (if has_flag RT_EVENT_FLAG_AND (th_event_info th) then
        (if th_event_set th AND es = th_event_set th then Some (Some (th_event_set th))
         else Some None)
      else if has_flag RT_EVENT_FLAG_OR (th_event_info th) then
        (if th_event_set th AND es \<noteq> 0 then Some (Some (th_event_set th AND es))
         else Some None)
      else None)"

definition event_wake :: "oid \<Rightarrow> tid \<Rightarrow> u32 \<Rightarrow> kernel \<Rightarrow> kernel option" where
  "event_wake e t got k = do {
     let k1 = upd_thread t (th_event_set_update (\<lambda>_. got)) k;
     let k2 = (if has_flag RT_EVENT_FLAG_CLEAR (th_event_info (threads k1 t))
               then upd_event e (ev_set_update (clear_flag got)) k1 else k1);
     (_, k3) \<leftarrow> rt_thread_resume t k2;
     Some (upd_thread t (th_error_update (\<lambda>_. RT_EOK)) k3)
   }"

fun event_send_loop ::
  "oid \<Rightarrow> tid list \<Rightarrow> bool \<Rightarrow> kernel \<Rightarrow> (rt_err_t \<times> bool \<times> kernel) option" where
  "event_send_loop e [] need_schedule k = Some (RT_EOK, need_schedule, k)"
| "event_send_loop e (t # n) need_schedule k =
     (case event_status (threads k t) (ev_set (events k e)) of
        None \<Rightarrow> Some (- RT_EINVAL, False, k)
      | Some None \<Rightarrow> event_send_loop e n need_schedule k
      | Some (Some got) \<Rightarrow> do {
          k1 \<leftarrow> event_wake e t got k;
          event_send_loop e n True k1
        })"

definition rt_event_send :: "oid \<Rightarrow> u32 \<Rightarrow> kernel \<Rightarrow> (rt_err_t \<times> kernel) option" where
  "rt_event_send e es k = do {
     rt_assert (ev_type (events k e) = Class_Event);
     (if es = 0 then Some (- RT_ERROR, k)
      else do {
        let k1 = upd_event e (ev_set_update (\<lambda>s. s OR es)) k;
        (ret, need_schedule, k2) \<leftarrow> event_send_loop e (tq k1 (QEvent e)) False k1;
        k3 \<leftarrow> (if need_schedule then rt_schedule k2 else Some k2);
        Some (ret, k3)
      })
   }"

definition event_recv_status :: "u8 \<Rightarrow> u32 \<Rightarrow> u32 \<Rightarrow> bool option" where
  "event_recv_status option es ev =
     (if has_flag RT_EVENT_FLAG_AND option then Some (ev AND es = es)
      else if has_flag RT_EVENT_FLAG_OR option then Some (ev AND es \<noteq> 0)
      else None)"

text \<open>
  \<open>_rt_event_recv\<close>: the value written to \<open>*recved\<close>, if any, is the second component. What the
  code does when the waiting thread runs again is \<open>rt_event_recv_resume\<close>.
\<close>

definition rt_event_recv_flag ::
  "oid \<Rightarrow> u32 \<Rightarrow> u8 \<Rightarrow> int \<Rightarrow> int \<Rightarrow> kernel \<Rightarrow> (outcome \<times> u32 option \<times> kernel) option" where
  "rt_event_recv_flag e es option timeout suspend_flag k = do {
     rt_assert (ev_type (events k e) = Class_Event);
     rt_debug_scheduler_available True k;
     (if es = 0 then Some (Done (- RT_ERROR), None, k)
      else do {
        t \<leftarrow> rt_thread_self k;
        let k1 = upd_thread t (th_error_update (\<lambda>_. - RT_EINTR)) k;
        let ev = ev_set (events k1 e);
        status \<leftarrow> event_recv_status option es ev;
        (if status then
           (let k2 = upd_thread t (\<lambda>th. th\<lparr>th_error := RT_EOK, th_event_set := ev AND es,
                  th_event_info := option\<rparr>) k1;
                k3 = (if has_flag RT_EVENT_FLAG_CLEAR option
                      then upd_event e (ev_set_update (clear_flag es)) k2 else k2)
            in Some (Done RT_EOK, Some (ev AND es), k3))
         else if timeout = 0
         then Some (Done (- RT_ETIMEOUT), None, upd_thread t (th_error_update (\<lambda>_. - RT_ETIMEOUT)) k1)
         else do {
           let k2 = upd_thread t (\<lambda>th. th\<lparr>th_event_set := es, th_event_info := option\<rparr>) k1;
           (ret, k3) \<leftarrow> ipc_block (QEvent e) t (ev_flag (events k2 e)) suspend_flag timeout k2;
           Some (if ret \<noteq> RT_EOK then (Done ret, None, k3) else (Blocked, None, k3))
         })
      })
   }"

definition rt_event_recv_resume :: "tid \<Rightarrow> kernel \<Rightarrow> rt_err_t \<times> u32 option" where
  "rt_event_recv_resume t k =
     (if th_error (threads k t) \<noteq> RT_EOK then (th_error (threads k t), None)
      else (th_error (threads k t), Some (th_event_set (threads k t))))"

definition rt_event_recv ::
  "oid \<Rightarrow> u32 \<Rightarrow> u8 \<Rightarrow> int \<Rightarrow> kernel \<Rightarrow> (outcome \<times> u32 option \<times> kernel) option" where
  "rt_event_recv e es option timeout k = rt_event_recv_flag e es option timeout RT_UNINTERRUPTIBLE k"

definition rt_event_recv_interruptible ::
  "oid \<Rightarrow> u32 \<Rightarrow> u8 \<Rightarrow> int \<Rightarrow> kernel \<Rightarrow> (outcome \<times> u32 option \<times> kernel) option" where
  "rt_event_recv_interruptible e es option timeout k =
     rt_event_recv_flag e es option timeout RT_INTERRUPTIBLE k"

definition rt_event_recv_killable ::
  "oid \<Rightarrow> u32 \<Rightarrow> u8 \<Rightarrow> int \<Rightarrow> kernel \<Rightarrow> (outcome \<times> u32 option \<times> kernel) option" where
  "rt_event_recv_killable e es option timeout k =
     rt_event_recv_flag e es option timeout RT_KILLABLE k"

text \<open>\<open>rt_event_control\<close> with \<open>RT_IPC_CMD_RESET\<close> (\<open>reset\<close>) or another command.\<close>

definition rt_event_control :: "oid \<Rightarrow> bool \<Rightarrow> kernel \<Rightarrow> (rt_err_t \<times> kernel) option" where
  "rt_event_control e reset k = do {
     rt_assert (ev_type (events k e) = Class_Event);
     (if reset then do {
        k1 \<leftarrow> ipc_list_resume_all (QEvent e) k;
        k2 \<leftarrow> rt_schedule (upd_event e (ev_set_update (\<lambda>_. 0)) k1);
        Some (RT_EOK, k2)
      } else Some (- RT_ERROR, k))
   }"

subsection \<open>The scan over the waiting threads\<close>

text \<open>
  The abstract course of \<open>rt_event_send\<close>: which threads are satisfied, in the order of the list,
  what each of them receives, and the flags left in the end.
\<close>

definition event_sat :: "u8 \<Rightarrow> u32 \<Rightarrow> u32 \<Rightarrow> bool" where
  "event_sat info wait es =
     (if has_flag RT_EVENT_FLAG_AND info then wait AND es = wait else wait AND es \<noteq> 0)"

definition event_opt_ok :: "u8 \<Rightarrow> bool" where
  "event_opt_ok info \<longleftrightarrow> has_flag RT_EVENT_FLAG_AND info \<or> has_flag RT_EVENT_FLAG_OR info"

fun event_scan :: "(tid \<Rightarrow> rt_thread) \<Rightarrow> tid list \<Rightarrow> u32 \<Rightarrow> (tid \<times> u32) list \<times> u32" where
  "event_scan ths [] es = ([], es)"
| "event_scan ths (t # ts) es =
     (let info = th_event_info (ths t); wait = th_event_set (ths t) in
      if event_sat info wait es
      then (let r = event_scan ths ts
              (if has_flag RT_EVENT_FLAG_CLEAR info then clear_flag (wait AND es) es else es)
            in ((t, wait AND es) # fst r, snd r))
      else event_scan ths ts es)"

lemma event_status_eq:
  "event_opt_ok (th_event_info th) \<Longrightarrow> event_status th es =
     Some (if event_sat (th_event_info th) (th_event_set th) es
           then Some (th_event_set th AND es) else None)"
  by (auto simp: event_status_def event_opt_ok_def event_sat_def)

lemma event_scan_cong:
  assumes "\<And>t. t \<in> set ts \<Longrightarrow> th_event_info (ths' t) = th_event_info (ths t)
     \<and> th_event_set (ths' t) = th_event_set (ths t)"
  shows "event_scan ths' ts s = event_scan ths ts s"
  using assms by (induction ts arbitrary: s) (simp_all add: Let_def)

lemma event_scan_woken: "fst ` set (fst (event_scan ths ts s)) \<subseteq> set ts"
  by (induction ts arbitrary: s) (auto simp: Let_def image_subset_iff)

lemma clear_flag_le: "clear_flag m f AND f = clear_flag m f"
  by (rule bit_word_eqI) (auto simp: clear_flag_def bit_simps)

lemma and_sub_trans:
  fixes a b c :: "'a::len word"
  assumes "a AND b = a" "b AND c = b"
  shows "a AND c = a"
proof -
  have "a AND c = (a AND b) AND c" using assms(1) by simp
  also have "\<dots> = a AND (b AND c)" by (simp only: and.assoc)
  also have "\<dots> = a" using assms by simp
  finally show ?thesis .
qed

lemma event_scan_le: "snd (event_scan ths ts s) AND s = snd (event_scan ths ts s)"
proof (induction ts arbitrary: s)
  case Nil
  then show ?case by simp
next
  case (Cons t ts)
  let ?c = "clear_flag (th_event_set (ths t) AND s) s"
  have "snd (event_scan ths ts ?c) AND s = snd (event_scan ths ts ?c)"
    by (rule and_sub_trans [OF Cons clear_flag_le])
  then show ?case using Cons [of s] by (simp add: Let_def)
qed

lemma event_sat_mono:
  assumes "s' AND s = s'" "event_sat info wait s'"
  shows "event_sat info wait s"
proof -
  have bits: "bit s n" if "bit s' n" for n
  proof -
    have "bit (s' AND s) n" using assms(1) that by simp
    then show ?thesis by (simp add: bit_simps)
  qed
  show ?thesis
  proof (cases "has_flag RT_EVENT_FLAG_AND info")
    case True
    have "bit (wait AND s') n = bit wait n" for n using assms(2) True by (simp add: event_sat_def)
    then have "wait AND s = wait" using bits by (intro bit_word_eqI) (auto simp: bit_simps)
    then show ?thesis using True by (simp add: event_sat_def)
  next
    case False
    then have "wait AND s' \<noteq> 0" using assms(2) by (simp add: event_sat_def)
    then obtain n where "bit (wait AND s') n" by (auto simp: bit_eq_iff)
    then have "bit (wait AND s) n" using bits by (simp add: bit_simps)
    then have "wait AND s \<noteq> 0" by auto
    then show ?thesis using False by (simp add: event_sat_def)
  qed
qed

lemma event_scan_waiting:
  assumes "t \<in> set ts" "t \<notin> fst ` set (fst (event_scan ths ts s))"
  shows "\<not> event_sat (th_event_info (ths t)) (th_event_set (ths t)) (snd (event_scan ths ts s))"
  using assms
proof (induction ts arbitrary: s)
  case Nil
  then show ?case by simp
next
  case (Cons a ts)
  show ?case
  proof (cases "event_sat (th_event_info (ths a)) (th_event_set (ths a)) s")
    case True
    then show ?thesis using Cons.prems Cons.IH by (auto simp: Let_def split: if_splits)
  next
    case False
    then show ?thesis
      using Cons event_sat_mono [OF event_scan_le [of ths ts s]] by (auto simp: Let_def)
  qed
qed


subsection \<open>Sending\<close>

lemma event_wake_spec:
  assumes k: "clock_ok k" and q: "t \<in> set (tq k (QEvent e))"
  obtains k' where "event_wake e t got k = Some k'" "clock_ok k'"
    "thread_state k' t = RT_THREAD_READY \<or> thread_state k' t = RT_THREAD_RUNNING"
    "th_error (threads k' t) = RT_EOK" "th_event_set (threads k' t) = got"
    "\<forall>u. u \<noteq> t \<longrightarrow> threads k' u = threads k u"
    "\<forall>r. ipc_queue r \<longrightarrow> tq k' r = removeAll t (tq k r)"
    "events k' = (events k)(e := ev_set_update (\<lambda>s.
       if has_flag RT_EVENT_FLAG_CLEAR (th_event_info (threads k t)) then clear_flag got s else s)
       (events k e))"
    "rt_current_thread k' = rt_current_thread k"
proof -
  let ?k1 = "upd_thread t (th_event_set_update (\<lambda>_. got)) k"
  let ?k2 = "if has_flag RT_EVENT_FLAG_CLEAR (th_event_info (threads ?k1 t))
             then upd_event e (ev_set_update (clear_flag got)) ?k1 else ?k1"
  have sus: "stat_suspended (th_stat (threads k t))"
    using waiting_suspended [of k "QEvent e" t] k q by (simp add: clock_ok_def)
  have "clock_ok ?k1" by (rule clock_ok_upd_thread [OF k]) simp_all
  then have c2: "clock_ok ?k2" by simp
  have sus2: "stat_suspended (th_stat (threads ?k2 t))" using sus by simp
  obtain k3 s where k3: "rt_thread_resume t ?k2 = Some (RT_EOK, k3)" "kernel_ok k3"
    "s = RT_THREAD_READY \<or> s = RT_THREAD_RUNNING"
    "threads k3 = (threads ?k2)(t := th_stat_update (set_stat s) (threads ?k2 t))"
    "\<forall>q. (\<forall>p. q \<noteq> QReady p) \<longrightarrow> tq k3 q = removeAll t (tq ?k2 q)"
    "rt_current_thread k3 = rt_current_thread ?k2" "ipc_frame ?k2 k3"
    "timer_list k3 = removeAll (ThreadTimer t) (timer_list ?k2)"
    "timers k3 = (timers ?k2)(ThreadTimer t :=
       tm_flag_update (clear_flag RT_TIMER_FLAG_ACTIVATED) (timers ?k2 (ThreadTimer t)))"
    "set (timer_expired k3) \<subseteq> set (timer_expired ?k2)"
    by (rule resume_spec [OF clock_ok_kernel [OF c2] sus2])
  note f3 = ipc_frame_sel [OF k3(7)]
  have c3: "clock_ok k3" by (rule clock_ok_frame_stop [OF c2 k3(2,6) f3(4) k3(8-10)])
  let ?k4 = "upd_thread t (th_error_update (\<lambda>_. RT_EOK)) k3"
  show ?thesis
  proof (rule that [of ?k4])
    show "event_wake e t got k = Some ?k4" using k3(1) by (simp add: event_wake_def)
    show "clock_ok ?k4" by (rule clock_ok_upd_thread [OF c3]) simp_all
    show "thread_state ?k4 t = RT_THREAD_READY \<or> thread_state ?k4 t = RT_THREAD_RUNNING"
      using k3(3,4) by auto
    show "\<forall>r. ipc_queue r \<longrightarrow> tq ?k4 r = removeAll t (tq k r)"
      using k3(5) ipc_queue_not_ready by simp
    show "events ?k4 = (events k)(e := ev_set_update (\<lambda>s.
       if has_flag RT_EVENT_FLAG_CLEAR (th_event_info (threads k t)) then clear_flag got s else s)
       (events k e))" using f3(9) by (cases "events k e") auto
  qed (use k3 in auto)
qed

text \<open>The state after the loop, in terms of the threads woken and the flags left.\<close>

definition event_woken ::
  "oid \<Rightarrow> kernel \<Rightarrow> (tid \<times> u32) list \<Rightarrow> u32 \<Rightarrow> kernel \<Rightarrow> bool" where
  "event_woken e k wk rest k' \<longleftrightarrow>
     (\<forall>(t, got) \<in> set wk. th_error (threads k' t) = RT_EOK \<and> th_event_set (threads k' t) = got
        \<and> (thread_state k' t = RT_THREAD_READY \<or> thread_state k' t = RT_THREAD_RUNNING))
   \<and> tq k' (QEvent e) = [t \<leftarrow> tq k (QEvent e). t \<notin> fst ` set wk]
   \<and> events k' = (events k)(e := ev_set_update (\<lambda>_. rest) (events k e))"

lemma event_send_loop_spec:
  assumes "clock_ok k" "distinct ts" "set ts \<subseteq> set (tq k (QEvent e))"
    "\<And>t. t \<in> set ts \<Longrightarrow> event_opt_ok (th_event_info (threads k t))"
  shows "\<exists>k'. event_send_loop e ts need k = Some (RT_EOK,
        need \<or> fst (event_scan (threads k) ts (ev_set (events k e))) \<noteq> [], k')
    \<and> clock_ok k' \<and> event_woken e k (fst (event_scan (threads k) ts (ev_set (events k e))))
        (snd (event_scan (threads k) ts (ev_set (events k e)))) k'
    \<and> (\<forall>u. u \<notin> set ts \<longrightarrow> threads k' u = threads k u)
    \<and> (\<forall>u. stat_suspended (th_stat (threads k' u)) \<longrightarrow> threads k' u = threads k u)"
  using assms
proof (induction ts arbitrary: k need)
  case Nil
  then show ?case by (auto simp: event_woken_def)
next
  case (Cons t ts)
  let ?th = "threads k t" and ?ev = "ev_set (events k e)"
  have opt: "event_opt_ok (th_event_info ?th)" using Cons.prems(4) by simp
  show ?case
  proof (cases "event_sat (th_event_info ?th) (th_event_set ?th) ?ev")
    case False
    from Cons.IH [of k need] Cons.prems show ?thesis
      by (auto simp: event_status_eq [OF opt] False Let_def)
  next
    case True
    let ?got = "th_event_set ?th AND ?ev"
    have tin: "t \<in> set (tq k (QEvent e))" using Cons.prems(3) by simp
    obtain k1 where k1: "event_wake e t ?got k = Some k1" "clock_ok k1"
      "thread_state k1 t = RT_THREAD_READY \<or> thread_state k1 t = RT_THREAD_RUNNING"
      "th_error (threads k1 t) = RT_EOK" "th_event_set (threads k1 t) = ?got"
      "\<forall>u. u \<noteq> t \<longrightarrow> threads k1 u = threads k u"
      "\<forall>r. ipc_queue r \<longrightarrow> tq k1 r = removeAll t (tq k r)"
      "events k1 = (events k)(e := ev_set_update (\<lambda>s.
         if has_flag RT_EVENT_FLAG_CLEAR (th_event_info ?th) then clear_flag ?got s else s)
         (events k e))"
      "rt_current_thread k1 = rt_current_thread k"
      by (rule event_wake_spec [OF Cons.prems(1) tin])
    let ?s = "ev_set (events k1 e)"
    have same: "threads k1 u = threads k u" if "u \<in> set ts" for u
      using k1(6) Cons.prems(2) that by auto
    have scan: "event_scan (threads k1) ts s = event_scan (threads k) ts s" for s
      by (rule event_scan_cong) (simp add: same)
    have "set ts \<subseteq> set (tq k1 (QEvent e))" using k1(7) Cons.prems(2,3) by auto
    moreover have "event_opt_ok (th_event_info (threads k1 u))" if "u \<in> set ts" for u
      using same [OF that] Cons.prems(4) that by simp
    ultimately obtain k2 where k2: "event_send_loop e ts True k1 = Some (RT_EOK, True, k2)"
      "clock_ok k2" "event_woken e k1 (fst (event_scan (threads k) ts ?s))
        (snd (event_scan (threads k) ts ?s)) k2"
      "\<forall>u. u \<notin> set ts \<longrightarrow> threads k2 u = threads k1 u"
      "\<forall>u. stat_suspended (th_stat (threads k2 u)) \<longrightarrow> threads k2 u = threads k1 u"
      using Cons.IH [of k1 True] k1(2) Cons.prems(2) unfolding scan by auto
    have st: "t \<notin> set ts" using Cons.prems(2) by simp
    have es: "event_scan (threads k) (t # ts) ?ev = ((t, ?got) # fst (event_scan (threads k) ts ?s),
        snd (event_scan (threads k) ts ?s))"
      using True k1(8) by (simp add: Let_def)
    have nsus: "\<not> stat_suspended (th_stat (threads k1 t))"
      using k1(3) by (auto simp: stat_suspended_iff_base)
    have "event_woken e k ((t, ?got) # fst (event_scan (threads k) ts ?s))
        (snd (event_scan (threads k) ts ?s)) k2"
      using k2(3) k2(4) k1 st unfolding event_woken_def
      by (auto simp: removeAll_filter_not_eq intro: filter_cong)
    moreover have "\<forall>u. stat_suspended (th_stat (threads k2 u)) \<longrightarrow> threads k2 u = threads k u"
    proof (intro allI impI)
      fix u assume u: "stat_suspended (th_stat (threads k2 u))"
      then have "threads k2 u = threads k1 u" using k2(5) by blast
      moreover from this u nsus have "u \<noteq> t" by auto
      ultimately show "threads k2 u = threads k u" using k1(6) by simp
    qed
    ultimately show ?thesis
      using k1(1,6) k2 st
      unfolding es by (auto simp: event_status_eq [OF opt] True)
  qed
qed

text \<open>
  The invariant of an event set: the options of the waiting threads are valid, and none of them
  is satisfied by the flags that are set.
\<close>

definition event_ok :: "kernel \<Rightarrow> oid \<Rightarrow> bool" where
  "event_ok k e \<longleftrightarrow> ev_type (events k e) = Class_Event
     \<and> (ev_flag (events k e) = RT_IPC_FLAG_FIFO \<or> ev_flag (events k e) = RT_IPC_FLAG_PRIO)
     \<and> (\<forall>t \<in> set (tq k (QEvent e)). event_opt_ok (th_event_info (threads k t))
          \<and> \<not> event_sat (th_event_info (threads k t)) (th_event_set (threads k t)) (ev_set (events k e)))"

text \<open>
  C7 (event send). \<open>rt_event_send\<close> with a non-zero set returns \<open>RT_EOK\<close>. It wakes exactly the
  threads the scan over the list finds satisfied, in the order of the list; what each of them
  then returns from \<open>rt_event_recv\<close> is \<open>RT_EOK\<close> with the flags the scan assigns to it. The other
  threads keep their places, the flags left are those of the scan, and none of the threads that
  still wait is satisfied by them: no wake-up is lost.
\<close>

theorem event_send_correct:
  assumes k: "clock_ok k" and e: "event_ok k e" and s: "set_flags \<noteq> 0"
    and scan: "event_scan (threads k) (tq k (QEvent e)) (ev_set (events k e) OR set_flags) = (wk, rest)"
  shows "\<exists>k'. rt_event_send e set_flags k = Some (RT_EOK, k') \<and> clock_ok k' \<and> event_ok k' e
    \<and> ev_set (events k' e) = rest
    \<and> tq k' (QEvent e) = [t \<leftarrow> tq k (QEvent e). t \<notin> fst ` set wk]
    \<and> (\<forall>(t, got) \<in> set wk. rt_event_recv_resume t k' = (RT_EOK, Some got)
         \<and> (thread_state k' t = RT_THREAD_READY \<or> thread_state k' t = RT_THREAD_RUNNING))"
proof -
  let ?k1 = "upd_event e (ev_set_update (\<lambda>s. s OR set_flags)) k"
  have c1: "clock_ok ?k1" using k by simp
  have dist: "distinct (tq ?k1 (QEvent e))"
    using k unfolding clock_ok_def sched_okx_def queues_ok_def by simp
  have opt: "event_opt_ok (th_event_info (threads ?k1 t))" if "t \<in> set (tq ?k1 (QEvent e))" for t
    using e that by (simp add: event_ok_def)
  obtain k2 where k2: "event_send_loop e (tq k (QEvent e)) False ?k1 = Some (RT_EOK, wk \<noteq> [], k2)"
    "clock_ok k2" "event_woken e ?k1 wk rest k2"
    "\<forall>u. stat_suspended (th_stat (threads k2 u)) \<longrightarrow> threads k2 u = threads k u"
    using event_send_loop_spec [OF c1 dist subset_refl opt, where need = False] scan by auto
  have ok2: "sched_ok k2" "rt_current_thread k2 \<noteq> None" using k2(2) by (simp_all add: clock_ok_def)
  obtain k3 where k3: "rt_schedule k2 = Some k3" "sched_frame k2 k3"
    by (rule rt_schedule_returns [OF ok2])
  define k' where "k' = (if wk \<noteq> [] then k3 else k2)"
  have f: "sched_frame k2 k'" using k3(2) sched_frame_refl by (simp add: k'_def)
  note fs = sched_frame_sel [OF f] and ft = sched_frame_thread [OF f]
  have run: "rt_event_send e set_flags k = Some (RT_EOK, k')"
    using e s k2(1) k3(1) by (simp add: rt_event_send_def event_ok_def k'_def)
  have c': "clock_ok k'" using k2(2) clock_ok_schedule [OF k2(2) k3(1)] by (simp add: k'_def)
  have q': "tq k' (QEvent e) = [t \<leftarrow> tq k (QEvent e). t \<notin> fst ` set wk]"
    using sched_frame_queue [OF f] k2(3) by (simp add: event_woken_def)
  have ev': "events k' e = ev_set_update (\<lambda>_. rest) (events k e)"
    using fs(14) k2(3) by (simp add: event_woken_def)
  have wt: "threads k' t = threads k t" if "t \<in> set (tq k' (QEvent e))" for t
  proof -
    have "stat_suspended (th_stat (threads k2 t))"
      using waiting_suspended [of k2 "QEvent e" t] that ok2 sched_frame_queue [OF f] by simp
    then show ?thesis using sched_frame_suspended [OF f] k2(4) by simp
  qed
  have "event_ok k' e"
    unfolding event_ok_def
  proof (intro conjI ballI)
    fix t assume t: "t \<in> set (tq k' (QEvent e))"
    then show "event_opt_ok (th_event_info (threads k' t))" using wt q' e by (simp add: event_ok_def)
    have "t \<in> set (tq k (QEvent e))" "t \<notin> fst ` set wk" using t q' by auto
    then have "\<not> event_sat (th_event_info (threads k t)) (th_event_set (threads k t)) rest"
      using event_scan_waiting [of t "tq k (QEvent e)" "threads k" "ev_set (events k e) OR set_flags"]
      unfolding scan by simp
    then show "\<not> event_sat (th_event_info (threads k' t)) (th_event_set (threads k' t))
        (ev_set (events k' e))"
      using wt [OF t] ev' by simp
  qed (use e ev' in \<open>simp_all add: event_ok_def\<close>)
  moreover have "\<forall>(t, got) \<in> set wk. rt_event_recv_resume t k' = (RT_EOK, Some got)
         \<and> (thread_state k' t = RT_THREAD_READY \<or> thread_state k' t = RT_THREAD_RUNNING)"
  proof (intro ballI, clarify)
    fix t got assume "(t, got) \<in> set wk"
    then have w: "th_error (threads k2 t) = RT_EOK" "th_event_set (threads k2 t) = got"
      "thread_state k2 t = RT_THREAD_READY \<or> thread_state k2 t = RT_THREAD_RUNNING"
      using k2(3) by (auto simp: event_woken_def)
    have "th_event_set (threads k' t) = got" using ft w(2) by simp
    moreover have "thread_state k' t = RT_THREAD_READY \<or> thread_state k' t = RT_THREAD_RUNNING"
      using f w(3) unfolding sched_frame_def by blast
    ultimately show "rt_event_recv_resume t k' = (RT_EOK, Some got)
        \<and> (thread_state k' t = RT_THREAD_READY \<or> thread_state k' t = RT_THREAD_RUNNING)"
      using ft(3) w(1) by (simp add: rt_event_recv_resume_def)
  qed
  ultimately show ?thesis using run c' q' ev' by auto
qed


subsection \<open>Receiving\<close>

lemma event_recv_status_eq:
  "event_opt_ok option \<Longrightarrow> event_recv_status option es ev = Some (event_sat option es ev)"
  by (auto simp: event_recv_status_def event_sat_def event_opt_ok_def and.commute)

lemma event_block_spec:
  assumes k: "in_thread_context k t" and e: "event_ok k e" and opt: "event_opt_ok option"
    and s: "es \<noteq> 0" and tm: "time_ok timeout" "timeout \<noteq> 0"
    and unsat: "\<not> event_sat option es (ev_set (events k e))"
  shows "\<exists>k'. rt_event_recv e es option timeout k = Some (Blocked, None, k') \<and> clock_ok k'
    \<and> event_ok k' e \<and> events k' = events k
    \<and> set (tq k' (QEvent e)) = insert t (set (tq k (QEvent e)))
    \<and> stat_suspended (th_stat (threads k' t))"
proof -
  let ?k1 = "upd_thread t (th_error_update (\<lambda>_. - RT_EINTR)) k"
  let ?k2 = "upd_thread t (\<lambda>th. th\<lparr>th_event_set := es, th_event_info := option\<rparr>) ?k1"
  have cur: "rt_current_thread ?k2 = Some t" "thread_state ?k2 t = RT_THREAD_RUNNING"
    using k by (simp_all add: in_thread_context_def)
  have c1: "clock_ok ?k1"
    by (rule clock_ok_upd_thread) (use k in \<open>simp_all add: in_thread_context_def\<close>)
  have c2: "clock_ok ?k2" by (rule clock_ok_upd_thread [OF c1]) simp_all
  have f: "RT_UNINTERRUPTIBLE = RT_INTERRUPTIBLE \<or> RT_UNINTERRUPTIBLE = RT_KILLABLE
    \<or> RT_UNINTERRUPTIBLE = RT_UNINTERRUPTIBLE" by simp
  have flag: "ev_flag (events ?k2 e) = RT_IPC_FLAG_FIFO \<or> ev_flag (events ?k2 e) = RT_IPC_FLAG_PRIO"
    using e by (simp add: event_ok_def)
  obtain k' where k': "ipc_block (QEvent e) t (ev_flag (events ?k2 e)) RT_UNINTERRUPTIBLE timeout ?k2
      = Some (RT_EOK, k')" "clock_ok k'" "stat_suspended (th_stat (threads k' t))"
    "tq k' (QEvent e) = (if ev_flag (events ?k2 e) = RT_IPC_FLAG_FIFO then tq ?k2 (QEvent e) @ [t]
       else ipc_prio_insert (threads ?k2) t (tq ?k2 (QEvent e)))"
    "\<forall>r. ipc_queue r \<longrightarrow> r \<noteq> QEvent e \<longrightarrow> tq k' r = tq ?k2 r"
    "ipc_frame ?k2 k'"
    "0 < timeout \<longrightarrow> ThreadTimer t \<in> set (timer_list k')
       \<and> int (timer_key (timers k') (rt_tick k') (ThreadTimer t)) = timeout"
    "stat_frame ?k2 k'"
    "\<forall>u. u \<noteq> t \<longrightarrow> stat_suspended (th_stat (threads ?k2 u)) \<longrightarrow> threads k' u = threads ?k2 u"
    by (rule ipc_block_spec [OF c2 cur tm(1) f flag ipc_queue_simps(3)])
  have ev: "events k' = events k" using ipc_frame_sel [OF k'(6)] by simp
  have q: "set (tq k' (QEvent e)) = insert t (set (tq k (QEvent e)))" using k'(4) by auto
  have "event_ok k' e"
    using e ev q opt unsat stat_frame_sel(3,4) [OF k'(8)] by (auto simp: event_ok_def)
  then show ?thesis
    using e s tm(2) k'(1-3) q ev in_thread_context_avail [OF k] k event_recv_status_eq [OF opt] unsat
    by (simp add: rt_event_recv_def rt_event_recv_flag_def event_ok_def rt_thread_self_def
        in_thread_context_def)
qed

text \<open>
  A running thread that asks for a non-empty set of flags with AND or OR
  gets \<open>RT_EOK\<close> and the flags of its set that are there when they satisfy it, the flags it asked
  for being cleared with CLEAR; with timeout 0 it is refused with \<open>-RT_ETIMEOUT\<close>, otherwise it
  is suspended in the list of the event set. In each case no thread is left waiting for flags
  that are there.
\<close>

theorem event_recv_correct:
  assumes k: "in_thread_context k t" and e: "event_ok k e" and opt: "event_opt_ok option"
    and s: "es \<noteq> 0" and tm: "time_ok timeout"
  shows "\<exists>out recved k'. rt_event_recv e es option timeout k = Some (out, recved, k')
    \<and> clock_ok k' \<and> event_ok k' e
    \<and> (if event_sat option es (ev_set (events k e))
       then out = Done RT_EOK \<and> recved = Some (ev_set (events k e) AND es) \<and> tq k' = tq k
         \<and> ev_set (events k' e) = (if has_flag RT_EVENT_FLAG_CLEAR option
              then clear_flag es (ev_set (events k e)) else ev_set (events k e))
       else events k' = events k \<and> recved = None
         \<and> (if timeout = 0 then out = Done (- RT_ETIMEOUT) \<and> tq k' = tq k
            else out = Blocked \<and> stat_suspended (th_stat (threads k' t))
              \<and> set (tq k' (QEvent e)) = insert t (set (tq k (QEvent e)))))"
proof (cases "event_sat option es (ev_set (events k e)) \<or> timeout = 0")
  case False
  then show ?thesis using event_block_spec [OF k e opt s tm] by auto
next
  case True
  let ?ev = "ev_set (events k e)"
  let ?k1 = "upd_thread t (th_error_update (\<lambda>_. - RT_EINTR)) k"
  let ?k2 = "upd_thread t (\<lambda>th. th\<lparr>th_error := RT_EOK, th_event_set := ?ev AND es,
                  th_event_info := option\<rparr>) ?k1"
  let ?k3 = "if has_flag RT_EVENT_FLAG_CLEAR option
                      then upd_event e (ev_set_update (clear_flag es)) ?k2 else ?k2"
  let ?k4 = "upd_thread t (th_error_update (\<lambda>_. - RT_ETIMEOUT)) ?k1"
  have c1: "clock_ok ?k1"
    by (rule clock_ok_upd_thread) (use k in \<open>simp_all add: in_thread_context_def\<close>)
  have c2: "clock_ok ?k2" by (rule clock_ok_upd_thread [OF c1]) simp_all
  have c4: "clock_ok ?k4" by (rule clock_ok_upd_thread [OF c1]) simp_all
  have run: "rt_event_recv e es option timeout k = (if event_sat option es ?ev
      then Some (Done RT_EOK, Some (?ev AND es), ?k3) else Some (Done (- RT_ETIMEOUT), None, ?k4))"
    using e s True in_thread_context_avail [OF k] k event_recv_status_eq [OF opt]
    by (auto simp: rt_event_recv_def rt_event_recv_flag_def event_ok_def rt_thread_self_def
        in_thread_context_def Let_def)
  have tn: "t \<notin> set (tq k (QEvent e))"
    using waiting_suspended [of k "QEvent e" t] k
    by (auto simp: in_thread_context_def clock_ok_def stat_suspended_iff_base)
  have ev3: "ev_set (events ?k3 e) AND ?ev = ev_set (events ?k3 e)"
    using clear_flag_le [of es ?ev] by simp
  have ok3: "event_ok ?k3 e"
    unfolding event_ok_def
  proof (intro conjI ballI)
    fix u assume "u \<in> set (tq ?k3 (QEvent e))"
    then have u: "u \<in> set (tq k (QEvent e))" by (simp split: if_splits)
    then have th: "threads ?k3 u = threads k u" using tn by auto
    show "event_opt_ok (th_event_info (threads ?k3 u))" using e u th by (simp add: event_ok_def)
    have "\<not> event_sat (th_event_info (threads k u)) (th_event_set (threads k u)) ?ev"
      using e u by (simp add: event_ok_def)
    then show "\<not> event_sat (th_event_info (threads ?k3 u)) (th_event_set (threads ?k3 u))
        (ev_set (events ?k3 e))"
      unfolding th using event_sat_mono [OF ev3] by blast
  qed (use e in \<open>simp_all add: event_ok_def\<close>)
  have ok4: "event_ok ?k4 e" using e tn by (auto simp: event_ok_def)
  have c3: "clock_ok ?k3" using c2 by simp
  define k3 k4 where "k3 = ?k3" and "k4 = ?k4"
  note d = k3_def [symmetric] k4_def [symmetric]
  have sel: "tq k3 = tq k" "tq k4 = tq k" "events k4 = events k"
    "ev_set (events k3 e) = (if has_flag RT_EVENT_FLAG_CLEAR option then clear_flag es ?ev else ?ev)"
    by (simp_all add: k3_def k4_def)
  note ok = ok3 [unfolded d] ok4 [unfolded d] c3 [unfolded d] c4 [unfolded d]
  show ?thesis
  proof (cases "event_sat option es ?ev")
    case sat: True
    show ?thesis unfolding run d using ok sel sat
      by (intro exI [of _ "Done RT_EOK"] exI [of _ "Some (?ev AND es)"] exI [of _ k3]) simp
  next
    case False
    with True have "timeout = 0" by blast
    with False show ?thesis unfolding run d using ok sel
      by (intro exI [of _ "Done (- RT_ETIMEOUT)"] exI [of _ None] exI [of _ k4]) simp
  qed
qed

theorem event_send_correct_witness:
  "\<exists>k'. rt_event_send 0 2 ((demo_blocked (QEvent 0) 1024
        (\<lambda>th. th\<lparr>th_event_set := 3, th_event_info := 5\<rparr>))
        \<lparr>events := (\<lambda>_. \<lparr>ev_type = Class_Event, ev_static = True, ev_flag = 0, ev_set = 9\<rparr>)\<rparr>)
        = Some (RT_EOK, k')
     \<and> ev_set (events k' 0) = 8 \<and> tq k' (QEvent 0) = []
     \<and> rt_event_recv_resume 2 k' = (RT_EOK, Some 3)"
proof -
  let ?k = "(demo_blocked (QEvent 0) 1024 (\<lambda>th. th\<lparr>th_event_set := 3, th_event_info := 5\<rparr>))
        \<lparr>events := (\<lambda>_. \<lparr>ev_type = Class_Event, ev_static = True, ev_flag = 0, ev_set = 9\<rparr>)\<rparr>"
  have "clock_ok ?k"
    using demo_blocked_context [of "\<lambda>th. th\<lparr>th_event_set := 3, th_event_info := 5\<rparr>" "QEvent 0" 1024]
    by (simp add: keeps_sched_def in_thread_context_def)
  moreover have "event_ok ?k 0"
    by (simp add: event_ok_def demo_blocked_def event_opt_ok_def event_sat_def has_flag_def)
  ultimately show ?thesis
    using event_send_correct [of ?k 0 2 "[(2, 3)]" 8]
    by (auto simp: demo_blocked_def event_sat_def has_flag_def clear_flag_def Let_def)
qed

theorem event_recv_correct_witness:
  "\<exists>k'. rt_event_recv 0 6 6 5 (demo_kernel\<lparr>events := (\<lambda>_.
        \<lparr>ev_type = Class_Event, ev_static = True, ev_flag = 1, ev_set = 5\<rparr>)\<rparr>)
        = Some (Done RT_EOK, Some 4, k') \<and> ev_set (events k' 0) = 1"
proof -
  let ?k = "demo_kernel\<lparr>events := (\<lambda>_. \<lparr>ev_type = Class_Event, ev_static = True, ev_flag = 1, ev_set = 5\<rparr>)\<rparr>"
  have "in_thread_context ?k 1" using demo_thread_context by (simp add: in_thread_context_def)
  moreover have "event_ok ?k 0" by (simp add: event_ok_def)
  ultimately show ?thesis
    using event_recv_correct [of ?k 1 0 6 6 5]
    by (auto simp: event_sat_def has_flag_def clear_flag_def event_opt_ok_def time_ok_def)
qed

end
