(* ===== verification/Fifo.thy ===== *)
theory Fifo
  imports Prelude
begin

text \<open>
  The contract of a bounded first-in first-out buffer, as the clients of mailboxes, message
  queues and ring buffers use it, with the facts that follow from it; and the contents of a
  circular buffer, a view on an array that those components share.
\<close>

subsection \<open>Sequences of operations\<close>

datatype 'a fifo_op = Put 'a | Get

text \<open>
  Runs a sequence of operations; \<open>None\<close> when one of them is refused. The result lists what the
  \<open>Get\<close> operations returned.
\<close>

fun fifo_run :: "('a \<Rightarrow> 's \<Rightarrow> 's option) \<Rightarrow> ('s \<Rightarrow> ('a \<times> 's) option) \<Rightarrow> 'a fifo_op list \<Rightarrow> 's
    \<Rightarrow> ('a list \<times> 's) option" where
  "fifo_run put get [] s = Some ([], s)"
| "fifo_run put get (Put x # ops) s = do { s1 \<leftarrow> put x s; fifo_run put get ops s1 }"
| "fifo_run put get (Get # ops) s = do {
     (x, s1) \<leftarrow> get s;
     (ys, s2) \<leftarrow> fifo_run put get ops s1;
     Some (x # ys, s2)
   }"

fun fifo_inputs :: "'a fifo_op list \<Rightarrow> 'a list" where
  "fifo_inputs [] = []"
| "fifo_inputs (Put x # ops) = x # fifo_inputs ops"
| "fifo_inputs (Get # ops) = fifo_inputs ops"

lemma fifo_inputs_append [simp]: "fifo_inputs (a @ b) = fifo_inputs a @ fifo_inputs b"
  by (induction a rule: fifo_inputs.induct) simp_all

lemma fifo_inputs_puts [simp]: "fifo_inputs (map Put xs) = xs"
  by (induction xs) simp_all

lemma fifo_inputs_gets [simp]: "fifo_inputs (replicate n Get) = []"
  by (induction n) simp_all

locale bounded_fifo =
  fixes wf :: "'s \<Rightarrow> bool" and cap :: "'s \<Rightarrow> nat" and item_ok :: "'s \<Rightarrow> 'a \<Rightarrow> bool"
    and items :: "'s \<Rightarrow> 'a list"
    and put :: "'a \<Rightarrow> 's \<Rightarrow> 's option" and get :: "'s \<Rightarrow> ('a \<times> 's) option"
  assumes items_cap: "wf s \<Longrightarrow> length (items s) \<le> cap s"
    and put_room: "wf s \<Longrightarrow> item_ok s x \<Longrightarrow> length (items s) < cap s \<Longrightarrow>
      \<exists>s'. put x s = Some s' \<and> wf s' \<and> items s' = items s @ [x] \<and> cap s' = cap s \<and> item_ok s' = item_ok s"
    and put_full: "wf s \<Longrightarrow> length (items s) = cap s \<Longrightarrow> put x s = None"
    and get_some: "wf s \<Longrightarrow> items s = x # xs \<Longrightarrow>
      \<exists>s'. get s = Some (x, s') \<and> wf s' \<and> items s' = xs \<and> cap s' = cap s \<and> item_ok s' = item_ok s"
    and get_none: "wf s \<Longrightarrow> items s = [] \<Longrightarrow> get s = None"
begin

text \<open>
  Whatever the interleaving of the operations, what came out, followed by what is inside, is
  what was inside followed by what went in.
\<close>

lemma run_conserves:
  assumes "wf s" "fifo_run put get ops s = Some (outs, s')" "\<forall>x \<in> set (fifo_inputs ops). item_ok s x"
  shows "outs @ items s' = items s @ fifo_inputs ops \<and> wf s' \<and> cap s' = cap s"
  using assms
proof (induction ops arbitrary: s outs)
  case Nil
  then show ?case by simp
next
  case (Cons a ops)
  show ?case
  proof (cases a)
    case (Put x)
    have room: "length (items s) < cap s"
      using items_cap [OF Cons.prems(1)] put_full [OF Cons.prems(1), of x] Cons.prems(2) Put
      by (cases "length (items s) = cap s") auto
    obtain s1 where s1: "put x s = Some s1" "wf s1" "items s1 = items s @ [x]" "cap s1 = cap s"
      "item_ok s1 = item_ok s"
      using put_room [OF Cons.prems(1) _ room, of x] Cons.prems(3) Put by auto
    then show ?thesis using Cons.IH [OF s1(2), of outs] Cons.prems(2,3) Put by simp
  next
    case Get
    show ?thesis
    proof (cases "items s")
      case Nil
      then show ?thesis using get_none [OF Cons.prems(1)] Cons.prems(2) Get by simp
    next
      case (Cons x xs)
      obtain s1 where s1: "get s = Some (x, s1)" "wf s1" "items s1 = xs" "cap s1 = cap s"
        "item_ok s1 = item_ok s"
        using get_some [OF Cons.prems(1) Cons] by auto
      then show ?thesis
        using Cons.IH [OF s1(2)] Cons.prems(2,3) Get Cons by (auto split: bind_splits)
    qed
  qed
qed

lemma run_puts:
  "wf s \<Longrightarrow> length (items s) + length xs \<le> cap s \<Longrightarrow> \<forall>x \<in> set xs. item_ok s x \<Longrightarrow>
    \<exists>s'. fifo_run put get (map Put xs) s = Some ([], s') \<and> wf s' \<and> items s' = items s @ xs
      \<and> cap s' = cap s"
proof (induction xs arbitrary: s)
  case Nil
  then show ?case by simp
next
  case (Cons x xs)
  obtain s1 where s1: "put x s = Some s1" "wf s1" "items s1 = items s @ [x]" "cap s1 = cap s"
    "item_ok s1 = item_ok s"
    using put_room [OF Cons.prems(1), of x] Cons.prems(2,3) by auto
  then show ?case using Cons.IH [OF s1(2)] Cons.prems(2,3) by simp
qed

lemma run_gets:
  "wf s \<Longrightarrow> n \<le> length (items s) \<Longrightarrow>
    \<exists>s'. fifo_run put get (replicate n Get) s = Some (take n (items s), s') \<and> wf s'
      \<and> items s' = drop n (items s) \<and> cap s' = cap s"
proof (induction n arbitrary: s)
  case 0
  then show ?case by simp
next
  case (Suc n)
  then obtain x xs where xs: "items s = x # xs" by (cases "items s") auto
  obtain s1 where s1: "get s = Some (x, s1)" "wf s1" "items s1 = xs" "cap s1 = cap s"
    using get_some [OF Suc.prems(1) xs] by auto
  then show ?case using Suc.IH [OF s1(2)] Suc.prems(2) xs by auto
qed

text \<open>What an empty buffer is given comes out again in the same order, and leaves it empty.\<close>

lemma transfer_all:
  assumes "wf s" "items s = []" "length xs \<le> cap s" "\<forall>x \<in> set xs. item_ok s x"
  shows "\<exists>s1 s2. fifo_run put get (map Put xs) s = Some ([], s1)
    \<and> fifo_run put get (replicate (length xs) Get) s1 = Some (xs, s2) \<and> wf s2 \<and> items s2 = []"
proof -
  obtain s1 where s1: "fifo_run put get (map Put xs) s = Some ([], s1)" "wf s1" "items s1 = xs"
    using run_puts [OF assms(1), of xs] assms(2-4) by auto
  then show ?thesis using run_gets [OF s1(2), of "length xs"] by auto
qed

end

text \<open>Some of the components also let a message jump the queue.\<close>

locale bounded_deque = bounded_fifo +
  fixes put_front :: "'b \<Rightarrow> 'a \<Rightarrow> 'a option"
  assumes front_room: "wf s \<Longrightarrow> item_ok s x \<Longrightarrow> length (items s) < cap s \<Longrightarrow>
      \<exists>s'. put_front x s = Some s' \<and> wf s' \<and> items s' = x # items s \<and> cap s' = cap s
        \<and> item_ok s' = item_ok s"
    and front_full: "wf s \<Longrightarrow> length (items s) = cap s \<Longrightarrow> put_front x s = None"
begin

lemma front_then_get:
  assumes "wf s" "item_ok s x" "length (items s) < cap s"
  shows "\<exists>s1 s2. put_front x s = Some s1 \<and> get s1 = Some (x, s2) \<and> wf s2 \<and> items s2 = items s"
proof -
  obtain s1 where s1: "put_front x s = Some s1" "wf s1" "items s1 = x # items s"
    using front_room [OF assms] by auto
  then show ?thesis using get_some [OF s1(2,3)] by auto
qed

end

subsection \<open>Circular buffers\<close>

definition ring_items :: "'a list \<Rightarrow> nat \<Rightarrow> nat \<Rightarrow> 'a list" where
  "ring_items pool out n = map (\<lambda>i. pool ! ((out + i) mod length pool)) [0..<n]"

lemma length_ring_items [simp]: "length (ring_items pool out n) = n"
  by (simp add: ring_items_def)

lemma ring_items_0 [simp]: "ring_items pool out 0 = []"
  by (simp add: ring_items_def)

lemma mod_add_inj:
  fixes m :: nat
  assumes "i < m" "j < m" "(a + i) mod m = (a + j) mod m"
  shows "i = j"
proof (rule ccontr)
  assume "i \<noteq> j"
  then consider "i < j" | "j < i" by linarith
  then show False
  proof cases
    case 1
    have "m dvd j - i" using assms(3) 1 mod_eq_dvd_iff_nat [of "a + i" "a + j" m] by simp
    then show False using 1 assms(2) by (auto dest: dvd_imp_le)
  next
    case 2
    have "m dvd i - j" using assms(3) 2 mod_eq_dvd_iff_nat [of "a + j" "a + i" m] by simp
    then show False using 2 assms(1) by (auto dest: dvd_imp_le)
  qed
qed

lemma ring_items_put:
  assumes "n < length pool"
  shows "ring_items (pool[(out + n) mod length pool := x]) out (Suc n) = ring_items pool out n @ [x]"
proof -
  have pos: "(out + n) mod length pool < length pool"
    by (rule mod_less_divisor) (use assms in linarith)
  have "pool[(out + n) mod length pool := x] ! ((out + i) mod length pool)
      = pool ! ((out + i) mod length pool)" if "i < n" for i
  proof -
    have "(out + n) mod length pool \<noteq> (out + i) mod length pool"
      using mod_add_inj [of n "length pool" i out] that assms by auto
    then show ?thesis by simp
  qed
  then show ?thesis using pos by (simp add: ring_items_def nth_list_update_eq)
qed

lemma ring_items_push:
  assumes "n < length pool" "out < length pool"
  shows "ring_items (pool[out := x]) out (Suc n) = x # ring_items pool (Suc out) n"
proof -
  have "pool[out := x] ! ((Suc out + i) mod length pool)
      = pool ! ((Suc out + i) mod length pool)" if "i < n" for i
  proof -
    have "(out + 0) mod length pool \<noteq> (out + Suc i) mod length pool"
    proof
      assume "(out + 0) mod length pool = (out + Suc i) mod length pool"
      moreover have "0 < length pool" "Suc i < length pool" using that assms by linarith+
      ultimately have "0 = Suc i" by (intro mod_add_inj [of 0 "length pool" "Suc i" out])
      then show False by simp
    qed
    then show ?thesis using assms by simp
  qed
  then show ?thesis using assms
    by (simp add: ring_items_def upt_conv_Cons map_Suc_upt [symmetric] del: upt_Suc)
qed

lemma ring_items_get:
  "ring_items pool out (Suc n)
    = pool ! (out mod length pool) # ring_items pool (Suc out) n"
  by (simp add: ring_items_def upt_conv_Cons map_Suc_upt [symmetric] del: upt_Suc)

lemma ring_items_mod [simp]: "ring_items pool (out mod length pool) n = ring_items pool out n"
  by (simp add: ring_items_def mod_add_left_eq)

end
