(* ===== verification/Ipc_Mailbox.thy ===== *)
theory Ipc_Mailbox
  imports Ipc_Event Fifo
begin

text \<open>
  Mailboxes (\<open>src/ipc.c\<close>): a circular buffer of machine words with a list of waiting receivers
  and a list of waiting senders. The kernel with one of its mailboxes is an interpretation of
  the bounded first-in first-out buffer with urgent messages, through \<open>rt_mb_send\<close>,
  \<open>rt_mb_urgent\<close> and \<open>rt_mb_recv\<close> with timeout 0.
\<close>

subsection \<open>Operations\<close>

abbreviation (input) RT_MB_ENTRY_MAX :: u16 where "RT_MB_ENTRY_MAX \<equiv> 0xffff"

abbreviation upd_mb :: "oid \<Rightarrow> (rt_mailbox \<Rightarrow> rt_mailbox) \<Rightarrow> kernel \<Rightarrow> kernel" where
  "upd_mb b f k \<equiv> k\<lparr>mailboxes := (mailboxes k)(b := f (mailboxes k b))\<rparr>"

definition rt_mb_init :: "oid \<Rightarrow> u32 list \<Rightarrow> u32 \<Rightarrow> u8 \<Rightarrow> kernel \<Rightarrow> (rt_err_t \<times> kernel) option" where
  "rt_mb_init b msgpool sz flag k = do {
     rt_assert (flag = RT_IPC_FLAG_FIFO \<or> flag = RT_IPC_FLAG_PRIO);
     k1 \<leftarrow> rt_object_init_check (mb_type (mailboxes k b) = Class_MailBox) k;
     let k2 = upd_mb b (\<lambda>mb. mb\<lparr>mb_type := Class_MailBox, mb_static := True, mb_flag := flag\<rparr>) k1;
     let k3 = upd_mb b (\<lambda>mb. mb\<lparr>mb_msg_pool := msgpool, mb_size := ucast sz, mb_entry := 0,
                mb_in_offset := 0, mb_out_offset := 0\<rparr>) (ipc_object_init (QMb b) k2);
     Some (RT_EOK, ipc_object_init (QMbSender b) k3)
   }"

definition rt_mb_detach :: "oid \<Rightarrow> kernel \<Rightarrow> (rt_err_t \<times> kernel) option" where
  "rt_mb_detach b k = do {
     rt_assert (mb_type (mailboxes k b) = Class_MailBox);
     rt_assert (mb_static (mailboxes k b));
     k1 \<leftarrow> ipc_list_resume_all (QMb b) k;
     k2 \<leftarrow> ipc_list_resume_all (QMbSender b) k1;
     Some (RT_EOK, upd_mb b (\<lambda>mb. mb\<lparr>mb_type := Class_Null, mb_static := False\<rparr>) k2)
   }"

text \<open>
  In \<open>rt_mb_create\<close> the results of the two allocations are arguments: the mailbox object and the
  memory of the message pool.
\<close>

definition rt_mb_create ::
  "oid option \<Rightarrow> u32 list option \<Rightarrow> u32 \<Rightarrow> u8 \<Rightarrow> kernel \<Rightarrow> (oid option \<times> kernel) option" where
  "rt_mb_create alloc pool sz flag k = do {
     rt_assert (flag = RT_IPC_FLAG_FIFO \<or> flag = RT_IPC_FLAG_PRIO);
     rt_debug_not_in_interrupt k;
     (case alloc of
        None \<Rightarrow> Some (None, k)
      | Some b \<Rightarrow>
          (let k1 = upd_mb b (\<lambda>mb. mb\<lparr>mb_type := Class_MailBox, mb_static := False,
                 mb_flag := flag\<rparr>) k;
               k2 = upd_mb b (mb_size_update (\<lambda>_. ucast sz)) (ipc_object_init (QMb b) k1)
           in case pool of
                None \<Rightarrow> Some (None, upd_mb b (mb_type_update (\<lambda>_. Class_Null)) k2)
              | Some msgpool \<Rightarrow>
                  (let k3 = upd_mb b (\<lambda>mb. mb\<lparr>mb_msg_pool := msgpool, mb_entry := 0,
                          mb_in_offset := 0, mb_out_offset := 0\<rparr>) k2
                   in Some (Some b, ipc_object_init (QMbSender b) k3))))
   }"

definition rt_mb_delete :: "oid \<Rightarrow> kernel \<Rightarrow> (rt_err_t \<times> kernel) option" where
  "rt_mb_delete b k = do {
     rt_assert (mb_type (mailboxes k b) = Class_MailBox);
     rt_assert (\<not> mb_static (mailboxes k b));
     rt_debug_not_in_interrupt k;
     k1 \<leftarrow> ipc_list_resume_all (QMb b) k;
     k2 \<leftarrow> ipc_list_resume_all (QMbSender b) k1;
     Some (RT_EOK, upd_mb b (mb_type_update (\<lambda>_. Class_Null)) k2)
   }"

text \<open>The end of a call: the first thread of the list, if any, is resumed.\<close>

definition resume_one :: "queue \<Rightarrow> kernel \<Rightarrow> (rt_err_t \<times> kernel) option" where
  "resume_one q k =
     (if \<not> rt_list_isempty q k then do {
        k1 \<leftarrow> ipc_list_resume q k;
        k2 \<leftarrow> rt_schedule k1;
        Some (RT_EOK, k2)
      } else Some (RT_EOK, k))"

definition mb_put :: "oid \<Rightarrow> u32 \<Rightarrow> kernel \<Rightarrow> (rt_err_t \<times> kernel) option" where
  "mb_put b value k = do {
     let mb = mailboxes k b;
     rt_assert (unat (mb_in_offset mb) < length (mb_msg_pool mb));
     let in1 = mb_in_offset mb + 1;
     let k1 = upd_mb b (\<lambda>mb. mb\<lparr>mb_msg_pool := (mb_msg_pool mb)[unat (mb_in_offset mb) := value],
                mb_in_offset := (if mb_size mb \<le> in1 then 0 else in1)\<rparr>) k;
     (if mb_entry mb < RT_MB_ENTRY_MAX
      then resume_one (QMb b) (upd_mb b (\<lambda>mb. mb\<lparr>mb_entry := mb_entry mb + 1\<rparr>) k1)
      else Some (- RT_EFULL, k1))
   }"

text \<open>
  The loop of \<open>_rt_mb_send_wait\<close> up to the point where the thread gives up the processor;
  \<open>mb_send_resume\<close> is what follows when it runs again, with the tick count at which it began to
  wait. The shortened timeout is computed in unsigned and stored in signed 32 bits.
\<close>

definition shorten_timeout :: "int \<Rightarrow> rt_tick_t \<Rightarrow> rt_tick_t \<Rightarrow> int" where
  "shorten_timeout timeout start now =
     (if 0 < timeout
      then (let timeout = sint (word_of_int timeout - (now - start) :: u32)
            in if timeout < 0 then 0 else timeout)
      else timeout)"

definition mb_send_loop ::
  "oid \<Rightarrow> u32 \<Rightarrow> int \<Rightarrow> int \<Rightarrow> tid option \<Rightarrow> kernel \<Rightarrow> (outcome \<times> kernel) option" where
  "mb_send_loop b value timeout suspend_flag thread k =
     (if mb_entry (mailboxes k b) = mb_size (mailboxes k b) then do {
        t \<leftarrow> thread;
        let k1 = upd_thread t (th_error_update (\<lambda>_. - RT_EINTR)) k;
        (if timeout = 0 then Some (Done (- RT_EFULL), k1)
         else do {
           (ret, k2) \<leftarrow> ipc_block (QMbSender b) t (mb_flag (mailboxes k1 b)) suspend_flag timeout k1;
           Some (if ret \<noteq> RT_EOK then (Done ret, k2) else (Blocked, k2))
         })
      } else do {
        (ret, k1) \<leftarrow> mb_put b value k;
        Some (Done ret, k1)
      })"

definition rt_mb_send_wait_flag ::
  "oid \<Rightarrow> u32 \<Rightarrow> int \<Rightarrow> int \<Rightarrow> kernel \<Rightarrow> (outcome \<times> kernel) option" where
  "rt_mb_send_wait_flag b value timeout suspend_flag k = do {
     rt_assert (mb_type (mailboxes k b) = Class_MailBox);
     rt_debug_scheduler_available (timeout \<noteq> 0) k;
     let thread = rt_thread_self k;
     (if mb_entry (mailboxes k b) = mb_size (mailboxes k b) \<and> timeout = 0
      then Some (Done (- RT_EFULL), k)
      else mb_send_loop b value timeout suspend_flag thread k)
   }"

definition mb_send_resume ::
  "oid \<Rightarrow> u32 \<Rightarrow> int \<Rightarrow> int \<Rightarrow> rt_tick_t \<Rightarrow> tid \<Rightarrow> kernel \<Rightarrow> (outcome \<times> kernel) option" where
  "mb_send_resume b value timeout suspend_flag start t k =
     (if th_error (threads k t) \<noteq> RT_EOK then Some (Done (th_error (threads k t)), k)
      else mb_send_loop b value (shorten_timeout timeout start (rt_tick k)) suspend_flag (Some t) k)"

definition rt_mb_send_wait :: "oid \<Rightarrow> u32 \<Rightarrow> int \<Rightarrow> kernel \<Rightarrow> (outcome \<times> kernel) option" where
  "rt_mb_send_wait b value timeout k = rt_mb_send_wait_flag b value timeout RT_UNINTERRUPTIBLE k"

definition rt_mb_send_wait_interruptible ::
  "oid \<Rightarrow> u32 \<Rightarrow> int \<Rightarrow> kernel \<Rightarrow> (outcome \<times> kernel) option" where
  "rt_mb_send_wait_interruptible b value timeout k =
     rt_mb_send_wait_flag b value timeout RT_INTERRUPTIBLE k"

definition rt_mb_send_wait_killable ::
  "oid \<Rightarrow> u32 \<Rightarrow> int \<Rightarrow> kernel \<Rightarrow> (outcome \<times> kernel) option" where
  "rt_mb_send_wait_killable b value timeout k = rt_mb_send_wait_flag b value timeout RT_KILLABLE k"

definition rt_mb_send :: "oid \<Rightarrow> u32 \<Rightarrow> kernel \<Rightarrow> (outcome \<times> kernel) option" where
  "rt_mb_send b value k = rt_mb_send_wait b value 0 k"

definition rt_mb_send_interruptible :: "oid \<Rightarrow> u32 \<Rightarrow> kernel \<Rightarrow> (outcome \<times> kernel) option" where
  "rt_mb_send_interruptible b value k = rt_mb_send_wait_interruptible b value 0 k"

definition rt_mb_send_killable :: "oid \<Rightarrow> u32 \<Rightarrow> kernel \<Rightarrow> (outcome \<times> kernel) option" where
  "rt_mb_send_killable b value k = rt_mb_send_wait_killable b value 0 k"

definition rt_mb_urgent :: "oid \<Rightarrow> u32 \<Rightarrow> kernel \<Rightarrow> (rt_err_t \<times> kernel) option" where
  "rt_mb_urgent b value k = do {
     rt_assert (mb_type (mailboxes k b) = Class_MailBox);
     let mb = mailboxes k b;
     (if mb_entry mb = mb_size mb then Some (- RT_EFULL, k)
      else do {
        let out = (if 0 < mb_out_offset mb then mb_out_offset mb - 1 else mb_size mb - 1);
        rt_assert (unat out < length (mb_msg_pool mb));
        let k1 = upd_mb b (\<lambda>mb. mb\<lparr>mb_msg_pool := (mb_msg_pool mb)[unat out := value],
                   mb_entry := mb_entry mb + 1, mb_out_offset := out\<rparr>) k;
        resume_one (QMb b) k1
      })
   }"

text \<open>\<open>_rt_mb_recv\<close>; the second component is the word written to \<open>*value\<close>.\<close>

definition mb_get :: "oid \<Rightarrow> kernel \<Rightarrow> (rt_err_t \<times> u32 \<times> kernel) option" where
  "mb_get b k = do {
     let mb = mailboxes k b;
     rt_assert (unat (mb_out_offset mb) < length (mb_msg_pool mb));
     let value = mb_msg_pool mb ! unat (mb_out_offset mb);
     let out1 = mb_out_offset mb + 1;
     let k1 = upd_mb b (\<lambda>mb. mb\<lparr>
                mb_entry := (if 0 < mb_entry mb then mb_entry mb - 1 else mb_entry mb),
                mb_out_offset := (if mb_size mb \<le> out1 then 0 else out1)\<rparr>) k;
     (ret, k2) \<leftarrow> resume_one (QMbSender b) k1;
     Some (ret, value, k2)
   }"

definition mb_recv_loop ::
  "oid \<Rightarrow> int \<Rightarrow> int \<Rightarrow> tid option \<Rightarrow> kernel \<Rightarrow> (outcome \<times> u32 option \<times> kernel) option" where
  "mb_recv_loop b timeout suspend_flag thread k =
     (if mb_entry (mailboxes k b) = 0 then do {
        t \<leftarrow> thread;
        let k1 = upd_thread t (th_error_update (\<lambda>_. - RT_EINTR)) k;
        (if timeout = 0
         then Some (Done (- RT_ETIMEOUT), None, upd_thread t (th_error_update (\<lambda>_. - RT_ETIMEOUT)) k1)
         else do {
           (ret, k2) \<leftarrow> ipc_block (QMb b) t (mb_flag (mailboxes k1 b)) suspend_flag timeout k1;
           Some (if ret \<noteq> RT_EOK then (Done ret, None, k2) else (Blocked, None, k2))
         })
      } else do {
        (ret, value, k1) \<leftarrow> mb_get b k;
        Some (Done ret, Some value, k1)
      })"

definition rt_mb_recv_flag ::
  "oid \<Rightarrow> int \<Rightarrow> int \<Rightarrow> kernel \<Rightarrow> (outcome \<times> u32 option \<times> kernel) option" where
  "rt_mb_recv_flag b timeout suspend_flag k = do {
     rt_assert (mb_type (mailboxes k b) = Class_MailBox);
     rt_debug_scheduler_available (timeout \<noteq> 0) k;
     let thread = rt_thread_self k;
     (if mb_entry (mailboxes k b) = 0 \<and> timeout = 0
      then Some (Done (- RT_ETIMEOUT), None, k)
      else mb_recv_loop b timeout suspend_flag thread k)
   }"

definition mb_recv_resume ::
  "oid \<Rightarrow> int \<Rightarrow> int \<Rightarrow> rt_tick_t \<Rightarrow> tid \<Rightarrow> kernel \<Rightarrow> (outcome \<times> u32 option \<times> kernel) option" where
  "mb_recv_resume b timeout suspend_flag start t k =
     (if th_error (threads k t) \<noteq> RT_EOK then Some (Done (th_error (threads k t)), None, k)
      else mb_recv_loop b (shorten_timeout timeout start (rt_tick k)) suspend_flag (Some t) k)"

definition rt_mb_recv :: "oid \<Rightarrow> int \<Rightarrow> kernel \<Rightarrow> (outcome \<times> u32 option \<times> kernel) option" where
  "rt_mb_recv b timeout k = rt_mb_recv_flag b timeout RT_UNINTERRUPTIBLE k"

definition rt_mb_recv_interruptibale ::
  "oid \<Rightarrow> int \<Rightarrow> kernel \<Rightarrow> (outcome \<times> u32 option \<times> kernel) option" where
  "rt_mb_recv_interruptibale b timeout k = rt_mb_recv_flag b timeout RT_INTERRUPTIBLE k"

definition rt_mb_recv_killable ::
  "oid \<Rightarrow> int \<Rightarrow> kernel \<Rightarrow> (outcome \<times> u32 option \<times> kernel) option" where
  "rt_mb_recv_killable b timeout k = rt_mb_recv_flag b timeout RT_KILLABLE k"

definition rt_mb_control :: "oid \<Rightarrow> bool \<Rightarrow> kernel \<Rightarrow> (rt_err_t \<times> kernel) option" where
  "rt_mb_control b reset k = do {
     rt_assert (mb_type (mailboxes k b) = Class_MailBox);
     (if reset then do {
        k1 \<leftarrow> ipc_list_resume_all (QMb b) k;
        k2 \<leftarrow> ipc_list_resume_all (QMbSender b) k1;
        k3 \<leftarrow> rt_schedule (upd_mb b (\<lambda>mb. mb\<lparr>mb_entry := 0, mb_in_offset := 0,
               mb_out_offset := 0\<rparr>) k2);
        Some (RT_EOK, k3)
      } else Some (- RT_ERROR, k))
   }"


subsection \<open>The mailbox as a circular buffer\<close>

definition mb_items :: "rt_mailbox \<Rightarrow> u32 list" where
  "mb_items mb = ring_items (mb_msg_pool mb) (unat (mb_out_offset mb)) (unat (mb_entry mb))"

definition mb_wf :: "rt_mailbox \<Rightarrow> bool" where
  "mb_wf mb \<longleftrightarrow> mb_type mb = Class_MailBox
     \<and> (mb_flag mb = RT_IPC_FLAG_FIFO \<or> mb_flag mb = RT_IPC_FLAG_PRIO)
     \<and> length (mb_msg_pool mb) = unat (mb_size mb) \<and> 0 < mb_size mb \<and> mb_entry mb \<le> mb_size mb
     \<and> mb_out_offset mb < mb_size mb
     \<and> unat (mb_in_offset mb) = (unat (mb_out_offset mb) + unat (mb_entry mb)) mod unat (mb_size mb)"

definition mb_ok :: "oid \<Rightarrow> kernel \<Rightarrow> bool" where
  "mb_ok b k \<longleftrightarrow> clock_ok k \<and> mb_wf (mailboxes k b)"

text \<open>The index after \<open>i\<close> in a buffer of \<open>n\<close> places, as the code computes it.\<close>

lemma unat_next_index:
  fixes i n :: "'a::len word"
  assumes "i < n"
  shows "unat (if n \<le> i + 1 then 0 else i + 1) = Suc (unat i) mod unat n"
proof -
  have s: "unat (i + 1) = Suc (unat i)" using unat_inc [OF assms] by simp
  have lt: "unat i < unat n" using assms by (simp add: word_less_nat_alt)
  show ?thesis
  proof (cases "n \<le> i + 1")
    case True
    then have "unat n = Suc (unat i)" using s lt by (simp add: word_le_nat_alt)
    then show ?thesis using True by simp
  next
    case False
    then have "Suc (unat i) < unat n" using s by (simp add: word_le_nat_alt)
    then show ?thesis using False s by simp
  qed
qed

lemma mb_put_items:
  assumes wf: "mb_wf mb" and room: "mb_entry mb < mb_size mb"
    and mb': "mb' = mb\<lparr>mb_msg_pool := (mb_msg_pool mb)[unat (mb_in_offset mb) := x],
      mb_in_offset := (if mb_size mb \<le> mb_in_offset mb + 1 then 0 else mb_in_offset mb + 1),
      mb_entry := mb_entry mb + 1\<rparr>"
  shows "mb_wf mb'" "mb_items mb' = mb_items mb @ [x]"
proof -
  have in': "unat (mb_in_offset mb) = (unat (mb_out_offset mb) + unat (mb_entry mb)) mod unat (mb_size mb)"
    using wf by (simp add: mb_wf_def)
  have pos: "0 < unat (mb_size mb)" using wf by (simp add: mb_wf_def word_less_nat_alt)
  have "unat (mb_in_offset mb) < unat (mb_size mb)" unfolding in' by (rule mod_less_divisor [OF pos])
  then have lt: "mb_in_offset mb < mb_size mb" by (simp add: word_less_nat_alt)
  have e: "unat (mb_entry mb + 1) = Suc (unat (mb_entry mb))" using unat_inc [OF room] by simp
  have "unat (mb_entry mb) < unat (mb_size mb)" using room by (simp add: word_less_nat_alt)
  then have le: "mb_entry mb + 1 \<le> mb_size mb" by (simp add: word_le_nat_alt e)
  have "unat (mb_in_offset mb') = (unat (mb_out_offset mb) + unat (mb_entry mb + 1)) mod unat (mb_size mb)"
    using unat_next_index [OF lt] by (simp add: mb' in' e mod_Suc_eq)
  then show "mb_wf mb'" using wf le by (simp add: mb_wf_def mb')
  show "mb_items mb' = mb_items mb @ [x]"
    using ring_items_put [of "unat (mb_entry mb)" "mb_msg_pool mb" "unat (mb_out_offset mb)" x]
      wf in' e \<open>unat (mb_entry mb) < unat (mb_size mb)\<close>
    by (simp add: mb_items_def mb' mb_wf_def)
qed

lemma mb_get_items:
  assumes wf: "mb_wf mb" and some: "0 < mb_entry mb"
    and mb': "mb' = mb\<lparr>mb_entry := mb_entry mb - 1,
      mb_out_offset := (if mb_size mb \<le> mb_out_offset mb + 1 then 0 else mb_out_offset mb + 1)\<rparr>"
  shows "mb_wf mb'" "mb_items mb = mb_msg_pool mb ! unat (mb_out_offset mb) # mb_items mb'"
proof -
  have lt: "mb_out_offset mb < mb_size mb" using wf by (simp add: mb_wf_def)
  have pos: "0 < unat (mb_size mb)" using wf by (simp add: mb_wf_def word_less_nat_alt)
  have out: "unat (mb_out_offset mb') = Suc (unat (mb_out_offset mb)) mod unat (mb_size mb)"
    using unat_next_index [OF lt] by (simp add: mb')
  have e: "unat (mb_entry mb) = Suc (unat (mb_entry mb - 1))"
    using unat_dec [of "mb_entry mb"] some by simp
  have ole: "unat (mb_out_offset mb') < unat (mb_size mb)" unfolding out by (rule mod_less_divisor [OF pos])
  have le: "mb_entry mb - 1 \<le> mb_size mb" using wf e by (simp add: mb_wf_def word_le_nat_alt)
  have "unat (mb_in_offset mb') = (unat (mb_out_offset mb') + unat (mb_entry mb - 1)) mod unat (mb_size mb)"
    unfolding out using wf e by (simp add: mb_wf_def mb' mod_add_left_eq)
  then show "mb_wf mb'" using wf le ole by (simp add: mb_wf_def mb' word_less_nat_alt)
  have "mb_items mb = mb_msg_pool mb ! (unat (mb_out_offset mb) mod length (mb_msg_pool mb))
      # ring_items (mb_msg_pool mb) (Suc (unat (mb_out_offset mb))) (unat (mb_entry mb - 1))"
    unfolding mb_items_def e by (rule ring_items_get)
  moreover have "ring_items (mb_msg_pool mb) (Suc (unat (mb_out_offset mb))) (unat (mb_entry mb - 1))
      = mb_items mb'"
    using wf ring_items_mod [of "mb_msg_pool mb" "Suc (unat (mb_out_offset mb))"] out
    by (simp add: mb_items_def mb' mb_wf_def)
  ultimately show "mb_items mb = mb_msg_pool mb ! unat (mb_out_offset mb) # mb_items mb'"
    using wf lt by (simp add: mb_wf_def word_less_nat_alt)
qed

lemma mb_urgent_items:
  assumes wf: "mb_wf mb" and room: "mb_entry mb < mb_size mb"
    and out: "out = (if 0 < mb_out_offset mb then mb_out_offset mb - 1 else mb_size mb - 1)"
    and mb': "mb' = mb\<lparr>mb_msg_pool := (mb_msg_pool mb)[unat out := x],
      mb_entry := mb_entry mb + 1, mb_out_offset := out\<rparr>"
  shows "mb_wf mb'" "mb_items mb' = x # mb_items mb" "unat out < length (mb_msg_pool mb)"
proof -
  let ?o = "unat (mb_out_offset mb)" and ?n = "unat (mb_size mb)"
  have pos: "0 < ?n" "?o < ?n" using wf by (simp_all add: mb_wf_def word_less_nat_alt)
  have s: "Suc (unat out) = (if 0 < ?o then ?o else ?n)"
    using unat_dec [of "mb_out_offset mb"] unat_dec [of "mb_size mb"] wf
    by (auto simp: out mb_wf_def unat_gt_0 word_gt_0)
  then have lt: "unat out < ?n" using pos by (auto split: if_splits)
  have sm: "Suc (unat out) mod ?n = ?o" using s pos by (auto split: if_splits)
  have e: "unat (mb_entry mb + 1) = Suc (unat (mb_entry mb))" using unat_inc [OF room] by simp
  have el: "unat (mb_entry mb) < ?n" using room by (simp add: word_less_nat_alt)
  then have le: "mb_entry mb + 1 \<le> mb_size mb" by (simp add: word_le_nat_alt e)
  have "(unat out + unat (mb_entry mb + 1)) mod ?n = (Suc (unat out) mod ?n + unat (mb_entry mb)) mod ?n"
    by (simp add: e mod_add_left_eq)
  then show "mb_wf mb'" using wf le lt unfolding sm by (simp add: mb_wf_def mb' word_less_nat_alt)
  show "unat out < length (mb_msg_pool mb)" using lt wf by (simp add: mb_wf_def)
  have "ring_items (mb_msg_pool mb) (Suc (unat out)) (unat (mb_entry mb))
      = ring_items (mb_msg_pool mb) (Suc (unat out) mod length (mb_msg_pool mb)) (unat (mb_entry mb))"
    by simp
  also have "Suc (unat out) mod length (mb_msg_pool mb) = ?o" using sm wf by (simp add: mb_wf_def)
  finally have "ring_items (mb_msg_pool mb) (Suc (unat out)) (unat (mb_entry mb)) = mb_items mb"
    by (simp only: mb_items_def)
  then show "mb_items mb' = x # mb_items mb"
    using ring_items_push [of "unat (mb_entry mb)" "mb_msg_pool mb" "unat out" x] wf lt el e
    by (simp add: mb_items_def mb' mb_wf_def)
qed

lemma mb_items_empty [simp]: "mb_items mb = [] \<longleftrightarrow> mb_entry mb = 0"
proof -
  have "mb_items mb = [] \<longleftrightarrow> length (mb_items mb) = 0" by simp
  also have "\<dots> \<longleftrightarrow> mb_entry mb = 0" by (simp add: mb_items_def unat_eq_0)
  finally show ?thesis .
qed

lemma length_mb_items [simp]: "length (mb_items mb) = unat (mb_entry mb)"
  by (simp add: mb_items_def)

lemma resume_one_spec:
  assumes k: "clock_ok k" and q: "ipc_queue q"
  obtains k' where "resume_one q k = Some (RT_EOK, k')" "clock_ok k'" "tq k' q = tl (tq k q)"
    "\<forall>r. ipc_queue r \<longrightarrow> r \<noteq> q \<longrightarrow> tq k' r = tq k r" "ipc_frame k k'"
    "\<forall>t ts. tq k q = t # ts \<longrightarrow> th_error (threads k' t) = RT_EOK
       \<and> (thread_state k' t = RT_THREAD_READY \<or> thread_state k' t = RT_THREAD_RUNNING)"
proof (cases "tq k q")
  case Nil
  then show ?thesis
    using that [of k] k by (simp add: resume_one_def rt_list_isempty_def)
next
  case (Cons t ts)
  obtain k1 s where k1: "ipc_list_resume q k = Some k1" "clock_ok k1"
    "s = RT_THREAD_READY \<or> s = RT_THREAD_RUNNING"
    "threads k1 = (threads k)(t := (th_stat_update (set_stat s)
       (th_error_update (\<lambda>_. RT_EOK) (threads k t))))"
    "tq k1 q = ts" "\<forall>r. ipc_queue r \<longrightarrow> r \<noteq> q \<longrightarrow> tq k1 r = tq k r"
    "rt_current_thread k1 = rt_current_thread k" "ipc_frame k k1"
    by (rule ipc_list_resume_clock [OF k q Cons])
  have ok1: "sched_ok k1" "rt_current_thread k1 \<noteq> None" using k1(2) by (simp_all add: clock_ok_def)
  obtain k2 where k2: "rt_schedule k1 = Some k2" "sched_frame k1 k2"
    by (rule rt_schedule_returns [OF ok1])
  have qs: "tq k2 r = tq k1 r" if "ipc_queue r" for r
    using sched_frame_queue [OF k2(2)] ipc_queue_not_ready [OF that] by simp
  have st: "thread_state k1 t = RT_THREAD_READY \<or> thread_state k1 t = RT_THREAD_RUNNING"
    using k1(3,4) by auto
  have st2: "thread_state k2 t = RT_THREAD_READY \<or> thread_state k2 t = RT_THREAD_RUNNING"
    using k2(2) st unfolding sched_frame_def by blast
  have e2: "th_error (threads k2 t) = RT_EOK" using sched_frame_thread(3) [OF k2(2)] k1(4) by simp
  show ?thesis
  proof (rule that [of k2])
    show "resume_one q k = Some (RT_EOK, k2)"
      using Cons k1(1) k2(1) by (simp add: resume_one_def rt_list_isempty_def)
    show "ipc_frame k k2" by (rule ipc_frame_trans [OF k1(8) sched_frame_ipc [OF k2(2)]])
    show "\<forall>u us. tq k q = u # us \<longrightarrow> th_error (threads k2 u) = RT_EOK
       \<and> (thread_state k2 u = RT_THREAD_READY \<or> thread_state k2 u = RT_THREAD_RUNNING)"
      using Cons st2 e2 by simp
  qed (use Cons qs q k1 clock_ok_schedule [OF k1(2) k2(1)] in auto)
qed


subsection \<open>Sending and receiving without waiting\<close>

lemma mb_put_spec:
  assumes k: "mb_ok b k" and room: "mb_entry (mailboxes k b) < mb_size (mailboxes k b)"
  obtains k' where "mb_put b x k = Some (RT_EOK, k')" "mb_ok b k'"
    "mb_items (mailboxes k' b) = mb_items (mailboxes k b) @ [x]"
    "mb_size (mailboxes k' b) = mb_size (mailboxes k b)"
    "\<forall>c. c \<noteq> b \<longrightarrow> mailboxes k' c = mailboxes k c"
    "tq k' (QMb b) = tl (tq k (QMb b))"
    "\<forall>r. ipc_queue r \<longrightarrow> r \<noteq> QMb b \<longrightarrow> tq k' r = tq k r"
    "\<forall>t ts. tq k (QMb b) = t # ts \<longrightarrow> th_error (threads k' t) = RT_EOK
       \<and> (thread_state k' t = RT_THREAD_READY \<or> thread_state k' t = RT_THREAD_RUNNING)"
proof -
  let ?mb = "mailboxes k b"
  let ?mb' = "?mb\<lparr>mb_msg_pool := (mb_msg_pool ?mb)[unat (mb_in_offset ?mb) := x],
      mb_in_offset := (if mb_size ?mb \<le> mb_in_offset ?mb + 1 then 0 else mb_in_offset ?mb + 1),
      mb_entry := mb_entry ?mb + 1\<rparr>"
  let ?k1 = "upd_mb b (\<lambda>_. ?mb') k"
  have wf: "mb_wf ?mb" and ck: "clock_ok k" using k by (simp_all add: mb_ok_def)
  note i = mb_put_items [OF wf room refl, of x]
  have c1: "clock_ok ?k1" using ck by simp
  obtain k' where k': "resume_one (QMb b) ?k1 = Some (RT_EOK, k')" "clock_ok k'"
    "tq k' (QMb b) = tl (tq ?k1 (QMb b))"
    "\<forall>r. ipc_queue r \<longrightarrow> r \<noteq> QMb b \<longrightarrow> tq k' r = tq ?k1 r" "ipc_frame ?k1 k'"
    "\<forall>t ts. tq ?k1 (QMb b) = t # ts \<longrightarrow> th_error (threads k' t) = RT_EOK
       \<and> (thread_state k' t = RT_THREAD_READY \<or> thread_state k' t = RT_THREAD_RUNNING)"
    by (rule resume_one_spec [OF c1, of "QMb b"]) simp_all
  have mb: "mailboxes k' = mailboxes ?k1" using ipc_frame_sel [OF k'(5)] by simp
  have lt: "unat (mb_in_offset ?mb) < length (mb_msg_pool ?mb)"
    using wf mod_less_divisor [of "unat (mb_size ?mb)"] by (simp add: mb_wf_def word_less_nat_alt)
  have "unat (mb_size ?mb) < 65536" using unsigned_less [of "mb_size ?mb", where ?'a = nat] by simp
  moreover have "unat (mb_entry ?mb) < unat (mb_size ?mb)" using room by (simp add: word_less_nat_alt)
  ultimately have "unat (mb_entry ?mb) < 65535" by linarith
  then have "mb_entry ?mb < 0xffff" by (simp add: word_less_nat_alt)
  then have "mb_put b x k = resume_one (QMb b) ?k1"
    using lt by (simp add: mb_put_def Let_def)
  then show ?thesis using that [of k'] k' i mb by (simp add: mb_ok_def)
qed

lemma mb_send_spec:
  assumes k: "mb_ok b k"
  shows "if mb_entry (mailboxes k b) = mb_size (mailboxes k b)
    then rt_mb_send b x k = Some (Done (- RT_EFULL), k)
    else \<exists>k'. rt_mb_send b x k = Some (Done RT_EOK, k') \<and> mb_ok b k'
      \<and> mb_items (mailboxes k' b) = mb_items (mailboxes k b) @ [x]
      \<and> mb_size (mailboxes k' b) = mb_size (mailboxes k b)
      \<and> (\<forall>c. c \<noteq> b \<longrightarrow> mailboxes k' c = mailboxes k c)
      \<and> tq k' (QMb b) = tl (tq k (QMb b))
      \<and> (\<forall>t ts. tq k (QMb b) = t # ts \<longrightarrow> th_error (threads k' t) = RT_EOK
           \<and> (thread_state k' t = RT_THREAD_READY \<or> thread_state k' t = RT_THREAD_RUNNING))"
proof (cases "mb_entry (mailboxes k b) = mb_size (mailboxes k b)")
  case True
  then show ?thesis using k
    by (simp add: rt_mb_send_def rt_mb_send_wait_def rt_mb_send_wait_flag_def mb_ok_def mb_wf_def
        rt_debug_scheduler_available_eq)
next
  case False
  then have room: "mb_entry (mailboxes k b) < mb_size (mailboxes k b)"
    using k le_neq_trans [of "mb_entry (mailboxes k b)"] by (simp add: mb_ok_def mb_wf_def)
  have run: "rt_mb_send b x k = do { (ret, k1) \<leftarrow> mb_put b x k; Some (Done ret, k1) }"
    using False k by (simp add: rt_mb_send_def rt_mb_send_wait_def rt_mb_send_wait_flag_def mb_ok_def
        mb_wf_def rt_debug_scheduler_available_eq mb_send_loop_def)
  show ?thesis using False by (rule_tac mb_put_spec [OF k room, of x]) (simp add: run)
qed

text \<open>
  \<open>rt_mb_send\<close> on a full mailbox returns \<open>-RT_EFULL\<close> and changes nothing;
  otherwise it returns \<open>RT_EOK\<close>, the word is the last of the mailbox, the first of the waiting
  receivers is ready and will find its error to be \<open>RT_EOK\<close>, the others keep their places, and no
  other mailbox changes.
\<close>

theorem mb_send_correct:
  assumes k: "mb_ok b k"
  shows "if mb_entry (mailboxes k b) = mb_size (mailboxes k b)
    then rt_mb_send b x k = Some (Done (- RT_EFULL), k)
    else \<exists>k'. rt_mb_send b x k = Some (Done RT_EOK, k') \<and> mb_ok b k'
      \<and> mb_items (mailboxes k' b) = mb_items (mailboxes k b) @ [x]
      \<and> mb_size (mailboxes k' b) = mb_size (mailboxes k b)
      \<and> (\<forall>c. c \<noteq> b \<longrightarrow> mailboxes k' c = mailboxes k c)
      \<and> tq k' (QMb b) = tl (tq k (QMb b))
      \<and> (\<forall>t ts. tq k (QMb b) = t # ts \<longrightarrow> th_error (threads k' t) = RT_EOK
           \<and> (thread_state k' t = RT_THREAD_READY \<or> thread_state k' t = RT_THREAD_RUNNING))"
  using assms by (rule mb_send_spec)

lemma mb_get_spec:
  assumes k: "mb_ok b k" and items: "mb_items (mailboxes k b) = x # xs"
  obtains k' where "mb_get b k = Some (RT_EOK, x, k')" "mb_ok b k'"
    "mb_items (mailboxes k' b) = xs"
    "mb_size (mailboxes k' b) = mb_size (mailboxes k b)"
    "\<forall>c. c \<noteq> b \<longrightarrow> mailboxes k' c = mailboxes k c"
    "tq k' (QMbSender b) = tl (tq k (QMbSender b))"
    "\<forall>t ts. tq k (QMbSender b) = t # ts \<longrightarrow> th_error (threads k' t) = RT_EOK
       \<and> (thread_state k' t = RT_THREAD_READY \<or> thread_state k' t = RT_THREAD_RUNNING)"
proof -
  let ?mb = "mailboxes k b"
  let ?mb' = "?mb\<lparr>mb_entry := mb_entry ?mb - 1,
      mb_out_offset := (if mb_size ?mb \<le> mb_out_offset ?mb + 1 then 0 else mb_out_offset ?mb + 1)\<rparr>"
  let ?k1 = "upd_mb b (\<lambda>_. ?mb') k"
  have wf: "mb_wf ?mb" and ck: "clock_ok k" using k by (simp_all add: mb_ok_def)
  have "mb_entry ?mb \<noteq> 0" using items mb_items_empty [of ?mb] by auto
  then have some: "0 < mb_entry ?mb" by (simp add: word_gt_0)
  note i = mb_get_items [OF wf some refl]
  have c1: "clock_ok ?k1" using ck by simp
  obtain k' where k': "resume_one (QMbSender b) ?k1 = Some (RT_EOK, k')" "clock_ok k'"
    "tq k' (QMbSender b) = tl (tq ?k1 (QMbSender b))"
    "\<forall>r. ipc_queue r \<longrightarrow> r \<noteq> QMbSender b \<longrightarrow> tq k' r = tq ?k1 r" "ipc_frame ?k1 k'"
    "\<forall>t ts. tq ?k1 (QMbSender b) = t # ts \<longrightarrow> th_error (threads k' t) = RT_EOK
       \<and> (thread_state k' t = RT_THREAD_READY \<or> thread_state k' t = RT_THREAD_RUNNING)"
    by (rule resume_one_spec [OF c1, of "QMbSender b"]) simp_all
  have mb: "mailboxes k' = mailboxes ?k1" using ipc_frame_sel [OF k'(5)] by simp
  have lt: "unat (mb_out_offset ?mb) < length (mb_msg_pool ?mb)"
    using wf by (simp add: mb_wf_def word_less_nat_alt)
  have "mb_get b k = Some (RT_EOK, mb_msg_pool ?mb ! unat (mb_out_offset ?mb), k')"
    using lt some k'(1) by (simp add: mb_get_def Let_def)
  then show ?thesis using that [of k'] k' i mb items by (simp add: mb_ok_def)
qed

lemma mb_recv_spec:
  assumes k: "mb_ok b k"
  shows "case mb_items (mailboxes k b) of
      [] \<Rightarrow> rt_mb_recv b 0 k = Some (Done (- RT_ETIMEOUT), None, k)
    | x # xs \<Rightarrow> \<exists>k'. rt_mb_recv b 0 k = Some (Done RT_EOK, Some x, k') \<and> mb_ok b k'
        \<and> (\<forall>t. th_error (threads k t) = RT_EOK \<longrightarrow>
             mb_recv_resume b timeout f start t k = Some (Done RT_EOK, Some x, k'))
        \<and> mb_items (mailboxes k' b) = xs \<and> mb_size (mailboxes k' b) = mb_size (mailboxes k b)
        \<and> tq k' (QMbSender b) = tl (tq k (QMbSender b))
        \<and> (\<forall>u us. tq k (QMbSender b) = u # us \<longrightarrow> th_error (threads k' u) = RT_EOK
             \<and> (thread_state k' u = RT_THREAD_READY \<or> thread_state k' u = RT_THREAD_RUNNING))"
proof (cases "mb_items (mailboxes k b)")
  case Nil
  have "mb_entry (mailboxes k b) = 0" using Nil by simp
  then show ?thesis unfolding Nil using k
    by (simp add: rt_mb_recv_def rt_mb_recv_flag_def mb_ok_def mb_wf_def
        rt_debug_scheduler_available_eq)
next
  case (Cons x xs)
  have e: "mb_entry (mailboxes k b) \<noteq> 0" using Cons mb_items_empty [of "mailboxes k b"] by auto
  obtain k' where k': "mb_get b k = Some (RT_EOK, x, k')" "mb_ok b k'"
    "mb_items (mailboxes k' b) = xs"
    "mb_size (mailboxes k' b) = mb_size (mailboxes k b)"
    "\<forall>c. c \<noteq> b \<longrightarrow> mailboxes k' c = mailboxes k c"
    "tq k' (QMbSender b) = tl (tq k (QMbSender b))"
    "\<forall>t ts. tq k (QMbSender b) = t # ts \<longrightarrow> th_error (threads k' t) = RT_EOK
       \<and> (thread_state k' t = RT_THREAD_READY \<or> thread_state k' t = RT_THREAD_RUNNING)"
    by (rule mb_get_spec [OF k Cons])
  have "rt_mb_recv b 0 k = Some (Done RT_EOK, Some x, k')"
    using e k k'(1) by (simp add: rt_mb_recv_def rt_mb_recv_flag_def mb_ok_def mb_wf_def
        rt_debug_scheduler_available_eq mb_recv_loop_def)
  moreover have "mb_recv_resume b timeout f start t k = Some (Done RT_EOK, Some x, k')"
    if "th_error (threads k t) = RT_EOK" for t
    using e that k'(1) by (simp add: mb_recv_resume_def mb_recv_loop_def)
  ultimately show ?thesis using Cons k' by simp
qed

text \<open>
  With an empty mailbox \<open>rt_mb_recv\<close> with timeout 0 returns
  \<open>-RT_ETIMEOUT\<close> and changes nothing. Otherwise it gives the oldest word, which leaves the
  mailbox, and the first of the waiting senders becomes ready; and a receiver that waited and
  was woken without an error gets the same.
\<close>

theorem mb_recv_correct:
  assumes k: "mb_ok b k"
  shows "case mb_items (mailboxes k b) of
      [] \<Rightarrow> rt_mb_recv b 0 k = Some (Done (- RT_ETIMEOUT), None, k)
    | x # xs \<Rightarrow> \<exists>k'. rt_mb_recv b 0 k = Some (Done RT_EOK, Some x, k') \<and> mb_ok b k'
        \<and> (\<forall>t. th_error (threads k t) = RT_EOK \<longrightarrow>
             mb_recv_resume b timeout f start t k = Some (Done RT_EOK, Some x, k'))
        \<and> mb_items (mailboxes k' b) = xs \<and> mb_size (mailboxes k' b) = mb_size (mailboxes k b)
        \<and> tq k' (QMbSender b) = tl (tq k (QMbSender b))
        \<and> (\<forall>u us. tq k (QMbSender b) = u # us \<longrightarrow> th_error (threads k' u) = RT_EOK
             \<and> (thread_state k' u = RT_THREAD_READY \<or> thread_state k' u = RT_THREAD_RUNNING))"
  using assms by (rule mb_recv_spec)

lemma mb_urgent_spec:
  assumes k: "mb_ok b k"
  shows "if mb_entry (mailboxes k b) = mb_size (mailboxes k b)
    then rt_mb_urgent b x k = Some (- RT_EFULL, k)
    else \<exists>k'. rt_mb_urgent b x k = Some (RT_EOK, k') \<and> mb_ok b k'
      \<and> mb_items (mailboxes k' b) = x # mb_items (mailboxes k b)
      \<and> mb_size (mailboxes k' b) = mb_size (mailboxes k b)"
proof (cases "mb_entry (mailboxes k b) = mb_size (mailboxes k b)")
  case True
  then show ?thesis using k by (simp add: rt_mb_urgent_def mb_ok_def mb_wf_def)
next
  case False
  let ?mb = "mailboxes k b"
  define out where "out = (if 0 < mb_out_offset ?mb then mb_out_offset ?mb - 1 else mb_size ?mb - 1)"
  let ?mb' = "?mb\<lparr>mb_msg_pool := (mb_msg_pool ?mb)[unat out := x],
      mb_entry := mb_entry ?mb + 1, mb_out_offset := out\<rparr>"
  let ?k1 = "upd_mb b (\<lambda>_. ?mb') k"
  have wf: "mb_wf ?mb" and ck: "clock_ok k" using k by (simp_all add: mb_ok_def)
  have room: "mb_entry ?mb < mb_size ?mb"
    using False wf le_neq_trans [of "mb_entry ?mb"] by (simp add: mb_wf_def)
  note i = mb_urgent_items [where x = x, OF wf room out_def refl]
  have c1: "clock_ok ?k1" using ck by simp
  obtain k' where k': "resume_one (QMb b) ?k1 = Some (RT_EOK, k')" "clock_ok k'" "ipc_frame ?k1 k'"
    by (rule resume_one_spec [OF c1, of "QMb b"]) simp_all
  have mb: "mailboxes k' = mailboxes ?k1" using ipc_frame_sel [OF k'(3)] by simp
  have "rt_mb_urgent b x k = Some (RT_EOK, k')"
    using False i(3) wf k'(1)
    by (simp add: rt_mb_urgent_def Let_def mb_wf_def out_def [symmetric])
  then show ?thesis using False k'(2) i mb by (simp add: mb_ok_def)
qed

subsection \<open>The mailbox as a bounded buffer\<close>

text \<open>The kernel calls with timeout 0 as operations that may be refused.\<close>

definition mb_try_put :: "oid \<Rightarrow> u32 \<Rightarrow> kernel \<Rightarrow> kernel option" where
  "mb_try_put b x k = (case rt_mb_send b x k of
     Some (Done ret, k') \<Rightarrow> if ret = RT_EOK then Some k' else None | _ \<Rightarrow> None)"

definition mb_try_urgent :: "oid \<Rightarrow> u32 \<Rightarrow> kernel \<Rightarrow> kernel option" where
  "mb_try_urgent b x k = (case rt_mb_urgent b x k of
     Some (ret, k') \<Rightarrow> if ret = RT_EOK then Some k' else None | None \<Rightarrow> None)"

definition mb_try_get :: "oid \<Rightarrow> kernel \<Rightarrow> (u32 \<times> kernel) option" where
  "mb_try_get b k = (case rt_mb_recv b 0 k of
     Some (Done ret, Some x, k') \<Rightarrow> if ret = RT_EOK then Some (x, k') else None | _ \<Rightarrow> None)"

lemma mb_full_iff: "length (mb_items mb) = unat (mb_size mb) \<longleftrightarrow> mb_entry mb = mb_size mb"
  by (simp add: word_unat_eq_iff)

interpretation mailbox: bounded_deque "mb_ok b" "\<lambda>k. unat (mb_size (mailboxes k b))" "\<lambda>_ _. True"
  "\<lambda>k. mb_items (mailboxes k b)" "mb_try_put b" "mb_try_get b" "mb_try_urgent b" for b
proof
  fix k x xs
  assume k: "mb_ok b k"
  then have le: "mb_entry (mailboxes k b) \<le> mb_size (mailboxes k b)"
    by (simp add: mb_ok_def mb_wf_def)
  then show "length (mb_items (mailboxes k b)) \<le> unat (mb_size (mailboxes k b))"
    by (simp add: word_le_nat_alt)
  have room: "mb_entry (mailboxes k b) \<noteq> mb_size (mailboxes k b)"
    if "length (mb_items (mailboxes k b)) < unat (mb_size (mailboxes k b))"
    using that mb_full_iff [of "mailboxes k b"] by linarith
  show "mb_try_put b x k = None" if "length (mb_items (mailboxes k b)) = unat (mb_size (mailboxes k b))"
    using that mb_send_spec [OF k, of x] unfolding mb_full_iff by (simp add: mb_try_put_def)
  show "mb_try_urgent b x k = None" if "length (mb_items (mailboxes k b)) = unat (mb_size (mailboxes k b))"
    using that mb_urgent_spec [OF k, of x] unfolding mb_full_iff by (simp add: mb_try_urgent_def)
  show "\<exists>s'. mb_try_put b x k = Some s' \<and> mb_ok b s'
      \<and> mb_items (mailboxes s' b) = mb_items (mailboxes k b) @ [x]
      \<and> unat (mb_size (mailboxes s' b)) = unat (mb_size (mailboxes k b)) \<and> (\<lambda>_. True) = (\<lambda>_. True)"
    if "length (mb_items (mailboxes k b)) < unat (mb_size (mailboxes k b))"
    using room [OF that] mb_send_spec [OF k, of x] by (auto simp: mb_try_put_def)
  show "\<exists>s'. mb_try_urgent b x k = Some s' \<and> mb_ok b s'
      \<and> mb_items (mailboxes s' b) = x # mb_items (mailboxes k b)
      \<and> unat (mb_size (mailboxes s' b)) = unat (mb_size (mailboxes k b)) \<and> (\<lambda>_. True) = (\<lambda>_. True)"
    if "length (mb_items (mailboxes k b)) < unat (mb_size (mailboxes k b))"
    using room [OF that] mb_urgent_spec [OF k, of x] by (auto simp: mb_try_urgent_def)
  show "\<exists>s'. mb_try_get b k = Some (x, s') \<and> mb_ok b s' \<and> mb_items (mailboxes s' b) = xs
      \<and> unat (mb_size (mailboxes s' b)) = unat (mb_size (mailboxes k b)) \<and> (\<lambda>_. True) = (\<lambda>_. True)"
    if "mb_items (mailboxes k b) = x # xs"
    using that mb_recv_spec [OF k, where timeout = 0 and f = 0 and start = 0]
    by (auto simp: mb_try_get_def)
  show "mb_try_get b k = None" if "mb_items (mailboxes k b) = []"
    using mb_recv_spec [OF k, where timeout = 0 and f = 0 and start = 0] unfolding that
    by (simp add: mb_try_get_def)
qed

text \<open>
  C8 (mailbox order). For every sequence of \<open>rt_mb_send\<close> and \<open>rt_mb_recv\<close> calls that are all
  accepted: the words received, followed by those still in the mailbox, are those that were in
  it followed by those sent. No word is lost, duplicated or overtaken, and the mailbox stays
  well-formed.
\<close>

theorem mb_fifo_order:
  assumes "mb_ok b k" "fifo_run (mb_try_put b) (mb_try_get b) ops k = Some (outs, k')"
  shows "outs @ mb_items (mailboxes k' b) = mb_items (mailboxes k b) @ fifo_inputs ops
    \<and> mb_ok b k' \<and> unat (mb_size (mailboxes k' b)) = unat (mb_size (mailboxes k b))"
  using assms by (rule mailbox.run_conserves) simp

text \<open>
  A word sent with \<open>rt_mb_urgent\<close> into a mailbox with room is the next one
  received, and the mailbox is then as before.
\<close>

theorem mb_urgent_overtakes:
  assumes "mb_ok b k" "mb_entry (mailboxes k b) \<noteq> mb_size (mailboxes k b)"
  shows "\<exists>k1 k2. mb_try_urgent b x k = Some k1 \<and> mb_try_get b k1 = Some (x, k2) \<and> mb_ok b k2
    \<and> mb_items (mailboxes k2 b) = mb_items (mailboxes k b)"
proof -
  have "mb_entry (mailboxes k b) < mb_size (mailboxes k b)"
    using assms le_neq_trans [of "mb_entry (mailboxes k b)"] by (simp add: mb_ok_def mb_wf_def)
  then have "length (mb_items (mailboxes k b)) < unat (mb_size (mailboxes k b))"
    by (simp add: word_less_nat_alt)
  with assms(1) show ?thesis by (intro mailbox.front_then_get) simp_all
qed

definition demo_mb :: kernel where
  "demo_mb = demo_kernel\<lparr>mailboxes := (\<lambda>_. \<lparr>mb_type = Class_MailBox, mb_static = True, mb_flag = 0,
     mb_msg_pool = [7, 8, 9], mb_size = 3, mb_entry = 1, mb_in_offset = 0, mb_out_offset = 2\<rparr>)\<rparr>"

lemma demo_mb_ok: "mb_ok 0 demo_mb"
  using demo_clock_ok by (simp add: mb_ok_def demo_mb_def mb_wf_def)

theorem mb_send_correct_witness:
  "\<exists>k'. rt_mb_send 0 5 demo_mb = Some (Done RT_EOK, k') \<and> mb_items (mailboxes k' 0) = [9, 5]"
  using mb_send_correct [OF demo_mb_ok, of 5]
  by (auto simp: demo_mb_def mb_items_def ring_items_def)

theorem mb_recv_correct_witness:
  "\<exists>k'. rt_mb_recv 0 0 demo_mb = Some (Done RT_EOK, Some 9, k') \<and> mb_items (mailboxes k' 0) = []"
  using mb_recv_correct [OF demo_mb_ok, of 0 0 0]
  by (auto simp: demo_mb_def mb_items_def ring_items_def)

theorem mb_urgent_overtakes_witness:
  "\<exists>k1 k2. mb_try_urgent 0 4 demo_mb = Some k1 \<and> mb_try_get 0 k1 = Some (4, k2)"
  using mb_urgent_overtakes [OF demo_mb_ok, of 4] by (auto simp: demo_mb_def)

theorem mb_fifo_order_witness:
  "\<exists>k' outs. fifo_run (mb_try_put 0) (mb_try_get 0) [Put 1, Get, Put 2] demo_mb = Some (outs, k')
     \<and> outs @ mb_items (mailboxes k' 0) = [9, 1, 2]"
proof -
  have i: "mb_items (mailboxes demo_mb 0) = [9]" "unat (mb_size (mailboxes demo_mb 0)) = 3"
    by (simp_all add: demo_mb_def mb_items_def ring_items_def)
  obtain k1 where k1: "mb_try_put 0 1 demo_mb = Some k1" "mb_ok 0 k1"
    "mb_items (mailboxes k1 0) = [9, 1]" "unat (mb_size (mailboxes k1 0)) = 3"
    using mailbox.put_room [OF demo_mb_ok, of 1] i by auto
  obtain k2 where k2: "mb_try_get 0 k1 = Some (9, k2)" "mb_ok 0 k2"
    "mb_items (mailboxes k2 0) = [1]" "unat (mb_size (mailboxes k2 0)) = 3"
    using mailbox.get_some [OF k1(2,3)] k1(4) by auto
  obtain k3 where k3: "mb_try_put 0 2 k2 = Some k3"
    using mailbox.put_room [OF k2(2), of 2] k2 by auto
  have run: "fifo_run (mb_try_put 0) (mb_try_get 0) [Put 1, Get, Put 2] demo_mb = Some ([9], k3)"
    using k1(1) k2(1) k3 by simp
  from mb_fifo_order [OF demo_mb_ok run] show ?thesis using run i by auto
qed

end
