(* ===== verification/Ipc_Mq.thy ===== *)
theory Ipc_Mq
  imports Ipc_Mailbox
begin

text \<open>
  Message queues (\<open>src/ipc.c\<close>): messages of a bounded size in a pool of nodes, linked into the
  list of the queued messages (with head and tail) and the list of the free ones. A node is
  named by its number in the pool. The lists are chains of \<open>next\<close> fields; the lemmas show that
  they hold every node exactly once and refine the queue to a bounded first-in first-out buffer
  of messages.
\<close>

subsection \<open>Operations\<close>

abbreviation (input) RT_MQ_ENTRY_MAX :: u16 where "RT_MQ_ENTRY_MAX \<equiv> 0xffff"

abbreviation upd_mq :: "oid \<Rightarrow> (rt_messagequeue \<Rightarrow> rt_messagequeue) \<Rightarrow> kernel \<Rightarrow> kernel" where
  "upd_mq q f k \<equiv> k\<lparr>msgqueues := (msgqueues k)(q := f (msgqueues k q))\<rparr>"

text \<open>The loop that links the nodes \<open>temp\<close>, \<dots>, \<open>max_msgs - 1\<close> into the free list.\<close>

definition mq_link_free :: "nat \<Rightarrow> rt_messagequeue \<Rightarrow> rt_messagequeue" where
  "mq_link_free temp mq = mq\<lparr>mq_msg_queue_free := Some temp,
     mq_msg_next := (mq_msg_next mq)(temp := mq_msg_queue_free mq)\<rparr>"

fun mq_init_loop :: "nat \<Rightarrow> rt_messagequeue \<Rightarrow> rt_messagequeue" where
  "mq_init_loop 0 mq = mq"
| "mq_init_loop (Suc temp) mq = mq_link_free temp (mq_init_loop temp mq)"

definition mq_init_lists :: "rt_messagequeue \<Rightarrow> rt_messagequeue" where
  "mq_init_lists mq =
     (let mq1 = mq\<lparr>mq_msg_queue_head := None, mq_msg_queue_tail := None, mq_msg_queue_free := None\<rparr>
      in (mq_init_loop (unat (mq_max_msgs mq1)) mq1)\<lparr>mq_entry := 0\<rparr>)"

definition rt_mq_init ::
  "oid \<Rightarrow> (nat \<Rightarrow> u8 list) \<Rightarrow> u32 \<Rightarrow> u32 \<Rightarrow> u8 \<Rightarrow> kernel \<Rightarrow> (rt_err_t \<times> kernel) option" where
  "rt_mq_init q msgpool msg_size pool_size flag k = do {
     rt_assert (flag = RT_IPC_FLAG_FIFO \<or> flag = RT_IPC_FLAG_PRIO);
     k1 \<leftarrow> rt_object_init_check (mq_type (msgqueues k q) = Class_MessageQueue) k;
     let k2 = ipc_object_init (QMq q) (upd_mq q (\<lambda>mq. mq\<lparr>mq_type := Class_MessageQueue,
                mq_static := True, mq_flag := flag\<rparr>) k1);
     let node_size = RT_ALIGN msg_size 8 + 4;
     rt_assert (node_size \<noteq> 0);
     let k3 = upd_mq q (\<lambda>mq. mq\<lparr>mq_msg_size := ucast msg_size,
                mq_max_msgs := ucast (pool_size div node_size), mq_msg_data := msgpool\<rparr>) k2;
     (if mq_max_msgs (msgqueues k3 q) = 0 then Some (- RT_EINVAL, k3)
      else Some (RT_EOK, ipc_object_init (QMqSender q) (upd_mq q mq_init_lists k3)))
   }"

definition rt_mq_detach :: "oid \<Rightarrow> kernel \<Rightarrow> (rt_err_t \<times> kernel) option" where
  "rt_mq_detach q k = do {
     rt_assert (mq_type (msgqueues k q) = Class_MessageQueue);
     rt_assert (mq_static (msgqueues k q));
     k1 \<leftarrow> ipc_list_resume_all (QMq q) k;
     k2 \<leftarrow> ipc_list_resume_all (QMqSender q) k1;
     Some (RT_EOK, upd_mq q (\<lambda>mq. mq\<lparr>mq_type := Class_Null, mq_static := False\<rparr>) k2)
   }"

definition rt_mq_create ::
  "oid option \<Rightarrow> (nat \<Rightarrow> u8 list) option \<Rightarrow> u32 \<Rightarrow> u32 \<Rightarrow> u8 \<Rightarrow> kernel
     \<Rightarrow> (oid option \<times> kernel) option" where
  "rt_mq_create alloc pool msg_size max_msgs flag k = do {
     rt_assert (flag = RT_IPC_FLAG_FIFO \<or> flag = RT_IPC_FLAG_PRIO);
     rt_debug_not_in_interrupt k;
     (case alloc of
        None \<Rightarrow> Some (None, k)
      | Some q \<Rightarrow>
          (let k1 = ipc_object_init (QMq q) (upd_mq q (\<lambda>mq. mq\<lparr>mq_type := Class_MessageQueue,
                 mq_static := False, mq_flag := flag\<rparr>) k);
               k2 = upd_mq q (\<lambda>mq. mq\<lparr>mq_msg_size := ucast msg_size,
                 mq_max_msgs := ucast max_msgs\<rparr>) k1
           in case pool of
                None \<Rightarrow> Some (None, upd_mq q (mq_type_update (\<lambda>_. Class_Null)) k2)
              | Some msgpool \<Rightarrow>
                  (let k3 = upd_mq q (\<lambda>mq. mq_init_lists (mq\<lparr>mq_msg_data := msgpool\<rparr>)) k2
                   in Some (Some q, ipc_object_init (QMqSender q) k3))))
   }"

definition rt_mq_delete :: "oid \<Rightarrow> kernel \<Rightarrow> (rt_err_t \<times> kernel) option" where
  "rt_mq_delete q k = do {
     rt_assert (mq_type (msgqueues k q) = Class_MessageQueue);
     rt_assert (\<not> mq_static (msgqueues k q));
     rt_debug_not_in_interrupt k;
     k1 \<leftarrow> ipc_list_resume_all (QMq q) k;
     k2 \<leftarrow> ipc_list_resume_all (QMqSender q) k1;
     Some (RT_EOK, upd_mq q (mq_type_update (\<lambda>_. Class_Null)) k2)
   }"

text \<open>
  \<open>rt_memcpy\<close> into the buffer behind a node. Messages are given as the list of their bytes, whose
  length is the argument \<open>size\<close> of the code.
\<close>

definition mq_copy_in :: "nat \<Rightarrow> u8 list \<Rightarrow> rt_messagequeue \<Rightarrow> rt_messagequeue" where
  "mq_copy_in msg buffer mq = mq\<lparr>mq_msg_data := (mq_msg_data mq)(msg :=
     buffer @ drop (length buffer) (mq_msg_data mq msg))\<rparr>"

definition mq_append :: "nat \<Rightarrow> rt_messagequeue \<Rightarrow> rt_messagequeue" where
  "mq_append msg mq =
     (let mq1 = (case mq_msg_queue_tail mq of
            Some tail \<Rightarrow> mq\<lparr>mq_msg_next := (mq_msg_next mq)(tail := Some msg)\<rparr>
          | None \<Rightarrow> mq);
          mq2 = mq1\<lparr>mq_msg_queue_tail := Some msg\<rparr>
      in if mq_msg_queue_head mq2 = None then mq2\<lparr>mq_msg_queue_head := Some msg\<rparr> else mq2)"

definition mq_prepend :: "nat \<Rightarrow> rt_messagequeue \<Rightarrow> rt_messagequeue" where
  "mq_prepend msg mq =
     (let mq1 = mq\<lparr>mq_msg_next := (mq_msg_next mq)(msg := mq_msg_queue_head mq),
                  mq_msg_queue_head := Some msg\<rparr>
      in if mq_msg_queue_tail mq1 = None then mq1\<lparr>mq_msg_queue_tail := Some msg\<rparr> else mq1)"

text \<open>The count and the wake-up at the end of a send.\<close>

definition mq_sent :: "oid \<Rightarrow> kernel \<Rightarrow> (rt_err_t \<times> kernel) option" where
  "mq_sent q k =
     (if mq_entry (msgqueues k q) < RT_MQ_ENTRY_MAX
      then resume_one (QMq q) (upd_mq q (\<lambda>mq. mq\<lparr>mq_entry := mq_entry mq + 1\<rparr>) k)
      else Some (- RT_EFULL, k))"

text \<open>
  A send in its three parts: the node leaves the free list at the end of the critical section that
  found it, is filled with the interrupts enabled, and is linked in a second critical section.
  \<open>Ipc_Mq_Calls\<close> interleaves these parts with those of other calls; \<open>mq_put\<close> runs them in one go.
\<close>

definition mq_alloc :: "oid \<Rightarrow> nat \<Rightarrow> kernel \<Rightarrow> kernel" where
  "mq_alloc q msg = upd_mq q (\<lambda>mq. mq\<lparr>mq_msg_queue_free := mq_msg_next mq msg\<rparr>)"

definition mq_fill :: "oid \<Rightarrow> nat \<Rightarrow> u8 list \<Rightarrow> kernel \<Rightarrow> kernel" where
  "mq_fill q msg buffer = upd_mq q (\<lambda>mq. mq_copy_in msg buffer
     (mq\<lparr>mq_msg_next := (mq_msg_next mq)(msg := None)\<rparr>))"

definition mq_link :: "oid \<Rightarrow> nat \<Rightarrow> kernel \<Rightarrow> (rt_err_t \<times> kernel) option" where
  "mq_link q msg k = mq_sent q (upd_mq q (mq_append msg) k)"

definition mq_put :: "oid \<Rightarrow> nat \<Rightarrow> u8 list \<Rightarrow> kernel \<Rightarrow> (rt_err_t \<times> kernel) option" where
  "mq_put q msg buffer k = mq_link q msg (mq_fill q msg buffer (mq_alloc q msg k))"

definition mq_send_loop ::
  "oid \<Rightarrow> u8 list \<Rightarrow> int \<Rightarrow> int \<Rightarrow> tid option \<Rightarrow> kernel \<Rightarrow> (outcome \<times> kernel) option" where
  "mq_send_loop q buffer timeout suspend_flag thread k =
     (case mq_msg_queue_free (msgqueues k q) of
        None \<Rightarrow> do {
          t \<leftarrow> thread;
          let k1 = upd_thread t (th_error_update (\<lambda>_. - RT_EINTR)) k;
          (if timeout = 0 then Some (Done (- RT_EFULL), k1)
           else do {
             (ret, k2) \<leftarrow> ipc_block (QMqSender q) t (mq_flag (msgqueues k1 q)) suspend_flag timeout k1;
             Some (if ret \<noteq> RT_EOK then (Done ret, k2) else (Blocked, k2))
           })
        }
      | Some msg \<Rightarrow> do {
          (ret, k1) \<leftarrow> mq_put q msg buffer k;
          Some (Done ret, k1)
        })"

definition rt_mq_send_wait_flag ::
  "oid \<Rightarrow> u8 list \<Rightarrow> int \<Rightarrow> int \<Rightarrow> kernel \<Rightarrow> (outcome \<times> kernel) option" where
  "rt_mq_send_wait_flag q buffer timeout suspend_flag k = do {
     rt_assert (mq_type (msgqueues k q) = Class_MessageQueue);
     rt_assert (buffer \<noteq> []);
     rt_debug_scheduler_available (timeout \<noteq> 0) k;
     (if unat (mq_msg_size (msgqueues k q)) < length buffer then Some (Done (- RT_ERROR), k)
      else (let thread = rt_thread_self k in
        if mq_msg_queue_free (msgqueues k q) = None \<and> timeout = 0
        then Some (Done (- RT_EFULL), k)
        else mq_send_loop q buffer timeout suspend_flag thread k))
   }"

definition mq_send_resume ::
  "oid \<Rightarrow> u8 list \<Rightarrow> int \<Rightarrow> int \<Rightarrow> rt_tick_t \<Rightarrow> tid \<Rightarrow> kernel \<Rightarrow> (outcome \<times> kernel) option" where
  "mq_send_resume q buffer timeout suspend_flag start t k =
     (if th_error (threads k t) \<noteq> RT_EOK then Some (Done (th_error (threads k t)), k)
      else mq_send_loop q buffer (shorten_timeout timeout start (rt_tick k)) suspend_flag (Some t) k)"

definition rt_mq_send_wait :: "oid \<Rightarrow> u8 list \<Rightarrow> int \<Rightarrow> kernel \<Rightarrow> (outcome \<times> kernel) option" where
  "rt_mq_send_wait q buffer timeout k = rt_mq_send_wait_flag q buffer timeout RT_UNINTERRUPTIBLE k"

definition rt_mq_send_wait_interruptible ::
  "oid \<Rightarrow> u8 list \<Rightarrow> int \<Rightarrow> kernel \<Rightarrow> (outcome \<times> kernel) option" where
  "rt_mq_send_wait_interruptible q buffer timeout k =
     rt_mq_send_wait_flag q buffer timeout RT_INTERRUPTIBLE k"

definition rt_mq_send_wait_killable ::
  "oid \<Rightarrow> u8 list \<Rightarrow> int \<Rightarrow> kernel \<Rightarrow> (outcome \<times> kernel) option" where
  "rt_mq_send_wait_killable q buffer timeout k =
     rt_mq_send_wait_flag q buffer timeout RT_KILLABLE k"

definition rt_mq_send :: "oid \<Rightarrow> u8 list \<Rightarrow> kernel \<Rightarrow> (outcome \<times> kernel) option" where
  "rt_mq_send q buffer k = rt_mq_send_wait q buffer 0 k"

definition rt_mq_send_interrupt :: "oid \<Rightarrow> u8 list \<Rightarrow> kernel \<Rightarrow> (outcome \<times> kernel) option" where
  "rt_mq_send_interrupt q buffer k = rt_mq_send_wait_interruptible q buffer 0 k"

definition rt_mq_send_killable :: "oid \<Rightarrow> u8 list \<Rightarrow> kernel \<Rightarrow> (outcome \<times> kernel) option" where
  "rt_mq_send_killable q buffer k = rt_mq_send_wait_killable q buffer 0 k"

text \<open>The last two parts of \<open>rt_mq_urgent\<close>; the first is that of a send.\<close>

definition mq_fill_urgent :: "oid \<Rightarrow> nat \<Rightarrow> u8 list \<Rightarrow> kernel \<Rightarrow> kernel" where
  "mq_fill_urgent q msg buffer = upd_mq q (mq_copy_in msg buffer)"

definition mq_link_front :: "oid \<Rightarrow> nat \<Rightarrow> kernel \<Rightarrow> (rt_err_t \<times> kernel) option" where
  "mq_link_front q msg k = mq_sent q (upd_mq q (mq_prepend msg) k)"

definition rt_mq_urgent :: "oid \<Rightarrow> u8 list \<Rightarrow> kernel \<Rightarrow> (rt_err_t \<times> kernel) option" where
  "rt_mq_urgent q buffer k = do {
     rt_assert (mq_type (msgqueues k q) = Class_MessageQueue);
     rt_assert (buffer \<noteq> []);
     (if unat (mq_msg_size (msgqueues k q)) < length buffer then Some (- RT_ERROR, k)
      else (case mq_msg_queue_free (msgqueues k q) of
        None \<Rightarrow> Some (- RT_EFULL, k)
      | Some msg \<Rightarrow> mq_link_front q msg (mq_fill_urgent q msg buffer (mq_alloc q msg k))))
   }"

text \<open>
  The end of \<open>_rt_mq_recv\<close>; the second component of the result is what is written to the
  receiver's buffer of \<open>sz\<close> bytes. Without a head the code reads a NULL pointer.
\<close>

definition mq_pop :: "nat \<Rightarrow> rt_messagequeue \<Rightarrow> rt_messagequeue" where
  "mq_pop msg mq = mq\<lparr>mq_msg_queue_head := mq_msg_next mq msg,
     mq_msg_queue_tail := (if mq_msg_queue_tail mq = Some msg then None else mq_msg_queue_tail mq)\<rparr>"

definition mq_free_node :: "nat \<Rightarrow> rt_messagequeue \<Rightarrow> rt_messagequeue" where
  "mq_free_node msg mq = mq\<lparr>mq_msg_next := (mq_msg_next mq)(msg := mq_msg_queue_free mq),
     mq_msg_queue_free := Some msg\<rparr>"

text \<open>
  A receive in its three parts: the node leaves the queue in a critical section, is copied with
  the interrupts enabled, and goes back to the free list in a second critical section. \<open>mq_get\<close>
  runs them in one go.
\<close>

definition mq_unlink :: "oid \<Rightarrow> nat \<Rightarrow> kernel \<Rightarrow> kernel" where
  "mq_unlink q msg = upd_mq q (\<lambda>mq. (mq_pop msg mq)\<lparr>mq_entry :=
     (if 0 < mq_entry mq then mq_entry mq - 1 else mq_entry mq)\<rparr>)"

definition mq_read :: "oid \<Rightarrow> nat \<Rightarrow> nat \<Rightarrow> kernel \<Rightarrow> u8 list" where
  "mq_read q msg sz k =
     (let mq = msgqueues k q in take (min sz (unat (mq_msg_size mq))) (mq_msg_data mq msg))"

definition mq_give_back :: "oid \<Rightarrow> nat \<Rightarrow> kernel \<Rightarrow> (rt_err_t \<times> kernel) option" where
  "mq_give_back q msg k = resume_one (QMqSender q) (upd_mq q (mq_free_node msg) k)"

definition mq_get :: "oid \<Rightarrow> nat \<Rightarrow> kernel \<Rightarrow> (rt_err_t \<times> u8 list \<times> kernel) option" where
  "mq_get q sz k = do {
     msg \<leftarrow> mq_msg_queue_head (msgqueues k q);
     let k1 = mq_unlink q msg k;
     let bytes = mq_read q msg sz k1;
     (ret, k2) \<leftarrow> mq_give_back q msg k1;
     Some (ret, bytes, k2)
   }"

definition mq_recv_loop ::
  "oid \<Rightarrow> nat \<Rightarrow> int \<Rightarrow> int \<Rightarrow> tid option \<Rightarrow> kernel \<Rightarrow> (outcome \<times> u8 list option \<times> kernel) option" where
  "mq_recv_loop q sz timeout suspend_flag thread k =
     (if mq_entry (msgqueues k q) = 0 then do {
        t \<leftarrow> thread;
        let k1 = upd_thread t (th_error_update (\<lambda>_. - RT_EINTR)) k;
        (if timeout = 0
         then Some (Done (- RT_ETIMEOUT), None, upd_thread t (th_error_update (\<lambda>_. - RT_ETIMEOUT)) k1)
         else do {
           (ret, k2) \<leftarrow> ipc_block (QMq q) t (mq_flag (msgqueues k1 q)) suspend_flag timeout k1;
           Some (if ret \<noteq> RT_EOK then (Done ret, None, k2) else (Blocked, None, k2))
         })
      } else do {
        (ret, bytes, k1) \<leftarrow> mq_get q sz k;
        Some (Done ret, Some bytes, k1)
      })"

definition rt_mq_recv_flag ::
  "oid \<Rightarrow> nat \<Rightarrow> int \<Rightarrow> int \<Rightarrow> kernel \<Rightarrow> (outcome \<times> u8 list option \<times> kernel) option" where
  "rt_mq_recv_flag q sz timeout suspend_flag k = do {
     rt_assert (mq_type (msgqueues k q) = Class_MessageQueue);
     rt_assert (sz \<noteq> 0);
     rt_debug_scheduler_available (timeout \<noteq> 0) k;
     let thread = rt_thread_self k;
     (if mq_entry (msgqueues k q) = 0 \<and> timeout = 0
      then Some (Done (- RT_ETIMEOUT), None, k)
      else mq_recv_loop q sz timeout suspend_flag thread k)
   }"

definition mq_recv_resume ::
  "oid \<Rightarrow> nat \<Rightarrow> int \<Rightarrow> int \<Rightarrow> rt_tick_t \<Rightarrow> tid \<Rightarrow> kernel \<Rightarrow> (outcome \<times> u8 list option \<times> kernel) option" where
  "mq_recv_resume q sz timeout suspend_flag start t k =
     (if th_error (threads k t) \<noteq> RT_EOK then Some (Done (th_error (threads k t)), None, k)
      else mq_recv_loop q sz (shorten_timeout timeout start (rt_tick k)) suspend_flag (Some t) k)"

definition rt_mq_recv :: "oid \<Rightarrow> nat \<Rightarrow> int \<Rightarrow> kernel \<Rightarrow> (outcome \<times> u8 list option \<times> kernel) option" where
  "rt_mq_recv q sz timeout k = rt_mq_recv_flag q sz timeout RT_UNINTERRUPTIBLE k"

definition rt_mq_recv_interruptible ::
  "oid \<Rightarrow> nat \<Rightarrow> int \<Rightarrow> kernel \<Rightarrow> (outcome \<times> u8 list option \<times> kernel) option" where
  "rt_mq_recv_interruptible q sz timeout k = rt_mq_recv_flag q sz timeout RT_INTERRUPTIBLE k"

definition rt_mq_recv_killable ::
  "oid \<Rightarrow> nat \<Rightarrow> int \<Rightarrow> kernel \<Rightarrow> (outcome \<times> u8 list option \<times> kernel) option" where
  "rt_mq_recv_killable q sz timeout k = rt_mq_recv_flag q sz timeout RT_KILLABLE k"

text \<open>The loop of \<open>RT_IPC_CMD_RESET\<close> that frees every queued message.\<close>

partial_function (option) mq_reset_loop :: "rt_messagequeue \<Rightarrow> rt_messagequeue option" where
  "mq_reset_loop mq = (case mq_msg_queue_head mq of
       None \<Rightarrow> Some mq
     | Some msg \<Rightarrow> mq_reset_loop (mq_free_node msg (mq_pop msg mq)))"

definition rt_mq_control :: "oid \<Rightarrow> bool \<Rightarrow> kernel \<Rightarrow> (rt_err_t \<times> kernel) option" where
  "rt_mq_control q reset k = do {
     rt_assert (mq_type (msgqueues k q) = Class_MessageQueue);
     (if reset then do {
        k1 \<leftarrow> ipc_list_resume_all (QMq q) k;
        k2 \<leftarrow> ipc_list_resume_all (QMqSender q) k1;
        mq \<leftarrow> mq_reset_loop (msgqueues k2 q);
        k3 \<leftarrow> rt_schedule (upd_mq q (\<lambda>_. mq\<lparr>mq_entry := 0\<rparr>) k2);
        Some (RT_EOK, k3)
      } else Some (- RT_ERROR, k))
   }"


subsection \<open>Chains of nodes\<close>

fun chain :: "(nat \<Rightarrow> nat option) \<Rightarrow> nat option \<Rightarrow> nat list \<Rightarrow> bool" where
  "chain nx h [] \<longleftrightarrow> h = None"
| "chain nx h (x # xs) \<longleftrightarrow> h = Some x \<and> chain nx (nx x) xs"

fun chain_nodes :: "nat \<Rightarrow> (nat \<Rightarrow> nat option) \<Rightarrow> nat option \<Rightarrow> nat list" where
  "chain_nodes (Suc n) nx (Some x) = x # chain_nodes n nx (nx x)"
| "chain_nodes _ nx _ = []"

lemma chain_nodes_eq: "chain nx h xs \<Longrightarrow> chain_nodes (length xs) nx h = xs"
  by (induction nx h xs rule: chain.induct) simp_all

lemma chain_upd [simp]: "n \<notin> set xs \<Longrightarrow> chain (nx(n := v)) h xs = chain nx h xs"
  by (induction nx h xs rule: chain.induct) auto

lemma chain_upd_if [simp]:
  "n \<notin> set xs \<Longrightarrow> chain (\<lambda>a. if a = n then v else nx a) h xs = chain nx h xs"
  using chain_upd [of n xs nx v h] by (simp add: fun_upd_def)

lemma chain_snoc:
  assumes "chain nx h xs" "xs \<noteq> []" "m \<notin> set xs" "distinct xs" "nx m = None"
  shows "chain (nx(last xs := Some m)) h (xs @ [m])"
  using assms
proof (induction xs arbitrary: h)
  case Nil
  then show ?case by simp
next
  case (Cons x xs)
  then show ?case
  proof (cases "xs = []")
    case True
    then show ?thesis using Cons.prems by auto
  next
    case False
    then have "last xs \<noteq> x" using Cons.prems(4) last_in_set [OF False] by auto
    then show ?thesis using Cons False by auto
  qed
qed

definition mq_lists :: "rt_messagequeue \<Rightarrow> nat list \<Rightarrow> nat list \<Rightarrow> bool" where
  "mq_lists mq used fr \<longleftrightarrow> chain (mq_msg_next mq) (mq_msg_queue_head mq) used
     \<and> chain (mq_msg_next mq) (mq_msg_queue_free mq) fr \<and> distinct (used @ fr)
     \<and> mq_msg_queue_tail mq = (if used = [] then None else Some (last used))
     \<and> length used = unat (mq_entry mq) \<and> length used + length fr = unat (mq_max_msgs mq)
     \<and> (\<forall>n \<in> set (used @ fr). length (mq_msg_data mq n) = unat (mq_msg_size mq))"

definition mq_items :: "rt_messagequeue \<Rightarrow> u8 list list" where
  "mq_items mq = map (mq_msg_data mq)
     (chain_nodes (unat (mq_entry mq)) (mq_msg_next mq) (mq_msg_queue_head mq))"

lemma mq_items_eq:
  assumes "mq_lists mq used fr"
  shows "mq_items mq = map (mq_msg_data mq) used"
proof -
  have "chain_nodes (length used) (mq_msg_next mq) (mq_msg_queue_head mq) = used"
    using assms by (intro chain_nodes_eq) (simp add: mq_lists_def)
  then show ?thesis using assms by (simp add: mq_items_def mq_lists_def)
qed

text \<open>A queued node and a free node, seen from the heads of the two lists.\<close>

lemma mq_lists_head:
  assumes "mq_lists mq used fr"
  shows "mq_msg_queue_head mq = (case used of [] \<Rightarrow> None | n # _ \<Rightarrow> Some n)"
    "mq_msg_queue_free mq = (case fr of [] \<Rightarrow> None | n # _ \<Rightarrow> Some n)"
  using assms by (auto simp: mq_lists_def split: list.splits)

lemma mq_lists_entry_lt:
  assumes "mq_lists mq used (m # fr)"
  shows "mq_entry mq < RT_MQ_ENTRY_MAX" "unat (mq_entry mq + 1) = Suc (length used)"
proof -
  have "unat (mq_max_msgs mq) < 65536" using unsigned_less [of "mq_max_msgs mq", where ?'a = nat] by simp
  then have "unat (mq_entry mq) < 65535" using assms by (simp add: mq_lists_def)
  then show lt: "mq_entry mq < RT_MQ_ENTRY_MAX" by (simp add: word_less_nat_alt)
  show "unat (mq_entry mq + 1) = Suc (length used)"
    using unat_inc [OF lt] assms by (simp add: mq_lists_def)
qed

text \<open>The message as it is stored: the sent bytes over the old contents of the node.\<close>

lemma mq_append_lists:
  assumes l: "mq_lists mq used (m # fr)" and sz: "length buffer \<le> unat (mq_msg_size mq)"
    and mq1: "mq1 = mq\<lparr>mq_msg_queue_free := mq_msg_next mq m, mq_msg_next := (mq_msg_next mq)(m := None)\<rparr>"
    and mq': "mq' = (mq_append m (mq_copy_in m buffer mq1))\<lparr>mq_entry := mq_entry mq + 1\<rparr>"
  shows "mq_lists mq' (used @ [m]) fr"
    "mq_items mq' = mq_items mq @ [buffer @ drop (length buffer) (mq_msg_data mq m)]"
proof -
  have c: "chain (mq_msg_next mq) (mq_msg_queue_head mq) used"
    "chain (mq_msg_next mq) (mq_msg_next mq m) fr" "mq_msg_queue_free mq = Some m"
    and d: "distinct (used @ m # fr)"
    and tl: "mq_msg_queue_tail mq = (if used = [] then None else Some (last used))"
    using l by (simp_all add: mq_lists_def)
  have mu: "m \<notin> set used" "m \<notin> set fr" using d by simp_all
  have lu: "used \<noteq> [] \<Longrightarrow> last used \<notin> set fr" "used \<noteq> [] \<Longrightarrow> last used \<noteq> m"
    using d last_in_set [of used] by (auto simp: disjoint_iff)
  have "mq_lists mq' (used @ [m]) fr"
  proof (cases "used = []")
    case True
    then show ?thesis
      using l c mu tl sz mq_lists_entry_lt(2) [OF l]
      by (auto simp: mq' mq1 mq_append_def mq_copy_in_def mq_lists_def)
  next
    case False
    have "chain ((mq_msg_next mq)(m := None, last used := Some m)) (mq_msg_queue_head mq) (used @ [m])"
      using c(1) False mu d by (intro chain_snoc) simp_all
    moreover obtain h where "mq_msg_queue_head mq = Some h" using c(1) False by (cases used) auto
    ultimately show ?thesis
      using l c mu tl sz mq_lists_entry_lt(2) [OF l] False lu
      by (auto simp: mq' mq1 mq_append_def mq_copy_in_def mq_lists_def fun_upd_twist)
  qed
  then show "mq_lists mq' (used @ [m]) fr" .
  have data: "mq_msg_data mq' = (mq_msg_data mq)(m := buffer @ drop (length buffer) (mq_msg_data mq m))"
    by (simp add: mq' mq1 mq_append_def mq_copy_in_def Let_def split: option.split)
  have "map (mq_msg_data mq') used = map (mq_msg_data mq) used"
    using mu by (intro map_cong refl) (auto simp: data)
  then show "mq_items mq' = mq_items mq @ [buffer @ drop (length buffer) (mq_msg_data mq m)]"
    unfolding mq_items_eq [OF l] mq_items_eq [OF \<open>mq_lists mq' (used @ [m]) fr\<close>] by (simp add: data)
qed

lemma mq_prepend_lists:
  assumes l: "mq_lists mq used (m # fr)" and sz: "length buffer \<le> unat (mq_msg_size mq)"
    and mq1: "mq1 = mq\<lparr>mq_msg_queue_free := mq_msg_next mq m\<rparr>"
    and mq': "mq' = (mq_prepend m (mq_copy_in m buffer mq1))\<lparr>mq_entry := mq_entry mq + 1\<rparr>"
  shows "mq_lists mq' (m # used) fr"
    "mq_items mq' = (buffer @ drop (length buffer) (mq_msg_data mq m)) # mq_items mq"
proof -
  have c: "chain (mq_msg_next mq) (mq_msg_queue_head mq) used"
    "chain (mq_msg_next mq) (mq_msg_next mq m) fr"
    and d: "distinct (used @ m # fr)"
    and tl: "mq_msg_queue_tail mq = (if used = [] then None else Some (last used))"
    using l by (simp_all add: mq_lists_def)
  have mu: "m \<notin> set used" "m \<notin> set fr" using d by simp_all
  show ok: "mq_lists mq' (m # used) fr"
    using l c mu tl sz mq_lists_entry_lt(2) [OF l]
    by (auto simp: mq' mq1 mq_prepend_def mq_copy_in_def mq_lists_def)
  have data: "mq_msg_data mq' = (mq_msg_data mq)(m := buffer @ drop (length buffer) (mq_msg_data mq m))"
    by (simp add: mq' mq1 mq_prepend_def mq_copy_in_def Let_def)
  have "map (mq_msg_data mq') used = map (mq_msg_data mq) used"
    using mu by (intro map_cong refl) (auto simp: data)
  then show "mq_items mq' = (buffer @ drop (length buffer) (mq_msg_data mq m)) # mq_items mq"
    unfolding mq_items_eq [OF l] mq_items_eq [OF ok] by (simp add: data)
qed

lemma mq_get_lists:
  assumes l: "mq_lists mq (m # used) fr"
    and mq': "mq' = mq_free_node m ((mq_pop m mq)\<lparr>mq_entry := mq_entry mq - 1\<rparr>)"
  shows "mq_lists mq' used (m # fr)" "mq_items mq = mq_msg_data mq m # mq_items mq'"
    "mq_entry mq \<noteq> 0"
proof -
  have c: "chain (mq_msg_next mq) (mq_msg_next mq m) used"
    "chain (mq_msg_next mq) (mq_msg_queue_free mq) fr"
    and d: "distinct (m # used @ fr)" and e: "Suc (length used) = unat (mq_entry mq)"
    using l by (simp_all add: mq_lists_def)
  have mu: "m \<notin> set used" "m \<notin> set fr" using d by simp_all
  show e0: "mq_entry mq \<noteq> 0" using e by auto
  have "unat (mq_entry mq - 1) = length used" using unat_dec [OF e0] e by simp
  then show ok: "mq_lists mq' used (m # fr)"
    using l c mu last_in_set [of used] by (auto simp: mq' mq_free_node_def mq_pop_def mq_lists_def)
  show "mq_items mq = mq_msg_data mq m # mq_items mq'"
    unfolding mq_items_eq [OF l] mq_items_eq [OF ok] by (simp add: mq' mq_free_node_def mq_pop_def)
qed

lemma mq_init_loop_sel [simp]:
  "mq_max_msgs (mq_init_loop n mq) = mq_max_msgs mq" "mq_msg_size (mq_init_loop n mq) = mq_msg_size mq"
  "mq_msg_data (mq_init_loop n mq) = mq_msg_data mq" "mq_flag (mq_init_loop n mq) = mq_flag mq"
  "mq_type (mq_init_loop n mq) = mq_type mq" "mq_static (mq_init_loop n mq) = mq_static mq"
  "mq_msg_queue_head (mq_init_loop n mq) = mq_msg_queue_head mq"
  "mq_msg_queue_tail (mq_init_loop n mq) = mq_msg_queue_tail mq"
  by (induction n) (simp_all add: mq_link_free_def)

lemma mq_init_loop_chain:
  "mq_msg_queue_free mq = None \<Longrightarrow>
    chain (mq_msg_next (mq_init_loop n mq)) (mq_msg_queue_free (mq_init_loop n mq)) (rev [0..<n])"
  by (induction n) (simp_all add: mq_link_free_def)

lemma mq_init_lists_ok:
  assumes "\<forall>n < unat (mq_max_msgs mq). length (mq_msg_data mq n) = unat (mq_msg_size mq)"
  shows "mq_lists (mq_init_lists mq) [] (rev [0..<unat (mq_max_msgs mq)])"
    "mq_items (mq_init_lists mq) = []"
proof -
  let ?mq = "mq\<lparr>mq_msg_queue_head := None, mq_msg_queue_tail := None, mq_msg_queue_free := None\<rparr>"
  show "mq_lists (mq_init_lists mq) [] (rev [0..<unat (mq_max_msgs mq)])"
    using mq_init_loop_chain [of ?mq "unat (mq_max_msgs mq)"] assms
    by (simp add: mq_lists_def mq_init_lists_def Let_def)
  from mq_items_eq [OF this] show "mq_items (mq_init_lists mq) = []" by simp
qed

text \<open>The reset loop ends and moves every queued node to the free list.\<close>

lemma mq_reset_loop_spec:
  assumes "chain (mq_msg_next mq) (mq_msg_queue_head mq) used"
    "chain (mq_msg_next mq) (mq_msg_queue_free mq) fr" "distinct (used @ fr)"
    "mq_msg_queue_tail mq = (if used = [] then None else Some (last used))"
  shows "\<exists>nx fh. mq_reset_loop mq = Some (mq\<lparr>mq_msg_queue_head := None, mq_msg_queue_tail := None,
      mq_msg_queue_free := fh, mq_msg_next := nx\<rparr>) \<and> chain nx fh (rev used @ fr)"
  using assms
proof (induction used arbitrary: mq fr)
  case Nil
  then have "mq\<lparr>mq_msg_queue_head := None, mq_msg_queue_tail := None,
      mq_msg_queue_free := mq_msg_queue_free mq, mq_msg_next := mq_msg_next mq\<rparr> = mq" by simp
  then show ?case using Nil
    by (intro exI [of _ "mq_msg_next mq"] exI [of _ "mq_msg_queue_free mq"], subst mq_reset_loop.simps)
      auto
next
  case (Cons m used)
  let ?mq = "mq_free_node m (mq_pop m mq)"
  have mu: "m \<notin> set used" "m \<notin> set fr" using Cons.prems(3) by simp_all
  have "\<exists>nx fh. mq_reset_loop ?mq = Some (?mq\<lparr>mq_msg_queue_head := None, mq_msg_queue_tail := None,
      mq_msg_queue_free := fh, mq_msg_next := nx\<rparr>) \<and> chain nx fh (rev used @ m # fr)"
    by (rule Cons.IH)
      (use Cons.prems mu last_in_set [of used] in \<open>auto simp: mq_free_node_def mq_pop_def\<close>)
  moreover have "mq_reset_loop mq = mq_reset_loop ?mq"
    using Cons.prems(1) by (subst mq_reset_loop.simps) simp
  ultimately show ?case by (simp add: mq_free_node_def mq_pop_def)
qed


subsection \<open>Sending and receiving without waiting\<close>

definition mq_wf :: "rt_messagequeue \<Rightarrow> bool" where
  "mq_wf mq \<longleftrightarrow> mq_type mq = Class_MessageQueue
     \<and> (mq_flag mq = RT_IPC_FLAG_FIFO \<or> mq_flag mq = RT_IPC_FLAG_PRIO)
     \<and> 0 < mq_msg_size mq \<and> (\<exists>used fr. mq_lists mq used fr)"

definition mq_ok :: "oid \<Rightarrow> kernel \<Rightarrow> bool" where
  "mq_ok q k \<longleftrightarrow> clock_ok k \<and> mq_wf (msgqueues k q)"

definition mq_msg_ok :: "rt_messagequeue \<Rightarrow> u8 list \<Rightarrow> bool" where
  "mq_msg_ok mq x \<longleftrightarrow> length x = unat (mq_msg_size mq)"

lemma mq_wfE:
  assumes "mq_ok q k"
  obtains used fr where "mq_lists (msgqueues k q) used fr" "clock_ok k"
    "length (mq_items (msgqueues k q)) = length used"
    "length used + length fr = unat (mq_max_msgs (msgqueues k q))"
proof -
  obtain used fr where l: "mq_lists (msgqueues k q) used fr"
    using assms unfolding mq_ok_def mq_wf_def by blast
  then show ?thesis
    using that [OF l] assms by (simp add: mq_items_eq [OF l] mq_ok_def mq_lists_def)
qed

text \<open>The end of a send, from a state where the message is linked but not counted.\<close>

lemma mq_sent_spec:
  assumes k: "clock_ok k" and wf: "mq_wf ((msgqueues k q)\<lparr>mq_entry := mq_entry (msgqueues k q) + 1\<rparr>)"
    and lt: "mq_entry (msgqueues k q) < RT_MQ_ENTRY_MAX"
  obtains k' where "mq_sent q k = Some (RT_EOK, k')" "mq_ok q k'"
    "msgqueues k' = (msgqueues k)(q := (msgqueues k q)\<lparr>mq_entry := mq_entry (msgqueues k q) + 1\<rparr>)"
    "tq k' (QMq q) = tl (tq k (QMq q))"
    "\<forall>t ts. tq k (QMq q) = t # ts \<longrightarrow> th_error (threads k' t) = RT_EOK
       \<and> (thread_state k' t = RT_THREAD_READY \<or> thread_state k' t = RT_THREAD_RUNNING)"
proof -
  let ?k1 = "upd_mq q (\<lambda>mq. mq\<lparr>mq_entry := mq_entry mq + 1\<rparr>) k"
  have c1: "clock_ok ?k1" using k by simp
  obtain k' where k': "resume_one (QMq q) ?k1 = Some (RT_EOK, k')" "clock_ok k'"
    "tq k' (QMq q) = tl (tq ?k1 (QMq q))" "ipc_frame ?k1 k'"
    "\<forall>t ts. tq ?k1 (QMq q) = t # ts \<longrightarrow> th_error (threads k' t) = RT_EOK
       \<and> (thread_state k' t = RT_THREAD_READY \<or> thread_state k' t = RT_THREAD_RUNNING)"
    by (rule resume_one_spec [OF c1, of "QMq q"]) simp_all
  have mq: "msgqueues k' = msgqueues ?k1" using ipc_frame_sel [OF k'(4)] by simp
  show ?thesis
    using that [of k'] k' mq wf lt by (simp add: mq_sent_def mq_ok_def)
qed

lemma mq_send_spec:
  assumes k: "mq_ok q k" and b: "buffer \<noteq> []"
  shows "if unat (mq_msg_size (msgqueues k q)) < length buffer
    then rt_mq_send q buffer k = Some (Done (- RT_ERROR), k)
    else if length (mq_items (msgqueues k q)) = unat (mq_max_msgs (msgqueues k q))
    then rt_mq_send q buffer k = Some (Done (- RT_EFULL), k)
    else \<exists>k' x. rt_mq_send q buffer k = Some (Done RT_EOK, k') \<and> mq_ok q k'
      \<and> mq_items (msgqueues k' q) = mq_items (msgqueues k q) @ [x]
      \<and> take (length buffer) x = buffer \<and> mq_msg_ok (msgqueues k q) x
      \<and> mq_msg_size (msgqueues k' q) = mq_msg_size (msgqueues k q)
      \<and> mq_max_msgs (msgqueues k' q) = mq_max_msgs (msgqueues k q)
      \<and> tq k' (QMq q) = tl (tq k (QMq q))
      \<and> (\<forall>t ts. tq k (QMq q) = t # ts \<longrightarrow> th_error (threads k' t) = RT_EOK
           \<and> (thread_state k' t = RT_THREAD_READY \<or> thread_state k' t = RT_THREAD_RUNNING))"
proof -
  let ?mq = "msgqueues k q"
  obtain used fr where l: "mq_lists ?mq used fr" and ck: "clock_ok k"
    and len: "length (mq_items ?mq) = length used" "length used + length fr = unat (mq_max_msgs ?mq)"
    by (rule mq_wfE [OF k])
  have ty: "mq_type ?mq = Class_MessageQueue" using k by (simp add: mq_ok_def mq_wf_def)
  note d = rt_mq_send_def rt_mq_send_wait_def rt_mq_send_wait_flag_def rt_debug_scheduler_available_eq
  show ?thesis
  proof (cases "unat (mq_msg_size ?mq) < length buffer")
    case True
    then show ?thesis using ty b by (simp add: d)
  next
    case fits: False
    show ?thesis
    proof (cases fr)
      case Nil
      then show ?thesis using ty b fits len mq_lists_head(2) [OF l] by (simp add: d)
    next
      case (Cons m fr')
      have l': "mq_lists ?mq used (m # fr')" using l Cons by simp
      let ?mq1 = "?mq\<lparr>mq_msg_queue_free := mq_msg_next ?mq m,
         mq_msg_next := (mq_msg_next ?mq)(m := None)\<rparr>"
      let ?mq2 = "mq_append m (mq_copy_in m buffer ?mq1)"
      let ?k2 = "upd_mq q (\<lambda>_. ?mq2) k"
      let ?x = "buffer @ drop (length buffer) (mq_msg_data ?mq m)"
      have sel: "mq_entry ?mq2 = mq_entry ?mq" "mq_type ?mq2 = mq_type ?mq" "mq_flag ?mq2 = mq_flag ?mq"
        "mq_msg_size ?mq2 = mq_msg_size ?mq" "mq_max_msgs ?mq2 = mq_max_msgs ?mq"
        by (simp_all add: mq_append_def mq_copy_in_def Let_def split: option.split)
      note a = mq_append_lists [OF l' _ refl refl, of buffer]
      have wf: "mq_wf ((msgqueues ?k2 q)\<lparr>mq_entry := mq_entry (msgqueues ?k2 q) + 1\<rparr>)"
        using a(1) fits k sel by (auto simp: mq_wf_def mq_ok_def)
      have lt: "mq_entry (msgqueues ?k2 q) < RT_MQ_ENTRY_MAX"
        using mq_lists_entry_lt(1) [OF l'] sel by simp
      have c2: "clock_ok ?k2" using ck by simp
      obtain k' where k': "mq_sent q ?k2 = Some (RT_EOK, k')" "mq_ok q k'"
        "msgqueues k' = (msgqueues ?k2)(q := (msgqueues ?k2 q)\<lparr>mq_entry := mq_entry (msgqueues ?k2 q) + 1\<rparr>)"
        "tq k' (QMq q) = tl (tq ?k2 (QMq q))"
        "\<forall>t ts. tq ?k2 (QMq q) = t # ts \<longrightarrow> th_error (threads k' t) = RT_EOK
           \<and> (thread_state k' t = RT_THREAD_READY \<or> thread_state k' t = RT_THREAD_RUNNING)"
        by (rule mq_sent_spec [OF c2 wf lt])
      have fh: "mq_msg_queue_free ?mq = Some m" using mq_lists_head(2) [OF l'] by simp
      have run: "rt_mq_send q buffer k = Some (Done RT_EOK, k')"
        using ty b fits fh k'(1) by (simp add: d mq_send_loop_def mq_put_def mq_alloc_def mq_fill_def mq_link_def)
      have "length (mq_msg_data ?mq m) = unat (mq_msg_size ?mq)" using l' by (simp add: mq_lists_def)
      then have x: "mq_msg_ok ?mq ?x" "take (length buffer) ?x = buffer"
        using fits by (simp_all add: mq_msg_ok_def)
      have "mq_items (msgqueues k' q) = mq_items ?mq @ [?x]"
        using a(2) fits k'(3) sel by simp
      then have "\<exists>k' x. rt_mq_send q buffer k = Some (Done RT_EOK, k') \<and> mq_ok q k'
        \<and> mq_items (msgqueues k' q) = mq_items (msgqueues k q) @ [x]
        \<and> take (length buffer) x = buffer \<and> mq_msg_ok (msgqueues k q) x
        \<and> mq_msg_size (msgqueues k' q) = mq_msg_size (msgqueues k q)
        \<and> mq_max_msgs (msgqueues k' q) = mq_max_msgs (msgqueues k q)
        \<and> tq k' (QMq q) = tl (tq k (QMq q))
        \<and> (\<forall>t ts. tq k (QMq q) = t # ts \<longrightarrow> th_error (threads k' t) = RT_EOK
             \<and> (thread_state k' t = RT_THREAD_READY \<or> thread_state k' t = RT_THREAD_RUNNING))"
        using run x k'(2-5) sel by (intro exI [of _ k'] exI [of _ ?x]) simp
      then show ?thesis using fits len Cons by simp
    qed
  qed
qed

text \<open>
  A message longer than the queue's messages is refused with
  \<open>-RT_ERROR\<close>, a full queue with \<open>-RT_EFULL\<close>, and nothing changes. Otherwise the call returns
  \<open>RT_EOK\<close>, the last message of the queue begins with the bytes sent, the nodes are all still in
  exactly one of the two lists, and the first waiting receiver is ready, its error \<open>RT_EOK\<close>.
\<close>

theorem mq_send_correct:
  assumes k: "mq_ok q k" and b: "buffer \<noteq> []"
  shows "if unat (mq_msg_size (msgqueues k q)) < length buffer
    then rt_mq_send q buffer k = Some (Done (- RT_ERROR), k)
    else if length (mq_items (msgqueues k q)) = unat (mq_max_msgs (msgqueues k q))
    then rt_mq_send q buffer k = Some (Done (- RT_EFULL), k)
    else \<exists>k' x. rt_mq_send q buffer k = Some (Done RT_EOK, k') \<and> mq_ok q k'
      \<and> mq_items (msgqueues k' q) = mq_items (msgqueues k q) @ [x]
      \<and> take (length buffer) x = buffer \<and> mq_msg_ok (msgqueues k q) x
      \<and> mq_msg_size (msgqueues k' q) = mq_msg_size (msgqueues k q)
      \<and> mq_max_msgs (msgqueues k' q) = mq_max_msgs (msgqueues k q)
      \<and> tq k' (QMq q) = tl (tq k (QMq q))
      \<and> (\<forall>t ts. tq k (QMq q) = t # ts \<longrightarrow> th_error (threads k' t) = RT_EOK
           \<and> (thread_state k' t = RT_THREAD_READY \<or> thread_state k' t = RT_THREAD_RUNNING))"
  using assms by (rule mq_send_spec)

lemma mq_urgent_spec:
  assumes k: "mq_ok q k" and b: "buffer \<noteq> []" "length buffer = unat (mq_msg_size (msgqueues k q))"
  shows "if length (mq_items (msgqueues k q)) = unat (mq_max_msgs (msgqueues k q))
    then rt_mq_urgent q buffer k = Some (- RT_EFULL, k)
    else \<exists>k'. rt_mq_urgent q buffer k = Some (RT_EOK, k') \<and> mq_ok q k'
      \<and> mq_items (msgqueues k' q) = buffer # mq_items (msgqueues k q)
      \<and> mq_msg_size (msgqueues k' q) = mq_msg_size (msgqueues k q)
      \<and> mq_max_msgs (msgqueues k' q) = mq_max_msgs (msgqueues k q)"
proof -
  let ?mq = "msgqueues k q"
  obtain used fr where l: "mq_lists ?mq used fr" and ck: "clock_ok k"
    and len: "length (mq_items ?mq) = length used" "length used + length fr = unat (mq_max_msgs ?mq)"
    by (rule mq_wfE [OF k])
  have ty: "mq_type ?mq = Class_MessageQueue" using k by (simp add: mq_ok_def mq_wf_def)
  show ?thesis
  proof (cases fr)
    case Nil
    then show ?thesis using ty b len mq_lists_head(2) [OF l] by (simp add: rt_mq_urgent_def)
  next
    case (Cons m fr')
    have l': "mq_lists ?mq used (m # fr')" using l Cons by simp
    let ?mq1 = "?mq\<lparr>mq_msg_queue_free := mq_msg_next ?mq m\<rparr>"
    let ?mq2 = "mq_prepend m (mq_copy_in m buffer ?mq1)"
    let ?k2 = "upd_mq q (\<lambda>_. ?mq2) k"
    have sel: "mq_entry ?mq2 = mq_entry ?mq" "mq_type ?mq2 = mq_type ?mq" "mq_flag ?mq2 = mq_flag ?mq"
      "mq_msg_size ?mq2 = mq_msg_size ?mq" "mq_max_msgs ?mq2 = mq_max_msgs ?mq"
      by (simp_all add: mq_prepend_def mq_copy_in_def Let_def)
    note a = mq_prepend_lists [OF l' _ refl refl, of buffer]
    have wf: "mq_wf ((msgqueues ?k2 q)\<lparr>mq_entry := mq_entry (msgqueues ?k2 q) + 1\<rparr>)"
      using a(1) b k sel by (auto simp: mq_wf_def mq_ok_def)
    have lt: "mq_entry (msgqueues ?k2 q) < RT_MQ_ENTRY_MAX"
      using mq_lists_entry_lt(1) [OF l'] sel by simp
    have c2: "clock_ok ?k2" using ck by simp
    obtain k' where k': "mq_sent q ?k2 = Some (RT_EOK, k')" "mq_ok q k'"
      "msgqueues k' = (msgqueues ?k2)(q := (msgqueues ?k2 q)\<lparr>mq_entry := mq_entry (msgqueues ?k2 q) + 1\<rparr>)"
      by (rule mq_sent_spec [OF c2 wf lt])
    have fh: "mq_msg_queue_free ?mq = Some m" using mq_lists_head(2) [OF l'] by simp
    have run: "rt_mq_urgent q buffer k = Some (RT_EOK, k')"
      using ty b fh k'(1) by (simp add: rt_mq_urgent_def mq_alloc_def mq_fill_urgent_def mq_link_front_def)
    have "length (mq_msg_data ?mq m) = unat (mq_msg_size ?mq)" using l' by (simp add: mq_lists_def)
    then have "mq_items (msgqueues k' q) = buffer # mq_items ?mq"
      using a(2) b k'(3) sel by simp
    then show ?thesis using run k'(2,3) sel len Cons by simp
  qed
qed

lemma mq_recv_spec:
  assumes k: "mq_ok q k" and sz: "sz \<noteq> 0"
  shows "case mq_items (msgqueues k q) of
      [] \<Rightarrow> rt_mq_recv q sz 0 k = Some (Done (- RT_ETIMEOUT), None, k)
    | x # xs \<Rightarrow> \<exists>k'. rt_mq_recv q sz 0 k = Some (Done RT_EOK, Some (take sz x), k') \<and> mq_ok q k'
        \<and> (\<forall>t. th_error (threads k t) = RT_EOK \<longrightarrow>
             mq_recv_resume q sz timeout f start t k = Some (Done RT_EOK, Some (take sz x), k'))
        \<and> mq_msg_ok (msgqueues k q) x \<and> mq_items (msgqueues k' q) = xs
        \<and> mq_msg_size (msgqueues k' q) = mq_msg_size (msgqueues k q)
        \<and> mq_max_msgs (msgqueues k' q) = mq_max_msgs (msgqueues k q)
        \<and> tq k' (QMqSender q) = tl (tq k (QMqSender q))"
proof -
  let ?mq = "msgqueues k q"
  obtain used fr where l: "mq_lists ?mq used fr" and ck: "clock_ok k"
    by (rule mq_wfE [OF k])
  have ty: "mq_type ?mq = Class_MessageQueue" using k by (simp add: mq_ok_def mq_wf_def)
  note d = rt_mq_recv_def rt_mq_recv_flag_def rt_debug_scheduler_available_eq
  show ?thesis
  proof (cases used)
    case Nil
    then have "mq_entry ?mq = 0" using l by (simp add: mq_lists_def unat_eq_0 flip: unat_eq_0)
    then show ?thesis using ty sz Nil by (simp add: d mq_items_eq [OF l])
  next
    case (Cons m us)
    have l': "mq_lists ?mq (m # us) fr" using l Cons by simp
    let ?mq' = "mq_free_node m ((mq_pop m ?mq)\<lparr>mq_entry := mq_entry ?mq - 1\<rparr>)"
    let ?k1 = "upd_mq q (\<lambda>_. ?mq') k"
    note g = mq_get_lists [OF l' refl]
    have sel: "mq_type ?mq' = mq_type ?mq" "mq_flag ?mq' = mq_flag ?mq"
      "mq_msg_size ?mq' = mq_msg_size ?mq" "mq_max_msgs ?mq' = mq_max_msgs ?mq"
      by (simp_all add: mq_free_node_def mq_pop_def)
    have wf: "mq_wf ?mq'" using g(1) k sel by (auto simp: mq_wf_def mq_ok_def)
    have c1: "clock_ok ?k1" using ck by simp
    obtain k' where k': "resume_one (QMqSender q) ?k1 = Some (RT_EOK, k')" "clock_ok k'"
      "tq k' (QMqSender q) = tl (tq ?k1 (QMqSender q))" "ipc_frame ?k1 k'"
      by (rule resume_one_spec [OF c1, of "QMqSender q"]) simp_all
    have mq: "msgqueues k' = msgqueues ?k1" using ipc_frame_sel [OF k'(4)] by simp
    let ?x = "mq_msg_data ?mq m"
    have lx: "length ?x = unat (mq_msg_size ?mq)" using l' by (simp add: mq_lists_def)
    have hd: "mq_msg_queue_head ?mq = Some m" using mq_lists_head(1) [OF l'] by simp
    have ps: "mq_msg_size (mq_pop m ?mq) = mq_msg_size ?mq" "mq_entry (mq_pop m ?mq) = mq_entry ?mq"
      "mq_msg_data (mq_pop m ?mq) = mq_msg_data ?mq"
      by (simp_all add: mq_pop_def)
    have tk: "take (min sz (unat (mq_msg_size ?mq))) ?x = take sz ?x" using lx by (simp add: min_def)
    have get: "mq_get q sz k = Some (RT_EOK, take sz ?x, k')"
      using g(3) hd k'(1) ps tk by (simp add: mq_get_def mq_unlink_def mq_read_def mq_give_back_def Let_def word_gt_0)
    have "mq_ok q k'" "mq_items ?mq = ?x # mq_items (msgqueues k' q)"
      using k'(2) wf mq g(2) by (simp_all add: mq_ok_def)
    then show ?thesis
      using get g(3) ty sz mq sel lx k'(3)
      by (simp add: d mq_recv_loop_def mq_recv_resume_def mq_msg_ok_def)
  qed
qed

text \<open>
  With an empty queue \<open>rt_mq_recv\<close> with timeout 0 returns
  \<open>-RT_ETIMEOUT\<close> and changes nothing. Otherwise it gives the oldest message, cut to the size of
  the receiver's buffer; the message's node goes back to the free list and the first waiting
  sender is resumed. A receiver that waited and was woken without an error gets the same.
\<close>

theorem mq_recv_correct:
  assumes k: "mq_ok q k" and sz: "sz \<noteq> 0"
  shows "case mq_items (msgqueues k q) of
      [] \<Rightarrow> rt_mq_recv q sz 0 k = Some (Done (- RT_ETIMEOUT), None, k)
    | x # xs \<Rightarrow> \<exists>k'. rt_mq_recv q sz 0 k = Some (Done RT_EOK, Some (take sz x), k') \<and> mq_ok q k'
        \<and> (\<forall>t. th_error (threads k t) = RT_EOK \<longrightarrow>
             mq_recv_resume q sz timeout f start t k = Some (Done RT_EOK, Some (take sz x), k'))
        \<and> mq_msg_ok (msgqueues k q) x \<and> mq_items (msgqueues k' q) = xs
        \<and> mq_msg_size (msgqueues k' q) = mq_msg_size (msgqueues k q)
        \<and> mq_max_msgs (msgqueues k' q) = mq_max_msgs (msgqueues k q)
        \<and> tq k' (QMqSender q) = tl (tq k (QMqSender q))"
  using assms by (rule mq_recv_spec)

subsection \<open>The message queue as a bounded buffer\<close>

definition mq_try_put :: "oid \<Rightarrow> u8 list \<Rightarrow> kernel \<Rightarrow> kernel option" where
  "mq_try_put q x k = (case rt_mq_send q x k of
     Some (Done ret, k') \<Rightarrow> if ret = RT_EOK then Some k' else None | _ \<Rightarrow> None)"

definition mq_try_urgent :: "oid \<Rightarrow> u8 list \<Rightarrow> kernel \<Rightarrow> kernel option" where
  "mq_try_urgent q x k = (case rt_mq_urgent q x k of
     Some (ret, k') \<Rightarrow> if ret = RT_EOK then Some k' else None | None \<Rightarrow> None)"

definition mq_try_get :: "oid \<Rightarrow> kernel \<Rightarrow> (u8 list \<times> kernel) option" where
  "mq_try_get q k = (case rt_mq_recv q (unat (mq_msg_size (msgqueues k q))) 0 k of
     Some (Done ret, Some x, k') \<Rightarrow> if ret = RT_EOK then Some (x, k') else None | _ \<Rightarrow> None)"

lemma mq_size_pos: "mq_ok q k \<Longrightarrow> unat (mq_msg_size (msgqueues k q)) \<noteq> 0"
  by (simp add: mq_ok_def mq_wf_def unat_eq_0 word_gt_0)

lemma mq_msg_nonempty: "mq_ok q k \<Longrightarrow> mq_msg_ok (msgqueues k q) x \<Longrightarrow> x \<noteq> []"
  using mq_size_pos [of q k] by (auto simp: mq_msg_ok_def)

interpretation msgqueue: bounded_deque "mq_ok q" "\<lambda>k. unat (mq_max_msgs (msgqueues k q))"
  "\<lambda>k. mq_msg_ok (msgqueues k q)" "\<lambda>k. mq_items (msgqueues k q)"
  "mq_try_put q" "mq_try_get q" "mq_try_urgent q" for q
proof
  fix k x xs
  assume k: "mq_ok q k"
  let ?n = "unat (mq_max_msgs (msgqueues k q))" and ?is = "mq_items (msgqueues k q)"
  show "length ?is \<le> ?n" by (rule mq_wfE [OF k]) simp
  show "mq_try_put q x k = None" if "length ?is = ?n"
  proof (cases "x = []")
    case True
    then show ?thesis by (simp add: mq_try_put_def rt_mq_send_def rt_mq_send_wait_def
          rt_mq_send_wait_flag_def)
  next
    case False
    from mq_send_spec [OF k False] that show ?thesis
      by (cases "unat (mq_msg_size (msgqueues k q)) < length x") (simp_all add: mq_try_put_def)
  qed
  show "mq_try_urgent q x k = None" if "length ?is = ?n"
  proof -
    obtain used fr where l: "mq_lists (msgqueues k q) used fr" "length ?is = length used"
      "length used + length fr = ?n" by (rule mq_wfE [OF k])
    then have "mq_msg_queue_free (msgqueues k q) = None"
      using that mq_lists_head(2) [OF l(1)] by simp
    then show ?thesis by (simp add: mq_try_urgent_def rt_mq_urgent_def rt_assert_def)
  qed
  show "\<exists>s'. mq_try_put q x k = Some s' \<and> mq_ok q s' \<and> mq_items (msgqueues s' q) = ?is @ [x]
      \<and> unat (mq_max_msgs (msgqueues s' q)) = ?n
      \<and> mq_msg_ok (msgqueues s' q) = mq_msg_ok (msgqueues k q)"
    if x: "mq_msg_ok (msgqueues k q) x" and room: "length ?is < ?n"
  proof -
    have "length x = unat (mq_msg_size (msgqueues k q))" using x by (simp add: mq_msg_ok_def)
    then obtain k' y where "rt_mq_send q x k = Some (Done RT_EOK, k')" "mq_ok q k'"
      "mq_items (msgqueues k' q) = ?is @ [y]" "take (length x) y = x" "mq_msg_ok (msgqueues k q) y"
      "mq_msg_size (msgqueues k' q) = mq_msg_size (msgqueues k q)"
      "mq_max_msgs (msgqueues k' q) = mq_max_msgs (msgqueues k q)"
      using mq_send_spec [OF k mq_msg_nonempty [OF k x]] room by auto
    then show ?thesis using x by (auto simp: mq_try_put_def mq_msg_ok_def fun_eq_iff)
  qed
  show "\<exists>s'. mq_try_urgent q x k = Some s' \<and> mq_ok q s' \<and> mq_items (msgqueues s' q) = x # ?is
      \<and> unat (mq_max_msgs (msgqueues s' q)) = ?n
      \<and> mq_msg_ok (msgqueues s' q) = mq_msg_ok (msgqueues k q)"
    if x: "mq_msg_ok (msgqueues k q) x" and room: "length ?is < ?n"
  proof -
    have "length x = unat (mq_msg_size (msgqueues k q))" using x by (simp add: mq_msg_ok_def)
    from mq_urgent_spec [OF k mq_msg_nonempty [OF k x] this] room show ?thesis
      by (auto simp: mq_try_urgent_def mq_msg_ok_def fun_eq_iff)
  qed
  show "\<exists>s'. mq_try_get q k = Some (x, s') \<and> mq_ok q s' \<and> mq_items (msgqueues s' q) = xs
      \<and> unat (mq_max_msgs (msgqueues s' q)) = ?n
      \<and> mq_msg_ok (msgqueues s' q) = mq_msg_ok (msgqueues k q)" if "?is = x # xs"
    using that mq_recv_spec [OF k mq_size_pos [OF k], where timeout = 0 and f = 0 and start = 0]
    by (auto simp: mq_try_get_def mq_msg_ok_def fun_eq_iff)
  show "mq_try_get q k = None" if "?is = []"
    using mq_recv_spec [OF k mq_size_pos [OF k], where timeout = 0 and f = 0 and start = 0]
    unfolding that by (simp add: mq_try_get_def)
qed

subsection \<open>Creating and resetting\<close>

text \<open>
  The loop of \<open>rt_mq_init\<close> and \<open>rt_mq_create\<close> links every
  node of the pool into the free list, giving an empty queue with room for \<open>max_msgs\<close> messages;
  the loop of the reset command ends for every well-formed queue and leaves it empty, no node
  lost.
\<close>

theorem mq_init_reset:
  assumes "\<forall>n < unat (mq_max_msgs mq). length (mq_msg_data mq n) = unat (mq_msg_size mq)"
    and "mq_lists mq2 used fr"
  shows "mq_lists (mq_init_lists mq) [] (rev [0..<unat (mq_max_msgs mq)])
    \<and> mq_items (mq_init_lists mq) = []
    \<and> (\<exists>mq'. mq_reset_loop mq2 = Some mq' \<and> mq_lists (mq'\<lparr>mq_entry := 0\<rparr>) [] (rev used @ fr))"
proof -
  have "\<exists>nx fh. mq_reset_loop mq2 = Some (mq2\<lparr>mq_msg_queue_head := None, mq_msg_queue_tail := None,
      mq_msg_queue_free := fh, mq_msg_next := nx\<rparr>) \<and> chain nx fh (rev used @ fr)"
    by (rule mq_reset_loop_spec) (use assms(2) in \<open>simp_all add: mq_lists_def\<close>)
  then have "\<exists>mq'. mq_reset_loop mq2 = Some mq' \<and> mq_lists (mq'\<lparr>mq_entry := 0\<rparr>) [] (rev used @ fr)"
    using assms(2) by (auto simp: mq_lists_def)
  then show ?thesis using mq_init_lists_ok [OF assms(1)] by blast
qed

definition demo_mq_bss :: rt_messagequeue where
  "demo_mq_bss = \<lparr>mq_type = Class_MessageQueue, mq_static = True, mq_flag = 0, mq_msg_size = 2,
     mq_max_msgs = 2, mq_entry = 0, mq_msg_queue_head = None, mq_msg_queue_tail = None,
     mq_msg_queue_free = None, mq_msg_next = (\<lambda>_. None), mq_msg_data = (\<lambda>_. [0, 0])\<rparr>"

definition demo_mq :: kernel where
  "demo_mq = demo_kernel\<lparr>msgqueues := (\<lambda>_. demo_mq_bss\<lparr>mq_entry := 1, mq_msg_queue_head := Some 0,
     mq_msg_queue_tail := Some 0, mq_msg_queue_free := Some 1, mq_msg_data := (\<lambda>_. [5, 6])\<rparr>)\<rparr>"

lemma demo_mq_ok: "mq_ok 0 demo_mq" "mq_items (msgqueues demo_mq 0) = [[5, 6]]"
proof -
  have l: "mq_lists (msgqueues demo_mq 0) [0] [1]"
    by (simp add: demo_mq_def demo_mq_bss_def mq_lists_def)
  then show "mq_ok 0 demo_mq" using demo_clock_ok
    by (auto simp: mq_ok_def mq_wf_def demo_mq_def demo_mq_bss_def)
  show "mq_items (msgqueues demo_mq 0) = [[5, 6]]"
    unfolding mq_items_eq [OF l] by (simp add: demo_mq_def demo_mq_bss_def)
qed

theorem mq_send_correct_witness:
  "\<exists>k' x. rt_mq_send 0 [9] demo_mq = Some (Done RT_EOK, k')
     \<and> mq_items (msgqueues k' 0) = [[5, 6], x] \<and> take 1 x = [9]"
  using mq_send_correct [OF demo_mq_ok(1), of "[9]"] demo_mq_ok(2)
  by (auto simp: demo_mq_def demo_mq_bss_def)

theorem mq_recv_correct_witness:
  "\<exists>k'. rt_mq_recv 0 8 0 demo_mq = Some (Done RT_EOK, Some [5, 6], k')
     \<and> mq_items (msgqueues k' 0) = []"
  using mq_recv_correct [OF demo_mq_ok(1), of 8 0 0 0] demo_mq_ok(2) by auto

theorem mq_init_reset_witness:
  "mq_lists (mq_init_lists demo_mq_bss) [] [1, 0]
     \<and> (\<exists>mq'. mq_reset_loop (msgqueues demo_mq 0) = Some mq' \<and> mq_lists (mq'\<lparr>mq_entry := 0\<rparr>) [] [0, 1])"
proof -
  have l: "mq_lists (msgqueues demo_mq 0) [0] [1]"
    by (simp add: demo_mq_def demo_mq_bss_def mq_lists_def)
  have "unat (mq_max_msgs demo_mq_bss) = 2" by (simp add: demo_mq_bss_def)
  then show ?thesis using mq_init_reset [OF _ l, of demo_mq_bss]
    by (simp add: demo_mq_bss_def upt_rec numeral_2_eq_2)
qed

end
