(* ===== verification/Ipc_Mq_Calls.thy ===== *)
theory Ipc_Mq_Calls
  imports Ipc_Mq
begin

text \<open>
  Message queues under concurrent calls. \<open>_rt_mq_send_wait\<close>, \<open>rt_mq_urgent\<close> and \<open>_rt_mq_recv\<close>
  disable the interrupts only while they change the lists; between two critical sections they copy
  the message with the interrupts enabled, and other threads or interrupts may call the queue. Here
  every call is a state that advances by one part at a time, interleaved with the other calls and
  with everything else the system does. A node is in the queue, in the free list or in the hands of
  exactly one call, and the order of the messages is that of the critical sections that link them.
\<close>

subsection \<open>Calls in progress\<close>

text \<open>
  A send has taken a node and copies the message (\<open>Sending\<close>), or has copied it and is about to link
  it (\<open>Filled\<close>); the flag says whether it is urgent. A receive has unlinked a node (\<open>Receiving\<close>), or
  has copied it and is about to free it (\<open>Received\<close>).
\<close>

datatype mq_call =
    Sending nat "u8 list" bool
  | Filled nat "u8 list" bool
  | Receiving nat nat
  | Received nat nat "u8 list"

fun call_node :: "mq_call \<Rightarrow> nat" where
  "call_node (Sending m _ _) = m"
| "call_node (Filled m _ _) = m"
| "call_node (Receiving m _) = m"
| "call_node (Received m _ _) = m"

type_synonym mq_calls = "nat \<Rightarrow> mq_call option"

datatype mq_event =
    Internal
  | Enqueue "u8 list" bool rt_err_t
  | Dequeue nat
  | Return nat nat "u8 list" rt_err_t

text \<open>
  One part of one call, or a step of the rest of the system, which leaves the queue alone. A send
  and a receive start where the loop of the code has found a free node or a queued message.
\<close>

inductive mq_step ::
  "oid \<Rightarrow> kernel \<times> mq_calls \<Rightarrow> mq_event \<Rightarrow> kernel \<times> mq_calls \<Rightarrow> bool" for q where
  alloc: "calls c = None \<Longrightarrow> b \<noteq> [] \<Longrightarrow> length b \<le> unat (mq_msg_size (msgqueues k q))
    \<Longrightarrow> mq_msg_queue_free (msgqueues k q) = Some m
    \<Longrightarrow> mq_step q (k, calls) Internal (mq_alloc q m k, calls(c \<mapsto> Sending m b u))"
| fill: "calls c = Some (Sending m b u)
    \<Longrightarrow> mq_step q (k, calls) Internal
      ((if u then mq_fill_urgent q m b k else mq_fill q m b k), calls(c \<mapsto> Filled m b u))"
| link: "calls c = Some (Filled m b u)
    \<Longrightarrow> (if u then mq_link_front q m k else mq_link q m k) = Some (ret, k')
    \<Longrightarrow> mq_step q (k, calls) (Enqueue b u ret) (k', calls(c := None))"
| unlink: "calls c = None \<Longrightarrow> sz \<noteq> 0 \<Longrightarrow> mq_entry (msgqueues k q) \<noteq> 0
    \<Longrightarrow> mq_msg_queue_head (msgqueues k q) = Some m
    \<Longrightarrow> mq_step q (k, calls) (Dequeue c) (mq_unlink q m k, calls(c \<mapsto> Receiving m sz))"
| copy: "calls c = Some (Receiving m sz)
    \<Longrightarrow> mq_step q (k, calls) Internal (k, calls(c \<mapsto> Received m sz (mq_read q m sz k)))"
| give_back: "calls c = Some (Received m sz bytes) \<Longrightarrow> mq_give_back q m k = Some (ret, k')
    \<Longrightarrow> mq_step q (k, calls) (Return c sz bytes ret) (k', calls(c := None))"
| env: "clock_ok k' \<Longrightarrow> msgqueues k' q = msgqueues k q
    \<Longrightarrow> mq_step q (k, calls) Internal (k', calls)"

inductive mq_run ::
  "oid \<Rightarrow> kernel \<times> mq_calls \<Rightarrow> mq_event list \<Rightarrow> kernel \<times> mq_calls \<Rightarrow> bool" for q where
  none: "mq_run q s [] s"
| more: "mq_step q s e s1 \<Longrightarrow> mq_run q s1 es s2 \<Longrightarrow> mq_run q s (e # es) s2"

text \<open>
  What the calls promise, on the list of the queued messages and the message that each receive in
  progress has taken: a message goes to the end of the queue, or to its front when it is urgent; a
  receive takes the first one, and gives it, cut to the size of the receiver's buffer, followed by
  what fills the buffer up to the size \<open>n\<close> of the queue's messages.
\<close>

type_synonym mq_abs = "u8 list list \<times> (nat \<Rightarrow> u8 list option)"

fun mq_spec_step :: "nat \<Rightarrow> mq_event \<Rightarrow> mq_abs \<Rightarrow> mq_abs option" where
  "mq_spec_step n Internal (ms, got) = Some (ms, got)"
| "mq_spec_step n (Enqueue b u ret) (ms, got) =
     (if ret = RT_EOK then Some (if u then b # ms else ms @ [b], got) else None)"
| "mq_spec_step n (Dequeue c) (ms, got) =
     (case ms of [] \<Rightarrow> None | x # xs \<Rightarrow> Some (xs, got(c \<mapsto> x)))"
| "mq_spec_step n (Return c sz bytes ret) (ms, got) =
     (case got c of
        None \<Rightarrow> None
      | Some x \<Rightarrow> if ret = RT_EOK \<and> take (length x) bytes = take sz x \<and> length bytes = min sz n
          then Some (ms, got(c := None)) else None)"

fun mq_spec :: "nat \<Rightarrow> mq_event list \<Rightarrow> mq_abs \<Rightarrow> mq_abs option" where
  "mq_spec n [] s = Some s"
| "mq_spec n (e # es) s = do { s1 \<leftarrow> mq_spec_step n e s; mq_spec n es s1 }"

subsection \<open>The nodes\<close>

definition stores :: "u8 list \<Rightarrow> u8 list \<Rightarrow> bool" where
  "stores y x \<longleftrightarrow> take (length x) y = x"

text \<open>The nodes in the hands of the calls: no two calls have the same.\<close>

definition in_hand :: "mq_calls \<Rightarrow> nat set" where
  "in_hand calls = call_node ` ran calls"

definition calls_apart :: "mq_calls \<Rightarrow> bool" where
  "calls_apart calls \<longleftrightarrow> finite (dom calls) \<and> (\<forall>c p. calls c = Some p \<longrightarrow>
     call_node p \<notin> in_hand (calls(c := None)))"

lemma in_hand_simps:
  "calls c = None \<Longrightarrow> in_hand (calls(c \<mapsto> p)) = insert (call_node p) (in_hand calls)"
  by (simp add: in_hand_def)

lemma in_hand_remove: "in_hand (calls(c := None)) \<subseteq> in_hand calls"
  by (auto simp: in_hand_def ran_def split: if_splits)

lemma in_hand_split: "calls c = Some p \<Longrightarrow> in_hand calls = insert (call_node p) (in_hand (calls(c := None)))"
  using in_hand_simps [of "calls(c := None)" c p] by (simp add: fun_upd_idem)

lemma in_hand_advance:
  "calls c = Some p \<Longrightarrow> call_node p' = call_node p \<Longrightarrow> in_hand (calls(c \<mapsto> p')) = in_hand calls"
  using in_hand_simps [of "calls(c := None)" c p'] in_hand_split [of calls c p] by simp

lemma in_hand_member: "calls c = Some p \<Longrightarrow> call_node p \<in> in_hand calls"
  by (auto simp: in_hand_def ran_def)

lemma calls_apart_remove:
  assumes "calls_apart calls"
  shows "calls_apart (calls(c := None))"
proof -
  have "in_hand (calls(c := None, c' := None)) \<subseteq> in_hand (calls(c' := None))" for c'
    using in_hand_remove [of "calls(c' := None)" c] by (cases "c = c'") (simp_all add: fun_upd_twist)
  then show ?thesis using assms unfolding calls_apart_def by (auto split: if_splits)
qed

lemma calls_apart_add:
  assumes "calls_apart calls" "calls c = None" "call_node p \<notin> in_hand calls"
  shows "calls_apart (calls(c \<mapsto> p))"
proof -
  have fin: "finite (dom (calls(c \<mapsto> p)))" using assms(1) by (simp add: calls_apart_def)
  have "call_node p' \<notin> in_hand (calls(c \<mapsto> p, c' := None))"
    if "(calls(c \<mapsto> p)) c' = Some p'" for c' p'
  proof (cases "c' = c")
    case True
    then show ?thesis using that assms(2,3) by (simp add: fun_upd_idem)
  next
    case False
    then have c': "calls c' = Some p'" using that by simp
    have "in_hand (calls(c \<mapsto> p, c' := None)) = insert (call_node p) (in_hand (calls(c' := None)))"
      using False assms(2) in_hand_simps [of "calls(c' := None)" c p] by (simp add: fun_upd_twist)
    moreover have "call_node p' \<noteq> call_node p" using in_hand_member [of calls, OF c'] assms(3) by auto
    ultimately show ?thesis using assms(1) c' by (simp add: calls_apart_def)
  qed
  then show ?thesis using fin by (simp add: calls_apart_def)
qed

lemma calls_apart_advance:
  assumes "calls_apart calls" "calls c = Some p" "call_node p' = call_node p"
  shows "calls_apart (calls(c \<mapsto> p'))"
  using calls_apart_add [OF calls_apart_remove [OF assms(1), of c], of c p'] assms
  by (simp add: calls_apart_def)

lemma card_in_hand: "calls_apart calls \<Longrightarrow> finite (in_hand calls)"
  by (simp add: calls_apart_def in_hand_def finite_ran)

lemma card_in_hand_remove:
  assumes "calls_apart calls" "calls c = Some p"
  shows "Suc (card (in_hand (calls(c := None)))) = card (in_hand calls)"
  using assms card_in_hand [OF calls_apart_remove [OF assms(1), of c]]
  unfolding in_hand_split [of calls, OF assms(2)] by (simp add: calls_apart_def)

text \<open>Every node is queued, free or with one call; \<open>mq_lists\<close> is the case without calls.\<close>

definition mq_parts ::
  "rt_messagequeue \<Rightarrow> mq_calls \<Rightarrow> nat list \<Rightarrow> nat list \<Rightarrow> bool" where
  "mq_parts mq calls used fr \<longleftrightarrow> chain (mq_msg_next mq) (mq_msg_queue_head mq) used
     \<and> chain (mq_msg_next mq) (mq_msg_queue_free mq) fr \<and> distinct (used @ fr)
     \<and> mq_msg_queue_tail mq = (if used = [] then None else Some (last used))
     \<and> length used = unat (mq_entry mq) \<and> calls_apart calls
     \<and> in_hand calls \<inter> (set used \<union> set fr) = {}
     \<and> length used + length fr + card (in_hand calls) = unat (mq_max_msgs mq)
     \<and> (\<forall>n \<in> set used \<union> set fr \<union> in_hand calls. length (mq_msg_data mq n) = unat (mq_msg_size mq))"

fun call_ok :: "rt_messagequeue \<Rightarrow> u8 list option \<Rightarrow> mq_call \<Rightarrow> bool" where
  "call_ok mq g (Sending m b u) \<longleftrightarrow> b \<noteq> [] \<and> length b \<le> unat (mq_msg_size mq)"
| "call_ok mq g (Filled m b u) \<longleftrightarrow> b \<noteq> [] \<and> length b \<le> unat (mq_msg_size mq)
     \<and> stores (mq_msg_data mq m) b \<and> (\<not> u \<longrightarrow> mq_msg_next mq m = None)"
| "call_ok mq g (Receiving m sz) \<longleftrightarrow>
     (\<exists>x. g = Some x \<and> length x \<le> unat (mq_msg_size mq) \<and> stores (mq_msg_data mq m) x)"
| "call_ok mq g (Received m sz bytes) \<longleftrightarrow>
     (\<exists>x. g = Some x \<and> take (length x) bytes = take sz x \<and> length bytes = min sz (unat (mq_msg_size mq)))"

definition mq_rel :: "oid \<Rightarrow> kernel \<times> mq_calls \<Rightarrow> mq_abs \<Rightarrow> bool" where
  "mq_rel q s a \<longleftrightarrow> clock_ok (fst s) \<and> (\<exists>used fr. mq_parts (msgqueues (fst s) q) (snd s) used fr
     \<and> list_all2 stores (map (mq_msg_data (msgqueues (fst s) q)) used) (fst a))
     \<and> (\<forall>x \<in> set (fst a). length x \<le> unat (mq_msg_size (msgqueues (fst s) q)))
     \<and> (\<forall>c p. snd s c = Some p \<longrightarrow> call_ok (msgqueues (fst s) q) (snd a c) p)"

lemma mq_relE:
  assumes "mq_rel q (k, calls) (ms, got)"
  obtains used fr where "clock_ok k" "mq_parts (msgqueues k q) calls used fr"
    "list_all2 stores (map (mq_msg_data (msgqueues k q)) used) ms"
    "\<And>x. x \<in> set ms \<Longrightarrow> length x \<le> unat (mq_msg_size (msgqueues k q))"
    "\<And>c p. calls c = Some p \<Longrightarrow> call_ok (msgqueues k q) (got c) p"
  using assms that by (auto simp: mq_rel_def)

lemma mq_relI:
  assumes "clock_ok k" "mq_parts (msgqueues k q) calls used fr"
    "list_all2 stores (map (mq_msg_data (msgqueues k q)) used) ms"
    "\<And>x. x \<in> set ms \<Longrightarrow> length x \<le> unat (mq_msg_size (msgqueues k q))"
    "\<And>c p. calls c = Some p \<Longrightarrow> call_ok (msgqueues k q) (got c) p"
  shows "mq_rel q (k, calls) (ms, got)"
  using assms unfolding mq_rel_def by (simp only: fst_conv snd_conv) blast

lemma mq_parts_node:
  assumes "mq_parts mq calls used fr" "calls c = Some p"
  shows "call_node p \<notin> set used" "call_node p \<notin> set fr"
    "length (mq_msg_data mq (call_node p)) = unat (mq_msg_size mq)"
    "\<And>c' p'. calls c' = Some p' \<Longrightarrow> c' \<noteq> c \<Longrightarrow> call_node p' \<noteq> call_node p"
proof -
  have p: "call_node p \<in> in_hand calls" by (rule in_hand_member) fact
  then show "call_node p \<notin> set used" "call_node p \<notin> set fr"
    "length (mq_msg_data mq (call_node p)) = unat (mq_msg_size mq)"
    using assms(1) by (auto simp: mq_parts_def)
  show "call_node p' \<noteq> call_node p" if "calls c' = Some p'" "c' \<noteq> c" for c' p'
    using in_hand_member [of "calls(c := None)" c' p'] that assms
    by (auto simp: mq_parts_def calls_apart_def)
qed

lemma mq_parts_entry:
  assumes "mq_parts mq calls used fr" "calls c = Some p"
  shows "mq_entry mq < RT_MQ_ENTRY_MAX" "unat (mq_entry mq + 1) = Suc (length used)"
proof -
  have "0 < card (in_hand calls)"
    using card_in_hand_remove [of calls c p] assms by (simp add: mq_parts_def)
  moreover have "unat (mq_max_msgs mq) < 65536"
    using unsigned_less [of "mq_max_msgs mq", where ?'a = nat] by simp
  ultimately have "unat (mq_entry mq) < 65535" using assms(1) unfolding mq_parts_def by linarith
  then show lt: "mq_entry mq < RT_MQ_ENTRY_MAX" by (simp add: word_less_nat_alt)
  show "unat (mq_entry mq + 1) = Suc (length used)"
    using unat_inc [OF lt] assms by (simp add: mq_parts_def)
qed

text \<open>The state of a call changes, its node stays.\<close>

lemma mq_parts_advance:
  assumes "mq_parts mq calls used fr" "calls c = Some p" "call_node p' = call_node p"
  shows "mq_parts mq (calls(c \<mapsto> p')) used fr"
  using assms(1) in_hand_advance [of calls, OF assms(2,3)] calls_apart_advance [of calls, OF _ assms(2,3)]
  by (simp add: mq_parts_def)

text \<open>A node goes from a list to a new call, and from a call that ends to a list.\<close>

lemma mq_parts_new_call:
  assumes "mq_parts mq calls used fr" "calls c = None" "call_node p \<in> set used \<union> set fr"
  shows "calls_apart (calls(c \<mapsto> p))" "in_hand (calls(c \<mapsto> p)) = insert (call_node p) (in_hand calls)"
    "card (in_hand (calls(c \<mapsto> p))) = Suc (card (in_hand calls))"
proof -
  have n: "call_node p \<notin> in_hand calls" "calls_apart calls"
    using assms(1,3) by (auto simp: mq_parts_def)
  show "calls_apart (calls(c \<mapsto> p))" by (rule calls_apart_add [OF n(2) assms(2) n(1)])
  show i: "in_hand (calls(c \<mapsto> p)) = insert (call_node p) (in_hand calls)"
    using assms(2) by (rule in_hand_simps)
  show "card (in_hand (calls(c \<mapsto> p))) = Suc (card (in_hand calls))"
    unfolding i using n card_in_hand by simp
qed

lemma mq_parts_end_call:
  assumes "mq_parts mq calls used fr" "calls c = Some p"
  shows "calls_apart (calls(c := None))" "call_node p \<notin> in_hand (calls(c := None))"
    "in_hand calls = insert (call_node p) (in_hand (calls(c := None)))"
    "card (in_hand calls) = Suc (card (in_hand (calls(c := None))))"
  using assms card_in_hand_remove [of calls c p] calls_apart_remove [of calls c]
    in_hand_split [of calls, OF assms(2)]
  by (simp_all add: mq_parts_def calls_apart_def)

lemma mq_parts_alloc:
  assumes l: "mq_parts mq calls used fr" and c: "calls c = None" and f: "mq_msg_queue_free mq = Some m"
    and p: "call_node p = m"
  shows "\<exists>fr'. mq_parts (mq\<lparr>mq_msg_queue_free := mq_msg_next mq m\<rparr>) (calls(c \<mapsto> p)) used fr'"
proof -
  obtain fr' where fr: "fr = m # fr'" using l f by (cases fr) (auto simp: mq_parts_def)
  have "call_node p \<in> set used \<union> set fr" using p fr by simp
  note new = mq_parts_new_call [OF l c this]
  have "mq_parts (mq\<lparr>mq_msg_queue_free := mq_msg_next mq m\<rparr>) (calls(c \<mapsto> p)) used fr'"
    using l p new unfolding mq_parts_def fr by auto
  then show ?thesis by blast
qed

lemma mq_parts_append:
  assumes l: "mq_parts mq calls used fr" and c: "calls c = Some p" "call_node p = m"
    and nx: "mq_msg_next mq m = None"
  shows "mq_parts ((mq_append m mq)\<lparr>mq_entry := mq_entry mq + 1\<rparr>) (calls(c := None)) (used @ [m]) fr"
proof -
  note n = mq_parts_node [OF l c(1), unfolded c(2)]
  have lu: "used \<noteq> [] \<Longrightarrow> last used \<notin> set fr" "used \<noteq> [] \<Longrightarrow> last used \<noteq> m"
    using l n(1) last_in_set [of used] by (auto simp: mq_parts_def disjoint_iff)
  have ch: "chain (mq_msg_next mq) (mq_msg_queue_head mq) used"
    "chain (mq_msg_next mq) (mq_msg_queue_free mq) fr" "distinct used"
    "mq_msg_queue_tail mq = (if used = [] then None else Some (last used))"
    using l by (simp_all add: mq_parts_def)
  let ?mq = "(mq_append m mq)\<lparr>mq_entry := mq_entry mq + 1\<rparr>"
  have "chain (mq_msg_next ?mq) (mq_msg_queue_head ?mq) (used @ [m])
    \<and> chain (mq_msg_next ?mq) (mq_msg_queue_free ?mq) fr \<and> mq_msg_queue_tail ?mq = Some m"
  proof (cases "used = []")
    case True
    then show ?thesis using ch n nx by (simp add: mq_append_def)
  next
    case False
    moreover obtain h where "mq_msg_queue_head mq = Some h" using ch(1) False by (cases used) auto
    moreover have "chain ((mq_msg_next mq)(last used := Some m)) (mq_msg_queue_head mq) (used @ [m])"
      using ch(1,3) False n(1) nx by (intro chain_snoc) simp_all
    ultimately show ?thesis using ch lu by (simp add: mq_append_def)
  qed
  moreover have "mq_msg_data ?mq = mq_msg_data mq" "mq_msg_size ?mq = mq_msg_size mq"
    "mq_max_msgs ?mq = mq_max_msgs mq"
    by (simp_all add: mq_append_def Let_def split: option.split)
  ultimately show ?thesis
    using l n(1,2) mq_parts_end_call [OF l c(1)] mq_parts_entry(2) [OF l c(1)] c(2)
    unfolding mq_parts_def by auto
qed

lemma mq_parts_prepend:
  assumes l: "mq_parts mq calls used fr" and c: "calls c = Some p" "call_node p = m"
  shows "mq_parts ((mq_prepend m mq)\<lparr>mq_entry := mq_entry mq + 1\<rparr>) (calls(c := None)) (m # used) fr"
proof -
  note n = mq_parts_node [OF l c(1), unfolded c(2)]
  let ?mq = "(mq_prepend m mq)\<lparr>mq_entry := mq_entry mq + 1\<rparr>"
  have "chain (mq_msg_next ?mq) (mq_msg_queue_head ?mq) (m # used)
    \<and> chain (mq_msg_next ?mq) (mq_msg_queue_free ?mq) fr
    \<and> mq_msg_queue_tail ?mq = Some (last (m # used))"
    using l n by (auto simp: mq_parts_def mq_prepend_def)
  moreover have "mq_msg_data ?mq = mq_msg_data mq" "mq_msg_size ?mq = mq_msg_size mq"
    "mq_max_msgs ?mq = mq_max_msgs mq"
    by (simp_all add: mq_prepend_def Let_def)
  ultimately show ?thesis
    using l n(1,2) mq_parts_end_call [OF l c(1)] mq_parts_entry(2) [OF l c(1)] c(2)
    unfolding mq_parts_def by auto
qed

lemma mq_parts_unlink:
  assumes l: "mq_parts mq calls used fr" and c: "calls c = None" and h: "mq_msg_queue_head mq = Some m"
    and p: "call_node p = m"
  obtains us where "used = m # us"
    "mq_parts ((mq_pop m mq)\<lparr>mq_entry := mq_entry mq - 1\<rparr>) (calls(c \<mapsto> p)) us fr"
proof -
  obtain us where us: "used = m # us" using l h by (cases used) (auto simp: mq_parts_def)
  have "call_node p \<in> set used \<union> set fr" using p us by simp
  note new = mq_parts_new_call [OF l c this]
  have "mq_entry mq \<noteq> 0" using l us by (auto simp: mq_parts_def)
  then have "unat (mq_entry mq - 1) = length us"
    using unat_dec [of "mq_entry mq"] l us by (simp add: mq_parts_def)
  moreover have "us \<noteq> [] \<Longrightarrow> last us \<noteq> m" using l us last_in_set [of us] by (auto simp: mq_parts_def)
  ultimately have "mq_parts ((mq_pop m mq)\<lparr>mq_entry := mq_entry mq - 1\<rparr>) (calls(c \<mapsto> p)) us fr"
    using l p new unfolding mq_parts_def us by (auto simp: mq_pop_def split: if_splits)
  then show ?thesis using that us by blast
qed

lemma mq_parts_free:
  assumes l: "mq_parts mq calls used fr" and c: "calls c = Some p" "call_node p = m"
  shows "mq_parts (mq_free_node m mq) (calls(c := None)) used (m # fr)"
proof -
  note n = mq_parts_node [OF l c(1), unfolded c(2)]
  have "chain (mq_msg_next (mq_free_node m mq)) (mq_msg_queue_head (mq_free_node m mq)) used
    \<and> chain (mq_msg_next (mq_free_node m mq)) (mq_msg_queue_free (mq_free_node m mq)) (m # fr)"
    using l n by (simp add: mq_parts_def mq_free_node_def)
  moreover have "mq_msg_data (mq_free_node m mq) = mq_msg_data mq"
    "mq_msg_size (mq_free_node m mq) = mq_msg_size mq" "mq_entry (mq_free_node m mq) = mq_entry mq"
    "mq_max_msgs (mq_free_node m mq) = mq_max_msgs mq"
    "mq_msg_queue_tail (mq_free_node m mq) = mq_msg_queue_tail mq"
    by (simp_all add: mq_free_node_def)
  ultimately show ?thesis
    using l n(1,2) mq_parts_end_call [OF l c(1)] c(2) unfolding mq_parts_def by auto
qed

text \<open>Filling the node of a call.\<close>

lemma mq_parts_fill:
  assumes l: "mq_parts mq calls used fr" and c: "calls c = Some p" "call_node p = m"
    and b: "length b \<le> unat (mq_msg_size mq)"
  shows "mq_parts (mq_copy_in m b (mq\<lparr>mq_msg_next := (mq_msg_next mq)(m := v)\<rparr>)) calls used fr"
    "mq_parts (mq_copy_in m b mq) calls used fr"
    "stores (mq_msg_data (mq_copy_in m b mq') m) b"
    "n \<noteq> m \<Longrightarrow> mq_msg_data (mq_copy_in m b mq') n = mq_msg_data mq' n"
proof -
  note n = mq_parts_node [OF l c(1), unfolded c(2)]
  show "mq_parts (mq_copy_in m b (mq\<lparr>mq_msg_next := (mq_msg_next mq)(m := v)\<rparr>)) calls used fr"
    "mq_parts (mq_copy_in m b mq) calls used fr"
    using l n(1-3) b unfolding mq_parts_def by (auto simp: mq_copy_in_def)
qed (simp_all add: mq_copy_in_def stores_def)

subsection \<open>The steps implement the queue\<close>

lemma call_ok_cong:
  assumes "call_ok mq g p" "mq_msg_size mq' = mq_msg_size mq"
    "mq_msg_data mq' (call_node p) = mq_msg_data mq (call_node p)"
    "mq_msg_next mq' (call_node p) = mq_msg_next mq (call_node p)"
  shows "call_ok mq' g p"
  using assms by (cases p) auto

lemma mq_sent_frame:
  assumes k: "clock_ok k" and lt: "mq_entry (msgqueues k q) < RT_MQ_ENTRY_MAX"
  obtains k' where "mq_sent q k = Some (RT_EOK, k')" "clock_ok k'"
    "msgqueues k' = (msgqueues k)(q := (msgqueues k q)\<lparr>mq_entry := mq_entry (msgqueues k q) + 1\<rparr>)"
proof -
  let ?k1 = "upd_mq q (\<lambda>mq. mq\<lparr>mq_entry := mq_entry mq + 1\<rparr>) k"
  have c1: "clock_ok ?k1" using k by simp
  obtain k' where k': "resume_one (QMq q) ?k1 = Some (RT_EOK, k')" "clock_ok k'" "ipc_frame ?k1 k'"
    by (rule resume_one_spec [OF c1, of "QMq q"]) simp_all
  then show ?thesis using that [of k'] lt ipc_frame_sel [OF k'(3)] by (simp add: mq_sent_def)
qed

lemma mq_give_back_frame:
  assumes k: "clock_ok k"
  obtains k' where "mq_give_back q m k = Some (RT_EOK, k')" "clock_ok k'"
    "msgqueues k' = (msgqueues k)(q := mq_free_node m (msgqueues k q))"
proof -
  let ?k1 = "upd_mq q (mq_free_node m) k"
  have c1: "clock_ok ?k1" using k by simp
  obtain k' where k': "resume_one (QMqSender q) ?k1 = Some (RT_EOK, k')" "clock_ok k'" "ipc_frame ?k1 k'"
    by (rule resume_one_spec [OF c1, of "QMqSender q"]) simp_all
  then show ?thesis using that [of k'] ipc_frame_sel [OF k'(3)] by (simp add: mq_give_back_def)
qed

definition mq_keeps :: "oid \<Rightarrow> kernel \<Rightarrow> kernel \<Rightarrow> bool" where
  "mq_keeps q k k' \<longleftrightarrow> mq_msg_size (msgqueues k' q) = mq_msg_size (msgqueues k q)
     \<and> mq_max_msgs (msgqueues k' q) = mq_max_msgs (msgqueues k q)
     \<and> mq_type (msgqueues k' q) = mq_type (msgqueues k q)
     \<and> mq_flag (msgqueues k' q) = mq_flag (msgqueues k q)"

lemma mq_sel [simp]:
  "mq_msg_size (mq_append m mq) = mq_msg_size mq" "mq_max_msgs (mq_append m mq) = mq_max_msgs mq"
  "mq_type (mq_append m mq) = mq_type mq" "mq_flag (mq_append m mq) = mq_flag mq"
  "mq_entry (mq_append m mq) = mq_entry mq" "mq_msg_data (mq_append m mq) = mq_msg_data mq"
  "mq_msg_size (mq_prepend m mq) = mq_msg_size mq" "mq_max_msgs (mq_prepend m mq) = mq_max_msgs mq"
  "mq_type (mq_prepend m mq) = mq_type mq" "mq_flag (mq_prepend m mq) = mq_flag mq"
  "mq_entry (mq_prepend m mq) = mq_entry mq" "mq_msg_data (mq_prepend m mq) = mq_msg_data mq"
  "mq_msg_size (mq_pop m mq) = mq_msg_size mq" "mq_max_msgs (mq_pop m mq) = mq_max_msgs mq"
  "mq_type (mq_pop m mq) = mq_type mq" "mq_flag (mq_pop m mq) = mq_flag mq"
  "mq_entry (mq_pop m mq) = mq_entry mq" "mq_msg_data (mq_pop m mq) = mq_msg_data mq"
  "mq_msg_next (mq_pop m mq) = mq_msg_next mq"
  "mq_msg_size (mq_free_node m mq) = mq_msg_size mq"
  "mq_max_msgs (mq_free_node m mq) = mq_max_msgs mq"
  "mq_type (mq_free_node m mq) = mq_type mq" "mq_flag (mq_free_node m mq) = mq_flag mq"
  "mq_msg_data (mq_free_node m mq) = mq_msg_data mq"
  "mq_msg_size (mq_copy_in m b mq) = mq_msg_size mq" "mq_max_msgs (mq_copy_in m b mq) = mq_max_msgs mq"
  "mq_type (mq_copy_in m b mq) = mq_type mq" "mq_flag (mq_copy_in m b mq) = mq_flag mq"
  "mq_msg_next (mq_copy_in m b mq) = mq_msg_next mq"
  by (simp_all add: mq_append_def mq_prepend_def mq_pop_def mq_free_node_def mq_copy_in_def Let_def
      split: option.split)

lemma mq_append_next:
  assumes "mq_parts mq calls used fr" "calls c = Some p"
  shows "mq_msg_next (mq_append m mq) (call_node p) = mq_msg_next mq (call_node p)"
proof -
  have "used \<noteq> [] \<Longrightarrow> call_node p \<noteq> last used"
    using mq_parts_node(1) [OF assms] last_in_set [of used] by auto
  then show ?thesis using assms(1) by (simp add: mq_append_def mq_parts_def Let_def)
qed

lemma mq_alloc_sim:
  assumes r: "mq_rel q (k, calls) (ms, got)" and c: "calls c = None" and b: "b \<noteq> []"
    and len: "length b \<le> unat (mq_msg_size (msgqueues k q))"
    and f: "mq_msg_queue_free (msgqueues k q) = Some m"
  shows "mq_rel q (mq_alloc q m k, calls(c \<mapsto> Sending m b u)) (ms, got)"
proof -
  obtain used fr where l: "clock_ok k" "mq_parts (msgqueues k q) calls used fr"
    "list_all2 stores (map (mq_msg_data (msgqueues k q)) used) ms"
    "\<And>x. x \<in> set ms \<Longrightarrow> length x \<le> unat (mq_msg_size (msgqueues k q))"
    "\<And>c p. calls c = Some p \<Longrightarrow> call_ok (msgqueues k q) (got c) p"
    using mq_relE [OF r] by blast
  obtain fr' where "mq_parts (msgqueues (mq_alloc q m k) q) (calls(c \<mapsto> Sending m b u)) used fr'"
    using mq_parts_alloc [OF l(2) c f, of "Sending m b u"] by (auto simp: mq_alloc_def)
  then show ?thesis
  proof (rule mq_relI [rotated])
    show "clock_ok (mq_alloc q m k)" using l(1) by (simp add: mq_alloc_def)
    fix d p assume p: "(calls(c \<mapsto> Sending m b u)) d = Some p"
    show "call_ok (msgqueues (mq_alloc q m k) q) (got d) p"
    proof (cases "d = c")
      case True
      then show ?thesis using p b len by (auto simp: mq_alloc_def)
    next
      case False
      then show ?thesis using p by (intro call_ok_cong [OF l(5)]) (auto simp: mq_alloc_def)
    qed
  qed (use l(3,4) in \<open>simp_all add: mq_alloc_def\<close>)
qed

lemma mq_fill_sim:
  assumes r: "mq_rel q (k, calls) (ms, got)" and c: "calls c = Some (Sending m b u)"
    and k': "k' = (if u then mq_fill_urgent q m b k else mq_fill q m b k)"
  shows "mq_rel q (k', calls(c \<mapsto> Filled m b u)) (ms, got)"
proof -
  obtain used fr where l: "clock_ok k" "mq_parts (msgqueues k q) calls used fr"
    "list_all2 stores (map (mq_msg_data (msgqueues k q)) used) ms"
    "\<And>x. x \<in> set ms \<Longrightarrow> length x \<le> unat (mq_msg_size (msgqueues k q))"
    "\<And>c p. calls c = Some p \<Longrightarrow> call_ok (msgqueues k q) (got c) p"
    using mq_relE [OF r] by blast
  have b: "b \<noteq> []" "length b \<le> unat (mq_msg_size (msgqueues k q))" using l(5) [OF c] by simp_all
  have m: "call_node (Sending m b u) = m" by simp
  note f = mq_parts_fill [OF l(2) c m b(2)] and n = mq_parts_node [OF l(2) c, unfolded m]
  define mq' where "mq' = msgqueues k' q"
  have mq': "mq_parts mq' calls used fr" "stores (mq_msg_data mq' m) b"
    "mq_msg_size mq' = mq_msg_size (msgqueues k q)" "\<not> u \<Longrightarrow> mq_msg_next mq' m = None"
    "\<And>n. n \<noteq> m \<Longrightarrow> mq_msg_data mq' n = mq_msg_data (msgqueues k q) n"
    "\<And>n. n \<noteq> m \<Longrightarrow> mq_msg_next mq' n = mq_msg_next (msgqueues k q) n"
    using f by (simp_all add: mq'_def k' mq_fill_urgent_def mq_fill_def)
  have "mq_parts mq' (calls(c \<mapsto> Filled m b u)) used fr"
    by (rule mq_parts_advance [OF mq'(1) c]) simp
  then have "mq_parts (msgqueues k' q) (calls(c \<mapsto> Filled m b u)) used fr" by (simp add: mq'_def)
  then show ?thesis
  proof (rule mq_relI [rotated])
    show "clock_ok k'" using l(1) by (simp add: k' mq_fill_urgent_def mq_fill_def)
    have "mq_msg_data mq' x = mq_msg_data (msgqueues k q) x" if "x \<in> set used" for x
      using that n(1) by (intro mq'(5)) auto
    then have "map (mq_msg_data mq') used = map (mq_msg_data (msgqueues k q)) used"
      by (intro map_cong refl)
    then show "list_all2 stores (map (mq_msg_data (msgqueues k' q)) used) ms"
      using l(3) by (simp only: mq'_def)
    show "length x \<le> unat (mq_msg_size (msgqueues k' q))" if "x \<in> set ms" for x
      using l(4) [OF that] mq'(3) by (simp add: mq'_def)
    fix d p assume p: "(calls(c \<mapsto> Filled m b u)) d = Some p"
    show "call_ok (msgqueues k' q) (got d) p"
    proof (cases "d = c")
      case True
      then show ?thesis using p b mq'(2-4) by (auto simp: mq'_def)
    next
      case False
      then have d: "calls d = Some p" using p by simp
      show ?thesis
        using n(4) [OF d False] mq'(3,5,6) by (intro call_ok_cong [OF l(5) [OF d]]) (auto simp: mq'_def)
    qed
  qed
qed

lemma mq_link_sim:
  assumes r: "mq_rel q (k, calls) (ms, got)" and c: "calls c = Some (Filled m b u)"
  obtains k' where "(if u then mq_link_front q m k else mq_link q m k) = Some (RT_EOK, k')"
    "mq_rel q (k', calls(c := None)) (if u then b # ms else ms @ [b], got)" "mq_keeps q k k'"
proof -
  obtain used fr where l: "clock_ok k" "mq_parts (msgqueues k q) calls used fr"
    "list_all2 stores (map (mq_msg_data (msgqueues k q)) used) ms"
    "\<And>x. x \<in> set ms \<Longrightarrow> length x \<le> unat (mq_msg_size (msgqueues k q))"
    "\<And>c p. calls c = Some p \<Longrightarrow> call_ok (msgqueues k q) (got c) p"
    using mq_relE [OF r] by blast
  have b: "length b \<le> unat (mq_msg_size (msgqueues k q))" "stores (mq_msg_data (msgqueues k q) m) b"
    "\<not> u \<Longrightarrow> mq_msg_next (msgqueues k q) m = None" using l(5) [OF c] by simp_all
  have m: "call_node (Filled m b u) = m" by simp
  note n = mq_parts_node [OF l(2) c, unfolded m]
  define mq1 where "mq1 = (if u then mq_prepend m (msgqueues k q) else mq_append m (msgqueues k q))"
  let ?k1 = "upd_mq q (\<lambda>_. mq1) k"
  have sel: "mq_entry mq1 = mq_entry (msgqueues k q)" "mq_msg_size mq1 = mq_msg_size (msgqueues k q)"
    "mq_max_msgs mq1 = mq_max_msgs (msgqueues k q)" "mq_type mq1 = mq_type (msgqueues k q)"
    "mq_flag mq1 = mq_flag (msgqueues k q)" "mq_msg_data mq1 = mq_msg_data (msgqueues k q)"
    by (simp_all add: mq1_def)
  have c1: "clock_ok ?k1" "mq_entry (msgqueues ?k1 q) < RT_MQ_ENTRY_MAX"
    using l(1) mq_parts_entry(1) [OF l(2) c] sel(1) by simp_all
  obtain k' where k': "mq_sent q ?k1 = Some (RT_EOK, k')" "clock_ok k'"
    "msgqueues k' = (msgqueues ?k1)(q := (msgqueues ?k1 q)\<lparr>mq_entry := mq_entry (msgqueues ?k1 q) + 1\<rparr>)"
    by (rule mq_sent_frame [OF c1])
  have mq': "msgqueues k' q = mq1\<lparr>mq_entry := mq_entry (msgqueues k q) + 1\<rparr>" using k'(3) sel by simp
  let ?us = "if u then m # used else used @ [m]"
  have "mq_parts (msgqueues k' q) (calls(c := None)) ?us fr"
    using mq_parts_prepend [OF l(2) c m] mq_parts_append [OF l(2) c m b(3)] unfolding mq'
    by (simp add: mq1_def)
  then have "mq_rel q (k', calls(c := None)) (if u then b # ms else ms @ [b], got)"
  proof (rule mq_relI [rotated])
    show "clock_ok k'" by fact
    show "list_all2 stores (map (mq_msg_data (msgqueues k' q)) ?us) (if u then b # ms else ms @ [b])"
      using l(3) b(2) by (simp add: mq' sel list_all2_appendI)
    show "length x \<le> unat (mq_msg_size (msgqueues k' q))"
      if "x \<in> set (if u then b # ms else ms @ [b])" for x
      using that l(4) [of x] b(1) by (auto simp: mq' sel split: if_splits)
    fix d p assume p: "(calls(c := None)) d = Some p"
    then have d: "calls d = Some p" "d \<noteq> c" by (auto split: if_splits)
    have "mq_msg_next mq1 (call_node p) = mq_msg_next (msgqueues k q) (call_node p)"
      using mq_append_next [OF l(2) d(1), of m] n(4) [OF d] by (simp add: mq1_def mq_prepend_def Let_def)
    then show "call_ok (msgqueues k' q) (got d) p"
      by (intro call_ok_cong [OF l(5) [OF d(1)]]) (simp_all add: mq' sel)
  qed
  moreover have "(if u then mq_link_front q m k else mq_link q m k) = Some (RT_EOK, k')"
    using k'(1) by (cases u) (simp_all add: mq_link_front_def mq_link_def mq1_def)
  moreover have "mq_keeps q k k'" by (simp add: mq_keeps_def mq' sel)
  ultimately show ?thesis using that by blast
qed

lemma mq_unlink_sim:
  assumes r: "mq_rel q (k, calls) (ms, got)" and c: "calls c = None"
    and e: "mq_entry (msgqueues k q) \<noteq> 0" and h: "mq_msg_queue_head (msgqueues k q) = Some m"
  shows "\<exists>x xs. ms = x # xs
    \<and> mq_rel q (mq_unlink q m k, calls(c \<mapsto> Receiving m sz)) (xs, got(c \<mapsto> x))"
proof -
  obtain used fr where l: "clock_ok k" "mq_parts (msgqueues k q) calls used fr"
    "list_all2 stores (map (mq_msg_data (msgqueues k q)) used) ms"
    "\<And>x. x \<in> set ms \<Longrightarrow> length x \<le> unat (mq_msg_size (msgqueues k q))"
    "\<And>c p. calls c = Some p \<Longrightarrow> call_ok (msgqueues k q) (got c) p"
    using mq_relE [OF r] by blast
  have mq': "msgqueues (mq_unlink q m k) q
      = (mq_pop m (msgqueues k q))\<lparr>mq_entry := mq_entry (msgqueues k q) - 1\<rparr>"
    using e by (simp add: mq_unlink_def word_gt_0)
  obtain us where us: "used = m # us"
    "mq_parts (msgqueues (mq_unlink q m k) q) (calls(c \<mapsto> Receiving m sz)) us fr"
    unfolding mq' by (rule mq_parts_unlink [OF l(2) c h, of "Receiving m sz"]) simp_all
  obtain x xs where x: "ms = x # xs" "stores (mq_msg_data (msgqueues k q) m) x"
    "list_all2 stores (map (mq_msg_data (msgqueues k q)) us) xs"
    using l(3) us(1) by (auto simp: list_all2_Cons1)
  have "mq_rel q (mq_unlink q m k, calls(c \<mapsto> Receiving m sz)) (xs, got(c \<mapsto> x))"
    using us(2)
  proof (rule mq_relI [rotated])
    show "clock_ok (mq_unlink q m k)" using l(1) by (simp add: mq_unlink_def)
    show "list_all2 stores (map (mq_msg_data (msgqueues (mq_unlink q m k) q)) us) xs"
      using x(3) by (simp add: mq')
    show "length y \<le> unat (mq_msg_size (msgqueues (mq_unlink q m k) q))" if "y \<in> set xs" for y
      using l(4) [of y] that x(1) by (simp add: mq')
    fix d p assume p: "(calls(c \<mapsto> Receiving m sz)) d = Some p"
    show "call_ok (msgqueues (mq_unlink q m k) q) ((got(c \<mapsto> x)) d) p"
    proof (cases "d = c")
      case True
      then have "p = Receiving m sz" using p by simp
      then show ?thesis using True x(1,2) l(4) [of x] by (simp add: mq')
    next
      case False
      then have "call_ok (msgqueues k q) (got d) p" using p l(5) by simp
      then have "call_ok (msgqueues (mq_unlink q m k) q) (got d) p"
        by (rule call_ok_cong) (simp_all add: mq')
      then show ?thesis using False by simp
    qed
  qed
  then show ?thesis using x(1) by blast
qed

lemma mq_copy_sim:
  assumes r: "mq_rel q (k, calls) (ms, got)" and c: "calls c = Some (Receiving m sz)"
  shows "mq_rel q (k, calls(c \<mapsto> Received m sz (mq_read q m sz k))) (ms, got)"
proof -
  obtain used fr where l: "clock_ok k" "mq_parts (msgqueues k q) calls used fr"
    "list_all2 stores (map (mq_msg_data (msgqueues k q)) used) ms"
    "\<And>x. x \<in> set ms \<Longrightarrow> length x \<le> unat (mq_msg_size (msgqueues k q))"
    "\<And>c p. calls c = Some p \<Longrightarrow> call_ok (msgqueues k q) (got c) p"
    using mq_relE [OF r] by blast
  let ?p = "Received m sz (mq_read q m sz k)"
  obtain x where x: "got c = Some x" "length x \<le> unat (mq_msg_size (msgqueues k q))"
    "stores (mq_msg_data (msgqueues k q) m) x" using l(5) [OF c] by auto
  have ld: "length (mq_msg_data (msgqueues k q) m) = unat (mq_msg_size (msgqueues k q))"
    using mq_parts_node(3) [OF l(2) c] by simp
  have "take (length x) (mq_read q m sz k) = take sz (take (length x) (mq_msg_data (msgqueues k q) m))"
    using x(2) by (simp add: mq_read_def Let_def min_def)
  also have "\<dots> = take sz x" using x(3) by (simp only: stores_def)
  finally have "call_ok (msgqueues k q) (got c) ?p"
    using x(1) ld by (simp add: mq_read_def Let_def)
  then have ok: "\<And>d p. (calls(c \<mapsto> ?p)) d = Some p \<Longrightarrow> call_ok (msgqueues k q) (got d) p"
    using l(5) by (auto simp del: call_ok.simps split: if_splits)
  have "mq_parts (msgqueues k q) (calls(c \<mapsto> ?p)) used fr"
    by (rule mq_parts_advance [OF l(2) c]) simp
  then show ?thesis by (rule mq_relI [OF l(1) _ l(3)]) (use l(4) ok in blast)+
qed

lemma mq_give_back_sim:
  assumes r: "mq_rel q (k, calls) (ms, got)" and c: "calls c = Some (Received m sz bytes)"
  obtains k' x where "mq_give_back q m k = Some (RT_EOK, k')" "got c = Some x"
    "take (length x) bytes = take sz x" "length bytes = min sz (unat (mq_msg_size (msgqueues k q)))"
    "mq_rel q (k', calls(c := None)) (ms, got(c := None))" "mq_keeps q k k'"
proof -
  obtain used fr where l: "clock_ok k" "mq_parts (msgqueues k q) calls used fr"
    "list_all2 stores (map (mq_msg_data (msgqueues k q)) used) ms"
    "\<And>x. x \<in> set ms \<Longrightarrow> length x \<le> unat (mq_msg_size (msgqueues k q))"
    "\<And>c p. calls c = Some p \<Longrightarrow> call_ok (msgqueues k q) (got c) p"
    using mq_relE [OF r] by blast
  obtain x where x: "got c = Some x" "take (length x) bytes = take sz x"
    "length bytes = min sz (unat (mq_msg_size (msgqueues k q)))" using l(5) [OF c] by auto
  obtain k' where k': "mq_give_back q m k = Some (RT_EOK, k')" "clock_ok k'"
    "msgqueues k' = (msgqueues k)(q := mq_free_node m (msgqueues k q))"
    by (rule mq_give_back_frame [OF l(1)])
  have m: "call_node (Received m sz bytes) = m" by simp
  have mq': "msgqueues k' q = mq_free_node m (msgqueues k q)" using k'(3) by simp
  have "mq_parts (msgqueues k' q) (calls(c := None)) used (m # fr)"
    unfolding mq' by (rule mq_parts_free [OF l(2) c m])
  then have "mq_rel q (k', calls(c := None)) (ms, got(c := None))"
  proof (rule mq_relI [rotated])
    fix d p assume p: "(calls(c := None)) d = Some p"
    then have d: "calls d = Some p" "d \<noteq> c" by (auto split: if_splits)
    then show "call_ok (msgqueues k' q) ((got(c := None)) d) p"
      using mq_parts_node(4) [OF l(2) c d]
      by (auto intro: call_ok_cong [OF l(5) [OF d(1)]] simp: mq' mq_free_node_def)
  qed (use k'(2) l(3,4) in \<open>simp_all add: mq'\<close>)
  then show ?thesis using that [OF k'(1) x] by (simp add: mq_keeps_def mq')
qed

lemma mq_step_sim:
  assumes r: "mq_rel q (k, calls) (ms, got)" and st: "mq_step q (k, calls) e (k', calls')"
  shows "(\<exists>a. mq_spec_step (unat (mq_msg_size (msgqueues k q))) e (ms, got) = Some a
      \<and> mq_rel q (k', calls') a) \<and> mq_keeps q k k'"
  using st
proof (cases rule: mq_step.cases)
  case (alloc c b m u)
  then show ?thesis using mq_alloc_sim [OF r] by (auto simp: mq_keeps_def mq_alloc_def)
next
  case (fill c m b u)
  then show ?thesis using mq_fill_sim [OF r]
    by (auto simp: mq_keeps_def mq_fill_urgent_def mq_fill_def)
next
  case (link c m b u ret)
  obtain k2 where k2: "(if u then mq_link_front q m k else mq_link q m k) = Some (RT_EOK, k2)"
    "mq_rel q (k2, calls(c := None)) (if u then b # ms else ms @ [b], got)" "mq_keeps q k k2"
    by (rule mq_link_sim [OF r link(3)])
  then show ?thesis using link by simp
next
  case (unlink c sz m)
  then show ?thesis using mq_unlink_sim [OF r unlink(4,6,7), of sz]
    by (auto simp: mq_keeps_def mq_unlink_def)
next
  case (copy c m sz)
  then show ?thesis using mq_copy_sim [OF r copy(4)] by (simp add: mq_keeps_def)
next
  case (give_back c m sz bytes ret)
  obtain k2 x where k2: "mq_give_back q m k = Some (RT_EOK, k2)" "got c = Some x"
    "take (length x) bytes = take sz x" "length bytes = min sz (unat (mq_msg_size (msgqueues k q)))"
    "mq_rel q (k2, calls(c := None)) (ms, got(c := None))" "mq_keeps q k k2"
    by (rule mq_give_back_sim [OF r give_back(3)])
  then show ?thesis using give_back by simp
next
  case env
  then show ?thesis using r by (auto simp: mq_rel_def mq_keeps_def)
qed

lemma mq_run_sim:
  assumes "mq_run q s es s'" "mq_rel q s a"
  shows "(\<exists>a'. mq_spec (unat (mq_msg_size (msgqueues (fst s) q))) es a = Some a' \<and> mq_rel q s' a')
    \<and> mq_keeps q (fst s) (fst s')"
  using assms
proof (induction arbitrary: a rule: mq_run.induct)
  case (none s)
  then show ?case by (simp add: mq_keeps_def)
next
  case (more s e s1 es s2)
  obtain a1 where a1: "mq_spec_step (unat (mq_msg_size (msgqueues (fst s) q))) e a = Some a1"
    "mq_rel q s1 a1" "mq_keeps q (fst s) (fst s1)"
    using mq_step_sim [of q "fst s" "snd s" "fst a" "snd a" e "fst s1" "snd s1"] more.hyps(1) more.prems
    by auto
  then show ?case using more.IH [OF a1(2)] by (auto simp: mq_keeps_def)
qed

lemma mq_rel_start:
  assumes "mq_ok q k"
  shows "mq_rel q (k, Map.empty) (mq_items (msgqueues k q), Map.empty)"
proof -
  obtain used fr where l: "mq_lists (msgqueues k q) used fr" "clock_ok k" by (rule mq_wfE [OF assms])
  have "mq_parts (msgqueues k q) Map.empty used fr"
    using l(1) by (auto simp: mq_parts_def mq_lists_def calls_apart_def in_hand_def)
  moreover have "stores y y" for y by (simp add: stores_def)
  then have "list_all2 stores ys ys" for ys by (simp add: list_all2_refl)
  moreover have "length y \<le> unat (mq_msg_size (msgqueues k q))"
    if "y \<in> set (mq_items (msgqueues k q))" for y
    using that l(1) by (auto simp: mq_items_eq [OF l(1)] mq_lists_def)
  ultimately show ?thesis using l(2) by (intro mq_relI [of _ _ _ used fr]) (simp_all add: mq_items_eq [OF l(1)])
qed

lemma mq_parts_items:
  assumes "mq_parts mq calls used fr"
  shows "mq_items mq = map (mq_msg_data mq) used"
proof -
  have "chain_nodes (length used) (mq_msg_next mq) (mq_msg_queue_head mq) = used"
    using assms by (intro chain_nodes_eq) (simp add: mq_parts_def)
  then show ?thesis using assms by (simp add: mq_items_def mq_parts_def)
qed

text \<open>Whenever messages are counted there is a first one, and every call in progress can go on.\<close>

lemma mq_rel_progress:
  assumes r: "mq_rel q (k, calls) (ms, got)" and c: "calls c = Some p"
  shows "\<exists>e k' v. mq_step q (k, calls) e (k', calls(c := v)) \<and> v \<noteq> Some p"
proof (cases p)
  case (Sending m b u)
  then have "calls c = Some (Sending m b u)" using c by simp
  from mq_step.fill [of calls c m b u q k, OF this] Sending show ?thesis by blast
next
  case (Filled m b u)
  then have c': "calls c = Some (Filled m b u)" using c by simp
  obtain k2 where "(if u then mq_link_front q m k else mq_link q m k) = Some (RT_EOK, k2)"
    by (rule mq_link_sim [OF r c'])
  from mq_step.link [of calls c m b u q k, OF c' this] show ?thesis by blast
next
  case (Receiving m sz)
  then have "calls c = Some (Receiving m sz)" using c by simp
  from mq_step.copy [of calls c m sz q k, OF this] Receiving show ?thesis by blast
next
  case (Received m sz bytes)
  then have c': "calls c = Some (Received m sz bytes)" using c by simp
  obtain k2 where "mq_give_back q m k = Some (RT_EOK, k2)"
    by (rule mq_give_back_sim [OF r c'])
  from mq_step.give_back [of calls c m sz bytes q k, OF c' this] show ?thesis by blast
qed

text \<open>
  C9 (message queue order). Whatever calls of \<open>rt_mq_send\<close>, \<open>rt_mq_urgent\<close> and \<open>rt_mq_recv\<close>, with
  messages of any size up to that of the queue, are in progress at the same time, and in whatever
  order their critical sections and copies are interleaved with each other and with the rest of the
  system: the messages leave the queue in the order in which they were linked, an urgent one before
  all others; every receive returns the message that it took, all bytes of it that fit in its
  buffer, and no message is lost, duplicated or mixed up with another. Every linking and every
  return gives \<open>RT_EOK\<close>, a counted message can be taken, and every call in progress can go on.
\<close>

theorem mq_fifo_order:
  assumes "mq_ok q k" "mq_run q (k, Map.empty) es (k', calls)"
  shows "\<exists>ms got. mq_spec (unat (mq_msg_size (msgqueues k q))) es (mq_items (msgqueues k q), Map.empty)
      = Some (ms, got)
    \<and> list_all2 stores (mq_items (msgqueues k' q)) ms
    \<and> length ms + card (in_hand calls) \<le> unat (mq_max_msgs (msgqueues k q))
    \<and> (mq_entry (msgqueues k' q) \<noteq> 0 \<longrightarrow> mq_msg_queue_head (msgqueues k' q) \<noteq> None)
    \<and> (\<forall>c p. calls c = Some p \<longrightarrow> (\<exists>e k2 v. mq_step q (k', calls) e (k2, calls(c := v)) \<and> v \<noteq> Some p))
    \<and> (calls = Map.empty \<longrightarrow> mq_ok q k')"
proof -
  obtain a' where a': "mq_spec (unat (mq_msg_size (msgqueues k q))) es
      (mq_items (msgqueues k q), Map.empty) = Some a'" "mq_rel q (k', calls) a'" "mq_keeps q k k'"
    using mq_run_sim [OF assms(2) mq_rel_start [OF assms(1)]] unfolding fst_conv by blast
  obtain ms got where p: "a' = (ms, got)" by (cases a')
  note a = a' [unfolded p]
  obtain used fr where l: "clock_ok k'" "mq_parts (msgqueues k' q) calls used fr"
    "list_all2 stores (map (mq_msg_data (msgqueues k' q)) used) ms"
    by (rule mq_relE [OF a(2)]) blast
  have "list_all2 stores (mq_items (msgqueues k' q)) ms"
    using l(3) unfolding mq_parts_items [OF l(2)] .
  moreover have "length ms + card (in_hand calls) \<le> unat (mq_max_msgs (msgqueues k q))"
  proof -
    have "length used + length fr + card (in_hand calls) = unat (mq_max_msgs (msgqueues k' q))"
      using l(2) unfolding mq_parts_def by blast
    moreover have "length ms = length used" using list_all2_lengthD [OF l(3)] by simp
    moreover have "mq_max_msgs (msgqueues k' q) = mq_max_msgs (msgqueues k q)"
      using a(3) by (simp add: mq_keeps_def)
    ultimately show ?thesis by simp
  qed
  moreover have "mq_entry (msgqueues k' q) \<noteq> 0 \<longrightarrow> mq_msg_queue_head (msgqueues k' q) \<noteq> None"
    using l(2) by (cases used) (auto simp: mq_parts_def simp flip: unat_eq_0)
  moreover have "mq_ok q k'" if "calls = Map.empty"
  proof -
    have "mq_lists (msgqueues k' q) used fr"
      using l(2) that by (auto simp: mq_parts_def mq_lists_def in_hand_def)
    then show ?thesis using assms(1) a(3) l(1) by (auto simp: mq_ok_def mq_wf_def mq_keeps_def)
  qed
  ultimately show ?thesis using a(1) mq_rel_progress [OF a(2)] by blast
qed

subsection \<open>The calls of the interface\<close>

text \<open>
  \<open>rt_mq_send\<close> on a queue with a free node, \<open>rt_mq_urgent\<close> and \<open>rt_mq_recv\<close> on a queue with a
  message are these parts, one after the other; a call that waits is a step of the rest of the
  system.
\<close>

lemma mq_run_three:
  assumes "mq_step q s e1 s1" "mq_step q s1 e2 s2" "mq_step q s2 e3 s3"
  shows "mq_run q s [e1, e2, e3] s3"
  by (rule mq_run.more [OF assms(1) mq_run.more [OF assms(2) mq_run.more [OF assms(3) mq_run.none]]])

lemma send_is_run:
  assumes run: "rt_mq_send_wait_flag q b timeout f k = Some (Done ret, k')" and c: "calls c = None"
    and free: "mq_msg_queue_free (msgqueues k q) = Some m"
    and len: "length b \<le> unat (mq_msg_size (msgqueues k q))"
  shows "mq_run q (k, calls) [Internal, Internal, Enqueue b False ret] (k', calls)"
proof -
  have b: "b \<noteq> []" and put: "mq_put q m b k = Some (ret, k')"
    using run free len by (auto simp: rt_mq_send_wait_flag_def mq_send_loop_def rt_assert_def Let_def
        split: bind_splits if_splits)
  show ?thesis
    using mq_run_three [OF mq_step.alloc [of calls c b k q m False, OF c b len free]
        mq_step.fill [of _ c m b False] mq_step.link [of _ c m b False]] put c
    by (simp add: mq_put_def fun_upd_idem)
qed

lemma urgent_is_run:
  assumes run: "rt_mq_urgent q b k = Some (ret, k')" and c: "calls c = None"
    and free: "mq_msg_queue_free (msgqueues k q) = Some m"
    and len: "length b \<le> unat (mq_msg_size (msgqueues k q))"
  shows "mq_run q (k, calls) [Internal, Internal, Enqueue b True ret] (k', calls)"
proof -
  have b: "b \<noteq> []" and put: "mq_link_front q m (mq_fill_urgent q m b (mq_alloc q m k)) = Some (ret, k')"
    using run free len by (auto simp: rt_mq_urgent_def rt_assert_def split: bind_splits if_splits)
  show ?thesis
    using mq_run_three [OF mq_step.alloc [of calls c b k q m True, OF c b len free]
        mq_step.fill [of _ c m b True] mq_step.link [of _ c m b True]] put c
    by (simp add: fun_upd_idem)
qed

lemma recv_is_run:
  assumes run: "rt_mq_recv_flag q sz timeout f k = Some (Done ret, Some bytes, k')"
    and c: "calls c = None" and e: "mq_entry (msgqueues k q) \<noteq> 0"
  shows "mq_run q (k, calls) [Dequeue c, Internal, Return c sz bytes ret] (k', calls)"
proof -
  have sz: "sz \<noteq> 0" and get: "mq_get q sz k = Some (ret, bytes, k')"
    using run e by (auto simp: rt_mq_recv_flag_def mq_recv_loop_def rt_assert_def Let_def
        split: bind_splits if_splits)
  obtain m where h: "mq_msg_queue_head (msgqueues k q) = Some m"
    "mq_give_back q m (mq_unlink q m k) = Some (ret, k')" "bytes = mq_read q m sz (mq_unlink q m k)"
    using get by (auto simp: mq_get_def Let_def split: bind_splits)
  show ?thesis
    using mq_run_three [OF mq_step.unlink [of calls c sz k q m, OF c sz e h(1)]
        mq_step.copy [of _ c m sz] mq_step.give_back [of _ c m sz]] h(2,3) c
    by (simp add: fun_upd_idem)
qed

lemma send_wait_is_env:
  assumes run: "rt_mq_send_wait_flag q b timeout f k = Some (r, k')" and k: "in_thread_context k t"
    and full: "mq_msg_queue_free (msgqueues k q) = None"
    and flag: "mq_flag (msgqueues k q) = RT_IPC_FLAG_FIFO \<or> mq_flag (msgqueues k q) = RT_IPC_FLAG_PRIO"
    and tm: "time_ok timeout" and f: "f = RT_INTERRUPTIBLE \<or> f = RT_KILLABLE \<or> f = RT_UNINTERRUPTIBLE"
  shows "mq_step q (k, calls) Internal (k', calls)"
proof (rule mq_step.env)
  let ?k1 = "upd_thread t (th_error_update (\<lambda>_. - RT_EINTR)) k"
  have cur: "rt_current_thread ?k1 = Some t" "thread_state ?k1 t = RT_THREAD_RUNNING"
    using k by (simp_all add: in_thread_context_def)
  have k1: "clock_ok ?k1"
    by (rule clock_ok_upd_thread) (use k in \<open>simp_all add: in_thread_context_def\<close>)
  have fl: "mq_flag (msgqueues ?k1 q) = RT_IPC_FLAG_FIFO \<or> mq_flag (msgqueues ?k1 q) = RT_IPC_FLAG_PRIO"
    using flag by simp
  have iq: "ipc_queue (QMqSender q)" by simp
  obtain k2 where k2: "ipc_block (QMqSender q) t (mq_flag (msgqueues ?k1 q)) f timeout ?k1 = Some (RT_EOK, k2)"
    "clock_ok k2" "ipc_frame ?k1 k2"
    by (rule ipc_block_spec [OF k1 cur tm f fl iq])
  have "k' = k \<or> k' = k2"
    using run full k2(1) k
    by (auto simp: rt_mq_send_wait_flag_def mq_send_loop_def rt_assert_def Let_def rt_thread_self_def
        in_thread_context_def split: bind_splits if_splits)
  then show "clock_ok k'" "msgqueues k' q = msgqueues k q"
    using k k2(2) ipc_frame_sel [OF k2(3)] by (auto simp: in_thread_context_def)
qed

lemma recv_wait_is_env:
  assumes run: "rt_mq_recv_flag q sz timeout f k = Some (r, bytes, k')" and k: "in_thread_context k t"
    and none: "mq_entry (msgqueues k q) = 0"
    and flag: "mq_flag (msgqueues k q) = RT_IPC_FLAG_FIFO \<or> mq_flag (msgqueues k q) = RT_IPC_FLAG_PRIO"
    and tm: "time_ok timeout" and f: "f = RT_INTERRUPTIBLE \<or> f = RT_KILLABLE \<or> f = RT_UNINTERRUPTIBLE"
  shows "mq_step q (k, calls) Internal (k', calls)"
proof (rule mq_step.env)
  let ?k1 = "upd_thread t (th_error_update (\<lambda>_. - RT_EINTR)) k"
  have cur: "rt_current_thread ?k1 = Some t" "thread_state ?k1 t = RT_THREAD_RUNNING"
    using k by (simp_all add: in_thread_context_def)
  have k1: "clock_ok ?k1"
    by (rule clock_ok_upd_thread) (use k in \<open>simp_all add: in_thread_context_def\<close>)
  have fl: "mq_flag (msgqueues ?k1 q) = RT_IPC_FLAG_FIFO \<or> mq_flag (msgqueues ?k1 q) = RT_IPC_FLAG_PRIO"
    using flag by simp
  have iq: "ipc_queue (QMq q)" by simp
  obtain k2 where k2: "ipc_block (QMq q) t (mq_flag (msgqueues ?k1 q)) f timeout ?k1 = Some (RT_EOK, k2)"
    "clock_ok k2" "ipc_frame ?k1 k2"
    by (rule ipc_block_spec [OF k1 cur tm f fl iq])
  have "k' = k \<or> k' = k2"
    using run none k2(1) k
    by (auto simp: rt_mq_recv_flag_def mq_recv_loop_def rt_assert_def Let_def rt_thread_self_def
        in_thread_context_def split: bind_splits if_splits)
  then show "clock_ok k'" "msgqueues k' q = msgqueues k q"
    using k k2(2) ipc_frame_sel [OF k2(3)] by (auto simp: in_thread_context_def)
qed

subsection \<open>A concrete queue\<close>

text \<open>An urgent message of one byte is sent while a receive copies the message that it has taken.\<close>

lemma demo_mq_run:
  "\<exists>k. mq_run 0 (demo_mq, Map.empty)
     [Internal, Internal, Dequeue 1, Enqueue [9] True RT_EOK, Internal] (k, [1 \<mapsto> Received 0 8 [5, 6]])"
proof -
  let ?ka = "mq_alloc 0 1 demo_mq"
  let ?kf = "mq_fill_urgent 0 1 [9] ?ka"
  let ?ku = "mq_unlink 0 0 ?kf"
  have "clock_ok ?ku"
    using demo_mq_ok(1) by (simp add: mq_ok_def mq_alloc_def mq_fill_urgent_def mq_unlink_def)
  then have "clock_ok (upd_mq 0 (mq_prepend 1) ?ku)" by simp
  moreover have "mq_entry (msgqueues (upd_mq 0 (mq_prepend 1) ?ku) 0) < RT_MQ_ENTRY_MAX"
    by (simp add: mq_unlink_def mq_fill_urgent_def mq_alloc_def demo_mq_def demo_mq_bss_def mq_copy_in_def)
  ultimately obtain k4 where k4: "mq_sent 0 (upd_mq 0 (mq_prepend 1) ?ku) = Some (RT_EOK, k4)"
    "msgqueues k4 = (msgqueues (upd_mq 0 (mq_prepend 1) ?ku))(0 := (msgqueues (upd_mq 0 (mq_prepend 1) ?ku) 0)
      \<lparr>mq_entry := mq_entry (msgqueues (upd_mq 0 (mq_prepend 1) ?ku) 0) + 1\<rparr>)"
    by (rule mq_sent_frame)
  have r: "mq_read 0 0 8 k4 = [5, 6]"
    using k4(2) by (simp add: mq_read_def Let_def mq_unlink_def mq_fill_urgent_def mq_alloc_def
        demo_mq_def demo_mq_bss_def mq_copy_in_def)
  have s1: "mq_step 0 (demo_mq, Map.empty) Internal (?ka, [2 \<mapsto> Sending 1 [9] True])"
    by (rule mq_step.alloc) (simp_all add: demo_mq_def demo_mq_bss_def)
  have s2: "mq_step 0 (?ka, [2 \<mapsto> Sending 1 [9] True]) Internal (?kf, [2 \<mapsto> Filled 1 [9] True])"
    using mq_step.fill [of "[2 \<mapsto> Sending 1 [9] True]" 2 1 "[9]" True 0 ?ka] by simp
  have s3: "mq_step 0 (?kf, [2 \<mapsto> Filled 1 [9] True]) (Dequeue 1)
      (?ku, [2 \<mapsto> Filled 1 [9] True, 1 \<mapsto> Receiving 0 8])"
    by (rule mq_step.unlink)
      (simp_all add: mq_fill_urgent_def mq_alloc_def demo_mq_def demo_mq_bss_def mq_copy_in_def)
  have s4: "mq_step 0 (?ku, [2 \<mapsto> Filled 1 [9] True, 1 \<mapsto> Receiving 0 8]) (Enqueue [9] True RT_EOK)
      (k4, [1 \<mapsto> Receiving 0 8])"
    using mq_step.link [of "[2 \<mapsto> Filled 1 [9] True, 1 \<mapsto> Receiving 0 8]" 2 1 "[9]" True 0 ?ku RT_EOK k4] k4(1)
    by (simp add: mq_link_front_def fun_upd_twist)
  have s5: "mq_step 0 (k4, [1 \<mapsto> Receiving 0 8]) Internal (k4, [1 \<mapsto> Received 0 8 [5, 6]])"
    using mq_step.copy [of "[1 \<mapsto> Receiving 0 8]" 1 0 8 0 k4] r by simp
  show ?thesis
    using mq_run.more [OF s1 mq_run.more [OF s2 mq_run.more [OF s3 mq_run.more [OF s4
      mq_run.more [OF s5 mq_run.none]]]]] by blast
qed

theorem mq_fifo_order_witness:
  "\<exists>k es y. mq_run 0 (demo_mq, Map.empty) es (k, [1 \<mapsto> Received 0 8 [5, 6]])
     \<and> mq_items (msgqueues k 0) = [y] \<and> take 1 y = [9]"
proof -
  obtain k where k: "mq_run 0 (demo_mq, Map.empty)
      [Internal, Internal, Dequeue 1, Enqueue [9] True RT_EOK, Internal] (k, [1 \<mapsto> Received 0 8 [5, 6]])"
    using demo_mq_run by blast
  have "list_all2 stores (mq_items (msgqueues k 0)) [[9]]"
    using mq_fifo_order [OF demo_mq_ok(1) k] demo_mq_ok(2) by auto
  then show ?thesis using k by (auto simp: list_all2_Cons2 stores_def)
qed

end
