(* ===== verification/Thread_Life.thy ===== *)
theory Thread_Life
  imports Ipc_Mutex
begin

text \<open>
  The end of a thread that another one closes (\<open>src/thread.c\<close>: \<open>rt_thread_detach\<close>,
  \<open>rt_thread_delete\<close>, \<open>rt_thread_control\<close>): it leaves its queue, the mutex it waits for and its
  timer, and goes to the defunct list from which the idle thread takes it. Creation and start-up
  are in \<open>Kernel_Thread\<close>.
\<close>

subsection \<open>Operations\<close>

text \<open>The steps that \<open>rt_thread_detach\<close> and \<open>rt_thread_delete\<close> share after their assertions.\<close>

definition thread_close :: "tid \<Rightarrow> kernel \<Rightarrow> (rt_err_t \<times> kernel) option" where
  "thread_close t k = (
     if thread_state k t = RT_THREAD_CLOSE then Some (RT_EOK, k)
     else do {
       k1 \<leftarrow> (if thread_state k t \<noteq> RT_THREAD_INIT then rt_schedule_remove_thread t k else Some k);
       (_, k2) \<leftarrow> rt_timer_detach (ThreadTimer t) k1;
       let k3 = upd_thread t (th_stat_update (\<lambda>_. RT_THREAD_CLOSE)) k2;
       k4 \<leftarrow> (case th_pending_object (threads k3 t) of
           Some m \<Rightarrow>
             if mx_type (mutexes k3 m) = Class_Mutex
             then do {
               k' \<leftarrow> rt_mutex_drop_thread m t k3;
               Some (upd_thread t (th_pending_object_update (\<lambda>_. None)) k')
             }
             else Some k3
         | None \<Rightarrow> Some k3);
       Some (RT_EOK, rt_thread_defunct_enqueue t k4)
     })"

definition rt_thread_detach :: "tid \<Rightarrow> kernel \<Rightarrow> (rt_err_t \<times> kernel) option" where
  "rt_thread_detach t k = do {
     rt_assert (th_type (threads k t) = Class_Thread);
     rt_assert (th_static (threads k t));
     thread_close t k
   }"

definition rt_thread_delete :: "tid \<Rightarrow> kernel \<Rightarrow> (rt_err_t \<times> kernel) option" where
  "rt_thread_delete t k = do {
     rt_assert (th_type (threads k t) = Class_Thread);
     rt_assert (\<not> th_static (threads k t));
     thread_close t k
   }"

datatype thread_cmd =
    CTRL_STARTUP
  | CTRL_CLOSE
  | CTRL_CHANGE_PRIORITY u8
  | CTRL_OTHER int

definition rt_thread_control :: "tid \<Rightarrow> thread_cmd \<Rightarrow> kernel \<Rightarrow> (rt_err_t \<times> kernel) option" where
  "rt_thread_control t cmd k = do {
     rt_assert (th_type (threads k t) = Class_Thread);
     (case cmd of
        CTRL_CHANGE_PRIORITY prio \<Rightarrow> rt_thread_change_priority t prio k
      | CTRL_STARTUP \<Rightarrow> rt_thread_startup t k
      | CTRL_CLOSE \<Rightarrow> do {
          (err, k1) \<leftarrow> (if th_static (threads k t) then rt_thread_detach t k else rt_thread_delete t k);
          k2 \<leftarrow> rt_schedule k1;
          Some (err, k2)
        }
      | CTRL_OTHER _ \<Rightarrow> Some (RT_EOK, k))
   }"

subsection \<open>Closing a thread\<close>

lemma remove_thread_shape:
  "rt_schedule_remove_thread t k = Some k' \<Longrightarrow> k' = k\<lparr>tq := \<lambda>q. removeAll t (tq k q),
      rt_thread_ready_priority_group := rt_thread_ready_priority_group k'\<rparr>"
  by (auto simp: rt_schedule_remove_thread_def rt_list_remove_def Let_def split: if_splits)

lemma remove_thread_sel:
  assumes "rt_schedule_remove_thread t k = Some k'"
  shows "threads k' = threads k" "tq k' = (\<lambda>q. removeAll t (tq k q))" "timers k' = timers k"
    "timer_list k' = timer_list k" "timer_expired k' = timer_expired k" "mutexes k' = mutexes k"
    "taken_objects k' = taken_objects k" "rt_tick k' = rt_tick k" "rt_current_thread k' = rt_current_thread k"
    "sems k' = sems k" "events k' = events k" "mailboxes k' = mailboxes k" "msgqueues k' = msgqueues k"
    "rt_scheduler_lock_nest k' = rt_scheduler_lock_nest k" "rt_interrupt_nest k' = rt_interrupt_nest k"
  by (subst remove_thread_shape [OF assms], simp)+

text \<open>The state of a thread after it has been closed, and what closing it leaves alone.\<close>

definition closed_state :: "tid \<Rightarrow> kernel \<Rightarrow> kernel \<Rightarrow> bool" where
  "closed_state t k k' \<longleftrightarrow> thread_state k' t = RT_THREAD_CLOSE
     \<and> th_type (threads k' t) = th_type (threads k t)
     \<and> tq k' QDefunct = t # removeAll t (tq k QDefunct)
     \<and> (\<forall>q. q \<noteq> QDefunct \<longrightarrow> tq k' q = removeAll t (tq k q))
     \<and> ThreadTimer t \<notin> set (timer_list k') \<and> tm_type (timers k' (ThreadTimer t)) = Class_Null
     \<and> (\<forall>u. u \<noteq> t \<longrightarrow> threads k' u = threads k u)
     \<and> taken_objects k' = taken_objects k \<and> mutexes k' = mutexes k \<and> sems k' = sems k
     \<and> events k' = events k \<and> mailboxes k' = mailboxes k \<and> msgqueues k' = msgqueues k"

text \<open>The part of the close before the mutex is dropped; the thread is then in no queue.\<close>

lemma thread_close_core:
  assumes k: "clock_ok k" and live: "live_state (th_stat (threads k t))"
  obtains k3 where "thread_close t k = do {
       k4 \<leftarrow> (case th_pending_object (threads k t) of
           Some m \<Rightarrow>
             if mx_type (mutexes k m) = Class_Mutex
             then do {
               k' \<leftarrow> rt_mutex_drop_thread m t k3;
               Some (upd_thread t (th_pending_object_update (\<lambda>_. None)) k')
             }
             else Some k3
         | None \<Rightarrow> Some k3);
       Some (RT_EOK, rt_thread_defunct_enqueue t k4) }"
    "clock_ok (rt_thread_defunct_enqueue t k3)" "closed_state t k (rt_thread_defunct_enqueue t k3)"
    "rt_current_thread k3 = rt_current_thread k" "rt_scheduler_lock_nest k3 = rt_scheduler_lock_nest k"
    "rt_interrupt_nest k3 = rt_interrupt_nest k" "tq k3 = (\<lambda>q. removeAll t (tq k q))"
    "threads k3 = (threads k)(t := th_stat_update (\<lambda>_. RT_THREAD_CLOSE) (threads k t))"
    "mutexes k3 = mutexes k" "taken_objects k3 = taken_objects k"
proof -
  have ok: "sched_ok k" "timers_ok k" using k by (simp_all add: clock_ok_def)
  have ns: "thread_state k t \<noteq> RT_THREAD_INIT" "thread_state k t \<noteq> RT_THREAD_CLOSE"
    using live by (simp_all add: live_state_def)
  have ty: "tm_type (timers k (ThreadTimer t)) = Class_Timer" using live_okD(3) [OF ok(2) live] .
  have st: "tm_static (timers k (ThreadTimer t))"
    using live_okD(2) [OF ok(2) live] by (simp add: thread_timer_ok_def)
  have pr: "prio_ok (threads k t)" using ok(1) ns by (auto simp: sched_okx_def thread_ok_def)
  obtain k1 where k1: "rt_schedule_remove_thread t k = Some k1" "sched_okx (insert t {}) k1"
    using rt_schedule_remove_thread_okx [OF ok(1) _ ns(1)] by blast
  note s1 = remove_thread_sel [OF k1(1)]
  define k2 where "k2 = upd_timer (ThreadTimer t) (\<lambda>tm. tm\<lparr>tm_type := Class_Null, tm_static := False\<rparr>)
     (upd_timer (ThreadTimer t) (tm_flag_update (clear_flag RT_TIMER_FLAG_ACTIVATED)) (timer_remove (ThreadTimer t) k1))"
  have det: "rt_timer_detach (ThreadTimer t) k1 = Some (RT_EOK, k2)"
    using ty st s1 by (simp add: rt_timer_detach_def k2_def)
  define k3 where "k3 = upd_thread t (th_stat_update (\<lambda>_. RT_THREAD_CLOSE)) k2"
  define k' where "k' = rt_thread_defunct_enqueue t k3"
  have p3: "th_pending_object (threads k3 t) = th_pending_object (threads k t)" "mutexes k3 = mutexes k"
    using s1 by (simp_all add: k3_def k2_def timer_remove_def)
  have p2: "th_pending_object (threads k2 t) = th_pending_object (threads k3 t)" by (simp add: k3_def)
  have ex: "thread_close t k = do {
       k4 \<leftarrow> (case th_pending_object (threads k t) of
           Some m \<Rightarrow>
             if mx_type (mutexes k m) = Class_Mutex
             then do {
               k' \<leftarrow> rt_mutex_drop_thread m t k3;
               Some (upd_thread t (th_pending_object_update (\<lambda>_. None)) k')
             }
             else Some k3
         | None \<Rightarrow> Some k3);
       Some (RT_EOK, rt_thread_defunct_enqueue t k4) }"
    using ns(2) k1(1) det ns(1) unfolding thread_close_def p3 [symmetric] by (simp add: k3_def [symmetric] p2)
  note d = k'_def k3_def k2_def rt_thread_defunct_enqueue_def timer_remove_def rt_list_insert_after_def
  have tq': "tq k' = (tq k1)(QDefunct := t # tq k1 QDefunct)"
    by (simp add: d)
  have ths': "threads k' = (threads k)(t := th_stat_update (\<lambda>_. RT_THREAD_CLOSE) (threads k t))"
    using s1(1) by (simp add: d)
  have tl': "timer_list k' = removeAll (ThreadTimer t) (timer_list k)"
    using s1 by (simp add: d)
  have tms': "timers k' = (timers k)(ThreadTimer t := (tm_flag_update (clear_flag RT_TIMER_FLAG_ACTIVATED)
      (timers k (ThreadTimer t)))\<lparr>tm_type := Class_Null, tm_static := False\<rparr>)"
    using s1 by (simp add: d)
  have sel: "timer_expired k' = removeAll (ThreadTimer t) (timer_expired k)" "mutexes k' = mutexes k"
    "taken_objects k' = taken_objects k" "rt_tick k' = rt_tick k" "rt_current_thread k' = rt_current_thread k"
    "sems k' = sems k" "events k' = events k" "mailboxes k' = mailboxes k" "msgqueues k' = msgqueues k"
    "rt_scheduler_lock_nest k' = rt_scheduler_lock_nest k" "rt_interrupt_nest k' = rt_interrupt_nest k"
    using s1 by (simp_all add: d)
  have "sched_okx (insert t {}) k2" using k1(2) unfolding k2_def by simp
  then have "sched_okx (insert t {}) k3" unfolding k3_def by (subst sched_okx_upd_thread) simp_all
  note k3 = this
  have q3: "tq k3 = tq k1" "threads k3 t = th_stat_update (\<lambda>_. RT_THREAD_CLOSE) (threads k t)"
    using s1(1) by (simp_all add: k3_def k2_def)
  have k': "k' = k3\<lparr>tq := (tq k3)(QDefunct := t # tq k3 QDefunct)\<rparr>"
    by (simp add: k'_def rt_thread_defunct_enqueue_def rt_list_insert_after_def)
  have "sched_okx ({} - {t}) k'"
    unfolding k'
  proof (rule sched_okx_enqueue [OF k3])
    show "prio_ok (threads k3 t)" using pr by (simp add: q3 prio_ok_def)
    show "queue_stat QDefunct (threads k3 t)" by (simp add: queue_stat_def q3 stat_base_def)
    show "distinct (t # tq k3 QDefunct)"
      using not_in_X_queue [OF k3, of t QDefunct] k3 by (simp add: sched_okx_def queues_ok_def)
  qed simp_all
  then have sok: "sched_ok k'" by simp
  have tmok: "timers_ok k'"
    using ok(2) unfolding timers_ok_def live_ok_def ths' tl' tms'
    by (auto simp: live_state_def stat_base_def distinct_removeAll)
  have key: "timer_key (timers k') (rt_tick k') y = timer_key (timers k) (rt_tick k) y" for y
    using sel(4) by (simp add: timer_key_def tms')
  have "timers_sorted (timers k') (rt_tick k') (timer_list k')"
    unfolding tl' sel(4) using k by (intro timers_sorted_remove [of "timers k"]) (auto simp: clock_ok_def tms')
  then have cok: "clock_ok k'"
    using k sok tmok key by (auto simp: clock_ok_def sel tl')
  have "closed_state t k k'"
    by (auto simp: closed_state_def ths' tq' tl' tms' sel s1 stat_base_def)
  moreover have "tq k3 = (\<lambda>q. removeAll t (tq k q))" "taken_objects k3 = taken_objects k"
    "threads k3 = (threads k)(t := th_stat_update (\<lambda>_. RT_THREAD_CLOSE) (threads k t))"
    "rt_current_thread k3 = rt_current_thread k" "rt_scheduler_lock_nest k3 = rt_scheduler_lock_nest k"
    "rt_interrupt_nest k3 = rt_interrupt_nest k"
    using s1 q3 by (simp_all add: k3_def k2_def timer_remove_def)
  ultimately show ?thesis using that [OF ex] cok p3(2) unfolding k'_def by blast
qed

lemma thread_close_spec:
  assumes k: "clock_ok k" and live: "live_state (th_stat (threads k t))"
    and pend: "th_pending_object (threads k t) = None"
  obtains k' where "thread_close t k = Some (RT_EOK, k')" "clock_ok k'" "closed_state t k k'"
    "rt_current_thread k' = rt_current_thread k" "rt_scheduler_lock_nest k' = rt_scheduler_lock_nest k"
    "rt_interrupt_nest k' = rt_interrupt_nest k"
  by (rule thread_close_core [OF k live])
    (use pend in \<open>simp add: rt_thread_defunct_enqueue_def rt_list_insert_after_def\<close>)

text \<open>
  A thread that waits for a mutex leaves it: the mutex gets the priority of the first thread that still waits,
  and an owner that ran at the priority of the closed thread gets the one that its mutexes give it.
\<close>

definition closed_waiting :: "tid \<Rightarrow> oid \<Rightarrow> tid \<Rightarrow> kernel \<Rightarrow> kernel \<Rightarrow> bool" where
  "closed_waiting t m ow k k' \<longleftrightarrow> thread_state k' t = RT_THREAD_CLOSE
     \<and> th_type (threads k' t) = th_type (threads k t) \<and> th_pending_object (threads k' t) = None
     \<and> tq k' QDefunct = t # removeAll t (tq k QDefunct)
     \<and> (\<forall>q. ipc_queue q \<longrightarrow> tq k' q = removeAll t (tq k q))
     \<and> ThreadTimer t \<notin> set (timer_list k') \<and> tm_type (timers k' (ThreadTimer t)) = Class_Null
     \<and> (\<forall>u. u \<noteq> t \<and> u \<noteq> ow \<longrightarrow> threads k' u = threads k u)
     \<and> thread_state k' ow = thread_state k ow \<and> th_error (threads k' ow) = th_error (threads k ow)
     \<and> th_init_priority (threads k' ow) = th_init_priority (threads k ow)
     \<and> th_current_priority (threads k' ow) =
         (if th_current_priority (threads k ow) = th_current_priority (threads k t)
          then thread_get_mutex_priority ow k' else th_current_priority (threads k ow))
     \<and> mutexes k' = (mutexes k)(m := (mutexes k m)\<lparr>mx_priority := waiter_priority k' m\<rparr>)
     \<and> taken_objects k' = taken_objects k \<and> sems k' = sems k
     \<and> events k' = events k \<and> mailboxes k' = mailboxes k \<and> msgqueues k' = msgqueues k"

text \<open>The end of the close: the thread waits for nothing and is in the defunct list.\<close>

definition retire :: "tid \<Rightarrow> kernel \<Rightarrow> kernel" where
  "retire t k = rt_thread_defunct_enqueue t (upd_thread t (th_pending_object_update (\<lambda>_. None)) k)"

lemma retire_sel [simp]:
  "threads (retire t k) = (threads k)(t := th_pending_object_update (\<lambda>_. None) (threads k t))"
  "tq (retire t k) = (tq k)(QDefunct := t # tq k QDefunct)"
  "rt_current_thread (retire t k) = rt_current_thread k" "mutexes (retire t k) = mutexes k"
  "taken_objects (retire t k) = taken_objects k" "timers (retire t k) = timers k"
  "timer_list (retire t k) = timer_list k" "rt_interrupt_nest (retire t k) = rt_interrupt_nest k"
  "rt_scheduler_lock_nest (retire t k) = rt_scheduler_lock_nest k"
  "rt_thread_ready_priority_group (retire t k) = rt_thread_ready_priority_group k"
  by (simp_all add: retire_def rt_thread_defunct_enqueue_def rt_list_insert_after_def)

text \<open>Changing the priority of another thread does not touch what retiring the thread changes.\<close>

lemma remove_retire:
  assumes "u \<noteq> t"
  shows "rt_schedule_remove_thread u (retire t k) = map_option (retire t) (rt_schedule_remove_thread u k)"
  using assms
  by (auto simp: rt_schedule_remove_thread_def Let_def rt_list_remove_def rt_list_isempty_def retire_def
      rt_thread_defunct_enqueue_def rt_list_insert_after_def fun_eq_iff rt_assert_def)

lemma insert_retire:
  assumes "u \<noteq> t"
  shows "rt_schedule_insert_thread u (retire t k) = map_option (retire t) (rt_schedule_insert_thread u k)"
  using assms
  by (auto simp: rt_schedule_insert_thread_def Let_def put_stat_def rt_list_insert_before_def rt_list_insert_after_def
      retire_def rt_thread_defunct_enqueue_def fun_upd_twist rt_assert_def)

lemma change_priority_retire:
  assumes "u \<noteq> t"
  shows "rt_thread_change_priority u p (retire t k)
    = map_option (\<lambda>(e, k'). (e, retire t k')) (rt_thread_change_priority u p k)"
proof -
  have set: "thread_set_priority u p (retire t k') = retire t (thread_set_priority u p k')" for k'
    using assms by (simp add: thread_set_priority_def retire_def rt_thread_defunct_enqueue_def rt_list_insert_after_def
        fun_upd_twist)
  show ?thesis
    using assms by (cases "rt_schedule_remove_thread u k")
      (auto simp: rt_thread_change_priority_def remove_retire insert_retire set rt_assert_def option.map_comp comp_def
        map_option_bind bind_map_option split: option.splits)
qed

lemma thread_close_waiting:
  assumes k: "clock_ok k" and live: "live_state (th_stat (threads k t))"
    and pend: "th_pending_object (threads k t) = Some m" "mx_type (mutexes k m) = Class_Mutex"
    and ow: "mx_owner (mutexes k m) = Some ow" "ow \<noteq> t" "live_state (th_stat (threads k ow))"
      "\<not> stat_suspended (th_stat (threads k ow))"
    and cur: "rt_current_thread k = Some ow \<Longrightarrow> thread_state k ow \<noteq> RT_THREAD_READY"
    and ip: "unat (th_init_priority (threads k ow)) < RT_THREAD_PRIORITY_MAX"
  obtains k' where "thread_close t k = Some (RT_EOK, k')" "clock_ok k'" "closed_waiting t m ow k k'"
    "rt_current_thread k' = rt_current_thread k" "rt_scheduler_lock_nest k' = rt_scheduler_lock_nest k"
    "rt_interrupt_nest k' = rt_interrupt_nest k"
proof -
  obtain k3 where cl: "thread_close t k = do {
       k4 \<leftarrow> (case th_pending_object (threads k t) of
           Some m \<Rightarrow>
             if mx_type (mutexes k m) = Class_Mutex
             then do {
               k' \<leftarrow> rt_mutex_drop_thread m t k3;
               Some (upd_thread t (th_pending_object_update (\<lambda>_. None)) k')
             }
             else Some k3
         | None \<Rightarrow> Some k3);
       Some (RT_EOK, rt_thread_defunct_enqueue t k4) }"
    and c3: "clock_ok (rt_thread_defunct_enqueue t k3)" and st: "closed_state t k (rt_thread_defunct_enqueue t k3)"
    and s3: "rt_current_thread k3 = rt_current_thread k" "rt_scheduler_lock_nest k3 = rt_scheduler_lock_nest k"
    "rt_interrupt_nest k3 = rt_interrupt_nest k" "tq k3 = (\<lambda>q. removeAll t (tq k q))"
    "threads k3 = (threads k)(t := th_stat_update (\<lambda>_. RT_THREAD_CLOSE) (threads k t))"
    "mutexes k3 = mutexes k" "taken_objects k3 = taken_objects k"
    by (rule thread_close_core [OF k live])
  define k4 where "k4 = upd_mutex m (mx_priority_update (\<lambda>_. waiter_priority k3 m)) k3"
  have rem: "rt_list_remove t k3 = k3" using s3(4) by (simp add: rt_list_remove_def)
  have c4: "clock_ok (retire t k4)"
  proof -
    have e: "retire t k4 = upd_mutex m (mx_priority_update (\<lambda>_. waiter_priority k3 m))
        (upd_thread t (th_pending_object_update (\<lambda>_. None)) (rt_thread_defunct_enqueue t k3))"
      by (simp add: retire_def k4_def rt_thread_defunct_enqueue_def rt_list_insert_after_def)
    have "clock_ok (upd_thread t (th_pending_object_update (\<lambda>_. None)) (rt_thread_defunct_enqueue t k3))"
      by (rule clock_ok_upd_thread [OF c3]) simp_all
    then show ?thesis unfolding e by simp
  qed
  have tow: "threads k4 ow = threads k ow" "threads (retire t k4) ow = threads k ow" using ow(2) s3(5) by (simp_all add: k4_def)
  let ?p = "thread_get_mutex_priority ow k4"
  have p: "unat ?p < RT_THREAD_PRIORITY_MAX"
    by (rule thread_get_mutex_priority_range) (use ip tow in simp)
  let ?need = "th_current_priority (threads k ow) = th_current_priority (threads k t)"
  have drop: "rt_mutex_drop_thread m t k3 = (if ?need \<and> ?p \<noteq> th_current_priority (threads k ow)
      then thread_update_priority ow ?p RT_UNINTERRUPTIBLE k4 else Some k4)"
    using ow(1,2) s3(5,6) tow(1)
    by (simp add: rt_mutex_drop_thread_def rem mutex_owner_update_def k4_def [symmetric] Let_def)
      (simp add: k4_def)
  obtain k5 where k5: "rt_mutex_drop_thread m t k3 = Some k5" "clock_ok (retire t k5)"
    "prio_frame ow (if ?need then ?p else th_current_priority (threads k ow)) (retire t k4) (retire t k5)"
    "thread_state k5 ow = thread_state k ow"
  proof (cases "?need \<and> ?p \<noteq> th_current_priority (threads k ow)")
    case False
    have "thread_ok (retire t k4) ow" using c4 by (simp add: clock_ok_def sched_okx_def del: retire_sel)
    then have "th_number_mask (threads k ow) = push_bit (unat (th_current_priority (threads k ow))) 1"
      using ow(3) by (simp add: thread_ok_def prio_ok_def tow(2) live_state_def del: retire_sel)
    then have "prio_frame ow (th_current_priority (threads k ow)) (retire t k4) (retire t k4)"
      unfolding prio_frame_def tow(2) by (intro conjI exI [of _ "threads (retire t k4)"] exI [of _ "tq (retire t k4)"]
        exI [of _ "rt_thread_ready_priority_group (retire t k4)"] exI [of _ "th_stat (threads k ow)"]) (simp_all del: retire_sel)
    then show ?thesis using that [of k4] False drop c4 tow(1) by (cases ?need) simp_all
  next
    case True
    obtain k6 where k6: "rt_thread_change_priority ow ?p (retire t k4) = Some (RT_EOK, k6)" "clock_ok k6"
      "prio_frame ow ?p (retire t k4) k6" "thread_state k6 ow = thread_state (retire t k4) ow"
      by (rule change_priority_spec [OF c4 _ p, of ow]) (use ow(2,3) cur s3(1) tow in \<open>simp_all add: k4_def\<close>)
    obtain k5 where k5: "rt_thread_change_priority ow ?p k4 = Some (RT_EOK, k5)" "k6 = retire t k5"
      using k6(1) unfolding change_priority_retire [OF ow(2)] by auto
    have so: "threads k6 ow = threads k5 ow" using ow(2) by (simp add: k5(2))
    have "thread_state k6 ow = thread_state k ow" using k6(4) unfolding tow(2) .
    then have ts: "thread_state k5 ow = thread_state k ow" unfolding so .
    then have "\<not> stat_suspended (th_stat (threads k5 ow))" using ow(4) by (simp add: stat_suspended_iff_base)
    then have "thread_update_priority ow ?p RT_UNINTERRUPTIBLE k4 = Some k5"
      using k5(1) by (subst thread_update_priority.simps) simp
    then have "rt_mutex_drop_thread m t k3 = Some k5" unfolding drop if_P [OF True] .
    then show ?thesis using that [of k5] True k6(2,3) ts unfolding k5(2) by simp
  qed
  have k': "thread_close t k = Some (RT_EOK, retire t k5)" using cl pend k5(1) by (simp add: retire_def)
  note f = prio_frame_sel [OF k5(3)]
  have w5: "waiter_priority (retire t k5) m = waiter_priority k3 m"
  proof -
    have q: "tq (retire t k5) (QMutex m) = tq k3 (QMutex m)" using f(20) [of "QMutex m"] by (simp add: k4_def)
    have "th_current_priority (threads (retire t k5) u) = th_current_priority (threads k3 u)"
      if u: "u \<in> set (tq k3 (QMutex m))" for u
    proof -
      have ut: "u \<noteq> t" "u \<in> set (tq k (QMutex m))" using u s3(4) by auto
      then have "stat_suspended (th_stat (threads k u))"
        using waiting_suspended [of k "QMutex m" u] k by (simp add: clock_ok_def)
      then have "u \<noteq> ow" using ow(4) by blast
      then show ?thesis using f(19) [of u] ut by (simp add: k4_def)
    qed
    then show ?thesis unfolding waiter_priority_def q by (cases "tq k3 (QMutex m)") simp_all
  qed
  have fo: "threads (retire t k5) ow = threads k5 ow" using ow(2) by simp
  have g5: "thread_get_mutex_priority ow (retire t k5) = ?p"
    using f(1,10) f(16) [of ow] ow(2) by (simp add: thread_get_mutex_priority_def)
  have fu: "threads (retire t k5) u = threads k u" if "u \<noteq> t" "u \<noteq> ow" for u
    using f(19) [OF that(2)] that s3(5) by (simp add: k4_def)
  have ft: "threads (retire t k5) t = th_pending_object_update (\<lambda>_. None) (th_stat_update (\<lambda>_. RT_THREAD_CLOSE) (threads k t))"
    using f(19) [of t] ow(2) s3(5) by (simp add: k4_def)
  have qq: "tq (retire t k5) q = removeAll t (tq k q)" if "ipc_queue q" for q
    using f(20) [OF that] that s3(4) by (auto simp: k4_def)
  have qd: "tq (retire t k5) QDefunct = t # removeAll t (tq k QDefunct)"
  proof -
    have "tq (retire t k5) QDefunct = tq (retire t k4) QDefunct" using k5(3) unfolding prio_frame_def by blast
    then show ?thesis using s3(4) by (simp add: k4_def)
  qed
  have ce: "closed_state t k (rt_thread_defunct_enqueue t k3)" by (rule st)
  have tm: "timer_list (retire t k5) = timer_list k3" "timers (retire t k5) = timers k3"
    "sems (retire t k5) = sems k3" "events (retire t k5) = events k3" "mailboxes (retire t k5) = mailboxes k3"
    "msgqueues (retire t k5) = msgqueues k3"
    using f(6,7,9,11,12,13) by (simp_all add: k4_def retire_def rt_thread_defunct_enqueue_def rt_list_insert_after_def)
  have "closed_waiting t m ow k (retire t k5)"
    unfolding closed_waiting_def
  proof (intro conjI allI impI)
    show "thread_state (retire t k5) t = RT_THREAD_CLOSE" unfolding ft by (simp add: stat_base_def)
    show "th_type (threads (retire t k5) t) = th_type (threads k t)" "th_pending_object (threads (retire t k5) t) = None"
      unfolding ft by simp_all
    show "thread_state (retire t k5) ow = thread_state k ow" using k5(4) unfolding fo .
    show "th_error (threads (retire t k5) ow) = th_error (threads k ow)" using f(15) [of ow] unfolding tow(2) .
    show "th_init_priority (threads (retire t k5) ow) = th_init_priority (threads k ow)" using f(16) [of ow] unfolding tow(2) .
    show "th_current_priority (threads (retire t k5) ow) = (if ?need then thread_get_mutex_priority ow (retire t k5)
        else th_current_priority (threads k ow))" unfolding g5 by (rule f(14))
    show "mutexes (retire t k5) = (mutexes k)(m := (mutexes k m)\<lparr>mx_priority := waiter_priority (retire t k5) m\<rparr>)"
      unfolding w5 f(10) using s3(6) by (simp add: k4_def)
    show "tq (retire t k5) q = removeAll t (tq k q)" if "ipc_queue q" for q by (rule qq [OF that])
    show "taken_objects (retire t k5) = taken_objects k" unfolding f(1) using s3(7) by (simp add: k4_def)
  qed (use st fu qq qd tm in \<open>auto simp: closed_state_def rt_thread_defunct_enqueue_def rt_list_insert_after_def\<close>)
  then show ?thesis using that [OF k' k5(2)] f s3 by (simp add: k4_def)
qed

lemma min_priority_mem: "m \<in> set l \<Longrightarrow> min_priority ms p l \<le> mx_priority (ms m)"
proof (induction l arbitrary: p)
  case (Cons x l)
  show ?case
  proof (cases "m \<in> set l")
    case True
    then show ?thesis using Cons(1) by simp
  next
    case False
    then have "m = x" using Cons(2) by simp
    then show ?thesis
      using min_priority_le [of ms "if mx_priority (ms x) < p then mx_priority (ms x) else p" l] by (auto split: if_splits)
  qed
qed simp

text \<open>Ownership and priority inheritance hold for the mutex without the closed thread.\<close>

lemma closed_waiting_pi:
  assumes c: "closed_waiting t m ow k k'" and m: "mutex_ok k m" and pi: "pi_ok k m"
    and ow: "mx_owner (mutexes k m) = Some ow"
  shows "mutex_ok k' m" "pi_ok k' m"
proof -
  have q: "tq k' (QMutex m) = removeAll t (tq k (QMutex m))" using c by (simp add: closed_waiting_def)
  have ns: "ow \<notin> set (tq k (QMutex m))" and live: "live_state (th_stat (threads k ow))"
    and tk: "m \<in> set (taken_objects k ow)" using m ow by (auto simp: mutex_ok_def)
  have th: "threads k' u = threads k u" if "u \<in> set (tq k' (QMutex m))" for u
    using c that ns q unfolding closed_waiting_def by auto
  have lo: "live_state (th_stat (threads k' ow))" using c live by (simp add: closed_waiting_def live_state_def)
  have mx: "mutexes k' m = (mutexes k m)\<lparr>mx_priority := waiter_priority k' m\<rparr>" "taken_objects k' = taken_objects k"
    using c by (simp_all add: closed_waiting_def)
  have err: "\<forall>u \<in> set (tq k' (QMutex m)). th_error (threads k' u) = RT_EOK"
    using m th q by (auto simp: mutex_ok_def)
  show "mutex_ok k' m"
    using m ns lo err ow unfolding mutex_ok_def mx by (auto simp: q)
  have cp: "map (\<lambda>s. th_current_priority (threads k' s)) (tq k' (QMutex m))
      = map (\<lambda>s. th_current_priority (threads k s)) (removeAll t (tq k (QMutex m)))"
    using th by (simp add: q)
  have srt: "sorted (map (\<lambda>s. th_current_priority (threads k s)) (tq k (QMutex m)))" using pi by (simp add: pi_ok_def)
  then have "sorted (map (\<lambda>s. th_current_priority (threads k' s)) (tq k' (QMutex m)))"
    unfolding cp by (simp add: removeAll_filter_not_eq sorted_filter)
  moreover have "th_current_priority (threads k' ow) \<le> waiter_priority k' m"
  proof (cases "th_current_priority (threads k ow) = th_current_priority (threads k t)")
    case True
    then have "th_current_priority (threads k' ow) = thread_get_mutex_priority ow k'" using c by (simp add: closed_waiting_def)
    also have "\<dots> \<le> mx_priority (mutexes k' m)"
      unfolding thread_get_mutex_priority_def by (rule min_priority_mem) (use tk mx in simp)
    finally show ?thesis by (simp add: mx)
  next
    case False
    then have "th_current_priority (threads k' ow) = th_current_priority (threads k ow)" using c by (simp add: closed_waiting_def)
    moreover have "th_current_priority (threads k ow) \<le> mx_priority (mutexes k m)"
      "mx_priority (mutexes k m) = waiter_priority k m" using pi ow unfolding pi_ok_def by blast+
    ultimately have "th_current_priority (threads k' ow) \<le> waiter_priority k m" by simp
    moreover have "waiter_priority k m \<le> waiter_priority k' m"
    proof (cases "tq k' (QMutex m)")
      case Nil
      have "x \<le> 0xff" for x :: u8 using unsigned_less [of x, where ?'a = nat] by (simp add: word_le_nat_alt)
      moreover have "waiter_priority k' m = 0xff" using Nil by (simp add: waiter_priority_def)
      ultimately show ?thesis by simp
    next
      case (Cons u us)
      then have "u \<in> set (tq k' (QMutex m))" by simp
      then have u: "u \<in> set (tq k (QMutex m))" "threads k' u = threads k u" using th by (simp_all add: q)
      then have "waiter_priority k m \<le> th_current_priority (threads k u)"
        using srt by (cases "tq k (QMutex m)") (auto simp: waiter_priority_def)
      then show ?thesis using Cons u(2) by (simp add: waiter_priority_def)
    qed
    ultimately show ?thesis by simp
  qed
  ultimately show "pi_ok k' m" using ow by (simp add: pi_ok_def mx)
qed

text \<open>The mutex that a thread waits for, and what the close needs of its owner: that it does not wait itself.\<close>

definition pending_mutex :: "kernel \<Rightarrow> tid \<Rightarrow> oid option" where
  "pending_mutex k t = (case th_pending_object (threads k t) of
       Some m \<Rightarrow> if mx_type (mutexes k m) = Class_Mutex then Some m else None | None \<Rightarrow> None)"

definition owner_awake :: "kernel \<Rightarrow> tid \<Rightarrow> bool" where
  "owner_awake k t \<longleftrightarrow> (case pending_mutex k t of None \<Rightarrow> True | Some m \<Rightarrow>
     (case mx_owner (mutexes k m) of None \<Rightarrow> False | Some ow \<Rightarrow>
        ow \<noteq> t \<and> live_state (th_stat (threads k ow)) \<and> \<not> stat_suspended (th_stat (threads k ow))
      \<and> (rt_current_thread k = Some ow \<longrightarrow> thread_state k ow \<noteq> RT_THREAD_READY)
      \<and> unat (th_init_priority (threads k ow)) < RT_THREAD_PRIORITY_MAX))"

definition closed_ok :: "tid \<Rightarrow> kernel \<Rightarrow> kernel \<Rightarrow> bool" where
  "closed_ok t k k' \<longleftrightarrow> (case pending_mutex k t of
       None \<Rightarrow> closed_state t k k'
     | Some m \<Rightarrow> closed_waiting t m (the (mx_owner (mutexes k m))) k k'
         \<and> (mutex_ok k m \<and> pi_ok k m \<longrightarrow> mutex_ok k' m \<and> pi_ok k' m))"

lemma thread_close_any:
  assumes k: "clock_ok k" and live: "live_state (th_stat (threads k t))" and ow: "owner_awake k t"
  obtains k' where "thread_close t k = Some (RT_EOK, k')" "clock_ok k'" "closed_ok t k k'"
    "rt_current_thread k' = rt_current_thread k" "rt_scheduler_lock_nest k' = rt_scheduler_lock_nest k"
    "rt_interrupt_nest k' = rt_interrupt_nest k"
proof (cases "pending_mutex k t")
  case None
  obtain k3 where k3: "thread_close t k = do {
       k4 \<leftarrow> (case th_pending_object (threads k t) of
           Some m \<Rightarrow>
             if mx_type (mutexes k m) = Class_Mutex
             then do {
               k' \<leftarrow> rt_mutex_drop_thread m t k3;
               Some (upd_thread t (th_pending_object_update (\<lambda>_. None)) k')
             }
             else Some k3
         | None \<Rightarrow> Some k3);
       Some (RT_EOK, rt_thread_defunct_enqueue t k4) }"
    "clock_ok (rt_thread_defunct_enqueue t k3)" "closed_state t k (rt_thread_defunct_enqueue t k3)"
    "rt_current_thread k3 = rt_current_thread k" "rt_scheduler_lock_nest k3 = rt_scheduler_lock_nest k"
    "rt_interrupt_nest k3 = rt_interrupt_nest k"
    by (rule thread_close_core [OF k live])
  have "thread_close t k = Some (RT_EOK, rt_thread_defunct_enqueue t k3)"
    using None unfolding k3(1) by (auto simp: pending_mutex_def split: option.splits if_splits)
  then show ?thesis
    using that [of "rt_thread_defunct_enqueue t k3"] k3(2-6) None
    by (simp add: closed_ok_def rt_thread_defunct_enqueue_def rt_list_insert_after_def)
next
  case (Some m)
  then have p: "th_pending_object (threads k t) = Some m" "mx_type (mutexes k m) = Class_Mutex"
    by (auto simp: pending_mutex_def split: option.splits if_splits)
  obtain w where w: "mx_owner (mutexes k m) = Some w" "w \<noteq> t" "live_state (th_stat (threads k w))"
    "\<not> stat_suspended (th_stat (threads k w))" "rt_current_thread k = Some w \<Longrightarrow> thread_state k w \<noteq> RT_THREAD_READY"
    "unat (th_init_priority (threads k w)) < RT_THREAD_PRIORITY_MAX"
    using ow Some by (auto simp: owner_awake_def split: option.splits)
  obtain k' where k': "thread_close t k = Some (RT_EOK, k')" "clock_ok k'" "closed_waiting t m w k k'"
    "rt_current_thread k' = rt_current_thread k" "rt_scheduler_lock_nest k' = rt_scheduler_lock_nest k"
    "rt_interrupt_nest k' = rt_interrupt_nest k"
    by (rule thread_close_waiting [OF k live p w])
  have "closed_ok t k k'" using k'(3) closed_waiting_pi [OF k'(3) _ _ w(1)] Some w(1) by (simp add: closed_ok_def)
  then show ?thesis using that k' by blast
qed

lemma closed_ok_sel:
  assumes "closed_ok t k k'"
  shows "thread_state k' t = RT_THREAD_CLOSE" "th_type (threads k' t) = th_type (threads k t)"
  using assms by (auto simp: closed_ok_def closed_state_def closed_waiting_def split: option.splits)

text \<open>What the scheduler does once the running thread has been closed.\<close>

lemma schedule_after_close:
  assumes k: "clock_ok k" and cl: "thread_state k t = RT_THREAD_CLOSE"
  obtains k' where "rt_schedule k = Some k'" "clock_ok k'" "thread_state k' t = RT_THREAD_CLOSE"
    "rt_scheduler_lock_nest k = 0 \<Longrightarrow> rt_thread_ready_priority_group k \<noteq> 0 \<Longrightarrow>
       rt_current_thread k' \<noteq> Some t \<and> runs_highest k'"
proof -
  obtain c where ok: "sched_ok k" and c: "rt_current_thread k = Some c" using k by (auto simp: clock_ok_def)
  obtain k' where k': "rt_schedule k = Some k'" "sched_frame k k'"
    by (rule rt_schedule_returns [OF ok]) (use c in auto)
  have cl': "thread_state k' t = RT_THREAD_CLOSE"
    using k'(2) cl unfolding sched_frame_def by auto
  have "rt_current_thread k' \<noteq> Some t \<and> runs_highest k'"
    if "rt_scheduler_lock_nest k = 0" "rt_thread_ready_priority_group k \<noteq> 0"
    using rt_schedule_total [OF ok c that(1)] that(2) k'(1) cl' by (auto simp: runs_highest_def)
  then show ?thesis using that k'(1) clock_ok_schedule [OF k k'(1)] cl' by blast
qed

subsection \<open>Properties\<close>

lemma thread_control_close:
  assumes k: "clock_ok k" and live: "live_state (th_stat (threads k t))"
    and ow: "owner_awake k t"
  shows "\<exists>k1 k2. (if th_static (threads k t) then rt_thread_detach t k else rt_thread_delete t k) = Some (RT_EOK, k1)
    \<and> clock_ok k1 \<and> closed_ok t k k1 \<and> rt_thread_control t CTRL_CLOSE k = Some (RT_EOK, k2)
    \<and> rt_schedule k1 = Some k2 \<and> clock_ok k2 \<and> thread_state k2 t = RT_THREAD_CLOSE
    \<and> (rt_scheduler_lock_nest k = 0 \<and> rt_thread_ready_priority_group k1 \<noteq> 0 \<longrightarrow>
        rt_current_thread k2 \<noteq> Some t \<and> runs_highest k2)
    \<and> rt_thread_resume t k1 = Some (- RT_ERROR, k1)"
proof -
  have ty: "th_type (threads k t) = Class_Thread"
    using live_okD(1) [OF _ live] k by (auto simp: clock_ok_def)
  obtain k1 where k1: "thread_close t k = Some (RT_EOK, k1)" "clock_ok k1" "closed_ok t k k1"
    "rt_current_thread k1 = rt_current_thread k" "rt_scheduler_lock_nest k1 = rt_scheduler_lock_nest k"
    by (rule thread_close_any [OF k live ow])
  obtain k2 where k2: "rt_schedule k1 = Some k2" "clock_ok k2" "thread_state k2 t = RT_THREAD_CLOSE"
    "rt_scheduler_lock_nest k1 = 0 \<Longrightarrow> rt_thread_ready_priority_group k1 \<noteq> 0 \<Longrightarrow>
       rt_current_thread k2 \<noteq> Some t \<and> runs_highest k2"
    using schedule_after_close [OF k1(2), of t] closed_ok_sel(1) [OF k1(3)] by blast
  have cl: "(if th_static (threads k t) then rt_thread_detach t k else rt_thread_delete t k) = Some (RT_EOK, k1)"
    using ty k1(1) by (simp add: rt_thread_detach_def rt_thread_delete_def)
  have "rt_thread_control t CTRL_CLOSE k = Some (RT_EOK, k2)"
    using ty cl k2(1) by (simp add: rt_thread_control_def)
  moreover have "rt_thread_resume t k1 = Some (- RT_ERROR, k1)"
  proof -
    have "th_type (threads k1 t) = Class_Thread" using ty closed_ok_sel(2) [OF k1(3)] by simp
    moreover have "\<not> stat_suspended (th_stat (threads k1 t))"
      using closed_ok_sel(1) [OF k1(3)] by (simp add: stat_suspended_iff_base)
    ultimately show ?thesis by (simp add: rt_thread_resume_def)
  qed
  ultimately show ?thesis using cl k1 k2 by metis
qed


text \<open>
  A wait that timed out leaves \<open>pending_object\<close> at the mutex. When the mutex is free, closing the thread reads the
  priority of an owner that is not there.
\<close>

lemma stale_pending_faults:
  assumes "clock_ok k" "live_state (th_stat (threads k t))" "th_pending_object (threads k t) = Some m"
    and "mx_type (mutexes k m) = Class_Mutex" "mx_owner (mutexes k m) = None"
  shows "thread_close t k = None"
  by (rule thread_close_core [OF assms(1,2)])
    (use assms(3-5) in \<open>simp add: rt_mutex_drop_thread_def rt_list_remove_def\<close>)

text \<open>
  C27 (thread_close_correct). Closing a live thread, one that waits for a mutex included, with
  \<open>rt_thread_detach\<close> or \<open>rt_thread_delete\<close> as its storage requires or with \<open>RT_THREAD_CTRL_CLOSE\<close>, returns \<open>RT_EOK\<close>:
  the thread leaves its queue and its timer, is in the defunct list alone, cannot be resumed, and the command then
  switches away from it. Without a mutex to wait for every other thread and every IPC object keeps its state. A
  mutex that the thread waited for gets the priority of the first thread that still waits; its owner, when it ran
  at the priority of the closed thread, gets the priority that its mutexes give it; and inheritance holds again.
  The owner must not wait itself (\<open>nested_inheritance_asserts\<close>) and the mutex must have one
  (\<open>stale_pending_faults\<close>).
\<close>
theorem thread_close_correct:
  assumes "clock_ok k" "live_state (th_stat (threads k t))" "owner_awake k t"
  shows "\<exists>k1 k2. (if th_static (threads k t) then rt_thread_detach t k else rt_thread_delete t k) = Some (RT_EOK, k1)
    \<and> clock_ok k1 \<and> closed_ok t k k1 \<and> rt_thread_control t CTRL_CLOSE k = Some (RT_EOK, k2)
    \<and> rt_schedule k1 = Some k2 \<and> clock_ok k2 \<and> thread_state k2 t = RT_THREAD_CLOSE
    \<and> (rt_scheduler_lock_nest k = 0 \<and> rt_thread_ready_priority_group k1 \<noteq> 0 \<longrightarrow>
        rt_current_thread k2 \<noteq> Some t \<and> runs_highest k2)
    \<and> rt_thread_resume t k1 = Some (- RT_ERROR, k1)"
  by (rule thread_control_close [OF assms])

text \<open>Thread 1 owns the mutex 0 and runs at the priority 10 that it inherited from the waiting thread 2.\<close>

definition demo_boost :: "u32 \<Rightarrow> kernel" where
  "demo_boost g = demo_kernel\<lparr>threads := (threads demo_kernel)(
       1 := th_init_priority_update (\<lambda>_. 12) (demo_thread 10 3),
       2 := th_pending_object_update (\<lambda>_. Some 0) (demo_thread 10 7)),
     tq := (tq demo_kernel)(QReady 5 := [], QMutex 0 := [2]),
     taken_objects := (\<lambda>t. if t = 1 then [0] else []),
     rt_thread_ready_priority_group := g,
     mutexes := (mutexes demo_kernel)(0 := (demo_mx (Some 1))\<lparr>mx_priority := 10\<rparr>)\<rparr>"

lemma demo_boost_clock:
  assumes "g = 1024"
  shows "clock_ok (demo_boost g)"
proof -
  have eq: "g = push_bit 10 1" using assms by simp
  have b: "bit g p \<longleftrightarrow> p = 10" for p unfolding eq bit_push_one_32 by auto
  have "sched_ok (demo_boost g)"
    unfolding sched_okx_def queues_ok_def thread_ok_def group_ok_def demo_boost_def
    by (simp add: b queue_stat_def demo_thread_def thread_bss_def prio_ok_def stat_base_def stat_suspended_def)
  moreover have "timers_ok (demo_boost g)"
    by (simp add: demo_boost_def timers_ok_def live_ok_def thread_timer_ok_def live_state_def
        demo_thread_def thread_bss_def stat_base_def has_flag_def)
  ultimately show ?thesis by (simp add: clock_ok_def timers_sorted_def demo_boost_def)
qed

theorem thread_close_correct_witness:
  "\<exists>k1 k2. rt_thread_detach 2 (demo_boost 1024) = Some (RT_EOK, k1) \<and> tq k1 (QMutex 0) = [] \<and> tq k1 QDefunct = [2]
     \<and> th_current_priority (threads (demo_boost 1024) 1) = 10 \<and> th_current_priority (threads k1 1) = 12
     \<and> mx_priority (mutexes k1 0) = 0xff \<and> rt_thread_control 2 CTRL_CLOSE (demo_boost 1024) = Some (RT_EOK, k2) \<and> clock_ok k2"
proof -
  note d = demo_boost_def demo_mx_def demo_thread_def thread_bss_def live_state_def stat_base_def stat_suspended_def
  have h: "live_state (th_stat (threads (demo_boost 1024) 2))" "owner_awake (demo_boost 1024) 2" "th_static (threads (demo_boost 1024) 2)"
    by (simp_all add: d owner_awake_def pending_mutex_def)
  have c: "pending_mutex (demo_boost 1024) 2 = Some 0" "mx_owner (mutexes (demo_boost 1024) 0) = Some 1"
    by (simp_all add: d pending_mutex_def)
  obtain k1 k2 where k: "rt_thread_detach 2 (demo_boost 1024) = Some (RT_EOK, k1)" "closed_ok 2 (demo_boost 1024) k1"
    "rt_thread_control 2 CTRL_CLOSE (demo_boost 1024) = Some (RT_EOK, k2)" "clock_ok k2"
    using thread_close_correct [OF demo_boost_clock [OF refl] h(1,2)] h(3) by auto
  have w: "closed_waiting 2 0 1 (demo_boost 1024) k1" using k(2) c by (simp add: closed_ok_def)
  have q: "tq k1 (QMutex 0) = []" "tq k1 QDefunct = [2]" using w by (simp_all add: closed_waiting_def d)
  then have wp: "waiter_priority k1 0 = 0xff" by (simp add: waiter_priority_def)
  have i1: "th_init_priority (threads k1 1) = 12" using w by (simp add: closed_waiting_def d)
  have m1: "mx_priority (mutexes k1 0) = 0xff" "taken_objects k1 1 = [0]"
    using w wp by (simp_all add: closed_waiting_def d)
  have "th_current_priority (threads k1 1) = thread_get_mutex_priority 1 k1" using w by (simp add: closed_waiting_def d)
  also have "\<dots> = 12" unfolding thread_get_mutex_priority_def i1 m1(2) by (simp add: m1(1))
  finally have p1: "th_current_priority (threads k1 1) = 12" .
  have "th_current_priority (threads (demo_boost 1024) 1) = 10" by (simp add: d)
  then show ?thesis using k q m1 p1 by blast
qed

text \<open>
  C28 (mutex_abandoned). A thread that is closed while it owns a mutex stays its owner: nobody else can
  release the mutex, and taking it fails as long as one waits.
\<close>
theorem mutex_abandoned:
  assumes k: "in_thread_context k u" and u: "u \<noteq> t"
    and live: "live_state (th_stat (threads k t))" "th_pending_object (threads k t) = None"
    and m: "mx_type (mutexes k m) = Class_Mutex" "mx_owner (mutexes k m) = Some t"
  shows "\<exists>k1 k2 k3. (if th_static (threads k t) then rt_thread_detach t k else rt_thread_delete t k) = Some (RT_EOK, k1)
    \<and> thread_state k1 t = RT_THREAD_CLOSE \<and> mx_owner (mutexes k1 m) = Some t
    \<and> rt_current_thread k1 = Some u \<and> rt_mutex_release m k1 = Some (- RT_ERROR, k2)
    \<and> rt_mutex_take m 0 k1 = Some (Done (- RT_ETIMEOUT), k3)"
proof -
  have ck: "clock_ok k" and cur: "rt_current_thread k = Some u" and ctx: "rt_interrupt_nest k = 0"
    "rt_scheduler_lock_nest k = 0"
    using k by (auto simp: in_thread_context_def)
  have ty: "th_type (threads k t) = Class_Thread"
    using live_okD(1) [OF _ live(1)] ck by (auto simp: clock_ok_def)
  obtain k1 where k1: "thread_close t k = Some (RT_EOK, k1)" "clock_ok k1" "closed_state t k k1"
    "rt_current_thread k1 = rt_current_thread k" "rt_scheduler_lock_nest k1 = rt_scheduler_lock_nest k"
    "rt_interrupt_nest k1 = rt_interrupt_nest k"
    by (rule thread_close_spec [OF ck live])
  have mx: "mutexes k1 = mutexes k" using k1(3) by (simp add: closed_state_def)
  have "rt_mutex_release m k1 = Some (- RT_ERROR, upd_thread u (th_error_update (\<lambda>_. - RT_ERROR)) k1)"
    using m cur ctx u k1 mx
    by (simp add: rt_mutex_release_def rt_debug_in_thread_context_def rt_debug_not_in_interrupt_def rt_thread_self_def)
  moreover have "\<exists>k3. rt_mutex_take m 0 k1 = Some (Done (- RT_ETIMEOUT), k3)"
    using m cur ctx u k1 mx
    by (simp add: rt_mutex_take_def rt_mutex_take_flag_def rt_debug_scheduler_available_eq rt_thread_self_def mutex_take_wait_def)
  ultimately show ?thesis
    using k1 mx m cur ty by (auto simp: rt_thread_detach_def rt_thread_delete_def closed_state_def)
qed

theorem mutex_abandoned_witness:
  "\<exists>k1 k2. rt_thread_detach 3 (demo_mutex (Some 3)) = Some (RT_EOK, k1) \<and> mx_owner (mutexes k1 0) = Some 3
     \<and> rt_mutex_release 0 k1 = Some (- RT_ERROR, k2)"
  using mutex_abandoned [OF demo_mutex_ok(1), of 3 "Some 3" 0]
  by (simp add: demo_mutex_def demo_mx_def demo_thread_def thread_bss_def live_state_def stat_base_def) blast

end
