(* ===== verification/Idle.thy ===== *)
theory Idle
  imports Thread_Life "HOL-Library.Multiset"
begin

text \<open>
  The idle thread (\<open>src/idle.c\<close>): its hooks, its start and one pass of its loop, which runs the hooks
  and frees the closed threads. The defunct list itself is in \<open>Kernel_Thread\<close>.
\<close>

abbreviation (input) RT_IDLE_HOOK_LIST_SIZE :: nat where "RT_IDLE_HOOK_LIST_SIZE \<equiv> 4"

type_synonym hook_list = "nat option list"

subsection \<open>Operations\<close>

fun hook_slot :: "nat option \<Rightarrow> nat \<Rightarrow> hook_list \<Rightarrow> nat option" where
  "hook_slot h i [] = None"
| "hook_slot h i (x # xs) = (if x = h then Some i else hook_slot h (i + 1) xs)"

definition rt_thread_idle_sethook :: "nat option \<Rightarrow> hook_list \<Rightarrow> rt_err_t \<times> hook_list" where
  "rt_thread_idle_sethook hook hs = (case hook_slot None 0 hs of
       Some i \<Rightarrow> (RT_EOK, hs[i := hook])
     | None \<Rightarrow> (- RT_EFULL, hs))"

definition rt_thread_idle_delhook :: "nat option \<Rightarrow> hook_list \<Rightarrow> rt_err_t \<times> hook_list" where
  "rt_thread_idle_delhook hook hs = (case hook_slot hook 0 hs of
       Some i \<Rightarrow> (RT_EOK, hs[i := None])
     | None \<Rightarrow> (- RT_ENOSYS, hs))"

text \<open>One pass of \<open>idle_thread_entry\<close>; what a hook does to the kernel is the argument \<open>run\<close>.\<close>

definition idle_pass :: "(nat \<Rightarrow> kernel \<Rightarrow> kernel) \<Rightarrow> hook_list \<Rightarrow> kernel \<Rightarrow> kernel" where
  "idle_pass run hs k = rt_defunct_execute
     (fold (\<lambda>h k. case h of Some f \<Rightarrow> run f k | None \<Rightarrow> k) hs k)"

definition rt_thread_idle_init :: "tid \<Rightarrow> kernel \<Rightarrow> kernel option" where
  "rt_thread_idle_init idle_thread k = do {
     (_, k1) \<leftarrow> rt_thread_init idle_thread 31 32 k;
     (_, k2) \<leftarrow> rt_thread_startup idle_thread k1;
     Some k2
   }"

subsection \<open>Hooks\<close>

lemma hook_slot_spec:
  "h \<in> set xs \<and> (\<exists>j < length xs. hook_slot h i xs = Some (i + j) \<and> xs ! j = h \<and> (\<forall>l<j. xs ! l \<noteq> h)) \<or> hook_slot h i xs = None \<and> h \<notin> set xs"
proof (induction xs arbitrary: i)
  case (Cons x xs)
  show ?case
  proof (cases "x = h")
    case True
    then show ?thesis by auto
  next
    case False
    consider j where "j < length xs" "hook_slot h (i + 1) xs = Some (i + 1 + j)" "xs ! j = h" "\<forall>l<j. xs ! l \<noteq> h"
"h \<in> set xs"
      | "hook_slot h (i + 1) xs = None" "h \<notin> set xs"
      using Cons.IH [of "i + 1"] by (elim disjE conjE exE) simp_all
    then show ?thesis
    proof cases
      case (1 j)
      have "(x # xs) ! l \<noteq> h" if "l < Suc j" for l using 1(4) that False by (cases l) auto
      then show ?thesis using 1 False by (intro disjI1 conjI exI [of _ "Suc j"]) auto
    qed (use False in auto)
  qed
qed simp

text \<open>
  A hook is added unless all places are taken, and removing a hook that was there takes out one of its
  entries: the multiset of hooks changes by exactly one.
\<close>

lemma idle_hooks_spec:
  "(case rt_thread_idle_sethook (Some h) hs of (e, hs') \<Rightarrow>
      (None \<in> set hs \<longrightarrow> e = RT_EOK \<and> mset hs' = add_mset (Some h) (mset hs - {#None#}))
      \<and> (None \<notin> set hs \<longrightarrow> e = - RT_EFULL \<and> hs' = hs))
   \<and> (case rt_thread_idle_delhook (Some h) hs of (e, hs') \<Rightarrow>
      (Some h \<in> set hs \<longrightarrow> e = RT_EOK \<and> mset hs' = add_mset None (mset hs - {#Some h#}))
      \<and> (Some h \<notin> set hs \<longrightarrow> e = - RT_ENOSYS \<and> hs' = hs))"
  using hook_slot_spec [where xs = hs and h = None and i = 0] hook_slot_spec [where xs = hs and h = "Some h" and i = 0]
  by (auto simp: rt_thread_idle_sethook_def rt_thread_idle_delhook_def mset_update)

subsection \<open>Freeing the closed threads\<close>

lemma defunct_execute_n_spec:
  assumes "sched_ok k" "length (tq k QDefunct) < n"
  shows "sched_ok (defunct_execute_n n k) \<and> tq (defunct_execute_n n k) = (tq k)(QDefunct := [])
    \<and> (\<forall>t. threads (defunct_execute_n n k) t = (if t \<in> set (tq k QDefunct)
          then (threads k t)\<lparr>th_type := Class_Null, th_static := False\<rparr> else threads k t))"
  using assms
proof (induction n arbitrary: k)
  case (Suc n)
  show ?case
  proof (cases "tq k QDefunct")
    case Nil
    then show ?thesis using Suc.prems(1) by (auto simp: rt_thread_defunct_dequeue_def)
  next
    case (Cons t ts)
    let ?k = "defunct_reap t (rt_list_remove t k)"
    have ok: "sched_ok k" by (rule Suc.prems(1))
    have q: "queues_ok (tq k)" using ok by (simp add: sched_okx_def)
    have tq: "removeAll t (tq k q) = (if q = QDefunct then ts else tq k q)" for q
    proof (cases "q = QDefunct")
      case True
      then show ?thesis using q Cons by (auto simp: queues_ok_def removeAll_id dest: spec [of _ QDefunct])
    next
      case False
      then have "t \<notin> set (tq k q)" using q Cons unfolding queues_ok_def by (metis list.set_intros(1))
      then show ?thesis using False by simp
    qed
    have tq': "tq ?k = (tq k)(QDefunct := ts)"
      by (rule ext) (simp add: defunct_reap_def rt_list_remove_def tq)
    have ths: "threads ?k = (threads k)(t := (threads k t)\<lparr>th_type := Class_Null, th_static := False\<rparr>)"
      by (simp add: defunct_reap_def rt_list_remove_def)
    have same: "th_stat (threads ?k u) = th_stat (threads k u)"
      "th_current_priority (threads ?k u) = th_current_priority (threads k u)"
      "th_number_mask (threads ?k u) = th_number_mask (threads k u)" for u by (simp_all add: ths)
    have st: "queue_stat q (threads ?k u) = queue_stat q (threads k u)" for q u
      by (cases q) (simp_all add: queue_stat_def same)
    have tok: "thread_ok ?k u" for u
    proof -
      have "thread_ok k u" using ok by (simp add: sched_okx_def)
      then show ?thesis
        by (simp add: thread_ok_def same tq' prio_ok_def) (simp add: defunct_reap_def rt_list_remove_def)
    qed
    have g: "group_ok ?k"
    proof -
      have "rt_thread_ready_priority_group ?k = rt_thread_ready_priority_group k"
        by (simp add: defunct_reap_def rt_list_remove_def)
      then show ?thesis using ok by (simp add: group_ok_def sched_okx_def tq')
    qed
    have "queues_ok (tq ?k)" using queues_ok_remove [OF q, of t] by (simp add: tq' tq fun_upd_def)
    moreover have "queue_stat r (threads ?k u)" if "u \<in> set (tq ?k r)" for r u
      using ok that Cons by (auto simp: st tq' sched_okx_def split: if_splits)
    ultimately have ok': "sched_ok ?k" using g tok by (simp add: sched_okx_def)
    have "length (tq ?k QDefunct) < n" using Suc.prems(2) Cons by (simp add: tq')
    note ih = Suc.IH [OF ok' this]
    have step: "defunct_execute_n (Suc n) k = defunct_execute_n n ?k"
      using Cons by (simp add: rt_thread_defunct_dequeue_def)
    have nt: "t \<notin> set ts" using q Cons unfolding queues_ok_def by (metis distinct.simps(2))
    show ?thesis unfolding step using ih nt Cons by (auto simp: tq' ths)
  qed
qed simp


text \<open>The idle thread frees a thread that has been closed, and keeps the scheduler's invariant.\<close>

lemma closed_thread_reaped:
  assumes "clock_ok k" "live_state (th_stat (threads k t))" "th_pending_object (threads k t) = None"
  shows "\<exists>k1. thread_close t k = Some (RT_EOK, k1) \<and> sched_ok (idle_pass run [] k1)
    \<and> tq (idle_pass run [] k1) QDefunct = [] \<and> th_type (threads (idle_pass run [] k1) t) = Class_Null
    \<and> (\<forall>u. u \<noteq> t \<and> u \<notin> set (tq k QDefunct) \<longrightarrow> threads (idle_pass run [] k1) u = threads k u)"
proof -
  obtain k1 where k1: "thread_close t k = Some (RT_EOK, k1)" "clock_ok k1" "closed_state t k k1"
    by (rule thread_close_spec [OF assms])
  have "sched_ok k1" using k1(2) by (simp add: clock_ok_def)
  from defunct_execute_n_spec [OF this lessI] k1(1,3) show ?thesis
    by (auto simp: idle_pass_def rt_defunct_execute_def closed_state_def)
qed

end
