(* ===== verification/Object_List.thy ===== *)
theory Object_List
  imports Kernel_Object
begin

text \<open>
  The containers of \<open>src/object.c\<close>: for each class of objects a list, in which objects are found by
  name. Objects are named by numbers of one name space; the allocator and the scheduler's context
  are arguments or the kernel state of \<open>Kernel_State\<close>. \<open>None\<close> is a failed assertion or an access
  through a NULL pointer.
\<close>

abbreviation (input) RT_NAME_MAX :: nat where "RT_NAME_MAX \<equiv> 8"
abbreviation (input) NUL :: char where "NUL \<equiv> CHR 0x00"

subsection \<open>Names\<close>

text \<open>\<open>rt_strncpy\<close> into an array of \<open>n\<close> characters, and whether \<open>rt_strncmp\<close> returns 0.\<close>

definition rt_strncpy :: "string \<Rightarrow> nat \<Rightarrow> string" where
  "rt_strncpy src n = take n src @ replicate (n - length src) NUL"

definition char_at :: "string \<Rightarrow> char" where
  "char_at s = (case s of [] \<Rightarrow> NUL | c # _ \<Rightarrow> c)"

fun strncmp_eq :: "string \<Rightarrow> string \<Rightarrow> nat \<Rightarrow> bool" where
  "strncmp_eq cs ct 0 = True"
| "strncmp_eq cs ct (Suc count) =
     (if char_at cs \<noteq> char_at ct then False
      else if char_at cs = NUL then True
      else strncmp_eq (tl cs) (tl ct) count)"

definition c_string :: "string \<Rightarrow> bool" where
  "c_string s = (NUL \<notin> set s)"

lemma strncmp_strncpy:
  assumes "c_string a" "c_string b"
  shows "strncmp_eq (rt_strncpy a n) b n = (take n a = take n b)"
  using assms
proof (induction n arbitrary: a b)
  case (Suc n)
  then show ?case
    by (cases a; cases b) (auto simp: rt_strncpy_def char_at_def c_string_def)
qed simp

subsection \<open>Containers\<close>

record rt_object_information =
  info_type :: obj_class
  info_list :: "nat list option"

record objects =
  object_container :: "rt_object_information list"
  o_type :: "nat \<Rightarrow> obj_class \<times> bool"
  o_flag :: "nat \<Rightarrow> u8"
  o_name :: "nat \<Rightarrow> string"

text \<open>
  The initial containers of the board. The slot \<open>RT_Object_Info_Custom\<close> is there, because the heap is
  in use, but its initialiser is compiled only for RT_USING_SMART: the slot is zero, with the type
  \<open>RT_Object_Class_Null\<close> and NULL links.
\<close>

definition object_container_init :: "rt_object_information list" where
  "object_container_init =
     map (\<lambda>c. \<lparr>info_type = c, info_list = Some []\<rparr>)
       [Class_Thread, Class_Semaphore, Class_Mutex, Class_Event, Class_MailBox, Class_MessageQueue,
        Class_MemPool, Class_Device, Class_Timer, Class_Memory]
     @ [\<lparr>info_type = Class_Null, info_list = None\<rparr>]"

definition objects_init :: objects where
  "objects_init = \<lparr>object_container = object_container_init, o_type = (\<lambda>_. (Class_Null, False)),
     o_flag = (\<lambda>_. 0), o_name = (\<lambda>_. replicate RT_NAME_MAX NUL)\<rparr>"

subsection \<open>Operations\<close>

fun information_loop :: "obj_class \<Rightarrow> nat \<Rightarrow> rt_object_information list \<Rightarrow> nat option" where
  "information_loop type index [] = None"
| "information_loop type index (i # is) =
     (if info_type i = type then Some index else information_loop type (index + 1) is)"

definition rt_object_get_information :: "obj_class \<Rightarrow> objects \<Rightarrow> nat option" where
  "rt_object_get_information type o1 = information_loop type 0 (object_container o1)"

text \<open>The objects of a slot from the head of its list on; walking a list with NULL links fails.\<close>

definition object_list :: "nat \<Rightarrow> objects \<Rightarrow> nat list option" where
  "object_list i o1 = info_list (object_container o1 ! i)"

definition rt_object_get_length :: "obj_class \<Rightarrow> objects \<Rightarrow> nat option" where
  "rt_object_get_length type o1 =
     (case rt_object_get_information type o1 of
        None \<Rightarrow> Some 0
      | Some i \<Rightarrow> map_option (\<lambda>l. fold (\<lambda>_ count. count + 1) l 0) (object_list i o1))"

fun pointers_loop :: "int \<Rightarrow> nat list \<Rightarrow> nat list \<Rightarrow> nat list" where
  "pointers_loop maxlen pointers [] = pointers"
| "pointers_loop maxlen pointers (node # nodes) =
     (let pointers1 = pointers @ [node] in
      if maxlen \<le> int (length pointers1) then pointers1 else pointers_loop maxlen pointers1 nodes)"

definition rt_object_get_pointers :: "obj_class \<Rightarrow> int \<Rightarrow> objects \<Rightarrow> nat list option" where
  "rt_object_get_pointers type maxlen o1 =
     (if maxlen \<le> 0 then Some []
      else (case rt_object_get_information type o1 of
          None \<Rightarrow> Some []
        | Some i \<Rightarrow> map_option (pointers_loop maxlen []) (object_list i o1)))"

definition object_insert :: "nat \<Rightarrow> nat \<Rightarrow> objects \<Rightarrow> objects" where
  "object_insert i object o1 = o1\<lparr>object_container := (object_container o1)[i :=
     (object_container o1 ! i)\<lparr>info_list := map_option (\<lambda>l. object # l) (object_list i o1)\<rparr>]\<rparr>"

definition object_unlink :: "nat \<Rightarrow> objects \<Rightarrow> objects" where
  "object_unlink object o1 = o1\<lparr>object_container :=
     map (\<lambda>i. i\<lparr>info_list := map_option (removeAll object) (info_list i)\<rparr>) (object_container o1)\<rparr>"

definition rt_object_init :: "nat \<Rightarrow> obj_class \<Rightarrow> string \<Rightarrow> objects \<Rightarrow> kernel \<Rightarrow> (objects \<times> kernel) option" where
  "rt_object_init object type name o1 k = do {
     i \<leftarrow> rt_object_get_information type o1;
     l \<leftarrow> object_list i o1;
     k1 \<leftarrow> rt_object_init_check (object \<in> set l) k;
     let o2 = o1\<lparr>o_type := (o_type o1)(object := (type, True)),
                 o_name := (o_name o1)(object := rt_strncpy name RT_NAME_MAX)\<rparr>;
     Some (object_insert i object o2, k1)
   }"

definition rt_object_detach :: "nat \<Rightarrow> objects \<Rightarrow> objects" where
  "rt_object_detach object o1 =
     object_unlink object (o1\<lparr>o_type := (o_type o1)(object := (Class_Null, False))\<rparr>)"

definition rt_object_allocate ::
  "nat option \<Rightarrow> obj_class \<Rightarrow> string \<Rightarrow> objects \<Rightarrow> kernel \<Rightarrow> (nat option \<times> objects) option" where
  "rt_object_allocate alloc type name o1 k = do {
     rt_debug_not_in_interrupt k;
     i \<leftarrow> rt_object_get_information type o1;
     (case alloc of
        None \<Rightarrow> Some (None, o1)
      | Some object \<Rightarrow> do {
          _ \<leftarrow> object_list i o1;
          let o2 = o1\<lparr>o_type := (o_type o1)(object := (type, False)), o_flag := (o_flag o1)(object := 0),
                      o_name := (o_name o1)(object := rt_strncpy name RT_NAME_MAX)\<rparr>;
          Some (Some object, object_insert i object o2)
        })
   }"

definition rt_object_delete :: "nat \<Rightarrow> objects \<Rightarrow> objects option" where
  "rt_object_delete object o1 = do {
     rt_assert (\<not> snd (o_type o1 object));
     Some (object_unlink object (o1\<lparr>o_type := (o_type o1)(object := (Class_Null, False))\<rparr>))
   }"

definition rt_object_is_systemobject :: "nat \<Rightarrow> objects \<Rightarrow> bool" where
  "rt_object_is_systemobject object o1 = snd (o_type o1 object)"

definition rt_object_get_type :: "nat \<Rightarrow> objects \<Rightarrow> obj_class" where
  "rt_object_get_type object o1 = fst (o_type o1 object)"

fun find_loop :: "(nat \<Rightarrow> string) \<Rightarrow> string \<Rightarrow> nat list \<Rightarrow> nat option" where
  "find_loop names name [] = None"
| "find_loop names name (object # nodes) =
     (if strncmp_eq (names object) name RT_NAME_MAX then Some object else find_loop names name nodes)"

definition rt_object_find ::
  "string option \<Rightarrow> obj_class \<Rightarrow> objects \<Rightarrow> kernel \<Rightarrow> (nat option \<times> kernel) option" where
  "rt_object_find name type o1 k =
     (case (name, rt_object_get_information type o1) of
        (Some s, Some i) \<Rightarrow> do {
          rt_debug_not_in_interrupt k;
          let k1 = rt_enter_critical k;
          l \<leftarrow> object_list i o1;
          k2 \<leftarrow> rt_exit_critical k1;
          Some (find_loop (o_name o1) s l, k2)
        }
      | _ \<Rightarrow> Some (None, k))"

definition rt_thread_find :: "string option \<Rightarrow> objects \<Rightarrow> kernel \<Rightarrow> (nat option \<times> kernel) option" where
  "rt_thread_find name o1 k = rt_object_find name Class_Thread o1 k"

definition rt_custom_object_create ::
  "nat option \<Rightarrow> string \<Rightarrow> objects \<Rightarrow> kernel \<Rightarrow> (nat option \<times> objects) option" where
  "rt_custom_object_create alloc name o1 k = rt_object_allocate alloc Class_Custom name o1 k"

text \<open>\<open>rt_custom_object_destroy\<close>, with what the object's own function returns, if it has one.\<close>

definition rt_custom_object_destroy ::
  "int option \<Rightarrow> nat option \<Rightarrow> objects \<Rightarrow> (int \<times> objects) option" where
  "rt_custom_object_destroy destroyed obj o1 =
     (case obj of
        Some object \<Rightarrow>
          if o_type o1 object = (Class_Custom, False)
          then do {
            o2 \<leftarrow> rt_object_delete object o1;
            Some (case destroyed of Some ret \<Rightarrow> ret | None \<Rightarrow> - 1, o2)
          }
          else Some (- 1, o1)
      | None \<Rightarrow> Some (- 1, o1))"

subsection \<open>The lists by class\<close>

definition managed :: "obj_class \<Rightarrow> bool" where
  "managed c = (c \<in> {Class_Thread, Class_Semaphore, Class_Mutex, Class_Event, Class_MailBox,
     Class_MessageQueue, Class_MemPool, Class_Device, Class_Timer, Class_Memory})"

definition container_ok :: "objects \<Rightarrow> bool" where
  "container_ok o1 = (map (\<lambda>i. (info_type i, info_list i = None)) (object_container o1)
     = map (\<lambda>i. (info_type i, info_list i = None)) object_container_init)"

definition objects_of :: "objects \<Rightarrow> obj_class \<Rightarrow> nat list" where
  "objects_of o1 c = the (object_list (the (rt_object_get_information c o1)) o1)"

lemma information_loop_cong:
  "map info_type is = map info_type is' \<Longrightarrow> information_loop c n is = information_loop c n is'"
proof (induction "is" arbitrary: is' n)
  case (Cons i "is")
  then show ?case by (cases is') auto
qed simp

lemma container_ok_types: "container_ok o1 \<Longrightarrow> map info_type (object_container o1) = map info_type object_container_init"
  unfolding container_ok_def by (drule arg_cong [of _ _ "map fst"]) (simp add: o_def)

lemma information_eq: "container_ok o1 \<Longrightarrow> rt_object_get_information c o1 = information_loop c 0 object_container_init"
  unfolding rt_object_get_information_def by (intro information_loop_cong container_ok_types)

lemma container_ok_length: "container_ok o1 \<Longrightarrow> length (object_container o1) = 11"
  unfolding container_ok_def by (drule arg_cong [of _ _ length]) (simp add: object_container_init_def)

lemma container_ok_slot:
  assumes "container_ok o1" "i < 11"
  shows "info_type (object_container o1 ! i) = info_type (object_container_init ! i)"
    "(object_list i o1 = None) = (info_list (object_container_init ! i) = None)"
proof -
  have "length object_container_init = 11" by (simp add: object_container_init_def)
  then show "info_type (object_container o1 ! i) = info_type (object_container_init ! i)"
    "(object_list i o1 = None) = (info_list (object_container_init ! i) = None)"
    using assms container_ok_length [OF assms(1)] arg_cong [OF assms(1) [unfolded container_ok_def], of "\<lambda>l. l ! i"]
    by (simp_all add: object_list_def)
qed

lemma managed_slot:
  assumes "container_ok o1" "managed c"
  obtains i where "i < 10" "rt_object_get_information c o1 = Some i" "info_type (object_container o1 ! i) = c"
    "object_list i o1 = Some (objects_of o1 c)"
proof -
  have "\<exists>i<10. information_loop c 0 object_container_init = Some i \<and> info_type (object_container_init ! i) = c
      \<and> info_list (object_container_init ! i) \<noteq> None"
    using assms(2) by (auto simp: managed_def object_container_init_def)
  then obtain i where i: "i < 10" "information_loop c 0 object_container_init = Some i"
    "info_type (object_container_init ! i) = c" "info_list (object_container_init ! i) \<noteq> None" by blast
  moreover have "rt_object_get_information c o1 = Some i" using i(2) by (simp add: information_eq [OF assms(1)])
  moreover have "object_list i o1 = Some (objects_of o1 c)"
    using container_ok_slot(2) [OF assms(1), of i] i \<open>rt_object_get_information c o1 = Some i\<close>
    by (auto simp: objects_of_def)
  ultimately show ?thesis using that container_ok_slot(1) [OF assms(1), of i] by auto
qed

lemma unmanaged_information:
  "container_ok o1 \<Longrightarrow> \<not> managed c \<Longrightarrow> c \<noteq> Class_Null \<Longrightarrow> rt_object_get_information c o1 = None"
  by (cases c) (simp_all add: information_eq managed_def object_container_init_def)

lemma object_insert_ok:
  assumes "container_ok o1" "managed c" "rt_object_get_information c o1 = Some i"
  shows "container_ok (object_insert i x o1)"
    "managed c' \<Longrightarrow> objects_of (object_insert i x o1) c' = (if c' = c then x # objects_of o1 c else objects_of o1 c')"
proof -
  obtain j where "j < 10" "rt_object_get_information c o1 = Some j" "info_type (object_container o1 ! j) = c"
    "object_list j o1 = Some (objects_of o1 c)"
    by (rule managed_slot [OF assms(1,2)])
  with assms(3) have i: "i < 10" "info_type (object_container o1 ! i) = c" "object_list i o1 = Some (objects_of o1 c)"
    by simp_all
  have len: "length (object_container o1) = 11" by (rule container_ok_length [OF assms(1)])
  show ok: "container_ok (object_insert i x o1)"
  proof -
    let ?f = "\<lambda>i. (info_type i, info_list i = None)"
    have "(map ?f (object_container o1))[i := (c, False)] = map ?f (object_container o1)"
      using i len by (intro list_update_same_conv [THEN iffD2]) (simp_all add: object_list_def)
    then show ?thesis using assms(1) i unfolding container_ok_def
      by (simp add: object_insert_def map_update object_list_def)
  qed
  show "objects_of (object_insert i x o1) c' = (if c' = c then x # objects_of o1 c else objects_of o1 c')"
    if m: "managed c'"
  proof -
    obtain j where j: "j < 10" "rt_object_get_information c' o1 = Some j" "info_type (object_container o1 ! j) = c'"
      "object_list j o1 = Some (objects_of o1 c')"
      by (rule managed_slot [OF assms(1) m])
    have "rt_object_get_information c' (object_insert i x o1) = Some j"
      using information_eq [OF ok] information_eq [OF assms(1)] j(2) by simp
    moreover have ij: "i = j \<longleftrightarrow> c' = c" by (metis i(2) j(2,3) assms(3) option.inject)
    moreover have "object_list j (object_insert i x o1) = Some (if c' = c then x # objects_of o1 c else objects_of o1 c')"
      using i j(1,4) len ij by (auto simp: object_insert_def object_list_def nth_list_update)
    ultimately show ?thesis unfolding objects_of_def [of "object_insert i x o1"] by simp
  qed
qed

lemma object_unlink_ok:
  assumes "container_ok o1"
  shows "container_ok (object_unlink x o1)"
    "managed c \<Longrightarrow> objects_of (object_unlink x o1) c = removeAll x (objects_of o1 c)"
proof -
  show ok: "container_ok (object_unlink x o1)"
    using assms by (simp add: container_ok_def object_unlink_def o_def)
  show "objects_of (object_unlink x o1) c = removeAll x (objects_of o1 c)" if m: "managed c"
  proof -
    obtain j where j: "j < 10" "rt_object_get_information c o1 = Some j" "info_type (object_container o1 ! j) = c"
      "object_list j o1 = Some (objects_of o1 c)"
      by (rule managed_slot [OF assms m])
    have "rt_object_get_information c (object_unlink x o1) = Some j"
      using information_eq [OF ok] information_eq [OF assms] j(2) by simp
    moreover have "info_list (object_container o1 ! j) = Some (objects_of o1 c)"
      using j(4) by (simp add: object_list_def)
    ultimately show ?thesis unfolding objects_of_def [of "object_unlink x o1"]
      using j(1) container_ok_length [OF assms] by (simp add: object_unlink_def object_list_def)
  qed
qed

subsection \<open>Registration and look-up\<close>

definition objs_ok :: "objects \<Rightarrow> bool" where
  "objs_ok o1 = (container_ok o1 \<and> (\<forall>c. managed c \<longrightarrow> distinct (objects_of o1 c)
     \<and> (\<forall>x. x \<in> set (objects_of o1 c) \<longleftrightarrow> fst (o_type o1 x) = c)))"

lemma objects_init_ok: "objs_ok objects_init"
proof -
  have c: "container_ok objects_init" by (simp add: container_ok_def objects_init_def)
  have "objects_of objects_init c = []" if "managed c" for c
    using that by (auto simp: managed_def objects_of_def rt_object_get_information_def object_list_def
        objects_init_def object_container_init_def)
  then show ?thesis using c by (auto simp: objs_ok_def objects_init_def managed_def)
qed

lemma object_list_frame:
  "rt_object_get_information c (o1\<lparr>o_type := t, o_name := n\<rparr>) = rt_object_get_information c o1"
  "rt_object_get_information c (o1\<lparr>o_type := t\<rparr>) = rt_object_get_information c o1"
  "object_list i (o1\<lparr>o_type := t, o_name := n\<rparr>) = object_list i o1"
  "object_list i (o1\<lparr>o_type := t\<rparr>) = object_list i o1"
  "container_ok (o1\<lparr>o_type := t, o_name := n\<rparr>) = container_ok o1"
  "container_ok (o1\<lparr>o_type := t\<rparr>) = container_ok o1"
  "objects_of (o1\<lparr>o_type := t, o_name := n\<rparr>) c = objects_of o1 c"
  "objects_of (o1\<lparr>o_type := t\<rparr>) c = objects_of o1 c"
  by (simp_all add: rt_object_get_information_def object_list_def container_ok_def objects_of_def)

lemma object_ops_sel [simp]:
  "o_type (object_insert i x o1) = o_type o1" "o_name (object_insert i x o1) = o_name o1"
  "o_type (object_unlink x o1) = o_type o1" "o_name (object_unlink x o1) = o_name o1"
  by (simp_all add: object_insert_def object_unlink_def)

lemma exit_critical_nest:
  assumes "sched_ok k" "rt_exit_critical (rt_enter_critical k) = Some k'"
  shows "rt_interrupt_nest k' = rt_interrupt_nest k"
proof -
  have "rt_interrupt_nest (rt_enter_critical k) = rt_interrupt_nest k" by (simp add: rt_enter_critical_def)
  moreover have *: "rt_interrupt_nest b = rt_interrupt_nest a" if "rt_schedule a = Some b" "sched_ok a" for a b
    by (rule sched_frame_sel(3) [OF rt_schedule_frame [OF that(2,1)]])
  ultimately show ?thesis using assms
    by (auto simp: rt_exit_critical_def rt_enter_critical_def Let_def split: if_splits dest!: *)
qed

lemma object_init_spec:
  assumes o1: "objs_ok o1" and k: "sched_ok k" and c: "managed c" and x: "fst (o_type o1 x) = Class_Null"
  obtains o2 k2 where "rt_object_init x c name o1 k = Some (o2, k2)" "objs_ok o2" "sched_ok k2"
    "rt_interrupt_nest k2 = rt_interrupt_nest k" "objects_of o2 c = x # objects_of o1 c"
    "\<And>c'. managed c' \<Longrightarrow> c' \<noteq> c \<Longrightarrow> objects_of o2 c' = objects_of o1 c'"
    "o_name o2 = (o_name o1)(x := rt_strncpy name RT_NAME_MAX)" "o_type o2 = (o_type o1)(x := (c, True))"
proof -
  have ok: "container_ok o1" using o1 by (simp add: objs_ok_def)
  obtain i where i: "i < 10" "rt_object_get_information c o1 = Some i" "object_list i o1 = Some (objects_of o1 c)"
    using managed_slot [OF ok c] by blast
  have nx: "x \<notin> set (objects_of o1 c')" if "managed c'" for c'
  proof -
    have "c' \<noteq> Class_Null" using that by (auto simp: managed_def)
    then show ?thesis using o1 that x unfolding objs_ok_def by metis
  qed
  obtain k2 where k2: "rt_object_init_check False k = Some k2"
    by (rule rt_object_init_check_total [OF k]) auto
  let ?o = "o1\<lparr>o_type := (o_type o1)(x := (c, True)), o_name := (o_name o1)(x := rt_strncpy name RT_NAME_MAX)\<rparr>"
  have ok': "container_ok ?o" and i': "rt_object_get_information c ?o = Some i"
    using ok i(2) by (simp_all add: object_list_frame)
  note ins = object_insert_ok [OF ok' c i', where x = x, unfolded object_list_frame]
  have ex: "rt_object_init x c name o1 k = Some (object_insert i x ?o, k2)"
    using i nx [OF c] k2 by (simp add: rt_object_init_def)
  have nest: "rt_interrupt_nest k2 = rt_interrupt_nest k"
    using exit_critical_nest [OF k] k2 by (simp add: rt_object_init_check_def Let_def)
  have "objs_ok (object_insert i x ?o)"
    unfolding objs_ok_def
  proof (intro conjI allI impI)
    show "container_ok (object_insert i x ?o)" by (rule ins(1))
    fix c' assume c': "managed c'"
    have o1c: "distinct (objects_of o1 c')" "y \<in> set (objects_of o1 c') \<longleftrightarrow> fst (o_type o1 y) = c'" for y
      using o1 c' by (simp_all add: objs_ok_def)
    show "distinct (objects_of (object_insert i x ?o) c')"
      unfolding ins(2) [OF c'] using nx [OF c'] o1c(1) by auto
    show "y \<in> set (objects_of (object_insert i x ?o) c') \<longleftrightarrow> fst (o_type (object_insert i x ?o) y) = c'" for y
      unfolding ins(2) [OF c'] using nx [OF c'] o1c(2) [of y] by (cases "y = x") auto
  qed
  then show ?thesis
    using that ex rt_object_init_check_sched_ok [OF k k2] nest ins(2) c by simp
qed

lemma object_detach_spec:
  assumes "objs_ok o1"
  shows "objs_ok (rt_object_detach x o1)"
    "managed c \<Longrightarrow> objects_of (rt_object_detach x o1) c = removeAll x (objects_of o1 c)"
proof -
  have ok: "container_ok (o1\<lparr>o_type := (o_type o1)(x := (Class_Null, False))\<rparr>)"
    using assms by (simp add: objs_ok_def object_list_frame)
  note u = object_unlink_ok [OF ok, unfolded object_list_frame]
  show l: "managed c \<Longrightarrow> objects_of (rt_object_detach x o1) c = removeAll x (objects_of o1 c)" for c
    unfolding rt_object_detach_def by (rule u(2))
  have t: "o_type (rt_object_detach x o1) = (o_type o1)(x := (Class_Null, False))"
    by (simp add: rt_object_detach_def)
  show "objs_ok (rt_object_detach x o1)"
    unfolding objs_ok_def
  proof (intro conjI allI impI)
    show "container_ok (rt_object_detach x o1)" unfolding rt_object_detach_def by (rule u(1))
    fix c assume c: "managed c"
    show "distinct (objects_of (rt_object_detach x o1) c)"
      using assms c by (simp add: l objs_ok_def distinct_removeAll)
    show "y \<in> set (objects_of (rt_object_detach x o1) c) \<longleftrightarrow> fst (o_type (rt_object_detach x o1) y) = c" for y
    proof -
      have "y \<in> set (objects_of o1 c) \<longleftrightarrow> fst (o_type o1 y) = c" using assms c by (simp add: objs_ok_def)
      moreover have "c \<noteq> Class_Null" using c by (auto simp: managed_def)
      ultimately show ?thesis using c by (cases "y = x") (simp_all add: l t)
    qed
  qed
qed

lemma object_find_spec:
  assumes "objs_ok o1" "sched_ok k" "rt_interrupt_nest k = 0" "managed c"
  obtains k' where "rt_object_find (Some name) c o1 k = Some (find_loop (o_name o1) name (objects_of o1 c), k')"
    "sched_ok k'" "rt_interrupt_nest k' = 0"
proof -
  obtain i where i: "rt_object_get_information c o1 = Some i" "object_list i o1 = Some (objects_of o1 c)"
    using managed_slot [of o1 c] assms unfolding objs_ok_def by blast
  have e: "sched_ok (rt_enter_critical k)" using assms(2) by (simp add: rt_enter_critical_def)
  obtain k' where k': "rt_exit_critical (rt_enter_critical k) = Some k'" by (rule rt_exit_critical_total [OF e])
  show ?thesis
    by (rule that [of k'])
      (use assms i k' rt_exit_critical_sched_ok [OF e k'] exit_critical_nest [OF assms(2) k'] in
        \<open>simp_all add: rt_object_find_def rt_debug_not_in_interrupt_def\<close>)
qed

lemma find_loop_None: "x \<notin> set l \<Longrightarrow> find_loop (f(x := s)) name l = find_loop f name l"
  by (induction l) auto

lemma unregistered: "objs_ok o1 \<Longrightarrow> managed c \<Longrightarrow> fst (o_type o1 x) = Class_Null \<Longrightarrow> x \<notin> set (objects_of o1 c)"
proof -
  assume o1: "objs_ok o1" and c: "managed c" and x: "fst (o_type o1 x) = Class_Null"
  have "c \<noteq> Class_Null" using c by (auto simp: managed_def)
  then show ?thesis using o1 c x unfolding objs_ok_def by metis
qed

lemma information_sel:
  assumes "objs_ok o1" "managed c"
  shows "rt_object_get_length c o1 = Some (length (objects_of o1 c))"
    "rt_object_get_pointers c n o1 = Some (take (nat n) (objects_of o1 c))"
proof -
  obtain i where i: "rt_object_get_information c o1 = Some i" "object_list i o1 = Some (objects_of o1 c)"
    using managed_slot [of o1 c] assms unfolding objs_ok_def by blast
  have count: "fold (\<lambda>_ count. Suc count) l n = n + length l" for l :: "nat list" and n
    by (induction l arbitrary: n) auto
  have ptrs: "pointers_loop m ps l = take (nat m) (ps @ l)" if "int (length ps) < m" for m ps l
    using that
  proof (induction l arbitrary: ps)
    case (Cons x l)
    obtain d where "nat m - length ps = Suc d" "nat m - Suc (length ps) = d"
      using Cons.prems by (cases "nat m - length ps") auto
    then show ?case using Cons by (cases "m \<le> int (length (ps @ [x]))") (auto simp: Let_def)
  qed simp
  show "rt_object_get_length c o1 = Some (length (objects_of o1 c))"
    by (simp add: rt_object_get_length_def i count)
  show "rt_object_get_pointers c n o1 = Some (take (nat n) (objects_of o1 c))"
    using ptrs [of "[]" n] by (simp add: rt_object_get_pointers_def i)
qed

lemma object_lookup_spec:
  assumes o1: "objs_ok o1" and k: "sched_ok k" "rt_interrupt_nest k = 0" and c: "managed c"
    and x: "fst (o_type o1 x) = Class_Null" and n: "c_string name" "c_string name'"
  shows "\<exists>o2 k2 k3 k4. rt_object_init x c name o1 k = Some (o2, k2) \<and> objs_ok o2
    \<and> rt_object_get_length c o2 = Some (length (objects_of o1 c) + 1)
    \<and> rt_object_find (Some name') c o2 k2 = Some (if take RT_NAME_MAX name = take RT_NAME_MAX name' then Some x
        else find_loop (o_name o1) name' (objects_of o1 c), k3)
    \<and> objs_ok (rt_object_detach x o2) \<and> rt_object_get_length c (rt_object_detach x o2) = Some (length (objects_of o1 c))
    \<and> rt_object_find (Some name') c (rt_object_detach x o2) k3 = Some (find_loop (o_name o1) name' (objects_of o1 c), k4)"
proof -
  obtain o2 k2 where o2: "rt_object_init x c name o1 k = Some (o2, k2)" "objs_ok o2" "sched_ok k2"
    "rt_interrupt_nest k2 = rt_interrupt_nest k" "objects_of o2 c = x # objects_of o1 c"
    "o_name o2 = (o_name o1)(x := rt_strncpy name RT_NAME_MAX)"
    by (rule object_init_spec [OF o1 k(1) c x])
  have nx: "x \<notin> set (objects_of o1 c)" by (rule unregistered [OF o1 c x])
  obtain k3 where k3: "rt_object_find (Some name') c o2 k2 = Some (find_loop (o_name o2) name' (objects_of o2 c), k3)"
    "sched_ok k3" "rt_interrupt_nest k3 = 0"
    by (rule object_find_spec [OF o2(2,3) _ c]) (use o2(4) k(2) in auto)
  note det = object_detach_spec(1) [OF o2(2), of x] object_detach_spec(2) [OF o2(2) c, of x]
  have d: "objects_of (rt_object_detach x o2) c = objects_of o1 c" using det(2) o2(5) nx by simp
  obtain k4 where k4: "rt_object_find (Some name') c (rt_object_detach x o2) k3
    = Some (find_loop (o_name (rt_object_detach x o2)) name' (objects_of (rt_object_detach x o2) c), k4)"
    by (rule object_find_spec [OF det(1) k3(2,3) c])
  have "o_name (rt_object_detach x o2) = o_name o2" by (simp add: rt_object_detach_def)
  then show ?thesis
    using o2 k3(1) k4 det(1) nx strncmp_strncpy [OF n, of RT_NAME_MAX] d
    by (simp add: find_loop_None information_sel(1) [OF o2(2) c] information_sel(1) [OF det(1) c])
qed

text \<open>
  An object registered under a name with \<open>rt_object_init\<close> is found by
  every name that agrees with it in the first eight characters, and no other look-up changes; the
  count of its class grows by one. Once it is detached, counts and look-ups are as before.
\<close>
theorem object_lookup_correct:
  assumes "objs_ok o1" "sched_ok k" "rt_interrupt_nest k = 0" "managed c"
    and "fst (o_type o1 x) = Class_Null" and "c_string name" "c_string name'"
  shows "\<exists>o2 k2 k3 k4. rt_object_init x c name o1 k = Some (o2, k2) \<and> objs_ok o2
    \<and> rt_object_get_length c o2 = Some (length (objects_of o1 c) + 1)
    \<and> rt_object_find (Some name') c o2 k2 = Some (if take RT_NAME_MAX name = take RT_NAME_MAX name' then Some x
        else find_loop (o_name o1) name' (objects_of o1 c), k3)
    \<and> objs_ok (rt_object_detach x o2) \<and> rt_object_get_length c (rt_object_detach x o2) = Some (length (objects_of o1 c))
    \<and> rt_object_find (Some name') c (rt_object_detach x o2) k3 = Some (find_loop (o_name o1) name' (objects_of o1 c), k4)"
  by (rule object_lookup_spec [OF assms])

theorem object_lookup_correct_witness:
  "\<exists>o2 k2 k3. rt_object_init 7 Class_Semaphore ''longname_a'' objects_init demo_kernel = Some (o2, k2)
     \<and> rt_object_find (Some ''longname_b'') Class_Semaphore o2 k2 = Some (Some 7, k3)"
  using object_lookup_correct [OF objects_init_ok demo_kernel_ok, of Class_Semaphore 7 "''longname_a''" "''longname_b''"]
  by (auto simp: managed_def objects_init_def c_string_def)

text \<open>
  On this board \<open>rt_custom_object_create\<close> fails an assertion, whatever the
  name and the state of the heap: the container of custom objects is not initialised. Its zeroed slot
  answers for the null class instead, and counting its objects follows a NULL link.
\<close>
theorem custom_object_asserts:
  assumes "container_ok o1"
  shows "rt_custom_object_create alloc name o1 k = None \<and> rt_object_get_length Class_Null o1 = None"
proof -
  have "rt_object_get_information Class_Custom o1 = None"
    by (simp add: unmanaged_information [OF assms] managed_def)
  moreover have "rt_object_get_information Class_Null o1 = Some 10"
    by (simp add: information_eq [OF assms] object_container_init_def)
  moreover have "object_list 10 o1 = None"
    using container_ok_slot(2) [OF assms, of 10] by (simp add: object_container_init_def)
  ultimately show ?thesis
    by (simp add: rt_custom_object_create_def rt_object_allocate_def rt_object_get_length_def bind_eq_None_conv)
qed

theorem custom_object_asserts_witness:
  "rt_custom_object_create (Some 3) ''c'' objects_init demo_kernel = None"
  using custom_object_asserts [of objects_init] objects_init_ok by (simp add: objs_ok_def)

end
