(* ===== verification/Mem_Small.thy ===== *)
theory Mem_Small
  imports Kernel_State
begin

text \<open>
  The small memory allocator (\<open>src/mem.c\<close>), the system heap of the board: one area cut into
  blocks by headers with the offsets of the next and the previous block, \<open>lfree\<close> at the lowest
  free block. Offsets are natural numbers, as the area is smaller than the address space;
  requested sizes are 32-bit words, because their alignment may wrap around. The contents of
  the blocks are kept as a map from offsets to bytes.
\<close>

subsection \<open>State\<close>

text \<open>
  \<open>it_pool\<close> is the word \<open>pool_ptr\<close> of a header: the address of the heap with the used bit, or
  \<open>None\<close> for 0. With \<open>RT_ALIGN_SIZE = 8\<close> a header and the smallest block take 16 bytes each.
\<close>

record smem_item =
  it_pool :: "bool option"
  it_next :: nat
  it_prev :: nat

record rt_small_mem =
  sm_type :: obj_class
  sm_static :: bool
  sm_total :: nat
  sm_used :: nat
  sm_max :: nat
  sm_items :: "nat \<Rightarrow> smem_item"
  sm_lfree :: nat
  sm_data :: "nat \<Rightarrow> u8"

abbreviation (input) SIZEOF_STRUCT_MEM :: nat where "SIZEOF_STRUCT_MEM \<equiv> 16"
abbreviation (input) MIN_SIZE_ALIGNED :: u32 where "MIN_SIZE_ALIGNED \<equiv> 16"
abbreviation (input) MIN_SIZE :: nat where "MIN_SIZE \<equiv> 12"
abbreviation (input) RT_ALIGN_SIZE :: u32 where "RT_ALIGN_SIZE \<equiv> 8"

definition mem_isused :: "rt_small_mem \<Rightarrow> nat \<Rightarrow> bool" where
  "mem_isused s p = (it_pool (sm_items s p) = Some True)"

definition heap_end :: "rt_small_mem \<Rightarrow> nat" where
  "heap_end s = sm_total s + SIZEOF_STRUCT_MEM"

abbreviation upd_item :: "nat \<Rightarrow> (smem_item \<Rightarrow> smem_item) \<Rightarrow> rt_small_mem \<Rightarrow> rt_small_mem" where
  "upd_item p f s \<equiv> s\<lparr>sm_items := (sm_items s)(p := f (sm_items s p))\<rparr>"

subsection \<open>Operations\<close>

text \<open>Joining a free block with the free neighbours behind and in front of it.\<close>

definition plug_next :: "nat \<Rightarrow> rt_small_mem \<Rightarrow> rt_small_mem" where
  "plug_next mem s = (
     let nmem = it_next (sm_items s mem) in
     if mem \<noteq> nmem \<and> \<not> mem_isused s nmem \<and> nmem \<noteq> heap_end s then
       (let s1 = (if sm_lfree s = nmem then s\<lparr>sm_lfree := mem\<rparr> else s);
            s2 = upd_item nmem (it_pool_update (\<lambda>_. None)) s1;
            s3 = upd_item mem (it_next_update (\<lambda>_. it_next (sm_items s2 nmem))) s2
        in upd_item (it_next (sm_items s3 nmem)) (it_prev_update (\<lambda>_. mem)) s3)
     else s)"

definition plug_prev :: "nat \<Rightarrow> rt_small_mem \<Rightarrow> rt_small_mem" where
  "plug_prev mem s = (
     let pmem = it_prev (sm_items s mem) in
     if pmem \<noteq> mem \<and> \<not> mem_isused s pmem then
       (let s1 = (if sm_lfree s = mem then s\<lparr>sm_lfree := pmem\<rparr> else s);
            s2 = upd_item mem (it_pool_update (\<lambda>_. None)) s1;
            s3 = upd_item pmem (it_next_update (\<lambda>_. it_next (sm_items s2 mem))) s2
        in upd_item (it_next (sm_items s3 mem)) (it_prev_update (\<lambda>_. pmem)) s3)
     else s)"

definition plug_holes :: "nat \<Rightarrow> rt_small_mem \<Rightarrow> rt_small_mem option" where
  "plug_holes mem s = do {
     rt_assert (mem < heap_end s);
     Some (plug_prev mem (plug_next mem s))
   }"

text \<open>
  \<open>rt_smem_init\<close> for an area of \<open>sz\<close> bytes at the address \<open>begin_addr\<close>; the control block of 56
  bytes stands in front of the blocks. The result has the address of the first header.
\<close>

definition smem_area :: "u32 \<Rightarrow> u32 \<Rightarrow> (u32 \<times> u32) option" where
  "smem_area begin_addr sz = (
     let start_addr = RT_ALIGN begin_addr RT_ALIGN_SIZE + 56;
         begin_align = RT_ALIGN start_addr RT_ALIGN_SIZE;
         end_align = (begin_addr + sz) AND NOT (RT_ALIGN_SIZE - 1)
     in if 2 * 16 < end_align \<and> start_addr \<le> end_align - 2 * 16
        then Some (begin_align, end_align - begin_align - 2 * 16) else None)"

definition smem_fresh :: "nat \<Rightarrow> (nat \<Rightarrow> u8) \<Rightarrow> rt_small_mem" where
  "smem_fresh mem_size bytes = \<lparr>sm_type = Class_Memory, sm_static = True, sm_total = mem_size,
     sm_used = 0, sm_max = 0,
     sm_items = (\<lambda>_. \<lparr>it_pool = None, it_next = 0, it_prev = 0\<rparr>)
       (0 := \<lparr>it_pool = Some False, it_next = mem_size + SIZEOF_STRUCT_MEM, it_prev = 0\<rparr>,
        mem_size + SIZEOF_STRUCT_MEM := \<lparr>it_pool = Some True,
          it_next = mem_size + SIZEOF_STRUCT_MEM, it_prev = mem_size + SIZEOF_STRUCT_MEM\<rparr>),
     sm_lfree = 0, sm_data = bytes\<rparr>"

definition rt_smem_init :: "u32 \<Rightarrow> u32 \<Rightarrow> (nat \<Rightarrow> u8) \<Rightarrow> (u32 \<times> rt_small_mem) option" where
  "rt_smem_init begin_addr sz bytes = (case smem_area begin_addr sz of
       None \<Rightarrow> None
     | Some (heap_ptr, mem_size) \<Rightarrow> Some (heap_ptr, smem_fresh (unat mem_size) bytes))"

definition rt_smem_detach :: "rt_small_mem \<Rightarrow> (rt_err_t \<times> rt_small_mem) option" where
  "rt_smem_detach s = do {
     rt_assert (sm_type s = Class_Memory);
     rt_assert (sm_static s);
     Some (RT_EOK, s\<lparr>sm_type := Class_Null, sm_static := False\<rparr>)
   }"

text \<open>Cutting a block at \<open>ptr2\<close>; the rest becomes a free block.\<close>

definition smem_split :: "nat \<Rightarrow> nat \<Rightarrow> rt_small_mem \<Rightarrow> rt_small_mem" where
  "smem_split ptr ptr2 s = (
     let next2 = it_next (sm_items s ptr);
         s1 = upd_item ptr2 (\<lambda>_. \<lparr>it_pool = Some False, it_next = next2, it_prev = ptr\<rparr>) s;
         s2 = upd_item ptr (it_next_update (\<lambda>_. ptr2)) s1
     in if next2 \<noteq> heap_end s then upd_item next2 (it_prev_update (\<lambda>_. ptr2)) s2 else s2)"

definition smem_account :: "nat \<Rightarrow> rt_small_mem \<Rightarrow> rt_small_mem" where
  "smem_account n s = (
     let s1 = s\<lparr>sm_used := sm_used s + n\<rparr>
     in if sm_max s1 < sm_used s1 then s1\<lparr>sm_max := sm_used s1\<rparr> else s1)"

text \<open>The loop that looks for the first block that fits, and the one that moves \<open>lfree\<close> on.\<close>

definition smem_fits :: "rt_small_mem \<Rightarrow> nat \<Rightarrow> nat \<Rightarrow> bool" where
  "smem_fits s n ptr \<longleftrightarrow> \<not> mem_isused s ptr
     \<and> n \<le> it_next (sm_items s ptr) - (ptr + SIZEOF_STRUCT_MEM)"

partial_function (option) smem_search :: "rt_small_mem \<Rightarrow> nat \<Rightarrow> nat \<Rightarrow> nat option option" where
  "smem_search s n ptr =
     (if ptr \<le> sm_total s - n then
        (if smem_fits s n ptr then Some (Some ptr)
         else smem_search s n (it_next (sm_items s ptr)))
      else Some None)"

partial_function (option) smem_lfree_loop :: "rt_small_mem \<Rightarrow> nat \<Rightarrow> nat option" where
  "smem_lfree_loop s lfree =
     (if mem_isused s lfree \<and> lfree \<noteq> heap_end s
      then smem_lfree_loop s (it_next (sm_items s lfree)) else Some lfree)"

definition smem_take :: "nat \<Rightarrow> nat \<Rightarrow> rt_small_mem \<Rightarrow> (nat option \<times> rt_small_mem) option" where
  "smem_take n ptr s = do {
     let s1 = (if n + SIZEOF_STRUCT_MEM + 16 \<le> it_next (sm_items s ptr) - (ptr + SIZEOF_STRUCT_MEM)
               then smem_account (n + SIZEOF_STRUCT_MEM)
                 (smem_split ptr (ptr + SIZEOF_STRUCT_MEM + n) s)
               else smem_account (it_next (sm_items s ptr) - ptr) s);
     let s2 = upd_item ptr (it_pool_update (\<lambda>_. Some True)) s1;
     s3 \<leftarrow> (if ptr = sm_lfree s2 then do {
              lfree \<leftarrow> smem_lfree_loop s2 (sm_lfree s2);
              rt_assert (lfree = heap_end s2 \<or> \<not> mem_isused s2 lfree);
              Some (s2\<lparr>sm_lfree := lfree\<rparr>)
            } else Some s2);
     rt_assert (ptr + SIZEOF_STRUCT_MEM + n \<le> heap_end s3);
     rt_assert (ptr mod 8 = 0);
     Some (Some (ptr + SIZEOF_STRUCT_MEM), s3)
   }"

definition smem_request :: "u32 \<Rightarrow> u32" where
  "smem_request sz = (let n = RT_ALIGN sz RT_ALIGN_SIZE in if n < MIN_SIZE_ALIGNED then MIN_SIZE_ALIGNED else n)"

definition rt_smem_alloc :: "u32 \<Rightarrow> rt_small_mem \<Rightarrow> (nat option \<times> rt_small_mem) option" where
  "rt_smem_alloc sz s =
     (if sz = 0 then Some (None, s)
      else do {
        rt_assert (sm_type s = Class_Memory);
        rt_assert (sm_static s);
        let n = unat (smem_request sz);
        (if sm_total s < n then Some (None, s)
         else do {
           found \<leftarrow> smem_search s n (sm_lfree s);
           (case found of None \<Rightarrow> Some (None, s) | Some ptr \<Rightarrow> smem_take n ptr s)
         })
      })"

definition rt_smem_free :: "nat option \<Rightarrow> rt_small_mem \<Rightarrow> rt_small_mem option" where
  "rt_smem_free rmem s = (case rmem of
       None \<Rightarrow> Some s
     | Some r \<Rightarrow> do {
         rt_assert (r mod 8 = 0);
         rt_assert (SIZEOF_STRUCT_MEM \<le> r);
         let mem = r - SIZEOF_STRUCT_MEM;
         rt_assert (it_pool (sm_items s mem) \<noteq> None);
         rt_assert (mem_isused s mem);
         rt_assert (sm_type s = Class_Memory);
         rt_assert (sm_static s);
         rt_assert (r < heap_end s);
         rt_assert (it_pool (sm_items s (it_next (sm_items s mem))) \<noteq> None);
         let s1 = upd_item mem (it_pool_update (\<lambda>_. Some False)) s;
         let s2 = (if mem < sm_lfree s1 then s1\<lparr>sm_lfree := mem\<rparr> else s1);
         plug_holes mem (s2\<lparr>sm_used := sm_used s2 - (it_next (sm_items s2 mem) - mem)\<rparr>)
       })"

text \<open>
  \<open>rt_smem_realloc\<close>; the pointer that is freed when nothing is left is not checked against the
  heap.
\<close>

definition smem_shrink :: "nat \<Rightarrow> nat \<Rightarrow> nat \<Rightarrow> rt_small_mem \<Rightarrow> rt_small_mem option" where
  "smem_shrink ptr n sz s = (
     let ptr2 = ptr + SIZEOF_STRUCT_MEM + n;
         s1 = smem_split ptr ptr2 (s\<lparr>sm_used := sm_used s - (sz - n)\<rparr>);
         s2 = (if ptr2 < sm_lfree s1 then s1\<lparr>sm_lfree := ptr2\<rparr> else s1)
     in plug_holes ptr2 s2)"

definition smem_copy :: "nat \<Rightarrow> nat \<Rightarrow> nat \<Rightarrow> rt_small_mem \<Rightarrow> rt_small_mem" where
  "smem_copy dst src n s = s\<lparr>sm_data := (\<lambda>i. if dst \<le> i \<and> i < dst + n
     then sm_data s (src + (i - dst)) else sm_data s i)\<rparr>"

definition rt_smem_realloc ::
  "nat option \<Rightarrow> u32 \<Rightarrow> rt_small_mem \<Rightarrow> (nat option \<times> rt_small_mem) option" where
  "rt_smem_realloc rmem newsize s = do {
     rt_assert (sm_type s = Class_Memory);
     rt_assert (sm_static s);
     let newsize = RT_ALIGN newsize RT_ALIGN_SIZE;
     let n = unat newsize;
     (if sm_total s < n then Some (None, s)
      else if n = 0 then do { s1 \<leftarrow> rt_smem_free rmem s; Some (None, s1) }
      else (case rmem of
        None \<Rightarrow> rt_smem_alloc newsize s
      | Some r \<Rightarrow> do {
          rt_assert (r mod 8 = 0);
          rt_assert (r < heap_end s);
          rt_assert (SIZEOF_STRUCT_MEM \<le> r);
          let ptr = r - SIZEOF_STRUCT_MEM;
          let sz = it_next (sm_items s ptr) - ptr - SIZEOF_STRUCT_MEM;
          (if sz = n then Some (rmem, s)
           else if n + SIZEOF_STRUCT_MEM + MIN_SIZE < sz
           then do { s1 \<leftarrow> smem_shrink ptr n sz s; Some (rmem, s1) }
           else do {
             (nmem, s1) \<leftarrow> rt_smem_alloc newsize s;
             (case nmem of
                None \<Rightarrow> Some (None, s1)
              | Some d \<Rightarrow> do {
                  s2 \<leftarrow> rt_smem_free rmem (smem_copy d r (min sz n) s1);
                  Some (nmem, s2)
                })
           })
        }))
   }"


subsection \<open>Chains of headers\<close>

text \<open>
  \<open>seg it p h xs e\<close>: from the header \<open>h\<close>, whose predecessor is \<open>p\<close>, the blocks \<open>xs\<close> follow each
  other up to the offset \<open>e\<close>.
\<close>

fun seg :: "(nat \<Rightarrow> smem_item) \<Rightarrow> nat \<Rightarrow> nat \<Rightarrow> nat list \<Rightarrow> nat \<Rightarrow> bool" where
  "seg it p h [] e \<longleftrightarrow> h = e"
| "seg it p h (x # xs) e \<longleftrightarrow> h = x \<and> it_prev (it x) = p \<and> x + 16 < it_next (it x) \<and> x mod 8 = 0
     \<and> it_pool (it x) \<noteq> None \<and> seg it x (it_next (it x)) xs e"

lemma seg_append:
  "seg it p h (xs @ ys) e \<longleftrightarrow> (\<exists>m. seg it p h xs m \<and> seg it (last (p # xs)) m ys e)"
  by (induction xs arbitrary: p h) auto

lemma seg_le: "seg it p h xs e \<Longrightarrow> h \<le> e"
  by (induction xs arbitrary: p h) fastforce+

lemma seg_bounds: "seg it p h xs e \<Longrightarrow> x \<in> set xs \<Longrightarrow> h \<le> x \<and> x + 16 < it_next (it x) \<and> it_next (it x) \<le> e"
proof (induction xs arbitrary: p h)
  case (Cons a xs)
  then have s: "seg it a (it_next (it a)) xs e" "h = a" "a + 16 < it_next (it a)" by auto
  show ?case
  proof (cases "x = a")
    case True
    then show ?thesis using s seg_le [OF s(1)] by auto
  next
    case False
    then have "it_next (it a) \<le> x" "x + 16 < it_next (it x)" "it_next (it x) \<le> e"
      using Cons.IH [OF s(1)] Cons.prems(2) by auto
    then show ?thesis using s by auto
  qed
qed simp

lemma seg_distinct: "seg it p h xs e \<Longrightarrow> distinct xs"
proof (induction xs arbitrary: p h)
  case (Cons a xs)
  then have "seg it a (it_next (it a)) xs e" "a + 16 \<le> it_next (it a)" by auto
  moreover from this have "a \<notin> set xs" using seg_bounds by fastforce
  ultimately show ?case using Cons.IH by auto
qed simp

lemma seg_end_notin: "seg it p h xs e \<Longrightarrow> e \<notin> set xs"
  using seg_bounds by fastforce

lemma seg_cong:
  assumes "\<And>x. x \<in> set xs \<Longrightarrow> it_next (it' x) = it_next (it x)"
    "\<And>x. x \<in> set xs \<Longrightarrow> it_prev (it' x) = it_prev (it x)"
    "\<And>x. x \<in> set xs \<Longrightarrow> it_pool (it' x) = None \<longleftrightarrow> it_pool (it x) = None"
  shows "seg it' p h xs e = seg it p h xs e"
  using assms by (induction xs arbitrary: p h) auto

lemma seg_mem: "seg it p h xs e \<Longrightarrow> x \<in> set xs \<Longrightarrow> x mod 8 = 0 \<and> it_pool (it x) \<noteq> None"
  by (induction xs arbitrary: p h) auto

lemma seg_end_mod: "seg it p h xs e \<Longrightarrow> e mod 8 = 0 \<Longrightarrow> h mod 8 = 0"
  by (cases xs) auto

text \<open>A block in the middle of a chain, and the same chain seen from the outside.\<close>

lemma seg_middle:
  "seg it p h (xs @ a # ys) e \<longleftrightarrow> seg it p h xs a \<and> it_prev (it a) = last (p # xs)
     \<and> a + 16 < it_next (it a) \<and> a mod 8 = 0 \<and> it_pool (it a) \<noteq> None
     \<and> seg it a (it_next (it a)) ys e"
  by (auto simp: seg_append)

lemma seg_sep:
  assumes "seg it p h (xs @ a # ys) e"
  shows "\<forall>x \<in> set xs. it_next (it x) \<le> a" "\<forall>y \<in> set ys. it_next (it a) \<le> y \<and> it_next (it y) \<le> e"
    "a \<notin> set xs" "a \<notin> set ys" "set xs \<inter> set ys = {}" "e \<notin> set xs" "e \<notin> set ys" "e \<noteq> a"
proof -
  have s: "seg it p h xs a" "seg it a (it_next (it a)) ys e" "a + 16 \<le> it_next (it a)"
    using assms by (simp_all add: seg_middle)
  show "\<forall>x \<in> set xs. it_next (it x) \<le> a" using seg_bounds [OF s(1)] by blast
  show "\<forall>y \<in> set ys. it_next (it a) \<le> y \<and> it_next (it y) \<le> e" using seg_bounds [OF s(2)] by blast
  show "a \<notin> set xs" "a \<notin> set ys" "set xs \<inter> set ys = {}" using seg_distinct [OF assms] by auto
  show "e \<notin> set xs" "e \<notin> set ys" "e \<noteq> a" using seg_end_notin [OF assms] by auto
qed

text \<open>Headers may change their \<open>prev\<close> field where a chain begins.\<close>

lemma seg_upd_outside:
  "q \<notin> set xs \<Longrightarrow> seg (it(q := v)) p h xs e = seg it p h xs e"
  by (rule seg_cong) auto

lemma seg_new_prev:
  assumes "seg it p h ys e" "ys \<noteq> []" "it' = it(h := (it h)\<lparr>it_prev := q\<rparr>)"
  shows "seg it' q h ys e"
proof -
  obtain y zs where ys: "ys = y # zs" using assms(2) by (cases ys) auto
  then have h: "h = y" "y \<notin> set zs" using assms(1) seg_distinct [OF assms(1)] by auto
  then have "seg it' y (it_next (it y)) zs e"
    using assms(1,3) ys by (simp add: seg_upd_outside)
  then show ?thesis using assms(1,3) ys h by simp
qed

subsection \<open>The invariant\<close>

fun coalesced :: "rt_small_mem \<Rightarrow> nat list \<Rightarrow> bool" where
  "coalesced s (a # b # bs) \<longleftrightarrow> (mem_isused s a \<or> mem_isused s b) \<and> coalesced s (b # bs)"
| "coalesced s _ = True"

definition smem_used :: "rt_small_mem \<Rightarrow> nat list \<Rightarrow> nat" where
  "smem_used s bs = sum_list (map (\<lambda>b. it_next (sm_items s b) - b) (filter (mem_isused s) bs))"

definition lfree_ok :: "rt_small_mem \<Rightarrow> nat list \<Rightarrow> bool" where
  "lfree_ok s bs \<longleftrightarrow> sm_lfree s = (case filter (\<lambda>b. \<not> mem_isused s b) bs of
     [] \<Rightarrow> heap_end s | b # _ \<Rightarrow> b)"

definition smem_ok :: "rt_small_mem \<Rightarrow> nat list \<Rightarrow> bool" where
  "smem_ok s bs \<longleftrightarrow> sm_type s = Class_Memory \<and> sm_static s \<and> bs \<noteq> []
     \<and> seg (sm_items s) 0 0 bs (heap_end s) \<and> heap_end s mod 8 = 0
     \<and> it_pool (sm_items s (heap_end s)) = Some True \<and> heap_end s + 16 < 2 ^ 32
     \<and> lfree_ok s bs \<and> coalesced s bs \<and> sm_used s = smem_used s bs"

text \<open>The live allocations: payload offsets with their sizes.\<close>

definition smem_allocs :: "rt_small_mem \<Rightarrow> nat list \<Rightarrow> (nat \<times> nat) set" where
  "smem_allocs s bs = {(b + 16, it_next (sm_items s b) - (b + 16)) | b. b \<in> set bs \<and> mem_isused s b}"

lemma coalesced_append:
  "coalesced s (xs @ a # b # ys) \<longleftrightarrow>
     coalesced s (xs @ [a]) \<and> (mem_isused s a \<or> mem_isused s b) \<and> coalesced s (b # ys)"
proof (induction xs)
  case (Cons x xs)
  then show ?case by (cases xs) auto
qed simp

lemma coalesced_cong:
  "\<forall>x \<in> set xs. mem_isused s' x = mem_isused s x \<Longrightarrow> coalesced s' xs = coalesced s xs"
  by (induction s xs rule: coalesced.induct) auto

text \<open>Live allocations are inside the heap and do not overlap.\<close>

lemma smem_allocs_disjoint:
  assumes ok: "smem_ok s bs" and ab: "(a, m) \<in> smem_allocs s bs" "(b, n) \<in> smem_allocs s bs" "a \<noteq> b"
  shows "a + m \<le> b \<or> b + n \<le> a"
proof -
  obtain x y where x: "x \<in> set bs" "a = x + 16" "m = it_next (sm_items s x) - (x + 16)"
    and y: "y \<in> set bs" "b = y + 16" "n = it_next (sm_items s y) - (y + 16)"
    using ab by (auto simp: smem_allocs_def)
  have sg: "seg (sm_items s) 0 0 bs (heap_end s)" using ok by (simp add: smem_ok_def)
  note bd = seg_bounds [OF sg]
  obtain us vs where bs: "bs = us @ x # vs" using x(1) by (auto simp: in_set_conv_decomp)
  note sep = seg_sep [OF sg [unfolded bs]]
  have "y \<in> set us \<or> y \<in> set vs" using y(1) bs x y ab(3) by auto
  then show ?thesis
  proof
    assume "y \<in> set us"
    then have "it_next (sm_items s y) \<le> x" using sep(1) by blast
    then show ?thesis using x y bd [OF y(1)] by auto
  next
    assume "y \<in> set vs"
    then have "it_next (sm_items s x) \<le> y" using sep(2) by blast
    then show ?thesis using x y bd [OF x(1)] by auto
  qed
qed

lemma smem_allocs_inside:
  assumes ok: "smem_ok s bs" and a: "(a, m) \<in> smem_allocs s bs"
  shows "16 \<le> a \<and> a + m \<le> heap_end s \<and> a mod 8 = 0"
proof -
  obtain x where x: "x \<in> set bs" "a = x + 16" "m = it_next (sm_items s x) - (x + 16)"
    using a by (auto simp: smem_allocs_def)
  have sg: "seg (sm_items s) 0 0 bs (heap_end s)" using ok by (simp add: smem_ok_def)
  have "x mod 8 = 0" using seg_mem [OF sg x(1)] by simp
  then have "a mod 8 = 0" using x(2) by presburger
  then show ?thesis using x seg_bounds [OF sg x(1)] by auto
qed

subsection \<open>The two loops\<close>

lemma smem_search_spec:
  assumes "seg (sm_items s) p h xs (heap_end s)" "n \<le> sm_total s"
  shows "smem_search s n h = Some (find (smem_fits s n) xs)"
  using assms
proof (induction xs arbitrary: p h)
  case Nil
  then show ?case by (subst smem_search.simps) (auto simp: heap_end_def)
next
  case (Cons x xs)
  then have s: "h = x" "x + 16 \<le> it_next (sm_items s x)"
    "seg (sm_items s) x (it_next (sm_items s x)) xs (heap_end s)" by auto
  note IH = Cons.IH [OF s(3) Cons.prems(2)]
  show ?case
  proof (cases "x \<le> sm_total s - n")
    case True
    then show ?thesis using IH s(1) by (subst smem_search.simps) auto
  next
    case False
    have "\<not> smem_fits s n y" if "y \<in> set (x # xs)" for y
    proof -
      have "x \<le> y" "it_next (sm_items s y) \<le> heap_end s" "y + 16 \<le> it_next (sm_items s y)"
        using seg_bounds [OF Cons.prems(1) that] s(1) by auto
      then show ?thesis using False Cons.prems(2) by (auto simp: smem_fits_def heap_end_def)
    qed
    then have "find (smem_fits s n) (x # xs) = None" by (subst find_None_iff) blast
    then show ?thesis using False s(1) by (subst smem_search.simps) simp
  qed
qed

lemma smem_lfree_loop_spec:
  assumes "seg (sm_items s) p h xs (heap_end s)"
  shows "smem_lfree_loop s h = Some (case filter (\<lambda>b. \<not> mem_isused s b) xs of
     [] \<Rightarrow> heap_end s | b # _ \<Rightarrow> b)"
  using assms
proof (induction xs arbitrary: p h)
  case Nil
  then show ?case by (subst smem_lfree_loop.simps) simp
next
  case (Cons x xs)
  then have s: "h = x" "seg (sm_items s) x (it_next (sm_items s x)) xs (heap_end s)" by auto
  have "x \<noteq> heap_end s" using seg_end_notin [OF Cons.prems] by auto
  then show ?case using Cons.IH [OF s(2)] s(1) by (subst smem_lfree_loop.simps) simp
qed


subsection \<open>Cutting a block\<close>

lemma filter_hd:
  assumes "filter P xs = b # bs"
  shows "P b" "b \<in> set xs"
proof -
  have "b \<in> set (filter P xs)" by (simp only: assms list.set_intros(1))
  then show "P b" "b \<in> set xs" by simp_all
qed

lemma coalesced_mono:
  "coalesced s xs \<Longrightarrow> (\<And>x. x \<in> set xs \<Longrightarrow> mem_isused s x \<Longrightarrow> mem_isused s' x) \<Longrightarrow> coalesced s' xs"
  by (induction s xs rule: coalesced.induct) auto

lemma smem_split_sel [simp]:
  "sm_type (smem_split p p2 s) = sm_type s" "sm_static (smem_split p p2 s) = sm_static s"
  "sm_total (smem_split p p2 s) = sm_total s" "heap_end (smem_split p p2 s) = heap_end s"
  "sm_lfree (smem_split p p2 s) = sm_lfree s" "sm_used (smem_split p p2 s) = sm_used s"
  "sm_data (smem_split p p2 s) = sm_data s"
  by (simp_all add: smem_split_def heap_end_def Let_def)

lemma smem_account_sel [simp]:
  "sm_type (smem_account n s) = sm_type s" "sm_static (smem_account n s) = sm_static s"
  "sm_total (smem_account n s) = sm_total s" "heap_end (smem_account n s) = heap_end s"
  "sm_lfree (smem_account n s) = sm_lfree s" "sm_used (smem_account n s) = sm_used s + n"
  "sm_data (smem_account n s) = sm_data s" "sm_items (smem_account n s) = sm_items s"
  "mem_isused (smem_account n s) = mem_isused s"
  by (simp_all add: smem_account_def heap_end_def mem_isused_def fun_eq_iff Let_def)

lemma smem_split_items:
  assumes "p2 \<noteq> p" "p2 \<noteq> it_next (sm_items s p)" "p \<noteq> it_next (sm_items s p)"
  shows "it_pool (sm_items (smem_split p p2 s) x) = (if x = p2 then Some False else it_pool (sm_items s x))"
    "it_next (sm_items (smem_split p p2 s) x) =
       (if x = p then p2 else if x = p2 then it_next (sm_items s p) else it_next (sm_items s x))"
  using assms by (simp_all add: smem_split_def Let_def)

lemma smem_split_seg:
  assumes sg: "seg (sm_items s) 0 0 (us @ p # vs) (heap_end s)"
    and p2: "p + 16 < p2" "p2 + 16 < it_next (sm_items s p)" "p2 mod 8 = 0"
  shows "seg (sm_items (smem_split p p2 s)) 0 0 (us @ p # p2 # vs) (heap_end s)"
proof -
  let ?it = "sm_items s" and ?E = "heap_end s"
  let ?n2 = "it_next (?it p)"
  let ?it' = "sm_items (smem_split p p2 s)"
  have m: "seg ?it 0 0 us p" "it_prev (?it p) = last (0 # us)" "p mod 8 = 0"
    "it_pool (?it p) \<noteq> None" "seg ?it p ?n2 vs ?E"
    using sg by (simp_all add: seg_middle)
  note sep = seg_sep [OF sg]
  have bu: "x < p" if "x \<in> set us" for x using seg_bounds [OF m(1) that] by simp
  have bv: "?n2 \<le> y" if "y \<in> set vs" for y using seg_bounds [OF m(5) that] by simp
  have us': "seg ?it' 0 0 us p"
  proof -
    have "?it' x = ?it x" if "x \<in> set us" for x
      using bu [OF that] p2 by (simp add: smem_split_def Let_def)
    then have "seg ?it' 0 0 us p = seg ?it 0 0 us p" by (intro seg_cong) simp_all
    then show ?thesis using m(1) by simp
  qed
  have vs': "seg ?it' p2 ?n2 vs ?E"
  proof (cases vs)
    case Nil
    then show ?thesis using m(5) by simp
  next
    case (Cons v vs')
    have ne: "?n2 \<noteq> ?E" using m(5) Cons seg_end_notin [OF m(5)] by auto
    let ?it1 = "?it(?n2 := (?it ?n2)\<lparr>it_prev := p2\<rparr>)"
    have "seg ?it1 p2 ?n2 vs ?E" by (rule seg_new_prev [OF m(5)]) (use Cons in simp_all)
    moreover have "?it' x = ?it1 x" if "x \<in> set vs" for x
      using bv [OF that] p2 ne by (auto simp: smem_split_def Let_def)
    then have "seg ?it' p2 ?n2 vs ?E = seg ?it1 p2 ?n2 vs ?E" by (intro seg_cong) simp_all
    ultimately show ?thesis by simp
  qed
  have p': "it_next (?it' p) = p2" "it_prev (?it' p) = it_prev (?it p)" "it_pool (?it' p) = it_pool (?it p)"
    "it_next (?it' p2) = ?n2" "it_prev (?it' p2) = p" "it_pool (?it' p2) = Some False"
    using p2 by (auto simp: smem_split_def Let_def)
  show ?thesis unfolding seg_middle using us' vs' p' m p2 by simp
qed

text \<open>The sums and filters over the list of blocks, when one block changes.\<close>

lemma smem_used_append [simp]: "smem_used s (xs @ ys) = smem_used s xs + smem_used s ys"
  by (simp add: smem_used_def)

lemma smem_used_Cons [simp]:
  "smem_used s (x # xs) = (if mem_isused s x then it_next (sm_items s x) - x else 0) + smem_used s xs"
  by (simp add: smem_used_def)

lemma smem_used_Nil [simp]: "smem_used s [] = 0"
  by (simp add: smem_used_def)

lemma smem_used_cong:
  assumes "\<And>x. x \<in> set xs \<Longrightarrow> mem_isused s' x = mem_isused s x"
    "\<And>x. x \<in> set xs \<Longrightarrow> it_next (sm_items s' x) = it_next (sm_items s x)"
  shows "smem_used s' xs = smem_used s xs"
  using assms by (induction xs) simp_all

lemma smem_allocs_cong:
  assumes "set bs' \<inter> U = set bs \<inter> U"
    "\<And>x. x \<in> set bs' \<Longrightarrow> mem_isused s' x \<Longrightarrow> x \<in> U" "\<And>x. x \<in> set bs \<Longrightarrow> mem_isused s x \<Longrightarrow> x \<in> U"
    "\<And>x. x \<in> U \<Longrightarrow> mem_isused s' x = mem_isused s x"
    "\<And>x. x \<in> U \<Longrightarrow> it_next (sm_items s' x) = it_next (sm_items s x)"
  shows "smem_allocs s' bs' = smem_allocs s bs"
proof -
  have "x \<in> set bs' \<and> mem_isused s' x \<longleftrightarrow> x \<in> set bs \<and> mem_isused s x" for x
    using assms by blast
  moreover have "it_next (sm_items s' x) = it_next (sm_items s x)" if "x \<in> set bs" "mem_isused s x" for x
    using assms(3,5) that by blast
  ultimately show ?thesis unfolding smem_allocs_def by auto
qed

subsection \<open>Allocating\<close>

lemma smem_take_spec:
  assumes ok: "smem_ok s (us @ p # vs)" and fit: "smem_fits s n p" and n: "16 \<le> n" "n mod 8 = 0"
  shows "\<exists>s' ws. smem_take n p s = Some (Some (p + 16), s') \<and> smem_ok s' (us @ p # ws @ vs)
    \<and> mem_isused s' p \<and> p + 16 + n \<le> it_next (sm_items s' p)
    \<and> it_next (sm_items s' p) \<le> it_next (sm_items s p)
    \<and> smem_allocs s' (us @ p # ws @ vs) = insert (p + 16, it_next (sm_items s' p) - (p + 16))
        (smem_allocs s (us @ p # vs)) \<and> sm_data s' = sm_data s \<and> sm_total s' = sm_total s"
proof -
  let ?it = "sm_items s" and ?E = "heap_end s"
  have sg: "seg ?it 0 0 (us @ p # vs) ?E" using ok by (simp add: smem_ok_def)
  note sep = seg_sep [OF sg]
  have free: "\<not> mem_isused s p" and sz: "n \<le> it_next (?it p) - (p + 16)"
    using fit by (simp_all add: smem_fits_def)
  have pb: "p + 16 \<le> it_next (?it p)" "it_next (?it p) \<le> ?E" "p mod 8 = 0"
    using seg_bounds [OF sg, of p] seg_mem [OF sg, of p] by auto
  define split where "split \<longleftrightarrow> n + 16 + 16 \<le> it_next (?it p) - (p + 16)"
  define p2 where "p2 = p + 16 + n"
  define ws where "ws = (if split then [p2] else [])"
  define s1 where "s1 = (if split then smem_account (n + 16) (smem_split p p2 s)
    else smem_account (it_next (?it p) - p) s)"
  define s2 where "s2 = upd_item p (it_pool_update (\<lambda>_. Some True)) s1"
  have p2b: "p + 16 < p2" "p2 mod 8 = 0" using n pb(3) unfolding p2_def by (simp, presburger)
  have p2s: "p2 + 16 < it_next (?it p)" "p2 \<noteq> p" "p2 \<noteq> it_next (?it p)" "p \<noteq> it_next (?it p)" if split
    using that n pb unfolding split_def p2_def by auto
  note si = smem_split_items [OF p2s(2-4)]
  have p2new: "p2 \<notin> set us" "p2 \<notin> set vs" if split
  proof -
    show "p2 \<notin> set us"
    proof
      assume "p2 \<in> set us"
      then have "it_next (?it p2) \<le> p" "p2 + 16 \<le> it_next (?it p2)"
        using sep(1) seg_bounds [OF sg, of p2] by auto
      then show False using p2b(1) by simp
    qed
    show "p2 \<notin> set vs"
    proof
      assume "p2 \<in> set vs"
      then have "it_next (?it p) \<le> p2" using sep(2) by blast
      then show False using p2s(1) [OF that] by simp
    qed
  qed
  have ws': "p \<notin> set ws" using p2s(2) by (auto simp: ws_def)
  have next2: "it_next (sm_items s2 x) = (if x = p then (if split then p2 else it_next (?it p))
      else if split \<and> x = p2 then it_next (?it p) else it_next (?it x))" for x
    using si(2) p2s(2) by (auto simp: s2_def s1_def)
  have pool2: "it_pool (sm_items s2 x) = (if x = p then Some True
      else if split \<and> x = p2 then Some False else it_pool (?it x))" for x
    using si(1) p2s(2) by (simp add: s2_def s1_def)
  have used2: "mem_isused s2 x \<longleftrightarrow> x = p \<or> (\<not> (split \<and> x = p2) \<and> mem_isused s x)" for x
    using pool2 [of x] p2s(2) by (auto simp: mem_isused_def)
  have he2: "heap_end s2 = ?E" by (simp add: s2_def s1_def heap_end_def)
  have seg1: "seg (sm_items s1) 0 0 (us @ p # ws @ vs) ?E"
    using smem_split_seg [OF sg p2b(1) p2s(1) p2b(2)] sg by (simp add: s1_def ws_def)
  have seg2: "seg (sm_items s2) 0 0 (us @ p # ws @ vs) ?E"
  proof -
    have "seg (sm_items s2) 0 0 (us @ p # ws @ vs) ?E = seg (sm_items s1) 0 0 (us @ p # ws @ vs) ?E"
      using seg_mem [OF seg1, of p] by (intro seg_cong) (auto simp: s2_def)
    then show ?thesis using seg1 by simp
  qed
  let ?F = "\<lambda>s. filter (\<lambda>b. \<not> mem_isused s b)"
  have Fus: "?F s2 us = ?F s us"
    using sep(3) p2new(1) by (intro filter_cong refl) (auto simp: used2)
  have lf: "sm_lfree s = (case ?F s us @ p # ?F s vs of [] \<Rightarrow> ?E | b # _ \<Rightarrow> b)"
    using ok free by (simp add: smem_ok_def lfree_ok_def)
  have lf2: "sm_lfree s2 = sm_lfree s" by (simp add: s2_def s1_def)
  have segp: "seg (sm_items s2) (last (0 # us)) p (p # ws @ vs) ?E"
    using seg2 by (simp add: seg_append)
  define s3 where "s3 = (if p = sm_lfree s2 then s2\<lparr>sm_lfree := (case ?F s2 (p # ws @ vs) of
     [] \<Rightarrow> ?E | b # _ \<Rightarrow> b)\<rparr> else s2)"
  have loop: "(if p = sm_lfree s2 then do {
              lfree \<leftarrow> smem_lfree_loop s2 (sm_lfree s2);
              rt_assert (lfree = heap_end s2 \<or> \<not> mem_isused s2 lfree);
              Some (s2\<lparr>sm_lfree := lfree\<rparr>)
            } else Some s2) = Some s3"
  proof (cases "p = sm_lfree s2")
    case True
    let ?l = "case ?F s2 (p # ws @ vs) of [] \<Rightarrow> ?E | b # _ \<Rightarrow> b"
    have "smem_lfree_loop s2 p = Some ?l"
      using smem_lfree_loop_spec [OF segp [folded he2]] unfolding he2 .
    moreover have "?l = heap_end s2 \<or> \<not> mem_isused s2 ?l"
    proof (cases "?F s2 (p # ws @ vs)")
      case Nil
      then show ?thesis using he2 by simp
    next
      case (Cons b bs)
      from filter_hd(1) [OF this] show ?thesis unfolding Cons by simp
    qed
    ultimately show ?thesis using True by (simp add: s3_def)
  qed (simp add: s3_def)
  have same3: "sm_items s3 = sm_items s2" "heap_end s3 = ?E" "sm_used s3 = sm_used s2"
    "sm_type s3 = sm_type s" "sm_static s3 = sm_static s" "sm_data s3 = sm_data s" "sm_total s3 = sm_total s"
    using he2 by (simp_all add: s3_def heap_end_def) (simp_all add: s2_def s1_def)
  have used3: "mem_isused s3 = mem_isused s2" by (simp add: mem_isused_def same3 fun_eq_iff)
  have run: "smem_take n p s = Some (Some (p + 16), s3)"
  proof -
    have "smem_take n p s = do {
       s3 \<leftarrow> (if p = sm_lfree s2 then do {
              lfree \<leftarrow> smem_lfree_loop s2 (sm_lfree s2);
              rt_assert (lfree = heap_end s2 \<or> \<not> mem_isused s2 lfree);
              Some (s2\<lparr>sm_lfree := lfree\<rparr>)
            } else Some s2);
       rt_assert (p + 16 + n \<le> heap_end s3);
       rt_assert (p mod 8 = 0);
       Some (Some (p + 16), s3) }"
      unfolding smem_take_def Let_def s2_def s1_def split_def p2_def by (rule refl)
    then show ?thesis unfolding loop using pb sz by (simp add: same3)
  qed
  have lfree3: "lfree_ok s3 (us @ p # ws @ vs)"
  proof (cases "p = sm_lfree s")
    case True
    have "?F s us = []"
    proof (rule ccontr)
      assume "?F s us \<noteq> []"
      then obtain b bs where "?F s us = b # bs" by (cases "?F s us") auto
      moreover from this have "b \<in> set us" by (rule filter_hd(2))
      ultimately show False using lf True sep(3) by auto
    qed
    then show ?thesis unfolding lfree_ok_def used3 same3(2) using True lf2 Fus by (simp add: s3_def)
  next
    case False
    then obtain b bs where "?F s us = b # bs" using lf by (cases "?F s us") auto
    then show ?thesis unfolding lfree_ok_def used3 same3(2) using False lf lf2 Fus by (simp add: s3_def)
  qed
  have co: "coalesced s (us @ p # vs)" using ok by (simp add: smem_ok_def)
  have vs_used: "mem_isused s2 x" if "x \<in> set vs" "mem_isused s x" for x
    using that p2new(2) by (auto simp: used2)
  have co3: "coalesced s3 (us @ p # ws @ vs)"
  proof -
    have usp: "coalesced s2 (us @ [p])"
    proof (cases vs)
      case Nil
      then have "coalesced s (us @ [p])" using co by simp
      then show ?thesis by (rule coalesced_mono) (use p2new(1) in \<open>auto simp: used2\<close>)
    next
      case (Cons v vs')
      then have "coalesced s (us @ [p])" using co by (simp add: coalesced_append)
      then show ?thesis by (rule coalesced_mono) (use p2new(1) in \<open>auto simp: used2\<close>)
    qed
    have pws: "coalesced s2 (p # ws @ vs)"
    proof (cases vs)
      case Nil
      then show ?thesis by (simp add: ws_def used2)
    next
      case (Cons v vs')
      then have v: "mem_isused s v" "coalesced s vs" using co free by (simp_all add: coalesced_append)
      have "coalesced s2 vs" by (rule coalesced_mono [OF v(2) vs_used])
      moreover have "mem_isused s2 v" using vs_used v(1) Cons by simp
      ultimately show ?thesis using Cons by (auto simp: ws_def used2)
    qed
    have "coalesced s2 (us @ p # ws @ vs)"
      using usp pws by (cases "ws @ vs") (auto simp: coalesced_append)
    then show ?thesis using coalesced_cong [of "us @ p # ws @ vs" s3 s2] by (simp add: used3)
  qed
  have "smem_used s3 us = smem_used s us"
    using p2new(1) sep(3) by (intro smem_used_cong) (auto simp: used3 used2 same3 next2)
  moreover have "smem_used s3 vs = smem_used s vs"
    using p2new(2) sep(4) by (intro smem_used_cong) (auto simp: used3 used2 same3 next2)
  moreover have "smem_used s3 ws = 0" using p2s(2) by (simp add: ws_def used3 used2)
  moreover have "sm_used s3 = sm_used s + (it_next (sm_items s3 p) - p)"
    by (simp add: same3 next2) (simp add: s2_def s1_def p2_def)
  ultimately have us3: "sm_used s3 = smem_used s3 (us @ p # ws @ vs)"
    using ok free by (simp add: smem_ok_def used3 used2)
  have Ep: "it_pool (sm_items s3 ?E) = Some True"
  proof -
    have "?E \<noteq> p2" if split using p2s [OF that] pb by auto
    then show ?thesis using ok sep(8) by (simp add: same3 pool2 smem_ok_def)
  qed
  have ok3: "smem_ok s3 (us @ p # ws @ vs)"
    using ok seg2 lfree3 co3 us3 Ep same3 by (simp add: smem_ok_def)
  have "smem_allocs s3 (us @ p # ws @ vs) = insert (p + 16, it_next (sm_items s3 p) - (p + 16))
        (smem_allocs s (us @ p # vs))"
  proof -
    have "x \<in> set (us @ p # ws @ vs) \<and> mem_isused s3 x \<longleftrightarrow> x = p \<or> x \<in> set (us @ p # vs) \<and> mem_isused s x" for x
      using p2new p2s(2) free by (auto simp: used3 used2 ws_def)
    moreover have "it_next (sm_items s3 x) = it_next (sm_items s x)"
      if "x \<in> set (us @ p # vs)" "mem_isused s x" for x
      using that free p2new by (auto simp: same3 next2)
    ultimately show ?thesis unfolding smem_allocs_def by auto
  qed
  moreover have "p + 16 + n \<le> it_next (sm_items s3 p)" "it_next (sm_items s3 p) \<le> it_next (sm_items s p)"
    using sz pb p2s(1) n by (auto simp: same3 next2 p2_def)
  moreover have "mem_isused s3 p" by (simp add: used3 used2)
  ultimately show ?thesis using run ok3 same3 by blast
qed


subsection \<open>Freeing\<close>

text \<open>The invariant without its demand that no two neighbours are free.\<close>

definition smem_base :: "rt_small_mem \<Rightarrow> nat list \<Rightarrow> bool" where
  "smem_base s bs \<longleftrightarrow> sm_type s = Class_Memory \<and> sm_static s \<and> bs \<noteq> []
     \<and> seg (sm_items s) 0 0 bs (heap_end s) \<and> heap_end s mod 8 = 0
     \<and> it_pool (sm_items s (heap_end s)) = Some True \<and> heap_end s + 16 < 2 ^ 32
     \<and> lfree_ok s bs \<and> sm_used s = smem_used s bs"

lemma smem_ok_base: "smem_ok s bs \<longleftrightarrow> smem_base s bs \<and> coalesced s bs"
  by (auto simp: smem_ok_def smem_base_def)

text \<open>Both halves of \<open>plug_holes\<close> are the join of a block \<open>a\<close> with its successor \<open>b\<close>.\<close>

definition smem_join :: "nat \<Rightarrow> nat \<Rightarrow> rt_small_mem \<Rightarrow> rt_small_mem" where
  "smem_join a b s =
     (let s1 = (if sm_lfree s = b then s\<lparr>sm_lfree := a\<rparr> else s);
          s2 = upd_item b (it_pool_update (\<lambda>_. None)) s1;
          s3 = upd_item a (it_next_update (\<lambda>_. it_next (sm_items s2 b))) s2
      in upd_item (it_next (sm_items s3 b)) (it_prev_update (\<lambda>_. a)) s3)"

lemma plug_next_join:
  "plug_next p s = (let q = it_next (sm_items s p) in
     if p \<noteq> q \<and> \<not> mem_isused s q \<and> q \<noteq> heap_end s then smem_join p q s else s)"
  by (simp add: plug_next_def smem_join_def Let_def)

lemma plug_prev_join:
  "plug_prev p s = (let q = it_prev (sm_items s p) in
     if q \<noteq> p \<and> \<not> mem_isused s q then smem_join q p s else s)"
  by (simp add: plug_prev_def smem_join_def Let_def)

lemma smem_join_sel:
  "sm_type (smem_join a b s) = sm_type s" "sm_static (smem_join a b s) = sm_static s"
  "sm_total (smem_join a b s) = sm_total s" "heap_end (smem_join a b s) = heap_end s"
  "sm_lfree (smem_join a b s) = (if sm_lfree s = b then a else sm_lfree s)"
  "sm_used (smem_join a b s) = sm_used s" "sm_data (smem_join a b s) = sm_data s"
  by (simp_all add: smem_join_def heap_end_def Let_def)

lemma smem_join_items:
  assumes "a \<noteq> b" "it_next (sm_items s b) \<noteq> b"
  shows "it_pool (sm_items (smem_join a b s) x) = (if x = b then None else it_pool (sm_items s x))"
    "it_next (sm_items (smem_join a b s) x) =
       (if x = a then it_next (sm_items s b) else it_next (sm_items s x))"
    "it_prev (sm_items (smem_join a b s) x) =
       (if x = it_next (sm_items s b) then a else it_prev (sm_items s x))"
  using assms by (simp_all add: smem_join_def Let_def)

lemma smem_join_seg:
  assumes sg: "seg (sm_items s) 0 0 (us @ a # b # vs) (heap_end s)"
  shows "seg (sm_items (smem_join a b s)) 0 0 (us @ a # vs) (heap_end s)"
proof -
  let ?it = "sm_items s" and ?E = "heap_end s"
  let ?n = "it_next (?it b)" and ?it' = "sm_items (smem_join a b s)"
  have m: "seg ?it 0 0 us a" "it_prev (?it a) = last (0 # us)" "a mod 8 = 0" "it_next (?it a) = b"
    "it_pool (?it a) \<noteq> None" "seg ?it b ?n vs ?E" "a + 16 \<le> b" "b + 16 \<le> ?n"
    using sg by (simp_all add: seg_middle)
  have ne: "a \<noteq> b" "?n \<noteq> b" using m by auto
  note si = smem_join_items [OF ne]
  have bu: "x < a" if "x \<in> set us" for x using seg_bounds [OF m(1) that] by simp
  have bv: "?n \<le> y" if "y \<in> set vs" for y using seg_bounds [OF m(6) that] by simp
  have us': "seg ?it' 0 0 us a"
  proof -
    have "x \<noteq> a \<and> x \<noteq> b \<and> x \<noteq> ?n" if "x \<in> set us" for x using bu [OF that] m by auto
    then have "seg ?it' 0 0 us a = seg ?it 0 0 us a" by (intro seg_cong) (simp_all add: si)
    then show ?thesis using m(1) by simp
  qed
  have vs': "seg ?it' a ?n vs ?E"
  proof (cases vs)
    case Nil
    then show ?thesis using m(6) by simp
  next
    case (Cons v vs')
    let ?it1 = "?it(?n := (?it ?n)\<lparr>it_prev := a\<rparr>)"
    have "seg ?it1 a ?n vs ?E" by (rule seg_new_prev [OF m(6)]) (use Cons in simp_all)
    moreover have "x \<noteq> a \<and> x \<noteq> b" if "x \<in> set vs" for x using bv [OF that] m by auto
    then have "seg ?it' a ?n vs ?E = seg ?it1 a ?n vs ?E" by (intro seg_cong) (simp_all add: si)
    ultimately show ?thesis by simp
  qed
  have p': "it_next (?it' a) = ?n" "it_prev (?it' a) = it_prev (?it a)" "it_pool (?it' a) = it_pool (?it a)"
    using m by (auto simp: si)
  show ?thesis unfolding seg_middle using us' vs' p' m by simp
qed

lemma smem_join_base:
  assumes base: "smem_base s (us @ a # b # vs)" and free: "\<not> mem_isused s a" "\<not> mem_isused s b"
  shows "smem_base (smem_join a b s) (us @ a # vs)"
    and "mem_isused (smem_join a b s) = mem_isused s"
    and "smem_allocs (smem_join a b s) (us @ a # vs) = smem_allocs s (us @ a # b # vs)"
proof -
  let ?s = "smem_join a b s"
  have sg: "seg (sm_items s) 0 0 (us @ a # b # vs) (heap_end s)" using base by (simp add: smem_base_def)
  have ne: "a \<noteq> b" "it_next (sm_items s b) \<noteq> b" using sg by (auto simp: seg_middle)
  have nin: "a \<notin> set us" "a \<notin> set vs" "b \<notin> set us" "b \<notin> set vs"
    using seg_distinct [OF sg] by auto
  note si = smem_join_items [OF ne] and sel = smem_join_sel
  show used: "mem_isused ?s = mem_isused s"
    using free(2) by (auto simp: mem_isused_def si fun_eq_iff)
  have hE: "heap_end s \<noteq> b" using seg_end_notin [OF sg] by auto
  have "smem_used ?s us = smem_used s us" "smem_used ?s vs = smem_used s vs"
    using nin by (auto intro!: smem_used_cong simp: used si)
  then have "smem_used ?s (us @ a # vs) = smem_used s (us @ a # b # vs)"
    using free by (simp add: used)
  moreover have "lfree_ok ?s (us @ a # vs)"
  proof (cases "filter (\<lambda>b. \<not> mem_isused s b) us")
    case Nil
    then show ?thesis using base free ne by (simp add: smem_base_def lfree_ok_def used sel)
  next
    case (Cons c cs)
    from filter_hd [OF Cons] have "c \<noteq> b" using nin by auto
    then show ?thesis using base free Cons by (simp add: smem_base_def lfree_ok_def used sel)
  qed
  ultimately show "smem_base ?s (us @ a # vs)"
    using base smem_join_seg [OF sg] hE by (simp add: smem_base_def sel si(1))
  have "x \<in> set (us @ a # vs) \<and> mem_isused s x \<longleftrightarrow> x \<in> set (us @ a # b # vs) \<and> mem_isused s x" for x
    using free by auto
  moreover have "it_next (sm_items ?s x) = it_next (sm_items s x)" if "mem_isused s x" for x
    using that free by (auto simp: si)
  ultimately show "smem_allocs ?s (us @ a # vs) = smem_allocs s (us @ a # b # vs)"
    unfolding smem_allocs_def used by auto
qed

lemma plug_next_spec:
  assumes base: "smem_base s (us @ p # vs)" and free: "\<not> mem_isused s p"
    and co: "coalesced s vs"
  shows "\<exists>ws. smem_base (plug_next p s) (us @ p # ws) \<and> mem_isused (plug_next p s) = mem_isused s
    \<and> coalesced (plug_next p s) (p # ws) \<and> heap_end (plug_next p s) = heap_end s
    \<and> sm_data (plug_next p s) = sm_data s \<and> sm_total (plug_next p s) = sm_total s
    \<and> smem_allocs (plug_next p s) (us @ p # ws) = smem_allocs s (us @ p # vs)"
proof (cases vs)
  case Nil
  then have "it_next (sm_items s p) = heap_end s" using base by (simp add: smem_base_def seg_middle)
  then show ?thesis using base Nil by (intro exI [of _ "[]"]) (simp add: plug_next_join)
next
  case (Cons v ws)
  have sg: "seg (sm_items s) 0 0 (us @ p # v # ws) (heap_end s)"
    using base Cons by (simp add: smem_base_def)
  have nx: "it_next (sm_items s p) = v" "p \<noteq> v" using sg by (auto simp: seg_middle)
  have vE: "v \<noteq> heap_end s" using seg_end_notin [OF sg] by auto
  show ?thesis
  proof (cases "mem_isused s v")
    case True
    then have "plug_next p s = s" using nx by (simp add: plug_next_join)
    then show ?thesis using base co Cons True by (intro exI [of _ vs]) simp
  next
    case False
    then have e: "plug_next p s = smem_join p v s" using nx vE by (simp add: plug_next_join)
    note j = smem_join_base [OF base [unfolded Cons] free False]
    have "coalesced s (p # ws)" using co Cons False by (cases ws) auto
    then have "coalesced (smem_join p v s) (p # ws)" by (rule coalesced_mono) (simp add: j(2))
    then show ?thesis unfolding e using j Cons by (intro exI [of _ ws]) (simp add: smem_join_sel)
  qed
qed

lemma plug_prev_spec:
  assumes base: "smem_base s (us @ p # ws)" and free: "\<not> mem_isused s p"
    and co: "coalesced s us" "coalesced s (p # ws)"
  shows "\<exists>bs. smem_ok (plug_prev p s) bs \<and> heap_end (plug_prev p s) = heap_end s
    \<and> mem_isused (plug_prev p s) = mem_isused s
    \<and> sm_data (plug_prev p s) = sm_data s \<and> sm_total (plug_prev p s) = sm_total s
    \<and> smem_allocs (plug_prev p s) bs = smem_allocs s (us @ p # ws)"
proof (cases us rule: rev_cases)
  case Nil
  then have "it_prev (sm_items s p) = 0" "p = 0" using base by (auto simp: smem_base_def)
  then have "plug_prev p s = s" by (simp add: plug_prev_join)
  then show ?thesis using base co Nil by (intro exI [of _ "us @ p # ws"]) (simp add: smem_ok_base)
next
  case (snoc ts t)
  have sg: "seg (sm_items s) 0 0 (ts @ t # p # ws) (heap_end s)"
    using base snoc by (simp add: smem_base_def)
  have pv: "it_prev (sm_items s p) = t" "p \<noteq> t" using sg by (auto simp: seg_middle)
  show ?thesis
  proof (cases "mem_isused s t")
    case True
    then have "plug_prev p s = s" using pv by (simp add: plug_prev_join)
    moreover have "coalesced s (us @ p # ws)" using co True snoc by (simp add: coalesced_append)
    ultimately show ?thesis using base by (intro exI [of _ "us @ p # ws"]) (simp add: smem_ok_base)
  next
    case False
    then have e: "plug_prev p s = smem_join t p s" using pv by (simp add: plug_prev_join)
    have base': "smem_base s (ts @ t # p # ws)" using base snoc by simp
    note j = smem_join_base [OF base' False free]
    have "coalesced s (ts @ t # ws)"
      using co snoc free False by (cases ws) (auto simp: coalesced_append)
    then have "coalesced (smem_join t p s) (ts @ t # ws)" by (rule coalesced_mono) (simp add: j(2))
    then show ?thesis unfolding e using j snoc
      by (intro exI [of _ "ts @ t # ws"]) (simp add: smem_join_sel smem_ok_base)
  qed
qed

lemma plug_holes_spec:
  assumes base: "smem_base s (us @ p # vs)" and free: "\<not> mem_isused s p"
    and co: "coalesced s us" "coalesced s vs"
  shows "\<exists>s' bs. plug_holes p s = Some s' \<and> smem_ok s' bs \<and> heap_end s' = heap_end s
    \<and> mem_isused s' = mem_isused s
    \<and> sm_data s' = sm_data s \<and> sm_total s' = sm_total s \<and> smem_allocs s' bs = smem_allocs s (us @ p # vs)"
proof -
  obtain ws where w: "smem_base (plug_next p s) (us @ p # ws)" "mem_isused (plug_next p s) = mem_isused s"
    "coalesced (plug_next p s) (p # ws)" "heap_end (plug_next p s) = heap_end s"
    "sm_data (plug_next p s) = sm_data s" "sm_total (plug_next p s) = sm_total s"
    "smem_allocs (plug_next p s) (us @ p # ws) = smem_allocs s (us @ p # vs)"
    using plug_next_spec [OF base free co(2)] by blast
  have "coalesced (plug_next p s) us" by (rule coalesced_mono [OF co(1)]) (simp add: w(2))
  from plug_prev_spec [OF w(1) _ this w(3)] obtain bs where
    "smem_ok (plug_prev p (plug_next p s)) bs" "heap_end (plug_prev p (plug_next p s)) = heap_end s"
    "mem_isused (plug_prev p (plug_next p s)) = mem_isused s"
    "sm_data (plug_prev p (plug_next p s)) = sm_data s"
    "sm_total (plug_prev p (plug_next p s)) = sm_total s"
    "smem_allocs (plug_prev p (plug_next p s)) bs = smem_allocs s (us @ p # vs)"
    using free w by auto
  moreover have "p < heap_end s"
  proof -
    have sg: "seg (sm_items s) 0 0 (us @ p # vs) (heap_end s)" using base by (simp add: smem_base_def)
    show ?thesis using seg_bounds [OF sg, of p] by simp
  qed
  ultimately show ?thesis unfolding plug_holes_def by auto
qed


lemma smem_free_spec:
  assumes ok: "smem_ok s (us @ p # vs)" and used: "mem_isused s p"
  shows "\<exists>s' bs. rt_smem_free (Some (p + 16)) s = Some s' \<and> smem_ok s' bs \<and> heap_end s' = heap_end s
    \<and> mem_isused s' p = False
    \<and> sm_data s' = sm_data s \<and> sm_total s' = sm_total s
    \<and> smem_allocs s' bs = smem_allocs s (us @ p # vs) - {(p + 16, it_next (sm_items s p) - (p + 16))}"
proof -
  let ?it = "sm_items s" and ?E = "heap_end s"
  define s1 where "s1 = upd_item p (it_pool_update (\<lambda>_. Some False)) s"
  define s2 where "s2 = (if p < sm_lfree s1 then s1\<lparr>sm_lfree := p\<rparr> else s1)"
  define s3 where "s3 = s2\<lparr>sm_used := sm_used s2 - (it_next (sm_items s2 p) - p)\<rparr>"
  have sg: "seg ?it 0 0 (us @ p # vs) ?E" using ok by (simp add: smem_ok_def)
  note sep = seg_sep [OF sg]
  have pb: "p + 16 < it_next (?it p)" "it_next (?it p) \<le> ?E" "p mod 8 = 0"
    using seg_bounds [OF sg, of p] seg_mem [OF sg, of p] by auto
  have nx: "it_pool (?it (it_next (?it p))) \<noteq> None"
    using sg ok by (cases vs) (auto simp: seg_middle smem_ok_def)
  have pool3: "it_pool (sm_items s3 x) = (if x = p then Some False else it_pool (?it x))"
    and next3: "it_next (sm_items s3 x) = it_next (?it x)"
    and prev3: "it_prev (sm_items s3 x) = it_prev (?it x)" for x
    by (simp_all add: s3_def s2_def s1_def)
  have sel3: "heap_end s3 = ?E" "sm_type s3 = sm_type s" "sm_static s3 = sm_static s"
    "sm_data s3 = sm_data s" "sm_total s3 = sm_total s"
    "sm_used s3 = sm_used s - (it_next (?it p) - p)" "sm_lfree s3 = min p (sm_lfree s)"
    by (simp_all add: s3_def s2_def s1_def heap_end_def)
  have used3: "mem_isused s3 x \<longleftrightarrow> x \<noteq> p \<and> mem_isused s x" for x
    by (simp add: mem_isused_def pool3)
  have run: "rt_smem_free (Some (p + 16)) s = plug_holes p s3"
  proof -
    have "(p + 16) mod 8 = 0" using pb(3) by presburger
    moreover have "it_pool (?it p) \<noteq> None" using used by (simp add: mem_isused_def)
    ultimately show ?thesis unfolding rt_smem_free_def s3_def s2_def s1_def
      using ok used nx pb by (simp add: Let_def smem_ok_def)
  qed
  have "seg (sm_items s3) 0 0 (us @ p # vs) ?E = seg ?it 0 0 (us @ p # vs) ?E"
    using seg_mem [OF sg, of p] by (intro seg_cong) (auto simp: pool3 next3 prev3)
  then have seg3: "seg (sm_items s3) 0 0 (us @ p # vs) ?E" using sg by simp
  let ?F = "\<lambda>s. filter (\<lambda>b. \<not> mem_isused s b)"
  have F: "?F s3 us = ?F s us" using sep(3) by (intro filter_cong refl) (auto simp: used3)
  have lf: "sm_lfree s = (case ?F s us @ ?F s vs of [] \<Rightarrow> ?E | b # _ \<Rightarrow> b)"
    using ok used by (simp add: smem_ok_def lfree_ok_def)
  have lfree3: "lfree_ok s3 (us @ p # vs)"
  proof (cases "?F s us")
    case Nil
    have "p \<le> sm_lfree s"
    proof (cases "?F s vs")
      case Nil
      then show ?thesis using lf \<open>?F s us = []\<close> pb by simp
    next
      case (Cons b bs)
      from filter_hd(2) [OF this] have "it_next (?it p) \<le> b" using sep(2) by blast
      then show ?thesis using lf \<open>?F s us = []\<close> Cons pb by simp
    qed
    then show ?thesis using Nil F by (simp add: lfree_ok_def used3 sel3)
  next
    case (Cons b bs)
    from filter_hd(2) [OF this] have "b \<in> set us" .
    then have "it_next (?it b) \<le> p" "b + 16 \<le> it_next (?it b)"
      using sep(1) seg_bounds [OF sg, of b] by auto
    then show ?thesis using Cons F lf by (simp add: lfree_ok_def sel3)
  qed
  have "smem_used s3 us = smem_used s us" "smem_used s3 vs = smem_used s vs"
    using sep(3,4) by (auto intro!: smem_used_cong simp: used3 next3)
  then have "sm_used s3 = smem_used s3 (us @ p # vs)"
    using ok used by (simp add: smem_ok_def sel3 used3)
  then have base: "smem_base s3 (us @ p # vs)"
    using ok seg3 lfree3 sep(8) by (simp add: smem_base_def smem_ok_def sel3 pool3)
  have co: "coalesced s us" "coalesced s vs"
    using ok by (cases us rule: rev_cases; cases vs; auto simp: smem_ok_def coalesced_append)+
  have "coalesced s3 us" by (rule coalesced_mono [OF co(1)]) (use sep(3) in \<open>auto simp: used3\<close>)
  moreover have "coalesced s3 vs" by (rule coalesced_mono [OF co(2)]) (use sep(4) in \<open>auto simp: used3\<close>)
  ultimately obtain s' bs where "plug_holes p s3 = Some s'" "smem_ok s' bs" "heap_end s' = ?E"
    "mem_isused s' = mem_isused s3"
    "sm_data s' = sm_data s" "sm_total s' = sm_total s" "smem_allocs s' bs = smem_allocs s3 (us @ p # vs)"
    using plug_holes_spec [OF base] used3 sel3 by force
  moreover have "smem_allocs s3 (us @ p # vs) =
      smem_allocs s (us @ p # vs) - {(p + 16, it_next (?it p) - (p + 16))}"
    unfolding smem_allocs_def used3 next3 by auto
  ultimately show ?thesis using run used3 by auto
qed

subsection \<open>The blocks of a heap\<close>

text \<open>The chain read off the state; the invariant and the live allocations as functions of it.\<close>

fun smem_walk :: "nat \<Rightarrow> rt_small_mem \<Rightarrow> nat \<Rightarrow> nat list" where
  "smem_walk 0 s h = []"
| "smem_walk (Suc k) s h = (if h = heap_end s then [] else h # smem_walk k s (it_next (sm_items s h)))"

definition smem_blocks :: "rt_small_mem \<Rightarrow> nat list" where
  "smem_blocks s = smem_walk (heap_end s) s 0"

definition smem_inv :: "rt_small_mem \<Rightarrow> bool" where
  "smem_inv s \<longleftrightarrow> smem_ok s (smem_blocks s)"

definition smem_live :: "rt_small_mem \<Rightarrow> (nat \<times> nat) set" where
  "smem_live s = smem_allocs s (smem_blocks s)"

lemma smem_walk_seg:
  "seg (sm_items s) p h bs (heap_end s) \<Longrightarrow> heap_end s - h \<le> k \<Longrightarrow> smem_walk k s h = bs"
proof (induction bs arbitrary: p h k)
  case Nil
  then show ?case by (cases k) auto
next
  case (Cons b bs)
  then have s: "h = b" "b + 16 \<le> it_next (sm_items s b)"
    "seg (sm_items s) b (it_next (sm_items s b)) bs (heap_end s)" by auto
  from seg_le [OF s(3)] have "it_next (sm_items s b) \<le> heap_end s" .
  then obtain j where "k = Suc j" "heap_end s - it_next (sm_items s b) \<le> j" "h \<noteq> heap_end s"
    using Cons.prems(2) s by (cases k) auto
  then show ?case using Cons.IH [OF s(3)] s(1) by simp
qed

lemma smem_ok_blocks: "smem_ok s bs \<Longrightarrow> smem_blocks s = bs"
  by (auto simp: smem_ok_def smem_blocks_def intro: smem_walk_seg)

lemma smem_ok_inv: "smem_ok s bs \<Longrightarrow> smem_inv s \<and> smem_live s = smem_allocs s bs"
  by (simp add: smem_inv_def smem_live_def smem_ok_blocks)

lemma smem_live_disjoint:
  assumes "smem_inv s" "(a, m) \<in> smem_live s" "(b, n) \<in> smem_live s" "a \<noteq> b"
  shows "a + m \<le> b \<or> b + n \<le> a"
  using assms smem_allocs_disjoint unfolding smem_inv_def smem_live_def by blast

lemma smem_live_inside:
  "smem_inv s \<Longrightarrow> (a, m) \<in> smem_live s \<Longrightarrow> 16 \<le> a \<and> a + m \<le> heap_end s \<and> a mod 8 = 0"
  using smem_allocs_inside unfolding smem_inv_def smem_live_def by blast

lemma smem_live_functional:
  "(a, m) \<in> smem_live s \<Longrightarrow> (a, n) \<in> smem_live s \<Longrightarrow> m = n"
  by (auto simp: smem_live_def smem_allocs_def)


subsection \<open>The contract of an allocator\<close>

text \<open>
  What \<open>rt_malloc\<close>, \<open>rt_free\<close> and their callers expect of the heap: \<open>live\<close> are the allocations
  in use, as offsets with their sizes; they never overlap.
\<close>

locale allocator =
  fixes inv :: "'s \<Rightarrow> bool" and live :: "'s \<Rightarrow> (nat \<times> nat) set"
    and alloc :: "u32 \<Rightarrow> 's \<Rightarrow> (nat option \<times> 's) option"
    and free :: "nat option \<Rightarrow> 's \<Rightarrow> 's option"
    and request :: "u32 \<Rightarrow> nat"
  assumes disjoint: "inv s \<Longrightarrow> (a, m) \<in> live s \<Longrightarrow> (b, n) \<in> live s \<Longrightarrow> a \<noteq> b \<Longrightarrow> a + m \<le> b \<or> b + n \<le> a"
    and alloc_ok: "inv s \<Longrightarrow> \<exists>r s'. alloc sz s = Some (r, s') \<and> inv s' \<and> (case r of None \<Rightarrow> s' = s
      | Some a \<Rightarrow> \<exists>m \<ge> request sz. a \<notin> fst ` live s \<and> live s' = insert (a, m) (live s))"
    and free_ok: "inv s \<Longrightarrow> (a, m) \<in> live s \<Longrightarrow>
      \<exists>s'. free (Some a) s = Some s' \<and> inv s' \<and> live s' = live s - {(a, m)}"
begin

lemma alloc_keeps:
  assumes "inv s" "alloc sz s = Some (r, s')"
  shows "inv s'" "live s \<subseteq> live s'"
  using alloc_ok [OF assms(1), of sz] assms(2) by (auto split: option.splits)

lemma alloc_fresh:
  assumes inv: "inv s" and run: "alloc sz s = Some (Some a, s')"
  shows "\<exists>m \<ge> request sz. (a, m) \<in> live s' \<and> (\<forall>(b, n) \<in> live s. a + m \<le> b \<or> b + n \<le> a)"
proof -
  obtain m where m: "request sz \<le> m" "a \<notin> fst ` live s" "live s' = insert (a, m) (live s)" "inv s'"
    using alloc_ok [OF inv, of sz] run by auto
  have "a + m \<le> b \<or> b + n \<le> a" if "(b, n) \<in> live s" for b n
  proof -
    have "a \<noteq> b" using m(2) that by force
    then show ?thesis using disjoint [OF m(4), of a m b n] m(3) that by simp
  qed
  then show ?thesis using m by auto
qed

lemma alloc_free:
  assumes inv: "inv s" and run: "alloc sz s = Some (Some a, s')"
  shows "\<exists>s''. free (Some a) s' = Some s'' \<and> inv s'' \<and> live s'' = live s"
proof -
  obtain m where m: "a \<notin> fst ` live s" "live s' = insert (a, m) (live s)" "inv s'"
    using alloc_ok [OF inv, of sz] run by auto
  then obtain s'' where "free (Some a) s' = Some s''" "inv s''" "live s'' = live s' - {(a, m)}"
    using free_ok [OF m(3), of a m] by auto
  moreover have "(a, m) \<notin> live s" using m(1) by force
  ultimately show ?thesis using m(2) by auto
qed

text \<open>Moving a block: allocate the new one, then free the old one.\<close>

lemma alloc_then_free:
  assumes inv: "inv s" and run: "alloc sz s = Some (Some a, s')" and old: "(b, n) \<in> live s"
  shows "\<exists>s'' m. free (Some b) s' = Some s'' \<and> inv s'' \<and> request sz \<le> m
    \<and> live s'' = insert (a, m) (live s - {(b, n)})"
proof -
  obtain m where m: "request sz \<le> m" "a \<notin> fst ` live s" "live s' = insert (a, m) (live s)" "inv s'"
    using alloc_ok [OF inv, of sz] run by auto
  then obtain s'' where "free (Some b) s' = Some s''" "inv s''" "live s'' = live s' - {(b, n)}"
    using free_ok [OF m(4), of b n] old by auto
  moreover have "a \<noteq> b" using m(2) old by force
  ultimately show ?thesis using m by auto
qed

end

subsection \<open>The small memory allocator keeps the contract\<close>

lemma smem_request_bounds:
  "16 \<le> unat (smem_request sz)" "unat (smem_request sz) mod 8 = 0"
  "unat sz \<le> 0xfffffff8 \<Longrightarrow> unat sz \<le> unat (smem_request sz)"
proof -
  have r: "unat (smem_request sz) = max 16 ((unat sz + 7) mod 2 ^ 32 div 8 * 8)"
    by (simp add: smem_request_def Let_def word_less_nat_alt unat_RT_ALIGN_8)
  show "16 \<le> unat (smem_request sz)" unfolding r by simp
  show "unat (smem_request sz) mod 8 = 0" unfolding r by (simp add: max_def)
  assume "unat sz \<le> 0xfffffff8"
  then have "(unat sz + 7) mod 2 ^ 32 = unat sz + 7" by simp
  then show "unat sz \<le> unat (smem_request sz)" unfolding r by simp
qed

lemma smem_alloc_spec:
  assumes ok: "smem_inv s"
  shows "\<exists>r s'. rt_smem_alloc sz s = Some (r, s') \<and> smem_inv s' \<and> sm_data s' = sm_data s
    \<and> sm_total s' = sm_total s
    \<and> (case r of
         None \<Rightarrow> s' = s \<and> (sz = 0 \<or> (\<forall>b \<in> set (smem_blocks s). \<not> smem_fits s (unat (smem_request sz)) b))
       | Some a \<Rightarrow> sz \<noteq> 0 \<and> a \<notin> fst ` smem_live s
           \<and> (\<exists>m \<ge> unat (smem_request sz). smem_live s' = insert (a, m) (smem_live s)))"
proof (cases "sz = 0")
  case True
  then show ?thesis using ok by (simp add: rt_smem_alloc_def)
next
  case False
  define bs where "bs = smem_blocks s"
  define n where "n = unat (smem_request sz)"
  have n: "16 \<le> n" "n mod 8 = 0" using smem_request_bounds by (simp_all add: n_def)
  have inv: "smem_ok s bs" using ok by (simp add: smem_inv_def bs_def)
  then have sg: "seg (sm_items s) 0 0 bs (heap_end s)" "sm_type s = Class_Memory" "sm_static s"
    by (simp_all add: smem_ok_def)
  show ?thesis
  proof (cases "sm_total s < n")
    case True
    have "\<not> smem_fits s n b" if "b \<in> set bs" for b
      using seg_bounds [OF sg(1) that] True by (auto simp: smem_fits_def heap_end_def)
    then show ?thesis using True False ok sg by (simp add: rt_smem_alloc_def n_def bs_def Let_def)
  next
    case le: False
    obtain us vs where split: "bs = us @ vs" "\<forall>b \<in> set us. mem_isused s b"
      "seg (sm_items s) (last (0 # us)) (sm_lfree s) vs (heap_end s)"
    proof (cases "filter (\<lambda>b. \<not> mem_isused s b) bs")
      case Nil
      then have "\<forall>b \<in> set bs. mem_isused s b" "sm_lfree s = heap_end s"
        using inv by (auto simp: smem_ok_def lfree_ok_def filter_empty_conv)
      then show ?thesis using that [of bs "[]"] by simp
    next
      case (Cons b cs)
      from Cons_eq_filterD [OF Cons [symmetric]] obtain us vs where
        u: "bs = us @ b # vs" "\<forall>c \<in> set us. mem_isused s c" by auto
      moreover have "sm_lfree s = b" using inv Cons by (simp add: smem_ok_def lfree_ok_def)
      ultimately show ?thesis using that [of us "b # vs"] sg(1) by (auto simp: seg_append)
    qed
    have search: "smem_search s n (sm_lfree s) = Some (find (smem_fits s n) vs)"
      using le by (intro smem_search_spec [OF split(3)]) simp
    have run: "rt_smem_alloc sz s = (case find (smem_fits s n) vs of None \<Rightarrow> Some (None, s)
        | Some p \<Rightarrow> smem_take n p s)"
      using False le sg search by (simp add: rt_smem_alloc_def n_def [symmetric] Let_def)
    show ?thesis
    proof (cases "find (smem_fits s n) vs")
      case None
      then have "\<not> smem_fits s n b" if "b \<in> set bs" for b
        using that split by (auto simp: find_None_iff smem_fits_def)
      then show ?thesis using run None ok by (simp add: n_def bs_def)
    next
      case (Some p)
      then obtain ts ws where p: "vs = ts @ p # ws" "smem_fits s n p"
        by (auto simp: find_Some_iff in_set_conv_decomp) (metis id_take_nth_drop)
      have "smem_ok s ((us @ ts) @ p # ws)" using inv split p by simp
      from smem_take_spec [OF this p(2) n] obtain s' xs where
        s': "smem_take n p s = Some (Some (p + 16), s')" "smem_ok s' ((us @ ts) @ p # xs @ ws)"
        "p + 16 + n \<le> it_next (sm_items s' p)" "sm_data s' = sm_data s" "sm_total s' = sm_total s"
        "smem_allocs s' ((us @ ts) @ p # xs @ ws) =
           insert (p + 16, it_next (sm_items s' p) - (p + 16)) (smem_allocs s ((us @ ts) @ p # ws))"
        by blast
      have live: "smem_live s = smem_allocs s ((us @ ts) @ p # ws)"
        using split p by (simp add: smem_live_def bs_def [symmetric])
      moreover have "p + 16 \<notin> fst ` smem_live s"
        using p(2) by (auto simp: smem_live_def smem_allocs_def smem_fits_def)
      ultimately show ?thesis using run Some s' smem_ok_inv [OF s'(2)] False
        by (intro exI [of _ "Some (p + 16)"] exI [of _ s'])
          (auto simp: n_def intro!: exI [of _ "it_next (sm_items s' p) - (p + 16)"])
    qed
  qed
qed

lemma smem_free_live:
  assumes "smem_inv s" "(a, m) \<in> smem_live s"
  shows "\<exists>s'. rt_smem_free (Some a) s = Some s' \<and> smem_inv s' \<and> smem_live s' = smem_live s - {(a, m)}
    \<and> sm_data s' = sm_data s \<and> sm_total s' = sm_total s \<and> mem_isused s' (a - 16) = False"
proof -
  obtain p where p: "p \<in> set (smem_blocks s)" "mem_isused s p" "a = p + 16"
    "m = it_next (sm_items s p) - (p + 16)"
    using assms(2) by (auto simp: smem_live_def smem_allocs_def)
  then obtain us vs where bs: "smem_blocks s = us @ p # vs" by (auto simp: in_set_conv_decomp)
  have ok: "smem_ok s (us @ p # vs)" using assms(1) bs by (simp add: smem_inv_def)
  show ?thesis using smem_free_spec [OF ok p(2)] p smem_ok_inv smem_ok_inv [OF ok] by auto
qed

interpretation smem: allocator smem_inv smem_live rt_smem_alloc rt_smem_free "\<lambda>sz. unat (smem_request sz)"
proof unfold_locales
  fix s a m b n
  show "smem_inv s \<Longrightarrow> (a, m) \<in> smem_live s \<Longrightarrow> (b, n) \<in> smem_live s \<Longrightarrow> a \<noteq> b \<Longrightarrow> a + m \<le> b \<or> b + n \<le> a"
    by (rule smem_live_disjoint)
next
  fix s sz
  assume "smem_inv s"
  from smem_alloc_spec [OF this, of sz] obtain r s' where "rt_smem_alloc sz s = Some (r, s')" "smem_inv s'"
    "case r of None \<Rightarrow> s' = s | Some a \<Rightarrow> \<exists>m \<ge> unat (smem_request sz). a \<notin> fst ` smem_live s
       \<and> smem_live s' = insert (a, m) (smem_live s)"
    by (auto split: option.splits)
  then show "\<exists>r s'. rt_smem_alloc sz s = Some (r, s') \<and> smem_inv s' \<and> (case r of None \<Rightarrow> s' = s
      | Some a \<Rightarrow> \<exists>m \<ge> unat (smem_request sz). a \<notin> fst ` smem_live s \<and> smem_live s' = insert (a, m) (smem_live s))"
    by (auto split: option.splits)
next
  fix s a m
  assume "smem_inv s" "(a, m) \<in> smem_live s"
  from smem_free_live [OF this]
  show "\<exists>s'. rt_smem_free (Some a) s = Some s' \<and> smem_inv s' \<and> smem_live s' = smem_live s - {(a, m)}"
    by blast
qed


subsection \<open>Reallocating\<close>

lemma smem_shrink_spec:
  assumes ok: "smem_ok s (us @ p # vs)" and used: "mem_isused s p"
    and sz: "sz = it_next (sm_items s p) - p - 16" and n: "n + 28 < sz" "0 < n" "n mod 8 = 0"
  shows "\<exists>s' bs. smem_shrink p n sz s = Some s' \<and> smem_ok s' bs \<and> heap_end s' = heap_end s
    \<and> sm_data s' = sm_data s \<and> sm_total s' = sm_total s
    \<and> smem_allocs s' bs = insert (p + 16, n) (smem_allocs s (us @ p # vs) - {(p + 16, sz)})"
proof -
  let ?it = "sm_items s" and ?E = "heap_end s"
  define p2 where "p2 = p + 16 + n"
  define s1 where "s1 = smem_split p p2 (s\<lparr>sm_used := sm_used s - (sz - n)\<rparr>)"
  define s2 where "s2 = (if p2 < sm_lfree s1 then s1\<lparr>sm_lfree := p2\<rparr> else s1)"
  have run: "smem_shrink p n sz s = plug_holes p2 s2"
    by (simp add: smem_shrink_def Let_def s2_def s1_def p2_def)
  have sg: "seg ?it 0 0 (us @ p # vs) ?E" using ok by (simp add: smem_ok_def)
  note sep = seg_sep [OF sg]
  have pb: "p + 16 < it_next (?it p)" "it_next (?it p) \<le> ?E" "p mod 8 = 0"
    using seg_bounds [OF sg, of p] seg_mem [OF sg, of p] by auto
  have p2b: "p + 16 < p2" "p2 + 16 < it_next (?it p)" "p2 mod 8 = 0"
    using n sz pb unfolding p2_def by (simp, simp, presburger)
  have ne: "p2 \<noteq> p" "p2 \<noteq> it_next (?it p)" "p \<noteq> it_next (?it p)" using p2b by auto
  let ?s0 = "s\<lparr>sm_used := sm_used s - (sz - n)\<rparr>"
  have he: "heap_end (s\<lparr>sm_used := u\<rparr>) = ?E" for u by (simp add: heap_end_def)
  have si: "it_pool (sm_items s2 x) = (if x = p2 then Some False else it_pool (?it x))"
    "it_next (sm_items s2 x) = (if x = p then p2 else if x = p2 then it_next (?it p) else it_next (?it x))" for x
    using smem_split_items [of p2 p ?s0] ne by (simp_all add: s2_def s1_def)
  have sel: "heap_end s2 = ?E" "sm_type s2 = sm_type s" "sm_static s2 = sm_static s" "sm_data s2 = sm_data s"
    "sm_total s2 = sm_total s" "sm_used s2 = sm_used s - (sz - n)" "sm_lfree s2 = min p2 (sm_lfree s)"
    by (simp_all add: s2_def s1_def heap_end_def)
  have used2: "mem_isused s2 x \<longleftrightarrow> x \<noteq> p2 \<and> mem_isused s x" for x by (simp add: mem_isused_def si)
  have "seg (sm_items s1) 0 0 (us @ p # p2 # vs) ?E"
    using smem_split_seg [of ?s0 us p vs p2] sg p2b by (simp add: s1_def he)
  moreover have "sm_items s2 = sm_items s1" by (simp add: s2_def)
  ultimately have seg2: "seg (sm_items s2) 0 0 (us @ p # p2 # vs) ?E" by simp
  have nin: "p2 \<notin> set us" "p2 \<notin> set vs" "p \<notin> set us" "p \<notin> set vs" "?E \<noteq> p2"
    using seg_distinct [OF seg2] seg_end_notin [OF seg2] by auto
  let ?F = "\<lambda>s. filter (\<lambda>b. \<not> mem_isused s b)"
  have F: "?F s2 us = ?F s us" using nin by (intro filter_cong refl) (auto simp: used2)
  have lf: "sm_lfree s = (case ?F s us @ ?F s vs of [] \<Rightarrow> ?E | b # _ \<Rightarrow> b)"
    using ok used by (simp add: smem_ok_def lfree_ok_def)
  have lfree2: "lfree_ok s2 (us @ p # p2 # vs)"
  proof (cases "?F s us")
    case Nil
    have "p2 \<le> sm_lfree s"
    proof (cases "?F s vs")
      case Nil
      then show ?thesis using lf \<open>?F s us = []\<close> pb p2b by simp
    next
      case (Cons b bs)
      from filter_hd(2) [OF this] have "it_next (?it p) \<le> b" using sep(2) by blast
      then show ?thesis using lf \<open>?F s us = []\<close> Cons p2b by simp
    qed
    then show ?thesis using Nil F used ne by (simp add: lfree_ok_def used2 sel)
  next
    case (Cons b bs)
    from filter_hd(2) [OF this] have "b \<in> set us" .
    then have "it_next (?it b) \<le> p" "b + 16 < it_next (?it b)"
      using sep(1) seg_bounds [OF sg, of b] by auto
    then show ?thesis using Cons F lf p2b by (simp add: lfree_ok_def sel)
  qed
  have "smem_used s2 us = smem_used s us" "smem_used s2 vs = smem_used s vs"
    using nin by (auto intro!: smem_used_cong simp: used2 si)
  then have "sm_used s2 = smem_used s2 (us @ p # p2 # vs)"
    using ok used ne n sz pb by (simp add: smem_ok_def sel used2 si p2_def)
  then have base: "smem_base s2 ((us @ [p]) @ p2 # vs)"
    using ok seg2 lfree2 nin by (simp add: smem_base_def smem_ok_def sel si)
  have co: "coalesced s (us @ [p])" "coalesced s vs"
    using ok by (cases vs; auto simp: smem_ok_def coalesced_append)+
  have "coalesced s2 (us @ [p])" by (rule coalesced_mono [OF co(1)]) (use nin ne in \<open>auto simp: used2\<close>)
  moreover have "coalesced s2 vs" by (rule coalesced_mono [OF co(2)]) (use nin in \<open>auto simp: used2\<close>)
  ultimately obtain s' bs where "plug_holes p2 s2 = Some s'" "smem_ok s' bs" "heap_end s' = ?E"
    "sm_data s' = sm_data s" "sm_total s' = sm_total s"
    "smem_allocs s' bs = smem_allocs s2 ((us @ [p]) @ p2 # vs)"
    using plug_holes_spec [OF base] used2 sel by force
  moreover have "smem_allocs s2 ((us @ [p]) @ p2 # vs) = insert (p + 16, n) (smem_allocs s (us @ p # vs) - {(p + 16, sz)})"
  proof -
    have "(p + 16, n) = (p + 16, it_next (sm_items s2 p) - (p + 16))" using ne by (simp add: si p2_def)
    moreover have "x \<in> set ((us @ [p]) @ p2 # vs) \<and> mem_isused s2 x \<longleftrightarrow>
        x = p \<or> x \<in> set (us @ p # vs) \<and> mem_isused s x" for x
      using nin used ne by (auto simp: used2)
    moreover have "(p + 16, sz) = (p + 16, it_next (?it p) - (p + 16))" using sz by simp
    moreover have "it_next (sm_items s2 x) = it_next (?it x)" if "x \<in> set us \<union> set vs" for x
      using that nin by (auto simp: si)
    ultimately show ?thesis unfolding smem_allocs_def by (auto simp: nin)
  qed
  ultimately show ?thesis using run by auto
qed

lemma smem_copy_sel [simp]:
  "sm_items (smem_copy d r k s) = sm_items s" "sm_total (smem_copy d r k s) = sm_total s"
  "heap_end (smem_copy d r k s) = heap_end s" "sm_lfree (smem_copy d r k s) = sm_lfree s"
  "sm_type (smem_copy d r k s) = sm_type s" "sm_static (smem_copy d r k s) = sm_static s"
  "sm_used (smem_copy d r k s) = sm_used s"
  by (simp_all add: smem_copy_def heap_end_def)

lemma smem_copy_frame [simp]:
  "smem_inv (smem_copy d r k s) = smem_inv s" "smem_live (smem_copy d r k s) = smem_live s"
proof -
  let ?s = "smem_copy d r k s"
  have u: "mem_isused ?s = mem_isused s" by (simp add: mem_isused_def fun_eq_iff)
  have w: "smem_walk j ?s h = smem_walk j s h" for j h by (induction j arbitrary: h) simp_all
  then have b: "smem_blocks ?s = smem_blocks s" by (simp add: smem_blocks_def)
  have "coalesced ?s bs = coalesced s bs" for bs by (rule coalesced_cong) (simp add: u)
  then show "smem_inv ?s = smem_inv s"
    unfolding smem_inv_def b smem_ok_def lfree_ok_def smem_used_def u smem_copy_sel
    by (simp add: \<open>\<And>bs. coalesced ?s bs = coalesced s bs\<close>)
  show "smem_live ?s = smem_live s" unfolding smem_live_def b smem_allocs_def u by simp
qed

lemma smem_live_block:
  assumes "smem_inv s" "(a, m) \<in> smem_live s"
  shows "\<exists>us vs p. smem_ok s (us @ p # vs) \<and> mem_isused s p \<and> a = p + 16
    \<and> m = it_next (sm_items s p) - p - 16 \<and> 0 < m \<and> smem_live s = smem_allocs s (us @ p # vs)"
proof -
  obtain p where p: "p \<in> set (smem_blocks s)" "mem_isused s p" "a = p + 16"
    "m = it_next (sm_items s p) - (p + 16)"
    using assms(2) by (auto simp: smem_live_def smem_allocs_def)
  then obtain us vs where bs: "smem_blocks s = us @ p # vs" by (auto simp: in_set_conv_decomp)
  then have ok: "smem_ok s (us @ p # vs)" using assms(1) by (simp add: smem_inv_def)
  then have "seg (sm_items s) 0 0 (us @ p # vs) (heap_end s)" by (simp add: smem_ok_def)
  from seg_bounds [OF this, of p] have "0 < m" "m = it_next (sm_items s p) - p - 16" using p(4) by simp_all
  moreover have "smem_live s = smem_allocs s (us @ p # vs)" using smem_ok_inv [OF ok] by simp
  ultimately show ?thesis using ok p(2,3) by blast
qed

lemma smem_copy_data:
  "d \<le> j \<Longrightarrow> j < d + k \<Longrightarrow> sm_data (smem_copy d r k s) j = sm_data s (r + (j - d))"
  "j < d \<or> d + k \<le> j \<Longrightarrow> sm_data (smem_copy d r k s) j = sm_data s j"
  by (auto simp: smem_copy_def)

text \<open>What a caller of \<open>rt_realloc\<close> sees: the old block is replaced, its contents move along.\<close>

definition realloc_done ::
  "nat \<Rightarrow> nat \<times> nat \<Rightarrow> nat option \<Rightarrow> rt_small_mem \<Rightarrow> rt_small_mem \<Rightarrow> bool" where
  "realloc_done n blk r s s' \<longleftrightarrow> (case r of
     None \<Rightarrow> s' = s \<or> n = 0 \<and> smem_live s' = smem_live s - {blk}
   | Some d \<Rightarrow> (\<exists>m \<ge> n. smem_live s' = insert (d, m) (smem_live s - {blk}))
       \<and> (\<forall>i < min (snd blk) n. sm_data s' (d + i) = sm_data s (fst blk + i))
       \<and> (\<forall>(b, k) \<in> smem_live s - {blk}. \<forall>i < k. sm_data s' (b + i) = sm_data s (b + i)))"

lemma smem_move_spec:
  assumes inv: "smem_inv s" and live: "(a, m) \<in> smem_live s" and n: "n \<le> unat (smem_request sz)"
    and run: "rt_smem_alloc sz s = Some (Some d, s1)"
  shows "\<exists>s'. rt_smem_free (Some a) (smem_copy d a (min m n) s1) = Some s' \<and> smem_inv s'
    \<and> realloc_done n (a, m) (Some d) s s'"
proof -
  let ?s2 = "smem_copy d a (min m n) s1"
  obtain q where q: "unat (smem_request sz) \<le> q" "d \<notin> fst ` smem_live s" "smem_inv s1"
    "smem_live s1 = insert (d, q) (smem_live s)" "sm_data s1 = sm_data s"
    using smem_alloc_spec [OF inv, of sz] run by auto
  have da: "d \<noteq> a" using q(2) live by force
  have inv2: "smem_inv ?s2" and live2: "(a, m) \<in> smem_live ?s2" using q live by simp_all
  from smem_free_live [OF this] obtain s' where s': "rt_smem_free (Some a) ?s2 = Some s'" "smem_inv s'"
    "smem_live s' = insert (d, q) (smem_live s) - {(a, m)}" "sm_data s' = sm_data ?s2"
    using q(4) by auto
  have "sm_data s' (d + i) = sm_data s (a + i)" if "i < min m n" for i
    using that by (simp add: s'(4) smem_copy_data(1) q(5))
  moreover have "sm_data s' (b + i) = sm_data s (b + i)" if b: "(b, k) \<in> smem_live s" "i < k" for b k i
  proof -
    have "d \<noteq> b" using q(2) b by force
    then have "d + q \<le> b \<or> b + k \<le> d"
      using smem_live_disjoint [OF q(3), of d q b k] q(4) b by simp
    then have "b + i < d \<or> d + min m n \<le> b + i" using q(1) n b(2) by auto
    then show ?thesis by (simp add: s'(4) smem_copy_data(2) q(5))
  qed
  ultimately have "realloc_done n (a, m) (Some d) s s'"
    unfolding realloc_done_def using s'(3) q(1) n da by (auto intro!: exI [of _ q])
  then show ?thesis using s' by blast
qed

lemma smem_realloc_spec:
  assumes inv: "smem_inv s" and live: "(a, m) \<in> smem_live s"
  shows "\<exists>r s'. rt_smem_realloc (Some a) sz s = Some (r, s') \<and> smem_inv s'
    \<and> realloc_done (unat (RT_ALIGN sz 8)) (a, m) r s s'"
proof -
  define nw where "nw = RT_ALIGN sz 8"
  define n where "n = unat nw"
  have n8: "n mod 8 = 0" and nmax: "n \<le> 0xfffffff8" unfolding n_def nw_def unat_RT_ALIGN_8 by simp_all
  have nreq: "n \<le> unat (smem_request nw)" using smem_request_bounds(3) [of nw] nmax by (simp add: n_def)
  obtain us vs p where p: "smem_ok s (us @ p # vs)" "mem_isused s p" "a = p + 16"
    "m = it_next (sm_items s p) - p - 16" "0 < m" "smem_live s = smem_allocs s (us @ p # vs)"
    using smem_live_block [OF inv live] by blast
  have ty: "sm_type s = Class_Memory" "sm_static s" using p(1) by (simp_all add: smem_ok_def)
  have ab: "16 \<le> a" "a < heap_end s" "a mod 8 = 0"
    using smem_live_inside [OF inv live] p(5) by auto
  consider "sm_total s < n" | "n = 0" | "n = m" | "n + 28 < m" "0 < n" "n \<le> sm_total s"
    | "n \<noteq> m" "\<not> n + 28 < m" "0 < n" "n \<le> sm_total s" by linarith
  then have "\<exists>r s'. rt_smem_realloc (Some a) sz s = Some (r, s') \<and> smem_inv s' \<and> realloc_done n (a, m) r s s'"
    (is ?goal)
  proof cases
    case 1
    then show ?goal using ty inv
      by (simp add: rt_smem_realloc_def Let_def nw_def [symmetric] n_def [symmetric] realloc_done_def)
  next
    case 2
    then show ?goal using ty smem_free_live [OF inv live]
      by (auto simp: rt_smem_realloc_def Let_def nw_def [symmetric] n_def [symmetric] realloc_done_def)
  next
    case 3
    have "m \<le> sm_total s" using smem_live_inside [OF inv live] by (simp add: heap_end_def)
    then have "rt_smem_realloc (Some a) sz s = Some (Some a, s)"
      using 3 ty ab p(3-5) by (simp add: rt_smem_realloc_def Let_def nw_def [symmetric] n_def [symmetric])
    moreover have "realloc_done n (a, m) (Some a) s s"
      using 3 live by (auto simp: realloc_done_def)
    ultimately show ?goal using inv by blast
  next
    case 4
    have "rt_smem_realloc (Some a) sz s = smem_shrink p n m s \<bind> (\<lambda>s1. Some (Some a, s1))"
      using 4 ty ab p(3-5)
      by (simp add: rt_smem_realloc_def Let_def nw_def [symmetric] n_def [symmetric])
    moreover obtain s' bs where s': "smem_shrink p n m s = Some s'" "smem_ok s' bs" "sm_data s' = sm_data s"
      "smem_allocs s' bs = insert (p + 16, n) (smem_allocs s (us @ p # vs) - {(p + 16, m)})"
      using smem_shrink_spec [OF p(1,2,4) 4(1,2) n8] by blast
    moreover have "realloc_done n (a, m) (Some a) s s'"
      using s' smem_ok_inv [OF s'(2)] p by (auto simp: realloc_done_def)
    ultimately show ?goal using smem_ok_inv [OF s'(2)] by auto
  next
    case 5
    obtain r s1 where al: "rt_smem_alloc nw s = Some (r, s1)" "r = None \<Longrightarrow> s1 = s"
      using smem_alloc_spec [OF inv, of nw] by (auto split: option.splits)
    have run: "rt_smem_realloc (Some a) sz s = (case r of None \<Rightarrow> Some (None, s1)
        | Some d \<Rightarrow> rt_smem_free (Some a) (smem_copy d a (min m n) s1) \<bind> (\<lambda>s2. Some (r, s2)))"
      using 5 ty ab p(3-5) al(1)
      by (simp add: rt_smem_realloc_def Let_def nw_def [symmetric] n_def [symmetric] split: option.split)
    show ?goal
    proof (cases r)
      case None
      then show ?goal using run al inv by (simp add: realloc_done_def)
    next
      case (Some d)
      then show ?goal using smem_move_spec [OF inv live nreq, of d s1] al(1) run by auto
    qed
  qed
  then show ?thesis by (simp add: n_def nw_def)
qed


subsection \<open>Initialisation\<close>

lemma smem_fresh_ok:
  assumes "n mod 8 = 0" "0 < n" "n + 32 < 2 ^ 32"
  shows "smem_inv (smem_fresh n bytes) \<and> smem_live (smem_fresh n bytes) = {}"
proof -
  let ?s = "smem_fresh n bytes"
  have f: "\<not> mem_isused ?s 0" "heap_end ?s = n + 16"
    by (simp_all add: smem_fresh_def mem_isused_def heap_end_def)
  have "smem_ok ?s [0]"
    using assms f by (simp add: smem_ok_def lfree_ok_def smem_used_def)
      (auto simp: smem_fresh_def mod_add_eq [symmetric, of n 16])
  from smem_ok_inv [OF this] show ?thesis using f by (simp add: smem_allocs_def)
qed

lemma smem_area_spec:
  assumes room: "unat begin_addr + 72 \<le> 2 ^ 32" "unat begin_addr + unat sz < 2 ^ 32"
    and run: "smem_area begin_addr sz = Some (hp, n)"
  shows "unat hp mod 8 = 0 \<and> unat n mod 8 = 0 \<and> unat begin_addr + 56 \<le> unat hp
    \<and> unat hp + unat n + 32 \<le> unat begin_addr + unat sz"
proof -
  let ?b = "unat begin_addr"
  define start where "start = RT_ALIGN begin_addr 8 + 56"
  define e where "e = (begin_addr + sz) AND NOT (8 - 1)"
  have "unat (RT_ALIGN begin_addr 8) = (?b + 7) div 8 * 8"
    using room(1) by (simp add: unat_RT_ALIGN_8)
  then have st: "unat start = (?b + 7) div 8 * 8 + 56"
    using room(1) by (simp add: start_def unat_word_ariths)
  have "(unat start + 7) mod 2 ^ 32 = unat start + 7" using room(1) st by simp
  then have al: "unat (RT_ALIGN start 8) = unat start"
    unfolding unat_RT_ALIGN_8 by (simp add: st)
  have hp: "hp = start" and n: "n = e - start - 32" and c: "32 < e" "start \<le> e - 32"
  proof -
    have "smem_area begin_addr sz = (if 2 * 16 < e \<and> start \<le> e - 2 * 16
        then Some (RT_ALIGN start 8, e - RT_ALIGN start 8 - 2 * 16) else None)"
      unfolding smem_area_def Let_def start_def e_def by (rule refl)
    moreover have "RT_ALIGN start 8 = start" using al by (simp add: word_unat_eq_iff)
    ultimately show "hp = start" "n = e - start - 32" "32 < e" "start \<le> e - 32"
      using run by (simp_all split: if_splits)
  qed
  have "unat (begin_addr + sz) = ?b + unat sz" using room(2) by (simp add: unat_word_ariths)
  then have e: "unat e = (?b + unat sz) div 8 * 8"
    by (simp add: e_def and_not_7 [simplified] push_bit_eq_mult drop_bit_eq_div unat_word_ariths unat_div_distrib)
  have c': "32 < unat e" "unat start \<le> unat e - 32"
    using c by (auto simp: word_less_nat_alt word_le_nat_alt unat_sub_if')
  then have "unat start \<le> unat e" "32 \<le> unat e - unat start" by linarith+
  then have "unat n = unat e - unat start - 32" by (simp add: n unat_sub_if')
  moreover define x y where "x = (?b + 7) div 8" and "y = (?b + unat sz) div 8"
  then have "?b \<le> 8 * x" "8 * y \<le> ?b + unat sz" by linarith+
  moreover have "unat hp = 8 * (x + 7)" "unat e = 8 * y" using hp st e by (simp_all add: x_def y_def)
  moreover from this c' have "unat e - unat start - 32 = 8 * (y - x - 11)" "32 \<le> unat e - unat start"
    using hp by simp_all
  ultimately show ?thesis using hp c' by simp
qed

lemma smem_init_spec:
  assumes room: "unat begin_addr + 72 \<le> 2 ^ 32" "unat begin_addr + unat sz < 2 ^ 32"
    and run: "rt_smem_init begin_addr sz bytes = Some (hp, s)" and some: "0 < sm_total s"
  shows "smem_inv s \<and> smem_live s = {} \<and> unat hp mod 8 = 0 \<and> unat begin_addr + 56 \<le> unat hp
    \<and> unat hp + heap_end s + 16 \<le> unat begin_addr + unat sz"
proof -
  obtain n where n: "smem_area begin_addr sz = Some (hp, n)" "s = smem_fresh (unat n) bytes"
    using run by (auto simp: rt_smem_init_def split: option.splits)
  have t: "sm_total s = unat n" by (simp add: n(2) smem_fresh_def)
  note a = smem_area_spec [OF room n(1)]
  have "unat n + 32 < 2 ^ 32" using a room(2) by linarith
  then have "smem_inv s \<and> smem_live s = {}"
    unfolding n(2) by (intro smem_fresh_ok) (use a some t in simp_all)
  moreover have "heap_end s = unat n + 16" by (simp add: heap_end_def t)
  ultimately show ?thesis using a by simp
qed

subsection \<open>Failures\<close>

lemma smem_free_unused: "\<not> mem_isused s (a - 16) \<Longrightarrow> rt_smem_free (Some a) s = None"
  by (simp add: rt_smem_free_def rt_assert_def Let_def)

lemma smem_double_free_spec:
  assumes "smem_inv s" "(a, m) \<in> smem_live s"
  shows "\<exists>s'. rt_smem_free (Some a) s = Some s' \<and> rt_smem_free (Some a) s' = None"
  using smem_free_live [OF assms] smem_free_unused by blast

text \<open>Requests so large that their alignment wraps around are served with the smallest block.\<close>

lemma smem_request_wraps:
  assumes "0xfffffff8 < unat sz"
  shows "unat (smem_request sz) = 16"
proof -
  have lt: "unat sz < 2 ^ 32" using unsigned_less [of sz, where ?'a = nat] by simp
  then have "(unat sz + 7) mod 2 ^ 32 div 8 = 0" using assms by (simp add: mod_if)
  then have "unat (RT_ALIGN sz 8) = 0" by (simp add: unat_RT_ALIGN_8)
  then have "RT_ALIGN sz 8 = 0" by (simp add: unat_eq_0)
  then show ?thesis by (simp add: smem_request_def)
qed

lemma smem_alloc_overflow_spec:
  assumes inv: "smem_inv s" and sz: "0xfffffff8 < unat sz"
    and fit: "b \<in> set (smem_blocks s)" "smem_fits s 16 b"
  shows "\<exists>a m s'. rt_smem_alloc sz s = Some (Some a, s') \<and> (a, m) \<in> smem_live s' \<and> m < unat sz"
proof -
  have "sz \<noteq> 0" using sz by auto
  then obtain a m s' where a: "rt_smem_alloc sz s = Some (Some a, s')" "smem_inv s'" "sm_total s' = sm_total s"
    "smem_live s' = insert (a, m) (smem_live s)"
    using smem_alloc_spec [OF inv, of sz] smem_request_wraps [OF sz] fit by (auto split: option.splits)
  have "a + m \<le> heap_end s'" using smem_live_inside [OF a(2), of a m] a(4) by simp
  moreover have "heap_end s' + 16 < 2 ^ 32" using a(2) by (simp add: smem_inv_def smem_ok_def)
  moreover have "16 \<le> a" using smem_live_inside [OF a(2), of a m] a(4) by simp
  ultimately have "m < unat sz" using sz by simp
  then show ?thesis using a by auto
qed

subsection \<open>Sequences of operations\<close>

text \<open>
  A step of a well-behaved client: any request, freeing or reallocating a live block, writing
  into one.
\<close>

inductive smem_step :: "rt_small_mem \<Rightarrow> rt_small_mem \<Rightarrow> bool" where
  step_alloc: "rt_smem_alloc sz s = Some (r, s') \<Longrightarrow> smem_step s s'"
| step_free: "(a, m) \<in> smem_live s \<Longrightarrow> rt_smem_free (Some a) s = Some s' \<Longrightarrow> smem_step s s'"
| step_realloc: "(a, m) \<in> smem_live s \<Longrightarrow> rt_smem_realloc (Some a) sz s = Some (r, s') \<Longrightarrow> smem_step s s'"
| step_write: "(a, m) \<in> smem_live s \<Longrightarrow> i < m \<Longrightarrow>
    smem_step s (s\<lparr>sm_data := (sm_data s)(a + i := v)\<rparr>)"

lemma smem_write_frame:
  "smem_inv (s\<lparr>sm_data := d\<rparr>) = smem_inv s" "smem_live (s\<lparr>sm_data := d\<rparr>) = smem_live s"
proof -
  let ?s = "s\<lparr>sm_data := d\<rparr>"
  have u: "mem_isused ?s = mem_isused s" by (simp add: mem_isused_def fun_eq_iff)
  have e: "heap_end ?s = heap_end s" by (simp add: heap_end_def)
  have w: "smem_walk j ?s h = smem_walk j s h" for j h by (induction j arbitrary: h) (simp_all add: e)
  then have b: "smem_blocks ?s = smem_blocks s" by (simp add: smem_blocks_def e)
  have co: "coalesced ?s bs = coalesced s bs" for bs by (rule coalesced_cong) (simp add: u)
  show "smem_inv ?s = smem_inv s"
    unfolding smem_inv_def b smem_ok_def lfree_ok_def smem_used_def u e by (simp add: co)
  show "smem_live ?s = smem_live s" unfolding smem_live_def b smem_allocs_def u by simp
qed

lemma smem_step_inv: "smem_step s s' \<Longrightarrow> smem_inv s \<Longrightarrow> smem_inv s'"
proof (induction rule: smem_step.induct)
  case (step_alloc sz s r s')
  then show ?case using smem.alloc_keeps(1) by blast
next
  case (step_free a m s s')
  then show ?case using smem_free_live by force
next
  case (step_realloc a m s sz r s')
  from smem_realloc_spec [OF step_realloc(3,1), of sz] step_realloc(2) show ?case by auto
next
  case (step_write a m s i v)
  then show ?case by (simp add: smem_write_frame)
qed

lemma smem_steps_inv: "smem_step\<^sup>*\<^sup>* s s' \<Longrightarrow> smem_inv s \<Longrightarrow> smem_inv s'"
  by (induction rule: rtranclp_induct) (auto intro: smem_step_inv)


subsection \<open>Properties\<close>


lemma smem_reach_safe:
  assumes "smem_inv s0" "smem_step\<^sup>*\<^sup>* s0 s"
  shows "\<forall>(a, m) \<in> smem_live s. \<forall>(b, k) \<in> smem_live s. a \<noteq> b \<longrightarrow> a + m \<le> b \<or> b + k \<le> a"
    "\<forall>sz. rt_smem_alloc sz s \<noteq> None"
    "\<forall>(a, m) \<in> smem_live s. rt_smem_free (Some a) s \<noteq> None"
    "\<forall>(a, m) \<in> smem_live s. \<forall>sz. rt_smem_realloc (Some a) sz s \<noteq> None"
proof -
  have inv: "smem_inv s" using smem_steps_inv assms by blast
  show "\<forall>(a, m) \<in> smem_live s. \<forall>(b, k) \<in> smem_live s. a \<noteq> b \<longrightarrow> a + m \<le> b \<or> b + k \<le> a"
    using smem_live_disjoint [OF inv] by blast
  show "\<forall>sz. rt_smem_alloc sz s \<noteq> None" using smem_alloc_spec [OF inv] by force
  show "\<forall>(a, m) \<in> smem_live s. rt_smem_free (Some a) s \<noteq> None" using smem_free_live [OF inv] by force
  show "\<forall>(a, m) \<in> smem_live s. \<forall>sz. rt_smem_realloc (Some a) sz s \<noteq> None"
    using smem_realloc_spec [OF inv] by force
qed

text \<open>Given an area that does not wrap around the address space,
  \<open>rt_smem_init\<close> yields an empty well-formed heap whose blocks and end marker lie inside the area,
  behind the control block, aligned to eight bytes.\<close>

theorem smem_init_correct:
  assumes "unat begin_addr + 72 \<le> 2 ^ 32" "unat begin_addr + unat sz < 2 ^ 32"
    and "rt_smem_init begin_addr sz bytes = Some (hp, s)" "0 < sm_total s"
  shows "smem_inv s \<and> smem_live s = {} \<and> unat hp mod 8 = 0 \<and> unat begin_addr + 56 \<le> unat hp
    \<and> unat hp + heap_end s + 16 \<le> unat begin_addr + unat sz"
  by (rule smem_init_spec [OF assms])



text \<open>C18 (smem_free_correct). Freeing a live allocation removes exactly that allocation, joins the
  block with free neighbours so that no two free blocks are adjacent, and touches no contents;
  freeing the same pointer again fails an assertion.\<close>

theorem smem_free_correct:
  assumes "smem_inv s" "(a, m) \<in> smem_live s"
  shows "\<exists>s'. rt_smem_free (Some a) s = Some s' \<and> smem_inv s' \<and> coalesced s' (smem_blocks s')
    \<and> smem_live s' = smem_live s - {(a, m)} \<and> sm_data s' = sm_data s \<and> rt_smem_free (Some a) s' = None"
  using smem_free_live [OF assms] smem_free_unused by (auto simp: smem_inv_def smem_ok_def)

text \<open>C19 (smem_realloc_correct). Reallocating a live block keeps the heap well-formed: on success the
  result is as large as the rounded request, carries the first bytes of the old block, and all other
  allocations keep their place and contents; when it answers NULL the old block is untouched, or
  freed where the rounded size is 0.\<close>

theorem smem_realloc_correct:
  assumes "smem_inv s" "(a, m) \<in> smem_live s"
  shows "\<exists>r s'. rt_smem_realloc (Some a) sz s = Some (r, s') \<and> smem_inv s'
    \<and> realloc_done (unat (RT_ALIGN sz 8)) (a, m) r s s'"
  by (rule smem_realloc_spec [OF assms])

text \<open>C16 (smem_reachable_safe). Whatever sequence of requests, frees and reallocations of live blocks
  and writes into live blocks is run on a well-formed heap, live allocations never overlap and no
  further such operation fails an assertion or loops.\<close>

theorem smem_reachable_safe:
  assumes "smem_inv s0" "smem_step\<^sup>*\<^sup>* s0 s"
  shows "(\<forall>(a, m) \<in> smem_live s. \<forall>(b, k) \<in> smem_live s. a \<noteq> b \<longrightarrow> a + m \<le> b \<or> b + k \<le> a)
    \<and> (\<forall>sz. rt_smem_alloc sz s \<noteq> None)
    \<and> (\<forall>(a, m) \<in> smem_live s. rt_smem_free (Some a) s \<noteq> None)
    \<and> (\<forall>(a, m) \<in> smem_live s. \<forall>sz. rt_smem_realloc (Some a) sz s \<noteq> None)"
  using smem_reach_safe [OF assms] by blast

text \<open>A request within eight bytes of the top of the 32-bit range wraps around
  in the alignment: the allocator then hands out a block far smaller than the request.\<close>

theorem smem_alloc_overflow:
  assumes "smem_inv s" "0xfffffff8 < unat sz" "b \<in> set (smem_blocks s)" "smem_fits s 16 b"
  shows "\<exists>a m s'. rt_smem_alloc sz s = Some (Some a, s') \<and> (a, m) \<in> smem_live s' \<and> m < unat sz"
  by (rule smem_alloc_overflow_spec [OF assms])

subsection \<open>Witnesses\<close>

lemma demo_heap_ok: "smem_inv (smem_fresh 64 (\<lambda>_. 0))" "smem_live (smem_fresh 64 (\<lambda>_. 0)) = {}"
  using smem_fresh_ok [of 64 "\<lambda>_. 0"] by simp_all

lemma demo_heap_blocks: "smem_blocks (smem_fresh 64 bytes) = [0]"
  by (simp add: smem_blocks_def heap_end_def eval_nat_numeral smem_fresh_def)

lemma demo_heap_fits: "n \<le> 64 \<Longrightarrow> smem_fits (smem_fresh 64 bytes) n 0"
  by (simp add: smem_fits_def smem_fresh_def mem_isused_def)

text \<open>A heap with one allocation of 24 bytes.\<close>

lemma demo_heap_alloc:
  "\<exists>a m s'. rt_smem_alloc 20 (smem_fresh 64 (\<lambda>_. 0)) = Some (Some a, s') \<and> smem_inv s' \<and> (a, m) \<in> smem_live s'"
proof -
  have "unat (smem_request 20) = 24" by (simp add: smem_request_def RT_ALIGN_def)
  then obtain a m s' where "rt_smem_alloc 20 (smem_fresh 64 (\<lambda>_. 0)) = Some (Some a, s')" "smem_inv s'"
    "smem_live s' = insert (a, m) {}"
    using smem_alloc_spec [OF demo_heap_ok(1), of 20] demo_heap_blocks demo_heap_fits [of 24]
    by (auto split: option.splits simp: demo_heap_ok(2))
  then show ?thesis by blast
qed

theorem smem_init_correct_witness:
  "\<exists>hp s. rt_smem_init 0x1000 0x100 (\<lambda>_. 0) = Some (hp, s) \<and> smem_inv s \<and> smem_live s = {}"
proof -
  have "smem_area 0x1000 0x100 = Some (0x1038, 0xa8)" by (simp add: smem_area_def RT_ALIGN_def Let_def)
  then have r: "rt_smem_init 0x1000 0x100 (\<lambda>_. 0) = Some (0x1038, smem_fresh 0xa8 (\<lambda>_. 0))"
    by (simp add: rt_smem_init_def)
  from smem_init_correct [OF _ _ this] show ?thesis using r by (simp add: smem_fresh_def)
qed


theorem smem_free_correct_witness:
  "\<exists>s a s'. smem_inv s \<and> rt_smem_free (Some a) s = Some s' \<and> rt_smem_free (Some a) s' = None"
proof -
  obtain a m s where "smem_inv s" "(a, m) \<in> smem_live s" using demo_heap_alloc by blast
  from smem_free_correct [OF this] show ?thesis using \<open>smem_inv s\<close> by blast
qed

theorem smem_realloc_correct_witness:
  "\<exists>s a m r s'. rt_smem_realloc (Some a) 40 s = Some (r, s') \<and> realloc_done 40 (a, m) r s s'"
proof -
  obtain a m s where "smem_inv s" "(a, m) \<in> smem_live s" using demo_heap_alloc by blast
  from smem_realloc_correct [OF this, of 40] show ?thesis by (simp add: RT_ALIGN_def) blast
qed

theorem smem_reachable_safe_witness:
  "\<exists>s. smem_live s \<noteq> {} \<and> (\<forall>sz. rt_smem_alloc sz s \<noteq> None)"
proof -
  obtain a m s where s: "rt_smem_alloc 20 (smem_fresh 64 (\<lambda>_. 0)) = Some (Some a, s)" "(a, m) \<in> smem_live s"
    using demo_heap_alloc by blast
  have "smem_step\<^sup>*\<^sup>* (smem_fresh 64 (\<lambda>_. 0)) s"
    by (rule r_into_rtranclp [of smem_step]) (rule step_alloc [OF s(1)])
  from smem_reachable_safe [OF demo_heap_ok(1) this]
  show ?thesis by (intro exI [of _ s]) (use s(2) in auto)
qed

theorem smem_alloc_overflow_witness:
  "\<exists>a m s'. rt_smem_alloc 0xffffffff (smem_fresh 64 (\<lambda>_. 0)) = Some (Some a, s')
     \<and> (a, m) \<in> smem_live s' \<and> m < 0xffffffff"
  using smem_alloc_overflow [OF demo_heap_ok(1), where sz = "0xffffffff" and b = 0]
    demo_heap_blocks [of "\<lambda>_. 0"] demo_heap_fits [of 16]
  by simp

end
