(* ===== verification/Mem_Pool.thy ===== *)
theory Mem_Pool
  imports Ipc_Mailbox
begin

text \<open>
  Memory pools (\<open>src/mempool.c\<close>): an area cut into blocks of one size, each behind a word that
  links the free blocks or holds the pool's address while the block is in use. A block is named
  by the offset of that word from the start of the area.
\<close>

datatype mp_word = Link "nat option" | Pool

record rt_mempool =
  mp_type :: obj_class
  mp_static :: bool
  mp_size :: u32
  mp_block_size :: u32
  mp_block_list :: "nat option"
  mp_total :: u32
  mp_free :: u32
  mp_head :: "nat \<Rightarrow> mp_word"

datatype mp_result = MpDone "nat option" | MpBlocked rt_tick_t

type_synonym mp_state = "rt_mempool \<times> kernel"

subsection \<open>Operations\<close>

text \<open>
  The loop that links the blocks, and the write of the last link. With no block at all the last
  link is written in front of the area; blocks behind the end of the area are written out of it.
\<close>

fun mp_link :: "nat \<Rightarrow> nat \<Rightarrow> nat \<Rightarrow> (nat \<Rightarrow> mp_word) \<Rightarrow> nat \<Rightarrow> mp_word" where
  "mp_link stride 0 offset h = h"
| "mp_link stride (Suc n) offset h =
     mp_link stride n (offset + 1) (h(offset * stride := Link (Some ((offset + 1) * stride))))"

definition mp_setup :: "rt_mempool \<Rightarrow> rt_mempool option" where
  "mp_setup mp = (
     let stride = unat (mp_block_size mp + 4); total = unat (mp_total mp) in do {
     rt_assert (0 < total \<and> total * stride \<le> unat (mp_size mp));
     let h = mp_link stride total 0 (mp_head mp);
     Some (mp\<lparr>mp_head := h((total - 1) * stride := Link None), mp_block_list := Some 0\<rparr>)
   })"

definition RT_ALIGN_DOWN :: "u32 \<Rightarrow> u32 \<Rightarrow> u32" where
  "RT_ALIGN_DOWN sz align = sz AND NOT (align - 1)"

definition rt_mp_init :: "oid \<Rightarrow> u32 \<Rightarrow> u32 \<Rightarrow> mp_state \<Rightarrow> (rt_err_t \<times> mp_state) option" where
  "rt_mp_init m psize block_size s = (case s of (mp, k) \<Rightarrow> do {
     rt_assert (0 < psize \<and> 0 < block_size);
     k1 \<leftarrow> rt_object_init_check (mp_type mp = Class_MemPool) k;
     let sz = RT_ALIGN_DOWN psize 8;
     let bs = RT_ALIGN block_size 8;
     let mp1 = mp\<lparr>mp_type := Class_MemPool, mp_static := True, mp_size := sz, mp_block_size := bs,
       mp_total := sz div (bs + 4), mp_free := sz div (bs + 4)\<rparr>;
     mp2 \<leftarrow> mp_setup mp1;
     Some (RT_EOK, mp2, ipc_object_init (QMp m) k1)
   })"

text \<open>The loop of \<open>rt_mp_detach\<close> and \<open>rt_mp_delete\<close> is the one that resumes all waiting threads.\<close>

definition rt_mp_detach :: "oid \<Rightarrow> mp_state \<Rightarrow> (rt_err_t \<times> mp_state) option" where
  "rt_mp_detach m s = (case s of (mp, k) \<Rightarrow> do {
     rt_assert (mp_type mp = Class_MemPool);
     rt_assert (mp_static mp);
     k1 \<leftarrow> ipc_list_resume_all (QMp m) k;
     Some (RT_EOK, mp\<lparr>mp_type := Class_Null, mp_static := False\<rparr>, k1)
   })"

text \<open>
  \<open>object\<close> tells whether \<open>rt_object_allocate\<close> finds memory, \<open>area\<close> whether \<open>rt_malloc\<close> does; the size
  of the area is the product as computed in 32 bits.
\<close>

definition rt_mp_create ::
  "oid \<Rightarrow> bool \<Rightarrow> bool \<Rightarrow> u32 \<Rightarrow> u32 \<Rightarrow> mp_state \<Rightarrow> (bool \<times> mp_state) option" where
  "rt_mp_create m object area block_count block_size s = (case s of (mp, k) \<Rightarrow> do {
     rt_debug_not_in_interrupt k;
     rt_assert (0 < block_count \<and> 0 < block_size);
     (if \<not> object then Some (False, s)
      else
       (let bs = RT_ALIGN block_size 8;
            mp1 = mp\<lparr>mp_type := Class_MemPool, mp_static := False, mp_block_size := bs,
                    mp_size := (bs + 4) * block_count\<rparr>
        in if \<not> area then Some (False, mp1\<lparr>mp_type := Class_Null\<rparr>, k)
           else do {
             mp2 \<leftarrow> mp_setup (mp1\<lparr>mp_total := block_count, mp_free := block_count\<rparr>);
             Some (True, mp2, ipc_object_init (QMp m) k)
           }))
   })"

definition rt_mp_delete :: "oid \<Rightarrow> mp_state \<Rightarrow> (rt_err_t \<times> mp_state) option" where
  "rt_mp_delete m s = (case s of (mp, k) \<Rightarrow> do {
     rt_debug_not_in_interrupt k;
     rt_assert (mp_type mp = Class_MemPool);
     rt_assert (\<not> mp_static mp);
     k1 \<leftarrow> ipc_list_resume_all (QMp m) k;
     Some (RT_EOK, mp\<lparr>mp_type := Class_Null\<rparr>, k1)
   })"

text \<open>Taking the first free block; the body of the wait loop, up to the switch to another thread.\<close>

definition mp_take :: "rt_mempool \<Rightarrow> (nat \<times> rt_mempool) option" where
  "mp_take mp = do {
     let mp1 = mp\<lparr>mp_free := mp_free mp - 1\<rparr>;
     b \<leftarrow> mp_block_list mp1;
     (case mp_head mp1 b of
        Pool \<Rightarrow> None
      | Link p \<Rightarrow> Some (b + 4, mp1\<lparr>mp_block_list := p, mp_head := (mp_head mp1)(b := Pool)\<rparr>))
   }"

definition mp_wait :: "oid \<Rightarrow> int \<Rightarrow> kernel \<Rightarrow> (rt_tick_t \<times> kernel) option" where
  "mp_wait m time k = do {
     rt_debug_not_in_interrupt k;
     t \<leftarrow> rt_thread_self k;
     let k1 = upd_thread t (th_error_update (\<lambda>_. RT_EOK)) k;
     (_, k2) \<leftarrow> rt_thread_suspend t k1;
     let k3 = rt_list_insert_after (QMp m) t k2;
     k4 \<leftarrow> wait_timer t time k3;
     k5 \<leftarrow> rt_schedule k4;
     Some (if 0 < time then rt_tick k3 else 0, k5)
   }"

text \<open>
  \<open>rt_set_errno\<close> writes the error of the running thread; the variable it uses elsewhere is not
  read by the kernel.
\<close>

definition rt_set_errno :: "rt_err_t \<Rightarrow> kernel \<Rightarrow> kernel" where
  "rt_set_errno e k = (if rt_interrupt_nest k \<noteq> 0 then k
     else case rt_thread_self k of None \<Rightarrow> k | Some t \<Rightarrow> upd_thread t (th_error_update (\<lambda>_. e)) k)"

definition rt_mp_alloc :: "oid \<Rightarrow> int \<Rightarrow> mp_state \<Rightarrow> (mp_result \<times> mp_state) option" where
  "rt_mp_alloc m time s = (case s of (mp, k) \<Rightarrow>
     if mp_free mp = 0 then
       (if time = 0 then Some (MpDone None, mp, rt_set_errno (- RT_ETIMEOUT) k)
        else do {
          (before_sleep, k1) \<leftarrow> mp_wait m time k;
          Some (MpBlocked before_sleep, mp, k1)
        })
     else do {
       (b, mp1) \<leftarrow> mp_take mp;
       Some (MpDone (Some b), mp1, k)
     })"

text \<open>When the thread that waited runs again: the rest of the loop body and the next round.\<close>

definition rt_mp_alloc_resume ::
  "oid \<Rightarrow> tid \<Rightarrow> int \<Rightarrow> rt_tick_t \<Rightarrow> mp_state \<Rightarrow> (mp_result \<times> mp_state) option" where
  "rt_mp_alloc_resume m t time before_sleep s = (
     if th_error (threads (snd s) t) \<noteq> RT_EOK then Some (MpDone None, s)
     else
       (let time1 = (if 0 < time
          then max 0 (sint (word_of_int time - (rt_tick (snd s) - before_sleep) :: u32)) else time)
        in rt_mp_alloc m time1 s))"

definition rt_mp_free :: "oid \<Rightarrow> nat option \<Rightarrow> mp_state \<Rightarrow> mp_state option" where
  "rt_mp_free m block s = (case block of
     None \<Rightarrow> Some s
   | Some a \<Rightarrow> (case s of (mp, k) \<Rightarrow> do {
       rt_assert (4 \<le> a);
       rt_assert (mp_head mp (a - 4) = Pool);
       let mp1 = mp\<lparr>mp_free := mp_free mp + 1, mp_head := (mp_head mp)(a - 4 := Link (mp_block_list mp)),
         mp_block_list := Some (a - 4)\<rparr>;
       (case tq k (QMp m) of
          [] \<Rightarrow> Some (mp1, k)
        | t # _ \<Rightarrow> do {
            (_, k1) \<leftarrow> rt_thread_resume t (upd_thread t (th_error_update (\<lambda>_. RT_EOK)) k);
            k2 \<leftarrow> rt_schedule k1;
            Some (mp1, k2)
          })
     }))"


subsection \<open>The invariant\<close>

text \<open>
  The blocks of a pool, the ones in use, and the free list. The areas of different blocks are
  disjoint, as their starts are multiples of the stride.
\<close>

definition mp_stride :: "rt_mempool \<Rightarrow> nat" where
  "mp_stride mp = unat (mp_block_size mp + 4)"

definition mp_blocks :: "rt_mempool \<Rightarrow> nat set" where
  "mp_blocks mp = (\<lambda>i. i * mp_stride mp) ` {..<unat (mp_total mp)}"

definition mp_used :: "rt_mempool \<Rightarrow> nat set" where
  "mp_used mp = {b \<in> mp_blocks mp. mp_head mp b = Pool}"

fun mp_chain :: "(nat \<Rightarrow> mp_word) \<Rightarrow> nat option \<Rightarrow> nat list \<Rightarrow> bool" where
  "mp_chain h p [] \<longleftrightarrow> p = None"
| "mp_chain h p (b # bs) \<longleftrightarrow> p = Some b \<and> (\<exists>q. h b = Link q \<and> mp_chain h q bs)"

definition mp_inv :: "rt_mempool \<Rightarrow> bool" where
  "mp_inv mp \<longleftrightarrow> mp_type mp = Class_MemPool \<and> mp_stride mp = unat (mp_block_size mp) + 4
     \<and> unat (mp_total mp) * mp_stride mp \<le> unat (mp_size mp)
     \<and> (\<exists>fr. mp_chain (mp_head mp) (mp_block_list mp) fr \<and> distinct fr
          \<and> set fr = mp_blocks mp - mp_used mp \<and> unat (mp_free mp) = length fr)"

lemma mp_invD:
  assumes "mp_inv mp"
  shows "mp_type mp = Class_MemPool" "mp_stride mp = unat (mp_block_size mp) + 4"
    "unat (mp_total mp) * (unat (mp_block_size mp) + 4) \<le> unat (mp_size mp)"
  using assms by (auto simp: mp_inv_def)

lemma mp_chain_upd [simp]: "b \<notin> set bs \<Longrightarrow> mp_chain (h(b := v)) p bs = mp_chain h p bs"
  by (induction h p bs rule: mp_chain.induct) auto

lemma mp_chain_link: "mp_chain h p bs \<Longrightarrow> b \<in> set bs \<Longrightarrow> h b \<noteq> Pool"
  by (induction h p bs rule: mp_chain.induct) auto

lemma finite_mp_blocks [simp]: "finite (mp_blocks mp)"
  by (simp add: mp_blocks_def)

lemma card_mp_blocks: "mp_stride mp \<noteq> 0 \<Longrightarrow> card (mp_blocks mp) = unat (mp_total mp)"
  unfolding mp_blocks_def by (subst card_image) (auto simp: inj_on_def)

lemma mp_free_count:
  assumes "mp_inv mp"
  shows "unat (mp_free mp) + card (mp_used mp) = unat (mp_total mp)"
proof -
  obtain fr where fr: "distinct fr" "set fr = mp_blocks mp - mp_used mp" "unat (mp_free mp) = length fr"
    using assms by (auto simp: mp_inv_def)
  have "mp_used mp \<subseteq> mp_blocks mp" by (auto simp: mp_used_def)
  then have "card (mp_blocks mp) = card (mp_blocks mp - mp_used mp) + card (mp_used mp)"
    using card_Diff_subset [of "mp_used mp" "mp_blocks mp"] card_mono [of "mp_blocks mp" "mp_used mp"]
    by (simp add: finite_subset [of "mp_used mp" "mp_blocks mp"])
  then show ?thesis using assms fr card_mp_blocks [of mp] distinct_card [OF fr(1)]
    by (simp add: mp_inv_def)
qed

lemma mp_blocks_apart:
  assumes "b \<in> mp_blocks mp" "c \<in> mp_blocks mp" "b \<noteq> c"
  shows "b + mp_stride mp \<le> c \<or> c + mp_stride mp \<le> b"
proof -
  obtain i j where "b = i * mp_stride mp" "c = j * mp_stride mp"
    using assms(1,2) by (auto simp: mp_blocks_def)
  moreover from this assms(3) have "i < j \<or> j < i" by (metis nat_neq_iff)
  moreover have "i * mp_stride mp + mp_stride mp \<le> j * mp_stride mp" if "i < j" for i j
    using mult_le_mono1 [of "Suc i" j "mp_stride mp"] that by simp
  ultimately show ?thesis by blast
qed

lemma mp_block_inside:
  assumes "mp_inv mp" "b \<in> mp_blocks mp"
  shows "b + 4 + unat (mp_block_size mp) \<le> unat (mp_size mp)"
proof -
  obtain i where i: "b = i * mp_stride mp" "i < unat (mp_total mp)"
    using assms(2) by (auto simp: mp_blocks_def)
  then have "Suc i * mp_stride mp \<le> unat (mp_total mp) * mp_stride mp" by (intro mult_le_mono1) simp
  then show ?thesis using mp_invD [OF assms(1)] i by simp
qed

subsection \<open>Taking and returning a block\<close>

lemma mp_take_spec:
  assumes inv: "mp_inv mp" and free: "mp_free mp \<noteq> 0"
  shows "\<exists>b mp'. mp_take mp = Some (b + 4, mp') \<and> b \<in> mp_blocks mp - mp_used mp
    \<and> mp_inv mp' \<and> mp_blocks mp' = mp_blocks mp \<and> mp_used mp' = insert b (mp_used mp)
    \<and> mp_free mp' = mp_free mp - 1"
proof -
  obtain fr where fr: "mp_chain (mp_head mp) (mp_block_list mp) fr" "distinct fr"
    "set fr = mp_blocks mp - mp_used mp" "unat (mp_free mp) = length fr"
    using inv by (auto simp: mp_inv_def)
  moreover have "unat (mp_free mp) \<noteq> 0" using free by (simp add: unat_eq_0)
  ultimately obtain b bs q where b: "fr = b # bs" "mp_block_list mp = Some b" "mp_head mp b = Link q"
    "mp_chain (mp_head mp) q bs" by (cases fr) auto
  define mp' where "mp' = mp\<lparr>mp_free := mp_free mp - 1, mp_block_list := q, mp_head := (mp_head mp)(b := Pool)\<rparr>"
  have run: "mp_take mp = Some (b + 4, mp')" using b by (simp add: mp_take_def mp'_def)
  have bl: "mp_blocks mp' = mp_blocks mp" "mp_stride mp' = mp_stride mp"
    by (simp_all add: mp_blocks_def mp_stride_def mp'_def)
  have bin: "b \<in> mp_blocks mp - mp_used mp" using fr(3) b(1) by auto
  then have us: "mp_used mp' = insert b (mp_used mp)" by (auto simp: mp_used_def bl) (simp_all add: mp'_def split: if_splits)
  have "unat (mp_free mp') = length bs"
    using unat_dec [OF free] fr(4) b(1) by (simp add: mp'_def)
  moreover have "mp_chain (mp_head mp') (mp_block_list mp') bs" using b fr(2) by (simp add: mp'_def)
  moreover have "set bs = mp_blocks mp' - mp_used mp'" using fr(2,3) b(1) us bl by auto
  moreover have "mp_type mp' = mp_type mp" "mp_total mp' = mp_total mp" "mp_size mp' = mp_size mp"
    "mp_block_size mp' = mp_block_size mp" by (simp_all add: mp'_def)
  ultimately have "mp_inv mp'" using inv fr(2) b(1) bl by (auto simp: mp_inv_def)
  then show ?thesis using run bin bl us by (auto simp: mp'_def)
qed

definition mp_put :: "nat \<Rightarrow> rt_mempool \<Rightarrow> rt_mempool" where
  "mp_put b mp = mp\<lparr>mp_free := mp_free mp + 1, mp_head := (mp_head mp)(b := Link (mp_block_list mp)),
     mp_block_list := Some b\<rparr>"

lemma mp_put_spec:
  assumes inv: "mp_inv mp" and b: "b \<in> mp_used mp"
  shows "mp_inv (mp_put b mp)" "mp_blocks (mp_put b mp) = mp_blocks mp"
    "mp_used (mp_put b mp) = mp_used mp - {b}" "unat (mp_free (mp_put b mp)) = unat (mp_free mp) + 1"
proof -
  let ?mp = "mp_put b mp"
  obtain fr where fr: "mp_chain (mp_head mp) (mp_block_list mp) fr" "distinct fr"
    "set fr = mp_blocks mp - mp_used mp" "unat (mp_free mp) = length fr"
    using inv by (auto simp: mp_inv_def)
  show bl: "mp_blocks ?mp = mp_blocks mp" by (simp add: mp_blocks_def mp_stride_def mp_put_def)
  show us: "mp_used ?mp = mp_used mp - {b}" by (auto simp: mp_used_def bl) (simp_all add: mp_put_def split: if_splits)
  have bfr: "b \<notin> set fr" "b \<in> mp_blocks mp" using fr(3) b by (auto simp: mp_used_def)
  have "card (mp_used mp) \<noteq> 0"
    using b finite_subset [OF _ finite_mp_blocks, of "mp_used mp" mp] by (auto simp: mp_used_def)
  then have "unat (mp_free mp) < unat (mp_total mp)" using mp_free_count [OF inv] by linarith
  then have "unat (mp_free mp) + 1 < 2 ^ 32"
    using unsigned_less [of "mp_total mp", where ?'a = nat] by simp
  then show fc: "unat (mp_free ?mp) = unat (mp_free mp) + 1" by (simp add: mp_put_def unat_word_ariths)
  have "mp_chain (mp_head ?mp) (mp_block_list ?mp) (b # fr)" using fr(1) bfr by (simp add: mp_put_def)
  moreover have "set (b # fr) = mp_blocks ?mp - mp_used ?mp" using fr(3) bfr b us bl by auto
  moreover have "mp_type ?mp = mp_type mp" "mp_total ?mp = mp_total mp" "mp_size ?mp = mp_size mp"
    "mp_block_size ?mp = mp_block_size mp" "mp_stride ?mp = mp_stride mp"
    by (simp_all add: mp_put_def mp_stride_def)
  ultimately show "mp_inv ?mp" using mp_invD [OF inv] fr(2,4) bfr fc unfolding mp_inv_def
    by (intro conjI exI [of _ "b # fr"]) simp_all
qed


subsection \<open>Setting up\<close>

lemma mp_link_eq:
  assumes "0 < stride"
  shows "mp_link stride n off h (j * stride) =
    (if off \<le> j \<and> j < off + n then Link (Some ((j + 1) * stride)) else h (j * stride))"
  using assms by (induction stride n off h rule: mp_link.induct) (auto simp: not_le)

lemma mp_chain_map:
  assumes "\<And>i. a \<le> i \<Longrightarrow> i < b \<Longrightarrow> h (f i) = Link (if Suc i = b then None else Some (f (Suc i)))" "a < b"
  shows "mp_chain h (Some (f a)) (map f [a..<b])"
  using assms
proof (induction "b - a" arbitrary: a)
  case 0
  then show ?case by simp
next
  case (Suc n)
  show ?case
  proof (cases "Suc a = b")
    case True
    then have "[a..<b] = [a]" by (simp add: upt_rec)
    then show ?thesis using True Suc.prems(1) [of a] by simp
  next
    case False
    then have "mp_chain h (Some (f (Suc a))) (map f [Suc a..<b])"
      using Suc by (intro Suc.hyps(1)) auto
    then show ?thesis using False Suc.prems by (simp add: upt_rec [of a])
  qed
qed

lemma mp_setup_spec:
  assumes mp: "mp_type mp = Class_MemPool" "mp_free mp = mp_total mp" "0 < mp_total mp"
    and st: "unat (mp_block_size mp + 4) = unat (mp_block_size mp) + 4"
    and room: "unat (mp_total mp) * (unat (mp_block_size mp) + 4) \<le> unat (mp_size mp)"
  shows "\<exists>mp'. mp_setup mp = Some mp' \<and> mp_inv mp' \<and> mp_used mp' = {} \<and> mp_total mp' = mp_total mp
    \<and> mp_block_size mp' = mp_block_size mp \<and> mp_size mp' = mp_size mp \<and> mp_static mp' = mp_static mp"
proof -
  let ?st = "mp_stride mp" and ?n = "unat (mp_total mp)"
  have n0: "0 < ?n" using mp(3) by (simp add: word_less_nat_alt)
  have st': "?st = unat (mp_block_size mp) + 4" by (simp add: mp_stride_def st)
  define h where "h = (mp_link ?st ?n 0 (mp_head mp))((?n - 1) * ?st := Link None)"
  define mp' where "mp' = mp\<lparr>mp_head := h, mp_block_list := Some 0\<rparr>"
  have run: "mp_setup mp = Some mp'"
    using n0 room by (simp add: mp_setup_def mp'_def h_def Let_def mp_stride_def [symmetric] st')
  have hi: "h (i * ?st) = Link (if Suc i = ?n then None else Some (Suc i * ?st))" if "i < ?n" for i
  proof (cases "Suc i = ?n")
    case True
    then have "i * ?st = (?n - 1) * ?st" by (metis diff_Suc_1)
    then show ?thesis using True by (simp add: h_def)
  next
    case False
    then have "i * ?st \<noteq> (?n - 1) * ?st" using that st' by simp
    then show ?thesis using mp_link_eq [of ?st ?n 0 "mp_head mp" i] that False st' by (simp add: h_def)
  qed
  let ?fr = "map (\<lambda>i. i * ?st) [0..<?n]"
  have ch: "mp_chain h (Some 0) ?fr"
    using mp_chain_map [of 0 ?n h "\<lambda>i. i * ?st"] hi n0 by simp
  have bl: "mp_blocks mp' = set ?fr" by (auto simp: mp_blocks_def mp'_def mp_stride_def)
  have us: "mp_used mp' = {}" using hi by (auto simp: mp_used_def bl) (simp add: mp'_def)
  have "distinct ?fr" using st' by (simp add: distinct_map inj_on_def)
  moreover have "unat (mp_free mp') = length ?fr" using mp(2) by (simp add: mp'_def)
  moreover have "mp_chain (mp_head mp') (mp_block_list mp') ?fr" using ch by (simp add: mp'_def)
  moreover have "mp_type mp' = Class_MemPool" "mp_stride mp' = unat (mp_block_size mp') + 4"
    "unat (mp_total mp') * mp_stride mp' \<le> unat (mp_size mp')"
    using mp(1) st' room by (simp_all add: mp'_def mp_stride_def)
  ultimately have "mp_inv mp'" unfolding mp_inv_def us bl by (intro conjI exI [of _ ?fr]) simp_all
  then show ?thesis using run us by (simp add: mp'_def)
qed

lemma RT_ALIGN_stride: "unat (RT_ALIGN n 8 + 4) = unat (RT_ALIGN n 8) + 4"
proof -
  have "unat (RT_ALIGN n 8) \<le> 0xfffffff8" unfolding unat_RT_ALIGN_8 by simp
  then show ?thesis by (simp add: unat_word_ariths)
qed

text \<open>
  An area too small for one block: the code writes the last link in front of the area.
\<close>

lemma mp_init_too_small:
  assumes "RT_ALIGN_DOWN psize 8 < RT_ALIGN block_size 8 + 4"
  shows "rt_mp_init m psize block_size s = None"
proof -
  have "RT_ALIGN_DOWN psize 8 div (RT_ALIGN block_size 8 + 4) = 0"
    using assms by (simp add: word_less_nat_alt word_arith_nat_div)
  then show ?thesis
    by (auto simp: rt_mp_init_def mp_setup_def Let_def rt_assert_def split: prod.split)
qed

text \<open>A count whose product with the block size wraps around: the links are written past the area.\<close>

lemma mp_create_overflow:
  assumes "2 ^ 32 \<le> (unat (RT_ALIGN block_size 8) + 4) * unat block_count"
  shows "rt_mp_create m True True block_count block_size s = None"
proof -
  let ?bs = "RT_ALIGN block_size 8"
  have "unat ((?bs + 4) * block_count) < 2 ^ 32" using unsigned_less [of "(?bs + 4) * block_count", where ?'a = nat] by simp
  then have "\<not> unat block_count * unat (?bs + 4) \<le> unat ((?bs + 4) * block_count)"
    using assms RT_ALIGN_stride [of block_size] by (simp add: mult.commute)
  then show ?thesis
    by (auto simp: rt_mp_create_def mp_setup_def Let_def rt_assert_def split: prod.split)
qed

lemma mp_free_eq:
  "rt_mp_free m (Some (b + 4)) (mp, k) = (if mp_head mp b \<noteq> Pool then None
     else map_option (\<lambda>r. (mp_put b mp, snd r)) (resume_one (QMp m) k))"
  by (auto simp: rt_mp_free_def resume_one_def mp_put_def rt_list_isempty_def ipc_list_resume_def
      rt_assert_def Let_def split: list.split option.split Option.bind_splits)

lemma mp_free_spec:
  assumes k: "clock_ok k" and inv: "mp_inv mp" and b: "b \<in> mp_used mp"
  shows "\<exists>k'. rt_mp_free m (Some (b + 4)) (mp, k) = Some (mp_put b mp, k') \<and> clock_ok k'
    \<and> tq k' (QMp m) = tl (tq k (QMp m)) \<and> ipc_frame k k'
    \<and> (\<forall>t ts. tq k (QMp m) = t # ts \<longrightarrow> th_error (threads k' t) = RT_EOK
         \<and> (thread_state k' t = RT_THREAD_READY \<or> thread_state k' t = RT_THREAD_RUNNING))"
proof -
  have q: "ipc_queue (QMp m)" by (simp add: ipc_queue_def)
  obtain k' where "resume_one (QMp m) k = Some (RT_EOK, k')" "clock_ok k'"
    "tq k' (QMp m) = tl (tq k (QMp m))" "ipc_frame k k'"
    "\<forall>t ts. tq k (QMp m) = t # ts \<longrightarrow> th_error (threads k' t) = RT_EOK
       \<and> (thread_state k' t = RT_THREAD_READY \<or> thread_state k' t = RT_THREAD_RUNNING)"
    by (rule resume_one_spec [OF k q]) blast
  then show ?thesis using b by (simp add: mp_free_eq mp_used_def)
qed

subsection \<open>Properties\<close>

lemma mp_alloc_spec:
  assumes inv: "mp_inv mp" and free: "mp_free mp \<noteq> 0"
  shows "\<exists>b mp'. rt_mp_alloc m time (mp, k) = Some (MpDone (Some (b + 4)), mp', k)
    \<and> b \<in> mp_blocks mp - mp_used mp \<and> mp_inv mp' \<and> mp_used mp' = insert b (mp_used mp)
    \<and> mp_free mp' = mp_free mp - 1 \<and> b + 4 + unat (mp_block_size mp) \<le> unat (mp_size mp)
    \<and> (\<forall>c \<in> mp_used mp. b + 4 + unat (mp_block_size mp) \<le> c \<or> c + 4 + unat (mp_block_size mp) \<le> b)"
proof -
  obtain b mp' where b: "mp_take mp = Some (b + 4, mp')" "b \<in> mp_blocks mp - mp_used mp" "mp_inv mp'"
    "mp_used mp' = insert b (mp_used mp)" "mp_free mp' = mp_free mp - 1"
    using mp_take_spec [OF inv free] by blast
  have "b + mp_stride mp \<le> c \<or> c + mp_stride mp \<le> b" if "c \<in> mp_used mp" for c
    using that b(2) by (intro mp_blocks_apart) (auto simp: mp_used_def)
  then have "\<forall>c \<in> mp_used mp. b + 4 + unat (mp_block_size mp) \<le> c \<or> c + 4 + unat (mp_block_size mp) \<le> b"
    by (simp add: mp_invD(2) [OF inv] ac_simps)
  moreover have "rt_mp_alloc m time (mp, k) = Some (MpDone (Some (b + 4)), mp', k)"
    using free b(1) by (simp add: rt_mp_alloc_def)
  ultimately show ?thesis using b mp_block_inside [OF inv, of b] by blast
qed

text \<open>While blocks are left, \<open>rt_mp_alloc\<close> returns at once with one that was not
  in use, lies inside the area and overlaps none in use.\<close>

theorem mp_alloc_correct:
  assumes "mp_inv mp" "mp_free mp \<noteq> 0"
  shows "\<exists>b mp'. rt_mp_alloc m time (mp, k) = Some (MpDone (Some (b + 4)), mp', k)
    \<and> b \<in> mp_blocks mp - mp_used mp \<and> mp_inv mp' \<and> mp_used mp' = insert b (mp_used mp)
    \<and> mp_free mp' = mp_free mp - 1 \<and> b + 4 + unat (mp_block_size mp) \<le> unat (mp_size mp)
    \<and> (\<forall>c \<in> mp_used mp. b + 4 + unat (mp_block_size mp) \<le> c \<or> c + 4 + unat (mp_block_size mp) \<le> b)"
  by (rule mp_alloc_spec [OF assms])

text \<open>Returning a block in use puts it back into the pool; when threads wait for
  the pool, the first of them becomes ready, and it gets a block if it runs while the pool is as it
  was left.\<close>

theorem mp_free_correct:
  assumes "clock_ok k" "mp_inv mp" "b \<in> mp_used mp"
  shows "\<exists>mp' k'. rt_mp_free m (Some (b + 4)) (mp, k) = Some (mp', k') \<and> clock_ok k' \<and> mp_inv mp'
    \<and> mp_used mp' = mp_used mp - {b} \<and> unat (mp_free mp') = unat (mp_free mp) + 1
    \<and> tq k' (QMp m) = tl (tq k (QMp m))
    \<and> (\<forall>t ts. tq k (QMp m) = t # ts \<longrightarrow>
         (thread_state k' t = RT_THREAD_READY \<or> thread_state k' t = RT_THREAD_RUNNING)
         \<and> (\<exists>c mp''. rt_mp_alloc_resume m t time before (mp', k') = Some (MpDone (Some (c + 4)), mp'', k')
              \<and> c \<in> mp_blocks mp - mp_used mp' \<and> mp_inv mp''))"
proof -
  let ?mp = "mp_put b mp"
  note put = mp_put_spec [OF assms(2,3)]
  obtain k' where k': "rt_mp_free m (Some (b + 4)) (mp, k) = Some (?mp, k')" "clock_ok k'"
    "tq k' (QMp m) = tl (tq k (QMp m))"
    "\<forall>t ts. tq k (QMp m) = t # ts \<longrightarrow> th_error (threads k' t) = RT_EOK
       \<and> (thread_state k' t = RT_THREAD_READY \<or> thread_state k' t = RT_THREAD_RUNNING)"
    using mp_free_spec [OF assms] by blast
  have "mp_free ?mp \<noteq> 0" using put(4) by auto
  from mp_alloc_spec [OF put(1) this]
  have "\<exists>c mp''. rt_mp_alloc m time' (?mp, k') = Some (MpDone (Some (c + 4)), mp'', k')
      \<and> c \<in> mp_blocks mp - mp_used ?mp \<and> mp_inv mp''" for time' unfolding put(2) by blast
  then have "\<exists>c mp''. rt_mp_alloc_resume m t time before (?mp, k') = Some (MpDone (Some (c + 4)), mp'', k')
      \<and> c \<in> mp_blocks mp - mp_used ?mp \<and> mp_inv mp''" if "th_error (threads k' t) = RT_EOK" for t
    using that by (simp add: rt_mp_alloc_resume_def Let_def)
  then show ?thesis using k' put by (intro exI [of _ ?mp] exI [of _ k']) blast
qed

subsection \<open>Witnesses\<close>

definition demo_pool :: rt_mempool where
  "demo_pool = \<lparr>mp_type = Class_MemPool, mp_static = True, mp_size = 40, mp_block_size = 16,
     mp_block_list = Some 20, mp_total = 2, mp_free = 1,
     mp_head = (\<lambda>_. Pool)(20 := Link None)\<rparr>"

lemma demo_pool_ok: "mp_inv demo_pool" "mp_used demo_pool = {0}" "mp_free demo_pool \<noteq> 0"
proof -
  have b: "mp_blocks demo_pool = {0, 20}"
    by (auto simp: mp_blocks_def mp_stride_def demo_pool_def lessThan_nat_numeral lessThan_Suc)
  then show u: "mp_used demo_pool = {0}" by (auto simp: mp_used_def) (simp_all add: demo_pool_def split: if_splits)
  show "mp_inv demo_pool" unfolding mp_inv_def b u
    by (intro conjI exI [of _ "[20]"]) (simp_all add: demo_pool_def mp_stride_def)
  show "mp_free demo_pool \<noteq> 0" by (simp add: demo_pool_def)
qed

theorem mp_alloc_correct_witness:
  "\<exists>b mp'. rt_mp_alloc 0 0 (demo_pool, demo_kernel) = Some (MpDone (Some (b + 4)), mp', demo_kernel)
     \<and> b \<notin> mp_used demo_pool \<and> mp_inv mp'"
  using mp_alloc_correct [OF demo_pool_ok(1,3), of 0 0 demo_kernel] by blast

theorem mp_free_correct_witness:
  "\<exists>k mp' k'. tq k (QMp 0) = [2] \<and> rt_mp_free 0 (Some 4) (demo_pool, k) = Some (mp', k') \<and> mp_used mp' = {}
     \<and> (thread_state k' 2 = RT_THREAD_READY \<or> thread_state k' 2 = RT_THREAD_RUNNING)"
proof -
  let ?k = "demo_blocked (QMp 0) 1024 (\<lambda>th. th)"
  have "clock_ok ?k"
    using demo_blocked_context [of "\<lambda>th. th" "QMp 0" 1024]
    by (simp add: in_thread_context_def keeps_sched_def ipc_queue_def)
  note c = mp_free_correct [OF this demo_pool_ok(1), where b = 0 and m = 0 and time = 0 and before = 0]
  have "0 \<in> mp_used demo_pool" by (simp add: demo_pool_ok(2))
  from c [OF this] obtain mp' k' where
    "rt_mp_free 0 (Some (0 + 4)) (demo_pool, ?k) = Some (mp', k')" "mp_used mp' = mp_used demo_pool - {0}"
    "\<forall>t ts. tq ?k (QMp 0) = t # ts \<longrightarrow> thread_state k' t = RT_THREAD_READY \<or> thread_state k' t = RT_THREAD_RUNNING"
    by (elim exE conjE) (rule that, assumption+, simp)
  moreover have "tq ?k (QMp 0) = [2]" by (simp add: demo_blocked_def)
  ultimately show ?thesis using demo_pool_ok(2) by (intro exI [of _ ?k] exI [of _ mp'] exI [of _ k']) simp
qed

end
