(* ===== verification/Ring_Buffer.thy ===== *)
theory Ring_Buffer
  imports Fifo
begin

text \<open>
  The byte ring buffer of the drivers (\<open>components/drivers/ipc/ringbuffer.c\<close>): two indices of 31
  bits with a mirror bit each, so that a full buffer and an empty one differ. The lemmas show
  that every operation does to the contents what the corresponding list operation does, also
  where a block wraps around the end of the memory.
\<close>

record rt_ringbuffer =
  rb_buffer :: "u8 list"
  rb_read_mirror :: bool
  rb_read_index :: nat
  rb_write_mirror :: bool
  rb_write_index :: nat
  rb_size :: nat

datatype rt_ringbuffer_state = RB_EMPTY | RB_FULL | RB_HALFFULL

text \<open>Index fields have 31 bits; differences are computed in 32 bits without a sign.\<close>

definition ix31 :: "nat \<Rightarrow> nat" where
  "ix31 n = n mod 2 ^ 31"

definition sub32 :: "nat \<Rightarrow> nat \<Rightarrow> nat" where
  "sub32 a b = (a + 2 ^ 32 - b) mod 2 ^ 32"

text \<open>\<open>rt_memcpy\<close> into the buffer and out of an array; \<open>None\<close> for an access out of range.\<close>

definition copy_in :: "nat \<Rightarrow> u8 list \<Rightarrow> u8 list \<Rightarrow> u8 list option" where
  "copy_in off xs pool = (if off + length xs \<le> length pool
     then Some (take off pool @ xs @ drop (off + length xs) pool) else None)"

definition copy_out :: "nat \<Rightarrow> nat \<Rightarrow> u8 list \<Rightarrow> u8 list option" where
  "copy_out off n xs = (if off + n \<le> length xs then Some (take n (drop off xs)) else None)"

subsection \<open>Operations\<close>

definition rt_ringbuffer_status :: "rt_ringbuffer \<Rightarrow> rt_ringbuffer_state" where
  "rt_ringbuffer_status rb =
     (if rb_read_index rb = rb_write_index rb
      then (if rb_read_mirror rb = rb_write_mirror rb then RB_EMPTY else RB_FULL)
      else RB_HALFFULL)"

definition rt_ringbuffer_init :: "u8 list \<Rightarrow> int \<Rightarrow> rt_ringbuffer option" where
  "rt_ringbuffer_init pool sz = do {
     rt_assert (0 < sz);
     Some \<lparr>rb_buffer = pool, rb_read_mirror = False, rb_read_index = 0, rb_write_mirror = False,
       rb_write_index = 0, rb_size = nat sz div 8 * 8\<rparr>
   }"

definition rt_ringbuffer_data_len :: "rt_ringbuffer \<Rightarrow> nat" where
  "rt_ringbuffer_data_len rb = (case rt_ringbuffer_status rb of
       RB_EMPTY \<Rightarrow> 0
     | RB_FULL \<Rightarrow> rb_size rb
     | RB_HALFFULL \<Rightarrow>
         (let wi = rb_write_index rb; ri = rb_read_index rb
          in if ri < wi then sub32 wi ri else sub32 (rb_size rb) (sub32 ri wi)))"

definition rt_ringbuffer_space_len :: "rt_ringbuffer \<Rightarrow> nat" where
  "rt_ringbuffer_space_len rb = sub32 (rb_size rb) (rt_ringbuffer_data_len rb)"

text \<open>The copy of a block into the memory, and the new write index and mirror.\<close>

definition rb_write :: "u8 list \<Rightarrow> nat \<Rightarrow> rt_ringbuffer \<Rightarrow> rt_ringbuffer option" where
  "rb_write ptr len rb = (
     let wi = rb_write_index rb; room = sub32 (rb_size rb) wi in
     if len < room then do {
       src \<leftarrow> copy_out 0 len ptr;
       pool \<leftarrow> copy_in wi src (rb_buffer rb);
       Some (rb\<lparr>rb_buffer := pool, rb_write_index := ix31 (wi + len)\<rparr>)
     } else do {
       src1 \<leftarrow> copy_out 0 room ptr;
       pool1 \<leftarrow> copy_in wi src1 (rb_buffer rb);
       src2 \<leftarrow> copy_out room (sub32 len room) ptr;
       pool2 \<leftarrow> copy_in 0 src2 pool1;
       Some (rb\<lparr>rb_buffer := pool2, rb_write_mirror := \<not> rb_write_mirror rb,
         rb_write_index := ix31 (sub32 len room)\<rparr>)
     })"

definition rt_ringbuffer_put :: "u8 list \<Rightarrow> nat \<Rightarrow> rt_ringbuffer \<Rightarrow> (nat \<times> rt_ringbuffer) option" where
  "rt_ringbuffer_put ptr len rb = (
     let sz = rt_ringbuffer_space_len rb in
     if sz = 0 then Some (0, rb)
     else (let len = (if sz < len then sz else len) in do {
       rb1 \<leftarrow> rb_write ptr len rb;
       Some (len, rb1)
     }))"

definition rt_ringbuffer_put_force :: "u8 list \<Rightarrow> nat \<Rightarrow> rt_ringbuffer \<Rightarrow> (nat \<times> rt_ringbuffer) option" where
  "rt_ringbuffer_put_force ptr len rb = (
     let space_length = rt_ringbuffer_space_len rb;
         ptr1 = (if rb_size rb < len then drop (sub32 len (rb_size rb)) ptr else ptr);
         len1 = (if rb_size rb < len then rb_size rb else len);
         wrapped = (\<not> len1 < sub32 (rb_size rb) (rb_write_index rb))
     in do {
       rb1 \<leftarrow> rb_write ptr1 len1 rb;
       let rb2 = (if space_length < len1
         then (let rb' = (if wrapped \<and> rb_write_index rb1 \<le> rb_read_index rb1
                          then rb1\<lparr>rb_read_mirror := \<not> rb_read_mirror rb1\<rparr> else rb1)
               in rb'\<lparr>rb_read_index := rb_write_index rb'\<rparr>)
         else rb1);
       Some (len1, rb2)
     })"

definition rt_ringbuffer_get :: "nat \<Rightarrow> rt_ringbuffer \<Rightarrow> (u8 list \<times> rt_ringbuffer) option" where
  "rt_ringbuffer_get len rb = (
     let sz = rt_ringbuffer_data_len rb; ri = rb_read_index rb; room = sub32 (rb_size rb) ri in
     if sz = 0 then Some ([], rb)
     else (let len = (if sz < len then sz else len) in
       if len < room then do {
         xs \<leftarrow> copy_out ri len (rb_buffer rb);
         Some (xs, rb\<lparr>rb_read_index := ix31 (ri + len)\<rparr>)
       } else do {
         xs \<leftarrow> copy_out ri room (rb_buffer rb);
         ys \<leftarrow> copy_out 0 (sub32 len room) (rb_buffer rb);
         Some (xs @ ys, rb\<lparr>rb_read_mirror := \<not> rb_read_mirror rb, rb_read_index := ix31 (sub32 len room)\<rparr>)
       }))"

text \<open>\<open>rt_ringbuffer_peek\<close> hands out a pointer into the memory, here its index, and a length.\<close>

definition rt_ringbuffer_peek :: "rt_ringbuffer \<Rightarrow> nat option \<times> nat \<times> rt_ringbuffer" where
  "rt_ringbuffer_peek rb = (
     let sz = rt_ringbuffer_data_len rb; ri = rb_read_index rb; room = sub32 (rb_size rb) ri in
     if sz = 0 then (None, 0, rb)
     else if sz < room then (Some ri, sz, rb\<lparr>rb_read_index := ix31 (ri + sz)\<rparr>)
     else (Some ri, room, rb\<lparr>rb_read_mirror := \<not> rb_read_mirror rb, rb_read_index := 0\<rparr>))"

definition rb_store :: "u8 \<Rightarrow> rt_ringbuffer \<Rightarrow> rt_ringbuffer option" where
  "rb_store ch rb = do {
     rt_assert (rb_write_index rb < length (rb_buffer rb));
     Some (rb\<lparr>rb_buffer := (rb_buffer rb)[rb_write_index rb := ch]\<rparr>)
   }"

definition rt_ringbuffer_putchar :: "u8 \<Rightarrow> rt_ringbuffer \<Rightarrow> (nat \<times> rt_ringbuffer) option" where
  "rt_ringbuffer_putchar ch rb = (
     if rt_ringbuffer_space_len rb = 0 then Some (0, rb)
     else do {
       rb1 \<leftarrow> rb_store ch rb;
       Some (1, if rb_write_index rb1 = rb_size rb1 - 1
         then rb1\<lparr>rb_write_mirror := \<not> rb_write_mirror rb1, rb_write_index := 0\<rparr>
         else rb1\<lparr>rb_write_index := ix31 (rb_write_index rb1 + 1)\<rparr>)
     })"

definition rt_ringbuffer_putchar_force :: "u8 \<Rightarrow> rt_ringbuffer \<Rightarrow> (nat \<times> rt_ringbuffer) option" where
  "rt_ringbuffer_putchar_force ch rb = (
     let old_state = rt_ringbuffer_status rb in do {
       rb1 \<leftarrow> rb_store ch rb;
       Some (1, if rb_write_index rb1 = rb_size rb1 - 1
         then (let rb2 = rb1\<lparr>rb_write_mirror := \<not> rb_write_mirror rb1, rb_write_index := 0\<rparr>
               in if old_state = RB_FULL
                  then rb2\<lparr>rb_read_mirror := \<not> rb_read_mirror rb2, rb_read_index := rb_write_index rb2\<rparr>
                  else rb2)
         else (let rb2 = rb1\<lparr>rb_write_index := ix31 (rb_write_index rb1 + 1)\<rparr>
               in if old_state = RB_FULL then rb2\<lparr>rb_read_index := rb_write_index rb2\<rparr> else rb2))
     })"

definition rt_ringbuffer_getchar :: "rt_ringbuffer \<Rightarrow> (u8 option \<times> rt_ringbuffer) option" where
  "rt_ringbuffer_getchar rb = (
     if rt_ringbuffer_data_len rb = 0 then Some (None, rb)
     else do {
       rt_assert (rb_read_index rb < length (rb_buffer rb));
       Some (Some (rb_buffer rb ! rb_read_index rb),
         if rb_read_index rb = rb_size rb - 1
         then rb\<lparr>rb_read_mirror := \<not> rb_read_mirror rb, rb_read_index := 0\<rparr>
         else rb\<lparr>rb_read_index := ix31 (rb_read_index rb + 1)\<rparr>)
     })"

definition rt_ringbuffer_reset :: "rt_ringbuffer \<Rightarrow> rt_ringbuffer" where
  "rt_ringbuffer_reset rb = rb\<lparr>rb_read_mirror := False, rb_read_index := 0,
     rb_write_mirror := False, rb_write_index := 0\<rparr>"

subsection \<open>Writing and reading around the end\<close>

fun ring_write :: "'a list \<Rightarrow> nat \<Rightarrow> 'a list \<Rightarrow> 'a list" where
  "ring_write pool pos [] = pool"
| "ring_write pool pos (x # xs) = ring_write (pool[pos := x]) (Suc pos mod length pool) xs"

lemma length_ring_write [simp]: "length (ring_write pool pos xs) = length pool"
  by (induction pool pos xs rule: ring_write.induct) simp_all

lemma mod_below: "p < n \<Longrightarrow> q mod n < (n :: nat)"
  by (cases n) simp_all

lemma ring_write_append:
  "pos < length pool \<Longrightarrow> ring_write pool pos (xs @ ys)
     = ring_write (ring_write pool pos xs) ((pos + length xs) mod length pool) ys"
proof (induction pool pos xs rule: ring_write.induct)
  case (2 pool pos x xs)
  then have "Suc pos mod length pool < length (pool[pos := x])" by (simp add: mod_below [of pos])
  from 2(1) [OF this] show ?case by (simp add: mod_Suc_eq mod_add_left_eq)
qed simp

lemma ring_write_block:
  "pos + length xs \<le> length pool \<Longrightarrow>
    ring_write pool pos xs = take pos pool @ xs @ drop (pos + length xs) pool"
proof (induction pool pos xs rule: ring_write.induct)
  case (2 pool pos x xs)
  then show ?case
  proof (cases "Suc pos = length pool")
    case True
    then have "length xs = 0" using 2(2) by (simp only: list.size)
    then show ?thesis using True by (simp add: upd_conv_take_nth_drop)
  next
    case False
    then have "ring_write pool pos (x # xs)
        = take (Suc pos) (pool[pos := x]) @ xs @ drop (Suc pos + length xs) (pool[pos := x])"
      using 2 by simp
    then show ?thesis using 2 by (simp add: take_Suc_conv_app_nth take_update_cancel)
  qed
qed simp

text \<open>
  Writing a block behind the contents: what does not fit any more drops out at the front.
\<close>

lemma ring_items_shift:
  assumes "0 < length pool"
  shows "ring_items (pool[out mod length pool := x]) (Suc out) (length pool)
    = tl (ring_items pool out (length pool)) @ [x]"
proof -
  obtain m where m: "length pool = Suc m" using assms by (cases "length pool") auto
  have "ring_items (pool[(Suc out + m) mod length pool := x]) (Suc out) (Suc m)
      = ring_items pool (Suc out) m @ [x]" by (rule ring_items_put) (simp add: m)
  moreover have "(Suc out + m) mod length pool = out mod length pool"
    using mod_add_self2 [of out "length pool"] m by simp
  ultimately show ?thesis using m ring_items_get [of pool out m] by simp
qed

lemma ring_items_write:
  assumes "n \<le> length pool" "0 < length pool"
  shows "ring_items (ring_write pool ((out + n) mod length pool) xs) (out + (n + length xs - length pool))
      (min (length pool) (n + length xs))
    = drop (n + length xs - length pool) (ring_items pool out n @ xs)"
  using assms
proof (induction xs arbitrary: pool out n)
  case Nil
  then show ?case by simp
next
  case (Cons x xs)
  let ?pos = "(out + n) mod length pool" and ?pool = "pool[(out + n) mod length pool := x]"
  have step: "ring_write pool ?pos (x # xs) = ring_write ?pool ((out + Suc n) mod length pool) xs"
    by (simp add: mod_Suc_eq)
  show ?case
  proof (cases "n < length pool")
    case True
    then have "ring_items (ring_write ?pool ((out + Suc n) mod length pool) xs) (out + (Suc n + length xs - length pool))
        (min (length pool) (Suc n + length xs)) = drop (Suc n + length xs - length pool) (ring_items ?pool out (Suc n) @ xs)"
      using Cons.IH [of "Suc n" ?pool out] True Cons.prems(2) by simp
    then show ?thesis unfolding step ring_items_put [OF True] by simp
  next
    case False
    then have n: "n = length pool" using Cons.prems by simp
    have "tl (ring_items pool out n) @ x # xs = tl (ring_items pool out n @ x # xs)"
      using n Cons.prems by (cases "ring_items pool out n")
        (auto dest: arg_cong [where f = length])
    moreover have "ring_items ?pool (Suc out) n = tl (ring_items pool out n) @ [x]"
      using ring_items_shift [of pool out x] Cons.prems n by simp
    ultimately have tl: "ring_items ?pool (Suc out) n @ xs = tl (ring_items pool out n @ x # xs)"
      by (metis append_Cons append_Nil append_assoc)
    have "ring_items (ring_write ?pool ((Suc out + n) mod length pool) xs) (Suc out + (n + length xs - length pool))
        (min (length pool) (n + length xs)) = drop (n + length xs - length pool) (ring_items ?pool (Suc out) n @ xs)"
      using Cons.IH [of n ?pool "Suc out"] Cons.prems by simp
    then have "ring_items (ring_write ?pool ((out + Suc n) mod length pool) xs) (Suc out + length xs)
        (length pool) = drop (length xs) (tl (ring_items pool out n @ x # xs))"
      unfolding tl using n by simp
    then show ?thesis unfolding step using n by (simp add: drop_Suc [symmetric])
  qed
qed

lemma ring_read:
  assumes "n \<le> length pool" "out < length pool"
  shows "ring_items pool out n = (if n < length pool - out then take n (drop out pool)
    else drop out pool @ take (n - (length pool - out)) pool)"
proof (rule nth_equalityI)
  show "length (ring_items pool out n) = length (if n < length pool - out then take n (drop out pool)
    else drop out pool @ take (n - (length pool - out)) pool)" using assms by simp
next
  fix i
  assume "i < length (ring_items pool out n)"
  then have i: "i < n" by simp
  then have l: "ring_items pool out n ! i = pool ! ((out + i) mod length pool)" by (simp add: ring_items_def)
  show "ring_items pool out n ! i = (if n < length pool - out then take n (drop out pool)
    else drop out pool @ take (n - (length pool - out)) pool) ! i"
  proof (cases "out + i < length pool")
    case True
    then show ?thesis using l i by (auto simp: nth_append)
  next
    case False
    then have "(out + i) mod length pool = out + i - length pool"
      using assms i by (simp add: mod_if)
    moreover have "i - (length pool - out) = out + i - length pool" using False assms by simp
    ultimately show ?thesis using l i False assms by (auto simp: nth_append)
  qed
qed

lemma take_ring_items: "m \<le> n \<Longrightarrow> take m (ring_items pool out n) = ring_items pool out m"
  by (simp add: ring_items_def take_map)

lemma drop_ring_items: "drop m (ring_items pool out n) = ring_items pool (out + m) (n - m)"
  by (rule nth_equalityI) (simp_all add: ring_items_def drop_map ac_simps)

subsection \<open>The invariant\<close>

definition rb_len :: "rt_ringbuffer \<Rightarrow> nat" where
  "rb_len rb = (if rb_read_mirror rb = rb_write_mirror rb then rb_write_index rb - rb_read_index rb
     else rb_size rb + rb_write_index rb - rb_read_index rb)"

definition rb_inv :: "rt_ringbuffer \<Rightarrow> bool" where
  "rb_inv rb \<longleftrightarrow> length (rb_buffer rb) = rb_size rb \<and> 0 < rb_size rb \<and> rb_size rb < 2 ^ 31
     \<and> rb_read_index rb < rb_size rb \<and> rb_write_index rb < rb_size rb
     \<and> (if rb_read_mirror rb = rb_write_mirror rb then rb_read_index rb \<le> rb_write_index rb
        else rb_write_index rb \<le> rb_read_index rb)"

definition rb_items :: "rt_ringbuffer \<Rightarrow> u8 list" where
  "rb_items rb = ring_items (rb_buffer rb) (rb_read_index rb) (rb_len rb)"

lemma length_rb_items [simp]: "length (rb_items rb) = rb_len rb"
  by (simp add: rb_items_def)

lemma sub32_eq: "b \<le> a \<Longrightarrow> a < 2 ^ 32 \<Longrightarrow> sub32 a b = a - b"
  by (simp add: sub32_def mod_if)

lemma ix31_eq: "n < 2 ^ 31 \<Longrightarrow> ix31 n = n"
  by (simp add: ix31_def)

lemma rb_invD:
  assumes "rb_inv rb"
  shows "length (rb_buffer rb) = rb_size rb" "0 < rb_size rb" "rb_size rb < 2 ^ 31"
    "rb_read_index rb < rb_size rb" "rb_write_index rb < rb_size rb" "rb_len rb \<le> rb_size rb"
    "rb_write_index rb = (rb_read_index rb + rb_len rb) mod rb_size rb"
proof -
  show 1: "length (rb_buffer rb) = rb_size rb" "0 < rb_size rb" "rb_size rb < 2 ^ 31"
    "rb_read_index rb < rb_size rb" "rb_write_index rb < rb_size rb" "rb_len rb \<le> rb_size rb"
    using assms by (auto simp: rb_inv_def rb_len_def split: if_splits)
  show "rb_write_index rb = (rb_read_index rb + rb_len rb) mod rb_size rb"
    using assms by (auto simp: rb_inv_def rb_len_def split: if_splits)
qed

lemma rb_status_eq:
  "rb_inv rb \<Longrightarrow> rt_ringbuffer_status rb =
    (if rb_len rb = 0 then RB_EMPTY else if rb_len rb = rb_size rb then RB_FULL else RB_HALFFULL)"
  by (auto simp: rt_ringbuffer_status_def rb_inv_def rb_len_def split: if_splits)

lemma rb_data_len_eq: "rb_inv rb \<Longrightarrow> rt_ringbuffer_data_len rb = rb_len rb"
  by (auto simp: rt_ringbuffer_data_len_def rb_status_eq Let_def sub32_eq rb_inv_def rb_len_def split: if_splits)

lemma rb_space_len_eq: "rb_inv rb \<Longrightarrow> rt_ringbuffer_space_len rb = rb_size rb - rb_len rb"
  using rb_invD [of rb] by (simp add: rt_ringbuffer_space_len_def rb_data_len_eq sub32_eq)


subsection \<open>What the operations do to the contents\<close>

text \<open>
  The state after \<open>n\<close> bytes were written and the oldest were dropped to make room; all writing
  operations end in it.
\<close>

definition rb_advance :: "u8 list \<Rightarrow> rt_ringbuffer \<Rightarrow> rt_ringbuffer \<Rightarrow> bool" where
  "rb_advance xs rb rb' \<longleftrightarrow> rb_inv rb' \<and> rb_size rb' = rb_size rb
     \<and> rb_items rb' = drop (rb_len rb + length xs - rb_size rb) (rb_items rb @ xs)"

lemma rb_advanceI:
  assumes inv: "rb_inv rb" "rb_inv rb'" and sz: "rb_size rb' = rb_size rb"
    and buf: "rb_buffer rb' = ring_write (rb_buffer rb) (rb_write_index rb) xs"
    and len: "rb_len rb' = min (rb_size rb) (rb_len rb + length xs)"
    and idx: "rb_read_index rb' = (rb_read_index rb + (rb_len rb + length xs - rb_size rb)) mod rb_size rb"
  shows "rb_advance xs rb rb'"
proof -
  note d = rb_invD [OF inv(1)]
  have "ring_items (ring_write (rb_buffer rb) ((rb_read_index rb + rb_len rb) mod length (rb_buffer rb)) xs)
      (rb_read_index rb + (rb_len rb + length xs - length (rb_buffer rb)))
      (min (length (rb_buffer rb)) (rb_len rb + length xs))
    = drop (rb_len rb + length xs - length (rb_buffer rb)) (ring_items (rb_buffer rb) (rb_read_index rb) (rb_len rb) @ xs)"
    by (rule ring_items_write) (simp_all add: d(1,2,6))
  then have "rb_items rb' = drop (rb_len rb + length xs - rb_size rb) (rb_items rb @ xs)"
    using ring_items_mod [of "rb_buffer rb'"] d(1)
    by (simp add: rb_items_def buf len idx d(7) del: drop_append)
  then show ?thesis using inv(2) sz by (simp add: rb_advance_def)
qed

lemma rb_write_spec:
  assumes inv: "rb_inv rb" and len: "len \<le> rb_size rb" "len \<le> length ptr"
  defines "wrap \<equiv> rb_size rb \<le> rb_write_index rb + len"
  shows "rb_write ptr len rb = Some (rb\<lparr>rb_buffer := ring_write (rb_buffer rb) (rb_write_index rb) (take len ptr),
     rb_write_mirror := (rb_write_mirror rb \<noteq> wrap),
     rb_write_index := (if wrap then rb_write_index rb + len - rb_size rb else rb_write_index rb + len)\<rparr>)"
proof -
  note d = rb_invD(1-6) [OF inv]
  have room: "sub32 (rb_size rb) (rb_write_index rb) = rb_size rb - rb_write_index rb"
    using d by (simp add: sub32_eq)
  show ?thesis
  proof (cases wrap)
    case False
    then have "len < rb_size rb - rb_write_index rb" "ix31 (rb_write_index rb + len) = rb_write_index rb + len"
      using d by (auto simp: wrap_def ix31_eq)
    moreover have "ring_write (rb_buffer rb) (rb_write_index rb) (take len ptr)
        = take (rb_write_index rb) (rb_buffer rb) @ take len ptr @ drop (rb_write_index rb + len) (rb_buffer rb)"
      using ring_write_block [of "rb_write_index rb" "take len ptr" "rb_buffer rb"] False len d
      by (simp add: wrap_def)
    ultimately show ?thesis using False len d
      by (simp add: rb_write_def Let_def room copy_out_def copy_in_def wrap_def)
  next
    case True
    let ?wi = "rb_write_index rb" and ?k = "rb_size rb - rb_write_index rb" and ?m = "len - (rb_size rb - rb_write_index rb)"
    have k: "?k \<le> len" "?m \<le> rb_size rb" "?wi + ?k = rb_size rb" using True d len by (auto simp: wrap_def)
    have "sub32 len ?k = ?m" "ix31 ?m = ?m" using k d len by (simp_all add: sub32_eq ix31_eq)
    moreover have "take len ptr = take ?k ptr @ take ?m (drop ?k ptr)"
      using k(1) by (simp add: take_add [symmetric])
    moreover have "ring_write (rb_buffer rb) ?wi (take ?k ptr @ take ?m (drop ?k ptr))
        = take ?m (drop ?k ptr) @ drop ?m (take ?wi (rb_buffer rb) @ take ?k ptr)"
    proof -
      have 1: "ring_write (rb_buffer rb) ?wi (take ?k ptr) = take ?wi (rb_buffer rb) @ take ?k ptr"
        using ring_write_block [of ?wi "take ?k ptr" "rb_buffer rb"] d k len by simp
      have "(?wi + length (take ?k ptr)) mod length (rb_buffer rb) = 0" using d k len by simp
      then show ?thesis
        using ring_write_append [of ?wi "rb_buffer rb" "take ?k ptr" "take ?m (drop ?k ptr)"] 1 d k len
          ring_write_block [of 0 "take ?m (drop ?k ptr)" "take ?wi (rb_buffer rb) @ take ?k ptr"]
        by simp
    qed
    moreover have "copy_out 0 ?k ptr = Some (take ?k ptr)" "copy_out ?k ?m ptr = Some (take ?m (drop ?k ptr))"
      "copy_in ?wi (take ?k ptr) (rb_buffer rb) = Some (take ?wi (rb_buffer rb) @ take ?k ptr)"
      "copy_in 0 (take ?m (drop ?k ptr)) (take ?wi (rb_buffer rb) @ take ?k ptr)
        = Some (take ?m (drop ?k ptr) @ drop ?m (take ?wi (rb_buffer rb) @ take ?k ptr))"
      using k d len by (simp_all add: copy_out_def copy_in_def)
    moreover have "\<not> len < ?k" "?m = ?wi + len - rb_size rb" using k d by simp_all
    ultimately show ?thesis using True by (simp add: rb_write_def Let_def room)
  qed
qed


text \<open>The new indices and mirrors after a write, as numbers.\<close>

definition rb_written :: "u8 list \<Rightarrow> rt_ringbuffer \<Rightarrow> rt_ringbuffer" where
  "rb_written xs rb = rb\<lparr>rb_buffer := ring_write (rb_buffer rb) (rb_write_index rb) xs,
      rb_write_mirror := (rb_write_mirror rb \<noteq> (rb_size rb \<le> rb_write_index rb + length xs)),
      rb_write_index := (if rb_size rb \<le> rb_write_index rb + length xs
        then rb_write_index rb + length xs - rb_size rb else rb_write_index rb + length xs)\<rparr>"

lemma rb_written_sel:
  "rb_buffer (rb_written xs rb) = ring_write (rb_buffer rb) (rb_write_index rb) xs"
  "rb_write_mirror (rb_written xs rb) = (rb_write_mirror rb \<noteq> (rb_size rb \<le> rb_write_index rb + length xs))"
  "rb_write_index (rb_written xs rb) = (if rb_size rb \<le> rb_write_index rb + length xs
        then rb_write_index rb + length xs - rb_size rb else rb_write_index rb + length xs)"
  "rb_read_mirror (rb_written xs rb) = rb_read_mirror rb"
  "rb_read_index (rb_written xs rb) = rb_read_index rb" "rb_size (rb_written xs rb) = rb_size rb"
  by (simp_all add: rb_written_def)

lemma rb_write_written:
  assumes "rb_inv rb" "len \<le> rb_size rb" "len \<le> length ptr"
  shows "rb_write ptr len rb = Some (rb_written (take len ptr) rb)"
  using rb_write_spec [OF assms] assms(3) by (simp add: rb_written_def min.absorb2)

lemma rb_after_write:
  assumes inv: "rb_inv rb" and fit: "rb_len rb + length xs \<le> rb_size rb"
  shows "rb_advance xs rb (rb_written xs rb)"
proof (rule rb_advanceI [OF inv])
  show "rb_inv (rb_written xs rb)" using inv fit
    by (auto simp: rb_inv_def rb_len_def rb_written_sel split: if_splits)
  show "rb_len (rb_written xs rb) = min (rb_size rb) (rb_len rb + length xs)" using inv fit
    by (auto simp: rb_inv_def rb_len_def rb_written_sel split: if_splits)
qed (use inv fit in \<open>auto simp: rb_written_sel rb_inv_def\<close>)

text \<open>The same after a write that was too long: the read index moves to the write index.\<close>

lemma rb_after_overrun:
  assumes inv: "rb_inv rb" and over: "rb_size rb < rb_len rb + length xs" "length xs \<le> rb_size rb"
    and rb': "rb_buffer rb' = ring_write (rb_buffer rb) (rb_write_index rb) xs"
      "rb_size rb' = rb_size rb" "rb_read_mirror rb' \<noteq> rb_write_mirror rb'"
      "rb_write_index rb' = (if rb_size rb \<le> rb_write_index rb + length xs
        then rb_write_index rb + length xs - rb_size rb else rb_write_index rb + length xs)"
      "rb_read_index rb' = rb_write_index rb'"
  shows "rb_advance xs rb rb'"
proof (rule rb_advanceI [OF inv])
  note d = rb_invD [OF inv]
  have wi: "rb_write_index rb' = (rb_write_index rb + length xs) mod rb_size rb"
    using d(2,5) over(2) by (simp add: rb'(4) mod_if)
  then have lt: "rb_write_index rb' < rb_size rb" using d(2) by simp
  show "rb_inv rb'" using d(1-3) lt by (simp add: rb_inv_def rb')
  show "rb_len rb' = min (rb_size rb) (rb_len rb + length xs)"
    using over(1) rb'(2,3,5) by (auto simp: rb_len_def)
  have "(rb_read_index rb + (rb_len rb + length xs - rb_size rb)) mod rb_size rb
      = (rb_read_index rb + (rb_len rb + length xs - rb_size rb) + rb_size rb) mod rb_size rb" by simp
  also have "\<dots> = (rb_read_index rb + rb_len rb + length xs) mod rb_size rb"
    using over(1) by (simp add: add.assoc)
  also have "\<dots> = rb_write_index rb'" unfolding wi d(7) by (simp add: mod_add_left_eq)
  finally show "rb_read_index rb' = (rb_read_index rb + (rb_len rb + length xs - rb_size rb)) mod rb_size rb"
    by (simp add: rb'(5))
qed (use rb' in simp_all)

lemma rb_put_spec:
  assumes inv: "rb_inv rb" and len: "len \<le> length ptr"
  shows "\<exists>rb'. rt_ringbuffer_put ptr len rb = Some (min len (rb_size rb - rb_len rb), rb') \<and> rb_inv rb'
    \<and> rb_size rb' = rb_size rb \<and> rb_items rb' = rb_items rb @ take (rb_size rb - rb_len rb) (take len ptr)"
proof (cases "rb_size rb - rb_len rb = 0")
  case True
  then show ?thesis using inv by (simp add: rt_ringbuffer_put_def rb_space_len_eq)
next
  case False
  let ?n = "min len (rb_size rb - rb_len rb)"
  have n: "?n \<le> rb_size rb" "?n \<le> length ptr" "rb_len rb + length (take ?n ptr) \<le> rb_size rb"
    using len rb_invD(6) [OF inv] by auto
  obtain rb' where rb': "rb_write ptr ?n rb = Some rb'" "rb_advance (take ?n ptr) rb rb'"
    using rb_write_written [OF inv n(1,2)] rb_after_write [OF inv n(3)] by blast
  have "rt_ringbuffer_put ptr len rb = Some (?n, rb')"
    using False rb'(1) inv by (simp add: rt_ringbuffer_put_def rb_space_len_eq Let_def min_def not_le split: if_splits)
  then show ?thesis using rb'(2) n(3) by (simp add: rb_advance_def min.commute)
qed

lemma rb_put_force_spec:
  assumes inv: "rb_inv rb" and len: "len \<le> length ptr" "len < 2 ^ 32"
  shows "\<exists>rb'. rt_ringbuffer_put_force ptr len rb = Some (min len (rb_size rb), rb') \<and> rb_inv rb'
    \<and> rb_size rb' = rb_size rb
    \<and> rb_items rb' = drop (rb_len rb + len - rb_size rb) (rb_items rb @ take len ptr)"
proof -
  define n where "n = min len (rb_size rb)"
  define ptr1 where "ptr1 = drop (len - n) ptr"
  define xs where "xs = take n ptr1"
  note d = rb_invD(1-6) [OF inv]
  have n: "n \<le> rb_size rb" "n \<le> length ptr1" "length xs = n" using len by (auto simp: n_def ptr1_def xs_def)
  let ?w = "rb_written xs rb"
  have w: "rb_write ptr1 n rb = Some ?w" using rb_write_written [OF inv n(1,2)] by (simp add: xs_def)
  have room: "sub32 (rb_size rb) (rb_write_index rb) = rb_size rb - rb_write_index rb"
    using d by (simp add: sub32_eq)
  have sub: "rb_size rb < len \<Longrightarrow> sub32 len (rb_size rb) = len - rb_size rb" using len by (simp add: sub32_eq)
  define rb' where "rb' = (if rb_size rb - rb_len rb < n
         then (let rb1 = (if rb_size rb \<le> rb_write_index rb + n \<and> rb_write_index ?w \<le> rb_read_index rb
                          then ?w\<lparr>rb_read_mirror := \<not> rb_read_mirror rb\<rparr> else ?w)
               in rb1\<lparr>rb_read_index := rb_write_index ?w\<rparr>)
         else ?w)"
  have run: "rt_ringbuffer_put_force ptr len rb = Some (n, rb')"
  proof -
    have "(if rb_size rb < len then drop (sub32 len (rb_size rb)) ptr else ptr) = ptr1"
      "(if rb_size rb < len then rb_size rb else len) = n" using sub by (auto simp: ptr1_def n_def)
    then show ?thesis unfolding rt_ringbuffer_put_force_def Let_def
      using d by (simp add: w room rb_space_len_eq [OF inv] rb'_def Let_def not_less rb_written_sel le_diff_conv add.commute)
  qed
  have adv: "rb_advance xs rb rb'"
  proof (cases "rb_size rb - rb_len rb < n")
    case False
    then show ?thesis using rb_after_write [OF inv, of xs] n d by (simp add: rb'_def)
  next
    case True
    then have over: "rb_size rb < rb_len rb + length xs" "length xs \<le> rb_size rb" using n by simp_all
    show ?thesis
    proof (rule rb_after_overrun [OF inv over])
      show "rb_read_mirror rb' \<noteq> rb_write_mirror rb'"
        using inv True over n by (auto simp: rb'_def rb_inv_def rb_len_def Let_def rb_written_sel split: if_splits)
    qed (use True in \<open>simp_all add: rb'_def Let_def rb_written_sel\<close>)
  qed
  have "drop (rb_len rb + n - rb_size rb) (rb_items rb @ xs) = drop (rb_len rb + len - rb_size rb) (rb_items rb @ take len ptr)"
  proof (cases "len \<le> rb_size rb")
    case True
    then show ?thesis by (simp add: n_def xs_def ptr1_def)
  next
    case False
    then have "xs = drop (len - rb_size rb) (take len ptr)" using len by (simp add: xs_def ptr1_def n_def drop_take)
    then show ?thesis using False by (simp add: n_def)
  qed
  then show ?thesis using run adv n(3) by (simp add: rb_advance_def n_def)
qed


definition rb_consumed :: "nat \<Rightarrow> rt_ringbuffer \<Rightarrow> rt_ringbuffer" where
  "rb_consumed n rb = rb\<lparr>
      rb_read_mirror := (rb_read_mirror rb \<noteq> (rb_size rb \<le> rb_read_index rb + n)),
      rb_read_index := (if rb_size rb \<le> rb_read_index rb + n
        then rb_read_index rb + n - rb_size rb else rb_read_index rb + n)\<rparr>"

lemma rb_consumed_spec:
  assumes inv: "rb_inv rb" and n: "n \<le> rb_len rb"
  shows "rb_inv (rb_consumed n rb)" "rb_size (rb_consumed n rb) = rb_size rb"
    "rb_items (rb_consumed n rb) = drop n (rb_items rb)"
proof -
  let ?rb = "rb_consumed n rb"
  show "rb_inv ?rb" using assms by (auto simp: rb_inv_def rb_len_def rb_consumed_def split: if_splits)
  show "rb_size ?rb = rb_size rb" by (simp add: rb_consumed_def)
  have "rb_len ?rb = rb_len rb - n" using assms
    by (auto simp: rb_inv_def rb_len_def rb_consumed_def split: if_splits)
  moreover have "rb_read_index ?rb = (rb_read_index rb + n) mod rb_size rb"
    using assms rb_invD(4,6) [OF inv] by (simp add: rb_consumed_def mod_if)
  moreover have "rb_buffer ?rb = rb_buffer rb" by (simp add: rb_consumed_def)
  ultimately show "rb_items ?rb = drop n (rb_items rb)"
    using ring_items_mod [of "rb_buffer rb"] rb_invD(1) [OF inv] by (simp add: rb_items_def drop_ring_items)
qed

lemma rb_get_spec:
  assumes inv: "rb_inv rb"
  shows "rt_ringbuffer_get len rb = Some (take len (rb_items rb), rb_consumed (min len (rb_len rb)) rb)"
proof -
  note d = rb_invD(1-6) [OF inv]
  let ?ri = "rb_read_index rb" and ?n = "min len (rb_len rb)"
  let ?k = "rb_size rb - rb_read_index rb"
  have room: "sub32 (rb_size rb) ?ri = ?k" using d by (simp add: sub32_eq)
  have items: "take len (rb_items rb) = (if ?n < ?k then take ?n (drop ?ri (rb_buffer rb))
      else drop ?ri (rb_buffer rb) @ take (?n - ?k) (rb_buffer rb))"
  proof -
    have "take len (rb_items rb) = take ?n (rb_items rb)" by (simp add: min_def)
    then have "take len (rb_items rb) = ring_items (rb_buffer rb) ?ri ?n"
      by (simp add: rb_items_def take_ring_items)
    then show ?thesis using ring_read [of ?n "rb_buffer rb" ?ri] d by simp
  qed
  show ?thesis
  proof (cases "rb_len rb = 0")
    case True
    then show ?thesis using d items inv
      by (simp add: rt_ringbuffer_get_def rb_data_len_eq rb_consumed_def rb_items_def)
  next
    case False
    have l: "(if rb_len rb < len then rb_len rb else len) = ?n" by simp
    show ?thesis
    proof (cases "?n < ?k")
      case True
      then have "\<not> rb_size rb \<le> ?ri + ?n" "ix31 (?ri + ?n) = ?ri + ?n" using d by (simp_all add: ix31_eq)
      moreover have "copy_out ?ri ?n (rb_buffer rb) = Some (take len (rb_items rb))"
        using True d items by (simp add: copy_out_def)
      ultimately show ?thesis using True False
        by (simp add: rt_ringbuffer_get_def rb_data_len_eq [OF inv] Let_def l room rb_consumed_def del: min_def)
    next
      case wrap: False
      have 1: "rb_size rb \<le> ?ri + ?n" "?ri + ?n - rb_size rb = ?n - ?k" using wrap d by simp_all
      have "?k \<le> ?n" "?n < 2 ^ 31" using wrap d by auto
      then have 2: "sub32 ?n ?k = ?n - ?k" "ix31 (?n - ?k) = ?n - ?k"
        by (auto intro!: sub32_eq ix31_eq)
      have 3: "copy_out ?ri ?k (rb_buffer rb) = Some (drop ?ri (rb_buffer rb))"
        "copy_out 0 (?n - ?k) (rb_buffer rb) = Some (take (?n - ?k) (rb_buffer rb))"
        using d by (simp_all add: copy_out_def)
      show ?thesis using wrap False
        by (simp add: rt_ringbuffer_get_def rb_data_len_eq [OF inv] Let_def l room rb_consumed_def 1 2 3 items)
    qed
  qed
qed

text \<open>
  \<open>rt_ringbuffer_peek\<close> hands out the part of the contents that lies in one piece, and takes it
  out of the buffer.
\<close>

lemma rb_peek_spec:
  assumes inv: "rb_inv rb"
  shows "\<exists>p n rb'. rt_ringbuffer_peek rb = (p, n, rb') \<and> (p = None \<longleftrightarrow> rb_len rb = 0)
    \<and> (rb_len rb \<noteq> 0 \<longrightarrow> 0 < n) \<and> n \<le> rb_len rb \<and> rb_inv rb' \<and> rb_size rb' = rb_size rb
    \<and> rb_items rb' = drop n (rb_items rb) \<and> (\<forall>i. p = Some i \<longrightarrow> take n (drop i (rb_buffer rb)) = take n (rb_items rb))"
proof -
  note d = rb_invD(1-6) [OF inv]
  let ?ri = "rb_read_index rb" and ?k = "rb_size rb - rb_read_index rb"
  have room: "sub32 (rb_size rb) ?ri = ?k" using d by (simp add: sub32_eq)
  show ?thesis
  proof (cases "rb_len rb = 0")
    case True
    moreover from this have "rb_items rb = []" by (simp add: rb_items_def)
    ultimately show ?thesis using inv by (simp add: rt_ringbuffer_peek_def rb_data_len_eq)
  next
    case False
    let ?n = "min (rb_len rb) ?k"
    have run: "rt_ringbuffer_peek rb = (Some ?ri, ?n, rb_consumed ?n rb)"
    proof (cases "rb_len rb < ?k")
      case True
      then have "ix31 (?ri + rb_len rb) = ?ri + rb_len rb" "\<not> rb_size rb \<le> ?ri + rb_len rb"
        using d by (simp_all add: ix31_eq)
      then show ?thesis using True False
        by (simp add: rt_ringbuffer_peek_def rb_data_len_eq [OF inv] Let_def room rb_consumed_def)
    next
      case wrap: False
      then have "?n = ?k" "rb_size rb \<le> ?ri + ?k" "?ri + ?k - rb_size rb = 0" using d by simp_all
      then show ?thesis using wrap False
        by (simp add: rt_ringbuffer_peek_def rb_data_len_eq [OF inv] Let_def room rb_consumed_def)
    qed
    have "take ?n (rb_items rb) = ring_items (rb_buffer rb) ?ri ?n"
      by (simp add: rb_items_def take_ring_items)
    then have "take ?n (drop ?ri (rb_buffer rb)) = take ?n (rb_items rb)"
      using ring_read [of ?n "rb_buffer rb" ?ri] d by (auto simp: min_def)
    then show ?thesis using run rb_consumed_spec [OF inv, of ?n] False d by auto
  qed
qed

lemma rb_putchar_spec:
  assumes inv: "rb_inv rb"
  shows "\<exists>rb'. rt_ringbuffer_putchar ch rb = Some (if rb_len rb = rb_size rb then 0 else 1, rb')
    \<and> rb_inv rb' \<and> rb_size rb' = rb_size rb
    \<and> rb_items rb' = rb_items rb @ (if rb_len rb = rb_size rb then [] else [ch])"
proof (cases "rb_len rb = rb_size rb")
  case True
  then show ?thesis using inv by (simp add: rt_ringbuffer_putchar_def rb_space_len_eq)
next
  case False
  note d = rb_invD(1-6) [OF inv]
  have fit: "rb_len rb + length [ch] \<le> rb_size rb" using False d by simp
  have "rt_ringbuffer_putchar ch rb = Some (1, rb_written [ch] rb)"
    using False d by (auto simp: rt_ringbuffer_putchar_def rb_space_len_eq [OF inv] rb_store_def rb_written_def ix31_eq)
  then show ?thesis using rb_after_write [OF inv fit] False fit by (simp add: rb_advance_def)
qed

lemma rb_putchar_force_spec:
  assumes inv: "rb_inv rb"
  shows "\<exists>rb'. rt_ringbuffer_putchar_force ch rb = Some (1, rb') \<and> rb_inv rb' \<and> rb_size rb' = rb_size rb
    \<and> rb_items rb' = drop (rb_len rb + 1 - rb_size rb) (rb_items rb @ [ch])"
proof (cases "rb_len rb = rb_size rb")
  case False
  note d = rb_invD(1-6) [OF inv]
  have fit: "rb_len rb + length [ch] \<le> rb_size rb" using False d by simp
  have "rt_ringbuffer_putchar_force ch rb = Some (1, rb_written [ch] rb)"
    using False d by (auto simp: rt_ringbuffer_putchar_force_def rb_status_eq [OF inv] rb_store_def
        rb_written_def ix31_eq Let_def)
  then show ?thesis using rb_after_write [OF inv fit] fit by (simp add: rb_advance_def)
next
  case True
  note d = rb_invD(1-6) [OF inv]
  have full: "rt_ringbuffer_status rb = RB_FULL" using True d by (simp add: rb_status_eq [OF inv])
  obtain rb' where rb': "rt_ringbuffer_putchar_force ch rb = Some (1, rb')" by (simp add: rt_ringbuffer_putchar_force_def rb_store_def d Let_def)
  have "rb_advance [ch] rb rb'"
  proof (rule rb_after_overrun [OF inv])
    show "rb_size rb < rb_len rb + length [ch]" "length [ch] \<le> rb_size rb" using True d by simp_all
    show "rb_read_mirror rb' \<noteq> rb_write_mirror rb'"
      using rb' full d inv True
      by (auto simp: rt_ringbuffer_putchar_force_def rb_store_def Let_def rb_inv_def rb_len_def split: if_splits)
    show "rb_write_index rb' = (if rb_size rb \<le> rb_write_index rb + length [ch]
        then rb_write_index rb + length [ch] - rb_size rb else rb_write_index rb + length [ch])"
      using rb' full d
      by (auto simp: rt_ringbuffer_putchar_force_def rb_store_def Let_def ix31_eq split: if_splits)
  qed (use rb' full d in \<open>auto simp: rt_ringbuffer_putchar_force_def rb_store_def Let_def split: if_splits\<close>)
  then show ?thesis using rb' by (simp add: rb_advance_def del: drop_append)
qed

lemma rb_getchar_spec:
  assumes inv: "rb_inv rb"
  shows "\<exists>rb'. rt_ringbuffer_getchar rb = Some (if rb_items rb = [] then None else Some (hd (rb_items rb)), rb')
    \<and> rb_inv rb' \<and> rb_size rb' = rb_size rb \<and> rb_items rb' = tl (rb_items rb)"
proof (cases "rb_len rb = 0")
  case True
  then have "rb_items rb = []" by (simp add: rb_items_def)
  then show ?thesis using True inv by (simp add: rt_ringbuffer_getchar_def rb_data_len_eq)
next
  case False
  note d = rb_invD(1-6) [OF inv]
  obtain m where m: "rb_len rb = Suc m" using False by (cases "rb_len rb") auto
  have it: "rb_items rb = rb_buffer rb ! rb_read_index rb # ring_items (rb_buffer rb) (Suc (rb_read_index rb)) m"
    using d ring_items_get [of "rb_buffer rb" "rb_read_index rb" m] by (simp add: rb_items_def m)
  have "rt_ringbuffer_getchar rb = Some (Some (rb_buffer rb ! rb_read_index rb), rb_consumed 1 rb)"
    using False d by (auto simp: rt_ringbuffer_getchar_def rb_data_len_eq [OF inv] rb_consumed_def ix31_eq)
  then show ?thesis using rb_consumed_spec [OF inv, of 1] m it by (simp add: drop_Suc)
qed

lemma rb_fresh:
  assumes "length pool = sz" "0 < sz" "sz < 2 ^ 31" "sz mod 8 = 0"
  shows "\<exists>rb. rt_ringbuffer_init pool (int sz) = Some rb \<and> rb_inv rb \<and> rb_size rb = sz \<and> rb_items rb = []"
proof -
  have "sz div 8 * 8 = sz" using assms(4) by presburger
  then show ?thesis using assms by (simp add: rt_ringbuffer_init_def rb_inv_def rb_items_def rb_len_def)
qed

lemma rb_reset_spec:
  "rb_inv rb \<Longrightarrow> rb_inv (rt_ringbuffer_reset rb) \<and> rb_size (rt_ringbuffer_reset rb) = rb_size rb
    \<and> rb_items (rt_ringbuffer_reset rb) = []"
  by (simp add: rt_ringbuffer_reset_def rb_inv_def rb_items_def rb_len_def)


subsection \<open>Creating a buffer\<close>

text \<open>\<open>mem\<close> tells which of the two \<open>rt_malloc\<close> succeed.\<close>

definition rt_ringbuffer_create :: "bool \<Rightarrow> u8 list option \<Rightarrow> nat \<Rightarrow> rt_ringbuffer option option" where
  "rt_ringbuffer_create rb_mem pool size0 = do {
     rt_assert (0 < size0);
     let sz = size0 div 8 * 8;
     (if \<not> rb_mem then Some None
      else (case pool of None \<Rightarrow> Some None
        | Some p \<Rightarrow> map_option Some (rt_ringbuffer_init (take sz p) (int sz))))
   }"

text \<open>A size below eight bytes is rounded down to 0, which the initialisation refuses to take.\<close>

lemma ringbuffer_create_small:
  "0 < n \<Longrightarrow> n < 8 \<Longrightarrow> rt_ringbuffer_create True (Some p) n = None"
  by (simp add: rt_ringbuffer_create_def rt_ringbuffer_init_def)

subsection \<open>Refinement\<close>

datatype rb_op = RbPut "u8 list" | RbPutForce "u8 list" | RbGet nat | RbPutChar u8 | RbPutCharForce u8
  | RbGetChar | RbReset

text \<open>One call: the bytes it reads, its result, the new state.\<close>

definition rb_exec :: "rb_op \<Rightarrow> rt_ringbuffer \<Rightarrow> ((u8 list \<times> nat) \<times> rt_ringbuffer) option" where
  "rb_exec op rb = (case op of
       RbPut xs \<Rightarrow> map_option (\<lambda>(n, rb'). (([], n), rb')) (rt_ringbuffer_put xs (length xs) rb)
     | RbPutForce xs \<Rightarrow> map_option (\<lambda>(n, rb'). (([], n), rb')) (rt_ringbuffer_put_force xs (length xs) rb)
     | RbGet n \<Rightarrow> map_option (\<lambda>(ys, rb'). ((ys, length ys), rb')) (rt_ringbuffer_get n rb)
     | RbPutChar x \<Rightarrow> map_option (\<lambda>(n, rb'). (([], n), rb')) (rt_ringbuffer_putchar x rb)
     | RbPutCharForce x \<Rightarrow> map_option (\<lambda>(n, rb'). (([], n), rb')) (rt_ringbuffer_putchar_force x rb)
     | RbGetChar \<Rightarrow> map_option (\<lambda>(c, rb'). (case c of None \<Rightarrow> ([], 0) | Some y \<Rightarrow> ([y], 1), rb')) (rt_ringbuffer_getchar rb)
     | RbReset \<Rightarrow> Some (([], 0), rt_ringbuffer_reset rb))"

text \<open>The same call on the list of the bytes inside, for a capacity \<open>cap\<close>.\<close>

fun rb_model :: "nat \<Rightarrow> rb_op \<Rightarrow> u8 list \<Rightarrow> (u8 list \<times> nat) \<times> u8 list" where
  "rb_model cap (RbPut xs) q =
     (([], min (length xs) (cap - length q)), q @ take (cap - length q) xs)"
| "rb_model cap (RbPutForce xs) q =
     (([], min (length xs) cap), drop (length q + length xs - cap) (q @ xs))"
| "rb_model cap (RbGet n) q = ((take n q, min n (length q)), drop n q)"
| "rb_model cap (RbPutChar x) q = (if length q = cap then (([], 0), q) else (([], 1), q @ [x]))"
| "rb_model cap (RbPutCharForce x) q = (([], 1), drop (length q + 1 - cap) (q @ [x]))"
| "rb_model cap RbGetChar q = (case q of [] \<Rightarrow> (([], 0), []) | y # ys \<Rightarrow> (([y], 1), ys))"
| "rb_model cap RbReset q = (([], 0), [])"

fun rb_op_ok :: "rb_op \<Rightarrow> bool" where
  "rb_op_ok (RbPutForce xs) = (length xs < 2 ^ 32)"
| "rb_op_ok _ = True"

fun rb_run :: "rb_op list \<Rightarrow> rt_ringbuffer \<Rightarrow> ((u8 list \<times> nat) list \<times> rt_ringbuffer) option" where
  "rb_run [] rb = Some ([], rb)"
| "rb_run (op # ops) rb = do {
     (r, rb1) \<leftarrow> rb_exec op rb;
     (rs, rb2) \<leftarrow> rb_run ops rb1;
     Some (r # rs, rb2)
   }"

fun rb_model_run :: "nat \<Rightarrow> rb_op list \<Rightarrow> u8 list \<Rightarrow> (u8 list \<times> nat) list \<times> u8 list" where
  "rb_model_run cap [] q = ([], q)"
| "rb_model_run cap (op # ops) q =
     (let (r, q1) = rb_model cap op q; (rs, q2) = rb_model_run cap ops q1 in (r # rs, q2))"

lemma rb_exec_refines:
  assumes inv: "rb_inv rb" and op: "rb_op_ok op"
  shows "\<exists>r rb'. rb_exec op rb = Some (r, rb') \<and> rb_inv rb' \<and> rb_size rb' = rb_size rb
    \<and> rb_model (rb_size rb) op (rb_items rb) = (r, rb_items rb')"
proof (cases op)
  case (RbPut xs)
  then show ?thesis using rb_put_spec [OF inv, of "length xs" xs] by (auto simp: rb_exec_def)
next
  case (RbPutForce xs)
  then show ?thesis using rb_put_force_spec [OF inv, of "length xs" xs] op
    by (auto simp: rb_exec_def simp del: drop_append)
next
  case (RbGet n)
  then show ?thesis using rb_get_spec [OF inv, of n] rb_consumed_spec [OF inv, of "min n (rb_len rb)"]
    by (auto simp: rb_exec_def min_def)
next
  case (RbPutChar x)
  then show ?thesis using rb_putchar_spec [OF inv, of x] by (auto simp: rb_exec_def split: if_splits)
next
  case (RbPutCharForce x)
  then show ?thesis using rb_putchar_force_spec [OF inv, of x]
    by (auto simp: rb_exec_def simp del: drop_append)
next
  case RbGetChar
  then show ?thesis using rb_getchar_spec [OF inv]
    by (cases "rb_items rb") (auto simp: rb_exec_def)
next
  case RbReset
  then show ?thesis using rb_reset_spec [OF inv] by (auto simp: rb_exec_def)
qed

lemma rb_run_refines:
  assumes "rb_inv rb" "\<forall>op \<in> set ops. rb_op_ok op"
  shows "\<exists>rs rb'. rb_run ops rb = Some (rs, rb') \<and> rb_inv rb' \<and> rb_size rb' = rb_size rb
    \<and> rb_model_run (rb_size rb) ops (rb_items rb) = (rs, rb_items rb')"
  using assms
proof (induction ops arbitrary: rb)
  case (Cons op ops)
  obtain r rb1 where r: "rb_exec op rb = Some (r, rb1)" "rb_inv rb1" "rb_size rb1 = rb_size rb"
    "rb_model (rb_size rb) op (rb_items rb) = (r, rb_items rb1)"
    using rb_exec_refines [OF Cons.prems(1), of op] Cons.prems(2) by auto
  obtain rs rb2 where "rb_run ops rb1 = Some (rs, rb2)" "rb_inv rb2" "rb_size rb2 = rb_size rb1"
    "rb_model_run (rb_size rb1) ops (rb_items rb1) = (rs, rb_items rb2)"
    using Cons.IH [OF r(2)] Cons.prems(2) by auto
  then show ?case using r by simp
qed simp

text \<open>Single bytes in and out: the buffer is a bounded first-in first-out queue.\<close>

definition rb_put1 :: "u8 \<Rightarrow> rt_ringbuffer \<Rightarrow> rt_ringbuffer option" where
  "rb_put1 x rb = (case rt_ringbuffer_putchar x rb of
     Some (n, rb') \<Rightarrow> if n = 1 then Some rb' else None | None \<Rightarrow> None)"

definition rb_get1 :: "rt_ringbuffer \<Rightarrow> (u8 \<times> rt_ringbuffer) option" where
  "rb_get1 rb = (case rt_ringbuffer_getchar rb of
     Some (Some x, rb') \<Rightarrow> Some (x, rb') | _ \<Rightarrow> None)"

interpretation ringbuffer: bounded_fifo rb_inv rb_size "\<lambda>_ _. True" rb_items rb_put1 rb_get1
proof unfold_locales
  fix rb :: rt_ringbuffer and x :: u8 and xs
  assume inv: "rb_inv rb"
  show "length (rb_items rb) \<le> rb_size rb" using rb_invD(6) [OF inv] by simp
  show "length (rb_items rb) < rb_size rb \<Longrightarrow> \<exists>rb'. rb_put1 x rb = Some rb' \<and> rb_inv rb'
      \<and> rb_items rb' = rb_items rb @ [x] \<and> rb_size rb' = rb_size rb \<and> (\<lambda>_. True) = (\<lambda>_. True)"
    using rb_putchar_spec [OF inv, of x] by (auto simp: rb_put1_def)
  show "length (rb_items rb) = rb_size rb \<Longrightarrow> rb_put1 x rb = None"
    using rb_putchar_spec [OF inv, of x] by (auto simp: rb_put1_def)
  show "rb_items rb = x # xs \<Longrightarrow> \<exists>rb'. rb_get1 rb = Some (x, rb') \<and> rb_inv rb'
      \<and> rb_items rb' = xs \<and> rb_size rb' = rb_size rb \<and> (\<lambda>_. True) = (\<lambda>_. True)"
    using rb_getchar_spec [OF inv] by (auto simp: rb_get1_def)
  show "rb_items rb = [] \<Longrightarrow> rb_get1 rb = None"
    using rb_getchar_spec [OF inv] by (auto simp: rb_get1_def)
qed

lemmas rb_char_transfer = ringbuffer.transfer_all

subsection \<open>Property\<close>

text \<open>C20 (ringbuffer_refines). Any sequence of puts, forced puts, gets and resets, of blocks and of
  single bytes, on a ring buffer returns what the same sequence returns on a list of bounded
  length, and no call accesses memory out of range.\<close>

theorem ringbuffer_refines:
  assumes "rb_inv rb" "\<forall>op \<in> set ops. rb_op_ok op"
  shows "\<exists>rs rb'. rb_run ops rb = Some (rs, rb') \<and> rb_inv rb'
    \<and> rb_model_run (rb_size rb) ops (rb_items rb) = (rs, rb_items rb')"
  using rb_run_refines [OF assms] by blast

theorem ringbuffer_refines_witness:
  "\<exists>rb rb'. rt_ringbuffer_init (replicate 8 0) 8 = Some rb
     \<and> rb_run [RbPut [1, 2, 3, 4, 5, 6], RbGet 4, RbPutForce [7, 8, 9, 10, 11, 12, 13], RbGetChar] rb
        = Some ([([], 6), ([1, 2, 3, 4], 4), ([], 7), ([6], 1)], rb')
     \<and> rb_items rb' = [7, 8, 9, 10, 11, 12, 13]"
proof -
  obtain rb where rb: "rt_ringbuffer_init (replicate 8 0) 8 = Some rb" "rb_inv rb" "rb_size rb = 8" "rb_items rb = []"
    using rb_fresh [of "replicate 8 0" 8] by auto
  let ?ops = "[RbPut [1, 2, 3, 4, 5, 6], RbGet 4, RbPutForce [7, 8, 9, 10, 11, 12, 13], RbGetChar]"
  have "\<forall>op \<in> set ?ops. rb_op_ok op" by simp
  from ringbuffer_refines [OF rb(2) this] show ?thesis using rb by (auto simp: Let_def)
qed

end
