(* ===== verification/Ffs.thy ===== *)
theory Ffs
  imports Kernel_Sched
begin

text \<open>
  The two portable versions of \<open>__rt_ffs\<close> (\<open>src/kservice.c\<close>), used where the compiler has no
  instruction for it: a table of 37 entries indexed by a remainder (\<open>RT_USING_TINY_FFS\<close>), and a
  table of the lowest bit of every byte. Both compute what the scheduler expects of
  \<open>__rt_ffs\<close>.
\<close>

subsection \<open>The tables\<close>

definition lowest_bit_tiny :: "nat list" where
  "lowest_bit_tiny =
     [0, 1, 2, 27, 3, 24, 28, 32,
      4, 17, 25, 31, 29, 12, 32, 14,
      5, 8, 18, 32, 26, 23, 32, 16,
      30, 11, 13, 7, 32, 22, 15, 10,
      6, 21, 9, 20, 19]"

definition rt_ffs_tiny :: "u32 \<Rightarrow> nat" where
  "rt_ffs_tiny value = lowest_bit_tiny ! unat (((value AND (value - 1)) XOR value) mod 37)"

definition lowest_bit_bitmap :: "nat list" where
  "lowest_bit_bitmap =
     [0, 0, 1, 0, 2, 0, 1, 0, 3, 0, 1, 0, 2, 0, 1, 0,
      4, 0, 1, 0, 2, 0, 1, 0, 3, 0, 1, 0, 2, 0, 1, 0,
      5, 0, 1, 0, 2, 0, 1, 0, 3, 0, 1, 0, 2, 0, 1, 0,
      4, 0, 1, 0, 2, 0, 1, 0, 3, 0, 1, 0, 2, 0, 1, 0,
      6, 0, 1, 0, 2, 0, 1, 0, 3, 0, 1, 0, 2, 0, 1, 0,
      4, 0, 1, 0, 2, 0, 1, 0, 3, 0, 1, 0, 2, 0, 1, 0,
      5, 0, 1, 0, 2, 0, 1, 0, 3, 0, 1, 0, 2, 0, 1, 0,
      4, 0, 1, 0, 2, 0, 1, 0, 3, 0, 1, 0, 2, 0, 1, 0,
      7, 0, 1, 0, 2, 0, 1, 0, 3, 0, 1, 0, 2, 0, 1, 0,
      4, 0, 1, 0, 2, 0, 1, 0, 3, 0, 1, 0, 2, 0, 1, 0,
      5, 0, 1, 0, 2, 0, 1, 0, 3, 0, 1, 0, 2, 0, 1, 0,
      4, 0, 1, 0, 2, 0, 1, 0, 3, 0, 1, 0, 2, 0, 1, 0,
      6, 0, 1, 0, 2, 0, 1, 0, 3, 0, 1, 0, 2, 0, 1, 0,
      4, 0, 1, 0, 2, 0, 1, 0, 3, 0, 1, 0, 2, 0, 1, 0,
      5, 0, 1, 0, 2, 0, 1, 0, 3, 0, 1, 0, 2, 0, 1, 0,
      4, 0, 1, 0, 2, 0, 1, 0, 3, 0, 1, 0, 2, 0, 1, 0]"

definition rt_ffs_table :: "u32 \<Rightarrow> nat" where
  "rt_ffs_table value =
     (if value = 0 then 0
      else if value AND 0xff \<noteq> 0 then lowest_bit_bitmap ! unat (value AND 0xff) + 1
      else if value AND 0xff00 \<noteq> 0 then lowest_bit_bitmap ! unat (drop_bit 8 (value AND 0xff00)) + 9
      else if value AND 0xff0000 \<noteq> 0 then lowest_bit_bitmap ! unat (drop_bit 16 (value AND 0xff0000)) + 17
      else lowest_bit_bitmap ! unat (drop_bit 24 (value AND 0xff000000)) + 25)"

subsection \<open>The remainder table\<close>

lemma rt_ffs_iff:
  "rt_ffs w = Suc i \<longleftrightarrow> i < 32 \<and> bit w i \<and> (\<forall>j < i. \<not> bit w j)"
proof
  assume "rt_ffs w = Suc i"
  from rt_ffs_Suc [OF this] show "i < 32 \<and> bit w i \<and> (\<forall>j < i. \<not> bit w j)" by blast
next
  assume a: "i < 32 \<and> bit w i \<and> (\<forall>j < i. \<not> bit w j)"
  then have "w \<noteq> 0" by auto
  then obtain i' where i': "rt_ffs w = Suc i'" using rt_ffs_eq_0 [of w] by (cases "rt_ffs w") auto
  from rt_ffs_Suc [OF i'] a have "i' = i" by (metis linorder_neqE_nat)
  then show "rt_ffs w = Suc i" using i' by simp
qed

lemma lowest_bit_isolated:
  assumes i: "i < 32" "bit v i" "\<forall>j < i. \<not> bit v j"
  shows "(v AND (v - 1)) XOR v = push_bit i (1 :: u32)"
proof -
  let ?h = "v AND NOT (push_bit i 1)"
  have "push_bit i 1 + ?h = push_bit i 1 OR ?h"
    by (rule disjunctive_add_eq_or) (rule bit_word_eqI, auto simp: bit_simps)
  also have "\<dots> = v" using i by (intro bit_word_eqI) (auto simp: bit_simps bit_push_one_32)
  finally have v: "v = push_bit i 1 + ?h" by simp
  have "v - 1 = mask i + ?h"
    by (subst v) (simp add: mask_eq_exp_minus_1 push_bit_eq_mult)
  also have "\<dots> = mask i OR ?h"
    by (rule disjunctive_add_eq_or) (rule bit_word_eqI, use i(3) in \<open>auto simp: bit_simps\<close>)
  finally have "v - 1 = mask i OR ?h" .
  then show ?thesis using i
    by (intro bit_word_eqI) (auto simp: bit_simps bit_push_one_32)
qed


lemma lowest_bit_tiny_entries: "list_all (\<lambda>i. lowest_bit_tiny ! (2 ^ i mod 37) = Suc i) [0..<32]"
  by (simp add: lowest_bit_tiny_def upt_rec)

lemma rt_ffs_tiny_eq: "rt_ffs_tiny v = rt_ffs v"
proof (cases "rt_ffs v")
  case 0
  then show ?thesis by (simp add: rt_ffs_tiny_def lowest_bit_tiny_def)
next
  case (Suc i)
  then have i: "i < 32" "bit v i" "\<forall>j < i. \<not> bit v j" by (simp_all add: rt_ffs_iff)
  have "unat (push_bit i 1 mod 37 :: u32) = 2 ^ i mod 37"
  proof -
    have "unat (push_bit i 1 :: u32) = 2 ^ i"
    proof -
      have "(2 :: nat) ^ i < 2 ^ 32" using i(1) by (rule power_strict_increasing) simp
      moreover have "(push_bit i 1 :: u32) = of_nat (2 ^ i)" by (simp add: push_bit_eq_mult)
      ultimately show ?thesis using i(1) by (simp only: unsigned_of_nat) (simp add: take_bit_nat_eq_self)
    qed
    then show ?thesis by (simp add: unat_mod_distrib)
  qed
  moreover have "lowest_bit_tiny ! (2 ^ i mod 37) = Suc i"
    using lowest_bit_tiny_entries i(1) by (simp add: list_all_iff del: upt_rec_numeral)
  ultimately show ?thesis using Suc lowest_bit_isolated [OF i] by (simp add: rt_ffs_tiny_def)
qed

subsection \<open>The byte table\<close>

fun low_bit :: "nat \<Rightarrow> nat" where
  "low_bit n = (if n = 0 \<or> odd n then 0 else Suc (low_bit (n div 2)))"

declare low_bit.simps [simp del]

lemma low_bit_spec: "0 < n \<Longrightarrow> odd (n div 2 ^ low_bit n) \<and> (\<forall>j < low_bit n. even (n div 2 ^ j))"
proof (induction n rule: low_bit.induct)
  case (1 n)
  show ?case
  proof (cases "odd n")
    case True
    then show ?thesis by (simp add: low_bit.simps [of n])
  next
    case False
    then have "0 < n div 2" using 1(2) by presburger
    then have IH: "odd (n div 2 div 2 ^ low_bit (n div 2))" "\<forall>j < low_bit (n div 2). even (n div 2 div 2 ^ j)"
      using 1 False by auto
    have e: "low_bit n = Suc (low_bit (n div 2))" using False 1(2) by (simp add: low_bit.simps [of n])
    have "even (n div 2 ^ j)" if "j < Suc (low_bit (n div 2))" for j
      using that IH(2) False by (cases j) (simp_all add: div_mult2_eq)
    then show ?thesis using IH(1) unfolding e by (simp add: div_mult2_eq)
  qed
qed

lemma low_bit_table: "lowest_bit_bitmap = map low_bit [0..<256]"
  by (simp add: lowest_bit_bitmap_def upt_rec low_bit.simps)

lemma byte_entry:
  assumes b: "(b :: u32) \<noteq> 0" "b < 256"
  shows "lowest_bit_bitmap ! unat b < 8 \<and> bit b (lowest_bit_bitmap ! unat b)
    \<and> (\<forall>j < lowest_bit_bitmap ! unat b. \<not> bit b j)"
proof -
  let ?n = "unat b"
  have n: "0 < ?n" "?n < 256" using b by (simp_all add: word_less_nat_alt unat_gt_0)
  have t: "lowest_bit_bitmap ! ?n = low_bit ?n" using n(2) by (simp add: low_bit_table)
  have bits: "bit b j \<longleftrightarrow> odd (?n div 2 ^ j)" if "j < 32" for j
  proof -
    have "bit b j \<longleftrightarrow> bit ?n j" using that by (simp add: bit_unsigned_iff)
    also have "\<dots> \<longleftrightarrow> odd (?n div 2 ^ j)" by (rule bit_iff_odd)
    finally show ?thesis .
  qed
  note l = low_bit_spec [OF n(1)]
  have "low_bit ?n < 8"
  proof (rule ccontr)
    assume "\<not> low_bit ?n < 8"
    then have "256 \<le> (2 :: nat) ^ low_bit ?n" using power_increasing [of 8 "low_bit ?n" "2 :: nat"] by simp
    then have "?n div 2 ^ low_bit ?n = 0" using n(2) by simp
    then show False using l by simp
  qed
  then show ?thesis using l bits unfolding t by auto
qed

text \<open>The byte at bit \<open>k\<close>, as the code cuts it out.\<close>

lemma byte_bits:
  fixes v :: u32
  defines "byte k \<equiv> drop_bit k (v AND push_bit k 0xff)"
  assumes k: "k \<le> 24"
  shows "bit (byte k) j \<longleftrightarrow> j < 8 \<and> bit v (k + j)" "byte k < 256"
    "v AND push_bit k 0xff = 0 \<longleftrightarrow> (\<forall>j < 8. \<not> bit v (k + j))"
proof -
  have ff: "(0xff :: u32) = mask 8" by (simp add: mask_eq_exp_minus_1)
  show b: "bit (byte k) j \<longleftrightarrow> j < 8 \<and> bit v (k + j)" for j
    using k unfolding byte_def ff by (auto simp: bit_simps)
  have "byte k = take_bit 8 (byte k)" by (rule bit_word_eqI) (auto simp: bit_simps b)
  moreover have "unat (take_bit 8 (byte k)) < 2 ^ 8"
    unfolding unsigned_take_bit_eq by (rule take_bit_nat_less_exp)
  ultimately show "byte k < 256" by (simp add: word_less_nat_alt)
  show "v AND push_bit k 0xff = 0 \<longleftrightarrow> (\<forall>j < 8. \<not> bit v (k + j))"
  proof
    assume "v AND push_bit k 0xff = 0"
    then have z: "\<not> bit (v AND push_bit k 0xff) (k + j)" for j by simp
    show "\<forall>j < 8. \<not> bit v (k + j)"
    proof (intro allI impI)
      fix j :: nat assume "j < 8"
      then show "\<not> bit v (k + j)" using z [of j] k unfolding ff by (simp add: bit_simps)
    qed
  next
    assume a: "\<forall>j < 8. \<not> bit v (k + j)"
    show "v AND push_bit k 0xff = 0"
    proof (rule bit_word_eqI)
      fix n
      show "bit (v AND push_bit k 0xff) n = bit (0 :: u32) n"
        using a [rule_format, of "n - k"] unfolding ff by (auto simp: bit_simps)
    qed
  qed
qed

lemma table_step:
  fixes v :: u32
  assumes k: "k \<le> 24" and low: "\<forall>j < k. \<not> bit v j" and nz: "v AND push_bit k 0xff \<noteq> 0"
  shows "lowest_bit_bitmap ! unat (drop_bit k (v AND push_bit k 0xff)) + (k + 1) = rt_ffs v"
proof -
  let ?b = "drop_bit k (v AND push_bit k 0xff)"
  let ?t = "lowest_bit_bitmap ! unat ?b"
  obtain j where "j < 8" "bit v (k + j)" using nz byte_bits(3) [OF k, of v] by auto
  then have "?b \<noteq> 0" using byte_bits(1) [OF k, of v j] by auto
  from byte_entry [OF this byte_bits(2) [OF k]]
  have t: "?t < 8" "bit v (k + ?t)" "\<forall>j < ?t. \<not> bit v (k + j)"
    using byte_bits(1) [OF k, of v] by auto
  have "\<not> bit v j" if "j < k + ?t" for j
    using low t(3) [rule_format, of "j - k"] that by (cases "j < k") auto
  then have "rt_ffs v = Suc (k + ?t)" using t k by (simp add: rt_ffs_iff)
  then show ?thesis by simp
qed

lemma rt_ffs_table_eq: "rt_ffs_table v = rt_ffs v"
proof (cases "v = 0")
  case True
  then show ?thesis by (simp add: rt_ffs_table_def)
next
  case False
  let ?z = "\<lambda>k. v AND push_bit k 0xff = 0"
  have low: "\<forall>j < k + 8. \<not> bit v j" if "k \<le> 24" "\<forall>j < k. \<not> bit v j" "?z k" for k
  proof (intro allI impI)
    fix j assume "j < k + 8"
    then show "\<not> bit v j"
      using that byte_bits(3) [OF that(1), of v] by (cases "j < k") (auto dest: spec [of _ "j - k"])
  qed
  have l8: "?z 0 \<Longrightarrow> \<forall>j < 8. \<not> bit v j" using low [of 0] by simp
  have l16: "?z 0 \<Longrightarrow> ?z 8 \<Longrightarrow> \<forall>j < 16. \<not> bit v j" using low [of 8] l8 by simp
  have l24: "?z 0 \<Longrightarrow> ?z 8 \<Longrightarrow> ?z 16 \<Longrightarrow> \<forall>j < 24. \<not> bit v j" using low [of 16] l16 by simp
  have nz24: "\<not> ?z 24" if "?z 0" "?z 8" "?z 16"
    using low [of 24] l24 [OF that] False word32_eq_0_iff_bits [of v] by auto
  have "rt_ffs_table v = (if \<not> ?z 0 then lowest_bit_bitmap ! unat (drop_bit 0 (v AND push_bit 0 0xff)) + (0 + 1)
      else if \<not> ?z 8 then lowest_bit_bitmap ! unat (drop_bit 8 (v AND push_bit 8 0xff)) + (8 + 1)
      else if \<not> ?z 16 then lowest_bit_bitmap ! unat (drop_bit 16 (v AND push_bit 16 0xff)) + (16 + 1)
      else lowest_bit_bitmap ! unat (drop_bit 24 (v AND push_bit 24 0xff)) + (24 + 1))"
    using False by (simp add: rt_ffs_table_def push_bit_eq_mult)
  also have "\<dots> = rt_ffs v"
    using table_step [of 0 v] table_step [of 8 v] table_step [of 16 v] table_step [of 24 v] l8 l16 l24 nz24
    by simp
  finally show ?thesis .
qed

text \<open>Both tables give, for every 32-bit value, one plus the index of its
  lowest set bit and 0 for 0, like the instruction the board uses.\<close>

theorem ffs_versions_agree: "rt_ffs_tiny v = rt_ffs v \<and> rt_ffs_table v = rt_ffs v"
  by (simp add: rt_ffs_tiny_eq rt_ffs_table_eq)

end
