(* ===== verification/Rt_List.thy ===== *)
theory Rt_List
  imports Kernel_Sched
begin

text \<open>
  The intrusive doubly linked lists of the kernel (\<open>include/rtservice.h\<close>), on the level of their
  \<open>next\<close> and \<open>prev\<close> pointers. The other theories treat such a list as the list of its members; the
  lemmas here show that the pointer operations implement those list operations. Nodes are
  numbers; a list head is a node of its own.
\<close>

record rt_list =
  lnext :: "nat \<Rightarrow> nat"
  lprev :: "nat \<Rightarrow> nat"

abbreviation set_next :: "nat \<Rightarrow> nat \<Rightarrow> rt_list \<Rightarrow> rt_list" where
  "set_next n v s \<equiv> s\<lparr>lnext := (lnext s)(n := v)\<rparr>"

abbreviation set_prev :: "nat \<Rightarrow> nat \<Rightarrow> rt_list \<Rightarrow> rt_list" where
  "set_prev n v s \<equiv> s\<lparr>lprev := (lprev s)(n := v)\<rparr>"

subsection \<open>Operations\<close>

definition list_init :: "nat \<Rightarrow> rt_list \<Rightarrow> rt_list" where
  "list_init l s = set_prev l l (set_next l l s)"

definition list_insert_after :: "nat \<Rightarrow> nat \<Rightarrow> rt_list \<Rightarrow> rt_list" where
  "list_insert_after l n s = (
     let s1 = set_prev (lnext s l) n s;
         s2 = set_next n (lnext s1 l) s1;
         s3 = set_next l n s2
     in set_prev n l s3)"

definition list_insert_before :: "nat \<Rightarrow> nat \<Rightarrow> rt_list \<Rightarrow> rt_list" where
  "list_insert_before l n s = (
     let s1 = set_next (lprev s l) n s;
         s2 = set_prev n (lprev s1 l) s1;
         s3 = set_prev l n s2
     in set_next n l s3)"

definition list_remove :: "nat \<Rightarrow> rt_list \<Rightarrow> rt_list" where
  "list_remove n s = (
     let s1 = set_prev (lnext s n) (lprev s n) s;
         s2 = set_next (lprev s1 n) (lnext s1 n) s1
     in set_next n n (set_prev n n s2))"

definition list_isempty :: "nat \<Rightarrow> rt_list \<Rightarrow> bool" where
  "list_isempty l s \<longleftrightarrow> lnext s l = l"

partial_function (option) list_len_loop :: "nat \<Rightarrow> nat \<Rightarrow> nat \<Rightarrow> rt_list \<Rightarrow> nat option" where
  "list_len_loop l p n s =
     (if lnext s p \<noteq> l then list_len_loop l (lnext s p) (n + 1) s else Some n)"

definition list_len :: "nat \<Rightarrow> rt_list \<Rightarrow> nat option" where
  "list_len l s = list_len_loop l l 0 s"

subsection \<open>Rings\<close>

text \<open>\<open>ring s h xs\<close>: the list with the head \<open>h\<close> has the members \<open>xs\<close>, in both directions.\<close>

definition linked :: "rt_list \<Rightarrow> nat \<Rightarrow> nat \<Rightarrow> bool" where
  "linked s x y \<longleftrightarrow> lnext s x = y \<and> lprev s y = x"

definition ring :: "rt_list \<Rightarrow> nat \<Rightarrow> nat list \<Rightarrow> bool" where
  "ring s h xs \<longleftrightarrow> successively (linked s) (h # xs @ [h]) \<and> distinct (h # xs)"

lemma successively_transfer:
  "successively P xs \<Longrightarrow> (\<And>x y. x \<in> set (butlast xs) \<Longrightarrow> y \<in> set (tl xs) \<Longrightarrow> P x y \<Longrightarrow> Q x y)
    \<Longrightarrow> successively Q xs"
proof (induction xs rule: induct_list012)
  case (3 x y zs)
  then show ?case by (auto simp: successively_Cons)
qed simp_all

lemma ring_split:
  "ring s h (xs @ ys) \<longleftrightarrow> successively (linked s) (h # xs) \<and> successively (linked s) (ys @ [h])
     \<and> linked s (last (h # xs)) (hd (ys @ [h])) \<and> distinct (h # xs @ ys)"
  using successively_append_iff [of "linked s" "h # xs" "ys @ [h]"] by (auto simp: ring_def)

lemma ring_empty: "ring s h [] \<longleftrightarrow> linked s h h"
  by (auto simp: ring_def)

lemma ring_frame:
  assumes "ring s h xs" "\<forall>x \<in> set (h # xs). lnext s' x = lnext s x \<and> lprev s' x = lprev s x"
  shows "ring s' h xs"
proof -
  have "successively (linked s') (h # xs @ [h])"
    by (rule successively_transfer [of "linked s"]) (use assms in \<open>auto simp: ring_def linked_def dest: in_set_butlastD\<close>)
  then show ?thesis using assms(1) by (simp add: ring_def)
qed

text \<open>A new node between two neighbours.\<close>

lemma ring_insert:
  assumes r: "ring s h (xs @ ys)" and n: "n \<notin> set (h # xs @ ys)"
    and l: "l = last (h # xs)" and m: "m = hd (ys @ [h])"
  shows "ring (set_prev n l (set_next n m (set_prev m n (set_next l n s)))) h (xs @ n # ys)"
proof -
  let ?s = "set_prev n l (set_next n m (set_prev m n (set_next l n s)))"
  have d: "distinct (h # xs @ ys)" using r by (simp add: ring_split)
  have "l \<in> set (h # xs)" unfolding l by (rule last_in_set) simp
  moreover have "m \<in> set (ys @ [h])" unfolding m by (rule hd_in_set) simp
  ultimately have ln: "l \<in> set (h # xs)" "m \<in> set (ys @ [h])" .
  have ne: "n \<noteq> l" "n \<noteq> m" using ln n by auto
  have bl: "l \<notin> set (butlast (h # xs))"
  proof -
    have e: "butlast (h # xs) @ [l] = h # xs" unfolding l by (rule append_butlast_last_id) simp
    have "distinct (h # xs)" using d by simp
    then have "distinct (butlast (h # xs) @ [l])" unfolding e .
    then show ?thesis unfolding distinct_append by auto
  qed
  have tm: "m \<notin> set (tl (ys @ [h]))" using d unfolding m by (cases ys) auto
  have mx: "m \<notin> set xs" and ly: "l \<notin> set ys" using d ln by auto
  have A: "successively (linked ?s) (h # xs)"
  proof (rule successively_transfer [of "linked s"])
    fix x y
    assume "x \<in> set (butlast (h # xs))" "y \<in> set (tl (h # xs))" "linked s x y"
    moreover from this have "x \<noteq> l" "y \<noteq> m" "x \<noteq> n" "y \<noteq> n" using bl mx n by (auto dest: in_set_butlastD simp del: butlast.simps)
    ultimately show "linked ?s x y" by (simp add: linked_def)
  qed (use r in \<open>simp add: ring_split\<close>)
  have B: "successively (linked ?s) (ys @ [h])"
  proof (rule successively_transfer [of "linked s"])
    fix x y
    assume "x \<in> set (butlast (ys @ [h]))" "y \<in> set (tl (ys @ [h]))" "linked s x y"
    moreover from this have "x \<noteq> l" "y \<noteq> m" "x \<noteq> n" "y \<noteq> n"
      using ly tm n by (auto dest: in_set_butlastD simp: tl_append split: list.splits)
    ultimately show "linked ?s x y" by (simp add: linked_def)
  qed (use r in \<open>simp add: ring_split\<close>)
  have "linked ?s l n" "linked ?s n m" using ne by (auto simp: linked_def)
  then have "linked ?s (last (h # xs)) n" "linked ?s n (hd (ys @ [h]))" unfolding l [symmetric] m [symmetric] .
  moreover from this(2) B have "successively (linked ?s) (n # ys @ [h])" unfolding successively_Cons by blast
  ultimately have "successively (linked ?s) ((h # xs) @ n # ys @ [h])"
    unfolding successively_append_iff list.sel using A by blast
  then show ?thesis using d n by (simp add: ring_def)
qed

lemma list_insert_after_ring:
  assumes "ring s h (xs @ ys)" "n \<notin> set (h # xs @ ys)"
  shows "ring (list_insert_after (last (h # xs)) n s) h (xs @ n # ys)"
proof -
  let ?l = "last (h # xs)" and ?m = "hd (ys @ [h])"
  have "lnext s ?l = ?m" using assms(1) by (simp add: ring_split linked_def)
  moreover have "n \<noteq> ?l" using assms(2) last_in_set [of "h # xs"] by auto
  ultimately have "list_insert_after ?l n s = set_prev n ?l (set_next n ?m (set_prev ?m n (set_next ?l n s)))"
    by (simp add: list_insert_after_def Let_def fun_upd_twist del: last.simps)
  then show ?thesis using ring_insert [OF assms refl refl] by simp
qed

lemma list_insert_before_ring:
  assumes "ring s h (xs @ ys)" "n \<notin> set (h # xs @ ys)"
  shows "ring (list_insert_before (hd (ys @ [h])) n s) h (xs @ n # ys)"
proof -
  let ?l = "last (h # xs)" and ?m = "hd (ys @ [h])"
  have "lprev s ?m = ?l" using assms(1) by (simp add: ring_split linked_def)
  moreover have "n \<noteq> ?m" using assms(2) hd_in_set [of "ys @ [h]"] by auto
  ultimately have "list_insert_before ?m n s = set_prev n ?l (set_next n ?m (set_prev ?m n (set_next ?l n s)))"
    by (simp add: list_insert_before_def Let_def fun_upd_twist del: last.simps)
  then show ?thesis using ring_insert [OF assms refl refl] by simp
qed

text \<open>A node taken out: its neighbours are linked, and it is a list of its own.\<close>

lemma list_remove_ring:
  assumes r: "ring s h (xs @ n # ys)"
  shows "ring (list_remove n s) h (xs @ ys)" "ring (list_remove n s) n []"
proof -
  let ?l = "last (h # xs)" and ?m = "hd (ys @ [h])" and ?s = "list_remove n s"
  have d: "distinct (h # xs @ n # ys)" using r by (simp add: ring_split)
  have spl: "successively (linked s) (h # xs)" "successively (linked s) (n # ys @ [h])" "linked s ?l n"
    using r by (simp_all add: ring_split)
  then have tail: "successively (linked s) (ys @ [h])" "linked s n ?m"
    by (auto simp: successively_Cons)
  have "?l \<in> set (h # xs)" by (rule last_in_set) simp
  moreover have "?m \<in> set (ys @ [h])" by (rule hd_in_set) simp
  ultimately have ne: "n \<noteq> ?l" "n \<noteq> ?m" "?l \<notin> set ys" "?m \<notin> set xs" using d by auto
  have s: "lnext ?s = (lnext s)(?l := ?m, n := n)" "lprev ?s = (lprev s)(?m := ?l, n := n)"
    using spl(3) tail(2) ne by (auto simp: list_remove_def Let_def linked_def)
  show "ring ?s n []" by (simp add: ring_empty linked_def s)
  have bl: "?l \<notin> set (butlast (h # xs))"
  proof -
    have e: "butlast (h # xs) @ [?l] = h # xs" by (rule append_butlast_last_id) simp
    have "distinct (h # xs)" using d by simp
    then have "distinct (butlast (h # xs) @ [?l])" unfolding e .
    then show ?thesis unfolding distinct_append by auto
  qed
  have tm: "?m \<notin> set (tl (ys @ [h]))" using d by (cases ys) auto
  have A: "successively (linked ?s) (h # xs)"
  proof (rule successively_transfer [OF spl(1)])
    fix x y
    assume "x \<in> set (butlast (h # xs))" "y \<in> set (tl (h # xs))" "linked s x y"
    moreover from this have "x \<noteq> ?l" "y \<noteq> ?m" "x \<noteq> n" "y \<noteq> n"
      using bl ne d by (auto dest: in_set_butlastD simp del: butlast.simps last.simps)
    ultimately show "linked ?s x y" by (simp add: linked_def s)
  qed
  have B: "successively (linked ?s) (ys @ [h])"
  proof (rule successively_transfer [OF tail(1)])
    fix x y
    assume "x \<in> set (butlast (ys @ [h]))" "y \<in> set (tl (ys @ [h]))" "linked s x y"
    moreover from this have "x \<noteq> ?l" "y \<noteq> ?m" "x \<noteq> n" "y \<noteq> n"
      using ne tm d by (auto dest: in_set_butlastD simp: tl_append split: list.splits simp del: last.simps)
    ultimately show "linked ?s x y" by (simp add: linked_def s)
  qed
  have "linked ?s ?l ?m" using ne by (simp add: linked_def s)
  then show "ring ?s h (xs @ ys)" unfolding ring_split using A B d by simp
qed

lemma list_init_ring: "ring (list_init l s) l []"
  by (simp add: ring_empty list_init_def linked_def)

lemma list_isempty_ring: "ring s h xs \<Longrightarrow> list_isempty h s \<longleftrightarrow> xs = []"
  by (cases xs) (auto simp: ring_def list_isempty_def linked_def)

lemma list_len_loop_spec:
  "successively (linked s) (p # xs @ [l]) \<Longrightarrow> l \<notin> set xs \<Longrightarrow> list_len_loop l p n s = Some (n + length xs)"
proof (induction xs arbitrary: p n)
  case Nil
  then show ?case by (subst list_len_loop.simps) (simp add: linked_def)
next
  case (Cons x xs)
  then have "lnext s p = x" "x \<noteq> l" "successively (linked s) (x # xs @ [l])" by (auto simp: linked_def)
  then show ?case using Cons by (subst list_len_loop.simps) simp
qed

lemma list_len_ring: "ring s h xs \<Longrightarrow> list_len h s = Some (length xs)"
  using list_len_loop_spec [of s h xs h 0] by (simp add: ring_def list_len_def)

lemma list_remove_member:
  assumes "ring s h xs" "x \<in> set xs"
  shows "ring (list_remove x s) h (removeAll x xs)"
proof -
  obtain us vs where xs: "xs = us @ x # vs" using assms(2) by (auto simp: in_set_conv_decomp)
  moreover have "distinct xs" using assms(1) by (simp add: ring_def)
  ultimately show ?thesis using list_remove_ring(1) [of s h us x vs] assms(1) by simp
qed

text \<open>C24 (list_ops_refine). The pointer operations implement the list operations of the model:
  inserting before a head appends, inserting after it prepends, inserting before a member inserts
  there, removing a node deletes it and leaves it a list of its own; the emptiness test and the
  length loop, which ends, agree with the list.\<close>

theorem list_ops_refine:
  assumes "ring s h (xs @ ys)" "n \<notin> set (h # xs @ ys)"
  shows "ring (list_insert_before h n s) h (xs @ ys @ [n])
    \<and> ring (list_insert_after h n s) h (n # xs @ ys)
    \<and> (ys \<noteq> [] \<longrightarrow> ring (list_insert_before (hd ys) n s) h (xs @ n # ys))
    \<and> (\<forall>x \<in> set (xs @ ys). ring (list_remove x s) h (removeAll x (xs @ ys)) \<and> ring (list_remove x s) x [])
    \<and> (list_isempty h s \<longleftrightarrow> xs @ ys = []) \<and> list_len h s = Some (length (xs @ ys))"
proof (intro conjI impI ballI)
  show "ring (list_insert_before h n s) h (xs @ ys @ [n])"
    using list_insert_before_ring [of s h "xs @ ys" "[]" n] assms by simp
  show "ring (list_insert_after h n s) h (n # xs @ ys)"
    using list_insert_after_ring [of s h "[]" "xs @ ys" n] assms by simp
  show "list_isempty h s \<longleftrightarrow> xs @ ys = []" by (rule list_isempty_ring [OF assms(1)])
  show "list_len h s = Some (length (xs @ ys))" by (rule list_len_ring [OF assms(1)])
next
  assume "ys \<noteq> []"
  then show "ring (list_insert_before (hd ys) n s) h (xs @ n # ys)"
    using list_insert_before_ring [OF assms] by simp
next
  fix x assume x: "x \<in> set (xs @ ys)"
  show "ring (list_remove x s) h (removeAll x (xs @ ys))" by (rule list_remove_member [OF assms(1) x])
  obtain us vs where "xs @ ys = us @ x # vs" using x by (meson in_set_conv_decomp)
  then show "ring (list_remove x s) x []" using list_remove_ring(2) [of s h us x vs] assms(1) by simp
qed

theorem list_ops_refine_witness:
  "\<exists>s. ring s 0 [1, 2] \<and> ring (list_insert_before 0 3 s) 0 [1, 2, 3] \<and> list_len 0 s = Some 2"
proof -
  let ?s = "list_insert_before 0 2 (list_insert_before 0 1 (list_init 0 \<lparr>lnext = \<lambda>_. 9, lprev = \<lambda>_. 9\<rparr>))"
  have "ring ?s 0 ([] @ [1, 2])"
    by (simp add: ring_def linked_def list_init_def list_insert_before_def Let_def)
  from list_ops_refine [OF this, of 3] this show ?thesis by (intro exI [of _ ?s]) simp
qed

end
