(* ===== verification/App_AiChat.thy ===== *)
theory App_AiChat
  imports Prelude
begin

text \<open>
  The AI chat client of the HMI application (\<open>apps/app_hmi_board_gui/app/app_ai_chat.c\<close>): the UI
  hands a prompt to a worker thread, which posts it to a relay server as JSON and leaves the reply
  for the UI to fetch. Strings are character lists without the terminating zero. The network and
  the files of the relay address are parameters.
\<close>

abbreviation (input) AI_CHAT_PROMPT_MAX_LEN :: nat where "AI_CHAT_PROMPT_MAX_LEN \<equiv> 256"

definition ai_chat_json_body_len :: nat where
  "ai_chat_json_body_len = AI_CHAT_PROMPT_MAX_LEN + 32"

text \<open>
  \<open>rt_strncpy\<close> with the zero written behind it, and \<open>rt_snprintf\<close>: both cut off what does not fit
  into a buffer of \<open>n\<close> bytes.
\<close>

definition fit :: "nat \<Rightarrow> string \<Rightarrow> string" where
  "fit n s = take (n - 1) s"




subsection \<open>Escaping\<close>

text \<open>The loop of \<open>ai_chat_json_escape\<close>: what it writes from position \<open>pos\<close> on.\<close>

fun json_escape_loop :: "nat \<Rightarrow> nat \<Rightarrow> string \<Rightarrow> string" where
  "json_escape_loop out_len pos [] = []"
| "json_escape_loop out_len pos (ch # inp) =
     (if pos < out_len - 1 then
        (if ch = CHR 0x22 \<or> ch = CHR 0x5C then
           (if out_len \<le> pos + 2 then []
            else CHR 0x5C # ch # json_escape_loop out_len (pos + 2) inp)
         else if ch = CHR 0x0D \<or> ch = CHR 0x0A then
           (if out_len \<le> pos + 2 then []
            else CHR 0x5C # CHR ''n'' # json_escape_loop out_len (pos + 2) inp)
         else ch # json_escape_loop out_len (pos + 1) inp)
      else [])"

definition ai_chat_json_escape :: "nat \<Rightarrow> string \<Rightarrow> string" where
  "ai_chat_json_escape out_len inp = json_escape_loop out_len 0 inp"

definition ai_chat_json_body :: "string \<Rightarrow> string" where
  "ai_chat_json_body prompt = fit ai_chat_json_body_len
     (''{'' @ [CHR 0x22] @ ''prompt'' @ [CHR 0x22] @ '':'' @ [CHR 0x22]
      @ ai_chat_json_escape (AI_CHAT_PROMPT_MAX_LEN * 2) prompt @ [CHR 0x22] @ ''}'')"

text \<open>
  The characters of a JSON string literal as \<open>json.loads\<close> of the relay server (\<open>tools/ai_relay_server.py\<close>) reads them:
  a quote or a control character that is not escaped is an error, and so is an unknown escape. \<open>\u\<close>, which the
  client never writes, is left out.
\<close>

definition json_escapes :: "(char \<times> char) list" where
  "json_escapes = [(CHR 0x22, CHR 0x22), (CHR 0x5C, CHR 0x5C), (CHR ''/'', CHR ''/''), (CHR ''b'', CHR 0x08),
     (CHR ''f'', CHR 0x0C), (CHR ''n'', CHR 0x0A), (CHR ''r'', CHR 0x0D), (CHR ''t'', CHR 0x09)]"

fun json_unescape :: "string \<Rightarrow> string option" where
  "json_unescape [] = Some []"
| "json_unescape (c # cs) =
     (if c = CHR 0x5C then
        (case cs of [] \<Rightarrow> None
         | d # ds \<Rightarrow> (case map_of json_escapes d of None \<Rightarrow> None | Some e \<Rightarrow> map_option ((#) e) (json_unescape ds)))
      else if c = CHR 0x22 \<or> (of_char c :: nat) < 32 then None
      else map_option ((#) c) (json_unescape cs))"

definition newline :: "char \<Rightarrow> char" where
  "newline c = (if c = CHR 0x0D then CHR 0x0A else c)"

text \<open>The only control characters that the client escapes are the carriage return and the newline.\<close>

definition clean :: "string \<Rightarrow> bool" where
  "clean s \<longleftrightarrow> (\<forall>c \<in> set s. c = CHR 0x0D \<or> c = CHR 0x0A \<or> 32 \<le> (of_char c :: nat))"

lemma json_escape_bound: "1 \<le> n \<Longrightarrow> pos + length (json_escape_loop n pos inp) \<le> max pos (n - 1)"
proof (induction n pos inp rule: json_escape_loop.induct)
  case (2 n pos ch inp)
  show ?case
  proof (cases "pos < n - 1")
    case False
    then show ?thesis by simp
  next
    case True
    then show ?thesis using 2 by auto
  qed
qed simp

text \<open>Where the buffer is too small, a prefix is escaped, and never half an escape.\<close>

definition esc_char :: "char \<Rightarrow> string" where
  "esc_char ch = (if ch = CHR 0x22 \<or> ch = CHR 0x5C then [CHR 0x5C, ch]
     else if ch = CHR 0x0D \<or> ch = CHR 0x0A then [CHR 0x5C, CHR ''n''] else [ch])"

lemma json_unescape_esc:
  "json_unescape (esc_char ch @ ys) = (if clean [ch] then map_option ((#) (newline ch)) (json_unescape ys) else None)"
  by (auto simp: esc_char_def newline_def clean_def json_escapes_def)

lemma json_unescape_map:
  "json_unescape (concat (map esc_char inp)) = (if clean inp then Some (map newline inp) else None)"
proof (induction inp)
  case (Cons c inp)
  have "clean (c # inp) \<longleftrightarrow> clean [c] \<and> clean inp" by (simp add: clean_def)
  then show ?case using Cons by (simp add: json_unescape_esc)
qed (simp add: clean_def)

lemma json_escape_step:
  "json_escape_loop n pos (ch # inp) = [] \<or>
    (\<exists>pos'. json_escape_loop n pos (ch # inp) = esc_char ch @ json_escape_loop n pos' inp)"
  by (auto simp: esc_char_def)

lemma json_escape_prefix:
  "\<exists>k \<le> length inp. json_escape_loop n pos inp = concat (map esc_char (take k inp))"
proof (induction inp arbitrary: pos)
  case (Cons ch inp)
  from json_escape_step [of n pos ch inp] show ?case
  proof
    assume "json_escape_loop n pos (ch # inp) = []"
    then show ?thesis by (intro exI [of _ 0]) simp
  next
    assume "\<exists>pos'. json_escape_loop n pos (ch # inp) = esc_char ch @ json_escape_loop n pos' inp"
    then obtain pos' where e: "json_escape_loop n pos (ch # inp) = esc_char ch @ json_escape_loop n pos' inp" ..
    obtain k where "k \<le> length inp" "json_escape_loop n pos' inp = concat (map esc_char (take k inp))"
      using Cons.IH by blast
    then show ?thesis unfolding e by (intro exI [of _ "Suc k"]) simp
  qed
qed simp

lemma json_escape_fits:
  "pos + 2 * length inp < n \<Longrightarrow> json_escape_loop n pos inp = concat (map esc_char inp)"
  by (induction n pos inp rule: json_escape_loop.induct) (auto simp: esc_char_def)

text \<open>A prompt with a tab is sent to the server with the tab in it, which the server refuses.\<close>

lemma json_escape_tab: "json_unescape (ai_chat_json_escape 512 [CHR ''a'', CHR 0x09]) = None"
  by (simp add: ai_chat_json_escape_def)

text \<open>
  The buffer of the request body is shorter than the escaped prompt may get: the end of the JSON
  text is then cut off.
\<close>

lemma ai_chat_body_truncated:
  assumes "275 \<le> length (ai_chat_json_escape 512 prompt)"
  shows "\<exists>ys. ai_chat_json_body prompt = ''{'' @ [CHR 0x22] @ ''prompt'' @ [CHR 0x22] @ '':'' @ [CHR 0x22] @ ys
    \<and> length ys = 276 \<and> ys = take 276 (ai_chat_json_escape 512 prompt @ [CHR 0x22])"
proof -
  let ?e = "ai_chat_json_escape 512 prompt"
  have "take 276 (?e @ [CHR 0x22, CHR ''}'']) = take 276 (?e @ [CHR 0x22])"
    using assms by (cases "length ?e = 275") simp_all
  moreover have "length (take 276 (?e @ [CHR 0x22])) = 276" using assms by simp
  ultimately show ?thesis
    by (intro exI [of _ "take 276 (?e @ [CHR 0x22])"])
      (simp add: ai_chat_json_body_def ai_chat_json_body_len_def fit_def del: take_append)
qed

lemma ai_chat_body_truncated_example:
  "275 \<le> length (ai_chat_json_escape 512 (replicate 200 (CHR 0x22)))"
proof -
  have "json_escape_loop 512 pos (replicate n (CHR 0x22)) = concat (replicate n [CHR 0x5C, CHR 0x22])"
    if "pos + 2 * n < 512" for pos n
    using that by (induction n arbitrary: pos) simp_all
  then show ?thesis
    by (simp add: ai_chat_json_escape_def length_concat sum_list_replicate)
qed

subsection \<open>State\<close>

text \<open>
  The variables of the module; \<open>ai_sem\<close> is the value of the semaphore once it is created. The
  accesses under \<open>g_ai_lock\<close> are single steps.
\<close>

record ai_chat =
  ai_busy :: bool
  ai_reply_ready :: bool
  ai_prompt :: string
  ai_reply :: string
  ai_relay_host :: string
  ai_runtime_host :: string
  ai_runtime_port :: int
  ai_lock_inited :: bool
  ai_sem :: "nat option"
  ai_thread :: bool




definition ai_chat_lock_init :: "ai_chat \<Rightarrow> ai_chat" where
  "ai_chat_lock_init s = (if \<not> ai_lock_inited s then s\<lparr>ai_lock_inited := True\<rparr> else s)"


subsection \<open>The request\<close>












subsection \<open>The worker thread and the interface of the UI\<close>










definition ai_chat_is_busy :: "ai_chat \<Rightarrow> bool" where
  "ai_chat_is_busy s = ai_busy s"



subsection \<open>The protocol\<close>













lemma length_fit [simp]: "0 < n \<Longrightarrow> length (fit n s) < n"
  by (simp add: fit_def)

lemma fit_short [simp]: "length s < n \<Longrightarrow> fit n s = s"
  by (simp add: fit_def)

lemma lock_init_sel [simp]:
  "ai_busy (ai_chat_lock_init s) = ai_busy s" "ai_reply_ready (ai_chat_lock_init s) = ai_reply_ready s"
  "ai_prompt (ai_chat_lock_init s) = ai_prompt s" "ai_reply (ai_chat_lock_init s) = ai_reply s"
  "ai_relay_host (ai_chat_lock_init s) = ai_relay_host s" "ai_runtime_host (ai_chat_lock_init s) = ai_runtime_host s"
  "ai_sem (ai_chat_lock_init s) = ai_sem s" "ai_thread (ai_chat_lock_init s) = ai_thread s"
  "ai_runtime_port (ai_chat_lock_init s) = ai_runtime_port s" "ai_lock_inited (ai_chat_lock_init s)"
  by (simp_all add: ai_chat_lock_init_def)












subsection \<open>Properties\<close>




text \<open>
  C34 (json_escape_roundtrip). A prompt that fits its buffer is escaped completely. Read as \<open>json.loads\<close> reads the
  literal, it gives the prompt with its carriage returns as newlines, unless the prompt has another control
  character: then the server refuses it. In a shorter buffer the result still fits, with its terminating zero, and is
  the escaped start of the prompt, never half an escape.
\<close>

theorem json_escape_roundtrip:
  assumes "1 \<le> n"
  shows "length (ai_chat_json_escape n inp) < n
    \<and> (\<exists>k \<le> length inp. json_unescape (ai_chat_json_escape n inp)
        = (if clean (take k inp) then Some (map newline (take k inp)) else None))
    \<and> (length inp < AI_CHAT_PROMPT_MAX_LEN \<longrightarrow> json_unescape (ai_chat_json_escape (AI_CHAT_PROMPT_MAX_LEN * 2) inp)
        = (if clean inp then Some (map newline inp) else None))"
proof -
  have "length (ai_chat_json_escape n inp) < n"
    using json_escape_bound [OF assms, of 0 inp] assms by (simp add: ai_chat_json_escape_def)
  moreover obtain k where "k \<le> length inp" "json_escape_loop n 0 inp = concat (map esc_char (take k inp))"
    using json_escape_prefix [of inp n 0] by blast
  ultimately show ?thesis
    using json_escape_fits [of 0 inp 512] by (auto simp: ai_chat_json_escape_def json_unescape_map)
qed

theorem json_escape_roundtrip_witness:
  "json_unescape (ai_chat_json_escape 512 [CHR ''a'', CHR 0x22, CHR 0x0D]) = Some [CHR ''a'', CHR 0x22, CHR 0x0A]
   \<and> length (ai_chat_json_escape 4 [CHR 0x22, CHR 0x22, CHR 0x22]) < 4"
  using json_escape_roundtrip [of 512 "[CHR ''a'', CHR 0x22, CHR 0x0D]"]
    json_escape_roundtrip [of 4 "[CHR 0x22, CHR 0x22, CHR 0x22]"]
  by (simp add: newline_def clean_def)


end
