(* ===== verification/App_Snake.thy ===== *)
theory App_Snake
  imports Prelude
begin

text \<open>
  The snake game of the HMI application
  (\<open>apps/app_hmi_board_gui/lvgl/user_events/events_quweidonghua.c\<close>), without the drawing. The snake is
  the array \<open>g_snake\<close> with the head at index 0 and its length; the results of \<open>rand\<close> during one call
  are a sequence \<open>r 0, r 1, ...\<close>.
\<close>

abbreviation (input) SNAKE_COLS :: int where "SNAKE_COLS \<equiv> 15"
abbreviation (input) SNAKE_ROWS :: int where "SNAKE_ROWS \<equiv> 13"
abbreviation (input) SNAKE_MAX_LEN :: nat where "SNAKE_MAX_LEN \<equiv> 195"

record point_t =
  px :: int
  py :: int

record snake =
  g_snake :: "point_t list"
  g_snake_len :: nat
  g_food :: point_t
  g_snake_dir :: nat
  g_snake_next_dir :: nat
  g_snake_score :: int
  g_snake_over :: bool

abbreviation pt :: "int \<Rightarrow> int \<Rightarrow> point_t" where
  "pt x y \<equiv> \<lparr>px = x, py = y\<rparr>"

definition snake_start :: snake where
  "snake_start = \<lparr>g_snake = replicate SNAKE_MAX_LEN (pt 0 0), g_snake_len = 0, g_food = pt 0 0,
     g_snake_dir = 1, g_snake_next_dir = 1, g_snake_score = 0, g_snake_over = False\<rparr>"

subsection \<open>Operations\<close>

text \<open>The loop that both \<open>snake_place_food\<close> and \<open>snake_step\<close> use to compare a cell with the snake.\<close>

definition snake_hit :: "point_t \<Rightarrow> snake \<Rightarrow> bool" where
  "snake_hit p s = list_ex (\<lambda>i. px (g_snake s ! i) = px p \<and> py (g_snake s ! i) = py p) [0..<g_snake_len s]"

function place_food_loop :: "(nat \<Rightarrow> int) \<Rightarrow> nat \<Rightarrow> snake \<Rightarrow> snake" where
  "place_food_loop r tries s =
     (if tries < 200
      then (let p = pt (r (2 * tries) mod SNAKE_COLS) (r (2 * tries + 1) mod SNAKE_ROWS) in
        if \<not> snake_hit p s then s\<lparr>g_food := p\<rparr> else place_food_loop r (tries + 1) s)
      else s\<lparr>g_food := pt 0 0\<rparr>)"
  by pat_completeness auto
termination by (relation "measure (\<lambda>(_, tries, _). 200 - tries)") auto

declare place_food_loop.simps [simp del]

definition snake_place_food :: "(nat \<Rightarrow> int) \<Rightarrow> snake \<Rightarrow> snake" where
  "snake_place_food r s = place_food_loop r 0 s"

definition snake_new_game :: "(nat \<Rightarrow> int) \<Rightarrow> snake \<Rightarrow> snake" where
  "snake_new_game r s = snake_place_food r
     (s\<lparr>g_snake_len := 4,
        g_snake := (g_snake s)[0 := pt 7 6, 1 := pt 6 6, 2 := pt 5 6, 3 := pt 4 6],
        g_snake_dir := 1, g_snake_next_dir := 1, g_snake_score := 0, g_snake_over := False\<rparr>)"

definition snake_turn :: "snake \<Rightarrow> snake" where
  "snake_turn s =
     (if (g_snake_dir s = 0 \<and> g_snake_next_dir s \<noteq> 2) \<or> (g_snake_dir s = 1 \<and> g_snake_next_dir s \<noteq> 3)
        \<or> (g_snake_dir s = 2 \<and> g_snake_next_dir s \<noteq> 0) \<or> (g_snake_dir s = 3 \<and> g_snake_next_dir s \<noteq> 1)
      then s\<lparr>g_snake_dir := g_snake_next_dir s\<rparr> else s)"

definition next_cell :: "nat \<Rightarrow> point_t \<Rightarrow> point_t" where
  "next_cell dir p = (if dir = 0 then p\<lparr>py := py p - 1\<rparr> else if dir = 1 then p\<lparr>px := px p + 1\<rparr>
     else if dir = 2 then p\<lparr>py := py p + 1\<rparr> else if dir = 3 then p\<lparr>px := px p - 1\<rparr> else p)"

definition snake_shift :: "nat \<Rightarrow> point_t \<Rightarrow> point_t list \<Rightarrow> point_t list" where
  "snake_shift len head arr = (fold (\<lambda>i a. a[i := a ! (i - 1)]) (rev [1..<len]) arr)[0 := head]"

definition snake_advance :: "(nat \<Rightarrow> int) \<Rightarrow> point_t \<Rightarrow> snake \<Rightarrow> snake" where
  "snake_advance r head s = (
     let grow = (px head = px (g_food s) \<and> py head = py (g_food s));
         s1 = (if grow then s\<lparr>g_snake_score := g_snake_score s + 10\<rparr> else s);
         s2 = (if grow \<and> g_snake_len s1 < SNAKE_MAX_LEN then s1\<lparr>g_snake_len := g_snake_len s1 + 1\<rparr> else s1);
         s3 = s2\<lparr>g_snake := snake_shift (g_snake_len s2) head (g_snake s2)\<rparr>
     in if grow then snake_place_food r s3 else s3)"

definition out_of_board :: "point_t \<Rightarrow> bool" where
  "out_of_board p = (px p < 0 \<or> SNAKE_COLS \<le> px p \<or> py p < 0 \<or> SNAKE_ROWS \<le> py p)"

definition snake_step :: "bool \<Rightarrow> (nat \<Rightarrow> int) \<Rightarrow> snake \<Rightarrow> snake" where
  "snake_step mode_snake r s = (
     if \<not> mode_snake \<or> g_snake_over s then s
     else (let s1 = snake_turn s; head = next_cell (g_snake_dir s1) (g_snake s1 ! 0) in
       if out_of_board head then s1\<lparr>g_snake_over := True\<rparr>
       else if snake_hit head s1 then s1\<lparr>g_snake_over := True\<rparr>
       else snake_advance r head s1))"

subsection \<open>The snake as a list\<close>

definition snake_body :: "snake \<Rightarrow> point_t list" where
  "snake_body s = take (g_snake_len s) (g_snake s)"

lemma point_eq_iff: "(p :: point_t) = q \<longleftrightarrow> px p = px q \<and> py p = py q"
  by (cases p; cases q) simp

lemma snake_hit_iff:
  assumes "g_snake_len s \<le> length (g_snake s)"
  shows "snake_hit p s = (p \<in> set (snake_body s))"
  using assms by (auto simp: snake_hit_def list_ex_iff snake_body_def in_set_conv_nth point_eq_iff)

lemma shift_loop:
  assumes "1 \<le> n" "n \<le> length arr"
  shows "fold (\<lambda>i a. a[i := a ! (i - 1)]) (rev [1..<n]) arr = arr ! 0 # take (n - 1) arr @ drop n arr"
  using assms
proof (induction n arbitrary: arr rule: nat_induct_at_least)
  case base
  then show ?case by (cases arr) simp_all
next
  case (Suc n)
  from Suc.prems have n: "n < length arr" by simp
  have *: "take (n - Suc 0) (arr[n := v]) = take (n - 1) arr" "(arr[n := v]) ! 0 = arr ! 0"
    "drop n (arr[n := v]) = v # drop (Suc n) arr" for v
    using Suc.hyps n by (simp_all add: drop_update_swap Cons_nth_drop_Suc [symmetric])
  have "take n arr = take (n - 1) arr @ [arr ! (n - 1)]"
    using Suc.hyps n by (metis Suc_le_lessD diff_Suc_1 less_imp_diff_less not0_implies_Suc not_one_le_zero take_Suc_conv_app_nth)
  then show ?case using Suc.IH [of "arr[n := arr ! (n - 1)]"] n Suc.hyps by (simp add: *)
qed

lemma take_snake_shift:
  assumes "1 \<le> n" "n \<le> length arr"
  shows "take n (snake_shift n head arr) = head # take (n - 1) arr" "length (snake_shift n head arr) = length arr"
  unfolding snake_shift_def shift_loop [OF assms] using assms by (simp_all add: take_Cons')

subsection \<open>Placing the food\<close>

lemma place_food_frame [simp]:
  "g_snake (place_food_loop r n s) = g_snake s" "g_snake_len (place_food_loop r n s) = g_snake_len s"
  "g_snake_dir (place_food_loop r n s) = g_snake_dir s" "g_snake_next_dir (place_food_loop r n s) = g_snake_next_dir s"
  "g_snake_score (place_food_loop r n s) = g_snake_score s" "g_snake_over (place_food_loop r n s) = g_snake_over s"
  by (induction r n s rule: place_food_loop.induct; subst place_food_loop.simps; simp add: Let_def)+

definition food_try :: "(nat \<Rightarrow> int) \<Rightarrow> nat \<Rightarrow> point_t" where
  "food_try r t = pt (r (2 * t) mod SNAKE_COLS) (r (2 * t + 1) mod SNAKE_ROWS)"

lemma place_food_loop_spec:
  "(\<exists>t\<ge>n. t < 200 \<and> \<not> snake_hit (food_try r t) s \<and> g_food (place_food_loop r n s) = food_try r t)
   \<or> (\<forall>t\<ge>n. t < 200 \<longrightarrow> snake_hit (food_try r t) s) \<and> g_food (place_food_loop r n s) = pt 0 0"
proof (induction r n s rule: place_food_loop.induct)
  case (1 r n s)
  show ?case
  proof (cases "n < 200 \<and> snake_hit (food_try r n) s")
    case True
    then have "place_food_loop r n s = place_food_loop r (n + 1) s"
      by (subst place_food_loop.simps) (simp add: food_try_def)
    moreover have "t = n \<or> n + 1 \<le> t" if "n \<le> t" for t using that by auto
    ultimately show ?thesis
      using 1 True unfolding food_try_def by (metis Suc_eq_plus1 Suc_leD)
  next
    case False
    then show ?thesis
      by (subst (1 2) place_food_loop.simps) (auto simp: food_try_def intro!: exI [of _ n])
  qed
qed

lemmas place_food_cases = place_food_loop_spec [of 0, simplified]

subsection \<open>Invariant\<close>

definition path :: "point_t list \<Rightarrow> bool" where
  "path ps = (\<forall>i. Suc i < length ps \<longrightarrow> (\<exists>d<4. ps ! i = next_cell d (ps ! Suc i)))"

definition snake_wf :: "snake \<Rightarrow> bool" where
  "snake_wf s = (length (g_snake s) = SNAKE_MAX_LEN \<and> 4 \<le> g_snake_len s \<and> g_snake_len s \<le> SNAKE_MAX_LEN
     \<and> distinct (snake_body s) \<and> (\<forall>p\<in>set (snake_body s). \<not> out_of_board p) \<and> path (snake_body s)
     \<and> \<not> out_of_board (g_food s) \<and> g_snake_dir s < 4 \<and> g_snake_next_dir s < 4
     \<and> g_snake_score s = 10 * (int (g_snake_len s) - 4))"

definition snake_inv :: "snake \<Rightarrow> bool" where
  "snake_inv s = (snake_wf s
     \<and> (\<not> g_snake_over s \<longrightarrow> snake_body s ! 0 = next_cell (g_snake_dir s) (snake_body s ! 1)))"

lemma path_Cons:
  assumes "path ps" "d < 4" "ps \<noteq> [] \<Longrightarrow> h = next_cell d (hd ps)"
  shows "path (h # ps)"
  unfolding path_def
proof (intro allI impI)
  fix i assume "Suc i < length (h # ps)"
  then show "\<exists>d<4. (h # ps) ! i = next_cell d ((h # ps) ! Suc i)"
    using assms by (cases i) (auto simp: path_def hd_conv_nth intro!: exI [of _ d])
qed

lemma path_butlast: "path ps \<Longrightarrow> path (butlast ps)"
  by (auto simp: path_def nth_butlast)

lemma place_food_in_board: "\<not> out_of_board (g_food (place_food_loop r 0 s))"
  using place_food_cases [of r s] by (auto simp: food_try_def out_of_board_def)

definition turned :: "nat \<Rightarrow> nat \<Rightarrow> nat" where
  "turned dir next = (if next = (dir + 2) mod 4 then dir else next)"

lemma less_4_cases: "(d :: nat) < 4 \<Longrightarrow> d = 0 \<or> d = 1 \<or> d = 2 \<or> d = 3"
  by auto

lemma snake_turn_eq:
  assumes "g_snake_dir s < 4"
  shows "snake_turn s = s\<lparr>g_snake_dir := turned (g_snake_dir s) (g_snake_next_dir s)\<rparr>"
  using less_4_cases [OF assms] by (auto simp: snake_turn_def turned_def)

lemma turned_lt: "d < 4 \<Longrightarrow> n < 4 \<Longrightarrow> turned d n < 4"
  by (simp add: turned_def)

text \<open>Turning back is refused, so the next cell is never the one behind the head.\<close>

lemma turned_not_back:
  assumes "d < 4" "n < 4" "h = next_cell d b"
  shows "next_cell (turned d n) h \<noteq> b"
  using less_4_cases [OF assms(1)] less_4_cases [OF assms(2)] assms(3)
  by (elim disjE; simp add: turned_def next_cell_def point_eq_iff)

text \<open>A snake as long as the board leaves no free cell.\<close>

lemma snake_full:
  assumes "distinct ps" "\<forall>p\<in>set ps. \<not> out_of_board p" "length ps = SNAKE_MAX_LEN" "\<not> out_of_board h"
  shows "h \<in> set ps"
proof -
  let ?B = "(\<lambda>(x, y). pt x y) ` ({0..<SNAKE_COLS} \<times> {0..<SNAKE_ROWS})"
  have mem: "p \<in> ?B" if "\<not> out_of_board p" for p
    using that by (cases p) (auto simp: out_of_board_def)
  have "card ?B \<le> SNAKE_MAX_LEN"
    using card_image_le [of "{0..<SNAKE_COLS} \<times> {0..<SNAKE_ROWS}"] by (simp add: card_cartesian_product)
  moreover have "set ps \<subseteq> ?B" using assms(2) mem by blast
  moreover have "card (set ps) = SNAKE_MAX_LEN" using assms(1,3) by (simp add: distinct_card)
  ultimately have "set ps = ?B" by (intro card_seteq) simp_all
  then show ?thesis using mem [OF assms(4)] by simp
qed

subsection \<open>Steps\<close>

lemma snake_wf_len: "snake_wf s \<Longrightarrow> g_snake_len s \<le> length (g_snake s)"
  by (simp add: snake_wf_def)

lemma body_nth: "i < g_snake_len s \<Longrightarrow> snake_body s ! i = g_snake s ! i"
  by (simp add: snake_body_def)

lemma snake_place_food_body [simp]: "snake_body (snake_place_food r s) = snake_body s"
  by (simp add: snake_body_def snake_place_food_def)

lemma snake_advance_body:
  assumes inv: "snake_wf s" and h: "\<not> out_of_board h" "h \<notin> set (snake_body s)"
  shows "snake_body (snake_advance r h s)
     = h # (if h = g_food s then snake_body s else butlast (snake_body s))"
    "length (g_snake (snake_advance r h s)) = SNAKE_MAX_LEN"
    "g_snake_len (snake_advance r h s) = (if h = g_food s then g_snake_len s + 1 else g_snake_len s)"
    "g_snake_len (snake_advance r h s) \<le> SNAKE_MAX_LEN"
proof -
  have len: "length (g_snake s) = SNAKE_MAX_LEN" "4 \<le> g_snake_len s" "g_snake_len s \<le> SNAKE_MAX_LEN"
    using inv by (simp_all add: snake_wf_def)
  then have lb: "length (snake_body s) = g_snake_len s" by (simp add: snake_body_def)
  have "g_snake_len s \<noteq> SNAKE_MAX_LEN"
  proof
    assume "g_snake_len s = SNAKE_MAX_LEN"
    then have "h \<in> set (snake_body s)" using inv h(1) lb by (intro snake_full) (simp_all add: snake_wf_def)
    with h(2) show False by simp
  qed
  with len have lt: "g_snake_len s < SNAKE_MAX_LEN" by simp
  have bl: "take (g_snake_len s - Suc 0) (g_snake s) = butlast (snake_body s)"
    using len by (simp add: snake_body_def butlast_take)
  show "snake_body (snake_advance r h s)
     = h # (if h = g_food s then snake_body s else butlast (snake_body s))"
    "length (g_snake (snake_advance r h s)) = SNAKE_MAX_LEN"
    "g_snake_len (snake_advance r h s) = (if h = g_food s then g_snake_len s + 1 else g_snake_len s)"
    "g_snake_len (snake_advance r h s) \<le> SNAKE_MAX_LEN"
    using len lt bl
    by (auto simp: snake_advance_def Let_def snake_body_def take_snake_shift point_eq_iff snake_place_food_def)
qed

lemma snake_advance_rest:
  "g_snake_dir (snake_advance r h s) = g_snake_dir s" "g_snake_next_dir (snake_advance r h s) = g_snake_next_dir s"
  "g_snake_over (snake_advance r h s) = g_snake_over s"
  "g_snake_score (snake_advance r h s) = g_snake_score s + (if h = g_food s then 10 else 0)"
  "h \<noteq> g_food s \<Longrightarrow> g_food (snake_advance r h s) = g_food s"
  by (auto simp: snake_advance_def Let_def point_eq_iff snake_place_food_def)

lemma snake_advance_food:
  assumes inv: "snake_wf s" and h: "\<not> out_of_board h" "h \<notin> set (snake_body s)" and eat: "h = g_food s"
  shows "\<not> out_of_board (g_food (snake_advance r h s))"
    "g_food (snake_advance r h s) \<notin> set (snake_body (snake_advance r h s))
     \<or> g_food (snake_advance r h s) = pt 0 0 \<and> (\<forall>t<200. food_try r t \<in> set (snake_body (snake_advance r h s)))"
proof -
  let ?s3 = "s\<lparr>g_snake_score := g_snake_score s + 10,
      g_snake_len := (if g_snake_len s < SNAKE_MAX_LEN then g_snake_len s + 1 else g_snake_len s),
      g_snake := snake_shift (if g_snake_len s < SNAKE_MAX_LEN then g_snake_len s + 1 else g_snake_len s) h (g_snake s)\<rparr>"
  have adv: "snake_advance r h s = place_food_loop r 0 ?s3"
    using eat by (simp add: snake_advance_def Let_def snake_place_food_def)
  show "\<not> out_of_board (g_food (snake_advance r h s))" unfolding adv by (rule place_food_in_board)
  have body: "snake_body (snake_advance r h s) = snake_body ?s3" unfolding adv by (simp add: snake_body_def)
  have "g_snake_len ?s3 \<le> length (g_snake ?s3)"
    using snake_advance_body(2,4) [OF inv h, of r] unfolding adv by simp
  note hit = snake_hit_iff [OF this]
  show "g_food (snake_advance r h s) \<notin> set (snake_body (snake_advance r h s))
     \<or> g_food (snake_advance r h s) = pt 0 0 \<and> (\<forall>t<200. food_try r t \<in> set (snake_body (snake_advance r h s)))"
    using place_food_cases [of r ?s3] unfolding body hit unfolding adv by metis
qed

definition step_head :: "snake \<Rightarrow> point_t" where
  "step_head s = next_cell (turned (g_snake_dir s) (g_snake_next_dir s)) (snake_body s ! 0)"

lemma snake_step_cases:
  assumes inv: "snake_inv s" and over: "\<not> g_snake_over s"
  defines "t \<equiv> s\<lparr>g_snake_dir := turned (g_snake_dir s) (g_snake_next_dir s)\<rparr>"
  shows "snake_step True r s = (if out_of_board (step_head s) \<or> step_head s \<in> set (snake_body s)
     then t\<lparr>g_snake_over := True\<rparr> else snake_advance r (step_head s) t)"
proof -
  have t: "snake_turn s = t" unfolding t_def by (rule snake_turn_eq) (use inv in \<open>simp add: snake_inv_def snake_wf_def\<close>)
  have len: "g_snake_len t \<le> length (g_snake t)" using inv by (simp add: t_def snake_inv_def snake_wf_def)
  have b: "snake_body t = snake_body s" by (simp add: t_def snake_body_def)
  have h: "next_cell (g_snake_dir t) (g_snake t ! 0) = step_head s"
    using inv by (simp add: step_head_def t_def body_nth snake_inv_def snake_wf_def)
  show ?thesis
    using over by (simp add: snake_step_def t Let_def h snake_hit_iff [OF len] b)
qed

lemma step_head_not_back:
  assumes "snake_inv s" "\<not> g_snake_over s"
  shows "step_head s \<noteq> snake_body s ! 1"
  using assms turned_not_back [of "g_snake_dir s" "g_snake_next_dir s" "snake_body s ! 0" "snake_body s ! 1"]
  by (simp add: snake_inv_def snake_wf_def step_head_def)

lemma snake_wf_turn:
  "snake_wf s \<Longrightarrow> snake_wf (s\<lparr>g_snake_dir := turned (g_snake_dir s) (g_snake_next_dir s)\<rparr>)"
  by (simp add: snake_wf_def turned_lt snake_body_def)

lemma snake_wf_over: "snake_wf (s\<lparr>g_snake_over := v\<rparr>) = snake_wf s"
  by (simp add: snake_wf_def snake_body_def)

lemma snake_advance_inv:
  assumes wf: "snake_wf s" and h: "\<not> out_of_board h" "h \<notin> set (snake_body s)"
    and head: "h = next_cell (g_snake_dir s) (snake_body s ! 0)"
  shows "snake_inv (snake_advance r h s)"
proof -
  let ?b = "snake_body s" and ?s' = "snake_advance r h s"
  let ?tail = "if h = g_food s then ?b else butlast ?b"
  note body = snake_advance_body [OF wf h, of r]
  have d: "g_snake_dir s < 4" using wf by (simp add: snake_wf_def)
  have len: "length ?b = g_snake_len s" "4 \<le> length ?b" using wf by (simp_all add: snake_wf_def snake_body_def)
  from len(2) have "Suc (Suc 0) \<le> length ?b" by simp
  then obtain x y zs where "?b = x # y # zs" by (auto simp: Suc_le_length_iff)
  then have tail: "?tail \<noteq> []" "?tail ! 0 = ?b ! 0" "hd ?tail = ?b ! 0" by simp_all
  have "distinct (h # ?tail)" "\<forall>p\<in>set (h # ?tail). \<not> out_of_board p"
    using wf h by (auto simp: snake_wf_def distinct_butlast dest: in_set_butlastD)
  moreover have "path (h # ?tail)"
    by (rule path_Cons [OF _ d]) (use wf tail head in \<open>auto simp: snake_wf_def path_butlast\<close>)
  moreover have "\<not> out_of_board (g_food ?s')"
    using snake_advance_food(1) [OF wf h] snake_advance_rest(5) [of h s r] wf by (cases "h = g_food s") (auto simp: snake_wf_def)
  ultimately have "snake_wf ?s'"
    using wf body unfolding snake_wf_def by (auto simp: snake_advance_rest)
  then show ?thesis using body(1) tail(2) head by (simp add: snake_inv_def snake_advance_rest)
qed

lemma snake_step_inv:
  assumes inv: "snake_inv s"
  shows "snake_inv (snake_step m r s)"
proof (cases "m \<and> \<not> g_snake_over s")
  case True
  let ?t = "s\<lparr>g_snake_dir := turned (g_snake_dir s) (g_snake_next_dir s)\<rparr>"
  have wf: "snake_wf ?t" using inv by (simp add: snake_inv_def snake_wf_turn)
  have b: "snake_body ?t = snake_body s" by (simp add: snake_body_def)
  show ?thesis
  proof (cases "out_of_board (step_head s) \<or> step_head s \<in> set (snake_body s)")
    case dead: True
    then show ?thesis using True wf by (simp add: snake_step_cases [OF inv] snake_inv_def snake_wf_over)
  next
    case alive: False
    then show ?thesis using True snake_advance_inv [OF wf, of "step_head s" r]
      by (simp add: snake_step_cases [OF inv] b step_head_def)
  qed
qed (use inv in \<open>auto simp: snake_step_def\<close>)

lemma snake_new_game_inv:
  assumes "length (g_snake s) = SNAKE_MAX_LEN"
  shows "snake_inv (snake_new_game r s)"
proof -
  have "Suc (Suc (Suc (Suc 0))) \<le> length (g_snake s)" using assms by simp
  then obtain a b c d ps where arr: "g_snake s = a # b # c # d # ps" by (auto simp: Suc_le_length_iff)
  have body: "snake_body (snake_new_game r s) = [pt 7 6, pt 6 6, pt 5 6, pt 4 6]"
    by (simp add: snake_new_game_def snake_body_def snake_place_food_def arr)
  have "\<exists>d<4. [pt 7 6, pt 6 6, pt 5 6, pt 4 6] ! i = next_cell d ([pt 7 6, pt 6 6, pt 5 6, pt 4 6] ! Suc i)"
    if "i < 3" for i
    using that by (intro exI [of _ 1]) (auto simp: next_cell_def less_Suc_eq eval_nat_numeral)
  then have "path [pt 7 6, pt 6 6, pt 5 6, pt 4 6]" by (simp add: path_def)
  moreover have "\<not> out_of_board (g_food (snake_new_game r s))"
    by (simp add: snake_new_game_def snake_place_food_def place_food_in_board)
  ultimately show ?thesis using assms
    by (simp add: snake_inv_def snake_wf_def body)
      (simp add: snake_new_game_def snake_place_food_def out_of_board_def next_cell_def)
qed

subsection \<open>Properties\<close>

lemma snake_step_spec:
  assumes inv: "snake_inv s" and over: "\<not> g_snake_over s"
  shows "let h = step_head s; s' = snake_step True r s in
    snake_inv s' \<and> h \<noteq> snake_body s ! 1
    \<and> g_snake_over s' = (out_of_board h \<or> h \<in> set (snake_body s))
    \<and> (g_snake_over s' \<longrightarrow> snake_body s' = snake_body s \<and> g_snake_score s' = g_snake_score s)
    \<and> (\<not> g_snake_over s' \<and> h \<noteq> g_food s \<longrightarrow>
        snake_body s' = h # butlast (snake_body s) \<and> g_snake_score s' = g_snake_score s \<and> g_food s' = g_food s)
    \<and> (\<not> g_snake_over s' \<and> h = g_food s \<longrightarrow>
        snake_body s' = h # snake_body s \<and> g_snake_score s' = g_snake_score s + 10
        \<and> (g_food s' \<notin> set (snake_body s')
           \<or> g_food s' = pt 0 0 \<and> (\<forall>t<200. food_try r t \<in> set (snake_body s'))))"
proof -
  let ?t = "s\<lparr>g_snake_dir := turned (g_snake_dir s) (g_snake_next_dir s)\<rparr>" and ?h = "step_head s"
  have wf: "snake_wf ?t" using inv by (simp add: snake_inv_def snake_wf_turn)
  have b: "snake_body ?t = snake_body s" by (simp add: snake_body_def)
  note step = snake_step_cases [OF inv over, of r]
  have b': "snake_body (?t\<lparr>g_snake_over := True\<rparr>) = snake_body s" by (simp add: snake_body_def)
  show ?thesis
  proof (cases "out_of_board ?h \<or> ?h \<in> set (snake_body s)")
    case True
    then show ?thesis
      using snake_step_inv [OF inv, of True r] step_head_not_back [OF inv over] b' step by (simp add: Let_def)
  next
    case False
    then have h: "\<not> out_of_board ?h" "?h \<notin> set (snake_body ?t)" by (simp_all add: b)
    then show ?thesis
      using snake_step_inv [OF inv, of True r] step_head_not_back [OF inv over] False step over
        snake_advance_body(1) [OF wf h, of r] snake_advance_food(2) [OF wf h, of r]
      by (auto simp: Let_def b snake_advance_rest) blast
  qed
qed

text \<open>
  One step of a running snake game moves the head by one cell in the direction
  last chosen (turning back is ignored). The game ends exactly when that cell is outside the board or on
  the snake; otherwise the snake follows its head, or grows by one with ten more points when the cell
  holds the food, and the new food is on a free cell unless all 200 random tries were on the snake.
\<close>
theorem snake_step_correct:
  assumes "snake_inv s" "\<not> g_snake_over s"
  shows "let h = step_head s; s' = snake_step True r s in
    snake_inv s' \<and> h \<noteq> snake_body s ! 1
    \<and> g_snake_over s' = (out_of_board h \<or> h \<in> set (snake_body s))
    \<and> (g_snake_over s' \<longrightarrow> snake_body s' = snake_body s \<and> g_snake_score s' = g_snake_score s)
    \<and> (\<not> g_snake_over s' \<and> h \<noteq> g_food s \<longrightarrow>
        snake_body s' = h # butlast (snake_body s) \<and> g_snake_score s' = g_snake_score s \<and> g_food s' = g_food s)
    \<and> (\<not> g_snake_over s' \<and> h = g_food s \<longrightarrow>
        snake_body s' = h # snake_body s \<and> g_snake_score s' = g_snake_score s + 10
        \<and> (g_food s' \<notin> set (snake_body s')
           \<or> g_food s' = pt 0 0 \<and> (\<forall>t<200. food_try r t \<in> set (snake_body s'))))"
  by (rule snake_step_spec [OF assms])

text \<open>A new game whose food lies right in front of the snake.\<close>

lemma demo_snake:
  "snake_inv (snake_new_game (\<lambda>i. if i = 0 then 8 else 6) snake_start)"
  "\<not> g_snake_over (snake_new_game (\<lambda>i. if i = 0 then 8 else 6) snake_start)"
  "g_food (snake_new_game (\<lambda>i. if i = 0 then 8 else 6) snake_start) = pt 8 6"
  "snake_body (snake_new_game (\<lambda>i. if i = 0 then 8 else 6) snake_start) = [pt 7 6, pt 6 6, pt 5 6, pt 4 6]"
  "step_head (snake_new_game (\<lambda>i. if i = 0 then 8 else 6) snake_start) = pt 8 6"
proof -
  let ?r = "\<lambda>i::nat. if i = 0 then 8 else 6 :: int"
  show inv: "snake_inv (snake_new_game ?r snake_start)"
    by (rule snake_new_game_inv) (simp add: snake_start_def)
  show "\<not> g_snake_over (snake_new_game ?r snake_start)"
    by (simp add: snake_new_game_def snake_place_food_def)
  have "Suc (Suc (Suc (Suc 0))) \<le> length (g_snake snake_start)" by (simp add: snake_start_def)
  then obtain a b c d ps where arr: "g_snake snake_start = a # b # c # d # ps" by (auto simp: Suc_le_length_iff)
  show body: "snake_body (snake_new_game ?r snake_start) = [pt 7 6, pt 6 6, pt 5 6, pt 4 6]"
    by (simp add: snake_new_game_def snake_body_def snake_place_food_def arr)
  show "g_food (snake_new_game ?r snake_start) = pt 8 6"
    by (simp add: snake_new_game_def snake_place_food_def, subst place_food_loop.simps)
      (simp add: Let_def snake_hit_def arr upt_rec eval_nat_numeral)
  show "step_head (snake_new_game ?r snake_start) = pt 8 6"
    unfolding step_head_def body by (simp add: snake_new_game_def snake_place_food_def turned_def next_cell_def)
qed

theorem snake_step_correct_witness:
  "snake_body (snake_step True (\<lambda>i. 0) (snake_new_game (\<lambda>i. if i = 0 then 8 else 6) snake_start))
     = [pt 8 6, pt 7 6, pt 6 6, pt 5 6, pt 4 6]"
  using snake_step_correct [OF demo_snake(1,2), of "\<lambda>i. 0"]
  by (simp add: Let_def demo_snake(3-5) out_of_board_def)

end
