(* ===== verification/App_2048.thy ===== *)
theory App_2048
  imports Prelude "HOL-Library.Multiset"
begin

text \<open>
  The game 2048 of the HMI application
  (\<open>apps/app_hmi_board_gui/lvgl/user_events/events_quweidonghua.c\<close>), without the drawing: the board
  with its moves, the score and the end of the game. Values are integers without overflow, as a
  board of 16 cells holds no tile above \<open>2 ^ 17\<close>. The results of \<open>rand\<close> are parameters.
\<close>

type_synonym board = "int list list"

record game_2048 =
  g_2048_board :: board
  g_2048_score :: int
  g_2048_over :: bool

subsection \<open>Operations\<close>

definition cell :: "board \<Rightarrow> nat \<Rightarrow> nat \<Rightarrow> int" where
  "cell b y x = b ! y ! x"

definition put_cell :: "nat \<Rightarrow> nat \<Rightarrow> int \<Rightarrow> board \<Rightarrow> board" where
  "put_cell y x v b = b[y := (b ! y)[x := v]]"

definition board_has_move :: "board \<Rightarrow> bool" where
  "board_has_move b = list_ex (\<lambda>y. list_ex (\<lambda>x.
      cell b y x = 0
      \<or> (x < 3 \<and> cell b y x = cell b y (x + 1))
      \<or> (y < 3 \<and> cell b y x = cell b (y + 1) x)) [0..<4]) [0..<4]"

definition board_empty :: "board \<Rightarrow> (nat \<times> nat) list" where
  "board_empty b = filter (\<lambda>(y, x). cell b y x = 0) (List.product [0..<4] [0..<4])"

definition board_add_tile :: "nat \<Rightarrow> nat \<Rightarrow> board \<Rightarrow> board" where
  "board_add_tile r1 r2 b = (
     let empty = board_empty b; cnt = length empty in
     if 0 < cnt
     then (case empty ! (r1 mod cnt) of (y, x) \<Rightarrow> put_cell y x (if r2 mod 10 = 0 then 4 else 2) b)
     else b)"

definition board_new_game :: "nat \<Rightarrow> nat \<Rightarrow> nat \<Rightarrow> nat \<Rightarrow> game_2048" where
  "board_new_game r1 r2 r3 r4 =
     \<lparr>g_2048_board = board_add_tile r3 r4 (board_add_tile r1 r2 (replicate 4 (replicate 4 0))),
      g_2048_score = 0, g_2048_over = False\<rparr>"

text \<open>The loops of \<open>compress_line\<close>: gathering, merging equal neighbours, gathering in place.\<close>

definition gather :: "int list \<Rightarrow> int list" where
  "gather line = snd (fold (\<lambda>i (pos, tmp). if line ! i \<noteq> 0 then (pos + 1, tmp[pos := line ! i]) else (pos, tmp))
     [0..<4] (0, [0, 0, 0, 0]))"

function merge_loop :: "nat \<Rightarrow> int list \<Rightarrow> int \<Rightarrow> int list \<times> int" where
  "merge_loop i tmp score =
     (if i < 3 then
        (if tmp ! i \<noteq> 0 \<and> tmp ! i = tmp ! (i + 1)
         then merge_loop (i + 2) (tmp[i := tmp ! i * 2, i + 1 := 0]) (score + tmp ! i * 2)
         else merge_loop (i + 1) tmp score)
      else (tmp, score))"
  by pat_completeness auto
termination by (relation "measure (\<lambda>(i, _, _). 3 - i)") auto

definition regather :: "int list \<Rightarrow> int list" where
  "regather tmp0 =
     (case fold (\<lambda>i (pos, tmp). if tmp ! i \<noteq> 0 then (pos + 1, tmp[pos := tmp ! i]) else (pos, tmp))
       [0..<4] (0 :: nat, tmp0) of
      (pos, tmp) \<Rightarrow> fold (\<lambda>i t. t[i := 0]) [pos..<4] tmp)"

definition compress_line :: "int list \<Rightarrow> int \<Rightarrow> bool \<times> int list \<times> int" where
  "compress_line line score = (
     let (tmp, score1) = merge_loop 0 (gather line) score;
         tmp1 = regather tmp
     in (list_ex (\<lambda>i. line ! i \<noteq> tmp1 ! i) [0..<4], tmp1, score1))"

text \<open>The cell of line \<open>i\<close> at position \<open>j\<close> for the four directions, up, right, down and left.\<close>

definition line_cell :: "nat \<Rightarrow> nat \<Rightarrow> nat \<Rightarrow> nat \<times> nat" where
  "line_cell dir i j = (if dir = 0 then (j, i) else if dir = 1 then (i, 3 - j)
     else if dir = 2 then (3 - j, i) else (i, j))"

definition move_line :: "nat \<Rightarrow> nat \<Rightarrow> bool \<times> board \<times> int \<Rightarrow> bool \<times> board \<times> int" where
  "move_line dir i st = (case st of (moved, b, score) \<Rightarrow>
     let line = map (\<lambda>j. case line_cell dir i j of (y, x) \<Rightarrow> cell b y x) [0..<4] in
     case compress_line line score of (m, line', score') \<Rightarrow>
       (moved \<or> m,
        fold (\<lambda>j b. case line_cell dir i j of (y, x) \<Rightarrow> put_cell y x (line' ! j) b) [0..<4] b,
        score'))"

definition board_move :: "nat \<Rightarrow> board \<Rightarrow> int \<Rightarrow> bool \<times> board \<times> int" where
  "board_move dir b score = fold (move_line dir) [0..<4] (False, b, score)"

definition game_2048_move :: "nat \<Rightarrow> nat \<Rightarrow> nat \<Rightarrow> game_2048 \<Rightarrow> game_2048" where
  "game_2048_move dir r1 r2 g = (
     if g_2048_over g then g
     else (case board_move dir (g_2048_board g) (g_2048_score g) of (moved, b, score) \<Rightarrow>
       let b1 = (if moved then board_add_tile r1 r2 b else b)
       in \<lparr>g_2048_board = b1, g_2048_score = score, g_2048_over = \<not> board_has_move b1\<rparr>))"

subsection \<open>One line\<close>

text \<open>The rule of the game: the tiles of a line move together, and each pair of equals merges once.\<close>

fun merge_tiles :: "int list \<Rightarrow> int list" where
  "merge_tiles (x # y # zs) = (if x = y then 2 * x # merge_tiles zs else x # merge_tiles (y # zs))"
| "merge_tiles xs = xs"

fun merge_gain :: "int list \<Rightarrow> int" where
  "merge_gain (x # y # zs) = (if x = y then 2 * x + merge_gain zs else merge_gain (y # zs))"
| "merge_gain xs = 0"

definition slide :: "int list \<Rightarrow> int list" where
  "slide line = (let ts = merge_tiles (filter (\<lambda>v. v \<noteq> 0) line) in ts @ replicate (length line - length ts) 0)"

lemma upt_0_4: "[0..<4] = [0, 1, 2, 3 :: nat]"
  by (simp add: upt_rec)

lemma compress_line_4:
  "compress_line [a, b, c, d] score =
     (slide [a, b, c, d] \<noteq> [a, b, c, d], slide [a, b, c, d], score + merge_gain (filter (\<lambda>v. v \<noteq> 0) [a, b, c, d]))"
  by (cases "a = 0"; cases "b = 0"; cases "c = 0"; cases "d = 0";
      simp add: compress_line_def gather_def regather_def slide_def upt_0_4 merge_loop.simps eval_nat_numeral
        upt_rec split del: if_split split: if_split)

lemma length_merge_tiles: "length (merge_tiles xs) \<le> length xs"
  by (induction xs rule: merge_tiles.induct) auto

lemma length_slide [simp]: "length (slide line) = length line"
  using le_trans [OF length_merge_tiles length_filter_le, of "\<lambda>v. v \<noteq> 0" line]
  by (simp add: slide_def Let_def)

lemma length_4E:
  assumes "length xs = 4"
  obtains a b c d where "xs = [a, b, c, d]"
  using assms by (auto simp: eval_nat_numeral length_Suc_conv)

lemma compress_line_spec:
  assumes "length line = 4"
  shows "compress_line line score = (slide line \<noteq> line, slide line, score + merge_gain (filter (\<lambda>v. v \<noteq> 0) line))"
  using assms by (elim length_4E) (simp only: compress_line_4)

subsection \<open>The four directions\<close>

definition board_ok :: "board \<Rightarrow> bool" where
  "board_ok b = (length b = 4 \<and> (\<forall>r\<in>set b. length r = 4))"

text \<open>The lines of the board in the order in which a direction reads them, and the board made of such lines.\<close>

definition board_lines :: "nat \<Rightarrow> board \<Rightarrow> int list list" where
  "board_lines dir b = map (\<lambda>i. map (\<lambda>j. case line_cell dir i j of (y, x) \<Rightarrow> cell b y x) [0..<4]) [0..<4]"

definition line_gain :: "int list \<Rightarrow> int" where
  "line_gain line = merge_gain (filter (\<lambda>v. v \<noteq> 0) line)"

definition unlines :: "nat \<Rightarrow> int list list \<Rightarrow> board" where
  "unlines dir ls = (if dir = 0 then transpose ls else if dir = 1 then map rev ls
     else if dir = 2 then rev (transpose ls) else ls)"

lemma board_okE:
  assumes "board_ok b"
  obtains a0 a1 a2 a3 b0 b1 b2 b3 c0 c1 c2 c3 d0 d1 d2 d3
  where "b = [[a0, a1, a2, a3], [b0, b1, b2, b3], [c0, c1, c2, c3], [d0, d1, d2, d3]]"
proof -
  from assms have "length b = 4" by (simp add: board_ok_def)
  then obtain r0 r1 r2 r3 where b: "b = [r0, r1, r2, r3]" by (rule length_4E)
  with assms have "length r0 = 4" "length r1 = 4" "length r2 = 4" "length r3 = 4"
    by (auto simp: board_ok_def)
  then show thesis using b that by (elim length_4E) simp
qed

lemma put_cell_4:
  "put_cell 0 x v [r0, r1, r2, r3] = [r0[x := v], r1, r2, r3]"
  "put_cell (Suc 0) x v [r0, r1, r2, r3] = [r0, r1[x := v], r2, r3]"
  "put_cell 2 x v [r0, r1, r2, r3] = [r0, r1, r2[x := v], r3]"
  "put_cell 3 x v [r0, r1, r2, r3] = [r0, r1, r2, r3[x := v]]"
  by (simp_all add: put_cell_def eval_nat_numeral)

lemma list_update_4:
  "[a, b, c, d][0 := v] = [v, b, c, d]" "[a, b, c, d][Suc 0 := v] = [a, v, c, d]"
  "[a, b, c, d][2 := v] = [a, b, v, d]" "[a, b, c, d][3 := v] = [a, b, c, v]"
  by (simp_all add: eval_nat_numeral)

lemma nth_4: "[a, b, c, d] ! 0 = a" "[a, b, c, d] ! Suc 0 = b" "[a, b, c, d] ! 2 = c" "[a, b, c, d] ! 3 = d"
  by (simp_all add: eval_nat_numeral)

text \<open>A pass of the outer loop replaces one line.\<close>

lemma move_line_slide:
  assumes "map (\<lambda>j. case line_cell dir i j of (y, x) \<Rightarrow> cell b y x) [0..<4] = line"
  shows "move_line dir i (m, b, score) =
    (m \<or> slide line \<noteq> line,
     fold (\<lambda>j b. case line_cell dir i j of (y, x) \<Rightarrow> put_cell y x (slide line ! j) b) [0..<4] b,
     score + line_gain line)"
  using arg_cong [OF assms, of length]
  by (simp add: move_line_def assms compress_line_spec line_gain_def Let_def del: upt_Suc)

lemma move_line_cells:
  assumes "dir < 4" "i < 4"
    and b: "b = [[a0, a1, a2, a3], [b0, b1, b2, b3], [c0, c1, c2, c3], [d0, d1, d2, d3]]"
  shows "move_line dir i (m, b, score) = (let ls = board_lines dir b in
      (m \<or> slide (ls ! i) \<noteq> ls ! i, unlines dir (ls[i := slide (ls ! i)]), score + line_gain (ls ! i)))"
proof -
  have "length (slide (board_lines dir b ! i)) = 4" using assms(2) by (simp add: board_lines_def)
  then obtain p q r s where sl: "slide (board_lines dir b ! i) = [p, q, r, s]" by (rule length_4E)
  have dir: "dir = 0 \<or> dir = 1 \<or> dir = 2 \<or> dir = 3" "i = 0 \<or> i = 1 \<or> i = 2 \<or> i = 3"
    using assms(1,2) by auto
  have line: "map (\<lambda>j. case line_cell dir i j of (y, x) \<Rightarrow> cell b y x) [0..<4] = board_lines dir b ! i"
    using assms(2) by (simp add: board_lines_def del: upt_Suc)
  show ?thesis
    unfolding move_line_slide [OF line] Let_def sl
    using dir
    by (elim disjE; simp add: b line_cell_def put_cell_4 unlines_def board_lines_def upt_0_4 nth_4 list_update_4 cell_def)
qed

lemma board_lines_unlines:
  assumes "dir < 4" "board_ok ls"
  shows "board_lines dir (unlines dir ls) = ls" "board_ok (unlines dir ls)"
proof -
  have dir: "dir = 0 \<or> dir = 1 \<or> dir = 2 \<or> dir = 3" using assms(1) by auto
  show "board_lines dir (unlines dir ls) = ls"
    using dir assms(2)
    by (elim board_okE disjE; simp add: line_cell_def unlines_def board_lines_def upt_0_4 nth_4 cell_def)
  show "board_ok (unlines dir ls)"
    using dir assms(2) by (elim board_okE disjE; simp add: unlines_def board_ok_def)
qed

lemma unlines_board_lines:
  assumes "dir < 4" "board_ok b"
  shows "unlines dir (board_lines dir b) = b" "board_ok (board_lines dir b)"
proof -
  have dir: "dir = 0 \<or> dir = 1 \<or> dir = 2 \<or> dir = 3" using assms(1) by auto
  show "unlines dir (board_lines dir b) = b"
    using dir assms(2)
    by (elim board_okE disjE; simp add: line_cell_def unlines_def board_lines_def upt_0_4 nth_4 cell_def)
  show "board_ok (board_lines dir b)"
    using dir assms(2) by (simp add: board_lines_def board_ok_def)
qed

lemma move_line_unlines:
  assumes "dir < 4" "i < 4" "board_ok ls"
  shows "move_line dir i (m, unlines dir ls, score) =
      (m \<or> slide (ls ! i) \<noteq> ls ! i, unlines dir (ls[i := slide (ls ! i)]), score + line_gain (ls ! i))"
  using board_okE [OF board_lines_unlines(2) [OF assms(1,3)]] move_line_cells [OF assms(1,2)]
    board_lines_unlines(1) [OF assms(1,3)]
  by (metis (full_types))

lemma board_move_spec:
  assumes "dir < 4" "board_ok b"
  shows "board_move dir b score = (let ls = board_lines dir b in
    ((\<exists>line\<in>set ls. slide line \<noteq> line), unlines dir (map slide ls), score + sum_list (map line_gain ls)))"
proof -
  obtain l0 l1 l2 l3 where ls: "board_lines dir b = [l0, l1, l2, l3]"
    using unlines_board_lines(2) [OF assms] by (auto simp: board_ok_def elim: length_4E)
  have len: "length l0 = 4" "length l1 = 4" "length l2 = 4" "length l3 = 4"
    using unlines_board_lines(2) [OF assms] by (simp_all add: ls board_ok_def)
  have "board_move dir b score = fold (move_line dir) [0..<4] (False, unlines dir [l0, l1, l2, l3], score)"
    using unlines_board_lines(1) [OF assms] by (simp add: board_move_def ls)
  also have "\<dots> = (slide l0 \<noteq> l0 \<or> slide l1 \<noteq> l1 \<or> slide l2 \<noteq> l2 \<or> slide l3 \<noteq> l3,
      unlines dir [slide l0, slide l1, slide l2, slide l3],
      score + line_gain l0 + line_gain l1 + line_gain l2 + line_gain l3)"
    by (simp add: upt_0_4 move_line_unlines [OF assms(1)] board_ok_def len nth_4 list_update_4, blast)
  finally show ?thesis by (simp add: ls)
qed

subsection \<open>The end of the game\<close>

text \<open>A line that neither direction changes is empty, or full without equal neighbours.\<close>

definition line_stuck :: "int list \<Rightarrow> bool" where
  "line_stuck line = (slide line = line \<and> slide (rev line) = rev line)"

lemma line_stuck_4:
  "line_stuck [a, b, c, d] =
     (a = 0 \<and> b = 0 \<and> c = 0 \<and> d = 0 \<or>
      a \<noteq> 0 \<and> b \<noteq> 0 \<and> c \<noteq> 0 \<and> d \<noteq> 0 \<and> a \<noteq> b \<and> b \<noteq> c \<and> c \<noteq> d)"
  by (cases "a = 0"; cases "b = 0"; cases "c = 0"; cases "d = 0";
      auto simp: line_stuck_def slide_def Let_def split: if_splits)

definition board_stuck :: "board \<Rightarrow> bool" where
  "board_stuck b = (\<forall>dir<4. \<forall>line\<in>set (board_lines dir b). slide line = line)"

lemma board_stuck_lines:
  assumes "board_ok b"
  shows "board_stuck b = ((\<forall>line\<in>set (board_lines 3 b). line_stuck line) \<and> (\<forall>line\<in>set (board_lines 0 b). line_stuck line))"
proof -
  have all4: "(\<forall>dir<4. P dir) = (P 0 \<and> P 1 \<and> P 2 \<and> P 3)" for P :: "nat \<Rightarrow> bool"
    by (auto simp: less_Suc_eq eval_nat_numeral)
  show ?thesis using assms
    by (elim board_okE; simp add: board_stuck_def all4 line_stuck_def board_lines_def line_cell_def cell_def upt_0_4 nth_4; blast)
qed

lemma board_has_move_stuck:
  assumes "board_ok b" "\<exists>r\<in>set b. \<exists>v\<in>set r. v \<noteq> 0"
  shows "board_has_move b = (\<not> board_stuck b)"
  using assms(2) unfolding board_stuck_lines [OF assms(1)] using assms(1)
  by (elim board_okE; simp add: board_has_move_def line_stuck_4 board_lines_def line_cell_def cell_def upt_0_4 nth_4; satx)

subsection \<open>The tiles as a multiset\<close>

definition tiles :: "board \<Rightarrow> int multiset" where
  "tiles b = filter_mset (\<lambda>v. v \<noteq> 0) (mset (concat b))"

lemma tiles_unlines:
  assumes "dir < 4" "board_ok ls"
  shows "tiles (unlines dir ls) = tiles ls"
proof -
  have dir: "dir = 0 \<or> dir = 1 \<or> dir = 2 \<or> dir = 3" using assms(1) by auto
  show ?thesis
    using dir assms(2) by (elim board_okE disjE; simp add: unlines_def tiles_def add_mset_commute)
qed

lemma tiles_Cons: "tiles (r # b) = filter_mset (\<lambda>v. v \<noteq> 0) (mset r) + tiles b"
  by (simp add: tiles_def)

lemma tiles_Nil [simp]: "tiles [] = {#}"
  by (simp add: tiles_def)

text \<open>Some pairs of equal tiles are replaced by their sums, which are added up as the gain.\<close>

inductive merges :: "int multiset \<Rightarrow> int \<Rightarrow> int multiset \<Rightarrow> bool" where
  merges_refl: "merges M 0 M"
| merges_step: "merges (add_mset (2 * x) K) g N \<Longrightarrow> merges (add_mset x (add_mset x K)) (2 * x + g) N"

lemma merges_union: "merges M g N \<Longrightarrow> merges (M + C) g (N + C)"
  by (induction rule: merges.induct) (auto intro: merges.intros)

lemma merges_trans: "merges M g N \<Longrightarrow> merges N h P \<Longrightarrow> merges M (g + h) P"
proof (induction arbitrary: h P rule: merges.induct)
  case (merges_step x K g N)
  then show ?case using merges.merges_step [of x K "g + h" P] by (simp add: add.assoc)
qed simp

lemma merges_par: "merges M g N \<Longrightarrow> merges M' g' N' \<Longrightarrow> merges (M + M') (g + g') (N + N')"
  using merges_trans [OF merges_union [of M g N M'] merges_union [of M' g' N' N, unfolded add.commute [of _ N]]] by simp

lemma merges_merge_tiles: "merges (mset xs) (merge_gain xs) (mset (merge_tiles xs))"
proof (induction xs rule: merge_tiles.induct)
  case (1 x y zs)
  show ?case
  proof (cases "x = y")
    case True
    from 1(1) [OF True] have "merges (add_mset (2 * y) (mset zs)) (merge_gain zs) (add_mset (2 * y) (mset (merge_tiles zs)))"
      using merges_union [of _ _ _ "{#2 * y#}"] by simp
    then show ?thesis using True by (simp add: merges_step)
  next
    case False
    from 1(2) [OF False] show ?thesis using False merges_union [of _ _ _ "{#x#}"] by simp
  qed
qed (simp_all add: merges_refl)

lemma merge_tiles_nonzero: "\<forall>x\<in>set xs. x \<noteq> 0 \<Longrightarrow> \<forall>x\<in>set (merge_tiles xs). x \<noteq> 0"
  by (induction xs rule: merge_tiles.induct) auto

lemma merges_slide:
  "merges (filter_mset (\<lambda>v. v \<noteq> 0) (mset line)) (line_gain line) (filter_mset (\<lambda>v. v \<noteq> 0) (mset (slide line)))"
proof -
  let ?f = "filter (\<lambda>v. v \<noteq> 0) line"
  have "filter (\<lambda>v. v \<noteq> 0) (merge_tiles ?f) = merge_tiles ?f"
    by (rule filter_True) (rule merge_tiles_nonzero, simp)
  then have "filter_mset (\<lambda>v. v \<noteq> 0) (mset (slide line)) = mset (merge_tiles ?f)"
    unfolding slide_def Let_def mset_append filter_union_mset mset_filter [symmetric]
    by (simp only: mset_replicate filter_replicate) simp
  moreover have "filter_mset (\<lambda>v. v \<noteq> 0) (mset line) = mset ?f" by (simp only: mset_filter)
  ultimately show ?thesis using merges_merge_tiles [of ?f] unfolding line_gain_def by (simp only:)
qed

lemma merges_lines: "merges (tiles ls) (sum_list (map line_gain ls)) (tiles (map slide ls))"
  by (induction ls) (auto simp: tiles_Cons merges_refl intro: merges_par merges_slide)

lemma board_ok_slide: "board_ok ls \<Longrightarrow> board_ok (map slide ls)"
  by (auto simp: board_ok_def)

lemma board_move_tiles:
  assumes "dir < 4" "board_ok b" "board_move dir b score = (moved, b', score')"
  shows "merges (tiles b) (score' - score) (tiles b')" "board_ok b'" "moved = (b' \<noteq> b)"
proof -
  let ?ls = "board_lines dir b"
  note un = unlines_board_lines [OF assms(1,2)]
  from assms(3) board_move_spec [OF assms(1,2), of score]
  have b': "b' = unlines dir (map slide ?ls)" and s: "score' - score = sum_list (map line_gain ?ls)"
    and m: "moved = (\<exists>line\<in>set ?ls. slide line \<noteq> line)" by (simp_all add: Let_def)
  show "merges (tiles b) (score' - score) (tiles b')"
    using merges_lines [of ?ls] tiles_unlines [OF assms(1) un(2)] tiles_unlines [OF assms(1) board_ok_slide [OF un(2)]]
    by (simp add: un(1) b' s)
  show "board_ok b'" using board_lines_unlines(2) [OF assms(1) board_ok_slide [OF un(2)]] by (simp add: b')
  have "(b' = b) = (map slide ?ls = ?ls)"
    using board_lines_unlines(1) [OF assms(1) board_ok_slide [OF un(2)]] un(1) by (metis b')
  then show "moved = (b' \<noteq> b)" using map_eq_conv [of slide ?ls "\<lambda>x. x"] by (auto simp only: m list.map_ident)
qed

subsection \<open>Reachable games\<close>

inductive game_reach :: "game_2048 \<Rightarrow> bool" where
  reach_new: "game_reach (board_new_game r1 r2 r3 r4)"
| reach_move: "game_reach g \<Longrightarrow> dir < 4 \<Longrightarrow> game_reach (game_2048_move dir r1 r2 g)"

text \<open>
  The tiles are powers of two. Their exponents satisfy a bound that every merge keeps: at most
  \<open>18 - k\<close> tiles have an exponent of at least \<open>k\<close>. The score is at most the sum of what it takes
  to make each tile from tiles 2.
\<close>

definition exps_ok :: "nat multiset \<Rightarrow> bool" where
  "exps_ok E = ((\<forall>e\<in>#E. 1 \<le> e) \<and> size E \<le> 16 \<and>
     (\<forall>k. 2 \<le> k \<and> k \<le> 18 \<longrightarrow> size (filter_mset (\<lambda>e. k \<le> e) E) + k \<le> 18))"

definition worth :: "nat multiset \<Rightarrow> int" where
  "worth E = sum_mset (image_mset (\<lambda>e. (int e - 1) * 2 ^ e) E)"

lemma worth_add [simp]: "worth (add_mset e E) = (int e - 1) * 2 ^ e + worth E"
  by (simp add: worth_def)

lemma worth_empty [simp]: "worth {#} = 0"
  by (simp add: worth_def)

lemma exps_ok_merge:
  assumes "exps_ok (add_mset e (add_mset e E))"
  shows "exps_ok (add_mset (Suc e) E)"
proof -
  from assms have e: "1 \<le> e" and E: "\<forall>e\<in>#E. 1 \<le> e" and sz: "size E + 2 \<le> 16"
    and cnt: "\<And>k. 2 \<le> k \<Longrightarrow> k \<le> 18 \<Longrightarrow> size (filter_mset (\<lambda>e. k \<le> e) (add_mset e (add_mset e E))) + k \<le> 18"
    by (auto simp: exps_ok_def)
  have "size (filter_mset (\<lambda>e. k \<le> e) (add_mset (Suc e) E)) + k \<le> 18" if k: "2 \<le> k" "k \<le> 18" for k
  proof (cases "k = Suc e")
    case True
    have "filter_mset (\<lambda>x. k \<le> x) E \<subseteq># filter_mset (\<lambda>x. e \<le> x) E"
      unfolding True by (induction E) (auto simp: subset_mset.le_supI2 intro: subset_mset.order_trans)
    then have "size (filter_mset (\<lambda>x. k \<le> x) E) \<le> size (filter_mset (\<lambda>x. e \<le> x) E)"
      by (rule size_mset_mono)
    moreover have "size (filter_mset (\<lambda>x. k \<le> x) E) \<le> size E" by (rule size_mset_mono) simp
    ultimately show ?thesis using cnt [of e] sz e k True by (cases "e = 1") (auto simp del: size_filter_mset_lesseq)
  next
    case False
    then show ?thesis using cnt [OF k] by (auto split: if_splits)
  qed
  then show ?thesis using E sz by (simp add: exps_ok_def)
qed

lemma exps_ok_add:
  assumes "exps_ok E" "size E < 16" "e = 1 \<or> e = 2"
  shows "exps_ok (add_mset e E)"
proof -
  have "size (filter_mset (\<lambda>x. k \<le> x) (add_mset e E)) + k \<le> 18" if k: "2 \<le> k" "k \<le> 18" for k
  proof (cases "k = 2")
    case True
    have "size (filter_mset (\<lambda>x. k \<le> x) E) \<le> size E" by (rule size_mset_mono) simp
    then show ?thesis using assms(2) True by (auto simp del: size_filter_mset_lesseq)
  next
    case False
    then have "\<not> k \<le> e" using k assms(3) by auto
    then show ?thesis using assms(1) k by (simp add: exps_ok_def)
  qed
  then show ?thesis using assms by (auto simp: exps_ok_def)
qed

lemma merges_exps:
  assumes "merges M g N" "M = image_mset ((^) 2) E" "exps_ok E"
  shows "\<exists>E'. N = image_mset ((^) 2) E' \<and> exps_ok E' \<and> worth E' = worth E + g \<and> 0 \<le> g \<and> (E' = {#} \<longrightarrow> E = {#})"
  using assms
proof (induction arbitrary: E rule: merges.induct)
  case (merges_refl M)
  then show ?case by auto
next
  case (merges_step x K g N)
  from merges_step.prems(1) obtain e E1 where e: "E = add_mset e E1" "x = 2 ^ e" "add_mset x K = image_mset ((^) 2) E1"
    by (metis msed_map_invR)
  from e(3) obtain e2 E2 where e2: "E1 = add_mset e2 E2" "x = 2 ^ e2" "K = image_mset ((^) 2) E2"
    by (metis msed_map_invR)
  have [simp]: "e2 = e" using e(2) e2(2) by simp
  have "exps_ok (add_mset (Suc e) E2)" using merges_step.prems(2) exps_ok_merge by (simp add: e e2)
  from merges_step.IH [OF _ this] obtain E' where
    "N = image_mset ((^) 2) E'" "exps_ok E'" "worth E' = worth (add_mset (Suc e) E2) + g" "0 \<le> g" "E' \<noteq> {#}"
    using e(2) e2(3) by auto
  then show ?case by (intro exI [of _ E']) (simp add: e e2 algebra_simps)
qed

lemma size_tiles_le: "board_ok b \<Longrightarrow> size (tiles b) \<le> 16"
proof -
  assume b: "board_ok b"
  have "size (tiles b) \<le> length (concat b)" unfolding tiles_def by (metis size_filter_mset_lesseq size_mset)
  also have "length (concat b) = 16" using b by (elim board_okE) simp
  finally show ?thesis .
qed

lemma tiles_full:
  assumes "board_ok b" "\<not> board_has_move b"
  shows "size (tiles b) = 16"
  using assms by (elim board_okE) (simp add: board_has_move_def tiles_def upt_0_4 cell_def nth_4)

lemma tiles_row:
  assumes "x < length r" "r ! x = 0" "v \<noteq> 0"
  shows "filter_mset (\<lambda>v. v \<noteq> (0 :: int)) (mset (r[x := v])) = add_mset v (filter_mset (\<lambda>v. v \<noteq> 0) (mset r))"
  using assms by (simp add: mset_update)

lemma tiles_update:
  assumes "y < length b" "x < length (b ! y)" "b ! y ! x = 0" "v \<noteq> 0"
  shows "tiles (b[y := (b ! y)[x := v]]) = add_mset v (tiles b)"
  using assms
proof (induction b arbitrary: y)
  case (Cons r b)
  then show ?case by (cases y) (simp_all add: tiles_Cons tiles_row)
qed simp

lemma tiles_put_cell:
  assumes "board_ok b" "y < 4" "x < 4" "cell b y x = 0" "v \<noteq> 0"
  shows "tiles (put_cell y x v b) = add_mset v (tiles b)" "board_ok (put_cell y x v b)"
proof -
  show "tiles (put_cell y x v b) = add_mset v (tiles b)"
    using assms by (simp add: put_cell_def tiles_update board_ok_def cell_def)
  show "board_ok (put_cell y x v b)"
    using assms(1,2) by (auto simp: put_cell_def board_ok_def dest!: set_update_subset_insert [THEN subsetD])
qed

definition board_inv :: "board \<Rightarrow> int \<Rightarrow> bool" where
  "board_inv b score = (board_ok b \<and> 0 \<le> score \<and>
     (\<exists>E. tiles b = image_mset ((^) 2) E \<and> exps_ok E \<and> score \<le> worth E))"

lemma board_emptyD:
  assumes "p \<in> set (board_empty b)"
  shows "fst p < 4" "snd p < 4" "cell b (fst p) (snd p) = 0"
  using assms by (auto simp: board_empty_def simp del: upt_Suc)

lemma board_add_tile_inv:
  assumes "board_inv b score"
  shows "board_inv (board_add_tile r1 r2 b) score"
    "size (tiles (board_add_tile r1 r2 b)) = size (tiles b) + (if board_empty b = [] then 0 else 1)"
proof -
  let ?p = "board_empty b ! (r1 mod length (board_empty b))" and ?e = "if r2 mod 10 = 0 then 2 else 1 :: nat"
  from assms obtain E where ok: "board_ok b" and s: "0 \<le> score" "score \<le> worth E"
    and E: "tiles b = image_mset ((^) 2) E" "exps_ok E" by (auto simp: board_inv_def)
  have "board_inv (board_add_tile r1 r2 b) score
    \<and> size (tiles (board_add_tile r1 r2 b)) = size (tiles b) + (if board_empty b = [] then 0 else 1)"
  proof (cases "board_empty b = []")
    case False
    then have p: "?p \<in> set (board_empty b)" by simp
    have b': "board_add_tile r1 r2 b = put_cell (fst ?p) (snd ?p) (2 ^ ?e) b"
      using False by (simp add: board_add_tile_def Let_def case_prod_beta)
    note put = tiles_put_cell [OF ok board_emptyD [OF p], of "2 ^ ?e"]
    have t: "tiles (board_add_tile r1 r2 b) = image_mset ((^) 2) (add_mset ?e E)"
      unfolding b' by (subst put(1)) (simp_all add: E)
    have ok': "board_ok (board_add_tile r1 r2 b)" unfolding b' by (rule put(2)) simp
    then have "size E < 16" using size_tiles_le [OF ok'] t by simp
    then have E': "exps_ok (add_mset ?e E)" using exps_ok_add [OF E(2)] by simp
    have "score \<le> worth (add_mset ?e E)" using s(2) by simp
    then have "board_inv (board_add_tile r1 r2 b) score"
      using ok' s(1) t E' by (auto simp only: board_inv_def)
    moreover have "size (tiles (board_add_tile r1 r2 b)) = size (tiles b) + (if board_empty b = [] then 0 else 1)"
      using False t E(1) by simp
    ultimately show ?thesis by blast
  qed (use assms in \<open>simp add: board_add_tile_def\<close>)
  then show "board_inv (board_add_tile r1 r2 b) score"
    "size (tiles (board_add_tile r1 r2 b)) = size (tiles b) + (if board_empty b = [] then 0 else 1)"
    by blast+
qed

definition game_inv :: "game_2048 \<Rightarrow> bool" where
  "game_inv g = (board_inv (g_2048_board g) (g_2048_score g) \<and> tiles (g_2048_board g) \<noteq> {#}
     \<and> g_2048_over g = (\<not> board_has_move (g_2048_board g)))"

lemma board_ok_empty: "board_ok (replicate 4 (replicate 4 0))"
  by (simp add: board_ok_def)

lemma tiles_empty_board: "tiles (replicate 4 (replicate 4 0)) = {#}"
  by (simp add: tiles_def eval_nat_numeral)

lemma board_inv_empty: "board_inv (replicate 4 (replicate 4 0)) 0"
  using board_ok_empty by (simp add: board_inv_def tiles_empty_board exps_ok_def)

lemma board_empty_ne:
  assumes "board_ok b" "size (tiles b) < 16"
  shows "board_empty b \<noteq> []"
proof
  assume "board_empty b = []"
  with assms show False
    by (elim board_okE) (simp add: board_empty_def upt_0_4 cell_def nth_4 tiles_def split: if_splits)
qed

lemma game_inv_new: "game_inv (board_new_game r1 r2 r3 r4)"
proof -
  let ?b0 = "replicate 4 (replicate 4 0)" and ?b1 = "board_add_tile r1 r2 (replicate 4 (replicate 4 0))"
  note i1 = board_add_tile_inv [OF board_inv_empty, of r1 r2]
  have s1: "size (tiles ?b1) \<le> 1" using i1(2) by (simp only: tiles_empty_board split: if_split) simp
  note i2 = board_add_tile_inv [OF i1(1), of r3 r4]
  have ne: "board_empty ?b1 \<noteq> []"
    by (rule board_empty_ne) (use i1(1) s1 in \<open>simp_all add: board_inv_def\<close>)
  have s2: "0 < size (tiles (board_add_tile r3 r4 ?b1))" "size (tiles (board_add_tile r3 r4 ?b1)) \<le> 2"
    using i2(2) s1 ne by simp_all
  then have "board_has_move (board_add_tile r3 r4 ?b1)"
    using tiles_full [of "board_add_tile r3 r4 ?b1"] i2(1) by (auto simp: board_inv_def)
  then show ?thesis using i2(1) s2(1) unfolding game_inv_def board_new_game_def by (auto simp del: replicate.simps)
qed

lemma game_inv_move:
  assumes "game_inv g" "dir < 4"
  shows "game_inv (game_2048_move dir r1 r2 g)"
proof (cases "g_2048_over g")
  case True
  then show ?thesis using assms(1) by (simp add: game_2048_move_def)
next
  case False
  obtain moved b score where mv: "board_move dir (g_2048_board g) (g_2048_score g) = (moved, b, score)"
    by (metis prod_cases3)
  from assms(1) obtain E where ok: "board_ok (g_2048_board g)" and s: "0 \<le> g_2048_score g" "g_2048_score g \<le> worth E"
    and E: "tiles (g_2048_board g) = image_mset ((^) 2) E" "exps_ok E"
    unfolding game_inv_def board_inv_def by blast
  have ne: "tiles (g_2048_board g) \<noteq> {#}" using assms(1) by (simp add: game_inv_def)
  note m = board_move_tiles [OF assms(2) ok mv]
  from merges_exps [OF m(1) E] obtain E' where E': "tiles b = image_mset ((^) 2) E'" "exps_ok E'"
    "worth E' = worth E + (score - g_2048_score g)" "0 \<le> score - g_2048_score g" "E' \<noteq> {#}"
    using ne E(1) by auto
  have inv: "board_inv b score" using m(2) s E' by (auto simp: board_inv_def intro!: exI [of _ E'])
  have "tiles b \<noteq> {#}" using E' by simp
  then have "tiles (if moved then board_add_tile r1 r2 b else b) \<noteq> {#}"
    using board_add_tile_inv(2) [OF inv, of r1 r2] by (auto split: if_splits)
  then show ?thesis
    using False inv board_add_tile_inv(1) [OF inv, of r1 r2] by (simp add: game_inv_def game_2048_move_def mv Let_def)
qed

lemma game_reach_inv: "game_reach g \<Longrightarrow> game_inv g"
  by (induction rule: game_reach.induct) (simp_all add: game_inv_new game_inv_move)

lemma game_over_spec:
  assumes "game_reach g"
  shows "g_2048_over g = board_stuck (g_2048_board g)"
proof -
  from game_reach_inv [OF assms] have ok: "board_ok (g_2048_board g)" and ne: "tiles (g_2048_board g) \<noteq> {#}"
    and over: "g_2048_over g = (\<not> board_has_move (g_2048_board g))"
    by (auto simp: game_inv_def board_inv_def)
  from ne obtain v where "v \<in># tiles (g_2048_board g)" by (auto simp: multiset_eq_iff not_in_iff)
  then have "\<exists>r\<in>set (g_2048_board g). \<exists>v\<in>set r. v \<noteq> 0" by (auto simp: tiles_def)
  from board_has_move_stuck [OF ok this] over show ?thesis by simp
qed

lemma worth_le:
  assumes "\<forall>e\<in>#E. 1 \<le> e \<and> e \<le> n"
  shows "worth E \<le> int (size E) * ((int n - 1) * 2 ^ n)"
  using assms
proof (induction E)
  case (add e E)
  then have "(int e - 1) * 2 ^ e \<le> (int n - 1) * 2 ^ n" by (intro mult_mono power_increasing) auto
  then show ?case using add by (simp add: algebra_simps)
qed simp

lemma game_bounds_spec:
  assumes "game_reach g"
  shows "(\<forall>r\<in>set (g_2048_board g). \<forall>v\<in>set r. v = 0 \<or> (\<exists>e. 1 \<le> e \<and> e \<le> 17 \<and> v = 2 ^ e))
    \<and> 0 \<le> g_2048_score g \<and> g_2048_score g < 2 ^ 31"
proof -
  from game_reach_inv [OF assms] obtain E where s: "0 \<le> g_2048_score g" "g_2048_score g \<le> worth E"
    and E: "tiles (g_2048_board g) = image_mset ((^) 2) E" "exps_ok E"
    by (auto simp: game_inv_def board_inv_def)
  have "size (filter_mset (\<lambda>e. 18 \<le> e) E) = 0" using E(2) unfolding exps_ok_def by (auto dest!: spec [of _ 18])
  then have "filter_mset (\<lambda>e. 18 \<le> e) E = {#}" by simp
  then have "e \<le> 17" if "e \<in># E" for e using that by (cases "18 \<le> e") (auto simp: multiset_eq_iff count_eq_zero_iff dest!: spec [of _ e])
  then have bound: "\<forall>e\<in>#E. 1 \<le> e \<and> e \<le> 17" using E(2) by (auto simp: exps_ok_def)
  have "v = 0 \<or> (\<exists>e. 1 \<le> e \<and> e \<le> 17 \<and> v = 2 ^ e)" if "r \<in> set (g_2048_board g)" "v \<in> set r" for r v
  proof (cases "v = 0")
    case False
    then have "v \<in># tiles (g_2048_board g)" using that by (auto simp: tiles_def)
    then show ?thesis using bound by (auto simp: E(1))
  qed simp
  moreover have "int (size E) * ((int 17 - 1) * 2 ^ 17) \<le> 16 * ((int 17 - 1) * 2 ^ 17)"
    using E(2) by (intro mult_right_mono) (auto simp: exps_ok_def)
  ultimately show ?thesis using worth_le [OF bound] s by auto
qed

subsection \<open>Properties\<close>

text \<open>
  C39 (board_move_correct). A move in one of the four directions slides every line of the board by the
  rule of the game (the tiles close up and each pair of equals merges once, nearest the edge first),
  adds the merged tiles to the score, and reports a change exactly when the board has changed.
\<close>
theorem board_move_correct:
  assumes "dir < 4" "board_ok b"
  shows "board_move dir b score = (let b' = unlines dir (map slide (board_lines dir b)) in
    (b' \<noteq> b, b', score + sum_list (map line_gain (board_lines dir b))))"
  using board_move_tiles(3) [OF assms, of score] board_move_spec [OF assms, of score]
  by (simp add: Let_def)

lemma demo_board_slides:
  "map slide (board_lines 0 [[2, 0, 4, 2], [2, 4, 0, 2], [2, 0, 4, 0], [2, 8, 8, 4]])
   = [[4, 4, 0, 0], [4, 8, 0, 0], [8, 8, 0, 0], [4, 4, 0, 0]]"
  "map line_gain (board_lines 0 [[2, 0, 4, 2], [2, 4, 0, 2], [2, 0, 4, 0], [2, 8, 8, 4]]) = [8, 0, 8, 4]"
  by (simp_all add: board_lines_def line_cell_def cell_def upt_0_4 nth_4 slide_def Let_def line_gain_def eval_nat_numeral)

theorem board_move_correct_witness:
  "board_move 0 [[2, 0, 4, 2], [2, 4, 0, 2], [2, 0, 4, 0], [2, 8, 8, 4]] 100
   = (True, [[4, 4, 8, 4], [4, 8, 8, 4], [0, 0, 0, 0], [0, 0, 0, 0]], 120)"
  by (subst board_move_correct)
    (simp_all add: board_ok_def demo_board_slides unlines_def Let_def)

text \<open>
  In every game that can be reached by moves from a new game, the flag
  \<open>g_2048_over\<close> is set exactly when none of the four directions changes any line of the board.
\<close>
theorem game_2048_over_iff_stuck:
  assumes "game_reach g"
  shows "g_2048_over g = board_stuck (g_2048_board g)"
  by (rule game_over_spec [OF assms])

theorem game_2048_over_iff_stuck_witness:
  "g_2048_over (game_2048_move 3 1 1 (board_new_game 0 1 2 10))
     = board_stuck (g_2048_board (game_2048_move 3 1 1 (board_new_game 0 1 2 10)))"
  by (rule game_2048_over_iff_stuck) (intro reach_move reach_new, simp)

text \<open>
  C40 (game_2048_bounds). In every reachable game each tile is a power of two of at most \<open>2 ^ 17\<close> and
  the score is below \<open>2 ^ 31\<close>, so the \<open>int\<close> arithmetic of the moves does not overflow.
\<close>
theorem game_2048_bounds:
  assumes "game_reach g"
  shows "(\<forall>r\<in>set (g_2048_board g). \<forall>v\<in>set r. v = 0 \<or> (\<exists>e. 1 \<le> e \<and> e \<le> 17 \<and> v = 2 ^ e))
    \<and> 0 \<le> g_2048_score g \<and> g_2048_score g < 2 ^ 31"
  by (rule game_bounds_spec [OF assms])

theorem game_2048_bounds_witness:
  "g_2048_score (game_2048_move 0 5 6 (board_new_game 7 8 3 4)) < 2 ^ 31"
  using game_2048_bounds [OF reach_move [OF reach_new, of 0 5 6 7 8 3 4]] by simp

end
