(* ===== verification/App_Games.thy ===== *)
theory App_Games
  imports App_Snake App_2048
begin

text \<open>
  The game screen of the HMI application
  (\<open>apps/app_hmi_board_gui/lvgl/user_events/events_quweidonghua.c\<close>): the handlers of its buttons,
  gestures and timer, which choose between the two games. The LVGL timer is there or not, and then runs
  or is paused; whether the screen is the active one is a parameter, as are the results of \<open>rand\<close>.
\<close>

abbreviation (input) GAME_SNAKE :: nat where "GAME_SNAKE \<equiv> 0"
abbreviation (input) GAME_2048 :: nat where "GAME_2048 \<equiv> 1"

record games =
  g_game_mode :: nat
  g_game_panel :: bool
  g_snake_timer :: "bool option"
  the_snake :: snake
  the_2048 :: game_2048

definition games_start :: games where
  "games_start = \<lparr>g_game_mode = GAME_SNAKE, g_game_panel = False, g_snake_timer = None, the_snake = snake_start,
     the_2048 = \<lparr>g_2048_board = replicate 4 (replicate 4 0), g_2048_score = 0, g_2048_over = False\<rparr>\<rparr>"

subsection \<open>Handlers\<close>

definition snake_timer_start :: "games \<Rightarrow> games" where
  "snake_timer_start s = s\<lparr>g_snake_timer := Some True\<rparr>"

definition snake_timer_stop :: "games \<Rightarrow> games" where
  "snake_timer_stop s = (if g_snake_timer s \<noteq> None then s\<lparr>g_snake_timer := Some False\<rparr> else s)"

definition do_snake_new_game :: "(nat \<Rightarrow> nat) \<Rightarrow> games \<Rightarrow> games" where
  "do_snake_new_game r s = s\<lparr>the_snake := snake_new_game (\<lambda>i. int (r i)) (the_snake s)\<rparr>"

definition do_board_new_game :: "(nat \<Rightarrow> nat) \<Rightarrow> games \<Rightarrow> games" where
  "do_board_new_game r s = s\<lparr>the_2048 := board_new_game (r 0) (r 1) (r 2) (r 3)\<rparr>"

definition switch_game :: "nat \<Rightarrow> (nat \<Rightarrow> nat) \<Rightarrow> games \<Rightarrow> games" where
  "switch_game mode r s = (
     let s1 = s\<lparr>g_game_mode := mode\<rparr>
     in if mode = GAME_SNAKE then do_snake_new_game r (snake_timer_start s1)
        else do_board_new_game r (snake_timer_stop s1))"

text \<open>What a direction does, from a button with its number or from a gesture.\<close>

definition game_dir :: "nat \<Rightarrow> (nat \<Rightarrow> nat) \<Rightarrow> games \<Rightarrow> games" where
  "game_dir dir r s =
     (if g_game_mode s = GAME_SNAKE then s\<lparr>the_snake := (the_snake s)\<lparr>g_snake_next_dir := dir\<rparr>\<rparr>
      else s\<lparr>the_2048 := game_2048_move dir (r 0) (r 1) (the_2048 s)\<rparr>)"

definition dir_btn_event_cb :: "bool \<Rightarrow> nat \<Rightarrow> (nat \<Rightarrow> nat) \<Rightarrow> games \<Rightarrow> games" where
  "dir_btn_event_cb clicked user_data r s = (if \<not> clicked then s else game_dir user_data r s)"

definition restart_btn_event_cb :: "bool \<Rightarrow> (nat \<Rightarrow> nat) \<Rightarrow> games \<Rightarrow> games" where
  "restart_btn_event_cb clicked r s =
     (if \<not> clicked then s
      else if g_game_mode s = GAME_SNAKE then do_snake_new_game r s
      else do_board_new_game r s)"

definition snake_timer_cb :: "bool \<Rightarrow> (nat \<Rightarrow> nat) \<Rightarrow> games \<Rightarrow> games" where
  "snake_timer_cb active r s =
     (if \<not> active then snake_timer_stop s
      else s\<lparr>the_snake := snake_step (g_game_mode s = GAME_SNAKE) (\<lambda>i. int (r i)) (the_snake s)\<rparr>)"

definition Screenquweidonghualeft_event_handler :: "(nat \<Rightarrow> nat) \<Rightarrow> games \<Rightarrow> games" where
  "Screenquweidonghualeft_event_handler r s = game_dir 1 r s"

definition Screenquweidonghuaright_event_handler :: "(nat \<Rightarrow> nat) \<Rightarrow> games \<Rightarrow> games" where
  "Screenquweidonghuaright_event_handler r s = game_dir 3 r s"

definition create_game_ui :: "games \<Rightarrow> games" where
  "create_game_ui s = (if g_game_panel s then s else snake_timer_stop (s\<lparr>g_game_panel := True\<rparr>))"

definition screen_quweidonghua_pre_init :: "(nat \<Rightarrow> nat) \<Rightarrow> games \<Rightarrow> games" where
  "screen_quweidonghua_pre_init r s = (let s1 = create_game_ui s in switch_game (g_game_mode s1) r s1)"

definition Btnchangchangyingyu_event_handler :: "(nat \<Rightarrow> nat) \<Rightarrow> games \<Rightarrow> games" where
  "Btnchangchangyingyu_event_handler r s = switch_game GAME_SNAKE r s"

definition Btnxiaozhupeiqi_event_handler :: "(nat \<Rightarrow> nat) \<Rightarrow> games \<Rightarrow> games" where
  "Btnxiaozhupeiqi_event_handler r s = switch_game GAME_2048 r s"

text \<open>The buttons exist once the panel has been created; the timer calls back while it runs.\<close>

inductive games_step :: "games \<Rightarrow> games \<Rightarrow> bool" where
  open_screen: "games_step s (screen_quweidonghua_pre_init r s)"
| press_dir: "g_game_panel s \<Longrightarrow> dir < 4 \<Longrightarrow> games_step s (dir_btn_event_cb clicked dir r s)"
| press_restart: "g_game_panel s \<Longrightarrow> games_step s (restart_btn_event_cb clicked r s)"
| swipe_left: "g_game_panel s \<Longrightarrow> games_step s (Screenquweidonghualeft_event_handler r s)"
| swipe_right: "g_game_panel s \<Longrightarrow> games_step s (Screenquweidonghuaright_event_handler r s)"
| choose_snake: "g_game_panel s \<Longrightarrow> games_step s (Btnchangchangyingyu_event_handler r s)"
| choose_2048: "g_game_panel s \<Longrightarrow> games_step s (Btnxiaozhupeiqi_event_handler r s)"
| timer_tick: "g_snake_timer s = Some True \<Longrightarrow> games_step s (snake_timer_cb active r s)"

subsection \<open>Invariant\<close>

definition games_inv :: "games \<Rightarrow> bool" where
  "games_inv s = (g_game_mode s \<in> {GAME_SNAKE, GAME_2048}
     \<and> length (g_snake (the_snake s)) = SNAKE_MAX_LEN
     \<and> (g_snake_timer s \<noteq> None \<longrightarrow> g_game_panel s)
     \<and> (g_snake_timer s = Some True \<longrightarrow> g_game_mode s = GAME_SNAKE)
     \<and> (g_game_panel s \<and> g_game_mode s = GAME_SNAKE \<longrightarrow> snake_inv (the_snake s))
     \<and> (g_game_panel s \<and> g_game_mode s = GAME_2048 \<longrightarrow> game_reach (the_2048 s)))"

lemma snake_inv_length: "snake_inv s \<Longrightarrow> length (g_snake s) = SNAKE_MAX_LEN"
  by (simp add: snake_inv_def snake_wf_def)

lemma snake_inv_dir: "snake_inv s \<Longrightarrow> dir < 4 \<Longrightarrow> snake_inv (s\<lparr>g_snake_next_dir := dir\<rparr>)"
proof -
  have "snake_body (s\<lparr>g_snake_next_dir := dir\<rparr>) = snake_body s" by (simp add: snake_body_def)
  then show "snake_inv s \<Longrightarrow> dir < 4 \<Longrightarrow> snake_inv (s\<lparr>g_snake_next_dir := dir\<rparr>)"
    by (simp add: snake_inv_def snake_wf_def)
qed

lemma switch_game_inv:
  assumes "length (g_snake (the_snake s)) = SNAKE_MAX_LEN" "mode \<in> {GAME_SNAKE, GAME_2048}" "g_game_panel s"
  shows "games_inv (switch_game mode r s)"
proof -
  note new = snake_new_game_inv [OF assms(1), of "\<lambda>i. int (r i)"]
  show ?thesis using assms new snake_inv_length [OF new]
    by (auto simp: games_inv_def switch_game_def do_snake_new_game_def do_board_new_game_def snake_timer_start_def
        snake_timer_stop_def reach_new Let_def)
qed

lemma game_dir_inv:
  assumes "games_inv s" "dir < 4" "g_game_panel s"
  shows "games_inv (game_dir dir r s)"
  using assms by (auto simp: games_inv_def game_dir_def snake_inv_dir reach_move)

lemma games_step_inv:
  assumes "games_step s s'" "games_inv s"
  shows "games_inv s'"
  using assms
proof cases
  case (open_screen r)
  have "g_game_panel (create_game_ui s)" "the_snake (create_game_ui s) = the_snake s"
    "g_game_mode (create_game_ui s) = g_game_mode s"
    by (simp_all add: create_game_ui_def snake_timer_stop_def)
  then show ?thesis using assms(2) unfolding open_screen screen_quweidonghua_pre_init_def Let_def
    by (intro switch_game_inv) (simp_all add: games_inv_def)
next
  case (press_restart clicked r)
  then show ?thesis using assms(2) snake_new_game_inv [of "the_snake s" "\<lambda>i. int (r i)"]
    by (auto simp: games_inv_def restart_btn_event_cb_def do_snake_new_game_def do_board_new_game_def reach_new
        snake_inv_length)
next
  case (timer_tick active r)
  then show ?thesis using assms(2) snake_step_inv [of "the_snake s" True "\<lambda>i. int (r i)"]
    by (auto simp: games_inv_def snake_timer_cb_def snake_timer_stop_def snake_inv_length)
next
  case (press_dir dir clicked r)
  then show ?thesis using assms(2) by (simp add: dir_btn_event_cb_def game_dir_inv)
next
  case (swipe_left r)
  then show ?thesis using assms(2) by (simp add: Screenquweidonghualeft_event_handler_def game_dir_inv)
next
  case (swipe_right r)
  then show ?thesis using assms(2) by (simp add: Screenquweidonghuaright_event_handler_def game_dir_inv)
next
  case (choose_snake r)
  then show ?thesis using assms(2) switch_game_inv [of s 0 r]
    by (simp add: Btnchangchangyingyu_event_handler_def games_inv_def)
next
  case (choose_2048 r)
  then show ?thesis using assms(2) switch_game_inv [of s 1 r]
    by (simp add: Btnxiaozhupeiqi_event_handler_def games_inv_def)
qed

lemma games_start_inv: "games_inv games_start"
  by (simp add: games_inv_def games_start_def snake_start_def)

lemma games_reach_inv: "games_step\<^sup>*\<^sup>* games_start s \<Longrightarrow> games_inv s"
  by (induction rule: rtranclp_induct) (auto intro: games_start_inv games_step_inv)

text \<open>A gesture to the left does what the button for right does, and the other way round.\<close>

lemma gestures_reversed:
  "Screenquweidonghualeft_event_handler r s = dir_btn_event_cb True 1 r s"
  "Screenquweidonghuaright_event_handler r s = dir_btn_event_cb True 3 r s"
  by (simp_all add: Screenquweidonghualeft_event_handler_def Screenquweidonghuaright_event_handler_def dir_btn_event_cb_def)

text \<open>
  C38 (games_reach_safe). Whatever the order of screen changes, buttons, gestures and timer calls: the
  snake game keeps its invariant while it is played (the snake lies on the board as a path without
  crossings, within its array, and the score counts its growth), the game 2048 only has boards
  reached by moves, and the timer runs only for the snake; a timer call off the screen stops it.
\<close>
theorem games_reach_safe:
  assumes "games_step\<^sup>*\<^sup>* games_start s"
  shows "(g_game_panel s \<and> g_game_mode s = GAME_SNAKE \<longrightarrow> snake_inv (the_snake s))
    \<and> (g_game_panel s \<and> g_game_mode s = GAME_2048 \<longrightarrow> game_reach (the_2048 s))
    \<and> g_game_mode s \<in> {GAME_SNAKE, GAME_2048}
    \<and> (g_snake_timer s = Some True \<longrightarrow> g_game_mode s = GAME_SNAKE
        \<and> g_snake_timer (snake_timer_cb False r s) = Some False)"
  using games_reach_inv [OF assms] by (auto simp: games_inv_def snake_timer_cb_def snake_timer_stop_def)

theorem games_reach_safe_witness:
  "snake_inv (the_snake (Screenquweidonghualeft_event_handler (\<lambda>i. 0) (screen_quweidonghua_pre_init (\<lambda>i. 3) games_start)))"
proof -
  let ?s1 = "screen_quweidonghua_pre_init (\<lambda>i. 3) games_start"
  let ?s = "Screenquweidonghualeft_event_handler (\<lambda>i. 0) ?s1"
  note defs = screen_quweidonghua_pre_init_def create_game_ui_def games_start_def snake_timer_stop_def Let_def
    switch_game_def do_snake_new_game_def snake_timer_start_def
  have panel: "g_game_panel ?s1" "g_game_mode ?s1 = 0" by (simp_all add: defs)
  have "games_step\<^sup>*\<^sup>* games_start ?s1" by (intro r_into_rtranclp open_screen)
  then have "games_step\<^sup>*\<^sup>* games_start ?s" by (rule rtranclp.rtrancl_into_rtrancl) (rule swipe_left [OF panel(1)])
  from games_reach_safe [OF this] show ?thesis
    by (simp add: Screenquweidonghualeft_event_handler_def game_dir_def panel)
qed

end
