(* ===== verification/Mini_Ini.thy ===== *)
theory Mini_Ini
  imports Prelude
begin

text \<open>
  The INI file library of the HMI application (\<open>apps/app_hmi_board_gui/minIni/minIni.c\<close>) with the
  stdio glue of \<open>minGlue.h\<close>: reading a key, and writing a key, which copies the file through a
  small cache. A file is the list of its characters, a position in it a number; lines are read with
  \<open>fgets\<close> in pieces of at most 511 characters. The calls of the application pass a section, a key and
  a value, so the enumeration by index and the deletion of keys and sections are left out. The line
  terminator of this target is CR LF.
\<close>

abbreviation (input) INI_BUFFERSIZE :: nat where "INI_BUFFERSIZE \<equiv> 512"
abbreviation (input) NUL :: char where "NUL \<equiv> CHR 0x00"
abbreviation (input) LF :: char where "LF \<equiv> CHR 0x0A"
abbreviation (input) CR :: char where "CR \<equiv> CHR 0x0D"
abbreviation (input) QUOTE :: char where "QUOTE \<equiv> CHR 0x22"
abbreviation (input) BACKSLASH :: char where "BACKSLASH \<equiv> CHR 0x5C"
abbreviation (input) INI_LINETERM :: string where "INI_LINETERM \<equiv> [CHR 0x0D, CHR 0x0A]"

subsection \<open>Strings\<close>

definition blank :: "char \<Rightarrow> bool" where
  "blank c = (0 < (of_char c :: nat) \<and> (of_char c :: nat) \<le> 32)"

definition skipleading :: "string \<Rightarrow> string" where
  "skipleading s = dropWhile blank s"

text \<open>\<open>skiptrailing\<close> as the string that is left in front of the returned pointer, and \<open>striptrailing\<close>.\<close>

definition skiptrailing :: "string \<Rightarrow> string" where
  "skiptrailing s = rev (dropWhile blank (rev s))"

definition lower :: "char \<Rightarrow> char" where
  "lower c = (let n = of_char c :: nat in if 65 \<le> n \<and> n \<le> 90 then char_of (n + 32) else c)"

text \<open>\<open>strncasecmp\<close> of two strings that both have the length that is compared.\<close>

definition same_name :: "string \<Rightarrow> string \<Rightarrow> bool" where
  "same_name s t = (length s = length t \<and> map lower s = map lower t)"

datatype quote_option = QUOTE_NONE | QUOTE_ENQUOTE | QUOTE_DEQUOTE

fun enquote_loop :: "nat \<Rightarrow> nat \<Rightarrow> string \<Rightarrow> string" where
  "enquote_loop maxlen d [] = []"
| "enquote_loop maxlen d (c # s) =
     (if d < maxlen - 2 then
        (if c = QUOTE then
           (if maxlen - 3 \<le> d then [] else BACKSLASH # c # enquote_loop maxlen (d + 2) s)
         else c # enquote_loop maxlen (d + 1) s)
      else [])"

fun dequote_loop :: "nat \<Rightarrow> nat \<Rightarrow> string \<Rightarrow> string" where
  "dequote_loop maxlen d [] = []"
| "dequote_loop maxlen d [c] = (if d < maxlen - 1 then [c] else [])"
| "dequote_loop maxlen d (c # c' # s) =
     (if d < maxlen - 1 then
        (if (c = QUOTE \<or> c = BACKSLASH) \<and> c' = QUOTE then c' # dequote_loop maxlen (d + 1) s
         else c # dequote_loop maxlen (d + 1) (c' # s))
      else [])"

definition ini_strncpy :: "string \<Rightarrow> nat \<Rightarrow> quote_option \<Rightarrow> string" where
  "ini_strncpy source maxlen option0 =
     (case (if option0 = QUOTE_ENQUOTE \<and> maxlen < 3 then QUOTE_NONE else option0) of
        QUOTE_NONE \<Rightarrow> take (maxlen - 1) source
      | QUOTE_ENQUOTE \<Rightarrow> QUOTE # enquote_loop maxlen 1 source @ [QUOTE]
      | QUOTE_DEQUOTE \<Rightarrow> dequote_loop maxlen 0 source)"

text \<open>The part of a value in front of a comment; \<open>isstring\<close> is set between quotes.\<close>

fun clean_loop :: "bool \<Rightarrow> string \<Rightarrow> string" where
  "clean_loop isstring [] = []"
| "clean_loop isstring [c] = (if (c = CHR '';'' \<or> c = CHR ''#'') \<and> \<not> isstring then [] else [c])"
| "clean_loop isstring (c # c' # s) =
     (if (c = CHR '';'' \<or> c = CHR ''#'') \<and> \<not> isstring then []
      else if c = QUOTE then
        (if c' = QUOTE then c # c' # clean_loop isstring s else c # clean_loop (\<not> isstring) (c' # s))
      else if c = BACKSLASH \<and> c' = QUOTE then c # c' # clean_loop isstring s
      else c # clean_loop isstring (c' # s))"

text \<open>
  A value that is a single quote has its first and last character at the same place: the string then
  starts behind its end, as the terminating zero is written over the quote.
\<close>

definition cleanstring :: "string \<Rightarrow> string \<times> quote_option" where
  "cleanstring s = (let t = skiptrailing (clean_loop False s) in
     if t \<noteq> [] \<and> hd t = QUOTE \<and> last t = QUOTE then (butlast (tl t), QUOTE_DEQUOTE)
     else (t, QUOTE_NONE))"

subsection \<open>Reading\<close>

definition next_line :: "string \<Rightarrow> string" where
  "next_line s = takeWhile (\<lambda>c. c \<noteq> LF) s @ (if LF \<in> set s then [LF] else [])"

text \<open>\<open>ini_read\<close>, that is \<open>fgets\<close>: the C string that is read, and the position after it.\<close>

definition chunk :: "nat \<Rightarrow> string \<Rightarrow> string" where
  "chunk sz s = take (sz - 1) (next_line s)"

definition ini_read :: "nat \<Rightarrow> string \<Rightarrow> nat \<Rightarrow> (string \<times> nat) option" where
  "ini_read sz c pos =
     (if pos < length c
      then (let l = chunk sz (drop pos c) in Some (takeWhile (\<lambda>x. x \<noteq> NUL) l, pos + length l))
      else None)"

lemma next_line_append: "next_line s @ drop (length (next_line s)) s = s"
proof (induction s)
  case (Cons a s)
  then show ?case by (auto simp: next_line_def)
qed (simp add: next_line_def)

lemma next_line_nonempty: "s \<noteq> [] \<Longrightarrow> next_line s \<noteq> []"
  by (cases s) (auto simp: next_line_def)

lemma length_next_line: "length (next_line s) \<le> length s"
  by (metis le_add1 length_append next_line_append)

lemma chunk_nonempty: "2 \<le> sz \<Longrightarrow> s \<noteq> [] \<Longrightarrow> chunk sz s \<noteq> []"
  using next_line_nonempty [of s] by (auto simp: chunk_def)

lemma length_chunk: "length (chunk sz s) \<le> length s"
  using length_next_line [of s] by (simp add: chunk_def)

lemma ini_read_advances:
  "ini_read sz c pos = Some (l, pos') \<Longrightarrow> 2 \<le> sz \<Longrightarrow> pos < pos' \<and> pos' \<le> length c"
  using chunk_nonempty [of sz "drop pos c"] length_chunk [of sz "drop pos c"]
  by (auto simp: ini_read_def Let_def split: if_splits)

text \<open>The name in a section header, and the name and the rest of a line with a key.\<close>

definition section_name :: "string \<Rightarrow> string option" where
  "section_name l = (let sp = skipleading l in
     if sp \<noteq> [] \<and> hd sp = CHR ''['' \<and> CHR '']'' \<in> set sp
     then Some (skiptrailing (rev (tl (dropWhile (\<lambda>x. x \<noteq> CHR '']'') (rev (skipleading (tl sp)))))))
     else None)"

definition split_at :: "char \<Rightarrow> string \<Rightarrow> string \<times> string" where
  "split_at ch s = (takeWhile (\<lambda>x. x \<noteq> ch) s, tl (dropWhile (\<lambda>x. x \<noteq> ch) s))"

definition key_split :: "string \<Rightarrow> (string \<times> string) option" where
  "key_split sp =
     (if CHR ''='' \<in> set sp then Some (split_at (CHR ''='') sp)
      else if CHR '':'' \<in> set sp then Some (split_at (CHR '':'') sp)
      else None)"

definition section_match :: "string \<Rightarrow> string \<Rightarrow> bool" where
  "section_match sec l = (case section_name l of Some name \<Rightarrow> same_name name sec | None \<Rightarrow> False)"

definition starts :: "char \<Rightarrow> string \<Rightarrow> bool" where
  "starts ch s = (s \<noteq> [] \<and> hd s = ch)"

function find_section :: "string \<Rightarrow> string \<Rightarrow> nat \<Rightarrow> nat option" where
  "find_section sec c pos =
     (case ini_read INI_BUFFERSIZE c pos of
        None \<Rightarrow> None
      | Some (l, pos') \<Rightarrow> if section_match sec l then Some pos' else find_section sec c pos')"
  by pat_completeness auto
termination
  by (relation "measure (\<lambda>(_, c, pos). length c - pos)") (auto dest!: ini_read_advances)

declare find_section.simps [simp del]

text \<open>The rest of the line that has the key, with the positions of the line and behind it.\<close>

function find_key :: "string \<Rightarrow> string \<Rightarrow> nat \<Rightarrow> (string \<times> nat \<times> nat) option" where
  "find_key key c pos =
     (case ini_read INI_BUFFERSIZE c pos of
        None \<Rightarrow> None
      | Some (l, pos') \<Rightarrow>
          (let sp = skipleading l in
           if starts (CHR ''['') sp then None
           else (case key_split sp of
               Some (name, rest) \<Rightarrow>
                 if starts (CHR '';'') sp \<or> starts (CHR ''#'') sp \<or> length key = 0
                   \<or> \<not> same_name (skiptrailing name) key
                 then find_key key c pos' else Some (rest, pos, pos')
             | None \<Rightarrow> find_key key c pos')))"
  by pat_completeness auto
termination
  by (relation "measure (\<lambda>(_, c, pos). length c - pos)") (auto dest!: ini_read_advances)

declare find_key.simps [simp del]

definition getkeystring ::
  "string \<Rightarrow> string \<Rightarrow> string \<Rightarrow> nat \<Rightarrow> (string \<times> nat \<times> nat) option" where
  "getkeystring c sec key sz =
     (case (if 0 < length sec then find_section sec c 0 else Some 0) of
        None \<Rightarrow> None
      | Some pos \<Rightarrow>
          (case find_key key c pos of
             None \<Rightarrow> None
           | Some (rest, mark, tail) \<Rightarrow>
               (case cleanstring (skipleading rest) of
                  (sp, quotes) \<Rightarrow> Some (ini_strncpy sp sz quotes, mark, tail))))"

type_synonym files = "string \<Rightarrow> string option"

definition ini_gets :: "string \<Rightarrow> string \<Rightarrow> string \<Rightarrow> nat \<Rightarrow> string \<Rightarrow> files \<Rightarrow> string" where
  "ini_gets sec key defvalue sz filename fs =
     (case fs filename of
        Some c \<Rightarrow>
          (case getkeystring c sec key sz of
             Some (buffer, _, _) \<Rightarrow> buffer
           | None \<Rightarrow> ini_strncpy defvalue sz QUOTE_NONE)
      | None \<Rightarrow> ini_strncpy defvalue sz QUOTE_NONE)"

subsection \<open>Writing\<close>

definition ini_tempname :: "string \<Rightarrow> string" where
  "ini_tempname source = (let dest = ini_strncpy source INI_BUFFERSIZE QUOTE_NONE in butlast dest @ ''~'')"

definition check_enquote :: "string \<Rightarrow> quote_option" where
  "check_enquote value =
     (if list_ex (\<lambda>c. c = QUOTE \<or> c = CHR '';'' \<or> c = CHR ''#'') value
         \<or> value \<noteq> [] \<and> last value = CHR '' ''
      then QUOTE_ENQUOTE else QUOTE_NONE)"

definition writesection :: "string \<Rightarrow> string" where
  "writesection sec =
     (if 0 < length sec
      then CHR ''['' # ini_strncpy sec (INI_BUFFERSIZE - 4) QUOTE_NONE @ CHR '']'' # INI_LINETERM
      else [])"

definition writekey :: "string \<Rightarrow> string \<Rightarrow> string" where
  "writekey key value =
     (let k = ini_strncpy key (INI_BUFFERSIZE - 3) QUOTE_NONE @ [CHR ''='']
      in k @ ini_strncpy value (INI_BUFFERSIZE - length k - 2) (check_enquote value) @ INI_LINETERM)"

text \<open>
  The state while the file is copied: the position of the next read, the start and the length of the
  lines that were read but not yet written, and what has been written.
\<close>

record copying =
  rpos :: nat
  mark :: nat
  cachelen :: nat
  written :: string

definition cache_accum :: "string \<Rightarrow> nat \<Rightarrow> bool \<times> nat" where
  "cache_accum s len = (if INI_BUFFERSIZE \<le> len + length s then (False, len) else (True, len + length s))"

function flush_loop :: "string \<Rightarrow> nat \<Rightarrow> nat \<Rightarrow> string \<Rightarrow> string \<times> nat" where
  "flush_loop c r n buffer =
     (if length buffer < n
      then (case ini_read (INI_BUFFERSIZE - length buffer) c r of
          None \<Rightarrow> (buffer, r)
        | Some (l, r') \<Rightarrow>
            if l = [] then (buffer, r') else flush_loop c r' n (take n (buffer @ l)))
      else (buffer, r))"
  by pat_completeness auto
termination
proof (relation "measure (\<lambda>(c, r, _, _). length c - r)")
  fix c buffer l :: string and r n r' :: nat and x
  assume "length buffer < n" "ini_read (INI_BUFFERSIZE - length buffer) c r = Some x" "(l, r') = x" "l \<noteq> []"
  then have "r < r'" "r < length c"
    by (auto simp: ini_read_def Let_def split: if_splits)
  then show "((c, r', n, take n (buffer @ l)), c, r, n, buffer) \<in> measure (\<lambda>(c, r, _, _). length c - r)"
    by simp
qed simp

declare flush_loop.simps [simp del]

definition cache_flush :: "string \<Rightarrow> copying \<Rightarrow> bool \<times> string \<times> copying" where
  "cache_flush c cp = (case flush_loop c (mark cp) (cachelen cp) [] of (buffer, r) \<Rightarrow>
     (2 < length buffer \<and> drop (length buffer - 2) buffer = INI_LINETERM, buffer,
      cp\<lparr>rpos := r, mark := r, cachelen := 0, written := written cp @ buffer\<rparr>))"

text \<open>A line that was read is added to the cache, which is emptied first when it would overflow.\<close>

definition cache_line :: "string \<Rightarrow> string \<Rightarrow> copying \<Rightarrow> copying" where
  "cache_line c l cp = (case cache_accum l (cachelen cp) of
       (True, len) \<Rightarrow> cp\<lparr>cachelen := len\<rparr>
     | (False, _) \<Rightarrow>
         (case cache_flush c cp of (_, buffer, cp1) \<Rightarrow>
            (case ini_read INI_BUFFERSIZE c (rpos cp1) of
               Some (l', p) \<Rightarrow> cp1\<lparr>rpos := p, cachelen := snd (cache_accum l' (cachelen cp1))\<rparr>
             | None \<Rightarrow> cp1\<lparr>cachelen := snd (cache_accum buffer (cachelen cp1))\<rparr>)))"

partial_function (option) put_find_section :: "string \<Rightarrow> string \<Rightarrow> copying \<Rightarrow> (bool \<times> copying) option" where
  "put_find_section sec c cp =
     (case ini_read INI_BUFFERSIZE c (rpos cp) of
        None \<Rightarrow> Some (False, cp)
      | Some (l, p) \<Rightarrow>
          if section_match sec l then Some (True, cache_line c l (cp\<lparr>rpos := p\<rparr>))
          else put_find_section sec c (cache_line c l (cp\<lparr>rpos := p\<rparr>)))"

definition put_match :: "string \<Rightarrow> string \<Rightarrow> bool" where
  "put_match key l = (case key_split (skipleading l) of
       Some (name, _) \<Rightarrow> 0 < length key \<and> same_name (skiptrailing name) key
     | None \<Rightarrow> False)"

text \<open>The result is \<open>None\<close> at the end of the file, else whether the line starts a section.\<close>

partial_function (option) put_find_key :: "string \<Rightarrow> string \<Rightarrow> copying \<Rightarrow> (bool option \<times> copying) option" where
  "put_find_key key c cp =
     (case ini_read INI_BUFFERSIZE c (rpos cp) of
        None \<Rightarrow> Some (None, cp)
      | Some (l, p) \<Rightarrow>
          if put_match key l \<or> starts (CHR ''['') (skipleading l)
          then Some (Some (starts (CHR ''['') (skipleading l)), cp\<lparr>rpos := p\<rparr>)
          else put_find_key key c (cache_line c l (cp\<lparr>rpos := p\<rparr>)))"

partial_function (option) put_copy_rest :: "string \<Rightarrow> copying \<Rightarrow> copying option" where
  "put_copy_rest c cp =
     (case ini_read INI_BUFFERSIZE c (rpos cp) of
        None \<Rightarrow> Some cp
      | Some (l, p) \<Rightarrow> put_copy_rest c (cache_line c l (cp\<lparr>rpos := p\<rparr>)))"

definition put_line :: "string \<Rightarrow> bool \<Rightarrow> string \<Rightarrow> copying \<Rightarrow> string option" where
  "put_line c sect keyline cp = (case cache_flush c cp of (_, buffer, cp1) \<Rightarrow>
     (let cp2 = cp1\<lparr>written := written cp1 @ keyline\<rparr>;
          (l, p) = (case ini_read INI_BUFFERSIZE c (rpos cp2) of Some lp \<Rightarrow> lp | None \<Rightarrow> (keyline, rpos cp2));
          cp3 = cp2\<lparr>rpos := p\<rparr>;
          cp4 = (if sect then cp3\<lparr>cachelen := snd (cache_accum l (cachelen cp3))\<rparr> else cp3\<lparr>mark := p\<rparr>)
      in do {
        cp5 \<leftarrow> put_copy_rest c cp4;
        Some (case cache_flush c cp5 of (_, _, cp6) \<Rightarrow> written cp6)
      }))"

definition put_copy :: "string \<Rightarrow> string \<Rightarrow> string \<Rightarrow> string \<Rightarrow> string option" where
  "put_copy c sec key value = do {
     let cp0 = \<lparr>rpos = 0, mark = 0, cachelen = 0, written = []\<rparr>;
     (found, cp1) \<leftarrow> (if 0 < length sec then put_find_section sec c cp0 else Some (True, cp0));
     (case cache_flush c cp1 of (flag, _, cp2) \<Rightarrow>
        if \<not> found
        then Some (written cp2 @ (if flag then [] else INI_LINETERM) @ writesection sec @ writekey key value)
        else do {
          (brk, cp3) \<leftarrow> put_find_key key c cp2;
          (case brk of
             None \<Rightarrow> (case cache_flush c cp3 of (flag, _, cp4) \<Rightarrow>
                 Some (written cp4 @ (if flag then [] else INI_LINETERM) @ writekey key value))
           | Some sect \<Rightarrow> put_line c sect (writekey key value) cp3)
        })
   }"

text \<open>
  \<open>ini_puts\<close> with a key and a value. Which files can be opened for writing is an argument; removing and
  renaming, whose results the code ignores, succeed, and the file is not its own temporary file.
\<close>

definition ini_rewrite :: "(string \<Rightarrow> bool) \<Rightarrow> string \<Rightarrow> string \<Rightarrow> string \<Rightarrow> string \<Rightarrow> string \<Rightarrow> files \<Rightarrow> (int \<times> files) option" where
  "ini_rewrite can_write c sec key value filename fs =
     (if \<not> can_write (ini_tempname filename) then Some (0, fs)
      else do {
        c' \<leftarrow> put_copy c sec key value;
        Some (1, fs(ini_tempname filename := None, filename \<mapsto> c'))
      })"

definition ini_puts :: "(string \<Rightarrow> bool) \<Rightarrow> string \<Rightarrow> string \<Rightarrow> string \<Rightarrow> string \<Rightarrow> files \<Rightarrow> (int \<times> files) option" where
  "ini_puts can_write sec key value filename fs =
     (case fs filename of
        None \<Rightarrow>
          if \<not> can_write filename then Some (0, fs)
          else Some (1, fs(filename \<mapsto> writesection sec @ writekey key value))
      | Some c \<Rightarrow>
          (case getkeystring c sec key INI_BUFFERSIZE of
             Some (buffer, head, tail) \<Rightarrow>
               if buffer = value then Some (1, fs)
               else if length (writekey key value) = tail - head
               then (if \<not> can_write filename then Some (0, fs)
                     else Some (1, fs(filename \<mapsto> take head c @ writekey key value @ drop tail c)))
               else ini_rewrite can_write c sec key value filename fs
           | None \<Rightarrow> ini_rewrite can_write c sec key value filename fs))"

text \<open>\<open>long2str\<close>, whose digits are written from the last to the first and then reversed.\<close>

function long_digits :: "int \<Rightarrow> string" where
  "long_digits value =
     (let n = value - 10 * (sgn value * (\<bar>value\<bar> div 10)); q = sgn value * (\<bar>value\<bar> div 10)
      in char_of (nat \<bar>n\<bar> + 48) # (if q \<noteq> 0 then long_digits q else []))"
  by pat_completeness auto
termination
proof (relation "measure (\<lambda>value. nat \<bar>value\<bar>)")
  fix v n q :: int
  assume "q = sgn v * (\<bar>v\<bar> div 10)" "q \<noteq> 0"
  then show "(q, v) \<in> measure (\<lambda>value. nat \<bar>value\<bar>)"
    by (auto simp: abs_mult sgn_if split: if_splits)
qed simp

declare long_digits.simps [simp del]

definition long2str :: "int \<Rightarrow> string" where
  "long2str value = rev (long_digits value @ (if value < 0 then ''-'' else []))"

definition ini_putl :: "(string \<Rightarrow> bool) \<Rightarrow> string \<Rightarrow> string \<Rightarrow> int \<Rightarrow> string \<Rightarrow> files \<Rightarrow> (int \<times> files) option" where
  "ini_putl can_write sec key value filename fs = ini_puts can_write sec key (long2str value) filename fs"

text \<open>\<open>strtol\<close> of the C library, on the 32 bits of a long: blanks, a sign, the digits, and the limits.\<close>

definition isspace :: "char \<Rightarrow> bool" where
  "isspace c = (let n = of_char c :: nat in n = 32 \<or> 9 \<le> n \<and> n \<le> 13)"

definition digit_of :: "char \<Rightarrow> nat option" where
  "digit_of c = (let n = of_char c :: nat in
     if 48 \<le> n \<and> n \<le> 57 then Some (n - 48)
     else if 65 \<le> n \<and> n \<le> 90 then Some (n - 55)
     else if 97 \<le> n \<and> n \<le> 122 then Some (n - 87) else None)"

fun digits_value :: "nat \<Rightarrow> int \<Rightarrow> string \<Rightarrow> int" where
  "digits_value base acc [] = acc"
| "digits_value base acc (c # s) = (case digit_of c of
       Some d \<Rightarrow> if d < base then digits_value base (acc * int base + int d) s else acc
     | None \<Rightarrow> acc)"

definition strtol :: "nat \<Rightarrow> string \<Rightarrow> int" where
  "strtol base s = (let s1 = dropWhile isspace s;
       neg = starts (CHR ''-'') s1;
       s2 = (if neg \<or> starts (CHR ''+'') s1 then tl s1 else s1);
       s3 = (if base = 16 \<and> 2 < length s2 \<and> s2 ! 0 = CHR ''0'' \<and> (s2 ! 1 = CHR ''x'' \<or> s2 ! 1 = CHR ''X'')
               \<and> (case digit_of (s2 ! 2) of Some d \<Rightarrow> d < 16 | None \<Rightarrow> False)
             then drop 2 s2 else s2);
       v = digits_value base 0 s3
     in if neg then max (- 2147483648) (- v) else min 2147483647 v)"

definition ini_getl :: "string \<Rightarrow> string \<Rightarrow> int \<Rightarrow> string \<Rightarrow> files \<Rightarrow> int" where
  "ini_getl sec key defvalue filename fs =
     (let buffer = ini_gets sec key [] 64 filename fs
      in if buffer = [] then defvalue
         else if 2 \<le> length buffer \<and> (buffer ! 1 = CHR ''x'' \<or> buffer ! 1 = CHR ''X'') then strtol 16 buffer
         else strtol 10 buffer)"

definition ini_getbool :: "string \<Rightarrow> string \<Rightarrow> int \<Rightarrow> string \<Rightarrow> files \<Rightarrow> int" where
  "ini_getbool sec key defvalue filename fs =
     (let buffer = ini_gets sec key [] 2 filename fs
      in if buffer \<noteq> [] \<and> hd buffer \<in> {CHR ''Y'', CHR ''y'', CHR ''1'', CHR ''T'', CHR ''t''} then 1
         else if buffer \<noteq> [] \<and> hd buffer \<in> {CHR ''N'', CHR ''n'', CHR ''0'', CHR ''F'', CHR ''f''} then 0
         else defvalue)"

end
