(* ===== verification/Mini_Ini_Copy.thy ===== *)
theory Mini_Ini_Copy
  imports Mini_Ini
begin

text \<open>
  The copying loops of \<open>ini_puts\<close> (\<open>apps/app_hmi_board_gui/minIni/minIni.c\<close>): what the cache holds and
  what has been written always make up the part of the file that was read, so that the new file is the old
  one with a line replaced or inserted (\<open>put_copy_ok\<close>), and the copy ends.
\<close>

subsection \<open>The lines of a file\<close>

text \<open>The pieces in which a file is read; \<open>between c p q\<close> says that positions \<open>p\<close> and \<open>q\<close> are ends of pieces.\<close>

definition piece :: "string \<Rightarrow> string" where
  "piece s = chunk INI_BUFFERSIZE s"

lemma length_piece: "length (piece s) \<le> length s" "length (piece s) < INI_BUFFERSIZE"
  using length_chunk [of INI_BUFFERSIZE s] by (auto simp: piece_def chunk_def)

lemma piece_nonempty [simp]: "piece s = [] \<longleftrightarrow> s = []"
  using chunk_nonempty [of INI_BUFFERSIZE s]
  by (cases "s = []") (auto simp: piece_def chunk_def next_line_def)

function pieces :: "string \<Rightarrow> string list" where
  "pieces s = (if s = [] then [] else piece s # pieces (drop (length (piece s)) s))"
  by pat_completeness auto
termination
  by (relation "measure length") (auto simp: diff_less)

declare pieces.simps [simp del]

lemma pieces_Nil [simp]: "pieces [] = []"
  by (simp add: pieces.simps)

lemma pieces_rec: "s \<noteq> [] \<Longrightarrow> pieces s = piece s # pieces (drop (length (piece s)) s)"
  by (subst pieces.simps) simp

lemma chunk_append: "chunk n s @ drop (length (chunk n s)) s = s"
proof -
  obtain r where s: "next_line s @ r = s" using next_line_append by blast
  have "take (length (chunk n s)) (next_line s @ r) = chunk n s" by (simp add: chunk_def min_def)
  then show ?thesis unfolding s by (metis append_take_drop_id)
qed

lemma piece_append: "piece s @ drop (length (piece s)) s = s"
  by (simp add: piece_def chunk_append)

inductive between :: "string \<Rightarrow> nat \<Rightarrow> nat \<Rightarrow> bool" for c where
  between_refl: "p \<le> length c \<Longrightarrow> between c p p"
| between_step: "p < length c \<Longrightarrow> between c (p + length (piece (drop p c))) q \<Longrightarrow> between c p q"

lemma between_le: "between c p q \<Longrightarrow> p \<le> q \<and> q \<le> length c"
  by (induction rule: between.induct) auto

lemma between_snoc: "between c p q \<Longrightarrow> q < length c \<Longrightarrow> between c p (q + length (piece (drop q c)))"
proof (induction rule: between.induct)
  case (between_refl p)
  have le: "p + length (piece (drop p c)) \<le> length c" using length_piece(1) [of "drop p c"] between_refl by simp
  show ?case by (rule between.between_step [OF between_refl(2) between.between_refl [OF le]])
qed (blast intro: between.between_step)

definition no_nul :: "string \<Rightarrow> bool" where
  "no_nul c = (NUL \<notin> set c)"

lemma set_chunk: "set (chunk n s) \<subseteq> set s"
  by (metis Un_upper1 chunk_append set_append)

lemma ini_read_piece:
  assumes "no_nul c"
  shows "ini_read INI_BUFFERSIZE c p = (if p < length c then Some (piece (drop p c), p + length (piece (drop p c))) else None)"
proof -
  have "\<forall>x\<in>set (piece (drop p c)). x \<noteq> NUL"
    using set_chunk [of INI_BUFFERSIZE "drop p c"] assms unfolding piece_def no_nul_def
    by (metis in_set_dropD subsetD)
  then show ?thesis by (simp add: ini_read_def piece_def Let_def takeWhile_eq_all_conv)
qed

text \<open>Reading the cached lines again gives just them.\<close>

lemma flush_loop_between:
  assumes "between c r q" "no_nul c" "q = m + n" "r = m + length buffer" "n < INI_BUFFERSIZE"
    "buffer = take (length buffer) (drop m c)"
  shows "flush_loop c r n buffer = (take n (drop m c), q)"
  using assms
proof (induction arbitrary: buffer rule: between.induct)
  case (between_refl p)
  then show ?case by (subst flush_loop.simps) simp
next
  case (between_step p q)
  let ?l = "piece (drop p c)"
  have q: "p + length ?l \<le> q" using between_le [OF between_step.hyps(2)] by simp
  have l0: "0 < length ?l" using between_step.hyps(1) by simp
  then have lb: "length buffer < n" "length ?l \<le> n - length buffer"
    using q between_step.prems(2,3) by linarith+
  have "chunk (INI_BUFFERSIZE - length buffer) (drop p c) = ?l"
  proof -
    have "take (INI_BUFFERSIZE - length buffer - 1) (next_line (drop p c))
        = take (INI_BUFFERSIZE - 1) (next_line (drop p c))"
    proof (cases "length (next_line (drop p c)) \<le> INI_BUFFERSIZE - length buffer - 1")
      case False
      have "length ?l = min (INI_BUFFERSIZE - 1) (length (next_line (drop p c)))"
        by (simp add: piece_def chunk_def)
      then have "length ?l = INI_BUFFERSIZE - 1 \<or> INI_BUFFERSIZE - length buffer - 1 < length ?l" using False by linarith
      then have "length buffer = 0" using lb between_step.prems(4) by linarith
      then show ?thesis by simp
    qed simp
    then show ?thesis by (simp add: piece_def chunk_def)
  qed
  moreover have "\<forall>x\<in>set ?l. x \<noteq> NUL"
    using set_chunk [of INI_BUFFERSIZE "drop p c"] between_step.prems(1) unfolding piece_def no_nul_def
    by (metis in_set_dropD subsetD)
  ultimately have rd: "ini_read (INI_BUFFERSIZE - length buffer) c p = Some (?l, p + length ?l)"
    using between_step.hyps(1) by (simp add: ini_read_def Let_def takeWhile_eq_all_conv)
  have "?l = take (length ?l) (drop p c)" by (metis append_eq_conv_conj piece_append)
  then have ext: "buffer @ ?l = take (length buffer + length ?l) (drop m c)"
    using between_step.prems(3,5) by (metis (no_types, lifting) add.commute drop_drop take_add)
  have tk: "take n (buffer @ ?l) = buffer @ ?l" using lb by simp
  have "flush_loop c (p + length ?l) n (buffer @ ?l) = (take n (drop m c), q)"
  proof (rule between_step.IH [OF between_step.prems(1,2) _ between_step.prems(4)])
    show "buffer @ ?l = take (length (buffer @ ?l)) (drop m c)" unfolding length_append by (rule ext)
  qed (use between_step.prems(3) in simp)
  then show ?case using lb l0 rd tk by (subst flush_loop.simps) auto
qed

text \<open>The state of the copy: what is written and what is cached is the file up to the next line.\<close>

definition copy_ok :: "string \<Rightarrow> copying \<Rightarrow> bool" where
  "copy_ok c cp = (between c (mark cp) (rpos cp) \<and> rpos cp = mark cp + cachelen cp \<and> cachelen cp < INI_BUFFERSIZE)"

lemma cache_flush_ok:
  assumes "copy_ok c cp" "no_nul c"
  shows "snd (snd (cache_flush c cp)) = cp\<lparr>mark := rpos cp, cachelen := 0, written := written cp @ take (cachelen cp) (drop (mark cp) c)\<rparr>"
    "copy_ok c (snd (snd (cache_flush c cp)))"
proof -
  have f: "flush_loop c (mark cp) (cachelen cp) [] = (take (cachelen cp) (drop (mark cp) c), rpos cp)"
    by (rule flush_loop_between) (use assms in \<open>auto simp: copy_ok_def\<close>)
  show *: "snd (snd (cache_flush c cp)) = cp\<lparr>mark := rpos cp, cachelen := 0, written := written cp @ take (cachelen cp) (drop (mark cp) c)\<rparr>"
    by (simp add: cache_flush_def f)
  have "rpos cp \<le> length c" using assms(1) between_le by (auto simp: copy_ok_def)
  then show "copy_ok c (snd (snd (cache_flush c cp)))" unfolding * by (simp add: copy_ok_def between_refl)
qed

definition total :: "string \<Rightarrow> copying \<Rightarrow> string" where
  "total c cp = written cp @ take (cachelen cp) (drop (mark cp) c)"

lemma cache_flush_total:
  assumes "copy_ok c cp" "no_nul c"
  shows "snd (snd (cache_flush c (cp\<lparr>rpos := x\<rparr>))) = cp\<lparr>mark := rpos cp, cachelen := 0, written := total c cp\<rparr>"
proof -
  have "cache_flush c (cp\<lparr>rpos := x\<rparr>) = cache_flush c cp"
    by (simp add: cache_flush_def case_prod_beta)
  then show ?thesis using cache_flush_ok(1) [OF assms] by (simp add: total_def)
qed

lemma copy_ok_empty: "p \<le> length c \<Longrightarrow> copy_ok c \<lparr>rpos = p, mark = p, cachelen = 0, written = w\<rparr>"
  by (simp add: copy_ok_def between_refl)

lemma copy_ok_le: "copy_ok c cp \<Longrightarrow> rpos cp \<le> length c"
  using between_le [of c "mark cp" "rpos cp"] by (auto simp: copy_ok_def)

lemma copy_ok_flushed: "copy_ok c cp \<Longrightarrow> copy_ok c (cp\<lparr>mark := rpos cp, cachelen := 0, written := w\<rparr>)"
  by (frule copy_ok_le) (simp add: copy_ok_def between_refl)

lemma take_drop_snoc: "take n (drop m c) @ take k (drop (m + n) c) = take (n + k) (drop m c)"
  by (simp add: take_add add.commute [of m n])

lemma cache_line_ok:
  assumes ok: "copy_ok c cp" and nn: "no_nul c" and r: "rpos cp < length c"
  defines "l \<equiv> piece (drop (rpos cp) c)"
  defines "cp' \<equiv> cache_line c l (cp\<lparr>rpos := rpos cp + length l\<rparr>)"
  shows "copy_ok c cp' \<and> rpos cp' = rpos cp + length l \<and> total c cp' = total c cp @ l"
proof -
  have l: "l = take (length l) (drop (rpos cp) c)" unfolding l_def by (metis append_eq_conv_conj piece_append)
  have ll: "length l < INI_BUFFERSIZE" unfolding l_def by (rule length_piece)
  show ?thesis
  proof (cases "INI_BUFFERSIZE \<le> cachelen cp + length l")
    case False
    then have cp': "cp' = cp\<lparr>rpos := rpos cp + length l, cachelen := cachelen cp + length l\<rparr>"
      by (simp add: cp'_def cache_line_def cache_accum_def)
    have "between c (mark cp) (rpos cp + length l)"
      using between_snoc [OF _ r, of "mark cp"] ok unfolding copy_ok_def l_def by blast
    moreover have "total c cp' = total c cp @ l"
      using ok take_drop_snoc [of "cachelen cp" "mark cp" c "length l"] l
      by (simp add: cp' total_def copy_ok_def)
    ultimately show ?thesis using ok False by (simp add: cp' copy_ok_def)
  next
    case True
    let ?f = "cp\<lparr>mark := rpos cp, cachelen := 0, written := total c cp\<rparr>"
    have rd: "ini_read INI_BUFFERSIZE c (rpos cp) = Some (l, rpos cp + length l)"
      using r by (simp add: ini_read_piece [OF nn] l_def)
    have cp': "cp' = ?f\<lparr>rpos := rpos cp + length l, cachelen := length l\<rparr>"
      using True cache_flush_total [OF ok nn, of "rpos cp + length l"] rd ll
      by (cases "cache_flush c (cp\<lparr>rpos := rpos cp + length l\<rparr>)")
        (simp add: cp'_def cache_line_def cache_accum_def)
    have "between c (rpos cp) (rpos cp + length l)"
      using between_snoc [of c "rpos cp" "rpos cp"] r by (simp add: between_refl l_def)
    then show ?thesis using ll l by (simp add: cp' copy_ok_def total_def)
  qed
qed

lemma line_step:
  assumes "copy_ok c cp" "no_nul c" "rpos cp < length c"
  obtains l cp1 where "ini_read INI_BUFFERSIZE c (rpos cp) = Some (l, rpos cp + length l)"
    "cp1 = cache_line c l (cp\<lparr>rpos := rpos cp + length l\<rparr>)" "copy_ok c cp1" "rpos cp1 = rpos cp + length l"
    "pieces (drop (rpos cp) c) = l # pieces (drop (rpos cp1) c)" "drop (rpos cp) c = l @ drop (rpos cp1) c"
    "total c cp1 = total c cp @ l" "length c - rpos cp1 < length c - rpos cp"
proof -
  let ?l = "piece (drop (rpos cp) c)"
  let ?cp = "cache_line c ?l (cp\<lparr>rpos := rpos cp + length ?l\<rparr>)"
  note cl = cache_line_ok [OF assms]
  have "pieces (drop (rpos cp) c) = ?l # pieces (drop (rpos ?cp) c)"
    using cl assms(3) by (subst pieces_rec) (simp_all add: add.commute)
  moreover have "drop (rpos cp) c = ?l @ drop (rpos ?cp) c"
    using piece_append [of "drop (rpos cp) c"] cl by (simp add: add.commute)
  moreover have "0 < length ?l" using assms(3) by simp
  then have "length c - rpos ?cp < length c - rpos cp" using cl assms(3) by linarith
  ultimately show ?thesis using that [of ?l ?cp] cl assms(3) by (simp add: ini_read_piece [OF assms(2)])
qed

lemma ini_read_end: "\<not> p < length c \<Longrightarrow> ini_read n c p = None"
  by (simp add: ini_read_def)

lemma put_find_section_ok:
  assumes "copy_ok c cp" "no_nul c"
  shows "\<exists>found cp'. put_find_section sec c cp = Some (found, cp') \<and> copy_ok c cp'
    \<and> (found \<longrightarrow> (\<exists>A h. pieces (drop (rpos cp) c) = A @ h # pieces (drop (rpos cp') c)
        \<and> section_match sec h \<and> (\<forall>l\<in>set A. \<not> section_match sec l) \<and> total c cp' = total c cp @ concat A @ h))
    \<and> (\<not> found \<longrightarrow> (\<forall>l\<in>set (pieces (drop (rpos cp) c)). \<not> section_match sec l)
        \<and> total c cp' = total c cp @ drop (rpos cp) c)"
  using assms
proof (induction "length c - rpos cp" arbitrary: cp rule: less_induct)
  case less
  show ?case
  proof (cases "rpos cp < length c")
    case False
    then have "put_find_section sec c cp = Some (False, cp)"
      by (subst put_find_section.simps) (simp add: ini_read_end)
    then show ?thesis using False less.prems by (intro exI [of _ False] exI [of _ cp]) simp
  next
    case True
    obtain l cp1 where l: "ini_read INI_BUFFERSIZE c (rpos cp) = Some (l, rpos cp + length l)"
      "cp1 = cache_line c l (cp\<lparr>rpos := rpos cp + length l\<rparr>)" "copy_ok c cp1"
      "pieces (drop (rpos cp) c) = l # pieces (drop (rpos cp1) c)" "drop (rpos cp) c = l @ drop (rpos cp1) c"
      "total c cp1 = total c cp @ l" "length c - rpos cp1 < length c - rpos cp"
      by (rule line_step [OF less.prems True])
    show ?thesis
    proof (cases "section_match sec l")
      case m: True
      then have "put_find_section sec c cp = Some (True, cp1)"
        by (subst put_find_section.simps) (simp add: l(1,2))
      then show ?thesis using m l(3-6) by (intro exI [of _ True] exI [of _ cp1]) (auto intro!: exI [of _ "[]"])
    next
      case nm: False
      then have step: "put_find_section sec c cp = put_find_section sec c cp1"
        by (subst put_find_section.simps) (simp add: l(1,2))
      from less.hyps [OF l(7,3) less.prems(2)] obtain found cp' where ih:
        "put_find_section sec c cp1 = Some (found, cp')" "copy_ok c cp'"
        "found \<Longrightarrow> \<exists>A h. pieces (drop (rpos cp1) c) = A @ h # pieces (drop (rpos cp') c)
          \<and> section_match sec h \<and> (\<forall>l\<in>set A. \<not> section_match sec l) \<and> total c cp' = total c cp1 @ concat A @ h"
        "\<not> found \<Longrightarrow> (\<forall>l\<in>set (pieces (drop (rpos cp1) c)). \<not> section_match sec l)
          \<and> total c cp' = total c cp1 @ drop (rpos cp1) c"
        by blast
      show ?thesis
      proof (cases found)
        case f: True
        with ih(3) obtain A h where "pieces (drop (rpos cp1) c) = A @ h # pieces (drop (rpos cp') c)"
          "section_match sec h" "\<forall>l\<in>set A. \<not> section_match sec l" "total c cp' = total c cp1 @ concat A @ h" by blast
        then show ?thesis using step ih(1,2) f nm l(4,6)
          by (intro exI [of _ found] exI [of _ cp'] conjI impI exI [of _ "l # A"] exI [of _ h]) auto
      next
        case f: False
        then show ?thesis using step ih(1,2,4) nm l(4-6) by (intro exI [of _ found] exI [of _ cp']) auto
      qed
    qed
  qed
qed

definition breaks :: "string \<Rightarrow> string \<Rightarrow> bool" where
  "breaks key l = (put_match key l \<or> starts (CHR ''['') (skipleading l))"

definition key_post :: "string \<Rightarrow> string \<Rightarrow> copying \<Rightarrow> bool option \<Rightarrow> copying \<Rightarrow> nat \<Rightarrow> bool" where
  "key_post key c cp brk cp' p = (copy_ok c cp' \<and> (case brk of
     None \<Rightarrow> p = rpos cp' \<and> (\<forall>l\<in>set (pieces (drop (rpos cp) c)). \<not> breaks key l)
        \<and> total c cp' = total c cp @ drop (rpos cp) c
   | Some sect \<Rightarrow> (\<exists>B l. pieces (drop (rpos cp) c) = B @ l # pieces (drop p c)
        \<and> (\<forall>l\<in>set B. \<not> breaks key l) \<and> breaks key l \<and> sect = starts (CHR ''['') (skipleading l)
        \<and> ini_read INI_BUFFERSIZE c (rpos cp') = Some (l, p) \<and> p = rpos cp' + length l \<and> p \<le> length c
        \<and> drop (rpos cp') c = l @ drop p c \<and> total c cp' = total c cp @ concat B)))"

lemma put_find_key_ok:
  assumes "copy_ok c cp" "no_nul c"
  shows "\<exists>brk cp' p. put_find_key key c cp = Some (brk, cp'\<lparr>rpos := p\<rparr>) \<and> key_post key c cp brk cp' p"
  using assms
proof (induction "length c - rpos cp" arbitrary: cp rule: less_induct)
  case less
  show ?case
  proof (cases "rpos cp < length c")
    case False
    then have "put_find_key key c cp = Some (None, cp\<lparr>rpos := rpos cp\<rparr>)"
      by (subst put_find_key.simps) (simp add: ini_read_end)
    moreover have "key_post key c cp None cp (rpos cp)" using False less.prems by (simp add: key_post_def)
    ultimately show ?thesis by blast
  next
    case True
    obtain l cp1 where l: "ini_read INI_BUFFERSIZE c (rpos cp) = Some (l, rpos cp + length l)"
      "cp1 = cache_line c l (cp\<lparr>rpos := rpos cp + length l\<rparr>)" "copy_ok c cp1"
      "pieces (drop (rpos cp) c) = l # pieces (drop (rpos cp1) c)" "drop (rpos cp) c = l @ drop (rpos cp1) c"
      "total c cp1 = total c cp @ l" "length c - rpos cp1 < length c - rpos cp" "rpos cp1 = rpos cp + length l"
      by (rule line_step [OF less.prems True])
    show ?thesis
    proof (cases "breaks key l")
      case m: True
      then have "put_find_key key c cp = Some (Some (starts (CHR ''['') (skipleading l)), cp\<lparr>rpos := rpos cp1\<rparr>)"
        by (subst put_find_key.simps) (simp add: l(1,8) breaks_def)
      moreover have "key_post key c cp (Some (starts (CHR ''['') (skipleading l))) cp (rpos cp1)"
        unfolding key_post_def option.case
        using m l(1,4,5,8) less.prems(1) copy_ok_le [OF l(3)]
        by (intro conjI exI [of _ "[]"] exI [of _ l]) simp_all
      ultimately show ?thesis by blast
    next
      case nm: False
      then have step: "put_find_key key c cp = put_find_key key c cp1"
        by (subst put_find_key.simps) (simp add: l(1,2) breaks_def)
      from less.hyps [OF l(7,3) less.prems(2)] obtain brk cp' p where ih:
        "put_find_key key c cp1 = Some (brk, cp'\<lparr>rpos := p\<rparr>)" "key_post key c cp1 brk cp' p"
        by blast
      have "key_post key c cp brk cp' p"
      proof (cases brk)
        case None
        then show ?thesis using ih(2) nm l(4-6) by (simp add: key_post_def)
      next
        case (Some sect)
        from ih(2) obtain B l' where B: "copy_ok c cp'" "pieces (drop (rpos cp1) c) = B @ l' # pieces (drop p c)"
          "\<forall>l\<in>set B. \<not> breaks key l" "breaks key l'" "sect = starts (CHR ''['') (skipleading l')"
          "ini_read INI_BUFFERSIZE c (rpos cp') = Some (l', p)" "p = rpos cp' + length l'" "p \<le> length c"
          "drop (rpos cp') c = l' @ drop p c" "total c cp' = total c cp1 @ concat B"
          unfolding key_post_def Some option.case by blast
        show ?thesis
          unfolding key_post_def Some option.case
          using B nm l(4,6) by (intro conjI exI [of _ "l # B"] exI [of _ l']) simp_all
      qed
      then show ?thesis using step ih(1) by metis
    qed
  qed
qed

lemma put_copy_rest_ok:
  assumes "copy_ok c cp" "no_nul c"
  shows "\<exists>cp'. put_copy_rest c cp = Some cp' \<and> copy_ok c cp' \<and> total c cp' = total c cp @ drop (rpos cp) c"
  using assms
proof (induction "length c - rpos cp" arbitrary: cp rule: less_induct)
  case less
  show ?case
  proof (cases "rpos cp < length c")
    case False
    then show ?thesis using less.prems by (subst put_copy_rest.simps) (simp add: ini_read_end)
  next
    case True
    obtain l cp1 where l: "ini_read INI_BUFFERSIZE c (rpos cp) = Some (l, rpos cp + length l)"
      "cp1 = cache_line c l (cp\<lparr>rpos := rpos cp + length l\<rparr>)" "copy_ok c cp1"
      "drop (rpos cp) c = l @ drop (rpos cp1) c" "total c cp1 = total c cp @ l" "length c - rpos cp1 < length c - rpos cp"
      by (rule line_step [OF less.prems True])
    have "put_copy_rest c cp = put_copy_rest c cp1" by (subst put_copy_rest.simps) (simp add: l(1,2))
    moreover obtain cp' where "put_copy_rest c cp1 = Some cp'" "copy_ok c cp'" "total c cp' = total c cp1 @ drop (rpos cp1) c"
      using less.hyps [OF l(6,3) less.prems(2)] by blast
    ultimately show ?thesis using l(4,5) by simp
  qed
qed

lemma concat_pieces [simp]: "concat (pieces s) = s"
proof (induction s rule: pieces.induct)
  case (1 s)
  then show ?case using piece_append [of s] by (cases "s = []") (simp_all add: pieces_rec)
qed

lemma put_line_ok:
  assumes cp: "copy_ok c cp" and nn: "no_nul c"
    and l: "ini_read INI_BUFFERSIZE c (rpos cp) = Some (l, p)" "p = rpos cp + length l" "p \<le> length c"
      "drop (rpos cp) c = l @ drop p c"
  shows "put_line c sect keyline (cp\<lparr>rpos := p\<rparr>) = Some (total c cp @ keyline @ (if sect then l else []) @ drop p c)"
proof -
  obtain flag buffer cp1 where fl: "cache_flush c (cp\<lparr>rpos := p\<rparr>) = (flag, buffer, cp1)" by (metis prod_cases3)
  have cp1: "cp1 = cp\<lparr>mark := rpos cp, cachelen := 0, written := total c cp\<rparr>"
    using cache_flush_total [OF cp nn, of p] fl by simp
  have r: "rpos cp < length c" using l(1) by (auto simp: ini_read_def split: if_splits)
  have lp: "l = piece (drop (rpos cp) c)" using l(1) r by (simp add: ini_read_piece [OF nn])
  have ll: "length l < INI_BUFFERSIZE" unfolding lp by (rule length_piece)
  define cp4 where "cp4 = cp\<lparr>rpos := p, mark := (if sect then rpos cp else p), cachelen := (if sect then length l else 0),
      written := total c cp @ keyline\<rparr>"
  have "between c (rpos cp) p"
    using between_snoc [OF between_refl r] r l(2) by (simp add: lp)
  then have ok4: "copy_ok c cp4" using l(2,3) ll by (simp add: cp4_def copy_ok_def between_refl)
  have tot: "total c cp4 = total c cp @ keyline @ (if sect then l else [])"
    using l(4) by (simp add: cp4_def total_def)
  obtain cp5 where cp5: "put_copy_rest c cp4 = Some cp5" "copy_ok c cp5" "total c cp5 = total c cp4 @ drop p c"
    using put_copy_rest_ok [OF ok4 nn] by (auto simp: cp4_def)
  obtain flag' buffer' cp6 where fl6: "cache_flush c cp5 = (flag', buffer', cp6)" by (metis prod_cases3)
  have cp6: "written cp6 = total c cp5"
    using cache_flush_ok(1) [OF cp5(2) nn] fl6 by (simp add: total_def)
  have "put_line c sect keyline (cp\<lparr>rpos := p\<rparr>) = Some (written cp6)"
    using fl cp5(1) fl6 l(1) ll cp1
    by (cases cp; cases sect) (simp_all add: put_line_def Let_def cp4_def cache_accum_def)
  then show ?thesis using cp6 cp5(3) tot by simp
qed

text \<open>The new contents of the file, in terms of its lines.\<close>

definition line_end :: "string \<Rightarrow> bool" where
  "line_end s = (s = [] \<or> s = INI_LINETERM)"

definition key_edit :: "string \<Rightarrow> string \<Rightarrow> string list \<Rightarrow> string \<Rightarrow> bool" where
  "key_edit key keyline T t' =
     ((\<forall>l\<in>set T. \<not> breaks key l) \<and> (\<exists>s. line_end s \<and> t' = concat T @ s @ keyline)
      \<or> (\<exists>B l R. T = B @ l # R \<and> (\<forall>l\<in>set B. \<not> breaks key l) \<and> breaks key l
          \<and> t' = concat B @ keyline @ (if starts (CHR ''['') (skipleading l) then l else []) @ concat R))"

definition file_edit :: "string \<Rightarrow> string \<Rightarrow> string \<Rightarrow> string \<Rightarrow> string \<Rightarrow> bool" where
  "file_edit sec key value c c' =
     (if sec = [] then key_edit key (writekey key value) (pieces c) c'
      else (\<forall>l\<in>set (pieces c). \<not> section_match sec l)
             \<and> (\<exists>s. line_end s \<and> c' = c @ s @ writesection sec @ writekey key value)
        \<or> (\<exists>A h T t'. pieces c = A @ h # T \<and> section_match sec h \<and> (\<forall>l\<in>set A. \<not> section_match sec l)
             \<and> key_edit key (writekey key value) T t' \<and> c' = concat A @ h @ t'))"

lemma put_keys_ok:
  assumes cp: "copy_ok c cp" and nn: "no_nul c"
  shows "\<exists>brk cp3 t'. put_find_key key c cp = Some (brk, cp3)
    \<and> key_edit key keyline (pieces (drop (rpos cp) c)) t'
    \<and> (case brk of
         None \<Rightarrow> (case cache_flush c cp3 of (flag, _, cp4) \<Rightarrow>
             Some (written cp4 @ (if flag then [] else INI_LINETERM) @ keyline))
       | Some sect \<Rightarrow> put_line c sect keyline cp3) = Some (total c cp @ t')"
proof -
  obtain brk cp' p where k: "put_find_key key c cp = Some (brk, cp'\<lparr>rpos := p\<rparr>)" "key_post key c cp brk cp' p"
    using put_find_key_ok [OF cp nn] by blast
  show ?thesis
  proof (cases brk)
    case None
    with k(2) have e: "p = rpos cp'" "copy_ok c cp'" "\<forall>l\<in>set (pieces (drop (rpos cp) c)). \<not> breaks key l"
      "total c cp' = total c cp @ drop (rpos cp) c" by (auto simp: key_post_def)
    obtain flag buffer cp4 where fl: "cache_flush c cp' = (flag, buffer, cp4)" by (metis prod_cases3)
    have "written cp4 = total c cp'" using cache_flush_ok(1) [OF e(2) nn] fl by (simp add: total_def)
    moreover have "key_edit key keyline (pieces (drop (rpos cp) c))
        (drop (rpos cp) c @ (if flag then [] else INI_LINETERM) @ keyline)"
      using e(3) by (auto simp: key_edit_def line_end_def)
    ultimately show ?thesis using k(1) fl e None
      by (intro exI [of _ brk] exI [of _ cp'] exI [of _ "drop (rpos cp) c @ (if flag then [] else INI_LINETERM) @ keyline"]) simp
  next
    case (Some sect)
    from k(2) obtain B l where B: "copy_ok c cp'" "pieces (drop (rpos cp) c) = B @ l # pieces (drop p c)"
      "\<forall>l\<in>set B. \<not> breaks key l" "breaks key l" "sect = starts (CHR ''['') (skipleading l)"
      "ini_read INI_BUFFERSIZE c (rpos cp') = Some (l, p)" "p = rpos cp' + length l" "p \<le> length c"
      "drop (rpos cp') c = l @ drop p c" "total c cp' = total c cp @ concat B"
      unfolding key_post_def Some option.case by blast
    let ?t = "concat B @ keyline @ (if sect then l else []) @ drop p c"
    have "put_line c sect keyline (cp'\<lparr>rpos := p\<rparr>) = Some (total c cp @ ?t)"
      unfolding put_line_ok [OF B(1) nn B(6-9)] by (simp add: B(10))
    moreover have "key_edit key keyline (pieces (drop (rpos cp) c)) ?t"
      unfolding key_edit_def using B(2-5)
      by (intro disjI2 exI [of _ B] exI [of _ l] exI [of _ "pieces (drop p c)"]) simp
    ultimately show ?thesis using k(1) Some by (intro exI [of _ brk] exI [of _ "cp'\<lparr>rpos := p\<rparr>"] exI [of _ ?t]) simp
  qed
qed

lemma put_copy_ok:
  assumes nn: "no_nul c"
  shows "\<exists>c'. put_copy c sec key value = Some c' \<and> file_edit sec key value c c'"
proof -
  define cp0 where "cp0 = \<lparr>rpos = 0, mark = 0, cachelen = 0, written = []\<rparr>"
  have ok0: "copy_ok c cp0" "total c cp0 = []" "rpos cp0 = 0"
    by (simp_all add: cp0_def copy_ok_def between_refl total_def)
  have pc: "put_copy c sec key value = do {
     (found, cp1) \<leftarrow> (if 0 < length sec then put_find_section sec c cp0 else Some (True, cp0));
     (case cache_flush c cp1 of (flag, _, cp2) \<Rightarrow>
        if \<not> found
        then Some (written cp2 @ (if flag then [] else INI_LINETERM) @ writesection sec @ writekey key value)
        else do {
          (brk, cp3) \<leftarrow> put_find_key key c cp2;
          (case brk of
             None \<Rightarrow> (case cache_flush c cp3 of (flag, _, cp4) \<Rightarrow>
                 Some (written cp4 @ (if flag then [] else INI_LINETERM) @ writekey key value))
           | Some sect \<Rightarrow> put_line c sect (writekey key value) cp3)
        })
   }" by (simp add: put_copy_def cp0_def)
  have main: "\<exists>t'. key_edit key (writekey key value) (pieces (drop (rpos cp1) c)) t' \<and>
      put_copy c sec key value = Some (total c cp1 @ t')"
    if f: "(if 0 < length sec then put_find_section sec c cp0 else Some (True, cp0)) = Some (True, cp1)" "copy_ok c cp1" for cp1
  proof -
    obtain flag buffer cp2 where fl: "cache_flush c cp1 = (flag, buffer, cp2)" by (metis prod_cases3)
    have cp2: "copy_ok c cp2" "total c cp2 = total c cp1" "rpos cp2 = rpos cp1"
      using cache_flush_ok [OF f(2) nn] fl by (simp_all add: total_def)
    show ?thesis
      using put_keys_ok [OF cp2(1) nn, of key "writekey key value"] cp2(2,3) f(1) fl unfolding pc by auto
  qed
  show ?thesis
  proof (cases "sec = []")
    case True
    then show ?thesis using main [of cp0] ok0 by (auto simp: file_edit_def)
  next
    case False
    obtain found cp1 where s: "put_find_section sec c cp0 = Some (found, cp1)" "copy_ok c cp1"
      "found \<Longrightarrow> \<exists>A h. pieces c = A @ h # pieces (drop (rpos cp1) c)
        \<and> section_match sec h \<and> (\<forall>l\<in>set A. \<not> section_match sec l) \<and> total c cp1 = concat A @ h"
      "\<not> found \<Longrightarrow> (\<forall>l\<in>set (pieces c). \<not> section_match sec l) \<and> total c cp1 = c"
      using put_find_section_ok [OF ok0(1) nn, of sec] ok0(2,3) by (metis append_Nil drop_0)
    show ?thesis
    proof (cases found)
      case True
      with s(3) obtain A h where A: "pieces c = A @ h # pieces (drop (rpos cp1) c)" "section_match sec h"
        "\<forall>l\<in>set A. \<not> section_match sec l" "total c cp1 = concat A @ h" by blast
      obtain t' where t': "key_edit key (writekey key value) (pieces (drop (rpos cp1) c)) t'"
        "put_copy c sec key value = Some (total c cp1 @ t')"
        using main [of cp1] s(1,2) True False by auto
      have "file_edit sec key value c (total c cp1 @ t')"
        unfolding file_edit_def using A t'(1) False by (simp only: if_False) (intro disjI2 exI conjI; (assumption | simp))
      then show ?thesis using t'(2) by blast
    next
      case nf: False
      obtain flag buffer cp2 where fl: "cache_flush c cp1 = (flag, buffer, cp2)" by (metis prod_cases3)
      have "written cp2 = total c cp1" using cache_flush_ok(1) [OF s(2) nn] fl by (simp add: total_def)
      then have "put_copy c sec key value
          = Some (c @ (if flag then [] else INI_LINETERM) @ writesection sec @ writekey key value)"
        unfolding pc using False s(1,4) nf fl by simp
      moreover have "file_edit sec key value c (c @ (if flag then [] else INI_LINETERM) @ writesection sec @ writekey key value)"
        unfolding file_edit_def using False s(4) nf by (auto simp: line_end_def)
      ultimately show ?thesis by blast
    qed
  qed
qed

end
