(* ===== verification/Mini_Ini_Lookup.thy ===== *)
theory Mini_Ini_Lookup
  imports Mini_Ini_Copy
begin

text \<open>
  INI files as lists of lines: what a lookup finds in the lines, what an edit does to every lookup, and the
  theorem that a value that is written is the value that is read, as text and as a number.
\<close>

subsection \<open>Lines of edited files\<close>

definition whole_line :: "string \<Rightarrow> bool" where
  "whole_line a = ((\<exists>b. a = b @ [LF] \<and> LF \<notin> set b \<and> length a < INI_BUFFERSIZE)
     \<or> LF \<notin> set a \<and> length a = INI_BUFFERSIZE - 1)"

lemma piece_whole: "whole_line a \<Longrightarrow> piece (a @ y) = a"
  unfolding whole_line_def
proof (elim disjE exE conjE)
  fix b assume "a = b @ [LF]" "LF \<notin> set b" "length a < INI_BUFFERSIZE"
  moreover have "takeWhile (\<lambda>c. c \<noteq> LF) b = b" using \<open>LF \<notin> set b\<close> by (auto simp: takeWhile_eq_all_conv)
  ultimately show "piece (a @ y) = a" by (simp add: piece_def chunk_def next_line_def takeWhile_tail)
next
  assume a: "LF \<notin> set a" "length a = INI_BUFFERSIZE - 1"
  have "next_line (a @ y) = a @ next_line y"
    using a(1) takeWhile_append2 [of a "\<lambda>c. c \<noteq> LF" y] by (fastforce simp: next_line_def)
  then show "piece (a @ y) = a" using a(2) by (simp add: piece_def chunk_def)
qed

lemma LF_once: "LF \<notin> set (takeWhile (\<lambda>c. c \<noteq> LF) s)"
  by (auto dest: set_takeWhileD)

lemma piece_is_whole:
  assumes "piece s \<noteq> s \<or> s \<noteq> [] \<and> last s = LF"
  shows "whole_line (piece s)"
proof (cases "length (next_line s) < INI_BUFFERSIZE")
  case True
  then have p: "piece s = next_line s" by (simp add: piece_def chunk_def)
  have "LF \<in> set s"
  proof (rule ccontr)
    assume "LF \<notin> set s"
    then have "next_line s = s" by (auto simp: next_line_def takeWhile_eq_all_conv)
    then show False using assms p \<open>LF \<notin> set s\<close> last_in_set by fastforce
  qed
  then show ?thesis using True p LF_once by (auto simp: whole_line_def next_line_def)
next
  case False
  have "LF \<notin> set (take (INI_BUFFERSIZE - 1) (next_line s))"
  proof -
    have "length (takeWhile (\<lambda>c. c \<noteq> LF) s) \<ge> INI_BUFFERSIZE - 1"
      using False by (auto simp: next_line_def split: if_splits)
    then have "take (INI_BUFFERSIZE - 1) (next_line s) = take (INI_BUFFERSIZE - 1) (takeWhile (\<lambda>c. c \<noteq> LF) s)"
      by (simp add: next_line_def)
    then show ?thesis using LF_once [of s] by (metis in_set_takeD)
  qed
  then show ?thesis using False by (simp add: whole_line_def piece_def chunk_def)
qed

lemma pieces_whole: "whole_line a \<Longrightarrow> pieces (a @ y) = a # pieces y"
proof -
  assume a: "whole_line a"
  then have "a \<noteq> []" by (auto simp: whole_line_def)
  then show ?thesis using piece_whole [OF a] by (subst pieces_rec) simp_all
qed

lemma pieces_wholes: "\<forall>a\<in>set A. whole_line a \<Longrightarrow> pieces (concat A @ y) = A @ pieces y"
  by (induction A) (simp_all add: pieces_whole)

definition text_ok :: "string \<Rightarrow> bool" where
  "text_ok c = (no_nul c \<and> (c = [] \<or> last c = LF))"

lemma pieces_text: "c = [] \<or> last c = LF \<Longrightarrow> \<forall>a\<in>set (pieces c). whole_line a"
proof (induction c rule: pieces.induct)
  case (1 s)
  show ?case
  proof (cases "s = []")
    case False
    let ?r = "drop (length (piece s)) s"
    have "?r = [] \<or> last ?r = LF" using 1(2) False piece_append [of s] by (metis last_append)
    with 1(1) [OF False] have "\<forall>a\<in>set (pieces ?r). whole_line a" by blast
    then show ?thesis using False piece_is_whole [of s] 1(2) by (simp add: pieces_rec)
  qed simp
qed

lemma pieces_suffix: "pieces c = P @ Q \<Longrightarrow> pieces (concat Q) = Q"
proof (induction P arbitrary: c)
  case Nil
  then show ?case by (metis append_Nil concat_pieces)
next
  case (Cons a P)
  define r where "r = drop (length (piece c)) c"
  have "c \<noteq> []" using Cons.prems by auto
  then have "piece c # pieces r = a # (P @ Q)" using Cons.prems pieces_rec [of c] unfolding r_def by (metis append_Cons)
  then have "pieces r = P @ Q" by simp
  then show ?case by (rule Cons.IH)
qed

subsection \<open>Looking up a key in the lines\<close>

definition key_line :: "string \<Rightarrow> string \<Rightarrow> bool" where
  "key_line key l = (case key_split (skipleading l) of
       Some (name, rest) \<Rightarrow> \<not> (starts (CHR '';'') (skipleading l) \<or> starts (CHR ''#'') (skipleading l) \<or> length key = 0
                   \<or> \<not> same_name (skiptrailing name) key)
     | None \<Rightarrow> False)"

definition key_rest :: "string \<Rightarrow> string" where
  "key_rest l = snd (the (key_split (skipleading l)))"

definition header :: "string \<Rightarrow> bool" where
  "header l = starts (CHR ''['') (skipleading l)"

fun key_lookup :: "string \<Rightarrow> string list \<Rightarrow> string option" where
  "key_lookup key [] = None"
| "key_lookup key (l # ls) =
     (if header l then None else if key_line key l then Some (key_rest l) else key_lookup key ls)"

fun section_rest :: "string \<Rightarrow> string list \<Rightarrow> string list option" where
  "section_rest sec [] = None"
| "section_rest sec (l # ls) = (if section_match sec l then Some ls else section_rest sec ls)"

definition lookup :: "string \<Rightarrow> string \<Rightarrow> string list \<Rightarrow> string option" where
  "lookup sec key ls = (case (if sec = [] then Some ls else section_rest sec ls) of
       None \<Rightarrow> None | Some r \<Rightarrow> key_lookup key r)"

definition decode :: "nat \<Rightarrow> string \<Rightarrow> string" where
  "decode n rest = (case cleanstring (skipleading rest) of (sp, quotes) \<Rightarrow> ini_strncpy sp n quotes)"

lemma find_section_pieces:
  assumes "no_nul c"
  shows "(case find_section sec c p of
       None \<Rightarrow> section_rest sec (pieces (drop p c)) = None
     | Some q \<Rightarrow> section_rest sec (pieces (drop p c)) = Some (pieces (drop q c))
         \<and> (\<exists>A h. pieces (drop p c) = A @ h # pieces (drop q c) \<and> section_match sec h
              \<and> (\<forall>l\<in>set A. \<not> section_match sec l) \<and> take q c = take p c @ concat A @ h))"
proof (induction "length c - p" arbitrary: p rule: less_induct)
  case less
  show ?case
  proof (cases "p < length c")
    case False
    then show ?thesis by (subst find_section.simps) (simp add: ini_read_end)
  next
    case True
    let ?l = "piece (drop p c)" and ?q = "p + length (piece (drop p c))"
    have ps: "pieces (drop p c) = ?l # pieces (drop ?q c)" using True by (subst pieces_rec) (simp_all add: add.commute)
    have tk: "take ?q c = take p c @ ?l"
      by (metis append_eq_conv_conj piece_append take_add)
    have rd: "ini_read INI_BUFFERSIZE c p = Some (?l, ?q)" using True by (simp add: ini_read_piece [OF assms])
    show ?thesis
    proof (cases "section_match sec ?l")
      case m: True
      then have "find_section sec c p = Some ?q" by (subst find_section.simps) (simp add: rd)
      then show ?thesis using m ps tk by (auto intro!: exI [of _ "[]"])
    next
      case nm: False
      have "0 < length ?l" using True by simp
      then have "length c - ?q < length c - p" using True by linarith
      note ih = less.hyps [OF this]
      have step: "find_section sec c p = find_section sec c ?q" using nm by (subst find_section.simps) (simp add: rd)
      show ?thesis
      proof (cases "find_section sec c ?q")
        case None
        then show ?thesis using ih ps nm unfolding step by simp
      next
        case (Some q)
        with ih obtain A h where "section_rest sec (pieces (drop ?q c)) = Some (pieces (drop q c))"
          "pieces (drop ?q c) = A @ h # pieces (drop q c)" "section_match sec h"
          "\<forall>l\<in>set A. \<not> section_match sec l" "take q c = take ?q c @ concat A @ h" by auto
        then show ?thesis using ps nm tk Some unfolding step
          by (auto intro!: exI [of _ "?l # A"] exI [of _ h])
      qed
    qed
  qed
qed

lemma find_key_pieces:
  assumes "no_nul c"
  shows "(case find_key key c p of
       None \<Rightarrow> key_lookup key (pieces (drop p c)) = None
     | Some (rest, m, t) \<Rightarrow> key_lookup key (pieces (drop p c)) = Some rest
         \<and> (\<exists>B l. pieces (drop p c) = B @ l # pieces (drop t c) \<and> key_line key l \<and> \<not> header l
              \<and> (\<forall>l\<in>set B. \<not> key_line key l \<and> \<not> header l) \<and> take m c = take p c @ concat B
              \<and> t = m + length l))"
proof (induction "length c - p" arbitrary: p rule: less_induct)
  case less
  show ?case
  proof (cases "p < length c")
    case False
    then show ?thesis by (subst find_key.simps) (simp add: ini_read_end)
  next
    case True
    let ?l = "piece (drop p c)" and ?q = "p + length (piece (drop p c))"
    have ps: "pieces (drop p c) = ?l # pieces (drop ?q c)" using True by (subst pieces_rec) (simp_all add: add.commute)
    have tk: "take ?q c = take p c @ ?l"
      by (metis append_eq_conv_conj piece_append take_add)
    have rd: "ini_read INI_BUFFERSIZE c p = Some (?l, ?q)" using True by (simp add: ini_read_piece [OF assms])
    have step: "find_key key c p = (if header ?l then None else if key_line key ?l then Some (key_rest ?l, p, ?q)
        else find_key key c ?q)"
      by (subst find_key.simps) (auto simp: rd Let_def header_def key_line_def key_rest_def split: option.split)
    show ?thesis
    proof (cases "header ?l \<or> key_line key ?l")
      case True
      then show ?thesis unfolding step using ps by (auto intro!: exI [of _ "[]"])
    next
      case nm: False
      have "0 < length ?l" using True by simp
      then have "length c - ?q < length c - p" using True by linarith
      note ih = less.hyps [OF this]
      show ?thesis
      proof (cases "find_key key c ?q")
        case None
        then show ?thesis using ih ps nm unfolding step by simp
      next
        case (Some rmt)
        obtain rest m t where rmt: "rmt = (rest, m, t)" by (cases rmt)
        with ih Some obtain B l where "key_lookup key (pieces (drop ?q c)) = Some rest"
          "pieces (drop ?q c) = B @ l # pieces (drop t c)" "key_line key l" "\<not> header l"
          "\<forall>l\<in>set B. \<not> key_line key l \<and> \<not> header l" "take m c = take ?q c @ concat B" "t = m + length l" by auto
        then show ?thesis using ps nm tk Some rmt unfolding step
          by (auto intro!: exI [of _ "?l # B"] exI [of _ l])
      qed
    qed
  qed
qed

subsection \<open>Names, values and the lines that are written\<close>

lemma same_name_iff: "same_name s t \<longleftrightarrow> map lower s = map lower t"
  unfolding same_name_def using map_eq_imp_length_eq by blast

lemma skipleading_id: "s \<noteq> [] \<Longrightarrow> \<not> blank (hd s) \<Longrightarrow> skipleading (s @ t) = s @ t"
  by (cases s) (simp_all add: skipleading_def)

lemma skiptrailing_id: "s \<noteq> [] \<Longrightarrow> \<not> blank (last s) \<Longrightarrow> skiptrailing s = s"
  by (cases s rule: rev_cases) (simp_all add: skiptrailing_def)

lemma skiptrailing_term: "skiptrailing (s @ INI_LINETERM) = skiptrailing s"
  by (simp add: skiptrailing_def blank_def)

definition key_ok :: "string \<Rightarrow> bool" where
  "key_ok key = (key \<noteq> [] \<and> length key \<le> 100 \<and> no_nul key \<and> LF \<notin> set key \<and> CHR ''='' \<notin> set key
     \<and> \<not> blank (hd key) \<and> \<not> blank (last key) \<and> hd key \<notin> {CHR ''['', CHR '';'', CHR ''#''})"

definition sec_ok :: "string \<Rightarrow> bool" where
  "sec_ok sec = (length sec \<le> 100 \<and> no_nul sec \<and> LF \<notin> set sec
     \<and> (sec \<noteq> [] \<longrightarrow> \<not> blank (hd sec) \<and> \<not> blank (last sec)))"

definition val_ok :: "string \<Rightarrow> bool" where
  "val_ok v = (length v \<le> 200 \<and> no_nul v \<and> LF \<notin> set v
     \<and> (v \<noteq> [] \<and> check_enquote v = QUOTE_NONE \<longrightarrow> \<not> blank (hd v) \<and> \<not> blank (last v)))"

fun enquoted :: "string \<Rightarrow> string" where
  "enquoted [] = []"
| "enquoted (c # s) = (if c = QUOTE then BACKSLASH # c # enquoted s else c # enquoted s)"

fun dequoted :: "string \<Rightarrow> string" where
  "dequoted [] = []"
| "dequoted [c] = [c]"
| "dequoted (c # c' # s) =
     (if (c = QUOTE \<or> c = BACKSLASH) \<and> c' = QUOTE then c' # dequoted s else c # dequoted (c' # s))"

lemma enquote_loop_enquoted: "d + 2 * length s < n - 2 \<Longrightarrow> enquote_loop n d s = enquoted s"
  by (induction s arbitrary: d) auto

lemma dequote_loop_take: "dequote_loop n d s = take (n - 1 - d) (dequoted s)"
proof (induction n d s rule: dequote_loop.induct)
  case (3 n d c c' s)
  have "n - Suc (Suc d) = n - Suc d - 1" by simp
  then show ?case using 3 by (auto simp: take_Cons')
qed auto

lemma enquoted_hd: "enquoted s = c # t \<Longrightarrow> c \<noteq> QUOTE"
  by (cases s) (auto split: if_splits)

lemma dequoted_enquoted [simp]: "dequoted (enquoted s) = s"
proof (induction s)
  case (Cons c s)
  then show ?case using enquoted_hd [of s] by (cases "enquoted s") auto
qed simp

lemma clean_enquoted: "clean_loop True (enquoted s @ QUOTE # INI_LINETERM) = enquoted s @ QUOTE # INI_LINETERM"
proof (induction s)
  case (Cons c s)
  then show ?case using enquoted_hd [of s] by (cases "enquoted s") auto
qed simp

lemma clean_plain: "QUOTE \<notin> set s \<Longrightarrow> CHR '';'' \<notin> set s \<Longrightarrow> CHR ''#'' \<notin> set s \<Longrightarrow> clean_loop False s = s"
  by (induction "False" s rule: clean_loop.induct) auto

lemma set_enquoted: "set (enquoted s) \<subseteq> insert BACKSLASH (set s)"
  by (induction s) auto

lemma length_enquoted: "length (enquoted s) \<le> 2 * length s"
  by (induction s) auto

definition written_value :: "string \<Rightarrow> string" where
  "written_value v = (if check_enquote v = QUOTE_NONE then v else QUOTE # enquoted v @ [QUOTE])"

lemma writekey_ok: "key_ok key \<Longrightarrow> val_ok v \<Longrightarrow> writekey key v = key @ CHR ''='' # written_value v @ INI_LINETERM"
  by (auto simp: key_ok_def val_ok_def writekey_def Let_def ini_strncpy_def written_value_def check_enquote_def
      enquote_loop_enquoted)

lemma writesection_ok: "sec_ok sec \<Longrightarrow> sec \<noteq> [] \<Longrightarrow> writesection sec = CHR ''['' # sec @ CHR '']'' # INI_LINETERM"
  by (simp add: sec_ok_def writesection_def ini_strncpy_def)

lemma check_enquote_none:
  "check_enquote v = QUOTE_NONE \<Longrightarrow> QUOTE \<notin> set v \<and> CHR '';'' \<notin> set v \<and> CHR ''#'' \<notin> set v"
  by (auto simp: check_enquote_def list_ex_iff split: if_splits)

lemma cleanstring_written:
  assumes v: "val_ok v"
  shows "cleanstring (skipleading (written_value v @ INI_LINETERM))
    = (if check_enquote v = QUOTE_NONE then (v, QUOTE_NONE) else (enquoted v, QUOTE_DEQUOTE))"
proof (cases "check_enquote v = QUOTE_NONE")
  case True
  note q = check_enquote_none [OF True]
  show ?thesis
  proof (cases "v = []")
    case True
    then show ?thesis by (simp add: written_value_def check_enquote_def skipleading_def blank_def cleanstring_def skiptrailing_def)
  next
    case False
    then have b: "\<not> blank (hd v)" "\<not> blank (last v)" using v True by (auto simp: val_ok_def)
    have "hd v \<noteq> QUOTE" using q False hd_in_set by metis
    moreover have "clean_loop False (v @ INI_LINETERM) = v @ INI_LINETERM" using q by (intro clean_plain) auto
    ultimately show ?thesis using True False b
      by (simp add: written_value_def skipleading_id cleanstring_def skiptrailing_term [simplified] skiptrailing_id Let_def)
  qed
next
  case False
  then have ne: "v \<noteq> []" by (auto simp: check_enquote_def)
  then obtain x y where e: "enquoted v = x # y" by (cases v) (simp_all split: if_splits, metis)
  let ?q = "QUOTE # enquoted v @ [QUOTE]"
  have "clean_loop False (?q @ INI_LINETERM) = ?q @ INI_LINETERM"
    using clean_enquoted [of v] enquoted_hd [OF e] e by simp
  moreover have "skipleading (?q @ INI_LINETERM) = ?q @ INI_LINETERM"
    by (rule skipleading_id) (simp_all add: blank_def)
  moreover have "skiptrailing (?q @ INI_LINETERM) = ?q"
    unfolding skiptrailing_term by (rule skiptrailing_id) (simp_all add: blank_def)
  ultimately show ?thesis using False by (simp add: written_value_def cleanstring_def Let_def)
qed

lemma decode_written: "val_ok v \<Longrightarrow> decode n (written_value v @ INI_LINETERM) = take (n - 1) v"
  using cleanstring_written [of v] by (simp add: decode_def ini_strncpy_def dequote_loop_take)

lemma decode_longer:
  assumes "decode m rest = v" "length v < m - 1" "length v < n"
  shows "decode n rest = v"
proof -
  obtain sp q where sp: "cleanstring (skipleading rest) = (sp, q)" by fastforce
  then have "q \<noteq> QUOTE_ENQUOTE" by (auto simp: cleanstring_def Let_def split: if_splits)
  then show ?thesis using assms sp by (cases q) (auto simp: decode_def ini_strncpy_def dequote_loop_take)
qed

lemma header_hd: "l \<noteq> [] \<Longrightarrow> \<not> blank (hd l) \<Longrightarrow> header l \<longleftrightarrow> hd l = CHR ''[''"
  using skipleading_id [of l "[]"] by (simp add: header_def starts_def)

lemma section_match_header: "section_match sec l \<Longrightarrow> header l"
  by (auto simp: section_match_def section_name_def header_def starts_def Let_def split: if_splits)

lemma skiptrailing_Cons: "\<not> blank c \<Longrightarrow> skiptrailing (c # u) = c # skiptrailing u"
  by (auto simp: skiptrailing_def dropWhile_append)

lemma put_match_first:
  assumes "put_match key l" "skipleading l = c # t" "c \<noteq> CHR ''=''" "c \<noteq> CHR '':''" "\<not> blank c"
  shows "key \<noteq> [] \<and> lower (hd key) = lower c"
proof -
  obtain name rest where k: "key_split (c # t) = Some (name, rest)" "same_name (skiptrailing name) key"
    using assms(1,2) by (auto simp: put_match_def split: option.splits)
  then obtain u where "name = c # u" using assms(3,4) by (auto simp: key_split_def split_at_def split: if_splits)
  then show ?thesis using k(2) assms(5) by (cases key) (auto simp: same_name_iff skiptrailing_Cons)
qed

lemma lower_low: "(of_char (lower x) :: nat) < 65 \<Longrightarrow> lower x = x"
  by (auto simp: lower_def Let_def of_char_of split: if_splits)

lemma key_line_put:
  assumes "key_ok key"
  shows "key_line key l \<longleftrightarrow> put_match key l"
proof -
  have "\<not> starts c (skipleading l)" if "c = CHR '';'' \<or> c = CHR ''#''" "put_match key l" for c
  proof
    assume "starts c (skipleading l)"
    then obtain t where "skipleading l = c # t" by (cases "skipleading l") (auto simp: starts_def)
    moreover have "\<not> blank c" "c \<noteq> CHR ''=''" "c \<noteq> CHR '':''" "lower c = c"
      using that(1) by (elim disjE; simp add: blank_def lower_def)+
    ultimately have "lower (hd key) = c" using put_match_first [OF that(2)] by metis
    then show False using that(1) assms lower_low [of "hd key"] by (auto simp: key_ok_def)
  qed
  then have "put_match key l \<Longrightarrow> \<not> starts (CHR '';'') (skipleading l) \<and> \<not> starts (CHR ''#'') (skipleading l)" by blast
  moreover have "key_line key l \<longleftrightarrow>
      put_match key l \<and> \<not> starts (CHR '';'') (skipleading l) \<and> \<not> starts (CHR ''#'') (skipleading l)"
    by (cases "key_split (skipleading l)") (auto simp: key_line_def put_match_def)
  ultimately show ?thesis by blast
qed

lemma same_nameI: "key_line key l \<Longrightarrow> key_line key' l \<Longrightarrow> same_name key' key"
  by (auto simp: key_line_def same_name_iff split: option.splits)

lemma section_match_same: "section_match sec l \<Longrightarrow> section_match sec' l \<longleftrightarrow> same_name sec' sec"
  by (auto simp: section_match_def same_name_iff split: option.splits)

lemma breaks_iff: "key_ok key \<Longrightarrow> breaks key l \<longleftrightarrow> key_line key l \<or> header l"
  by (simp add: breaks_def key_line_put header_def)

definition key_text :: "string \<Rightarrow> string \<Rightarrow> string" where
  "key_text key v = key @ CHR ''='' # written_value v @ INI_LINETERM"

lemma key_text_split:
  assumes "key_ok key"
  shows "key_split (skipleading (key_text key v)) = Some (key, written_value v @ INI_LINETERM)"
  using assms skipleading_id [of key] takeWhile_tail [of _ "CHR ''=''"]
  by (auto simp: key_text_def key_ok_def key_split_def split_at_def takeWhile_append dropWhile_append
      simp del: append_assoc)

lemma key_text_facts:
  assumes "key_ok key"
  shows "\<not> header (key_text key v)" "key_line key' (key_text key v) \<longleftrightarrow> same_name key' key"
    "key_rest (key_text key v) = written_value v @ INI_LINETERM"
proof -
  have hd: "key_text key v \<noteq> []" "\<not> blank (hd (key_text key v))" "hd (key_text key v) = hd key"
    using assms by (auto simp: key_text_def key_ok_def)
  then show nh: "\<not> header (key_text key v)" using assms header_hd by (auto simp: key_ok_def)
  show "key_rest (key_text key v) = written_value v @ INI_LINETERM"
    using assms by (simp add: key_rest_def key_text_split)
  have "key_line key (key_text key v)"
    using assms by (simp add: key_line_put) (auto simp: put_match_def key_text_split key_ok_def skiptrailing_id same_name_iff)
  then show "key_line key' (key_text key v) \<longleftrightarrow> same_name key' key"
    by (auto intro: same_nameI) (auto simp: key_line_def same_name_iff split: option.splits)
qed

lemma section_text_facts:
  assumes "sec_ok sec" "sec \<noteq> []"
  shows "section_match sec' (writesection sec) \<longleftrightarrow> same_name sec' sec" "header (writesection sec)"
proof -
  have w: "writesection sec = CHR ''['' # sec @ CHR '']'' # INI_LINETERM" using assms by (rule writesection_ok)
  have "skipleading (writesection sec) = writesection sec"
    unfolding w by (simp add: skipleading_def blank_def)
  then have "section_name (writesection sec) = Some sec"
    using assms skipleading_id [of sec] skiptrailing_id [of sec] unfolding w
    by (simp add: section_name_def sec_ok_def)
  then have m: "section_match s (writesection sec) \<longleftrightarrow> same_name s sec" for s
    by (auto simp: section_match_def same_name_iff)
  show "section_match sec' (writesection sec) \<longleftrightarrow> same_name sec' sec" by (rule m)
  have "section_match sec (writesection sec)" unfolding m by (simp add: same_name_iff)
  then show "header (writesection sec)" by (rule section_match_header)
qed

subsection \<open>Edited lines\<close>

definition edited :: "string \<Rightarrow> string \<Rightarrow> string list \<Rightarrow> string list \<Rightarrow> bool" where
  "edited key kl T T' =
     ((\<forall>l\<in>set T. \<not> breaks key l) \<and> (\<exists>S. set S \<subseteq> {INI_LINETERM} \<and> T' = T @ S @ [kl])
      \<or> (\<exists>B l R. T = B @ l # R \<and> (\<forall>l\<in>set B. \<not> breaks key l) \<and> breaks key l
          \<and> T' = B @ kl # (if header l then [l] else []) @ R))"

definition edited_lines :: "string \<Rightarrow> string \<Rightarrow> string \<Rightarrow> string list \<Rightarrow> string list \<Rightarrow> bool" where
  "edited_lines sec key kl L L' =
     (if sec = [] then edited key kl L L'
      else (\<forall>l\<in>set L. \<not> section_match sec l) \<and> (\<exists>S. set S \<subseteq> {INI_LINETERM} \<and> L' = L @ S @ [writesection sec, kl])
        \<or> (\<exists>A h T T'. L = A @ h # T \<and> section_match sec h \<and> (\<forall>l\<in>set A. \<not> section_match sec l)
             \<and> edited key kl T T' \<and> L' = A @ h # T'))"

lemma blank_line: "\<not> header INI_LINETERM" "\<not> key_line key INI_LINETERM" "\<not> section_match sec INI_LINETERM"
  by (simp_all add: header_def skipleading_def blank_def starts_def key_line_def key_split_def section_match_def
      section_name_def)

lemma key_lookup_append:
  "key_lookup key (B @ X) = (if \<exists>l\<in>set B. header l \<or> key_line key l then key_lookup key B else key_lookup key X)"
  by (induction B) auto

lemma key_lookup_none: "\<forall>l\<in>set B. \<not> key_line key l \<Longrightarrow> key_lookup key B = None"
  by (induction B) auto

lemma section_rest_append:
  "section_rest sec (B @ X) = (case section_rest sec B of Some r \<Rightarrow> Some (r @ X) | None \<Rightarrow> section_rest sec X)"
  by (induction B) auto

lemma section_rest_none: "section_rest sec B = None \<longleftrightarrow> (\<forall>l\<in>set B. \<not> section_match sec l)"
  by (induction B) auto

lemma edited_key:
  assumes "edited key kl T T'" "key_ok key" "kl = key_text key v"
  shows "key_lookup key T' = Some (written_value v @ INI_LINETERM)"
proof -
  have kl: "key_lookup key (kl # X) = Some (written_value v @ INI_LINETERM)" for X
    using assms(2,3) by (simp add: key_text_facts same_name_iff)
  have skip: "key_lookup key (B @ X) = key_lookup key X" if "\<forall>l\<in>set B. \<not> breaks key l" for B X
    using that assms(2) by (auto simp: key_lookup_append breaks_iff)
  have S: "key_lookup key (S @ X) = key_lookup key X" if "set S \<subseteq> {INI_LINETERM}" for S X
    using that blank_line(1) blank_line(2) [of key] by (fastforce simp: key_lookup_append)
  from assms(1) show ?thesis unfolding edited_def
  proof (elim disjE exE conjE)
    fix S assume "\<forall>l\<in>set T. \<not> breaks key l" "set S \<subseteq> {INI_LINETERM}" "T' = T @ S @ [kl]"
    then show ?thesis by (simp only: skip S kl)
  next
    fix B l R assume "\<forall>l\<in>set B. \<not> breaks key l" "T' = B @ kl # (if header l then [l] else []) @ R"
    then show ?thesis by (simp only: skip kl)
  qed
qed

lemma edited_other_key:
  assumes "edited key kl T T'" "key_ok key" "kl = key_text key v" "\<not> same_name key' key"
  shows "key_lookup key' T' = key_lookup key' T"
proof -
  have kl: "\<not> header kl" "\<not> key_line key' kl" using assms(2-4) by (simp_all add: key_text_facts)
  from assms(1) show ?thesis unfolding edited_def
  proof (elim disjE exE conjE)
    fix S assume *: "set S \<subseteq> {INI_LINETERM}" "T' = T @ S @ [kl]"
    then have "key_lookup key' (S @ [kl]) = None"
      using blank_line(2) [of key'] kl by (intro key_lookup_none) auto
    then show ?thesis using * key_lookup_append [of key' T "S @ [kl]"] key_lookup_append [of key' T "[]"] by auto
  next
    fix B l R assume *: "T = B @ l # R" "breaks key l" "T' = B @ kl # (if header l then [l] else []) @ R"
    have "key_lookup key' (kl # (if header l then [l] else []) @ R) = key_lookup key' (l # R)"
      using *(2) assms(2,4) kl same_nameI by (auto simp: breaks_iff)
    then show ?thesis using * by (simp add: key_lookup_append)
  qed
qed

lemma edited_section:
  assumes "edited key kl T T'" "key_ok key" "kl = key_text key v"
  shows "section_rest sec T' = section_rest sec T"
proof -
  have kl: "\<not> section_match sec kl" using assms(2,3) section_match_header key_text_facts(1) by blast
  from assms(1) show ?thesis unfolding edited_def
  proof (elim disjE exE conjE)
    fix S assume *: "\<forall>l\<in>set T. \<not> breaks key l" "set S \<subseteq> {INI_LINETERM}" "T' = T @ S @ [kl]"
    then have "section_rest sec T' = None" "section_rest sec T = None"
      using kl blank_line(3) [of sec] assms(2) section_match_header by (auto simp: section_rest_none breaks_iff)
    then show ?thesis by simp
  next
    fix B l R assume *: "T = B @ l # R" "T' = B @ kl # (if header l then [l] else []) @ R" "\<forall>l\<in>set B. \<not> breaks key l"
    have B: "section_rest sec B = None"
      using *(3) assms(2) section_match_header by (auto simp: section_rest_none breaks_iff)
    have "section_rest sec (kl # (if header l then [l] else []) @ R) = section_rest sec (l # R)"
      using kl section_match_header [of sec l] by auto
    then show ?thesis using *(1,2) B by (simp add: section_rest_append)
  qed
qed

lemma edited_lines_key:
  assumes e: "edited_lines sec key kl L L'" and k: "key_ok key" "kl = key_text key v" "sec_ok sec"
  shows "lookup sec key L' = Some (written_value v @ INI_LINETERM)"
proof (cases "sec = []")
  case True
  then show ?thesis using e edited_key [OF _ k(1,2)] by (simp add: edited_lines_def lookup_def)
next
  case False
  note self = section_text_facts(1) [OF k(3) False, of sec]
  have "\<exists>T'. section_rest sec L' = Some T' \<and> key_lookup key T' = Some (written_value v @ INI_LINETERM)"
    using e unfolding edited_lines_def if_not_P [OF False]
  proof (elim disjE exE conjE)
    fix S assume *: "\<forall>l\<in>set L. \<not> section_match sec l" "set S \<subseteq> {INI_LINETERM}" "L' = L @ S @ [writesection sec, kl]"
    have "section_rest sec L = None" "section_rest sec S = None"
      using * blank_line(3) [of sec] by (auto simp: section_rest_none)
    then have "section_rest sec L' = Some [kl]" using *(3) self by (simp add: section_rest_append same_name_iff)
    then show ?thesis using k by (simp add: key_text_facts same_name_iff)
  next
    fix A h T T' assume *: "section_match sec h" "\<forall>l\<in>set A. \<not> section_match sec l" "edited key kl T T'" "L' = A @ h # T'"
    then have "section_rest sec A = None" by (simp add: section_rest_none)
    then have "section_rest sec L' = Some T'" using * by (simp add: section_rest_append)
    then show ?thesis using edited_key [OF *(3) k(1,2)] by blast
  qed
  then show ?thesis using False by (auto simp: lookup_def)
qed

lemma key_lookup_header: "header h \<Longrightarrow> key_lookup key (B @ h # X) = key_lookup key B"
  using key_lookup_append [of key B "[]"] by (auto simp: key_lookup_append)

lemma edited_lines_other:
  assumes e: "edited_lines sec key kl L L'" and k: "key_ok key" "kl = key_text key v" "sec_ok sec"
    and ne: "\<not> (same_name sec' sec \<and> same_name key' key)"
  shows "lookup sec' key' L' = lookup sec' key' L"
proof (cases "sec = []")
  case True
  then have "edited key kl L L'" using e by (simp add: edited_lines_def)
  then show ?thesis using edited_section [OF _ k(1,2)] edited_other_key [OF _ k(1,2)] ne True
    by (auto simp: lookup_def same_name_iff split: option.split)
next
  case False
  note self = section_text_facts [OF k(3) False]
  show ?thesis using e unfolding edited_lines_def if_not_P [OF False]
  proof (elim disjE exE conjE)
    fix S assume *: "\<forall>l\<in>set L. \<not> section_match sec l" "set S \<subseteq> {INI_LINETERM}" "L' = L @ S @ [writesection sec, kl]"
    let ?w = "writesection sec"
    have S: "section_rest s S = None" "key_lookup key' S = None" for s
      using *(2) blank_line(2) [of key'] blank_line(3) [of s]
      by (auto simp: section_rest_none intro!: key_lookup_none)
    have kl: "\<not> section_match s kl" for s using k(1,2) section_match_header key_text_facts(1) by blast
    have app: "key_lookup key' (r @ S @ [?w, kl]) = key_lookup key' r" for r
      using S(2) key_lookup_header [OF self(2), of key' "r @ S" "[kl]"] key_lookup_append [of key' r S]
        key_lookup_append [of key' r "[]"] by (auto split: if_splits)
    show ?thesis
    proof (cases "sec' = []")
      case True
      then show ?thesis using *(3) app by (simp add: lookup_def)
    next
      case s': False
      show ?thesis
      proof (cases "section_rest sec' L")
        case (Some r)
        then show ?thesis using s' *(3) app by (simp add: lookup_def section_rest_append)
      next
        case None
        have "lookup sec' key' L' = None"
        proof (cases "same_name sec' sec")
          case True
          then have "\<not> same_name key' key" using ne by simp
          then have "key_lookup key' [kl] = None" using k by (simp add: key_text_facts)
          then show ?thesis using None True s' *(3) S(1) self(1) by (simp add: lookup_def section_rest_append)
        next
          case False
          then show ?thesis using None s' *(3) S(1) self(1) kl by (simp add: lookup_def section_rest_append)
        qed
        then show ?thesis using None s' by (simp add: lookup_def)
      qed
    qed
  next
    fix A h T T' assume *: "L = A @ h # T" "section_match sec h" "\<forall>l\<in>set A. \<not> section_match sec l"
      "edited key kl T T'" "L' = A @ h # T'"
    have h: "header h" using *(2) by (rule section_match_header)
    show ?thesis
    proof (cases "sec' = []")
      case True
      then show ?thesis using *(1,5) h by (simp add: lookup_def key_lookup_header)
    next
      case s': False
      show ?thesis
      proof (cases "section_rest sec' A")
        case (Some r)
        then show ?thesis using s' *(1,5) h by (simp add: lookup_def section_rest_append key_lookup_header)
      next
        case None
        show ?thesis
          using None s' *(1,5) section_match_same [OF *(2), of sec'] ne edited_section [OF *(4) k(1,2), of sec']
            edited_other_key [OF *(4) k(1,2)]
          by (auto simp: lookup_def section_rest_append)
      qed
    qed
  qed
qed

subsection \<open>What is read after a write\<close>

definition lines_ok :: "string list \<Rightarrow> bool" where
  "lines_ok L = ((\<forall>l\<in>set L. whole_line l \<and> no_nul l) \<and> (L \<noteq> [] \<longrightarrow> last (last L) = LF))"

lemma whole_nonempty: "whole_line l \<Longrightarrow> l \<noteq> []"
  by (auto simp: whole_line_def)

lemma lines_ok_text:
  assumes "lines_ok L"
  shows "pieces (concat L) = L" "text_ok (concat L)"
proof -
  show "pieces (concat L) = L" using pieces_wholes [of L "[]"] assms by (simp add: lines_ok_def)
  show "text_ok (concat L)"
    using assms whole_nonempty by (cases L rule: rev_cases) (auto simp: lines_ok_def text_ok_def no_nul_def)
qed

lemma text_lines_ok:
  assumes "text_ok c"
  shows "lines_ok (pieces c)"
proof -
  have "no_nul l" if "l \<in> set (pieces c)" for l
  proof -
    have "set l \<subseteq> set c"
      using that by (subst concat_pieces [of c, symmetric]) (auto simp del: concat_pieces)
    then show ?thesis using assms by (auto simp: text_ok_def no_nul_def)
  qed
  moreover have "last (last (pieces c)) = LF" if "pieces c \<noteq> []"
  proof -
    have "pieces c = butlast (pieces c) @ [last (pieces c)]" using that by simp
    then have "c = concat (butlast (pieces c)) @ last (pieces c)" by (metis concat_append concat_pieces concat.simps append_Nil2)
    moreover have "last (pieces c) \<noteq> []"
      using last_in_set [OF that] pieces_text [of c] assms whole_nonempty unfolding text_ok_def by blast
    ultimately have "c \<noteq> [] \<and> last c = last (last (pieces c))" by (metis append_is_Nil_conv last_appendR)
    then show ?thesis using assms by (auto simp: text_ok_def)
  qed
  ultimately show ?thesis using assms pieces_text by (auto simp: lines_ok_def text_ok_def)
qed

lemma written_value_chars:
  assumes "val_ok v"
  shows "LF \<notin> set (written_value v)" "no_nul (written_value v)" "length (written_value v) \<le> 402"
  using assms set_enquoted [of v] length_enquoted [of v] by (auto simp: val_ok_def written_value_def no_nul_def)

lemma key_text_ok:
  assumes "key_ok key" "val_ok v"
  shows "whole_line (key_text key v)" "no_nul (key_text key v)" "last (key_text key v) = LF"
  using assms(1) written_value_chars [OF assms(2)]
  by (auto simp: whole_line_def key_text_def key_ok_def no_nul_def intro!: exI [of _ "key @ CHR ''='' # written_value v @ [CR]"])

lemma section_text_ok:
  assumes "sec_ok sec" "sec \<noteq> []"
  shows "whole_line (writesection sec)" "no_nul (writesection sec)"
  using assms(1) unfolding writesection_ok [OF assms]
  by (auto simp: whole_line_def sec_ok_def no_nul_def intro!: exI [of _ "CHR ''['' # sec @ CHR '']'' # [CR]"])

lemma blank_line_ok: "whole_line INI_LINETERM" "no_nul INI_LINETERM"
  by (auto simp: whole_line_def no_nul_def intro!: exI [of _ "[CR]"])

lemma edited_ok:
  assumes e: "edited key kl T T'" and ok: "lines_ok T" "whole_line kl" "no_nul kl" "last kl = LF"
  shows "lines_ok T'"
proof -
  have kl: "lines_ok (S @ [kl])" if "set S \<subseteq> {INI_LINETERM}" for S
    using that ok(2-4) blank_line_ok by (auto simp: lines_ok_def)
  from e show ?thesis unfolding edited_def
  proof (elim disjE exE conjE)
    fix S assume "set S \<subseteq> {INI_LINETERM}" "T' = T @ S @ [kl]"
    then show ?thesis using kl [of S] ok(1) by (auto simp: lines_ok_def)
  next
    fix B l R assume *: "T = B @ l # R" "T' = B @ kl # (if header l then [l] else []) @ R"
    show ?thesis using ok * by (auto simp: lines_ok_def)
  qed
qed

lemma edited_lines_ok:
  assumes e: "edited_lines sec key kl L L'" and ok: "lines_ok L" "whole_line kl" "no_nul kl" "last kl = LF" "sec_ok sec"
  shows "lines_ok L'"
proof (cases "sec = []")
  case True
  then show ?thesis using e edited_ok [OF _ ok(1-4)] by (simp add: edited_lines_def)
next
  case False
  note w = section_text_ok [OF ok(5) False]
  from e show ?thesis unfolding edited_lines_def if_not_P [OF False]
  proof (elim disjE exE conjE)
    fix S assume S: "set S \<subseteq> {INI_LINETERM}" "L' = L @ S @ [writesection sec, kl]"
    have "whole_line l \<and> no_nul l" if "l \<in> set L'" for l
    proof -
      from that S have "l \<in> set L \<or> l = INI_LINETERM \<or> l = writesection sec \<or> l = kl" by fastforce
      then show ?thesis using ok(1-3) w blank_line_ok by (elim disjE) (auto simp: lines_ok_def)
    qed
    then show ?thesis using S(2) ok(4) by (simp add: lines_ok_def)
  next
    fix A h T T' assume *: "L = A @ h # T" "edited key kl T T'" "L' = A @ h # T'"
    then have "lines_ok T" using ok(1) by (cases T) (auto simp: lines_ok_def)
    then have "lines_ok T'" using edited_ok [OF *(2) _ ok(2-4)] by blast
    moreover have "T' \<noteq> []" using *(2) by (auto simp: edited_def)
    ultimately show ?thesis using ok(1) *(1,3) by (auto simp: lines_ok_def)
  qed
qed

lemma key_edit_lines:
  assumes "key_edit key kl T t'"
  shows "\<exists>T'. edited key kl T T' \<and> t' = concat T'"
  using assms unfolding key_edit_def
proof (elim disjE exE conjE)
  fix s assume *: "\<forall>l\<in>set T. \<not> breaks key l" "line_end s" "t' = concat T @ s @ kl"
  then have "edited key kl T (T @ (if s = [] then [] else [s]) @ [kl]) \<and> t' = concat (T @ (if s = [] then [] else [s]) @ [kl])"
    by (auto simp: edited_def line_end_def)
  then show ?thesis by blast
next
  fix B l R assume *: "T = B @ l # R" "\<forall>l\<in>set B. \<not> breaks key l" "breaks key l"
    "t' = concat B @ kl @ (if starts (CHR ''['') (skipleading l) then l else []) @ concat R"
  then have "edited key kl T (B @ kl # (if header l then [l] else []) @ R)" unfolding edited_def by blast
  then show ?thesis using *(4) by (intro exI [of _ "B @ kl # (if header l then [l] else []) @ R"]) (simp add: header_def)
qed

lemma file_edit_lines:
  assumes "file_edit sec key value c c'"
  shows "\<exists>L'. edited_lines sec key (writekey key value) (pieces c) L' \<and> c' = concat L'"
proof (cases "sec = []")
  case True
  then show ?thesis using assms key_edit_lines by (simp add: file_edit_def edited_lines_def)
next
  case False
  let ?kl = "writekey key value"
  from assms show ?thesis unfolding file_edit_def if_not_P [OF False]
  proof (elim disjE exE conjE)
    fix s assume *: "\<forall>l\<in>set (pieces c). \<not> section_match sec l" "line_end s" "c' = c @ s @ writesection sec @ ?kl"
    let ?S = "if s = [] then [] else [s]"
    have "edited_lines sec key ?kl (pieces c) (pieces c @ ?S @ [writesection sec, ?kl])"
      using * False by (auto simp: edited_lines_def line_end_def)
    then show ?thesis using *(3) by (intro exI [of _ "pieces c @ ?S @ [writesection sec, ?kl]"]) simp
  next
    fix A h T t' assume *: "pieces c = A @ h # T" "section_match sec h" "\<forall>l\<in>set A. \<not> section_match sec l"
      "key_edit key ?kl T t'" "c' = concat A @ h @ t'"
    obtain T' where T': "edited key ?kl T T'" "t' = concat T'" using key_edit_lines [OF *(4)] by blast
    have "edited_lines sec key ?kl (pieces c) (A @ h # T')"
      unfolding edited_lines_def if_not_P [OF False] using *(1-3) T'(1) by blast
    then show ?thesis using *(5) T'(2) by (intro exI [of _ "A @ h # T'"]) simp
  qed
qed

lemma getkeystring_lookup:
  assumes "no_nul c"
  shows "(case getkeystring c sec key n of
       None \<Rightarrow> lookup sec key (pieces c) = None
     | Some (b, m, t) \<Rightarrow>
         (\<exists>rest. lookup sec key (pieces c) = Some rest \<and> b = decode n rest)
         \<and> (key_ok key \<longrightarrow> (\<exists>L'. edited_lines sec key kl (pieces c) L' \<and> take m c @ kl @ drop t c = concat L')))"
proof -
  define start where "start = (if 0 < length sec then find_section sec c 0 else Some 0)"
  have s: "(case start of None \<Rightarrow> (if sec = [] then Some (pieces c) else section_rest sec (pieces c)) = None
     | Some q \<Rightarrow> (if sec = [] then Some (pieces c) else section_rest sec (pieces c)) = Some (pieces (drop q c))
         \<and> (\<forall>T T' kl. pieces (drop q c) = T \<longrightarrow> edited key kl T T' \<longrightarrow>
              (\<exists>L'. edited_lines sec key kl (pieces c) L' \<and> take q c @ concat T' = concat L')))"
  proof (cases "sec = []")
    case True
    then show ?thesis by (auto simp: start_def edited_lines_def)
  next
    case False
    show ?thesis
    proof (cases "find_section sec c 0")
      case None
      then show ?thesis using find_section_pieces [OF assms, of sec 0] False by (simp add: start_def)
    next
      case (Some q)
      then obtain A h where A: "section_rest sec (pieces c) = Some (pieces (drop q c))"
        "pieces c = A @ h # pieces (drop q c)" "section_match sec h" "\<forall>l\<in>set A. \<not> section_match sec l"
        "take q c = concat A @ h"
        using find_section_pieces [OF assms, of sec 0] by auto
      have "\<exists>L'. edited_lines sec key kl (pieces c) L' \<and> take q c @ concat T' = concat L'"
        if e: "edited key kl (pieces (drop q c)) T'" for T' kl
      proof (intro exI conjI)
        show "edited_lines sec key kl (pieces c) (A @ h # T')"
          unfolding edited_lines_def if_not_P [OF False] using A(2-4) e by blast
        show "take q c @ concat T' = concat (A @ h # T')" using A(5) by simp
      qed
      then show ?thesis using A(1) False Some by (simp add: start_def)
    qed
  qed
  have gk: "getkeystring c sec key n = (case start of None \<Rightarrow> None | Some pos \<Rightarrow>
      (case find_key key c pos of None \<Rightarrow> None | Some (rest, m, t) \<Rightarrow> Some (decode n rest, m, t)))"
    unfolding getkeystring_def start_def decode_def by (intro option.case_cong refl) (auto split: prod.split)
  show ?thesis
  proof (cases start)
    case None
    then show ?thesis using s by (simp add: gk lookup_def)
  next
    case (Some q)
    show ?thesis
    proof (cases "find_key key c q")
      case None
      then show ?thesis using s find_key_pieces [OF assms, of key q] Some
        by (simp add: gk lookup_def)
    next
      case (Some rmt)
      obtain rest m t where rmt: "rmt = (rest, m, t)" by (cases rmt)
      obtain B l where B: "key_lookup key (pieces (drop q c)) = Some rest" "pieces (drop q c) = B @ l # pieces (drop t c)"
        "key_line key l" "\<not> header l" "\<forall>l\<in>set B. \<not> key_line key l \<and> \<not> header l" "take m c = take q c @ concat B"
        using find_key_pieces [OF assms, of key q] unfolding Some rmt option.case prod.case by blast
      have e: "edited key kl (pieces (drop q c)) (B @ kl # pieces (drop t c))" if "key_ok key" for kl
        unfolding edited_def using B(2-5) that
        by (intro disjI2 exI [of _ B] exI [of _ l] exI [of _ "pieces (drop t c)"]) (simp add: breaks_iff)
      have "\<exists>L'. edited_lines sec key kl (pieces c) L' \<and> take m c @ kl @ drop t c = concat L'" if "key_ok key"
        using s \<open>start = Some q\<close> e [OF that, of kl] B(6) by fastforce
      then show ?thesis using s \<open>start = Some q\<close> Some rmt B(1)
        by (simp add: gk lookup_def)
    qed
  qed
qed

definition content :: "string \<Rightarrow> files \<Rightarrow> string" where
  "content f fs = (case fs f of None \<Rightarrow> [] | Some c \<Rightarrow> c)"

lemma ini_gets_lookup:
  assumes "no_nul (content f fs)"
  shows "ini_gets sec key d n f fs =
    (case lookup sec key (pieces (content f fs)) of Some rest \<Rightarrow> decode n rest | None \<Rightarrow> take (n - 1) d)"
proof (cases "fs f")
  case None
  then show ?thesis by (simp add: ini_gets_def content_def lookup_def ini_strncpy_def)
next
  case (Some c)
  then have "no_nul c" using assms by (simp add: content_def)
  from getkeystring_lookup [OF this, of sec key n] show ?thesis
    using Some by (auto simp: ini_gets_def content_def ini_strncpy_def split: option.splits)
qed

definition put_result :: "string \<Rightarrow> string \<Rightarrow> string \<Rightarrow> string \<Rightarrow> files \<Rightarrow> files \<Rightarrow> bool" where
  "put_result sec key v f fs fs' =
     ((\<forall>g. g \<noteq> f \<longrightarrow> g \<noteq> ini_tempname f \<longrightarrow> fs' g = fs g) \<and>
      (fs' = fs \<and> (\<exists>rest. lookup sec key (pieces (content f fs)) = Some rest \<and> decode INI_BUFFERSIZE rest = v)
       \<or> (\<exists>L'. edited_lines sec key (key_text key v) (pieces (content f fs)) L' \<and> fs' f = Some (concat L'))))"

lemma ini_puts_result:
  assumes ok: "key_ok key" "val_ok v" "sec_ok sec" "text_ok (content f fs)"
    and wr: "can_write f" "can_write (ini_tempname f)"
  shows "\<exists>fs'. ini_puts can_write sec key v f fs = Some (1, fs') \<and> put_result sec key v f fs fs'"
proof -
  have kl: "writekey key v = key_text key v" using ok(1,2) by (simp add: writekey_ok key_text_def)
  show ?thesis
  proof (cases "fs f")
    case None
    have "edited_lines sec key (key_text key v) [] (if sec = [] then [key_text key v] else [writesection sec, key_text key v])"
      by (simp add: edited_lines_def edited_def)
    then have "put_result sec key v f fs (fs(f \<mapsto> writesection sec @ key_text key v))"
      using None by (auto simp: put_result_def content_def writesection_def)
    then show ?thesis using None wr by (simp add: ini_puts_def kl)
  next
    case (Some c)
    have nn: "no_nul c" using ok(4) Some by (simp add: content_def text_ok_def)
    have rw: "\<exists>fs'. ini_rewrite can_write c sec key v f fs = Some (1, fs') \<and> put_result sec key v f fs fs'"
    proof -
      obtain c' where c': "put_copy c sec key v = Some c'" "file_edit sec key v c c'"
        using put_copy_ok [OF nn] by blast
      obtain L' where "edited_lines sec key (key_text key v) (pieces c) L'" "c' = concat L'"
        using file_edit_lines [OF c'(2)] kl by auto
      then show ?thesis using c'(1) wr Some by (auto simp: ini_rewrite_def put_result_def content_def)
    qed
    show ?thesis
    proof (cases "getkeystring c sec key INI_BUFFERSIZE")
      case None
      then show ?thesis using rw Some by (simp add: ini_puts_def)
    next
      case (Some bmt)
      obtain b m t where bmt: "bmt = (b, m, t)" by (cases bmt)
      obtain rest L' where g: "lookup sec key (pieces c) = Some rest" "b = decode INI_BUFFERSIZE rest"
        "edited_lines sec key (key_text key v) (pieces c) L'" "take m c @ key_text key v @ drop t c = concat L'"
        using getkeystring_lookup [OF nn, of sec key INI_BUFFERSIZE "key_text key v"] ok(1)
        unfolding Some bmt option.case prod.case by blast
      show ?thesis
      proof (cases "b \<noteq> v \<and> length (key_text key v) \<noteq> t - m")
        case True
        then show ?thesis using rw Some bmt \<open>fs f = Some c\<close> by (simp add: ini_puts_def kl)
      next
        case False
        then show ?thesis using g Some bmt \<open>fs f = Some c\<close> wr
          by (cases "b = v") (auto simp: ini_puts_def kl put_result_def content_def)
      qed
    qed
  qed
qed

lemma put_result_reads:
  assumes ok: "key_ok key" "val_ok v" "sec_ok sec" "text_ok (content f fs)" and r: "put_result sec key v f fs fs'"
    and n: "length v < n"
  shows "text_ok (content f fs')" "ini_gets sec key d n f fs' = v"
    "\<not> (same_name sec' sec \<and> same_name key' key) \<Longrightarrow> ini_gets sec' key' d' n' f fs' = ini_gets sec' key' d' n' f fs"
proof -
  have nn: "no_nul (content f fs)" using ok(4) by (simp add: text_ok_def)
  have "text_ok (content f fs') \<and> ini_gets sec key d n f fs' = v \<and>
    (\<not> (same_name sec' sec \<and> same_name key' key) \<longrightarrow> ini_gets sec' key' d' n' f fs' = ini_gets sec' key' d' n' f fs)"
    using r unfolding put_result_def
  proof (elim conjE disjE exE)
    fix rest assume *: "fs' = fs" "lookup sec key (pieces (content f fs)) = Some rest" "decode INI_BUFFERSIZE rest = v"
    have "decode n rest = v" using n ok(2) by (intro decode_longer [OF *(3)]) (auto simp: val_ok_def)
    then show ?thesis using * ok(4) by (simp add: ini_gets_lookup [OF nn])
  next
    fix L' assume *: "edited_lines sec key (key_text key v) (pieces (content f fs)) L'" "fs' f = Some (concat L')"
    have L': "lines_ok L'"
      using edited_lines_ok [OF *(1) text_lines_ok [OF ok(4)]] key_text_ok [OF ok(1,2)] ok(3) by blast
    have c: "content f fs' = concat L'" using *(2) by (simp add: content_def)
    have nn': "no_nul (content f fs')" using lines_ok_text(2) [OF L'] c by (simp add: text_ok_def)
    show ?thesis
      using lines_ok_text [OF L'] c n
        edited_lines_key [OF *(1) ok(1) refl ok(3)] edited_lines_other [OF *(1) ok(1) refl ok(3)] decode_written [OF ok(2)]
      by (simp add: ini_gets_lookup [OF nn] ini_gets_lookup [OF nn'])
  qed
  then show "text_ok (content f fs')" "ini_gets sec key d n f fs' = v"
    "\<not> (same_name sec' sec \<and> same_name key' key) \<Longrightarrow> ini_gets sec' key' d' n' f fs' = ini_gets sec' key' d' n' f fs"
    by blast+
qed

lemma ini_puts_gets_spec:
  assumes ok: "key_ok key" "val_ok v" "sec_ok sec" "text_ok (content f fs)" and w: "can_write f" "can_write (ini_tempname f)"
  shows "\<exists>fs'. ini_puts can_write sec key v f fs = Some (1, fs') \<and> text_ok (content f fs')
    \<and> (\<forall>d n. length v < n \<longrightarrow> ini_gets sec key d n f fs' = v)
    \<and> (\<forall>sec' key' d n. \<not> (same_name sec' sec \<and> same_name key' key) \<longrightarrow>
         ini_gets sec' key' d n f fs' = ini_gets sec' key' d n f fs)
    \<and> (\<forall>g. g \<noteq> f \<longrightarrow> g \<noteq> ini_tempname f \<longrightarrow> fs' g = fs g)"
proof -
  obtain fs' where p: "ini_puts can_write sec key v f fs = Some (1, fs')" "put_result sec key v f fs fs'"
    using ini_puts_result [where can_write = can_write, OF ok w] by blast
  note r = put_result_reads [OF ok p(2)]
  show ?thesis
  proof (intro exI [of _ fs'] conjI allI impI)
    show "text_ok (content f fs')" by (rule r(1) [OF lessI])
  next
    fix d n assume "length v < n"
    then show "ini_gets sec key d n f fs' = v" by (rule r(2))
  next
    fix sec' key' d n assume "\<not> (same_name sec' sec \<and> same_name key' key)"
    then show "ini_gets sec' key' d n f fs' = ini_gets sec' key' d n f fs" by (rule r(3) [OF lessI])
  next
    fix g assume "g \<noteq> f" "g \<noteq> ini_tempname f"
    then show "fs' g = fs g" using p(2) by (simp add: put_result_def)
  qed (rule p(1))
qed



text \<open>The blank in front of a value is not a reason for quotes, as the one behind it is, and is lost.\<close>

lemma ini_leading_blank_lost:
  "ini_puts (\<lambda>_. True) [] ''k'' '' x'' ''/f'' Map.empty = Some (1, [''/f'' \<mapsto> writekey ''k'' '' x''])
   \<and> ini_gets [] ''k'' [] 64 ''/f'' [''/f'' \<mapsto> writekey ''k'' '' x''] = ''x''
   \<and> ini_gets [] ''k'' [] 64 ''/f'' [''/f'' \<mapsto> writekey ''k'' ''x ''] = ''x ''"
proof (intro conjI)
  show "ini_puts (\<lambda>_. True) [] ''k'' '' x'' ''/f'' Map.empty = Some (1, [''/f'' \<mapsto> writekey ''k'' '' x''])"
    by (simp add: ini_puts_def writesection_def)
qed code_simp+

subsection \<open>Numbers\<close>

abbreviation (input) is_digit :: "char \<Rightarrow> bool" where
  "is_digit c \<equiv> 48 \<le> (of_char c :: nat) \<and> (of_char c :: nat) \<le> 57"

lemma long_digits_rec:
  "long_digits v = char_of (nat (\<bar>v\<bar> mod 10) + 48) #
     (if \<bar>v\<bar> < 10 then [] else long_digits (sgn v * (\<bar>v\<bar> div 10)))"
proof -
  have n: "\<bar>v - 10 * (sgn v * (\<bar>v\<bar> div 10))\<bar> = \<bar>v\<bar> mod 10"
    by (cases "v < 0"; cases "v = 0") (simp_all add: sgn_if minus_mult_div_eq_mod [symmetric], linarith?)
  have q: "sgn v * (\<bar>v\<bar> div 10) \<noteq> 0 \<longleftrightarrow> \<not> \<bar>v\<bar> < 10" by (auto simp: sgn_if)
  show ?thesis by (subst long_digits.simps) (simp only: Let_def n q if_not_P if_P split: if_split; simp)
qed

lemma long_digits_chars: "c \<in> set (long_digits v) \<Longrightarrow> is_digit c"
proof (induction v arbitrary: c rule: long_digits.induct)
  case (1 v)
  have "nat (\<bar>v\<bar> mod 10) + 48 < 256" "nat (\<bar>v\<bar> mod 10) \<le> 9" by linarith+
  then show ?case
    using 1 by (subst (asm) (2) long_digits_rec) (auto simp: of_char_of sgn_if split: if_splits)
qed

lemma digits_value_snoc:
  "\<forall>c\<in>set s. is_digit c \<Longrightarrow> digits_value 10 acc (s @ t) = digits_value 10 (digits_value 10 acc s) t"
  by (induction s arbitrary: acc) (auto simp: digit_of_def Let_def)

lemma digits_value_long: "digits_value 10 0 (rev (long_digits v)) = \<bar>v\<bar>"
proof (induction "nat \<bar>v\<bar>" arbitrary: v rule: less_induct)
  case less
  let ?q = "sgn v * (\<bar>v\<bar> div 10)" and ?d = "nat (\<bar>v\<bar> mod 10)"
  have d: "?d < 10" "int ?d = \<bar>v\<bar> mod 10" by simp_all
  then have dig: "digit_of (char_of (?d + 48)) = Some ?d" by (simp add: digit_of_def of_char_of)
  show ?case
  proof (cases "\<bar>v\<bar> < 10")
    case True
    then show ?thesis using dig d by (subst long_digits_rec) simp
  next
    case False
    then have aq: "\<bar>?q\<bar> = \<bar>v\<bar> div 10" by (simp add: abs_mult sgn_if)
    then have ih: "digits_value 10 0 (rev (long_digits ?q)) = \<bar>v\<bar> div 10"
    proof -
      have "nat \<bar>?q\<bar> < nat \<bar>v\<bar>" unfolding aq using False by linarith
      from less.hyps [OF this] show ?thesis by (simp only: aq)
    qed
    have "digits_value 10 0 (rev (long_digits v)) = digits_value 10 (\<bar>v\<bar> div 10) [char_of (?d + 48)]"
      using False long_digits_chars ih by (subst long_digits_rec) (simp add: digits_value_snoc)
    also have "\<dots> = \<bar>v\<bar>" using dig d by simp
    finally show ?thesis .
  qed
qed

lemma length_long_digits: "\<bar>v\<bar> < 10 ^ Suc n \<Longrightarrow> length (long_digits v) \<le> Suc n"
proof (induction n arbitrary: v)
  case 0
  then show ?case by (subst long_digits_rec) simp
next
  case (Suc n)
  have "\<bar>sgn v * (\<bar>v\<bar> div 10)\<bar> < 10 ^ Suc n" using Suc.prems by (auto simp: abs_mult sgn_if)
  from Suc.IH [OF this] show ?case by (subst long_digits_rec) simp
qed

lemma long_digits_nonempty: "long_digits v \<noteq> []"
  by (subst long_digits_rec) simp

lemma long2str_chars: "c \<in> set (long2str v) \<Longrightarrow> is_digit c \<or> c = CHR ''-''"
  using long_digits_chars by (auto simp: long2str_def split: if_splits)

lemma long2str_nonempty: "long2str v \<noteq> []"
  by (simp add: long2str_def long_digits_nonempty)

lemma long2str_val_ok:
  assumes "\<bar>v\<bar> < 10 ^ 10"
  shows "val_ok (long2str v)" "length (long2str v) \<le> 11"
proof -
  have nb: "\<not> blank c" "c \<noteq> LF" "c \<noteq> NUL" if "c \<in> set (long2str v)" for c
    using long2str_chars [OF that] by (auto simp: blank_def)
  show l: "length (long2str v) \<le> 11" using length_long_digits [of v 9] assms by (simp add: long2str_def)
  show "val_ok (long2str v)"
    using nb l last_in_set hd_in_set by (auto simp: val_ok_def no_nul_def)
qed

lemma strtol_long2str:
  assumes "- 2147483648 \<le> v" "v \<le> 2147483647"
  shows "strtol 10 (long2str v) = v"
proof -
  obtain c s where r: "rev (long_digits v) = c # s" using long_digits_nonempty [of v] by (cases "rev (long_digits v)") auto
  then have "c \<in> set (long_digits v)" by (metis list.set_intros(1) set_rev)
  then have c: "is_digit c" by (rule long_digits_chars)
  then have "c \<noteq> CHR ''-''" "c \<noteq> CHR ''+''" "\<not> isspace c" by (auto simp: isspace_def)
  moreover have "\<not> isspace (CHR ''-'')" by (simp add: isspace_def)
  ultimately show ?thesis
    using assms digits_value_long [of v] r
    by (cases "v < 0") (simp_all add: strtol_def long2str_def starts_def Let_def)
qed

lemma ini_putl_getl_spec:
  assumes ok: "key_ok key" "sec_ok sec" "text_ok (content f fs)" and w: "can_write f" "can_write (ini_tempname f)"
    and v: "- 2147483648 \<le> v" "v \<le> 2147483647"
  shows "\<exists>fs'. ini_putl can_write sec key v f fs = Some (1, fs') \<and> text_ok (content f fs')
    \<and> (\<forall>d. ini_getl sec key d f fs' = v)
    \<and> (\<forall>sec' key' d. \<not> (same_name sec' sec \<and> same_name key' key) \<longrightarrow>
         ini_getl sec' key' d f fs' = ini_getl sec' key' d f fs)"
proof -
  have vo: "val_ok (long2str v)" "length (long2str v) < 64"
    using long2str_val_ok [of v] v by fastforce+
  obtain fs' where fs': "ini_putl can_write sec key v f fs = Some (1, fs')" "text_ok (content f fs')"
    "\<And>d n. length (long2str v) < n \<Longrightarrow> ini_gets sec key d n f fs' = long2str v"
    "\<And>sec' key' d n. \<not> (same_name sec' sec \<and> same_name key' key) \<Longrightarrow>
         ini_gets sec' key' d n f fs' = ini_gets sec' key' d n f fs"
    using ini_puts_gets_spec [OF ok(1) vo(1) ok(2,3) w] unfolding ini_putl_def by blast
  have "\<not> (2 \<le> length (long2str v) \<and> (long2str v ! 1 = CHR ''x'' \<or> long2str v ! 1 = CHR ''X''))"
    using long2str_chars [of _ v] nth_mem [of 1 "long2str v"] by fastforce
  then have "ini_getl sec key d f fs' = v" for d
    using strtol_long2str [OF v] long2str_nonempty fs'(3) [OF vo(2)] by (simp only: ini_getl_def Let_def if_False)
  then show ?thesis using fs'(1,2,4) by (simp add: ini_getl_def)
qed

text \<open>
  Every value of a 32-bit long that is written as a decimal number is the value that is
  read back, the smallest one and its sign included, and the other numbers of the file are kept.
\<close>

theorem ini_putl_getl:
  assumes "key_ok key" "sec_ok sec" "text_ok (content f fs)" "can_write f" "can_write (ini_tempname f)"
    and "- 2147483648 \<le> v" "v \<le> 2147483647"
  shows "\<exists>fs'. ini_putl can_write sec key v f fs = Some (1, fs') \<and> text_ok (content f fs')
    \<and> (\<forall>d. ini_getl sec key d f fs' = v)
    \<and> (\<forall>sec' key' d. \<not> (same_name sec' sec \<and> same_name key' key) \<longrightarrow>
         ini_getl sec' key' d f fs' = ini_getl sec' key' d f fs)"
  by (rule ini_putl_getl_spec [OF assms])

theorem ini_putl_getl_witness:
  "\<exists>fs'. ini_putl (\<lambda>_. True) ''data'' ''n'' (- 2147483648) ''/f'' Map.empty = Some (1, fs')
    \<and> ini_getl ''data'' ''n'' 0 ''/f'' fs' = - 2147483648"
proof -
  have ok: "key_ok ''n''" "sec_ok ''data''" "text_ok (content ''/f'' Map.empty)"
    by (simp_all add: key_ok_def sec_ok_def text_ok_def content_def no_nul_def blank_def)
  show ?thesis
    using ini_putl_getl [OF ok, of "\<lambda>_. True" "- 2147483648", OF TrueI TrueI] by auto
qed

end
