(* ===== verification/App_FileIni.thy ===== *)
theory App_FileIni
  imports Mini_Ini_Lookup
begin

text \<open>
  What the HMI application keeps on the card (\<open>apps/app_hmi_board_gui/app/app_file_ini.c\<close>): the access
  point, the settings of the arithmetic game and the address of the AI relay. A pointer argument that may
  be null is an option. The buffers of the caller are taken to be large enough, as \<open>strcpy\<close> does.
\<close>

definition DATA_INI_FILE :: string where "DATA_INI_FILE = ''data.ini''"
definition DATA_SECTION_NAME :: string where "DATA_SECTION_NAME = ''data''"
definition DATA_SSID_NAME :: string where "DATA_SSID_NAME = ''ssid''"
definition DATA_PASSWD_NAME :: string where "DATA_PASSWD_NAME = ''password''"
definition DATA_MAX_NUM :: string where "DATA_MAX_NUM = ''max_num''"
definition DATA_TEST_MODE :: string where "DATA_TEST_MODE = ''test_mode''"
definition AI_RELAY_TXT_FILE :: string where "AI_RELAY_TXT_FILE = ''/ai_relay.txt''"
definition AI_RELAY_SECTION :: string where "AI_RELAY_SECTION = ''relay''"
definition AI_RELAY_HOST :: string where "AI_RELAY_HOST = ''host''"
definition AI_RELAY_PORT :: string where "AI_RELAY_PORT = ''port''"

subsection \<open>The access point\<close>

definition ini_load_wifi_ap_info :: "string option \<Rightarrow> string option \<Rightarrow> files \<Rightarrow> int \<times> string option \<times> string option" where
  "ini_load_wifi_ap_info ssid password fs =
     (let str = ini_gets DATA_SECTION_NAME DATA_SSID_NAME [] 100 DATA_INI_FILE fs;
          (ret, ssid') = (if str \<noteq> [] \<and> ssid \<noteq> None then (0 :: int, Some str) else (- 1, ssid));
          str = ini_gets DATA_SECTION_NAME DATA_PASSWD_NAME [] 100 DATA_INI_FILE fs;
          (ret, password') = (if str \<noteq> [] \<and> password \<noteq> None then (0, Some str) else (- 1, password))
      in (ret, ssid', password'))"

definition ini_save_wifi_ap_info :: "(string \<Rightarrow> bool) \<Rightarrow> string \<Rightarrow> string \<Rightarrow> files \<Rightarrow> (int \<times> files) option" where
  "ini_save_wifi_ap_info can_write ssid password fs = do {
     (n, fs1) \<leftarrow> ini_puts can_write DATA_SECTION_NAME DATA_SSID_NAME ssid DATA_INI_FILE fs;
     let ret = (if n = 1 then 0 else - 1 :: int);
     (n, fs2) \<leftarrow> ini_puts can_write DATA_SECTION_NAME DATA_PASSWD_NAME password DATA_INI_FILE fs1;
     let ret = (if n = 1 then 0 else - 1 :: int);
     Some (ret, fs2)
   }"

subsection \<open>The arithmetic game\<close>

definition ini_load_shuxueyunsuan_info :: "int option \<Rightarrow> int option \<Rightarrow> files \<Rightarrow> int \<times> int option \<times> int option" where
  "ini_load_shuxueyunsuan_info max_num test_mode fs =
     (let ret0 = (- 1 :: int);
          (ret1, max_num') = (if max_num \<noteq> None
             then (let n = ini_getl DATA_SECTION_NAME DATA_MAX_NUM (- 1) DATA_INI_FILE fs
                   in if n \<noteq> - 1 then (0, Some n) else (- 1, max_num))
             else (ret0, max_num));
          (ret2, test_mode') = (if test_mode \<noteq> None
             then (let n = ini_getl DATA_SECTION_NAME DATA_TEST_MODE (- 1) DATA_INI_FILE fs
                   in if n \<noteq> - 1 then (0, Some n) else (- 1, test_mode))
             else (ret1, test_mode))
      in (ret2, max_num', test_mode'))"

text \<open>The result of the first write goes to another variable than the one that is tested: \<open>n0\<close> is what that
  variable, which is not initialised, happens to hold.\<close>

definition ini_save_shuxueyunsuan_info ::
  "int \<Rightarrow> (string \<Rightarrow> bool) \<Rightarrow> int option \<Rightarrow> int option \<Rightarrow> files \<Rightarrow> (int \<times> files) option" where
  "ini_save_shuxueyunsuan_info n0 can_write max_num test_mode fs = do {
     (ret, fs1) \<leftarrow> (case max_num of
         None \<Rightarrow> Some (- 1, fs)
       | Some m \<Rightarrow> do {
           (res, fs1) \<leftarrow> ini_putl can_write DATA_SECTION_NAME DATA_MAX_NUM m DATA_INI_FILE fs;
           Some (if n0 = 1 then 0 else - 1, fs1)
         });
     (case test_mode of
         None \<Rightarrow> Some (ret, fs1)
       | Some m \<Rightarrow> do {
           (n, fs2) \<leftarrow> ini_putl can_write DATA_SECTION_NAME DATA_TEST_MODE m DATA_INI_FILE fs1;
           Some (if n = 1 then 0 else - 1, fs2)
         })
   }"

subsection \<open>The AI relay\<close>

text \<open>
  The file interface of POSIX as the code uses it: which files can be opened for writing, how many
  characters a write to a file stores, and whether closing it succeeds.
\<close>

record posix =
  can_open :: "string \<Rightarrow> bool"
  stored :: "string \<Rightarrow> nat"
  close_ok :: "string \<Rightarrow> bool"

definition write_file :: "posix \<Rightarrow> string \<Rightarrow> string \<Rightarrow> files \<Rightarrow> bool \<times> files" where
  "write_file io f buffer fs =
     (length buffer \<le> stored io f, fs(f \<mapsto> take (stored io f) buffer))"

definition rt_strncpy_host :: "int \<Rightarrow> string \<Rightarrow> string" where
  "rt_strncpy_host host_len s = take (nat (host_len - 1)) s"

fun first_ini :: "string list \<Rightarrow> string \<Rightarrow> files \<Rightarrow> string \<times> string" where
  "first_ini [] filename fs = (filename, [])"
| "first_ini (f # filenames) filename fs =
     (let str = ini_gets AI_RELAY_SECTION AI_RELAY_HOST [] 100 f fs
      in if str \<noteq> [] then (f, str) else first_ini filenames f fs)"

definition relay_port :: "string \<Rightarrow> int" where
  "relay_port port_str = (let p = strtol 10 port_str in if p \<le> 0 \<or> 65535 < p then 8080 else p)"

definition load_relay_txt :: "int \<Rightarrow> int option \<Rightarrow> files \<Rightarrow> string option \<times> int option" where
  "load_relay_txt host_len port fs = (case fs AI_RELAY_TXT_FILE of
       None \<Rightarrow> (None, port)
     | Some content0 \<Rightarrow>
         (let len_txt = take 127 content0; txt = takeWhile (\<lambda>c. c \<noteq> NUL) len_txt
          in if len_txt = [] then (None, port)
             else let (line, port') = (if LF \<in> set txt
                        then (takeWhile (\<lambda>c. c \<noteq> LF) txt,
                              map_option (\<lambda>_. relay_port (tl (dropWhile (\<lambda>c. c \<noteq> LF) txt))) port)
                        else (txt, port))
             in (Some (rt_strncpy_host host_len line), port')))"

definition ini_load_ai_relay_info ::
  "string option \<Rightarrow> int \<Rightarrow> int option \<Rightarrow> files \<Rightarrow> int \<times> string option \<times> int option" where
  "ini_load_ai_relay_info host host_len port fs =
     (let hosted = host \<noteq> None \<and> 0 < host_len;
          (txt, port1) = (if hosted then load_relay_txt host_len port fs else (None, port));
          host1 = (case txt of Some h \<Rightarrow> Some h | None \<Rightarrow> host)
      in if (case txt of Some h \<Rightarrow> h \<noteq> [] | None \<Rightarrow> False) then (0, host1, port1)
         else
           let (filename, str) = (if hosted
                 then first_ini [DATA_INI_FILE, ''/ai_relay.ini'', ''ai_relay.ini'', ''/sdcard/ai_relay.ini'']
                        ''/ai_relay.ini'' fs
                 else (''/ai_relay.ini'', []));
               (ret, host2) = (if str \<noteq> [] then (0, Some (rt_strncpy_host host_len str)) else (- 1, host1))
           in (case port1 of
                 None \<Rightarrow> (ret, host2, port1)
               | Some _ \<Rightarrow>
                   (let n = ini_getl AI_RELAY_SECTION AI_RELAY_PORT (- 1) filename fs
                    in if 0 < n \<and> n \<le> 65535 then (0, host2, Some n) else (ret, host2, port1))))"

fun save_fallback :: "posix \<Rightarrow> string \<Rightarrow> string list \<Rightarrow> files \<Rightarrow> int \<times> files" where
  "save_fallback io buffer [] fs = (- 2, fs)"
| "save_fallback io buffer (f # filenames) fs =
     (if \<not> can_open io f then save_fallback io buffer filenames fs
      else (case write_file io f buffer fs of (ok, fs1) \<Rightarrow>
        if ok \<and> close_ok io f then (0, fs1) else save_fallback io buffer filenames fs1))"

definition decimal :: "int \<Rightarrow> string" where
  "decimal n = long2str n"

definition ini_save_ai_relay_info :: "posix \<Rightarrow> string option \<Rightarrow> int \<Rightarrow> files \<Rightarrow> (int \<times> files) option" where
  "ini_save_ai_relay_info io host port fs =
     (case host of
        None \<Rightarrow> Some (- 1, fs)
      | Some h \<Rightarrow>
         if h = [] \<or> port \<le> 0 \<or> 65535 < port then Some (- 1, fs)
         else
           let buffer = take 127 (h @ [LF] @ decimal port @ [LF]);
               (ok, fs1) = (if can_open io AI_RELAY_TXT_FILE then write_file io AI_RELAY_TXT_FILE buffer fs
                            else (False, fs))
           in if ok then Some (0, fs1)
              else do {
                (n, fs2) \<leftarrow> ini_puts (can_open io) AI_RELAY_SECTION AI_RELAY_HOST h DATA_INI_FILE fs1;
                (n, fs3) \<leftarrow> (if n = 1 then ini_putl (can_open io) AI_RELAY_SECTION AI_RELAY_PORT port DATA_INI_FILE fs2
                             else Some (n, fs2));
                if n = 1 then Some (0, fs3)
                else
                  let buffer = take 127 (''['' @ AI_RELAY_SECTION @ '']'' @ [LF] @ AI_RELAY_HOST @ ''='' @ h @ [LF]
                        @ AI_RELAY_PORT @ ''='' @ decimal port @ [LF])
                  in Some (save_fallback io buffer [''/ai_relay.ini'', ''ai_relay.ini'', ''/sdcard/ai_relay.ini''] fs3)
              })"

subsection \<open>Saved and loaded again\<close>

lemma names_ok:
  "key_ok DATA_SSID_NAME" "key_ok DATA_PASSWD_NAME" "key_ok DATA_MAX_NUM" "key_ok DATA_TEST_MODE"
  "key_ok AI_RELAY_HOST" "key_ok AI_RELAY_PORT" "sec_ok DATA_SECTION_NAME" "sec_ok AI_RELAY_SECTION"
  by (simp_all add: key_ok_def sec_ok_def no_nul_def blank_def DATA_SSID_NAME_def DATA_PASSWD_NAME_def DATA_MAX_NUM_def
      DATA_TEST_MODE_def AI_RELAY_HOST_def AI_RELAY_PORT_def DATA_SECTION_NAME_def AI_RELAY_SECTION_def)

lemma names_differ:
  "\<not> same_name DATA_SSID_NAME DATA_PASSWD_NAME" "\<not> same_name DATA_MAX_NUM DATA_TEST_MODE"
  "\<not> same_name AI_RELAY_SECTION DATA_SECTION_NAME"
  by (simp_all add: same_name_def DATA_SSID_NAME_def DATA_PASSWD_NAME_def DATA_MAX_NUM_def DATA_TEST_MODE_def
      DATA_SECTION_NAME_def AI_RELAY_SECTION_def)
     (simp add: lower_def Let_def)?

lemma wifi_saved_loaded_spec:
  assumes v: "val_ok ssid" "val_ok password" "ssid \<noteq> []" "password \<noteq> []" "length ssid < 100" "length password < 100"
    and fs: "text_ok (content DATA_INI_FILE fs)" and w: "can_write DATA_INI_FILE" "can_write (ini_tempname DATA_INI_FILE)"
  shows "\<exists>fs'. ini_save_wifi_ap_info can_write ssid password fs = Some (0, fs')
    \<and> ini_load_wifi_ap_info (Some a) (Some b) fs' = (0, Some ssid, Some password)
    \<and> ini_load_shuxueyunsuan_info m t fs' = ini_load_shuxueyunsuan_info m t fs"
proof -
  let ?D = DATA_SECTION_NAME and ?f = DATA_INI_FILE
  obtain fs1 where p1: "ini_puts can_write ?D DATA_SSID_NAME ssid ?f fs = Some (1, fs1)" "text_ok (content ?f fs1)"
    "\<And>d n. length ssid < n \<Longrightarrow> ini_gets ?D DATA_SSID_NAME d n ?f fs1 = ssid"
    "\<And>s k d n. \<not> (same_name s ?D \<and> same_name k DATA_SSID_NAME) \<Longrightarrow> ini_gets s k d n ?f fs1 = ini_gets s k d n ?f fs"
    using ini_puts_gets_spec [OF names_ok(1) v(1) names_ok(7) fs w] by blast
  obtain fs2 where p2: "ini_puts can_write ?D DATA_PASSWD_NAME password ?f fs1 = Some (1, fs2)"
    "\<And>d n. length password < n \<Longrightarrow> ini_gets ?D DATA_PASSWD_NAME d n ?f fs2 = password"
    "\<And>s k d n. \<not> (same_name s ?D \<and> same_name k DATA_PASSWD_NAME) \<Longrightarrow> ini_gets s k d n ?f fs2 = ini_gets s k d n ?f fs1"
    using ini_puts_gets_spec [OF names_ok(2) v(2) names_ok(7) p1(2) w] by blast
  have o: "\<not> same_name k DATA_SSID_NAME" "\<not> same_name k DATA_PASSWD_NAME" if "k \<in> {DATA_MAX_NUM, DATA_TEST_MODE}" for k
    using that by (auto simp: same_name_def DATA_SSID_NAME_def DATA_PASSWD_NAME_def DATA_MAX_NUM_def DATA_TEST_MODE_def
        lower_def)
  have l: "ini_getl ?D k d ?f fs2 = ini_getl ?D k d ?f fs" if "k \<in> {DATA_MAX_NUM, DATA_TEST_MODE}" for k d
    using p1(4) [of ?D k] p2(3) [of ?D k] o [OF that] by (simp add: ini_getl_def)
  have s: "ini_gets ?D DATA_SSID_NAME [] 100 ?f fs2 = ssid"
    using p2(3) [of ?D DATA_SSID_NAME] names_differ(1) p1(3) v(5) by simp
  show ?thesis
    using p1(1) p2(1) p2(2) [OF v(6)] s l v(3,4)
    by (simp add: ini_save_wifi_ap_info_def ini_load_wifi_ap_info_def ini_load_shuxueyunsuan_info_def)
qed

text \<open>
  The name and the password of an access point that were saved are the ones that
  are loaded at the next start, also when they hold quotes or comment characters and whatever the file held
  before, and the settings of the arithmetic game in the same section are not disturbed.
\<close>

theorem wifi_saved_loaded:
  assumes "val_ok ssid" "val_ok password" "ssid \<noteq> []" "password \<noteq> []" "length ssid < 100" "length password < 100"
    and "text_ok (content DATA_INI_FILE fs)" "can_write DATA_INI_FILE" "can_write (ini_tempname DATA_INI_FILE)"
  shows "\<exists>fs'. ini_save_wifi_ap_info can_write ssid password fs = Some (0, fs')
    \<and> ini_load_wifi_ap_info (Some a) (Some b) fs' = (0, Some ssid, Some password)
    \<and> ini_load_shuxueyunsuan_info m t fs' = ini_load_shuxueyunsuan_info m t fs"
  by (rule wifi_saved_loaded_spec [OF assms])

theorem wifi_saved_loaded_witness:
  "\<exists>fs'. ini_save_wifi_ap_info (\<lambda>_. True) ''home'' ''a#b '' Map.empty = Some (0, fs')
    \<and> ini_load_wifi_ap_info (Some []) (Some []) fs' = (0, Some ''home'', Some ''a#b '')"
proof -
  have ok: "val_ok ''home''" "val_ok ''a#b ''" "''home'' \<noteq> []" "''a#b '' \<noteq> []" "length ''home'' < 100"
    "length ''a#b '' < 100" "text_ok (content DATA_INI_FILE Map.empty)"
    by (simp_all add: val_ok_def text_ok_def content_def no_nul_def blank_def check_enquote_def)
  show ?thesis
    using wifi_saved_loaded [OF ok, of "\<lambda>_. True", OF TrueI TrueI, of "[]" "[]" None None] by blast
qed

text \<open>The second result hides the first: without a name in the file, loading still reports success.\<close>

lemma wifi_load_hides_failure:
  assumes "ini_gets DATA_SECTION_NAME DATA_SSID_NAME [] 100 DATA_INI_FILE fs = []"
    and "ini_gets DATA_SECTION_NAME DATA_PASSWD_NAME [] 100 DATA_INI_FILE fs = pw" "pw \<noteq> []"
  shows "ini_load_wifi_ap_info (Some a) (Some b) fs = (0, Some a, Some pw)"
  using assms by (simp add: ini_load_wifi_ap_info_def)

text \<open>Whether saving the range of the arithmetic game is reported as a success depends on a variable that is
  never set, while the value is stored in any case.\<close>

lemma shuxue_save_uninitialised:
  assumes fs: "text_ok (content DATA_INI_FILE fs)" and w: "can_write DATA_INI_FILE" "can_write (ini_tempname DATA_INI_FILE)"
    and m: "- 2147483648 \<le> m" "m \<le> 2147483647" "m \<noteq> - 1"
  shows "\<exists>fs'. ini_save_shuxueyunsuan_info n0 can_write (Some m) None fs = Some (if n0 = 1 then 0 else - 1, fs')
    \<and> ini_load_shuxueyunsuan_info (Some a) None fs' = (0, Some m, None)"
proof -
  obtain fs1 where "ini_putl can_write DATA_SECTION_NAME DATA_MAX_NUM m DATA_INI_FILE fs = Some (1, fs1)"
    "\<And>d. ini_getl DATA_SECTION_NAME DATA_MAX_NUM d DATA_INI_FILE fs1 = m"
    using ini_putl_getl_spec [OF names_ok(3,7) fs w m(1,2)] by blast
  then show ?thesis using m(3) by (simp add: ini_save_shuxueyunsuan_info_def ini_load_shuxueyunsuan_info_def)
qed

subsection \<open>The address of the relay\<close>

lemma relay_text_read:
  assumes h: "no_nul h" "LF \<notin> set h" "length h \<le> 100" and p: "1 \<le> port" "port \<le> 65535"
    and f: "fs AI_RELAY_TXT_FILE = Some (h @ [LF] @ decimal port @ [LF])"
  shows "load_relay_txt host_len (Some p0) fs = (Some (rt_strncpy_host host_len h), Some port)"
proof -
  let ?b = "h @ [LF] @ decimal port @ [LF]"
  have ch: "is_digit c" if "c \<in> set (decimal port)" for c
    using long_digits_chars that p(1) by (auto simp: decimal_def long2str_def)
  have len: "length (decimal port) \<le> 11" using long2str_val_ok(2) [of port] p by (simp add: decimal_def)
  have "c \<noteq> NUL" if "c \<in> set ?b" for c using ch [of c] that h(1) by (auto simp: no_nul_def)
  then have nn: "takeWhile (\<lambda>c. c \<noteq> NUL) ?b = ?b" by (simp add: takeWhile_eq_all_conv)
  have t: "take 127 ?b = ?b" using len h(3) by (intro take_all) simp
  have lf: "takeWhile (\<lambda>c. c \<noteq> LF) ?b = h" "dropWhile (\<lambda>c. c \<noteq> LF) ?b = [LF] @ decimal port @ [LF]"
    using h(2) by (simp_all add: takeWhile_tail takeWhile_eq_all_conv dropWhile_append) (metis takeWhile_eq_all_conv)
  obtain c s where r: "decimal port = c # s" using long2str_nonempty [of port] by (cases "decimal port") (auto simp: decimal_def)
  then have c: "\<not> isspace c" "c \<noteq> CHR ''-''" "c \<noteq> CHR ''+''" using ch [of c] by (auto simp: isspace_def)
  have "digits_value 10 0 (rev (long_digits port) @ [LF]) = port"
    using digits_value_snoc [of "rev (long_digits port)" 0 "[LF]"] long_digits_chars [of _ port] digits_value_long [of port] p(1)
    by (simp add: digit_of_def)
  then have "digits_value 10 0 (decimal port @ [LF]) = port" using p(1) by (simp add: decimal_def long2str_def)
  then have "strtol 10 (decimal port @ [LF]) = port" using r c p(2) by (simp add: strtol_def starts_def Let_def)
  then have "relay_port (tl ([LF] @ decimal port @ [LF])) = port" using p by (simp add: relay_port_def)
  moreover have "LF \<in> set ?b" "?b \<noteq> []" by simp_all
  ultimately show ?thesis using f by (simp only: load_relay_txt_def option.case Let_def t nn lf if_True if_False prod.case option.map)
qed

lemma relay_saved_loaded_spec:
  assumes h: "no_nul h" "LF \<notin> set h" "length h \<le> 100" "h \<noteq> []" "int (length h) < host_len"
    and p: "1 \<le> port" "port \<le> 65535"
    and io: "can_open io AI_RELAY_TXT_FILE" "127 \<le> stored io AI_RELAY_TXT_FILE"
  shows "\<exists>fs'. ini_save_ai_relay_info io (Some h) port fs = Some (0, fs')
    \<and> ini_load_ai_relay_info (Some h0) host_len (Some p0) fs' = (0, Some h, Some port)
    \<and> (\<forall>g. g \<noteq> AI_RELAY_TXT_FILE \<longrightarrow> fs' g = fs g)"
proof -
  let ?b = "h @ [LF] @ decimal port @ [LF]"
  have len: "length ?b \<le> 127" using long2str_val_ok(2) [of port] p h(3) by (simp add: decimal_def)
  then have b: "take 127 ?b = ?b" "take (stored io AI_RELAY_TXT_FILE) ?b = ?b" "length ?b \<le> stored io AI_RELAY_TXT_FILE"
    using io(2) by (simp_all add: take_all del: append.simps)
  define fs' where "fs' = fs(AI_RELAY_TXT_FILE \<mapsto> ?b)"
  have s: "ini_save_ai_relay_info io (Some h) port fs = Some (0, fs')"
    using h(4) p io(1) b by (simp add: ini_save_ai_relay_info_def write_file_def Let_def fs'_def del: append.simps append_Cons)
  have "rt_strncpy_host host_len h = h" using h(5) by (simp add: rt_strncpy_host_def)
  then have "load_relay_txt host_len (Some p0) fs' = (Some h, Some port)"
    using relay_text_read [OF h(1-3) p, of fs' host_len p0] by (simp add: fs'_def)
  then have "ini_load_ai_relay_info (Some h0) host_len (Some p0) fs' = (0, Some h, Some port)"
    using h(4,5) by (simp add: ini_load_ai_relay_info_def)
  then show ?thesis using s by (auto simp: fs'_def)
qed

text \<open>
  The host and the port of the AI relay that were saved are loaded again: the text
  file with a line each is read back to the same host, within the buffer of the caller, and the same port,
  whatever the INI files say; no other file is written.
\<close>

theorem relay_saved_loaded:
  assumes "no_nul h" "LF \<notin> set h" "length h \<le> 100" "h \<noteq> []" "int (length h) < host_len"
    and "1 \<le> port" "port \<le> 65535" "can_open io AI_RELAY_TXT_FILE" "127 \<le> stored io AI_RELAY_TXT_FILE"
  shows "\<exists>fs'. ini_save_ai_relay_info io (Some h) port fs = Some (0, fs')
    \<and> ini_load_ai_relay_info (Some h0) host_len (Some p0) fs' = (0, Some h, Some port)
    \<and> (\<forall>g. g \<noteq> AI_RELAY_TXT_FILE \<longrightarrow> fs' g = fs g)"
  by (rule relay_saved_loaded_spec [OF assms])

theorem relay_saved_loaded_witness:
  "\<exists>fs'. ini_save_ai_relay_info \<lparr>can_open = \<lambda>_. True, stored = \<lambda>_. 512, close_ok = \<lambda>_. True\<rparr> (Some ''10.0.0.7'') 8080 Map.empty
       = Some (0, fs')
    \<and> ini_load_ai_relay_info (Some []) 64 (Some 1) fs' = (0, Some ''10.0.0.7'', Some 8080)"
  using relay_saved_loaded [of "''10.0.0.7''" 64 8080 "\<lparr>can_open = \<lambda>_. True, stored = \<lambda>_. 512, close_ok = \<lambda>_. True\<rparr>"
      Map.empty "[]" 1]
  by (simp add: no_nul_def) blast

text \<open>
  A write that stores only a part of the text, as on a full card, leaves that part in the text file; the
  address then goes to the INI file and success is reported, but the text file is what is read first.
\<close>

lemma relay_short_write:
  assumes h: "val_ok h" "length h \<le> 100" "int (length h) < host_len" and p: "1 \<le> port" "port \<le> 65535"
    and io: "can_open io AI_RELAY_TXT_FILE" "0 < stored io AI_RELAY_TXT_FILE" "stored io AI_RELAY_TXT_FILE < length h"
      "can_open io DATA_INI_FILE" "can_open io (ini_tempname DATA_INI_FILE)"
    and fs: "text_ok (content DATA_INI_FILE fs)"
  shows "\<exists>fs'. ini_save_ai_relay_info io (Some h) port fs = Some (0, fs')
    \<and> ini_load_ai_relay_info (Some h0) host_len None fs'
        = (0, Some (take (stored io AI_RELAY_TXT_FILE) h), None)"
proof -
  let ?k = "stored io AI_RELAY_TXT_FILE" and ?b = "h @ [LF] @ decimal port @ [LF]" and ?f = DATA_INI_FILE
  define fs1 where "fs1 = fs(AI_RELAY_TXT_FILE \<mapsto> take ?k h)"
  have len: "length ?b \<le> 127" using long2str_val_ok(2) [of port] p h(2) by (simp add: decimal_def)
  have w: "write_file io AI_RELAY_TXT_FILE (take 127 ?b) fs = (False, fs1)"
    using io(3) len by (simp add: write_file_def fs1_def)
  have fs1: "text_ok (content ?f fs1)" using fs by (simp add: fs1_def content_def AI_RELAY_TXT_FILE_def DATA_INI_FILE_def)
  obtain fs2 where p2: "ini_puts (can_open io) AI_RELAY_SECTION AI_RELAY_HOST h ?f fs1 = Some (1, fs2)" "text_ok (content ?f fs2)"
    "\<And>g. g \<noteq> ?f \<Longrightarrow> g \<noteq> ini_tempname ?f \<Longrightarrow> fs2 g = fs1 g"
    using ini_puts_gets_spec [OF names_ok(5) h(1) names_ok(8) fs1 io(4,5)] by blast
  have "val_ok (long2str port)" using long2str_val_ok(1) [of port] p by simp
  then obtain fs3 where p3: "ini_putl (can_open io) AI_RELAY_SECTION AI_RELAY_PORT port ?f fs2 = Some (1, fs3)"
    "\<And>g. g \<noteq> ?f \<Longrightarrow> g \<noteq> ini_tempname ?f \<Longrightarrow> fs3 g = fs2 g"
    using ini_puts_gets_spec [OF names_ok(6) _ names_ok(8) p2(2) io(4,5)] unfolding ini_putl_def by blast
  have "h \<noteq> []" using io(3) by auto
  have nm: "AI_RELAY_TXT_FILE \<noteq> ?f" "AI_RELAY_TXT_FILE \<noteq> ini_tempname ?f"
    by (simp_all add: AI_RELAY_TXT_FILE_def DATA_INI_FILE_def ini_tempname_def ini_strncpy_def Let_def)
  have s: "ini_save_ai_relay_info io (Some h) port fs = Some (0, fs3)"
    using \<open>h \<noteq> []\<close> p io(1) w p2(1) p3(1) by (simp add: ini_save_ai_relay_info_def Let_def)
  have t: "fs3 AI_RELAY_TXT_FILE = Some (take ?k h)" using p2(3) [OF nm] p3(2) [OF nm] by (simp add: fs1_def)
  have c: "c \<noteq> NUL" "c \<noteq> LF" if "c \<in> set (take ?k h)" for c
    using h(1) in_set_takeD [OF that] by (auto simp: val_ok_def no_nul_def)
  have "takeWhile (\<lambda>c. c \<noteq> NUL) (take ?k h) = take ?k h" "LF \<notin> set (take ?k h)" "take 127 (take ?k h) = take ?k h"
    "take ?k h \<noteq> []" "rt_strncpy_host host_len (take ?k h) = take ?k h"
    using c io(2,3) h(2,3) \<open>h \<noteq> []\<close> by (auto simp: takeWhile_eq_all_conv rt_strncpy_host_def)
  then have "load_relay_txt host_len None fs3 = (Some (take ?k h), None)" "take ?k h \<noteq> []"
    by (simp_all only: load_relay_txt_def t option.case Let_def if_False prod.case not_False_eq_True)
  then have "ini_load_ai_relay_info (Some h0) host_len None fs3 = (0, Some (take ?k h), None)"
    using h(3) by (simp add: ini_load_ai_relay_info_def)
  then show ?thesis using s by blast
qed

end
