(* ===== verification/Drv_Completion.thy ===== *)
theory Drv_Completion
  imports Ipc_Mailbox
begin

text \<open>
  What the objects of \<open>components/drivers/ipc\<close> that block threads share, and completions
  (\<open>completion.c\<close>): a flag that an interrupt or a thread sets when a transfer is done, and for which one
  thread may wait.
\<close>

subsection \<open>Waiting on the list of a driver object\<close>

text \<open>
  The same course is written out in every one of these files: clear the error, suspend, append to the
  list, start the timer, give up the processor. The thread that is woken keeps its error.
\<close>

definition dev_block :: "queue \<Rightarrow> tid \<Rightarrow> int \<Rightarrow> kernel \<Rightarrow> kernel option" where
  "dev_block q t timeout k = do {
     (_, k1) \<leftarrow> rt_thread_suspend_with_flag t RT_UNINTERRUPTIBLE (upd_thread t (th_error_update (\<lambda>_. RT_EOK)) k);
     let k2 = rt_list_insert_before q t k1;
     k3 \<leftarrow> wait_timer t timeout k2;
     rt_schedule k3
   }"

definition dev_resume :: "queue \<Rightarrow> kernel \<Rightarrow> kernel option" where
  "dev_resume q k = (case tq k q of
       [] \<Rightarrow> Some k
     | t # _ \<Rightarrow> do {
         (_, k1) \<leftarrow> rt_thread_resume t k;
         rt_schedule k1
       })"

text \<open>Nothing but a timeout sets the error of a thread on such a list, and it takes the thread off it.\<close>

definition waiters_clean :: "queue \<Rightarrow> kernel \<Rightarrow> bool" where
  "waiters_clean q k \<longleftrightarrow> (\<forall>t\<in>set (tq k q). th_error (threads k t) = RT_EOK)"

lemma dev_block_spec:
  assumes k: "in_thread_context k t" and tm: "time_ok timeout" and q: "ipc_queue q"
    and w: "waiters_clean q k"
  obtains k' where "dev_block q t timeout k = Some k'" "clock_ok k'" "ipc_frame k k'"
    "stat_suspended (th_stat (threads k' t))" "th_error (threads k' t) = RT_EOK"
    "tq k' q = tq k q @ [t]" "\<forall>r. ipc_queue r \<longrightarrow> r \<noteq> q \<longrightarrow> tq k' r = tq k r"
    "waiters_clean q k'"
    "0 < timeout \<longrightarrow> ThreadTimer t \<in> set (timer_list k')
       \<and> int (timer_key (timers k') (rt_tick k') (ThreadTimer t)) = timeout"
    "\<forall>u. u \<noteq> t \<longrightarrow> stat_suspended (th_stat (threads k u)) \<longrightarrow> threads k' u = threads k u"
proof -
  let ?k1 = "upd_thread t (th_error_update (\<lambda>_. RT_EOK)) k"
  have k1: "clock_ok ?k1"
    by (rule clock_ok_upd_thread) (use k in \<open>simp_all add: in_thread_context_def\<close>)
  have cur: "rt_current_thread ?k1 = Some t" "thread_state ?k1 t = RT_THREAD_RUNNING"
    using k by (simp_all add: in_thread_context_def)
  obtain k' where k': "ipc_block q t RT_IPC_FLAG_FIFO RT_UNINTERRUPTIBLE timeout ?k1 = Some (RT_EOK, k')"
    "clock_ok k'" "stat_suspended (th_stat (threads k' t))"
    "tq k' q = (if RT_IPC_FLAG_FIFO = RT_IPC_FLAG_FIFO then tq ?k1 q @ [t]
       else ipc_prio_insert (threads ?k1) t (tq ?k1 q))"
    "\<forall>r. ipc_queue r \<longrightarrow> r \<noteq> q \<longrightarrow> tq k' r = tq ?k1 r"
    "ipc_frame ?k1 k'"
    "0 < timeout \<longrightarrow> ThreadTimer t \<in> set (timer_list k')
       \<and> int (timer_key (timers k') (rt_tick k') (ThreadTimer t)) = timeout"
    "stat_frame ?k1 k'"
    "\<forall>u. u \<noteq> t \<longrightarrow> stat_suspended (th_stat (threads ?k1 u)) \<longrightarrow> threads k' u = threads ?k1 u"
    by (rule ipc_block_spec [OF k1 cur tm, of RT_UNINTERRUPTIBLE RT_IPC_FLAG_FIFO q]) (use q in simp_all)
  have run: "dev_block q t timeout k = Some k'"
    using k'(1) by (auto simp: dev_block_def ipc_block_def ipc_list_suspend_def ipc_enqueue_def
        split: bind_splits if_splits)
  have f: "ipc_frame k ?k1" by (rule ipc_frameI) simp_all
  show ?thesis
  proof (rule that [OF run k'(2)])
    show "ipc_frame k k'" by (rule ipc_frame_trans [OF f k'(6)])
    show "tq k' q = tq k q @ [t]" using k'(4) by simp
    show "th_error (threads k' t) = RT_EOK" using stat_frame_sel(1) [OF k'(8), of t] by simp
    show "waiters_clean q k'" using w k'(4) stat_frame_sel(1) [OF k'(8)] by (simp add: waiters_clean_def)
  qed (use k' in simp_all)
qed

lemma dev_resume_eq:
  assumes "waiters_clean q k"
  shows "dev_resume q k = map_option snd (resume_one q k)"
proof (cases "tq k q")
  case Nil
  then show ?thesis by (simp add: dev_resume_def resume_one_def rt_list_isempty_def)
next
  case (Cons t ts)
  then have "th_error (threads k t) = RT_EOK" using assms by (simp add: waiters_clean_def)
  then have "th_error_update (\<lambda>_. RT_EOK) (threads k t) = threads k t" by (cases "threads k t") simp
  then have "upd_thread t (th_error_update (\<lambda>_. RT_EOK)) k = k" by (simp add: fun_upd_idem)
  then have "ipc_list_resume q k = map_option snd (rt_thread_resume t k)"
    using Cons by (cases "rt_thread_resume t k") (auto simp: ipc_list_resume_def)
  then show ?thesis using Cons
    by (cases "rt_thread_resume t k") (auto simp: dev_resume_def resume_one_def rt_list_isempty_def split: bind_splits)
qed

lemma resume_one_errors:
  assumes k: "clock_ok k" and q: "ipc_queue q" and r: "resume_one q k = Some (e, k')"
    and u: "th_error (threads k u) = RT_EOK"
  shows "th_error (threads k' u) = RT_EOK"
proof (cases "tq k q")
  case Nil
  then show ?thesis using r u by (simp add: resume_one_def rt_list_isempty_def)
next
  case (Cons t ts)
  obtain k1 s where k1: "ipc_list_resume q k = Some k1" "clock_ok k1"
    "s = RT_THREAD_READY \<or> s = RT_THREAD_RUNNING"
    "threads k1 = (threads k)(t := (th_stat_update (set_stat s)
       (th_error_update (\<lambda>_. RT_EOK) (threads k t))))"
    "tq k1 q = ts" "\<forall>r. ipc_queue r \<longrightarrow> r \<noteq> q \<longrightarrow> tq k1 r = tq k r"
    "rt_current_thread k1 = rt_current_thread k" "ipc_frame k k1"
    by (rule ipc_list_resume_clock [OF k q Cons])
  have ok1: "sched_ok k1" "rt_current_thread k1 \<noteq> None" using k1(2) by (simp_all add: clock_ok_def)
  obtain k2 where k2: "rt_schedule k1 = Some k2" "sched_frame k1 k2"
    by (rule rt_schedule_returns [OF ok1])
  have "k' = k2" using r Cons k1(1) k2(1) by (simp add: resume_one_def rt_list_isempty_def)
  then show ?thesis using sched_frame_thread(3) [OF k2(2), of u] k1(4) u by simp
qed

lemma dev_resume_spec:
  assumes k: "clock_ok k" and q: "ipc_queue q" and w: "waiters_clean q k"
  obtains k' where "dev_resume q k = Some k'" "clock_ok k'" "ipc_frame k k'" "tq k' q = tl (tq k q)"
    "\<forall>r. ipc_queue r \<longrightarrow> r \<noteq> q \<longrightarrow> tq k' r = tq k r"
    "\<forall>u. th_error (threads k u) = RT_EOK \<longrightarrow> th_error (threads k' u) = RT_EOK"
    "\<forall>t ts. tq k q = t # ts \<longrightarrow>
       thread_state k' t = RT_THREAD_READY \<or> thread_state k' t = RT_THREAD_RUNNING"
proof -
  obtain k' where k': "resume_one q k = Some (RT_EOK, k')" "clock_ok k'" "tq k' q = tl (tq k q)"
    "\<forall>r. ipc_queue r \<longrightarrow> r \<noteq> q \<longrightarrow> tq k' r = tq k r" "ipc_frame k k'"
    "\<forall>t ts. tq k q = t # ts \<longrightarrow> th_error (threads k' t) = RT_EOK
       \<and> (thread_state k' t = RT_THREAD_READY \<or> thread_state k' t = RT_THREAD_RUNNING)"
    by (rule resume_one_spec [OF k q])
  show ?thesis
    by (rule that [of k']) (use k' resume_one_errors [OF k q k'(1)] dev_resume_eq [OF w] in simp_all)
qed

lemma waiters_cleanI:
  assumes "set (tq k' q) \<subseteq> set (tq k q)" "waiters_clean q k"
    "\<forall>u. th_error (threads k u) = RT_EOK \<longrightarrow> th_error (threads k' u) = RT_EOK"
  shows "waiters_clean q k'"
  using assms by (auto simp: waiters_clean_def)

subsection \<open>Completions\<close>

abbreviation (input) RT_COMPLETED :: u32 where "RT_COMPLETED \<equiv> 1"
abbreviation (input) RT_UNCOMPLETED :: u32 where "RT_UNCOMPLETED \<equiv> 0"

record rt_completion =
  cp_flag :: u32

type_synonym cp_state = "rt_completion \<times> kernel"

definition rt_completion_init :: "oid \<Rightarrow> cp_state \<Rightarrow> cp_state" where
  "rt_completion_init c s = (case s of (cp, k) \<Rightarrow>
     (cp\<lparr>cp_flag := RT_UNCOMPLETED\<rparr>, ipc_object_init (QCompletion c) k))"

definition rt_completion_wait :: "oid \<Rightarrow> int \<Rightarrow> cp_state \<Rightarrow> (outcome \<times> cp_state) option" where
  "rt_completion_wait c timeout s = (case s of (cp, k) \<Rightarrow> do {
     rt_debug_scheduler_available (timeout \<noteq> 0) k;
     let thread = rt_thread_self k;
     (if cp_flag cp \<noteq> RT_COMPLETED then do {
        rt_assert (rt_list_isempty (QCompletion c) k);
        (if timeout = 0 then Some (Done (- RT_ETIMEOUT), cp, k)
         else do {
           t \<leftarrow> thread;
           rt_debug_not_in_interrupt k;
           k1 \<leftarrow> dev_block (QCompletion c) t timeout k;
           Some (Blocked, cp, k1)
         })
      } else Some (Done RT_EOK, cp\<lparr>cp_flag := RT_UNCOMPLETED\<rparr>, k))
   })"

text \<open>The end of \<open>rt_completion_wait\<close>, when the thread that waited runs again.\<close>

definition rt_completion_wait_resume :: "tid \<Rightarrow> cp_state \<Rightarrow> rt_err_t \<times> cp_state" where
  "rt_completion_wait_resume t s = (case s of (cp, k) \<Rightarrow>
     (th_error (threads k t), cp\<lparr>cp_flag := RT_UNCOMPLETED\<rparr>, k))"

definition rt_completion_done :: "oid \<Rightarrow> cp_state \<Rightarrow> cp_state option" where
  "rt_completion_done c s = (case s of (cp, k) \<Rightarrow>
     if cp_flag cp = RT_COMPLETED then Some (cp, k)
     else do {
       k1 \<leftarrow> dev_resume (QCompletion c) k;
       Some (cp\<lparr>cp_flag := RT_COMPLETED\<rparr>, k1)
     })"

definition cp_ok :: "oid \<Rightarrow> cp_state \<Rightarrow> bool" where
  "cp_ok c s = (case s of (cp, k) \<Rightarrow> clock_ok k \<and> waiters_clean (QCompletion c) k
     \<and> length (tq k (QCompletion c)) \<le> 1 \<and> (cp_flag cp = RT_COMPLETED \<or> cp_flag cp = RT_UNCOMPLETED)
     \<and> (tq k (QCompletion c) \<noteq> [] \<longrightarrow> cp_flag cp = RT_UNCOMPLETED))"

lemma completion_wait_spec:
  assumes s: "cp_ok c (cp, k)" and t: "in_thread_context k t" and tm: "time_ok timeout"
  shows "(cp_flag cp = RT_COMPLETED \<longrightarrow>
        rt_completion_wait c timeout (cp, k) = Some (Done RT_EOK, cp\<lparr>cp_flag := RT_UNCOMPLETED\<rparr>, k))
    \<and> (cp_flag cp \<noteq> RT_COMPLETED \<longrightarrow> tq k (QCompletion c) \<noteq> [] \<longrightarrow> rt_completion_wait c timeout (cp, k) = None)
    \<and> (cp_flag cp \<noteq> RT_COMPLETED \<longrightarrow> tq k (QCompletion c) = [] \<longrightarrow>
        (if timeout = 0 then rt_completion_wait c timeout (cp, k) = Some (Done (- RT_ETIMEOUT), cp, k)
         else \<exists>k'. rt_completion_wait c timeout (cp, k) = Some (Blocked, cp, k') \<and> cp_ok c (cp, k')
           \<and> tq k' (QCompletion c) = [t] \<and> stat_suspended (th_stat (threads k' t))
           \<and> (0 < timeout \<longrightarrow> ThreadTimer t \<in> set (timer_list k')
                \<and> int (timer_key (timers k') (rt_tick k') (ThreadTimer t)) = timeout)))"
proof (intro conjI impI)
  note avail = in_thread_context_avail [OF t]
  assume "cp_flag cp = RT_COMPLETED"
  then show "rt_completion_wait c timeout (cp, k) = Some (Done RT_EOK, cp\<lparr>cp_flag := RT_UNCOMPLETED\<rparr>, k)"
    by (simp add: rt_completion_wait_def avail)
next
  assume "cp_flag cp \<noteq> RT_COMPLETED" "tq k (QCompletion c) \<noteq> []"
  then show "rt_completion_wait c timeout (cp, k) = None"
    by (simp add: rt_completion_wait_def in_thread_context_avail [OF t] rt_list_isempty_def rt_assert_def)
next
  assume u: "cp_flag cp \<noteq> RT_COMPLETED" "tq k (QCompletion c) = []"
  have w: "waiters_clean (QCompletion c) k" using s by (simp add: cp_ok_def)
  obtain k' where k': "dev_block (QCompletion c) t timeout k = Some k'" "clock_ok k'" "ipc_frame k k'"
    "stat_suspended (th_stat (threads k' t))" "th_error (threads k' t) = RT_EOK"
    "tq k' (QCompletion c) = tq k (QCompletion c) @ [t]"
    "\<forall>r. ipc_queue r \<longrightarrow> r \<noteq> QCompletion c \<longrightarrow> tq k' r = tq k r"
    "waiters_clean (QCompletion c) k'"
    "0 < timeout \<longrightarrow> ThreadTimer t \<in> set (timer_list k')
       \<and> int (timer_key (timers k') (rt_tick k') (ThreadTimer t)) = timeout"
    "\<forall>u. u \<noteq> t \<longrightarrow> stat_suspended (th_stat (threads k u)) \<longrightarrow> threads k' u = threads k u"
    by (rule dev_block_spec [OF t tm _ w]) simp
  have cur: "rt_thread_self k = Some t" "rt_interrupt_nest k = 0"
    using t by (simp_all add: in_thread_context_def rt_thread_self_def)
  show "if timeout = 0 then rt_completion_wait c timeout (cp, k) = Some (Done (- RT_ETIMEOUT), cp, k)
         else \<exists>k'. rt_completion_wait c timeout (cp, k) = Some (Blocked, cp, k') \<and> cp_ok c (cp, k')
           \<and> tq k' (QCompletion c) = [t] \<and> stat_suspended (th_stat (threads k' t))
           \<and> (0 < timeout \<longrightarrow> ThreadTimer t \<in> set (timer_list k')
                \<and> int (timer_key (timers k') (rt_tick k') (ThreadTimer t)) = timeout)"
    using u k' s cur
    by (simp add: rt_completion_wait_def in_thread_context_avail [OF t] rt_list_isempty_def rt_assert_def
        rt_debug_not_in_interrupt_def cp_ok_def)
qed

lemma completion_done_spec:
  assumes s: "cp_ok c (cp, k)"
  obtains k' where "rt_completion_done c (cp, k) = Some (cp\<lparr>cp_flag := RT_COMPLETED\<rparr>, k')"
    "cp_ok c (cp\<lparr>cp_flag := RT_COMPLETED\<rparr>, k')" "tq k' (QCompletion c) = []"
    "\<forall>t. th_error (threads k t) = RT_EOK \<longrightarrow> th_error (threads k' t) = RT_EOK"
    "\<forall>t. tq k (QCompletion c) = [t] \<longrightarrow>
       thread_state k' t = RT_THREAD_READY \<or> thread_state k' t = RT_THREAD_RUNNING"
    "cp_flag cp = RT_COMPLETED \<longrightarrow> k' = k"
proof (cases "cp_flag cp = RT_COMPLETED")
  case True
  then have cp: "cp\<lparr>cp_flag := RT_COMPLETED\<rparr> = cp" by (cases cp) simp
  have "tq k (QCompletion c) = []" using s True by (auto simp: cp_ok_def)
  then show ?thesis using that [of k, unfolded cp] s True by (simp add: rt_completion_done_def)
next
  case False
  have w: "clock_ok k" "waiters_clean (QCompletion c) k" using s by (simp_all add: cp_ok_def)
  obtain k' where k': "dev_resume (QCompletion c) k = Some k'" "clock_ok k'" "ipc_frame k k'"
    "tq k' (QCompletion c) = tl (tq k (QCompletion c))"
    "\<forall>r. ipc_queue r \<longrightarrow> r \<noteq> QCompletion c \<longrightarrow> tq k' r = tq k r"
    "\<forall>u. th_error (threads k u) = RT_EOK \<longrightarrow> th_error (threads k' u) = RT_EOK"
    "\<forall>t ts. tq k (QCompletion c) = t # ts \<longrightarrow>
       thread_state k' t = RT_THREAD_READY \<or> thread_state k' t = RT_THREAD_RUNNING"
    by (rule dev_resume_spec [OF w(1) _ w(2)]) simp
  have e: "tq k' (QCompletion c) = []"
    using k'(4) s by (cases "tq k (QCompletion c)") (auto simp: cp_ok_def)
  show ?thesis
    by (rule that [of k']) (use k' e False in \<open>simp_all add: rt_completion_done_def cp_ok_def waiters_clean_def\<close>)
qed

lemma completion_handshake_spec:
  assumes s: "cp_ok c (cp, k)" and t: "in_thread_context k t" and tm: "time_ok timeout" "timeout \<noteq> 0"
    and u: "cp_flag cp = RT_UNCOMPLETED" "tq k (QCompletion c) = []"
  shows "(\<exists>k1 cp2 k2. rt_completion_wait c timeout (cp, k) = Some (Blocked, cp, k1)
      \<and> stat_suspended (th_stat (threads k1 t)) \<and> tq k1 (QCompletion c) = [t]
      \<and> rt_completion_done c (cp, k1) = Some (cp2, k2)
      \<and> (thread_state k2 t = RT_THREAD_READY \<or> thread_state k2 t = RT_THREAD_RUNNING)
      \<and> rt_completion_done c (cp2, k2) = Some (cp2, k2)
      \<and> rt_completion_wait_resume t (cp2, k2) = (RT_EOK, cp, k2) \<and> cp_ok c (cp, k2))
    \<and> (\<exists>cp1. rt_completion_done c (cp, k) = Some (cp1, k) \<and> rt_completion_done c (cp1, k) = Some (cp1, k)
      \<and> rt_completion_wait c timeout (cp1, k) = Some (Done RT_EOK, cp, k))"
proof
  have cp: "cp\<lparr>cp_flag := RT_COMPLETED, cp_flag := RT_UNCOMPLETED\<rparr> = cp" using u(1) by (cases cp) simp
  obtain k1 where k1: "rt_completion_wait c timeout (cp, k) = Some (Blocked, cp, k1)" "cp_ok c (cp, k1)"
    "tq k1 (QCompletion c) = [t]" "stat_suspended (th_stat (threads k1 t))"
    using completion_wait_spec [OF s t tm(1)] u tm(2) by auto
  obtain k2 where k2: "rt_completion_done c (cp, k1) = Some (cp\<lparr>cp_flag := RT_COMPLETED\<rparr>, k2)"
    "cp_ok c (cp\<lparr>cp_flag := RT_COMPLETED\<rparr>, k2)" "tq k2 (QCompletion c) = []"
    "\<forall>t. th_error (threads k1 t) = RT_EOK \<longrightarrow> th_error (threads k2 t) = RT_EOK"
    "\<forall>t. tq k1 (QCompletion c) = [t] \<longrightarrow>
       thread_state k2 t = RT_THREAD_READY \<or> thread_state k2 t = RT_THREAD_RUNNING"
    "cp_flag cp = RT_COMPLETED \<longrightarrow> k2 = k1"
    by (rule completion_done_spec [OF k1(2)])
  have "th_error (threads k1 t) = RT_EOK" using k1(2,3) by (simp add: cp_ok_def waiters_clean_def)
  then have "rt_completion_wait_resume t (cp\<lparr>cp_flag := RT_COMPLETED\<rparr>, k2) = (RT_EOK, cp, k2)"
    using k2(4) cp by (simp add: rt_completion_wait_resume_def)
  moreover have "cp_ok c (cp, k2)" using k2(2,3) u(1) by (simp add: cp_ok_def)
  moreover have "rt_completion_done c (cp\<lparr>cp_flag := RT_COMPLETED\<rparr>, k2) = Some (cp\<lparr>cp_flag := RT_COMPLETED\<rparr>, k2)"
    by (simp add: rt_completion_done_def)
  ultimately show "\<exists>k1 cp2 k2. rt_completion_wait c timeout (cp, k) = Some (Blocked, cp, k1)
      \<and> stat_suspended (th_stat (threads k1 t)) \<and> tq k1 (QCompletion c) = [t]
      \<and> rt_completion_done c (cp, k1) = Some (cp2, k2)
      \<and> (thread_state k2 t = RT_THREAD_READY \<or> thread_state k2 t = RT_THREAD_RUNNING)
      \<and> rt_completion_done c (cp2, k2) = Some (cp2, k2)
      \<and> rt_completion_wait_resume t (cp2, k2) = (RT_EOK, cp, k2) \<and> cp_ok c (cp, k2)"
    using k1 k2(1,5) by blast
  have "rt_completion_done c (cp, k) = Some (cp\<lparr>cp_flag := RT_COMPLETED\<rparr>, k)"
    using u by (simp add: rt_completion_done_def dev_resume_def)
  moreover have "rt_completion_wait c timeout (cp\<lparr>cp_flag := RT_COMPLETED\<rparr>, k) = Some (Done RT_EOK, cp, k)"
    using cp by (simp add: rt_completion_wait_def in_thread_context_avail [OF t])
  moreover have "rt_completion_done c (cp\<lparr>cp_flag := RT_COMPLETED\<rparr>, k) = Some (cp\<lparr>cp_flag := RT_COMPLETED\<rparr>, k)"
    by (simp add: rt_completion_done_def)
  ultimately show "\<exists>cp1. rt_completion_done c (cp, k) = Some (cp1, k) \<and> rt_completion_done c (cp1, k) = Some (cp1, k)
      \<and> rt_completion_wait c timeout (cp1, k) = Some (Done RT_EOK, cp, k)" by blast
qed

text \<open>
  C15 (completion). A thread that waits for a completion that is not done is suspended; the call that
  completes it makes the thread ready, further such calls change nothing, and the wait returns \<open>RT_EOK\<close>
  with the completion as before. In the other order the completion is kept, and the wait returns at once.
\<close>

theorem completion_handshake:
  assumes "cp_ok c (cp, k)" "in_thread_context k t" "time_ok timeout" "timeout \<noteq> 0"
    and "cp_flag cp = RT_UNCOMPLETED" "tq k (QCompletion c) = []"
  shows "(\<exists>k1 cp2 k2. rt_completion_wait c timeout (cp, k) = Some (Blocked, cp, k1)
      \<and> stat_suspended (th_stat (threads k1 t)) \<and> tq k1 (QCompletion c) = [t]
      \<and> rt_completion_done c (cp, k1) = Some (cp2, k2)
      \<and> (thread_state k2 t = RT_THREAD_READY \<or> thread_state k2 t = RT_THREAD_RUNNING)
      \<and> rt_completion_done c (cp2, k2) = Some (cp2, k2)
      \<and> rt_completion_wait_resume t (cp2, k2) = (RT_EOK, cp, k2) \<and> cp_ok c (cp, k2))
    \<and> (\<exists>cp1. rt_completion_done c (cp, k) = Some (cp1, k) \<and> rt_completion_done c (cp1, k) = Some (cp1, k)
      \<and> rt_completion_wait c timeout (cp1, k) = Some (Done RT_EOK, cp, k))"
  by (rule completion_handshake_spec [OF assms])

text \<open>
  A completion that arrives after the timeout of the waiting thread, but before that thread runs, is lost:
  the wait returns \<open>-RT_ETIMEOUT\<close> and takes the flag with it, and the next wait times out again.
\<close>

lemma completion_lost_after_timeout:
  assumes "cp_flag cp = RT_UNCOMPLETED" "tq k (QCompletion c) = []" "th_error (threads k t) = - RT_ETIMEOUT"
    and "in_thread_context k t"
  shows "\<exists>cp1. rt_completion_done c (cp, k) = Some (cp1, k) \<and> cp_flag cp1 = RT_COMPLETED
    \<and> rt_completion_wait_resume t (cp1, k) = (- RT_ETIMEOUT, cp, k)
    \<and> rt_completion_wait c 0 (cp, k) = Some (Done (- RT_ETIMEOUT), cp, k)"
proof -
  have "cp\<lparr>cp_flag := RT_COMPLETED, cp_flag := RT_UNCOMPLETED\<rparr> = cp" using assms(1) by (cases cp) simp
  then show ?thesis using assms
    by (intro exI [of _ "cp\<lparr>cp_flag := RT_COMPLETED\<rparr>"])
      (simp add: rt_completion_done_def dev_resume_def rt_completion_wait_resume_def rt_completion_wait_def
        in_thread_context_avail rt_list_isempty_def rt_assert_def)
qed

theorem completion_handshake_witness:
  "\<exists>k1 cp2 k2. rt_completion_wait 0 10 (\<lparr>cp_flag = 0\<rparr>, demo_kernel) = Some (Blocked, \<lparr>cp_flag = 0\<rparr>, k1)
     \<and> tq k1 (QCompletion 0) = [1] \<and> rt_completion_done 0 (\<lparr>cp_flag = 0\<rparr>, k1) = Some (cp2, k2)
     \<and> rt_completion_wait_resume 1 (cp2, k2) = (RT_EOK, \<lparr>cp_flag = 0\<rparr>, k2)"
proof -
  have q: "tq demo_kernel (QCompletion 0) = []" by simp
  have ok: "cp_ok 0 (\<lparr>cp_flag = 0\<rparr>, demo_kernel)" using demo_clock_ok q by (simp add: cp_ok_def waiters_clean_def)
  have tm: "time_ok 10" "(10 :: int) \<noteq> 0" by (simp_all add: time_ok_def)
  show ?thesis using completion_handshake [OF ok demo_thread_context tm _ q] by auto
qed

end
