(* ===== verification/Drv_DataQueue.thy ===== *)
theory Drv_DataQueue
  imports Drv_Completion
begin

text \<open>
  Data queues (\<open>components/drivers/ipc/dataqueue.c\<close>): a circular queue of references to blocks of data
  between threads, with a low-water mark. The indices are bit fields of 15 bits.
\<close>

abbreviation (input) DATAQUEUE_MAGIC :: u32 where "DATAQUEUE_MAGIC \<equiv> 0xbead0e0e"

datatype dq_event = EVENT_POP | EVENT_PUSH | EVENT_LWM

record rt_data_item =
  data_ptr :: u32
  data_size :: u32

record rt_data_queue =
  dq_magic :: u32
  dq_size :: u16
  dq_lwm :: u16
  dq_get_index :: "15 word"
  dq_is_empty :: bool
  dq_put_index :: "15 word"
  dq_is_full :: bool
  dq_queue :: "rt_data_item list"
  dq_notify :: bool

type_synonym dq_state = "rt_data_queue \<times> kernel"

subsection \<open>Operations\<close>

text \<open>\<open>mem\<close> is the memory that \<open>rt_malloc\<close> returns, with what it happens to hold.\<close>

definition rt_data_queue_init ::
  "oid \<Rightarrow> u16 \<Rightarrow> u16 \<Rightarrow> bool \<Rightarrow> rt_data_item list option \<Rightarrow> dq_state \<Rightarrow> (rt_err_t \<times> dq_state) option" where
  "rt_data_queue_init d sz lwm notify mem s = (case s of (dq, k) \<Rightarrow> do {
     rt_assert (0 < sz);
     let dq1 = dq\<lparr>dq_notify := notify, dq_magic := DATAQUEUE_MAGIC, dq_size := sz, dq_lwm := lwm,
       dq_get_index := 0, dq_put_index := 0, dq_is_empty := True, dq_is_full := False\<rparr>;
     let k1 = ipc_object_init (QPop d) (ipc_object_init (QPush d) k);
     Some (case mem of
         None \<Rightarrow> (- RT_ENOMEM, dq1, k1)
       | Some q \<Rightarrow> (RT_EOK, dq1\<lparr>dq_queue := q\<rparr>, k1))
   })"

definition rt_data_queue_len :: "rt_data_queue \<Rightarrow> u16" where
  "rt_data_queue_len dq =
     (if dq_is_empty dq then 0
      else if dq_get_index dq < dq_put_index dq then ucast (dq_put_index dq) - ucast (dq_get_index dq)
      else dq_size dq + ucast (dq_put_index dq) - ucast (dq_get_index dq))"

text \<open>An index of 15 bits is incremented and compared with the size.\<close>

definition dq_next :: "rt_data_queue \<Rightarrow> 15 word \<Rightarrow> 15 word" where
  "dq_next dq i = (if ucast (i + 1) = dq_size dq then 0 else i + 1)"

definition dq_put :: "rt_data_item \<Rightarrow> rt_data_queue \<Rightarrow> rt_data_queue option" where
  "dq_put item dq = do {
     rt_assert (unat (dq_put_index dq) < length (dq_queue dq));
     let put1 = dq_next dq (dq_put_index dq);
     let dq1 = dq\<lparr>dq_queue := (dq_queue dq)[unat (dq_put_index dq) := item], dq_put_index := put1,
       dq_is_empty := False\<rparr>;
     Some (if put1 = dq_get_index dq then dq1\<lparr>dq_is_full := True\<rparr> else dq1)
   }"

definition dq_get :: "rt_data_queue \<Rightarrow> (rt_data_item \<times> rt_data_queue) option" where
  "dq_get dq = do {
     rt_assert (unat (dq_get_index dq) < length (dq_queue dq));
     let get1 = dq_next dq (dq_get_index dq);
     let dq1 = dq\<lparr>dq_get_index := get1, dq_is_full := False\<rparr>;
     Some (dq_queue dq ! unat (dq_get_index dq),
       if dq_put_index dq = get1 then dq1\<lparr>dq_is_empty := True\<rparr> else dq1)
   }"

definition dq_event :: "rt_data_queue \<Rightarrow> dq_event \<Rightarrow> dq_event option" where
  "dq_event dq e = (if dq_notify dq then Some e else None)"

text \<open>
  The loop and the rest of the calls, up to the point where the thread gives up the processor; with the
  result comes the event that was notified. \<open>push_resume\<close> and \<open>pop_resume\<close> are what follows when the
  thread that waited runs again.
\<close>

definition push_loop ::
  "oid \<Rightarrow> rt_data_item \<Rightarrow> int \<Rightarrow> tid option \<Rightarrow> dq_state \<Rightarrow> (outcome \<times> dq_event option \<times> dq_state) option" where
  "push_loop d item timeout thread s = (case s of (dq, k) \<Rightarrow>
     if dq_is_full dq then
       (if timeout = 0 then Some (Done (- RT_ETIMEOUT), None, s)
        else do {
          t \<leftarrow> thread;
          k1 \<leftarrow> dev_block (QPush d) t timeout k;
          Some (Blocked, None, dq, k1)
        })
     else do {
       dq1 \<leftarrow> dq_put item dq;
       (if tq k (QPop d) \<noteq> [] then do {
          k1 \<leftarrow> dev_resume (QPop d) k;
          Some (Done RT_EOK, None, dq1, k1)
        } else Some (Done RT_EOK, dq_event dq1 EVENT_PUSH, dq1, k))
     })"

definition rt_data_queue_push ::
  "oid \<Rightarrow> rt_data_item \<Rightarrow> int \<Rightarrow> dq_state \<Rightarrow> (outcome \<times> dq_event option \<times> dq_state) option" where
  "rt_data_queue_push d item timeout s = (case s of (dq, k) \<Rightarrow> do {
     rt_assert (dq_magic dq = DATAQUEUE_MAGIC);
     rt_debug_scheduler_available (timeout \<noteq> 0) k;
     push_loop d item timeout (rt_thread_self k) s
   })"

definition push_resume ::
  "oid \<Rightarrow> rt_data_item \<Rightarrow> int \<Rightarrow> tid \<Rightarrow> dq_state \<Rightarrow> (outcome \<times> dq_event option \<times> dq_state) option" where
  "push_resume d item timeout t s = (case s of (dq, k) \<Rightarrow>
     if th_error (threads k t) \<noteq> RT_EOK then Some (Done (th_error (threads k t)), None, s)
     else push_loop d item timeout (Some t) s)"

definition pop_loop ::
  "oid \<Rightarrow> int \<Rightarrow> tid option \<Rightarrow> dq_state \<Rightarrow> (outcome \<times> rt_data_item option \<times> dq_event option \<times> dq_state) option" where
  "pop_loop d timeout thread s = (case s of (dq, k) \<Rightarrow>
     if dq_is_empty dq then
       (if timeout = 0 then Some (Done (- RT_ETIMEOUT), None, None, s)
        else do {
          t \<leftarrow> thread;
          k1 \<leftarrow> dev_block (QPop d) t timeout k;
          Some (Blocked, None, None, dq, k1)
        })
     else do {
       (item, dq1) \<leftarrow> dq_get dq;
       (if rt_data_queue_len dq1 \<le> dq_lwm dq1 then do {
          k1 \<leftarrow> dev_resume (QPush d) k;
          Some (Done RT_EOK, Some item, dq_event dq1 EVENT_LWM, dq1, k1)
        } else Some (Done RT_EOK, Some item, dq_event dq1 EVENT_POP, dq1, k))
     })"

definition rt_data_queue_pop ::
  "oid \<Rightarrow> int \<Rightarrow> dq_state \<Rightarrow> (outcome \<times> rt_data_item option \<times> dq_event option \<times> dq_state) option" where
  "rt_data_queue_pop d timeout s = (case s of (dq, k) \<Rightarrow> do {
     rt_assert (dq_magic dq = DATAQUEUE_MAGIC);
     rt_debug_scheduler_available (timeout \<noteq> 0) k;
     pop_loop d timeout (rt_thread_self k) s
   })"

definition pop_resume ::
  "oid \<Rightarrow> int \<Rightarrow> tid \<Rightarrow> dq_state \<Rightarrow> (outcome \<times> rt_data_item option \<times> dq_event option \<times> dq_state) option" where
  "pop_resume d timeout t s = (case s of (dq, k) \<Rightarrow>
     if th_error (threads k t) \<noteq> RT_EOK then Some (Done (th_error (threads k t)), None, None, s)
     else pop_loop d timeout (Some t) s)"

definition rt_data_queue_peek :: "dq_state \<Rightarrow> (rt_err_t \<times> rt_data_item option) option" where
  "rt_data_queue_peek s = (case s of (dq, k) \<Rightarrow> do {
     rt_assert (dq_magic dq = DATAQUEUE_MAGIC);
     (if dq_is_empty dq then Some (- RT_EEMPTY, None)
      else do {
        rt_assert (unat (dq_get_index dq) < length (dq_queue dq));
        Some (RT_EOK, Some (dq_queue dq ! unat (dq_get_index dq)))
      })
   })"

text \<open>The loops of \<open>rt_data_queue_reset\<close> resume the waiting threads with the error \<open>-RT_ERROR\<close>.\<close>

definition rt_data_queue_reset :: "oid \<Rightarrow> dq_state \<Rightarrow> dq_state option" where
  "rt_data_queue_reset d s = (case s of (dq, k) \<Rightarrow> do {
     rt_assert (dq_magic dq = DATAQUEUE_MAGIC);
     let dq1 = dq\<lparr>dq_get_index := 0, dq_put_index := 0, dq_is_empty := True, dq_is_full := False\<rparr>;
     let k1 = rt_enter_critical k;
     k2 \<leftarrow> ipc_list_resume_all (QPop d) k1;
     k3 \<leftarrow> ipc_list_resume_all (QPush d) k2;
     k4 \<leftarrow> rt_exit_critical k3;
     k5 \<leftarrow> rt_schedule k4;
     Some (dq1, k5)
   })"

definition rt_data_queue_deinit :: "oid \<Rightarrow> dq_state \<Rightarrow> (rt_err_t \<times> dq_state) option" where
  "rt_data_queue_deinit d s = do {
     rt_assert (dq_magic (fst s) = DATAQUEUE_MAGIC);
     (dq1, k1) \<leftarrow> rt_data_queue_reset d s;
     Some (RT_EOK, dq1\<lparr>dq_magic := 0, dq_queue := []\<rparr>, k1)
   }"

subsection \<open>The queue as a circular buffer\<close>

definition dq_wf :: "rt_data_queue \<Rightarrow> bool" where
  "dq_wf dq \<longleftrightarrow> dq_magic dq = DATAQUEUE_MAGIC \<and> 0 < unat (dq_size dq) \<and> unat (dq_size dq) < 2 ^ 15
     \<and> length (dq_queue dq) = unat (dq_size dq) \<and> unat (dq_get_index dq) < unat (dq_size dq)
     \<and> unat (dq_put_index dq) < unat (dq_size dq)
     \<and> (dq_is_empty dq \<longrightarrow> dq_put_index dq = dq_get_index dq)
     \<and> (dq_is_full dq \<longleftrightarrow> dq_put_index dq = dq_get_index dq \<and> \<not> dq_is_empty dq)"

definition dq_count :: "rt_data_queue \<Rightarrow> nat" where
  "dq_count dq = (let g = unat (dq_get_index dq); p = unat (dq_put_index dq) in
     if dq_is_empty dq then 0 else if g < p then p - g else unat (dq_size dq) + p - g)"

definition dq_items :: "rt_data_queue \<Rightarrow> rt_data_item list" where
  "dq_items dq = ring_items (dq_queue dq) (unat (dq_get_index dq)) (dq_count dq)"

lemma length_dq_items [simp]: "length (dq_items dq) = dq_count dq"
  by (simp add: dq_items_def)

lemma unat_ucast_15: "unat (ucast i :: u16) = unat (i :: 15 word)"
  using unsigned_less [of i, where ?'a = nat] by (simp add: unsigned_ucast_eq take_bit_eq_mod)

lemma dq_len_count:
  assumes "dq_wf dq"
  shows "unat (rt_data_queue_len dq) = dq_count dq"
proof -
  let ?g = "dq_get_index dq" and ?p = "dq_put_index dq"
  have u: "unat (ucast ?g :: u16) = unat ?g" "unat (ucast ?p :: u16) = unat ?p"
    by (simp_all add: unat_ucast_15)
  have s: "unat (dq_size dq + ucast ?p) = unat (dq_size dq) + unat ?p"
    using assms u by (subst unat_add_lem [THEN iffD1]) (simp_all add: dq_wf_def)
  show ?thesis
    using assms u s
    by (auto simp: rt_data_queue_len_def dq_count_def Let_def dq_wf_def word_less_nat_alt unat_sub_if')
qed

lemma dq_next_unat:
  assumes "dq_wf dq" "unat i < unat (dq_size dq)"
  shows "unat (dq_next dq i) = (if Suc (unat i) = unat (dq_size dq) then 0 else Suc (unat i))"
proof -
  have "unat (i + 1) = Suc (unat i)"
    using assms by (subst unat_add_lem [THEN iffD1]) (simp_all add: dq_wf_def)
  moreover from this have "unat (ucast (i + 1) :: u16) = Suc (unat i)" by (simp add: unat_ucast_15)
  ultimately show ?thesis by (auto simp: dq_next_def word_unat_eq_iff)
qed

lemma dq_put_spec:
  assumes wf: "dq_wf dq" and room: "\<not> dq_is_full dq"
  obtains dq' where "dq_put x dq = Some dq'" "dq_wf dq'" "dq_items dq' = dq_items dq @ [x]"
    "dq_size dq' = dq_size dq" "dq_lwm dq' = dq_lwm dq" "dq_notify dq' = dq_notify dq"
proof -
  let ?g = "dq_get_index dq" and ?p = "dq_put_index dq" and ?s = "unat (dq_size dq)"
  let ?p' = "dq_next dq ?p"
  define dq' where "dq' = dq\<lparr>dq_queue := (dq_queue dq)[unat ?p := x], dq_put_index := ?p', dq_is_empty := False,
      dq_is_full := (?p' = ?g)\<rparr>"
  have b: "unat ?g < ?s" "unat ?p < ?s" "length (dq_queue dq) = ?s" using wf by (simp_all add: dq_wf_def)
  note n = dq_next_unat [OF wf b(2)]
  have full: "\<not> dq_is_full dq" using room .
  have run: "dq_put x dq = Some dq'"
    using b wf full by (cases dq) (auto simp: dq_put_def dq'_def rt_assert_def Let_def dq_wf_def)
  have wf': "dq_wf dq'" using wf n by (auto simp: dq_wf_def dq'_def)
  have pg: "dq_is_empty dq \<longleftrightarrow> ?p = ?g" using wf full by (auto simp: dq_wf_def)
  have c: "dq_count dq' = Suc (dq_count dq)"
    using b n pg by (auto simp: dq_count_def dq'_def Let_def word_unat_eq_iff)
  have p: "unat ?p = (unat ?g + dq_count dq) mod ?s"
    using b pg by (auto simp: dq_count_def Let_def word_unat_eq_iff)
  have le: "dq_count dq < length (dq_queue dq)"
    using b pg by (auto simp: dq_count_def Let_def word_unat_eq_iff)
  have "dq_items dq' = dq_items dq @ [x]"
    using ring_items_put [OF le, of "unat ?g" x] p c b(3) by (simp add: dq_items_def dq'_def)
  then show ?thesis using that [OF run wf'] by (simp add: dq'_def)
qed

lemma dq_get_spec:
  assumes wf: "dq_wf dq" and items: "dq_items dq = x # xs"
  obtains dq' where "dq_get dq = Some (x, dq')" "dq_wf dq'" "dq_items dq' = xs"
    "dq_size dq' = dq_size dq" "dq_lwm dq' = dq_lwm dq" "dq_notify dq' = dq_notify dq"
proof -
  let ?g = "dq_get_index dq" and ?p = "dq_put_index dq" and ?s = "unat (dq_size dq)"
  let ?g' = "dq_next dq ?g"
  have b: "unat ?g < ?s" "unat ?p < ?s" "length (dq_queue dq) = ?s" using wf by (simp_all add: dq_wf_def)
  have "dq_count dq = Suc (length xs)" using items by (metis length_Cons length_dq_items)
  then have ne: "\<not> dq_is_empty dq" by (auto simp: dq_count_def)
  define dq' where "dq' = dq\<lparr>dq_get_index := ?g', dq_is_full := False, dq_is_empty := (?p = ?g')\<rparr>"
  note n = dq_next_unat [OF wf b(1)]
  have run: "dq_get dq = Some (dq_queue dq ! unat ?g, dq')"
    using b ne by (cases dq) (auto simp: dq_get_def dq'_def rt_assert_def Let_def)
  have wf': "dq_wf dq'" using wf n by (auto simp: dq_wf_def dq'_def)
  have c: "dq_count dq = Suc (dq_count dq')"
    using b n ne by (auto simp: dq_count_def dq'_def Let_def word_unat_eq_iff)
  have g: "unat ?g' = Suc (unat ?g) mod ?s" using n b by simp
  have "dq_items dq = dq_queue dq ! unat ?g # dq_items dq'"
    unfolding dq_items_def c using ring_items_get [of "dq_queue dq" "unat ?g" "dq_count dq'"] b g
      ring_items_mod [of "dq_queue dq" "Suc (unat ?g)"]
    by (simp add: dq'_def)
  then show ?thesis using that [of dq'] run wf' items by (simp add: dq'_def)
qed

lemma dq_flags:
  assumes "dq_wf dq"
  shows "dq_is_empty dq \<longleftrightarrow> dq_items dq = []" "dq_is_full dq \<longleftrightarrow> length (dq_items dq) = unat (dq_size dq)"
    "length (dq_items dq) \<le> unat (dq_size dq)"
proof -
  have c: "dq_count dq = 0 \<longleftrightarrow> dq_is_empty dq" "dq_count dq \<le> unat (dq_size dq)"
    "dq_is_full dq \<longleftrightarrow> dq_count dq = unat (dq_size dq)"
    using assms by (auto simp: dq_count_def Let_def dq_wf_def word_unat_eq_iff)
  then show "dq_is_empty dq \<longleftrightarrow> dq_items dq = []" "dq_is_full dq \<longleftrightarrow> length (dq_items dq) = unat (dq_size dq)"
    "length (dq_items dq) \<le> unat (dq_size dq)"
    using length_0_conv [of "dq_items dq"] by simp_all
qed

subsection \<open>Pushing and popping\<close>

definition dq_ok :: "oid \<Rightarrow> dq_state \<Rightarrow> bool" where
  "dq_ok d s = (case s of (dq, k) \<Rightarrow> clock_ok k \<and> dq_wf dq
     \<and> waiters_clean (QPush d) k \<and> waiters_clean (QPop d) k)"

lemma set_tl_subset: "set (tl xs) \<subseteq> set xs"
  by (cases xs) auto

lemma dq_push_room:
  assumes s: "dq_ok d (dq, k)" and room: "\<not> dq_is_full dq"
  obtains dq' k' where
    "push_loop d x timeout thread (dq, k)
      = Some (Done RT_EOK, if tq k (QPop d) = [] then dq_event dq EVENT_PUSH else None, dq', k')"
    "dq_ok d (dq', k')" "dq_items dq' = dq_items dq @ [x]" "dq_size dq' = dq_size dq" "dq_lwm dq' = dq_lwm dq"
    "tq k' (QPop d) = tl (tq k (QPop d))" "tq k' (QPush d) = tq k (QPush d)"
    "\<forall>t ts. tq k (QPop d) = t # ts \<longrightarrow> th_error (threads k' t) = RT_EOK
       \<and> (thread_state k' t = RT_THREAD_READY \<or> thread_state k' t = RT_THREAD_RUNNING)"
proof -
  have k: "clock_ok k" "dq_wf dq" "waiters_clean (QPush d) k" "waiters_clean (QPop d) k"
    using s by (simp_all add: dq_ok_def)
  obtain dq' where dq': "dq_put x dq = Some dq'" "dq_wf dq'" "dq_items dq' = dq_items dq @ [x]"
    "dq_size dq' = dq_size dq" "dq_lwm dq' = dq_lwm dq" "dq_notify dq' = dq_notify dq"
    by (rule dq_put_spec [OF k(2) room])
  obtain k' where k': "dev_resume (QPop d) k = Some k'" "clock_ok k'" "ipc_frame k k'"
    "tq k' (QPop d) = tl (tq k (QPop d))" "\<forall>r. ipc_queue r \<longrightarrow> r \<noteq> QPop d \<longrightarrow> tq k' r = tq k r"
    "\<forall>u. th_error (threads k u) = RT_EOK \<longrightarrow> th_error (threads k' u) = RT_EOK"
    "\<forall>t ts. tq k (QPop d) = t # ts \<longrightarrow>
       thread_state k' t = RT_THREAD_READY \<or> thread_state k' t = RT_THREAD_RUNNING"
    by (rule dev_resume_spec [OF k(1) _ k(4)]) simp
  have "waiters_clean (QPop d) k'" by (rule waiters_cleanI [OF _ k(4) k'(6)]) (use k'(4) set_tl_subset in simp)
  moreover have "waiters_clean (QPush d) k'" by (rule waiters_cleanI [OF _ k(3) k'(6)]) (use k'(5) in simp)
  ultimately have ok: "dq_ok d (dq', k')" using k'(2) dq'(2) by (simp add: dq_ok_def)
  have nil: "k' = k" if "tq k (QPop d) = []" using k'(1) that by (simp add: dev_resume_def)
  show ?thesis
  proof (rule that [of dq' k'])
    show "push_loop d x timeout thread (dq, k)
      = Some (Done RT_EOK, if tq k (QPop d) = [] then dq_event dq EVENT_PUSH else None, dq', k')"
      using room dq'(1,6) k'(1) nil by (cases "tq k (QPop d) = []") (simp_all add: push_loop_def dq_event_def)
    show "\<forall>t ts. tq k (QPop d) = t # ts \<longrightarrow> th_error (threads k' t) = RT_EOK
       \<and> (thread_state k' t = RT_THREAD_READY \<or> thread_state k' t = RT_THREAD_RUNNING)"
      using k'(6,7) k(4) by (auto simp: waiters_clean_def)
  qed (use ok dq' k' in simp_all)
qed

lemma dq_pop_item:
  assumes s: "dq_ok d (dq, k)" and items: "dq_items dq = x # xs"
  obtains dq' k' where
    "pop_loop d timeout thread (dq, k) = Some (Done RT_EOK, Some x,
       dq_event dq (if length xs \<le> unat (dq_lwm dq) then EVENT_LWM else EVENT_POP), dq', k')"
    "dq_ok d (dq', k')" "dq_items dq' = xs" "dq_size dq' = dq_size dq" "dq_lwm dq' = dq_lwm dq"
    "tq k' (QPop d) = tq k (QPop d)"
    "tq k' (QPush d) = (if length xs \<le> unat (dq_lwm dq) then tl (tq k (QPush d)) else tq k (QPush d))"
    "\<forall>t ts. length xs \<le> unat (dq_lwm dq) \<longrightarrow> tq k (QPush d) = t # ts \<longrightarrow> th_error (threads k' t) = RT_EOK
       \<and> (thread_state k' t = RT_THREAD_READY \<or> thread_state k' t = RT_THREAD_RUNNING)"
proof -
  have k: "clock_ok k" "dq_wf dq" "waiters_clean (QPush d) k" "waiters_clean (QPop d) k"
    using s by (simp_all add: dq_ok_def)
  have ne: "\<not> dq_is_empty dq" using dq_flags(1) [OF k(2)] items by simp
  obtain dq' where dq': "dq_get dq = Some (x, dq')" "dq_wf dq'" "dq_items dq' = xs"
    "dq_size dq' = dq_size dq" "dq_lwm dq' = dq_lwm dq" "dq_notify dq' = dq_notify dq"
    by (rule dq_get_spec [OF k(2) items])
  have low: "rt_data_queue_len dq' \<le> dq_lwm dq' \<longleftrightarrow> length xs \<le> unat (dq_lwm dq)"
    using dq_len_count [OF dq'(2)] length_dq_items [of dq'] dq'(3,5) by (simp add: word_le_nat_alt)
  show ?thesis
  proof (cases "length xs \<le> unat (dq_lwm dq)")
    case False
    show ?thesis
      by (rule that [of dq' k]) (use False low ne dq' k in \<open>simp_all add: pop_loop_def dq_ok_def dq_event_def\<close>)
  next
    case True
    obtain k' where k': "dev_resume (QPush d) k = Some k'" "clock_ok k'" "ipc_frame k k'"
      "tq k' (QPush d) = tl (tq k (QPush d))" "\<forall>r. ipc_queue r \<longrightarrow> r \<noteq> QPush d \<longrightarrow> tq k' r = tq k r"
      "\<forall>u. th_error (threads k u) = RT_EOK \<longrightarrow> th_error (threads k' u) = RT_EOK"
      "\<forall>t ts. tq k (QPush d) = t # ts \<longrightarrow>
         thread_state k' t = RT_THREAD_READY \<or> thread_state k' t = RT_THREAD_RUNNING"
      by (rule dev_resume_spec [OF k(1) _ k(3)]) simp
    have "waiters_clean (QPush d) k'" by (rule waiters_cleanI [OF _ k(3) k'(6)]) (use k'(4) set_tl_subset in simp)
    moreover have "waiters_clean (QPop d) k'" by (rule waiters_cleanI [OF _ k(4) k'(6)]) (use k'(5) in simp)
    ultimately have ok: "dq_ok d (dq', k')" using k'(2) dq'(2) by (simp add: dq_ok_def)
    show ?thesis
    proof (rule that [of dq' k'])
      show "pop_loop d timeout thread (dq, k) = Some (Done RT_EOK, Some x,
         dq_event dq (if length xs \<le> unat (dq_lwm dq) then EVENT_LWM else EVENT_POP), dq', k')"
        using True low ne dq'(1,6) k'(1) by (simp add: pop_loop_def dq_event_def)
      show "\<forall>t ts. length xs \<le> unat (dq_lwm dq) \<longrightarrow> tq k (QPush d) = t # ts \<longrightarrow> th_error (threads k' t) = RT_EOK
         \<and> (thread_state k' t = RT_THREAD_READY \<or> thread_state k' t = RT_THREAD_RUNNING)"
        using k'(6,7) k(3) by (auto simp: waiters_clean_def)
    qed (use ok dq' k' True in simp_all)
  qed
qed

lemma dq_start:
  assumes "dq_ok d (dq, k)"
  shows "rt_data_queue_push d x 0 (dq, k) = push_loop d x 0 (rt_thread_self k) (dq, k)"
    "rt_data_queue_pop d 0 (dq, k) = pop_loop d 0 (rt_thread_self k) (dq, k)"
  using assms by (simp_all add: rt_data_queue_push_def rt_data_queue_pop_def dq_ok_def dq_wf_def
      rt_debug_scheduler_available_eq rt_assert_def)

text \<open>The calls with timeout 0 as the operations of a bounded buffer.\<close>

definition dq_try_push :: "oid \<Rightarrow> rt_data_item \<Rightarrow> dq_state \<Rightarrow> dq_state option" where
  "dq_try_push d x s = (case rt_data_queue_push d x 0 s of
     Some (Done ret, _, s') \<Rightarrow> if ret = RT_EOK then Some s' else None | _ \<Rightarrow> None)"

definition dq_try_pop :: "oid \<Rightarrow> dq_state \<Rightarrow> (rt_data_item \<times> dq_state) option" where
  "dq_try_pop d s = (case rt_data_queue_pop d 0 s of
     Some (Done ret, Some x, _, s') \<Rightarrow> if ret = RT_EOK then Some (x, s') else None | _ \<Rightarrow> None)"

interpretation data_queue: bounded_fifo "dq_ok d" "\<lambda>s. unat (dq_size (fst s))" "\<lambda>_ _. True"
  "\<lambda>s. dq_items (fst s)" "dq_try_push d" "dq_try_pop d" for d
proof
  fix s :: dq_state and x xs
  obtain dq k where sk: "s = (dq, k)" by (cases s)
  assume ok: "dq_ok d s"
  then have s: "dq_ok d (dq, k)" and wf: "dq_wf dq" by (simp_all add: sk dq_ok_def)
  note fl = dq_flags [OF wf]
  show "length (dq_items (fst s)) \<le> unat (dq_size (fst s))" using fl(3) by (simp add: sk)
  show "dq_try_push d x s = None" if "length (dq_items (fst s)) = unat (dq_size (fst s))"
    using that fl(2) by (simp add: sk dq_try_push_def dq_start [OF s] push_loop_def)
  show "dq_try_pop d s = None" if "dq_items (fst s) = []"
    using that fl(1) by (simp add: sk dq_try_pop_def dq_start [OF s] pop_loop_def)
  show "\<exists>s'. dq_try_push d x s = Some s' \<and> dq_ok d s' \<and> dq_items (fst s') = dq_items (fst s) @ [x]
      \<and> unat (dq_size (fst s')) = unat (dq_size (fst s)) \<and> (\<lambda>_. True) = (\<lambda>_. True)"
    if "length (dq_items (fst s)) < unat (dq_size (fst s))"
  proof -
    have "\<not> dq_is_full dq" using that fl(2) by (simp add: sk)
    from dq_push_room [OF s this, of x 0 "rt_thread_self k"] obtain dq' k' where
      "push_loop d x 0 (rt_thread_self k) (dq, k)
        = Some (Done RT_EOK, if tq k (QPop d) = [] then dq_event dq EVENT_PUSH else None, dq', k')"
      "dq_ok d (dq', k')" "dq_items dq' = dq_items dq @ [x]" "dq_size dq' = dq_size dq" by metis
    then show ?thesis by (simp add: sk dq_try_push_def dq_start [OF s])
  qed
  show "\<exists>s'. dq_try_pop d s = Some (x, s') \<and> dq_ok d s' \<and> dq_items (fst s') = xs
      \<and> unat (dq_size (fst s')) = unat (dq_size (fst s)) \<and> (\<lambda>_. True) = (\<lambda>_. True)"
    if "dq_items (fst s) = x # xs"
  proof -
    from that have "dq_items dq = x # xs" by (simp add: sk)
    from dq_pop_item [OF s this, of 0 "rt_thread_self k"] obtain dq' k' e where
      "pop_loop d 0 (rt_thread_self k) (dq, k) = Some (Done RT_EOK, Some x, e, dq', k')"
      "dq_ok d (dq', k')" "dq_items dq' = xs" "dq_size dq' = dq_size dq" by metis
    then show ?thesis by (simp add: sk dq_try_pop_def dq_start [OF s])
  qed
qed

lemma dq_block_ok:
  assumes s: "dq_ok d (dq, k)" and t: "in_thread_context k t" and tm: "time_ok timeout"
    and q: "q = QPush d \<or> q = QPop d"
  obtains k' where "dev_block q t timeout k = Some k'" "dq_ok d (dq, k')" "tq k' q = tq k q @ [t]"
    "stat_suspended (th_stat (threads k' t))" "th_error (threads k' t) = RT_EOK"
    "0 < timeout \<longrightarrow> ThreadTimer t \<in> set (timer_list k')
       \<and> int (timer_key (timers k') (rt_tick k') (ThreadTimer t)) = timeout"
proof -
  have k: "dq_wf dq" "waiters_clean (QPush d) k" "waiters_clean (QPop d) k" using s by (simp_all add: dq_ok_def)
  have iq: "ipc_queue q" and w: "waiters_clean q k" using q k by auto
  obtain k' where k': "dev_block q t timeout k = Some k'" "clock_ok k'" "ipc_frame k k'"
    "stat_suspended (th_stat (threads k' t))" "th_error (threads k' t) = RT_EOK"
    "tq k' q = tq k q @ [t]" "\<forall>r. ipc_queue r \<longrightarrow> r \<noteq> q \<longrightarrow> tq k' r = tq k r"
    "waiters_clean q k'"
    "0 < timeout \<longrightarrow> ThreadTimer t \<in> set (timer_list k')
       \<and> int (timer_key (timers k') (rt_tick k') (ThreadTimer t)) = timeout"
    "\<forall>u. u \<noteq> t \<longrightarrow> stat_suspended (th_stat (threads k u)) \<longrightarrow> threads k' u = threads k u"
    by (rule dev_block_spec [OF t tm iq w])
  have "clock_ok k" using t by (simp add: in_thread_context_def)
  have "waiters_clean r k'" if r: "r = QPush d \<or> r = QPop d" for r
  proof (cases "r = q")
    case False
    have iqr: "ipc_queue r" using r by auto
    have "th_error (threads k' u) = RT_EOK" if "u \<in> set (tq k r)" for u
    proof (cases "u = t")
      case False
      have "stat_suspended (th_stat (threads k u))"
        using waiting_suspended [OF _ iqr that] clock_ok_kernel [OF \<open>clock_ok k\<close>] by blast
      then show ?thesis using k'(10) False that r k(2,3) by (auto simp: waiters_clean_def)
    qed (simp add: k'(5))
    then show ?thesis using k'(7) iqr False by (simp add: waiters_clean_def)
  qed (simp add: k'(8))
  then have "dq_ok d (dq, k')" using k'(2) k(1) by (simp add: dq_ok_def)
  then show ?thesis using that k' by blast
qed

lemma dq_push_spec:
  assumes s: "dq_ok d (dq, k)" and t: "in_thread_context k t" and tm: "time_ok timeout"
  shows "if length (dq_items dq) = unat (dq_size dq) then
      (if timeout = 0 then rt_data_queue_push d x timeout (dq, k) = Some (Done (- RT_ETIMEOUT), None, dq, k)
       else \<exists>k'. rt_data_queue_push d x timeout (dq, k) = Some (Blocked, None, dq, k') \<and> dq_ok d (dq, k')
         \<and> tq k' (QPush d) = tq k (QPush d) @ [t] \<and> stat_suspended (th_stat (threads k' t)))
    else \<exists>dq' k' e. rt_data_queue_push d x timeout (dq, k) = Some (Done RT_EOK, e, dq', k') \<and> dq_ok d (dq', k')
       \<and> dq_items dq' = dq_items dq @ [x]
       \<and> (case tq k (QPop d) of
            [] \<Rightarrow> k' = k \<and> e = dq_event dq EVENT_PUSH
          | u # us \<Rightarrow> tq k' (QPop d) = us \<and> e = None
              \<and> (\<forall>timeout'. \<exists>dq2 k2 e2. pop_resume d timeout' u (dq', k')
                   = Some (Done RT_EOK, Some (hd (dq_items dq')), e2, dq2, k2) \<and> dq_items dq2 = tl (dq_items dq')))"
proof -
  have wf: "dq_wf dq" "clock_ok k" using s by (simp_all add: dq_ok_def)
  have start: "rt_data_queue_push d x timeout (dq, k) = push_loop d x timeout (Some t) (dq, k)"
    using wf t in_thread_context_avail [OF t]
    by (simp add: rt_data_queue_push_def dq_wf_def rt_assert_def in_thread_context_def rt_thread_self_def)
  show ?thesis
  proof (cases "length (dq_items dq) = unat (dq_size dq)")
    case True
    obtain k' where "dev_block (QPush d) t timeout k = Some k'" "dq_ok d (dq, k')" "tq k' (QPush d) = tq k (QPush d) @ [t]"
      "stat_suspended (th_stat (threads k' t))" "th_error (threads k' t) = RT_EOK"
      "0 < timeout \<longrightarrow> ThreadTimer t \<in> set (timer_list k')
         \<and> int (timer_key (timers k') (rt_tick k') (ThreadTimer t)) = timeout"
      by (rule dq_block_ok [OF s t tm, of "QPush d"]) simp
    then show ?thesis using True dq_flags(2) [OF wf(1)] unfolding start by (simp add: push_loop_def)
  next
    case False
    then have nf: "\<not> dq_is_full dq" using dq_flags(2) [OF wf(1)] by simp
    obtain dq' k' where p: "push_loop d x timeout (Some t) (dq, k)
      = Some (Done RT_EOK, if tq k (QPop d) = [] then dq_event dq EVENT_PUSH else None, dq', k')"
      "dq_ok d (dq', k')" "dq_items dq' = dq_items dq @ [x]" "dq_size dq' = dq_size dq" "dq_lwm dq' = dq_lwm dq"
      "tq k' (QPop d) = tl (tq k (QPop d))" "tq k' (QPush d) = tq k (QPush d)"
      "\<forall>t ts. tq k (QPop d) = t # ts \<longrightarrow> th_error (threads k' t) = RT_EOK
         \<and> (thread_state k' t = RT_THREAD_READY \<or> thread_state k' t = RT_THREAD_RUNNING)"
      by (rule dq_push_room [OF s nf])
    obtain y ys where y: "dq_items dq' = y # ys" using p(3) by (metis append_is_Nil_conv list.exhaust not_Cons_self2)
    have "\<exists>dq2 k2 e2. pop_resume d timeout' u (dq', k') = Some (Done RT_EOK, Some y, e2, dq2, k2) \<and> dq_items dq2 = ys"
      if "tq k (QPop d) = u # us" for timeout' u us
    proof -
      have "th_error (threads k' u) = RT_EOK" using p(8) that by blast
      then have "pop_resume d timeout' u (dq', k') = pop_loop d timeout' (Some u) (dq', k')" by (simp add: pop_resume_def)
      moreover obtain dq2 k2 e2 where "pop_loop d timeout' (Some u) (dq', k') = Some (Done RT_EOK, Some y, e2, dq2, k2)"
        "dq_items dq2 = ys"
        by (rule dq_pop_item [OF p(2) y, of timeout' "Some u"])
      ultimately show ?thesis by simp
    qed
    moreover have "k' = k" if "tq k (QPop d) = []"
      using p(1) nf that by (auto simp: push_loop_def split: bind_splits)
    moreover have "hd (dq_items dq @ [x]) = y" "tl (dq_items dq @ [x]) = ys" using y p(3) by simp_all
    ultimately show ?thesis
      using False p(1-3,6) by (cases "tq k (QPop d)") (simp_all add: start)
  qed
qed

lemma dq_pop_spec:
  assumes s: "dq_ok d (dq, k)" and t: "in_thread_context k t" and tm: "time_ok timeout"
  shows "case dq_items dq of
      [] \<Rightarrow> (if timeout = 0 then rt_data_queue_pop d timeout (dq, k) = Some (Done (- RT_ETIMEOUT), None, None, dq, k)
       else \<exists>k'. rt_data_queue_pop d timeout (dq, k) = Some (Blocked, None, None, dq, k') \<and> dq_ok d (dq, k')
         \<and> tq k' (QPop d) = tq k (QPop d) @ [t] \<and> stat_suspended (th_stat (threads k' t)))
    | x # xs \<Rightarrow> \<exists>dq' k'. rt_data_queue_pop d timeout (dq, k) = Some (Done RT_EOK, Some x,
          dq_event dq (if length xs \<le> unat (dq_lwm dq) then EVENT_LWM else EVENT_POP), dq', k')
       \<and> dq_ok d (dq', k') \<and> dq_items dq' = xs
       \<and> (if length xs \<le> unat (dq_lwm dq) then tq k' (QPush d) = tl (tq k (QPush d))
            \<and> (\<forall>u us y timeout'. tq k (QPush d) = u # us \<longrightarrow> (\<exists>dq2 k2 e2.
                 push_resume d y timeout' u (dq', k') = Some (Done RT_EOK, e2, dq2, k2) \<and> dq_items dq2 = xs @ [y]))
          else k' = k)"
proof -
  have wf: "dq_wf dq" "clock_ok k" using s by (simp_all add: dq_ok_def)
  have start: "rt_data_queue_pop d timeout (dq, k) = pop_loop d timeout (Some t) (dq, k)"
    using wf t in_thread_context_avail [OF t]
    by (simp add: rt_data_queue_pop_def dq_wf_def rt_assert_def in_thread_context_def rt_thread_self_def)
  show ?thesis
  proof (cases "dq_items dq")
    case Nil
    obtain k' where "dev_block (QPop d) t timeout k = Some k'" "dq_ok d (dq, k')" "tq k' (QPop d) = tq k (QPop d) @ [t]"
      "stat_suspended (th_stat (threads k' t))" "th_error (threads k' t) = RT_EOK"
      "0 < timeout \<longrightarrow> ThreadTimer t \<in> set (timer_list k')
         \<and> int (timer_key (timers k') (rt_tick k') (ThreadTimer t)) = timeout"
      by (rule dq_block_ok [OF s t tm, of "QPop d"]) simp
    then show ?thesis using Nil dq_flags(1) [OF wf(1)] unfolding start by (simp add: pop_loop_def)
  next
    case (Cons x xs)
    obtain dq' k' where p: "pop_loop d timeout (Some t) (dq, k) = Some (Done RT_EOK, Some x,
         dq_event dq (if length xs \<le> unat (dq_lwm dq) then EVENT_LWM else EVENT_POP), dq', k')"
      "dq_ok d (dq', k')" "dq_items dq' = xs" "dq_size dq' = dq_size dq" "dq_lwm dq' = dq_lwm dq"
      "tq k' (QPop d) = tq k (QPop d)"
      "tq k' (QPush d) = (if length xs \<le> unat (dq_lwm dq) then tl (tq k (QPush d)) else tq k (QPush d))"
      "\<forall>t ts. length xs \<le> unat (dq_lwm dq) \<longrightarrow> tq k (QPush d) = t # ts \<longrightarrow> th_error (threads k' t) = RT_EOK
         \<and> (thread_state k' t = RT_THREAD_READY \<or> thread_state k' t = RT_THREAD_RUNNING)"
      by (rule dq_pop_item [OF s Cons])
    have wf': "dq_wf dq'" using p(2) by (simp add: dq_ok_def)
    have nf: "\<not> dq_is_full dq'" using dq_flags(2) [OF wf'] dq_flags(3) [OF wf(1)] p(3,4) Cons by simp
    have r: "\<exists>dq2 k2 e2. push_resume d y timeout' u (dq', k') = Some (Done RT_EOK, e2, dq2, k2) \<and> dq_items dq2 = xs @ [y]"
      if "length xs \<le> unat (dq_lwm dq)" "tq k (QPush d) = u # us" for u us y timeout'
    proof -
      have "th_error (threads k' u) = RT_EOK" using p(8) that by blast
      then have "push_resume d y timeout' u (dq', k') = push_loop d y timeout' (Some u) (dq', k')"
        by (simp add: push_resume_def)
      moreover obtain dq2 k2 e2 where "push_loop d y timeout' (Some u) (dq', k') = Some (Done RT_EOK, e2, dq2, k2)"
        "dq_items dq2 = dq_items dq' @ [y]"
        by (rule dq_push_room [OF p(2) nf, of y timeout' "Some u"])
      ultimately show ?thesis using p(3) by simp
    qed
    have k': "k' = k" if "\<not> length xs \<le> unat (dq_lwm dq)"
    proof -
      obtain dq1 where g: "dq_get dq = Some (x, dq1)" "dq_wf dq1" "dq_items dq1 = xs"
        "dq_size dq1 = dq_size dq" "dq_lwm dq1 = dq_lwm dq" "dq_notify dq1 = dq_notify dq"
        by (rule dq_get_spec [OF wf(1) Cons])
      have "\<not> rt_data_queue_len dq1 \<le> dq_lwm dq1"
        using that g(3,5) dq_len_count [OF g(2)] length_dq_items [of dq1] by (simp add: word_le_nat_alt)
      moreover have "\<not> dq_is_empty dq" using dq_flags(1) [OF wf(1)] Cons by simp
      ultimately show ?thesis using p(1) g(1) by (simp add: pop_loop_def)
    qed
    show ?thesis
      unfolding Cons list.case start
      by (intro exI [of _ dq'] exI [of _ k'] conjI p(1-3)) (use p(7) r k' in simp)
  qed
qed

text \<open>
  Runs of calls by any threads, with any time limits: a call, and its continuation in a thread that has
  waited and runs again, which sees the error \<open>err\<close> that the thread was woken with; and everything else the
  system does, which leaves the queue and the error of the threads in its lists alone.
\<close>

datatype dq_call =
    Push rt_data_item int outcome
  | Push_again rt_err_t rt_data_item int outcome
  | Pop int outcome "rt_data_item option"
  | Pop_again rt_err_t int outcome "rt_data_item option"
  | Other

inductive dq_step :: "oid \<Rightarrow> dq_state \<Rightarrow> dq_call \<Rightarrow> dq_state \<Rightarrow> bool" for d where
  push: "in_thread_context k t \<Longrightarrow> time_ok timeout
    \<Longrightarrow> rt_data_queue_push d x timeout (dq, k) = Some (r, e, s')
    \<Longrightarrow> dq_step d (dq, k) (Push x timeout r) s'"
| push_again: "in_thread_context k t \<Longrightarrow> time_ok timeout
    \<Longrightarrow> push_resume d x timeout t (dq, k) = Some (r, e, s')
    \<Longrightarrow> dq_step d (dq, k) (Push_again (th_error (threads k t)) x timeout r) s'"
| pop: "in_thread_context k t \<Longrightarrow> time_ok timeout
    \<Longrightarrow> rt_data_queue_pop d timeout (dq, k) = Some (r, item, e, s')
    \<Longrightarrow> dq_step d (dq, k) (Pop timeout r item) s'"
| pop_again: "in_thread_context k t \<Longrightarrow> time_ok timeout
    \<Longrightarrow> pop_resume d timeout t (dq, k) = Some (r, item, e, s')
    \<Longrightarrow> dq_step d (dq, k) (Pop_again (th_error (threads k t)) timeout r item) s'"
| other: "clock_ok k' \<Longrightarrow> waiters_clean (QPush d) k' \<Longrightarrow> waiters_clean (QPop d) k'
    \<Longrightarrow> dq_step d (dq, k) Other (dq, k')"

inductive dq_run :: "oid \<Rightarrow> dq_state \<Rightarrow> dq_call list \<Rightarrow> dq_state \<Rightarrow> bool" for d where
  none: "dq_run d s [] s"
| more: "dq_step d s c s1 \<Longrightarrow> dq_run d s1 cs s2 \<Longrightarrow> dq_run d s (c # cs) s2"

text \<open>
  The queue that the calls implement, with room for \<open>n\<close> items: what each call must return, and the items
  after it. A call that cannot go on returns at once without a time limit and waits with one.
\<close>

definition dq_refusal :: "int \<Rightarrow> outcome" where
  "dq_refusal timeout = (if timeout = 0 then Done (- RT_ETIMEOUT) else Blocked)"

definition dq_pushed :: "nat \<Rightarrow> rt_data_item \<Rightarrow> int \<Rightarrow> outcome \<Rightarrow> rt_data_item list \<Rightarrow> rt_data_item list option" where
  "dq_pushed n x timeout r xs =
     (if length xs < n then (if r = Done RT_EOK then Some (xs @ [x]) else None)
      else if r = dq_refusal timeout then Some xs else None)"

definition dq_popped ::
  "int \<Rightarrow> outcome \<Rightarrow> rt_data_item option \<Rightarrow> rt_data_item list \<Rightarrow> rt_data_item list option" where
  "dq_popped timeout r item xs = (case xs of
       [] \<Rightarrow> if r = dq_refusal timeout \<and> item = None then Some [] else None
     | y # ys \<Rightarrow> if r = Done RT_EOK \<and> item = Some y then Some ys else None)"

fun dq_spec :: "nat \<Rightarrow> dq_call \<Rightarrow> rt_data_item list \<Rightarrow> rt_data_item list option" where
  "dq_spec n (Push x timeout r) xs = dq_pushed n x timeout r xs"
| "dq_spec n (Push_again err x timeout r) xs =
     (if err = RT_EOK then dq_pushed n x timeout r xs else if r = Done err then Some xs else None)"
| "dq_spec n (Pop timeout r item) xs = dq_popped timeout r item xs"
| "dq_spec n (Pop_again err timeout r item) xs =
     (if err = RT_EOK then dq_popped timeout r item xs
      else if r = Done err \<and> item = None then Some xs else None)"
| "dq_spec n Other xs = Some xs"

fun dq_spec_run :: "nat \<Rightarrow> dq_call list \<Rightarrow> rt_data_item list \<Rightarrow> rt_data_item list option" where
  "dq_spec_run n [] xs = Some xs"
| "dq_spec_run n (c # cs) xs = do { ys \<leftarrow> dq_spec n c xs; dq_spec_run n cs ys }"

lemma dq_push_loop_call:
  assumes s: "dq_ok d (dq, k)" and t: "in_thread_context k t" and tm: "time_ok timeout"
  shows "\<exists>r e dq' k'. push_loop d x timeout (Some t) (dq, k) = Some (r, e, dq', k') \<and> dq_ok d (dq', k')
    \<and> dq_size dq' = dq_size dq
    \<and> dq_pushed (unat (dq_size dq)) x timeout r (dq_items dq) = Some (dq_items dq')"
proof -
  have wf: "dq_wf dq" using s by (simp add: dq_ok_def)
  show ?thesis
  proof (cases "dq_is_full dq")
    case True
    then have full: "\<not> length (dq_items dq) < unat (dq_size dq)" using dq_flags(2) [OF wf] by simp
    obtain k' where "dev_block (QPush d) t timeout k = Some k'" "dq_ok d (dq, k')"
      by (rule dq_block_ok [OF s t tm, of "QPush d"]) simp
    then show ?thesis using True full s by (simp add: push_loop_def dq_refusal_def dq_pushed_def)
  next
    case False
    then have room: "length (dq_items dq) < unat (dq_size dq)"
      using dq_flags(2,3) [OF wf] by (simp add: order.not_eq_order_implies_strict)
    obtain dq' k' where "push_loop d x timeout (Some t) (dq, k)
        = Some (Done RT_EOK, if tq k (QPop d) = [] then dq_event dq EVENT_PUSH else None, dq', k')"
      "dq_ok d (dq', k')" "dq_items dq' = dq_items dq @ [x]" "dq_size dq' = dq_size dq"
      by (rule dq_push_room [OF s False])
    then show ?thesis using room by (simp add: dq_pushed_def)
  qed
qed

lemma dq_pop_loop_call:
  assumes s: "dq_ok d (dq, k)" and t: "in_thread_context k t" and tm: "time_ok timeout"
  shows "\<exists>r item e dq' k'. pop_loop d timeout (Some t) (dq, k) = Some (r, item, e, dq', k') \<and> dq_ok d (dq', k')
    \<and> dq_size dq' = dq_size dq
    \<and> dq_popped timeout r item (dq_items dq) = Some (dq_items dq')"
proof (cases "dq_items dq")
  case Nil
  have wf: "dq_wf dq" using s by (simp add: dq_ok_def)
  obtain k' where "dev_block (QPop d) t timeout k = Some k'" "dq_ok d (dq, k')"
    by (rule dq_block_ok [OF s t tm, of "QPop d"]) simp
  then show ?thesis using Nil s dq_flags(1) [OF wf] by (simp add: pop_loop_def dq_refusal_def dq_popped_def)
next
  case (Cons x xs)
  obtain dq' k' where "pop_loop d timeout (Some t) (dq, k) = Some (Done RT_EOK, Some x,
       dq_event dq (if length xs \<le> unat (dq_lwm dq) then EVENT_LWM else EVENT_POP), dq', k')"
    "dq_ok d (dq', k')" "dq_items dq' = xs" "dq_size dq' = dq_size dq"
    by (rule dq_pop_item [OF s Cons])
  then show ?thesis using Cons by (simp add: dq_popped_def)
qed

lemma dq_calls:
  assumes s: "dq_ok d (dq, k)" and t: "in_thread_context k t"
  shows "rt_data_queue_push d x timeout (dq, k) = push_loop d x timeout (Some t) (dq, k)"
    "rt_data_queue_pop d timeout (dq, k) = pop_loop d timeout (Some t) (dq, k)"
  using s t in_thread_context_avail [OF t]
  by (simp_all add: rt_data_queue_push_def rt_data_queue_pop_def dq_ok_def dq_wf_def rt_assert_def
      in_thread_context_def rt_thread_self_def)

lemma dq_step_spec:
  assumes st: "dq_step d (dq, k) c s'" and s: "dq_ok d (dq, k)"
  shows "dq_ok d s' \<and> dq_size (fst s') = dq_size dq
    \<and> dq_spec (unat (dq_size dq)) c (dq_items dq) = Some (dq_items (fst s'))"
  using st
proof (cases rule: dq_step.cases)
  case (push t timeout x r e)
  then show ?thesis using dq_push_loop_call [OF s push(2,3), of x] dq_calls(1) [OF s push(2)] by auto
next
  case (push_again t timeout x r e)
  then show ?thesis
    using dq_push_loop_call [OF s push_again(2,3), of x] s
    by (cases "th_error (threads k t) = RT_EOK") (auto simp: push_resume_def)
next
  case (pop t timeout r item e)
  then show ?thesis using dq_pop_loop_call [OF s pop(2,3)] dq_calls(2) [OF s pop(2)] by auto
next
  case (pop_again t timeout r item e)
  then show ?thesis
    using dq_pop_loop_call [OF s pop_again(2,3)] s
    by (cases "th_error (threads k t) = RT_EOK") (auto simp: pop_resume_def)
next
  case (other k')
  then show ?thesis using s by (simp add: dq_ok_def)
qed

lemma dq_run_spec:
  assumes "dq_run d s cs s'" "dq_ok d s"
  shows "dq_ok d s' \<and> dq_size (fst s') = dq_size (fst s)
    \<and> dq_spec_run (unat (dq_size (fst s))) cs (dq_items (fst s)) = Some (dq_items (fst s'))"
  using assms
proof (induction rule: dq_run.induct)
  case (more s c s1 cs s2)
  then show ?case
    using dq_step_spec [of d "fst s" "snd s" c s1] by simp
qed simp

text \<open>
  C14 (data queue order). Whatever calls the threads make, with or without time limits, and whatever else
  happens between them: every call returns what a bounded first-in first-out queue gives. A push is accepted
  while there is room and its item goes behind the others; on a full queue it returns \<open>-RT_ETIMEOUT\<close> at once
  when its timeout is 0 and waits otherwise. A pop gives the oldest item; on an empty queue it returns
  \<open>-RT_ETIMEOUT\<close> or waits. A thread that has waited and was woken with an error returns that error and
  changes nothing, one woken without starts over. This holds over the wrap-around of the indices of 15 bits,
  and no call of a thread fails an assertion.
\<close>

theorem dq_fifo_order:
  assumes "dq_ok d s" "dq_run d s cs s'"
  shows "dq_spec_run (unat (dq_size (fst s))) cs (dq_items (fst s)) = Some (dq_items (fst s'))
    \<and> dq_ok d s'
    \<and> (\<forall>t x timeout. in_thread_context (snd s') t \<longrightarrow> time_ok timeout \<longrightarrow>
         rt_data_queue_push d x timeout s' \<noteq> None \<and> rt_data_queue_pop d timeout s' \<noteq> None)"
proof -
  have r: "dq_ok d s'" "dq_spec_run (unat (dq_size (fst s))) cs (dq_items (fst s)) = Some (dq_items (fst s'))"
    using dq_run_spec [OF assms(2,1)] by simp_all
  obtain dq k where sk: "s' = (dq, k)" by (cases s')
  have "rt_data_queue_push d x timeout s' \<noteq> None \<and> rt_data_queue_pop d timeout s' \<noteq> None"
    if "in_thread_context (snd s') t" "time_ok timeout" for t x timeout
    using dq_push_loop_call [of d dq k t timeout x] dq_pop_loop_call [of d dq k t timeout]
      dq_calls [of d dq k t] that r(1) unfolding sk by auto
  then show ?thesis using r by blast
qed

text \<open>
  On a full queue a push without timeout fails, and one with a timeout waits behind
  the other pushing threads. Otherwise the item is the last of the queue; a thread that waits for an item is
  woken and its pop then gets the oldest item, else the push is notified.
\<close>

theorem dq_push_correct:
  assumes "dq_ok d (dq, k)" "in_thread_context k t" "time_ok timeout"
  shows "if length (dq_items dq) = unat (dq_size dq) then
      (if timeout = 0 then rt_data_queue_push d x timeout (dq, k) = Some (Done (- RT_ETIMEOUT), None, dq, k)
       else \<exists>k'. rt_data_queue_push d x timeout (dq, k) = Some (Blocked, None, dq, k') \<and> dq_ok d (dq, k')
         \<and> tq k' (QPush d) = tq k (QPush d) @ [t] \<and> stat_suspended (th_stat (threads k' t)))
    else \<exists>dq' k' e. rt_data_queue_push d x timeout (dq, k) = Some (Done RT_EOK, e, dq', k') \<and> dq_ok d (dq', k')
       \<and> dq_items dq' = dq_items dq @ [x]
       \<and> (case tq k (QPop d) of
            [] \<Rightarrow> k' = k \<and> e = dq_event dq EVENT_PUSH
          | u # us \<Rightarrow> tq k' (QPop d) = us \<and> e = None
              \<and> (\<forall>timeout'. \<exists>dq2 k2 e2. pop_resume d timeout' u (dq', k')
                   = Some (Done RT_EOK, Some (hd (dq_items dq')), e2, dq2, k2) \<and> dq_items dq2 = tl (dq_items dq')))"
  by (rule dq_push_spec [OF assms])

text \<open>
  A pop gives the oldest item; when at most the low-water mark is left, that is
  notified, the first of the threads that wait to push is woken, and its push then appends its item. On an
  empty queue a pop without timeout fails and one with a timeout waits.
\<close>

theorem dq_pop_correct:
  assumes "dq_ok d (dq, k)" "in_thread_context k t" "time_ok timeout"
  shows "case dq_items dq of
      [] \<Rightarrow> (if timeout = 0 then rt_data_queue_pop d timeout (dq, k) = Some (Done (- RT_ETIMEOUT), None, None, dq, k)
       else \<exists>k'. rt_data_queue_pop d timeout (dq, k) = Some (Blocked, None, None, dq, k') \<and> dq_ok d (dq, k')
         \<and> tq k' (QPop d) = tq k (QPop d) @ [t] \<and> stat_suspended (th_stat (threads k' t)))
    | x # xs \<Rightarrow> \<exists>dq' k'. rt_data_queue_pop d timeout (dq, k) = Some (Done RT_EOK, Some x,
          dq_event dq (if length xs \<le> unat (dq_lwm dq) then EVENT_LWM else EVENT_POP), dq', k')
       \<and> dq_ok d (dq', k') \<and> dq_items dq' = xs
       \<and> (if length xs \<le> unat (dq_lwm dq) then tq k' (QPush d) = tl (tq k (QPush d))
            \<and> (\<forall>u us y timeout'. tq k (QPush d) = u # us \<longrightarrow> (\<exists>dq2 k2 e2.
                 push_resume d y timeout' u (dq', k') = Some (Done RT_EOK, e2, dq2, k2) \<and> dq_items dq2 = xs @ [y]))
          else k' = k)"
  by (rule dq_pop_spec [OF assms])

definition demo_item :: "u32 \<Rightarrow> rt_data_item" where
  "demo_item n = \<lparr>data_ptr = n, data_size = 4\<rparr>"

definition demo_dq :: rt_data_queue where
  "demo_dq = \<lparr>dq_magic = DATAQUEUE_MAGIC, dq_size = 2, dq_lwm = 1, dq_get_index = 1, dq_is_empty = False,
     dq_put_index = 0, dq_is_full = False, dq_queue = [demo_item 8, demo_item 9], dq_notify = True\<rparr>"

lemma demo_dq_ok: "dq_ok 0 (demo_dq, demo_kernel)" "dq_items demo_dq = [demo_item 9]" "dq_count demo_dq = 1"
  "unat (dq_size demo_dq) = 2" "unat (dq_lwm demo_dq) = 1" "dq_event demo_dq e = Some e"
  using demo_clock_ok
  by (simp_all add: dq_ok_def dq_wf_def demo_dq_def waiters_clean_def dq_items_def dq_count_def ring_items_def dq_event_def)

theorem dq_fifo_order_witness:
  "\<exists>s'. dq_run 0 (demo_dq, demo_kernel) [Push (demo_item 5) 0 (Done RT_EOK), Push (demo_item 6) 0 (Done (- RT_ETIMEOUT))] s'
     \<and> dq_items (fst s') = [demo_item 9, demo_item 5]"
proof -
  have tm: "time_ok 0" by (simp add: time_ok_def)
  obtain dq1 e where s1: "rt_data_queue_push 0 (demo_item 5) 0 (demo_dq, demo_kernel) = Some (Done RT_EOK, e, dq1, demo_kernel)"
    "dq_ok 0 (dq1, demo_kernel)" "dq_items dq1 = [demo_item 9, demo_item 5]"
    using dq_push_spec [OF demo_dq_ok(1) demo_thread_context tm, of "demo_item 5"] demo_dq_ok(2-4) by auto
  have st1: "dq_step 0 (demo_dq, demo_kernel) (Push (demo_item 5) 0 (Done RT_EOK)) (dq1, demo_kernel)"
    by (rule dq_step.push [OF demo_thread_context tm s1(1)])
  have "dq_size dq1 = dq_size demo_dq" using dq_step_spec [OF st1 demo_dq_ok(1)] by simp
  then have "rt_data_queue_push 0 (demo_item 6) 0 (dq1, demo_kernel)
      = Some (Done (- RT_ETIMEOUT), None, dq1, demo_kernel)"
    using dq_push_spec [OF s1(2) demo_thread_context tm, of "demo_item 6"] s1(3) demo_dq_ok(4) by simp
  from dq_step.push [OF demo_thread_context tm this]
  have run: "dq_run 0 (demo_dq, demo_kernel)
      [Push (demo_item 5) 0 (Done RT_EOK), Push (demo_item 6) 0 (Done (- RT_ETIMEOUT))] (dq1, demo_kernel)"
    using dq_run.more [OF st1 dq_run.more [OF _ dq_run.none]] by blast
  show ?thesis
    using dq_fifo_order [OF demo_dq_ok(1) run] run demo_dq_ok(2,4) by (auto simp: dq_refusal_def dq_pushed_def)
qed

theorem dq_push_correct_witness:
  "\<exists>dq' e. rt_data_queue_push 0 (demo_item 5) 0 (demo_dq, demo_kernel) = Some (Done RT_EOK, e, dq', demo_kernel)
     \<and> dq_items dq' = [demo_item 9, demo_item 5]"
  using dq_push_correct [OF demo_dq_ok(1) demo_thread_context, of 0 "demo_item 5"] demo_dq_ok(2-4)
  by (auto simp: time_ok_def)

theorem dq_pop_correct_witness:
  "\<exists>dq' k'. rt_data_queue_pop 0 0 (demo_dq, demo_kernel) = Some (Done RT_EOK, Some (demo_item 9), Some EVENT_LWM, dq', k')
     \<and> dq_items dq' = []"
  using dq_pop_correct [OF demo_dq_ok(1) demo_thread_context, of 0] demo_dq_ok(2-6)
  by (auto simp: time_ok_def)


text \<open>
  The size has 16 bits and the indices 15: an index never equals a size above \<open>2 ^ 15\<close>, so that such a queue is
  full with \<open>2 ^ 15\<close> items, while its length is then computed from the size.
\<close>

lemma dq_oversize:
  "dq_size dq = 0x9000 \<Longrightarrow> dq_next dq 0x7fff = 0"
  "dq_size dq = 0x9000 \<Longrightarrow> \<not> dq_is_empty dq \<Longrightarrow> dq_get_index dq = 0 \<Longrightarrow> dq_put_index dq = 0 \<Longrightarrow>
    unat (rt_data_queue_len dq) = 0x9000"
  by (simp_all add: dq_next_def rt_data_queue_len_def)

end
