(* ===== verification/Drv_WorkQueue.thy ===== *)
theory Drv_WorkQueue
  imports Drv_Completion Thread_Life
begin

text \<open>
  Work queues (\<open>components/drivers/ipc/workqueue.c\<close>): items of work that a thread of the queue carries
  out one after the other, at once or after a delay. An item is named by a number, which also names its
  timer; its list node is in the list of pending or in that of delayed work, or in none. The functions of
  the items are not modelled: the thread of the queue is split into fetching an item and finishing it.
\<close>

abbreviation (input) RT_WORK_STATE_PENDING :: u16 where "RT_WORK_STATE_PENDING \<equiv> 1"
abbreviation (input) RT_WORK_STATE_SUBMITTING :: u16 where "RT_WORK_STATE_SUBMITTING \<equiv> 2"

text \<open>The number of \<open>_delayed_work_timeout_handler\<close> among the timeout functions.\<close>

abbreviation (input) delayed_work_handler :: nat where "delayed_work_handler \<equiv> 100"

record rt_work =
  wk_flags :: u16
  wk_workqueue :: "oid option"

record rt_workqueue =
  work_list :: "oid list"
  delayed_list :: "oid list"
  work_current :: "oid option"
  wq_sem :: oid
  work_thread :: tid
  works :: "oid \<Rightarrow> rt_work"

type_synonym wq_state = "rt_workqueue \<times> kernel"

subsection \<open>Operations\<close>

definition upd_work :: "oid \<Rightarrow> (rt_work \<Rightarrow> rt_work) \<Rightarrow> rt_workqueue \<Rightarrow> rt_workqueue" where
  "upd_work w f q = q\<lparr>works := (works q)(w := f (works q w))\<rparr>"

definition set_work_flag :: "u16 \<Rightarrow> oid \<Rightarrow> rt_workqueue \<Rightarrow> rt_workqueue" where
  "set_work_flag b w = upd_work w (wk_flags_update (\<lambda>f. f OR b))"

definition clear_work_flag :: "u16 \<Rightarrow> oid \<Rightarrow> rt_workqueue \<Rightarrow> rt_workqueue" where
  "clear_work_flag b w = upd_work w (wk_flags_update (\<lambda>f. f AND NOT b))"

definition work_flag :: "u16 \<Rightarrow> oid \<Rightarrow> rt_workqueue \<Rightarrow> bool" where
  "work_flag b w q = (wk_flags (works q w) AND b \<noteq> 0)"

definition work_unlink :: "oid \<Rightarrow> rt_workqueue \<Rightarrow> rt_workqueue" where
  "work_unlink w q = q\<lparr>work_list := removeAll w (work_list q), delayed_list := removeAll w (delayed_list q)\<rparr>"

definition rt_work_init :: "oid \<Rightarrow> rt_workqueue \<Rightarrow> rt_workqueue" where
  "rt_work_init w q = upd_work w (\<lambda>_. \<lparr>wk_flags = 0, wk_workqueue = None\<rparr>) q"

partial_function (option) work_completion_loop :: "oid \<Rightarrow> kernel \<Rightarrow> (rt_err_t \<times> kernel) option" where
  "work_completion_loop s k = do {
     (out, k1) \<leftarrow> rt_sem_trytake s k;
     (if out = Done (- RT_ETIMEOUT) then do {
        (_, k2) \<leftarrow> rt_sem_release s k1;
        work_completion_loop s k2
      }
      else if out = Done RT_EOK then Some (RT_EOK, k1)
      else Some (- RT_ERROR, k1))
   }"

definition workqueue_work_completion :: "oid \<Rightarrow> kernel \<Rightarrow> (rt_err_t \<times> kernel) option" where
  "workqueue_work_completion s k = do {
     (result, k1) \<leftarrow> work_completion_loop s (rt_enter_critical k);
     k2 \<leftarrow> rt_exit_critical k1;
     Some (result, k2)
   }"

text \<open>One round of \<open>_workqueue_thread_entry\<close>, up to the call of the function and after it.\<close>

definition worker_fetch :: "wq_state \<Rightarrow> (oid option \<times> wq_state) option" where
  "worker_fetch s = (case s of (q, k) \<Rightarrow> (case work_list q of
       [] \<Rightarrow> do {
         t \<leftarrow> rt_thread_self k;
         (_, k1) \<leftarrow> rt_thread_suspend_with_flag t RT_UNINTERRUPTIBLE k;
         k2 \<leftarrow> rt_schedule k1;
         Some (None, q, k2)
       }
     | w # _ \<Rightarrow>
         (let q1 = (work_unlink w q)\<lparr>work_current := Some w\<rparr>;
              q2 = upd_work w (wk_workqueue_update (\<lambda>_. None)) (clear_work_flag RT_WORK_STATE_PENDING w q1)
          in Some (Some w, q2, k))))"

definition worker_finish :: "wq_state \<Rightarrow> wq_state option" where
  "worker_finish s = (case s of (q, k) \<Rightarrow> do {
     let q1 = q\<lparr>work_current := None\<rparr>;
     (_, k1) \<leftarrow> workqueue_work_completion (wq_sem q1) k;
     Some (q1, k1)
   })"

definition wake_worker :: "wq_state \<Rightarrow> wq_state option" where
  "wake_worker s = (case s of (q, k) \<Rightarrow>
     if work_current q = None \<and> stat_suspended (th_stat (threads k (work_thread q))) then do {
       (_, k1) \<leftarrow> rt_thread_resume (work_thread q) k;
       k2 \<leftarrow> rt_schedule k1;
       Some (q, k2)
     } else Some s)"

definition workqueue_submit_work :: "oid \<Rightarrow> oid \<Rightarrow> rt_tick_t \<Rightarrow> wq_state \<Rightarrow> (rt_err_t \<times> wq_state) option" where
  "workqueue_submit_work i w time s = (case s of (q, k) \<Rightarrow>
     let q1 = clear_work_flag RT_WORK_STATE_PENDING w (work_unlink w q) in
     if time = 0 then do {
       let q2 = set_work_flag RT_WORK_STATE_PENDING w (q1\<lparr>work_list := work_list q1 @ [w]\<rparr>);
       s3 \<leftarrow> wake_worker (upd_work w (wk_workqueue_update (\<lambda>_. Some i)) q2, k);
       Some (RT_EOK, s3)
     }
     else if time < RT_TICK_MAX div 2 then do {
       (q2, k1) \<leftarrow> (if work_flag RT_WORK_STATE_SUBMITTING w q1 then do {
           (_, k1) \<leftarrow> rt_timer_stop (ObjTimer w) k;
           (_, _, k2) \<leftarrow> rt_timer_control (ObjTimer w) (TC_set_time time) k1;
           Some (q1, k2)
         } else do {
           k1 \<leftarrow> rt_timer_init (ObjTimer w) (UserTimeout delayed_work_handler) w time RT_TIMER_FLAG_SOFT_TIMER k;
           Some (set_work_flag RT_WORK_STATE_SUBMITTING w q1, k1)
         });
       let q3 = upd_work w (wk_workqueue_update (\<lambda>_. Some i)) q2;
       (_, k2) \<leftarrow> rt_timer_start (ObjTimer w) k1;
       Some (RT_EOK, q3\<lparr>delayed_list := delayed_list q3 @ [w]\<rparr>, k2)
     }
     else Some (- RT_ERROR, q1, k))"

definition workqueue_cancel_work :: "oid \<Rightarrow> wq_state \<Rightarrow> (rt_err_t \<times> wq_state) option" where
  "workqueue_cancel_work w s = (case s of (q, k) \<Rightarrow> do {
     let q1 = clear_work_flag RT_WORK_STATE_PENDING w (work_unlink w q);
     (q2, k1) \<leftarrow> (if work_flag RT_WORK_STATE_SUBMITTING w q1 then do {
         (_, k1) \<leftarrow> rt_timer_stop (ObjTimer w) k;
         (_, k2) \<leftarrow> rt_timer_detach (ObjTimer w) k1;
         Some (clear_work_flag RT_WORK_STATE_SUBMITTING w q1, k2)
       } else Some (q1, k));
     Some (if work_current q2 \<noteq> Some w then RT_EOK else - RT_EBUSY,
       upd_work w (wk_workqueue_update (\<lambda>_. None)) q2, k1)
   })"

definition delayed_work_timeout_handler :: "oid \<Rightarrow> wq_state \<Rightarrow> wq_state option" where
  "delayed_work_timeout_handler w s = (case s of (q, k) \<Rightarrow> do {
     rt_assert (wk_workqueue (works q w) \<noteq> None);
     (_, k1) \<leftarrow> rt_timer_detach (ObjTimer w) k;
     let q1 = work_unlink w (clear_work_flag RT_WORK_STATE_SUBMITTING w q);
     wake_worker (if work_current q1 \<noteq> Some w
       then set_work_flag RT_WORK_STATE_PENDING w (q1\<lparr>work_list := work_list q1 @ [w]\<rparr>) else q1, k1)
   })"

definition rt_workqueue_dowork :: "oid \<Rightarrow> oid \<Rightarrow> wq_state \<Rightarrow> (rt_err_t \<times> wq_state) option" where
  "rt_workqueue_dowork i w s = workqueue_submit_work i w 0 s"

definition rt_workqueue_submit_work :: "oid \<Rightarrow> oid \<Rightarrow> rt_tick_t \<Rightarrow> wq_state \<Rightarrow> (rt_err_t \<times> wq_state) option" where
  "rt_workqueue_submit_work i w time s = do {
     rt_assert (time < RT_TICK_MAX div 2);
     workqueue_submit_work i w time s
   }"

definition rt_workqueue_urgent_work :: "oid \<Rightarrow> wq_state \<Rightarrow> (rt_err_t \<times> wq_state) option" where
  "rt_workqueue_urgent_work w s = (case s of (q, k) \<Rightarrow> do {
     let q1 = work_unlink w q;
     s2 \<leftarrow> wake_worker (q1\<lparr>work_list := w # work_list q1\<rparr>, k);
     Some (RT_EOK, s2)
   })"

definition rt_workqueue_cancel_work :: "oid \<Rightarrow> wq_state \<Rightarrow> (rt_err_t \<times> wq_state) option" where
  "rt_workqueue_cancel_work w s = workqueue_cancel_work w s"

text \<open>
  \<open>rt_workqueue_cancel_work_sync\<close> reads the current item with interrupts enabled: other threads may run
  between the test and what follows, which are therefore two steps.
\<close>

definition cancel_sync_test :: "oid \<Rightarrow> rt_workqueue \<Rightarrow> bool" where
  "cancel_sync_test w q = (work_current q = Some w)"

definition cancel_sync_rest :: "bool \<Rightarrow> oid \<Rightarrow> wq_state \<Rightarrow> (outcome \<times> wq_state) option" where
  "cancel_sync_rest current w s = (case s of (q, k) \<Rightarrow>
     if current then do {
       (out, k1) \<leftarrow> rt_sem_take (wq_sem q) (- 1) k;
       Some (case out of Blocked \<Rightarrow> Blocked | Done _ \<Rightarrow> Done RT_EOK, q, k1)
     } else do {
       (_, s1) \<leftarrow> workqueue_cancel_work w s;
       Some (Done RT_EOK, s1)
     })"

partial_function (option) cancel_pending_loop :: "wq_state \<Rightarrow> wq_state option" where
  "cancel_pending_loop s = (case work_list (fst s) of
       [] \<Rightarrow> Some s
     | w # _ \<Rightarrow> do { (_, s1) \<leftarrow> workqueue_cancel_work w s; cancel_pending_loop s1 })"

partial_function (option) cancel_delayed_loop :: "wq_state \<Rightarrow> wq_state option" where
  "cancel_delayed_loop s = (case delayed_list (fst s) of
       [] \<Rightarrow> Some s
     | w # _ \<Rightarrow> do { (_, s1) \<leftarrow> workqueue_cancel_work w s; cancel_delayed_loop s1 })"

definition rt_workqueue_cancel_all_work :: "wq_state \<Rightarrow> (rt_err_t \<times> wq_state) option" where
  "rt_workqueue_cancel_all_work s = do {
     s1 \<leftarrow> cancel_pending_loop (fst s, rt_enter_critical (snd s));
     (q, k) \<leftarrow> cancel_delayed_loop s1;
     k1 \<leftarrow> rt_exit_critical k;
     Some (RT_EOK, q, k1)
   }"

text \<open>Whether the queue, the thread and its stack can be allocated is an argument.\<close>

definition rt_workqueue_create ::
  "bool \<Rightarrow> tid option \<Rightarrow> bool \<Rightarrow> u8 \<Rightarrow> oid \<Rightarrow> wq_state \<Rightarrow> (bool \<times> wq_state) option" where
  "rt_workqueue_create mem thread stack priority sem s = (case s of (q, k) \<Rightarrow>
     if \<not> mem then Some (False, q, k)
     else do {
       let q1 = q\<lparr>work_list := [], delayed_list := [], work_current := None, wq_sem := sem\<rparr>;
       (_, k1) \<leftarrow> rt_sem_init sem 0 RT_IPC_FLAG_FIFO k;
       (t, k2) \<leftarrow> rt_thread_create thread stack priority 10 k1;
       (case t of
          None \<Rightarrow> Some (False, q1, k2)
        | Some t \<Rightarrow> do {
            (_, k3) \<leftarrow> rt_thread_startup t k2;
            Some (True, q1\<lparr>work_thread := t\<rparr>, k3)
          })
     })"

definition rt_workqueue_destroy :: "wq_state \<Rightarrow> (rt_err_t \<times> kernel) option" where
  "rt_workqueue_destroy s = do {
     (_, q, k) \<leftarrow> rt_workqueue_cancel_all_work s;
     (_, k1) \<leftarrow> rt_thread_delete (work_thread q) k;
     (_, k2) \<leftarrow> rt_sem_detach (wq_sem q) k1;
     Some (RT_EOK, k2)
   }"

text \<open>The queue of the system: \<open>sys_workq\<close>, which is \<open>None\<close> before its initialisation, is an argument.\<close>

definition rt_work_submit :: "oid option \<Rightarrow> oid \<Rightarrow> rt_tick_t \<Rightarrow> wq_state \<Rightarrow> (rt_err_t \<times> wq_state) option" where
  "rt_work_submit sys_workq w time s = do {
     i \<leftarrow> sys_workq;
     rt_workqueue_submit_work i w time s
   }"

definition rt_work_urgent :: "oid option \<Rightarrow> oid \<Rightarrow> wq_state \<Rightarrow> (rt_err_t \<times> wq_state) option" where
  "rt_work_urgent sys_workq w s = do {
     rt_assert (sys_workq \<noteq> None);
     rt_workqueue_urgent_work w s
   }"

definition rt_work_cancel :: "oid option \<Rightarrow> oid \<Rightarrow> wq_state \<Rightarrow> (rt_err_t \<times> wq_state) option" where
  "rt_work_cancel sys_workq w s = do {
     rt_assert (sys_workq \<noteq> None);
     rt_workqueue_cancel_work w s
   }"

definition rt_work_sys_workqueue_init ::
  "bool \<Rightarrow> tid option \<Rightarrow> bool \<Rightarrow> u8 \<Rightarrow> oid \<Rightarrow> oid \<Rightarrow> oid option \<Rightarrow> wq_state
   \<Rightarrow> (rt_err_t \<times> oid option \<times> wq_state) option" where
  "rt_work_sys_workqueue_init mem thread stack priority sem i sys_workq s =
     (if sys_workq \<noteq> None then Some (RT_EOK, sys_workq, s)
      else do {
        (ok, s1) \<leftarrow> rt_workqueue_create mem thread stack priority sem s;
        rt_assert ok;
        Some (RT_EOK, Some i, s1)
      })"

subsection \<open>The end of an item\<close>

lemma clock_ok_nest [simp]: "clock_ok (k\<lparr>rt_scheduler_lock_nest := n\<rparr>) = clock_ok k"
  by (simp add: clock_ok_def timers_ok_def live_ok_def)

definition runnable :: "kernel \<Rightarrow> tid \<Rightarrow> bool" where
  "runnable k t = (thread_state k t = RT_THREAD_READY \<or> thread_state k t = RT_THREAD_RUNNING)"

lemma schedule_runnable:
  assumes "clock_ok k" "rt_schedule k = Some k'"
  shows "runnable k t \<Longrightarrow> runnable k' t" "th_error (threads k' t) = th_error (threads k t)"
    "sems k' = sems k" "ipc_queue r \<Longrightarrow> tq k' r = tq k r"
proof -
  have "sched_ok k" "rt_current_thread k \<noteq> None" using assms(1) by (auto simp: clock_ok_def)
  then have f: "sched_frame k k'" using rt_schedule_frame [OF _ assms(2)] by blast
  show "runnable k t \<Longrightarrow> runnable k' t" using f unfolding sched_frame_def runnable_def by blast
  show "th_error (threads k' t) = th_error (threads k t)" using sched_frame_thread(3) [OF f] by simp
  show "sems k' = sems k" using sched_frame_sel [OF f] by simp
  show "ipc_queue r \<Longrightarrow> tq k' r = tq k r" using sched_frame_queue [OF f] ipc_queue_not_ready by blast
qed

text \<open>The timers of the items and their places in the list of soft timers, which no switch and no wake-up touches.\<close>

definition obj_same :: "kernel \<Rightarrow> kernel \<Rightarrow> bool" where
  "obj_same k k' \<longleftrightarrow> (\<forall>v. timers k' (ObjTimer v) = timers k (ObjTimer v)
     \<and> (ObjTimer v \<in> set (soft_timer_list k') \<longleftrightarrow> ObjTimer v \<in> set (soft_timer_list k)))"

lemma obj_same_refl [simp]: "obj_same k k"
  by (simp add: obj_same_def)

lemma obj_same_trans: "obj_same k k1 \<Longrightarrow> obj_same k1 k2 \<Longrightarrow> obj_same k k2"
  by (simp add: obj_same_def)

lemma obj_same_schedule: "clock_ok k \<Longrightarrow> rt_schedule k = Some k' \<Longrightarrow> obj_same k k'"
  using rt_schedule_frame [of k k'] sched_frame_sel(5,8) [of k k'] by (simp add: obj_same_def clock_ok_def)

lemma obj_same_insert: "rt_schedule_insert_thread t k = Some k' \<Longrightarrow> obj_same k k'"
  by (auto simp: rt_schedule_insert_thread_def obj_same_def put_stat_def rt_list_insert_before_def
      rt_list_insert_after_def Let_def rt_assert_def split: if_splits bind_splits)

lemma obj_same_resume: "rt_thread_resume t k = Some (e, k') \<Longrightarrow> obj_same k k'"
  by (auto simp: rt_thread_resume_def rt_timer_stop_def timer_remove_def rt_list_remove_def obj_same_def Let_def
      split: if_splits bind_splits dest!: obj_same_insert)

lemma obj_same_release:
  assumes k: "clock_ok k" and r: "rt_sem_release s k = Some (e, k')"
  shows "obj_same k k'"
proof (cases "tq k (QSem s)")
  case Nil
  then show ?thesis using r by (auto simp: rt_sem_release_def rt_list_isempty_def obj_same_def split: bind_splits if_splits)
next
  case (Cons t ts)
  obtain k1 where k1: "ipc_list_resume (QSem s) k = Some k1" "clock_ok k1"
    by (rule ipc_list_resume_clock [OF k ipc_queue_simps(1) Cons])
  obtain e' where "rt_thread_resume t (upd_thread t (th_error_update (\<lambda>_. RT_EOK)) k) = Some (e', k1)"
    using k1(1) Cons by (auto simp: ipc_list_resume_def split: bind_splits)
  then have "obj_same k k1" by (auto dest: obj_same_resume simp: obj_same_def)
  moreover have "rt_schedule k1 = Some k'"
    using r Cons k1(1) by (auto simp: rt_sem_release_def rt_list_isempty_def split: bind_splits)
  ultimately show ?thesis using obj_same_schedule [OF k1(2)] obj_same_trans by blast
qed

text \<open>A release leaves threads that are already awake as they are, but for the switch.\<close>

lemma sem_release_awake:
  assumes k: "clock_ok k" and s: "sem_ok k s" and r: "rt_sem_release s k = Some (e, k')" and l: "tq k (QSem s) = t # ts"
    and u: "runnable k u" "th_error (threads k u) = RT_EOK"
  shows "runnable k' u \<and> th_error (threads k' u) = RT_EOK"
proof -
  obtain k1 st where k1: "ipc_list_resume (QSem s) k = Some k1" "clock_ok k1"
    "st = RT_THREAD_READY \<or> st = RT_THREAD_RUNNING"
    "threads k1 = (threads k)(t := (th_stat_update (set_stat st)
       (th_error_update (\<lambda>_. RT_EOK) (threads k t))))"
    "tq k1 (QSem s) = ts" "\<forall>r. ipc_queue r \<longrightarrow> r \<noteq> QSem s \<longrightarrow> tq k1 r = tq k r"
    "rt_current_thread k1 = rt_current_thread k" "ipc_frame k k1"
    by (rule ipc_list_resume_clock [OF k ipc_queue_simps(1) l])
  have "rt_schedule k1 = Some k'"
    using r s l k1(1) by (auto simp: rt_sem_release_def sem_ok_def rt_list_isempty_def split: bind_splits)
  moreover have "runnable k1 u" "th_error (threads k1 u) = RT_EOK" using k1(3,4) u by (auto simp: runnable_def)
  ultimately show ?thesis using schedule_runnable [OF k1(2)] by metis
qed

lemma sem_trytake_eq:
  "sem_ok k s \<Longrightarrow> rt_sem_trytake s k = Some (if sem_value (sems k s) = 0 then (Done (- RT_ETIMEOUT), k)
     else (Done RT_EOK, upd_sem s (sem_value_update (\<lambda>v. v - 1)) k))"
  by (auto simp: rt_sem_trytake_def rt_sem_take_def rt_sem_take_flag_def sem_ok_def word_gt_0 rt_assert_def)

lemma work_completion_loop_spec:
  assumes "clock_ok k" "sem_ok k s" "sem_value (sems k s) = 0"
  shows "\<exists>k'. work_completion_loop s k = Some (RT_EOK, k') \<and> clock_ok k' \<and> sem_ok k' s
    \<and> sem_value (sems k' s) = 0 \<and> tq k' (QSem s) = [] \<and> rt_scheduler_lock_nest k' = rt_scheduler_lock_nest k
    \<and> obj_same k k'
    \<and> (\<forall>t. t \<in> set (tq k (QSem s)) \<or> runnable k t \<and> th_error (threads k t) = RT_EOK \<longrightarrow>
         runnable k' t \<and> th_error (threads k' t) = RT_EOK)"
  using assms
proof (induction "tq k (QSem s)" arbitrary: k)
  case Nil
  let ?k1 = "upd_sem s (sem_value_update (\<lambda>v. v + 1)) k"
  have rel: "rt_sem_release s k = Some (RT_EOK, ?k1)"
    using Nil by (simp add: rt_sem_release_def sem_ok_def rt_list_isempty_def rt_assert_def)
  have k1: "sem_ok ?k1 s" "sem_value (sems ?k1 s) = 1" using Nil by (simp_all add: sem_ok_def)
  let ?k2 = "upd_sem s (sem_value_update (\<lambda>v. v - 1)) ?k1"
  have "work_completion_loop s k = work_completion_loop s ?k1"
    using rel by (subst work_completion_loop.simps) (simp add: sem_trytake_eq [OF Nil(3)] Nil(4))
  also have "\<dots> = Some (RT_EOK, ?k2)"
    using k1(2) by (subst work_completion_loop.simps) (simp add: sem_trytake_eq [OF k1(1)])
  finally show ?case using Nil by (intro exI [of _ ?k2]) (auto simp: sem_ok_def runnable_def obj_same_def)
next
  case (Cons t ts)
  note l = Cons.hyps(2) [symmetric]
  obtain k1 where k1: "rt_sem_release s k = Some (RT_EOK, k1)" "clock_ok k1" "sem_ok k1 s"
    "sems k1 = sems k" "tq k1 (QSem s) = ts"
    "\<forall>r. ipc_queue r \<longrightarrow> r \<noteq> QSem s \<longrightarrow> tq k1 r = tq k r"
    "thread_state k1 t = RT_THREAD_READY \<or> thread_state k1 t = RT_THREAD_RUNNING"
    "rt_sem_take_resume t k1 = RT_EOK"
    "\<forall>u. u \<noteq> t \<longrightarrow> th_error (threads k1 u) = th_error (threads k u)"
    by (rule sem_release_handover [OF Cons.prems(1,2) l])
  have n: "rt_scheduler_lock_nest k1 = rt_scheduler_lock_nest k"
  proof -
    obtain k' where "resume_one (QSem s) k = Some (RT_EOK, k')" "ipc_frame k k'"
      by (rule resume_one_spec [OF Cons.prems(1) ipc_queue_simps(1)])
    moreover have "resume_one (QSem s) k = rt_sem_release s k"
      using l Cons.prems(2) by (simp add: resume_one_def rt_sem_release_def sem_ok_def rt_list_isempty_def rt_assert_def)
    ultimately show ?thesis using k1(1) ipc_frame_sel(2) by auto
  qed
  have "sem_value (sems k1 s) = 0" using k1(4) Cons.prems(3) by simp
  from Cons.hyps(1) [OF k1(5) [symmetric] k1(2,3) this] obtain k' where
    k': "work_completion_loop s k1 = Some (RT_EOK, k')" "clock_ok k'" "sem_ok k' s" "sem_value (sems k' s) = 0"
    "tq k' (QSem s) = []" "rt_scheduler_lock_nest k' = rt_scheduler_lock_nest k1" "obj_same k1 k'"
    "\<forall>t. t \<in> set (tq k1 (QSem s)) \<or> runnable k1 t \<and> th_error (threads k1 t) = RT_EOK \<longrightarrow>
         runnable k' t \<and> th_error (threads k' t) = RT_EOK" by blast
  have run: "work_completion_loop s k = work_completion_loop s k1"
    using k1(1) by (subst work_completion_loop.simps) (simp add: sem_trytake_eq [OF Cons.prems(2)] Cons.prems(3))
  have "runnable k1 t \<and> th_error (threads k1 t) = RT_EOK"
    using k1(7,8) by (auto simp: runnable_def rt_sem_take_resume_def split: if_splits)
  moreover have "runnable k1 u \<and> th_error (threads k1 u) = RT_EOK" if "runnable k u" "th_error (threads k u) = RT_EOK" for u
    by (rule sem_release_awake [OF Cons.prems(1,2) k1(1) l that])
  moreover have "obj_same k k'" by (rule obj_same_trans [OF obj_same_release [OF Cons.prems(1) k1(1)] k'(7)])
  ultimately show ?case using run k' k1(5) l n by (intro exI [of _ k']) auto
qed

text \<open>
  What the operations rely on and keep: an item is in one of the two lists at most, and once, and the lock
  count of the scheduler is zero between two operations.
\<close>

definition wq_ok :: "wq_state \<Rightarrow> bool" where
  "wq_ok s = (case s of (q, k) \<Rightarrow> clock_ok k \<and> sem_ok k (wq_sem q) \<and> sem_value (sems k (wq_sem q)) = 0
     \<and> rt_scheduler_lock_nest k = 0 \<and> distinct (work_list q @ delayed_list q))"

lemma exit_critical_spec:
  assumes k: "clock_ok k" and n: "rt_scheduler_lock_nest k = 1"
  obtains k' where "rt_exit_critical k = Some k'" "clock_ok k'" "rt_scheduler_lock_nest k' = 0" "sems k' = sems k"
    "timers k' = timers k" "soft_timer_list k' = soft_timer_list k"
    "\<forall>r. ipc_queue r \<longrightarrow> tq k' r = tq k r" "\<forall>t. runnable k t \<longrightarrow> runnable k' t"
    "\<forall>t. th_error (threads k' t) = th_error (threads k t)" "rt_tick k' = rt_tick k"
proof -
  let ?k1 = "k\<lparr>rt_scheduler_lock_nest := 0\<rparr>"
  have k1: "clock_ok ?k1" "rt_current_thread ?k1 \<noteq> None" "sched_ok ?k1"
    using k clock_ok_nest [of 0 k] by (auto simp: clock_ok_def simp del: clock_ok_nest)
  obtain k' where k': "rt_schedule ?k1 = Some k'" "sched_frame ?k1 k'"
    by (rule rt_schedule_returns [OF k1(3,2)])
  note sr = schedule_runnable [OF k1(1) k'(1)]
  show ?thesis
    by (rule that [of k']) (use n k1(2) k' sr clock_ok_schedule [OF k1(1) k'(1)] sched_frame_sel [OF k'(2)] in
      \<open>simp_all add: rt_exit_critical_def Let_def runnable_def\<close>)
qed

lemma work_completion_spec:
  assumes k: "clock_ok k" and s: "sem_ok k s" "sem_value (sems k s) = 0" and n: "rt_scheduler_lock_nest k = 0"
  shows "\<exists>k'. workqueue_work_completion s k = Some (RT_EOK, k') \<and> clock_ok k' \<and> sem_ok k' s
    \<and> sem_value (sems k' s) = 0 \<and> tq k' (QSem s) = [] \<and> rt_scheduler_lock_nest k' = 0 \<and> obj_same k k'
    \<and> (\<forall>t \<in> set (tq k (QSem s)). runnable k' t \<and> th_error (threads k' t) = RT_EOK)"
proof -
  let ?k0 = "rt_enter_critical k"
  have k0: "clock_ok ?k0" "sem_ok ?k0 s" "sem_value (sems ?k0 s) = 0" "rt_scheduler_lock_nest ?k0 = 1"
    "tq ?k0 (QSem s) = tq k (QSem s)"
    using k s n by (simp_all add: rt_enter_critical_def sem_ok_def)
  obtain k1 where k1: "work_completion_loop s ?k0 = Some (RT_EOK, k1)" "clock_ok k1" "sem_ok k1 s"
    "sem_value (sems k1 s) = 0" "tq k1 (QSem s) = []" "rt_scheduler_lock_nest k1 = rt_scheduler_lock_nest ?k0"
    "obj_same ?k0 k1"
    "\<forall>t. t \<in> set (tq ?k0 (QSem s)) \<or> runnable ?k0 t \<and> th_error (threads ?k0 t) = RT_EOK \<longrightarrow>
         runnable k1 t \<and> th_error (threads k1 t) = RT_EOK"
    using work_completion_loop_spec [OF k0(1-3)] by blast
  obtain k' where k': "rt_exit_critical k1 = Some k'" "clock_ok k'" "rt_scheduler_lock_nest k' = 0" "sems k' = sems k1"
    "\<forall>r. ipc_queue r \<longrightarrow> tq k' r = tq k1 r" "\<forall>t. runnable k1 t \<longrightarrow> runnable k' t"
    "\<forall>t. th_error (threads k' t) = th_error (threads k1 t)" "timers k' = timers k1" "soft_timer_list k' = soft_timer_list k1"
    using exit_critical_spec [OF k1(2)] k1(6) k0(4) by metis
  have "obj_same k k'" using k1(7) k'(8,9) by (simp add: obj_same_def rt_enter_critical_def)
  then show ?thesis
    by (intro exI [of _ k']) (use k'(1-7) k1 k0(5) in \<open>simp_all add: workqueue_work_completion_def sem_ok_def\<close>)
qed

text \<open>
  C13 (end of a work item). The loop that tells the end of an item always ends: it wakes every thread that
  waits on the semaphore of the queue with the result \<open>RT_EOK\<close>, however many there are, and leaves the
  semaphore with the value 0 and nobody waiting, so that a later waiter waits for a later item.
\<close>

theorem work_completion_wakes_all:
  assumes "clock_ok k" "sem_ok k s" "sem_value (sems k s) = 0" "rt_scheduler_lock_nest k = 0"
  shows "\<exists>k'. workqueue_work_completion s k = Some (RT_EOK, k') \<and> clock_ok k' \<and> sem_ok k' s
    \<and> sem_value (sems k' s) = 0 \<and> tq k' (QSem s) = [] \<and> rt_scheduler_lock_nest k' = 0
    \<and> (\<forall>t \<in> set (tq k (QSem s)). runnable k' t \<and> th_error (threads k' t) = RT_EOK)"
  using work_completion_spec [OF assms] by blast

subsection \<open>Submission and cancellation\<close>

lemma wake_worker_spec:
  assumes s: "wq_ok (q, k)"
  obtains k' where "wake_worker (q, k) = Some (q, k')" "wq_ok (q, k')"
    "\<forall>t. runnable k t \<longrightarrow> runnable k' t"
    "work_current q = None \<and> stat_suspended (th_stat (threads k (work_thread q))) \<longrightarrow> runnable k' (work_thread q)"
    "obj_same k k'"
proof (cases "work_current q = None \<and> stat_suspended (th_stat (threads k (work_thread q)))")
  case False
  then have "wake_worker (q, k) = Some (q, k)" by (auto simp: wake_worker_def)
  then show ?thesis by (rule that) (use s False in auto)
next
  case True
  let ?t = "work_thread q"
  have k: "clock_ok k" using s by (simp add: wq_ok_def)
  obtain k1 st where k1: "rt_thread_resume ?t k = Some (RT_EOK, k1)" "kernel_ok k1"
    "st = RT_THREAD_READY \<or> st = RT_THREAD_RUNNING"
    "threads k1 = (threads k)(?t := th_stat_update (set_stat st) (threads k ?t))"
    "\<forall>q. (\<forall>p. q \<noteq> QReady p) \<longrightarrow> tq k1 q = removeAll ?t (tq k q)"
    "rt_current_thread k1 = rt_current_thread k" "ipc_frame k k1"
    "timer_list k1 = removeAll (ThreadTimer ?t) (timer_list k)"
    "timers k1 = (timers k)(ThreadTimer ?t :=
       tm_flag_update (clear_flag RT_TIMER_FLAG_ACTIVATED) (timers k (ThreadTimer ?t)))"
    "set (timer_expired k1) \<subseteq> set (timer_expired k)"
    by (rule resume_spec [OF clock_ok_kernel [OF k] conjunct2 [OF True]])
  have c1: "clock_ok k1"
    by (rule clock_ok_frame_stop [OF k k1(2,6) ipc_frame_sel(4) [OF k1(7)] k1(8-10)])
  then obtain k' where k': "rt_schedule k1 = Some k'" "sched_frame k1 k'"
    using rt_schedule_returns [of k1] by (auto simp: clock_ok_def)
  note sr = schedule_runnable [OF c1 k'(1)]
  have "tq k' (QSem s) = removeAll ?t (tq k (QSem s))" for s using sr(4) [of "QSem s"] k1(5) by simp
  then have "sem_ok k' (wq_sem q)" "sem_value (sems k' (wq_sem q)) = 0"
    using s sr(3) ipc_frame_sel(7) [OF k1(7)] by (simp_all add: wq_ok_def sem_ok_def)
  moreover have "rt_scheduler_lock_nest k' = 0"
    using s ipc_frame_sel(2) [OF k1(7)] sched_frame_sel(2) [OF k'(2)] by (simp add: wq_ok_def)
  ultimately have "wq_ok (q, k')" using s clock_ok_schedule [OF c1 k'(1)] by (simp add: wq_ok_def)
  moreover have "runnable k' t" if "runnable k t" for t
    using that k1(3,4) sr(1) [of t] by (auto simp: runnable_def)
  moreover have "runnable k' ?t" using k1(3,4) sr(1) [of ?t] by (auto simp: runnable_def)
  moreover have "obj_same k k'" by (rule obj_same_trans [OF obj_same_resume [OF k1(1)] obj_same_schedule [OF c1 k'(1)]])
  ultimately show ?thesis using that [of k'] k1(1) k'(1) True by (simp add: wake_worker_def)
qed


lemma wq_ok_lists [simp]:
  "wq_sem (upd_work w f q) = wq_sem q" "work_list (upd_work w f q) = work_list q"
  "delayed_list (upd_work w f q) = delayed_list q" "work_current (upd_work w f q) = work_current q"
  "work_thread (upd_work w f q) = work_thread q" "works (upd_work w f q) = (works q)(w := f (works q w))"
  by (simp_all add: upd_work_def)

lemma work_flags [simp]:
  "work_flag RT_WORK_STATE_PENDING w (set_work_flag RT_WORK_STATE_PENDING w q)"
  "\<not> work_flag b w (clear_work_flag b w q)"
  "work_flag RT_WORK_STATE_SUBMITTING v (clear_work_flag RT_WORK_STATE_PENDING w q)
     = work_flag RT_WORK_STATE_SUBMITTING v q"
  "work_flag RT_WORK_STATE_SUBMITTING v (set_work_flag RT_WORK_STATE_PENDING w q)
     = work_flag RT_WORK_STATE_SUBMITTING v q"
  "work_flag b v (upd_work w (wk_workqueue_update g) q) = work_flag b v q"
  "work_flag b v (q\<lparr>work_list := l\<rparr>) = work_flag b v q"
  "work_flag b v (q\<lparr>work_current := c\<rparr>) = work_flag b v q"
  "work_flag b v (work_unlink w q) = work_flag b v q"
  by (simp_all add: work_flag_def set_work_flag_def clear_work_flag_def upd_work_def work_unlink_def
      bit.conj_disj_distrib2 word_bw_assocs)

lemma set_clear_lists [simp]:
  "wq_sem (set_work_flag b w q) = wq_sem q" "work_list (set_work_flag b w q) = work_list q"
  "delayed_list (set_work_flag b w q) = delayed_list q" "work_current (set_work_flag b w q) = work_current q"
  "work_thread (set_work_flag b w q) = work_thread q"
  "wq_sem (clear_work_flag b w q) = wq_sem q" "work_list (clear_work_flag b w q) = work_list q"
  "delayed_list (clear_work_flag b w q) = delayed_list q" "work_current (clear_work_flag b w q) = work_current q"
  "work_thread (clear_work_flag b w q) = work_thread q"
  by (simp_all add: set_work_flag_def clear_work_flag_def)

lemma work_unlink_sel [simp]:
  "wq_sem (work_unlink w q) = wq_sem q" "work_list (work_unlink w q) = removeAll w (work_list q)"
  "delayed_list (work_unlink w q) = removeAll w (delayed_list q)"
  "work_current (work_unlink w q) = work_current q" "work_thread (work_unlink w q) = work_thread q"
  "works (work_unlink w q) = works q"
  by (simp_all add: work_unlink_def)

lemma dowork_spec:
  assumes s: "wq_ok (q, k)"
  obtains q' k' where "rt_workqueue_dowork i w (q, k) = Some (RT_EOK, q', k')" "wq_ok (q', k')"
    "work_list q' = removeAll w (work_list q) @ [w]" "delayed_list q' = removeAll w (delayed_list q)"
    "work_current q' = work_current q" "work_thread q' = work_thread q" "wq_sem q' = wq_sem q"
    "work_flag RT_WORK_STATE_PENDING w q'" "wk_workqueue (works q' w) = Some i" "obj_same k k'"
    "\<forall>v. work_flag RT_WORK_STATE_SUBMITTING v q' = work_flag RT_WORK_STATE_SUBMITTING v q"
    "work_current q = None \<and> stat_suspended (th_stat (threads k (work_thread q))) \<longrightarrow> runnable k' (work_thread q)"
proof -
  let ?q1 = "clear_work_flag RT_WORK_STATE_PENDING w (work_unlink w q)"
  let ?q3 = "upd_work w (wk_workqueue_update (\<lambda>_. Some i))
     (set_work_flag RT_WORK_STATE_PENDING w (?q1\<lparr>work_list := work_list ?q1 @ [w]\<rparr>))"
  have "wq_ok (?q3, k)" using s by (auto simp: wq_ok_def distinct_removeAll)
  from wake_worker_spec [OF this] obtain k' where k': "wake_worker (?q3, k) = Some (?q3, k')" "wq_ok (?q3, k')"
    "work_current ?q3 = None \<and> stat_suspended (th_stat (threads k (work_thread ?q3))) \<longrightarrow> runnable k' (work_thread ?q3)"
    "obj_same k k'" by blast
  show ?thesis
    by (rule that [of ?q3 k']) (use k' in \<open>simp_all add: rt_workqueue_dowork_def workqueue_submit_work_def Let_def\<close>)
qed

lemma urgent_spec:
  assumes s: "wq_ok (q, k)"
  obtains q' k' where "rt_workqueue_urgent_work w (q, k) = Some (RT_EOK, q', k')" "wq_ok (q', k')"
    "work_list q' = w # removeAll w (work_list q)" "delayed_list q' = removeAll w (delayed_list q)"
    "work_current q' = work_current q" "obj_same k k'"
    "\<forall>v. work_flag RT_WORK_STATE_SUBMITTING v q' = work_flag RT_WORK_STATE_SUBMITTING v q"
proof -
  let ?q1 = "(work_unlink w q)\<lparr>work_list := w # removeAll w (work_list q)\<rparr>"
  have "wq_ok (?q1, k)" using s by (auto simp: wq_ok_def distinct_removeAll)
  from wake_worker_spec [OF this] obtain k' where k': "wake_worker (?q1, k) = Some (?q1, k')" "wq_ok (?q1, k')"
    "obj_same k k'" by blast
  show ?thesis
    by (rule that [of ?q1 k']) (use k' in \<open>simp_all add: rt_workqueue_urgent_work_def Let_def\<close>)
qed

lemma worker_round_spec:
  assumes s: "wq_ok (q, k)" and l: "work_list q = w # ws"
  obtains q1 q' k' where "worker_fetch (q, k) = Some (Some w, q1, k)" "work_current q1 = Some w"
    "worker_finish (q1, k) = Some (q', k')" "wq_ok (q', k')" "work_list q' = ws" "work_current q' = None"
    "obj_same k k'" "\<forall>v. work_flag RT_WORK_STATE_SUBMITTING v q' = work_flag RT_WORK_STATE_SUBMITTING v q"
proof -
  let ?q0 = "(work_unlink w q)\<lparr>work_current := Some w\<rparr>"
  let ?q1 = "upd_work w (wk_workqueue_update (\<lambda>_. None)) (clear_work_flag RT_WORK_STATE_PENDING w ?q0)"
  have k: "clock_ok k" "sem_ok k (wq_sem q)" "sem_value (sems k (wq_sem q)) = 0" "rt_scheduler_lock_nest k = 0"
    "distinct ((w # ws) @ delayed_list q)" using s l by (simp_all add: wq_ok_def)
  obtain k' where k': "workqueue_work_completion (wq_sem q) k = Some (RT_EOK, k')" "clock_ok k'" "sem_ok k' (wq_sem q)"
    "sem_value (sems k' (wq_sem q)) = 0" "rt_scheduler_lock_nest k' = 0" "obj_same k k'"
    using work_completion_spec [OF k(1-4)] by blast
  have r: "removeAll w (work_list q) = ws" using l k(5) by simp
  show ?thesis
    by (rule that [of ?q1 "?q1\<lparr>work_current := None\<rparr>" k'])
      (use k k' r l in \<open>simp_all add: worker_fetch_def worker_finish_def wq_ok_def Let_def\<close>)
qed

subsection \<open>The order in which the items run\<close>

text \<open>A sequence of submissions, each marked urgent or not, and what the thread of the queue then runs.\<close>

fun submit_seq :: "oid \<Rightarrow> (bool \<times> oid) list \<Rightarrow> wq_state \<Rightarrow> wq_state option" where
  "submit_seq i [] s = Some s"
| "submit_seq i ((urgent, w) # ws) s = do {
     (_, s1) \<leftarrow> (if urgent then rt_workqueue_urgent_work w s else rt_workqueue_dowork i w s);
     submit_seq i ws s1
   }"

fun worker_run :: "nat \<Rightarrow> wq_state \<Rightarrow> (oid list \<times> wq_state) option" where
  "worker_run 0 s = Some ([], s)"
| "worker_run (Suc n) s = do {
     (w, s1) \<leftarrow> worker_fetch s;
     (case w of
        None \<Rightarrow> Some ([], s1)
      | Some w \<Rightarrow> do {
          s2 \<leftarrow> worker_finish s1;
          (ws, s3) \<leftarrow> worker_run n s2;
          Some (w # ws, s3)
        })
   }"

fun submit_order :: "(bool \<times> oid) list \<Rightarrow> oid list \<Rightarrow> oid list" where
  "submit_order [] l = l"
| "submit_order ((urgent, w) # ws) l =
     submit_order ws (if urgent then w # removeAll w l else removeAll w l @ [w])"

lemma submit_seq_spec:
  assumes "wq_ok (q, k)"
  shows "\<exists>q' k'. submit_seq i ws (q, k) = Some (q', k') \<and> wq_ok (q', k')
    \<and> work_list q' = submit_order ws (work_list q) \<and> work_current q' = work_current q"
  using assms
proof (induction ws arbitrary: q k)
  case (Cons a ws)
  obtain u w where a: "a = (u, w)" by (cases a)
  obtain q1 k1 where 1: "(if u then rt_workqueue_urgent_work w (q, k) else rt_workqueue_dowork i w (q, k))
      = Some (RT_EOK, q1, k1)" "wq_ok (q1, k1)" "work_current q1 = work_current q"
    "work_list q1 = (if u then w # removeAll w (work_list q) else removeAll w (work_list q) @ [w])"
  proof (cases u)
    case True
    show thesis by (rule urgent_spec [OF Cons.prems, of w]) (rule that, use True in simp_all)
  next
    case False
    show thesis by (rule dowork_spec [OF Cons.prems, of i w]) (rule that, use False in simp_all)
  qed
  show ?case using Cons.IH [OF 1(2)] 1(1,3,4) a by (auto split: if_splits)
qed simp

lemma worker_run_spec:
  assumes "wq_ok (q, k)"
  shows "\<exists>q' k'. worker_run (length (work_list q)) (q, k) = Some (work_list q, q', k') \<and> wq_ok (q', k')
    \<and> work_list q' = []"
  using assms
proof (induction "work_list q" arbitrary: q k)
  case Nil
  then show ?case by (cases "work_list q") auto
next
  case (Cons w ws)
  obtain q1 q' k' where 1: "worker_fetch (q, k) = Some (Some w, q1, k)" "worker_finish (q1, k) = Some (q', k')"
    "wq_ok (q', k')" "work_list q' = ws"
    using worker_round_spec [OF Cons.prems Cons.hyps(2) [symmetric]] by metis
  from Cons.hyps(1) [OF 1(4) [symmetric] 1(3)] obtain q2 k2 where
    "worker_run (length ws) (q', k') = Some (ws, q2, k2)" "wq_ok (q2, k2)" "work_list q2 = []"
    using 1(4) by auto
  then show ?case using 1(1,2) Cons.hyps(2) [symmetric] by simp
qed

lemma workqueue_order_spec:
  assumes "wq_ok s"
  shows "\<exists>s1 s2. submit_seq i ws s = Some s1 \<and> wq_ok s1
    \<and> worker_run (length (submit_order ws (work_list (fst s)))) s1 = Some (submit_order ws (work_list (fst s)), s2)
    \<and> wq_ok s2 \<and> work_list (fst s2) = []"
proof -
  obtain q k where s: "s = (q, k)" by (cases s)
  obtain q1 k1 where 1: "submit_seq i ws s = Some (q1, k1)" "wq_ok (q1, k1)"
    "work_list q1 = submit_order ws (work_list (fst s))"
    using submit_seq_spec [OF assms [unfolded s], of i ws] s by auto
  show ?thesis using worker_run_spec [OF 1(2)] 1 by auto
qed

text \<open>
  C10 (order of the work items). Whatever sequence of ordinary and urgent submissions a queue gets, its
  thread runs each item once, in the order of a list in which an ordinary submission moves the item to the
  end and an urgent one moves it to the front; afterwards nothing is pending.
\<close>

theorem workqueue_runs_in_order:
  assumes "wq_ok s"
  shows "\<exists>s1 s2. submit_seq i ws s = Some s1 \<and> wq_ok s1
    \<and> worker_run (length (submit_order ws (work_list (fst s)))) s1 = Some (submit_order ws (work_list (fst s)), s2)
    \<and> wq_ok s2 \<and> work_list (fst s2) = []"
  by (rule workqueue_order_spec [OF assms])


subsection \<open>Cancellation and delayed work\<close>

text \<open>The timer of an item is not the timer of a thread: changing it leaves the threads and the clock alone.\<close>

lemma clock_ok_obj_timers:
  assumes k: "clock_ok k" and t: "\<And>t. tms (ThreadTimer t) = timers k (ThreadTimer t)"
  shows "clock_ok (k\<lparr>timers := tms, soft_timer_list := a, soft_timer_expired := b\<rparr>)"
proof -
  let ?k = "k\<lparr>timers := tms, soft_timer_list := a, soft_timer_expired := b\<rparr>"
  have n: "tms y = timers k y" if "y \<in> set (timer_list k)" for y using k t that by (auto simp: clock_ok_def)
  have "timers_sorted (timers ?k) (rt_tick ?k) (timer_list k) = timers_sorted (timers k) (rt_tick k) (timer_list k)"
    using timers_sorted_cong [of "timer_list k" "timers ?k" "timers k" "rt_tick k"] n by simp
  moreover have "timers_ok ?k" using k t n by (auto simp: clock_ok_def timers_ok_def live_ok_def)
  moreover have "0 < timer_key (timers ?k) (rt_tick ?k) y" if "y \<in> set (timer_list k)" for y
    using k that n [OF that] by (simp add: clock_ok_def timer_key_def)
  ultimately show ?thesis using k by (simp add: clock_ok_def)
qed

lemma clock_ok_obj_only:
  assumes "clock_ok k" "\<And>t. tms (ThreadTimer t) = timers k (ThreadTimer t)"
  shows "clock_ok (k\<lparr>timers := tms\<rparr>)"
proof -
  have "k\<lparr>timers := tms\<rparr> = k\<lparr>timers := tms, soft_timer_list := soft_timer_list k,
      soft_timer_expired := soft_timer_expired k\<rparr>" by simp
  then show ?thesis using clock_ok_obj_timers [OF assms] by metis
qed

lemma clock_ok_obj_timer:
  "clock_ok k \<Longrightarrow> clock_ok (k\<lparr>timers := (timers k)(ObjTimer w := x), soft_timer_list := a, soft_timer_expired := b\<rparr>)"
  by (rule clock_ok_obj_timers) simp_all

lemma timer_remove_obj:
  "clock_ok k \<Longrightarrow> timer_remove (ObjTimer w) k = k\<lparr>soft_timer_list := removeAll (ObjTimer w) (soft_timer_list k),
     soft_timer_expired := removeAll (ObjTimer w) (soft_timer_expired k)\<rparr>"
  by (auto simp: timer_remove_def clock_ok_def intro!: kernel.equality) (metis removeAll_id timer_id.distinct(1))

definition obj_frame :: "oid \<Rightarrow> kernel \<Rightarrow> kernel \<Rightarrow> bool" where
  "obj_frame w k k' \<longleftrightarrow> (\<exists>x a b. k' = k\<lparr>timers := (timers k)(ObjTimer w := x),
     soft_timer_list := a, soft_timer_expired := b\<rparr>)"

lemma obj_frame_sel:
  assumes "obj_frame w k k'"
  shows "clock_ok k \<Longrightarrow> clock_ok k'" "threads k' = threads k" "tq k' = tq k" "sems k' = sems k"
    "rt_scheduler_lock_nest k' = rt_scheduler_lock_nest k" "v \<noteq> w \<Longrightarrow> timers k' (ObjTimer v) = timers k (ObjTimer v)"
    "sem_ok k' s = sem_ok k s" "rt_current_thread k' = rt_current_thread k"
  using assms clock_ok_obj_timer unfolding obj_frame_def by (auto simp: sem_ok_def)

text \<open>The timer of an item is initialised just while the item is marked as submitted.\<close>

definition work_timer :: "oid \<Rightarrow> rt_timer \<Rightarrow> bool" where
  "work_timer w tm \<longleftrightarrow> tm_type tm = Class_Timer \<and> tm_static tm \<and> has_flag RT_TIMER_FLAG_SOFT_TIMER (tm_flag tm)
     \<and> \<not> has_flag RT_TIMER_FLAG_PERIODIC (tm_flag tm)
     \<and> tm_timeout_func tm = UserTimeout delayed_work_handler \<and> tm_parameter tm = w"

definition work_timers_ok :: "wq_state \<Rightarrow> bool" where
  "work_timers_ok s = (case s of (q, k) \<Rightarrow> \<forall>w. if work_flag RT_WORK_STATE_SUBMITTING w q
     then work_timer w (timers k (ObjTimer w)) else tm_type (timers k (ObjTimer w)) \<noteq> Class_Timer)"

lemma work_timersD:
  "work_timers_ok (q, k) \<Longrightarrow> work_flag RT_WORK_STATE_SUBMITTING w q \<Longrightarrow> work_timer w (timers k (ObjTimer w))"
  "work_timers_ok (q, k) \<Longrightarrow> \<not> work_flag RT_WORK_STATE_SUBMITTING w q \<Longrightarrow> tm_type (timers k (ObjTimer w)) \<noteq> Class_Timer"
  by (auto simp: work_timers_ok_def split: if_splits)

lemma work_timers_okI:
  "(\<And>w. work_flag RT_WORK_STATE_SUBMITTING w q \<Longrightarrow> work_timer w (timers k (ObjTimer w)))
   \<Longrightarrow> (\<And>w. \<not> work_flag RT_WORK_STATE_SUBMITTING w q \<Longrightarrow> tm_type (timers k (ObjTimer w)) \<noteq> Class_Timer)
   \<Longrightarrow> work_timers_ok (q, k)"
  by (simp add: work_timers_ok_def)

lemma work_timer_stop_detach:
  assumes k: "clock_ok k" and t: "tm_type (timers k (ObjTimer w)) = Class_Timer" "tm_static (timers k (ObjTimer w))"
  obtains e k1 k2 where "rt_timer_stop (ObjTimer w) k = Some (e, k1)" "rt_timer_detach (ObjTimer w) k1 = Some (RT_EOK, k2)"
    "obj_frame w k k2" "ObjTimer w \<notin> set (soft_timer_list k2)"
    "\<not> has_flag RT_TIMER_FLAG_ACTIVATED (tm_flag (timers k2 (ObjTimer w)))"
    "tm_type (timers k2 (ObjTimer w)) \<noteq> Class_Timer"
proof -
  obtain e k1 where k1: "rt_timer_stop (ObjTimer w) k = Some (e, k1)" "clock_ok k1" "obj_frame w k k1"
    "tm_type (timers k1 (ObjTimer w)) = Class_Timer" "tm_static (timers k1 (ObjTimer w))"
  proof (cases "has_flag RT_TIMER_FLAG_ACTIVATED (tm_flag (timers k (ObjTimer w)))")
    case True
    let ?k = "upd_timer (ObjTimer w) (tm_flag_update (clear_flag RT_TIMER_FLAG_ACTIVATED)) (timer_remove (ObjTimer w) k)"
    have f: "obj_frame w k ?k" using k by (auto simp: obj_frame_def timer_remove_obj intro!: exI kernel.equality)
    show thesis
      by (rule that [of RT_EOK ?k]) (use t True f k obj_frame_sel(1) [OF f] in
        \<open>simp_all add: rt_timer_stop_def timer_remove_obj\<close>)
  next
    case False
    have "obj_frame w k k" unfolding obj_frame_def by (auto intro!: exI kernel.equality)
    then show thesis by (intro that [of "- RT_ERROR" k]) (use t False k in \<open>simp_all add: rt_timer_stop_def\<close>)
  qed
  let ?k2 = "upd_timer (ObjTimer w) (\<lambda>tm. tm\<lparr>tm_type := Class_Null, tm_static := False\<rparr>)
     (upd_timer (ObjTimer w) (tm_flag_update (clear_flag RT_TIMER_FLAG_ACTIVATED)) (timer_remove (ObjTimer w) k1))"
  obtain x a b where "k1 = k\<lparr>timers := (timers k)(ObjTimer w := x), soft_timer_list := a, soft_timer_expired := b\<rparr>"
    using k1(3) by (auto simp: obj_frame_def)
  then have "obj_frame w k ?k2" using k1(2) by (auto simp: obj_frame_def timer_remove_obj intro!: exI kernel.equality)
  then show ?thesis
    by (intro that [of e k1 ?k2]) (use k1 in \<open>simp_all add: rt_timer_detach_def timer_remove_obj\<close>)
qed


lemma clear_flag_other [simp]:
  "works (clear_work_flag b w q) = (works q)(w := wk_flags_update (\<lambda>f. f AND NOT b) (works q w))"
  by (simp add: clear_work_flag_def)

lemma work_flag_other [simp]: "v \<noteq> w \<Longrightarrow> work_flag b v (clear_work_flag c w q) = work_flag b v q"
  by (simp add: work_flag_def)

lemma pending_clear_submitting [simp]:
  "work_flag RT_WORK_STATE_PENDING v (clear_work_flag RT_WORK_STATE_SUBMITTING w q) = work_flag RT_WORK_STATE_PENDING v q"
  by (simp add: work_flag_def word_bw_assocs)

lemma obj_frame_refl: "obj_frame w k k"
  unfolding obj_frame_def by (auto intro!: exI kernel.equality)

lemma cancel_spec:
  assumes k: "clock_ok k" and t: "work_timers_ok (q, k)"
  obtains q' k' where
    "workqueue_cancel_work w (q, k) = Some (if work_current q = Some w then - RT_EBUSY else RT_EOK, q', k')"
    "obj_frame w k k'" "work_timers_ok (q', k')"
    "work_list q' = removeAll w (work_list q)" "delayed_list q' = removeAll w (delayed_list q)"
    "work_current q' = work_current q" "wq_sem q' = wq_sem q" "work_thread q' = work_thread q"
    "\<not> work_flag RT_WORK_STATE_PENDING w q'" "\<not> work_flag RT_WORK_STATE_SUBMITTING w q'"
    "wk_workqueue (works q' w) = None"
    "work_flag RT_WORK_STATE_SUBMITTING w q \<longrightarrow> ObjTimer w \<notin> set (soft_timer_list k')"
proof (cases "work_flag RT_WORK_STATE_SUBMITTING w q")
  case False
  let ?q = "upd_work w (wk_workqueue_update (\<lambda>_. None)) (clear_work_flag RT_WORK_STATE_PENDING w (work_unlink w q))"
  show ?thesis
    by (rule that [of ?q k]) (use False t obj_frame_refl in
      \<open>simp_all add: workqueue_cancel_work_def Let_def work_timers_ok_def\<close>)
next
  case True
  let ?q1 = "clear_work_flag RT_WORK_STATE_PENDING w (work_unlink w q)"
  let ?q = "upd_work w (wk_workqueue_update (\<lambda>_. None)) (clear_work_flag RT_WORK_STATE_SUBMITTING w ?q1)"
  have tw: "tm_type (timers k (ObjTimer w)) = Class_Timer" "tm_static (timers k (ObjTimer w))"
    using work_timersD(1) [OF t True] by (simp_all add: work_timer_def)
  obtain e k1 k2 where k2: "rt_timer_stop (ObjTimer w) k = Some (e, k1)"
    "rt_timer_detach (ObjTimer w) k1 = Some (RT_EOK, k2)" "obj_frame w k k2" "ObjTimer w \<notin> set (soft_timer_list k2)"
    "tm_type (timers k2 (ObjTimer w)) \<noteq> Class_Timer"
    by (rule work_timer_stop_detach [OF k tw])
  have "work_flag RT_WORK_STATE_SUBMITTING v ?q \<longleftrightarrow> v \<noteq> w \<and> work_flag RT_WORK_STATE_SUBMITTING v q" for v
    by (cases "v = w") simp_all
  moreover have "work_timers_ok (?q, k2)"
    by (rule work_timers_okI) (use calculation work_timersD [OF t] k2(5) obj_frame_sel(6) [OF k2(3)] in metis)+
  moreover have "\<not> work_flag RT_WORK_STATE_PENDING w ?q" by simp
  ultimately show ?thesis
    by (intro that [of ?q k2]) (use True k2 in \<open>simp_all add: workqueue_cancel_work_def Let_def\<close>)
qed

lemma workqueue_cancel_spec:
  assumes s: "wq_ok (q, k)" "work_timers_ok (q, k)"
  shows "\<exists>q' k' s2. rt_workqueue_cancel_work w (q, k)
       = Some (if work_current q = Some w then - RT_EBUSY else RT_EOK, q', k')
    \<and> work_list q' = removeAll w (work_list q) \<and> delayed_list q' = removeAll w (delayed_list q)
    \<and> work_current q' = work_current q \<and> \<not> work_flag RT_WORK_STATE_PENDING w q'
    \<and> \<not> work_flag RT_WORK_STATE_SUBMITTING w q'
    \<and> (work_flag RT_WORK_STATE_SUBMITTING w q \<longrightarrow> ObjTimer w \<notin> set (soft_timer_list k'))
    \<and> wq_ok (q', k') \<and> work_timers_ok (q', k')
    \<and> worker_run (length (work_list q')) (q', k') = Some (removeAll w (work_list q), s2)"
proof -
  have "clock_ok k" using s(1) by (simp add: wq_ok_def)
  from cancel_spec [OF this s(2), of w] obtain q' k' where
    c: "workqueue_cancel_work w (q, k) = Some (if work_current q = Some w then - RT_EBUSY else RT_EOK, q', k')"
    "obj_frame w k k'" "work_timers_ok (q', k')"
    "work_list q' = removeAll w (work_list q)" "delayed_list q' = removeAll w (delayed_list q)"
    "work_current q' = work_current q" "wq_sem q' = wq_sem q"
    "\<not> work_flag RT_WORK_STATE_PENDING w q'" "\<not> work_flag RT_WORK_STATE_SUBMITTING w q'"
    "work_flag RT_WORK_STATE_SUBMITTING w q \<longrightarrow> ObjTimer w \<notin> set (soft_timer_list k')" by metis
  note f = obj_frame_sel [OF c(2)]
  have ok: "wq_ok (q', k')" using s(1) c(4,5,7) f by (auto simp: wq_ok_def distinct_removeAll)
  from worker_run_spec [OF this] obtain s2 where
    "worker_run (length (work_list q')) (q', k') = Some (removeAll w (work_list q), s2)" using c(4) by auto
  then show ?thesis using c ok by (simp add: rt_workqueue_cancel_work_def)
qed

text \<open>
  C12 (cancelling an item). A cancelled item is on neither list, its flags are clear and its timer is
  stopped and in no list, so that neither the timer nor the thread of the queue ever reaches it: what the
  thread runs afterwards is what was pending, in its order, without the item. The result is \<open>-RT_EBUSY\<close>
  just when the item is the one that is running.
\<close>

theorem workqueue_cancel_correct:
  assumes "wq_ok (q, k)" "work_timers_ok (q, k)"
  shows "\<exists>q' k' s2. rt_workqueue_cancel_work w (q, k)
       = Some (if work_current q = Some w then - RT_EBUSY else RT_EOK, q', k')
    \<and> work_list q' = removeAll w (work_list q) \<and> delayed_list q' = removeAll w (delayed_list q)
    \<and> work_current q' = work_current q \<and> \<not> work_flag RT_WORK_STATE_PENDING w q'
    \<and> \<not> work_flag RT_WORK_STATE_SUBMITTING w q'
    \<and> (work_flag RT_WORK_STATE_SUBMITTING w q \<longrightarrow> ObjTimer w \<notin> set (soft_timer_list k'))
    \<and> wq_ok (q', k') \<and> work_timers_ok (q', k')
    \<and> worker_run (length (work_list q')) (q', k') = Some (removeAll w (work_list q), s2)"
  by (rule workqueue_cancel_spec [OF assms])

text \<open>Both loops of \<open>rt_workqueue_cancel_all_work\<close> end, each pass shortening its list.\<close>

lemma cancel_pending_ends:
  assumes "clock_ok k" "work_timers_ok (q, k)"
  shows "\<exists>q' k'. cancel_pending_loop (q, k) = Some (q', k') \<and> work_list q' = [] \<and> clock_ok k'
    \<and> work_timers_ok (q', k') \<and> rt_scheduler_lock_nest k' = rt_scheduler_lock_nest k"
  using assms
proof (induction "length (work_list q)" arbitrary: q k rule: less_induct)
  case less
  show ?case
  proof (cases "work_list q")
    case Nil
    then show ?thesis using less.prems by (subst cancel_pending_loop.simps) simp
  next
    case (Cons w ws)
    obtain q1 k1 where 1: "workqueue_cancel_work w (q, k) =
        Some (if work_current q = Some w then - RT_EBUSY else RT_EOK, q1, k1)"
      "obj_frame w k k1" "work_timers_ok (q1, k1)" "work_list q1 = removeAll w (work_list q)"
      using cancel_spec [OF less.prems, of w] by metis
    have "length (work_list q1) < length (work_list q)" using 1(4) Cons by (simp add: length_removeAll_less_eq le_imp_less_Suc)
    from less.hyps [OF this obj_frame_sel(1) [OF 1(2) less.prems(1)] 1(3)] show ?thesis
      using 1(1) Cons obj_frame_sel(5) [OF 1(2)] by (subst cancel_pending_loop.simps) simp
  qed
qed

lemma cancel_delayed_ends:
  assumes "clock_ok k" "work_timers_ok (q, k)" "work_list q = []"
  shows "\<exists>q' k'. cancel_delayed_loop (q, k) = Some (q', k') \<and> work_list q' = [] \<and> delayed_list q' = [] \<and> clock_ok k'
    \<and> work_timers_ok (q', k') \<and> rt_scheduler_lock_nest k' = rt_scheduler_lock_nest k"
  using assms
proof (induction "length (delayed_list q)" arbitrary: q k rule: less_induct)
  case less
  show ?case
  proof (cases "delayed_list q")
    case Nil
    then show ?thesis using less.prems by (subst cancel_delayed_loop.simps) simp
  next
    case (Cons w ws)
    obtain q1 k1 where 1: "workqueue_cancel_work w (q, k) =
        Some (if work_current q = Some w then - RT_EBUSY else RT_EOK, q1, k1)"
      "obj_frame w k k1" "work_timers_ok (q1, k1)" "work_list q1 = removeAll w (work_list q)"
      "delayed_list q1 = removeAll w (delayed_list q)"
      using cancel_spec [OF less.prems(1,2), of w] by metis
    have "length (delayed_list q1) < length (delayed_list q)"
      using 1(5) Cons by (simp add: length_removeAll_less_eq le_imp_less_Suc)
    moreover have "work_list q1 = []" using 1(4) less.prems(3) by simp
    ultimately show ?thesis
      using less.hyps [OF _ obj_frame_sel(1) [OF 1(2) less.prems(1)] 1(3)] 1(1) Cons obj_frame_sel(5) [OF 1(2)]
      by (subst cancel_delayed_loop.simps) simp
  qed
qed

theorem workqueue_cancel_all:
  assumes "wq_ok (q, k)" "work_timers_ok (q, k)"
  shows "\<exists>q' k'. rt_workqueue_cancel_all_work (q, k) = Some (RT_EOK, q', k')
    \<and> work_list q' = [] \<and> delayed_list q' = [] \<and> clock_ok k' \<and> rt_scheduler_lock_nest k' = 0"
proof -
  let ?k0 = "rt_enter_critical k"
  have k0: "clock_ok ?k0" "work_timers_ok (q, ?k0)" "rt_scheduler_lock_nest ?k0 = 1"
    using assms by (simp_all add: wq_ok_def rt_enter_critical_def work_timers_ok_def)
  obtain q1 k1 where 1: "cancel_pending_loop (q, ?k0) = Some (q1, k1)" "work_list q1 = []" "clock_ok k1"
    "work_timers_ok (q1, k1)" "rt_scheduler_lock_nest k1 = 1"
    using cancel_pending_ends [OF k0(1,2)] k0(3) by auto
  obtain q2 k2 where 2: "cancel_delayed_loop (q1, k1) = Some (q2, k2)" "work_list q2 = []" "delayed_list q2 = []"
    "clock_ok k2" "rt_scheduler_lock_nest k2 = 1"
    using cancel_delayed_ends [OF 1(3,4,2)] 1(5) by auto
  obtain k' where "rt_exit_critical k2 = Some k'" "clock_ok k'" "rt_scheduler_lock_nest k' = 0"
    by (rule exit_critical_spec [OF 2(4,5)])
  then show ?thesis using 1(1) 2 by (simp add: rt_workqueue_cancel_all_work_def)
qed

text \<open>Starting the timer of an item: it goes into the list of soft timers, whose thread may be woken for it.\<close>

lemma work_timer_start:
  assumes k: "clock_ok k" and t: "work_timer w (timers k (ObjTimer w))"
  obtains k' where "rt_timer_start (ObjTimer w) k = Some (RT_EOK, k')" "clock_ok k'"
    "work_timer w (timers k' (ObjTimer w))" "ObjTimer w \<in> set (soft_timer_list k')"
    "tm_timeout_tick (timers k' (ObjTimer w)) = rt_tick k + tm_init_tick (timers k (ObjTimer w))"
    "\<forall>v. v \<noteq> w \<longrightarrow> timers k' (ObjTimer v) = timers k (ObjTimer v)"
    "sems k' = sems k" "rt_scheduler_lock_nest k' = rt_scheduler_lock_nest k"
    "\<forall>s. set (tq k' (QSem s)) \<subseteq> set (tq k (QSem s))"
proof -
  let ?w = "ObjTimer w"
  let ?k1 = "upd_timer ?w (tm_flag_update (clear_flag RT_TIMER_FLAG_ACTIVATED)) (timer_remove ?w k)"
  let ?k2 = "upd_timer ?w (\<lambda>tm. tm\<lparr>tm_timeout_tick := rt_tick ?k1 + tm_init_tick tm\<rparr>) ?k1"
  let ?k3 = "upd_timer ?w (tm_flag_update (set_flag RT_TIMER_FLAG_ACTIVATED)) (timer_enqueue ?w ?k2)"
  have ty: "tm_type (timers k ?w) = Class_Timer" using t by (simp add: work_timer_def)
  have s2: "has_flag RT_TIMER_FLAG_SOFT_TIMER (tm_flag (timers ?k2 ?w))" using t k by (simp add: work_timer_def timer_remove_obj)
  have f: "obj_frame w k ?k3"
    using s2 k by (auto simp: obj_frame_def timer_enqueue_def timer_remove_obj intro!: exI kernel.equality)
  note fs = obj_frame_sel [OF f]
  have w3: "work_timer w (timers ?k3 ?w)" "ObjTimer w \<in> set (soft_timer_list ?k3)"
    "tm_timeout_tick (timers ?k3 ?w) = rt_tick k + tm_init_tick (timers k ?w)"
    using s2 t k by (simp_all add: work_timer_def timer_enqueue_def timer_remove_obj timer_list_insert_eq)
  have ok3: "clock_ok ?k3" by (rule fs(1) [OF k])
  let ?wake = "has_flag RT_TIMER_FLAG_SOFT_TIMER (tm_flag (timers ?k3 ?w)) \<and> soft_timer_idle ?k3
     \<and> stat_suspended (th_stat (threads ?k3 (timer_thread ?k3)))"
  have run: "rt_timer_start ?w k = (if ?wake then do {
        (_, k4) \<leftarrow> rt_thread_resume (timer_thread ?k3) ?k3;
        k5 \<leftarrow> rt_schedule k4;
        Some (RT_EOK, k5)
      } else Some (RT_EOK, ?k3))"
    unfolding rt_timer_start_def Let_def using ty by (simp add: rt_assert_def)
  show ?thesis
  proof (cases ?wake)
    case False
    then show ?thesis using that [of ?k3] run w3 ok3 fs by (simp only: if_False) simp
  next
    case True
    let ?t = "timer_thread ?k3"
    obtain k4 st where k4: "rt_thread_resume ?t ?k3 = Some (RT_EOK, k4)" "kernel_ok k4"
      "st = RT_THREAD_READY \<or> st = RT_THREAD_RUNNING"
      "threads k4 = (threads ?k3)(?t := th_stat_update (set_stat st) (threads ?k3 ?t))"
      "\<forall>q. (\<forall>p. q \<noteq> QReady p) \<longrightarrow> tq k4 q = removeAll ?t (tq ?k3 q)"
      "rt_current_thread k4 = rt_current_thread ?k3" "ipc_frame ?k3 k4"
      "timer_list k4 = removeAll (ThreadTimer ?t) (timer_list ?k3)"
      "timers k4 = (timers ?k3)(ThreadTimer ?t :=
         tm_flag_update (clear_flag RT_TIMER_FLAG_ACTIVATED) (timers ?k3 (ThreadTimer ?t)))"
      "set (timer_expired k4) \<subseteq> set (timer_expired ?k3)"
      by (rule resume_spec [OF clock_ok_kernel [OF ok3] True [THEN conjunct2, THEN conjunct2]])
    have c4: "clock_ok k4"
      by (rule clock_ok_frame_stop [OF ok3 k4(2,6) ipc_frame_sel(4) [OF k4(7)] k4(8-10)])
    then obtain k' where k': "rt_schedule k4 = Some k'" "sched_frame k4 k'"
      using rt_schedule_returns [of k4] by (auto simp: clock_ok_def)
    note sr = schedule_runnable [OF c4 k'(1)]
    have same: "obj_same ?k3 k'" by (rule obj_same_trans [OF obj_same_resume [OF k4(1)] obj_same_schedule [OF c4 k'(1)]])
    have qs: "\<forall>s. set (tq k' (QSem s)) \<subseteq> set (tq k (QSem s))" using sr(4) k4(5) fs(3) by auto
    have "sems k' = sems k" using sr(3) ipc_frame_sel(7) [OF k4(7)] fs(4) by simp
    moreover have "rt_scheduler_lock_nest k' = rt_scheduler_lock_nest k"
      using sched_frame_sel(2) [OF k'(2)] ipc_frame_sel(2) [OF k4(7)] fs(5) by simp
    moreover have "rt_timer_start ?w k = Some (RT_EOK, k')"
      unfolding run if_P [OF True] using k4(1) k'(1) by simp
    ultimately show ?thesis
      using that [of k'] clock_ok_schedule [OF c4 k'(1)] same w3 fs(6) qs by (simp add: obj_same_def)
  qed
qed

lemma work_timers_same:
  assumes "work_timers_ok (q, k)" "obj_same k k'"
    "\<forall>v. work_flag RT_WORK_STATE_SUBMITTING v q' = work_flag RT_WORK_STATE_SUBMITTING v q"
  shows "work_timers_ok (q', k')"
  using assms unfolding work_timers_ok_def obj_same_def by simp

lemma work_flag_set_other [simp]: "v \<noteq> w \<Longrightarrow> work_flag b v (set_work_flag c w q) = work_flag b v q"
  by (simp add: work_flag_def set_work_flag_def)

lemma work_flag_set_same [simp]: "work_flag RT_WORK_STATE_SUBMITTING w (set_work_flag RT_WORK_STATE_SUBMITTING w q)"
  by (simp add: work_flag_def set_work_flag_def bit.conj_disj_distrib2)

lemma work_flag_delayed [simp]: "work_flag b v (q\<lparr>delayed_list := l\<rparr>) = work_flag b v q"
  by (simp add: work_flag_def)

lemma submit_delayed_spec:
  assumes s: "wq_ok (q, k)" "work_timers_ok (q, k)" and tm: "0 < time" "time < RT_TICK_MAX div 2"
  obtains q' k' where "rt_workqueue_submit_work i w time (q, k) = Some (RT_EOK, q', k')"
    "wq_ok (q', k')" "work_timers_ok (q', k')" "work_list q' = removeAll w (work_list q)"
    "delayed_list q' = removeAll w (delayed_list q) @ [w]" "work_current q' = work_current q"
    "work_flag RT_WORK_STATE_SUBMITTING w q'" "wk_workqueue (works q' w) = Some i"
    "ObjTimer w \<in> set (soft_timer_list k')" "tm_timeout_tick (timers k' (ObjTimer w)) = rt_tick k + time"
proof -
  let ?q1 = "clear_work_flag RT_WORK_STATE_PENDING w (work_unlink w q)"
  have k: "clock_ok k" "rt_scheduler_lock_nest k = 0" using s(1) by (simp_all add: wq_ok_def)
  define prep where "prep = (if work_flag RT_WORK_STATE_SUBMITTING w ?q1 then do {
           (_, k1) \<leftarrow> rt_timer_stop (ObjTimer w) k;
           (_, _, k2) \<leftarrow> rt_timer_control (ObjTimer w) (TC_set_time time) k1;
           Some (?q1, k2)
         } else do {
           k1 \<leftarrow> rt_timer_init (ObjTimer w) (UserTimeout delayed_work_handler) w time RT_TIMER_FLAG_SOFT_TIMER k;
           Some (set_work_flag RT_WORK_STATE_SUBMITTING w ?q1, k1)
         })"
  obtain q2 k1 where p: "prep = Some (q2, k1)" "clock_ok k1" "work_timer w (timers k1 (ObjTimer w))"
    "tm_init_tick (timers k1 (ObjTimer w)) = time" "rt_tick k1 = rt_tick k"
    "\<forall>v. v \<noteq> w \<longrightarrow> timers k1 (ObjTimer v) = timers k (ObjTimer v)" "sems k1 = sems k"
    "rt_scheduler_lock_nest k1 = 0" "\<forall>s. tq k1 (QSem s) = tq k (QSem s)"
    "q2 = (if work_flag RT_WORK_STATE_SUBMITTING w q then ?q1 else set_work_flag RT_WORK_STATE_SUBMITTING w ?q1)"
  proof (cases "work_flag RT_WORK_STATE_SUBMITTING w q")
    case True
    note wt = work_timersD(1) [OF s(2) True]
    define x where "x = (if has_flag RT_TIMER_FLAG_ACTIVATED (tm_flag (timers k (ObjTimer w))) then
       upd_timer (ObjTimer w) (tm_flag_update (clear_flag RT_TIMER_FLAG_ACTIVATED)) (timer_remove (ObjTimer w) k) else k)"
    have f: "obj_frame w k x" using k(1) obj_frame_refl
      by (auto simp: x_def obj_frame_def timer_remove_obj intro!: exI kernel.equality)
    obtain e where st: "rt_timer_stop (ObjTimer w) k = Some (e, x)"
      using wt by (cases "has_flag RT_TIMER_FLAG_ACTIVATED (tm_flag (timers k (ObjTimer w)))")
        (simp_all add: rt_timer_stop_def x_def work_timer_def)
    have wx: "work_timer w (timers x (ObjTimer w))" "rt_tick x = rt_tick k"
      using wt k(1) by (auto simp: x_def work_timer_def timer_remove_obj)
    let ?k1 = "upd_timer (ObjTimer w) (tm_init_tick_update (\<lambda>_. time)) x"
    have "clock_ok ?k1" using clock_ok_obj_only [OF obj_frame_sel(1) [OF f k(1)]] by simp
    moreover have "prep = Some (?q1, ?k1)"
      using True st wx tm by (simp add: prep_def rt_timer_control_def work_timer_def rt_assert_def)
    ultimately show thesis
      by (intro that [of ?q1 ?k1]) (use True wx k obj_frame_sel [OF f] in \<open>simp_all add: work_timer_def\<close>)
  next
    case False
    note nt = work_timersD(2) [OF s(2) False]
    obtain k0 where k0: "rt_exit_critical (rt_enter_critical k) = Some k0" "clock_ok k0" "rt_scheduler_lock_nest k0 = 0"
      "sems k0 = sems k" "timers k0 = timers k" "\<forall>r. ipc_queue r \<longrightarrow> tq k0 r = tq k r" "rt_tick k0 = rt_tick k"
    proof -
      have c: "clock_ok (rt_enter_critical k)" "rt_scheduler_lock_nest (rt_enter_critical k) = 1"
        using k by (simp_all add: rt_enter_critical_def)
      show thesis by (rule exit_critical_spec [OF c]) (rule that, assumption, simp_all add: rt_enter_critical_def)
    qed
    let ?f = "(\<lambda>tm. tm\<lparr>tm_flag := clear_flag RT_TIMER_FLAG_ACTIVATED RT_TIMER_FLAG_SOFT_TIMER,
       tm_timeout_func := UserTimeout delayed_work_handler, tm_parameter := w, tm_timeout_tick := 0, tm_init_tick := time\<rparr>)"
    let ?k1 = "upd_timer (ObjTimer w) ?f (upd_timer (ObjTimer w) (\<lambda>tm. tm\<lparr>tm_type := Class_Timer, tm_static := True\<rparr>) k0)"
    have "clock_ok ?k1" using clock_ok_obj_only [OF k0(2)] by simp
    moreover have "prep = Some (set_work_flag RT_WORK_STATE_SUBMITTING w ?q1, ?k1)"
      using False nt tm k0(1) by (simp add: prep_def rt_timer_init_def timer_init_def rt_object_init_check_def rt_assert_def)
    moreover have "has_flag RT_TIMER_FLAG_SOFT_TIMER (clear_flag RT_TIMER_FLAG_ACTIVATED RT_TIMER_FLAG_SOFT_TIMER)"
      "\<not> has_flag RT_TIMER_FLAG_PERIODIC (clear_flag RT_TIMER_FLAG_ACTIVATED RT_TIMER_FLAG_SOFT_TIMER)"
      by (simp_all add: has_flag_def clear_flag_def)
    ultimately show thesis
      by (intro that [of "set_work_flag RT_WORK_STATE_SUBMITTING w ?q1" ?k1]) (use False k0 in \<open>simp_all add: work_timer_def\<close>)
  qed
  let ?q3 = "upd_work w (wk_workqueue_update (\<lambda>_. Some i)) q2"
  let ?q4 = "?q3\<lparr>delayed_list := delayed_list ?q3 @ [w]\<rparr>"
  obtain k' where k': "rt_timer_start (ObjTimer w) k1 = Some (RT_EOK, k')" "clock_ok k'"
    "work_timer w (timers k' (ObjTimer w))" "ObjTimer w \<in> set (soft_timer_list k')"
    "tm_timeout_tick (timers k' (ObjTimer w)) = rt_tick k1 + tm_init_tick (timers k1 (ObjTimer w))"
    "\<forall>v. v \<noteq> w \<longrightarrow> timers k' (ObjTimer v) = timers k1 (ObjTimer v)"
    "sems k' = sems k1" "rt_scheduler_lock_nest k' = rt_scheduler_lock_nest k1"
    "\<forall>s. set (tq k' (QSem s)) \<subseteq> set (tq k1 (QSem s))"
    by (rule work_timer_start [OF p(2,3)])
  have lists: "work_list ?q4 = removeAll w (work_list q)" "delayed_list ?q4 = removeAll w (delayed_list q) @ [w]"
    "work_current ?q4 = work_current q" "wq_sem ?q4 = wq_sem q" "wk_workqueue (works ?q4 w) = Some i"
    by (simp_all add: p(10))
  have flags: "work_flag RT_WORK_STATE_SUBMITTING v ?q4 \<longleftrightarrow> v = w \<or> work_flag RT_WORK_STATE_SUBMITTING v q" for v
    by (cases "v = w"; cases "work_flag RT_WORK_STATE_SUBMITTING w q") (simp_all add: p(10))
  have "tq k' (QSem (wq_sem q)) \<noteq> [] \<longrightarrow> tq k (QSem (wq_sem q)) \<noteq> []" using k'(9) p(9) by (metis set_empty subset_empty)
  then have "wq_ok (?q4, k')"
    using s(1) k'(2,7,8) p(7,8) lists by (auto simp: wq_ok_def sem_ok_def distinct_removeAll)
  moreover have "work_timers_ok (?q4, k')"
    by (rule work_timers_okI) (use flags k'(3,6) p(6) work_timersD [OF s(2)] in metis)+
  moreover have "rt_workqueue_submit_work i w time (q, k) = Some (RT_EOK, ?q4, k')"
    using p(1) k'(1) tm less_imp_neq [OF tm(1), symmetric] unfolding prep_def
    by (simp add: rt_workqueue_submit_work_def workqueue_submit_work_def Let_def rt_assert_def)
  ultimately show ?thesis using that [of ?q4 k'] lists flags k'(4,5) p(4,5) by simp
qed

text \<open>
  The timeout handler takes the item off the delayed list, stops its timer and
  appends it to the pending items, unless it is the item that is running, which is dropped; the thread of
  the queue is woken when it was asleep with nothing to do.
\<close>

lemma delayed_work_due_spec:
  assumes s: "wq_ok (q, k)" "work_timers_ok (q, k)" and w: "wk_workqueue (works q w) \<noteq> None"
    and sub: "work_flag RT_WORK_STATE_SUBMITTING w q"
  shows "\<exists>q' k'. delayed_work_timeout_handler w (q, k) = Some (q', k') \<and> wq_ok (q', k') \<and> work_timers_ok (q', k')
    \<and> work_list q' = removeAll w (work_list q) @ (if work_current q = Some w then [] else [w])
    \<and> delayed_list q' = removeAll w (delayed_list q) \<and> \<not> work_flag RT_WORK_STATE_SUBMITTING w q'
    \<and> (work_current q = None \<longrightarrow> stat_suspended (th_stat (threads k (work_thread q))) \<longrightarrow> runnable k' (work_thread q))"
proof -
  have t: "tm_type (timers k (ObjTimer w)) = Class_Timer" "tm_static (timers k (ObjTimer w))"
    using work_timersD(1) [OF s(2) sub] by (simp_all add: work_timer_def)
  have k: "clock_ok k" using s by (simp add: wq_ok_def)
  let ?k1 = "upd_timer (ObjTimer w) (\<lambda>tm. tm\<lparr>tm_type := Class_Null, tm_static := False\<rparr>)
     (upd_timer (ObjTimer w) (tm_flag_update (clear_flag RT_TIMER_FLAG_ACTIVATED)) (timer_remove (ObjTimer w) k))"
  have d: "rt_timer_detach (ObjTimer w) k = Some (RT_EOK, ?k1)" using t by (simp add: rt_timer_detach_def timer_remove_def)
  have "obj_frame w k ?k1" using k by (auto simp: obj_frame_def timer_remove_obj intro!: exI kernel.equality)
  note f = obj_frame_sel [OF this]
  let ?q1 = "work_unlink w (clear_work_flag RT_WORK_STATE_SUBMITTING w q)"
  let ?q2 = "if work_current ?q1 \<noteq> Some w
     then set_work_flag RT_WORK_STATE_PENDING w (?q1\<lparr>work_list := work_list ?q1 @ [w]\<rparr>) else ?q1"
  have sel: "work_thread ?q2 = work_thread q" "work_current ?q2 = work_current q" by simp_all
  have ok: "wq_ok (?q2, ?k1)" using s f by (auto simp: wq_ok_def distinct_removeAll)
  obtain k' where k': "wake_worker (?q2, ?k1) = Some (?q2, k')" "wq_ok (?q2, k')"
    "work_current ?q2 = None \<and> stat_suspended (th_stat (threads ?k1 (work_thread ?q2))) \<longrightarrow> runnable k' (work_thread ?q2)"
    "obj_same ?k1 k'"
    by (rule wake_worker_spec [OF ok])
  have run: "delayed_work_timeout_handler w (q, k) = Some (?q2, k')"
    using w d k'(1) by (simp add: delayed_work_timeout_handler_def Let_def rt_assert_def)
  have fl: "work_flag RT_WORK_STATE_SUBMITTING v ?q2 \<longleftrightarrow> v \<noteq> w \<and> work_flag RT_WORK_STATE_SUBMITTING v q" for v
    by (cases "v = w") simp_all
  have W: "work_timers_ok (?q2, ?k1)"
  proof (rule work_timers_okI)
    show "work_timer v (timers ?k1 (ObjTimer v))" if "work_flag RT_WORK_STATE_SUBMITTING v ?q2" for v
      using that work_timersD(1) [OF s(2), of v] f(6) [of v] unfolding fl by metis
    show "tm_type (timers ?k1 (ObjTimer v)) \<noteq> Class_Timer" if "\<not> work_flag RT_WORK_STATE_SUBMITTING v ?q2" for v
      using that work_timersD(2) [OF s(2), of v] f(6) [of v] unfolding fl by (cases "v = w") simp_all
  qed
  have T: "work_timers_ok (?q2, k')" by (rule work_timers_same [OF W k'(4)]) simp
  have A: "work_list ?q2 = removeAll w (work_list q) @ (if work_current q = Some w then [] else [w])"
    "delayed_list ?q2 = removeAll w (delayed_list q)" "\<not> work_flag RT_WORK_STATE_SUBMITTING w ?q2" by simp_all
  have B: "work_current q = None \<longrightarrow> stat_suspended (th_stat (threads k (work_thread q))) \<longrightarrow> runnable k' (work_thread q)"
    using k'(3) f(2) unfolding sel by simp
  show ?thesis by (rule exI [of _ ?q2], rule exI [of _ k'], intro conjI) (rule run k'(2) T A B)+
qed

subsection \<open>Every operation keeps the queue well-formed\<close>

datatype wq_op =
    Wq_submit oid rt_tick_t | Wq_urgent oid | Wq_cancel oid | Wq_due oid | Wq_fetch | Wq_finish

fun wq_step :: "oid \<Rightarrow> wq_op \<Rightarrow> wq_state \<Rightarrow> wq_state option" where
  "wq_step i (Wq_submit w time) s = map_option snd (rt_workqueue_submit_work i w time s)"
| "wq_step i (Wq_urgent w) s = map_option snd (rt_workqueue_urgent_work w s)"
| "wq_step i (Wq_cancel w) s = map_option snd (rt_workqueue_cancel_work w s)"
| "wq_step i (Wq_due w) s = delayed_work_timeout_handler w s"
| "wq_step i Wq_fetch s = map_option snd (worker_fetch s)"
| "wq_step i Wq_finish s = worker_finish s"

text \<open>
  When an operation may happen: the delay is within the range that the code asserts; the timer of an item
  is due while the item is marked as submitted; the thread of the queue fetches when something is pending.
  An item whose delay is running must not be submitted at once or urgently: the code leaves its timer
  running then (\<open>stale_timer_asserts\<close>).
\<close>

fun wq_may :: "wq_op \<Rightarrow> wq_state \<Rightarrow> bool" where
  "wq_may (Wq_submit w time) s =
     (time < RT_TICK_MAX div 2 \<and> (time = 0 \<longrightarrow> \<not> work_flag RT_WORK_STATE_SUBMITTING w (fst s)))"
| "wq_may (Wq_urgent w) s = (\<not> work_flag RT_WORK_STATE_SUBMITTING w (fst s))"
| "wq_may (Wq_due w) s = work_flag RT_WORK_STATE_SUBMITTING w (fst s)"
| "wq_may Wq_fetch s = (work_list (fst s) \<noteq> [])"
| "wq_may _ s = True"

text \<open>An item whose delay is running has a queue and is not pending yet.\<close>

definition wq_linked :: "rt_workqueue \<Rightarrow> bool" where
  "wq_linked q \<longleftrightarrow> (\<forall>w. work_flag RT_WORK_STATE_SUBMITTING w q
     \<longrightarrow> w \<notin> set (work_list q) \<and> wk_workqueue (works q w) \<noteq> None)"

lemma wake_worker_queue: "wake_worker (q, k) = Some (q', k') \<Longrightarrow> q' = q"
  by (auto simp: wake_worker_def split: if_splits bind_splits)

lemma wk_workqueue_flags [simp]:
  "wk_workqueue (works (set_work_flag b w q) v) = wk_workqueue (works q v)"
  "wk_workqueue (works (clear_work_flag b w q) v) = wk_workqueue (works q v)"
  "works (work_unlink w q) = works q"
  by (simp_all add: set_work_flag_def clear_work_flag_def work_unlink_def)

lemma submitting_clear:
  "work_flag RT_WORK_STATE_SUBMITTING v (clear_work_flag RT_WORK_STATE_SUBMITTING w q)
    \<longleftrightarrow> v \<noteq> w \<and> work_flag RT_WORK_STATE_SUBMITTING v q"
  by (cases "v = w") simp_all

lemma wq_linked_step:
  assumes st: "wq_step i a (q, k) = Some (q', k')" and m: "wq_may a (q, k)" and l: "wq_linked q"
  shows "wq_linked q'"
proof (cases a)
  case (Wq_submit w time)
  then show ?thesis using st m l
    by (auto simp: wq_linked_def rt_workqueue_submit_work_def workqueue_submit_work_def Let_def rt_assert_def
        dest!: wake_worker_queue split: if_splits bind_splits)
next
  case (Wq_urgent w)
  then show ?thesis using st m l
    by (auto simp: wq_linked_def rt_workqueue_urgent_work_def Let_def dest!: wake_worker_queue
        split: if_splits bind_splits)
next
  case (Wq_cancel w)
  then show ?thesis using st l
    by (auto simp: wq_linked_def rt_workqueue_cancel_work_def workqueue_cancel_work_def Let_def submitting_clear
        split: if_splits bind_splits)
next
  case (Wq_due w)
  then show ?thesis using st l
    by (auto simp: wq_linked_def delayed_work_timeout_handler_def Let_def submitting_clear dest!: wake_worker_queue
        split: if_splits bind_splits)
next
  case Wq_fetch
  then show ?thesis using st m l
    by (auto simp: wq_linked_def worker_fetch_def Let_def split: if_splits bind_splits list.splits)
next
  case Wq_finish
  then show ?thesis using st l
    by (auto simp: wq_linked_def worker_finish_def Let_def split: if_splits bind_splits)
qed

lemma worker_finish_spec:
  assumes s: "wq_ok (q, k)" "work_timers_ok (q, k)"
  shows "\<exists>k'. worker_finish (q, k) = Some (q\<lparr>work_current := None\<rparr>, k') \<and> wq_ok (q\<lparr>work_current := None\<rparr>, k')
    \<and> work_timers_ok (q\<lparr>work_current := None\<rparr>, k')"
proof -
  have k: "clock_ok k" "sem_ok k (wq_sem q)" "sem_value (sems k (wq_sem q)) = 0" "rt_scheduler_lock_nest k = 0"
    using s(1) by (simp_all add: wq_ok_def)
  obtain k' where k': "workqueue_work_completion (wq_sem q) k = Some (RT_EOK, k')" "clock_ok k'" "sem_ok k' (wq_sem q)"
    "sem_value (sems k' (wq_sem q)) = 0" "rt_scheduler_lock_nest k' = 0" "obj_same k k'"
    using work_completion_spec [OF k] by blast
  have "work_timers_ok (q\<lparr>work_current := None\<rparr>, k')" by (rule work_timers_same [OF s(2) k'(6)]) simp
  then show ?thesis using s(1) k' by (simp add: worker_finish_def wq_ok_def)
qed

lemma worker_fetch_spec:
  assumes s: "wq_ok (q, k)" "work_timers_ok (q, k)" and l: "work_list q = w # ws"
  shows "\<exists>q'. worker_fetch (q, k) = Some (Some w, q', k) \<and> wq_ok (q', k) \<and> work_timers_ok (q', k)"
proof -
  let ?q1 = "upd_work w (wk_workqueue_update (\<lambda>_. None))
     (clear_work_flag RT_WORK_STATE_PENDING w ((work_unlink w q)\<lparr>work_current := Some w\<rparr>))"
  have "wq_ok (?q1, k)" using s(1) l by (auto simp: wq_ok_def distinct_removeAll)
  moreover have "work_timers_ok (?q1, k)" by (rule work_timers_same [OF s(2) obj_same_refl]) simp
  ultimately show ?thesis using l by (simp add: worker_fetch_def Let_def)
qed

lemma wq_step_submit:
  assumes s: "wq_ok (q, k)" "work_timers_ok (q, k)" and t: "time < RT_TICK_MAX div 2"
  shows "\<exists>s'. wq_step i (Wq_submit w time) (q, k) = Some s' \<and> wq_ok s' \<and> work_timers_ok s'"
proof (cases "time = 0")
  case True
  obtain q' k' where q': "rt_workqueue_dowork i w (q, k) = Some (RT_EOK, q', k')" "wq_ok (q', k')" "obj_same k k'"
    "\<forall>v. work_flag RT_WORK_STATE_SUBMITTING v q' = work_flag RT_WORK_STATE_SUBMITTING v q"
    by (rule dowork_spec [OF s(1)])
  have "rt_workqueue_submit_work i w time (q, k) = Some (RT_EOK, q', k')"
    using q'(1) True by (simp add: rt_workqueue_submit_work_def rt_workqueue_dowork_def rt_assert_def)
  then show ?thesis using q'(2) work_timers_same [OF s(2) q'(3,4)] by simp
next
  case False
  then have "0 < time" by (simp add: word_gt_0)
  from submit_delayed_spec [OF s this t, of i w] obtain q' k' where
    "rt_workqueue_submit_work i w time (q, k) = Some (RT_EOK, q', k')" "wq_ok (q', k')" "work_timers_ok (q', k')" by metis
  then show ?thesis by simp
qed

lemma workqueue_step_spec:
  assumes s: "wq_ok s" "work_timers_ok s" and m: "wq_may a s" and l: "wq_linked (fst s)"
  shows "\<exists>s'. wq_step i a s = Some s' \<and> wq_ok s' \<and> work_timers_ok s'"
proof -
  obtain q k where qk: "s = (q, k)" by (cases s)
  note s = s [unfolded qk] note m = m [unfolded qk]
  have k: "clock_ok k" using s(1) by (simp add: wq_ok_def)
  show ?thesis unfolding qk
  proof (cases a)
    case (Wq_submit w time)
    then show "\<exists>s'. wq_step i a (q, k) = Some s' \<and> wq_ok s' \<and> work_timers_ok s'"
      using wq_step_submit [OF s] m by simp
  next
    case (Wq_urgent w)
    obtain q' k' where q': "rt_workqueue_urgent_work w (q, k) = Some (RT_EOK, q', k')" "wq_ok (q', k')" "obj_same k k'"
      "\<forall>v. work_flag RT_WORK_STATE_SUBMITTING v q' = work_flag RT_WORK_STATE_SUBMITTING v q"
      by (rule urgent_spec [OF s(1)])
    then show "\<exists>s'. wq_step i a (q, k) = Some s' \<and> wq_ok s' \<and> work_timers_ok s'"
      using Wq_urgent work_timers_same [OF s(2) q'(3,4)] by simp
  next
    case (Wq_cancel w)
    show "\<exists>s'. wq_step i a (q, k) = Some s' \<and> wq_ok s' \<and> work_timers_ok s'"
      using workqueue_cancel_spec [OF s, of w] unfolding Wq_cancel by auto
  next
    case (Wq_due w)
    then have "wk_workqueue (works q w) \<noteq> None" "work_flag RT_WORK_STATE_SUBMITTING w q"
      using m l qk by (simp_all add: wq_linked_def)
    from delayed_work_due_spec [OF s this]
    show "\<exists>s'. wq_step i a (q, k) = Some s' \<and> wq_ok s' \<and> work_timers_ok s'" unfolding Wq_due by auto
  next
    case Wq_fetch
    then obtain w ws where "work_list q = w # ws" using m by (auto simp: neq_Nil_conv)
    from worker_fetch_spec [OF s this] show "\<exists>s'. wq_step i a (q, k) = Some s' \<and> wq_ok s' \<and> work_timers_ok s'"
      unfolding Wq_fetch by auto
  next
    case Wq_finish
    show "\<exists>s'. wq_step i a (q, k) = Some s' \<and> wq_ok s' \<and> work_timers_ok s'"
      using worker_finish_spec [OF s] unfolding Wq_finish by auto
  qed
qed

text \<open>
  C11 (well-formed queues). Submitting at once, with a delay or urgently, cancelling, the timeout of a
  delayed item, and the fetching and finishing of the thread of the queue never fail on a well-formed
  queue, and leave it well-formed: every item is in at most one of the two lists and once there, its timer
  is initialised just while it is marked as submitted, and then it has its queue and is not pending; the
  semaphore is at 0 and the kernel consistent. The one thing that must not be done is to submit an item at
  once or urgently while its delay is running.
\<close>

theorem workqueue_well_formed:
  assumes "wq_ok s" "work_timers_ok s" "wq_linked (fst s)" "wq_may a s"
  shows "\<exists>s'. wq_step i a s = Some s' \<and> wq_ok s' \<and> work_timers_ok s' \<and> wq_linked (fst s')"
proof -
  obtain s' where "wq_step i a s = Some s'" "wq_ok s'" "work_timers_ok s'"
    using workqueue_step_spec [OF assms(1,2,4,3)] by blast
  moreover have "wq_linked (fst s')"
    using wq_linked_step [of i a "fst s" "snd s" "fst s'" "snd s'"] calculation(1) assms(3,4) by simp
  ultimately show ?thesis by blast
qed

subsection \<open>Behaviour at the edges\<close>

text \<open>
  Submitting a delayed item again, to run at once, leaves its timer running; after the thread of the queue
  has fetched the item the handler of that timer finds no queue, and its assertion fails.
\<close>

lemma stale_timer_asserts:
  assumes s: "wq_ok (q, k)" and l: "work_list q = []" and r: "\<not> stat_suspended (th_stat (threads k (work_thread q)))"
    and t: "ObjTimer w \<in> set (soft_timer_list k)"
  shows "\<exists>q1 q2. rt_workqueue_dowork i w (q, k) = Some (RT_EOK, q1, k)
    \<and> worker_fetch (q1, k) = Some (Some w, q2, k) \<and> ObjTimer w \<in> set (soft_timer_list k)
    \<and> delayed_work_timeout_handler w (q2, k) = None"
proof -
  let ?q1 = "clear_work_flag RT_WORK_STATE_PENDING w (work_unlink w q)"
  let ?q3 = "upd_work w (wk_workqueue_update (\<lambda>_. Some i))
     (set_work_flag RT_WORK_STATE_PENDING w (?q1\<lparr>work_list := work_list ?q1 @ [w]\<rparr>))"
  have 1: "rt_workqueue_dowork i w (q, k) = Some (RT_EOK, ?q3, k)"
    using r by (simp add: rt_workqueue_dowork_def workqueue_submit_work_def Let_def wake_worker_def)
  have "wq_ok (?q3, k)" "work_list ?q3 = [w]" using s l by (simp_all add: wq_ok_def distinct_removeAll)
  then show ?thesis using 1 t l
    by (simp add: worker_fetch_def Let_def delayed_work_timeout_handler_def rt_assert_def)
qed

text \<open>
  \<open>rt_workqueue_cancel_work_sync\<close> tests the running item without a lock. When the item ends between the
  test and the wait, the semaphore is back at 0 and the caller waits, without a timeout, for an item that
  is already over.
\<close>

lemma cancel_sync_too_late:
  assumes s: "wq_ok (q, k)" and c: "work_current q = Some w" and f: "worker_finish (q, k) = Some (q1, k1)"
    and t: "in_thread_context k1 t"
  shows "cancel_sync_test w q \<and> work_current q1 = None
    \<and> (\<exists>k2. cancel_sync_rest (cancel_sync_test w q) w (q1, k1) = Some (Blocked, q1, k2)
         \<and> stat_suspended (th_stat (threads k2 t)) \<and> t \<in> set (tq k2 (QSem (wq_sem q1))))"
proof -
  have k: "clock_ok k" "sem_ok k (wq_sem q)" "sem_value (sems k (wq_sem q)) = 0" "rt_scheduler_lock_nest k = 0"
    using s by (simp_all add: wq_ok_def)
  obtain k' where "workqueue_work_completion (wq_sem q) k = Some (RT_EOK, k')" "sem_ok k' (wq_sem q)"
    "sem_value (sems k' (wq_sem q)) = 0" "tq k' (QSem (wq_sem q)) = []"
    using work_completion_spec [OF k] by blast
  then have q1: "q1 = q\<lparr>work_current := None\<rparr>" "k1 = k'" "sem_ok k1 (wq_sem q1)" "sem_value (sems k1 (wq_sem q1)) = 0"
    "tq k1 (QSem (wq_sem q1)) = []"
    using f by (auto simp: worker_finish_def)
  have tm: "time_ok (- 1)" "(- 1 :: int) \<noteq> 0" by (simp_all add: time_ok_def)
  obtain k2 where "rt_sem_take_flag (wq_sem q1) (- 1) RT_UNINTERRUPTIBLE k1 = Some (Blocked, k2)"
    "stat_suspended (th_stat (threads k2 t))"
    "tq k2 (QSem (wq_sem q1)) = (if sem_flag (sems k1 (wq_sem q1)) = RT_IPC_FLAG_FIFO then tq k1 (QSem (wq_sem q1)) @ [t]
       else ipc_prio_insert (threads k1) t (tq k1 (QSem (wq_sem q1))))"
    by (rule sem_take_block_spec [OF t q1(3,4) tm, of RT_UNINTERRUPTIBLE]) simp
  then show ?thesis using c q1 by (simp add: cancel_sync_test_def cancel_sync_rest_def rt_sem_take_def)
qed

text \<open>When the thread of a new queue cannot be had, the memory of the queue goes back with its semaphore still registered.\<close>

lemma create_leaves_semaphore:
  assumes "rt_workqueue_create True None b priority sem (q, k) = Some (ok, q', k')"
  shows "\<not> ok \<and> sem_type (sems k' sem) = Class_Semaphore"
  using assms
  by (auto simp: rt_workqueue_create_def rt_sem_init_def rt_thread_create_def ipc_object_init_def Let_def split: bind_splits)

subsection \<open>Witnesses\<close>

definition demo_wq :: rt_workqueue where
  "demo_wq = \<lparr>work_list = [7], delayed_list = [], work_current = None, wq_sem = 0, work_thread = 1,
     works = (\<lambda>_. \<lparr>wk_flags = 0, wk_workqueue = Some 0\<rparr>)\<rparr>"

definition demo_wq_kernel :: kernel where
  "demo_wq_kernel = demo_kernel\<lparr>
     timers := (\<lambda>x. case x of ObjTimer w \<Rightarrow> (timers demo_kernel x)\<lparr>tm_type := Class_Null\<rparr> | _ \<Rightarrow> timers demo_kernel x),
     sems := (\<lambda>_. \<lparr>sem_type = Class_Semaphore, sem_static = True, sem_flag = RT_IPC_FLAG_FIFO, sem_value = 0\<rparr>)\<rparr>"

lemma demo_wq_ok: "wq_ok (demo_wq, demo_wq_kernel)" "work_timers_ok (demo_wq, demo_wq_kernel)"
proof -
  let ?tms = "\<lambda>x. case x of ObjTimer w \<Rightarrow> (timers demo_kernel x)\<lparr>tm_type := Class_Null\<rparr> | _ \<Rightarrow> timers demo_kernel x"
  have "clock_ok (demo_kernel\<lparr>timers := ?tms\<rparr>)"
    by (rule clock_ok_obj_only [OF demo_clock_ok]) simp
  then show "wq_ok (demo_wq, demo_wq_kernel)" "work_timers_ok (demo_wq, demo_wq_kernel)"
    by (simp_all add: wq_ok_def demo_wq_def demo_wq_kernel_def sem_ok_def work_timers_ok_def work_flag_def)
qed

theorem work_completion_wakes_all_witness:
  "\<exists>k'. workqueue_work_completion 0 demo_wq_kernel = Some (RT_EOK, k') \<and> tq k' (QSem 0) = []"
  using work_completion_wakes_all [of demo_wq_kernel 0] demo_wq_ok(1) by (auto simp: wq_ok_def demo_wq_def)

theorem workqueue_runs_in_order_witness:
  "\<exists>s1 s2. submit_seq 0 [(False, 5), (True, 3), (False, 7)] (demo_wq, demo_wq_kernel) = Some s1
     \<and> worker_run 3 s1 = Some ([3, 5, 7], s2)"
  using workqueue_runs_in_order [OF demo_wq_ok(1), of 0 "[(False, 5), (True, 3), (False, 7)]"]
  by (auto simp: demo_wq_def numeral_3_eq_3 simp del: worker_run.simps submit_seq.simps)

theorem workqueue_cancel_correct_witness:
  "\<exists>q' k'. rt_workqueue_cancel_work 7 (demo_wq, demo_wq_kernel) = Some (RT_EOK, q', k') \<and> work_list q' = []"
  using workqueue_cancel_correct [OF demo_wq_ok, of 7] by (auto simp: demo_wq_def)


theorem workqueue_well_formed_witness:
  "\<exists>s'. wq_step 0 (Wq_submit 5 10) (demo_wq, demo_wq_kernel) = Some s' \<and> wq_ok s' \<and> work_timers_ok s'
     \<and> wq_linked (fst s')"
  by (rule workqueue_well_formed [OF demo_wq_ok])
    (simp_all add: wq_linked_def demo_wq_def work_flag_def has_flag_def)

end
