(* ===== verification/Device.thy ===== *)
theory Device
  imports Object_List Mem_Pool
begin

text \<open>
  Devices (\<open>src/device.c\<close>): the front of every driver. A device is an object of the kernel with flags and a
  count of the times it is open; the operations of the driver behind it are arguments, on a state that
  holds the devices, the objects, the kernel and whatever the driver keeps (\<open>'d\<close>). \<open>None\<close> is a failed
  assertion.
\<close>

abbreviation (input) RT_DEVICE_FLAG_STANDALONE :: u16 where "RT_DEVICE_FLAG_STANDALONE \<equiv> 0x8"
abbreviation (input) RT_DEVICE_FLAG_ACTIVATED :: u16 where "RT_DEVICE_FLAG_ACTIVATED \<equiv> 0x10"
abbreviation (input) RT_DEVICE_OFLAG_CLOSE :: u16 where "RT_DEVICE_OFLAG_CLOSE \<equiv> 0"
abbreviation (input) RT_DEVICE_OFLAG_OPEN :: u16 where "RT_DEVICE_OFLAG_OPEN \<equiv> 0x8"
abbreviation (input) RT_DEVICE_OFLAG_MASK :: u16 where "RT_DEVICE_OFLAG_MASK \<equiv> 0xf0f"

record rt_device =
  dv_type :: int
  dv_flag :: u16
  dv_open_flag :: u16
  dv_ref_count :: u8
  dv_rx_indicate :: "nat option"
  dv_tx_complete :: "nat option"

definition device_zero :: rt_device where
  "device_zero = \<lparr>dv_type = 0, dv_flag = 0, dv_open_flag = 0, dv_ref_count = 0, dv_rx_indicate = None,
     dv_tx_complete = None\<rparr>"

record 'd world =
  dw_dev :: "nat \<Rightarrow> rt_device"
  dw_objs :: objects
  dw_kernel :: kernel
  dw_drv :: 'd

type_synonym 'd call = "'d world \<Rightarrow> rt_err_t \<times> 'd world"

text \<open>The functions of a driver; each may be missing. What a read delivers is a list of bytes.\<close>

record 'd device_ops =
  dop_init :: "'d call option"
  dop_open :: "(u16 \<Rightarrow> 'd call) option"
  dop_close :: "'d call option"
  dop_read :: "(int \<Rightarrow> nat \<Rightarrow> 'd world \<Rightarrow> int \<times> u8 list \<times> 'd world) option"
  dop_write :: "(int \<Rightarrow> u8 list \<Rightarrow> 'd world \<Rightarrow> int \<times> 'd world) option"
  dop_control :: "(int \<Rightarrow> int \<Rightarrow> 'd call) option"

definition upd_dev :: "nat \<Rightarrow> (rt_device \<Rightarrow> rt_device) \<Rightarrow> 'd world \<Rightarrow> 'd world" where
  "upd_dev d f w = w\<lparr>dw_dev := (dw_dev w)(d := f (dw_dev w d))\<rparr>"

definition set_dev_errno :: "rt_err_t \<Rightarrow> 'd world \<Rightarrow> 'd world" where
  "set_dev_errno e w = w\<lparr>dw_kernel := rt_set_errno e (dw_kernel w)\<rparr>"

definition is_device :: "nat \<Rightarrow> 'd world \<Rightarrow> bool" where
  "is_device d w = (rt_object_get_type d (dw_objs w) = Class_Device)"

subsection \<open>Operations\<close>

definition rt_device_find :: "string \<Rightarrow> 'd world \<Rightarrow> (nat option \<times> 'd world) option" where
  "rt_device_find name w = do {
     (d, k) \<leftarrow> rt_object_find (Some name) Class_Device (dw_objs w) (dw_kernel w);
     Some (d, w\<lparr>dw_kernel := k\<rparr>)
   }"

definition rt_device_register :: "nat option \<Rightarrow> string \<Rightarrow> u16 \<Rightarrow> 'd world \<Rightarrow> (rt_err_t \<times> 'd world) option" where
  "rt_device_register dev name flags w = (case dev of
       None \<Rightarrow> Some (- RT_ERROR, w)
     | Some d \<Rightarrow> do {
         (found, w1) \<leftarrow> rt_device_find name w;
         (if found \<noteq> None then Some (- RT_ERROR, w1)
          else do {
            (o1, k1) \<leftarrow> rt_object_init d Class_Device name (dw_objs w1) (dw_kernel w1);
            let w2 = w1\<lparr>dw_objs := o1, dw_kernel := k1\<rparr>;
            Some (RT_EOK, upd_dev d (\<lambda>v. v\<lparr>dv_flag := flags, dv_ref_count := 0, dv_open_flag := 0\<rparr>) w2)
          })
       })"

definition rt_device_unregister :: "nat \<Rightarrow> 'd world \<Rightarrow> (rt_err_t \<times> 'd world) option" where
  "rt_device_unregister d w = do {
     rt_assert (is_device d w);
     rt_assert (rt_object_is_systemobject d (dw_objs w));
     Some (RT_EOK, w\<lparr>dw_objs := rt_object_detach d (dw_objs w)\<rparr>)
   }"

text \<open>The memory that \<open>rt_malloc\<close> gives for a device, if it does, is an argument.\<close>

definition rt_device_create :: "nat option \<Rightarrow> int \<Rightarrow> 'd world \<Rightarrow> nat option \<times> 'd world" where
  "rt_device_create alloc type w = (case alloc of
       None \<Rightarrow> (None, w)
     | Some d \<Rightarrow> (Some d, upd_dev d (\<lambda>_. device_zero\<lparr>dv_type := type\<rparr>)
         (w\<lparr>dw_objs := (dw_objs w)\<lparr>o_type := (o_type (dw_objs w))(d := (Class_Null, False))\<rparr>\<rparr>)))"

definition rt_device_destroy :: "nat \<Rightarrow> 'd world \<Rightarrow> 'd world option" where
  "rt_device_destroy d w = do {
     rt_assert (is_device d w);
     rt_assert (\<not> rt_object_is_systemobject d (dw_objs w));
     Some (w\<lparr>dw_objs := rt_object_detach d (dw_objs w)\<rparr>)
   }"

definition rt_device_init :: "'d device_ops \<Rightarrow> nat \<Rightarrow> 'd world \<Rightarrow> rt_err_t \<times> 'd world" where
  "rt_device_init ops d w = (case dop_init ops of
       None \<Rightarrow> (RT_EOK, w)
     | Some init \<Rightarrow>
         if has_flag RT_DEVICE_FLAG_ACTIVATED (dv_flag (dw_dev w d)) then (RT_EOK, w)
         else (let (result, w1) = init w in
           if result \<noteq> RT_EOK then (result, w1)
           else (result, upd_dev d (dv_flag_update (set_flag RT_DEVICE_FLAG_ACTIVATED)) w1)))"

text \<open>The first part of \<open>rt_device_open\<close>: the driver is initialised unless the device is activated.\<close>

definition open_activate :: "'d device_ops \<Rightarrow> nat \<Rightarrow> 'd world \<Rightarrow> rt_err_t \<times> 'd world" where
  "open_activate ops d w =
     (if has_flag RT_DEVICE_FLAG_ACTIVATED (dv_flag (dw_dev w d)) then (RT_EOK, w)
      else (let (result, w1) = (case dop_init ops of None \<Rightarrow> (RT_EOK, w) | Some init \<Rightarrow> init w) in
        if result \<noteq> RT_EOK then (result, w1)
        else (RT_EOK, upd_dev d (dv_flag_update (set_flag RT_DEVICE_FLAG_ACTIVATED)) w1)))"

definition open_driver :: "'d device_ops \<Rightarrow> nat \<Rightarrow> u16 \<Rightarrow> 'd world \<Rightarrow> rt_err_t \<times> 'd world" where
  "open_driver ops d oflag w = (case dop_open ops of
       Some open1 \<Rightarrow> open1 oflag w
     | None \<Rightarrow> (RT_EOK, upd_dev d (dv_open_flag_update (\<lambda>_. oflag AND RT_DEVICE_OFLAG_MASK)) w))"

definition rt_device_open :: "'d device_ops \<Rightarrow> nat \<Rightarrow> u16 \<Rightarrow> 'd world \<Rightarrow> (rt_err_t \<times> 'd world) option" where
  "rt_device_open ops d oflag w = do {
     rt_assert (is_device d w);
     (let (result, w1) = open_activate ops d w in
      if result \<noteq> RT_EOK then Some (result, w1)
      else if has_flag RT_DEVICE_FLAG_STANDALONE (dv_flag (dw_dev w1 d))
        \<and> has_flag RT_DEVICE_OFLAG_OPEN (dv_open_flag (dw_dev w1 d)) then Some (- RT_EBUSY, w1)
      else (let (result, w2) = open_driver ops d oflag w1 in
        if result = RT_EOK \<or> result = - RT_ENOSYS then do {
          let w3 = upd_dev d (\<lambda>v. v\<lparr>dv_open_flag := set_flag RT_DEVICE_OFLAG_OPEN (dv_open_flag v),
            dv_ref_count := dv_ref_count v + 1\<rparr>) w2;
          rt_assert (dv_ref_count (dw_dev w3 d) \<noteq> 0);
          Some (result, w3)
        } else Some (result, w2)))
   }"

definition rt_device_close :: "'d device_ops \<Rightarrow> nat \<Rightarrow> 'd world \<Rightarrow> (rt_err_t \<times> 'd world) option" where
  "rt_device_close ops d w = do {
     rt_assert (is_device d w);
     (if dv_ref_count (dw_dev w d) = 0 then Some (- RT_ERROR, w)
      else (let w1 = upd_dev d (dv_ref_count_update (\<lambda>n. n - 1)) w in
        if dv_ref_count (dw_dev w1 d) \<noteq> 0 then Some (RT_EOK, w1)
        else (let (result, w2) = (case dop_close ops of None \<Rightarrow> (RT_EOK, w1) | Some close1 \<Rightarrow> close1 w1) in
          Some (result, if result = RT_EOK \<or> result = - RT_ENOSYS
            then upd_dev d (dv_open_flag_update (\<lambda>_. RT_DEVICE_OFLAG_CLOSE)) w2 else w2))))
   }"

definition rt_device_read ::
  "'d device_ops \<Rightarrow> nat \<Rightarrow> int \<Rightarrow> nat \<Rightarrow> 'd world \<Rightarrow> (int \<times> u8 list \<times> 'd world) option" where
  "rt_device_read ops d pos sz w = do {
     rt_assert (is_device d w);
     (if dv_ref_count (dw_dev w d) = 0 then Some (0, [], set_dev_errno (- RT_ERROR) w)
      else (case dop_read ops of
          Some read \<Rightarrow> Some (read pos sz w)
        | None \<Rightarrow> Some (0, [], set_dev_errno (- RT_ENOSYS) w)))
   }"

definition rt_device_write ::
  "'d device_ops \<Rightarrow> nat \<Rightarrow> int \<Rightarrow> u8 list \<Rightarrow> 'd world \<Rightarrow> (int \<times> 'd world) option" where
  "rt_device_write ops d pos buffer w = do {
     rt_assert (is_device d w);
     (if dv_ref_count (dw_dev w d) = 0 then Some (0, set_dev_errno (- RT_ERROR) w)
      else (case dop_write ops of
          Some write \<Rightarrow> Some (write pos buffer w)
        | None \<Rightarrow> Some (0, set_dev_errno (- RT_ENOSYS) w)))
   }"

definition rt_device_control :: "'d device_ops \<Rightarrow> nat \<Rightarrow> int \<Rightarrow> int \<Rightarrow> 'd world \<Rightarrow> (rt_err_t \<times> 'd world) option" where
  "rt_device_control ops d cmd arg w = do {
     rt_assert (is_device d w);
     (case dop_control ops of
        Some control \<Rightarrow> Some (control cmd arg w)
      | None \<Rightarrow> Some (- RT_ENOSYS, w))
   }"

definition rt_device_set_rx_indicate :: "nat \<Rightarrow> nat option \<Rightarrow> 'd world \<Rightarrow> (rt_err_t \<times> 'd world) option" where
  "rt_device_set_rx_indicate d rx_ind w = do {
     rt_assert (is_device d w);
     Some (RT_EOK, upd_dev d (dv_rx_indicate_update (\<lambda>_. rx_ind)) w)
   }"

definition rt_device_set_tx_complete :: "nat \<Rightarrow> nat option \<Rightarrow> 'd world \<Rightarrow> (rt_err_t \<times> 'd world) option" where
  "rt_device_set_tx_complete d tx_done w = do {
     rt_assert (is_device d w);
     Some (RT_EOK, upd_dev d (dv_tx_complete_update (\<lambda>_. tx_done)) w)
   }"

subsection \<open>Opening and closing\<close>

text \<open>
  What the functions of a driver may do to the device itself: nothing to its flags, its count and its
  place among the objects; the mark that it is open changes at most in an \<open>open\<close> that succeeds.
\<close>

definition driver_frame :: "nat \<Rightarrow> 'd world \<Rightarrow> 'd world \<Rightarrow> bool" where
  "driver_frame d w w' \<longleftrightarrow> (is_device d w \<longrightarrow> is_device d w') \<and> dv_flag (dw_dev w' d) = dv_flag (dw_dev w d)
     \<and> dv_ref_count (dw_dev w' d) = dv_ref_count (dw_dev w d)"

definition same_open :: "nat \<Rightarrow> 'd world \<Rightarrow> 'd world \<Rightarrow> bool" where
  "same_open d w w' \<longleftrightarrow> has_flag RT_DEVICE_OFLAG_OPEN (dv_open_flag (dw_dev w' d))
     = has_flag RT_DEVICE_OFLAG_OPEN (dv_open_flag (dw_dev w d))"

definition success :: "rt_err_t \<Rightarrow> bool" where
  "success r \<longleftrightarrow> r = RT_EOK \<or> r = - RT_ENOSYS"

definition driver_ok :: "'d device_ops \<Rightarrow> nat \<Rightarrow> bool" where
  "driver_ok ops d \<longleftrightarrow>
     (\<forall>f w. dop_init ops = Some f \<longrightarrow> driver_frame d w (snd (f w)) \<and> same_open d w (snd (f w))
          \<and> fst (f w) \<noteq> - RT_ENOSYS)
     \<and> (\<forall>f w. dop_close ops = Some f \<longrightarrow> driver_frame d w (snd (f w)))
     \<and> (\<forall>f w oflag. dop_open ops = Some f \<longrightarrow> driver_frame d w (snd (f oflag w))
          \<and> (\<not> success (fst (f oflag w)) \<longrightarrow> same_open d w (snd (f oflag w))))"

definition dev_ok :: "nat \<Rightarrow> 'd world \<Rightarrow> bool" where
  "dev_ok d w \<longleftrightarrow> is_device d w
     \<and> (dv_ref_count (dw_dev w d) \<noteq> 0 \<longrightarrow> has_flag RT_DEVICE_OFLAG_OPEN (dv_open_flag (dw_dev w d))
          \<and> has_flag RT_DEVICE_FLAG_ACTIVATED (dv_flag (dw_dev w d)))
     \<and> (has_flag RT_DEVICE_FLAG_STANDALONE (dv_flag (dw_dev w d)) \<longrightarrow> dv_ref_count (dw_dev w d) \<le> 1)"

text \<open>The mark that says exactly whether the device is open.\<close>

definition marks :: "nat \<Rightarrow> 'd world \<Rightarrow> bool" where
  "marks d w \<longleftrightarrow> (has_flag RT_DEVICE_OFLAG_OPEN (dv_open_flag (dw_dev w d)) \<longleftrightarrow> dv_ref_count (dw_dev w d) \<noteq> 0)"

lemma upd_dev_sel [simp]:
  "is_device d (upd_dev e f w) = is_device d w"
  "dw_dev (upd_dev e f w) = (dw_dev w)(e := f (dw_dev w e))"
  "dw_objs (upd_dev e f w) = dw_objs w" "dw_drv (upd_dev e f w) = dw_drv w"
  by (simp_all add: upd_dev_def is_device_def)

lemma open_activate_spec:
  assumes d: "driver_ok ops d" and w: "dev_ok d w" and r: "open_activate ops d w = (result, w1)"
  shows "dev_ok d w1" "dv_ref_count (dw_dev w1 d) = dv_ref_count (dw_dev w d)" "same_open d w w1"
    "has_flag RT_DEVICE_FLAG_STANDALONE (dv_flag (dw_dev w1 d)) = has_flag RT_DEVICE_FLAG_STANDALONE (dv_flag (dw_dev w d))"
    "result = RT_EOK \<Longrightarrow> has_flag RT_DEVICE_FLAG_ACTIVATED (dv_flag (dw_dev w1 d))"
    "success result \<Longrightarrow> result = RT_EOK"
proof -
  consider (act) "has_flag RT_DEVICE_FLAG_ACTIVATED (dv_flag (dw_dev w d))" "result = RT_EOK" "w1 = w"
    | (ok) w2 where "driver_frame d w w2" "same_open d w w2" "result = RT_EOK"
        "w1 = upd_dev d (dv_flag_update (set_flag RT_DEVICE_FLAG_ACTIVATED)) w2"
    | (fail) "driver_frame d w w1" "same_open d w w1" "result \<noteq> RT_EOK" "\<not> success result"
  proof (cases "has_flag RT_DEVICE_FLAG_ACTIVATED (dv_flag (dw_dev w d))")
    case True
    then show thesis using r by (intro act) (simp_all add: open_activate_def)
  next
    case False
    obtain r2 w2 where f: "(case dop_init ops of None \<Rightarrow> (RT_EOK, w) | Some init \<Rightarrow> init w) = (r2, w2)" by fastforce
    have fr: "driver_frame d w w2" "same_open d w w2" "r2 \<noteq> - RT_ENOSYS"
    proof (atomize (full))
    show "driver_frame d w w2 \<and> same_open d w w2 \<and> r2 \<noteq> - RT_ENOSYS"
    proof (cases "dop_init ops")
      case None
      then show ?thesis using f by (auto simp: driver_frame_def same_open_def)
    next
      case (Some i)
      then have i: "i w = (r2, w2)" using f by simp
      have "driver_frame d w (snd (i w)) \<and> same_open d w (snd (i w)) \<and> fst (i w) \<noteq> - RT_ENOSYS"
        using d Some unfolding driver_ok_def by blast
      then show ?thesis unfolding i by simp
    qed
    qed
    have e: "open_activate ops d w = (if r2 \<noteq> RT_EOK then (r2, w2)
        else (RT_EOK, upd_dev d (dv_flag_update (set_flag RT_DEVICE_FLAG_ACTIVATED)) w2))"
      unfolding open_activate_def f using False by simp
    show thesis
    proof (cases "r2 = RT_EOK")
      case True
      then show thesis using r e by (intro ok [OF fr(1,2)]) simp_all
    next
      case r2: False
      then have "result = r2" "w1 = w2" using r e by simp_all
      then show thesis using fr r2 by (intro fail) (simp_all add: success_def)
    qed
  qed
  note c = this
  show "dev_ok d w1" using w by (cases rule: c) (auto simp: dev_ok_def driver_frame_def same_open_def)
  show "dv_ref_count (dw_dev w1 d) = dv_ref_count (dw_dev w d)" by (cases rule: c) (simp_all add: driver_frame_def)
  show "same_open d w w1" by (cases rule: c) (simp_all add: same_open_def)
  show "has_flag RT_DEVICE_FLAG_STANDALONE (dv_flag (dw_dev w1 d)) = has_flag RT_DEVICE_FLAG_STANDALONE (dv_flag (dw_dev w d))"
    by (cases rule: c) (simp_all add: driver_frame_def)
  show "has_flag RT_DEVICE_FLAG_ACTIVATED (dv_flag (dw_dev w1 d))" if "result = RT_EOK"
    using that by (cases rule: c) simp_all
  show "result = RT_EOK" if "success result" using that by (cases rule: c) simp_all
qed

lemma open_driver_spec:
  assumes d: "driver_ok ops d" and w: "is_device d w" and r: "open_driver ops d oflag w = (result, w1)"
  shows "is_device d w1" "dv_ref_count (dw_dev w1 d) = dv_ref_count (dw_dev w d)" "dv_flag (dw_dev w1 d) = dv_flag (dw_dev w d)"
    "\<not> success result \<Longrightarrow> same_open d w w1"
proof -
  have "is_device d w1 \<and> dv_ref_count (dw_dev w1 d) = dv_ref_count (dw_dev w d)
    \<and> dv_flag (dw_dev w1 d) = dv_flag (dw_dev w d) \<and> (\<not> success result \<longrightarrow> same_open d w w1)"
  proof (cases "dop_open ops")
    case None
    then show ?thesis using r w by (auto simp: open_driver_def success_def)
  next
    case (Some f)
    then have "f oflag w = (result, w1)" using r by (simp add: open_driver_def)
    moreover have "driver_frame d w (snd (f oflag w)) \<and> (\<not> success (fst (f oflag w)) \<longrightarrow> same_open d w (snd (f oflag w)))"
      using d Some unfolding driver_ok_def by blast
    ultimately show ?thesis using w by (simp add: driver_frame_def)
  qed
  then show "is_device d w1" "dv_ref_count (dw_dev w1 d) = dv_ref_count (dw_dev w d)" "dv_flag (dw_dev w1 d) = dv_flag (dw_dev w d)"
    "\<not> success result \<Longrightarrow> same_open d w w1" by blast+
qed

lemma device_open_spec:
  assumes d: "driver_ok ops d" and w: "dev_ok d w" and n: "dv_ref_count (dw_dev w d) \<noteq> - 1"
  shows "\<exists>r w'. rt_device_open ops d oflag w = Some (r, w') \<and> dev_ok d w'
    \<and> dv_ref_count (dw_dev w' d) = dv_ref_count (dw_dev w d) + (if success r then 1 else 0)
    \<and> has_flag RT_DEVICE_FLAG_STANDALONE (dv_flag (dw_dev w' d)) = has_flag RT_DEVICE_FLAG_STANDALONE (dv_flag (dw_dev w d))
    \<and> (marks d w \<longrightarrow> marks d w')"
proof -
  obtain r1 w1 where 1: "open_activate ops d w = (r1, w1)" by (cases "open_activate ops d w")
  note a = open_activate_spec [OF d w 1]
  have dev: "is_device d w" using w by (simp add: dev_ok_def)
  consider (init) "r1 \<noteq> RT_EOK"
    | (busy) "r1 = RT_EOK" "has_flag RT_DEVICE_FLAG_STANDALONE (dv_flag (dw_dev w1 d))"
        "has_flag RT_DEVICE_OFLAG_OPEN (dv_open_flag (dw_dev w1 d))"
    | (go) "r1 = RT_EOK" "\<not> (has_flag RT_DEVICE_FLAG_STANDALONE (dv_flag (dw_dev w1 d))
        \<and> has_flag RT_DEVICE_OFLAG_OPEN (dv_open_flag (dw_dev w1 d)))" by blast
  then show ?thesis
  proof cases
    case init
    have "\<not> success r1" using init a(6) by blast
    then show ?thesis using init 1 a dev by (simp add: rt_device_open_def rt_assert_def marks_def same_open_def)
  next
    case busy
    then show ?thesis using 1 a dev by (simp add: rt_device_open_def rt_assert_def success_def marks_def same_open_def)
  next
    case go
    obtain r2 w2 where 2: "open_driver ops d oflag w1 = (r2, w2)" by (cases "open_driver ops d oflag w1")
    have "is_device d w1" using a(1) by (simp add: dev_ok_def)
    note o = open_driver_spec [OF d this 2]
    let ?w3 = "upd_dev d (\<lambda>v. v\<lparr>dv_open_flag := set_flag RT_DEVICE_OFLAG_OPEN (dv_open_flag v),
            dv_ref_count := dv_ref_count v + 1\<rparr>) w2"
    have n2: "dv_ref_count (dw_dev w2 d) = dv_ref_count (dw_dev w d)" using o(2) a(2) by simp
    have n1: "dv_ref_count (dw_dev w d) + 1 \<noteq> 0" using n by (metis add_eq_0_iff2)
    then have run: "rt_device_open ops d oflag w = Some (r2, if success r2 then ?w3 else w2)"
      using dev 1 2 go n2 by (auto simp: rt_device_open_def rt_assert_def success_def)
    show ?thesis
    proof (cases "success r2")
      case False
      have "dev_ok d w2" using a(1) o(1-3) o(4) [OF False] by (simp add: dev_ok_def same_open_def)
      then show ?thesis using run False n2 a(3,4) o(3) o(4) [OF False] by (simp add: marks_def same_open_def)
    next
      case True
      have z: "has_flag RT_DEVICE_FLAG_STANDALONE (dv_flag (dw_dev w1 d)) \<Longrightarrow> dv_ref_count (dw_dev w1 d) = 0"
        using go(2) a(1) by (auto simp: dev_ok_def)
      have "dev_ok d ?w3" using o(1-3) a(5) [OF go(1)] z by (simp add: dev_ok_def)
      then show ?thesis using run True n2 n1 a(4) o(3) by (simp add: marks_def)
    qed
  qed
qed

lemma device_close_spec:
  assumes d: "driver_ok ops d" and w: "dev_ok d w"
  shows "\<exists>r w'. rt_device_close ops d w = Some (r, w') \<and> dev_ok d w'
    \<and> unat (dv_ref_count (dw_dev w' d)) = unat (dv_ref_count (dw_dev w d)) - 1
    \<and> has_flag RT_DEVICE_FLAG_STANDALONE (dv_flag (dw_dev w' d)) = has_flag RT_DEVICE_FLAG_STANDALONE (dv_flag (dw_dev w d))
    \<and> (marks d w \<and> (unat (dv_ref_count (dw_dev w d)) = 1 \<longrightarrow> success r) \<longrightarrow> marks d w')"
proof -
  have dev: "is_device d w" using w by (simp add: dev_ok_def)
  let ?n = "dv_ref_count (dw_dev w d)"
  show ?thesis
  proof (cases "?n = 0")
    case True
    then show ?thesis using dev w by (simp add: rt_device_close_def rt_assert_def marks_def)
  next
    case nz: False
    let ?w1 = "upd_dev d (dv_ref_count_update (\<lambda>n. n - 1)) w"
    have un: "unat (?n - 1) = unat ?n - 1" using nz by (simp add: unat_minus_one)
    show ?thesis
    proof (cases "?n - 1 = 0")
      case False
      have "\<not> has_flag RT_DEVICE_FLAG_STANDALONE (dv_flag (dw_dev w d))"
      proof
        assume "has_flag RT_DEVICE_FLAG_STANDALONE (dv_flag (dw_dev w d))"
        then have "unat ?n \<le> 1" using w by (simp add: dev_ok_def word_le_nat_alt)
        then have "unat (?n - 1) = 0" using un by simp
        then show False using False by (simp add: unat_eq_0)
      qed
      then have "dev_ok d ?w1" using w nz by (simp add: dev_ok_def)
      then show ?thesis using dev nz False un w by (simp add: rt_device_close_def rt_assert_def marks_def dev_ok_def)
    next
      case True
      obtain r w2 where c: "(case dop_close ops of None \<Rightarrow> (RT_EOK, ?w1) | Some close1 \<Rightarrow> close1 ?w1) = (r, w2)"
        by fastforce
      have f: "driver_frame d ?w1 w2"
      proof (cases "dop_close ops")
        case None
        then show ?thesis using c by (auto simp: driver_frame_def)
      next
        case (Some g)
        then have "g ?w1 = (r, w2)" using c by simp
        moreover have "driver_frame d ?w1 (snd (g ?w1))" using d Some unfolding driver_ok_def by blast
        ultimately show ?thesis by simp
      qed
      define w3 where "w3 = (if r = RT_EOK \<or> r = - RT_ENOSYS
        then upd_dev d (dv_open_flag_update (\<lambda>_. RT_DEVICE_OFLAG_CLOSE)) w2 else w2)"
      have run: "rt_device_close ops d w = Some (r, w3)"
        using dev nz True c by (simp add: rt_device_close_def rt_assert_def Let_def w3_def)
      have z: "dv_ref_count (dw_dev w3 d) = 0" using f True by (simp add: driver_frame_def w3_def)
      have fl: "dv_flag (dw_dev w3 d) = dv_flag (dw_dev w d)" using f by (simp add: driver_frame_def w3_def)
      have "dev_ok d w3" using z f dev by (auto simp: dev_ok_def driver_frame_def w3_def)
      moreover have "marks d w3" if "unat ?n = 1 \<longrightarrow> success r"
      proof -
        have "unat ?n = 1" using un True nz by (simp add: unat_eq_0 [symmetric])
        then have "success r" using that by simp
        then show ?thesis using z by (simp add: marks_def w3_def success_def has_flag_def)
      qed
      ultimately show ?thesis using run z fl un True by simp
    qed
  qed
qed

datatype dev_op = Dev_open u16 | Dev_close

fun dev_step :: "'d device_ops \<Rightarrow> nat \<Rightarrow> dev_op \<Rightarrow> 'd world \<Rightarrow> (rt_err_t \<times> 'd world) option" where
  "dev_step ops d (Dev_open oflag) w = rt_device_open ops d oflag w"
| "dev_step ops d Dev_close w = rt_device_close ops d w"

fun dev_run :: "'d device_ops \<Rightarrow> nat \<Rightarrow> dev_op list \<Rightarrow> 'd world \<Rightarrow> (rt_err_t list \<times> 'd world) option" where
  "dev_run ops d [] w = Some ([], w)"
| "dev_run ops d (a # as) w = do {
     (r, w1) \<leftarrow> dev_step ops d a w;
     (rs, w2) \<leftarrow> dev_run ops d as w1;
     Some (r # rs, w2)
   }"

text \<open>How often the device is open, as the callers can count it from the results they get.\<close>

fun open_count :: "dev_op list \<Rightarrow> rt_err_t list \<Rightarrow> nat \<Rightarrow> nat" where
  "open_count (Dev_open _ # as) (r # rs) n = open_count as rs (if success r then n + 1 else n)"
| "open_count (Dev_close # as) (r # rs) n = open_count as rs (n - 1)"
| "open_count _ _ n = n"

text \<open>Every closing of a device that is open once succeeds.\<close>

fun last_close_ok :: "dev_op list \<Rightarrow> rt_err_t list \<Rightarrow> nat \<Rightarrow> bool" where
  "last_close_ok (Dev_open _ # as) (r # rs) n = last_close_ok as rs (if success r then n + 1 else n)"
| "last_close_ok (Dev_close # as) (r # rs) n = ((n = 1 \<longrightarrow> success r) \<and> last_close_ok as rs (n - 1))"
| "last_close_ok _ _ n = True"

definition standalone :: "nat \<Rightarrow> 'd world \<Rightarrow> bool" where
  "standalone d w = has_flag RT_DEVICE_FLAG_STANDALONE (dv_flag (dw_dev w d))"

lemma device_sessions_spec:
  assumes "driver_ok ops d" "dev_ok d w" "unat (dv_ref_count (dw_dev w d)) + length as \<le> 255"
  shows "\<exists>rs w'. dev_run ops d as w = Some (rs, w') \<and> dev_ok d w' \<and> length rs = length as
    \<and> unat (dv_ref_count (dw_dev w' d)) = open_count as rs (unat (dv_ref_count (dw_dev w d)))
    \<and> (standalone d w \<longrightarrow> unat (dv_ref_count (dw_dev w' d)) \<le> 1)
    \<and> (marks d w \<and> last_close_ok as rs (unat (dv_ref_count (dw_dev w d))) \<longrightarrow> marks d w')"
  using assms(2,3)
proof (induction as arbitrary: w)
  case Nil
  have "standalone d w \<longrightarrow> unat (dv_ref_count (dw_dev w d)) \<le> 1"
    using Nil(1) by (simp add: dev_ok_def standalone_def word_le_nat_alt)
  then show ?case using Nil by simp
next
  case (Cons a as)
  obtain r w1 where 1: "dev_step ops d a w = Some (r, w1)" "dev_ok d w1" "standalone d w1 = standalone d w"
    "unat (dv_ref_count (dw_dev w1 d)) = (case a of Dev_open _ \<Rightarrow> if success r then unat (dv_ref_count (dw_dev w d)) + 1
       else unat (dv_ref_count (dw_dev w d)) | Dev_close \<Rightarrow> unat (dv_ref_count (dw_dev w d)) - 1)"
    "marks d w \<Longrightarrow> (a = Dev_close \<and> unat (dv_ref_count (dw_dev w d)) = 1 \<Longrightarrow> success r) \<Longrightarrow> marks d w1"
  proof (cases a)
    case (Dev_open oflag)
    have lt: "unat (dv_ref_count (dw_dev w d)) < 255" using Cons.prems(2) by simp
    moreover have "unat (- 1 :: u8) = 255" by (simp add: unsigned_minus_1_eq_mask mask_eq_exp_minus_1)
    ultimately have n: "dv_ref_count (dw_dev w d) \<noteq> - 1" by auto
    obtain r w' where o: "rt_device_open ops d oflag w = Some (r, w')" "dev_ok d w'"
      "dv_ref_count (dw_dev w' d) = dv_ref_count (dw_dev w d) + (if success r then 1 else 0)"
      "has_flag RT_DEVICE_FLAG_STANDALONE (dv_flag (dw_dev w' d)) = has_flag RT_DEVICE_FLAG_STANDALONE (dv_flag (dw_dev w d))"
      "marks d w \<longrightarrow> marks d w'"
      using device_open_spec [OF assms(1) Cons.prems(1) n, of oflag] by (elim exE conjE)
    have "unat (dv_ref_count (dw_dev w d) + 1) = unat (dv_ref_count (dw_dev w d)) + 1"
      using lt by (simp add: unat_word_ariths)
    then show thesis using o Dev_open that [of r w'] by (simp add: standalone_def)
  next
    case Dev_close
    then show thesis using device_close_spec [OF assms(1) Cons.prems(1)] that unfolding standalone_def by fastforce
  qed
  have "unat (dv_ref_count (dw_dev w1 d)) + length as \<le> 255"
    using 1(4) Cons.prems(2) by (cases a) (auto split: if_splits)
  from Cons.IH [OF 1(2) this] obtain rs w' where 2: "dev_run ops d as w1 = Some (rs, w')" "dev_ok d w'"
    "length rs = length as" "unat (dv_ref_count (dw_dev w' d)) = open_count as rs (unat (dv_ref_count (dw_dev w1 d)))"
    "standalone d w1 \<longrightarrow> unat (dv_ref_count (dw_dev w' d)) \<le> 1"
    "marks d w1 \<and> last_close_ok as rs (unat (dv_ref_count (dw_dev w1 d))) \<longrightarrow> marks d w'" by blast
  have "dev_run ops d (a # as) w = Some (r # rs, w')" using 1(1) 2(1) by simp
  moreover have "open_count (a # as) (r # rs) (unat (dv_ref_count (dw_dev w d)))
      = open_count as rs (unat (dv_ref_count (dw_dev w1 d)))" using 1(4) by (cases a) simp_all
  moreover have "marks d w'" if "marks d w" "last_close_ok (a # as) (r # rs) (unat (dv_ref_count (dw_dev w d)))"
    using that 1(4,5) 2(6) by (cases a) auto
  ultimately show ?case using 2 1(3) by simp
qed

text \<open>
  C29 (device sessions). Whatever sequence of opening and closing a device sees, through a driver that
  leaves the device's own fields alone, no assertion fails while it is open at most 255 times; the count of
  the device is the number of successful openings less the closings that had something to close, the
  device is marked open and activated while that is not zero, and a standalone device is open once at most.
  As long as every closing of a device that is open once succeeds, the mark says exactly whether it is open
  (\<open>close_failure_wedges\<close> shows what a failure leads to).
\<close>

theorem device_sessions:
  assumes "driver_ok ops d" "dev_ok d w" "unat (dv_ref_count (dw_dev w d)) + length as \<le> 255"
  shows "\<exists>rs w'. dev_run ops d as w = Some (rs, w') \<and> dev_ok d w' \<and> length rs = length as
    \<and> unat (dv_ref_count (dw_dev w' d)) = open_count as rs (unat (dv_ref_count (dw_dev w d)))
    \<and> (standalone d w \<longrightarrow> unat (dv_ref_count (dw_dev w' d)) \<le> 1)
    \<and> (marks d w \<and> last_close_ok as rs (unat (dv_ref_count (dw_dev w d))) \<longrightarrow> marks d w')"
  by (rule device_sessions_spec [OF assms])

subsection \<open>Registration\<close>

definition world_ok :: "'d world \<Rightarrow> bool" where
  "world_ok w \<longleftrightarrow> objs_ok (dw_objs w) \<and> sched_ok (dw_kernel w) \<and> rt_interrupt_nest (dw_kernel w) = 0"

lemma managed_device: "managed Class_Device"
  by (simp add: managed_def)

lemma device_find_spec:
  assumes "world_ok w"
  obtains k where "rt_device_find name w = Some (find_loop (o_name (dw_objs w)) name (objects_of (dw_objs w) Class_Device),
      w\<lparr>dw_kernel := k\<rparr>)" "world_ok (w\<lparr>dw_kernel := k\<rparr>)"
proof -
  obtain k' where k': "rt_object_find (Some name) Class_Device (dw_objs w) (dw_kernel w)
      = Some (find_loop (o_name (dw_objs w)) name (objects_of (dw_objs w) Class_Device), k')"
    "sched_ok k'" "rt_interrupt_nest k' = 0"
    by (rule object_find_spec [of "dw_objs w" "dw_kernel w" Class_Device]) (use assms managed_device in \<open>auto simp: world_ok_def\<close>)
  show ?thesis by (rule that [of k']) (use assms k' in \<open>simp_all add: rt_device_find_def world_ok_def\<close>)
qed

lemma device_register_spec:
  assumes w: "world_ok w" and d: "rt_object_get_type d (dw_objs w) = Class_Null" and n: "c_string name" "c_string name'"
  shows "(case find_loop (o_name (dw_objs w)) name (objects_of (dw_objs w) Class_Device) of
      Some e \<Rightarrow> \<exists>k. rt_device_register (Some d) name flags w = Some (- RT_ERROR, w\<lparr>dw_kernel := k\<rparr>)
    | None \<Rightarrow> \<exists>w1 k2. rt_device_register (Some d) name flags w = Some (RT_EOK, w1) \<and> world_ok w1 \<and> is_device d w1
        \<and> dv_flag (dw_dev w1 d) = flags \<and> dv_ref_count (dw_dev w1 d) = 0 \<and> dv_open_flag (dw_dev w1 d) = 0
        \<and> rt_device_find name' w1 = Some (if take RT_NAME_MAX name = take RT_NAME_MAX name' then Some d
             else find_loop (o_name (dw_objs w)) name' (objects_of (dw_objs w) Class_Device), w1\<lparr>dw_kernel := k2\<rparr>)
        \<and> (take RT_NAME_MAX name = take RT_NAME_MAX name' \<longrightarrow>
             (\<forall>e. \<exists>k. rt_device_register (Some e) name' flags w1 = Some (- RT_ERROR, w1\<lparr>dw_kernel := k\<rparr>)))
        \<and> (\<exists>w3. rt_device_unregister d w1 = Some (RT_EOK, w3) \<and> world_ok w3
             \<and> objects_of (dw_objs w3) Class_Device = objects_of (dw_objs w) Class_Device))"
proof -
  obtain k where k: "rt_device_find name w = Some (find_loop (o_name (dw_objs w)) name (objects_of (dw_objs w) Class_Device),
      w\<lparr>dw_kernel := k\<rparr>)" "world_ok (w\<lparr>dw_kernel := k\<rparr>)"
    by (rule device_find_spec [OF w])
  show ?thesis
  proof (cases "find_loop (o_name (dw_objs w)) name (objects_of (dw_objs w) Class_Device)")
    case (Some e)
    then show ?thesis using k by (auto simp: rt_device_register_def)
  next
    case None
    have o1: "objs_ok (dw_objs w)" and s: "sched_ok k" "rt_interrupt_nest k = 0"
      using w k(2) by (simp_all add: world_ok_def)
    have x: "fst (o_type (dw_objs w) d) = Class_Null" using d by (simp add: rt_object_get_type_def)
    obtain o2 k2 where o2: "rt_object_init d Class_Device name (dw_objs w) k = Some (o2, k2)" "objs_ok o2" "sched_ok k2"
      "rt_interrupt_nest k2 = rt_interrupt_nest k" "objects_of o2 Class_Device = d # objects_of (dw_objs w) Class_Device"
      "o_name o2 = (o_name (dw_objs w))(d := rt_strncpy name RT_NAME_MAX)"
      "o_type o2 = (o_type (dw_objs w))(d := (Class_Device, True))"
      by (rule object_init_spec [OF o1 s(1) managed_device x])
    define w1 where "w1 = upd_dev d (\<lambda>v. v\<lparr>dv_flag := flags, dv_ref_count := 0, dv_open_flag := 0\<rparr>)
      (w\<lparr>dw_objs := o2, dw_kernel := k2\<rparr>)"
    have ws: "dw_objs w1 = o2" "dw_kernel w1 = k2" by (simp_all add: w1_def upd_dev_def)
    have run: "rt_device_register (Some d) name flags w = Some (RT_EOK, w1)"
      using k(1) None o2(1) by (simp add: rt_device_register_def w1_def)
    have w1: "world_ok w1" using o2(2-4) s(2) ws by (simp add: world_ok_def)
    have nx: "d \<notin> set (objects_of (dw_objs w) Class_Device)" by (rule unregistered [OF o1 managed_device x])
    have find: "find_loop (o_name o2) nm (objects_of o2 Class_Device) = (if take RT_NAME_MAX name = take RT_NAME_MAX nm then Some d
        else find_loop (o_name (dw_objs w)) nm (objects_of (dw_objs w) Class_Device))" if "c_string nm" for nm
      using o2(5,6) nx strncmp_strncpy [OF n(1) that, of RT_NAME_MAX] by (simp add: find_loop_None)
    obtain k3 where k3: "rt_device_find name' w1 = Some (find_loop (o_name o2) name' (objects_of o2 Class_Device), w1\<lparr>dw_kernel := k3\<rparr>)"
      using device_find_spec [OF w1, of name'] ws by auto
    have again: "\<exists>k. rt_device_register (Some e) name' flags w1 = Some (- RT_ERROR, w1\<lparr>dw_kernel := k\<rparr>)"
      if "take RT_NAME_MAX name = take RT_NAME_MAX name'" for e
      using k3 find [OF n(2)] that by (auto simp: rt_device_register_def)
    have un: "\<exists>w3. rt_device_unregister d w1 = Some (RT_EOK, w3) \<and> world_ok w3
        \<and> objects_of (dw_objs w3) Class_Device = objects_of (dw_objs w) Class_Device"
      using object_detach_spec(1) [OF o2(2), of d] object_detach_spec(2) [OF o2(2) managed_device, of d] o2(3-5,7) nx s(2) ws
      by (simp add: rt_device_unregister_def is_device_def rt_object_get_type_def rt_object_is_systemobject_def
          rt_assert_def world_ok_def)
    have "is_device d w1" "dv_flag (dw_dev w1 d) = flags" "dv_ref_count (dw_dev w1 d) = 0" "dv_open_flag (dw_dev w1 d) = 0"
      using o2(7) ws by (simp_all add: is_device_def rt_object_get_type_def w1_def)
    then show ?thesis using None run w1 k3 find [OF n(2)] again un by auto
  qed
qed

text \<open>
  A device whose name differs in its first eight characters from those of the
  registered devices is registered closed and with its flags, and is found by every name that agrees with
  its own in those characters, while no other look-up changes; a second device under such a name is refused
  and changes nothing. Unregistering it restores the list.
\<close>

theorem device_register_correct:
  assumes "world_ok w" "rt_object_get_type d (dw_objs w) = Class_Null" "c_string name" "c_string name'"
  shows "(case find_loop (o_name (dw_objs w)) name (objects_of (dw_objs w) Class_Device) of
      Some e \<Rightarrow> \<exists>k. rt_device_register (Some d) name flags w = Some (- RT_ERROR, w\<lparr>dw_kernel := k\<rparr>)
    | None \<Rightarrow> \<exists>w1 k2. rt_device_register (Some d) name flags w = Some (RT_EOK, w1) \<and> world_ok w1 \<and> is_device d w1
        \<and> dv_flag (dw_dev w1 d) = flags \<and> dv_ref_count (dw_dev w1 d) = 0 \<and> dv_open_flag (dw_dev w1 d) = 0
        \<and> rt_device_find name' w1 = Some (if take RT_NAME_MAX name = take RT_NAME_MAX name' then Some d
             else find_loop (o_name (dw_objs w)) name' (objects_of (dw_objs w) Class_Device), w1\<lparr>dw_kernel := k2\<rparr>)
        \<and> (take RT_NAME_MAX name = take RT_NAME_MAX name' \<longrightarrow>
             (\<forall>e. \<exists>k. rt_device_register (Some e) name' flags w1 = Some (- RT_ERROR, w1\<lparr>dw_kernel := k\<rparr>)))
        \<and> (\<exists>w3. rt_device_unregister d w1 = Some (RT_EOK, w3) \<and> world_ok w3
             \<and> objects_of (dw_objs w3) Class_Device = objects_of (dw_objs w) Class_Device))"
  by (rule device_register_spec [OF assms])

subsection \<open>Behaviour at the edges\<close>

text \<open>
  \<open>rt_device_destroy\<close> fails its assertions on every device that \<open>rt_device_create\<close> has made: before its
  registration it is not an object of the class of devices, and afterwards it is a static object.
\<close>

lemma device_destroy_asserts:
  assumes "rt_device_create (Some d) type w = (Some d, w1)"
  shows "rt_device_destroy d w1 = None"
    "rt_device_register (Some d) name flags w1 = Some (RT_EOK, w2) \<Longrightarrow> rt_device_destroy d w2 = None"
proof -
  show "rt_device_destroy d w1 = None"
    using assms by (auto simp: rt_device_create_def rt_device_destroy_def is_device_def rt_object_get_type_def upd_dev_def rt_assert_def)
  assume "rt_device_register (Some d) name flags w1 = Some (RT_EOK, w2)"
  then have "snd (o_type (dw_objs w2) d)"
    by (auto simp: rt_device_register_def rt_object_init_def object_insert_def Let_def split: bind_splits if_splits)
  then show "rt_device_destroy d w2 = None"
    by (simp add: rt_device_destroy_def rt_object_is_systemobject_def rt_assert_def)
qed

text \<open>
  When the driver fails to close the device, the count is 0 and the mark stays: a standalone device then
  can be opened no more, and closing it again is an error.
\<close>

lemma close_failure_wedges:
  assumes d: "dop_close ops = Some f" and w: "is_device d w" "dv_ref_count (dw_dev w d) = 1"
    "has_flag RT_DEVICE_OFLAG_OPEN (dv_open_flag (dw_dev w d))" "has_flag RT_DEVICE_FLAG_ACTIVATED (dv_flag (dw_dev w d))" "standalone d w"
    and f: "\<And>v. f v = (e, v)" "\<not> success e"
  shows "\<exists>w1. rt_device_close ops d w = Some (e, w1) \<and> rt_device_open ops d oflag w1 = Some (- RT_EBUSY, w1)
    \<and> rt_device_close ops d w1 = Some (- RT_ERROR, w1)"
proof -
  let ?w1 = "upd_dev d (dv_ref_count_update (\<lambda>n. n - 1)) w"
  have "rt_device_close ops d w = Some (e, ?w1)"
    using d w f by (simp add: rt_device_close_def rt_assert_def success_def)
  then show ?thesis using w
    by (simp add: rt_device_open_def rt_device_close_def open_activate_def standalone_def rt_assert_def)
qed

subsection \<open>Witnesses\<close>

text \<open>A driver that counts its calls; closing it is counted too.\<close>

definition demo_driver :: "(nat \<times> nat \<times> nat) device_ops" where
  "demo_driver = \<lparr>dop_init = Some (\<lambda>w. (RT_EOK, dw_drv_update (\<lambda>(i, p, c). (i + 1, p, c)) w)),
     dop_open = Some (\<lambda>_ w. (RT_EOK, dw_drv_update (\<lambda>(i, p, c). (i, p + 1, c)) w)),
     dop_close = Some (\<lambda>w. (RT_EOK, dw_drv_update (\<lambda>(i, p, c). (i, p, c + 1)) w)),
     dop_read = None, dop_write = None, dop_control = None\<rparr>"

definition demo_world :: "(nat \<times> nat \<times> nat) world" where
  "demo_world = \<lparr>dw_dev = (\<lambda>_. device_zero),
     dw_objs = objects_init\<lparr>o_type := (\<lambda>x. if x = 3 then (Class_Device, True) else (Class_Null, False))\<rparr>,
     dw_kernel = demo_kernel, dw_drv = (0, 0, 0)\<rparr>"

lemma demo_driver_ok: "driver_ok demo_driver d" "dev_ok 3 demo_world"
  by (auto simp: driver_ok_def demo_driver_def driver_frame_def same_open_def is_device_def dev_ok_def demo_world_def
      rt_object_get_type_def device_zero_def has_flag_def)

theorem device_sessions_witness:
  "\<exists>rs w'. dev_run demo_driver 3 [Dev_open 3, Dev_open 3, Dev_close] demo_world = Some (rs, w') \<and> dev_ok 3 w'
     \<and> unat (dv_ref_count (dw_dev w' 3)) = open_count [Dev_open 3, Dev_open 3, Dev_close] rs 0"
  using device_sessions [OF demo_driver_ok, of "[Dev_open 3, Dev_open 3, Dev_close]"]
  by (auto simp: demo_world_def device_zero_def simp del: dev_run.simps)

theorem device_register_correct_witness:
  "\<exists>w1. rt_device_register (Some 5) ''uart1'' 3 (demo_world\<lparr>dw_objs := objects_init\<rparr>) = Some (RT_EOK, w1) \<and> is_device 5 w1"
proof -
  have "world_ok (demo_world\<lparr>dw_objs := objects_init\<rparr>)"
    using objects_init_ok demo_kernel_ok by (simp add: world_ok_def demo_world_def)
  moreover have "objects_of objects_init Class_Device = []"
    by (simp add: objects_of_def rt_object_get_information_def object_list_def objects_init_def object_container_init_def)
  ultimately show ?thesis
    using device_register_correct [of "demo_world\<lparr>dw_objs := objects_init\<rparr>" 5 "''uart1''" "''uart1''" 3]
    by (auto simp: rt_object_get_type_def objects_init_def c_string_def demo_world_def)
qed


end
