(* ===== verification/Ring_Block.thy ===== *)
theory Ring_Block
  imports Prelude
begin

text \<open>
  The ring block buffer (\<open>components/drivers/ipc/ringblk_buf.c\<close>): blocks of varying size in one buffer,
  allocated in a ring, filled, put, got and freed. Blocks are named by their index in \<open>blk_set\<close>; the
  singly linked lists are the lists of their nodes, with the pointer to the tail beside them; addresses are
  numbers below \<open>2 ^ 32\<close>. \<open>None\<close> is a failed assertion.
\<close>

datatype rbb_status = RT_RBB_BLK_UNUSED | RT_RBB_BLK_INITED | RT_RBB_BLK_PUT | RT_RBB_BLK_GET

record rt_rbb_blk =
  blk_status :: rbb_status
  blk_size :: nat
  blk_buf :: nat

record rt_rbb =
  rbb_buf :: nat
  rbb_buf_size :: nat
  blk_set :: "nat \<Rightarrow> rt_rbb_blk"
  blk_max_num :: nat
  blk_list :: "nat list"
  rbb_tail :: "nat option"
  free_list :: "nat list"

record rt_rbb_blk_queue =
  q_blocks :: nat
  q_blk_num :: nat

definition upd_blk :: "nat \<Rightarrow> (rt_rbb_blk \<Rightarrow> rt_rbb_blk) \<Rightarrow> rt_rbb \<Rightarrow> rt_rbb" where
  "upd_blk b f r = r\<lparr>blk_set := (blk_set r)(b := f (blk_set r b))\<rparr>"

text \<open>The difference of two addresses as an unsigned number of 32 bits.\<close>

definition addr_diff :: "nat \<Rightarrow> nat \<Rightarrow> nat" where
  "addr_diff a b = (if b \<le> a then a - b else a + 2 ^ 32 - b)"

subsection \<open>Operations\<close>

fun init_blocks :: "nat \<Rightarrow> rt_rbb \<Rightarrow> rt_rbb" where
  "init_blocks 0 r = r"
| "init_blocks (Suc n) r =
     (let r1 = init_blocks n r;
          r2 = upd_blk n (\<lambda>v. v\<lparr>blk_status := RT_RBB_BLK_UNUSED\<rparr>) r1
      in r2\<lparr>free_list := n # free_list r2\<rparr>)"

definition rt_rbb_init :: "nat \<Rightarrow> nat \<Rightarrow> (nat \<Rightarrow> rt_rbb_blk) \<Rightarrow> nat \<Rightarrow> rt_rbb" where
  "rt_rbb_init buf buf_size block_set max_num =
     init_blocks max_num \<lparr>rbb_buf = buf, rbb_buf_size = buf_size, blk_set = block_set, blk_max_num = max_num,
       blk_list = [], rbb_tail = None, free_list = []\<rparr>"

text \<open>What the three allocations of \<open>rt_rbb_create\<close> give are arguments.\<close>

definition rt_rbb_create ::
  "bool \<Rightarrow> nat option \<Rightarrow> (nat \<Rightarrow> rt_rbb_blk) option \<Rightarrow> nat \<Rightarrow> nat \<Rightarrow> rt_rbb option" where
  "rt_rbb_create mem buf_mem set_mem buf_size max_num =
     (if \<not> mem then None
      else case buf_mem of None \<Rightarrow> None
        | Some buf \<Rightarrow> (case set_mem of None \<Rightarrow> None
            | Some s \<Rightarrow> Some (rt_rbb_init buf buf_size s max_num)))"

definition find_empty_blk_in_set :: "rt_rbb \<Rightarrow> (nat option \<times> rt_rbb) option" where
  "find_empty_blk_in_set r = (case free_list r of
       [] \<Rightarrow> Some (None, r)
     | b # bs \<Rightarrow> do {
         rt_assert (blk_status (blk_set r b) = RT_RBB_BLK_UNUSED);
         Some (Some b, r\<lparr>free_list := bs\<rparr>)
       })"

text \<open>Linking behind the tail cuts off what was linked behind it; an empty list has the tail \<open>None\<close>.\<close>

definition slist_append :: "nat \<Rightarrow> rt_rbb \<Rightarrow> rt_rbb" where
  "slist_append n r = r\<lparr>blk_list := (case rbb_tail r of None \<Rightarrow> [n]
       | Some t \<Rightarrow> takeWhile (\<lambda>x. x \<noteq> t) (blk_list r) @ [t, n]), rbb_tail := Some n\<rparr>"

definition slist_remove :: "nat \<Rightarrow> rt_rbb \<Rightarrow> rt_rbb" where
  "slist_remove n r =
     (if n \<in> set (blk_list r) then
        (let node = takeWhile (\<lambda>x. x \<noteq> n) (blk_list r);
             r1 = r\<lparr>blk_list := remove1 n (blk_list r)\<rparr>
         in if rbb_tail r = Some n then r1\<lparr>rbb_tail := (if node = [] then None else Some (last node))\<rparr> else r1)
      else r)"

definition take_block :: "nat \<Rightarrow> nat \<Rightarrow> nat \<Rightarrow> rt_rbb \<Rightarrow> rt_rbb" where
  "take_block b at sz r = upd_blk b (\<lambda>_. \<lparr>blk_status = RT_RBB_BLK_INITED, blk_size = sz, blk_buf = at\<rparr>) (slist_append b r)"

definition blk_end :: "nat \<Rightarrow> rt_rbb \<Rightarrow> nat" where
  "blk_end b r = blk_buf (blk_set r b) + blk_size (blk_set r b)"

definition rt_rbb_blk_alloc :: "nat \<Rightarrow> rt_rbb \<Rightarrow> (nat option \<times> rt_rbb) option" where
  "rt_rbb_blk_alloc sz r = do {
     rt_assert (sz < 2 ^ 24);
     (new, r1) \<leftarrow> find_empty_blk_in_set r;
     (case new of
        None \<Rightarrow> Some (None, r1)
      | Some b \<Rightarrow>
          if blk_list r1 \<noteq> [] then do {
            let head = hd (blk_list r1);
            tail \<leftarrow> rbb_tail r1;
            (if blk_buf (blk_set r1 head) \<le> blk_buf (blk_set r1 tail) then
               (let empty1 = addr_diff (rbb_buf r1 + rbb_buf_size r1) (blk_end tail r1);
                    empty2 = addr_diff (blk_buf (blk_set r1 head)) (rbb_buf r1)
                in if empty1 \<ge> sz then Some (Some b, take_block b (blk_end tail r1) sz r1)
                   else if empty2 \<ge> sz then Some (Some b, take_block b (rbb_buf r1) sz r1)
                   else Some (None, r1))
             else
               (let empty1 = addr_diff (blk_buf (blk_set r1 head)) (blk_end tail r1)
                in if empty1 \<ge> sz then Some (Some b, take_block b (blk_end tail r1) sz r1)
                   else Some (None, r1)))
          }
          else Some (Some b, take_block b (rbb_buf r1) sz r1))
   }"

definition rt_rbb_blk_put :: "nat \<Rightarrow> rt_rbb \<Rightarrow> rt_rbb option" where
  "rt_rbb_blk_put b r = do {
     rt_assert (blk_status (blk_set r b) = RT_RBB_BLK_INITED);
     Some (upd_blk b (blk_status_update (\<lambda>_. RT_RBB_BLK_PUT)) r)
   }"

fun get_loop :: "(nat \<Rightarrow> rt_rbb_blk) \<Rightarrow> nat list \<Rightarrow> nat option" where
  "get_loop s [] = None"
| "get_loop s (b # bs) = (if blk_status (s b) = RT_RBB_BLK_PUT then Some b else get_loop s bs)"

definition rt_rbb_blk_get :: "rt_rbb \<Rightarrow> nat option \<times> rt_rbb" where
  "rt_rbb_blk_get r = (case get_loop (blk_set r) (blk_list r) of
       None \<Rightarrow> (None, r)
     | Some b \<Rightarrow> (Some b, upd_blk b (blk_status_update (\<lambda>_. RT_RBB_BLK_GET)) r))"

definition rt_rbb_blk_size :: "nat \<Rightarrow> rt_rbb \<Rightarrow> nat" where
  "rt_rbb_blk_size b r = blk_size (blk_set r b)"

definition rt_rbb_blk_buf :: "nat \<Rightarrow> rt_rbb \<Rightarrow> nat" where
  "rt_rbb_blk_buf b r = blk_buf (blk_set r b)"

definition rt_rbb_blk_free :: "nat \<Rightarrow> rt_rbb \<Rightarrow> rt_rbb option" where
  "rt_rbb_blk_free b r = do {
     rt_assert (blk_status (blk_set r b) \<noteq> RT_RBB_BLK_UNUSED);
     let r1 = slist_remove b r;
     let r2 = upd_blk b (blk_status_update (\<lambda>_. RT_RBB_BLK_UNUSED)) r1;
     Some (r2\<lparr>free_list := b # free_list r2\<rparr>)
   }"

text \<open>
  The loop of \<open>rt_rbb_blk_queue_get\<close>: the second argument is the block before, once the first one is found. What the
  loop reads through the NULL pointer after the last node is not used and is left out.
\<close>

fun queue_get_loop ::
  "nat \<Rightarrow> nat option \<Rightarrow> nat \<Rightarrow> nat list \<Rightarrow> rt_rbb_blk_queue \<Rightarrow> rt_rbb \<Rightarrow> nat \<times> rt_rbb_blk_queue \<times> rt_rbb" where
  "queue_get_loop len lb tot [] q r = (tot, q, r)"
| "queue_get_loop len None tot (b # bs) q r =
     (if blk_status (blk_set r b) = RT_RBB_BLK_PUT
      then queue_get_loop len (Some b) (tot + blk_size (blk_set r b)) bs (q\<lparr>q_blocks := b, q_blk_num := 1\<rparr>)
             (upd_blk b (blk_status_update (\<lambda>_. RT_RBB_BLK_GET)) r)
      else queue_get_loop len None tot bs q r)"
| "queue_get_loop len (Some l) tot (b # bs) q r =
     (if blk_status (blk_set r b) \<noteq> RT_RBB_BLK_PUT \<or> blk_buf (blk_set r l) > blk_buf (blk_set r b)
        \<or> tot + blk_size (blk_set r b) > len
      then (tot, q, r)
      else queue_get_loop len (Some b) (tot + blk_size (blk_set r b)) bs (q\<lparr>q_blk_num := q_blk_num q + 1\<rparr>)
             (upd_blk b (blk_status_update (\<lambda>_. RT_RBB_BLK_GET)) r))"

definition rt_rbb_blk_queue_get :: "nat \<Rightarrow> rt_rbb_blk_queue \<Rightarrow> rt_rbb \<Rightarrow> nat \<times> rt_rbb_blk_queue \<times> rt_rbb" where
  "rt_rbb_blk_queue_get len q r = (if blk_list r = [] then (0, q, r) else queue_get_loop len None 0 (blk_list r) q r)"

text \<open>Walking \<open>n\<close> nodes from a block on; walking off the list fails.\<close>

fun next_block :: "nat list \<Rightarrow> nat \<Rightarrow> nat option" where
  "next_block [] b = None"
| "next_block (x # xs) b = (if x = b then (case xs of [] \<Rightarrow> None | y # _ \<Rightarrow> Some y) else next_block xs b)"

fun queue_len_loop :: "nat \<Rightarrow> nat option \<Rightarrow> nat \<Rightarrow> rt_rbb \<Rightarrow> nat option" where
  "queue_len_loop 0 b tot r = Some tot"
| "queue_len_loop (Suc n) b tot r = do {
     b \<leftarrow> b;
     queue_len_loop n (next_block (blk_list r) b) (tot + blk_size (blk_set r b)) r
   }"

definition rt_rbb_blk_queue_len :: "rt_rbb_blk_queue \<Rightarrow> rt_rbb \<Rightarrow> nat option" where
  "rt_rbb_blk_queue_len q r = queue_len_loop (q_blk_num q) (Some (q_blocks q)) 0 r"

definition rt_rbb_blk_queue_buf :: "rt_rbb_blk_queue \<Rightarrow> rt_rbb \<Rightarrow> nat" where
  "rt_rbb_blk_queue_buf q r = blk_buf (blk_set r (q_blocks q))"

fun queue_free_loop :: "nat \<Rightarrow> nat option \<Rightarrow> rt_rbb \<Rightarrow> rt_rbb option" where
  "queue_free_loop 0 b r = Some r"
| "queue_free_loop (Suc n) b r = do {
     b \<leftarrow> b;
     let next_blk = next_block (blk_list r) b;
     r1 \<leftarrow> rt_rbb_blk_free b r;
     queue_free_loop n next_blk r1
   }"

definition rt_rbb_blk_queue_free :: "rt_rbb_blk_queue \<Rightarrow> rt_rbb \<Rightarrow> rt_rbb option" where
  "rt_rbb_blk_queue_free q r = queue_free_loop (q_blk_num q) (Some (q_blocks q)) r"

fun next_queue_loop :: "nat option \<Rightarrow> nat \<Rightarrow> nat list \<Rightarrow> (nat \<Rightarrow> rt_rbb_blk) \<Rightarrow> nat" where
  "next_queue_loop lb len [] s = len"
| "next_queue_loop None len (b # bs) s =
     (if blk_status (s b) \<noteq> RT_RBB_BLK_PUT then next_queue_loop None len bs s
      else next_queue_loop (Some b) (len + blk_size (s b)) bs s)"
| "next_queue_loop (Some l) len (b # bs) s =
     (if blk_status (s b) \<noteq> RT_RBB_BLK_PUT \<or> blk_buf (s l) > blk_buf (s b) then len
      else next_queue_loop (Some b) (len + blk_size (s b)) bs s)"

definition rt_rbb_next_blk_queue_len :: "rt_rbb \<Rightarrow> nat" where
  "rt_rbb_next_blk_queue_len r = (if blk_list r = [] then 0 else next_queue_loop None 0 (blk_list r) (blk_set r))"

definition rt_rbb_get_buf_size :: "rt_rbb \<Rightarrow> nat" where
  "rt_rbb_get_buf_size r = rbb_buf_size r"

subsection \<open>Blocks do not overlap\<close>

text \<open>
  The blocks lie in the order of the list, with one wrap at most: first \<open>xs\<close> upwards, then \<open>ys\<close> upwards
  and all of it below \<open>xs\<close>.
\<close>

definition before :: "(nat \<Rightarrow> rt_rbb_blk) \<Rightarrow> nat \<Rightarrow> nat \<Rightarrow> bool" where
  "before s a b \<longleftrightarrow> blk_buf (s a) + blk_size (s a) \<le> blk_buf (s b)"

definition blk_layout :: "(nat \<Rightarrow> rt_rbb_blk) \<Rightarrow> nat list \<Rightarrow> bool" where
  "blk_layout s l \<longleftrightarrow> (\<exists>xs ys. l = xs @ ys \<and> sorted_wrt (before s) xs \<and> sorted_wrt (before s) ys
     \<and> (\<forall>y\<in>set ys. \<forall>x\<in>set xs. before s y x))"

definition placed :: "rt_rbb \<Rightarrow> nat \<Rightarrow> bool" where
  "placed r b \<longleftrightarrow> 0 < blk_size (blk_set r b) \<and> rbb_buf r \<le> blk_buf (blk_set r b) \<and> blk_end b r \<le> rbb_buf r + rbb_buf_size r"

definition list_tail :: "nat list \<Rightarrow> nat option" where
  "list_tail l = (if l = [] then None else Some (last l))"

definition rbb_ok :: "rt_rbb \<Rightarrow> bool" where
  "rbb_ok r \<longleftrightarrow> distinct (blk_list r @ free_list r) \<and> rbb_tail r = list_tail (blk_list r)
     \<and> (\<forall>b\<in>set (blk_list r). blk_status (blk_set r b) \<noteq> RT_RBB_BLK_UNUSED \<and> placed r b)
     \<and> (\<forall>b\<in>set (free_list r). blk_status (blk_set r b) = RT_RBB_BLK_UNUSED)
     \<and> rbb_buf r + rbb_buf_size r < 2 ^ 32 \<and> blk_layout (blk_set r) (blk_list r)"

lemma sorted_wrt_cong:
  "(\<And>x y. x \<in> set l \<Longrightarrow> y \<in> set l \<Longrightarrow> P x y = Q x y) \<Longrightarrow> sorted_wrt P l = sorted_wrt Q l"
  by (induction l) auto

lemma layout_cong:
  assumes "\<And>x. x \<in> set l \<Longrightarrow> blk_buf (s' x) = blk_buf (s x) \<and> blk_size (s' x) = blk_size (s x)"
  shows "blk_layout s' l = blk_layout s l"
proof -
  have b: "before s' x y = before s x y" if "x \<in> set l" "y \<in> set l" for x y
    using assms that by (simp add: before_def)
  have "sorted_wrt (before s') xs = sorted_wrt (before s) xs" if "set xs \<subseteq> set l" for xs
    by (rule sorted_wrt_cong) (use b that in blast)
  then show ?thesis unfolding blk_layout_def using b by (intro ex_cong1 conj_cong refl ball_cong) auto
qed

lemma layout_remove1: "blk_layout s l \<Longrightarrow> blk_layout s (remove1 b l)"
proof -
  assume "blk_layout s l"
  then obtain xs ys where l: "l = xs @ ys" "sorted_wrt (before s) xs" "sorted_wrt (before s) ys"
    "\<forall>y\<in>set ys. \<forall>x\<in>set xs. before s y x" by (auto simp: blk_layout_def)
  have st: "sorted_wrt P (remove1 b zs)" if "sorted_wrt P zs" for P and zs :: "nat list"
    using that set_remove1_subset by (induction zs) (auto simp: subset_iff)
  show ?thesis
  proof (cases "b \<in> set xs")
    case True
    then have "remove1 b l = remove1 b xs @ ys" using l by (simp add: remove1_append)
    then show ?thesis unfolding blk_layout_def using l st set_remove1_subset by (metis subset_iff)
  next
    case False
    then have "remove1 b l = xs @ remove1 b ys" using l by (simp add: remove1_append)
    then show ?thesis unfolding blk_layout_def using l st set_remove1_subset by (metis subset_iff)
  qed
qed

lemma layout_apart:
  assumes "blk_layout s l" "a \<in> set l" "b \<in> set l" "a \<noteq> b"
  shows "before s a b \<or> before s b a"
proof -
  obtain xs ys where l: "l = xs @ ys" "sorted_wrt (before s) xs" "sorted_wrt (before s) ys"
    "\<forall>y\<in>set ys. \<forall>x\<in>set xs. before s y x" using assms(1) by (auto simp: blk_layout_def)
  have p: "before s a b \<or> before s b a" if "sorted_wrt (before s) zs" "a \<in> set zs" "b \<in> set zs" for zs
    using that assms(4) by (induction zs) auto
  show ?thesis using assms(2,3) l p by auto
qed

text \<open>The two shapes that the test of the addresses of head and tail tells apart.\<close>

lemma hd_before_last:
  assumes "sorted_wrt (before s) zs" "zs \<noteq> []"
  shows "x \<in> set zs \<Longrightarrow> blk_buf (s (hd zs)) \<le> blk_buf (s x)"
    "x \<in> set zs \<Longrightarrow> blk_buf (s x) + blk_size (s x) \<le> blk_buf (s (last zs)) + blk_size (s (last zs))"
proof -
  obtain h t where z: "zs = h # t" using assms(2) by (cases zs) auto
  show "x \<in> set zs \<Longrightarrow> blk_buf (s (hd zs)) \<le> blk_buf (s x)" using assms(1) z by (auto simp: before_def)
  obtain i l where z2: "zs = i @ [l]" using assms(2) by (cases zs rule: rev_cases) auto
  have "sorted_wrt (before s) (i @ [l])" using assms(1) z2 by simp
  then show "x \<in> set zs \<Longrightarrow> blk_buf (s x) + blk_size (s x) \<le> blk_buf (s (last zs)) + blk_size (s (last zs))"
    unfolding z2 by (auto simp: sorted_wrt_append before_def)
qed

lemma layout_cases:
  assumes l: "blk_layout s l" "l \<noteq> []" and pos: "\<And>b. b \<in> set l \<Longrightarrow> 0 < blk_size (s b)"
  obtains (straight) "blk_buf (s (hd l)) \<le> blk_buf (s (last l))" "sorted_wrt (before s) l"
  | (wrapped) xs ys where "blk_buf (s (last l)) < blk_buf (s (hd l))" "l = xs @ ys" "xs \<noteq> []" "ys \<noteq> []"
      "sorted_wrt (before s) xs" "sorted_wrt (before s) ys" "\<forall>y\<in>set ys. \<forall>x\<in>set xs. before s y x"
proof -
  obtain xs ys where s: "l = xs @ ys" "sorted_wrt (before s) xs" "sorted_wrt (before s) ys"
    "\<forall>y\<in>set ys. \<forall>x\<in>set xs. before s y x" using l(1) by (auto simp: blk_layout_def)
  show thesis
  proof (cases "xs = [] \<or> ys = []")
    case True
    then have "sorted_wrt (before s) l" using s by auto
    moreover have "blk_buf (s (hd l)) \<le> blk_buf (s (last l))"
      using hd_before_last(1) [OF calculation l(2), of "last l"] l(2) by simp
    ultimately show thesis using straight by blast
  next
    case False
    then have "before s (last l) (hd l)" using s by simp
    moreover have "0 < blk_size (s (last l))" using pos l(2) by simp
    ultimately have "blk_buf (s (last l)) < blk_buf (s (hd l))" by (simp add: before_def)
    then show thesis using wrapped [of xs ys] s False by blast
  qed
qed

lemma takeWhile_last: "distinct l \<Longrightarrow> l \<noteq> [] \<Longrightarrow> takeWhile (\<lambda>x. x \<noteq> last l) l = butlast l"
proof -
  assume d: "distinct l" and n: "l \<noteq> []"
  obtain i x where l: "l = i @ [x]" using n by (cases l rule: rev_cases) auto
  then have "x \<notin> set i" using d by auto
  moreover have "takeWhile (\<lambda>y. y \<noteq> x) (i @ [x]) = i" if "x \<notin> set i" for i using that by (induction i) auto
  ultimately show ?thesis unfolding l by simp
qed

lemma slist_append_ok:
  assumes "distinct (blk_list r)" "rbb_tail r = list_tail (blk_list r)"
  shows "blk_list (slist_append b r) = blk_list r @ [b]" "rbb_tail (slist_append b r) = Some b"
proof -
  show "blk_list (slist_append b r) = blk_list r @ [b]"
  proof (cases "blk_list r = []")
    case False
    have "butlast (blk_list r) @ [last (blk_list r), b] = blk_list r @ [b]"
      using append_butlast_last_id [OF False] by (metis append.assoc append_Cons append_Nil)
    then show ?thesis using assms False by (simp add: slist_append_def list_tail_def takeWhile_last)
  qed (use assms in \<open>simp add: slist_append_def list_tail_def\<close>)
qed (simp add: slist_append_def)

lemma slist_append_sel [simp]:
  "blk_set (slist_append b r) = blk_set r" "free_list (slist_append b r) = free_list r"
  "rbb_buf (slist_append b r) = rbb_buf r" "rbb_buf_size (slist_append b r) = rbb_buf_size r"
  "blk_max_num (slist_append b r) = blk_max_num r"
  by (simp_all add: slist_append_def)

lemma upd_blk_sel [simp]:
  "blk_set (upd_blk b f r) = (blk_set r)(b := f (blk_set r b))" "free_list (upd_blk b f r) = free_list r"
  "rbb_buf (upd_blk b f r) = rbb_buf r" "rbb_buf_size (upd_blk b f r) = rbb_buf_size r"
  "blk_list (upd_blk b f r) = blk_list r" "rbb_tail (upd_blk b f r) = rbb_tail r"
  "blk_max_num (upd_blk b f r) = blk_max_num r"
  by (simp_all add: upd_blk_def)

lemma take_block_ok:
  assumes r: "rbb_ok r" and f: "free_list r = b # bs"
    and p: "0 < sz" "rbb_buf r \<le> p" "p + sz \<le> rbb_buf r + rbb_buf_size r"
    and l: "blk_layout ((blk_set r)(b := \<lparr>blk_status = RT_RBB_BLK_INITED, blk_size = sz, blk_buf = p\<rparr>)) (blk_list r @ [b])"
  shows "rbb_ok (take_block b p sz (r\<lparr>free_list := bs\<rparr>))"
    "blk_list (take_block b p sz (r\<lparr>free_list := bs\<rparr>)) = blk_list r @ [b]"
    "blk_set (take_block b p sz (r\<lparr>free_list := bs\<rparr>)) =
       (blk_set r)(b := \<lparr>blk_status = RT_RBB_BLK_INITED, blk_size = sz, blk_buf = p\<rparr>)"
    "free_list (take_block b p sz (r\<lparr>free_list := bs\<rparr>)) = bs"
proof -
  let ?r = "r\<lparr>free_list := bs\<rparr>"
  have d: "distinct (blk_list ?r)" "rbb_tail ?r = list_tail (blk_list ?r)" using r by (simp_all add: rbb_ok_def)
  note a = slist_append_ok [OF d, of b]
  show l1: "blk_list (take_block b p sz ?r) = blk_list r @ [b]" using a by (simp add: take_block_def)
  show s1: "blk_set (take_block b p sz ?r) = (blk_set r)(b := \<lparr>blk_status = RT_RBB_BLK_INITED, blk_size = sz, blk_buf = p\<rparr>)"
    by (simp add: take_block_def)
  show f1: "free_list (take_block b p sz ?r) = bs" by (simp add: take_block_def)
  have t1: "rbb_tail (take_block b p sz ?r) = Some b" using a by (simp add: take_block_def)
  have g1: "rbb_buf (take_block b p sz ?r) = rbb_buf r" "rbb_buf_size (take_block b p sz ?r) = rbb_buf_size r"
    by (simp_all add: take_block_def)
  show "rbb_ok (take_block b p sz ?r)"
    using r f p l unfolding rbb_ok_def l1 s1 f1 t1 g1
    by (auto simp: list_tail_def placed_def blk_end_def s1 g1)
qed

text \<open>The room behind the last block, or in front of the first one while the blocks do not wrap.\<close>

definition rbb_room :: "rt_rbb \<Rightarrow> nat" where
  "rbb_room r = (if blk_list r = [] then rbb_buf_size r
     else let h = hd (blk_list r); t = last (blk_list r) in
       if blk_buf (blk_set r h) \<le> blk_buf (blk_set r t)
       then max (rbb_buf r + rbb_buf_size r - blk_end t r) (blk_buf (blk_set r h) - rbb_buf r)
       else blk_buf (blk_set r h) - blk_end t r)"

definition new_block :: "nat \<Rightarrow> nat \<Rightarrow> nat \<Rightarrow> rt_rbb \<Rightarrow> nat \<Rightarrow> rt_rbb_blk" where
  "new_block b p sz r = (blk_set r)(b := \<lparr>blk_status = RT_RBB_BLK_INITED, blk_size = sz, blk_buf = p\<rparr>)"

lemma sorted_new: "b \<notin> set l \<Longrightarrow> sorted_wrt (before (new_block b p sz r)) l = sorted_wrt (before (blk_set r)) l"
  by (rule sorted_wrt_cong) (auto simp: before_def new_block_def)

lemma layout_new:
  assumes b: "b \<notin> set (xs @ ys)" and s: "sorted_wrt (before (blk_set r)) xs" "sorted_wrt (before (blk_set r)) ys"
    and w: "\<forall>y\<in>set ys. \<forall>x\<in>set xs. before (blk_set r) y x"
    and p: "ys = [] \<and> (\<forall>x\<in>set xs. blk_end x r \<le> p)
      \<or> (\<forall>y\<in>set ys. blk_end y r \<le> p) \<and> (\<forall>x\<in>set xs. p + sz \<le> blk_buf (blk_set r x))"
  shows "blk_layout (new_block b p sz r) (xs @ ys @ [b])"
proof -
  let ?s = "new_block b p sz r"
  have old: "sorted_wrt (before ?s) xs" "sorted_wrt (before ?s) ys"
    using s b by (simp_all add: sorted_new)
  have w': "\<forall>y\<in>set ys. \<forall>x\<in>set xs. before ?s y x" using w b by (auto simp: before_def new_block_def)
  from p show ?thesis
  proof
    assume p: "ys = [] \<and> (\<forall>x\<in>set xs. blk_end x r \<le> p)"
    then have "sorted_wrt (before ?s) (xs @ [b])"
      using old b by (auto simp: sorted_wrt_append before_def new_block_def blk_end_def)
    then have "blk_layout ?s ((xs @ [b]) @ [])" unfolding blk_layout_def by (intro exI [of _ "xs @ [b]"] exI [of _ "[]"]) simp
    then show ?thesis using p by simp
  next
    assume p: "(\<forall>y\<in>set ys. blk_end y r \<le> p) \<and> (\<forall>x\<in>set xs. p + sz \<le> blk_buf (blk_set r x))"
    have "sorted_wrt (before ?s) (ys @ [b])"
      using p old b by (auto simp: sorted_wrt_append before_def new_block_def blk_end_def)
    moreover have "\<forall>y\<in>set (ys @ [b]). \<forall>x\<in>set xs. before ?s y x"
      using p w' b by (auto simp: before_def new_block_def)
    ultimately show ?thesis unfolding blk_layout_def using old(1) by (intro exI [of _ xs] exI [of _ "ys @ [b]"]) simp
  qed
qed

lemma alloc_place:
  assumes r: "rbb_ok r" and f: "free_list r = b # bs" and sz: "0 < sz" "sz < 2 ^ 24" "sz \<le> rbb_buf_size r"
  shows "(rbb_room r < sz \<and> rt_rbb_blk_alloc sz r = Some (None, r\<lparr>free_list := bs\<rparr>))
    \<or> (\<exists>p. sz \<le> rbb_room r \<and> rt_rbb_blk_alloc sz r = Some (Some b, take_block b p sz (r\<lparr>free_list := bs\<rparr>))
        \<and> rbb_buf r \<le> p \<and> p + sz \<le> rbb_buf r + rbb_buf_size r \<and> blk_layout (new_block b p sz r) (blk_list r @ [b]))"
proof -
  have u: "blk_status (blk_set r b) = RT_RBB_BLK_UNUSED" "b \<notin> set (blk_list r)" using r f by (auto simp: rbb_ok_def)
  have find: "find_empty_blk_in_set r = Some (Some b, r\<lparr>free_list := bs\<rparr>)"
    using f u by (simp add: find_empty_blk_in_set_def rt_assert_def)
  show ?thesis
  proof (cases "blk_list r = []")
    case True
    have "blk_layout (new_block b (rbb_buf r) sz r) ([] @ [] @ [b])" by (rule layout_new) simp_all
    moreover have "rt_rbb_blk_alloc sz r = Some (Some b, take_block b (rbb_buf r) sz (r\<lparr>free_list := bs\<rparr>))"
      using find sz True by (simp add: rt_rbb_blk_alloc_def rt_assert_def)
    ultimately show ?thesis using sz True by (auto simp: rbb_room_def Let_def le_max_iff_disj)
  next
    case ne: False
    let ?h = "hd (blk_list r)" and ?t = "last (blk_list r)"
    have tail: "rbb_tail r = Some ?t" using r ne by (simp add: rbb_ok_def list_tail_def)
    have pl: "placed r x" if "x \<in> set (blk_list r)" for x using r that by (simp add: rbb_ok_def)
    have hb: "rbb_buf r \<le> blk_buf (blk_set r ?h)" "blk_buf (blk_set r ?h) \<le> rbb_buf r + rbb_buf_size r"
      "blk_end ?t r \<le> rbb_buf r + rbb_buf_size r"
      using pl [of ?h] pl [of ?t] ne by (auto simp: placed_def blk_end_def)
    have l: "blk_layout (blk_set r) (blk_list r)" using r by (simp add: rbb_ok_def)
    have pos: "0 < blk_size (blk_set r x)" if "x \<in> set (blk_list r)" for x using pl that by (simp add: placed_def)
    have alloc: "rt_rbb_blk_alloc sz r =
       (if blk_buf (blk_set r ?h) \<le> blk_buf (blk_set r ?t)
        then if sz \<le> rbb_buf r + rbb_buf_size r - blk_end ?t r then Some (Some b, take_block b (blk_end ?t r) sz (r\<lparr>free_list := bs\<rparr>))
             else if sz \<le> blk_buf (blk_set r ?h) - rbb_buf r then Some (Some b, take_block b (rbb_buf r) sz (r\<lparr>free_list := bs\<rparr>))
             else Some (None, r\<lparr>free_list := bs\<rparr>)
        else if sz \<le> addr_diff (blk_buf (blk_set r ?h)) (blk_end ?t r)
             then Some (Some b, take_block b (blk_end ?t r) sz (r\<lparr>free_list := bs\<rparr>)) else Some (None, r\<lparr>free_list := bs\<rparr>))"
      using find sz tail ne hb by (simp add: rt_rbb_blk_alloc_def rt_assert_def Let_def addr_diff_def blk_end_def)
    show ?thesis
    proof (rule layout_cases [OF l ne pos])
      assume "blk_buf (blk_set r ?h) \<le> blk_buf (blk_set r ?t)" and so: "sorted_wrt (before (blk_set r)) (blk_list r)"
      note straight = this
      note hl = hd_before_last [OF so ne]
      show ?thesis
      proof (cases "sz \<le> rbb_buf r + rbb_buf_size r - blk_end ?t r")
        case True
        have "blk_layout (new_block b (blk_end ?t r) sz r) (blk_list r @ [] @ [b])"
          by (rule layout_new) (use u so hl(2) in \<open>auto simp: blk_end_def\<close>)
        then show ?thesis using alloc True straight(1) hb pl [of ?t] ne sz by (auto simp: rbb_room_def Let_def le_max_iff_disj placed_def blk_end_def)
      next
        case no: False
        show ?thesis
        proof (cases "sz \<le> blk_buf (blk_set r ?h) - rbb_buf r")
          case True
          have "rbb_buf r + sz \<le> blk_buf (blk_set r x)" if "x \<in> set (blk_list r)" for x
            using hl(1) [OF that] True hb sz by linarith
          then have "blk_layout (new_block b (rbb_buf r) sz r) (blk_list r @ [] @ [b])"
            by (intro layout_new) (use u so in auto)
          then show ?thesis using alloc True no straight(1) hb sz ne by (auto simp: rbb_room_def Let_def le_max_iff_disj)
        next
          case False
          then show ?thesis using alloc no straight(1) ne by (auto simp: rbb_room_def Let_def le_max_iff_disj)
        qed
      qed
    next
      fix xs ys
      assume w: "blk_buf (blk_set r ?t) < blk_buf (blk_set r ?h)" "blk_list r = xs @ ys" "xs \<noteq> []" "ys \<noteq> []"
        "sorted_wrt (before (blk_set r)) xs" "sorted_wrt (before (blk_set r)) ys"
        "\<forall>y\<in>set ys. \<forall>x\<in>set xs. before (blk_set r) y x"
      have ht: "?h = hd xs" "?t = last ys" using w(2-4) by simp_all
      have bt: "blk_end ?t r \<le> blk_buf (blk_set r ?h)" using w(3,4,7) ht by (simp add: before_def blk_end_def)
      show ?thesis
      proof (cases "sz \<le> blk_buf (blk_set r ?h) - blk_end ?t r")
        case True
        have 1: "blk_end y r \<le> blk_end ?t r" if "y \<in> set ys" for y
          using hd_before_last(2) [OF w(6,4) that, folded ht] by (simp add: blk_end_def)
        have 2: "blk_end ?t r + sz \<le> blk_buf (blk_set r x)" if "x \<in> set xs" for x
          using hd_before_last(1) [OF w(5,3) that, folded ht] True bt by linarith
        have "blk_layout (new_block b (blk_end ?t r) sz r) (xs @ ys @ [b])"
          by (rule layout_new) (use u w 1 2 in auto)
        moreover have "blk_end ?t r + sz \<le> rbb_buf r + rbb_buf_size r" using True bt hb sz by linarith
        moreover have "rbb_buf r \<le> blk_end ?t r" using pl [of ?t] ne by (simp add: placed_def blk_end_def)
        ultimately show ?thesis using alloc True w(1,2) bt ne sz by (auto simp: rbb_room_def Let_def le_max_iff_disj addr_diff_def)
      next
        case False
        then show ?thesis using alloc w(1) bt ne by (auto simp: rbb_room_def Let_def le_max_iff_disj addr_diff_def)
      qed
    qed
  qed
qed

text \<open>A change of the status of a block that stays in use, or out of use.\<close>

lemma rbb_ok_status:
  assumes r: "rbb_ok r" and b: "b \<notin> set (free_list r)" and v: "v \<noteq> RT_RBB_BLK_UNUSED"
  shows "rbb_ok (upd_blk b (blk_status_update (\<lambda>_. v)) r)"
proof -
  let ?r = "upd_blk b (blk_status_update (\<lambda>_. v)) r"
  have "blk_layout (blk_set ?r) (blk_list r) = blk_layout (blk_set r) (blk_list r)" by (rule layout_cong) simp
  moreover have "placed ?r x = placed r x" for x by (simp add: placed_def blk_end_def)
  ultimately show ?thesis using r b v by (auto simp: rbb_ok_def)
qed

lemma last_remove1:
  assumes "distinct l" "n \<in> set l"
  shows "list_tail (remove1 n l) = (if list_tail l = Some n
    then (if takeWhile (\<lambda>x. x \<noteq> n) l = [] then None else Some (last (takeWhile (\<lambda>x. x \<noteq> n) l))) else list_tail l)"
proof -
  obtain pre post where l: "l = pre @ n # post" "n \<notin> set pre" using split_list_first [OF assms(2)] by blast
  have "n \<notin> set post" using assms(1) l by simp
  have t: "takeWhile (\<lambda>x. x \<noteq> n) l = pre" using l(2) unfolding l(1) by (induction pre) auto
  have r: "remove1 n l = pre @ post" using l by (simp add: remove1_append)
  show ?thesis
  proof (cases post rule: rev_cases)
    case Nil
    then show ?thesis using l t r by (simp add: list_tail_def)
  next
    case (snoc p x)
    then have "x \<noteq> n" using \<open>n \<notin> set post\<close> by auto
    then show ?thesis using l t r snoc by (simp add: list_tail_def)
  qed
qed

lemma slist_remove_sel:
  assumes "distinct (blk_list r)" "rbb_tail r = list_tail (blk_list r)"
  shows "blk_list (slist_remove b r) = remove1 b (blk_list r)" "rbb_tail (slist_remove b r) = list_tail (remove1 b (blk_list r))"
    "blk_set (slist_remove b r) = blk_set r" "free_list (slist_remove b r) = free_list r"
    "rbb_buf (slist_remove b r) = rbb_buf r" "rbb_buf_size (slist_remove b r) = rbb_buf_size r"
  using assms last_remove1 [of "blk_list r" b] by (auto simp: slist_remove_def Let_def remove1_idem)

lemma rbb_free_spec:
  assumes r: "rbb_ok r" and b: "b \<in> set (blk_list r)"
  obtains r' where "rt_rbb_blk_free b r = Some r'" "rbb_ok r'" "blk_list r' = remove1 b (blk_list r)"
    "free_list r' = b # free_list r" "\<forall>x. x \<noteq> b \<longrightarrow> blk_set r' x = blk_set r x"
proof -
  have d: "distinct (blk_list r)" "rbb_tail r = list_tail (blk_list r)" using r by (simp_all add: rbb_ok_def)
  note s = slist_remove_sel [OF d, of b]
  let ?r2 = "upd_blk b (blk_status_update (\<lambda>_. RT_RBB_BLK_UNUSED)) (slist_remove b r)"
  let ?r' = "?r2\<lparr>free_list := b # free_list ?r2\<rparr>"
  have run: "rt_rbb_blk_free b r = Some ?r'" using r b by (simp add: rt_rbb_blk_free_def rt_assert_def rbb_ok_def Let_def)
  have "blk_layout (blk_set ?r') (remove1 b (blk_list r)) = blk_layout (blk_set r) (remove1 b (blk_list r))"
    by (rule layout_cong) (simp add: s)
  moreover have "placed ?r' x = placed r x" for x by (simp add: placed_def blk_end_def s)
  moreover have nb: "b \<notin> set (remove1 b (blk_list r))" using d by simp
  ultimately have "rbb_ok ?r'"
    using r b layout_remove1 set_remove1_subset [of b "blk_list r"] by (auto simp: rbb_ok_def s)
  then show ?thesis using that [of ?r'] run s by simp
qed

lemma get_loop_spec:
  "(case get_loop s l of None \<Rightarrow> \<forall>x\<in>set l. blk_status (s x) \<noteq> RT_RBB_BLK_PUT
    | Some b \<Rightarrow> \<exists>pre post. l = pre @ b # post \<and> blk_status (s b) = RT_RBB_BLK_PUT
        \<and> (\<forall>x\<in>set pre. blk_status (s x) \<noteq> RT_RBB_BLK_PUT))"
proof (induction l)
  case (Cons a l)
  show ?case
  proof (cases "blk_status (s a) = RT_RBB_BLK_PUT")
    case True
    then show ?thesis by (auto intro: exI [of _ "[]"])
  next
    case False
    show ?thesis
    proof (cases "get_loop s l")
      case None
      then show ?thesis using Cons False by simp
    next
      case (Some b)
      then obtain pre post where "l = pre @ b # post" "blk_status (s b) = RT_RBB_BLK_PUT"
        "\<forall>x\<in>set pre. blk_status (s x) \<noteq> RT_RBB_BLK_PUT" using Cons by auto
      then have "a # l = (a # pre) @ b # post \<and> blk_status (s b) = RT_RBB_BLK_PUT
        \<and> (\<forall>x\<in>set (a # pre). blk_status (s x) \<noteq> RT_RBB_BLK_PUT)" using False by auto
      then have "\<exists>pre post. a # l = pre @ b # post \<and> blk_status (s b) = RT_RBB_BLK_PUT
        \<and> (\<forall>x\<in>set pre. blk_status (s x) \<noteq> RT_RBB_BLK_PUT)" by blast
      moreover have "get_loop s (a # l) = Some b" using Some False by simp
      ultimately show ?thesis by (simp only: option.case)
    qed
  qed
qed simp

subsection \<open>Any sequence of operations\<close>

datatype rbb_op = Rbb_alloc nat | Rbb_put nat | Rbb_get | Rbb_free nat

fun rbb_step :: "rbb_op \<Rightarrow> rt_rbb \<Rightarrow> (nat option \<times> rt_rbb) option" where
  "rbb_step (Rbb_alloc sz) r = rt_rbb_blk_alloc sz r"
| "rbb_step (Rbb_put b) r = map_option (Pair None) (rt_rbb_blk_put b r)"
| "rbb_step Rbb_get r = Some (rt_rbb_blk_get r)"
| "rbb_step (Rbb_free b) r = map_option (Pair None) (rt_rbb_blk_free b r)"

text \<open>What a caller keeps to: sizes that are neither zero nor more than the buffer, its own blocks.\<close>

fun rbb_may :: "rbb_op \<Rightarrow> rt_rbb \<Rightarrow> bool" where
  "rbb_may (Rbb_alloc sz) r = (0 < sz \<and> sz < 2 ^ 24 \<and> sz \<le> rbb_buf_size r)"
| "rbb_may (Rbb_put b) r = (b \<in> set (blk_list r) \<and> blk_status (blk_set r b) = RT_RBB_BLK_INITED)"
| "rbb_may Rbb_get r = True"
| "rbb_may (Rbb_free b) r = (b \<in> set (blk_list r))"

definition blk_bytes :: "rt_rbb \<Rightarrow> nat \<Rightarrow> nat set" where
  "blk_bytes r b = {blk_buf (blk_set r b) ..< blk_end b r}"

lemma rbb_ok_disjoint:
  assumes "rbb_ok r" "a \<in> set (blk_list r)" "b \<in> set (blk_list r)" "a \<noteq> b"
  shows "blk_bytes r a \<inter> blk_bytes r b = {}" "blk_bytes r a \<subseteq> {rbb_buf r ..< rbb_buf r + rbb_buf_size r}"
  using layout_apart [of "blk_set r" "blk_list r" a b] assms
  by (auto simp: rbb_ok_def before_def blk_bytes_def blk_end_def placed_def)

lemma rbb_ok_inside:
  "rbb_ok r \<Longrightarrow> a \<in> set (blk_list r) \<Longrightarrow> blk_bytes r a \<subseteq> {rbb_buf r ..< rbb_buf r + rbb_buf_size r}"
  by (auto simp: rbb_ok_def blk_bytes_def blk_end_def placed_def)

lemma rbb_alloc_spec:
  assumes r: "rbb_ok r" and sz: "0 < sz" "sz < 2 ^ 24" "sz \<le> rbb_buf_size r"
  shows "\<exists>res r'. rt_rbb_blk_alloc sz r = Some (res, r') \<and> rbb_ok r'
    \<and> (res = None \<longleftrightarrow> free_list r = [] \<or> rbb_room r < sz)
    \<and> (case res of
         None \<Rightarrow> blk_list r' = blk_list r \<and> blk_set r' = blk_set r
       | Some b \<Rightarrow> free_list r = b # free_list r' \<and> blk_list r' = blk_list r @ [b] \<and> blk_size (blk_set r' b) = sz
           \<and> (\<forall>x. x \<noteq> b \<longrightarrow> blk_set r' x = blk_set r x))"
proof (cases "free_list r")
  case Nil
  then have "rt_rbb_blk_alloc sz r = Some (None, r)"
    using sz by (simp add: rt_rbb_blk_alloc_def find_empty_blk_in_set_def rt_assert_def)
  then show ?thesis using r Nil by simp
next
  case (Cons b bs)
  from alloc_place [OF r Cons sz] show ?thesis
  proof
    assume a: "rbb_room r < sz \<and> rt_rbb_blk_alloc sz r = Some (None, r\<lparr>free_list := bs\<rparr>)"
    have "rbb_ok (r\<lparr>free_list := bs\<rparr>)" using r Cons by (auto simp: rbb_ok_def placed_def blk_end_def)
    then show ?thesis using a by simp
  next
    assume "\<exists>p. sz \<le> rbb_room r \<and> rt_rbb_blk_alloc sz r = Some (Some b, take_block b p sz (r\<lparr>free_list := bs\<rparr>))
        \<and> rbb_buf r \<le> p \<and> p + sz \<le> rbb_buf r + rbb_buf_size r \<and> blk_layout (new_block b p sz r) (blk_list r @ [b])"
    then obtain p where p: "sz \<le> rbb_room r" "rt_rbb_blk_alloc sz r = Some (Some b, take_block b p sz (r\<lparr>free_list := bs\<rparr>))"
      "rbb_buf r \<le> p" "p + sz \<le> rbb_buf r + rbb_buf_size r" "blk_layout (new_block b p sz r) (blk_list r @ [b])" by blast
    note t = take_block_ok [OF r Cons sz(1) p(3,4) p(5) [unfolded new_block_def]]
    show ?thesis using p(1,2) t Cons by simp
  qed
qed

lemma rbb_step_spec:
  assumes r: "rbb_ok r" and m: "rbb_may a r"
  shows "\<exists>res r'. rbb_step a r = Some (res, r') \<and> rbb_ok r'"
proof (cases a)
  case (Rbb_alloc sz)
  then obtain res r' where "rt_rbb_blk_alloc sz r = Some (res, r')" "rbb_ok r'"
    using rbb_alloc_spec [OF r, of sz] m by fastforce
  then show ?thesis using Rbb_alloc by simp
next
  case (Rbb_put b)
  have "b \<notin> set (free_list r)" using r m Rbb_put by (auto simp: rbb_ok_def)
  then show ?thesis using Rbb_put m rbb_ok_status [OF r] by (simp add: rt_rbb_blk_put_def rt_assert_def)
next
  case Rbb_get
  show ?thesis
  proof (cases "get_loop (blk_set r) (blk_list r)")
    case None
    then show ?thesis using Rbb_get r by (simp add: rt_rbb_blk_get_def)
  next
    case (Some b)
    then have "b \<in> set (blk_list r)" using get_loop_spec [of "blk_list r" "blk_set r"] by auto
    then have "b \<notin> set (free_list r)" using r by (auto simp: rbb_ok_def)
    then show ?thesis using Rbb_get Some rbb_ok_status [OF r] by (simp add: rt_rbb_blk_get_def)
  qed
next
  case (Rbb_free b)
  then have "b \<in> set (blk_list r)" using m by simp
  from rbb_free_spec [OF r this] show ?thesis using Rbb_free by (metis option.simps(9) rbb_step.simps(4))
qed

fun rbb_run :: "rbb_op list \<Rightarrow> rt_rbb \<Rightarrow> rt_rbb option" where
  "rbb_run [] r = Some r"
| "rbb_run (a # as) r = do { (_, r1) \<leftarrow> rbb_step a r; rbb_run as r1 }"

text \<open>Every operation of the sequence is one that the caller may make when its turn comes.\<close>

fun rbb_keeps_to :: "rbb_op list \<Rightarrow> rt_rbb \<Rightarrow> bool" where
  "rbb_keeps_to [] r = True"
| "rbb_keeps_to (a # as) r =
     (rbb_may a r \<and> (case rbb_step a r of None \<Rightarrow> True | Some (_, r1) \<Rightarrow> rbb_keeps_to as r1))"

lemma rbb_run_spec: "rbb_ok r \<Longrightarrow> rbb_keeps_to as r \<Longrightarrow> \<exists>r'. rbb_run as r = Some r' \<and> rbb_ok r'"
proof (induction as arbitrary: r)
  case (Cons a as)
  then obtain res r1 where "rbb_step a r = Some (res, r1)" "rbb_ok r1" using rbb_step_spec by fastforce
  then show ?case using Cons.IH [of r1] Cons.prems(2) by simp
qed simp

text \<open>
  C21 (blocks of the ring block buffer). Whatever sequence of allocations, puts, gets and frees is made by
  callers that ask for sizes above 0 and not above the buffer, put a block that is in use once and free
  blocks that are in use: no assertion fails, and at every moment two blocks in use have no byte in common
  and lie within the buffer. The code asserts nothing of the sizes: with a size of 0 blocks overlap
  (\<open>rbb_zero_size_overlap\<close>), and a first block larger than the buffer goes beyond it
  (\<open>rbb_first_block_too_large\<close>).
\<close>

theorem rbb_blocks_disjoint:
  assumes "rbb_ok r" "rbb_keeps_to as r"
  shows "\<exists>r'. rbb_run as r = Some r' \<and> rbb_ok r'
    \<and> (\<forall>a b. a \<in> set (blk_list r') \<and> b \<in> set (blk_list r') \<and> a \<noteq> b \<longrightarrow> blk_bytes r' a \<inter> blk_bytes r' b = {})
    \<and> (\<forall>a \<in> set (blk_list r'). blk_bytes r' a \<subseteq> {rbb_buf r' ..< rbb_buf r' + rbb_buf_size r'})"
proof -
  obtain r' where r': "rbb_run as r = Some r'" "rbb_ok r'" using rbb_run_spec [OF assms] by blast
  then show ?thesis using rbb_ok_disjoint(1) [OF r'(2)] rbb_ok_inside [OF r'(2)] by blast
qed

subsection \<open>Queues of blocks\<close>

definition mark_got :: "nat list \<Rightarrow> rt_rbb \<Rightarrow> rt_rbb" where
  "mark_got run r = fold (\<lambda>b. upd_blk b (blk_status_update (\<lambda>_. RT_RBB_BLK_GET))) run r"

lemma mark_got_simps [simp]:
  "mark_got [] r = r"
  "mark_got (b # run) r = mark_got run (upd_blk b (blk_status_update (\<lambda>_. RT_RBB_BLK_GET)) r)"
  by (simp_all add: mark_got_def)

lemma mark_got_sel [simp]:
  "blk_list (mark_got run r) = blk_list r" "blk_size (blk_set (mark_got run r) x) = blk_size (blk_set r x)"
  "blk_buf (blk_set (mark_got run r) x) = blk_buf (blk_set r x)"
  "blk_status (blk_set (mark_got run r) x) = (if x \<in> set run then RT_RBB_BLK_GET else blk_status (blk_set r x))"
  by (induction run arbitrary: r) auto

lemma mark_got_ok: "rbb_ok r \<Longrightarrow> set run \<subseteq> set (blk_list r) \<Longrightarrow> rbb_ok (mark_got run r)"
proof (induction run arbitrary: r)
  case (Cons b run)
  then have "b \<notin> set (free_list r)" by (auto simp: rbb_ok_def)
  then show ?case using Cons rbb_ok_status [OF Cons.prems(1), of b] by simp
qed simp

definition blk_sum :: "rt_rbb \<Rightarrow> nat list \<Rightarrow> nat" where
  "blk_sum r run = sum_list (map (\<lambda>b. blk_size (blk_set r b)) run)"

lemma blk_sum_upd [simp]: "blk_sum (upd_blk b (blk_status_update f) r) run = blk_sum r run"
  by (induction run) (simp_all add: blk_sum_def)

lemma blk_sum_simps [simp]: "blk_sum r [] = 0" "blk_sum r (b # run) = blk_size (blk_set r b) + blk_sum r run"
  by (simp_all add: blk_sum_def)

text \<open>Upwards in the addresses.\<close>

definition ascending :: "rt_rbb \<Rightarrow> nat list \<Rightarrow> bool" where
  "ascending r run \<longleftrightarrow> successively (\<lambda>a b. blk_buf (blk_set r a) \<le> blk_buf (blk_set r b)) run"

lemma ascending_upd [simp]: "ascending (upd_blk b (blk_status_update f) r) run = ascending r run"
  unfolding ascending_def by (rule arg_cong [where f = "\<lambda>P. successively P run"]) (simp add: fun_eq_iff)

lemma queue_get_more:
  assumes "distinct (b0 # l)"
  shows "\<exists>run post. l = run @ post \<and> queue_get_loop len (Some b0) tot l q r
      = (tot + blk_sum r run, q\<lparr>q_blk_num := q_blk_num q + length run\<rparr>, mark_got run r)
    \<and> (\<forall>b\<in>set run. blk_status (blk_set r b) = RT_RBB_BLK_PUT) \<and> ascending r (b0 # run)
    \<and> (run \<noteq> [] \<longrightarrow> tot + blk_sum r run \<le> len)
    \<and> (post = [] \<or> blk_status (blk_set r (hd post)) \<noteq> RT_RBB_BLK_PUT
       \<or> blk_buf (blk_set r (last (b0 # run))) > blk_buf (blk_set r (hd post))
       \<or> tot + blk_sum r run + blk_size (blk_set r (hd post)) > len)"
  using assms
proof (induction l arbitrary: b0 tot q r)
  case Nil
  show ?case by (rule exI [of _ "[]"], rule exI [of _ "[]"]) (simp add: ascending_def)
next
  case (Cons a l)
  show ?case
  proof (cases "blk_status (blk_set r a) \<noteq> RT_RBB_BLK_PUT \<or> blk_buf (blk_set r b0) > blk_buf (blk_set r a)
      \<or> tot + blk_size (blk_set r a) > len")
    case True
    then show ?thesis by (intro exI [of _ "[]"] exI [of _ "a # l"]) (simp add: ascending_def)
  next
    case False
    let ?r1 = "upd_blk a (blk_status_update (\<lambda>_. RT_RBB_BLK_GET)) r"
    let ?q1 = "q\<lparr>q_blk_num := q_blk_num q + 1\<rparr>"
    have "distinct (a # l)" using Cons.prems by simp
    from Cons.IH [OF this, of "tot + blk_size (blk_set r a)" ?q1 ?r1] obtain run post where
      1: "l = run @ post" "queue_get_loop len (Some a) (tot + blk_size (blk_set r a)) l ?q1 ?r1
        = (tot + blk_size (blk_set r a) + blk_sum ?r1 run, ?q1\<lparr>q_blk_num := q_blk_num ?q1 + length run\<rparr>, mark_got run ?r1)"
      "\<forall>b\<in>set run. blk_status (blk_set ?r1 b) = RT_RBB_BLK_PUT" "ascending ?r1 (a # run)"
      "run \<noteq> [] \<longrightarrow> tot + blk_size (blk_set r a) + blk_sum ?r1 run \<le> len"
      "post = [] \<or> blk_status (blk_set ?r1 (hd post)) \<noteq> RT_RBB_BLK_PUT
       \<or> blk_buf (blk_set ?r1 (last (a # run))) > blk_buf (blk_set ?r1 (hd post))
       \<or> tot + blk_size (blk_set r a) + blk_sum ?r1 run + blk_size (blk_set ?r1 (hd post)) > len" by blast
    have na: "a \<notin> set run" "post \<noteq> [] \<Longrightarrow> hd post \<noteq> a" using Cons.prems 1(1) by (cases post; auto)+
    show ?thesis
    proof (rule exI [of _ "a # run"], rule exI [of _ post], intro conjI)
      show "a # l = (a # run) @ post" using 1(1) by simp
      show "queue_get_loop len (Some b0) tot (a # l) q r
        = (tot + blk_sum r (a # run), q\<lparr>q_blk_num := q_blk_num q + length (a # run)\<rparr>, mark_got (a # run) r)"
        using 1(2) False by (simp add: add.assoc)
      show "\<forall>b\<in>set (a # run). blk_status (blk_set r b) = RT_RBB_BLK_PUT" using 1(3) False na by (auto split: if_splits)
      show "ascending r (b0 # a # run)" using 1(4) [unfolded ascending_upd] False by (simp add: ascending_def)
      show "a # run \<noteq> [] \<longrightarrow> tot + blk_sum r (a # run) \<le> len"
        using 1(5) [unfolded blk_sum_upd] False by (cases "run = []") (simp_all add: add.assoc)
      show "post = [] \<or> blk_status (blk_set r (hd post)) \<noteq> RT_RBB_BLK_PUT
       \<or> blk_buf (blk_set r (last (b0 # a # run))) > blk_buf (blk_set r (hd post))
       \<or> tot + blk_sum r (a # run) + blk_size (blk_set r (hd post)) > len"
        using 1(6) na(2) by (cases "post = []") (auto simp: add.assoc split: if_splits)
    qed
  qed
qed

lemma queue_get_first:
  assumes "distinct l"
  shows "(\<forall>b\<in>set l. blk_status (blk_set r b) \<noteq> RT_RBB_BLK_PUT) \<and> queue_get_loop len None tot l q r = (tot, q, r)
    \<or> (\<exists>pre b run post. l = pre @ (b # run) @ post \<and> queue_get_loop len None tot l q r
        = (tot + blk_sum r (b # run), q\<lparr>q_blocks := b, q_blk_num := length (b # run)\<rparr>, mark_got (b # run) r)
      \<and> (\<forall>x\<in>set pre. blk_status (blk_set r x) \<noteq> RT_RBB_BLK_PUT)
      \<and> (\<forall>x\<in>set (b # run). blk_status (blk_set r x) = RT_RBB_BLK_PUT) \<and> ascending r (b # run)
      \<and> (run \<noteq> [] \<longrightarrow> tot + blk_sum r (b # run) \<le> len))"
  using assms
proof (induction l)
  case (Cons a l)
  show ?case
  proof (cases "blk_status (blk_set r a) = RT_RBB_BLK_PUT")
    case False
    have "distinct l" using Cons.prems by simp
    from Cons.IH [OF this] show ?thesis
    proof
      assume "(\<forall>b\<in>set l. blk_status (blk_set r b) \<noteq> RT_RBB_BLK_PUT) \<and> queue_get_loop len None tot l q r = (tot, q, r)"
      then show ?thesis using False by simp
    next
      assume "\<exists>pre b run post. l = pre @ (b # run) @ post \<and> queue_get_loop len None tot l q r
        = (tot + blk_sum r (b # run), q\<lparr>q_blocks := b, q_blk_num := length (b # run)\<rparr>, mark_got (b # run) r)
      \<and> (\<forall>x\<in>set pre. blk_status (blk_set r x) \<noteq> RT_RBB_BLK_PUT)
      \<and> (\<forall>x\<in>set (b # run). blk_status (blk_set r x) = RT_RBB_BLK_PUT) \<and> ascending r (b # run)
      \<and> (run \<noteq> [] \<longrightarrow> tot + blk_sum r (b # run) \<le> len)"
      then obtain pre b run post where h: "l = pre @ (b # run) @ post" "queue_get_loop len None tot l q r
        = (tot + blk_sum r (b # run), q\<lparr>q_blocks := b, q_blk_num := length (b # run)\<rparr>, mark_got (b # run) r)"
        "\<forall>x\<in>set pre. blk_status (blk_set r x) \<noteq> RT_RBB_BLK_PUT"
        "\<forall>x\<in>set (b # run). blk_status (blk_set r x) = RT_RBB_BLK_PUT" "ascending r (b # run)"
        "run \<noteq> [] \<longrightarrow> tot + blk_sum r (b # run) \<le> len" by blast
      show ?thesis
        by (rule disjI2, rule exI [of _ "a # pre"], rule exI [of _ b], rule exI [of _ run], rule exI [of _ post])
          (use h False in simp)
    qed
  next
    case True
    let ?r1 = "upd_blk a (blk_status_update (\<lambda>_. RT_RBB_BLK_GET)) r"
    let ?q1 = "q\<lparr>q_blocks := a, q_blk_num := 1\<rparr>"
    from queue_get_more [OF Cons.prems, of len "tot + blk_size (blk_set r a)" ?q1 ?r1]
    obtain run post where 1: "l = run @ post" "queue_get_loop len (Some a) (tot + blk_size (blk_set r a)) l ?q1 ?r1
        = (tot + blk_size (blk_set r a) + blk_sum ?r1 run, ?q1\<lparr>q_blk_num := q_blk_num ?q1 + length run\<rparr>, mark_got run ?r1)"
      "\<forall>b\<in>set run. blk_status (blk_set ?r1 b) = RT_RBB_BLK_PUT" "ascending ?r1 (a # run)"
      "run \<noteq> [] \<longrightarrow> tot + blk_size (blk_set r a) + blk_sum ?r1 run \<le> len" by blast
    have "a \<notin> set run" using Cons.prems 1(1) by auto
    then have 2: "\<forall>x\<in>set (a # run). blk_status (blk_set r x) = RT_RBB_BLK_PUT" using 1(3) True by (auto split: if_splits)
    have 3: "queue_get_loop len None tot (a # l) q r
        = (tot + blk_sum r (a # run), q\<lparr>q_blocks := a, q_blk_num := length (a # run)\<rparr>, mark_got (a # run) r)"
      using 1(2) True by (simp add: add.assoc)
    show ?thesis
      by (rule disjI2, rule exI [of _ "[]"], rule exI [of _ a], rule exI [of _ run], rule exI [of _ post])
        (use 1(1,5) 1(4) [unfolded ascending_upd] 2 3 in \<open>simp add: add.assoc\<close>)
  qed
qed simp

lemma next_block_at: "b \<notin> set pre \<Longrightarrow> next_block (pre @ b # rest) b = (case rest of [] \<Rightarrow> None | y # _ \<Rightarrow> Some y)"
  by (induction pre) auto

lemma queue_len_walk:
  assumes "distinct (blk_list r)" "blk_list r = pre @ run @ post" "run \<noteq> []"
  shows "queue_len_loop (length run) (Some (hd run)) tot r = Some (tot + blk_sum r run)"
  using assms
proof (induction run arbitrary: pre tot)
  case (Cons b run)
  have nb: "b \<notin> set pre" using Cons.prems(1,2) by auto
  show ?case
  proof (cases run)
    case Nil
    then show ?thesis by simp
  next
    case (Cons c cs)
    then have "next_block (blk_list r) b = Some (hd run)" using next_block_at [OF nb, of "run @ post"] Cons.prems(2) by simp
    moreover have "blk_list r = (pre @ [b]) @ run @ post" using Cons.prems(2) by simp
    ultimately show ?thesis using Cons.IH [OF Cons.prems(1), of "pre @ [b]" "tot + blk_size (blk_set r b)"] Cons
      by (simp add: add.assoc)
  qed
qed simp

lemma queue_free_walk:
  assumes "rbb_ok r" "blk_list r = pre @ run @ post" "run \<noteq> []"
  shows "\<exists>r'. queue_free_loop (length run) (Some (hd run)) r = Some r' \<and> rbb_ok r' \<and> blk_list r' = pre @ post
    \<and> set (free_list r') = set (free_list r) \<union> set run"
  using assms
proof (induction run arbitrary: r)
  case (Cons b run)
  have d: "distinct (blk_list r)" using Cons.prems(1) by (simp add: rbb_ok_def)
  then have nb: "b \<notin> set pre" using Cons.prems(2) by auto
  have "b \<in> set (blk_list r)" using Cons.prems(2) by simp
  from rbb_free_spec [OF Cons.prems(1) this] obtain r1 where r1: "rt_rbb_blk_free b r = Some r1" "rbb_ok r1"
    "blk_list r1 = remove1 b (blk_list r)" "free_list r1 = b # free_list r" by blast
  have l1: "blk_list r1 = pre @ run @ post" using r1(3) Cons.prems(2) nb by (simp add: remove1_append)
  show ?case
  proof (cases run)
    case Nil
    then show ?thesis using r1(1,2,4) l1 by (simp add: Let_def)
  next
    case (Cons c cs)
    then have "next_block (blk_list r) b = Some (hd run)" using next_block_at [OF nb, of "run @ post"] Cons.prems(2) by simp
    moreover obtain r' where "queue_free_loop (length run) (Some (hd run)) r1 = Some r'" "rbb_ok r'" "blk_list r' = pre @ post"
      "set (free_list r') = set (free_list r1) \<union> set run"
      using Cons.IH [OF r1(2) l1] Cons by auto
    ultimately show ?thesis using r1(1,4) by (simp add: Let_def)
  qed
qed simp

lemma rbb_queue_spec:
  assumes r: "rbb_ok r"
  shows "(\<forall>b\<in>set (blk_list r). blk_status (blk_set r b) \<noteq> RT_RBB_BLK_PUT) \<and> rt_rbb_blk_queue_get len q r = (0, q, r)
    \<or> (\<exists>pre run post q' r1 r2. blk_list r = pre @ run @ post \<and> run \<noteq> []
        \<and> rt_rbb_blk_queue_get len q r = (blk_sum r run, q', r1)
        \<and> (\<forall>x\<in>set pre. blk_status (blk_set r x) \<noteq> RT_RBB_BLK_PUT)
        \<and> (\<forall>x\<in>set run. blk_status (blk_set r x) = RT_RBB_BLK_PUT \<and> blk_status (blk_set r1 x) = RT_RBB_BLK_GET)
        \<and> ascending r run \<and> (length run = 1 \<or> blk_sum r run \<le> len)
        \<and> rt_rbb_blk_queue_len q' r1 = Some (blk_sum r run) \<and> rt_rbb_blk_queue_buf q' r1 = blk_buf (blk_set r (hd run))
        \<and> rt_rbb_blk_queue_free q' r1 = Some r2 \<and> rbb_ok r2 \<and> blk_list r2 = pre @ post
        \<and> set (free_list r2) = set (free_list r1) \<union> set run)"
proof -
  have d: "distinct (blk_list r)" using r by (simp add: rbb_ok_def)
  have g: "rt_rbb_blk_queue_get len q r = queue_get_loop len None 0 (blk_list r) q r"
    by (simp add: rt_rbb_blk_queue_get_def)
  from queue_get_first [OF d, of r len 0 q] show ?thesis
  proof
    assume "(\<forall>b\<in>set (blk_list r). blk_status (blk_set r b) \<noteq> RT_RBB_BLK_PUT) \<and> queue_get_loop len None 0 (blk_list r) q r = (0, q, r)"
    then show ?thesis using g by simp
  next
    assume "\<exists>pre b run post. blk_list r = pre @ (b # run) @ post \<and> queue_get_loop len None 0 (blk_list r) q r
        = (0 + blk_sum r (b # run), q\<lparr>q_blocks := b, q_blk_num := length (b # run)\<rparr>, mark_got (b # run) r)
      \<and> (\<forall>x\<in>set pre. blk_status (blk_set r x) \<noteq> RT_RBB_BLK_PUT)
      \<and> (\<forall>x\<in>set (b # run). blk_status (blk_set r x) = RT_RBB_BLK_PUT) \<and> ascending r (b # run)
      \<and> (run \<noteq> [] \<longrightarrow> 0 + blk_sum r (b # run) \<le> len)"
    then obtain pre b run post where h: "blk_list r = pre @ (b # run) @ post" "queue_get_loop len None 0 (blk_list r) q r
        = (blk_sum r (b # run), q\<lparr>q_blocks := b, q_blk_num := length (b # run)\<rparr>, mark_got (b # run) r)"
      "\<forall>x\<in>set pre. blk_status (blk_set r x) \<noteq> RT_RBB_BLK_PUT"
      "\<forall>x\<in>set (b # run). blk_status (blk_set r x) = RT_RBB_BLK_PUT" "ascending r (b # run)"
      "run \<noteq> [] \<longrightarrow> blk_sum r (b # run) \<le> len" by (elim exE conjE) (simp only: add_0)
    define R where "R = b # run"
    define q' where "q' = q\<lparr>q_blocks := b, q_blk_num := length (b # run)\<rparr>"
    define r1 where "r1 = mark_got R r"
    have ok1: "rbb_ok r1" unfolding r1_def by (rule mark_got_ok [OF r]) (use h(1) R_def in auto)
    have l1: "blk_list r1 = pre @ R @ post" using h(1) by (simp add: r1_def R_def del: mark_got_simps)
    have q': "q_blk_num q' = length R" "q_blocks q' = hd R" "R \<noteq> []" by (simp_all add: q'_def R_def)
    have d1: "distinct (blk_list r1)" using ok1 by (simp add: rbb_ok_def)
    have "blk_sum r1 R = blk_sum r R" by (simp add: blk_sum_def r1_def)
    then have len: "rt_rbb_blk_queue_len q' r1 = Some (blk_sum r R)"
      using queue_len_walk [OF d1 l1 q'(3), of 0] q' by (simp add: rt_rbb_blk_queue_len_def)
    obtain r2 where r2: "queue_free_loop (length R) (Some (hd R)) r1 = Some r2" "rbb_ok r2" "blk_list r2 = pre @ post"
      "set (free_list r2) = set (free_list r1) \<union> set R" using queue_free_walk [OF ok1 l1 q'(3)] by blast
    have fr: "rt_rbb_blk_queue_free q' r1 = Some r2" using r2(1) q' by (simp add: rt_rbb_blk_queue_free_def)
    have buf: "rt_rbb_blk_queue_buf q' r1 = blk_buf (blk_set r (hd R))"
      using q' by (simp add: rt_rbb_blk_queue_buf_def r1_def)
    have get: "rt_rbb_blk_queue_get len q r = (blk_sum r R, q', r1)" using g h(2) by (simp only: R_def q'_def r1_def)
    have st: "\<forall>x\<in>set R. blk_status (blk_set r x) = RT_RBB_BLK_PUT \<and> blk_status (blk_set r1 x) = RT_RBB_BLK_GET"
      using h(4) by (simp add: r1_def R_def del: mark_got_simps)
    have "length R = 1 \<or> blk_sum r R \<le> len" using h(6) by (cases run) (simp_all add: R_def)
    then show ?thesis
      using h(1,3,5) get q'(3) st len buf fr r2(2-4) unfolding R_def [symmetric] by blast
  qed
qed

text \<open>
  Getting a queue takes, from the first block that was put on, a run of put blocks
  with rising addresses, of more than one block only while the sizes add up to at most the length asked
  for, and nothing when no block was put; the length of the queue is the result, its buffer that of the
  first block, and freeing it takes just these blocks out of use.
\<close>

theorem rbb_queue_roundtrip:
  assumes "rbb_ok r"
  shows "(\<forall>b\<in>set (blk_list r). blk_status (blk_set r b) \<noteq> RT_RBB_BLK_PUT) \<and> rt_rbb_blk_queue_get len q r = (0, q, r)
    \<or> (\<exists>pre run post q' r1 r2. blk_list r = pre @ run @ post \<and> run \<noteq> []
        \<and> rt_rbb_blk_queue_get len q r = (blk_sum r run, q', r1)
        \<and> (\<forall>x\<in>set pre. blk_status (blk_set r x) \<noteq> RT_RBB_BLK_PUT)
        \<and> (\<forall>x\<in>set run. blk_status (blk_set r x) = RT_RBB_BLK_PUT \<and> blk_status (blk_set r1 x) = RT_RBB_BLK_GET)
        \<and> ascending r run \<and> (length run = 1 \<or> blk_sum r run \<le> len)
        \<and> rt_rbb_blk_queue_len q' r1 = Some (blk_sum r run) \<and> rt_rbb_blk_queue_buf q' r1 = blk_buf (blk_set r (hd run))
        \<and> rt_rbb_blk_queue_free q' r1 = Some r2 \<and> rbb_ok r2 \<and> blk_list r2 = pre @ post
        \<and> set (free_list r2) = set (free_list r1) \<union> set run)"
  by (rule rbb_queue_spec [OF assms])

subsection \<open>Behaviour at the edges\<close>

lemma init_blocks_spec:
  "free_list r = [] \<Longrightarrow> set (free_list (init_blocks n r)) = {..<n} \<and> distinct (free_list (init_blocks n r))
    \<and> (\<forall>b<n. blk_status (blk_set (init_blocks n r) b) = RT_RBB_BLK_UNUSED)
    \<and> blk_list (init_blocks n r) = blk_list r \<and> rbb_tail (init_blocks n r) = rbb_tail r
    \<and> rbb_buf (init_blocks n r) = rbb_buf r \<and> rbb_buf_size (init_blocks n r) = rbb_buf_size r"
  by (induction n) (auto simp: Let_def less_Suc_eq)

lemma rbb_init_ok: "buf + sz < 2 ^ 32 \<Longrightarrow> rbb_ok (rt_rbb_init buf sz s n)"
  unfolding rt_rbb_init_def rbb_ok_def
  using init_blocks_spec [of "\<lparr>rbb_buf = buf, rbb_buf_size = sz, blk_set = s, blk_max_num = n, blk_list = [],
    rbb_tail = None, free_list = []\<rparr>" n]
  by (simp add: list_tail_def blk_layout_def)

text \<open>
  An allocation for which there is no room has already taken a block out of the free list and does not put
  it back: after as many such calls as there are blocks, nothing can be allocated any more.
\<close>

lemma rbb_failed_alloc_loses_block:
  assumes "rbb_ok r" "free_list r = b # bs" "0 < sz" "sz < 2 ^ 24" "sz \<le> rbb_buf_size r" "rbb_room r < sz"
  shows "rt_rbb_blk_alloc sz r = Some (None, r\<lparr>free_list := bs\<rparr>)"
  using alloc_place [OF assms(1-5)] assms(6) by auto

text \<open>The first block is not compared with the size of the buffer.\<close>

lemma rbb_first_block_too_large:
  assumes "free_list r = b # bs" "blk_status (blk_set r b) = RT_RBB_BLK_UNUSED" "blk_list r = []" "rbb_tail r = None"
    and "sz < 2 ^ 24" "rbb_buf_size r < sz"
  shows "\<exists>r'. rt_rbb_blk_alloc sz r = Some (Some b, r') \<and> rbb_buf r' + rbb_buf_size r' < blk_end b r'"
  using assms
  by (auto simp: rt_rbb_blk_alloc_def find_empty_blk_in_set_def take_block_def blk_end_def rt_assert_def)

subsection \<open>Witnesses\<close>

definition demo_rbb :: rt_rbb where
  "demo_rbb = rt_rbb_init 4096 100 (\<lambda>_. \<lparr>blk_status = RT_RBB_BLK_UNUSED, blk_size = 0, blk_buf = 0\<rparr>) 4"

lemma demo_rbb_ok: "rbb_ok demo_rbb"
  unfolding demo_rbb_def by (rule rbb_init_ok) simp

text \<open>A buffer with two blocks that were put and a gap between them, left by a block that was freed.\<close>

definition gap_set :: "nat \<Rightarrow> rt_rbb_blk" where
  "gap_set = (\<lambda>_. \<lparr>blk_status = RT_RBB_BLK_UNUSED, blk_size = 0, blk_buf = 0\<rparr>)
     (3 := \<lparr>blk_status = RT_RBB_BLK_PUT, blk_size = 10, blk_buf = 4096\<rparr>,
      1 := \<lparr>blk_status = RT_RBB_BLK_PUT, blk_size = 10, blk_buf = 4116\<rparr>)"

definition gap_rbb :: rt_rbb where
  "gap_rbb = \<lparr>rbb_buf = 4096, rbb_buf_size = 100, blk_set = gap_set, blk_max_num = 4, blk_list = [3, 1],
     rbb_tail = Some 1, free_list = [2, 0]\<rparr>"

lemma gap_rbb_ok: "rbb_ok gap_rbb"
proof -
  have "blk_layout gap_set [3, 1]"
    unfolding blk_layout_def by (rule exI [of _ "[3, 1]"], rule exI [of _ "[]"]) (simp add: before_def gap_set_def)
  then show ?thesis
    by (simp add: rbb_ok_def gap_rbb_def list_tail_def placed_def blk_end_def gap_set_def)
qed

text \<open>A queue need not be one piece of memory: the run goes on behind the gap.\<close>

lemma rbb_queue_with_gap:
  "fst (rt_rbb_blk_queue_get 100 \<lparr>q_blocks = 0, q_blk_num = 0\<rparr> gap_rbb) = 20"
  "blk_end 3 gap_rbb = 4106" "rt_rbb_blk_buf 1 gap_rbb = 4116"
  by (simp_all add: rt_rbb_blk_queue_get_def gap_rbb_def gap_set_def upd_blk_def blk_end_def rt_rbb_blk_buf_def)

text \<open>
  Blocks of size 0 defeat the test for the wrap: when the buffer is full behind a wrap, a block of size 0 gets
  the address of the head, and the next block is laid over the head.
\<close>

definition full_rbb :: rt_rbb where
  "full_rbb = \<lparr>rbb_buf = 4096, rbb_buf_size = 100,
     blk_set = (\<lambda>_. \<lparr>blk_status = RT_RBB_BLK_UNUSED, blk_size = 0, blk_buf = 0\<rparr>)
       (2 := \<lparr>blk_status = RT_RBB_BLK_INITED, blk_size = 50, blk_buf = 4146\<rparr>,
        3 := \<lparr>blk_status = RT_RBB_BLK_INITED, blk_size = 50, blk_buf = 4096\<rparr>),
     blk_max_num = 4, blk_list = [2, 3], rbb_tail = Some 3, free_list = [1, 0]\<rparr>"

lemmas rbb_eval = rt_rbb_blk_alloc_def find_empty_blk_in_set_def take_block_def slist_append_def upd_blk_def blk_end_def
  rt_rbb_blk_buf_def rt_assert_def addr_diff_def

lemma rbb_zero_size_overlap:
  "\<exists>r1 r2. rt_rbb_blk_alloc 0 full_rbb = Some (Some 1, r1) \<and> rt_rbb_blk_alloc 50 r1 = Some (Some 0, r2)
     \<and> rt_rbb_blk_buf 0 r2 = 4146 \<and> rt_rbb_blk_buf 2 r2 = 4146"
  by (simp add: rbb_eval full_rbb_def)

theorem rbb_blocks_disjoint_witness:
  "\<exists>r'. rbb_run [Rbb_free 3, Rbb_alloc 20] gap_rbb = Some r' \<and> rbb_ok r'"
proof -
  have "rbb_keeps_to [Rbb_free 3, Rbb_alloc 20] gap_rbb"
    by (simp add: gap_rbb_def gap_set_def rt_rbb_blk_free_def rt_assert_def Let_def slist_remove_def
        upd_blk_def split: option.split)
  from rbb_blocks_disjoint [OF gap_rbb_ok this] show ?thesis by blast
qed

theorem rbb_queue_roundtrip_witness:
  "\<exists>run q' r1 r2. run \<noteq> [] \<and> rt_rbb_blk_queue_get 100 \<lparr>q_blocks = 0, q_blk_num = 0\<rparr> gap_rbb = (blk_sum gap_rbb run, q', r1)
     \<and> rt_rbb_blk_queue_free q' r1 = Some r2 \<and> rbb_ok r2"
proof -
  have "3 \<in> set (blk_list gap_rbb)" "blk_status (blk_set gap_rbb 3) = RT_RBB_BLK_PUT"
    by (simp_all add: gap_rbb_def gap_set_def)
  then show ?thesis
    using rbb_queue_roundtrip [OF gap_rbb_ok, of 100 "\<lparr>q_blocks = 0, q_blk_num = 0\<rparr>"] by blast
qed

end
