(* ===== verification/Drv_Touch.thy ===== *)
theory Drv_Touch
  imports Prelude
begin

text \<open>
  The touch screen, from the panel to the graphics library: the driver of the panel GT911
  (\<open>board/ports/touch/gt911/src/gt911.c\<close>), the touch device (\<open>components/drivers/touch/touch.c\<close>) and the input
  device of the graphics library (\<open>board/lvgl/lv_port_indev.c\<close>). What a read on the I2C bus delivers is an
  argument, \<open>None\<close> when the transfer fails; what goes out to the bus and the pins is recorded. \<open>None\<close> as a
  result is an access outside an array.
\<close>

abbreviation (input) GT911_MAX_TOUCH :: nat where "GT911_MAX_TOUCH \<equiv> 5"
abbreviation (input) GT911_POINT_INFO_NUM :: nat where "GT911_POINT_INFO_NUM \<equiv> 5"

datatype touch_event = TOUCH_EVENT_NONE | TOUCH_EVENT_UP | TOUCH_EVENT_DOWN | TOUCH_EVENT_MOVE

record rt_touch_data =
  td_event :: touch_event
  td_track_id :: nat
  td_width :: u8
  td_x :: u16
  td_y :: u16
  td_timestamp :: rt_tick_t

datatype i2c_event = I2c_write "u8 list" | I2c_read "u8 list" nat

type_synonym i2c_reply = "(nat \<Rightarrow> u8) option"

text \<open>The variables of the driver; \<open>gt_allocs\<close> counts the blocks of the heap that it holds.\<close>

record gt911 =
  gt_pre_x :: "u16 list"
  gt_pre_y :: "u16 list"
  gt_pre_w :: "u16 list"
  s_tp_dowm :: "u8 list"
  gt_pre_touch :: nat
  gt_pre_id :: "nat list"
  gt_cfg_tbl :: "u8 list"
  gt_bus :: "i2c_event list"
  gt_allocs :: nat

definition GT911_CFG_TBL :: "u8 list" where
  "GT911_CFG_TBL =
    [0x6b, 0x00, 0x04, 0x58, 0x02, 0x05, 0x0d, 0x00, 0x01, 0x0f,
     0x28, 0x0f, 0x50, 0x32, 0x03, 0x05, 0x00, 0x00, 0x00, 0x00,
     0x00, 0x00, 0x00, 0x00, 0x00, 0x00, 0x00, 0x8a, 0x2a, 0x0c,
     0x45, 0x47, 0x0c, 0x08, 0x00, 0x00, 0x00, 0x40, 0x03, 0x2c,
     0x00, 0x01, 0x00, 0x00, 0x00, 0x03, 0x64, 0x32, 0x00, 0x00,
     0x00, 0x28, 0x64, 0x94, 0xd5, 0x02, 0x07, 0x00, 0x00, 0x04,
     0x95, 0x2c, 0x00, 0x8b, 0x34, 0x00, 0x82, 0x3f, 0x00, 0x7d,
     0x4c, 0x00, 0x7a, 0x5b, 0x00, 0x7a, 0x00, 0x00, 0x00, 0x00,
     0x00, 0x00, 0x00, 0x00, 0x00, 0x00, 0x00, 0x00, 0x00, 0x00,
     0x00, 0x00, 0x00, 0x00, 0x00, 0x00, 0x00, 0x00, 0x00, 0x00,
     0x00, 0x00, 0x00, 0x00, 0x00, 0x00, 0x00, 0x00, 0x00, 0x00,
     0x00, 0x00, 0x18, 0x16, 0x14, 0x12, 0x10, 0x0e, 0x0c, 0x0a,
     0x08, 0x06, 0x04, 0x02, 0xff, 0xff, 0x00, 0x00, 0x00, 0x00,
     0x00, 0x00, 0x00, 0x00, 0x00, 0x00, 0x00, 0x00, 0x00, 0x00,
     0x00, 0x00, 0x16, 0x18, 0x1c, 0x1d, 0x1e, 0x1f, 0x20, 0x21,
     0x22, 0x24, 0x13, 0x12, 0x10, 0x0f, 0x0a, 0x08, 0x06, 0x04,
     0x02, 0x00, 0xff, 0xff, 0xff, 0xff, 0xff, 0xff, 0x00, 0x00,
     0x00, 0x00, 0x00, 0x00, 0x00, 0x00, 0x00, 0x00, 0x00, 0x00,
     0x00, 0x00, 0x00, 0x00, 0x79, 0x01]"

definition gt911_start :: gt911 where
  "gt911_start = \<lparr>gt_pre_x = replicate 5 (- 1), gt_pre_y = replicate 5 (- 1), gt_pre_w = replicate 5 (- 1),
     s_tp_dowm = replicate 5 0, gt_pre_touch = 0, gt_pre_id = replicate 5 0, gt_cfg_tbl = GT911_CFG_TBL,
     gt_bus = [], gt_allocs = 0\<rparr>"

text \<open>Arrays: reading and writing inside their bounds.\<close>

definition read_at :: "'a list \<Rightarrow> nat \<Rightarrow> 'a option" where
  "read_at xs i = (if i < length xs then Some (xs ! i) else None)"

definition write_at :: "'a list \<Rightarrow> nat \<Rightarrow> 'a \<Rightarrow> 'a list option" where
  "write_at xs i v = (if i < length xs then Some (xs[i := v]) else None)"

subsection \<open>The panel\<close>

definition gt911_write_reg :: "bool \<Rightarrow> u8 list \<Rightarrow> gt911 \<Rightarrow> rt_err_t \<times> gt911" where
  "gt911_write_reg ok bytes g = (if ok then RT_EOK else - RT_ERROR, g\<lparr>gt_bus := gt_bus g @ [I2c_write bytes]\<rparr>)"

definition gt911_read_regs :: "i2c_reply \<Rightarrow> u8 list \<Rightarrow> nat \<Rightarrow> gt911 \<Rightarrow> u8 list option \<times> gt911" where
  "gt911_read_regs reply reg len g =
     (map_option (\<lambda>f. map f [0..<len]) reply, g\<lparr>gt_bus := gt_bus g @ [I2c_read reg len]\<rparr>)"

definition gt911_get_product_id :: "i2c_reply \<Rightarrow> nat \<Rightarrow> gt911 \<Rightarrow> u8 list option \<times> gt911" where
  "gt911_get_product_id reply len g = gt911_read_regs reply [0x81, 0x40] len g"

text \<open>The ranges of the two coordinates and the number of points.\<close>

definition gt911_get_info :: "i2c_reply \<Rightarrow> gt911 \<Rightarrow> (nat \<times> nat \<times> nat) option \<times> gt911" where
  "gt911_get_info reply g = (let (r, g1) = gt911_read_regs reply [0x80, 0x47] 7 g in
     (map_option (\<lambda>b. (unat (b ! 2) * 256 + unat (b ! 1), unat (b ! 4) * 256 + unat (b ! 3), unat (b ! 5 AND 0x0f))) r, g1))"

definition gt911_soft_reset :: "bool \<Rightarrow> gt911 \<Rightarrow> rt_err_t \<times> gt911" where
  "gt911_soft_reset ok g = gt911_write_reg ok [0x80, 0x40, 0x02] g"

definition gt911_touch_up :: "rt_tick_t \<Rightarrow> nat \<Rightarrow> rt_touch_data list \<times> gt911 \<Rightarrow> (rt_touch_data list \<times> gt911) option" where
  "gt911_touch_up ts tid = (\<lambda>(buf, g). do {
     d \<leftarrow> read_at (s_tp_dowm g) tid;
     let g1 = (if d = 1 then g\<lparr>s_tp_dowm := (s_tp_dowm g)[tid := 0]\<rparr> else g);
     x \<leftarrow> read_at (gt_pre_x g1) tid;
     y \<leftarrow> read_at (gt_pre_y g1) tid;
     w \<leftarrow> read_at (gt_pre_w g1) tid;
     buf1 \<leftarrow> write_at buf tid \<lparr>td_event = (if d = 1 then TOUCH_EVENT_UP else TOUCH_EVENT_NONE), td_track_id = tid,
       td_width = ucast w, td_x = x, td_y = y, td_timestamp = ts\<rparr>;
     Some (buf1, g1\<lparr>gt_pre_x := (gt_pre_x g1)[tid := - 1], gt_pre_y := (gt_pre_y g1)[tid := - 1],
       gt_pre_w := (gt_pre_w g1)[tid := - 1]\<rparr>)
   })"

definition gt911_touch_down ::
  "rt_tick_t \<Rightarrow> nat \<Rightarrow> u16 \<Rightarrow> u16 \<Rightarrow> u16 \<Rightarrow> rt_touch_data list \<times> gt911 \<Rightarrow> (rt_touch_data list \<times> gt911) option" where
  "gt911_touch_down ts tid x y w = (\<lambda>(buf, g). do {
     d \<leftarrow> read_at (s_tp_dowm g) tid;
     let g1 = (if d = 1 then g else g\<lparr>s_tp_dowm := (s_tp_dowm g)[tid := 1]\<rparr>);
     buf1 \<leftarrow> write_at buf tid \<lparr>td_event = (if d = 1 then TOUCH_EVENT_MOVE else TOUCH_EVENT_DOWN), td_track_id = tid,
       td_width = ucast w, td_x = x, td_y = y, td_timestamp = ts\<rparr>;
     Some (buf1, g1\<lparr>gt_pre_x := (gt_pre_x g1)[tid := x], gt_pre_y := (gt_pre_y g1)[tid := y],
       gt_pre_w := (gt_pre_w g1)[tid := w]\<rparr>)
   })"

text \<open>The inner loop over the points that are left, for the finger \<open>i\<close> of the time before.\<close>

fun lift_scan :: "rt_tick_t \<Rightarrow> u8 list \<Rightarrow> nat \<Rightarrow> nat \<Rightarrow> nat list \<Rightarrow> rt_touch_data list \<times> gt911 \<Rightarrow> (rt_touch_data list \<times> gt911) option" where
  "lift_scan ts read_buf touch_num i [] s = Some s"
| "lift_scan ts read_buf touch_num i (j # js) s = do {
     b \<leftarrow> read_at read_buf (j * 8);
     let read_id = unat (b AND 0x0f);
     (if read_id > 0 then lift_scan ts read_buf touch_num i js s
      else do {
        up_id \<leftarrow> read_at (gt_pre_id (snd s)) i;
        (if up_id = read_id then Some s
         else if touch_num - 1 \<le> j then do {
           s1 \<leftarrow> gt911_touch_up ts up_id s;
           lift_scan ts read_buf touch_num i js s1
         }
         else lift_scan ts read_buf touch_num i js s)
      })
   }"

fun lift_loop :: "rt_tick_t \<Rightarrow> u8 list \<Rightarrow> nat \<Rightarrow> nat list \<Rightarrow> rt_touch_data list \<times> gt911 \<Rightarrow> (rt_touch_data list \<times> gt911) option" where
  "lift_loop ts read_buf touch_num [] s = Some s"
| "lift_loop ts read_buf touch_num (i # is) s = do {
     s1 \<leftarrow> lift_scan ts read_buf touch_num i [0..<touch_num] s;
     lift_loop ts read_buf touch_num is s1
   }"

definition le16 :: "u8 list \<Rightarrow> nat \<Rightarrow> u16" where
  "le16 b i = ucast (b ! i) OR push_bit 8 (ucast (b ! (i + 1)))"

fun down_loop :: "rt_tick_t \<Rightarrow> u8 list \<Rightarrow> nat list \<Rightarrow> rt_touch_data list \<times> gt911 \<Rightarrow> (rt_touch_data list \<times> gt911) option" where
  "down_loop ts read_buf [] s = Some s"
| "down_loop ts read_buf (i # is) s = do {
     b \<leftarrow> read_at read_buf (i * 8);
     let read_id = unat (b AND 0x0f);
     (if read_id > 0 then down_loop ts read_buf is s
      else do {
        rt_assert (i * 8 + 6 < length read_buf);
        ids \<leftarrow> write_at (gt_pre_id (snd s)) i read_id;
        s1 \<leftarrow> gt911_touch_down ts read_id (le16 read_buf (i * 8 + 1)) (le16 read_buf (i * 8 + 3)) (le16 read_buf (i * 8 + 5))
                (fst s, (snd s)\<lparr>gt_pre_id := ids\<rparr>);
        down_loop ts read_buf is s1
      })
   }"

fun up_loop :: "rt_tick_t \<Rightarrow> nat list \<Rightarrow> rt_touch_data list \<times> gt911 \<Rightarrow> (rt_touch_data list \<times> gt911) option" where
  "up_loop ts [] s = Some s"
| "up_loop ts (i # is) s = do {
     tid \<leftarrow> read_at (gt_pre_id (snd s)) i;
     s1 \<leftarrow> gt911_touch_up ts tid s;
     up_loop ts is s1
   }"

text \<open>What follows the reading of the points: lifted fingers first, then those that are down.\<close>

definition report_points ::
  "rt_tick_t \<Rightarrow> nat \<Rightarrow> u8 list \<Rightarrow> rt_touch_data list \<times> gt911 \<Rightarrow> (rt_touch_data list \<times> gt911) option" where
  "report_points ts touch_num read_buf s = do {
     let pre_touch = gt_pre_touch (snd s);
     s1 \<leftarrow> (if pre_touch > touch_num then lift_loop ts read_buf touch_num [0..<pre_touch] s else Some s);
     s2 \<leftarrow> (if touch_num \<noteq> 0 then down_loop ts read_buf [0..<touch_num] s1
            else if pre_touch \<noteq> 0 then up_loop ts [0..<pre_touch] s1
            else Some s1);
     Some (fst s2, (snd s2)\<lparr>gt_pre_touch := touch_num\<rparr>)
   }"

definition gt911_read_point ::
  "rt_tick_t \<Rightarrow> i2c_reply \<Rightarrow> i2c_reply \<Rightarrow> rt_touch_data list \<Rightarrow> nat \<Rightarrow> gt911 \<Rightarrow> (nat \<times> rt_touch_data list \<times> gt911) option" where
  "gt911_read_point ts status points buf read_num g = do {
     let (st, g1) = gt911_read_regs status [0x81, 0x4E] 1 g;
     (n, buf1, g2) \<leftarrow> (case st of
         None \<Rightarrow> Some (0, buf, g1)
       | Some b \<Rightarrow>
           (let point_status = b ! 0; touch_num = unat (point_status AND 0x0f) in
            if point_status = 0 then Some (0, buf, g1)
            else if point_status AND 0x80 = 0 then Some (0, buf, g1)
            else if touch_num > GT911_MAX_TOUCH then Some (0, buf, g1)
            else (let (pts, g2) = gt911_read_regs points [0x81, 0x4F] (read_num * GT911_POINT_INFO_NUM mod 256) g1 in
              case pts of
                None \<Rightarrow> Some (0, buf, g2)
              | Some bytes \<Rightarrow> do {
                  rt_assert (length bytes \<le> 8 * GT911_MAX_TOUCH);
                  (buf1, g3) \<leftarrow> report_points ts touch_num (bytes @ replicate (8 * GT911_MAX_TOUCH - length bytes) 0) (buf, g2);
                  Some (read_num, buf1, g3)
                })));
     Some (n, buf1, snd (gt911_write_reg True [0x81, 0x4E, 0x00] g2))
   }"

datatype touch_cmd = CTRL_GET_ID | CTRL_GET_INFO | CTRL_SET_MODE | CTRL_SET_X_RANGE | CTRL_SET_Y_RANGE | CTRL_SET_X_TO_Y
  | CTRL_DISABLE_INT | CTRL_ENABLE_INT | CTRL_POWER_ON | CTRL_POWER_OFF | CTRL_GET_STATUS

datatype touch_out = Out_none | Out_id "u8 list" | Out_info nat nat nat

text \<open>The change that a command makes to the copy of the table (behind its address) and to the table.\<close>

definition config_edit :: "touch_cmd \<Rightarrow> u32 \<Rightarrow> u8 list \<Rightarrow> u8 list \<Rightarrow> u8 list \<times> u8 list" where
  "config_edit cmd arg config tbl = (case cmd of
       CTRL_SET_X_RANGE \<Rightarrow>
         (let x_range = ucast arg :: u16; hi = ucast (drop_bit 8 x_range) :: u8; lo = ucast x_range :: u8 in
          (config[4 := hi, 3 := lo], tbl[2 := hi, 1 := lo]))
     | CTRL_SET_Y_RANGE \<Rightarrow>
         (let y_range = ucast arg :: u16; hi = ucast (drop_bit 8 y_range) :: u8; lo = ucast y_range :: u8 in
          (config[6 := hi, 5 := lo], tbl[4 := hi, 3 := lo]))
     | CTRL_SET_X_TO_Y \<Rightarrow> (config[8 := config ! 8 XOR 8], tbl)
     | CTRL_SET_MODE \<Rightarrow>
         (let trig_type = ucast arg :: u16 in
          (if trig_type = 0x100 then config[8 := config ! 8 AND 0xFC]
           else if trig_type = 0x001 then config[8 := (config ! 8 AND 0xFC) OR 0x02]
           else config, tbl))
     | _ \<Rightarrow> (config, tbl))"

text \<open>\<open>arg\<close> is the word at the address that is passed; \<open>mem\<close> says whether the allocation succeeds.\<close>

definition gt911_control ::
  "bool \<Rightarrow> i2c_reply \<Rightarrow> bool \<Rightarrow> touch_cmd \<Rightarrow> u32 \<Rightarrow> gt911 \<Rightarrow> rt_err_t \<times> touch_out \<times> gt911" where
  "gt911_control mem reply sent cmd arg g =
     (if cmd = CTRL_GET_ID then
        (let (r, g1) = gt911_get_product_id reply 6 g in
         case r of None \<Rightarrow> (- RT_ERROR, Out_none, g1) | Some b \<Rightarrow> (RT_EOK, Out_id b, g1))
      else if cmd = CTRL_GET_INFO then
        (let (r, g1) = gt911_get_info reply g in
         case r of None \<Rightarrow> (- RT_ERROR, Out_none, g1) | Some (x, y, n) \<Rightarrow> (RT_EOK, Out_info x y n, g1))
      else if \<not> mem then (- RT_ERROR, Out_none, g)
      else
        (let g1 = g\<lparr>gt_allocs := gt_allocs g + 1\<rparr>;
             (config, tbl) = config_edit cmd arg ([0x80, 0x47] @ gt_cfg_tbl g1) (gt_cfg_tbl g1);
             (r, g2) = gt911_write_reg sent config (g1\<lparr>gt_cfg_tbl := tbl\<rparr>)
         in if r \<noteq> RT_EOK then (- 1, Out_none, g2)
            else (let checksum = NOT (sum_list (drop 2 config)) + 1;
                      g3 = snd (gt911_write_reg True [0x80, 0xFF, checksum, 1] g2)
                  in (RT_EOK, Out_none, g3\<lparr>gt_allocs := gt_allocs g3 - 1\<rparr>))))"

subsection \<open>The touch device and the input device\<close>

record touch =
  tp_gt :: gt911
  tp_irq :: bool
  tp_rx :: bool
  tp_range_x :: u32
  tp_range_y :: u32
  touch_detect_flag :: u8
  tp_read_data :: rt_touch_data



definition rt_touch_irq_disable :: "touch \<Rightarrow> touch" where
  "rt_touch_irq_disable p = p\<lparr>tp_irq := False\<rparr>"

definition rt_touch_open :: "u16 \<Rightarrow> u16 \<Rightarrow> touch \<Rightarrow> rt_err_t \<times> touch" where
  "rt_touch_open oflag dev_flag p =
     (RT_EOK, if oflag AND 0x100 \<noteq> 0 \<and> dev_flag AND 0x100 \<noteq> 0 then p\<lparr>tp_irq := True\<rparr> else p)"

definition rt_touch_close :: "touch \<Rightarrow> rt_err_t \<times> touch" where
  "rt_touch_close p = (RT_EOK, rt_touch_irq_disable p)"







subsection \<open>Every report is taken safely\<close>

text \<open>Only finger 0 is ever entered: the others are skipped by their number.\<close>

definition gt_ok :: "gt911 \<Rightarrow> bool" where
  "gt_ok g \<longleftrightarrow> length (gt_pre_x g) = 5 \<and> length (gt_pre_y g) = 5 \<and> length (gt_pre_w g) = 5 \<and> length (s_tp_dowm g) = 5
     \<and> gt_pre_id g = replicate 5 0 \<and> gt_pre_touch g \<le> 5 \<and> s_tp_dowm g ! 0 \<in> {0, 1} \<and> length (gt_cfg_tbl g) = 186"

definition entry_ok :: "rt_touch_data list \<Rightarrow> rt_touch_data list \<times> gt911 \<Rightarrow> bool" where
  "entry_ok buf s \<longleftrightarrow> length (fst s) = length buf \<and> tl (fst s) = tl buf \<and> buf \<noteq> [] \<and> gt_ok (snd s)"

lemma array_simps [simp]:
  "i < length xs \<Longrightarrow> read_at xs i = Some (xs ! i)" "i < length xs \<Longrightarrow> write_at xs i v = Some (xs[i := v])"
  by (simp_all add: read_at_def write_at_def)

lemma touch_up_0:
  assumes "gt_ok g" "buf \<noteq> []"
  shows "gt911_touch_up ts 0 (buf, g) =
    Some (buf[0 := \<lparr>td_event = (if s_tp_dowm g ! 0 = 1 then TOUCH_EVENT_UP else TOUCH_EVENT_NONE), td_track_id = 0,
        td_width = ucast (gt_pre_w g ! 0), td_x = gt_pre_x g ! 0, td_y = gt_pre_y g ! 0, td_timestamp = ts\<rparr>],
      g\<lparr>s_tp_dowm := (s_tp_dowm g)[0 := 0], gt_pre_x := (gt_pre_x g)[0 := - 1], gt_pre_y := (gt_pre_y g)[0 := - 1],
        gt_pre_w := (gt_pre_w g)[0 := - 1]\<rparr>)"
proof -
  obtain d ds where d: "s_tp_dowm g = d # ds" "d = 0 \<or> d = 1" using assms(1) by (cases "s_tp_dowm g") (auto simp: gt_ok_def)
  then show ?thesis using assms by (cases g) (auto simp: gt911_touch_up_def gt_ok_def Let_def)
qed

lemma touch_down_0:
  assumes "gt_ok g" "buf \<noteq> []"
  shows "gt911_touch_down ts 0 x y w (buf, g) =
    Some (buf[0 := \<lparr>td_event = (if s_tp_dowm g ! 0 = 1 then TOUCH_EVENT_MOVE else TOUCH_EVENT_DOWN), td_track_id = 0,
        td_width = ucast w, td_x = x, td_y = y, td_timestamp = ts\<rparr>],
      g\<lparr>s_tp_dowm := (s_tp_dowm g)[0 := 1], gt_pre_x := (gt_pre_x g)[0 := x], gt_pre_y := (gt_pre_y g)[0 := y],
        gt_pre_w := (gt_pre_w g)[0 := w]\<rparr>)"
proof -
  obtain d ds where d: "s_tp_dowm g = d # ds" "d = 0 \<or> d = 1" using assms(1) by (cases "s_tp_dowm g") (auto simp: gt_ok_def)
  then show ?thesis using assms by (cases g) (auto simp: gt911_touch_down_def gt_ok_def Let_def)
qed

lemma gt_ok_touch:
  assumes "gt_ok g" "v \<in> {0, 1}"
  shows "gt_ok (g\<lparr>s_tp_dowm := (s_tp_dowm g)[0 := v], gt_pre_x := (gt_pre_x g)[0 := a], gt_pre_y := (gt_pre_y g)[0 := b],
    gt_pre_w := (gt_pre_w g)[0 := c]\<rparr>)"
  using assms by (auto simp: gt_ok_def)

lemma entry_ok_up: "entry_ok buf s \<Longrightarrow> \<exists>s'. gt911_touch_up ts 0 s = Some s' \<and> entry_ok buf s'"
proof -
  assume e: "entry_ok buf s"
  obtain b g where s: "s = (b, g)" by (cases s)
  have b: "b \<noteq> []" "gt_ok g" using e s by (auto simp: entry_ok_def)
  show ?thesis using touch_up_0 [OF b(2,1), of ts] gt_ok_touch [OF b(2), of 0] e
    by (cases b) (auto simp: s entry_ok_def)
qed

lemma entry_ok_down: "entry_ok buf s \<Longrightarrow> \<exists>s'. gt911_touch_down ts 0 x y w s = Some s' \<and> entry_ok buf s'"
proof -
  assume e: "entry_ok buf s"
  obtain b g where s: "s = (b, g)" by (cases s)
  have b: "b \<noteq> []" "gt_ok g" using e s by (auto simp: entry_ok_def)
  show ?thesis using touch_down_0 [OF b(2,1), of ts x y w] gt_ok_touch [OF b(2), of 1] e
    by (cases b) (auto simp: s entry_ok_def)
qed

lemma pre_id_0: "gt_ok g \<Longrightarrow> i < 5 \<Longrightarrow> read_at (gt_pre_id g) i = Some 0"
  by (simp add: gt_ok_def)

lemma lift_scan_ok:
  "gt_ok (snd s) \<Longrightarrow> i < 5 \<Longrightarrow> length rb = 40 \<Longrightarrow> \<forall>j\<in>set js. j < 5 \<Longrightarrow> lift_scan ts rb n i js s = Some s"
  by (induction js) (auto simp: pre_id_0 Let_def)

lemma lift_loop_ok:
  "gt_ok (snd s) \<Longrightarrow> \<forall>i\<in>set is. i < 5 \<Longrightarrow> length rb = 40 \<Longrightarrow> n \<le> 5 \<Longrightarrow> lift_loop ts rb n is s = Some s"
  by (induction "is") (auto simp: lift_scan_ok)

lemma down_loop_ok:
  "entry_ok buf s \<Longrightarrow> \<forall>i\<in>set is. i < 5 \<Longrightarrow> length rb = 40 \<Longrightarrow> \<exists>s'. down_loop ts rb is s = Some s' \<and> entry_ok buf s'"
proof (induction "is" arbitrary: s)
  case (Cons i "is")
  then have i: "i < 5" by simp
  show ?case
  proof (cases "unat (rb ! (i * 8) AND 0x0f) > 0")
    case True
    then show ?thesis using Cons i by (simp add: Let_def)
  next
    case False
    obtain b g where s: "s = (b, g)" by (cases s)
    have g: "gt_ok g" using Cons.prems(1) s by (simp add: entry_ok_def)
    then have id: "write_at (gt_pre_id g) i 0 = Some (gt_pre_id g)"
      using i by (simp add: gt_ok_def write_at_def list_update_same_conv)
    obtain s' where s': "gt911_touch_down ts 0 (le16 rb (i * 8 + 1)) (le16 rb (i * 8 + 3)) (le16 rb (i * 8 + 5)) s = Some s'"
      "entry_ok buf s'" using entry_ok_down [OF Cons.prems(1)] by blast
    obtain s2 where s2: "down_loop ts rb is s' = Some s2" "entry_ok buf s2"
      using Cons.IH [OF s'(2)] Cons.prems by auto
    show ?thesis using False s' s2 id i Cons.prems(3) by (auto simp: s Let_def)
  qed
qed simp

lemma up_loop_ok:
  "entry_ok buf s \<Longrightarrow> \<forall>i\<in>set is. i < 5 \<Longrightarrow> \<exists>s'. up_loop ts is s = Some s' \<and> entry_ok buf s'"
proof (induction "is" arbitrary: s)
  case (Cons i "is")
  have g: "gt_ok (snd s)" using Cons.prems(1) by (simp add: entry_ok_def)
  obtain s' where "gt911_touch_up ts 0 s = Some s'" "entry_ok buf s'" using entry_ok_up [OF Cons.prems(1)] by blast
  then show ?case using Cons pre_id_0 [OF g] by simp
qed simp

lemma report_points_ok:
  assumes "entry_ok buf s" "n \<le> 5" "length rb = 40"
  shows "\<exists>s'. report_points ts n rb s = Some s' \<and> entry_ok buf s' \<and> gt_pre_touch (snd s') = n"
proof -
  have g: "gt_ok (snd s)" using assms(1) by (simp add: entry_ok_def)
  then have pt: "\<forall>i\<in>set [0..<gt_pre_touch (snd s)]. i < 5" by (auto simp: gt_ok_def)
  have l: "lift_loop ts rb k [0..<gt_pre_touch (snd s)] s = Some s" if "k \<le> 5" for k
    by (rule lift_loop_ok [OF g pt assms(3) that])
  have fin: "entry_ok buf s1 \<Longrightarrow> entry_ok buf (fst s1, (snd s1)\<lparr>gt_pre_touch := n\<rparr>)" for s1
    using assms(2) by (auto simp: entry_ok_def gt_ok_def)
  obtain s1 where s1: "down_loop ts rb [0..<n] s = Some s1" "entry_ok buf s1"
    using down_loop_ok [OF assms(1), of "[0..<n]" rb ts] assms(2,3) by auto
  obtain s2 where s2: "up_loop ts [0..<gt_pre_touch (snd s)] s = Some s2" "entry_ok buf s2"
    using up_loop_ok [OF assms(1) pt] by blast
  show ?thesis
    using fin [OF s1(2)] fin [OF s2(2)] fin [OF assms(1)]
    by (cases "n = 0") (auto simp: report_points_def Let_def l s1(1) s2(1) assms(2))
qed


lemma gt_ok_bus [simp]: "gt_ok (g\<lparr>gt_bus := b\<rparr>) = gt_ok g"
  by (simp add: gt_ok_def)

lemma read_point_safe:
  assumes "gt_ok g" "buf \<noteq> []" "n \<le> 8"
  shows "\<exists>m buf' g'. gt911_read_point ts status points buf n g = Some (m, buf', g') \<and> gt_ok g'
    \<and> length buf' = length buf \<and> tl buf' = tl buf \<and> (m = 0 \<and> buf' = buf \<or> m = n)
    \<and> last (gt_bus g') = I2c_write [0x81, 0x4E, 0x00]"
proof (cases "\<exists>f h. status = Some f \<and> points = Some h \<and> f 0 \<noteq> 0 \<and> f 0 AND 0x80 \<noteq> 0 \<and> unat (f 0 AND 0x0f) \<le> 5")
  case True
  then obtain f h where c: "status = Some f" "points = Some h" "f 0 \<noteq> 0" "f 0 AND 0x80 \<noteq> 0" "unat (f 0 AND 0x0f) \<le> 5"
    by blast
  let ?g = "g\<lparr>gt_bus := gt_bus g @ [I2c_read [0x81, 0x4E] 1, I2c_read [0x81, 0x4F] (n * 5 mod 256)]\<rparr>"
  let ?rb = "map h [0..<n * 5 mod 256] @ replicate (40 - n * 5 mod 256) 0"
  have len: "n * 5 mod 256 = n * 5" "n * 5 \<le> 40" using assms(3) by simp_all
  have "entry_ok buf (buf, ?g)" using assms by (simp add: entry_ok_def)
  moreover have "length ?rb = 40" using len by simp
  ultimately obtain s where s: "report_points ts (unat (f 0 AND 0x0f)) ?rb (buf, ?g) = Some s" "entry_ok buf s"
    using report_points_ok [OF _ c(5)] by blast
  obtain b1 g1 where s1: "s = (b1, g1)" by (cases s)
  have "gt911_read_point ts status points buf n g = Some (n, b1, g1\<lparr>gt_bus := gt_bus g1 @ [I2c_write [0x81, 0x4E, 0x00]]\<rparr>)"
    using s(1) c len(2) unfolding s1 gt911_read_point_def gt911_read_regs_def gt911_write_reg_def len(1) Let_def
    by simp
  then show ?thesis using s(2) by (simp add: s1 entry_ok_def)
next
  case False
  show ?thesis
    using assms(1) False
    by (auto simp: gt911_read_point_def gt911_read_regs_def gt911_write_reg_def Let_def split: option.split)
qed

text \<open>
  C37 (reading the panel). Whatever the panel and its bus answer, a read of at most eight points into a
  buffer of at least one returns without an access outside an array, changes no entry of the buffer but the
  first, keeps the variables of the driver consistent, and ends by telling the panel that its report was taken.
\<close>

theorem touch_read_safe:
  assumes "gt_ok g" "buf \<noteq> []" "n \<le> 8"
  shows "\<exists>m buf' g'. gt911_read_point ts status points buf n g = Some (m, buf', g') \<and> gt_ok g'
    \<and> length buf' = length buf \<and> tl buf' = tl buf \<and> (m = 0 \<and> buf' = buf \<or> m = n)
    \<and> last (gt_bus g') = I2c_write [0x81, 0x4E, 0x00]"
  by (rule read_point_safe [OF assms])

subsection \<open>One finger\<close>




text \<open>The finger as the user moves it, and what the graphics library should be told.\<close>

datatype finger = Untouched | Touching u16 u16 | Lifted u16 u16



fun finger_rel :: "finger \<Rightarrow> rt_touch_data \<Rightarrow> gt911 \<Rightarrow> bool" where
  "finger_rel Untouched rd g = (td_event rd = TOUCH_EVENT_NONE \<and> gt_pre_touch g = 0 \<and> s_tp_dowm g ! 0 = 0)"
| "finger_rel (Touching x y) rd g = (td_event rd \<in> {TOUCH_EVENT_DOWN, TOUCH_EVENT_MOVE} \<and> td_x rd = x \<and> td_y rd = y
     \<and> gt_pre_touch g = 1 \<and> s_tp_dowm g ! 0 = 1 \<and> gt_pre_x g ! 0 = x \<and> gt_pre_y g ! 0 = y)"
| "finger_rel (Lifted x y) rd g = (td_event rd = TOUCH_EVENT_UP \<and> td_x rd = x \<and> td_y rd = y
     \<and> gt_pre_touch g = 0 \<and> s_tp_dowm g ! 0 = 0)"

lemma finger_rel_bus [simp]: "finger_rel f rd (g\<lparr>gt_bus := b\<rparr>) = finger_rel f rd g"
  by (cases f) simp_all















subsection \<open>More than one finger\<close>

text \<open>
  The library asks for one point, so the bytes of the second are 0: they are taken for finger 0 at the
  origin, over the place of the first.
\<close>

lemma report_second_finger:
  assumes g: "gt_ok g" "gt_pre_touch g \<le> 2" "s_tp_dowm g ! 0 = 1"
    and rb: "length rb = 40" "unat (rb ! 0 AND 0x0f) = 0" "rb ! 8 = 0" "le16 rb 9 = 0" "le16 rb 11 = 0"
  shows "\<exists>rd' g'. report_points ts 2 rb ([rd], g) = Some ([rd'], g') \<and> td_event rd' = TOUCH_EVENT_MOVE \<and> td_x rd' = 0 \<and> td_y rd' = 0"
proof -
  let ?down = "g\<lparr>s_tp_dowm := (s_tp_dowm g)[0 := 1], gt_pre_x := (gt_pre_x g)[0 := le16 rb 1], gt_pre_y := (gt_pre_y g)[0 := le16 rb 3],
    gt_pre_w := (gt_pre_w g)[0 := le16 rb 5]\<rparr>"
  have g2: "gt_ok ?down" by (rule gt_ok_touch [OF g(1)]) simp
  have ids: "write_at (gt_pre_id g) i 0 = Some (gt_pre_id g)" if "i < 5" for i
    using g(1) that by (simp add: gt_ok_def write_at_def list_update_same_conv)
  have d: "0 < length (s_tp_dowm g)" using g(1) by (simp add: gt_ok_def)
  have u: "[0..<2] = [0, 1::nat]" by (simp add: upt_rec)
  have "report_points ts 2 rb ([rd], g) = down_loop ts rb [0, 1] ([rd], g) \<bind> (\<lambda>s. Some (fst s, (snd s)\<lparr>gt_pre_touch := 2\<rparr>))"
    using g(2) by (simp add: report_points_def u)
  also have "down_loop ts rb [0, 1] ([rd], g) = down_loop ts rb [1] ([\<lparr>td_event = TOUCH_EVENT_MOVE, td_track_id = 0,
      td_width = ucast (le16 rb 5), td_x = le16 rb 1, td_y = le16 rb 3, td_timestamp = ts\<rparr>], ?down)"
    using rb(1,2) ids [of 0] touch_down_0 [OF g(1), of "[rd]" ts "le16 rb 1" "le16 rb 3" "le16 rb 5"] g(3) by simp
  finally show ?thesis
    using rb ids [of 1] d touch_down_0 [OF g2, of _ ts 0 0 "le16 rb 13"] by simp
qed

lemma second_finger_at_origin:
  assumes "gt_ok g" "gt_pre_touch g \<le> 2" "s_tp_dowm g ! 0 = 1" "s 0 = 0x82" "unat (h 0 AND 0x0f) = 0"
  shows "\<exists>rd' g'. gt911_read_point ts (Some s) (Some h) [rd] 1 g = Some (1, [rd'], g')
    \<and> td_event rd' = TOUCH_EVENT_MOVE \<and> td_x rd' = 0 \<and> td_y rd' = 0"
proof -
  let ?rb = "map h [0..<5] @ replicate (40 - 5) 0"
  let ?g = "g\<lparr>gt_bus := gt_bus g @ [I2c_read [0x81, 0x4E] 1, I2c_read [0x81, 0x4F] 5]\<rparr>"
  have rb: "length ?rb = 40" "unat (?rb ! 0 AND 0x0f) = 0" "?rb ! 8 = 0" "le16 ?rb 9 = 0" "le16 ?rb 11 = 0"
    using assms(5) by (simp_all add: nth_append le16_def)
  have "gt_ok ?g" "gt_pre_touch ?g \<le> 2" "s_tp_dowm ?g ! 0 = 1" using assms(1-3) by simp_all
  from report_second_finger [OF this rb, of ts rd] obtain rd' g' where s: "report_points ts 2 ?rb ([rd], ?g) = Some ([rd'], g')"
    "td_event rd' = TOUCH_EVENT_MOVE" "td_x rd' = 0" "td_y rd' = 0" by blast
  have "gt911_read_point ts (Some s) (Some h) [rd] 1 g
      = Some (1, [rd'], g'\<lparr>gt_bus := gt_bus g' @ [I2c_write [0x81, 0x4E, 0x00]]\<rparr>)"
    using s(1) assms(4) by (simp add: gt911_read_point_def gt911_read_regs_def gt911_write_reg_def Let_def)
  then show ?thesis using s(2-4) by simp
qed

text \<open>
  When two fingers leave together, the second round of the loop replaces the event for the first by none:
  the release is never told, and interrupts stay disabled until a poll finds another event.
\<close>

lemma two_fingers_lift_lost:
  assumes "gt_ok g" "gt_pre_touch g = 2"
  shows "\<exists>rd' g'. report_points ts 0 rb ([rd], g) = Some ([rd'], g') \<and> td_event rd' = TOUCH_EVENT_NONE \<and> s_tp_dowm g' ! 0 = 0"
proof -
  let ?up = "g\<lparr>s_tp_dowm := (s_tp_dowm g)[0 := 0], gt_pre_x := (gt_pre_x g)[0 := - 1], gt_pre_y := (gt_pre_y g)[0 := - 1],
    gt_pre_w := (gt_pre_w g)[0 := - 1]\<rparr>"
  have g2: "gt_ok ?up" by (rule gt_ok_touch [OF assms(1)]) simp
  have d: "0 < length (s_tp_dowm g)" using assms(1) by (simp add: gt_ok_def)
  have id: "read_at (gt_pre_id g) i = Some 0" if "i < 5" for i by (rule pre_id_0 [OF assms(1) that])
  show ?thesis
    using assms(2) d id [of 0] id [of 1]
    by (simp add: report_points_def Let_def touch_up_0 [OF assms(1)] touch_up_0 [OF g2] upt_rec)
qed

text \<open>The search for fingers that were lifted while others stay finds none, so that no release is told.\<close>

lemma lifted_finger_unnoticed:
  assumes "gt_ok g" "length rb = 40" "unat (rb ! 0 AND 0x0f) > 0"
  shows "report_points ts 1 rb (buf, g) = Some (buf, g\<lparr>gt_pre_touch := 1\<rparr>)"
proof -
  have "\<forall>i\<in>set [0..<gt_pre_touch g]. i < 5" using assms(1) by (auto simp: gt_ok_def)
  then have "lift_loop ts rb 1 [0..<gt_pre_touch g] (buf, g) = Some (buf, g)"
    using lift_loop_ok [of "(buf, g)"] assms(1,2) by simp
  then show ?thesis using assms(2,3) by (simp add: report_points_def Let_def)
qed

subsection \<open>Configuration\<close>

definition config_cmd :: "touch_cmd \<Rightarrow> bool" where
  "config_cmd cmd \<longleftrightarrow> cmd \<noteq> CTRL_GET_ID \<and> cmd \<noteq> CTRL_GET_INFO"

lemma control_sends:
  assumes "config_cmd cmd" "config_edit cmd arg ([0x80, 0x47] @ gt_cfg_tbl g) (gt_cfg_tbl g) = (config, tbl)"
  shows "gt911_control True reply True cmd arg g = (RT_EOK, Out_none, g\<lparr>gt_cfg_tbl := tbl,
    gt_bus := gt_bus g @ [I2c_write config, I2c_write [0x80, 0xFF, NOT (sum_list (drop 2 config)) + 1, 1]]\<rparr>)"
  using assms by (cases g) (simp add: gt911_control_def config_cmd_def gt911_write_reg_def Let_def)

text \<open>The checksum that is sent and the bytes after the address add up to 0.\<close>

lemma checksum_zero: "sum_list xs + (NOT (sum_list xs) + 1) = (0 :: u8)"
  by (simp add: minus_eq_not_plus_1 [symmetric])

text \<open>
  But the table ends with the checksum register itself, at offset \<open>0x80FF - 0x8047\<close>, and the byte behind
  it, and both are summed as well.
\<close>

lemma checksum_covers_itself:
  "length GT911_CFG_TBL = 186" "0x80FF - 0x8047 = (184 :: nat)" "GT911_CFG_TBL ! 184 = 0x79"
  "NOT (sum_list GT911_CFG_TBL) + 1 + sum_list (take 184 GT911_CFG_TBL) = (0x86 :: u8)"
  by (simp_all add: GT911_CFG_TBL_def)

text \<open>The ranges are kept in the table and sent with every later command.\<close>

lemma ranges_kept:
  assumes "length (gt_cfg_tbl g) = 186"
  shows "\<exists>g'. gt911_control True r1 True CTRL_SET_X_RANGE x g = (RT_EOK, Out_none, g') \<and> length (gt_cfg_tbl g') = 186
    \<and> (\<exists>g'' cs config. gt911_control True r2 True CTRL_SET_Y_RANGE y g' = (RT_EOK, Out_none, g'')
        \<and> gt_bus g'' = gt_bus g' @ [I2c_write config, I2c_write [0x80, 0xFF, cs, 1]]
        \<and> cs + sum_list (drop 2 config) = 0 \<and> length config = 188
        \<and> config ! 3 = ucast x \<and> config ! 4 = ucast (drop_bit 8 (ucast x :: u16))
        \<and> config ! 5 = ucast y \<and> config ! 6 = ucast (drop_bit 8 (ucast y :: u16)))"
proof -
  let ?cx = "([0x80, 0x47] @ gt_cfg_tbl g)[4 := ucast (drop_bit 8 (ucast x :: u16)), 3 := ucast (ucast x :: u16)]"
  let ?tx = "(gt_cfg_tbl g)[2 := ucast (drop_bit 8 (ucast x :: u16)), 1 := ucast (ucast x :: u16)]"
  have 1: "gt911_control True r1 True CTRL_SET_X_RANGE x g = (RT_EOK, Out_none, g\<lparr>gt_cfg_tbl := ?tx,
      gt_bus := gt_bus g @ [I2c_write ?cx, I2c_write [0x80, 0xFF, NOT (sum_list (drop 2 ?cx)) + 1, 1]]\<rparr>)"
    by (rule control_sends) (simp_all add: config_cmd_def config_edit_def Let_def)
  let ?g = "g\<lparr>gt_cfg_tbl := ?tx,
      gt_bus := gt_bus g @ [I2c_write ?cx, I2c_write [0x80, 0xFF, NOT (sum_list (drop 2 ?cx)) + 1, 1]]\<rparr>"
  let ?cy = "([0x80, 0x47] @ gt_cfg_tbl ?g)[6 := ucast (drop_bit 8 (ucast y :: u16)), 5 := ucast (ucast y :: u16)]"
  have 2: "gt911_control True r2 True CTRL_SET_Y_RANGE y ?g = (RT_EOK, Out_none, ?g\<lparr>gt_cfg_tbl :=
      (gt_cfg_tbl ?g)[4 := ucast (drop_bit 8 (ucast y :: u16)), 3 := ucast (ucast y :: u16)],
      gt_bus := gt_bus ?g @ [I2c_write ?cy, I2c_write [0x80, 0xFF, NOT (sum_list (drop 2 ?cy)) + 1, 1]]\<rparr>)"
    by (rule control_sends) (simp_all add: config_cmd_def config_edit_def Let_def)
  have uu: "ucast (ucast w :: u16) = (ucast w :: u8)" for w :: u32 by (rule bit_word_eqI) (simp add: bit_simps)
  have len: "length ?cy = 188" "length (gt_cfg_tbl ?g) = 186" using assms by simp_all
  have cy: "?cy ! 3 = ucast x" "?cy ! 4 = ucast (drop_bit 8 (ucast x :: u16))" "?cy ! 5 = ucast y"
    "?cy ! 6 = ucast (drop_bit 8 (ucast y :: u16))" using assms by (simp_all add: nth_list_update uu)
  have z: "(NOT (sum_list (drop 2 ?cy)) + 1) + sum_list (drop 2 ?cy) = 0"
    using checksum_zero [of "drop 2 ?cy"] by (simp add: add.commute)
  show ?thesis using 1 2 len cy z by (intro exI conjI) (assumption | rule refl | simp)+
qed

text \<open>The other commands change only the copy that is sent: the next command undoes them.\<close>

lemma mode_not_kept:
  assumes "cmd \<in> {CTRL_SET_MODE, CTRL_SET_X_TO_Y}"
  shows "gt_cfg_tbl (snd (snd (gt911_control mem reply sent cmd arg g))) = gt_cfg_tbl g"
  using assms by (auto simp: gt911_control_def config_edit_def gt911_write_reg_def Let_def)

text \<open>When the table cannot be sent, the copy is not released.\<close>

lemma control_leaks:
  assumes "config_cmd cmd"
  shows "gt_allocs (snd (snd (gt911_control True reply False cmd arg g))) = gt_allocs g + 1"
  using assms by (auto simp: gt911_control_def config_cmd_def gt911_write_reg_def Let_def split: prod.split)

subsection \<open>Witnesses\<close>

definition demo_touch :: touch where
  "demo_touch = \<lparr>tp_gt = gt911_start, tp_irq = True, tp_rx = True, tp_range_x = 480, tp_range_y = 272,
     touch_detect_flag = 0, tp_read_data = \<lparr>td_event = TOUCH_EVENT_NONE, td_track_id = 0, td_width = 0, td_x = 0,
       td_y = 0, td_timestamp = 0\<rparr>\<rparr>"

lemma gt_start_ok: "gt_ok gt911_start"
  by (simp add: gt_ok_def gt911_start_def GT911_CFG_TBL_def)


theorem touch_read_safe_witness:
  "\<exists>m buf' g'. gt911_read_point 7 (Some (\<lambda>_. 0x81)) (Some (\<lambda>i. word_of_nat i)) [tp_read_data demo_touch] 1 gt911_start
     = Some (m, buf', g') \<and> gt_ok g'"
  using touch_read_safe [OF gt_start_ok, of "[tp_read_data demo_touch]" 1 7 "Some (\<lambda>_. 0x81)" "Some (\<lambda>i. word_of_nat i)"]
  by fastforce



end
