(* ===== verification/Rt_Printf.thy ===== *)
theory Rt_Printf
  imports Prelude
begin

text \<open>
  The formatted output of the kernel (\<open>src/kservice.c\<close>: \<open>rt_vsnprintf\<close> and the functions on it), with
  precision and \<open>#\<close>, and numbers of 32 bits. A string is the list of its characters before the terminating
  NUL; the output goes to a buffer of known length. \<open>None\<close> is a write outside the buffer, an argument of the
  wrong type or missing, or an overflow: of a field width or precision, of the position in the memory of 32 bits
  or of the \<open>int\<close> that is returned.
\<close>

datatype va_arg = Arg_int u32 | Arg_str "string option"

record print_flags =
  f_zeropad :: bool
  f_sign :: bool
  f_plus :: bool
  f_space :: bool
  f_left :: bool
  f_special :: bool
  f_large :: bool

definition no_flags :: print_flags where
  "no_flags = \<lparr>f_zeropad = False, f_sign = False, f_plus = False, f_space = False, f_left = False, f_special = False,
     f_large = False\<rparr>"

text \<open>The place of the next character and the end of what may be written.\<close>

record sink =
  sk_buf :: "char list"
  sk_str :: nat
  sk_end :: nat

definition put :: "char \<Rightarrow> sink \<Rightarrow> sink option" where
  "put c k = (if sk_str k < sk_end k then
       (if sk_str k < length (sk_buf k) then Some (k\<lparr>sk_buf := (sk_buf k)[sk_str k := c], sk_str := sk_str k + 1\<rparr>) else None)
     else Some (k\<lparr>sk_str := sk_str k + 1\<rparr>))"

fun pad :: "nat \<Rightarrow> char \<Rightarrow> sink \<Rightarrow> sink option" where
  "pad 0 c k = Some k"
| "pad (Suc n) c k = do { k1 \<leftarrow> put c k; pad n c k1 }"

text \<open>\<open>while (size-- > 0)\<close>: the characters and the value of \<open>size\<close> after the loop.\<close>

definition pad_while :: "int \<Rightarrow> char \<Rightarrow> sink \<Rightarrow> (int \<times> sink) option" where
  "pad_while n c k = do { k1 \<leftarrow> pad (nat n) c k; Some (if n > 0 then - 1 else n - 1, k1) }"

subsection \<open>Numbers\<close>

definition divide :: "u32 \<Rightarrow> u32 \<Rightarrow> nat \<times> u32" where
  "divide n base = (unat (n mod base), n div base)"

definition small_digits :: string where "small_digits = ''0123456789abcdef''"
definition large_digits :: string where "large_digits = ''0123456789ABCDEF''"

text \<open>The digits, the lowest first, as \<open>tmp\<close> gets them; its 32 places are enough for 32 binary digits.\<close>

function digit_loop :: "string \<Rightarrow> u32 \<Rightarrow> u32 \<Rightarrow> char list" where
  "digit_loop digits base num =
     (if num = 0 \<or> base < 2 then [] else (let (d, n) = divide num base in digits ! d # digit_loop digits base n))"
  by pat_completeness auto
termination
proof (relation "measure (\<lambda>(_, _, n). unat n)")
  fix digits base and num :: u32 and x d n
  assume a: "\<not> (num = 0 \<or> base < 2)" "x = divide num base" "(d, n) = x"
  have "unat base \<ge> 2" using a(1) by (simp add: word_less_nat_alt not_less)
  moreover have "0 < unat num" using a(1) by (simp add: unat_gt_0)
  ultimately have "unat num div unat base < unat num" by (intro div_less_dividend) simp_all
  then show "((digits, base, n), (digits, base, num)) \<in> measure (\<lambda>(_, _, n). unat n)"
    using a(2,3) by (simp add: divide_def unat_div_distrib)
qed simp

definition print_digits :: "string \<Rightarrow> u32 \<Rightarrow> u32 \<Rightarrow> char list" where
  "print_digits digits base num = (if num = 0 then [CHR ''0''] else digit_loop digits base num)"

fun put_all :: "char list \<Rightarrow> sink \<Rightarrow> sink option" where
  "put_all [] k = Some k"
| "put_all (c # cs) k = do { k1 \<leftarrow> put c k; put_all cs k1 }"

definition print_number :: "u32 \<Rightarrow> u32 \<Rightarrow> int \<Rightarrow> int \<Rightarrow> print_flags \<Rightarrow> sink \<Rightarrow> sink option" where
  "print_number num0 base s precision0 type0 k = do {
     let digits = (if f_large type0 then large_digits else small_digits);
     let type = (if f_left type0 then type0\<lparr>f_zeropad := False\<rparr> else type0);
     let c = (if f_zeropad type then CHR ''0'' else CHR '' '');
     let (sign, num) = (if f_sign type then
           (if sint num0 < 0 then (Some (CHR ''-''), - num0)
            else if f_plus type then (Some (CHR ''+''), num0)
            else if f_space type then (Some (CHR '' ''), num0) else (None, num0))
         else (None, num0));
     let size1 = (if f_special type then (if base = 2 \<or> base = 16 then s - 2 else if base = 8 then s - 1 else s) else s);
     let tmp = print_digits digits base num;
     let i = int (length tmp);
     let precision = (if i > precision0 then i else precision0);
     let size2 = size1 - precision;
     (size3, k1) \<leftarrow> (if \<not> f_zeropad type \<and> \<not> f_left type
         then pad_while (if sign \<noteq> None \<and> size2 > 0 then size2 - 1 else size2) (CHR '' '') k
         else Some (size2, k));
     (size4, k2) \<leftarrow> (case sign of
         None \<Rightarrow> Some (size3, k1)
       | Some sc \<Rightarrow> do { k' \<leftarrow> put sc k1; Some (size3 - 1, k') });
     k3 \<leftarrow> (if f_special type then
         (if base = 2 then put_all [CHR ''0'', CHR ''b''] k2
          else if base = 8 then put_all [CHR ''0''] k2
          else if base = 16 then put_all [CHR ''0'', if f_large type then CHR ''X'' else CHR ''x''] k2
          else Some k2)
       else Some k2);
     (size5, k4) \<leftarrow> (if \<not> f_left type then pad_while size4 c k3 else Some (size4, k3));
     k5 \<leftarrow> pad (nat (precision - i)) (CHR ''0'') k4;
     k6 \<leftarrow> (if precision0 \<noteq> 0 then put_all (rev tmp) k5 else Some k5);
     (_, k7) \<leftarrow> pad_while size5 (CHR '' '') k6;
     Some k7
   }"

subsection \<open>Directives\<close>

record directive =
  d_flags :: print_flags
  d_width :: int
  d_prec :: int
  d_qual :: "char option"

definition digit_val :: "char \<Rightarrow> int" where
  "digit_val c = of_char c - 48"

definition is_digit :: "char \<Rightarrow> bool" where
  "is_digit c \<longleftrightarrow> 0 \<le> digit_val c \<and> digit_val c < 10"

fun skip_atoi :: "int \<Rightarrow> string \<Rightarrow> (int \<times> string) option" where
  "skip_atoi i [] = Some (i, [])"
| "skip_atoi i (c # cs) =
     (if is_digit c then (if i * 10 + digit_val c < 2 ^ 31 then skip_atoi (i * 10 + digit_val c) cs else None)
      else Some (i, c # cs))"

fun parse_flags :: "string \<Rightarrow> print_flags \<Rightarrow> print_flags \<times> string" where
  "parse_flags [] f = (f, [])"
| "parse_flags (c # cs) f =
     (if c = CHR ''-'' then parse_flags cs (f\<lparr>f_left := True\<rparr>)
      else if c = CHR ''+'' then parse_flags cs (f\<lparr>f_plus := True\<rparr>)
      else if c = CHR '' '' then parse_flags cs (f\<lparr>f_space := True\<rparr>)
      else if c = CHR ''#'' then parse_flags cs (f\<lparr>f_special := True\<rparr>)
      else if c = CHR ''0'' then parse_flags cs (f\<lparr>f_zeropad := True\<rparr>)
      else (f, c # cs))"

fun next_int :: "va_arg list \<Rightarrow> (u32 \<times> va_arg list) option" where
  "next_int (Arg_int n # va) = Some (n, va)"
| "next_int _ = None"

fun next_str :: "va_arg list \<Rightarrow> (string option \<times> va_arg list) option" where
  "next_str (Arg_str s # va) = Some (s, va)"
| "next_str _ = None"

text \<open>
  \<open>int\<close> holds the widths and precisions; those next to its largest and smallest values, for which \<open>- field_width\<close>
  or the counting down of \<open>print_number\<close> overflows, have no result.
\<close>

definition count_limit :: int where "count_limit = 2 ^ 31 - 16"

definition parse_width ::
  "string \<Rightarrow> print_flags \<Rightarrow> va_arg list \<Rightarrow> (int \<times> print_flags \<times> string \<times> va_arg list) option" where
  "parse_width fmt f va = (case fmt of
       [] \<Rightarrow> Some (- 1, f, fmt, va)
     | c # cs \<Rightarrow>
         if is_digit c then do {
           (n, rest) \<leftarrow> skip_atoi 0 fmt;
           if n < count_limit then Some (n, f, rest, va) else None }
         else if c = CHR ''*'' then do {
           (w, va1) \<leftarrow> next_int va;
           if \<bar>sint w\<bar> < count_limit
           then Some (if sint w < 0 then (- sint w, f\<lparr>f_left := True\<rparr>, cs, va1) else (sint w, f, cs, va1)) else None
         }
         else Some (- 1, f, fmt, va))"

definition parse_precision :: "string \<Rightarrow> va_arg list \<Rightarrow> (int \<times> string \<times> va_arg list) option" where
  "parse_precision fmt va = (case fmt of
       [] \<Rightarrow> Some (- 1, fmt, va)
     | c # cs \<Rightarrow>
         if c \<noteq> CHR ''.'' then Some (- 1, fmt, va)
         else do {
           (p, rest, va1) \<leftarrow> (case cs of
               [] \<Rightarrow> Some (- 1, cs, va)
             | e # es \<Rightarrow> if is_digit e then do { (n, rest) \<leftarrow> skip_atoi 0 cs; Some (n, rest, va) }
                 else if e = CHR ''*'' then do { (n, va1) \<leftarrow> next_int va; Some (sint n, es, va1) }
                 else Some (- 1, cs, va));
           if p < count_limit then Some (if p < 0 then 0 else p, rest, va1) else None
         })"

definition parse_qualifier :: "string \<Rightarrow> char option \<times> string" where
  "parse_qualifier fmt = (case fmt of
       [] \<Rightarrow> (None, fmt)
     | c # cs \<Rightarrow> if c = CHR ''h'' \<or> c = CHR ''l'' then (Some c, cs) else (None, fmt))"

definition parse_directive :: "string \<Rightarrow> va_arg list \<Rightarrow> (directive \<times> string \<times> va_arg list) option" where
  "parse_directive fmt va = do {
     let (f, fmt1) = parse_flags fmt no_flags;
     (w, f1, fmt2, va1) \<leftarrow> parse_width fmt1 f va;
     (p, fmt3, va2) \<leftarrow> parse_precision fmt2 va1;
     let (q, fmt4) = parse_qualifier fmt3;
     Some (\<lparr>d_flags = f1, d_width = w, d_prec = p, d_qual = q\<rparr>, fmt4, va2)
   }"

subsection \<open>Conversions\<close>

text \<open>\<open>while (--field_width > 0)\<close>: the value of \<open>field_width\<close> afterwards comes with the output.\<close>

definition pad_pre :: "int \<Rightarrow> char \<Rightarrow> sink \<Rightarrow> (int \<times> sink) option" where
  "pad_pre w c k = do { k1 \<leftarrow> pad (nat (w - 1)) c k; Some (if w > 1 then 0 else w - 1, k1) }"

definition conv_char :: "directive \<Rightarrow> u32 \<Rightarrow> sink \<Rightarrow> sink option" where
  "conv_char d n k = do {
     (w, k1) \<leftarrow> (if \<not> f_left (d_flags d) then pad_pre (d_width d) (CHR '' '') k else Some (d_width d, k));
     k2 \<leftarrow> put (char_of (unat n mod 256)) k1;
     (_, k3) \<leftarrow> pad_pre w (CHR '' '') k2;
     Some k3
   }"

text \<open>
  The length up to the end of the string or the field width, cut to a precision above 0; \<open>while (len <
  field_width--)\<close> writes the difference and leaves \<open>field_width\<close> one below the smaller of both.
\<close>

definition conv_string :: "directive \<Rightarrow> string option \<Rightarrow> sink \<Rightarrow> sink option" where
  "conv_string d arg k = do {
     let s = (case arg of None \<Rightarrow> ''(NULL)'' | Some s \<Rightarrow> s);
     let len1 = (if 0 \<le> d_width d \<and> nat (d_width d) \<le> length s then nat (d_width d) else length s);
     let len = (if d_prec d > 0 \<and> int len1 > d_prec d then nat (d_prec d) else len1);
     (w, k1) \<leftarrow> (if \<not> f_left (d_flags d) then do {
           k' \<leftarrow> pad (nat (d_width d - int len)) (CHR '' '') k;
           Some (min (d_width d) (int len) - 1, k')
         } else Some (d_width d, k));
     k2 \<leftarrow> put_all (take len s) k1;
     pad (nat (w - int len)) (CHR '' '') k2
   }"

text \<open>The argument of a number directive, extended as its qualifier and its sign say.\<close>

definition number_arg :: "char option \<Rightarrow> bool \<Rightarrow> u32 \<Rightarrow> u32" where
  "number_arg q sg n = (if q = Some (CHR ''h'') then (if sg then scast (ucast n :: u16) else ucast (ucast n :: u16)) else n)"

definition conv_number :: "directive \<Rightarrow> u32 \<Rightarrow> bool \<Rightarrow> bool \<Rightarrow> u32 \<Rightarrow> sink \<Rightarrow> sink option" where
  "conv_number d base sg large n k =
     print_number (number_arg (d_qual d) sg n) base (d_width d) (d_prec d)
       ((d_flags d)\<lparr>f_sign := sg, f_large := large\<rparr>) k"

definition conv_pointer :: "directive \<Rightarrow> u32 \<Rightarrow> sink \<Rightarrow> sink option" where
  "conv_pointer d n k =
     (if d_width d = - 1 then print_number n 16 8 (d_prec d) ((d_flags d)\<lparr>f_zeropad := True\<rparr>) k
      else print_number n 16 (d_width d) (d_prec d) (d_flags d) k)"

definition convert :: "directive \<Rightarrow> string \<Rightarrow> va_arg list \<Rightarrow> sink \<Rightarrow> (string \<times> va_arg list \<times> sink) option" where
  "convert d fmt va k = (case fmt of
       [] \<Rightarrow> do { k1 \<leftarrow> put (CHR ''%'') k; Some ([], va, k1) }
     | c # cs \<Rightarrow>
         let number = (\<lambda>base sg large. do {
               (n, va1) \<leftarrow> next_int va; k1 \<leftarrow> conv_number d base sg large n k; Some (cs, va1, k1) })
         in if c = CHR ''c'' then do { (n, va1) \<leftarrow> next_int va; k1 \<leftarrow> conv_char d n k; Some (cs, va1, k1) }
         else if c = CHR ''s'' then do { (s, va1) \<leftarrow> next_str va; k1 \<leftarrow> conv_string d s k; Some (cs, va1, k1) }
         else if c = CHR ''p'' then do { (n, va1) \<leftarrow> next_int va; k1 \<leftarrow> conv_pointer d n k; Some (cs, va1, k1) }
         else if c = CHR ''%'' then do { k1 \<leftarrow> put (CHR ''%'') k; Some (cs, va, k1) }
         else if c = CHR ''b'' then number 2 False False
         else if c = CHR ''o'' then number 8 False False
         else if c = CHR ''X'' then number 16 False True
         else if c = CHR ''x'' then number 16 False False
         else if c = CHR ''d'' \<or> c = CHR ''i'' then number 10 True False
         else if c = CHR ''u'' then number 10 False False
         else do { k1 \<leftarrow> put (CHR ''%'') k; k2 \<leftarrow> put c k1; Some (cs, va, k2) })"

text \<open>The rest of the format after a directive is shorter than the format.\<close>

lemma skip_atoi_shorter: "skip_atoi i fmt = Some (n, rest) \<Longrightarrow> length rest \<le> length fmt"
  by (induction i fmt rule: skip_atoi.induct) (auto split: if_splits)

lemma parse_flags_shorter: "parse_flags fmt f = (f', rest) \<Longrightarrow> length rest \<le> length fmt"
  by (induction fmt f rule: parse_flags.induct) (auto split: if_splits)

lemma parse_width_shorter: "parse_width fmt f va = Some (w, f', rest, va') \<Longrightarrow> length rest \<le> length fmt"
  by (auto simp: parse_width_def split: list.splits if_splits elim!: bind_eq_SomeE dest!: skip_atoi_shorter)

lemma parse_precision_shorter: "parse_precision fmt va = Some (p, rest, va') \<Longrightarrow> length rest \<le> length fmt"
  by (auto simp: parse_precision_def split: list.splits if_splits elim!: bind_eq_SomeE dest!: skip_atoi_shorter)

lemma parse_directive_shorter: "parse_directive fmt va = Some (d, rest, va') \<Longrightarrow> length rest \<le> length fmt"
  by (auto simp: parse_directive_def parse_qualifier_def split: list.splits if_splits prod.splits elim!: bind_eq_SomeE
      dest!: parse_flags_shorter parse_width_shorter parse_precision_shorter)

lemma option_if_cases:
  assumes "(if b then x else y) = Some r" "b \<Longrightarrow> x = Some r \<Longrightarrow> P" "\<not> b \<Longrightarrow> y = Some r \<Longrightarrow> P"
  shows P
  using assms by (cases b) simp_all

lemma convert_shorter: "convert d fmt va k = Some (rest, va', k') \<Longrightarrow> length rest \<le> length fmt"
proof (cases fmt)
  case (Cons c cs)
  assume "convert d fmt va k = Some (rest, va', k')"
  then have "rest = cs" unfolding convert_def Cons Let_def list.case
    by (elim option_if_cases) (auto elim!: bind_eq_SomeE)
  then show ?thesis using Cons by simp
qed (auto simp: convert_def elim!: bind_eq_SomeE)

function vsn_loop :: "string \<Rightarrow> va_arg list \<Rightarrow> sink \<Rightarrow> sink option" where
  "vsn_loop [] va k = Some k"
| "vsn_loop (c # cs) va k =
     (if c \<noteq> CHR ''%'' then do { k1 \<leftarrow> put c k; vsn_loop cs va k1 }
      else do {
        (d, fmt1, va1) \<leftarrow> parse_directive cs va;
        (fmt2, va2, k2) \<leftarrow> convert d fmt1 va1 k;
        vsn_loop fmt2 va2 k2
      })"
  by pat_completeness auto
termination
  by (relation "measure (\<lambda>(fmt, _, _). length fmt)") (auto dest!: parse_directive_shorter convert_shorter)

text \<open>The size that is left when the end would pass the last address, and the terminating NUL.\<close>

definition vsn_size :: "nat \<Rightarrow> nat \<Rightarrow> nat" where
  "vsn_size addr size1 = (if (addr + size1) mod 2 ^ 32 < addr then 2 ^ 32 - 1 - addr else size1)"

definition rt_vsnprintf :: "nat \<Rightarrow> char list \<Rightarrow> nat \<Rightarrow> string \<Rightarrow> va_arg list \<Rightarrow> (int \<times> char list) option" where
  "rt_vsnprintf addr buf size0 fmt args = do {
     let size1 = vsn_size addr size0;
     k \<leftarrow> vsn_loop fmt args \<lparr>sk_buf = buf, sk_str = 0, sk_end = size1\<rparr>;
     _ \<leftarrow> rt_assert (addr + sk_str k < 2 ^ 32 \<and> sk_str k < 2 ^ 31);
     buf1 \<leftarrow> (if size1 > 0 then
         (let at = (if sk_str k < sk_end k then sk_str k else sk_end k - 1) in
          if at < length (sk_buf k) then Some ((sk_buf k)[at := CHR 0x00]) else None)
       else Some (sk_buf k));
     Some (int (sk_str k), buf1)
   }"

definition rt_snprintf :: "nat \<Rightarrow> char list \<Rightarrow> nat \<Rightarrow> string \<Rightarrow> va_arg list \<Rightarrow> (int \<times> char list) option" where
  "rt_snprintf addr buf size1 fmt args = rt_vsnprintf addr buf size1 fmt args"

definition rt_vsprintf :: "nat \<Rightarrow> char list \<Rightarrow> string \<Rightarrow> va_arg list \<Rightarrow> (int \<times> char list) option" where
  "rt_vsprintf addr buf fmt args = rt_vsnprintf addr buf (2 ^ 32 - 1) fmt args"

definition rt_sprintf :: "nat \<Rightarrow> char list \<Rightarrow> string \<Rightarrow> va_arg list \<Rightarrow> (int \<times> char list) option" where
  "rt_sprintf addr buf fmt args = rt_vsprintf addr buf fmt args"

text \<open>What \<open>rt_kprintf\<close> gives to the console, through a buffer of \<open>RT_CONSOLEBUF_SIZE\<close> bytes.\<close>

abbreviation (input) RT_CONSOLEBUF_SIZE :: nat where "RT_CONSOLEBUF_SIZE \<equiv> 128"

definition rt_kprintf :: "nat \<Rightarrow> char list \<Rightarrow> string \<Rightarrow> va_arg list \<Rightarrow> (nat \<times> char list \<times> char list) option" where
  "rt_kprintf addr log_buf fmt args = do {
     (n, buf) \<leftarrow> rt_vsnprintf addr log_buf (RT_CONSOLEBUF_SIZE - 1) fmt args;
     let len = (if nat n > RT_CONSOLEBUF_SIZE - 1 then RT_CONSOLEBUF_SIZE - 1 else nat n);
     Some (len, take len buf, buf)
   }"

subsection \<open>The text of a format\<close>

text \<open>
  What a format stands for, without buffers and loops. A directive is \<open>%\<close>, flags in any order, a width, a
  precision behind a point, and a length modifier: the longest runs of flag characters and of digits. A width or
  precision is a decimal number or, for \<open>*\<close>, an argument; a negative width is a flag and a width.
\<close>

definition digit_value :: "char \<Rightarrow> nat" where
  "digit_value c = (if is_digit c then nat (digit_val c) else if (of_char c :: nat) < 97 then of_char c - 55 else of_char c - 87)"

definition read_digits :: "nat \<Rightarrow> string \<Rightarrow> nat" where
  "read_digits b s = foldl (\<lambda>a c. a * b + digit_value c) 0 s"

definition decimal :: "char \<Rightarrow> bool" where
  "decimal c \<longleftrightarrow> c \<in> set ''0123456789''"

definition read_count :: "string \<Rightarrow> va_arg list \<Rightarrow> (int option \<times> string \<times> va_arg list) option" where
  "read_count s va =
     (if s \<noteq> [] \<and> hd s = CHR ''*'' then do { (n, va1) \<leftarrow> next_int va; Some (Some (sint n), tl s, va1) }
      else (let ds = takeWhile decimal s
            in Some (if ds = [] then None else Some (int (read_digits 10 ds)), dropWhile decimal s, va)))"

definition read_flags :: "string \<Rightarrow> print_flags" where
  "read_flags fs = no_flags\<lparr>f_left := CHR ''-'' \<in> set fs, f_plus := CHR ''+'' \<in> set fs, f_space := CHR '' '' \<in> set fs,
     f_special := CHR ''#'' \<in> set fs, f_zeropad := CHR ''0'' \<in> set fs\<rparr>"

definition flag_char :: "char \<Rightarrow> bool" where
  "flag_char c \<longleftrightarrow> c \<in> set ''-+ #0''"

definition read_directive :: "string \<Rightarrow> va_arg list \<Rightarrow> (directive \<times> string \<times> va_arg list) option" where
  "read_directive fmt va = do {
     let f = read_flags (takeWhile flag_char fmt);
     (w, fmt1, va1) \<leftarrow> read_count (dropWhile flag_char fmt) va;
     let (width, left) = (case w of None \<Rightarrow> (- 1, False) | Some w \<Rightarrow> (\<bar>w\<bar>, w < 0));
     (prec, fmt2, va2) \<leftarrow> (if fmt1 \<noteq> [] \<and> hd fmt1 = CHR ''.'' then do {
           (p, fmt2, va2) \<leftarrow> read_count (tl fmt1) va1;
           Some (case p of None \<Rightarrow> 0 | Some p \<Rightarrow> max 0 p, fmt2, va2)
         } else Some (- 1, fmt1, va1));
     let (modifier, fmt3) = (if fmt2 \<noteq> [] \<and> hd fmt2 \<in> {CHR ''h'', CHR ''l''} then (Some (hd fmt2), tl fmt2) else (None, fmt2));
     if width < count_limit \<and> prec < count_limit
     then Some (\<lparr>d_flags = f\<lparr>f_left := f_left f \<or> left\<rparr>, d_width = width, d_prec = prec, d_qual = modifier\<rparr>, fmt3, va2)
     else None
   }"

text \<open>The number that an argument of 32 bits stands for: its low 16 bits after \<open>h\<close>, in two's complement when signed.\<close>

definition arg_value :: "char option \<Rightarrow> bool \<Rightarrow> u32 \<Rightarrow> int" where
  "arg_value q sg n = (let m = (if q = Some (CHR ''h'') then 2 ^ 16 else 2 ^ 32); v = uint n mod m
     in if sg \<and> m \<le> 2 * v then v - m else v)"

function to_digits :: "nat \<Rightarrow> nat \<Rightarrow> nat list" where
  "to_digits b n = (if n < b \<or> b < 2 then [n] else to_digits b (n div b) @ [n mod b])"
  by pat_completeness auto
termination by (relation "measure snd") (auto intro: div_less_dividend)

declare to_digits.simps [simp del] digit_loop.simps [simp del]

definition sign_text :: "print_flags \<Rightarrow> u32 \<Rightarrow> string" where
  "sign_text f num = (if \<not> f_sign f then []
     else if sint num < 0 then ''-'' else if f_plus f then ''+'' else if f_space f then '' '' else [])"

definition magnitude :: "print_flags \<Rightarrow> u32 \<Rightarrow> nat" where
  "magnitude f num = (if f_sign f then nat \<bar>sint num\<bar> else unat num)"

definition prefix_text :: "print_flags \<Rightarrow> u32 \<Rightarrow> string" where
  "prefix_text f base = (if \<not> f_special f then [] else if base = 2 then ''0b'' else if base = 8 then ''0''
     else if base = 16 then (if f_large f then ''0X'' else ''0x'') else [])"

definition digits_text :: "print_flags \<Rightarrow> u32 \<Rightarrow> nat \<Rightarrow> string" where
  "digits_text f base n = map (\<lambda>d. (if f_large f then large_digits else small_digits) ! d) (to_digits (unat base) n)"

definition number_text :: "u32 \<Rightarrow> u32 \<Rightarrow> int \<Rightarrow> int \<Rightarrow> print_flags \<Rightarrow> string" where
  "number_text num base width prec f =
     (let sign = sign_text f num; prefix = prefix_text f base; digs = digits_text f base (magnitude f num);
          body = replicate (nat (prec - int (length digs))) (CHR ''0'') @ (if prec = 0 then [] else digs);
          gap = nat (width - int (length prefix) - max (int (length digs)) prec - int (length sign))
      in if f_left f then sign @ prefix @ body @ replicate gap (CHR '' '')
         else if f_zeropad f then sign @ prefix @ replicate gap (CHR ''0'') @ body
         else replicate gap (CHR '' '') @ sign @ prefix @ body)"

definition char_text :: "directive \<Rightarrow> u32 \<Rightarrow> string" where
  "char_text d n = (let gap = replicate (nat (d_width d - 1)) (CHR '' ''); c = char_of (unat n mod 256) in
     if f_left (d_flags d) then c # gap else gap @ [c])"

definition string_text :: "directive \<Rightarrow> string option \<Rightarrow> string" where
  "string_text d arg =
     (let s = (case arg of None \<Rightarrow> ''(NULL)'' | Some s \<Rightarrow> s);
          t1 = (if 0 \<le> d_width d then take (nat (d_width d)) s else s);
          t = (if 0 < d_prec d then take (nat (d_prec d)) t1 else t1);
          gap = replicate (nat (d_width d - int (length t))) (CHR '' '')
      in if f_left (d_flags d) then t @ gap else gap @ t)"

definition directive_text :: "directive \<Rightarrow> char \<Rightarrow> va_arg list \<Rightarrow> (string \<times> va_arg list) option" where
  "directive_text d c va =
     (let number = (\<lambda>base sg large. do {
            (n, va1) \<leftarrow> next_int va;
            Some (number_text (word_of_int (arg_value (d_qual d) sg n)) base (d_width d) (d_prec d)
              ((d_flags d)\<lparr>f_sign := sg, f_large := large\<rparr>), va1) })
      in if c = CHR ''c'' then do { (n, va1) \<leftarrow> next_int va; Some (char_text d n, va1) }
         else if c = CHR ''s'' then do { (s, va1) \<leftarrow> next_str va; Some (string_text d s, va1) }
         else if c = CHR ''p'' then do {
           (n, va1) \<leftarrow> next_int va;
           Some (if d_width d = - 1 then number_text n 16 8 (d_prec d) ((d_flags d)\<lparr>f_zeropad := True\<rparr>)
                 else number_text n 16 (d_width d) (d_prec d) (d_flags d), va1) }
         else if c = CHR ''%'' then Some (''%'', va)
         else if c = CHR ''b'' then number 2 False False
         else if c = CHR ''o'' then number 8 False False
         else if c = CHR ''X'' then number 16 False True
         else if c = CHR ''x'' then number 16 False False
         else if c = CHR ''d'' \<or> c = CHR ''i'' then number 10 True False
         else if c = CHR ''u'' then number 10 False False
         else Some ([CHR ''%'', c], va))"

text \<open>The directive is read as the code parses it.\<close>

lemma decimal_is_digit: "decimal c \<longleftrightarrow> is_digit c"
proof
  show "decimal c \<Longrightarrow> is_digit c" by (auto simp: decimal_def is_digit_def digit_val_def)
  assume "is_digit c"
  then have i: "0 \<le> (of_char c :: int) - 48 \<and> (of_char c :: int) - 48 < 10" unfolding is_digit_def digit_val_def .
  have conv: "x = int n \<Longrightarrow> 0 \<le> x - 48 \<and> x - 48 < 10 \<Longrightarrow> 48 \<le> n \<and> n \<le> 57" for x n by linarith
  have e: "(of_char c :: int) = int (of_char c)" by (simp add: of_char_def)
  note b = conv [OF e i, THEN conjunct1] conv [OF e i, THEN conjunct2]
  have c: "c = char_of (of_char c :: nat)" by simp
  have "48 \<le> n \<Longrightarrow> n \<le> 57 \<Longrightarrow> n \<in> {48, 49, 50, 51, 52, 53, 54, 55, 56, 57}" for n :: nat
    unfolding insert_iff empty_iff by arith
  from this [OF b] have "(of_char c :: nat) \<in> {48, 49, 50, 51, 52, 53, 54, 55, 56, 57}" .
  then show "decimal c" unfolding decimal_def using arg_cong [of "of_char c :: nat" _ char_of] c
    by (auto simp: char_of_def bit_Suc_0_iff)
qed

lemma decimal_eq: "decimal = is_digit"
  by (rule ext) (rule decimal_is_digit)

lemma int_below: "int v < 2 ^ 31 \<longleftrightarrow> v < 2 ^ 31"
  by simp

lemma skip_atoi_run:
  "skip_atoi (int i) s = (let v = foldl (\<lambda>a c. a * 10 + digit_value c) i (takeWhile is_digit s)
     in if v < 2 ^ 31 \<or> takeWhile is_digit s = [] then Some (int v, dropWhile is_digit s) else None)"
proof (induction s arbitrary: i)
  case (Cons c s)
  have grow: "j \<le> foldl (\<lambda>a c. a * 10 + digit_value c) j ds" for j ds
  proof (induction ds arbitrary: j)
    case (Cons a ds)
    have "j \<le> j * 10 + digit_value a" by simp
    also have "\<dots> \<le> foldl (\<lambda>a c. a * 10 + digit_value c) (j * 10 + digit_value a) ds" by (rule Cons)
    finally show ?case by simp
  qed simp
  show ?case
  proof (cases "is_digit c")
    case True
    then have d: "int i * 10 + digit_val c = int (i * 10 + digit_value c)"
      by (simp add: digit_value_def is_digit_def)
    have "(int (i * 10 + digit_value c) < 2 ^ 31) = (i * 10 + digit_value c < 2 ^ 31)" by (rule int_below)
    then show ?thesis
      using True Cons [of "i * 10 + digit_value c"] grow [of "i * 10 + digit_value c" "takeWhile is_digit s"]
      by (auto simp: d Let_def simp del: of_nat_add of_nat_mult)
  qed simp
qed simp

lemma parse_flags_read:
  "parse_flags s f = (let fs = takeWhile flag_char s in
     (f\<lparr>f_left := f_left f \<or> CHR ''-'' \<in> set fs, f_plus := f_plus f \<or> CHR ''+'' \<in> set fs,
        f_space := f_space f \<or> CHR '' '' \<in> set fs, f_special := f_special f \<or> CHR ''#'' \<in> set fs,
        f_zeropad := f_zeropad f \<or> CHR ''0'' \<in> set fs\<rparr>, dropWhile flag_char s))"
  by (induction s f rule: parse_flags.induct) (auto simp: flag_char_def Let_def)

lemma digits_read:
  assumes "is_digit c"
  shows "skip_atoi 0 (c # cs) = (if int (read_digits 10 (takeWhile is_digit (c # cs))) < 2 ^ 31
    then Some (int (read_digits 10 (takeWhile is_digit (c # cs))), dropWhile is_digit (c # cs)) else None)"
proof -
  show ?thesis using assms skip_atoi_run [of 0 "c # cs"] by (simp add: read_digits_def Let_def)
qed

lemma star_no_digit: "\<not> is_digit (CHR ''*'')"
  by (simp add: is_digit_def digit_val_def)

lemma read_count_cases:
  "read_count (c # cs) va = (if is_digit c
     then Some (Some (int (read_digits 10 (takeWhile is_digit (c # cs)))), dropWhile is_digit (c # cs), va)
     else if c = CHR ''*'' then do { (n, va1) \<leftarrow> next_int va; Some (Some (sint n), cs, va1) }
     else Some (None, c # cs, va))"
  using star_no_digit by (auto simp: read_count_def decimal_eq Let_def)

lemma parse_width_read:
  "parse_width s f va = do {
     (w, r, va1) \<leftarrow> read_count s va;
     let (width, left) = (case w of None \<Rightarrow> (- 1, False) | Some w \<Rightarrow> (\<bar>w\<bar>, w < 0));
     if width < count_limit then Some (width, f\<lparr>f_left := f_left f \<or> left\<rparr>, r, va1) else None }"
proof (cases s)
  case (Cons c cs)
  consider "is_digit c" | "\<not> is_digit c" "c = CHR ''*''" | "\<not> is_digit c" "c \<noteq> CHR ''*''" by blast
  then show ?thesis
  proof cases
    case 1
    then show ?thesis using Cons by (simp add: parse_width_def read_count_cases digits_read count_limit_def del: skip_atoi.simps)
  next
    case 2
    then show ?thesis using Cons
      by (cases "next_int va") (auto simp: parse_width_def read_count_cases)
  qed (use Cons in \<open>simp add: parse_width_def read_count_cases count_limit_def\<close>)
qed (simp add: parse_width_def read_count_def count_limit_def)

lemma parse_precision_read:
  "parse_precision s va = do {
     (prec, r, va1) \<leftarrow> (if s \<noteq> [] \<and> hd s = CHR ''.'' then do {
           (p, r, va1) \<leftarrow> read_count (tl s) va;
           Some (case p of None \<Rightarrow> 0 | Some p \<Rightarrow> max 0 p, r, va1)
         } else Some (- 1, s, va));
     if prec < count_limit then Some (prec, r, va1) else None }"
proof (cases s)
  case (Cons c cs)
  show ?thesis
  proof (cases cs)
    case Nil
    then show ?thesis using Cons by (simp add: parse_precision_def read_count_def count_limit_def)
  next
    case (Cons e es)
    consider "is_digit e" | "\<not> is_digit e" "e = CHR ''*''" | "\<not> is_digit e" "e \<noteq> CHR ''*''" by blast
    then show ?thesis
    proof cases
      case 1
      then show ?thesis using Cons \<open>s = c # cs\<close>
        by (simp add: parse_precision_def read_count_cases digits_read count_limit_def del: skip_atoi.simps)
    next
      case 2
      then show ?thesis using Cons \<open>s = c # cs\<close>
        by (cases "next_int va") (auto simp: parse_precision_def read_count_cases count_limit_def max_def)
    qed (use Cons \<open>s = c # cs\<close> in \<open>simp add: parse_precision_def read_count_cases count_limit_def\<close>)
  qed
qed (simp add: parse_precision_def count_limit_def)

lemma parse_directive_read: "parse_directive fmt va = read_directive fmt va"
proof -
  obtain f fmt1 where f: "parse_flags fmt no_flags = (f, fmt1)" by (cases "parse_flags fmt no_flags") auto
  have fr: "f = read_flags (takeWhile flag_char fmt)" "fmt1 = dropWhile flag_char fmt"
    using f by (auto simp: parse_flags_read Let_def read_flags_def no_flags_def)
  have q: "parse_qualifier s = (if s \<noteq> [] \<and> hd s \<in> {CHR ''h'', CHR ''l''} then (Some (hd s), tl s) else (None, s))" for s
    by (cases s) (simp_all add: parse_qualifier_def)
  show ?thesis
  proof (cases "read_count fmt1 va")
    case None
    then show ?thesis by (simp add: parse_directive_def read_directive_def f parse_width_read fr)
  next
    case (Some x)
    obtain w fmt2 va1 where w: "read_count fmt1 va = Some (w, fmt2, va1)" using Some by (cases x) auto
    let ?prec = "if fmt2 \<noteq> [] \<and> hd fmt2 = CHR ''.'' then do {
           (p, r, va1) \<leftarrow> read_count (tl fmt2) va1;
           Some (case p of None \<Rightarrow> 0 | Some p \<Rightarrow> max 0 p, r, va1)
         } else Some (- 1, fmt2, va1)"
    show ?thesis
    proof (cases ?prec)
      case None
      then show ?thesis
        by (auto simp: parse_directive_def read_directive_def f parse_width_read parse_precision_read fr [symmetric] w Let_def
            split: option.splits)
    next
      case (Some y)
      obtain pr fmt3 va2 where y: "?prec = Some (pr, fmt3, va2)" using Some by (cases y) auto
      obtain width left where wl: "(case w of None \<Rightarrow> (- 1, False) | Some w \<Rightarrow> (\<bar>w\<bar>, w < 0)) = (width, left)" by (cases w) auto
      show ?thesis
        unfolding parse_directive_def read_directive_def f parse_width_read parse_precision_read fr [symmetric] q w
          bind.bind_lunit case_prod_conv Let_def wl y
        using y by (auto simp: Let_def y)
    qed
  qed
qed

lemma read_directive_shorter: "read_directive fmt va = Some (d, rest, va') \<Longrightarrow> length rest \<le> length fmt"
  using parse_directive_shorter [of fmt va d rest va'] by (simp add: parse_directive_read)

lemma sint_u16: "sint (w :: u16) = (if 2 ^ 15 \<le> uint w then uint w - 2 ^ 16 else uint w)"
proof -
  have b: "0 \<le> uint w" "uint w < 2 ^ 16" using unsigned_less [of w, where ?'a = int] by simp_all
  have "sint w = (uint w + 2 ^ 15) mod 2 ^ 16 - 2 ^ 15"
    by (simp add: sint_uint signed_take_bit_eq_take_bit_shift take_bit_eq_mod)
  moreover have "(uint w + 2 ^ 15) mod 2 ^ 16 = uint w - 2 ^ 15" if "2 ^ 15 \<le> uint w"
    by (rule int_mod_pos_eq [of _ _ 1]) (use b that in simp_all)
  moreover have "(uint w + 2 ^ 15) mod 2 ^ 16 = uint w + 2 ^ 15" if "\<not> 2 ^ 15 \<le> uint w"
    by (rule int_mod_pos_eq [of _ _ 0]) (use b that in simp_all)
  ultimately show ?thesis by simp
qed

lemma arg_value_number: "number_arg q sg n = word_of_int (arg_value q sg n)"
proof -
  have u: "uint (ucast n :: u16) = uint n mod 2 ^ 16" by (simp add: unsigned_ucast_eq take_bit_eq_mod)
  have m: "uint n mod 2 ^ 32 = uint n" using unsigned_less [of n, where ?'a = int] by simp
  have z: "(word_of_int (if P then uint n - 2 ^ 32 else uint n) :: u32) = n" for P by (simp add: of_int_diff)
  define w :: u16 where "w = ucast n"
  have sc: "scast w = (word_of_int (sint w) :: u32)" by (rule scast_eq)
  have uc: "ucast w = (word_of_int (uint w) :: u32)" by (rule ucast_eq)
  have w: "uint n mod 2 ^ 16 = uint w" unfolding w_def u ..
  have b: "2 ^ 15 \<le> v \<longleftrightarrow> 2 ^ 16 \<le> 2 * v" for v :: int by simp
  show ?thesis
  proof (cases "q = Some (CHR ''h'')")
    case True
    show ?thesis
      unfolding number_arg_def arg_value_def w_def [symmetric] sc uc sint_u16 b Let_def True if_P [OF refl] w by auto
  next
    case False
    show ?thesis unfolding number_arg_def arg_value_def Let_def if_not_P [OF False] m z ..
  qed
qed

function format_text :: "string \<Rightarrow> va_arg list \<Rightarrow> string option" where
  "format_text [] va = Some []"
| "format_text (c # cs) va =
     (if c \<noteq> CHR ''%'' then do { t \<leftarrow> format_text cs va; Some (c # t) }
      else do {
        (d, fmt1, va1) \<leftarrow> read_directive cs va;
        (case fmt1 of
           [] \<Rightarrow> Some ''%''
         | e # es \<Rightarrow> do {
             (t1, va2) \<leftarrow> directive_text d e va1;
             t2 \<leftarrow> format_text es va2;
             Some (t1 @ t2)
           })
      })"
  by pat_completeness auto
termination
  by (relation "measure (\<lambda>(fmt, _). length fmt)") (auto dest!: read_directive_shorter)

subsection \<open>The output is the text\<close>

lemma put_all_append: "put_all (xs @ ys) k = do { k1 \<leftarrow> put_all xs k; put_all ys k1 }"
  by (induction xs arbitrary: k) (auto split: Option.bind_splits)

lemma put_all_Nil_fun [simp]: "put_all [] = Some"
  by (rule ext) simp

lemma pad_eq: "pad n c k = put_all (replicate n c) k"
proof (induction n arbitrary: k)
  case (Suc n)
  then show ?case by (cases "put c k") simp_all
qed simp

lemma put_eq: "put c k = put_all [c] k"
  by (cases "put c k") simp_all

lemma to_digits_ne: "to_digits b n \<noteq> []"
  by (subst to_digits.simps) simp

lemma digit_loop_eq:
  "2 \<le> base \<Longrightarrow> num \<noteq> 0 \<Longrightarrow> rev (digit_loop digits base num) = map (\<lambda>d. digits ! d) (to_digits (unat base) (unat num))"
proof (induction digits base num rule: digit_loop.induct)
  case (1 digits base num)
  have b: "2 \<le> unat base" "\<not> base < 2" using 1(2) by (simp_all add: word_le_nat_alt not_less)
  have dv: "unat (num div base) = unat num div unat base" by (simp add: unat_div_distrib)
  have md: "unat (num mod base) = unat num mod unat base" by (simp add: unat_mod_distrib)
  have step: "digit_loop digits base num = digits ! unat (num mod base) # digit_loop digits base (num div base)"
    using 1(3) b(2) by (subst digit_loop.simps) (simp add: divide_def)
  show ?case
  proof (cases "num div base = 0")
    case True
    then have "unat num div unat base = 0" using dv by simp
    then have lt: "unat num < unat base" using b(1) by (simp add: div_eq_0_iff)
    moreover have "digit_loop digits base (num div base) = []" using True by (subst digit_loop.simps) simp
    ultimately show ?thesis unfolding step by (subst to_digits.simps) (simp add: md)
  next
    case False
    then have "unat num div unat base \<noteq> 0" using dv by (metis unat_eq_0)
    then have "\<not> unat num < unat base" by auto
    then have "to_digits (unat base) (unat num) = to_digits (unat base) (unat (num div base)) @ [unat num mod unat base]"
      using b(1) by (subst to_digits.simps) (simp add: dv)
    then show ?thesis using 1(1) [of "divide num base" "unat (num mod base)" "num div base"] 1(2,3) b(2) False
      by (simp add: step md divide_def)
  qed
qed

lemma print_digits_eq:
  assumes "2 \<le> base"
  shows "rev (print_digits digits base num) = map (\<lambda>d. if num = 0 then CHR ''0'' else digits ! d) (to_digits (unat base) (unat num))"
proof (cases "num = 0")
  case True
  have "to_digits (unat base) 0 = [0]" using assms by (subst to_digits.simps) (simp add: word_le_nat_alt)
  then show ?thesis using True by (simp add: print_digits_def)
next
  case False
  then show ?thesis using digit_loop_eq [OF assms False] by (simp add: print_digits_def)
qed

lemma digits_text_eq:
  assumes "2 \<le> base"
  shows "rev (print_digits (if f_large f then large_digits else small_digits) base num) = digits_text f base (unat num)"
proof (cases "num = 0")
  case True
  have "to_digits (unat base) 0 = [0]" using assms by (subst to_digits.simps) (simp add: word_le_nat_alt)
  then show ?thesis using True by (simp add: print_digits_def digits_text_def small_digits_def large_digits_def)
next
  case False
  then show ?thesis using print_digits_eq [OF assms] by (simp add: digits_text_def)
qed

lemma magnitude_neg: "sint (n :: u32) < 0 \<Longrightarrow> unat (- n) = nat \<bar>sint n\<bar>"
proof -
  assume n: "sint n < 0"
  have a: "- n = word_of_int (- sint n)" by simp
  have b: "uint (word_of_int x :: u32) = x mod 2 ^ 32" for x
    by (simp add: unsigned_of_int take_bit_eq_mod)
  have "uint (- n) = (- sint n) mod 2 ^ 32" by (subst a) (rule b)
  moreover have "- sint n \<le> 2 ^ 31" using sint_greater_eq [of n] by simp
  ultimately have "uint (- n) = - sint n" using n by (simp add: mod_pos_pos_trivial)
  moreover have "unat (- n) = nat (uint (- n))" by simp
  ultimately show ?thesis using n by simp
qed


lemma pad_while_eq:
  "pad_while n c k = do { k1 \<leftarrow> put_all (replicate (nat n) c) k; Some (if n > 0 then - 1 else n - 1, k1) }"
  by (simp add: pad_while_def pad_eq)

lemma put_all_bind: "put_all xs k \<bind> put_all ys = put_all (xs @ ys) k"
  by (simp add: put_all_append)

lemma bind_pair_out: "(m \<bind> (\<lambda>x. Some (a, x))) \<bind> (\<lambda>(y, x). f y x) = m \<bind> (\<lambda>x. f a x)"
  by (cases m) simp_all

lemma magnitude_pos: "0 \<le> sint (n :: u32) \<Longrightarrow> unat n = nat \<bar>sint n\<bar>"
proof -
  assume n: "0 \<le> sint n"
  have b: "uint (word_of_int x :: u32) = x mod 2 ^ 32" for x
    by (simp add: unsigned_of_int take_bit_eq_mod)
  have "sint n < 2 ^ 31" using sint_less [of n] by simp
  then have "uint (word_of_int (sint n) :: u32) = sint n" using n b [of "sint n"] by simp
  then have "uint n = sint n" by simp
  then show ?thesis using n by (metis abs_of_nonneg nat_uint_eq)
qed

lemma print_core:
  fixes size2 :: int
  assumes "length sg \<le> 1" and gap: "gap = nat (size2 - int (length sg))"
  shows "do {
      (size3, k1) \<leftarrow> (if \<not> z \<and> \<not> l
         then pad_while (if sg \<noteq> [] \<and> size2 > 0 then size2 - 1 else size2) (CHR '' '') k else Some (size2, k));
      (size4, k2) \<leftarrow> do { k' \<leftarrow> put_all sg k1; Some (size3 - int (length sg), k') };
      k3 \<leftarrow> put_all pre k2;
      (size5, k4) \<leftarrow> (if \<not> l then pad_while size4 (if z then CHR ''0'' else CHR '' '') k3 else Some (size4, k3));
      k5 \<leftarrow> put_all zeros k4;
      k6 \<leftarrow> put_all shown k5;
      (_, k7) \<leftarrow> pad_while size5 (CHR '' '') k6;
      Some k7 }
    = put_all (if l then sg @ pre @ zeros @ shown @ replicate gap (CHR '' '')
        else if z then sg @ pre @ replicate gap (CHR ''0'') @ zeros @ shown
        else replicate gap (CHR '' '') @ sg @ pre @ zeros @ shown) k"
proof -
  have sg: "int (length sg) = (if sg = [] then 0 else 1)" using assms(1) by (cases sg) auto
  consider (left) l | (zero) "\<not> l" z | (plain) "\<not> l" "\<not> z" by blast
  then show ?thesis
  proof cases
    case left
    then show ?thesis by (simp add: pad_while_eq bind_pair_out put_all_append gap)
  next
    case zero
    then show ?thesis by (simp add: pad_while_eq bind_pair_out put_all_append gap)
  next
    case plain
    have g: "nat (if sg \<noteq> [] \<and> size2 > 0 then size2 - 1 else size2) = gap" using gap sg by auto
    show ?thesis using plain
      by (simp add: pad_while_eq bind_pair_out put_all_append g sg)
  qed
qed


lemma prefix_put:
  "(if f_special f then
      (if base = 2 then put_all [CHR ''0'', CHR ''b''] k
       else if base = 8 then put_all [CHR ''0''] k
       else if base = 16 then put_all [CHR ''0'', if f_large f then CHR ''X'' else CHR ''x''] k
       else Some k) else Some k) = put_all (prefix_text f base) k"
  by (simp add: prefix_text_def)

lemma prefix_size:
  "(if f_special f then (if base = 2 \<or> base = 16 then s - 2 else if base = 8 then s - 1 else s) else s)
    = s - int (length (prefix_text f base))"
  by (auto simp: prefix_text_def)

lemma print_number_text:
  assumes b: "2 \<le> base"
  shows "print_number num base s prec f k = put_all (number_text num base s prec f) k"
proof -
  define f' where "f' = (if f_left f then f\<lparr>f_zeropad := False\<rparr> else f)"
  define sg where "sg = sign_text f num"
  define num' where "num' = (if f_sign f \<and> sint num < 0 then - num else num)"
  define tmp where "tmp = print_digits (if f_large f then large_digits else small_digits) base num'"
  have flags: "f_sign f' = f_sign f" "f_plus f' = f_plus f" "f_space f' = f_space f" "f_left f' = f_left f"
    "f_special f' = f_special f" "f_large f' = f_large f" "f_zeropad f' = (f_zeropad f \<and> \<not> f_left f)"
    by (simp_all add: f'_def)
  have pre: "prefix_text f' base = prefix_text f base" by (simp add: prefix_text_def flags)
  have mag: "unat num' = magnitude f num"
    using magnitude_neg [of num] magnitude_pos [of num] by (auto simp: num'_def magnitude_def)
  have tmp: "rev tmp = digits_text f base (magnitude f num)"
    unfolding tmp_def digits_text_eq [OF b] mag ..
  then have len: "length tmp = length (digits_text f base (magnitude f num))" by (metis length_rev)
  have sgl: "length sg \<le> 1" by (simp add: sg_def sign_text_def)
  have sgn: "(if f_sign f then
           (if sint num < 0 then (Some (CHR ''-''), - num)
            else if f_plus f then (Some (CHR ''+''), num)
            else if f_space f then (Some (CHR '' ''), num) else (None, num))
         else (None, num)) = (if sg = [] then None else Some (hd sg), num')"
    by (simp add: sg_def sign_text_def num'_def)
  have put_sg: "(case (if sg = [] then None else Some (hd sg)) of None \<Rightarrow> Some (z, k1)
      | Some sc \<Rightarrow> do { k' \<leftarrow> put sc k1; Some (z - 1, k') }) = do { k' \<leftarrow> put_all sg k1; Some (z - int (length sg), k') }"
    for z k1 using sgl by (cases sg) (auto simp: bind_assoc)
  let ?L = "int (length tmp)"
  let ?P = "if ?L > prec then ?L else prec"
  have P: "?P = max ?L prec" by simp
  let ?size2 = "s - int (length (prefix_text f base)) - ?P"
  let ?shown = "if prec = 0 then [] else rev tmp"
  have some: "((if sg = [] then None else Some (hd sg)) \<noteq> None) = (sg \<noteq> [])" by simp
  have shown: "(if prec \<noteq> 0 then put_all (rev tmp) k5 else Some k5) = put_all ?shown k5" for k5 by simp
  have zl: "(\<not> (f_zeropad f \<and> \<not> f_left f) \<and> \<not> f_left f) = (\<not> f_zeropad f \<and> \<not> f_left f)" by blast
  have "print_number num base s prec f k = put_all
     (if f_left f then sg @ prefix_text f base @ replicate (nat (?P - ?L)) (CHR ''0'') @ ?shown @ replicate (nat (?size2 - int (length sg))) (CHR '' '')
      else if f_zeropad f \<and> \<not> f_left f then sg @ prefix_text f base @ replicate (nat (?size2 - int (length sg))) (CHR ''0'')
        @ replicate (nat (?P - ?L)) (CHR ''0'') @ ?shown
      else replicate (nat (?size2 - int (length sg))) (CHR '' '') @ sg @ prefix_text f base
        @ replicate (nat (?P - ?L)) (CHR ''0'') @ ?shown) k"
    unfolding print_number_def Let_def f'_def [symmetric] flags sgn case_prod_conv prefix_put prefix_size pre
      tmp_def [symmetric] pad_eq put_sg some shown
    by (rule print_core [OF sgl refl])
  also have "\<dots> = put_all (number_text num base s prec f) k"
    unfolding number_text_def Let_def sg_def [symmetric] tmp [symmetric] length_rev
    by (auto simp: max_def intro!: arg_cong2 [where f = put_all] arg_cong [where f = "\<lambda>n. replicate n _"])
  finally show ?thesis .
qed

lemma pad_pre_eq: "pad_pre w c k = do { k1 \<leftarrow> put_all (replicate (nat (w - 1)) c) k; Some (if w > 1 then 0 else w - 1, k1) }"
  by (simp add: pad_pre_def pad_eq)

lemma conv_char_text: "conv_char d n k = put_all (char_text d n) k"
  by (simp add: conv_char_def char_text_def pad_pre_eq bind_pair_out put_all_append Let_def bind_assoc)

lemma take_min_length: "take (if n \<le> length s then n else length s) s = take n s"
  by simp

lemma conv_string_text: "conv_string d arg k = put_all (string_text d arg) k"
proof -
  define s where "s = (case arg of None \<Rightarrow> ''(NULL)'' | Some s \<Rightarrow> s)"
  define len1 where "len1 = (if 0 \<le> d_width d \<and> nat (d_width d) \<le> length s then nat (d_width d) else length s)"
  define len where "len = (if d_prec d > 0 \<and> int len1 > d_prec d then nat (d_prec d) else len1)"
  define t1 where "t1 = (if 0 \<le> d_width d then take (nat (d_width d)) s else s)"
  define t where "t = (if 0 < d_prec d then take (nat (d_prec d)) t1 else t1)"
  have t1: "t1 = take len1 s" "len1 \<le> length s" by (auto simp: t1_def len1_def)
  have t: "t = take len s" by (auto simp: t_def len_def t1(1) min_def nat_less_iff intro!: arg_cong [where f = "\<lambda>n. take n s"])
  have len: "len = length t" using t1(2) by (auto simp: t len_def)
  have "conv_string d arg k = (if f_left (d_flags d)
      then put_all (t @ replicate (nat (d_width d - int len)) (CHR '' '')) k
      else put_all (replicate (nat (d_width d - int len)) (CHR '' '') @ t) k)"
    unfolding conv_string_def Let_def s_def [symmetric] len1_def [symmetric] len_def [symmetric] t [symmetric] pad_eq
    by (simp add: bind_pair_out put_all_append)
  also have "\<dots> = put_all (string_text d arg) k"
    unfolding string_text_def Let_def s_def [symmetric] t1_def [symmetric] t_def [symmetric] len by simp
  finally show ?thesis .
qed

lemma conv_number_text:
  "2 \<le> base \<Longrightarrow> conv_number d base sg large n k = put_all (number_text (word_of_int (arg_value (d_qual d) sg n)) base (d_width d) (d_prec d)
    ((d_flags d)\<lparr>f_sign := sg, f_large := large\<rparr>)) k"
  by (simp add: conv_number_def print_number_text arg_value_number)

lemma conv_pointer_text:
  "conv_pointer d n k = put_all (if d_width d = - 1 then number_text n 16 8 (d_prec d) ((d_flags d)\<lparr>f_zeropad := True\<rparr>)
      else number_text n 16 (d_width d) (d_prec d) (d_flags d)) k"
  by (simp add: conv_pointer_def print_number_text)

lemma base_ge_2: "(2 :: u32) \<le> 2" "(2 :: u32) \<le> 8" "(2 :: u32) \<le> 10" "(2 :: u32) \<le> 16"
  by simp_all

text \<open>One directive: the output is its text, the rest of the format and of the arguments the same.\<close>

lemma convert_number_case:
  assumes "2 \<le> base"
  shows "do { (n, va1) \<leftarrow> next_int va; k1 \<leftarrow> conv_number d base sg large n k; Some (cs, va1, k1) }
    = do { (t, va1) \<leftarrow> do { (n, va1) \<leftarrow> next_int va; Some (number_text (word_of_int (arg_value (d_qual d) sg n)) base (d_width d) (d_prec d)
            ((d_flags d)\<lparr>f_sign := sg, f_large := large\<rparr>), va1) }; k1 \<leftarrow> put_all t k; Some (cs, va1, k1) }"
  by (cases "next_int va") (auto simp: conv_number_text [OF assms])

lemma bind_if: "(if b then x else (y :: 'a option)) \<bind> f = (if b then x \<bind> f else y \<bind> f)"
  by simp

lemma convert_text:
  "convert d (c # cs) va k = do { (t, va1) \<leftarrow> directive_text d c va; k1 \<leftarrow> put_all t k; Some (cs, va1, k1) }"
proof -
  have ch: "do { (n, va1) \<leftarrow> next_int va; k1 \<leftarrow> conv_char d n k; Some (cs, va1, k1) }
    = do { (t, va1) \<leftarrow> do { (n, va1) \<leftarrow> next_int va; Some (char_text d n, va1) }; k1 \<leftarrow> put_all t k; Some (cs, va1, k1) }"
    by (cases "next_int va") (auto simp: conv_char_text)
  have st: "do { (s, va1) \<leftarrow> next_str va; k1 \<leftarrow> conv_string d s k; Some (cs, va1, k1) }
    = do { (t, va1) \<leftarrow> do { (s, va1) \<leftarrow> next_str va; Some (string_text d s, va1) }; k1 \<leftarrow> put_all t k; Some (cs, va1, k1) }"
    by (cases "next_str va") (auto simp: conv_string_text)
  have po: "do { (n, va1) \<leftarrow> next_int va; k1 \<leftarrow> conv_pointer d n k; Some (cs, va1, k1) }
    = do { (t, va1) \<leftarrow> do { (n, va1) \<leftarrow> next_int va; Some (if d_width d = - 1
        then number_text n 16 8 (d_prec d) ((d_flags d)\<lparr>f_zeropad := True\<rparr>)
        else number_text n 16 (d_width d) (d_prec d) (d_flags d), va1) }; k1 \<leftarrow> put_all t k; Some (cs, va1, k1) }"
    by (cases "next_int va") (auto simp: conv_pointer_text)
  have pc: "do { k1 \<leftarrow> put (CHR ''%'') k; Some (cs, va, k1) }
    = do { (t, va1) \<leftarrow> Some (''%'', va); k1 \<leftarrow> put_all t k; Some (cs, va1, k1) }"
    "do { k1 \<leftarrow> put (CHR ''%'') k; k2 \<leftarrow> put c k1; Some (cs, va, k2) }
    = do { (t, va1) \<leftarrow> Some ([CHR ''%'', c], va); k1 \<leftarrow> put_all t k; Some (cs, va1, k1) }"
    by (simp_all add: bind_assoc)
  show ?thesis
    unfolding convert_def directive_text_def Let_def list.case bind_if ch st po pc
      base_ge_2 [THEN convert_number_case]
    by (rule refl)
qed

lemma vsn_loop_text: "vsn_loop fmt va k = do { t \<leftarrow> format_text fmt va; put_all t k }"
proof (induction fmt va k rule: vsn_loop.induct)
  case (1 va k)
  then show ?case by simp
next
  case (2 c cs va k)
  show ?case
  proof (cases "c = CHR ''%''")
    case False
    then show ?thesis
      using 2(1) by (cases "put c k"; cases "format_text cs va") simp_all
  next
    case True
    show ?thesis
    proof (cases "read_directive cs va")
      case (Some p)
      obtain d fmt1 va1 where p: "p = (d, fmt1, va1)" by (cases p) auto
      show ?thesis
      proof (cases fmt1)
        case Nil
        then show ?thesis using True Some p by (simp add: convert_def bind_assoc parse_directive_read)
      next
        case (Cons e es)
        show ?thesis
        proof (cases "directive_text d e va1")
          case None
          then show ?thesis using True Some p Cons convert_text [of d e es va1 k] by (simp add: parse_directive_read)
        next
          case (Some r)
          obtain t va2 where r: "r = (t, va2)" by (cases r) auto
          show ?thesis
          proof (cases "put_all t k")
            case None
            then show ?thesis using True Some r p Cons convert_text [of d e es va1 k] \<open>read_directive cs va = Some p\<close>
              by (cases "format_text es va2") (simp_all add: put_all_append parse_directive_read)
          next
            case (Some k2)
            then show ?thesis
              using True \<open>directive_text d e va1 = Some r\<close> r p Cons convert_text [of d e es va1 k] \<open>read_directive cs va = Some p\<close>
                2(2) [of p d "(fmt1, va1)" fmt1 va1 "(es, va2, k2)" es "(va2, k2)" va2 k2]
              by (cases "format_text es va2") (simp_all add: put_all_append parse_directive_read)
          qed
        qed
      qed
    qed (simp add: True parse_directive_read)
  qed
qed

lemma put_all_start:
  "put_all t \<lparr>sk_buf = buf, sk_str = 0, sk_end = e\<rparr> =
    (if min (length t) e \<le> length buf
     then Some \<lparr>sk_buf = take e t @ drop (min (length t) e) buf, sk_str = length t, sk_end = e\<rparr> else None)"
proof (induction t rule: rev_induct)
  case (snoc c t)
  show ?case
  proof (cases "length t < e")
    case True
    then show ?thesis
      by (auto simp: put_all_append snoc put_def list_update_append drop_update_swap Cons_nth_drop_Suc [symmetric] min_def)
  next
    case False
    then show ?thesis by (simp add: put_all_append snoc put_def min_def)
  qed
qed simp

lemma vsnprintf_spec:
  assumes "vsn_size addr n \<le> length buf"
  shows "rt_vsnprintf addr buf n fmt args = (case format_text fmt args of
      None \<Rightarrow> None
    | Some t \<Rightarrow> if addr + length t < 2 ^ 32 \<and> length t < 2 ^ 31
        then Some (int (length t), if vsn_size addr n = 0 then buf
          else take (vsn_size addr n - 1) t @ [CHR 0x00] @ drop (min (length t) (vsn_size addr n - 1) + 1) buf)
        else None)"
proof (cases "format_text fmt args")
  case (Some t)
  let ?e = "vsn_size addr n"
  let ?fit = "addr + length t < 2 ^ 32 \<and> length t < 2 ^ 31"
  have put: "put_all t \<lparr>sk_buf = buf, sk_str = 0, sk_end = ?e\<rparr>
      = Some \<lparr>sk_buf = take ?e t @ drop (min (length t) ?e) buf, sk_str = length t, sk_end = ?e\<rparr>"
    using assms by (simp add: put_all_start min_le_iff_disj)
  show ?thesis
  proof (cases ?fit)
    case fit: True
    show ?thesis
    proof (cases "?e = 0")
      case True
      then show ?thesis using fit put Some by (simp add: rt_vsnprintf_def vsn_loop_text rt_assert_def Let_def)
    next
      case ne: False
      show ?thesis
      proof (cases "length t < ?e")
        case True
        then have "length t \<le> ?e - 1" "length t < length buf" using assms by simp_all
        then show ?thesis using True ne fit put Some assms
          by (simp add: rt_vsnprintf_def vsn_loop_text rt_assert_def Let_def list_update_append min_def Cons_nth_drop_Suc [symmetric])
      next
        case False
        then have u: "(take ?e t @ drop ?e buf)[?e - 1 := CHR 0x00] = take (?e - 1) t @ CHR 0x00 # drop ?e buf"
          using ne by (simp add: list_update_append upd_conv_take_nth_drop min_def)
        have m: "min (length t) ?e = ?e" "min (length t) (?e - 1) + 1 = ?e" "?e - 1 < length buf"
          using False ne assms by linarith+
        show ?thesis
          unfolding rt_vsnprintf_def Let_def vsn_loop_text Some m(2) using False put [unfolded m(1)] u m(3) ne fit assms
          by (simp add: rt_assert_def)
      qed
    qed
  next
    case False
    then show ?thesis using put Some by (auto simp: rt_vsnprintf_def vsn_loop_text rt_assert_def Let_def)
  qed
qed (simp add: rt_vsnprintf_def vsn_loop_text Let_def)

lemma snprintf_text:
  assumes "addr + n < 2 ^ 32" "n \<le> length buf"
  shows "rt_snprintf addr buf n fmt args = (case format_text fmt args of
      None \<Rightarrow> None
    | Some t \<Rightarrow> if addr + length t < 2 ^ 32 \<and> length t < 2 ^ 31
        then Some (int (length t), if n = 0 then buf
          else take (n - 1) t @ [CHR 0x00] @ drop (min (length t) (n - 1) + 1) buf)
        else None)"
proof -
  have v: "vsn_size addr n = n" using assms(1) by (simp add: vsn_size_def)
  show ?thesis
    unfolding rt_snprintf_def using vsnprintf_spec [of addr n buf fmt args, unfolded v] assms(2) by simp
qed

text \<open>
  C22 (formatted output). Printing into a buffer writes the text of the format, cut to the size less one,
  and a NUL, nothing behind it; with size 0 it writes nothing. The result is the length of the whole text, also
  when it was cut (not the number of characters written to the buffer, as the comments of \<open>kservice.c\<close> say). The
  text is the one of the directives as \<open>read_directive\<close> reads them. There is no result when an argument is
  missing, or the text does not fit into the memory behind the buffer or its length into an \<open>int\<close>.
\<close>

theorem snprintf_writes_text:
  assumes "addr + n < 2 ^ 32" "n \<le> length buf"
  shows "rt_snprintf addr buf n fmt args = (case format_text fmt args of
      None \<Rightarrow> None
    | Some t \<Rightarrow> if addr + length t < 2 ^ 32 \<and> length t < 2 ^ 31
        then Some (int (length t), if n = 0 then buf
          else take (n - 1) t @ [CHR 0x00] @ drop (min (length t) (n - 1) + 1) buf)
        else None)"
  by (rule snprintf_text [OF assms])

text \<open>
  The comments on \<open>rt_vsnprintf\<close> and on the functions that call it say that the result is the number of characters
  written to the buffer. A text that is cut has a result above that number.
\<close>

lemma snprintf_result_not_written:
  assumes "addr + n < 2 ^ 32" "n \<le> length buf" "0 < n" "rt_snprintf addr buf n fmt args = Some (r, buf')"
    and "format_text fmt args = Some t" "n \<le> length t"
  shows "drop n buf' = drop n buf" "int n \<le> r"
proof -
  have "r = int (length t) \<and> buf' = take (n - 1) t @ [CHR 0x00] @ drop n buf"
    using assms snprintf_text [OF assms(1,2), of fmt args] by (auto split: if_splits simp: min_def)
  then show "drop n buf' = drop n buf" "int n \<le> r" using assms(3,6) by (simp_all add: min_def)
qed

text \<open>
  Without a size the output is the whole text, which must leave room for the NUL: otherwise it is written
  outside the buffer.
\<close>

theorem sprintf_needs_room:
  assumes "0 < addr" "addr + length buf < 2 ^ 32 - 1"
  shows "rt_sprintf addr buf fmt args = (case format_text fmt args of
      None \<Rightarrow> None
    | Some t \<Rightarrow> if length t < length buf \<and> length t < 2 ^ 31 then Some (int (length t), t @ [CHR 0x00] @ drop (length t + 1) buf) else None)"
proof -
  let ?e = "2 ^ 32 - 1 - addr"
  have e: "vsn_size addr (2 ^ 32 - 1) = ?e" "length buf < ?e" using assms by (simp_all add: vsn_size_def mod_if)
  show ?thesis
  proof (cases "format_text fmt args")
    case (Some t)
    have "put_all t \<lparr>sk_buf = buf, sk_str = 0, sk_end = ?e\<rparr>
      = (if length t \<le> length buf then Some \<lparr>sk_buf = t @ drop (length t) buf, sk_str = length t, sk_end = ?e\<rparr> else None)"
      using e(2) by (auto simp: put_all_start min_def)
    then show ?thesis using Some e
      by (auto simp: rt_sprintf_def rt_vsprintf_def rt_vsnprintf_def vsn_loop_text rt_assert_def Let_def list_update_append
          Cons_nth_drop_Suc [symmetric])
  qed (simp add: rt_sprintf_def rt_vsprintf_def rt_vsnprintf_def vsn_loop_text rt_assert_def Let_def)
qed

subsection \<open>Numbers read back\<close>

fun read_signed :: "string \<Rightarrow> int" where
  "read_signed [] = 0"
| "read_signed (c # cs) = (if c = CHR ''-'' then - int (read_digits 10 cs) else int (read_digits 10 (c # cs)))"

lemma digit_values:
  assumes "d < 16"
  shows "digit_value (small_digits ! d) = d" "digit_value (large_digits ! d) = d"
proof -
  have s: "map digit_value small_digits = [0..<16]" "map digit_value large_digits = [0..<16]"
    by (simp_all add: small_digits_def large_digits_def digit_value_def is_digit_def digit_val_def upt_rec)
  have l: "length small_digits = 16" "length large_digits = 16" by (simp_all add: small_digits_def large_digits_def)
  show "digit_value (small_digits ! d) = d" using assms l nth_map [of d small_digits digit_value] by (simp add: s)
  show "digit_value (large_digits ! d) = d" using assms l nth_map [of d large_digits digit_value] by (simp add: s)
qed

lemma to_digits_bound: "2 \<le> b \<Longrightarrow> d \<in> set (to_digits b n) \<Longrightarrow> d < b"
proof (induction b n rule: to_digits.induct)
  case (1 b n)
  show ?case
  proof (cases "n < b")
    case True
    then have "to_digits b n = [n]" by (subst to_digits.simps) simp
    then show ?thesis using True 1(3) by simp
  next
    case False
    then have "to_digits b n = to_digits b (n div b) @ [n mod b]" using 1(2) by (subst to_digits.simps) simp
    then show ?thesis using 1 False by auto
  qed
qed

lemma to_digits_value: "2 \<le> b \<Longrightarrow> foldl (\<lambda>a d. a * b + d) 0 (to_digits b n) = n"
proof (induction b n rule: to_digits.induct)
  case (1 b n)
  show ?case
  proof (cases "n < b")
    case True
    then have "to_digits b n = [n]" by (subst to_digits.simps) simp
    then show ?thesis by simp
  next
    case False
    then have "to_digits b n = to_digits b (n div b) @ [n mod b]" using 1(2) by (subst to_digits.simps) simp
    then show ?thesis using 1 False by (simp add: mult.commute)
  qed
qed

lemma to_digits_length: "2 \<le> b \<Longrightarrow> n < b ^ Suc k \<Longrightarrow> length (to_digits b n) \<le> Suc k"
proof (induction k arbitrary: n)
  case 0
  then have "to_digits b n = [n]" by (subst to_digits.simps) simp
  then show ?case by simp
next
  case (Suc k)
  show ?case
  proof (cases "n < b")
    case True
    then have "to_digits b n = [n]" by (subst to_digits.simps) simp
    then show ?thesis by simp
  next
    case False
    then have d: "to_digits b n = to_digits b (n div b) @ [n mod b]" using Suc(2) by (subst to_digits.simps) simp
    have "n div b < b ^ Suc k" using Suc(3) by (simp add: less_mult_imp_div_less mult.commute)
    then show ?thesis using Suc(1) [OF Suc(2)] d by simp
  qed
qed

lemma read_digits_text:
  assumes b: "2 \<le> base" "base \<le> 16"
  shows "read_digits (unat base) (digits_text f base n) = n"
proof -
  have bn: "2 \<le> unat base" "unat base \<le> 16" using b by (simp_all add: word_le_nat_alt)
  have v: "digit_value ((if f_large f then large_digits else small_digits) ! d) = d" if "d \<in> set (to_digits (unat base) n)" for d
    using digit_values [of d] to_digits_bound [OF bn(1) that] bn(2) by auto
  have "foldl (\<lambda>a c. a * b' + digit_value c) a (map h ds) = foldl (\<lambda>a d. a * b' + d) a ds"
    if "\<And>d. d \<in> set ds \<Longrightarrow> digit_value (h d) = d" for a h ds and b' :: nat
    using that by (induction ds arbitrary: a) simp_all
  then show ?thesis
    using v to_digits_value [OF bn(1), of n] unfolding read_digits_def digits_text_def by simp
qed

lemma digits_text_length: "2 \<le> base \<Longrightarrow> n < 2 ^ 32 \<Longrightarrow> length (digits_text f base n) \<le> 32"
proof -
  assume b: "2 \<le> base" and n: "n < 2 ^ 32"
  have "(2::nat) ^ 32 \<le> unat base ^ Suc 31" using b power_mono [of 2 "unat base" 32] by (simp add: word_le_nat_alt)
  then show ?thesis using to_digits_length [of "unat base" n 31] b n by (simp add: digits_text_def word_le_nat_alt)
qed

lemma magnitude_less: "magnitude f n < 2 ^ 32"
proof -
  have "magnitude f n = unat n \<or> magnitude f n = unat (- n)"
    using magnitude_neg [of n] magnitude_pos [of n] by (cases "sint n < 0") (auto simp: magnitude_def)
  then show ?thesis using unsigned_less [of n, where ?'a = nat] unsigned_less [of "- n", where ?'a = nat] by auto
qed

lemma no_digit: "c \<in> set ''dibouxXhl'' \<Longrightarrow> \<not> is_digit c"
  by (auto simp: is_digit_def digit_val_def)

lemma parse_bare:
  assumes c: "c \<in> set ''dibouxX''"
  shows "parse_directive [c] va = Some (\<lparr>d_flags = no_flags, d_width = - 1, d_prec = - 1, d_qual = None\<rparr>, [c], va)"
proof -
  have n: "\<not> is_digit c" "c \<notin> set ''-+ #0*.hl''" using c no_digit [of c] by auto
  have "parse_flags [c] f = (f, [c])" for f using n(2) by simp
  moreover have "parse_width [c] f va = Some (- 1, f, [c], va)" for f using n by (simp add: parse_width_def)
  moreover have "parse_precision [c] va = Some (- 1, [c], va)" using n by (simp add: parse_precision_def)
  moreover have "parse_qualifier [c] = (None, [c])" using n by (simp add: parse_qualifier_def)
  ultimately show ?thesis by (simp add: parse_directive_def)
qed

lemma bare_number_text:
  "number_text n base (- 1) (- 1) f = (if f_left f then sign_text f n @ prefix_text f base @ digits_text f base (magnitude f n)
     else sign_text f n @ prefix_text f base @ digits_text f base (magnitude f n))"
  by (simp add: number_text_def Let_def)

definition unsigned_directives :: "(char \<times> u32) list" where
  "unsigned_directives = [(CHR ''u'', 10), (CHR ''x'', 16), (CHR ''X'', 16), (CHR ''o'', 8), (CHR ''b'', 2)]"

lemma directive_number:
  assumes cb: "(c, base, large) \<in> {(CHR ''u'', 10, False), (CHR ''x'', 16, False), (CHR ''X'', 16, True), (CHR ''o'', 8, False), (CHR ''b'', 2, False)}"
  shows "directive_text d c [Arg_int n] = Some (number_text (number_arg (d_qual d) False n) base (d_width d) (d_prec d)
    ((d_flags d)\<lparr>f_sign := False, f_large := large\<rparr>), [])"
proof -
  consider "c = CHR ''u''" "base = 10" "\<not> large" | "c = CHR ''x''" "base = 16" "\<not> large" | "c = CHR ''X''" "base = 16" "large"
    | "c = CHR ''o''" "base = 8" "\<not> large" | "c = CHR ''b''" "base = 2" "\<not> large" using cb by auto
  then show ?thesis by cases (simp_all add: directive_text_def arg_value_number)
qed

lemma directive_unsigned:
  assumes "(c, base) \<in> set unsigned_directives"
  shows "\<exists>large. directive_text d c [Arg_int n] = Some (number_text (number_arg (d_qual d) False n) base (d_width d) (d_prec d)
    ((d_flags d)\<lparr>f_sign := False, f_large := large\<rparr>), [])" "c \<in> set ''dibouxX''" "2 \<le> base" "base \<le> 16"
proof -
  show "c \<in> set ''dibouxX''" "2 \<le> base" "base \<le> 16" using assms by (auto simp: unsigned_directives_def)
  show "\<exists>large. directive_text d c [Arg_int n] = Some (number_text (number_arg (d_qual d) False n) base (d_width d) (d_prec d)
    ((d_flags d)\<lparr>f_sign := False, f_large := large\<rparr>), [])"
    by (rule exI [of _ "c = CHR ''X''"], rule directive_number) (use assms in \<open>auto simp: unsigned_directives_def\<close>)
qed

lemma format_one:
  assumes "c \<in> set ''dibouxX''"
    and "directive_text \<lparr>d_flags = no_flags, d_width = - 1, d_prec = - 1, d_qual = None\<rparr> c va = Some (t, va')"
  shows "format_text [CHR ''%'', c] va = Some t"
  using assms(2) by (simp add: parse_bare [OF assms(1), unfolded parse_directive_read])

lemma format_unsigned:
  assumes "(c, base) \<in> set unsigned_directives"
  shows "\<exists>f. format_text [CHR ''%'', c] [Arg_int n] = Some (digits_text f base (unat n))"
proof -
  let ?d = "\<lparr>d_flags = no_flags, d_width = - 1, d_prec = - 1, d_qual = None\<rparr> :: directive"
  obtain large where l: "directive_text ?d c [Arg_int n] = Some (number_text (number_arg None False n) base (- 1) (- 1)
    (no_flags\<lparr>f_sign := False, f_large := large\<rparr>), [])"
    using directive_unsigned(1) [OF assms, of ?d n] by auto
  have "number_text (number_arg None False n) base (- 1) (- 1) (no_flags\<lparr>f_sign := False, f_large := large\<rparr>)
    = digits_text (no_flags\<lparr>f_sign := False, f_large := large\<rparr>) base (unat n)"
    by (simp add: bare_number_text number_arg_def sign_text_def prefix_text_def no_flags_def magnitude_def)
  then show ?thesis using format_one [OF directive_unsigned(2) [OF assms] l] by metis
qed

lemma format_signed:
  "format_text ''%d'' [Arg_int n] = Some ((if sint n < 0 then ''-'' else []) @
     digits_text (no_flags\<lparr>f_sign := True, f_large := False\<rparr>) 10 (nat \<bar>sint n\<bar>))"
proof -
  let ?d = "\<lparr>d_flags = no_flags, d_width = - 1, d_prec = - 1, d_qual = None\<rparr> :: directive"
  let ?f = "no_flags\<lparr>f_sign := True, f_large := False\<rparr>"
  have "directive_text ?d (CHR ''d'') [Arg_int n] = Some (number_text (number_arg None True n) 10 (- 1) (- 1) ?f, [])"
    by (simp add: directive_text_def arg_value_number)
  moreover have "number_text (number_arg None True n) 10 (- 1) (- 1) ?f
    = (if sint n < 0 then ''-'' else []) @ digits_text ?f 10 (nat \<bar>sint n\<bar>)"
    by (simp add: bare_number_text number_arg_def sign_text_def prefix_text_def no_flags_def magnitude_def)
  ultimately show ?thesis using format_one [of "CHR ''d''"] by simp
qed

text \<open>
  C23 (printed numbers read back). The output of each unsigned directive, in a buffer of at least 33 bytes,
  is at most 32 digits of its base that read as the number, and that of the signed one reads as the number
  with its sign, the smallest included.
\<close>

theorem printed_number_reads_back:
  assumes "addr + m < 2 ^ 32" "m \<le> length buf" "34 \<le> m"
  shows "(\<forall>(c, base) \<in> set unsigned_directives. \<exists>t. rt_snprintf addr buf m [CHR ''%'', c] [Arg_int n]
        = Some (int (length t), t @ CHR 0x00 # drop (length t + 1) buf) \<and> length t \<le> 32 \<and> read_digits (unat base) t = unat n)
    \<and> (\<exists>t. rt_snprintf addr buf m ''%d'' [Arg_int n]
        = Some (int (length t), t @ CHR 0x00 # drop (length t + 1) buf) \<and> length t \<le> 33 \<and> read_signed t = sint n)"
proof -
  have out: "rt_snprintf addr buf m fmt args = Some (int (length t), t @ CHR 0x00 # drop (length t + 1) buf)"
    if "format_text fmt args = Some t" "length t \<le> 33" for fmt args t
    using snprintf_text [OF assms(1,2), of fmt args] that assms(1,3) by (simp add: min_def)
  have u: "\<exists>t. rt_snprintf addr buf m [CHR ''%'', c] [Arg_int n]
        = Some (int (length t), t @ CHR 0x00 # drop (length t + 1) buf) \<and> length t \<le> 32 \<and> read_digits (unat base) t = unat n"
    if c: "(c, base) \<in> set unsigned_directives" for c base
  proof -
    obtain f where f: "format_text [CHR ''%'', c] [Arg_int n] = Some (digits_text f base (unat n))" using format_unsigned [OF c] by blast
    have "length (digits_text f base (unat n)) \<le> 32"
      using digits_text_length [OF directive_unsigned(3) [OF c]] unsigned_less [of n, where ?'a = nat] by simp
    then show ?thesis using out [OF f] read_digits_text [OF directive_unsigned(3) [OF c] directive_unsigned(4) [OF c]] by (intro exI conjI) auto
  qed
  let ?f = "no_flags\<lparr>f_sign := True, f_large := False\<rparr>" and ?m = "nat \<bar>sint n\<bar>"
  let ?t = "(if sint n < 0 then ''-'' else []) @ digits_text ?f 10 ?m"
  have m: "?m < 2 ^ 32" using magnitude_less [of "no_flags\<lparr>f_sign := True\<rparr>" n] by (simp add: magnitude_def)
  then have l: "length (digits_text ?f 10 ?m) \<le> 32" by (rule digits_text_length [rotated]) simp
  have rd: "read_digits 10 (digits_text ?f 10 ?m) = ?m" using read_digits_text [of 10 ?f ?m] by simp
  have "hd (digits_text ?f 10 ?m) \<noteq> CHR ''-''" "digits_text ?f 10 ?m \<noteq> []"
  proof -
    have "digits_text ?f 10 ?m \<noteq> []" using to_digits_ne by (simp add: digits_text_def)
    moreover have "CHR ''-'' \<notin> set (digits_text ?f 10 ?m)"
    proof -
      have nd: "small_digits ! d \<noteq> CHR ''-''" if "d < 10" for d
      proof -
        have "length small_digits = 16" by (simp add: small_digits_def)
        then have "small_digits ! d \<in> set small_digits" using that by simp
        then show ?thesis by (auto simp: small_digits_def)
      qed
      have "small_digits ! x \<noteq> CHR ''-''" if "x \<in> set (to_digits 10 ?m)" for x
        by (rule nd) (rule to_digits_bound [OF _ that], simp)
      then have "CHR ''-'' \<notin> (\<lambda>x. small_digits ! x) ` set (to_digits 10 ?m)" by fastforce
      then show ?thesis by (simp add: digits_text_def no_flags_def)
    qed
    ultimately show "digits_text ?f 10 ?m \<noteq> []" "hd (digits_text ?f 10 ?m) \<noteq> CHR ''-''"
      using hd_in_set by metis+
  qed
  then have "read_signed ?t = sint n" using rd by (cases "digits_text ?f 10 ?m") auto
  then have d: "\<exists>t. rt_snprintf addr buf m ''%d'' [Arg_int n]
        = Some (int (length t), t @ CHR 0x00 # drop (length t + 1) buf) \<and> length t \<le> 33 \<and> read_signed t = sint n"
    using out [OF format_signed [of n]] l by (intro exI [of _ ?t]) auto
  show ?thesis using u d by auto
qed


subsection \<open>Behaviour at the edges\<close>

text \<open>A field width cuts a string that is longer, and a precision of 0 does not cut it.\<close>

lemma string_cut_by_width:
  assumes "d_prec d \<le> 0" "0 \<le> d_width d" "d_width d < int (length s)"
  shows "string_text d (Some s) = take (nat (d_width d)) s"
  using assms by (simp add: string_text_def Let_def min_def)

lemma string_precision_zero:
  assumes "d_prec d = 0" "d_width d < 0"
  shows "string_text d (Some s) = s"
  using assms by (simp add: string_text_def)

text \<open>With a precision of 0 no number has digits, not only 0.\<close>

lemma number_precision_zero: "number_text n base (- 1) 0 f = sign_text f n @ prefix_text f base"
  by (simp add: number_text_def Let_def)

text \<open>
  A text of 127 characters or more leaves \<open>rt_kprintf\<close> with 126 characters and the NUL in its buffer, but the
  length is cut to 127: the NUL goes to the console.
\<close>

lemma kprintf_long_writes_nul:
  assumes "addr + 127 < 2 ^ 32" "127 \<le> length buf" "format_text fmt args = Some t" "127 \<le> length t"
    and "addr + length t < 2 ^ 32" "length t < 2 ^ 31"
  shows "\<exists>buf'. rt_kprintf addr buf fmt args = Some (127, take 126 t @ [CHR 0x00], buf')"
proof -
  have "rt_snprintf addr buf 127 fmt args = Some (int (length t), take 126 t @ [CHR 0x00] @ drop 127 buf)"
    using snprintf_text [OF assms(1,2), of fmt args] assms(3-6) by (simp add: min_def)
  then show ?thesis using assms(4) by (simp add: rt_kprintf_def rt_snprintf_def Let_def)
qed

subsection \<open>Witnesses\<close>

theorem snprintf_writes_text_witness:
  "rt_snprintf 4096 ''........'' 5 ''a%%bcdef'' [] = Some (7, ''a%bc'' @ [CHR 0x00] @ ''...'')"
proof -
  have "format_text ''a%%bcdef'' [] = Some ''a%bcdef''"
    by (simp add: read_directive_def read_count_def flag_char_def decimal_def count_limit_def directive_text_def)
  then show ?thesis using snprintf_writes_text [of 4096 5 "''........''" "''a%%bcdef''" "[]"] by simp
qed

theorem sprintf_needs_room_witness:
  "rt_sprintf 4096 ''....'' ''abc'' [] = Some (3, ''abc'' @ [CHR 0x00]) \<and> rt_sprintf 4096 ''....'' ''abcd'' [] = None"
  using sprintf_needs_room [of 4096 "''....''" "''abc''" "[]"] sprintf_needs_room [of 4096 "''....''" "''abcd''" "[]"]
  by simp

theorem printed_number_reads_back_witness:
  "\<exists>t. rt_snprintf 4096 (replicate 40 (CHR ''.'')) 40 ''%d'' [Arg_int 0x80000000]
     = Some (int (length t), t @ CHR 0x00 # drop (length t + 1) (replicate 40 (CHR ''.''))) \<and> read_signed t = - 2147483648"
  using printed_number_reads_back [of 4096 40 "replicate 40 (CHR ''.'')" "0x80000000"] by auto

end
