(* ===== verification/Avi_File.thy ===== *)
theory Avi_File
  imports Prelude
begin

text \<open>
  The parser of AVI files of the video player (\<open>board/ports/avi/avifile.c\<close>, with the structures of
  \<open>avi_def.h\<close>): a file is a list of bytes, a pointer into it the offset from its start as a word of 32 bits.
  \<open>None\<close> is a read outside the bytes, or a division by zero.
\<close>

record avi_file =
  RIFFchunksize :: u32
  LISTchunksize :: u32
  avihsize :: u32
  strlsize :: u32
  strhsize :: u32
  movi_start :: u32
  movi_size :: u32
  vids_fps :: u16
  vids_width :: u16
  vids_height :: u16
  auds_channels :: u16
  auds_sample_rate :: u16
  auds_bits :: u16
  us_per_frame :: u32
  max_bytes_per_sec :: u32
  total_frames :: u32
  init_frames :: u32

subsection \<open>Reading the file\<close>

definition word32 :: "u8 \<Rightarrow> u8 \<Rightarrow> u8 \<Rightarrow> u8 \<Rightarrow> u32" where
  "word32 a b c d = ucast a OR push_bit 8 (ucast b) OR push_bit 16 (ucast c) OR push_bit 24 (ucast d)"

definition word16 :: "u8 \<Rightarrow> u8 \<Rightarrow> u16" where
  "word16 a b = ucast a OR push_bit 8 (ucast b)"

definition rd32 :: "u8 list \<Rightarrow> u32 \<Rightarrow> u32 option" where
  "rd32 buf off = (let i = unat off in
     if i + 4 \<le> length buf then Some (word32 (buf ! i) (buf ! (i + 1)) (buf ! (i + 2)) (buf ! (i + 3))) else None)"

definition rd16 :: "u8 list \<Rightarrow> u32 \<Rightarrow> u16 option" where
  "rd16 buf off = (let i = unat off in
     if i + 2 \<le> length buf then Some (word16 (buf ! i) (buf ! (i + 1))) else None)"

definition REV :: "u32 \<Rightarrow> u32" where
  "REV v = push_bit 24 (v AND 0x000000FF) OR push_bit 8 (v AND 0x0000FF00) OR drop_bit 8 (v AND 0x00FF0000)
     OR drop_bit 24 (v AND 0xFF000000)"

definition RIFF_ID :: u32 where "RIFF_ID = REV 0x52494646"
definition AVI_ID :: u32 where "AVI_ID = REV 0x41564920"
definition LIST_ID :: u32 where "LIST_ID = REV 0x4c495354"
definition hdrl_ID :: u32 where "hdrl_ID = REV 0x6864726c"
definition avih_ID :: u32 where "avih_ID = REV 0x61766968"
definition strl_ID :: u32 where "strl_ID = REV 0x7374726c"
definition strh_ID :: u32 where "strh_ID = REV 0x73747268"
definition strf_ID :: u32 where "strf_ID = REV 0x73747266"
definition movi_ID :: u32 where "movi_ID = REV 0x6d6f7669"
definition mjpg_ID :: u32 where "mjpg_ID = REV 0x4D4A5047"
definition vids_ID :: u32 where "vids_ID = REV 0x76696473"
definition auds_ID :: u32 where "auds_ID = REV 0x61756473"

function search_loop :: "u32 \<Rightarrow> u8 list \<Rightarrow> u32 \<Rightarrow> u32 \<Rightarrow> u32 \<Rightarrow> int option" where
  "search_loop fourcc buf off i j =
     (if i < j then do {
        d \<leftarrow> rd32 buf (off + i);
        (if fourcc = d then Some (sint i) else search_loop fourcc buf off (i + 1) j)
      }
      else Some (- 1))"
  by pat_completeness auto
termination
proof (relation "measure (\<lambda>(_, _, _, i, j). unat j - unat i)", goal_cases)
  case (2 fourcc buf off i j d)
  then show ?case using unat_inc [of i j] by (simp add: word_less_nat_alt)
qed simp

declare search_loop.simps [simp del]

definition search_fourcc :: "u32 \<Rightarrow> u8 list \<Rightarrow> u32 \<Rightarrow> u32 \<Rightarrow> int option" where
  "search_fourcc fourcc buf off len = search_loop fourcc buf off 0 (len - 4)"

text \<open>The tests of a list head and of a chunk head, which stop at the first difference.\<close>

definition list_head_is :: "u8 list \<Rightarrow> u32 \<Rightarrow> u32 \<Rightarrow> u32 \<Rightarrow> bool option" where
  "list_head_is buf off id1 id2 = do {
     a \<leftarrow> rd32 buf off;
     (if a \<noteq> id1 then Some False else do { c \<leftarrow> rd32 buf (off + 8); Some (c = id2) })
   }"

definition chunk_is :: "u8 list \<Rightarrow> u32 \<Rightarrow> u32 \<Rightarrow> u32 \<Rightarrow> bool option" where
  "chunk_is buf off id1 n = do {
     a \<leftarrow> rd32 buf off;
     (if a \<noteq> id1 then Some False else do { s \<leftarrow> rd32 buf (off + 4); Some (s + 8 = n) })
   }"

definition sizeof_list_head :: u32 where "sizeof_list_head = 12"
definition sizeof_avih :: u32 where "sizeof_avih = 64"
definition sizeof_strh :: u32 where "sizeof_strh = 64"
definition sizeof_vids :: u32 where "sizeof_vids = 48"
definition sizeof_auds :: u32 where "sizeof_auds = 26"

text \<open>A video stream, whose header is at \<open>strh\<close>, and an audio stream.\<close>

definition parse_video :: "u8 list \<Rightarrow> u32 \<Rightarrow> avi_file \<Rightarrow> (int \<times> avi_file) option" where
  "parse_video buf strh f = do {
     codec \<leftarrow> rd32 buf (strh + 12);
     (if mjpg_ID \<noteq> codec then Some (- 1, f)
      else do {
        let strf = strh + sizeof_strh;
        ok \<leftarrow> chunk_is buf strf strf_ID sizeof_vids;
        (if \<not> ok then Some (- 5, f)
         else do {
           rate \<leftarrow> rd32 buf (strh + 32);
           scale \<leftarrow> rd32 buf (strh + 28);
           rt_assert (scale \<noteq> 0);
           w \<leftarrow> rd32 buf (strf + 12);
           h \<leftarrow> rd32 buf (strf + 16);
           Some (0, f\<lparr>vids_fps := ucast (rate div scale), vids_width := ucast w, vids_height := ucast h\<rparr>)
         })
      })
   }"

definition parse_audio :: "u8 list \<Rightarrow> u32 \<Rightarrow> avi_file \<Rightarrow> (int \<times> avi_file) option" where
  "parse_audio buf strh f = do {
     let strf = strh + sizeof_strh;
     a \<leftarrow> rd32 buf strf;
     ok \<leftarrow> (if a \<noteq> strf_ID then Some False
        else do { s \<leftarrow> rd32 buf (strf + 4); Some (s + 8 = sizeof_auds \<or> s + 10 = sizeof_auds) });
     (if \<not> ok then Some (- 5, f)
      else do {
        ch \<leftarrow> rd16 buf (strf + 10);
        sps \<leftarrow> rd32 buf (strf + 12);
        bits \<leftarrow> rd32 buf (strf + 22);
        Some (0, f\<lparr>auds_channels := ch, auds_sample_rate := ucast sps, auds_bits := ucast bits\<rparr>)
      })
   }"

text \<open>The result, the length of the list (0 when it is not one) and the file's data.\<close>

definition Strl_Parser :: "u8 list \<Rightarrow> u32 \<Rightarrow> avi_file \<Rightarrow> (int \<times> u32 \<times> avi_file) option" where
  "Strl_Parser buf off f = do {
     ok \<leftarrow> list_head_is buf off LIST_ID strl_ID;
     (if \<not> ok then Some (- 1, 0, f)
      else do {
        let strh = off + sizeof_list_head;
        size1 \<leftarrow> rd32 buf (off + 4);
        let list_length = size1 + 8;
        ok \<leftarrow> chunk_is buf strh strh_ID sizeof_strh;
        (if \<not> ok then Some (- 5, list_length, f)
         else do {
           type \<leftarrow> rd32 buf (strh + 8);
           (r, f1) \<leftarrow> (if vids_ID = type then parse_video buf strh f
              else if auds_ID = type then parse_audio buf strh f else Some (0, f));
           Some (r, list_length, f1)
         })
      })
   }"

fun streams_loop :: "nat \<Rightarrow> u8 list \<Rightarrow> u32 \<Rightarrow> avi_file \<Rightarrow> (u32 \<times> avi_file) option" where
  "streams_loop 0 buf off f = Some (off, f)"
| "streams_loop (Suc n) buf off f = do {
     (r, n1, f1) \<leftarrow> Strl_Parser buf off f;
     (if 0 > r then Some (off, f1) else streams_loop n buf (off + n1) f1)
   }"

text \<open>The end of the parser: the list of frames, looked for from \<open>p\<close> on.\<close>

definition parse_movi :: "u8 list \<Rightarrow> u32 \<Rightarrow> u32 \<Rightarrow> avi_file \<Rightarrow> (int \<times> avi_file) option" where
  "parse_movi buf len p f4 = do {
     movi_offset \<leftarrow> search_fourcc movi_ID buf p (len - p);
     (if 0 > movi_offset then Some (- 7, f4)
      else do {
        let f5 = f4\<lparr>movi_start := word_of_int movi_offset + 4 + p\<rparr>;
        let movi = p + (word_of_int movi_offset - 8);
        ok \<leftarrow> list_head_is buf movi LIST_ID movi_ID;
        (if \<not> ok then Some (- 8, f5)
         else do {
           msize \<leftarrow> rd32 buf (movi + 4);
           Some (0, f5\<lparr>movi_size := msize\<rparr>)
         })
      })
   }"

definition AVI_Parser :: "u8 list \<Rightarrow> u32 \<Rightarrow> avi_file \<Rightarrow> (int \<times> avi_file) option" where
  "AVI_Parser buf len f = do {
     ok \<leftarrow> list_head_is buf 0 RIFF_ID AVI_ID;
     (if \<not> ok then Some (- 1, f)
      else do {
        riff_size \<leftarrow> rd32 buf 4;
        let f1 = f\<lparr>RIFFchunksize := riff_size\<rparr>;
        let list1 = sizeof_list_head;
        ok \<leftarrow> list_head_is buf list1 LIST_ID hdrl_ID;
        (if \<not> ok then Some (- 3, f1)
         else do {
           list_size \<leftarrow> rd32 buf (list1 + 4);
           let f2 = f1\<lparr>LISTchunksize := list_size\<rparr>;
           let avih = list1 + sizeof_list_head;
           ok \<leftarrow> chunk_is buf avih avih_ID sizeof_avih;
           (if \<not> ok then Some (- 5, f2)
            else do {
              sz \<leftarrow> rd32 buf (avih + 4);
              us \<leftarrow> rd32 buf (avih + 8);
              mb \<leftarrow> rd32 buf (avih + 12);
              tf \<leftarrow> rd32 buf (avih + 24);
              ini \<leftarrow> rd32 buf (avih + 28);
              let f3 = f2\<lparr>avihsize := sz, us_per_frame := us, max_bytes_per_sec := mb, total_frames := tf, init_frames := ini\<rparr>;
              width \<leftarrow> rd32 buf (avih + 40);
              height \<leftarrow> rd32 buf (avih + 44);
              (if width > 800 \<or> height > 480 then Some (- 6, f3)
               else do {
                 streams \<leftarrow> rd32 buf (avih + 32);
                 (p, f4) \<leftarrow> streams_loop (unat streams) buf (avih + sizeof_avih) f3;
                 parse_movi buf len p f4
               })
            })
         })
      })
   }"

subsection \<open>Files as they are written\<close>

definition le32 :: "u32 \<Rightarrow> u8 list" where
  "le32 w = [ucast w, ucast (drop_bit 8 w), ucast (drop_bit 16 w), ucast (drop_bit 24 w)]"

definition le16 :: "u16 \<Rightarrow> u8 list" where
  "le16 w = [ucast w, ucast (drop_bit 8 w)]"

definition le32s :: "u32 list \<Rightarrow> u8 list" where
  "le32s ws = concat (map le32 ws)"

text \<open>Streams with their size and frame rate, or with their channels, sample rate and bits; others are skipped.\<close>

datatype stream =
  Video u32 u32 u32 u32
| Audio u16 u32 u32
| Other u32

definition enc_strh :: "u32 \<Rightarrow> u32 \<Rightarrow> u32 \<Rightarrow> u32 \<Rightarrow> u8 list" where
  "enc_strh type codec scale rate = le32s [strh_ID, 56, type, codec, 0, 0, 0, scale, rate, 0, 0, 0, 0, 0, 0, 0]"

fun enc_strf :: "stream \<Rightarrow> u8 list" where
  "enc_strf (Video w h rate scale) = le32s [strf_ID, 40, 40, w, h, 0, mjpg_ID, 0, 0, 0, 0, 0]"
| "enc_strf (Audio ch sps bits) = le32s [strf_ID, 18] @ le16 1 @ le16 ch @ le32s [sps, 0] @ le16 0 @ le32 bits"
| "enc_strf (Other type) = []"

fun enc_stream_body :: "stream \<Rightarrow> u8 list" where
  "enc_stream_body (Video w h rate scale) = enc_strh vids_ID mjpg_ID scale rate @ enc_strf (Video w h rate scale)"
| "enc_stream_body (Audio ch sps bits) = enc_strh auds_ID 0 1 sps @ enc_strf (Audio ch sps bits)"
| "enc_stream_body (Other type) = enc_strh type 0 1 1 @ enc_strf (Other type)"

text \<open>A stream list may hold more behind the two chunks that are read (\<open>extra\<close>).\<close>

definition enc_strl :: "stream \<times> u8 list \<Rightarrow> u8 list" where
  "enc_strl s = le32s [LIST_ID, word_of_nat (4 + length (enc_stream_body (fst s)) + length (snd s)), strl_ID]
     @ enc_stream_body (fst s) @ snd s"

fun stream_ok :: "stream \<Rightarrow> bool" where
  "stream_ok (Video w h rate scale) = (scale \<noteq> 0)"
| "stream_ok (Audio ch sps bits) = True"
| "stream_ok (Other type) = (type \<noteq> vids_ID \<and> type \<noteq> auds_ID)"

fun apply_stream :: "stream \<Rightarrow> avi_file \<Rightarrow> avi_file" where
  "apply_stream (Video w h rate scale) f = f\<lparr>vids_fps := ucast (rate div scale), vids_width := ucast w, vids_height := ucast h\<rparr>"
| "apply_stream (Audio ch sps bits) f = f\<lparr>auds_channels := ch, auds_sample_rate := ucast sps, auds_bits := ucast bits\<rparr>"
| "apply_stream (Other type) f = f"

definition enc_avih :: "u32 \<Rightarrow> u32 \<Rightarrow> u32 \<Rightarrow> u32 \<Rightarrow> u32 \<Rightarrow> u32 \<Rightarrow> u32 \<Rightarrow> u8 list" where
  "enc_avih us mb tf ini n w h = le32s [avih_ID, 56, us, mb, 0, 0, tf, ini, n, 0, w, h, 0, 0, 0, 0]"

definition enc_riff :: "u32 \<Rightarrow> u32 \<Rightarrow> u8 list" where
  "enc_riff rsize lsize = le32s [RIFF_ID, rsize, AVI_ID, LIST_ID, lsize, hdrl_ID]"

lemma length_le32 [simp]: "length (le32 w) = 4" "length (le16 v) = 2"
  by (simp_all add: le32_def le16_def)

lemma length_le32s [simp]: "length (le32s ws) = 4 * length ws"
  by (induction ws) (simp_all add: le32s_def)

lemma lengths [simp]:
  "length (enc_strh a b c d) = 64"
  "length (enc_avih us mb tf ini n w' h) = 64" "length (enc_riff r l) = 24"
  by (simp_all add: enc_strh_def enc_avih_def enc_riff_def)

lemma word32_le32:
  "word32 (ucast w) (ucast (drop_bit 8 w)) (ucast (drop_bit 16 w)) (ucast (drop_bit 24 w)) = (w :: u32)"
proof (rule bit_word_eqI)
  fix n assume "n < LENGTH(32)"
  then have "n < 8 \<or> 8 \<le> n \<and> n < 16 \<or> 16 \<le> n \<and> n < 24 \<or> 24 \<le> n \<and> n < 32" by auto
  then show "bit (word32 (ucast w) (ucast (drop_bit 8 w)) (ucast (drop_bit 16 w)) (ucast (drop_bit 24 w))) n = bit w n"
    by (elim disjE conjE) (simp_all add: word32_def bit_simps less_diff_conv2)
qed

lemma word16_le16: "word16 (ucast w) (ucast (drop_bit 8 w)) = (w :: u16)"
proof (rule bit_word_eqI)
  fix n assume "n < LENGTH(16)"
  then have "n < 8 \<or> 8 \<le> n \<and> n < 16" by auto
  then show "bit (word16 (ucast w) (ucast (drop_bit 8 w))) n = bit w n"
    by (auto simp: word16_def bit_simps)
qed

text \<open>Reading a word in the middle of the file.\<close>

lemma rd32_mid:
  assumes "unat off = length xs + i" "i + 4 \<le> length c"
  shows "rd32 (xs @ c @ ys) off = Some (word32 (c ! i) (c ! (i + 1)) (c ! (i + 2)) (c ! (i + 3)))"
  using assms by (simp add: rd32_def nth_append)

lemma rd16_mid:
  assumes "unat off = length xs + i" "i + 2 \<le> length c"
  shows "rd16 (xs @ c @ ys) off = Some (word16 (c ! i) (c ! (i + 1)))"
  using assms by (simp add: rd16_def nth_append)

lemma rd32_le32:
  assumes "unat off = length xs"
  shows "rd32 (xs @ le32 w @ ys) off = Some w"
  using rd32_mid [of off xs 0 "le32 w" ys] assms by (simp add: le32_def word32_le32)

lemma rd16_le16:
  assumes "unat off = length xs"
  shows "rd16 (xs @ le16 w @ ys) off = Some w"
  using rd16_mid [of off xs 0 "le16 w" ys] assms by (simp add: le16_def word16_le16)

text \<open>A word behind some words: a field is found by its number.\<close>

lemma rd32_field:
  assumes "unat off = length xs + 4 * n" "n < length ws"
  shows "rd32 (xs @ le32s ws @ ys) off = Some (ws ! n)"
proof -
  have "ws = take n ws @ ws ! n # drop (Suc n) ws" using assms(2) by (simp add: Cons_nth_drop_Suc)
  then have "le32s ws = le32s (take n ws) @ le32 (ws ! n) @ le32s (drop (Suc n) ws)"
    unfolding le32s_def by (metis concat_append list.simps(9) map_append concat.simps(2))
  then show ?thesis
    using rd32_le32 [of off "xs @ le32s (take n ws)" "ws ! n" "le32s (drop (Suc n) ws) @ ys"] assms by simp
qed

lemma unat_off: "unat off + unat k < 2 ^ 32 \<Longrightarrow> unat (off + k :: u32) = unat off + unat k"
  by (simp add: unat_word_ariths)

lemma id_values:
  "RIFF_ID = 0x46464952" "AVI_ID = 0x20495641" "LIST_ID = 0x5453494c" "hdrl_ID = 0x6c726468" "avih_ID = 0x68697661"
  "strl_ID = 0x6c727473" "strh_ID = 0x68727473" "strf_ID = 0x66727473" "movi_ID = 0x69766f6d" "mjpg_ID = 0x47504a4d"
  "vids_ID = 0x73646976" "auds_ID = 0x73647561"
  by (simp_all add: RIFF_ID_def AVI_ID_def LIST_ID_def hdrl_ID_def avih_ID_def strl_ID_def strh_ID_def strf_ID_def
      movi_ID_def mjpg_ID_def vids_ID_def auds_ID_def REV_def)

lemma list_head_read:
  assumes "unat off = length xs" "length xs + 12 \<le> 2 ^ 32" "list = le32s [id1, n, id2] @ ys"
  shows "list_head_is (xs @ list) off id1' id2' = Some (id1 = id1' \<and> id2 = id2')" "rd32 (xs @ list) (off + 4) = Some n"
proof -
  have o: "unat (off + 4) = length xs + 4" "unat (off + 8) = length xs + 8"
    using assms(1,2) unat_off [of off 4] unat_off [of off 8] by simp_all
  have r: "rd32 (xs @ list) off = Some id1" "rd32 (xs @ list) (off + 4) = Some n" "rd32 (xs @ list) (off + 8) = Some id2"
    using rd32_field [of off xs 0 "[id1, n, id2]" ys] rd32_field [of "off + 4" xs 1 "[id1, n, id2]" ys]
      rd32_field [of "off + 8" xs 2 "[id1, n, id2]" ys] assms(1,3) o by (simp_all add: numeral_2_eq_2)
  show "list_head_is (xs @ list) off id1' id2' = Some (id1 = id1' \<and> id2 = id2')" "rd32 (xs @ list) (off + 4) = Some n"
    using r by (simp_all add: list_head_is_def)
qed

text \<open>A field of a chunk at an offset of the chunk.\<close>

lemma chunk_field:
  assumes "unat off = length xs" "length xs + 4 * length ws \<le> 2 ^ 32" "4 * n = unat k" "n < length ws"
  shows "rd32 (xs @ le32s ws @ ys) (off + k) = Some (ws ! n)"
proof -
  have "unat (off + k) = length xs + 4 * n" using assms unat_off [of off k] by simp
  then show ?thesis using rd32_field assms(4) by blast
qed

lemma chunk_read:
  assumes "unat off = length xs" "length xs + 4 * length ws \<le> 2 ^ 32" "2 \<le> length ws"
  shows "chunk_is (xs @ le32s ws @ ys) off id1 n = Some (ws ! 0 = id1 \<and> ws ! 1 + 8 = n)"
proof -
  have ne: "0 < length ws" using assms(3) by linarith
  have "rd32 (xs @ le32s ws @ ys) off = Some (ws ! 0)" "rd32 (xs @ le32s ws @ ys) (off + 4) = Some (ws ! 1)"
    using chunk_field [OF assms(1,2), of 0 0] chunk_field [OF assms(1,2), of 1 4] assms(3) ne by simp_all
  then show ?thesis by (simp add: chunk_is_def)
qed

lemma parse_video_enc:
  assumes o: "unat strh = length xs" "length xs + 112 \<le> 2 ^ 32" and sc: "scale \<noteq> 0"
  shows "parse_video (xs @ enc_stream_body (Video w h rate scale) @ ys) strh f = Some (0, apply_stream (Video w h rate scale) f)"
proof -
  define H where "H = ([strh_ID, 56, vids_ID, mjpg_ID, 0, 0, 0, scale, rate, 0, 0, 0, 0, 0, 0, 0] :: u32 list)"
  define F where "F = ([strf_ID, 40, 40, w, h, 0, mjpg_ID, 0, 0, 0, 0, 0] :: u32 list)"
  define buf where "buf = xs @ le32s H @ le32s F @ ys"
  have len: "length H = 16" "length F = 12" by (simp_all add: H_def F_def)
  have b: "xs @ enc_stream_body (Video w h rate scale) @ ys = buf" by (simp add: enc_strh_def buf_def H_def F_def)
  have hf: "rd32 buf (strh + k) = Some (H ! n)" if "4 * n = unat k" "n < 16" for n k
    unfolding buf_def by (rule chunk_field [OF o(1)]) (use o that len in simp_all)
  have o2: "unat (strh + 64) = length (xs @ le32s H)" using o unat_off [of strh 64] len by simp
  have ff: "rd32 buf (strh + 64 + k) = Some (F ! n)" if "4 * n = unat k" "n < 12" for n k
    using chunk_field [OF o2, of F n k ys] o that len by (simp add: buf_def)
  have ck: "chunk_is buf (strh + 64) strf_ID 48 = Some True"
    using chunk_read [OF o2, of F ys strf_ID 48] o len by (simp add: buf_def F_def)
  have "rd32 buf (strh + 12) = Some (H ! 3)" "rd32 buf (strh + 28) = Some (H ! 7)" "rd32 buf (strh + 32) = Some (H ! 8)"
    "rd32 buf (strh + 64 + 12) = Some (F ! 3)" "rd32 buf (strh + 64 + 16) = Some (F ! 4)"
    by (rule hf ff, simp, simp)+
  then have "rd32 buf (strh + 12) = Some mjpg_ID" "rd32 buf (strh + 28) = Some scale" "rd32 buf (strh + 32) = Some rate"
    "rd32 buf (strh + 64 + 12) = Some w" "rd32 buf (strh + 64 + 16) = Some h"
    by (simp_all add: H_def F_def)
  then show ?thesis
    unfolding b parse_video_def Let_def sizeof_strh_def sizeof_vids_def using ck sc by simp
qed

lemma parse_audio_enc:
  assumes o: "unat strh = length xs" "length xs + 90 \<le> 2 ^ 32"
  shows "parse_audio (xs @ enc_stream_body (Audio ch sps bits) @ ys) strh f = Some (0, apply_stream (Audio ch sps bits) f)"
proof -
  define H where "H = enc_strh auds_ID 0 1 sps"
  define pre where "pre = xs @ H"
  have lp: "length pre = length xs + 64" by (simp add: pre_def H_def enc_strh_def)
  define buf where "buf = pre @ le32s [strf_ID, 18] @ le16 1 @ le16 ch @ le32s [sps, 0] @ le16 0 @ le32 bits @ ys"
  have b: "xs @ enc_stream_body (Audio ch sps bits) @ ys = buf" by (simp add: buf_def pre_def H_def)
  have o2: "unat (strh + 64) = length pre" using o unat_off [of strh 64] lp by simp
  have at: "unat (strh + 64 + k) = length pre + unat k" if "unat k \<le> 22" for k
    using o2 o lp that unat_off [of "strh + 64" k] by simp
  have "rd32 buf (strh + 64) = Some strf_ID"
    unfolding buf_def using rd32_field [of "strh + 64" pre 0 "[strf_ID, 18]"] o2 by simp
  moreover have "rd32 buf (strh + 64 + 4) = Some 18"
    unfolding buf_def using rd32_field [of "strh + 64 + 4" pre 1 "[strf_ID, 18]"] at [of 4] by simp
  moreover have "rd16 buf (strh + 64 + 10) = Some ch"
    unfolding buf_def using rd16_le16 [of "strh + 64 + 10" "pre @ le32s [strf_ID, 18] @ le16 1" ch] at [of 10] by simp
  moreover have "rd32 buf (strh + 64 + 12) = Some sps"
    unfolding buf_def
    using rd32_field [of "strh + 64 + 12" "pre @ le32s [strf_ID, 18] @ le16 1 @ le16 ch" 0 "[sps, 0]"] at [of 12] by simp
  moreover have "rd32 buf (strh + 64 + 22) = Some bits"
    unfolding buf_def
    using rd32_le32 [of "strh + 64 + 22" "pre @ le32s [strf_ID, 18] @ le16 1 @ le16 ch @ le32s [sps, 0] @ le16 0" bits] at [of 22]
    by simp
  ultimately show ?thesis
    unfolding b parse_audio_def Let_def sizeof_strh_def sizeof_auds_def by simp
qed


lemma strl_enc:
  assumes o: "unat off = length xs" "length xs + length (enc_strl s) < 2 ^ 32" and ok: "stream_ok (fst s)"
  shows "Strl_Parser (xs @ enc_strl s @ ys) off f = Some (0, word_of_nat (length (enc_strl s)), apply_stream (fst s) f)"
proof -
  define body where "body = enc_stream_body (fst s)"
  define n where "n = (word_of_nat (4 + length body + length (snd s)) :: u32)"
  define buf where "buf = xs @ enc_strl s @ ys"
  define pre where "pre = xs @ le32s [LIST_ID, n, strl_ID]"
  have e: "enc_strl s = le32s [LIST_ID, n, strl_ID] @ body @ snd s"
    by (simp add: enc_strl_def body_def n_def)
  have b: "buf = pre @ body @ snd s @ ys" "buf = xs @ le32s [LIST_ID, n, strl_ID] @ body @ snd s @ ys"
    by (simp_all add: buf_def pre_def e)
  have len: "length (enc_strl s) = 12 + length body + length (snd s)" by (simp add: e)
  have hd: "list_head_is buf off LIST_ID strl_ID = Some True" "rd32 buf (off + 4) = Some n"
    using list_head_read [OF o(1) _ refl, of LIST_ID n strl_ID "body @ snd s @ ys"] o(2) unfolding b(2) by (simp_all add: len)
  have n8: "n + 8 = word_of_nat (length (enc_strl s))" by (simp add: n_def len)
  have o2: "unat (off + 12) = length pre" using o unat_off [of off 12] len by (simp add: pre_def)
  have lb: "64 \<le> length body" by (cases "fst s") (simp_all add: body_def enc_strh_def)
  have lp: "length pre + length body + length (snd s) < 2 ^ 32" using o(2) by (simp add: len pre_def)
  obtain type codec scale rate rest where bd: "body = enc_strh type codec scale rate @ rest"
    "(type, rest) = (case fst s of Video w h rt sc \<Rightarrow> (vids_ID, enc_strf (fst s)) | Audio _ _ _ \<Rightarrow> (auds_ID, enc_strf (fst s)) | Other t \<Rightarrow> (t, []))"
    unfolding body_def by (cases "fst s") auto
  have bh: "buf = pre @ le32s [strh_ID, 56, type, codec, 0, 0, 0, scale, rate, 0, 0, 0, 0, 0, 0, 0] @ rest @ snd s @ ys"
    by (simp add: b(1) bd(1) enc_strh_def)
  have ck: "chunk_is buf (off + 12) strh_ID 64 = Some True"
    using chunk_read [OF o2, of "[strh_ID, 56, type, codec, 0, 0, 0, scale, rate, 0, 0, 0, 0, 0, 0, 0]" "rest @ snd s @ ys" strh_ID 64] lp lb
    unfolding bh by simp
  have ty: "rd32 buf (off + 12 + 8) = Some type"
    using chunk_field [OF o2, of "[strh_ID, 56, type, codec, 0, 0, 0, scale, rate, 0, 0, 0, 0, 0, 0, 0]" 2 8 "rest @ snd s @ ys"] lp lb
    unfolding bh by simp
  have "(if vids_ID = type then parse_video buf (off + 12) f else if auds_ID = type then parse_audio buf (off + 12) f else Some (0, f))
    = Some (0, apply_stream (fst s) f)"
  proof (cases "fst s")
    case (Video w h rate' scale')
    then have "type = vids_ID" using bd(2) by simp
    moreover have "length body = 112" by (simp add: body_def Video enc_strh_def)
    ultimately show ?thesis
      using parse_video_enc [OF o2, of scale' w h rate' "snd s @ ys" f] lp ok b(1) by (simp add: body_def Video)
  next
    case (Audio ch sps bits)
    then have "type = auds_ID" "auds_ID \<noteq> vids_ID" using bd(2) by (simp_all add: id_values)
    moreover have "length body = 90" by (simp add: body_def Audio enc_strh_def)
    ultimately show ?thesis
      using parse_audio_enc [OF o2, of ch sps bits "snd s @ ys" f] lp b(1) by (simp add: body_def Audio)
  next
    case (Other t)
    then show ?thesis using bd(2) ok by auto
  qed
  then show ?thesis
    unfolding buf_def [symmetric] Strl_Parser_def Let_def sizeof_list_head_def sizeof_strh_def
    using hd ck ty by (simp add: n8)
qed

lemma streams_enc:
  "unat off = length xs \<Longrightarrow> length xs + length (concat (map enc_strl ss)) < 2 ^ 32 \<Longrightarrow> \<forall>s\<in>set ss. stream_ok (fst s) \<Longrightarrow>
    streams_loop (length ss) (xs @ concat (map enc_strl ss) @ ys) off f
      = Some (off + word_of_nat (length (concat (map enc_strl ss))), fold (\<lambda>s. apply_stream (fst s)) ss f)"
proof (induction ss arbitrary: xs off f)
  case (Cons s ss)
  have p: "Strl_Parser (xs @ enc_strl s @ (concat (map enc_strl ss) @ ys)) off f
      = Some (0, word_of_nat (length (enc_strl s)), apply_stream (fst s) f)"
    by (rule strl_enc) (use Cons.prems in simp_all)
  have "unat (off + word_of_nat (length (enc_strl s))) = length (xs @ enc_strl s)"
    using Cons.prems unat_off [of off "word_of_nat (length (enc_strl s))"] by (simp add: unat_of_nat)
  from Cons.IH [OF this] show ?case using p Cons.prems by (simp add: add.assoc)
qed simp



definition enc_movi :: "u8 list \<Rightarrow> u32 \<Rightarrow> u8 list \<Rightarrow> u8 list" where
  "enc_movi junk msize frames = junk @ le32s [LIST_ID, msize, movi_ID] @ frames"

definition enc_avi :: "u32 \<Rightarrow> u32 \<Rightarrow> u8 list \<Rightarrow> (stream \<times> u8 list) list \<Rightarrow> u8 list \<Rightarrow> u8 list" where
  "enc_avi rsize lsize avih ss tail = enc_riff rsize lsize @ avih @ concat (map enc_strl ss) @ tail"

text \<open>No earlier four bytes read as \<open>movi\<close>.\<close>

definition first_movi :: "u8 list \<Rightarrow> nat \<Rightarrow> bool" where
  "first_movi tail k \<longleftrightarrow> (\<forall>m<k. rd32 tail (word_of_nat m) \<noteq> Some movi_ID)"

lemma rd32_drop:
  assumes "unat off = length xs" "unat off + m < 2 ^ 32"
  shows "rd32 (xs @ tail) (off + word_of_nat m) = rd32 tail (word_of_nat m)"
proof -
  have "unat (word_of_nat m :: u32) = m" using assms(2) by (simp add: unat_of_nat)
  moreover from this have "unat (off + word_of_nat m) = length xs + m" using assms unat_off [of off "word_of_nat m"] by simp
  ultimately show ?thesis by (simp add: rd32_def nth_append)
qed

text \<open>What the main header leaves in the file's data.\<close>

definition head_of :: "u32 \<Rightarrow> u32 \<Rightarrow> u32 \<Rightarrow> u32 \<Rightarrow> u32 \<Rightarrow> u32 \<Rightarrow> avi_file \<Rightarrow> avi_file" where
  "head_of rsize lsize us mb tf ini f = f\<lparr>RIFFchunksize := rsize, LISTchunksize := lsize, avihsize := 56, us_per_frame := us,
     max_bytes_per_sec := mb, total_frames := tf, init_frames := ini\<rparr>"

lemma avi_head:
  assumes "length buf < 2 ^ 32" "buf = enc_riff rsize lsize @ enc_avih us mb tf ini n w h @ ys" "w \<le> 800" "h \<le> 480"
  shows "AVI_Parser buf len f = do {
    (p, f4) \<leftarrow> streams_loop (unat n) buf 88 (head_of rsize lsize us mb tf ini f);
    parse_movi buf len p f4 }"
proof -
  define A where "A = ([avih_ID, 56, us, mb, 0, 0, tf, ini, n, 0, w, h, 0, 0, 0, 0] :: u32 list)"
  have lA: "length A = 16" by (simp add: A_def)
  have b1: "buf = [] @ le32s [RIFF_ID, rsize, AVI_ID] @ le32s [LIST_ID, lsize, hdrl_ID] @ le32s A @ ys"
    using assms(2) by (simp add: enc_riff_def enc_avih_def A_def le32s_def)
  have b2: "buf = le32s [RIFF_ID, rsize, AVI_ID] @ le32s [LIST_ID, lsize, hdrl_ID] @ le32s A @ ys" using b1 by simp
  define pre where "pre = le32s [RIFF_ID, rsize, AVI_ID] @ le32s [LIST_ID, lsize, hdrl_ID]"
  have b3: "buf = pre @ le32s A @ ys" using b1 by (simp add: pre_def)
  have lp: "unat (24 :: u32) = length pre" by (simp add: pre_def)
  have r: "list_head_is buf 0 RIFF_ID AVI_ID = Some True" "rd32 buf 4 = Some rsize"
    using list_head_read [of 0 "[]" _ RIFF_ID rsize AVI_ID] b1 by simp_all
  have l: "list_head_is buf 12 LIST_ID hdrl_ID = Some True" "rd32 buf (12 + 4) = Some lsize"
    unfolding b2 using list_head_read [of 12 "le32s [RIFF_ID, rsize, AVI_ID]" _ LIST_ID lsize hdrl_ID, OF _ _ refl] by simp_all
  have ck: "chunk_is buf 24 avih_ID 64 = Some True"
    using chunk_read [OF lp, of A ys avih_ID 64] lA unfolding b3 by (simp add: pre_def A_def)
  have fld: "rd32 buf (24 + k) = Some (A ! m)" if "4 * m = unat k" "m < 16" for m k
    unfolding b3 by (rule chunk_field [OF lp]) (use that lA in \<open>simp_all add: pre_def\<close>)
  have "rd32 buf (24 + 4) = Some (A ! 1)" "rd32 buf (24 + 8) = Some (A ! 2)" "rd32 buf (24 + 12) = Some (A ! 3)"
    "rd32 buf (24 + 24) = Some (A ! 6)" "rd32 buf (24 + 28) = Some (A ! 7)" "rd32 buf (24 + 32) = Some (A ! 8)"
    "rd32 buf (24 + 40) = Some (A ! 10)" "rd32 buf (24 + 44) = Some (A ! 11)"
    by (rule fld, simp, simp)+
  then have g: "rd32 buf 28 = Some 56" "rd32 buf 32 = Some us" "rd32 buf 36 = Some mb" "rd32 buf 48 = Some tf"
    "rd32 buf 52 = Some ini" "rd32 buf 56 = Some n" "rd32 buf 64 = Some w" "rd32 buf 68 = Some h"
    by (simp_all add: A_def)
  have wh: "\<not> (w > 800 \<or> h > 480)" using assms(3,4) by (simp add: not_less)
  have off: "12 + 4 = (16 :: u32)" "12 + 12 = (24 :: u32)" "24 + 4 = (28 :: u32)" "24 + 8 = (32 :: u32)" "24 + 12 = (36 :: u32)"
    "24 + 24 = (48 :: u32)" "24 + 28 = (52 :: u32)" "24 + 32 = (56 :: u32)" "24 + 40 = (64 :: u32)" "24 + 44 = (68 :: u32)"
    "24 + 64 = (88 :: u32)" by simp_all
  have l2: "rd32 buf 16 = Some lsize" using l(2) by simp
  show ?thesis
    unfolding AVI_Parser_def sizeof_list_head_def sizeof_avih_def Let_def off r l(1) l2 ck g Option.bind.simps
    by (simp add: wh head_of_def)
qed


text \<open>The rest of the parser, behind the streams: \<open>p\<close> is where they end.\<close>

lemma search_none:
  assumes "unat j < 2 ^ 31" "\<And>m. m < unat j \<Longrightarrow> \<exists>d. rd32 buf (off + word_of_nat m) = Some d \<and> d \<noteq> fourcc"
  shows "i \<le> unat j \<Longrightarrow> search_loop fourcc buf off (word_of_nat i) j = Some (- 1)"
proof (induction "unat j - i" arbitrary: i)
  case 0
  then have "i = unat j" by simp
  then have "word_of_nat i = j" by (simp only: word_of_nat_eq_iff) simp
  then show ?case by (subst search_loop.simps) simp
next
  case (Suc n)
  then have i: "i < unat j" by simp
  have "unat (word_of_nat i :: u32) = i" using assms(1) i by (simp add: unat_of_nat)
  then have "(word_of_nat i :: u32) < j" using i by (simp add: word_less_nat_alt)
  moreover obtain d where "rd32 buf (off + word_of_nat i) = Some d" "d \<noteq> fourcc" using assms(2) [OF i] by blast
  ultimately have "search_loop fourcc buf off (word_of_nat i) j = search_loop fourcc buf off (word_of_nat (Suc i)) j"
    using search_loop.simps [of fourcc buf off "word_of_nat i" j] by (simp add: add.commute)
  then show ?case using Suc.hyps(1) [of "Suc i"] Suc.hyps(2) i by simp
qed

lemma tail_read:
  assumes "unat off = length xs" "length (xs @ tail) < 2 ^ 31" "first_movi tail k" "m < k" "m + 4 \<le> length tail"
  shows "\<exists>d. rd32 (xs @ tail) (off + word_of_nat m) = Some d \<and> d \<noteq> movi_ID"
proof -
  have "rd32 (xs @ tail) (off + word_of_nat m) = rd32 tail (word_of_nat m)"
    by (rule rd32_drop) (use assms in simp_all)
  moreover have "unat (word_of_nat m :: u32) = m" using assms(2,5) by (simp add: unat_of_nat)
  then have "\<exists>d. rd32 tail (word_of_nat m) = Some d" using assms(5) by (simp add: rd32_def)
  ultimately show ?thesis using assms(3,4) by (auto simp: first_movi_def)
qed


lemma avi_streams:
  assumes b: "buf = enc_avi rsize lsize (enc_avih us mb tf ini (word_of_nat (length ss)) w h) ss tail"
    and wh: "w \<le> 800" "h \<le> 480" and ok: "\<forall>s\<in>set ss. stream_ok (fst s)" and len: "length buf < 2 ^ 31"
  obtains p xs where "buf = xs @ tail" "unat p = length xs"
    "AVI_Parser buf L f = parse_movi buf L p (fold (\<lambda>s. apply_stream (fst s)) ss (head_of rsize lsize us mb tf ini f))"
proof -
  define n where "n = (word_of_nat (length ss) :: u32)"
  define xs where "xs = enc_riff rsize lsize @ enc_avih us mb tf ini n w h"
  define S where "S = concat (map enc_strl ss)"
  define p where "p = (88 + word_of_nat (length S) :: u32)"
  have bx: "buf = xs @ S @ tail" "buf = enc_riff rsize lsize @ enc_avih us mb tf ini n w h @ (S @ tail)"
    by (simp_all add: b enc_avi_def xs_def S_def n_def)
  have lx: "length xs = 88" by (simp add: xs_def)
  have lb: "length buf = 88 + length S + length tail" by (simp add: bx(1) lx)
  have up: "unat p = length (xs @ S)"
    using unat_off [of 88 "word_of_nat (length S)"] len lb lx by (simp add: p_def unat_of_nat)
  have "length ss \<le> length S"
    unfolding S_def by (induction ss) (auto simp: enc_strl_def)
  then have un: "unat n = length ss" using len lb by (simp add: n_def unat_of_nat)
  have "streams_loop (unat n) buf 88 f0 = Some (p, fold (\<lambda>s. apply_stream (fst s)) ss f0)" for f0
    unfolding un bx(1) S_def p_def
    by (rule streams_enc) (use lx len lb ok in \<open>simp_all add: S_def\<close>)
  then have "AVI_Parser buf L f = parse_movi buf L p (fold (\<lambda>s. apply_stream (fst s)) ss (head_of rsize lsize us mb tf ini f))"
    using avi_head [OF _ bx(2) wh, of L f] len by simp
  with bx(1) up show ?thesis using that [of "xs @ S" p] by simp
qed


text \<open>A list of frames that is empty stands at the very end of the file: the search stops before it.\<close>

lemma avi_empty_movi:
  assumes b: "buf = enc_avi rsize lsize (enc_avih us mb tf ini (word_of_nat (length ss)) w h) ss (enc_movi junk msize [])"
    and wh: "w \<le> 800" "h \<le> 480" and ok: "\<forall>s\<in>set ss. stream_ok (fst s)" and len: "length buf < 2 ^ 31"
    and fm: "first_movi (enc_movi junk msize []) (length junk + 8)"
  shows "\<exists>g. AVI_Parser buf (word_of_nat (length buf)) f = Some (- 7, g)"
proof -
  obtain p xs where bx: "buf = xs @ enc_movi junk msize []" and up: "unat p = length xs"
    and pa: "AVI_Parser buf (word_of_nat (length buf)) f = parse_movi buf (word_of_nat (length buf)) p
      (fold (\<lambda>s. apply_stream (fst s)) ss (head_of rsize lsize us mb tf ini f))"
    by (rule avi_streams [OF b wh ok len])
  have lb: "length buf = length xs + (length junk + 12)" by (simp add: bx enc_movi_def)
  define k where "k = length junk + 8"
  define j where "j = (word_of_nat k :: u32)"
  have pw: "p = word_of_nat (length xs)" unfolding up [symmetric] by (simp only: of_nat_unat) simp
  have lp: "word_of_nat (length buf) - p - 4 = j" by (simp add: lb pw j_def k_def)
  have "k < 2 ^ 32" using len lb by (simp add: k_def)
  then have uj: "unat j = k" by (simp add: j_def unat_of_nat)
  have "\<exists>d. rd32 buf (p + word_of_nat m) = Some d \<and> d \<noteq> movi_ID" if "m < unat j" for m
    unfolding bx by (rule tail_read [OF up, where k = k]) (use len fm that uj bx in \<open>simp_all add: k_def enc_movi_def\<close>)
  then have "search_loop movi_ID buf p (word_of_nat 0) j = Some (- 1)"
    by (intro search_none) (use uj len lb in \<open>simp_all add: k_def\<close>)
  then have "search_fourcc movi_ID buf p (word_of_nat (length buf) - p) = Some (- 1)"
    by (simp add: search_fourcc_def lp)
  then show ?thesis
    unfolding pa parse_movi_def by simp
qed



end
