(* ===== verification/Video_Player.thy ===== *)
theory Video_Player
  imports Avi_File
begin

text \<open>
  The video player (\<open>board/ports/avi/player\<close>) and the buttons of its screen
  (\<open>board/lvgl/demo/video/lv_demo_video.c\<close>). Two threads share one structure: the player's thread, whose loop
  tests the status again and again, and the thread of the screen, which calls the commands. A step is one
  access of one of them to the status, and a run is any interleaving of these steps. What the file system
  answers is an argument of a step, and so is the floating point quotient of the time (\<open>scale\<close>). The quotients by
  \<open>song_time_all\<close> are only shown; sound, picture and log are left out. The semaphore is the number of its tokens: a thread
  that waits takes the next one. \<open>None\<close> is a NULL pointer
  that is dereferenced or an index outside an array.
\<close>

subsection \<open>The player\<close>

datatype player_status = PLAYER_IDLE | PLAYER_READY | PLAYER_RUNNING | PLAYER_STOP | PLAYER_DELETE | PLAYER_LAST | PLAYER_NEXT

definition PLAYER_SONG_NUM_MAX :: nat where "PLAYER_SONG_NUM_MAX = 20"
definition PLAYER_SONG_NAME_LEN_MAX :: nat where "PLAYER_SONG_NAME_LEN_MAX = 32"
definition DCODE_BUFFER_SIZE :: u32 where "DCODE_BUFFER_SIZE = 30 * 1024"

record player =
  pl_status :: player_status
  pl_volume :: u16
  song_current :: u8
  video_num :: u8
  song_time_pass :: u16
  song_time_all :: u16
  video_list :: "string option list"
  video_name :: string
  sem_play :: nat

definition list_at :: "player \<Rightarrow> nat \<Rightarrow> string option option" where
  "list_at p i = (if i < PLAYER_SONG_NUM_MAX then Some (video_list p ! i) else None)"

definition list_put :: "nat \<Rightarrow> string option \<Rightarrow> player \<Rightarrow> player option" where
  "list_put i x p = (if i < PLAYER_SONG_NUM_MAX then Some (p\<lparr>video_list := (video_list p)[i := x]\<rparr>) else None)"

text \<open>The entry of the film that is chosen: the index is an \<open>int\<close> in C, and -1 lies outside.\<close>

definition chosen :: "player \<Rightarrow> string option option" where
  "chosen p = (if song_current p = 0 then None else list_at p (unat (song_current p) - 1))"

definition player_show :: "player \<Rightarrow> unit option" where
  "player_show p = do {
     rt_assert (unat (video_num p) \<le> PLAYER_SONG_NUM_MAX);
     _ \<leftarrow> list_at p (unat (song_current p));
     Some ()
   }"

definition player_delete :: "player \<Rightarrow> player" where
  "player_delete p = (if pl_status p = PLAYER_RUNNING then p\<lparr>pl_status := PLAYER_DELETE\<rparr> else p)"

text \<open>The search for a name: whether the last comparison failed, and the index where it did not.\<close>

function find_video :: "player \<Rightarrow> nat \<Rightarrow> bool \<Rightarrow> (bool \<times> nat) option" where
  "find_video p index flag =
     (if index < unat (video_num p) then do {
        e \<leftarrow> list_at p index;
        name \<leftarrow> e;
        (if video_name p \<noteq> name then find_video p (index + 1) True else Some (False, index))
      }
      else Some (flag, 0))"
  by pat_completeness auto
termination
  by (relation "measure (\<lambda>(p, index, _). unat (video_num p) - index)") simp_all

declare find_video.simps [simp del]

text \<open>\<open>dup\<close> is \<open>rt_strdup\<close>: a copy of a name, or NULL when there is no memory.\<close>

definition add_video_player :: "(string \<Rightarrow> string option) \<Rightarrow> player \<Rightarrow> (u8 \<times> player) option" where
  "add_video_player dup p = do {
     (video_index, p1) \<leftarrow>
       (if video_num p = 0 then do {
          p1 \<leftarrow> list_put (unat (song_current p)) (dup (video_name p)) p;
          Some (0, p1\<lparr>song_current := song_current p1 + 1, video_num := video_num p1 + 1\<rparr>)
        }
        else do {
          (flag, index) \<leftarrow> find_video p 0 False;
          p1 \<leftarrow> (if flag then do {
               p1 \<leftarrow> list_put (unat (song_current p)) (dup (video_name p)) p;
               Some (player_delete (p1\<lparr>song_current := song_current p1 + 1, video_num := video_num p1 + 1\<rparr>))
             }
             else Some p);
          Some (word_of_nat index, p1)
        });
     player_show p1;
     Some (video_index, p1)
   }"

subsection \<open>The commands\<close>

definition sem_play_release :: "player \<Rightarrow> player" where
  "sem_play_release p = (if sem_play p < 65535 then p\<lparr>sem_play := sem_play p + 1\<rparr> else p)"

definition init_locked :: "(string \<Rightarrow> string option) \<Rightarrow> player \<Rightarrow> player option" where
  "init_locked dup p = do {
     (i, p1) \<leftarrow> add_video_player dup (p\<lparr>pl_status := PLAYER_READY\<rparr>);
     Some (p1\<lparr>song_current := i + 1\<rparr>)
   }"

definition player_init :: "(string \<Rightarrow> string option) \<Rightarrow> player \<Rightarrow> player option" where
  "player_init dup p = (if pl_status p \<noteq> PLAYER_RUNNING then do {
       p1 \<leftarrow> init_locked dup p;
       Some (sem_play_release p1)
     } else Some p)"

definition player_play :: "player \<Rightarrow> player" where
  "player_play p = (if pl_status p \<noteq> PLAYER_RUNNING then sem_play_release (p\<lparr>pl_status := PLAYER_RUNNING\<rparr>) else p)"

definition player_stop :: "player \<Rightarrow> player" where
  "player_stop p = (if pl_status p = PLAYER_RUNNING then p\<lparr>pl_status := PLAYER_STOP\<rparr> else p)"

definition last_select :: "player \<Rightarrow> player" where
  "last_select p = p\<lparr>song_current := (if song_current p > 1 then song_current p - 1 else video_num p)\<rparr>"

definition player_last :: "player \<Rightarrow> player" where
  "player_last p = (last_select p)\<lparr>pl_status := PLAYER_LAST\<rparr>"

definition next_select :: "player \<Rightarrow> player" where
  "next_select p = p\<lparr>song_current := (if song_current p < video_num p then song_current p + 1 else 1)\<rparr>"

definition player_next :: "player \<Rightarrow> player" where
  "player_next p = (next_select p)\<lparr>pl_status := PLAYER_NEXT\<rparr>"

datatype player_cmd = CMD_INIT string | CMD_PLAY | CMD_STOP | CMD_LAST | CMD_NEXT | CMD_SET_VOL u16 | CMD_GET_VOL | CMD_GET_STATUS

definition copy_name :: "string \<Rightarrow> player \<Rightarrow> player option" where
  "copy_name name p = (if length name < PLAYER_SONG_NAME_LEN_MAX then Some (p\<lparr>video_name := name\<rparr>) else None)"

fun player_control :: "(string \<Rightarrow> string option) \<Rightarrow> player_cmd \<Rightarrow> player \<Rightarrow> player option" where
  "player_control dup (CMD_INIT name) p = do { p1 \<leftarrow> copy_name name p; player_init dup p1 }"
| "player_control dup CMD_PLAY p = Some (player_play p)"
| "player_control dup CMD_STOP p = Some (player_stop p)"
| "player_control dup CMD_LAST p = Some (player_last p)"
| "player_control dup CMD_NEXT p = Some (player_next p)"
| "player_control dup (CMD_SET_VOL v) p = Some (p\<lparr>pl_volume := v\<rparr>)"
| "player_control dup CMD_GET_VOL p = Some p"
| "player_control dup CMD_GET_STATUS p = Some p"

text \<open>What the commands that ask store at their argument.\<close>

fun status_code :: "player_status \<Rightarrow> u8" where
  "status_code PLAYER_IDLE = 0"
| "status_code PLAYER_READY = 1"
| "status_code PLAYER_RUNNING = 2"
| "status_code PLAYER_STOP = 3"
| "status_code PLAYER_DELETE = 4"
| "status_code PLAYER_LAST = 5"
| "status_code PLAYER_NEXT = 6"

fun control_answer :: "player_cmd \<Rightarrow> player \<Rightarrow> u8 option" where
  "control_answer CMD_GET_VOL p = Some (ucast (pl_volume p))"
| "control_answer CMD_GET_STATUS p = Some (status_code (pl_status p))"
| "control_answer _ p = None"

text \<open>The three buttons of the screen: the middle one starts and stops in turn.\<close>

datatype button = Btn_Play | Btn_Next | Btn_Last

fun Button_event :: "(string \<Rightarrow> string option) \<Rightarrow> button \<Rightarrow> bool \<times> player \<Rightarrow> (bool \<times> player) option" where
  "Button_event dup Btn_Play (change, p) = do {
     p1 \<leftarrow> player_control dup (if \<not> change then CMD_PLAY else CMD_STOP) p;
     Some (\<not> change, p1)
   }"
| "Button_event dup Btn_Next (change, p) = do {
     p1 \<leftarrow> (if pl_status p = PLAYER_STOP then player_control dup CMD_PLAY p else Some p);
     p2 \<leftarrow> player_control dup CMD_NEXT p1;
     Some (change, p2)
   }"
| "Button_event dup Btn_Last (change, p) = do {
     p1 \<leftarrow> (if pl_status p = PLAYER_STOP then player_control dup CMD_PLAY p else Some p);
     p2 \<leftarrow> player_control dup CMD_LAST p1;
     Some (change, p2)
   }"

subsection \<open>The search for films\<close>



definition add_found :: "(string \<Rightarrow> string option) \<Rightarrow> string \<Rightarrow> player \<Rightarrow> player option" where
  "add_found dup path p = do {
     p1 \<leftarrow> list_put (unat (video_num p)) (dup path) p;
     Some (p1\<lparr>video_num := video_num p1 + 1\<rparr>)
   }"



subsection \<open>The player's thread\<close>

definition T_vids :: u32 where "T_vids = REV 0x30306463"
definition T_auds :: u32 where "T_auds = REV 0x30317762"

text \<open>Where the thread is: at a test of the status, behind one, in a wait for the semaphore, or at its end.\<close>

datatype vpc = At_Ready | Opened | At_Running | Film_End | Film_Next | At_Stop | Wait_Stop | At_Delete | In_Delete
  | At_Last | In_Last | At_Next | In_Next | At_Idle | Wait_Idle | Ended

record vthread =
  vt_pc :: vpc
  vt_fd :: int
  vt_file :: avi_file
  Strsize :: u32
  Strtype :: u32
  BytesRD :: u32
  opened :: "string list"

text \<open>The answers of the files: the descriptor, the first bytes of the file, and the head of a frame.\<close>

record vio =
  io_fd :: int
  io_buf :: "u8 list"
  io_n :: u32
  io_fourcc :: u32
  io_size :: u32

text \<open>The bytes of a frame that are put into the buffer, with the type of the frame.\<close>

definition read_video_frame :: "vio \<Rightarrow> u32 \<Rightarrow> u32 \<times> u32" where
  "read_video_frame io len = (let size = (if io_size io mod 2 \<noteq> 0 then io_size io + 1 else io_size io) in
     (if len < size then 0 else size, io_fourcc io))"

definition video_start_parser :: "vio \<Rightarrow> string \<Rightarrow> player \<Rightarrow> vthread \<Rightarrow> (player \<times> vthread) option" where
  "video_start_parser io filename p v = do {
     let v1 = v\<lparr>opened := opened v @ [filename], BytesRD := io_n io\<rparr>;
     (ret, f) \<leftarrow> AVI_Parser (io_buf io) (io_n io) (vt_file v);
     (if 0 > ret then Some (p, v1\<lparr>vt_fd := RT_ERROR, vt_file := f\<rparr>)
      else do {
        let alltime = (us_per_frame f div 1000) * total_frames f div 1000;
        let (sz, ty) = read_video_frame io DCODE_BUFFER_SIZE;
        Some (p\<lparr>song_time_all := ucast alltime\<rparr>,
          v1\<lparr>vt_fd := io_fd io, vt_file := f, Strsize := sz, Strtype := ty, BytesRD := sz + 8\<rparr>)
      })
   }"

definition running_step :: "(u32 \<Rightarrow> u32 \<Rightarrow> u16 \<Rightarrow> u16) \<Rightarrow> vio \<Rightarrow> player \<Rightarrow> vthread \<Rightarrow> (player \<times> vthread) option" where
  "running_step scale io p v =
     (if Strtype v \<noteq> T_vids \<and> Strtype v \<noteq> T_auds then Some (p, v\<lparr>vt_pc := Ended\<rparr>)
      else do {
        let (sz, ty) = read_video_frame io DCODE_BUFFER_SIZE;
        let v1 = v\<lparr>Strsize := sz, Strtype := ty, BytesRD := BytesRD v + (sz + 8)\<rparr>;
        let p1 = p\<lparr>song_time_pass := scale (BytesRD v1) (movi_size (vt_file v1)) (song_time_all p)\<rparr>;
        (if BytesRD v1 \<ge> movi_size (vt_file v1) then do {
           player_show p1;
           Some (p1, v1\<lparr>vt_pc := Film_End\<rparr>)
         }
         else Some (p1, v1\<lparr>vt_pc := At_Stop\<rparr>))
      })"

definition goto :: "vpc \<Rightarrow> player \<Rightarrow> vthread \<Rightarrow> (player \<times> vthread) option" where
  "goto pc p v = Some (p, v\<lparr>vt_pc := pc\<rparr>)"

text \<open>The end of a film: the status is set and the name is printed.\<close>

definition close_film :: "player_status \<Rightarrow> vpc \<Rightarrow> player \<Rightarrow> vthread \<Rightarrow> (player \<times> vthread) option" where
  "close_film st pc p v = do { _ \<leftarrow> chosen p; goto pc (p\<lparr>pl_status := st\<rparr>) v }"

definition player_entry :: "(u32 \<Rightarrow> u32 \<Rightarrow> u16 \<Rightarrow> u16) \<Rightarrow> vio \<Rightarrow> player \<Rightarrow> vthread \<Rightarrow> (player \<times> vthread) option" where
  "player_entry scale io p v = (case vt_pc v of
     At_Ready \<Rightarrow>
       (if pl_status p = PLAYER_READY then do {
          e \<leftarrow> chosen p;
          filename \<leftarrow> e;
          (p1, v1) \<leftarrow> video_start_parser io filename p v;
          goto Opened p1 v1
        }
        else goto At_Running p v)
   | Opened \<Rightarrow> do { _ \<leftarrow> chosen p; goto At_Running (p\<lparr>pl_status := PLAYER_RUNNING\<rparr>) v }
   | At_Running \<Rightarrow> (if pl_status p = PLAYER_RUNNING then running_step scale io p v else goto At_Stop p v)
   | Film_End \<Rightarrow> goto Film_Next (next_select p) v
   | Film_Next \<Rightarrow> goto At_Stop (p\<lparr>pl_status := PLAYER_NEXT\<rparr>) v
   | At_Stop \<Rightarrow> goto (if pl_status p = PLAYER_STOP then Wait_Stop else At_Delete) p v
   | Wait_Stop \<Rightarrow> (if sem_play p > 0 then goto At_Delete (p\<lparr>sem_play := sem_play p - 1\<rparr>) v else Some (p, v))
   | At_Delete \<Rightarrow> goto (if pl_status p = PLAYER_DELETE then In_Delete else At_Last) p v
   | In_Delete \<Rightarrow> close_film PLAYER_IDLE At_Last p v
   | At_Last \<Rightarrow> goto (if pl_status p = PLAYER_LAST then In_Last else At_Next) p v
   | In_Last \<Rightarrow> close_film PLAYER_READY At_Next p v
   | At_Next \<Rightarrow> goto (if pl_status p = PLAYER_NEXT then In_Next else At_Idle) p v
   | In_Next \<Rightarrow> close_film PLAYER_READY At_Idle p v
   | At_Idle \<Rightarrow> goto (if pl_status p = PLAYER_IDLE then Wait_Idle else At_Ready) p v
   | Wait_Idle \<Rightarrow> (if sem_play p > 0 then goto At_Ready (p\<lparr>sem_play := sem_play p - 1\<rparr>) v else Some (p, v))
   | Ended \<Rightarrow> Some (p, v))"

subsection \<open>The commands in steps\<close>

datatype gpc = G_none | G_init | G_init_release | G_play | G_play_release | G_stop | G_last | G_next

fun cmd_start :: "player_cmd \<Rightarrow> player \<Rightarrow> (player \<times> gpc) option" where
  "cmd_start (CMD_INIT name) p = do {
     p1 \<leftarrow> copy_name name p;
     Some (p1, if pl_status p1 \<noteq> PLAYER_RUNNING then G_init else G_none)
   }"
| "cmd_start CMD_PLAY p = Some (p, if pl_status p \<noteq> PLAYER_RUNNING then G_play else G_none)"
| "cmd_start CMD_STOP p = Some (p, if pl_status p = PLAYER_RUNNING then G_stop else G_none)"
| "cmd_start CMD_LAST p = Some (last_select p, G_last)"
| "cmd_start CMD_NEXT p = Some (next_select p, G_next)"
| "cmd_start (CMD_SET_VOL v) p = Some (p\<lparr>pl_volume := v\<rparr>, G_none)"
| "cmd_start CMD_GET_VOL p = Some (p, G_none)"
| "cmd_start CMD_GET_STATUS p = Some (p, G_none)"

fun cmd_step :: "(string \<Rightarrow> string option) \<Rightarrow> gpc \<Rightarrow> player \<Rightarrow> (player \<times> gpc) option" where
  "cmd_step dup G_none p = Some (p, G_none)"
| "cmd_step dup G_init p = do { p1 \<leftarrow> init_locked dup p; Some (p1, G_init_release) }"
| "cmd_step dup G_init_release p = Some (sem_play_release p, G_none)"
| "cmd_step dup G_play p = Some (p\<lparr>pl_status := PLAYER_RUNNING\<rparr>, G_play_release)"
| "cmd_step dup G_play_release p = Some (sem_play_release p, G_none)"
| "cmd_step dup G_stop p = Some (p\<lparr>pl_status := PLAYER_STOP\<rparr>, G_none)"
| "cmd_step dup G_last p = Some (p\<lparr>pl_status := PLAYER_LAST\<rparr>, G_none)"
| "cmd_step dup G_next p = Some (p\<lparr>pl_status := PLAYER_NEXT\<rparr>, G_none)"

record vsys =
  the_player :: player
  the_thread :: vthread
  the_gui :: gpc

datatype vact = V_cmd player_cmd | V_gui | V_thread vio

text \<open>A command starts when the one before has returned.\<close>

fun vstep :: "(u32 \<Rightarrow> u32 \<Rightarrow> u16 \<Rightarrow> u16) \<Rightarrow> (string \<Rightarrow> string option) \<Rightarrow> vact \<Rightarrow> vsys \<Rightarrow> vsys option" where
  "vstep scale dup (V_cmd c) s = (if the_gui s \<noteq> G_none then Some s else do {
     (p, g) \<leftarrow> cmd_start c (the_player s);
     Some (s\<lparr>the_player := p, the_gui := g\<rparr>)
   })"
| "vstep scale dup V_gui s = do {
     (p, g) \<leftarrow> cmd_step dup (the_gui s) (the_player s);
     Some (s\<lparr>the_player := p, the_gui := g\<rparr>)
   }"
| "vstep scale dup (V_thread io) s = do {
     (p, v) \<leftarrow> player_entry scale io (the_player s) (the_thread s);
     Some (s\<lparr>the_player := p, the_thread := v\<rparr>)
   }"

fun vrun :: "(u32 \<Rightarrow> u32 \<Rightarrow> u16 \<Rightarrow> u16) \<Rightarrow> (string \<Rightarrow> string option) \<Rightarrow> vact list \<Rightarrow> vsys \<Rightarrow> vsys option" where
  "vrun scale dup [] s = Some s"
| "vrun scale dup (a # as) s = do { s1 \<leftarrow> vstep scale dup a s; vrun scale dup as s1 }"




subsection \<open>Commands and films\<close>

text \<open>A command that is not disturbed does what its steps do.\<close>

lemma cmd_steps_run:
  "player_control dup c p = do {
     (p1, g1) \<leftarrow> cmd_start c p; (p2, g2) \<leftarrow> cmd_step dup g1 p1; (p3, g3) \<leftarrow> cmd_step dup g2 p2; Some p3 }"
proof (cases c)
  case (CMD_INIT name)
  then show ?thesis by (cases "copy_name name p") (auto simp: player_init_def bind_assoc)
qed (auto simp: player_play_def player_stop_def player_last_def player_next_def)

definition film_names :: "string option list \<Rightarrow> nat \<Rightarrow> string set" where
  "film_names L n = {name. \<exists>i<n. L ! i = Some name}"

definition films_ok :: "string option list \<Rightarrow> nat \<Rightarrow> bool" where
  "films_ok L n \<longleftrightarrow> length L = PLAYER_SONG_NUM_MAX \<and> 1 \<le> n \<and> n < PLAYER_SONG_NUM_MAX \<and> (\<forall>i<n. L ! i \<noteq> None)"



lemma chosen_ok:
  assumes "films_ok (video_list p) (unat (video_num p))" "song_current p \<le> video_num p" "song_current p \<noteq> 0"
  shows "\<exists>name. chosen p = Some (Some name) \<and> name \<in> film_names (video_list p) (unat (video_num p))"
proof -
  have "0 < unat (song_current p)" "unat (song_current p) \<le> unat (video_num p)"
    using assms(2,3) by (simp_all add: word_le_nat_alt unat_gt_0)
  then have lt: "unat (song_current p) - 1 < unat (video_num p)" by simp
  then obtain name where "video_list p ! (unat (song_current p) - 1) = Some name" using assms(1) by (auto simp: films_ok_def)
  with lt assms(1,3) show ?thesis by (auto simp: chosen_def list_at_def film_names_def films_ok_def)
qed

lemma selects [simp]:
  "video_list (next_select p) = video_list p" "video_num (next_select p) = video_num p" "pl_status (next_select p) = pl_status p"
  "video_list (last_select p) = video_list p" "video_num (last_select p) = video_num p" "pl_status (last_select p) = pl_status p"
  "video_name (next_select p) = video_name p" "video_name (last_select p) = video_name p"
  "sem_play (next_select p) = sem_play p" "sem_play (last_select p) = sem_play p"
  by (simp_all add: next_select_def last_select_def)

lemma word_ge_1: "(w :: u8) \<noteq> 0 \<Longrightarrow> 1 \<le> w"
  by (simp add: word_le_nat_alt unat_gt_0 Suc_leI)

lemma select_range:
  assumes "1 \<le> video_num p" "song_current p \<le> video_num p"
  shows "song_current (next_select p) \<le> video_num p" "song_current (next_select p) \<noteq> 0"
    "song_current (last_select p) \<le> video_num p" "song_current (last_select p) \<noteq> 0"
proof -
  have "unat (video_num p) < 2 ^ LENGTH(8)" by (rule unsigned_less)
  then have n: "unat (video_num p) < 256" by simp
  have u: "unat (song_current p + 1) = unat (song_current p) + 1" if "song_current p < video_num p"
    using that n by (simp add: word_less_nat_alt unat_word_ariths)
  show "song_current (next_select p) \<le> video_num p" "song_current (next_select p) \<noteq> 0"
    using assms u by (auto simp: next_select_def word_le_nat_alt word_less_nat_alt)
  have d: "unat (song_current p - 1) = unat (song_current p) - 1" if "1 < song_current p"
  proof -
    have "song_current p \<noteq> 0" using that by auto
    then show ?thesis by (rule unat_minus_one)
  qed
  show "song_current (last_select p) \<le> video_num p" "song_current (last_select p) \<noteq> 0"
    using assms d by (auto simp: last_select_def word_le_nat_alt word_less_nat_alt)
qed


subsection \<open>Every interleaving\<close>

text \<open>
  The list is that of the start; from the first choice on the number of the film is in its range, and every
  place where the entry is used comes after that; the film opened is one of the list.
\<close>

definition player_inv :: "string option list \<Rightarrow> u8 \<Rightarrow> player \<Rightarrow> bool" where
  "player_inv L n p \<longleftrightarrow> video_list p = L \<and> video_num p = n \<and> song_current p \<le> n \<and> pl_status p \<noteq> PLAYER_DELETE
     \<and> (song_current p = 0 \<longrightarrow> pl_status p \<notin> {PLAYER_READY, PLAYER_LAST, PLAYER_NEXT})"

definition vsys_inv :: "string option list \<Rightarrow> u8 \<Rightarrow> vsys \<Rightarrow> bool" where
  "vsys_inv L n s \<longleftrightarrow> player_inv L n (the_player s)
     \<and> (song_current (the_player s) = 0 \<longrightarrow> vt_pc (the_thread s) \<notin> {Opened, Film_Next, In_Last, In_Next} \<and> the_gui s \<notin> {G_last, G_next})
     \<and> vt_pc (the_thread s) \<noteq> In_Delete
     \<and> (the_gui s = G_init \<longrightarrow> video_name (the_player s) \<in> film_names L (unat n))
     \<and> set (opened (the_thread s)) \<subseteq> film_names L (unat n)"


lemma release_simps [simp]:
  "video_list (sem_play_release p) = video_list p" "video_num (sem_play_release p) = video_num p"
  "pl_status (sem_play_release p) = pl_status p" "song_current (sem_play_release p) = song_current p"
  "video_name (sem_play_release p) = video_name p"
  by (simp_all add: sem_play_release_def)

lemma films_range:
  assumes "films_ok L (unat n)"
  shows "1 \<le> n" "unat n < 20"
  using assms by (simp_all add: films_ok_def word_le_nat_alt PLAYER_SONG_NUM_MAX_def)










subsection \<open>The films found\<close>



fun add_all :: "string list \<Rightarrow> player \<Rightarrow> player option" where
  "add_all [] p = Some p"
| "add_all (x # xs) p = do { p1 \<leftarrow> add_found Some x p; add_all xs p1 }"

lemma bind_add_all_Nil [simp]: "m \<bind> add_all [] = m"
  by (cases m) simp_all







subsection \<open>A film ends\<close>













text \<open>The two directions of the choice undo each other, round the ends of the list too.\<close>

lemma next_last_inverse:
  assumes "1 \<le> song_current p" "song_current p \<le> video_num p"
  shows "last_select (next_select p) = p" "next_select (last_select p) = p"
proof -
  have "unat (video_num p) < 2 ^ LENGTH(8)" by (rule unsigned_less)
  then have "unat (song_current p + 1) = unat (song_current p) + 1" if "song_current p < video_num p"
    using that by (simp add: word_less_nat_alt unat_word_ariths)
  then have "song_current p + 1 > 1" if "song_current p < video_num p"
    using that assms(1) by (simp add: word_less_nat_alt word_le_nat_alt)
  then show "last_select (next_select p) = p"
    using assms by (auto simp: last_select_def next_select_def not_less)
  have "song_current p \<noteq> 0" using assms(1) by auto
  then have "unat (song_current p - 1) = unat (song_current p) - 1" by (rule unat_minus_one)
  then have "song_current p - 1 < video_num p"
    using assms by (simp add: word_less_nat_alt word_le_nat_alt)
  then show "next_select (last_select p) = p"
    using assms by (auto simp: last_select_def next_select_def not_less)
qed

subsection \<open>What goes wrong\<close>

text \<open>A command that comes while a film is opened is lost: the status is overwritten, and the number has moved on.\<close>

lemma next_lost:
  assumes "vt_pc (the_thread s) = Opened" "the_gui s = G_none" "vsys_inv L n s" "films_ok L (unat n)"
  shows "\<exists>s'. vrun scale dup [V_cmd CMD_NEXT, V_gui, V_thread io] s = Some s' \<and> pl_status (the_player s') = PLAYER_RUNNING
    \<and> song_current (the_player s') = song_current (next_select (the_player s)) \<and> vt_file (the_thread s') = vt_file (the_thread s)"
proof -
  define q where "q = (next_select (the_player s))\<lparr>pl_status := PLAYER_NEXT\<rparr>"
  have "1 \<le> video_num (the_player s)" "song_current (the_player s) \<le> video_num (the_player s)"
    using assms(3) films_range [OF assms(4)] by (auto simp: vsys_inv_def player_inv_def)
  from select_range [OF this] obtain name where "chosen q = Some (Some name)"
    using chosen_ok [of q] assms(3,4) by (auto simp: vsys_inv_def player_inv_def q_def)
  then show ?thesis
    using assms(1,2) by (simp add: player_entry_def goto_def q_def)
qed

text \<open>The play button before a film is chosen ends the player's thread.\<close>

lemma play_first_ends_thread:
  assumes "vt_pc (the_thread s) = Wait_Idle" "the_gui s = G_none" "pl_status (the_player s) = PLAYER_IDLE" "Strtype (the_thread s) = 0"
    "sem_play (the_player s) = 0"
  shows "\<exists>s'. vrun scale dup [V_cmd CMD_PLAY, V_gui, V_gui, V_thread io, V_thread io, V_thread io] s = Some s' \<and> vt_pc (the_thread s') = Ended"
proof -
  have "T_vids \<noteq> 0" "T_auds \<noteq> 0" by (simp_all add: T_vids_def T_auds_def REV_def)
  then show ?thesis
    using assms by (simp add: player_entry_def goto_def running_step_def sem_play_release_def)
qed

text \<open>
  A name that is not in the list is written over the entry \<open>song_current\<close> instead of behind the last: the first film is
  lost, the entry behind the last stays NULL, and the film chosen is the first of the list.
\<close>

lemma find_video_none:
  assumes "films_ok (video_list p) (unat (video_num p))" "video_name p \<notin> film_names (video_list p) (unat (video_num p))"
  shows "find_video p index flag = Some (flag \<or> index < unat (video_num p), 0)"
proof (induction "unat (video_num p) - index" arbitrary: index flag)
  case 0
  then show ?case by (subst find_video.simps) simp
next
  case (Suc m)
  then have lt: "index < unat (video_num p)" "index < PLAYER_SONG_NUM_MAX" using assms by (auto simp: films_ok_def)
  then obtain name where nm: "video_list p ! index = Some name" using assms by (auto simp: films_ok_def)
  then have "video_name p \<noteq> name" using assms(2) lt by (auto simp: film_names_def)
  then have "find_video p index flag = find_video p (index + 1) True"
    using lt nm by (subst find_video.simps) (simp add: list_at_def)
  then show ?case using Suc.hyps(1) [of "index + 1" True] Suc.hyps(2) lt by simp
qed

lemma unknown_film_overwrites:
  assumes ok: "films_ok (video_list p) (unat (video_num p))" and nm: "video_name p \<notin> film_names (video_list p) (unat (video_num p))"
    and sc: "song_current p = 0"
  shows "init_locked Some p = Some (p\<lparr>pl_status := PLAYER_READY, video_list := (video_list p)[0 := Some (video_name p)],
    song_current := 1, video_num := video_num p + 1\<rparr>)"
proof -
  define q where "q = p\<lparr>pl_status := PLAYER_READY\<rparr>"
  have n: "unat (video_num p) < 20" "1 \<le> unat (video_num p)" using ok by (auto simp: films_ok_def PLAYER_SONG_NUM_MAX_def)
  then have nz: "video_num q \<noteq> 0" by (auto simp: q_def)
  have "find_video q 0 False = Some (True, 0)"
    using find_video_none [of q 0 False] ok nm n by (simp add: q_def)
  moreover have "unat (video_num p + 1) = unat (video_num p) + 1" using n by (simp add: unat_word_ariths)
  ultimately show ?thesis
    using n nz sc by (simp add: init_locked_def add_video_player_def q_def [symmetric] list_put_def PLAYER_SONG_NUM_MAX_def
        player_delete_def player_show_def list_at_def) (simp add: q_def)
qed

text \<open>With 20 films the list shows an entry that does not exist when the last one ends.\<close>

lemma show_past_the_list:
  assumes "song_current p = 20"
  shows "player_show p = None"
  using assms by (simp add: player_show_def list_at_def PLAYER_SONG_NUM_MAX_def rt_assert_def)









end
