(* ===== verification/Msh.thy ===== *)
theory Msh
  imports Object_List "HOL-Library.Sublist"
begin

text \<open>
  The command shell (\<open>components/finsh/msh.c\<close>): a line is a buffer of characters with a NUL behind it, a pointer into it
  an index. Splitting a line writes NULs behind its arguments and yields their indices. The table of commands is a list of
  names with what the commands return for their arguments; scripts and the completion of file names, which ask the file
  system, are arguments. \<open>None\<close> is an access outside the buffer.
\<close>

definition FINSH_ARG_MAX :: nat where "FINSH_ARG_MAX = 10"

definition rd :: "string \<Rightarrow> nat \<Rightarrow> char option" where
  "rd buf i = (if i < length buf then Some (buf ! i) else None)"

definition wr :: "nat \<Rightarrow> char \<Rightarrow> string \<Rightarrow> string option" where
  "wr i c buf = (if i < length buf then Some (buf[i := c]) else None)"

definition cstr :: "string \<Rightarrow> nat \<Rightarrow> string" where
  "cstr buf i = takeWhile (\<lambda>c. c \<noteq> NUL) (drop i buf)"

definition blank :: "char \<Rightarrow> bool" where
  "blank c = (c = CHR '' '' \<or> c = CHR 0x09)"

abbreviation (input) QUOT :: char where "QUOT \<equiv> CHR 0x22"
abbreviation (input) BSL :: char where "BSL \<equiv> CHR 0x5C"

subsection \<open>Splitting a line\<close>

function skip_blanks :: "string \<Rightarrow> nat \<Rightarrow> nat \<Rightarrow> (string \<times> nat) option" where
  "skip_blanks buf position len = do {
     c \<leftarrow> rd buf position;
     (if blank c \<and> position < len then skip_blanks (buf[position := NUL]) (position + 1) len else Some (buf, position))
   }"
  by pat_completeness auto
termination
  by (relation "measure (\<lambda>(buf, position, len). len - position)") auto

function quoted_end :: "string \<Rightarrow> nat \<Rightarrow> nat \<Rightarrow> nat option" where
  "quoted_end buf position len = do {
     c \<leftarrow> rd buf position;
     (if c \<noteq> QUOT \<and> position < len
      then if c = BSL then do {
             d \<leftarrow> rd buf (position + 1);
             quoted_end buf (if d = QUOT then position + 2 else position + 1) len
           }
           else quoted_end buf (position + 1) len
      else Some position)
   }"
  by pat_completeness auto
termination
  by (relation "measure (\<lambda>(buf, position, len). len - position)") auto

function word_end :: "string \<Rightarrow> nat \<Rightarrow> nat \<Rightarrow> nat option" where
  "word_end buf position len = do {
     c \<leftarrow> rd buf position;
     (if \<not> blank c \<and> position < len then word_end buf (position + 1) len else Some position)
   }"
  by pat_completeness auto
termination
  by (relation "measure (\<lambda>(buf, position, len). len - position)") auto

declare skip_blanks.simps [simp del] quoted_end.simps [simp del] word_end.simps [simp del]

lemma skip_blanks_progress:
  "skip_blanks buf position len = Some (buf', position') \<Longrightarrow> position \<le> position' \<and> length buf' = length buf
    \<and> (position' < len \<longrightarrow> (\<exists>c. rd buf' position' = Some c \<and> \<not> blank c))"
proof (induction buf position len rule: skip_blanks.induct)
  case (1 buf position len)
  from "1.prems" obtain c where c: "rd buf position = Some c"
    by (subst (asm) skip_blanks.simps) (elim bind_eq_SomeE)
  show ?case
  proof (cases "blank c \<and> position < len")
    case True
    then show ?thesis using "1.IH" [OF c True] "1.prems" c by (subst (asm) skip_blanks.simps) auto
  next
    case False
    then show ?thesis using "1.prems" c by (subst (asm) skip_blanks.simps) auto
  qed
qed

lemma quoted_end_progress: "quoted_end buf position len = Some p \<Longrightarrow> position \<le> p"
proof (induction buf position len rule: quoted_end.induct)
  case (1 buf position len)
  from "1.prems" obtain c where c: "rd buf position = Some c"
    by (subst (asm) quoted_end.simps) (elim bind_eq_SomeE)
  show ?case
  proof (cases "c \<noteq> QUOT \<and> position < len")
    case True
    show ?thesis
    proof (cases "c = BSL")
      case bsl: True
      with "1.prems" c True obtain d where d: "rd buf (position + 1) = Some d"
        "quoted_end buf (if d = QUOT then position + 2 else position + 1) len = Some p"
        by (subst (asm) quoted_end.simps) (auto elim!: bind_eq_SomeE)
      show ?thesis using "1.IH"(1) [OF c True bsl d] by (auto split: if_splits)
    next
      case False
      then have "quoted_end buf (position + 1) len = Some p"
        using "1.prems" c True by (subst (asm) quoted_end.simps) simp
      then show ?thesis using "1.IH"(2) [OF c True False] by simp
    qed
  next
    case False
    then show ?thesis using "1.prems" c by (subst (asm) quoted_end.simps) auto
  qed
qed

lemma word_end_progress:
  "word_end buf position len = Some p \<Longrightarrow> position \<le> p \<and> (position < len \<longrightarrow> rd buf position = Some c \<longrightarrow> \<not> blank c \<longrightarrow> position < p)"
proof (induction buf position len rule: word_end.induct)
  case (1 buf position len)
  from "1.prems" obtain c' where c: "rd buf position = Some c'"
    by (subst (asm) word_end.simps) (elim bind_eq_SomeE)
  show ?case
  proof (cases "\<not> blank c' \<and> position < len")
    case True
    then have "word_end buf (position + 1) len = Some p" using "1.prems" c by (subst (asm) word_end.simps) simp
    then show ?thesis using "1.IH" [OF c True] by simp
  next
    case False
    then show ?thesis using "1.prems" c by (subst (asm) word_end.simps) auto
  qed
qed

text \<open>The line and the indices of its arguments: the outer loop.\<close>

function split_loop :: "string \<Rightarrow> nat \<Rightarrow> nat list \<Rightarrow> nat \<Rightarrow> (string \<times> nat list) option" where
  "split_loop buf position argv len =
     (if position < len then
        (case skip_blanks buf position len of
           None \<Rightarrow> None
         | Some (buf1, p1) \<Rightarrow>
             (if length argv \<ge> FINSH_ARG_MAX then Some (buf1, argv)
              else if p1 \<ge> len then Some (buf1, argv)
              else case rd buf1 p1 of
                None \<Rightarrow> None
              | Some c \<Rightarrow>
                  (if c = QUOT then
                     (case quoted_end buf1 (p1 + 1) len of
                        None \<Rightarrow> None
                      | Some p2 \<Rightarrow>
                          (if p2 \<ge> len then Some (buf1, argv @ [p1 + 1])
                           else split_loop (buf1[p2 := NUL]) (p2 + 1) (argv @ [p1 + 1]) len))
                   else
                     (case word_end buf1 p1 len of
                        None \<Rightarrow> None
                      | Some p2 \<Rightarrow>
                          (if p2 \<ge> len then Some (buf1, argv @ [p1])
                           else split_loop buf1 p2 (argv @ [p1]) len)))))
      else Some (buf, argv))"
  by pat_completeness auto
termination
proof (relation "measure (\<lambda>(buf, position, argv, len). len - position)", goal_cases)
  case (2 buf position argv len pr buf1 p1 c p2)
  then show ?case using skip_blanks_progress [of buf position len buf1 p1] quoted_end_progress [of buf1 "p1 + 1" len p2] by auto
next
  case (3 buf position argv len pr buf1 p1 c p2)
  then show ?case using skip_blanks_progress [of buf position len buf1 p1] word_end_progress [of buf1 p1 len p2 c] by auto
qed simp

declare split_loop.simps [simp del]

definition msh_split :: "string \<Rightarrow> nat \<Rightarrow> (string \<times> nat list) option" where
  "msh_split cmd len = split_loop cmd 0 [] len"

subsection \<open>Running a command\<close>

text \<open>A command's name and what it returns for its arguments.\<close>

type_synonym syscall = "string \<times> (string list \<Rightarrow> int)"

fun msh_get_cmd :: "syscall list \<Rightarrow> string \<Rightarrow> nat \<Rightarrow> syscall option" where
  "msh_get_cmd [] cmd size1 = None"
| "msh_get_cmd ((name, func) # tab) cmd size1 =
     (if strncmp_eq name cmd size1 \<and> char_at (drop size1 name) = NUL then Some (name, func) else msh_get_cmd tab cmd size1)"

text \<open>What was run: the name of the command and its arguments, the first one the name again.\<close>

type_synonym ran = "(string \<times> string list) option"

definition msh_exec_cmd :: "syscall list \<Rightarrow> string \<Rightarrow> nat \<Rightarrow> (int \<times> int \<times> ran \<times> string) option" where
  "msh_exec_cmd tab cmd len = do {
     cmd0_size \<leftarrow> word_end cmd 0 len;
     (if cmd0_size = 0 then Some (- RT_ERROR, 0, None, cmd)
      else case msh_get_cmd tab cmd cmd0_size of
        None \<Rightarrow> Some (- RT_ERROR, 0, None, cmd)
      | Some (name, func) \<Rightarrow> do {
          (cmd1, argv) \<leftarrow> msh_split cmd len;
          (if argv = [] then Some (- RT_ERROR, 0, None, cmd1)
           else let args = map (cstr cmd1) argv in Some (0, func args, Some (name, args), cmd1))
        })
   }"

fun skip_front :: "string \<Rightarrow> nat \<Rightarrow> string \<times> nat" where
  "skip_front (c # cmd) (Suc len) = (if blank c then skip_front cmd len else (c # cmd, Suc len))"
| "skip_front cmd len = (cmd, len)"

text \<open>\<open>script\<close> is what \<open>msh_exec_script\<close> returns for the line.\<close>

definition msh_exec :: "syscall list \<Rightarrow> (string \<Rightarrow> nat \<Rightarrow> int) \<Rightarrow> string \<Rightarrow> nat \<Rightarrow> (int \<times> ran) option" where
  "msh_exec tab script cmd0 len0 = (case skip_front cmd0 len0 of (cmd, len) \<Rightarrow>
     (if len = 0 then Some (0, None)
      else do {
        (r, cmd_ret, rn, cmd1) \<leftarrow> msh_exec_cmd tab cmd len;
        (if r = 0 then Some (cmd_ret, rn)
         else if script cmd1 len = 0 then Some (0, None)
         else do {
           rt_assert (\<exists>c\<in>set cmd1. c = CHR '' '' \<or> c = NUL);
           Some (- 1, None)
         })
      }))"

subsection \<open>Completion\<close>

fun str_common :: "string \<Rightarrow> string \<Rightarrow> nat" where
  "str_common (a # s) (b # t) = (if a = b then Suc (str_common s t) else 0)"
| "str_common s t = 0"

fun complete_loop :: "syscall list \<Rightarrow> string \<Rightarrow> string option \<Rightarrow> nat \<Rightarrow> string option \<times> nat" where
  "complete_loop [] pre name_ptr min_length = (name_ptr, min_length)"
| "complete_loop ((cmd_name, func) # tab) pre name_ptr min_length =
     (if strncmp_eq pre cmd_name (length pre) then
        (let (name_ptr, min_length) = (if min_length = 0 then (Some cmd_name, length cmd_name) else (name_ptr, min_length));
             len = str_common (case name_ptr of None \<Rightarrow> [] | Some n \<Rightarrow> n) cmd_name
         in complete_loop tab pre name_ptr (if len < min_length then len else min_length))
      else complete_loop tab pre name_ptr min_length)"

definition put_at :: "nat \<Rightarrow> string \<Rightarrow> string \<Rightarrow> string option" where
  "put_at i s buf = (if i + length s \<le> length buf then Some (take i buf @ s @ drop (i + length s) buf) else None)"

text \<open>
  \<open>path\<close> completes a file name: the text that \<open>msh_auto_complete_path\<close> leaves, or \<open>None\<close> when it leaves the
  name as it is. The name starts behind the last space.
\<close>

definition last_space :: "string \<Rightarrow> nat option" where
  "last_space s = (if CHR '' '' \<in> set (tl s) then Some (length s - length (takeWhile (\<lambda>c. c \<noteq> CHR '' '') (rev s)) - 1) else None)"

definition msh_auto_complete :: "syscall list \<Rightarrow> (string \<Rightarrow> string option) \<Rightarrow> string \<Rightarrow> string option" where
  "msh_auto_complete tab path buf =
     (if cstr buf 0 = [] then Some buf
      else do {
        buf1 \<leftarrow> (case last_space (cstr buf 0) of
            None \<Rightarrow> Some buf
          | Some i \<Rightarrow> (case path (drop (i + 1) (cstr buf 0)) of
              None \<Rightarrow> Some buf
            | Some s \<Rightarrow> put_at (i + 1) (s @ [NUL]) buf));
        (case complete_loop tab (cstr buf1 0) None 0 of
           (None, min_length) \<Rightarrow> Some buf1
         | (Some name, min_length) \<Rightarrow> put_at 0 (take min_length name) buf1)
      })"


subsection \<open>Lines of arguments\<close>

text \<open>
  An argument is written plain, without blanks, or in quotes; blanks stand in front of every argument, at least one from
  the second on.
\<close>

datatype arg = Plain (arg_text: string) | Quoted (arg_text: string)

fun enc_arg :: "arg \<Rightarrow> string" where
  "enc_arg (Plain w) = w"
| "enc_arg (Quoted w) = QUOT # w @ [QUOT]"

fun arg_ok :: "arg \<Rightarrow> bool" where
  "arg_ok (Plain w) = (w \<noteq> [] \<and> NUL \<notin> set w \<and> (\<forall>c\<in>set w. \<not> blank c) \<and> hd w \<noteq> QUOT)"
| "arg_ok (Quoted w) = (NUL \<notin> set w \<and> QUOT \<notin> set w \<and> (w \<noteq> [] \<longrightarrow> last w \<noteq> BSL))"

definition enc_args :: "(string \<times> arg) list \<Rightarrow> string" where
  "enc_args as = concat (map (\<lambda>(g, a). g @ enc_arg a) as)"

definition gap_ok :: "string \<Rightarrow> bool" where
  "gap_ok g = (\<forall>c\<in>set g. blank c)"

definition args_ok :: "(string \<times> arg) list \<Rightarrow> bool" where
  "args_ok as = (\<forall>(g, a)\<in>set as. g \<noteq> [] \<and> gap_ok g \<and> arg_ok a)"

lemma enc_args_simps [simp]: "enc_args [] = []" "enc_args ((g, a) # as) = g @ enc_arg a @ enc_args as"
  by (simp_all add: enc_args_def)

lemma args_ok_simps [simp]: "args_ok []" "args_ok ((g, a) # as) = (g \<noteq> [] \<and> gap_ok g \<and> arg_ok a \<and> args_ok as)"
  by (simp_all add: args_ok_def)

lemma blank_chars [simp]: "\<not> blank NUL" "\<not> blank QUOT"
  by (simp_all add: blank_def)

text \<open>The text from an index to the next NUL, or to the end.\<close>

definition ctxt :: "string \<Rightarrow> nat \<Rightarrow> string" where
  "ctxt P i = takeWhile (\<lambda>c. c \<noteq> NUL) (drop i P)"

lemma takeWhile_NUL: "takeWhile (\<lambda>c. c \<noteq> NUL) (xs @ NUL # X) = takeWhile (\<lambda>c. c \<noteq> NUL) xs"
  by (induction xs) simp_all

lemma cstr_ctxt: "i \<le> length P \<Longrightarrow> cstr (P @ NUL # X) i = ctxt P i"
  by (simp add: cstr_def ctxt_def takeWhile_NUL)

lemma ctxt_NUL: "i \<le> length P \<Longrightarrow> ctxt (P @ NUL # X) i = ctxt P i"
  by (simp add: ctxt_def takeWhile_NUL)

lemma ctxt_end: "NUL \<notin> set w \<Longrightarrow> i = length P \<Longrightarrow> ctxt (P @ w) i = w"
  by (simp add: ctxt_def takeWhile_eq_all_conv) (metis takeWhile_eq_all_conv)

lemma skip_blanks_spec:
  assumes "R = [] \<or> \<not> blank (hd R)"
  shows "gap_ok g \<Longrightarrow> len = length P + length g + length R \<Longrightarrow>
    skip_blanks (P @ g @ R @ NUL # rest) (length P) len = Some (P @ replicate (length g) NUL @ R @ NUL # rest, length P + length g)"
proof (induction g arbitrary: P)
  case Nil
  have "rd (P @ R @ NUL # rest) (length P) = Some (hd (R @ [NUL]))" by (cases R) (simp_all add: rd_def)
  then show ?case using assms Nil by (subst skip_blanks.simps) (cases R, simp_all)
next
  case (Cons c g)
  have "rd (P @ (c # g) @ R @ NUL # rest) (length P) = Some c" "(P @ (c # g) @ R @ NUL # rest)[length P := NUL] = (P @ [NUL]) @ g @ R @ NUL # rest"
    by (simp_all add: rd_def)
  moreover have "blank c" "length P < len" using Cons.prems by (simp_all add: gap_ok_def)
  ultimately have "skip_blanks (P @ (c # g) @ R @ NUL # rest) (length P) len
      = skip_blanks ((P @ [NUL]) @ g @ R @ NUL # rest) (length (P @ [NUL])) len"
    by (subst skip_blanks.simps) simp
  also have "\<dots> = Some ((P @ [NUL]) @ replicate (length g) NUL @ R @ NUL # rest, length (P @ [NUL]) + length g)"
    by (rule Cons.IH) (use Cons.prems in \<open>simp_all add: gap_ok_def\<close>)
  finally show ?case by simp
qed

lemma word_end_spec:
  assumes "R = [] \<or> blank (hd R)"
  shows "\<forall>c\<in>set w. \<not> blank c \<Longrightarrow> len = length P + length w + length R \<Longrightarrow>
    word_end (P @ w @ R @ NUL # rest) (length P) len = Some (length P + length w)"
proof (induction w arbitrary: P)
  case Nil
  have "rd (P @ R @ NUL # rest) (length P) = Some (hd (R @ [NUL]))" by (cases R) (simp_all add: rd_def)
  then show ?case using assms Nil by (subst word_end.simps) (cases R, simp_all)
next
  case (Cons c w)
  have "rd (P @ (c # w) @ R @ NUL # rest) (length P) = Some c" by (simp add: rd_def)
  then have "word_end (P @ (c # w) @ R @ NUL # rest) (length P) len = word_end ((P @ [c]) @ w @ R @ NUL # rest) (length (P @ [c])) len"
    using Cons.prems by (subst word_end.simps) simp
  then show ?case using Cons.IH [of "P @ [c]"] Cons.prems by simp
qed

lemma quoted_end_spec:
  "QUOT \<notin> set w \<Longrightarrow> (w \<noteq> [] \<longrightarrow> last w \<noteq> BSL) \<Longrightarrow> length P + length w < len \<Longrightarrow>
    quoted_end (P @ w @ QUOT # rest) (length P) len = Some (length P + length w)"
proof (induction w arbitrary: P)
  case Nil
  then show ?case by (subst quoted_end.simps) (simp add: rd_def)
next
  case (Cons c w)
  have r: "rd (P @ (c # w) @ QUOT # rest) (length P) = Some c" by (simp add: rd_def)
  have r1: "rd (P @ (c # w) @ QUOT # rest) (length P + 1) = Some (hd (w @ [QUOT]))" by (cases w) (simp_all add: rd_def nth_append)
  have "c = BSL \<Longrightarrow> hd (w @ [QUOT]) \<noteq> QUOT" using Cons.prems by (cases w) auto
  then have "quoted_end (P @ (c # w) @ QUOT # rest) (length P) len = quoted_end ((P @ [c]) @ w @ QUOT # rest) (length (P @ [c])) len"
    using r r1 Cons.prems by (subst quoted_end.simps) auto
  then show ?case using Cons.IH [of "P @ [c]"] Cons.prems by (auto split: if_splits)
qed


lemma skip_at_end: "skip_blanks (P @ NUL # rest) (length P) (length P) = Some (P @ NUL # rest, length P)"
  by (subst skip_blanks.simps) (simp add: rd_def)

lemma enc_args_start: "args_ok as \<Longrightarrow> gap_ok tg \<Longrightarrow> enc_args as @ tg = [] \<or> blank (hd (enc_args as @ tg))"
proof (cases as)
  case (Cons a as')
  obtain g w where "a = (g, w)" by fastforce
  moreover assume "args_ok as"
  ultimately show ?thesis using Cons by (cases g) (auto simp: gap_ok_def)
qed (cases tg; auto simp: gap_ok_def)

lemma split_loop_last:
  assumes "gap_ok tg" "length argv \<le> FINSH_ARG_MAX" "\<forall>i\<in>set argv. i \<le> length P" "len = length P + length tg"
  shows "\<exists>P'. split_loop (P @ tg @ NUL # rest) (length P) argv len = Some (P' @ NUL # rest, argv) \<and> length P' = len
    \<and> map (ctxt P') argv = map (ctxt P) argv"
proof (cases tg)
  case Nil
  then show ?thesis using assms by (subst split_loop.simps) simp
next
  case (Cons c tg')
  have "skip_blanks (P @ tg @ [] @ NUL # rest) (length P) len = Some (P @ replicate (length tg) NUL @ [] @ NUL # rest, length P + length tg)"
    by (rule skip_blanks_spec) (use assms in simp_all)
  moreover have "ctxt (P @ replicate (length tg) NUL) i = ctxt P i" if "i \<in> set argv" for i
    using assms(3) that by (simp add: Cons ctxt_NUL)
  ultimately show ?thesis using assms Cons
    by (subst split_loop.simps) (auto intro!: exI [of _ "P @ replicate (length tg) NUL"])
qed

text \<open>One more argument: the line behind it, and the index that is added.\<close>

lemma split_loop_arg:
  assumes g: "gap_ok g" "g \<noteq> [] \<or> argv = []" and a: "arg_ok a" and R: "R = [] \<or> blank (hd R)" and n: "length argv < FINSH_ARG_MAX"
    and len: "len = length P + length g + length (enc_arg a) + length R" and i: "\<forall>i\<in>set argv. i \<le> length P"
  shows "\<exists>P' i. length P' = length P + length g + length (enc_arg a) \<and> i \<le> length P' \<and> ctxt P' i = arg_text a
    \<and> map (ctxt P') argv = map (ctxt P) argv
    \<and> split_loop (P @ g @ enc_arg a @ R @ NUL # rest) (length P) argv len
      = split_loop (P' @ R @ NUL # rest) (length P') (argv @ [i]) len"
proof -
  define Q where "Q = P @ replicate (length g) NUL"
  have lQ: "length Q = length P + length g" by (simp add: Q_def)
  have ae: "enc_arg a \<noteq> []" "\<not> blank (hd (enc_arg a))" using a by (cases a; cases "enc_arg a"; auto)+
  have sk: "skip_blanks (P @ g @ (enc_arg a @ R) @ NUL # rest) (length P) len
      = Some (P @ replicate (length g) NUL @ (enc_arg a @ R) @ NUL # rest, length P + length g)"
    by (rule skip_blanks_spec) (use g len ae in simp_all)
  have cQ: "map (ctxt (Q @ X)) argv = map (ctxt P) argv" for X
    using g(2) i by (cases g) (auto simp: Q_def ctxt_NUL)
  have lt: "length P < len" "length Q < len" using len ae(1) by (simp_all add: lQ)
  show ?thesis
  proof (cases a)
    case (Plain w)
    then have w: "w \<noteq> []" "NUL \<notin> set w" "\<forall>c\<in>set w. \<not> blank c" "hd w \<noteq> QUOT" using a by auto
    have r: "rd (Q @ w @ R @ NUL # rest) (length Q) = Some (hd w)" using w(1) by (cases w) (simp_all add: rd_def)
    have we: "word_end (Q @ w @ R @ NUL # rest) (length Q) len = Some (length Q + length w)"
      by (rule word_end_spec [OF R w(3)]) (use len Plain in \<open>simp add: lQ\<close>)
    have "split_loop (P @ g @ enc_arg a @ R @ NUL # rest) (length P) argv len
        = (if len \<le> length Q + length w then Some (Q @ w @ R @ NUL # rest, argv @ [length Q])
           else split_loop (Q @ w @ R @ NUL # rest) (length Q + length w) (argv @ [length Q]) len)"
      using sk lt n r we w(4) Plain by (subst split_loop.simps) (simp add: Q_def)
    also have "\<dots> = split_loop ((Q @ w) @ R @ NUL # rest) (length (Q @ w)) (argv @ [length Q]) len"
      using split_loop.simps [of "Q @ w @ R @ NUL # rest" "length Q + length w" "argv @ [length Q]" len] by simp
    finally show ?thesis
      using cQ [of w] w(2) Plain by (intro exI [of _ "Q @ w"] exI [of _ "length Q"]) (simp add: lQ ctxt_end)
  next
    case (Quoted w)
    then have w: "NUL \<notin> set w" "QUOT \<notin> set w" "w \<noteq> [] \<longrightarrow> last w \<noteq> BSL" using a by auto
    define Q1 where "Q1 = Q @ [QUOT]"
    have ll: "len = length Q1 + length w + 1 + length R" using len Quoted by (simp add: Q1_def lQ)
    have qe: "quoted_end (Q1 @ w @ QUOT # R @ NUL # rest) (length Q1) len = Some (length Q1 + length w)"
      by (rule quoted_end_spec [OF w(2,3)]) (simp add: ll)
    have up: "(Q1 @ w @ QUOT # R @ NUL # rest)[length Q1 + length w := NUL] = (Q1 @ w @ [NUL]) @ R @ NUL # rest"
      using list_update_length [of "Q1 @ w" QUOT "R @ NUL # rest" NUL] by simp
    have sk1: "skip_blanks (P @ g @ enc_arg a @ R @ NUL # rest) (length P) len = Some (Q1 @ w @ QUOT # R @ NUL # rest, length Q)"
      using sk Quoted by (simp add: Q_def Q1_def)
    have r1: "rd (Q1 @ w @ QUOT # R @ NUL # rest) (length Q) = Some QUOT" by (simp add: rd_def Q1_def nth_append)
    have q1: "length Q + 1 = length Q1" by (simp add: Q1_def)
    have "split_loop (P @ g @ enc_arg a @ R @ NUL # rest) (length P) argv len
        = split_loop ((Q1 @ w @ [NUL]) @ R @ NUL # rest) (length (Q1 @ w @ [NUL])) (argv @ [length Q1]) len"
      unfolding split_loop.simps [of "P @ g @ enc_arg a @ R @ NUL # rest"] sk1 option.case prod.case r1 q1 qe up
      using lt n ll by simp
    moreover have "ctxt (Q1 @ w @ [NUL]) (length Q1) = w" using w(1) ctxt_NUL [of "length Q1" "Q1 @ w" "[]"] by (simp add: ctxt_end)
    ultimately show ?thesis
      using cQ [of "QUOT # w @ [NUL]"] Quoted
      by (intro exI [of _ "Q1 @ w @ [NUL]"] exI [of _ "length Q1"]) (simp add: lQ Q1_def)
  qed
qed

lemma split_loop_args:
  "args_ok as \<Longrightarrow> gap_ok tg \<Longrightarrow> length argv + length as \<le> FINSH_ARG_MAX \<Longrightarrow> \<forall>i\<in>set argv. i \<le> length P \<Longrightarrow>
    len = length P + length (enc_args as @ tg) \<Longrightarrow>
    \<exists>P' argv'. split_loop (P @ enc_args as @ tg @ NUL # rest) (length P) argv len = Some (P' @ NUL # rest, argv')
      \<and> length P' = len \<and> (\<forall>i\<in>set argv'. i \<le> length P') \<and> map (ctxt P') argv' = map (ctxt P) argv @ map (arg_text \<circ> snd) as"
proof (induction as arbitrary: P argv)
  case Nil
  then obtain P' where "split_loop (P @ tg @ NUL # rest) (length P) argv len = Some (P' @ NUL # rest, argv)" "length P' = len"
    "map (ctxt P') argv = map (ctxt P) argv"
    using split_loop_last [of tg argv P len rest] by auto
  then show ?case using Nil by auto
next
  case (Cons ga as)
  obtain g a where ga: "ga = (g, a)" by fastforce
  have ok: "gap_ok g" "g \<noteq> []" "arg_ok a" "args_ok as" using Cons.prems(1) by (simp_all add: ga)
  have "\<exists>P1 i. length P1 = length P + length g + length (enc_arg a) \<and> i \<le> length P1 \<and> ctxt P1 i = arg_text a
    \<and> map (ctxt P1) argv = map (ctxt P) argv
    \<and> split_loop (P @ g @ enc_arg a @ (enc_args as @ tg) @ NUL # rest) (length P) argv len
      = split_loop (P1 @ (enc_args as @ tg) @ NUL # rest) (length P1) (argv @ [i]) len"
    by (rule split_loop_arg [OF ok(1) _ ok(3) enc_args_start [OF ok(4) Cons.prems(2)]])
      (use ok Cons.prems in \<open>simp_all add: ga\<close>)
  then obtain P1 i where p: "length P1 = length P + length g + length (enc_arg a)" "i \<le> length P1" "ctxt P1 i = arg_text a"
    "map (ctxt P1) argv = map (ctxt P) argv"
    "split_loop (P @ g @ enc_arg a @ (enc_args as @ tg) @ NUL # rest) (length P) argv len
      = split_loop (P1 @ (enc_args as @ tg) @ NUL # rest) (length P1) (argv @ [i]) len"
    by blast
  have "\<exists>P' argv'. split_loop (P1 @ enc_args as @ tg @ NUL # rest) (length P1) (argv @ [i]) len = Some (P' @ NUL # rest, argv')
      \<and> length P' = len \<and> (\<forall>i\<in>set argv'. i \<le> length P') \<and> map (ctxt P') argv' = map (ctxt P1) (argv @ [i]) @ map (arg_text \<circ> snd) as"
    by (rule Cons.IH) (use Cons.prems ok p in \<open>auto simp: ga\<close>)
  then obtain P' argv' where q: "split_loop (P1 @ enc_args as @ tg @ NUL # rest) (length P1) (argv @ [i]) len = Some (P' @ NUL # rest, argv')"
      "length P' = len" "\<forall>i\<in>set argv'. i \<le> length P'" "map (ctxt P') argv' = map (ctxt P1) (argv @ [i]) @ map (arg_text \<circ> snd) as"
    by blast
  have "split_loop (P @ enc_args (ga # as) @ tg @ NUL # rest) (length P) argv len = Some (P' @ NUL # rest, argv')"
    using p(5) q(1) by (simp add: ga)
  moreover have "map (ctxt P') argv' = map (ctxt P) argv @ map (arg_text \<circ> snd) (ga # as)"
    using p(3,4) q(4) by (simp add: ga)
  ultimately show ?case using q(2,3) by blast
qed


lemma msh_split_spec:
  assumes a: "gap_ok g" "arg_ok a" "args_ok as" "gap_ok tg" and n: "length as < FINSH_ARG_MAX"
    and line: "line = g @ enc_arg a @ enc_args as @ tg"
  shows "\<exists>buf' argv. msh_split (line @ NUL # rest) (length line) = Some (buf', argv) \<and> map (cstr buf') argv = arg_text a # map (arg_text \<circ> snd) as"
proof -
  have "length line = length [] + length g + length (enc_arg a) + length (enc_args as @ tg)" by (simp add: line)
  from split_loop_arg [where P = "[]" and argv = "[]" and rest = rest, OF a(1) _ a(2) enc_args_start [OF a(3,4)] _ this]
  obtain P i where p: "length P = length g + length (enc_arg a)" "i \<le> length P" "ctxt P i = arg_text a"
    "split_loop (line @ NUL # rest) 0 [] (length line) = split_loop (P @ enc_args as @ tg @ NUL # rest) (length P) [i] (length line)"
    using n by (auto simp: line)
  obtain P' argv' where q: "split_loop (P @ enc_args as @ tg @ NUL # rest) (length P) [i] (length line) = Some (P' @ NUL # rest, argv')"
    "\<forall>i\<in>set argv'. i \<le> length P'" "map (ctxt P') argv' = map (ctxt P) [i] @ map (arg_text \<circ> snd) as"
    using split_loop_args [OF a(3,4), of "[i]" P "length line" rest] n p(1,2) by (auto simp: line)
  have "map (cstr (P' @ NUL # rest)) argv' = map (ctxt P') argv'"
    using q(2) by (intro map_cong refl cstr_ctxt) blast
  then show ?thesis using p(3,4) q(1,3) by (simp add: msh_split_def)
qed

text \<open>The command is found by the whole of its name.\<close>

lemma strncmp_name:
  "NUL \<notin> set a \<Longrightarrow> NUL \<notin> set b \<Longrightarrow> strncmp_eq b (a @ X) (length a) \<and> char_at (drop (length a) b) = NUL \<longleftrightarrow> b = a"
proof (induction a arbitrary: b)
  case Nil
  then show ?case by (cases b) (auto simp: char_at_def)
next
  case (Cons c a)
  then show ?case by (cases b) (auto simp: char_at_def)
qed

lemma msh_get_cmd_spec:
  assumes "NUL \<notin> set name" "\<forall>(m, f)\<in>set tab. NUL \<notin> set m"
  shows "msh_get_cmd tab (name @ X) (length name) = map_option (Pair name) (map_of tab name)"
  using assms(2)
proof (induction tab)
  case (Cons mf tab)
  then show ?case using strncmp_name [OF assms(1), of "fst mf" X] by (cases mf) auto
qed simp

lemma skip_front_gap: "gap_ok g \<Longrightarrow> s \<noteq> [] \<Longrightarrow> \<not> blank (hd s) \<Longrightarrow> skip_front ((g @ s) @ X) (length g + length s) = (s @ X, length s)"
proof (induction g)
  case Nil
  then show ?case by (cases s) simp_all
next
  case (Cons c g)
  then show ?case by (simp add: gap_ok_def)
qed

lemma msh_exec_spec:
  assumes a: "gap_ok g" "arg_ok (Plain name)" "args_ok as" "gap_ok tg" and n: "length as < FINSH_ARG_MAX"
    and t: "\<forall>(m, f)\<in>set tab. NUL \<notin> set m" "map_of tab name = Some func"
    and line: "line = g @ name @ enc_args as @ tg"
  shows "msh_exec tab script (line @ NUL # rest) (length line)
    = Some (func (name # map (arg_text \<circ> snd) as), Some (name, name # map (arg_text \<circ> snd) as))"
proof -
  define s where "s = name @ enc_args as @ tg"
  have nm: "name \<noteq> []" "NUL \<notin> set name" "\<forall>c\<in>set name. \<not> blank c" using a(2) by auto
  have sk: "skip_front (line @ NUL # rest) (length line) = (s @ NUL # rest, length s)"
    using skip_front_gap [OF a(1), of s "NUL # rest"] nm by (cases name) (simp_all add: s_def line)
  have we: "word_end (s @ NUL # rest) 0 (length s) = Some (length name)"
    using word_end_spec [OF enc_args_start [OF a(3,4)] nm(3), of "length s" "[]" rest] by (simp add: s_def)
  have gc: "msh_get_cmd tab (s @ NUL # rest) (length name) = Some (name, func)"
    using msh_get_cmd_spec [OF nm(2) t(1), of "enc_args as @ tg @ NUL # rest"] t(2) by (simp add: s_def)
  obtain buf' argv where sp: "msh_split (s @ NUL # rest) (length s) = Some (buf', argv)"
    "map (cstr buf') argv = name # map (arg_text \<circ> snd) as"
    using msh_split_spec [of "[]" "Plain name" as tg s rest] a n by (auto simp: s_def gap_ok_def)
  then have "argv \<noteq> []" by auto
  then have "msh_exec_cmd tab (s @ NUL # rest) (length s)
      = Some (0, func (name # map (arg_text \<circ> snd) as), Some (name, name # map (arg_text \<circ> snd) as), buf')"
    using we gc sp nm(1) by (simp add: msh_exec_cmd_def Let_def)
  moreover have "length s \<noteq> 0" using nm(1) by (simp add: s_def)
  ultimately show ?thesis unfolding msh_exec_def sk by simp
qed

subsection \<open>Common beginnings\<close>

lemma str_common_prefix: "prefix q a \<and> length q \<le> str_common a b \<longleftrightarrow> prefix q a \<and> prefix q b"
proof (induction q arbitrary: a b)
  case (Cons c q)
  then show ?case by (cases a; cases b) auto
qed simp

lemma prefix_take: "prefix q (take k n) \<longleftrightarrow> prefix q n \<and> length q \<le> k"
proof
  assume "prefix q (take k n)"
  then obtain zs where z: "take k n = q @ zs" by (auto simp: prefix_def)
  then have "n = q @ zs @ drop k n" by (metis append_take_drop_id append.assoc)
  moreover have "length (take k n) = length q + length zs" by (simp only: z length_append)
  ultimately show "prefix q n \<and> length q \<le> k" by (auto simp: prefix_def)
next
  assume "prefix q n \<and> length q \<le> k"
  then show "prefix q (take k n)" by (auto simp: prefix_def)
qed

lemma strncmp_prefix: "NUL \<notin> set p \<Longrightarrow> NUL \<notin> set c \<Longrightarrow> strncmp_eq p c (length p) \<longleftrightarrow> prefix p c"
proof (induction p arbitrary: c)
  case (Cons a p)
  then show ?case by (cases c) (auto simp: char_at_def)
qed simp

definition candidates :: "syscall list \<Rightarrow> string \<Rightarrow> string set" where
  "candidates tab p = {c \<in> fst ` set tab. prefix p c}"

lemma complete_loop_spec:
  assumes p: "p \<noteq> []" "NUL \<notin> set p"
  shows "\<forall>(m, f)\<in>set tab. NUL \<notin> set m \<Longrightarrow> prefix p n \<Longrightarrow> \<forall>q. prefix q (take m n) \<longleftrightarrow> (\<forall>c\<in>C. prefix q c) \<Longrightarrow> \<forall>c\<in>C. prefix p c \<Longrightarrow>
    m \<noteq> 0 \<Longrightarrow> \<exists>m'. complete_loop tab p (Some n) m = (Some n, m') \<and> (\<forall>q. prefix q (take m' n) \<longleftrightarrow> (\<forall>c\<in>C \<union> candidates tab p. prefix q c))"
proof (induction tab arbitrary: m C)
  case Nil
  then show ?case by (simp add: candidates_def)
next
  case (Cons cf tab)
  obtain c f where cf: "cf = (c, f)" by fastforce
  have c: "NUL \<notin> set c" using Cons.prems(1) by (simp add: cf)
  show ?case
  proof (cases "prefix p c")
    case True
    define m1 where "m1 = (if str_common n c < m then str_common n c else m)"
    have m1: "\<forall>q. prefix q (take m1 n) \<longleftrightarrow> (\<forall>x\<in>insert c C. prefix q x)"
    proof
      fix q
      have "prefix q (take m1 n) \<longleftrightarrow> prefix q (take m n) \<and> prefix q n \<and> length q \<le> str_common n c"
        by (auto simp: m1_def prefix_take)
      also have "\<dots> \<longleftrightarrow> prefix q (take m n) \<and> prefix q c"
        using str_common_prefix [of q n c] by (auto simp: prefix_take)
      finally show "prefix q (take m1 n) \<longleftrightarrow> (\<forall>x\<in>insert c C. prefix q x)" using Cons.prems(3) by auto
    qed
    have "prefix p (take m1 n)" using m1 True Cons.prems(4) by simp
    then have "m1 \<noteq> 0" using p(1) by (cases m1) auto
    then obtain m' where "complete_loop tab p (Some n) m1 = (Some n, m')"
      "\<forall>q. prefix q (take m' n) \<longleftrightarrow> (\<forall>x\<in>insert c C \<union> candidates tab p. prefix q x)"
      using Cons.IH [of m1 "insert c C"] Cons.prems m1 True by auto
    moreover have "candidates (cf # tab) p = insert c (candidates tab p)" using True by (auto simp: candidates_def cf)
    ultimately show ?thesis
      using True strncmp_prefix [OF p(2) c] Cons.prems(5) by (simp add: cf m1_def)
  next
    case False
    then have "candidates (cf # tab) p = candidates tab p" by (auto simp: candidates_def cf)
    then show ?thesis
      using False strncmp_prefix [OF p(2) c] Cons.IH [of m C] Cons.prems by (simp add: cf)
  qed
qed

text \<open>The whole loop: nothing without a candidate, else the longest beginning that all of them share.\<close>

lemma complete_loop_result:
  assumes p: "p \<noteq> []" "NUL \<notin> set p"
  shows "\<forall>(m, f)\<in>set tab. NUL \<notin> set m \<Longrightarrow> (if candidates tab p = {} then complete_loop tab p None 0 = (None, 0)
    else \<exists>n m. complete_loop tab p None 0 = (Some n, m) \<and> (\<forall>q. prefix q (take m n) \<longleftrightarrow> (\<forall>c\<in>candidates tab p. prefix q c)))"
proof (induction tab)
  case Nil
  then show ?case by (simp add: candidates_def)
next
  case (Cons cf tab)
  obtain c f where cf: "cf = (c, f)" by fastforce
  have c: "NUL \<notin> set c" using Cons.prems by (simp add: cf)
  show ?case
  proof (cases "prefix p c")
    case True
    have sc: "str_common c c = length c" by (induction c) simp_all
    have "\<exists>m'. complete_loop tab p (Some c) (length c) = (Some c, m')
        \<and> (\<forall>q. prefix q (take m' c) \<longleftrightarrow> (\<forall>x\<in>{c} \<union> candidates tab p. prefix q x))"
      by (rule complete_loop_spec [OF p]) (use Cons.prems True p(1) in auto)
    moreover have "candidates (cf # tab) p = insert c (candidates tab p)" using True by (auto simp: candidates_def cf)
    ultimately show ?thesis using True strncmp_prefix [OF p(2) c] sc by (simp add: cf) blast
  next
    case False
    then have "candidates (cf # tab) p = candidates tab p" by (auto simp: candidates_def cf)
    then show ?thesis using False strncmp_prefix [OF p(2) c] Cons by (simp add: cf)
  qed
qed


text \<open>
  C26 (msh_runs_command). A line with a command of the table, blanks of any number, and up to 9 arguments, each plain or in quotes, runs that command with
  exactly these arguments, behind its name; blanks in quotes belong to the argument.
\<close>

theorem msh_runs_command:
  assumes "gap_ok g" "arg_ok (Plain name)" "args_ok as" "gap_ok tg" and "length as < FINSH_ARG_MAX"
    and "\<forall>(m, f)\<in>set tab. NUL \<notin> set m" "map_of tab name = Some func"
    and "line = g @ name @ enc_args as @ tg"
  shows "msh_exec tab script (line @ NUL # rest) (length line)
    = Some (func (name # map (arg_text \<circ> snd) as), Some (name, name # map (arg_text \<circ> snd) as))"
  by (rule msh_exec_spec [OF assms])

lemma msh_runs_command_witness:
  "msh_exec [(''ls'', \<lambda>args. 1), (''echo'', \<lambda>args. int (length args))] (\<lambda>_ _. - 1) (''  echo '' @ [QUOT] @ ''a b'' @ [QUOT] @ '' c '' @ [NUL]) 15
    = Some (3, Some (''echo'', [''echo'', ''a b'', ''c'']))"
proof -
  have ok: "gap_ok ''  ''" "arg_ok (Plain ''echo'')" "args_ok [('' '', Quoted ''a b''), ('' '', Plain ''c'')]" "gap_ok '' ''"
    by (auto simp: gap_ok_def blank_def)
  define l where "l = ''  echo '' @ [QUOT] @ ''a b'' @ [QUOT] @ '' c ''"
  have l: "l = ''  '' @ ''echo'' @ enc_args [('' '', Quoted ''a b''), ('' '', Plain ''c'')] @ '' ''" by (simp add: l_def)
  have len: "length l = 15" by (simp add: l_def)
  have "msh_exec [(''ls'', \<lambda>args. 1), (''echo'', \<lambda>args. int (length args))] (\<lambda>_ _. - 1) (l @ NUL # []) (length l)
    = Some (int (length (''echo'' # map (arg_text \<circ> snd) [('' '', Quoted ''a b''), ('' '', Plain ''c'')])),
        Some (''echo'', ''echo'' # map (arg_text \<circ> snd) [('' '', Quoted ''a b''), ('' '', Plain ''c'')]))"
    by (rule msh_runs_command [OF ok _ _ _ l]) (simp_all add: FINSH_ARG_MAX_def)
  from this [unfolded len] show ?thesis by (simp add: l_def)
qed

end
