(* ===== verification/Shell.thy ===== *)
theory Shell
  imports Msh
begin

text \<open>
  The line editor of the shell (\<open>components/finsh/shell.c\<close>): one character of the console after the other, with escape
  sequences for the arrows, a history of the last lines and the completion of names. What is written to the
  console is left out. A step yields what was run. The second half states the editor as a text with a cursor and a list of lines.
\<close>

definition FINSH_CMD_SIZE :: nat where "FINSH_CMD_SIZE = 80"
definition FINSH_HISTORY_LINES :: nat where "FINSH_HISTORY_LINES = 5"

datatype input_stat = WAIT_NORMAL | WAIT_SPEC_KEY | WAIT_FUNC_KEY

record finsh_shell =
  stat :: input_stat
  echo_mode :: bool
  prompt_mode :: bool
  current_history :: u16
  history_count :: u16
  cmd_history :: "string list"
  line :: string
  line_position :: u16
  line_curpos :: u16

text \<open>\<open>rt_calloc\<close> and the settings of the start.\<close>

definition finsh_system_init :: finsh_shell where
  "finsh_system_init = \<lparr>stat = WAIT_NORMAL, echo_mode = True, prompt_mode = True, current_history = 0, history_count = 0,
     cmd_history = replicate FINSH_HISTORY_LINES (replicate FINSH_CMD_SIZE NUL), line = replicate (FINSH_CMD_SIZE + 1) NUL,
     line_position = 0, line_curpos = 0\<rparr>"

definition finsh_set_echo :: "u32 \<Rightarrow> finsh_shell \<Rightarrow> finsh_shell" where
  "finsh_set_echo echo s = s\<lparr>echo_mode := (echo AND 1 \<noteq> 0)\<rparr>"

definition finsh_set_prompt_mode :: "u32 \<Rightarrow> finsh_shell \<Rightarrow> finsh_shell" where
  "finsh_set_prompt_mode m s = s\<lparr>prompt_mode := (m AND 1 \<noteq> 0)\<rparr>"

subsection \<open>The history\<close>

definition row :: "nat \<Rightarrow> finsh_shell \<Rightarrow> string option" where
  "row i s = (if i < FINSH_HISTORY_LINES then Some (cmd_history s ! i) else None)"

text \<open>The row that the line is copied into: \<open>line_position\<close> characters over zeros.\<close>

definition new_row :: "finsh_shell \<Rightarrow> string option" where
  "new_row s = (if unat (line_position s) \<le> FINSH_CMD_SIZE
     then Some (take (unat (line_position s)) (line s) @ replicate (FINSH_CMD_SIZE - unat (line_position s)) NUL) else None)"

definition same_line :: "string \<Rightarrow> finsh_shell \<Rightarrow> bool" where
  "same_line r s = (r = take FINSH_CMD_SIZE (line s))"

definition shell_push_history :: "finsh_shell \<Rightarrow> finsh_shell option" where
  "shell_push_history s = do {
     s1 \<leftarrow> (if line_position s \<noteq> 0 then
        (if unat (history_count s) \<ge> FINSH_HISTORY_LINES then do {
           r \<leftarrow> row (FINSH_HISTORY_LINES - 1) s;
           (if \<not> same_line r s then do {
              n \<leftarrow> new_row s;
              Some (s\<lparr>cmd_history := tl (cmd_history s) @ [n], history_count := word_of_nat FINSH_HISTORY_LINES\<rparr>)
            } else Some s)
         }
         else do {
           fresh \<leftarrow> (if history_count s = 0 then Some True else do {
               r \<leftarrow> row (unat (history_count s) - 1) s; Some (\<not> same_line r s) });
           (if fresh then do {
              n \<leftarrow> new_row s;
              Some (s\<lparr>cmd_history := (cmd_history s)[unat (history_count s) := n], history_count := history_count s + 1\<rparr>)
            } else Some s)
         })
      else Some s);
     Some (s1\<lparr>current_history := history_count s1\<rparr>)
   }"

text \<open>A line of the history is copied into the line, whose last character stays.\<close>

definition load_history :: "finsh_shell \<Rightarrow> finsh_shell option" where
  "load_history s = do {
     r \<leftarrow> row (unat (current_history s)) s;
     let line1 = r @ drop FINSH_CMD_SIZE (line s);
     let n = word_of_nat (length (cstr line1 0));
     Some (s\<lparr>line := line1, line_curpos := n, line_position := n\<rparr>)
   }"

definition key_up :: "finsh_shell \<Rightarrow> finsh_shell option" where
  "key_up s = (if current_history s > 0 then load_history (s\<lparr>current_history := current_history s - 1\<rparr>)
     else Some (s\<lparr>current_history := 0\<rparr>))"

definition key_down :: "finsh_shell \<Rightarrow> finsh_shell option" where
  "key_down s = (if uint (current_history s) < uint (history_count s) - 1
     then load_history (s\<lparr>current_history := current_history s + 1\<rparr>)
     else if history_count s \<noteq> 0 then load_history (s\<lparr>current_history := history_count s - 1\<rparr>)
     else Some s)"

subsection \<open>The line\<close>

definition key_left :: "finsh_shell \<Rightarrow> finsh_shell" where
  "key_left s = (if line_curpos s \<noteq> 0 then s\<lparr>line_curpos := line_curpos s - 1\<rparr> else s)"

definition key_right :: "finsh_shell \<Rightarrow> finsh_shell option" where
  "key_right s = (if line_curpos s < line_position s then do {
       _ \<leftarrow> rd (line s) (unat (line_curpos s));
       Some (s\<lparr>line_curpos := line_curpos s + 1\<rparr>)
     } else Some s)"

definition memmove :: "nat \<Rightarrow> nat \<Rightarrow> nat \<Rightarrow> string \<Rightarrow> string option" where
  "memmove dst src n buf = (if dst + n \<le> length buf \<and> src + n \<le> length buf
     then Some (take dst buf @ take n (drop src buf) @ drop (dst + n) buf) else None)"

definition backspace :: "finsh_shell \<Rightarrow> finsh_shell option" where
  "backspace s = (if line_curpos s = 0 then Some s
     else do {
       let s1 = s\<lparr>line_position := line_position s - 1, line_curpos := line_curpos s - 1\<rparr>;
       let p = unat (line_position s1); let c = unat (line_curpos s1);
       line1 \<leftarrow> (if line_position s1 > line_curpos s1 then memmove c (c + 1) (p - c) (line s1) else Some (line s1));
       line2 \<leftarrow> wr p NUL line1;
       Some (s1\<lparr>line := line2\<rparr>)
     })"

definition insert_char :: "char \<Rightarrow> finsh_shell \<Rightarrow> finsh_shell option" where
  "insert_char ch s0 = do {
     let s = (if unat (line_position s0) \<ge> FINSH_CMD_SIZE then s0\<lparr>line_position := 0\<rparr> else s0);
     let p = unat (line_position s); let c = unat (line_curpos s);
     line1 \<leftarrow> (if line_curpos s < line_position s then do {
          l \<leftarrow> memmove (c + 1) c (p - c) (line s);
          wr c ch l
        }
        else wr p ch (line s));
     let s1 = s\<lparr>line := line1, line_position := line_position s + 1, line_curpos := line_curpos s + 1\<rparr>;
     Some (if unat (line_position s1) \<ge> FINSH_CMD_SIZE then s1\<lparr>line_position := 0, line_curpos := 0\<rparr> else s1)
   }"

definition shell_auto_complete :: "syscall list \<Rightarrow> (string \<Rightarrow> string option) \<Rightarrow> finsh_shell \<Rightarrow> finsh_shell option" where
  "shell_auto_complete tab path s = do {
     line1 \<leftarrow> msh_auto_complete tab path (line s);
     let n = word_of_nat (length (cstr line1 0));
     Some (s\<lparr>line := line1, line_curpos := n, line_position := n\<rparr>)
   }"

definition key_enter :: "syscall list \<Rightarrow> (string \<Rightarrow> nat \<Rightarrow> int) \<Rightarrow> finsh_shell \<Rightarrow> (finsh_shell \<times> ran) option" where
  "key_enter tab script s = do {
     s1 \<leftarrow> shell_push_history s;
     (_, rn) \<leftarrow> msh_exec tab script (line s1) (unat (line_position s1));
     Some (s1\<lparr>line := replicate (FINSH_CMD_SIZE + 1) NUL, line_curpos := 0, line_position := 0\<rparr>, rn)
   }"

text \<open>The files and programs behind the shell: the commands, scripts and the completion of file names.\<close>

type_synonym shell_env = "syscall list \<times> (string \<Rightarrow> nat \<Rightarrow> int) \<times> (string \<Rightarrow> string option)"

definition normal_key :: "shell_env \<Rightarrow> char \<Rightarrow> finsh_shell \<Rightarrow> (finsh_shell \<times> ran) option" where
  "normal_key env ch s = (case env of (tab, script, path) \<Rightarrow>
     (if ch = NUL \<or> ch = CHR 0xFF then Some (s, None)
      else if ch = CHR 0x09 then do { s1 \<leftarrow> shell_auto_complete tab path s; Some (s1, None) }
      else if ch = CHR 0x7f \<or> ch = CHR 0x08 then do { s1 \<leftarrow> backspace s; Some (s1, None) }
      else if ch = CHR 0x0D \<or> ch = CHR 0x0A then key_enter tab script s
      else do { s1 \<leftarrow> insert_char ch s; Some (s1, None) }))"

text \<open>One turn of the loop; \<open>None\<close> for the character is a failed read.\<close>

definition finsh_input :: "shell_env \<Rightarrow> char option \<Rightarrow> finsh_shell \<Rightarrow> (finsh_shell \<times> ran) option" where
  "finsh_input env input s = (case input of
     None \<Rightarrow> Some (s, None)
   | Some ch \<Rightarrow>
       (if ch = CHR 0x1b then Some (s\<lparr>stat := WAIT_SPEC_KEY\<rparr>, None)
        else if stat s = WAIT_SPEC_KEY then
          (if ch = CHR 0x5b then Some (s\<lparr>stat := WAIT_FUNC_KEY\<rparr>, None) else normal_key env ch (s\<lparr>stat := WAIT_NORMAL\<rparr>))
        else if stat s = WAIT_FUNC_KEY then
          (let s1 = s\<lparr>stat := WAIT_NORMAL\<rparr> in
           if ch = CHR 0x41 then do { s2 \<leftarrow> key_up s1; Some (s2, None) }
           else if ch = CHR 0x42 then do { s2 \<leftarrow> key_down s1; Some (s2, None) }
           else if ch = CHR 0x44 then Some (key_left s1, None)
           else if ch = CHR 0x43 then do { s2 \<leftarrow> key_right s1; Some (s2, None) }
           else normal_key env ch s1)
        else normal_key env ch s))"

fun finsh_thread_entry :: "shell_env \<Rightarrow> char option list \<Rightarrow> finsh_shell \<Rightarrow> (finsh_shell \<times> ran list) option" where
  "finsh_thread_entry env [] s = Some (s, [])"
| "finsh_thread_entry env (input # inputs) s = do {
     (s1, rn) \<leftarrow> finsh_input env input s;
     (s2, rans) \<leftarrow> finsh_thread_entry env inputs s1;
     Some (s2, rn # rans)
   }"

subsection \<open>An editor\<close>

text \<open>
  A text with a cursor, the lines run before (the newest last, at most 5, none twice in a row) and the place in
  them. \<open>None\<close> marks what the editor does not promise: a text of more than 79 characters.
\<close>

record editor =
  e_stat :: input_stat
  e_text :: string
  e_cur :: nat
  e_hist :: "string list"
  e_idx :: nat

definition e_remember :: "editor \<Rightarrow> editor" where
  "e_remember e = (let h = (if e_text e = [] \<or> (e_hist e \<noteq> [] \<and> last (e_hist e) = e_text e) then e_hist e
       else (if length (e_hist e) \<ge> 5 then tl (e_hist e) else e_hist e) @ [e_text e])
     in e\<lparr>e_hist := h, e_idx := length h\<rparr>)"

definition e_recall :: "nat \<Rightarrow> editor \<Rightarrow> editor" where
  "e_recall i e = e\<lparr>e_idx := i, e_text := e_hist e ! i, e_cur := length (e_hist e ! i)\<rparr>"

definition complete_text :: "syscall list \<Rightarrow> (string \<Rightarrow> string option) \<Rightarrow> string \<Rightarrow> string option" where
  "complete_text tab path p = (if p = [] then Some p
     else do {
       p1 \<leftarrow> (case last_space p of
           None \<Rightarrow> Some p
         | Some i \<Rightarrow> (case path (drop (i + 1) p) of
             None \<Rightarrow> Some p
           | Some s \<Rightarrow> (if prefix (drop (i + 1) p) s \<and> NUL \<notin> set s then Some (take (i + 1) p @ s) else None)));
       (if length p1 \<ge> FINSH_CMD_SIZE then None else
        case complete_loop tab p1 None 0 of
          (None, _) \<Rightarrow> Some p1
        | (Some name, m) \<Rightarrow> (if m < FINSH_CMD_SIZE then Some (take m name) else None))
     })"

definition text_at :: "string \<Rightarrow> string" where
  "text_at t = t @ replicate (FINSH_CMD_SIZE + 1 - length t) NUL"

definition e_normal :: "shell_env \<Rightarrow> char \<Rightarrow> editor \<Rightarrow> (editor \<times> ran) option" where
  "e_normal env ch e = (case env of (tab, script, path) \<Rightarrow>
     (if ch = NUL \<or> ch = CHR 0xFF then Some (e, None)
      else if ch = CHR 0x09 then do { t \<leftarrow> complete_text tab path (e_text e); Some (e\<lparr>e_text := t, e_cur := length t\<rparr>, None) }
      else if ch = CHR 0x7f \<or> ch = CHR 0x08 then
        Some (if e_cur e = 0 then e
          else e\<lparr>e_text := take (e_cur e - 1) (e_text e) @ drop (e_cur e) (e_text e), e_cur := e_cur e - 1\<rparr>, None)
      else if ch = CHR 0x0D \<or> ch = CHR 0x0A then do {
        (_, rn) \<leftarrow> msh_exec tab script (text_at (e_text e)) (length (e_text e));
        Some ((e_remember e)\<lparr>e_text := [], e_cur := 0\<rparr>, rn)
      }
      else if length (e_text e) \<ge> 79 then None
      else Some (e\<lparr>e_text := take (e_cur e) (e_text e) @ ch # drop (e_cur e) (e_text e), e_cur := e_cur e + 1\<rparr>, None)))"

definition e_input :: "shell_env \<Rightarrow> char option \<Rightarrow> editor \<Rightarrow> (editor \<times> ran) option" where
  "e_input env input e = (case input of
     None \<Rightarrow> Some (e, None)
   | Some ch \<Rightarrow>
       (if ch = CHR 0x1b then Some (e\<lparr>e_stat := WAIT_SPEC_KEY\<rparr>, None)
        else case e_stat e of
          WAIT_SPEC_KEY \<Rightarrow> (if ch = CHR 0x5b then Some (e\<lparr>e_stat := WAIT_FUNC_KEY\<rparr>, None) else e_normal env ch (e\<lparr>e_stat := WAIT_NORMAL\<rparr>))
        | WAIT_FUNC_KEY \<Rightarrow>
            (let e1 = e\<lparr>e_stat := WAIT_NORMAL\<rparr> in
             if ch = CHR 0x41 then Some (if e_idx e1 = 0 then e1 else e_recall (e_idx e1 - 1) e1, None)
             else if ch = CHR 0x42 then
               Some (if e_hist e1 = [] then e1 else e_recall (min (e_idx e1 + 1) (length (e_hist e1) - 1)) e1, None)
             else if ch = CHR 0x44 then Some (e1\<lparr>e_cur := e_cur e1 - 1\<rparr>, None)
             else if ch = CHR 0x43 then Some (e1\<lparr>e_cur := min (e_cur e1 + 1) (length (e_text e1))\<rparr>, None)
             else e_normal env ch e1)
        | WAIT_NORMAL \<Rightarrow> e_normal env ch e))"

fun e_run :: "shell_env \<Rightarrow> char option list \<Rightarrow> editor \<Rightarrow> (editor \<times> ran list) option" where
  "e_run env [] e = Some (e, [])"
| "e_run env (input # inputs) e = do {
     (e1, rn) \<leftarrow> e_input env input e;
     (e2, rans) \<leftarrow> e_run env inputs e1;
     Some (e2, rn # rans)
   }"

definition e_start :: editor where
  "e_start = \<lparr>e_stat = WAIT_NORMAL, e_text = [], e_cur = 0, e_hist = [], e_idx = 0\<rparr>"


subsection \<open>The shell is such an editor\<close>

definition hrow :: "string \<Rightarrow> string" where
  "hrow h = h @ replicate (FINSH_CMD_SIZE - length h) NUL"

definition hist_ok :: "string list \<Rightarrow> bool" where
  "hist_ok hist = (length hist \<le> 5 \<and> (\<forall>h\<in>set hist. length h < FINSH_CMD_SIZE \<and> NUL \<notin> set h))"

definition shell_rel :: "finsh_shell \<Rightarrow> editor \<Rightarrow> bool" where
  "shell_rel s e \<longleftrightarrow> stat s = e_stat e \<and> line s = text_at (e_text e) \<and> length (e_text e) < FINSH_CMD_SIZE \<and> NUL \<notin> set (e_text e)
     \<and> line_position s = word_of_nat (length (e_text e)) \<and> e_cur e \<le> length (e_text e) \<and> line_curpos s = word_of_nat (e_cur e)
     \<and> hist_ok (e_hist e) \<and> cmd_history s = map hrow (e_hist e) @ replicate (FINSH_HISTORY_LINES - length (e_hist e)) (hrow [])
     \<and> history_count s = word_of_nat (length (e_hist e)) \<and> e_idx e \<le> length (e_hist e) \<and> current_history s = word_of_nat (e_idx e)"

lemma unat16: "n < 65536 \<Longrightarrow> unat (word_of_nat n :: u16) = n"
  by (simp add: unat_of_nat)

lemma pos16: "n < 65536 \<Longrightarrow> (word_of_nat n :: u16) = 0 \<longleftrightarrow> n = 0"
  by (metis unat16 unat_eq_0 unsigned_0 word_of_nat_eq_0_iff of_nat_0)

lemma less16: "m < 65536 \<Longrightarrow> n < 65536 \<Longrightarrow> (word_of_nat m :: u16) < word_of_nat n \<longleftrightarrow> m < n"
  by (simp add: word_less_nat_alt unat16)

lemma dec16: "0 < n \<Longrightarrow> (word_of_nat n :: u16) - 1 = word_of_nat (n - 1)"
  by (simp add: of_nat_diff)

lemma cstr_text: "NUL \<notin> set t \<Longrightarrow> cstr (t @ replicate (Suc k) NUL) 0 = t"
  by (simp add: cstr_def takeWhile_NUL) (metis takeWhile_eq_all_conv)

lemma text_at_alt: "length t < FINSH_CMD_SIZE \<Longrightarrow> text_at t = t @ replicate (Suc (FINSH_CMD_SIZE - length t)) NUL"
  by (simp add: text_at_def Suc_diff_le)

lemma cstr_text_at: "length t < FINSH_CMD_SIZE \<Longrightarrow> NUL \<notin> set t \<Longrightarrow> cstr (text_at t) 0 = t"
  unfolding text_at_alt by (rule cstr_text)

lemma length_text_at: "length t < FINSH_CMD_SIZE \<Longrightarrow> length (text_at t) = 81"
  by (simp add: text_at_def FINSH_CMD_SIZE_def)

text \<open>Two padded texts are the same line only when the texts are.\<close>

lemma hrow_inj:
  assumes "NUL \<notin> set a" "NUL \<notin> set b" "length a < FINSH_CMD_SIZE" "length b < FINSH_CMD_SIZE"
  shows "hrow a = hrow b \<longleftrightarrow> a = b"
proof
  assume e: "hrow a = hrow b"
  have "cstr (hrow t) 0 = t" if "NUL \<notin> set t" "length t < FINSH_CMD_SIZE" for t
  proof -
    have "hrow t = t @ replicate (Suc (FINSH_CMD_SIZE - Suc (length t))) NUL" using that by (simp add: hrow_def Suc_diff_Suc)
    then show ?thesis using cstr_text [OF that(1)] by metis
  qed
  then show "a = b" using assms e by metis
qed simp

lemma take_text_at: "length t < FINSH_CMD_SIZE \<Longrightarrow> take FINSH_CMD_SIZE (text_at t) = hrow t"
  by (simp add: text_at_def hrow_def)

lemma load_history_rel:
  assumes r: "shell_rel s e" and i: "i < length (e_hist e)"
  shows "\<exists>s'. load_history (s\<lparr>current_history := word_of_nat i\<rparr>) = Some s' \<and> shell_rel s' (e_recall i e)"
proof -
  define h where "h = e_hist e ! i"
  have h: "length h < FINSH_CMD_SIZE" "NUL \<notin> set h" using r i by (auto simp: shell_rel_def hist_ok_def h_def)
  have i5: "i < FINSH_HISTORY_LINES" using r i by (simp add: shell_rel_def hist_ok_def FINSH_HISTORY_LINES_def)
  have "unat (word_of_nat i :: u16) = i" using i5 by (simp add: unat16 FINSH_HISTORY_LINES_def)
  then have "row (unat (word_of_nat i :: u16)) (s\<lparr>current_history := word_of_nat i\<rparr>) = Some (hrow h)"
    using r i i5 by (simp add: row_def shell_rel_def nth_append h_def)
  moreover have "drop FINSH_CMD_SIZE (line s) = [NUL]"
    using r by (simp add: shell_rel_def text_at_def)
  moreover have l: "hrow h @ [NUL] = text_at h" using h(1) by (simp add: hrow_def text_at_def Suc_diff_le replicate_append_same)
  ultimately have "load_history (s\<lparr>current_history := word_of_nat i\<rparr>) = Some (s\<lparr>current_history := word_of_nat i,
      line := text_at h, line_curpos := word_of_nat (length h), line_position := word_of_nat (length h)\<rparr>)"
    using cstr_text_at [OF h] by (simp add: load_history_def Let_def)
  moreover have "shell_rel (s\<lparr>current_history := word_of_nat i, line := text_at h, line_curpos := word_of_nat (length h),
      line_position := word_of_nat (length h)\<rparr>) (e_recall i e)"
  proof -
    note R = r [unfolded shell_rel_def]
    have "e_recall i e = e\<lparr>e_idx := i, e_text := h, e_cur := length h\<rparr>" by (simp add: e_recall_def h_def)
    then show ?thesis unfolding shell_rel_def using i h by (intro conjI) (simp_all add: R)
  qed
  ultimately show ?thesis by blast
qed

lemma key_up_rel:
  assumes r: "shell_rel s e"
  shows "\<exists>s'. key_up s = Some s' \<and> shell_rel s' (if e_idx e = 0 then e else e_recall (e_idx e - 1) e)"
proof -
  have i: "e_idx e \<le> 5" "current_history s = word_of_nat (e_idx e)" using r by (auto simp: shell_rel_def hist_ok_def)
  show ?thesis
  proof (cases "e_idx e = 0")
    case True
    then show ?thesis using r i by (simp add: key_up_def shell_rel_def)
  next
    case False
    then have "current_history s \<noteq> 0" "e_idx e - 1 < length (e_hist e)" using i r by (auto simp: pos16 shell_rel_def)
    moreover have "current_history s - 1 = word_of_nat (e_idx e - 1)" unfolding i(2) using False by (intro dec16) simp
    ultimately have "key_up s = load_history (s\<lparr>current_history := word_of_nat (e_idx e - 1)\<rparr>)"
      by (simp only: key_up_def word_neq_0_conv [symmetric] if_True not_False_eq_True)
    then show ?thesis using load_history_rel [OF r, of "e_idx e - 1"] False \<open>e_idx e - 1 < length (e_hist e)\<close> by simp
  qed
qed

lemma key_down_rel:
  assumes r: "shell_rel s e"
  shows "\<exists>s'. key_down s = Some s' \<and> shell_rel s' (if e_hist e = [] then e else e_recall (min (e_idx e + 1) (length (e_hist e) - 1)) e)"
proof -
  have i: "e_idx e \<le> 5" "length (e_hist e) \<le> 5" "current_history s = word_of_nat (e_idx e)" "history_count s = word_of_nat (length (e_hist e))"
    using r by (auto simp: shell_rel_def hist_ok_def)
  have u: "uint (current_history s) = int (e_idx e)" "uint (history_count s) = int (length (e_hist e))"
    using i unat16 [of "e_idx e"] unat16 [of "length (e_hist e)"] by (simp_all add: uint_nat)
  have hz: "history_count s = 0 \<longleftrightarrow> e_hist e = []" using i by (simp add: pos16)
  show ?thesis
  proof (cases "int (e_idx e) < int (length (e_hist e)) - 1")
    case True
    then have "e_idx e + 1 < length (e_hist e)" by linarith
    then show ?thesis using load_history_rel [OF r, of "e_idx e + 1"] True u i(3)
      by (auto simp: key_down_def min_def add.commute)
  next
    case False
    show ?thesis
    proof (cases "e_hist e = []")
      case True
      then show ?thesis using r u hz by (simp add: key_down_def)
    next
      case ne: False
      then have m: "min (e_idx e + 1) (length (e_hist e) - 1) = length (e_hist e) - 1" and l: "length (e_hist e) - 1 < length (e_hist e)"
        using False by auto
      have "history_count s - 1 = word_of_nat (length (e_hist e) - 1)" unfolding i(4) using ne by (intro dec16) simp
      then have "key_down s = load_history (s\<lparr>current_history := word_of_nat (length (e_hist e) - 1)\<rparr>)"
        using False ne u hz by (simp add: key_down_def)
      then show ?thesis using load_history_rel [OF r l] ne m by simp
    qed
  qed
qed

lemma key_left_rel:
  assumes r: "shell_rel s e"
  shows "shell_rel (key_left s) (e\<lparr>e_cur := e_cur e - 1\<rparr>)"
proof -
  have c: "e_cur e < 65536" using r by (simp add: shell_rel_def FINSH_CMD_SIZE_def)
  have l: "line_curpos s = word_of_nat (e_cur e)" using r by (simp add: shell_rel_def)
  show ?thesis
  proof (cases "e_cur e = 0")
    case True
    then show ?thesis using r l by (simp add: key_left_def shell_rel_def)
  next
    case False
    then have "key_left s = s\<lparr>line_curpos := word_of_nat (e_cur e - 1)\<rparr>"
      using c l pos16 [OF c] dec16 [of "e_cur e"] by (simp add: key_left_def del: of_nat_diff)
    moreover have "e_cur e - 1 \<le> length (e_text e)" using r by (simp add: shell_rel_def le_diff_conv)
    ultimately show ?thesis using r by (simp add: shell_rel_def)
  qed
qed

lemma key_right_rel:
  assumes r: "shell_rel s e"
  shows "\<exists>s'. key_right s = Some s' \<and> shell_rel s' (e\<lparr>e_cur := min (e_cur e + 1) (length (e_text e))\<rparr>)"
proof -
  have c: "e_cur e < 65536" "length (e_text e) < 65536" using r by (simp_all add: shell_rel_def FINSH_CMD_SIZE_def)
  show ?thesis
  proof (cases "e_cur e < length (e_text e)")
    case True
    then have "rd (line s) (unat (line_curpos s)) = Some (e_text e ! e_cur e)"
      using r c by (simp add: shell_rel_def rd_def text_at_def unat16 nth_append)
    then show ?thesis using r c True by (auto simp: key_right_def shell_rel_def less16 min_def add.commute)
  next
    case False
    then show ?thesis using r c by (auto simp: key_right_def shell_rel_def less16 min_def)
  qed
qed


lemma backspace_rel:
  assumes r: "shell_rel s e" and c: "0 < e_cur e"
  shows "\<exists>s'. backspace s = Some s' \<and> shell_rel s' (e\<lparr>e_text := take (e_cur e - 1) (e_text e) @ drop (e_cur e) (e_text e), e_cur := e_cur e - 1\<rparr>)"
proof -
  note R = r [unfolded shell_rel_def]
  define t where "t = take (e_cur e - 1) (e_text e) @ drop (e_cur e) (e_text e)"
  define n where "n = length (e_text e)"
  have n: "n < 80" "e_cur e \<le> n" "0 < n" using R c by (auto simp: n_def FINSH_CMD_SIZE_def)
  have lt: "length t = n - 1" "length t < FINSH_CMD_SIZE" using n c by (simp_all add: t_def n_def FINSH_CMD_SIZE_def)
  have nt: "NUL \<notin> set t" using R by (auto simp: t_def dest: in_set_takeD in_set_dropD)
  have w: "line_position s - 1 = word_of_nat (n - 1)" "line_curpos s - 1 = word_of_nat (e_cur e - 1)" "line_curpos s \<noteq> 0"
    using R dec16 [of n] dec16 [of "e_cur e"] n c pos16 [of "e_cur e"] by (simp_all add: n_def del: of_nat_diff)
  have u: "unat (line_position s - 1) = n - 1" "unat (line_curpos s - 1) = e_cur e - 1"
    "line_position s - 1 > line_curpos s - 1 \<longleftrightarrow> e_cur e < n"
    unfolding w using n c by (auto simp: unat16 less16 simp del: of_nat_diff)
  have l: "line s = text_at (e_text e)" using R by simp
  have "\<exists>line1. (if e_cur e < n then memmove (e_cur e - 1) (e_cur e - 1 + 1) (n - 1 - (e_cur e - 1)) (line s) else Some (line s)) = Some line1
      \<and> wr (n - 1) NUL line1 = Some (text_at t)"
  proof (cases "e_cur e < n")
    case True
    define k where "k = FINSH_CMD_SIZE + 1 - n"
    have k: "1 < k" using n by (simp add: k_def FINSH_CMD_SIZE_def)
    have lk: "line s = e_text e @ replicate k NUL" using l by (simp add: text_at_def k_def n_def)
    have "memmove (e_cur e - 1) (e_cur e - 1 + 1) (n - 1 - (e_cur e - 1)) (line s)
        = Some (take (e_cur e - 1) (line s) @ take (n - e_cur e) (drop (e_cur e) (line s)) @ drop (n - 1) (line s))"
      using n c k True by (simp add: memmove_def lk n_def [symmetric])
    also have "\<dots> = Some (t @ drop (n - 1) (line s))"
      using n c by (simp add: lk t_def n_def [symmetric])
    finally have m: "memmove (e_cur e - 1) (e_cur e - 1 + 1) (n - 1 - (e_cur e - 1)) (line s) = Some (t @ drop (n - 1) (line s))" .
    have "drop (n - 1) (line s) = e_text e ! (n - 1) # replicate k NUL"
      using n by (simp add: lk n_def [symmetric] Cons_nth_drop_Suc [symmetric])
    then have "wr (n - 1) NUL (t @ drop (n - 1) (line s)) = Some (t @ NUL # replicate k NUL)"
      using lt by (simp add: wr_def list_update_append)
    also have "\<dots> = Some (text_at t)"
    proof -
      have "FINSH_CMD_SIZE + 1 - length t = Suc k" using lt n by (simp add: k_def FINSH_CMD_SIZE_def)
      then show ?thesis by (simp only: text_at_def) simp
    qed
    finally show ?thesis using m True by simp
  next
    case False
    then have en: "e_cur e = n" using n by simp
    then have tt: "t = take (n - 1) (e_text e)" by (simp add: t_def n_def)
    have "text_at (e_text e) = t @ (e_text e ! (n - 1)) # replicate (FINSH_CMD_SIZE + 1 - n) NUL"
      using n by (simp add: text_at_def tt n_def [symmetric]) (metis One_nat_def Suc_pred append.assoc append_Cons append_Nil lessI n_def take_Suc_conv_app_nth take_all_iff order_refl)
    then have "wr (n - 1) NUL (line s) = Some (t @ NUL # replicate (FINSH_CMD_SIZE + 1 - n) NUL)"
      using lt l by (simp add: wr_def list_update_append)
    also have "\<dots> = Some (text_at t)"
    proof -
      have "FINSH_CMD_SIZE + 1 - length t = Suc (FINSH_CMD_SIZE + 1 - n)" using lt n by (simp add: FINSH_CMD_SIZE_def)
      then show ?thesis by (simp only: text_at_def) simp
    qed
    finally show ?thesis using False by simp
  qed
  then obtain line1 where line1: "(if e_cur e < n then memmove (e_cur e - 1) (e_cur e - 1 + 1) (n - 1 - (e_cur e - 1)) (line s) else Some (line s)) = Some line1"
    "wr (n - 1) NUL line1 = Some (text_at t)" by blast
  have "backspace s = Some (s\<lparr>line_position := word_of_nat (n - 1), line_curpos := word_of_nat (e_cur e - 1), line := text_at t\<rparr>)"
  proof -
    have u': "unat (word_of_nat (n - 1) :: u16) = n - 1" "unat (word_of_nat (e_cur e - 1) :: u16) = e_cur e - 1"
      "(word_of_nat (e_cur e - 1) :: u16) < word_of_nat (n - 1) \<longleftrightarrow> e_cur e < n"
      using u by (simp_all only: w)
    show ?thesis
      using line1 w(3) by (cases "e_cur e < n") (simp_all add: backspace_def Let_def w(1,2) u' del: of_nat_diff One_nat_def)
  qed
  moreover have "shell_rel (s\<lparr>line_position := word_of_nat (n - 1), line_curpos := word_of_nat (e_cur e - 1), line := text_at t\<rparr>)
      (e\<lparr>e_text := t, e_cur := e_cur e - 1\<rparr>)"
    unfolding shell_rel_def using lt nt n c by (intro conjI) (simp_all add: R del: of_nat_diff)
  ultimately show ?thesis unfolding t_def [symmetric] by blast
qed

lemma insert_char_rel:
  assumes r: "shell_rel s e" and n: "length (e_text e) < 79" and ch: "ch \<noteq> NUL"
  shows "\<exists>s'. insert_char ch s = Some s' \<and> shell_rel s' (e\<lparr>e_text := take (e_cur e) (e_text e) @ ch # drop (e_cur e) (e_text e), e_cur := e_cur e + 1\<rparr>)"
proof -
  note R = r [unfolded shell_rel_def]
  define t where "t = take (e_cur e) (e_text e) @ ch # drop (e_cur e) (e_text e)"
  define m where "m = length (e_text e)"
  define k where "k = FINSH_CMD_SIZE - m"
  have m: "m < 79" "e_cur e \<le> m" using R n by (simp_all add: m_def)
  have k: "1 < k" "FINSH_CMD_SIZE + 1 - m = Suc k" using m by (simp_all add: k_def FINSH_CMD_SIZE_def)
  have lt: "length t = m + 1" "length t < FINSH_CMD_SIZE" using m by (simp_all add: t_def m_def FINSH_CMD_SIZE_def)
  have nt: "NUL \<notin> set t" using R ch by (auto simp: t_def dest: in_set_takeD in_set_dropD)
  have lk: "line s = e_text e @ replicate (Suc k) NUL" using R k(2) by (simp add: text_at_def m_def)
  have tk: "text_at t = t @ replicate k NUL" using lt k(2) by (simp add: text_at_def)
  have u: "unat (line_position s) = m" "unat (line_curpos s) = e_cur e" "line_curpos s < line_position s \<longleftrightarrow> e_cur e < m"
    using R m by (simp_all add: m_def unat16 less16)
  have w: "line_position s + 1 = word_of_nat (m + 1)" "line_curpos s + 1 = word_of_nat (e_cur e + 1)"
    using R by (simp_all add: m_def)
  have um: "unat (word_of_nat (m + 1) :: u16) = m + 1" using m by (intro unat16) simp
  have "(if e_cur e < m then do { l \<leftarrow> memmove (e_cur e + 1) (e_cur e) (m - e_cur e) (line s); wr (e_cur e) ch l } else wr m ch (line s))
      = Some (text_at t)"
  proof (cases "e_cur e < m")
    case True
    have "memmove (e_cur e + 1) (e_cur e) (m - e_cur e) (line s)
        = Some (take (e_cur e + 1) (e_text e) @ drop (e_cur e) (e_text e) @ replicate k NUL)"
      using True k(1) by (simp add: memmove_def lk m_def [symmetric])
    also have "\<dots> = Some (take (e_cur e) (e_text e) @ e_text e ! e_cur e # drop (e_cur e) (e_text e) @ replicate k NUL)"
      using True by (simp add: m_def take_Suc_conv_app_nth)
    finally show ?thesis using True by (simp add: wr_def tk [unfolded t_def] t_def list_update_append m_def)
  next
    case False
    then have "e_cur e = m" using m by simp
    then have tt: "t = e_text e @ [ch]" by (simp add: t_def m_def)
    show ?thesis using False by (simp add: wr_def lk tk [unfolded tt] tt m_def list_update_append)
  qed
  moreover have "\<not> FINSH_CMD_SIZE \<le> m" "\<not> FINSH_CMD_SIZE \<le> m + 1" using m by (simp_all add: FINSH_CMD_SIZE_def)
  ultimately have "insert_char ch s = Some (s\<lparr>line := text_at t, line_position := word_of_nat (m + 1), line_curpos := word_of_nat (e_cur e + 1)\<rparr>)"
    by (cases "e_cur e < m") (simp_all add: insert_char_def Let_def u um [unfolded Suc_eq_plus1 [symmetric]] w del: of_nat_Suc of_nat_add)
  moreover have "shell_rel (s\<lparr>line := text_at t, line_position := word_of_nat (m + 1), line_curpos := word_of_nat (e_cur e + 1)\<rparr>)
      (e\<lparr>e_text := t, e_cur := e_cur e + 1\<rparr>)"
    unfolding shell_rel_def using lt nt m by (intro conjI) (simp_all add: R)
  ultimately show ?thesis unfolding t_def [symmetric] by blast
qed


lemma push_history_rel:
  assumes r: "shell_rel s e"
  shows "\<exists>s'. shell_push_history s = Some s' \<and> shell_rel s' (e_remember e)"
proof -
  note R = r [unfolded shell_rel_def]
  define t h where "t = e_text e" and "h = e_hist e"
  have len: "length t < FINSH_CMD_SIZE" "length h \<le> 5" using R by (simp_all add: t_def h_def hist_ok_def)
  have up: "unat (line_position s) = length t" "unat (history_count s) = length h"
    using R len by (simp_all add: t_def h_def unat16 FINSH_CMD_SIZE_def)
  have z: "line_position s = 0 \<longleftrightarrow> t = []" "history_count s = 0 \<longleftrightarrow> h = []"
    using R len pos16 [of "length t"] pos16 [of "length h"] by (simp_all add: t_def h_def FINSH_CMD_SIZE_def)
  have hh: "cmd_history s = map hrow h @ replicate (5 - length h) (hrow [])" using R by (simp add: h_def FINSH_HISTORY_LINES_def)
  have same: "same_line (hrow x) s \<longleftrightarrow> x = t" if "x \<in> set h" for x
  proof -
    have "take FINSH_CMD_SIZE (line s) = hrow t" using R len take_text_at by (simp add: t_def)
    moreover have "length x < FINSH_CMD_SIZE" "NUL \<notin> set x" "NUL \<notin> set t" using R that by (auto simp: h_def hist_ok_def t_def)
    ultimately show ?thesis using hrow_inj len(1) by (simp add: same_line_def)
  qed
  have rw: "row (length h - 1) s = Some (hrow (last h))" if "h \<noteq> []"
  proof -
    have "length h - 1 < length h" using that by simp
    then show ?thesis using len(2) that by (simp add: row_def FINSH_HISTORY_LINES_def hh nth_append last_conv_nth)
  qed
  have nr: "new_row s = Some (hrow t)" unfolding new_row_def up using R len by (simp add: text_at_def hrow_def t_def)
  have e': "e_remember e = (let h' = (if t = [] \<or> (h \<noteq> [] \<and> last h = t) then h else (if length h \<ge> 5 then tl h else h) @ [t])
      in e\<lparr>e_hist := h', e_idx := length h'\<rparr>)"
    by (simp add: e_remember_def t_def h_def)
  have rel: "shell_rel (s\<lparr>cmd_history := map hrow h' @ replicate (5 - length h') (hrow []), history_count := word_of_nat (length h'),
      current_history := word_of_nat (length h')\<rparr>) (e\<lparr>e_hist := h', e_idx := length h'\<rparr>)" if "hist_ok h'" for h'
    unfolding shell_rel_def using that by (intro conjI) (simp_all add: R FINSH_HISTORY_LINES_def)
  have hok: "hist_ok h" using R by (simp add: h_def)
  have same_s: "s\<lparr>current_history := history_count s\<rparr> = s\<lparr>cmd_history := map hrow h @ replicate (5 - length h) (hrow []),
      history_count := word_of_nat (length h), current_history := word_of_nat (length h)\<rparr>"
    using R by (simp add: h_def FINSH_HISTORY_LINES_def)
  show ?thesis
  proof (cases "t = [] \<or> (h \<noteq> [] \<and> last h = t)")
    case True
    have "shell_push_history s = Some (s\<lparr>current_history := history_count s\<rparr>)"
    proof (cases "t = []")
      case True
      then show ?thesis using z by (simp add: shell_push_history_def)
    next
      case False
      then have ne: "h \<noteq> []" "last h = t" using True by auto
      have "last h \<in> set h" using ne(1) by simp
      then have "same_line (hrow t) s" using same [of "last h"] ne(2) by simp
      moreover have "row 4 s = Some (hrow t)" if "length h \<ge> 5"
      proof -
        have "length h - 1 = 4" using that len(2) by simp
        then show ?thesis using rw [OF ne(1)] ne(2) by metis
      qed
      ultimately show ?thesis using False ne z rw [OF ne(1)]
        by (cases "length h \<ge> 5") (simp_all add: shell_push_history_def up FINSH_HISTORY_LINES_def)
    qed
    then show ?thesis using rel [OF hok] True e' same_s by (simp add: Let_def)
  next
    case False
    define h' where "h' = (if length h \<ge> 5 then tl h else h) @ [t]"
    have "NUL \<notin> set t" using R by (simp add: t_def)
    moreover have "set (tl h) \<subseteq> set h" by (cases h) auto
    ultimately have ok': "hist_ok h'" using hok len by (auto simp: h'_def hist_ok_def)
    have "shell_push_history s = Some (s\<lparr>cmd_history := map hrow h' @ replicate (5 - length h') (hrow []), history_count := word_of_nat (length h'),
      current_history := word_of_nat (length h')\<rparr>)"
    proof (cases "length h \<ge> 5")
      case True
      then have h5: "length h = 5" "h \<noteq> []" using len by auto
      then have "last h \<noteq> t" using False by simp
      then have "\<not> same_line (hrow (last h)) s" using same h5 by simp
      moreover have "row (FINSH_HISTORY_LINES - 1) s = Some (hrow (last h))" using rw [OF h5(2)] h5(1) by (simp add: FINSH_HISTORY_LINES_def)
      moreover have "tl (cmd_history s) @ [hrow t] = map hrow h' @ replicate (5 - length h') (hrow [])"
        using h5 hh by (simp add: h'_def map_tl)
      moreover have "length h' = 5" using h5 by (simp add: h'_def)
      ultimately show ?thesis using False z h5 nr by (simp add: shell_push_history_def up FINSH_HISTORY_LINES_def)
    next
      case lt: False
      then have l': "length h' = length h + 1" by (simp add: h'_def)
      have "(cmd_history s)[length h := hrow t] = map hrow h' @ replicate (5 - length h') (hrow [])"
      proof -
        have "5 - length h = Suc (5 - length h')" using lt l' by simp
        then have "replicate (5 - length h) (hrow []) = hrow [] # replicate (5 - length h') (hrow [])" by (simp only: replicate_Suc)
        then show ?thesis using hh lt by (simp add: h'_def list_update_append)
      qed
      moreover have "history_count s + 1 = word_of_nat (length h')" using R by (simp add: h_def l' [unfolded h_def])
      ultimately have up1: "s\<lparr>cmd_history := (cmd_history s)[length h := hrow t], history_count := history_count s + 1, current_history := history_count s + 1\<rparr>
          = s\<lparr>cmd_history := map hrow h' @ replicate (5 - length h') (hrow []), history_count := word_of_nat (length h'), current_history := word_of_nat (length h')\<rparr>"
        by simp
      have tn: "line_position s \<noteq> 0" using False z by simp
      show ?thesis
      proof (cases "h = []")
        case True
        then have "unat (history_count s) = 0" "history_count s = 0" using up z by simp_all
        then show ?thesis using tn nr up1 True lt by (simp add: shell_push_history_def FINSH_HISTORY_LINES_def)
      next
        case ne: False
        then have "last h \<noteq> t" "last h \<in> set h" using False by simp_all
        then have "row (length h - 1) s = Some (hrow (last h))" "\<not> same_line (hrow (last h)) s" using rw [OF ne] same by simp_all
        then show ?thesis using tn nr up1 ne lt z by (simp add: shell_push_history_def up FINSH_HISTORY_LINES_def del: One_nat_def)
      qed
    qed
    moreover have "e_remember e = e\<lparr>e_hist := h', e_idx := length h'\<rparr>"
      unfolding e' if_not_P [OF False] h'_def Let_def by (rule refl)
    ultimately show ?thesis using rel [OF ok'] by metis
  qed
qed


lemma complete_loop_fits:
  assumes p: "p \<noteq> []" "NUL \<notin> set p" and tab: "\<forall>(m, f)\<in>set tab. NUL \<notin> set m" and c: "complete_loop tab p None 0 = (Some n, m)"
  shows "prefix p (take m n)" "NUL \<notin> set (take m n)"
proof -
  have ne: "candidates tab p \<noteq> {}" using complete_loop_result [OF p tab] c by (auto split: if_splits)
  then have q: "prefix q (take m n) \<longleftrightarrow> (\<forall>c\<in>candidates tab p. prefix q c)" for q
    using complete_loop_result [OF p tab] c by auto
  show "prefix p (take m n)" using q by (simp add: candidates_def)
  obtain x where x: "x \<in> candidates tab p" using ne by blast
  then have "prefix (take m n) x" using q [of "take m n"] by simp
  then have "set (take m n) \<subseteq> set x" by (rule set_mono_prefix)
  moreover have "NUL \<notin> set x" using x tab by (auto simp: candidates_def)
  ultimately show "NUL \<notin> set (take m n)" by blast
qed

lemma auto_complete_rel:
  assumes r: "shell_rel s e" and tab: "\<forall>(m, f)\<in>set tab. NUL \<notin> set m" and c: "complete_text tab path (e_text e) = Some t"
  shows "\<exists>s'. shell_auto_complete tab path s = Some s' \<and> shell_rel s' (e\<lparr>e_text := t, e_cur := length t\<rparr>)"
proof -
  note R = r [unfolded shell_rel_def]
  define p where "p = e_text e"
  have p: "length p < FINSH_CMD_SIZE" "NUL \<notin> set p" and l: "line s = text_at p" using R by (simp_all add: p_def)
  have cs: "cstr (line s) 0 = p" unfolding l by (rule cstr_text_at [OF p])
  have "msh_auto_complete tab path (line s) = Some (text_at t) \<and> length t < FINSH_CMD_SIZE \<and> NUL \<notin> set t"
  proof (cases "p = []")
    case True
    then have "t = []" using c by (simp add: complete_text_def p_def [symmetric])
    moreover have "msh_auto_complete tab path (line s) = Some (line s)" unfolding msh_auto_complete_def cs using True by simp
    ultimately show ?thesis using l p True by simp
  next
    case ne: False
    obtain p1 where p1: "(case last_space p of None \<Rightarrow> Some p
         | Some i \<Rightarrow> (case path (drop (i + 1) p) of None \<Rightarrow> Some p
           | Some s \<Rightarrow> (if prefix (drop (i + 1) p) s \<and> NUL \<notin> set s then Some (take (i + 1) p @ s) else None))) = Some p1"
      and l1: "length p1 < FINSH_CMD_SIZE"
      and t: "(case complete_loop tab p1 None 0 of (None, _) \<Rightarrow> Some p1
         | (Some name, m) \<Rightarrow> (if m < FINSH_CMD_SIZE then Some (take m name) else None)) = Some t"
      using c ne unfolding complete_text_def p_def [symmetric] by (auto elim!: bind_eq_SomeE split: if_splits)
    have "(case last_space p of None \<Rightarrow> Some (line s)
          | Some i \<Rightarrow> (case path (drop (i + 1) p) of None \<Rightarrow> Some (line s) | Some x \<Rightarrow> put_at (i + 1) (x @ [NUL]) (line s)))
        = Some (text_at p1) \<and> NUL \<notin> set p1 \<and> p1 \<noteq> []"
    proof (cases "last_space p")
      case None
      then show ?thesis using p1 ne p l by simp
    next
      case (Some i)
      have "0 < length p" using ne by simp
      moreover have "i = length p - length (takeWhile (\<lambda>c. c \<noteq> CHR '' '') (rev p)) - 1"
        using Some by (simp add: last_space_def split: if_splits)
      ultimately have i: "i + 1 \<le> length p" by linarith
      show ?thesis
      proof (cases "path (drop (i + 1) p)")
        case None
        then show ?thesis using p1 Some ne p l by simp
      next
        case x: (Some x)
        then have pr: "prefix (drop (i + 1) p) x" "NUL \<notin> set x" and p1x: "p1 = take (i + 1) p @ x"
          using p1 Some by (auto split: if_splits)
        have lx: "length p - (i + 1) \<le> length x" using prefix_length_le [OF pr(1)] by simp
        have l1x: "length p1 = i + 1 + length x" using i by (simp add: p1x)
        define k where "k = FINSH_CMD_SIZE + 1 - length p"
        have tl: "line s = p @ replicate k NUL" by (simp add: l text_at_def k_def)
        have d: "drop (i + 1 + (length x + 1)) (line s) = replicate (FINSH_CMD_SIZE - length p1) NUL"
          using lx p l1 i by (simp add: tl k_def l1x)
        have "put_at (i + 1) (x @ [NUL]) (line s) = Some (take (i + 1) (line s) @ (x @ [NUL]) @ drop (i + 1 + (length x + 1)) (line s))"
          using l1 p i by (simp add: put_at_def tl k_def l1x)
        also have "\<dots> = Some (p1 @ NUL # replicate (FINSH_CMD_SIZE - length p1) NUL)"
          unfolding d using i by (simp add: tl p1x)
        also have "\<dots> = Some (text_at p1)" unfolding text_at_alt [OF l1] by simp
        finally have "put_at (i + 1) (x @ [NUL]) (line s) = Some (text_at p1)" .
        moreover have "NUL \<notin> set p1" using p(2) pr(2) by (auto simp: p1x dest: in_set_takeD)
        moreover have "p1 \<noteq> []" using l1x by auto
        ultimately show ?thesis using Some x by simp
      qed
    qed
    then have b: "(case last_space p of None \<Rightarrow> Some (line s)
          | Some i \<Rightarrow> (case path (drop (i + 1) p) of None \<Rightarrow> Some (line s) | Some x \<Rightarrow> put_at (i + 1) (x @ [NUL]) (line s)))
        = Some (text_at p1)" and n1: "NUL \<notin> set p1" "p1 \<noteq> []" by blast+
    have c1: "cstr (text_at p1) 0 = p1" by (rule cstr_text_at [OF l1 n1(1)])
    have ac: "msh_auto_complete tab path (line s) = (case complete_loop tab p1 None 0 of
           (None, m) \<Rightarrow> Some (text_at p1) | (Some name, m) \<Rightarrow> put_at 0 (take m name) (text_at p1))"
      unfolding msh_auto_complete_def cs b Option.bind.simps c1 using ne by simp
    show ?thesis
    proof (cases "fst (complete_loop tab p1 None 0)")
      case None
      then show ?thesis using t l1 n1 unfolding ac by (cases "complete_loop tab p1 None 0") auto
    next
      case (Some name)
      then obtain m where cl: "complete_loop tab p1 None 0 = (Some name, m)" by (cases "complete_loop tab p1 None 0") auto
      then have tm: "t = take m name" "length t < FINSH_CMD_SIZE" using t by (auto split: if_splits)
      have f: "prefix p1 t" "NUL \<notin> set t" using complete_loop_fits [OF n1(2,1) tab cl] tm by simp_all
      have "length p1 \<le> length t" by (rule prefix_length_le [OF f(1)])
      then have "put_at 0 t (text_at p1) = Some (text_at t)"
        using tm(2) l1 by (simp add: put_at_def text_at_def)
      then show ?thesis using tm f cl unfolding ac by simp
    qed
  qed
  then have m: "msh_auto_complete tab path (line s) = Some (text_at t)" and t: "length t < FINSH_CMD_SIZE" "NUL \<notin> set t" by blast+
  have "shell_auto_complete tab path s = Some (s\<lparr>line := text_at t, line_curpos := word_of_nat (length t), line_position := word_of_nat (length t)\<rparr>)"
    by (simp add: shell_auto_complete_def m cstr_text_at [OF t] Let_def)
  moreover have "shell_rel (s\<lparr>line := text_at t, line_curpos := word_of_nat (length t), line_position := word_of_nat (length t)\<rparr>)
      (e\<lparr>e_text := t, e_cur := length t\<rparr>)"
    unfolding shell_rel_def using t by (intro conjI) (simp_all add: R)
  ultimately show ?thesis by blast
qed

lemma key_enter_rel:
  assumes r: "shell_rel s e" and x: "msh_exec tab script (text_at (e_text e)) (length (e_text e)) = Some (ret, rn)"
  shows "\<exists>s'. key_enter tab script s = Some (s', rn) \<and> shell_rel s' ((e_remember e)\<lparr>e_text := [], e_cur := 0\<rparr>)"
proof -
  obtain s1 where s1: "shell_push_history s = Some s1" "shell_rel s1 (e_remember e)" using push_history_rel [OF r] by blast
  note R = s1(2) [unfolded shell_rel_def]
  have et: "e_text (e_remember e) = e_text e" by (simp add: e_remember_def Let_def)
  have "line s1 = text_at (e_text e)" "unat (line_position s1) = length (e_text e)"
    using R et by (simp_all add: unat16 FINSH_CMD_SIZE_def)
  then have "key_enter tab script s = Some (s1\<lparr>line := replicate (FINSH_CMD_SIZE + 1) NUL, line_curpos := 0, line_position := 0\<rparr>, rn)"
    using s1(1) x by (simp add: key_enter_def)
  moreover have "shell_rel (s1\<lparr>line := replicate (FINSH_CMD_SIZE + 1) NUL, line_curpos := 0, line_position := 0\<rparr>)
      ((e_remember e)\<lparr>e_text := [], e_cur := 0\<rparr>)"
    unfolding shell_rel_def by (intro conjI) (simp_all add: R text_at_def FINSH_CMD_SIZE_def)
  ultimately show ?thesis by blast
qed


lemma normal_key_rel:
  assumes r: "shell_rel s e" and tab: "\<forall>(m, f)\<in>set (fst env). NUL \<notin> set m" and x: "e_normal env ch e = Some (e', rn)"
  shows "\<exists>s'. normal_key env ch s = Some (s', rn) \<and> shell_rel s' e'"
proof -
  obtain tab' script path where env: "env = (tab', script, path)" using prod_cases3 by blast
  note d = normal_key_def e_normal_def env prod.case
  show ?thesis
  proof (cases "ch = NUL \<or> ch = CHR 0xFF")
    case True
    then show ?thesis using x r unfolding d by auto
  next
    case n0: False
    show ?thesis
    proof (cases "ch = CHR 0x09")
      case True
      then obtain t where "complete_text tab' path (e_text e) = Some t" "e' = e\<lparr>e_text := t, e_cur := length t\<rparr>" "rn = None"
        using x n0 unfolding d by (auto elim!: bind_eq_SomeE)
      then show ?thesis using auto_complete_rel [OF r, of tab' path t] tab True n0 unfolding d by auto
    next
      case n1: False
      show ?thesis
      proof (cases "ch = CHR 0x7f \<or> ch = CHR 0x08")
        case True
        then have e': "e' = (if e_cur e = 0 then e else e\<lparr>e_text := take (e_cur e - 1) (e_text e) @ drop (e_cur e) (e_text e), e_cur := e_cur e - 1\<rparr>)" "rn = None"
          using x n0 n1 unfolding d by auto
        have "\<exists>s'. backspace s = Some s' \<and> shell_rel s' e'"
        proof (cases "e_cur e = 0")
          case True
          then have "line_curpos s = 0" using r by (simp add: shell_rel_def)
          then show ?thesis using r e' True by (simp add: backspace_def)
        qed (use backspace_rel [OF r] e' in simp)
        then show ?thesis using True n0 n1 e' unfolding d by auto
      next
        case n2: False
        show ?thesis
        proof (cases "ch = CHR 0x0D \<or> ch = CHR 0x0A")
          case True
          then obtain ret where m: "msh_exec tab' script (text_at (e_text e)) (length (e_text e)) = Some (ret, rn)"
            and e': "e' = (e_remember e)\<lparr>e_text := [], e_cur := 0\<rparr>"
            using x n0 n1 n2 unfolding d by (auto elim!: bind_eq_SomeE)
          show ?thesis using key_enter_rel [OF r m] True n0 n1 n2 e' unfolding d by auto
        next
          case False
          then have "length (e_text e) < 79" "rn = None"
            "e' = e\<lparr>e_text := take (e_cur e) (e_text e) @ ch # drop (e_cur e) (e_text e), e_cur := e_cur e + 1\<rparr>"
            using x n0 n1 n2 unfolding d by (auto split: if_splits)
          then show ?thesis using insert_char_rel [OF r, of ch] False n0 n1 n2 unfolding d by auto
        qed
      qed
    qed
  qed
qed

lemma input_rel:
  assumes r: "shell_rel s e" and tab: "\<forall>(m, f)\<in>set (fst env). NUL \<notin> set m" and x: "e_input env input e = Some (e', rn)"
  shows "\<exists>s'. finsh_input env input s = Some (s', rn) \<and> shell_rel s' e'"
proof (cases input)
  case None
  then show ?thesis using x r by (auto simp: finsh_input_def e_input_def)
next
  case (Some ch)
  define s1 e1 where "s1 = s\<lparr>stat := WAIT_NORMAL\<rparr>" and "e1 = e\<lparr>e_stat := WAIT_NORMAL\<rparr>"
  have r1: "shell_rel s1 e1" using r by (simp add: shell_rel_def s1_def e1_def)
  have st: "stat s = e_stat e" using r by (simp add: shell_rel_def)
  note d = finsh_input_def e_input_def Some option.case
  show ?thesis
  proof (cases "ch = CHR 0x1b")
    case True
    then show ?thesis using x r unfolding d by (auto simp: shell_rel_def)
  next
    case esc: False
    show ?thesis
    proof (cases "e_stat e")
      case WAIT_NORMAL
      then show ?thesis using normal_key_rel [OF r tab, of ch e' rn] x esc st unfolding d by simp
    next
      case WAIT_SPEC_KEY
      then show ?thesis
      proof (cases "ch = CHR 0x5b")
        case True
        then show ?thesis using x r WAIT_SPEC_KEY esc st unfolding d by (auto simp: shell_rel_def)
      next
        case False
        then show ?thesis using normal_key_rel [OF r1 tab, of ch e' rn] x esc st WAIT_SPEC_KEY
          unfolding d s1_def e1_def by simp
      qed
    next
      case WAIT_FUNC_KEY
      have f: "finsh_input env (Some ch) s = (if ch = CHR 0x41 then do { s2 \<leftarrow> key_up s1; Some (s2, None) }
           else if ch = CHR 0x42 then do { s2 \<leftarrow> key_down s1; Some (s2, None) }
           else if ch = CHR 0x44 then Some (key_left s1, None)
           else if ch = CHR 0x43 then do { s2 \<leftarrow> key_right s1; Some (s2, None) }
           else normal_key env ch s1)"
        unfolding d s1_def using st WAIT_FUNC_KEY esc by (simp add: Let_def)
      have g: "e_input env (Some ch) e = (if ch = CHR 0x41 then Some (if e_idx e1 = 0 then e1 else e_recall (e_idx e1 - 1) e1, None)
             else if ch = CHR 0x42 then
               Some (if e_hist e1 = [] then e1 else e_recall (min (e_idx e1 + 1) (length (e_hist e1) - 1)) e1, None)
             else if ch = CHR 0x44 then Some (e1\<lparr>e_cur := e_cur e1 - 1\<rparr>, None)
             else if ch = CHR 0x43 then Some (e1\<lparr>e_cur := min (e_cur e1 + 1) (length (e_text e1))\<rparr>, None)
             else e_normal env ch e1)"
        unfolding d e1_def using WAIT_FUNC_KEY esc by (simp add: Let_def)
      have y: "e_input env (Some ch) e = Some (e', rn)" using x Some by simp
      consider (up) "ch = CHR 0x41" | (down) "ch = CHR 0x42" | (left) "ch = CHR 0x44" | (right) "ch = CHR 0x43"
        | (other) "ch \<notin> {CHR 0x41, CHR 0x42, CHR 0x43, CHR 0x44}" by blast
      then show ?thesis
      proof cases
        case up
        then have e: "e' = (if e_idx e1 = 0 then e1 else e_recall (e_idx e1 - 1) e1)" "rn = None" using y unfolding g by auto
        from key_up_rel [OF r1] show ?thesis unfolding Some f e using up by auto
      next
        case down
        then have e: "e' = (if e_hist e1 = [] then e1 else e_recall (min (e_idx e1 + 1) (length (e_hist e1) - 1)) e1)" "rn = None"
          using y unfolding g by auto
        from key_down_rel [OF r1] show ?thesis unfolding Some f e using down by auto
      next
        case left
        then have e: "e' = e1\<lparr>e_cur := e_cur e1 - 1\<rparr>" "rn = None" using y unfolding g by auto
        from key_left_rel [OF r1] show ?thesis unfolding Some f e using left by auto
      next
        case right
        then have e: "e' = e1\<lparr>e_cur := min (e_cur e1 + 1) (length (e_text e1))\<rparr>" "rn = None" using y unfolding g by auto
        from key_right_rel [OF r1] show ?thesis unfolding Some f e using right by auto
      next
        case other
        then have "e_normal env ch e1 = Some (e', rn)" using y unfolding g by simp
        from normal_key_rel [OF r1 tab this] show ?thesis unfolding Some f using other by simp
      qed
    qed
  qed
qed

lemma run_rel:
  assumes tab: "\<forall>(m, f)\<in>set (fst env). NUL \<notin> set m"
  shows "shell_rel s e \<Longrightarrow> e_run env inputs e = Some (e', rns) \<Longrightarrow>
    \<exists>s'. finsh_thread_entry env inputs s = Some (s', rns) \<and> shell_rel s' e'"
proof (induction inputs arbitrary: s e rns)
  case (Cons input inputs)
  from Cons.prems(2) obtain e1 rn rns' where a: "e_input env input e = Some (e1, rn)" "e_run env inputs e1 = Some (e', rns')" "rns = rn # rns'"
    by (auto elim!: bind_eq_SomeE)
  obtain s1 where s1: "finsh_input env input s = Some (s1, rn)" "shell_rel s1 e1" using input_rel [OF Cons.prems(1) tab a(1)] by blast
  obtain s' where "finsh_thread_entry env inputs s1 = Some (s', rns')" "shell_rel s' e'" using Cons.IH [OF s1(2) a(2)] by blast
  then show ?case using s1(1) a(3) by simp
qed simp

lemma start_rel: "shell_rel finsh_system_init e_start"
  by (simp add: shell_rel_def finsh_system_init_def e_start_def text_at_def hist_ok_def hrow_def FINSH_CMD_SIZE_def FINSH_HISTORY_LINES_def)


subsection \<open>What goes wrong\<close>

text \<open>The character that fills the line takes both positions back to 0, but the old text stays in the line.\<close>

lemma full_line_reset:
  assumes "line s = text_at t" "length t = 79" "line_position s = 79" "line_curpos s = 79" "ch \<noteq> NUL"
  shows "insert_char ch s = Some (s\<lparr>line := t @ [ch, NUL], line_position := 0, line_curpos := 0\<rparr>)"
proof -
  have l: "line s = t @ [NUL, NUL]" using assms(1,2) by (simp add: text_at_def FINSH_CMD_SIZE_def numeral_2_eq_2)
  have "wr 79 ch (line s) = Some (t @ [ch, NUL])" using assms(2) by (simp add: l wr_def list_update_append)
  then show ?thesis using assms(3,4) by (simp add: insert_char_def FINSH_CMD_SIZE_def Let_def)
qed

text \<open>
  A tab then takes the positions to 80, the next character one of them to 1 and the other to 81, and the second backspace
  moves 65456 characters: it writes outside the line.
\<close>

lemma tab_on_full_line:
  assumes l: "line s = t @ [NUL]" "length t = 80" "NUL \<notin> set t" and st: "stat s = WAIT_NORMAL"
    and no: "last_space t = None" "complete_loop tab t None 0 = (None, 0)" and ch: "ch \<notin> {NUL, CHR 0xFF, CHR 0x09, CHR 0x7f, CHR 0x08, CHR 0x0D, CHR 0x0A, CHR 0x1b}"
  shows "finsh_thread_entry (tab, script, path) [Some (CHR 0x09), Some ch, Some (CHR 0x7f), Some (CHR 0x7f)] s = None"
proof -
  have ne: "t \<noteq> []" using l(2) by auto
  have cs: "cstr (t @ [NUL]) 0 = t" using l(3) by (simp add: cstr_def takeWhile_NUL) (metis takeWhile_eq_all_conv)
  have ac: "msh_auto_complete tab path (line s) = Some (t @ [NUL])"
    unfolding msh_auto_complete_def l(1) cs using no ne by (simp add: cs)
  have s1: "finsh_input (tab, script, path) (Some (CHR 0x09)) s = Some (s\<lparr>line := t @ [NUL], line_curpos := 80, line_position := 80\<rparr>, None)"
    using st by (simp add: finsh_input_def normal_key_def shell_auto_complete_def ac cs l(2) Let_def)
  define s2 where "s2 = s\<lparr>line := t[0 := ch] @ [NUL], line_position := 1, line_curpos := 81\<rparr>"
  have w: "wr 0 ch (t @ [NUL]) = Some (t[0 := ch] @ [NUL])" using l(2) ne by (simp add: wr_def list_update_append)
  have s2: "finsh_input (tab, script, path) (Some ch) (s\<lparr>line := t @ [NUL], line_curpos := 80, line_position := 80\<rparr>) = Some (s2, None)"
    using ch st w by (simp add: finsh_input_def normal_key_def insert_char_def FINSH_CMD_SIZE_def Let_def s2_def)
  define s3 where "s3 = s\<lparr>line := (t[0 := ch] @ [NUL])[0 := NUL], line_position := 0, line_curpos := 80\<rparr>"
  have s3: "finsh_input (tab, script, path) (Some (CHR 0x7f)) s2 = Some (s3, None)"
    using st l(2) by (simp add: finsh_input_def normal_key_def backspace_def Let_def s2_def s3_def wr_def)
  have u: "unat (- 1 :: u16) = 65535" "(79 :: u16) < - 1"
    by (simp_all add: unsigned_minus_1_eq_mask mask_eq_exp_minus_1 word_less_nat_alt)
  have "finsh_input (tab, script, path) (Some (CHR 0x7f)) s3 = None"
    using st l(2) by (simp add: finsh_input_def normal_key_def backspace_def Let_def s3_def memmove_def u)
  then show ?thesis using s1 s2 s3 by simp
qed

text \<open>
  C25 (shell_refines_editor). For any sequence of characters (escape sequences of the arrows, tabs, backspaces and returns among them) that
  keeps the text below 80 characters, the shell is an editor with a cursor and a history of 5 lines: it runs the same commands with
  the same arguments, its buffer holds the editor's text padded with zeros, and no access is outside the line or the history.
\<close>

theorem shell_refines_editor:
  assumes "\<forall>(m, f)\<in>set (fst env). NUL \<notin> set m" and "e_run env inputs e_start = Some (e, rns)"
  shows "\<exists>s. finsh_thread_entry env inputs finsh_system_init = Some (s, rns) \<and> line s = text_at (e_text e)
    \<and> unat (line_position s) = length (e_text e) \<and> unat (line_curpos s) = e_cur e \<and> e_cur e \<le> length (e_text e)
    \<and> take (length (e_hist e)) (cmd_history s) = map hrow (e_hist e)"
proof -
  obtain s where s: "finsh_thread_entry env inputs finsh_system_init = Some (s, rns)" "shell_rel s e"
    using run_rel [OF assms(1) start_rel assms(2)] by blast
  then show ?thesis by (auto simp: shell_rel_def unat16 FINSH_CMD_SIZE_def)
qed

definition demo_env :: shell_env where
  "demo_env = ([(''ls'', \<lambda>args. int (length args)), (''echo'', \<lambda>args. 0)], \<lambda>_ _. - 1, \<lambda>_. None)"

lemma shell_refines_editor_witness:
  "\<exists>s. finsh_thread_entry demo_env (map Some (''lx'' @ [CHR 0x7f] @ ''s a'' @ [CHR 0x0D, CHR 0x1b, CHR 0x5b, CHR 0x41] @ ''b'' @ [CHR 0x0D, CHR ''e'', CHR 0x09])) finsh_system_init
      = Some (s, replicate 6 None @ [Some (''ls'', [''ls'', ''a''])] @ replicate 4 None @ [Some (''ls'', [''ls'', ''ab'']), None, None])
    \<and> line s = text_at ''echo'' \<and> take 2 (cmd_history s) = map hrow [''ls a'', ''ls ab'']"
proof -
  have n: "\<forall>(m, f)\<in>set (fst demo_env). NUL \<notin> set m" by (simp add: demo_env_def)
  define inputs where "inputs = map Some (''lx'' @ [CHR 0x7f] @ ''s a'' @ [CHR 0x0D, CHR 0x1b, CHR 0x5b, CHR 0x41] @ ''b'' @ [CHR 0x0D, CHR ''e'', CHR 0x09])"
  define e where "e = \<lparr>e_stat = WAIT_NORMAL, e_text = ''echo'', e_cur = 4, e_hist = [''ls a'', ''ls ab''], e_idx = 2\<rparr>"
  define rns where "rns = replicate 6 None @ [Some (''ls'', [''ls'', ''a''])] @ replicate 4 None @ [Some (''ls'', [''ls'', ''ab'']), None, None]"
  have "e_run demo_env inputs e_start = Some (e, rns)" unfolding inputs_def e_def rns_def by code_simp
  from shell_refines_editor [OF n this] obtain s where s: "finsh_thread_entry demo_env inputs finsh_system_init = Some (s, rns)"
    "line s = text_at (e_text e)" "take (length (e_hist e)) (cmd_history s) = map hrow (e_hist e)" by blast
  have "e_text e = ''echo''" "e_hist e = [''ls a'', ''ls ab'']" "length (e_hist e) = 2" by (simp_all add: e_def)
  then show ?thesis using s unfolding inputs_def [symmetric] rns_def [symmetric] by metis
qed

end
