(* ===== verification/App_Math.thy ===== *)
theory App_Math
  imports Prelude
begin

text \<open>
  The arithmetic screen of the application (\<open>lvgl/user_events/events_shuxueyunsuan.c\<close>): questions of
  addition and subtraction up to 100, the check of an answer, and the pager of the shapes. Widgets are left
  out but for the text that is shown; the random numbers, the text in the answer field and the number of
  images in the file system are arguments. \<open>None\<close> is a remainder by zero.
\<close>

datatype math_mode = MATH_MODE_NUMBER | MATH_MODE_SHAPE

datatype math_text = Txt_start | Txt_upload | Txt_question int char int | Txt_ask_first | Txt_no_answer | Txt_right | Txt_wrong

record math =
  g_math_mode :: math_mode
  g_random_num1 :: int
  g_random_num2 :: int
  g_answer :: int
  g_operator :: char
  g_has_question :: bool
  g_tuxing_index :: int
  g_tuxing_total_cnt :: int
  label28 :: math_text
  shown_image :: "int option"

definition math_start :: math where
  "math_start = \<lparr>g_math_mode = MATH_MODE_NUMBER, g_random_num1 = 0, g_random_num2 = 0, g_answer = 0,
     g_operator = CHR ''+'', g_has_question = False, g_tuxing_index = 1, g_tuxing_total_cnt = 0,
     label28 = Txt_start, shown_image = None\<rparr>"

abbreviation (input) MATH_MAX_NUM :: int where "MATH_MAX_NUM \<equiv> 100"

subsection \<open>Handlers\<close>

definition show_number_mode :: "math \<Rightarrow> math" where
  "show_number_mode m = m\<lparr>g_math_mode := MATH_MODE_NUMBER, label28 := Txt_start, shown_image := None\<rparr>"

definition show_shape_mode :: "int \<Rightarrow> math \<Rightarrow> math" where
  "show_shape_mode cnt m =
     (let m1 = m\<lparr>g_math_mode := MATH_MODE_SHAPE, g_tuxing_total_cnt := cnt\<rparr> in
      if cnt \<le> 0 then m1\<lparr>label28 := Txt_upload, shown_image := None\<rparr>
      else (let m2 = (if g_tuxing_index m1 > cnt then m1\<lparr>g_tuxing_index := 1\<rparr> else m1)
            in m2\<lparr>shown_image := Some (g_tuxing_index m2)\<rparr>))"

definition Btnjiafayunsuan_event_handler :: "math \<Rightarrow> math" where
  "Btnjiafayunsuan_event_handler m = show_number_mode m"

definition Btnjianfayunsuan_event_handler :: "int \<Rightarrow> math \<Rightarrow> math" where
  "Btnjianfayunsuan_event_handler cnt m = show_shape_mode cnt m"

definition MathShapeNext_event_handler :: "int \<Rightarrow> math \<Rightarrow> math" where
  "MathShapeNext_event_handler cnt m =
     (if g_math_mode m \<noteq> MATH_MODE_SHAPE \<or> g_tuxing_total_cnt m \<le> 1 then m
      else (let m1 = m\<lparr>g_tuxing_index := g_tuxing_index m + 1\<rparr>;
                m2 = (if g_tuxing_index m1 > g_tuxing_total_cnt m1 then m1\<lparr>g_tuxing_index := 1\<rparr> else m1)
            in show_shape_mode cnt m2))"

text \<open>The remainder of C on non-negative numbers; \<open>rand\<close> gives three numbers in turn.\<close>

definition c_mod :: "int \<Rightarrow> int \<Rightarrow> int option" where
  "c_mod a b = (if b = 0 then None else Some (a mod b))"

definition Btnchongxinchuti_event_handler :: "int \<Rightarrow> int \<Rightarrow> int \<Rightarrow> math \<Rightarrow> math option" where
  "Btnchongxinchuti_event_handler r1 r2 r3 m = do {
     let m0 = (if g_math_mode m \<noteq> MATH_MODE_NUMBER then show_number_mode m else m);
     m1 \<leftarrow> (if r1 mod 2 = 0 then do {
         n1 \<leftarrow> c_mod r2 (MATH_MAX_NUM + 1);
         n2 \<leftarrow> c_mod r3 (MATH_MAX_NUM - n1 + 1);
         Some (m0\<lparr>g_operator := CHR ''+'', g_random_num1 := n1, g_random_num2 := n2, g_answer := n1 + n2\<rparr>)
       } else do {
         n1 \<leftarrow> c_mod r2 (MATH_MAX_NUM + 1);
         n2 \<leftarrow> c_mod r3 (n1 + 1);
         Some (m0\<lparr>g_operator := CHR ''-'', g_random_num1 := n1, g_random_num2 := n2, g_answer := n1 - n2\<rparr>)
       });
     Some (m1\<lparr>g_has_question := True,
       label28 := Txt_question (g_random_num1 m1) (g_operator m1) (g_random_num2 m1)\<rparr>)
   }"

text \<open>\<open>atoi\<close> of the C library: blanks, a sign, digits; the value is within the range of \<open>int\<close> here.\<close>

definition c_isspace :: "char \<Rightarrow> bool" where
  "c_isspace c = (c = CHR '' '' \<or> (9 \<le> (of_char c :: nat) \<and> (of_char c :: nat) \<le> 13))"

definition c_isdigit :: "char \<Rightarrow> bool" where
  "c_isdigit c = (48 \<le> (of_char c :: nat) \<and> (of_char c :: nat) \<le> 57)"

fun atoi_digits :: "string \<Rightarrow> int \<Rightarrow> int" where
  "atoi_digits [] n = n"
| "atoi_digits (c # cs) n = (if c_isdigit c then atoi_digits cs (n * 10 + (of_char c - 48)) else n)"

definition atoi :: "string \<Rightarrow> int" where
  "atoi s = (case dropWhile c_isspace s of
       [] \<Rightarrow> 0
     | c # cs \<Rightarrow> if c = CHR ''-'' then - atoi_digits cs 0
         else if c = CHR ''+'' then atoi_digits cs 0 else atoi_digits (c # cs) 0)"

definition Btnchakandaan_event_handler :: "string option \<Rightarrow> math \<Rightarrow> math" where
  "Btnchakandaan_event_handler answer_text m =
     (if \<not> g_has_question m then m\<lparr>label28 := Txt_ask_first\<rparr>
      else (case answer_text of
          None \<Rightarrow> m\<lparr>label28 := Txt_no_answer\<rparr>
        | Some [] \<Rightarrow> m\<lparr>label28 := Txt_no_answer\<rparr>
        | Some s \<Rightarrow> if atoi s = g_answer m then m\<lparr>label28 := Txt_right\<rparr> else m\<lparr>label28 := Txt_wrong\<rparr>))"

definition screen_shuxueyunsuan_pre_init :: "int \<Rightarrow> math \<Rightarrow> math" where
  "screen_shuxueyunsuan_pre_init cnt m =
     (if g_math_mode m = MATH_MODE_SHAPE then show_shape_mode cnt m else show_number_mode m)"

subsection \<open>Questions\<close>

text \<open>
  A question is fair: both numbers and the answer are between 0 and 100, and the answer is that of the
  question; an index that is shown is that of an image there is.
\<close>

definition math_ok :: "math \<Rightarrow> bool" where
  "math_ok m \<longleftrightarrow> (g_has_question m \<longrightarrow>
       0 \<le> g_random_num1 m \<and> g_random_num1 m \<le> 100 \<and> 0 \<le> g_random_num2 m \<and> g_random_num2 m \<le> 100
       \<and> 0 \<le> g_answer m \<and> g_answer m \<le> 100
       \<and> (g_operator m = CHR ''+'' \<and> g_answer m = g_random_num1 m + g_random_num2 m
          \<or> g_operator m = CHR ''-'' \<and> g_answer m = g_random_num1 m - g_random_num2 m))
     \<and> 1 \<le> g_tuxing_index m
     \<and> (\<forall>i. shown_image m = Some i \<longrightarrow> g_math_mode m = MATH_MODE_SHAPE \<and> i = g_tuxing_index m \<and> 1 \<le> i \<and> i \<le> g_tuxing_total_cnt m)"

datatype math_event = Ev_add | Ev_shape int | Ev_next int | Ev_new int int int | Ev_check "string option" | Ev_screen int

fun math_step :: "math_event \<Rightarrow> math \<Rightarrow> math option" where
  "math_step Ev_add m = Some (Btnjiafayunsuan_event_handler m)"
| "math_step (Ev_shape cnt) m = Some (Btnjianfayunsuan_event_handler cnt m)"
| "math_step (Ev_next cnt) m = Some (MathShapeNext_event_handler cnt m)"
| "math_step (Ev_new r1 r2 r3) m = Btnchongxinchuti_event_handler r1 r2 r3 m"
| "math_step (Ev_check s) m = Some (Btnchakandaan_event_handler s m)"
| "math_step (Ev_screen cnt) m = Some (screen_shuxueyunsuan_pre_init cnt m)"

inductive math_reach :: "math \<Rightarrow> bool" where
  start: "math_reach math_start"
| step: "math_reach m \<Longrightarrow> math_step e m = Some m' \<Longrightarrow> math_reach m'"

inductive_cases math_reachE: "math_reach m"

lemma new_question:
  assumes "0 \<le> r1" "0 \<le> r2" "0 \<le> r3"
  shows "\<exists>m'. Btnchongxinchuti_event_handler r1 r2 r3 m = Some m'"
proof -
  have "r2 mod 101 \<ge> 0" "r2 mod 101 < 101" by simp_all
  then have "101 - r2 mod 101 \<noteq> 0" "r2 mod 101 + 1 \<noteq> 0" by presburger+
  then show ?thesis by (auto simp: Btnchongxinchuti_event_handler_def c_mod_def Let_def)
qed

lemma show_shape_ok: "math_ok m \<Longrightarrow> math_ok (show_shape_mode cnt m)"
  by (auto simp: math_ok_def show_shape_mode_def Let_def)

lemma show_number_ok: "math_ok m \<Longrightarrow> math_ok (show_number_mode m)"
  by (auto simp: math_ok_def show_number_mode_def)

lemma new_question_ok:
  assumes m: "math_ok m" and e: "Btnchongxinchuti_event_handler r1 r2 r3 m = Some m'"
  shows "math_ok m'" "g_has_question m'" "g_math_mode m' = MATH_MODE_NUMBER"
    "label28 m' = Txt_question (g_random_num1 m') (g_operator m') (g_random_num2 m')"
proof -
  let ?m0 = "if g_math_mode m \<noteq> MATH_MODE_NUMBER then show_number_mode m else m"
  have ok0: "math_ok ?m0" "g_math_mode ?m0 = MATH_MODE_NUMBER" using m by (auto simp: math_ok_def show_number_mode_def)
  define n where "n = r2 mod 101"
  have n: "0 \<le> n" "n < 101" by (simp_all add: n_def)
  have s: "0 \<le> r3 mod (101 - n)" "r3 mod (101 - n) < 101 - n" "0 \<le> r3 mod (n + 1)" "r3 mod (n + 1) < n + 1"
    using n pos_mod_bound [of "101 - n" r3] pos_mod_bound [of "n + 1" r3] by simp_all
  have s3: "r3 mod (101 - r2 mod 101) \<le> 100 - r2 mod 101" using s(2) unfolding n_def by linarith
  obtain oper n2 ans where q: "oper = CHR ''+'' \<and> ans = n + n2 \<and> n2 \<le> 100 - n \<or> oper = CHR ''-'' \<and> ans = n - n2 \<and> n2 \<le> n"
    "0 \<le> n2"
    "m' = ?m0\<lparr>g_operator := oper, g_random_num1 := n, g_random_num2 := n2, g_answer := ans, g_has_question := True,
       label28 := Txt_question n oper n2\<rparr>"
  proof (cases "r1 mod 2 = 0")
    case True
    show thesis
      by (rule that [of "CHR ''+''" "n + r3 mod (101 - n)" "r3 mod (101 - n)"])
        (use e True s s3 n in \<open>auto simp: Btnchongxinchuti_event_handler_def c_mod_def n_def Let_def split: if_splits bind_splits\<close>)
  next
    case False
    show thesis
      by (rule that [of "CHR ''-''" "n - r3 mod (n + 1)" "r3 mod (n + 1)"])
        (use e False s n in \<open>auto simp: Btnchongxinchuti_event_handler_def c_mod_def n_def Let_def split: if_splits bind_splits\<close>)
  qed
  show "g_has_question m'" "g_math_mode m' = MATH_MODE_NUMBER"
    "label28 m' = Txt_question (g_random_num1 m') (g_operator m') (g_random_num2 m')"
    unfolding q(3) using ok0(2) by simp_all
  have "1 \<le> g_tuxing_index ?m0" "\<forall>i. shown_image ?m0 = Some i \<longrightarrow> g_math_mode ?m0 = MATH_MODE_SHAPE \<and> i = g_tuxing_index ?m0 \<and> 1 \<le> i \<and> i \<le> g_tuxing_total_cnt ?m0"
    using ok0(1) unfolding math_ok_def by blast+
  then show "math_ok m'" unfolding q(3) math_ok_def using q(1,2) n by auto
qed

lemma math_step_ok:
  assumes m: "math_ok m" and e: "math_step ev m = Some m'"
  shows "math_ok m'"
proof (cases ev)
  case (Ev_next cnt)
  show ?thesis
  proof (cases "g_math_mode m \<noteq> MATH_MODE_SHAPE \<or> g_tuxing_total_cnt m \<le> 1")
    case True
    then show ?thesis using m e Ev_next by (auto simp: MathShapeNext_event_handler_def)
  next
    case False
    let ?m1 = "m\<lparr>g_tuxing_index := g_tuxing_index m + 1\<rparr>"
    let ?m2 = "if g_tuxing_index ?m1 > g_tuxing_total_cnt ?m1 then ?m1\<lparr>g_tuxing_index := 1\<rparr> else ?m1"
    have "m' = show_shape_mode cnt ?m2" using e Ev_next False by (simp add: MathShapeNext_event_handler_def Let_def)
    then show ?thesis using m by (auto simp: math_ok_def show_shape_mode_def Let_def)
  qed
next
  case (Ev_new r1 r2 r3)
  then show ?thesis using new_question_ok(1) [OF m] e by simp
next
  case (Ev_check s)
  then show ?thesis using m e by (auto simp: Btnchakandaan_event_handler_def math_ok_def split: option.splits list.splits if_splits)
next
  case Ev_add
  then show ?thesis using m e by (auto simp: Btnjiafayunsuan_event_handler_def show_number_ok)
next
  case (Ev_shape cnt)
  then show ?thesis using m e by (auto simp: Btnjianfayunsuan_event_handler_def show_shape_ok)
next
  case (Ev_screen cnt)
  then show ?thesis using m e by (auto simp: screen_shuxueyunsuan_pre_init_def show_shape_ok show_number_ok split: if_splits)
qed

lemma math_reach_ok: "math_reach m \<Longrightarrow> math_ok m"
proof (induction rule: math_reach.induct)
  case start
  then show ?case by (simp add: math_ok_def math_start_def)
qed (rule math_step_ok)

text \<open>
  In every state that events can reach, a question has numbers and an answer
  between 0 and 100, and the answer is that of the question; an answer typed in is marked right just when
  its value is that number; new questions never divide by zero; and an image that is shown is one of those
  in the file system.
\<close>

theorem math_questions_fair:
  assumes "math_reach m" "0 \<le> r1" "0 \<le> r2" "0 \<le> r3"
  shows "math_ok m
    \<and> (\<exists>m'. Btnchongxinchuti_event_handler r1 r2 r3 m = Some m' \<and> math_reach m' \<and> g_has_question m'
         \<and> (\<forall>s. s \<noteq> [] \<longrightarrow> (label28 (Btnchakandaan_event_handler (Some s) m') = Txt_right) = (atoi s = g_answer m')))"
proof -
  obtain m' where m': "Btnchongxinchuti_event_handler r1 r2 r3 m = Some m'" using new_question [OF assms(2-4)] by blast
  have "math_reach m'" by (rule math_reach.step [OF assms(1), of "Ev_new r1 r2 r3"]) (simp add: m')
  moreover have "(label28 (Btnchakandaan_event_handler (Some s) m') = Txt_right) = (atoi s = g_answer m')" if "s \<noteq> []" for s
    using that new_question_ok(2) [OF math_reach_ok [OF assms(1)] m']
    by (cases s) (simp_all add: Btnchakandaan_event_handler_def)
  ultimately show ?thesis using math_reach_ok [OF assms(1)] m' new_question_ok(2) [OF math_reach_ok [OF assms(1)] m'] by blast
qed

theorem math_questions_fair_witness:
  "math_ok math_start \<and> (\<exists>m'. Btnchongxinchuti_event_handler 3 150 7 math_start = Some m' \<and> g_has_question m')"
  using math_questions_fair [OF math_reach.start, of 3 150 7] by auto

end
