(* ===== verification/App_SmartRoom.thy ===== *)
theory App_SmartRoom
  imports Prelude
begin

text \<open>
  The room of \<open>apps/app_smart_room\<close>: the temperature and humidity sensor AHT25 on its I2C bus
  (\<open>i2c_aht25.c\<close>), and the switching of the air conditioner and the light (\<open>smart_room.c\<close>,
  \<open>uart_nec_ac.c\<close>, \<open>gpio_light.c\<close>). What goes out is recorded as a list of events; the bytes that the
  sensor delivers are arguments.
\<close>

datatype room_event = Wr "u8 list" bool | Rd nat bool | Delay nat | Uart "u8 list" | Pin bool

record room =
  room_out :: "room_event list"
  is_frist :: bool
  g_t :: u32
  g_rh :: u32
  ac_status :: u8
  light_status :: u8

definition emit :: "room_event \<Rightarrow> room \<Rightarrow> room" where
  "emit e r = r\<lparr>room_out := room_out r @ [e]\<rparr>"

subsection \<open>The sensor\<close>

text \<open>
  The loop that should wait for the end of a transfer; \<open>finished n\<close> is what the callback has stored at its
  \<open>n\<close>-th test, and the result is the number of delays.
\<close>

partial_function (option) sync_wait :: "(nat \<Rightarrow> bool) \<Rightarrow> u16 \<Rightarrow> nat \<Rightarrow> nat option" where
  "sync_wait finished i n =
     (if i > 500 then (if finished n then Some n else sync_wait finished (i + 1) (n + 1)) else Some n)"

definition R_SCI_I2C_Write_Sync :: "(nat \<Rightarrow> bool) \<Rightarrow> u8 list \<Rightarrow> bool \<Rightarrow> room \<Rightarrow> room option" where
  "R_SCI_I2C_Write_Sync finished src restart r = do {
     n \<leftarrow> sync_wait finished 0 0;
     Some (foldr emit (replicate n (Delay 1)) (emit (Wr src restart) r))
   }"

definition R_SCI_I2C_Read_Sync :: "(nat \<Rightarrow> bool) \<Rightarrow> u8 list \<Rightarrow> nat \<Rightarrow> bool \<Rightarrow> room \<Rightarrow> (u8 list \<times> room) option" where
  "R_SCI_I2C_Read_Sync finished reply bytes restart r = do {
     n \<leftarrow> sync_wait finished 0 0;
     Some (take bytes reply, emit (Delay 5) (foldr emit (replicate n (Delay 1)) (emit (Rd bytes restart) r)))
   }"

text \<open>The argument \<open>dev\<close> gives the sensor's answer to the \<open>n\<close>-th read, padded to the length asked for.\<close>

type_synonym i2c_dev = "(nat \<Rightarrow> bool) \<times> (u8 list)"

definition AHT25_Read_Status :: "(nat \<Rightarrow> bool) \<Rightarrow> u8 \<Rightarrow> room \<Rightarrow> (u8 \<times> room) option" where
  "AHT25_Read_Status fin reply r = do {
     r1 \<leftarrow> R_SCI_I2C_Write_Sync fin [0] True r;
     (data, r2) \<leftarrow> R_SCI_I2C_Read_Sync fin [reply] 1 False r1;
     Some (data ! 0, r2)
   }"

definition reset_AHT25 :: "(nat \<Rightarrow> bool) \<Rightarrow> room \<Rightarrow> room option" where
  "reset_AHT25 fin r = R_SCI_I2C_Write_Sync fin [0xBA] False r"

definition JH_Reset_REG :: "(nat \<Rightarrow> bool) \<Rightarrow> u8 \<Rightarrow> u8 list \<Rightarrow> room \<Rightarrow> room option" where
  "JH_Reset_REG fin addr reply r = do {
     r1 \<leftarrow> R_SCI_I2C_Write_Sync fin [addr, 0, 0] False r;
     (data, r2) \<leftarrow> R_SCI_I2C_Read_Sync fin reply 3 False (emit (Delay 5) r1);
     R_SCI_I2C_Write_Sync fin (take 3 ((data @ [0, 0, 0])[0 := 0xB0 OR addr])) False (emit (Delay 10) r2)
   }"

definition reg_AHT25 :: "(nat \<Rightarrow> bool) \<Rightarrow> (nat \<Rightarrow> u8 list) \<Rightarrow> room \<Rightarrow> room option" where
  "reg_AHT25 fin reply r = do {
     r1 \<leftarrow> JH_Reset_REG fin 0x1b (reply 0) r;
     r2 \<leftarrow> JH_Reset_REG fin 0x1c (reply 1) r1;
     JH_Reset_REG fin 0x1e (reply 2) r2
   }"

definition init_AHT25 :: "(nat \<Rightarrow> bool) \<Rightarrow> room \<Rightarrow> room option" where
  "init_AHT25 fin r = R_SCI_I2C_Write_Sync fin [0xE1, 0x08, 0x00] False r"

definition startMeasure_AHT25 :: "(nat \<Rightarrow> bool) \<Rightarrow> room \<Rightarrow> room option" where
  "startMeasure_AHT25 fin r = R_SCI_I2C_Write_Sync fin [0xAC, 0x33, 0x00] False r"

definition read_AHT25 :: "(nat \<Rightarrow> bool) \<Rightarrow> u8 list \<Rightarrow> room \<Rightarrow> (int \<times> room) option" where
  "read_AHT25 fin reply r = do {
     (b, r1) \<leftarrow> R_SCI_I2C_Read_Sync fin reply 6 False r;
     (if b ! 0 AND 0x68 = 0x08 then
        (let H1 = ucast (b ! 1) :: u32;
             H1 = push_bit 8 H1 OR ucast (b ! 2);
             H1 = push_bit 8 H1 OR ucast (b ! 3);
             H1 = drop_bit 4 H1;
             H1 = H1 * 1000 div 1024 div 1024;
             T1 = ucast (b ! 3) :: u32;
             T1 = T1 AND 0xF;
             T1 = push_bit 8 T1 OR ucast (b ! 4);
             T1 = push_bit 8 T1 OR ucast (b ! 5);
             T1 = T1 * 2000 div 1024 div 1024 - 500
         in Some (0, r1\<lparr>g_t := T1, g_rh := H1\<rparr>))
      else Some (- 1, r1))
   }"

record aht25_reply =
  status0 :: u8
  reg_reply :: "nat \<Rightarrow> u8 list"
  status1 :: u8
  status2 :: u8
  measured :: "u8 list"

definition read_AHT25_once :: "(nat \<Rightarrow> bool) \<Rightarrow> aht25_reply \<Rightarrow> room \<Rightarrow> (int \<times> room) option" where
  "read_AHT25_once fin d r = do {
     r1 \<leftarrow> (if \<not> is_frist r then do {
         (status, ra) \<leftarrow> AHT25_Read_Status fin (status0 d) (emit (Delay 100) (r\<lparr>is_frist := True\<rparr>));
         rb \<leftarrow> (if status AND 0x18 \<noteq> 0x18 then do {
             rb \<leftarrow> reg_AHT25 fin (reg_reply d) ra;
             (_, rc) \<leftarrow> AHT25_Read_Status fin (status1 d) rb;
             Some rc
           } else Some ra);
         rc \<leftarrow> reset_AHT25 fin rb;
         rd \<leftarrow> init_AHT25 fin (emit (Delay 10) rc);
         Some (emit (Delay 10) rd)
       } else Some r);
     r2 \<leftarrow> startMeasure_AHT25 fin r1;
     (_, r3) \<leftarrow> AHT25_Read_Status fin (status2 d) (emit (Delay 80) r2);
     read_AHT25 fin (measured d) r3
   }"

definition i2c_aht25_update :: "(nat \<Rightarrow> bool) \<Rightarrow> aht25_reply \<Rightarrow> room \<Rightarrow> (int \<times> room) option" where
  "i2c_aht25_update fin d r = read_AHT25_once fin d r"

subsection \<open>Switching\<close>

definition serial_send_data :: "u8 list \<Rightarrow> room \<Rightarrow> room" where
  "serial_send_data data r = emit (Uart data) r"

definition uart_nec_ac_on_off :: "room \<Rightarrow> int \<times> room" where
  "uart_nec_ac_on_off r = (0, serial_send_data [0xFA, 0xF1, 0x80, 0x7F, 0x1A] r)"

definition uart_air_cleaner_on_off :: "room \<Rightarrow> int \<times> room" where
  "uart_air_cleaner_on_off r = (0, serial_send_data [0xFA, 0xF1, 0x00, 0xFF, 0x47] r)"

definition gpio_light_on :: "room \<Rightarrow> int \<times> room" where
  "gpio_light_on r = (0, emit (Pin False) r)"

definition gpio_light_off :: "room \<Rightarrow> int \<times> room" where
  "gpio_light_off r = (0, emit (Pin True) r)"

definition smart_room_ac_on_off :: "u8 \<Rightarrow> room \<Rightarrow> int \<times> room" where
  "smart_room_ac_on_off on_off r =
     (if on_off \<noteq> ac_status r then
        (let r1 = (if on_off \<noteq> 0 then snd (uart_nec_ac_on_off r) else snd (uart_nec_ac_on_off r))
         in (0, r1\<lparr>ac_status := (if on_off \<noteq> 0 then 1 else 0)\<rparr>))
      else (0, r))"

definition smart_room_light_on_off :: "u8 \<Rightarrow> room \<Rightarrow> int \<times> room" where
  "smart_room_light_on_off on_off r =
     (if on_off \<noteq> light_status r then
        (let r1 = (if on_off \<noteq> 0 then snd (gpio_light_on r) else snd (gpio_light_off r))
         in (0, r1\<lparr>light_status := (if on_off \<noteq> 0 then 1 else 0)\<rparr>))
      else (0, r))"

subsection \<open>What a measurement gives\<close>

lemma sync_wait_eq [simp]: "sync_wait finished 0 n = Some n"
  by (subst sync_wait.simps) simp

text \<open>Building a number from its bytes.\<close>

lemma push_or_byte:
  fixes x :: u32 and b :: u8
  assumes "unat x < 2 ^ 24"
  shows "unat (push_bit 8 x OR ucast b) = unat x * 256 + unat b"
proof -
  have "unat (push_bit 8 x) = take_bit 32 (push_bit 8 (unat x))" by (simp add: unsigned_push_bit_eq)
  also have "\<dots> = unat x * 256" using assms by (simp add: push_bit_eq_mult take_bit_nat_eq_self)
  finally have 1: "unat (push_bit 8 x) = unat x * 256" .
  have 2: "unat (ucast b :: u32) = unat b" by (simp add: unsigned_ucast_eq take_bit_nat_eq_self order_less_trans [OF unsigned_less [of b]])
  have "unat x * 256 OR unat b = unat x * 256 + unat b"
  proof (rule disjunctive_add [symmetric])
    fix n
    show "\<not> bit (unat x * 256) n \<or> \<not> bit (unat b) n"
    proof (cases "n < 8")
      case True
      have "unat x * 256 = push_bit 8 (unat x)" by (simp add: push_bit_eq_mult)
      then show ?thesis using True by (simp add: bit_push_bit_iff)
    next
      case False
      then show ?thesis using bit_imp_le_length [of b n] by (auto simp: bit_unsigned_iff)
    qed
  qed
  then show ?thesis by (simp add: unsigned_or_eq 1 2)
qed

lemma ucast_byte: "unat (ucast (b :: u8) :: u32) = unat b"
  by (simp add: unsigned_ucast_eq take_bit_nat_eq_self order_less_trans [OF unsigned_less [of b]])

lemma byte_less: "unat (b :: u8) < 256"
  using unsigned_less [of b] by simp

definition aht25_humidity :: "u8 list \<Rightarrow> nat" where
  "aht25_humidity b = unat (b ! 1) * 4096 + unat (b ! 2) * 16 + unat (b ! 3) div 16"

definition aht25_temperature :: "u8 list \<Rightarrow> nat" where
  "aht25_temperature b = (unat (b ! 3) mod 16) * 65536 + unat (b ! 4) * 256 + unat (b ! 5)"

lemma humidity_word:
  "unat (drop_bit 4 (push_bit 8 (push_bit 8 (ucast b1) OR ucast b2) OR ucast b3) * 1000 div 1024 div 1024 :: u32)
   = (unat (b1 :: u8) * 4096 + unat (b2 :: u8) * 16 + unat (b3 :: u8) div 16) * 1000 div 1048576"
proof -
  have b: "unat b1 < 256" "unat b2 < 256" "unat b3 < 256" by (rule byte_less)+
  define y where "y = (push_bit 8 (ucast b1) OR ucast b2 :: u32)"
  define x where "x = (push_bit 8 y OR ucast b3 :: u32)"
  have y: "unat y = unat b1 * 256 + unat b2"
    unfolding y_def using b by (subst push_or_byte) (simp_all add: ucast_byte)
  have x: "unat x = (unat b1 * 256 + unat b2) * 256 + unat b3"
    unfolding x_def using b by (subst push_or_byte) (simp_all add: y)
  have "unat (drop_bit 4 x) = unat x div 16" unfolding unat_drop_bit_eq by (simp add: drop_bit_eq_div)
  also have "\<dots> = unat b1 * 4096 + unat b2 * 16 + unat b3 div 16" unfolding x by presburger
  finally have d: "unat (drop_bit 4 x) = unat b1 * 4096 + unat b2 * 16 + unat b3 div 16" .
  have "unat b3 div 16 < 16" using b by simp
  then have "(unat b1 * 4096 + unat b2 * 16 + unat b3 div 16) * 1000 < 2 ^ 32" using b by simp
  then have "unat (drop_bit 4 x * 1000) = (unat b1 * 4096 + unat b2 * 16 + unat b3 div 16) * 1000"
    by (simp add: unat_word_ariths d)
  then have "unat (drop_bit 4 x * 1000 div 1024 div 1024) = (unat b1 * 4096 + unat b2 * 16 + unat b3 div 16) * 1000 div 1048576"
    by (simp add: unat_div div_mult2_eq [symmetric])
  then show ?thesis by (simp only: x_def y_def)
qed

lemma temperature_word:
  "sint ((push_bit 8 (push_bit 8 (ucast b3 AND 0xF) OR ucast b4) OR ucast b5) * 2000 div 1024 div 1024 - 500 :: u32)
   = int (((unat (b3 :: u8) mod 16) * 65536 + unat (b4 :: u8) * 256 + unat (b5 :: u8)) * 2000 div 1048576) - 500"
proof -
  have b: "unat b4 < 256" "unat b5 < 256" by (rule byte_less)+
  define z where "z = (ucast b3 AND 0xF :: u32)"
  define y where "y = (push_bit 8 z OR ucast b4 :: u32)"
  define x where "x = (push_bit 8 y OR ucast b5 :: u32)"
  have m: "(0xF :: u32) = mask 4" by (simp add: mask_eq_exp_minus_1)
  have zt: "z = take_bit 4 (ucast b3)" unfolding z_def m take_bit_eq_mask ..
  have z: "unat z = unat b3 mod 16" unfolding zt unsigned_take_bit_eq ucast_byte by (simp add: take_bit_eq_mod)
  have y: "unat y = (unat b3 mod 16) * 256 + unat b4"
    unfolding y_def by (subst push_or_byte) (simp_all add: z order_less_trans [of _ 16])
  have x: "unat x = ((unat b3 mod 16) * 256 + unat b4) * 256 + unat b5"
    unfolding x_def using b by (subst push_or_byte) (simp_all add: y order_less_trans [of _ 65536])
  let ?t = "(unat b3 mod 16) * 65536 + unat b4 * 256 + unat b5"
  have t: "unat x = ?t" "?t < 1048576" using x b by simp_all
  have "unat (x * 2000) = ?t * 2000" using t by (simp add: unat_word_ariths)
  then have q: "unat (x * 2000 div 1024 div 1024) = ?t * 2000 div 1048576"
    by (simp add: unat_div div_mult2_eq [symmetric])
  define w where "w = x * 2000 div 1024 div 1024"
  have w: "unat w = ?t * 2000 div 1048576" "unat w < 2000" using q t(2) by (simp_all add: w_def div_less_iff_less_mult)
  have small: "signed_take_bit 31 (int n - 500) = int n - 500" if "n < 2000" for n
    using that by (intro signed_take_bit_int_eq_self) simp_all
  have "w - 500 = of_int (int (unat w) - 500)" by simp
  then have "sint (w - 500) = int (unat w) - 500" using small [OF w(2)] by (simp only: signed_of_int) simp
  then show ?thesis using w(1) by (simp only: w_def x_def y_def z_def)
qed

lemma read_AHT25_spec:
  assumes "length b = 6"
  shows "\<exists>r'. read_AHT25 fin b r = Some (if b ! 0 AND 0x68 = 0x08 then 0 else - 1, r')
    \<and> room_out r' = room_out r @ [Rd 6 False, Delay 5] \<and> ac_status r' = ac_status r \<and> is_frist r' = is_frist r
    \<and> (if b ! 0 AND 0x68 = 0x08 then unat (g_rh r') = aht25_humidity b * 1000 div 1048576
         \<and> sint (g_t r') = int (aht25_temperature b * 2000 div 1048576) - 500
       else g_rh r' = g_rh r \<and> g_t r' = g_t r)"
  using assms humidity_word [of "b ! 1" "b ! 2" "b ! 3"] temperature_word [of "b ! 3" "b ! 4" "b ! 5"]
  by (simp add: read_AHT25_def R_SCI_I2C_Read_Sync_def emit_def Let_def aht25_humidity_def aht25_temperature_def)

lemma status_spec:
  "AHT25_Read_Status fin s r = Some (s, r\<lparr>room_out := room_out r @ [Wr [0] True, Rd 1 False, Delay 5]\<rparr>)"
  by (simp add: AHT25_Read_Status_def R_SCI_I2C_Read_Sync_def R_SCI_I2C_Write_Sync_def emit_def)

text \<open>The start-up of the sensor, which the first update runs: what goes over the bus, with the pauses.\<close>

definition jh_events :: "u8 \<Rightarrow> u8 list \<Rightarrow> room_event list" where
  "jh_events a reply = [Wr [a, 0, 0] False, Delay 5, Rd 3 False, Delay 5, Delay 10,
     Wr (take 3 ((take 3 reply @ [0, 0, 0])[0 := 0xB0 OR a])) False]"

definition startup_events :: "aht25_reply \<Rightarrow> room_event list" where
  "startup_events d = [Delay 100, Wr [0] True, Rd 1 False, Delay 5]
     @ (if status0 d AND 0x18 \<noteq> 0x18
        then jh_events 0x1b (reg_reply d 0) @ jh_events 0x1c (reg_reply d 1) @ jh_events 0x1e (reg_reply d 2)
          @ [Wr [0] True, Rd 1 False, Delay 5] else [])
     @ [Wr [0xBA] False, Delay 10, Wr [0xE1, 0x08, 0x00] False, Delay 10]"

lemma jh_reset_spec: "JH_Reset_REG fin a reply r = Some (r\<lparr>room_out := room_out r @ jh_events a reply\<rparr>)"
  by (simp add: JH_Reset_REG_def R_SCI_I2C_Read_Sync_def R_SCI_I2C_Write_Sync_def emit_def jh_events_def)

lemma reg_spec: "reg_AHT25 fin reply r = Some (r\<lparr>room_out := room_out r @ jh_events 0x1b (reply 0)
    @ jh_events 0x1c (reply 1) @ jh_events 0x1e (reply 2)\<rparr>)"
  by (simp add: reg_AHT25_def jh_reset_spec)

lemma frist_idem: "is_frist r \<Longrightarrow> r\<lparr>is_frist := True, room_out := x\<rparr> = r\<lparr>room_out := x\<rparr>"
  by (cases r) simp

lemma once_spec:
  assumes "length (measured d) = 6"
  shows "\<exists>r'. i2c_aht25_update fin d r = Some (if measured d ! 0 AND 0x68 = 0x08 then 0 else - 1, r')
    \<and> room_out r' = room_out r @ (if is_frist r then [] else startup_events d)
        @ [Wr [0xAC, 0x33, 0x00] False, Delay 80, Wr [0] True, Rd 1 False, Delay 5, Rd 6 False, Delay 5]
    \<and> is_frist r'
    \<and> (if measured d ! 0 AND 0x68 = 0x08 then unat (g_rh r') = aht25_humidity (measured d) * 1000 div 1048576
         \<and> sint (g_t r') = int (aht25_temperature (measured d) * 2000 div 1048576) - 500
       else g_rh r' = g_rh r \<and> g_t r' = g_t r)"
proof -
  let ?r1 = "r\<lparr>is_frist := True, room_out := room_out r @ (if is_frist r then [] else startup_events d)\<rparr>"
  let ?r3 = "?r1\<lparr>room_out := room_out ?r1 @ [Wr [0xAC, 0x33, 0x00] False, Delay 80, Wr [0] True, Rd 1 False, Delay 5]\<rparr>"
  have "i2c_aht25_update fin d r = read_AHT25 fin (measured d) ?r3"
    by (simp add: i2c_aht25_update_def read_AHT25_once_def startMeasure_AHT25_def reset_AHT25_def init_AHT25_def
        R_SCI_I2C_Write_Sync_def emit_def status_spec reg_spec startup_events_def frist_idem)
  then show ?thesis using read_AHT25_spec [OF assms, of fin ?r3] by auto
qed

text \<open>
  An update starts the sensor up once, in the first call, then triggers a measurement,
  waits, and reads six bytes. When the status byte says that the sensor is calibrated and idle, the
  humidity is the 20-bit reading scaled to tenths of a percent and the temperature, as a signed number, the
  other 20-bit reading scaled to tenths of a degree; otherwise the result is -1 and both stay as they were.
\<close>

theorem aht25_update_correct:
  assumes "length (measured d) = 6"
  shows "\<exists>r'. i2c_aht25_update fin d r = Some (if measured d ! 0 AND 0x68 = 0x08 then 0 else - 1, r')
    \<and> room_out r' = room_out r @ (if is_frist r then [] else startup_events d)
        @ [Wr [0xAC, 0x33, 0x00] False, Delay 80, Wr [0] True, Rd 1 False, Delay 5, Rd 6 False, Delay 5]
    \<and> is_frist r'
    \<and> (if measured d ! 0 AND 0x68 = 0x08 then unat (g_rh r') = aht25_humidity (measured d) * 1000 div 1048576
         \<and> sint (g_t r') = int (aht25_temperature (measured d) * 2000 div 1048576) - 500
       else g_rh r' = g_rh r \<and> g_t r' = g_t r)"
  by (rule once_spec [OF assms])

text \<open>
  The loops that should wait for the end of a transfer never run their body: their condition is false at
  the first test. The bytes that are used are those that have arrived by then.
\<close>

lemma sync_never_waits: "R_SCI_I2C_Write_Sync fin src restart r = Some (emit (Wr src restart) r)"
  by (simp add: R_SCI_I2C_Write_Sync_def)

text \<open>Below zero degrees the unsigned variable wraps: \<open>-0.1\<close> is stored as \<open>4294967295\<close>.\<close>

lemma aht25_below_zero:
  assumes "length b = 6" "b ! 0 AND 0x68 = 0x08" "aht25_temperature b * 2000 div 1048576 = 499"
  shows "\<exists>r'. read_AHT25 fin b r = Some (0, r') \<and> unat (g_t r') = 4294967295"
proof -
  obtain r' where r': "read_AHT25 fin b r = Some (0, r')" "sint (g_t r') = - 1"
    using read_AHT25_spec [OF assms(1), of fin r] assms(2,3) by auto
  then have "g_t r' = - 1" by (metis signed_minus_1 signed_word_eqI)
  then show ?thesis using r'(1) by (simp add: unsigned_minus_1_eq_mask mask_eq_exp_minus_1)
qed

subsection \<open>Switching by a toggle\<close>

text \<open>The air conditioner is toggled by one command; how often it was sent.\<close>

fun toggles :: "room_event list \<Rightarrow> nat" where
  "toggles [] = 0"
| "toggles (e # es) = (if e = Uart [0xFA, 0xF1, 0x80, 0x7F, 0x1A] then 1 else 0) + toggles es"

lemma toggles_append [simp]: "toggles (a @ b) = toggles a + toggles b"
  by (induction a) auto

fun ac_run :: "u8 list \<Rightarrow> room \<Rightarrow> room" where
  "ac_run [] r = r"
| "ac_run (v # vs) r = ac_run vs (snd (smart_room_ac_on_off v r))"

definition ac_tracks :: "room \<Rightarrow> bool" where
  "ac_tracks r \<longleftrightarrow> ac_status r = (if odd (toggles (room_out r)) then 1 else 0)"

lemma ac_step_tracks:
  assumes "ac_tracks r" "v = 0 \<or> v = 1"
  shows "ac_tracks (snd (smart_room_ac_on_off v r))" "ac_status (snd (smart_room_ac_on_off v r)) = v"
  using assms
  by (auto simp: ac_tracks_def smart_room_ac_on_off_def uart_nec_ac_on_off_def serial_send_data_def emit_def split: if_splits)

lemma ac_run_tracks: "ac_tracks r \<Longrightarrow> \<forall>v\<in>set vs. v = 0 \<or> v = 1 \<Longrightarrow> ac_tracks (ac_run vs r)
    \<and> (vs \<noteq> [] \<longrightarrow> ac_status (ac_run vs r) = last vs)"
proof (induction vs arbitrary: r)
  case (Cons v vs)
  then show ?case using ac_step_tracks [of r v] by (cases vs) auto
qed simp

text \<open>
  While the requests are 0 and 1, the remembered state is that of the air conditioner,
  which every toggle command inverts: it is on just when the number of commands sent is odd, and is what
  the last request asked for.
\<close>

theorem ac_status_tracks:
  assumes "ac_tracks r" "\<forall>v\<in>set vs. v = 0 \<or> v = 1"
  shows "ac_tracks (ac_run vs r) \<and> (vs \<noteq> [] \<longrightarrow> ac_status (ac_run vs r) = last vs)"
  by (rule ac_run_tracks [OF assms])

text \<open>A request for on with another number than 1 inverts the air conditioner each time it comes.\<close>

lemma ac_other_number_toggles:
  assumes "v \<noteq> 0" "v \<noteq> 1" "ac_status r = 1"
  shows "ac_status (snd (smart_room_ac_on_off v r)) = 1
    \<and> toggles (room_out (snd (smart_room_ac_on_off v r))) = toggles (room_out r) + 1"
  using assms by (simp add: smart_room_ac_on_off_def uart_nec_ac_on_off_def serial_send_data_def emit_def)

definition demo_room :: room where
  "demo_room = \<lparr>room_out = [], is_frist = False, g_t = 0, g_rh = 0, ac_status = 0, light_status = 0\<rparr>"

theorem aht25_update_correct_witness:
  "\<exists>r'. i2c_aht25_update (\<lambda>_. False) \<lparr>status0 = 0x18, reg_reply = (\<lambda>_. []), status1 = 0, status2 = 0,
      measured = [0x08, 0x80, 0, 0x06, 0, 0]\<rparr> demo_room = Some (0, r') \<and> sint (g_t r') = 250 \<and> unat (g_rh r') = 500"
  using aht25_update_correct [of "\<lparr>status0 = 0x18, reg_reply = (\<lambda>_. []), status1 = 0, status2 = 0,
      measured = [0x08, 0x80, 0, 0x06, 0, 0]\<rparr>" "\<lambda>_. False" demo_room]
  by (auto simp: aht25_humidity_def aht25_temperature_def)

theorem ac_status_tracks_witness: "ac_status (ac_run [1, 1, 0, 1] demo_room) = 1"
proof -
  have "ac_tracks demo_room" by (simp add: ac_tracks_def demo_room_def)
  from ac_status_tracks [OF this, of "[1, 1, 0, 1]"] show ?thesis by (simp del: ac_run.simps)
qed

end
