(* ===== verification/Spec2Isabelle.thy ===== *)
theory Spec2Isabelle
  imports Ipc_Mq_Calls Idle Object_List Mem_Small Mem_Pool Ring_Buffer Ffs Rt_List App_AiChat App_Games App_FileIni Drv_DataQueue Drv_WorkQueue Device Ring_Block Drv_Touch Rt_Printf Video_Player Shell
    App_Math App_SmartRoom
begin

text \<open>
  A verification library for the software of the RA6M3 HMI board: the RT-Thread kernel 5.0.0 that it runs,
  in the configuration of \<open>mcu/ra6m3-hmi/rtconfig.h\<close> (one core, 32 priorities, names of 8 characters, 1000
  ticks per second, assertions on, small memory allocator as heap), the driver layer on the kernel, and the
  applications of the board. Paths in this library are under \<open>src/\<close>; the kernel's own are relative to
  \<open>rtos/rt-thread/5.0.x/\<close>.

  \<^bold>\<open>The parts and how they interact.\<close> The scheduler keeps the ready threads of each priority and a bit
  group of the priorities in use. Threads, timers and the IPC objects act on it by suspending a thread onto a
  waiting list and resuming it from there; a timer per thread ends a wait with a time limit, from the tick
  interrupt. The drivers' blocking objects (completions, data queues, work queues) use the same calls. The
  device layer is the front of the drivers; above it are the touch screen, the video player and the applications
  with their games, settings, sensor and chat client.

  \<^bold>\<open>State and failure.\<close> The kernel is one record (\<open>Kernel_State\<close>) of what the globals and control blocks of
  the code hold: threads, ready queues, timers, objects by identifier, lists of waiting threads. An intrusive
  list is the list of its nodes; \<open>Rt_List\<close> proves that the pointer operations of \<open>include/rtservice.h\<close> implement
  the list operations used. Every operation is a function on the state with the result \<open>None\<close> for a failed
  \<open>RT_ASSERT\<close>, a NULL dereference or an access outside an array, and error codes as integers. A call that
  gives up the processor is split at that place: its first part returns \<open>Done r\<close> or that it blocks, and a
  \<open>_resume\<close> function is what the thread does when it runs again, so that interleavings are sequences of these
  steps. Integers whose wrap-around matters are words: ticks, counters of 8, 16 and 32 bits, ring indices.

  \<^bold>\<open>Theories and code.\<close>
  \<^item> \<open>Prelude\<close>: machine types, error codes, assertions, lemmas on lists, words and flags, and the locale
    \<open>ordered_queue\<close> of queues in the order of a key. \<open>Fifo\<close>: the locales \<open>bounded_fifo\<close> and \<open>bounded_deque\<close>.
  \<^item> \<open>Kernel_State\<close> (\<open>include/rtdef.h\<close>), \<open>Kernel_Sched\<close> (\<open>src/scheduler.c\<close>), \<open>Kernel_Object\<close> (\<open>src/irq.c\<close>,
    \<open>include/rtdebug.h\<close>), \<open>Object_List\<close> (\<open>src/object.c\<close>), \<open>Kernel_Timer\<close> and \<open>Kernel_Clock\<close> (\<open>src/timer.c\<close>,
    \<open>src/clock.c\<close>), \<open>Kernel_Thread\<close> and \<open>Thread_Life\<close> (\<open>src/thread.c\<close>), \<open>Idle\<close> (\<open>src/idle.c\<close>).
  \<^item> \<open>Ipc_Base\<close>, \<open>Ipc_Sem\<close>, \<open>Ipc_Mutex\<close>, \<open>Ipc_Event\<close>, \<open>Ipc_Mailbox\<close>, \<open>Ipc_Mq\<close>, \<open>Ipc_Mq_Calls\<close>: \<open>src/ipc.c\<close>.
  \<^item> \<open>Mem_Small\<close> (\<open>src/mem.c\<close>), \<open>Mem_Pool\<close> (\<open>src/mempool.c\<close>), \<open>Ffs\<close> and \<open>Rt_Printf\<close> (\<open>src/kservice.c\<close>),
    \<open>Rt_List\<close> (\<open>include/rtservice.h\<close>), \<open>Device\<close> (\<open>src/device.c\<close>).
  \<^item> \<open>Ring_Buffer\<close>, \<open>Ring_Block\<close>, \<open>Drv_Completion\<close>, \<open>Drv_DataQueue\<close>, \<open>Drv_WorkQueue\<close>:
    \<open>components/drivers/ipc\<close>. \<open>Drv_Touch\<close>: the panel driver, \<open>components/drivers/touch/touch.c\<close> and the input
    device of the graphics library.
  \<^item> \<open>Msh\<close> and \<open>Shell\<close>: \<open>components/finsh\<close>, the splitting of lines and the completion, and the line editor.
  \<^item> \<open>Mini_Ini\<close>, \<open>Mini_Ini_Copy\<close>, \<open>Mini_Ini_Lookup\<close> (\<open>apps/app_hmi_board_gui/minIni\<close>) and \<open>App_FileIni\<close> on them;
    \<open>App_AiChat\<close>, \<open>App_2048\<close>, \<open>App_Snake\<close>, \<open>App_Games\<close>, \<open>App_Math\<close> (\<open>apps/app_hmi_board_gui\<close>);
    \<open>App_SmartRoom\<close> (\<open>apps/app_smart_room\<close>); \<open>Avi_File\<close> and \<open>Video_Player\<close>, the video player
    and the parser of its files (\<open>mcu/ra6m3-hmi/board/ports/avi\<close>).

  \<^bold>\<open>What the lemmas show.\<close> Each theory states an invariant of its state and that the operations keep it, then
  the behaviour of each operation on every branch, errors included, then what follows for sequences of
  operations. \<open>kernel_wf\<close> is the invariant of the kernel; on it rest the choice of the highest ready priority,
  the wake-up of sleeping threads over the wrap-around of the tick, priority inheritance, the conservation of
  tokens and the wake-ups of event sets. Mailboxes, message queues, ring buffers and data queues interpret the
  locale of bounded buffers, waiting queues and timer lists that of ordered queues, the heap that of an
  allocator; the theorems on their orders are the facts of these locales on the code's own operations. Round
  trips are proved for the INI files, the JSON escapes, printed numbers, AVI files and the lines of the shell; the
  games, the shell and the touch screen are compared with definitions of what the user sees. Lemmas at the end of a theory prove defects of the code that
  the model shows; the list of findings beside this library names them.

  \<^bold>\<open>Loops.\<close> Loops over structures are recursions with a measure; those whose end
  depends on the state (the timer loops, the search of the allocator, the reset of a message queue, the loops
  over waiting threads, the copying of INI lines) are \<open>partial_function\<close>s with the result \<open>None\<close> when they do not
  return, and the theorems prove that they return. A run of the scheduler, of the games or of the video player is
  a list of steps of any length; only the search for films has fuel, the depth of the directories.

  \<^bold>\<open>Parameters.\<close> What is not in the repository's own code or cannot be known is an argument: random numbers,
  the answers of sockets, files and buses, the results of allocations where the heap is not at hand, the
  functions of a driver behind a device, the callbacks of timers.

  \<^bold>\<open>Not modelled.\<close> The context switch, stacks and entry points of threads (processor code); the variants
  for several cores, processes, signals and modules, which the configuration leaves out; the slab allocator and
  the memory heaps; wait queues, pipes and the other device frameworks of \<open>components/drivers\<close> beside those
  above; the commands and scripts of the shell, the file systems, the network stacks and the wireless drivers; the vendored packages (the
  graphics library, JSON, MQTT, cloud kit, modem drivers), the chip vendor's drivers, generated code, fonts and
  images; the drawing of the screens, the output of sound and pictures, the screens that only show assets, and
  the MQTT and display code of the smaller applications. The manifest lists these parts with their reasons.
\<close>

end
